(* ===== verification/PG_Prelude.thy ===== *)
theory PG_Prelude
  imports Complex_Main "HOL-Library.AList" "HOL-Library.Sublist" "HOL-Library.Multiset"
begin

text \<open>
  Shared ground of the development: the Go types every component uses and the lemmas
  about them.

  \<^item> A Go string is a list of bytes, \<open>string\<close>. The case and white-space functions
    treat the ASCII range the way package \<open>strings\<close> does and leave other bytes alone.
  \<^item> A Go map is an association list with distinct keys, read with \<open>map_of\<close>, written
    with \<open>AList.update\<close> and \<open>AList.delete\<close>. A \<open>range\<close> loop over it follows the list;
    Go promises no order, so what is proved of such a loop is stated through \<open>map_of\<close>
    or sets.
  \<^item> A \<open>float64\<close> is a real number: rounding is not modelled.
  \<^item> A \<open>time.Time\<close> is an integer, nanoseconds since Go's zero time.
\<close>

named_theorems go_string "definitions of the string functions, for evaluation on literals"
named_theorems go_map "lookups in maps after updates"

section \<open>Maps\<close>

type_synonym ('k, 'v) gomap = "('k \<times> 'v) list"

abbreviation gm_keys :: "('k, 'v) gomap \<Rightarrow> 'k list" where
  "gm_keys m \<equiv> map fst m"

definition gm_ok :: "('k, 'v) gomap \<Rightarrow> bool" where
  "gm_ok m \<longleftrightarrow> distinct (gm_keys m)"

definition gm_has :: "('k, 'v) gomap \<Rightarrow> 'k \<Rightarrow> bool" where
  "gm_has m k \<longleftrightarrow> map_of m k \<noteq> None"

lemma gm_has_iff [go_map]: "gm_has m k \<longleftrightarrow> k \<in> set (gm_keys m)"
  by (auto simp: gm_has_def map_of_eq_None_iff)

lemma gm_ok_Nil [simp, intro]: "gm_ok []"
  by (simp add: gm_ok_def)

lemma gm_ok_update [simp, intro]: "gm_ok m \<Longrightarrow> gm_ok (AList.update k v m)"
  by (simp add: gm_ok_def distinct_update)

lemma gm_ok_delete [simp, intro]: "gm_ok m \<Longrightarrow> gm_ok (AList.delete k m)"
  by (simp add: gm_ok_def distinct_delete)

lemma gm_ok_filter [simp, intro]: "gm_ok m \<Longrightarrow> gm_ok (filter P m)"
  by (simp add: gm_ok_def distinct_map_filter)

lemma map_of_update [go_map]: "map_of (AList.update k v m) = (map_of m)(k \<mapsto> v)"
  by (rule update_conv')

lemma map_of_delete [go_map]: "map_of (AList.delete k m) = (map_of m)(k := None)"
  by (rule delete_conv')

lemma map_of_filter_ok [go_map]:
  "gm_ok m \<Longrightarrow>
    map_of (filter P m) k = (case map_of m k of Some v \<Rightarrow> if P (k, v) then Some v else None | None \<Rightarrow> None)"
proof (induction m)
  case Nil
  then show ?case by simp
next
  case (Cons kv m)
  obtain k' v' where kv: "kv = (k', v')" by (cases kv)
  have notin: "map_of m k' = None"
    using Cons.prems kv by (auto simp: gm_ok_def map_of_eq_None_iff)
  have "gm_ok m" using Cons.prems by (simp add: gm_ok_def)
  then show ?case using Cons.IH kv notin by auto
qed

lemma gm_ok_in_set: "gm_ok m \<Longrightarrow> (k, v) \<in> set m \<longleftrightarrow> map_of m k = Some v"
  by (auto simp: gm_ok_def intro: map_of_is_SomeI map_of_SomeD)

lemma map_of_map_snd: "map_of (map (\<lambda>(k, v). (k, f k v)) m) k = map_option (f k) (map_of m k)"
  by (induction m) auto

section \<open>Lists\<close>

text \<open>\<open>sort.Slice\<close> and \<open>sort.SliceStable\<close> with a strict comparison: insertion into a
  sorted list, after the elements that are not greater, which is the stable order.\<close>

fun insert_by :: "('a \<Rightarrow> 'a \<Rightarrow> bool) \<Rightarrow> 'a \<Rightarrow> 'a list \<Rightarrow> 'a list" where
  "insert_by lt x [] = [x]"
| "insert_by lt x (y # ys) = (if lt y x then y # insert_by lt x ys else x # y # ys)"

fun sort_by :: "('a \<Rightarrow> 'a \<Rightarrow> bool) \<Rightarrow> 'a list \<Rightarrow> 'a list" where
  "sort_by lt [] = []"
| "sort_by lt (x # xs) = insert_by lt x (sort_by lt xs)"

lemma mset_insert_by [simp]: "mset (insert_by lt x xs) = add_mset x (mset xs)"
  by (induction xs) auto

lemma mset_sort_by [simp]: "mset (sort_by lt xs) = mset xs"
  by (induction xs) auto

lemma set_insert_by [simp]: "set (insert_by lt x xs) = insert x (set xs)"
  by (induction xs) auto

lemma set_sort_by [simp]: "set (sort_by lt xs) = set xs"
  by (induction xs) auto

lemma length_sort_by [simp]: "length (sort_by lt xs) = length xs"
  by (metis mset_sort_by size_mset)

lemma distinct_sort_by [simp]: "distinct (sort_by lt xs) = distinct xs"
  by (metis mset_eq_imp_distinct_iff mset_sort_by)

definition strict_weak :: "('a \<Rightarrow> 'a \<Rightarrow> bool) \<Rightarrow> bool" where
  "strict_weak lt \<longleftrightarrow> (\<forall>x y. lt x y \<longrightarrow> \<not> lt y x) \<and>
     (\<forall>x y z. \<not> lt y x \<longrightarrow> \<not> lt z y \<longrightarrow> \<not> lt z x)"

lemma strict_weak_asym: "strict_weak lt \<Longrightarrow> lt x y \<Longrightarrow> \<not> lt y x"
  unfolding strict_weak_def by blast

lemma strict_weak_trans: "strict_weak lt \<Longrightarrow> \<not> lt y x \<Longrightarrow> \<not> lt z y \<Longrightarrow> \<not> lt z x"
  unfolding strict_weak_def by blast

lemma sorted_insert_by:
  assumes lt: "strict_weak lt"
    and xs: "sorted_wrt (\<lambda>a b. \<not> lt b a) xs"
  shows "sorted_wrt (\<lambda>a b. \<not> lt b a) (insert_by lt x xs)"
  using xs
proof (induction xs)
  case Nil
  then show ?case by simp
next
  case (Cons y ys)
  show ?case
  proof (cases "lt y x")
    case True
    then have "\<not> lt x y" by (rule strict_weak_asym [OF lt])
    then show ?thesis using True Cons by simp
  next
    case False
    then have "\<forall>z \<in> set ys. \<not> lt z x"
      using Cons.prems strict_weak_trans [OF lt, of y x] by simp
    then show ?thesis using False Cons.prems by simp
  qed
qed

lemma sorted_sort_by:
  "strict_weak lt \<Longrightarrow> sorted_wrt (\<lambda>a b. \<not> lt b a) (sort_by lt xs)"
  by (induction xs) (auto intro: sorted_insert_by)

text \<open>Where the order decides between any two elements, sorting forgets where they came from.\<close>

lemma sort_by_unique:
  assumes lt: "strict_weak lt" and tot: "\<And>x y. x \<in> set xs \<Longrightarrow> y \<in> set xs \<Longrightarrow> x = y \<or> lt x y \<or> lt y x"
    and ms: "mset xs = mset ys"
  shows "sort_by lt xs = sort_by lt ys"
proof -
  have "us = vs" if "mset us = mset vs" "sorted_wrt (\<lambda>a b. \<not> lt b a) us" "sorted_wrt (\<lambda>a b. \<not> lt b a) vs" "set us \<subseteq> set xs" for us vs
    using that
  proof (induction us arbitrary: vs)
    case Nil
    then show ?case by simp
  next
    case (Cons u us)
    obtain v ws where vs: "vs = v # ws" using Cons.prems(1) by (cases vs) auto
    have mem: "u \<in> set vs" "v \<in> set (u # us)" using Cons.prems(1) vs by (metis list.set_intros(1) set_mset_mset)+
    have "\<not> lt v u" "\<not> lt u v" using Cons.prems(2,3) mem vs strict_weak_asym [OF lt, of u u] strict_weak_asym [OF lt, of v v] by auto
    moreover have "u \<in> set xs" "v \<in> set xs" using Cons.prems(4) mem by auto
    ultimately have "u = v" using tot by blast
    then show ?case using Cons.IH [of ws] Cons.prems vs by simp
  qed
  from this [of "sort_by lt xs" "sort_by lt ys"] show ?thesis using ms sorted_sort_by [OF lt] by simp
qed

lemma strict_weak_measure:
  fixes f :: "'a \<Rightarrow> 'b::linorder"
  shows "strict_weak (\<lambda>x y. f x < f y)"
  by (auto simp: strict_weak_def)

lemma strict_weak_measure_desc:
  fixes f :: "'a \<Rightarrow> 'b::linorder"
  shows "strict_weak (\<lambda>x y. f x > f y)"
  by (auto simp: strict_weak_def)

lemma strict_weak_lex:
  fixes f :: "'a \<Rightarrow> 'b::linorder"
  assumes "strict_weak lt"
  shows "strict_weak (\<lambda>x y. f x < f y \<or> (f x = f y \<and> lt x y))"
  unfolding strict_weak_def
proof (intro conjI allI impI)
  fix x y
  assume "f x < f y \<or> f x = f y \<and> lt x y"
  then show "\<not> (f y < f x \<or> f y = f x \<and> lt y x)"
    using strict_weak_asym [OF assms] by auto
next
  fix x y z
  assume "\<not> (f y < f x \<or> f y = f x \<and> lt y x)" and "\<not> (f z < f y \<or> f z = f y \<and> lt z y)"
  then show "\<not> (f z < f x \<or> f z = f x \<and> lt z x)"
    using strict_weak_trans [OF assms, of y x z]
    by (cases "f x" "f y" rule: linorder_cases; cases "f y" "f z" rule: linorder_cases) auto
qed

lemma strict_weak_lex_desc:
  fixes f :: "'a \<Rightarrow> 'b::linorder"
  assumes "strict_weak lt"
  shows "strict_weak (\<lambda>x y. f x > f y \<or> (f x = f y \<and> lt x y))"
  unfolding strict_weak_def
proof (intro conjI allI impI)
  fix x y
  assume "f x > f y \<or> f x = f y \<and> lt x y"
  then show "\<not> (f y > f x \<or> f y = f x \<and> lt y x)"
    using strict_weak_asym [OF assms] by auto
next
  fix x y z
  assume "\<not> (f y > f x \<or> f y = f x \<and> lt y x)" and "\<not> (f z > f y \<or> f z = f y \<and> lt z y)"
  then show "\<not> (f z > f x \<or> f z = f x \<and> lt z x)"
    using strict_weak_trans [OF assms, of y x z]
    by (cases "f x" "f y" rule: linorder_cases; cases "f y" "f z" rule: linorder_cases) auto
qed

section \<open>Strings\<close>

definition lower_char :: "char \<Rightarrow> char" where
  "lower_char c = (let n = of_char c :: nat in if 65 \<le> n \<and> n \<le> 90 then char_of (n + 32) else c)"

definition upper_char :: "char \<Rightarrow> char" where
  "upper_char c = (let n = of_char c :: nat in if 97 \<le> n \<and> n \<le> 122 then char_of (n - 32) else c)"

definition to_lower :: "string \<Rightarrow> string" where
  "to_lower s = map lower_char s"

definition to_upper :: "string \<Rightarrow> string" where
  "to_upper s = map upper_char s"

definition equal_fold :: "string \<Rightarrow> string \<Rightarrow> bool" where
  "equal_fold s t \<longleftrightarrow> to_lower s = to_lower t"

definition is_space :: "char \<Rightarrow> bool" where
  "is_space c \<longleftrightarrow> of_char c \<in> {9, 10, 11, 12, 13, 32 :: nat}"

definition trim_space :: "string \<Rightarrow> string" where
  "trim_space s = rev (dropWhile is_space (rev (dropWhile is_space s)))"

fun str_index :: "string \<Rightarrow> string \<Rightarrow> nat option" where
  "str_index [] sub = (if sub = [] then Some 0 else None)"
| "str_index (c # cs) sub =
     (if prefix sub (c # cs) then Some 0 else map_option Suc (str_index cs sub))"

definition str_contains :: "string \<Rightarrow> string \<Rightarrow> bool" where
  "str_contains s sub \<longleftrightarrow> str_index s sub \<noteq> None"

text \<open>\<open>strings.Split\<close> at a one-byte separator: never an empty list.\<close>

fun split_on :: "char \<Rightarrow> string \<Rightarrow> string list" where
  "split_on sep [] = [[]]"
| "split_on sep (c # cs) =
     (if c = sep then [] # split_on sep cs
      else (case split_on sep cs of [] \<Rightarrow> [[c]] | w # ws \<Rightarrow> (c # w) # ws))"

definition str_cut :: "string \<Rightarrow> string \<Rightarrow> (string \<times> string) option" where
  "str_cut s sep = map_option (\<lambda>i. (take i s, drop (i + length sep) s)) (str_index s sep)"

fun str_join :: "string list \<Rightarrow> string \<Rightarrow> string" where
  "str_join [] sep = []"
| "str_join [x] sep = x"
| "str_join (x # y # ys) sep = x @ sep @ str_join (y # ys) sep"

definition cut_prefix :: "string \<Rightarrow> string \<Rightarrow> string option" where
  "cut_prefix s p = (if prefix p s then Some (drop (length p) s) else None)"

lemmas [go_string] = lower_char_def upper_char_def to_lower_def to_upper_def equal_fold_def
  is_space_def trim_space_def str_contains_def str_cut_def cut_prefix_def

lemma str_index_SomeD: "str_index s sub = Some i \<Longrightarrow> prefix sub (drop i s) \<and> i + length sub \<le> length s"
proof (induction s arbitrary: i)
  case Nil
  then show ?case by (auto split: if_splits)
next
  case (Cons c cs)
  then show ?case by (auto split: if_splits dest: prefix_length_le)
qed

lemma str_index_least: "str_index s sub = Some i \<Longrightarrow> j < i \<Longrightarrow> \<not> prefix sub (drop j s)"
proof (induction s arbitrary: i j)
  case Nil
  then show ?case by (auto split: if_splits)
next
  case (Cons c cs)
  then show ?case by (cases j) (auto split: if_splits)
qed

lemma str_index_NoneD: "str_index s sub = None \<Longrightarrow> j \<le> length s \<Longrightarrow> \<not> prefix sub (drop j s)"
proof (induction s arbitrary: j)
  case Nil
  then show ?case by (auto split: if_splits)
next
  case (Cons c cs)
  then show ?case by (cases j) (auto split: if_splits)
qed

lemma str_index_exists: "prefix sub (drop j s) \<Longrightarrow> j \<le> length s \<Longrightarrow> \<exists>i \<le> j. str_index s sub = Some i"
  by (metis option.exhaust not_le_imp_less str_index_NoneD str_index_least)

lemma str_contains_iff: "str_contains s sub \<longleftrightarrow> (\<exists>xs ys. s = xs @ sub @ ys)"
proof
  assume "str_contains s sub"
  then obtain i where "str_index s sub = Some i" by (auto simp: str_contains_def)
  then have "prefix sub (drop i s)" by (simp add: str_index_SomeD)
  then obtain ys where "drop i s = sub @ ys" by (auto simp: prefix_def)
  then have "s = take i s @ sub @ ys" by (metis append_take_drop_id)
  then show "\<exists>xs ys. s = xs @ sub @ ys" by blast
next
  assume "\<exists>xs ys. s = xs @ sub @ ys"
  then obtain xs ys where s: "s = xs @ sub @ ys" by blast
  then have "prefix sub (drop (length xs) s)" by simp
  then show "str_contains s sub"
    using str_index_exists [of sub "length xs" s] s by (auto simp: str_contains_def)
qed

lemma str_index_single_None: "str_index s [c] = None \<longleftrightarrow> c \<notin> set s"
  by (induction s) auto

lemma split_on_not_Nil [simp]: "split_on sep s \<noteq> []"
  by (cases s) (auto split: list.splits)

lemma split_on_no_sep: "w \<in> set (split_on sep s) \<Longrightarrow> sep \<notin> set w"
  by (induction s arbitrary: w) (auto split: if_splits list.splits)

lemma split_on_single: "sep \<notin> set s \<Longrightarrow> split_on sep s = [s]"
  by (induction s) auto

lemma join_split_on: "str_join (split_on sep s) [sep] = s"
proof (induction s)
  case Nil
  then show ?case by simp
next
  case (Cons c cs)
  then show ?case
    by (cases "split_on sep cs") (auto split: list.splits, (metis append_Cons append_Nil str_join.simps list.exhaust)+)
qed

lemma split_on_append: "sep \<notin> set x \<Longrightarrow> split_on sep (x @ sep # s) = x # split_on sep s"
  by (induction x) auto

lemma split_on_join: "xs \<noteq> [] \<Longrightarrow> (\<And>x. x \<in> set xs \<Longrightarrow> sep \<notin> set x) \<Longrightarrow> split_on sep (str_join xs [sep]) = xs"
proof (induction xs "[sep]" rule: str_join.induct)
  case (2 x)
  then show ?case by (simp add: split_on_single)
next
  case (3 x y ys)
  then show ?case by (simp add: split_on_append)
qed simp

lemma length_split_on: "length (split_on sep s) = Suc (count_list s sep)"
  by (induction s) (auto split: list.splits)

section \<open>Numbers as text\<close>

definition digit_val :: "char \<Rightarrow> int option" where
  "digit_val c = (let n = of_char c :: nat in if 48 \<le> n \<and> n \<le> 57 then Some (int n - 48) else None)"

fun digits_val :: "int \<Rightarrow> string \<Rightarrow> int option" where
  "digits_val acc [] = Some acc"
| "digits_val acc (c # cs) =
     (case digit_val c of None \<Rightarrow> None | Some d \<Rightarrow> digits_val (10 * acc + d) cs)"

definition int64_ok :: "int \<Rightarrow> bool" where
  "int64_ok n \<longleftrightarrow> - (2 ^ 63) \<le> n \<and> n < 2 ^ 63"

text \<open>\<open>strconv.Atoi\<close>: an optional sign, at least one digit, and a value that fits an int.\<close>

definition atoi :: "string \<Rightarrow> int option" where
  "atoi s =
     (let (neg, ds) = (case s of [] \<Rightarrow> (False, [])
                       | c # cs \<Rightarrow> if c = CHR ''-'' then (True, cs) else if c = CHR ''+'' then (False, cs)
                                  else (False, s))
      in if ds = [] then None
         else (case digits_val 0 ds of None \<Rightarrow> None
               | Some n \<Rightarrow> (let v = (if neg then - n else n) in if int64_ok v then Some v else None)))"

fun nat_dec :: "nat \<Rightarrow> string" where
  "nat_dec n = (if n < 10 then [char_of (48 + n)] else nat_dec (n div 10) @ [char_of (48 + n mod 10)])"

declare nat_dec.simps [simp del]

text \<open>Go compares strings byte by byte.\<close>

fun str_less :: "string \<Rightarrow> string \<Rightarrow> bool" where
  "str_less s [] = False"
| "str_less [] (d # t) = True"
| "str_less (c # s) (d # t) =
     (if c = d then str_less s t else (of_char c :: nat) < of_char d)"

lemma str_less_irrefl [simp]: "\<not> str_less s s"
  by (induction s) auto

lemma str_less_total: "str_less s t \<or> s = t \<or> str_less t s"
proof (induction s t rule: str_less.induct)
  case (1 s)
  then show ?case by (cases s) auto
next
  case (3 c s d t)
  have "c = d \<or> (of_char c :: nat) < of_char d \<or> (of_char d :: nat) < of_char c"
    using linorder_less_linear [of "of_char c :: nat" "of_char d"] by auto
  then show ?case using 3 by auto
qed simp

lemma str_less_asym: "str_less s t \<Longrightarrow> \<not> str_less t s"
  by (induction s t rule: str_less.induct) auto

lemma str_less_trans: "str_less s t \<Longrightarrow> str_less t u \<Longrightarrow> str_less s u"
proof (induction s t arbitrary: u rule: str_less.induct)
  case (3 c s d t)
  then show ?case by (cases u) (auto split: if_splits)
next
  case (2 d t)
  then show ?case by (cases u) auto
qed simp

lemma strict_weak_str: "strict_weak (\<lambda>x y. str_less (f x) (f y))"
  unfolding strict_weak_def using str_less_asym str_less_trans str_less_total by metis

text \<open>The verb \<open>%d\<close>.\<close>

definition int_dec :: "int \<Rightarrow> string" where
  "int_dec n = (if n < 0 then ''-'' @ nat_dec (nat (- n)) else nat_dec (nat n))"

lemmas [go_string] = digit_val_def int64_ok_def atoi_def int_dec_def

text \<open>A number written in decimal reads back, and uses digits only.\<close>

lemma digits_val_append: "digits_val a (xs @ ys) = (case digits_val a xs of None \<Rightarrow> None | Some b \<Rightarrow> digits_val b ys)"
  by (induction xs arbitrary: a) (auto split: option.split)

lemma digit_char: "d < 10 \<Longrightarrow> digit_val (char_of (48 + d)) = Some (int d)"
  by (simp add: digit_val_def Let_def)

lemma nat_dec_val: "digits_val 0 (nat_dec n) = Some (int n)"
proof (induction n rule: nat_dec.induct)
  case (1 n)
  show ?case
  proof (cases "n < 10")
    case True
    then show ?thesis by (simp add: nat_dec.simps [of n] digit_char)
  next
    case False
    have "digit_val (char_of (48 + n mod 10)) = Some (int (n mod 10))" by (rule digit_char) simp
    moreover have "10 * int (n div 10) + int (n mod 10) = int n" by presburger
    ultimately show ?thesis using 1 False by (simp add: nat_dec.simps [of n] digits_val_append)
  qed
qed

lemma nat_dec_digits: "c \<in> set (nat_dec n) \<Longrightarrow> digit_val c \<noteq> None"
proof (induction n rule: nat_dec.induct)
  case (1 n)
  have "digit_val (char_of (48 + n mod 10)) = Some (int (n mod 10))" by (rule digit_char) simp
  then show ?case using 1 by (cases "n < 10") (auto simp: nat_dec.simps [of n] digit_char)
qed

lemma nat_dec_nonempty: "nat_dec n \<noteq> []"
  by (simp add: nat_dec.simps [of n])

lemma no_digits: "digit_val (CHR ''-'') = None" "digit_val (CHR ''+'') = None" "digit_val (CHR ''|'') = None" "digit_val (CHR ''.'') = None" "digit_val (CHR ''l'') = None"
  "digit_val (CHR 0x0A) = None"
  by code_simp+

lemma nat_dec_inj: "nat_dec m = nat_dec n \<Longrightarrow> m = n"
proof -
  assume "nat_dec m = nat_dec n"
  then have "Some (int m) = Some (int n)" unfolding nat_dec_val [symmetric] by (rule arg_cong)
  then show "m = n" by simp
qed

lemma hd_int_dec: "hd (int_dec k) = CHR ''-'' \<longleftrightarrow> k < 0"
proof -
  have "hd (nat_dec n) \<noteq> CHR ''-''" for n
  proof -
    have "digit_val (hd (nat_dec n)) \<noteq> None" by (rule nat_dec_digits [of _ n]) (simp add: nat_dec_nonempty)
    then show ?thesis by (rule contrapos_nn) (simp only: no_digits(1))
  qed
  then show ?thesis by (simp add: int_dec_def)
qed

lemma int_dec_inj: "int_dec m = int_dec n \<Longrightarrow> m = n"
proof -
  assume eq: "int_dec m = int_dec n"
  then have sgn: "m < 0 \<longleftrightarrow> n < 0" using hd_int_dec by metis
  show "m = n"
  proof (cases "m < 0")
    case True
    then have "nat_dec (nat (- m)) = nat_dec (nat (- n))" using eq sgn by (simp add: int_dec_def)
    then show ?thesis using nat_dec_inj [of "nat (- m)" "nat (- n)"] True sgn by simp
  next
    case False
    then have "nat_dec (nat m) = nat_dec (nat n)" using eq sgn by (simp add: int_dec_def)
    then show ?thesis using nat_dec_inj [of "nat m" "nat n"] False sgn by simp
  qed
qed

section \<open>Times\<close>

type_synonym gotime = int

definition zero_time :: gotime where
  "zero_time = 0"

definition second_ns :: int where
  "second_ns = 1000000000"

text \<open>Seconds from Go's zero time to the Unix epoch.\<close>

definition unix_epoch :: int where
  "unix_epoch = 62135596800"

definition time_unix :: "gotime \<Rightarrow> int" where
  "time_unix t = t div second_ns - unix_epoch"

lemma time_unix_mono: "s \<le> t \<Longrightarrow> time_unix s \<le> time_unix t"
  by (simp add: time_unix_def second_ns_def zdiv_mono1)

end
