(* ===== verification/Port_Sets.thy ===== *)
theory Port_Sets
  imports PG_Prelude
begin

text \<open>
  The port algebra of \<open>backend/internal/ingestion/ports.go\<close>: which ports of which
  transports a firewall leaves open. A \<open>PortSet\<close> is a Go map from a transport to sorted,
  merged ranges. \<open>port_in\<close> reads a set as the ports it contains; every operation is
  proved against that reading, and to keep the ranges canonical (\<open>ports_ok\<close>), which is
  what makes \<open>Empty\<close> and the rendering mean what they say.
\<close>

section \<open>Ranges\<close>

type_synonym port_range = "int \<times> int"

type_synonym port_set = "(string, port_range list) gomap"

definition proto_tcp :: string where "proto_tcp = ''tcp''"
definition proto_udp :: string where "proto_udp = ''udp''"
definition proto_icmp :: string where "proto_icmp = ''icmp''"
definition proto_icmpv6 :: string where "proto_icmpv6 = ''icmpv6''"

lemmas proto_defs = proto_tcp_def proto_udp_def proto_icmp_def proto_icmpv6_def

definition max_port :: int where "max_port = 65535"

definition ranges_of :: "port_set \<Rightarrow> string \<Rightarrow> port_range list" where
  "ranges_of s p = (case map_of s p of None \<Rightarrow> [] | Some rs \<Rightarrow> rs)"

definition in_range :: "int \<Rightarrow> port_range \<Rightarrow> bool" where
  "in_range n r \<longleftrightarrow> fst r \<le> n \<and> n \<le> snd r"

definition in_ranges :: "int \<Rightarrow> port_range list \<Rightarrow> bool" where
  "in_ranges n rs \<longleftrightarrow> (\<exists>r \<in> set rs. in_range n r)"

text \<open>What a set contains: port \<open>n\<close> of transport \<open>p\<close>.\<close>

definition port_in :: "port_set \<Rightarrow> string \<Rightarrow> int \<Rightarrow> bool" where
  "port_in s p n \<longleftrightarrow> in_ranges n (ranges_of s p)"

section \<open>Merging\<close>

text \<open>The loop of \<open>merge\<close> after the sort: the first argument is the last range written.\<close>

fun merge_go :: "port_range \<Rightarrow> port_range list \<Rightarrow> port_range list" where
  "merge_go cur [] = [cur]"
| "merge_go cur (r # rs) =
     (if fst r \<le> snd cur + 1 then merge_go (fst cur, max (snd cur) (snd r)) rs
      else cur # merge_go r rs)"

definition merge :: "port_range list \<Rightarrow> port_range list" where
  "merge rs = (case sort_by (\<lambda>x y. fst x < fst y) rs of [] \<Rightarrow> [] | r # rs' \<Rightarrow> merge_go r rs')"

definition canonical :: "port_range list \<Rightarrow> bool" where
  "canonical rs \<longleftrightarrow> (\<forall>r \<in> set rs. fst r \<le> snd r) \<and> sorted_wrt (\<lambda>r q. snd r + 1 < fst q) rs"

definition ports_ok :: "port_set \<Rightarrow> bool" where
  "ports_ok s \<longleftrightarrow> gm_ok s \<and> (\<forall>(p, rs) \<in> set s. canonical rs)"

lemma in_ranges_simps [simp]:
  "\<not> in_ranges n []"
  "in_ranges n (r # rs) \<longleftrightarrow> in_range n r \<or> in_ranges n rs"
  "in_ranges n (rs @ qs) \<longleftrightarrow> in_ranges n rs \<or> in_ranges n qs"
  by (auto simp: in_ranges_def)

lemma in_ranges_mset: "mset rs = mset qs \<Longrightarrow> in_ranges n rs = in_ranges n qs"
  unfolding in_ranges_def by (metis mset_eq_setD)

lemma in_merge_go:
  "sorted_wrt (\<lambda>x y. fst x \<le> fst y) (cur # rs) \<Longrightarrow>
     in_ranges n (merge_go cur rs) \<longleftrightarrow> in_range n cur \<or> in_ranges n rs"
proof (induction cur rs rule: merge_go.induct)
  case (1 cur)
  then show ?case by simp
next
  case (2 cur r rs)
  show ?case
  proof (cases "fst r \<le> snd cur + 1")
    case True
    have "sorted_wrt (\<lambda>x y. fst x \<le> fst y) ((fst cur, max (snd cur) (snd r)) # rs)"
      using "2.prems" by auto
    then have "in_ranges n (merge_go cur (r # rs)) \<longleftrightarrow>
        in_range n (fst cur, max (snd cur) (snd r)) \<or> in_ranges n rs"
      using "2.IH"(1) True by simp
    moreover have "in_range n (fst cur, max (snd cur) (snd r)) \<longleftrightarrow> in_range n cur \<or> in_range n r"
      using True "2.prems" by (auto simp: in_range_def)
    ultimately show ?thesis by auto
  next
    case False
    then show ?thesis using "2.IH"(2) "2.prems" by auto
  qed
qed

lemma sort_ranges_sorted: "sorted_wrt (\<lambda>x y. fst x \<le> fst y) (sort_by (\<lambda>x y. fst x < fst (y :: port_range)) rs)"
  using sorted_sort_by [OF strict_weak_measure, of fst rs] by (simp add: not_less)

lemma in_merge [simp]: "in_ranges n (merge rs) \<longleftrightarrow> in_ranges n rs"
proof (cases "sort_by (\<lambda>x y. fst x < fst y) rs")
  case Nil
  then have "rs = []" by (metis length_0_conv length_sort_by)
  then show ?thesis by (simp add: merge_def)
next
  case (Cons r rs')
  have "in_ranges n (merge rs) \<longleftrightarrow> in_ranges n (r # rs')"
    using sort_ranges_sorted [of rs] Cons by (simp add: merge_def in_merge_go)
  also have "\<dots> \<longleftrightarrow> in_ranges n rs"
    using in_ranges_mset [of "r # rs'" rs] Cons by (metis mset_sort_by)
  finally show ?thesis .
qed

lemma merge_go_from: "r \<in> set (merge_go cur rs) \<Longrightarrow> (\<forall>q \<in> set rs. b \<le> fst q) \<Longrightarrow> b \<le> fst cur \<Longrightarrow> b \<le> fst r"
  by (induction cur rs rule: merge_go.induct) (auto split: if_splits)

lemma merge_go_canonical:
  "sorted_wrt (\<lambda>x y. fst x \<le> fst y) (cur # rs) \<Longrightarrow> (\<forall>r \<in> set (cur # rs). fst r \<le> snd r) \<Longrightarrow>
     canonical (merge_go cur rs)"
proof (induction cur rs rule: merge_go.induct)
  case (1 cur)
  then show ?case by (simp add: canonical_def)
next
  case (2 cur r rs)
  show ?case
  proof (cases "fst r \<le> snd cur + 1")
    case True
    then show ?thesis using "2.IH"(1) "2.prems" by (auto simp: le_max_iff_disj)
  next
    case False
    have c: "canonical (merge_go r rs)" using "2.IH"(2) False "2.prems" by simp
    have "\<forall>q \<in> set (merge_go r rs). fst r \<le> fst q"
      using "2.prems" merge_go_from [of _ r rs "fst r"] by auto
    then show ?thesis using c False "2.prems" by (auto simp: canonical_def)
  qed
qed

lemma merge_canonical: "(\<forall>r \<in> set rs. fst r \<le> snd r) \<Longrightarrow> canonical (merge rs)"
proof (cases "sort_by (\<lambda>x y. fst x < fst y) rs")
  case Nil
  then show ?thesis by (simp add: merge_def canonical_def)
next
  case (Cons r rs')
  assume wf: "\<forall>r \<in> set rs. fst r \<le> snd r"
  then have "\<forall>q \<in> set (r # rs'). fst q \<le> snd q"
    using Cons by (metis set_sort_by)
  then show ?thesis using sort_ranges_sorted [of rs] Cons by (simp add: merge_def merge_go_canonical)
qed

section \<open>The operations\<close>

definition all_ports :: port_set where
  "all_ports = [(proto_tcp, [(0, max_port)]), (proto_udp, [(0, max_port)]),
                (proto_icmp, [(0, 0)]), (proto_icmpv6, [(0, 0)])]"

definition proto_ports :: "string \<Rightarrow> int \<Rightarrow> int \<Rightarrow> port_set" where
  "proto_ports protocol lo0 hi0 =
     (let (lo, hi) = (if lo0 > hi0 then (hi0, lo0) else (lo0, hi0));
          p = to_lower (trim_space protocol)
      in if p \<in> {'''', ''-1'', ''all'', ''*'', ''any''} then all_ports
         else if p \<in> {''tcp'', ''6''} then [(proto_tcp, [(lo, hi)])]
         else if p \<in> {''udp'', ''17''} then [(proto_udp, [(lo, hi)])]
         else if p \<in> {''icmp'', ''1''} then [(proto_icmp, [(0, 0)])]
         else if p \<in> {''icmpv6'', ''58''} then [(proto_icmpv6, [(0, 0)])]
         else [])"

text \<open>The bounds are pointers in the code: \<open>None\<close> is nil.\<close>

definition rule_ports :: "string \<Rightarrow> int option \<Rightarrow> int option \<Rightarrow> port_set" where
  "rule_ports protocol from to =
     (let lo = (case from of Some f \<Rightarrow> if f \<ge> 0 then f else 0 | None \<Rightarrow> 0);
          hi = (case to of Some t \<Rightarrow> if t \<ge> 0 then t else max_port | None \<Rightarrow> max_port)
      in proto_ports protocol lo hi)"

definition union_step :: "string \<times> port_range list \<Rightarrow> port_set \<Rightarrow> port_set" where
  "union_step = (\<lambda>(p, rs) out. AList.update p (merge (ranges_of out p @ rs)) out)"

definition ps_union :: "port_set \<Rightarrow> port_set \<Rightarrow> port_set" where
  "ps_union s t = fold union_step t (fold union_step s [])"

definition clip :: "port_range \<Rightarrow> port_range \<Rightarrow> port_range list" where
  "clip x y = (let lo = max (fst x) (fst y); hi = min (snd x) (snd y)
               in if lo \<le> hi then [(lo, hi)] else [])"

definition intersect_step :: "port_set \<Rightarrow> string \<times> port_range list \<Rightarrow> port_set \<Rightarrow> port_set" where
  "intersect_step t = (\<lambda>(p, a) out.
     let rs = concat (map (\<lambda>x. concat (map (\<lambda>y. clip x y) (ranges_of t p))) a)
     in if rs \<noteq> [] then AList.update p (merge rs) out else out)"

definition ps_intersect :: "port_set \<Rightarrow> port_set \<Rightarrow> port_set" where
  "ps_intersect s t = fold (intersect_step t) s []"

definition cut_range :: "port_range \<Rightarrow> port_range \<Rightarrow> port_range list" where
  "cut_range y x =
     (if snd y < fst x \<or> fst y > snd x then [x]
      else (if fst x < fst y then [(fst x, fst y - 1)] else []) @
           (if snd x > snd y then [(snd y + 1, snd x)] else []))"

definition minus_ranges :: "port_range list \<Rightarrow> port_range list \<Rightarrow> port_range list" where
  "minus_ranges a ys = fold (\<lambda>y rs. concat (map (cut_range y) rs)) ys a"

definition minus_step :: "port_set \<Rightarrow> string \<times> port_range list \<Rightarrow> port_set \<Rightarrow> port_set" where
  "minus_step t = (\<lambda>(p, a) out.
     let rs = minus_ranges a (ranges_of t p)
     in if rs \<noteq> [] then AList.update p rs out else out)"

definition ps_minus :: "port_set \<Rightarrow> port_set \<Rightarrow> port_set" where
  "ps_minus s t = fold (minus_step t) s []"

definition ps_empty :: "port_set \<Rightarrow> bool" where
  "ps_empty s \<longleftrightarrow> (\<forall>(p, rs) \<in> set s. rs = [])"

definition ps_transport :: "port_set \<Rightarrow> bool" where
  "ps_transport s \<longleftrightarrow> ranges_of s proto_tcp \<noteq> [] \<or> ranges_of s proto_udp \<noteq> []"

definition rule_protos :: "string list" where
  "rule_protos = [proto_tcp, proto_udp, proto_icmp, proto_icmpv6]"

definition ps_rules :: "port_set \<Rightarrow> (string \<times> int \<times> int) list" where
  "ps_rules s = concat (map (\<lambda>p. map (\<lambda>r. (p, fst r, snd r)) (ranges_of s p)) rule_protos)"

definition ps_string :: "port_set \<Rightarrow> string" where
  "ps_string s = str_join (concat (map (\<lambda>p. map (\<lambda>r.
       if p = proto_icmp \<or> p = proto_icmpv6 then p
       else if fst r = 0 \<and> snd r = max_port then p @ ''/all''
       else if fst r = snd r then p @ ''/'' @ int_dec (fst r)
       else p @ ''/'' @ int_dec (fst r) @ ''-'' @ int_dec (snd r)) (ranges_of s p)) rule_protos)) '', ''"

definition management_ports :: port_set where
  "management_ports = [(proto_tcp, merge
     [(22, 22), (23, 23), (3389, 3389), (5985, 5986), (5900, 5900),
      (2375, 2376), (6443, 6443), (10250, 10250), (2379, 2380),
      (3306, 3306), (5432, 5432), (1433, 1433), (1521, 1521),
      (6379, 6379), (27017, 27017), (9200, 9200), (11211, 11211)])]"

definition ps_management :: "port_set \<Rightarrow> port_set" where
  "ps_management s = ps_intersect s management_ports"

text \<open>Azure's port syntax: \<open>*\<close>, \<open>22\<close>, \<open>80-443\<close>, or a list.\<close>

definition port_spec :: "string \<Rightarrow> (int \<times> int) option" where
  "port_spec spec0 =
     (let spec = trim_space spec0
      in if spec \<noteq> ''*'' \<and> spec \<noteq> ''''
         then (let (a, b, is_range) = (case str_cut spec ''-'' of Some (x, y) \<Rightarrow> (x, y, True) | None \<Rightarrow> (spec, '''', False))
               in case atoi (trim_space a) of None \<Rightarrow> None
                  | Some x \<Rightarrow> Some (x, if is_range then (case atoi (trim_space b) of Some y \<Rightarrow> y | None \<Rightarrow> x) else x))
         else Some (0, max_port))"

definition rule_port_specs :: "string \<Rightarrow> string list \<Rightarrow> port_set" where
  "rule_port_specs protocol specs0 =
     fold (\<lambda>spec out. case port_spec spec of None \<Rightarrow> out
            | Some (lo, hi) \<Rightarrow> ps_union out (proto_ports protocol lo hi))
          (if specs0 = [] then [''*''] else specs0) []"

section \<open>First match\<close>

record firewall_rule =
  fr_ports :: port_set
  fr_allow :: bool

fun first_match_go :: "port_set \<Rightarrow> port_set \<Rightarrow> firewall_rule list \<Rightarrow> port_set" where
  "first_match_go undecided allowed [] = allowed"
| "first_match_go undecided allowed (r # rs) =
     (let hit = ps_intersect undecided (fr_ports r)
      in if ps_empty hit then first_match_go undecided allowed rs
         else first_match_go (ps_minus undecided hit)
                (if fr_allow r then ps_union allowed hit else allowed) rs)"

definition first_match :: "port_set \<Rightarrow> firewall_rule list \<Rightarrow> port_set" where
  "first_match offered rules = first_match_go offered [] rules"

section \<open>What the operations compute\<close>

lemma ranges_of_update [go_map]:
  "ranges_of (AList.update p rs m) q = (if p = q then rs else ranges_of m q)"
  by (auto simp: ranges_of_def map_of_update)

lemma ranges_of_Nil [simp]: "ranges_of [] p = []"
  by (simp add: ranges_of_def)

lemma ranges_of_Cons:
  "ranges_of ((q, rs) # s) p = (if p = q then rs else ranges_of s p)"
  by (simp add: ranges_of_def)

lemma ranges_of_notin: "p \<notin> set (gm_keys s) \<Longrightarrow> ranges_of s p = []"
  using map_of_eq_None_iff [of s p] by (simp add: ranges_of_def)

lemma ports_okD: "ports_ok s \<Longrightarrow> gm_ok s"
  by (simp add: ports_ok_def)

lemma canonical_Nil [simp]: "canonical []"
  by (simp add: canonical_def)

lemma ports_ok_ranges: "ports_ok s \<Longrightarrow> canonical (ranges_of s p)"
  by (auto simp: ports_ok_def ranges_of_def split: option.splits dest!: map_of_SomeD)

lemma ports_ok_Nil [simp]: "ports_ok []"
  by (simp add: ports_ok_def)

lemma ports_ok_Cons: "ports_ok ((p, rs) # s) \<longleftrightarrow> p \<notin> set (gm_keys s) \<and> canonical rs \<and> ports_ok s"
  by (auto simp: ports_ok_def gm_ok_def)

lemma ports_ok_update: "ports_ok m \<Longrightarrow> canonical rs \<Longrightarrow> ports_ok (AList.update p rs m)"
  by (induction m) (auto simp: ports_ok_Cons ports_ok_def gm_ok_def dom_update)

lemma canonical_wf: "canonical rs \<Longrightarrow> r \<in> set rs \<Longrightarrow> fst r \<le> snd r"
  by (simp add: canonical_def)

subsection \<open>Union\<close>

lemma union_fold_in:
  "gm_ok s \<Longrightarrow> port_in (fold union_step s out) p n \<longleftrightarrow> port_in out p n \<or> port_in s p n"
proof (induction s arbitrary: out)
  case Nil
  then show ?case by (simp add: port_in_def)
next
  case (Cons kv s)
  obtain q rs where kv: "kv = (q, rs)" by (cases kv)
  have notin: "q \<notin> set (gm_keys s)" and ok: "gm_ok s"
    using Cons.prems kv by (auto simp: gm_ok_def)
  have "port_in (fold union_step s (union_step kv out)) p n \<longleftrightarrow>
      port_in (union_step kv out) p n \<or> port_in s p n"
    using Cons.IH ok by simp
  then show ?case using kv ranges_of_notin [OF notin]
    by (auto simp: port_in_def union_step_def ranges_of_update ranges_of_Cons)
qed

lemma union_fold_ok: "ports_ok s \<Longrightarrow> ports_ok out \<Longrightarrow> ports_ok (fold union_step s out)"
proof (induction s arbitrary: out)
  case Nil
  then show ?case by simp
next
  case (Cons kv s)
  obtain q rs where kv: "kv = (q, rs)" by (cases kv)
  have rs: "canonical rs" and s: "ports_ok s" using Cons.prems(1) kv by (auto simp: ports_ok_Cons)
  have "canonical (merge (ranges_of out q @ rs))"
    using rs ports_ok_ranges [OF Cons.prems(2)] canonical_wf by (intro merge_canonical) auto
  then show ?case using Cons.IH s Cons.prems(2) kv by (simp add: union_step_def ports_ok_update)
qed

lemma port_in_union: "gm_ok s \<Longrightarrow> gm_ok t \<Longrightarrow> port_in (ps_union s t) p n \<longleftrightarrow> port_in s p n \<or> port_in t p n"
  by (simp add: ps_union_def union_fold_in) (simp add: port_in_def)

lemma ports_ok_union: "ports_ok s \<Longrightarrow> ports_ok t \<Longrightarrow> ports_ok (ps_union s t)"
  by (simp add: ps_union_def union_fold_ok)

subsection \<open>Intersection\<close>

lemma in_clip: "in_ranges n (clip x y) \<longleftrightarrow> in_range n x \<and> in_range n y"
  by (cases x; cases y) (auto simp: clip_def Let_def in_range_def in_ranges_def)

lemma in_ranges_concat: "in_ranges n (concat rss) \<longleftrightarrow> (\<exists>rs \<in> set rss. in_ranges n rs)"
  by (auto simp: in_ranges_def)

lemma in_clips:
  "in_ranges n (concat (map (\<lambda>x. concat (map (\<lambda>y. clip x y) b)) a)) \<longleftrightarrow> in_ranges n a \<and> in_ranges n b"
  by (auto simp: in_ranges_concat in_clip) (auto simp: in_ranges_def)

lemma intersect_fold_ranges:
  "gm_ok s \<Longrightarrow> (\<forall>q \<in> set (gm_keys s). ranges_of out q = []) \<Longrightarrow>
     port_in (fold (intersect_step t) s out) p n \<longleftrightarrow> port_in out p n \<or> (port_in s p n \<and> port_in t p n)"
proof (induction s arbitrary: out)
  case Nil
  then show ?case by (simp add: port_in_def)
next
  case (Cons kv s)
  obtain q rs where kv: "kv = (q, rs)" by (cases kv)
  have notin: "q \<notin> set (gm_keys s)" and ok: "gm_ok s"
    using Cons.prems kv by (auto simp: gm_ok_def)
  have pre: "\<forall>r \<in> set (gm_keys s). ranges_of (intersect_step t kv out) r = []"
    using Cons.prems kv notin by (auto simp: intersect_step_def Let_def ranges_of_update)
  have hit: "port_in (intersect_step t kv out) p n \<longleftrightarrow> port_in out p n \<or> (p = q \<and> in_ranges n rs \<and> port_in t p n)"
    using Cons.prems(2) kv in_clips [of n "ranges_of t q" rs]
    by (auto simp: intersect_step_def Let_def port_in_def ranges_of_update simp del: concat_eq_Nil_conv)
  show ?case using Cons.IH [OF ok pre] hit kv ranges_of_notin [OF notin]
    by (auto simp: port_in_def ranges_of_Cons)
qed

lemma clip_wf: "r \<in> set (clip x y) \<Longrightarrow> fst r \<le> snd r"
  by (cases x; cases y) (auto simp: clip_def Let_def split: if_splits)

lemma intersect_fold_ok: "ports_ok out \<Longrightarrow> ports_ok (fold (intersect_step t) s out)"
proof (induction s arbitrary: out)
  case Nil
  then show ?case by simp
next
  case (Cons kv s)
  obtain q rs where kv: "kv = (q, rs)" by (cases kv)
  have "canonical (merge (concat (map (\<lambda>x. concat (map (\<lambda>y. clip x y) (ranges_of t q))) rs)))"
    by (rule merge_canonical) (auto dest: clip_wf)
  then have "ports_ok (intersect_step t kv out)"
    using Cons.prems kv by (simp add: intersect_step_def Let_def ports_ok_update)
  then show ?case using Cons.IH by simp
qed

lemma port_in_intersect: "gm_ok s \<Longrightarrow> port_in (ps_intersect s t) p n \<longleftrightarrow> port_in s p n \<and> port_in t p n"
  unfolding ps_intersect_def by (subst intersect_fold_ranges) (auto simp: port_in_def)

lemma ports_ok_intersect: "ports_ok (ps_intersect s t)"
  by (simp add: ps_intersect_def intersect_fold_ok)

subsection \<open>Difference\<close>

lemma in_cut: "in_ranges n (cut_range y x) \<longleftrightarrow> in_range n x \<and> \<not> in_range n y"
  by (auto simp: cut_range_def in_range_def)

lemma in_minus_ranges: "in_ranges n (minus_ranges a ys) \<longleftrightarrow> in_ranges n a \<and> \<not> in_ranges n ys"
proof (induction ys arbitrary: a)
  case Nil
  then show ?case by (simp add: minus_ranges_def)
next
  case (Cons y ys)
  have "in_ranges n (concat (map (cut_range y) a)) \<longleftrightarrow> in_ranges n a \<and> \<not> in_range n y"
    by (auto simp: in_ranges_concat in_cut) (auto simp: in_ranges_def)
  then show ?case using Cons.IH [of "concat (map (cut_range y) a)"] by (auto simp: minus_ranges_def)
qed

lemma cut_range_bounds: "r \<in> set (cut_range y x) \<Longrightarrow> fst x \<le> snd x \<Longrightarrow> fst y \<le> snd y \<Longrightarrow>
    fst x \<le> fst r \<and> snd r \<le> snd x \<and> fst r \<le> snd r"
  by (cases x; cases y) (auto simp: cut_range_def split: if_splits)

lemma canonical_Cons:
  "canonical (x # a) \<longleftrightarrow> fst x \<le> snd x \<and> (\<forall>q \<in> set a. snd x + 1 < fst q) \<and> canonical a"
  by (auto simp: canonical_def)

lemma canonical_append:
  "canonical (a @ b) \<longleftrightarrow> canonical a \<and> canonical b \<and> (\<forall>r \<in> set a. \<forall>q \<in> set b. snd r + 1 < fst q)"
  by (auto simp: canonical_def sorted_wrt_append)

lemma canonical_cut: "fst x \<le> snd x \<Longrightarrow> fst y \<le> snd y \<Longrightarrow> canonical (cut_range y x)"
  by (cases x; cases y) (auto simp: canonical_def cut_range_def)

lemma canonical_cuts: "canonical a \<Longrightarrow> fst y \<le> snd y \<Longrightarrow> canonical (concat (map (cut_range y) a))"
proof (induction a)
  case Nil
  then show ?case by simp
next
  case (Cons x a)
  have x: "fst x \<le> snd x" and a: "canonical a" and sep: "\<forall>q \<in> set a. snd x + 1 < fst q"
    using Cons.prems(1) by (auto simp: canonical_Cons)
  have "\<forall>q \<in> set (concat (map (cut_range y) a)). snd x + 1 < fst q"
  proof
    fix q
    assume "q \<in> set (concat (map (cut_range y) a))"
    then obtain z where z: "z \<in> set a" "q \<in> set (cut_range y z)" by auto
    then have "fst z \<le> fst q" using cut_range_bounds canonical_wf [OF a] Cons.prems(2) by blast
    then show "snd x + 1 < fst q" using sep z(1) by force
  qed
  moreover have "\<forall>r \<in> set (cut_range y x). snd r \<le> snd x"
    using cut_range_bounds x Cons.prems(2) by blast
  ultimately show ?case
    using Cons.IH a canonical_cut x Cons.prems(2) by (fastforce simp: canonical_append)
qed

lemma canonical_minus: "canonical a \<Longrightarrow> (\<forall>y \<in> set ys. fst y \<le> snd y) \<Longrightarrow> canonical (minus_ranges a ys)"
  unfolding minus_ranges_def by (induction ys arbitrary: a) (auto simp: canonical_cuts)

lemma minus_fold_ranges:
  "gm_ok s \<Longrightarrow> (\<forall>q \<in> set (gm_keys s). ranges_of out q = []) \<Longrightarrow>
     port_in (fold (minus_step t) s out) p n \<longleftrightarrow> port_in out p n \<or> (port_in s p n \<and> \<not> port_in t p n)"
proof (induction s arbitrary: out)
  case Nil
  then show ?case by (simp add: port_in_def)
next
  case (Cons kv s)
  obtain q rs where kv: "kv = (q, rs)" by (cases kv)
  have notin: "q \<notin> set (gm_keys s)" and ok: "gm_ok s"
    using Cons.prems kv by (auto simp: gm_ok_def)
  have pre: "\<forall>r \<in> set (gm_keys s). ranges_of (minus_step t kv out) r = []"
    using Cons.prems kv notin by (auto simp: minus_step_def Let_def ranges_of_update)
  have hit: "port_in (minus_step t kv out) p n \<longleftrightarrow> port_in out p n \<or> (p = q \<and> in_ranges n rs \<and> \<not> port_in t p n)"
    using Cons.prems(2) kv in_minus_ranges [of n rs "ranges_of t q"]
    by (auto simp: minus_step_def Let_def port_in_def ranges_of_update)
  show ?case using Cons.IH [OF ok pre] hit kv ranges_of_notin [OF notin]
    by (auto simp: port_in_def ranges_of_Cons)
qed

lemma minus_fold_ok: "ports_ok s \<Longrightarrow> ports_ok t \<Longrightarrow> ports_ok out \<Longrightarrow> ports_ok (fold (minus_step t) s out)"
proof (induction s arbitrary: out)
  case Nil
  then show ?case by simp
next
  case (Cons kv s)
  obtain q rs where kv: "kv = (q, rs)" by (cases kv)
  have rs: "canonical rs" and s: "ports_ok s" using Cons.prems(1) kv by (auto simp: ports_ok_Cons)
  have "canonical (minus_ranges rs (ranges_of t q))"
    using rs ports_ok_ranges [OF Cons.prems(2)] by (auto intro!: canonical_minus dest: canonical_wf)
  then have "ports_ok (minus_step t kv out)"
    using Cons.prems kv by (simp add: minus_step_def Let_def ports_ok_update)
  then show ?case using Cons.IH s Cons.prems(2) by simp
qed

lemma port_in_minus: "gm_ok s \<Longrightarrow> port_in (ps_minus s t) p n \<longleftrightarrow> port_in s p n \<and> \<not> port_in t p n"
  unfolding ps_minus_def by (subst minus_fold_ranges) (auto simp: port_in_def)

lemma ports_ok_minus: "ports_ok s \<Longrightarrow> ports_ok t \<Longrightarrow> ports_ok (ps_minus s t)"
  by (simp add: ps_minus_def minus_fold_ok)

subsection \<open>Emptiness, constructors\<close>

lemma canonical_in: "canonical rs \<Longrightarrow> rs \<noteq> [] \<Longrightarrow> \<exists>n. in_ranges n rs"
  by (cases rs) (auto simp: canonical_Cons in_range_def)

lemma ps_empty_iff: "ports_ok s \<Longrightarrow> ps_empty s \<longleftrightarrow> (\<forall>p n. \<not> port_in s p n)"
proof
  assume "ps_empty s"
  then show "\<forall>p n. \<not> port_in s p n"
    by (force simp: ps_empty_def port_in_def ranges_of_def split: option.splits dest: map_of_SomeD)
next
  assume ok: "ports_ok s" and no: "\<forall>p n. \<not> port_in s p n"
  show "ps_empty s" unfolding ps_empty_def
  proof clarify
    fix p rs
    assume "(p, rs) \<in> set s"
    then have "map_of s p = Some rs" using gm_ok_in_set [OF ports_okD [OF ok]] by blast
    then have "ranges_of s p = rs" by (simp add: ranges_of_def)
    then show "rs = []"
      using no canonical_in [of rs] ports_ok_ranges [OF ok, of p] by (auto simp: port_in_def)
  qed
qed

lemma ports_ok_all: "ports_ok all_ports"
  by (simp add: all_ports_def proto_defs ports_ok_def gm_ok_def canonical_def max_port_def)

lemma ports_ok_proto: "ports_ok (proto_ports protocol lo hi)"
  by (auto simp: proto_ports_def Let_def ports_ok_all) (auto simp: ports_ok_def gm_ok_def canonical_def)

lemma ports_ok_rule: "ports_ok (rule_ports protocol f t)"
  by (simp add: rule_ports_def Let_def ports_ok_proto)

lemma ports_ok_specs: "ports_ok (rule_port_specs protocol specs)"
proof -
  have "ports_ok out \<Longrightarrow> ports_ok (fold (\<lambda>spec out. case port_spec spec of None \<Rightarrow> out
            | Some (lo, hi) \<Rightarrow> ps_union out (proto_ports protocol lo hi)) xs out)" for xs out
    by (induction xs arbitrary: out) (auto split: option.splits simp: ports_ok_union ports_ok_proto)
  then show ?thesis by (simp add: rule_port_specs_def)
qed

lemma ps_transport_iff:
  "ports_ok s \<Longrightarrow> ps_transport s \<longleftrightarrow> (\<exists>n. port_in s proto_tcp n \<or> port_in s proto_udp n)"
  using canonical_in ports_ok_ranges by (fastforce simp: ps_transport_def port_in_def)

lemmas port_algebra = port_in_union port_in_intersect port_in_minus ports_okD
lemmas ports_ok_intros = ports_ok_union ports_ok_intersect ports_ok_minus ports_ok_rule ports_ok_proto
  ports_ok_all ports_ok_specs

subsection \<open>First match\<close>

text \<open>The specification: the first rule that names the port decides it; none denies it.\<close>

fun first_match_allows :: "firewall_rule list \<Rightarrow> string \<Rightarrow> int \<Rightarrow> bool" where
  "first_match_allows [] p n \<longleftrightarrow> False"
| "first_match_allows (r # rs) p n \<longleftrightarrow>
     (if port_in (fr_ports r) p n then fr_allow r else first_match_allows rs p n)"

lemma first_match_go_ok: "ports_ok u \<Longrightarrow> ports_ok a \<Longrightarrow> ports_ok (first_match_go u a rs)"
  by (induction u a rs rule: first_match_go.induct) (simp_all add: Let_def ports_ok_intros)

lemma first_match_go_in:
  "ports_ok u \<Longrightarrow> ports_ok a \<Longrightarrow>
     port_in (first_match_go u a rs) p n \<longleftrightarrow> port_in a p n \<or> (port_in u p n \<and> first_match_allows rs p n)"
proof (induction u a rs rule: first_match_go.induct)
  case (1 u a)
  then show ?case by simp
next
  case (2 u a r rs)
  let ?hit = "ps_intersect u (fr_ports r)"
  have hit: "port_in ?hit q m \<longleftrightarrow> port_in u q m \<and> port_in (fr_ports r) q m" for q m
    using "2.prems" by (simp add: port_algebra)
  have ok: "ports_ok (ps_minus u ?hit)" "ports_ok (if fr_allow r then ps_union a ?hit else a)"
    using "2.prems" by (auto simp: ports_ok_intros)
  show ?case
  proof (cases "ps_empty ?hit")
    case True
    then have "\<not> (port_in u p n \<and> port_in (fr_ports r) p n)"
      using hit ps_empty_iff [OF ports_ok_intersect] by blast
    then show ?thesis using True "2.IH"(1) [OF refl True] "2.prems" by auto
  next
    case False
    have a: "port_in (if fr_allow r then ps_union a ?hit else a) p n \<longleftrightarrow>
        port_in a p n \<or> (fr_allow r \<and> port_in u p n \<and> port_in (fr_ports r) p n)"
      using hit "2.prems" by (simp add: port_algebra ports_ok_intersect)
    have u: "port_in (ps_minus u ?hit) p n \<longleftrightarrow> port_in u p n \<and> \<not> port_in (fr_ports r) p n"
      using hit "2.prems" by (auto simp: port_algebra)
    show ?thesis using False "2.IH"(2) [OF refl False ok] a u by (auto simp: Let_def)
  qed
qed

lemma port_in_first_match:
  "ports_ok offered \<Longrightarrow>
     port_in (first_match offered rules) p n \<longleftrightarrow> port_in offered p n \<and> first_match_allows rules p n"
  unfolding first_match_def by (subst first_match_go_in) (auto simp: port_in_def)

lemma ports_ok_first_match: "ports_ok offered \<Longrightarrow> ports_ok (first_match offered rules)"
  by (simp add: first_match_def first_match_go_ok)

end
