(* ===== verification/Ontology.thy ===== *)
theory Ontology
  imports PG_Prelude "HOL-Library.Word"
begin

text \<open>
  The shared vocabulary, \<open>backend/pkg/ontology\<close>: nodes, edges and the event envelope with
  their property bags, the closed sets of labels and edge types, the content-addressed
  node ids (SHA-1, written out), and the questions every engine asks of a node - is it an
  entry point, is it held by the attacker.
\<close>

unbundle bit_operations_syntax

section \<open>Property bags\<close>

text \<open>
  A value of \<open>map[string]any\<close>, by its dynamic type. \<open>GNumber\<close> is \<open>json.Number\<close>, the
  text of a number.
\<close>

datatype gval =
  GNil
| GBool bool
| GInt int
| GInt64 int
| GFloat real
| GFloat32 real
| GNumber string
| GStr string
| GList "gval list"
| GMap "(string \<times> gval) list"

type_synonym props = "(string, gval) gomap"

definition pget :: "props \<Rightarrow> string \<Rightarrow> gval" where
  "pget ps k = (case map_of ps k of Some v \<Rightarrow> v | None \<Rightarrow> GNil)"

fun as_bool :: "gval \<Rightarrow> bool option" where
  "as_bool (GBool b) = Some b"
| "as_bool _ = None"

text \<open>The comma-ok assertion \<open>v, _ := x.(string)\<close>: the empty string when it fails.\<close>

fun as_string :: "gval \<Rightarrow> string" where
  "as_string (GStr s) = s"
| "as_string _ = []"

lemma prop_update [go_map]: "pget (AList.update k v ps) k' = (if k = k' then v else pget ps k')"
  by (simp add: pget_def map_of_update)

lemma prop_Nil [simp]: "pget [] k = GNil"
  by (simp add: pget_def)

lemma prop_Cons: "pget ((k, v) # ps) k' = (if k' = k then v else pget ps k')"
  by (simp add: pget_def)

section \<open>Labels and edge types\<close>

type_synonym label = string
type_synonym edge_type = string

abbreviation label_vm :: label where "label_vm \<equiv> ''VirtualMachine''"
abbreviation label_function :: label where "label_function \<equiv> ''Function''"
abbreviation label_container :: label where "label_container \<equiv> ''Container''"
abbreviation label_database :: label where "label_database \<equiv> ''Database''"
abbreviation label_bucket :: label where "label_bucket \<equiv> ''Bucket''"
abbreviation label_image :: label where "label_image \<equiv> ''Image''"
abbreviation label_user :: label where "label_user \<equiv> ''User''"
abbreviation label_iam_role :: label where "label_iam_role \<equiv> ''IAM_Role''"
abbreviation label_idp :: label where "label_idp \<equiv> ''IdentityProvider''"
abbreviation label_lb :: label where "label_lb \<equiv> ''LoadBalancer''"
abbreviation label_vpc :: label where "label_vpc \<equiv> ''VPC''"
abbreviation label_cve :: label where "label_cve \<equiv> ''CVE''"

definition valid_labels :: "label list" where
  "valid_labels =
     [''VirtualMachine'', ''Container'', ''Function'', ''VPC'',
      ''LoadBalancer'', ''Database'', ''Bucket'', ''API'',
      ''Repository'', ''Image'', ''Package'', ''Library'',
      ''User'', ''IAM_Role'', ''ServiceAccount'', ''IdentityProvider'',
      ''CVE'', ''Weakness'', ''Misconfiguration'', ''Secret'']"

abbreviation edge_hosts :: edge_type where "edge_hosts \<equiv> ''HOSTS''"
abbreviation edge_connects_to :: edge_type where "edge_connects_to \<equiv> ''CONNECTS_TO''"
abbreviation edge_routes_to :: edge_type where "edge_routes_to \<equiv> ''ROUTES_TO''"
abbreviation edge_assumes :: edge_type where "edge_assumes \<equiv> ''ASSUMES''"
abbreviation edge_can_escalate_to :: edge_type where "edge_can_escalate_to \<equiv> ''CAN_ESCALATE_TO''"
abbreviation edge_authenticates :: edge_type where "edge_authenticates \<equiv> ''AUTHENTICATES''"
abbreviation edge_affects :: edge_type where "edge_affects \<equiv> ''AFFECTS''"
abbreviation edge_exploits :: edge_type where "edge_exploits \<equiv> ''EXPLOITS''"

definition valid_edge_types :: "edge_type list" where
  "valid_edge_types =
     [''HOSTS'', ''CONNECTS_TO'', ''EXPOSES'', ''ROUTES_TO'',
      ''DEPENDS_ON'', ''COMPILED_INTO'', ''BUILT_FROM'',
      ''ASSUMES'', ''HAS_PERMISSION'', ''CAN_ESCALATE_TO'', ''AUTHENTICATES'',
      ''ESCAPES_TO'',
      ''AFFECTS'', ''EXPLOITS'', ''MITIGATES'']"

definition is_valid_label :: "label \<Rightarrow> bool" where
  "is_valid_label l \<longleftrightarrow> l \<in> set valid_labels"

definition is_valid_edge_type :: "edge_type \<Rightarrow> bool" where
  "is_valid_edge_type t \<longleftrightarrow> t \<in> set valid_edge_types"

text \<open>The property keys the components below read.\<close>

abbreviation prop_internet_exposed :: string where "prop_internet_exposed \<equiv> ''internet_exposed''"
abbreviation prop_network_exposed :: string where "prop_network_exposed \<equiv> ''network_exposed''"
abbreviation prop_credential_exposed :: string where "prop_credential_exposed \<equiv> ''credential_exposed''"
abbreviation prop_public_access :: string where "prop_public_access \<equiv> ''public_access''"
abbreviation prop_crown_jewel :: string where "prop_crown_jewel \<equiv> ''crown_jewel''"
abbreviation prop_crown_jewel_basis :: string where "prop_crown_jewel_basis \<equiv> ''crown_jewel_basis''"
abbreviation prop_classification :: string where "prop_classification \<equiv> ''classification''"
abbreviation prop_cvss :: string where "prop_cvss \<equiv> ''cvss''"
abbreviation prop_kev :: string where "prop_kev \<equiv> ''kev''"
abbreviation prop_repo_slug :: string where "prop_repo_slug \<equiv> ''repo_slug''"
abbreviation prop_pr_number :: string where "prop_pr_number \<equiv> ''pr_number''"
abbreviation prop_commit_sha :: string where "prop_commit_sha \<equiv> ''commit_sha''"
abbreviation prop_runtime_alert :: string where "prop_runtime_alert \<equiv> ''runtime_alert''"
abbreviation prop_image_ref :: string where "prop_image_ref \<equiv> ''image_ref''"
abbreviation prop_arn :: string where "prop_arn \<equiv> ''arn''"
abbreviation prop_account :: string where "prop_account \<equiv> ''account''"
abbreviation prop_resolution_method :: string where "prop_resolution_method \<equiv> ''resolution_method''"
abbreviation prop_resolution_confidence :: string where "prop_resolution_confidence \<equiv> ''resolution_confidence''"
abbreviation prop_last_seen :: string where "prop_last_seen \<equiv> ''last_seen''"
abbreviation prop_weight_basis :: string where "prop_weight_basis \<equiv> ''weight_basis''"
abbreviation prop_weight_cause :: string where "prop_weight_cause \<equiv> ''weight_cause''"
abbreviation prop_evidence_count :: string where "prop_evidence_count \<equiv> ''evidence_count''"

section \<open>Nodes, edges, events\<close>

record node =
  n_id :: string
  n_label :: label
  n_name :: string
  n_props :: props

record edge =
  e_type :: edge_type
  e_from :: string
  e_to :: string
  e_prob :: real
  e_props :: props

record snapshot_decl =
  sd_scope :: string
  sd_taken :: gotime

record event =
  ev_source :: string
  ev_kind :: string
  ev_observed :: gotime
  ev_tenant :: string
  ev_nodes :: "node list"
  ev_edges :: "edge list"
  ev_snapshot :: "snapshot_decl option"

text \<open>\<open>ValidateVocabulary\<close>: the first element outside the vocabulary, as an error value.\<close>

datatype vocab_error =
  UnknownLabel string string
| UnknownEdgeType string string string

text \<open>\<open>Truncate\<close> appends U+2026, three bytes in UTF-8.\<close>

definition truncate64 :: "string \<Rightarrow> string" where
  "truncate64 s = (if length s > 64 then take 64 s @ [CHR 0xE2, CHR 0x80, CHR 0xA6] else s)"

fun validate_nodes :: "node list \<Rightarrow> vocab_error option" where
  "validate_nodes [] = None"
| "validate_nodes (n # ns) =
     (if \<not> is_valid_label (n_label n) then Some (UnknownLabel (n_id n) (truncate64 (n_label n)))
      else validate_nodes ns)"

fun validate_edges :: "edge list \<Rightarrow> vocab_error option" where
  "validate_edges [] = None"
| "validate_edges (e # es) =
     (if \<not> is_valid_edge_type (e_type e)
      then Some (UnknownEdgeType (e_from e) (e_to e) (truncate64 (e_type e)))
      else validate_edges es)"

definition validate_vocabulary :: "event \<Rightarrow> vocab_error option" where
  "validate_vocabulary ev =
     (case validate_nodes (ev_nodes ev) of Some err \<Rightarrow> Some err | None \<Rightarrow> validate_edges (ev_edges ev))"

section \<open>Questions asked of a node\<close>

definition node_bool :: "node \<Rightarrow> string \<Rightarrow> bool" where
  "node_bool n key = (as_bool (pget (n_props n) key) = Some True)"

definition internet_exposed :: "node \<Rightarrow> bool" where
  "internet_exposed n =
     (case as_bool (pget (n_props n) prop_network_exposed) of
        Some v \<Rightarrow> v
      | None \<Rightarrow> node_bool n prop_internet_exposed)"

definition is_seed :: "node \<Rightarrow> bool" where
  "is_seed n \<longleftrightarrow> internet_exposed n \<or> node_bool n prop_credential_exposed \<or> node_bool n prop_public_access"

definition held_by_attacker :: "node \<Rightarrow> bool" where
  "held_by_attacker n \<longleftrightarrow> node_bool n prop_public_access \<or> node_bool n prop_credential_exposed"

definition is_jewel :: "node \<Rightarrow> bool" where
  "is_jewel n \<longleftrightarrow> node_bool n prop_crown_jewel"

lemma held_is_seed: "held_by_attacker n \<Longrightarrow> is_seed n"
  by (auto simp: held_by_attacker_def is_seed_def)

definition stamped_with :: "props \<Rightarrow> string \<Rightarrow> string \<Rightarrow> bool" where
  "stamped_with ps slug sha \<longleftrightarrow>
     slug \<noteq> [] \<and> sha \<noteq> [] \<and>
     as_string (pget ps prop_repo_slug) = slug \<and> as_string (pget ps prop_commit_sha) = sha"

section \<open>Snapshot declarations\<close>

text \<open>A scope is printable ASCII; a byte of a multi-byte rune is over 0x7e, like the rune.\<close>

definition valid_scope :: "string \<Rightarrow> bool" where
  "valid_scope s \<longleftrightarrow> s \<noteq> [] \<and> length s \<le> 256 \<and>
     (\<forall>c \<in> set s. 0x21 \<le> (of_char c :: nat) \<and> (of_char c :: nat) \<le> 0x7e)"

definition pr_number_set :: "gval \<Rightarrow> bool" where
  "pr_number_set v =
     (case v of GInt n \<Rightarrow> n > 0 | GInt64 n \<Rightarrow> n > 0 | GFloat f \<Rightarrow> f > 0
      | GStr s \<Rightarrow> s \<noteq> [] \<and> s \<noteq> ''0'' | _ \<Rightarrow> False)"

definition carries_pr_context :: "event \<Rightarrow> bool" where
  "carries_pr_context ev \<longleftrightarrow>
     (\<exists>n \<in> set (ev_nodes ev). as_string (pget (n_props n) prop_commit_sha) \<noteq> []
        \<or> pr_number_set (pget (n_props n) prop_pr_number))"

definition complete_snapshot :: "event \<Rightarrow> snapshot_decl option" where
  "complete_snapshot ev =
     (case ev_snapshot ev of None \<Rightarrow> None
      | Some sn \<Rightarrow> if \<not> valid_scope (sd_scope sn) \<or> carries_pr_context ev then None else Some sn)"

section \<open>Node ids\<close>

text \<open>SHA-1, over bytes: the digest \<open>NewID\<close> takes of a node's natural key.\<close>

type_synonym u32 = "32 word"

definition sha1_pad :: "u32 list \<Rightarrow> u32 list" where
  "sha1_pad bs =
     (let n = length bs; z = (119 - n mod 64) mod 64
      in bs @ 0x80 # replicate z 0 @
         map (\<lambda>i. ucast (drop_bit (8 * (7 - i)) (of_nat (8 * n) :: 64 word) AND 0xFF)) [0..<8])"

fun be_words :: "u32 list \<Rightarrow> u32 list" where
  "be_words (a # b # c # d # bs) =
     (push_bit 24 a OR push_bit 16 b OR push_bit 8 c OR d) # be_words bs"
| "be_words _ = []"

fun sha1_schedule :: "nat \<Rightarrow> u32 list \<Rightarrow> u32 list" where
  "sha1_schedule 0 rw = rev rw"
| "sha1_schedule (Suc k) rw =
     sha1_schedule k (word_rotl 1 (rw ! 2 XOR rw ! 7 XOR rw ! 13 XOR rw ! 15) # rw)"

definition sha1_f :: "nat \<Rightarrow> u32 \<Rightarrow> u32 \<Rightarrow> u32 \<Rightarrow> u32 \<times> u32" where
  "sha1_f t b c d =
     (if t < 20 then ((b AND c) OR (NOT b AND d), 0x5A827999)
      else if t < 40 then (b XOR c XOR d, 0x6ED9EBA1)
      else if t < 60 then ((b AND c) OR (b AND d) OR (c AND d), 0x8F1BBCDC)
      else (b XOR c XOR d, 0xCA62C1D6))"

type_synonym sha1_state = "u32 \<times> u32 \<times> u32 \<times> u32 \<times> u32"

fun sha1_rounds :: "nat \<Rightarrow> u32 list \<Rightarrow> sha1_state \<Rightarrow> sha1_state" where
  "sha1_rounds t [] st = st"
| "sha1_rounds t (w # ws) (a, b, c, d, e) =
     (let (f, k) = sha1_f t b c d
      in sha1_rounds (Suc t) ws (word_rotl 5 a + f + e + k + w, a, word_rotl 30 b, c, d))"

definition sha1_block :: "sha1_state \<Rightarrow> u32 list \<Rightarrow> sha1_state" where
  "sha1_block st ws =
     (let (a, b, c, d, e) = sha1_rounds 0 (sha1_schedule 64 (rev ws)) st;
          (h0, h1, h2, h3, h4) = st
      in (h0 + a, h1 + b, h2 + c, h3 + d, h4 + e))"

function sha1_blocks :: "sha1_state \<Rightarrow> u32 list \<Rightarrow> sha1_state" where
  "sha1_blocks st ws = (if ws = [] then st else sha1_blocks (sha1_block st (take 16 ws)) (drop 16 ws))"
  by pat_completeness auto
termination
  by (relation "measure (\<lambda>(st, ws). length ws)") auto

declare sha1_blocks.simps [simp del]

definition hex_digit :: "nat \<Rightarrow> char" where
  "hex_digit n = (if n < 10 then char_of (48 + n) else char_of (87 + n))"

definition hex_word :: "u32 \<Rightarrow> string" where
  "hex_word w = map (\<lambda>i. hex_digit (unat (drop_bit (4 * (7 - i)) w AND 0xF))) [0..<8]"

definition sha1_hex :: "string \<Rightarrow> string" where
  "sha1_hex s =
     (let (a, b, c, d, e) = sha1_blocks (0x67452301, 0xEFCDAB89, 0x98BADCFE, 0x10325476, 0xC3D2E1F0)
            (be_words (sha1_pad (map (\<lambda>ch. of_nat (of_char ch)) s)))
      in concat (map hex_word [a, b, c, d, e]))"

definition new_id :: "label \<Rightarrow> string list \<Rightarrow> string" where
  "new_id lbl key_parts = lbl @ '':'' @ take 16 (sha1_hex (to_lower (str_join key_parts ''|'')))"

definition scoped_id :: "label \<Rightarrow> string \<Rightarrow> string list \<Rightarrow> string" where
  "scoped_id lbl account key_parts =
     (if account = [] then new_id lbl key_parts else new_id lbl ((''account='' @ account) # key_parts))"

end
