(* ===== verification/Graph_Store.thy ===== *)
theory Graph_Store
  imports Ontology
begin

text \<open>
  The store contract of \<open>backend/internal/graph/store.go\<close>: snapshots, the rules every backend
  applies where a node or an edge lands (\<open>MergeProps\<close>, \<open>Supersedes\<close>), the single writer
  \<open>ApplyEvent\<close> and the element-by-element write, the write counter of \<open>VersionedStore\<close>. The
  contract itself is the locale \<open>graph_store\<close>; \<open>Memory_Store\<close> interprets it.
\<close>

section \<open>Snapshots\<close>

record snapshot =
  sn_nodes :: "node list"
  sn_edges :: "edge list"

text \<open>A node listed twice is indexed by its later entry.\<close>

definition node_by_id :: "snapshot \<Rightarrow> (string, node) gomap" where
  "node_by_id s = fold (\<lambda>n m. AList.update (n_id n) n m) (sn_nodes s) []"

text \<open>Reading the index by a missing id gives Go's zero node.\<close>

definition zero_node :: node where
  "zero_node = \<lparr>n_id = [], n_label = [], n_name = [], n_props = []\<rparr>"

definition node_at :: "(string, node) gomap \<Rightarrow> string \<Rightarrow> node" where
  "node_at m i = (case map_of m i of Some n \<Rightarrow> n | None \<Rightarrow> zero_node)"

record raw_path =
  rp_nodes :: "node list"
  rp_edges :: "edge list"

lemma map_of_index_fold:
  "map_of (fold (\<lambda>n m. AList.update (n_id n) n m) ns m) i =
     (if \<exists>n \<in> set ns. n_id n = i then Some (last (filter (\<lambda>n. n_id n = i) ns)) else map_of m i)"
  by (induction ns arbitrary: m) (auto simp: map_of_update filter_empty_conv)

lemma map_of_node_by_id:
  "map_of (node_by_id s) i =
     (if \<exists>n \<in> set (sn_nodes s). n_id n = i then Some (last (filter (\<lambda>n. n_id n = i) (sn_nodes s))) else None)"
  by (simp add: node_by_id_def map_of_index_fold)

lemma node_by_id_SomeD: "map_of (node_by_id s) i = Some n \<Longrightarrow> n \<in> set (sn_nodes s) \<and> n_id n = i"
proof -
  assume a: "map_of (node_by_id s) i = Some n"
  then have e: "\<exists>n \<in> set (sn_nodes s). n_id n = i" and n: "n = last (filter (\<lambda>n. n_id n = i) (sn_nodes s))"
    by (auto simp: map_of_node_by_id split: if_splits)
  have "filter (\<lambda>n. n_id n = i) (sn_nodes s) \<noteq> []" using e by (auto simp: filter_empty_conv)
  then have "n \<in> set (filter (\<lambda>n. n_id n = i) (sn_nodes s))" using n last_in_set by blast
  then show ?thesis by simp
qed

lemma node_by_id_None: "map_of (node_by_id s) i = None \<longleftrightarrow> i \<notin> n_id ` set (sn_nodes s)"
  by (auto simp: map_of_node_by_id)

section \<open>What a write does to the element already there\<close>

text \<open>
  \<open>int64\<close> of a float truncates towards zero; what Go leaves to the implementation, a value
  out of range, is not modelled.
\<close>

definition trunc_int :: "real \<Rightarrow> int" where
  "trunc_int x = (if x \<ge> 0 then \<lfloor>x\<rfloor> else \<lceil>x\<rceil>)"

definition last_seen :: "props \<Rightarrow> int option" where
  "last_seen ps =
     (case pget ps prop_last_seen of GInt64 v \<Rightarrow> Some v | GInt v \<Rightarrow> Some v
      | GFloat v \<Rightarrow> Some (trunc_int v) | _ \<Rightarrow> None)"

definition inferred :: "edge \<Rightarrow> bool" where
  "inferred e \<longleftrightarrow> map_of (e_props e) prop_resolution_method \<noteq> None"

definition supersedes :: "edge \<Rightarrow> edge \<Rightarrow> bool" where
  "supersedes incoming stored \<longleftrightarrow> \<not> inferred incoming \<or> inferred stored"

definition merge_props :: "props \<Rightarrow> props \<Rightarrow> props" where
  "merge_props a b = fold (\<lambda>(k, v) m. AList.update k v m) b (fold (\<lambda>(k, v) m. AList.update k v m) a [])"

definition with_last_seen :: "props \<Rightarrow> int \<Rightarrow> props" where
  "with_last_seen ps ts =
     AList.update prop_last_seen (GInt64 ts) (fold (\<lambda>(k, v) m. AList.update k v m) ps [])"

lemma map_of_overlay: "gm_ok b \<Longrightarrow> map_of (fold (\<lambda>(k, v) m. AList.update k v m) b m) = map_of m ++ map_of b"
proof (induction b arbitrary: m)
  case Nil
  then show ?case by simp
next
  case (Cons kv b)
  obtain k v where kv: "kv = (k, v)" by (cases kv)
  have b: "gm_ok b" "map_of b k = None" using Cons.prems kv by (auto simp: gm_ok_def map_of_eq_None_iff)
  then show ?case using Cons.IH [OF b(1)] kv by (auto simp: map_of_update fun_eq_iff map_add_def split: option.splits)
qed

lemma gm_ok_overlay: "gm_ok m \<Longrightarrow> gm_ok (fold (\<lambda>(k, v) m. AList.update k v m) b m)"
  by (induction b arbitrary: m) (auto simp: gm_ok_update)

lemma map_of_merge_props: "gm_ok a \<Longrightarrow> gm_ok b \<Longrightarrow> map_of (merge_props a b) = map_of a ++ map_of b"
  by (simp add: merge_props_def map_of_overlay)

lemma gm_ok_merge_props: "gm_ok (merge_props a b)"
  by (simp add: merge_props_def gm_ok_overlay)

lemma pget_with_last_seen:
  "gm_ok ps \<Longrightarrow> pget (with_last_seen ps ts) k = (if k = prop_last_seen then GInt64 ts else pget ps k)"
  by (simp add: with_last_seen_def prop_update) (simp add: pget_def map_of_overlay)

lemma last_seen_stamp [simp]: "last_seen (with_last_seen ps ts) = Some ts"
  by (simp add: last_seen_def with_last_seen_def prop_update)

section \<open>The contract\<close>

datatype edge_key = Edge_Key (ek_type: edge_type) (ek_from: string) (ek_to: string)

definition edge_key :: "edge \<Rightarrow> edge_key" where
  "edge_key e = Edge_Key (e_type e) (e_from e) (e_to e)"

lemma edge_key_ends [simp]: "ek_from (edge_key e) = e_from e" "ek_to (edge_key e) = e_to e" "ek_type (edge_key e) = e_type e"
  by (simp_all add: edge_key_def)

datatype store_error =
  ErrEndpointsMissing "edge list"
| ErrEmptyScope
| ErrStore string

text \<open>A write is its error and the state it leaves, which it may have changed before it failed.\<close>

type_synonym 's store_op = "'s \<Rightarrow> store_error option \<times> 's"

definition merge_node :: "node option \<Rightarrow> node \<Rightarrow> node" where
  "merge_node old n =
     (case old of None \<Rightarrow> n
      | Some x \<Rightarrow> n\<lparr>n_props := merge_props (n_props x) (n_props n),
                   n_name := (if n_name n = [] then n_name x else n_name n)\<rparr>)"

definition land_edge :: "edge option \<Rightarrow> edge \<Rightarrow> edge" where
  "land_edge old e =
     (case old of None \<Rightarrow> e
      | Some x \<Rightarrow> if supersedes e x then e
                 else (case last_seen (e_props e) of
                         Some ls \<Rightarrow> x\<lparr>e_props := merge_props (e_props x) [(prop_last_seen, GInt64 ls)]\<rparr>
                       | None \<Rightarrow> x))"

definition endpoints_missing :: "edge list \<Rightarrow> store_error option" where
  "endpoints_missing waiting = (if waiting = [] then None else Some (ErrEndpointsMissing waiting))"

fun up_nodes :: "(node \<Rightarrow> 's store_op) \<Rightarrow> node list \<Rightarrow> 's store_op" where
  "up_nodes up_node [] s = (None, s)"
| "up_nodes up_node (n # ns) s =
     (case up_node n s of
        (Some err, s') \<Rightarrow> (Some err, s')
      | (None, s') \<Rightarrow> up_nodes up_node ns s')"

fun up_edges :: "(edge \<Rightarrow> 's store_op) \<Rightarrow> edge list \<Rightarrow> edge list \<Rightarrow> 's store_op" where
  "up_edges up_edge waiting [] s = (endpoints_missing waiting, s)"
| "up_edges up_edge waiting (e # es) s =
     (case up_edge e s of
        (Some (ErrEndpointsMissing _), s') \<Rightarrow> up_edges up_edge (waiting @ [e]) es s'
      | (Some err, s') \<Rightarrow> (Some err, s')
      | (None, s') \<Rightarrow> up_edges up_edge waiting es s')"

definition upsert_each :: "(node \<Rightarrow> 's store_op) \<Rightarrow> (edge \<Rightarrow> 's store_op) \<Rightarrow> node list \<Rightarrow> edge list \<Rightarrow> 's store_op" where
  "upsert_each up_node up_edge nodes edges s =
     (case up_nodes up_node nodes s of
        (Some err, s') \<Rightarrow> (Some err, s')
      | (None, s') \<Rightarrow> up_edges up_edge [] edges s')"

text \<open>
  What every backend promises: a node lands merged over what was there, an edge lands by
  \<open>Supersedes\<close> when both its ends are in the graph and is refused, changing nothing,
  when one is not.
\<close>

locale graph_store =
  fixes up_node :: "node \<Rightarrow> 's store_op"
    and up_edge :: "edge \<Rightarrow> 's store_op"
    and nodes_of :: "'s \<Rightarrow> string \<Rightarrow> node option"
    and edges_of :: "'s \<Rightarrow> edge_key \<Rightarrow> edge option"
    and ok :: "'s \<Rightarrow> bool"
  assumes up_node_ok: "ok s \<Longrightarrow> up_node n s = (err, s') \<Longrightarrow> err = None \<and> ok s' \<and> edges_of s' = edges_of s \<and>
        nodes_of s' = (nodes_of s)(n_id n \<mapsto> merge_node (nodes_of s (n_id n)) n)"
    and up_edge_lands: "ok s \<Longrightarrow> nodes_of s (e_from e) \<noteq> None \<Longrightarrow> nodes_of s (e_to e) \<noteq> None \<Longrightarrow>
        up_edge e s = (err, s') \<Longrightarrow> err = None \<and> ok s' \<and> nodes_of s' = nodes_of s \<and>
        edges_of s' = (edges_of s)(edge_key e \<mapsto> land_edge (edges_of s (edge_key e)) e)"
    and up_edge_waits: "ok s \<Longrightarrow> nodes_of s (e_from e) = None \<or> nodes_of s (e_to e) = None \<Longrightarrow>
        up_edge e s = (Some (ErrEndpointsMissing [e]), s)"
    and no_dangling: "ok s \<Longrightarrow> edges_of s k = Some e \<Longrightarrow> nodes_of s (ek_from k) \<noteq> None \<and> nodes_of s (ek_to k) \<noteq> None"
begin

definition ends_in :: "'s \<Rightarrow> edge \<Rightarrow> bool" where
  "ends_in s e \<longleftrightarrow> nodes_of s (e_from e) \<noteq> None \<and> nodes_of s (e_to e) \<noteq> None"

lemma up_nodes_ok:
  "ok s \<Longrightarrow> up_nodes up_node ns s = (err, s') \<Longrightarrow>
     err = None \<and> ok s' \<and> edges_of s' = edges_of s \<and> dom (nodes_of s') = dom (nodes_of s) \<union> n_id ` set ns"
proof (induction ns arbitrary: s)
  case Nil
  then show ?case by simp
next
  case (Cons n ns)
  obtain e1 s1 where u: "up_node n s = (e1, s1)" by (cases "up_node n s")
  note l = up_node_ok [OF Cons.prems(1) u]
  then show ?case using Cons.IH [of s1] Cons.prems(2) u by auto
qed

lemma up_edges_ok:
  "ok s \<Longrightarrow> up_edges up_edge w es s = (err, s') \<Longrightarrow>
     ok s' \<and> nodes_of s' = nodes_of s \<and> err = endpoints_missing (w @ filter (\<lambda>e. \<not> ends_in s e) es) \<and>
     dom (edges_of s') = dom (edges_of s) \<union> edge_key ` set (filter (ends_in s) es)"
proof (induction es arbitrary: s w)
  case Nil
  then show ?case by simp
next
  case (Cons e es)
  show ?case
  proof (cases "ends_in s e")
    case True
    obtain e1 s1 where u: "up_edge e s = (e1, s1)" by (cases "up_edge e s")
    note l = up_edge_lands [OF Cons.prems(1) _ _ u] 
    have l': "e1 = None \<and> ok s1 \<and> nodes_of s1 = nodes_of s \<and>
        edges_of s1 = (edges_of s)(edge_key e \<mapsto> land_edge (edges_of s (edge_key e)) e)"
      using l True by (simp add: ends_in_def)
    then have "ends_in s1 = ends_in s" by (simp add: ends_in_def fun_eq_iff)
    then show ?thesis using Cons.IH [of s1 w] Cons.prems(2) u l' True by auto
  next
    case False
    then have "up_edge e s = (Some (ErrEndpointsMissing [e]), s)"
      using up_edge_waits [OF Cons.prems(1)] by (auto simp: ends_in_def)
    then show ?thesis using Cons.IH [OF Cons.prems(1), of "w @ [e]"] Cons.prems(2) False by simp
  qed
qed

lemma upsert_each_ok:
  assumes "ok s" "upsert_each up_node up_edge ns es s = (err, s')"
  shows "ok s' \<and> dom (nodes_of s') = dom (nodes_of s) \<union> n_id ` set ns \<and>
     dom (edges_of s') = dom (edges_of s) \<union> edge_key ` set (filter (ends_in s') es) \<and>
     err = endpoints_missing (filter (\<lambda>e. \<not> ends_in s' e) es)"
proof -
  obtain e1 s1 where u: "up_nodes up_node ns s = (e1, s1)" by (cases "up_nodes up_node ns s")
  note l = up_nodes_ok [OF assms(1) u]
  have "up_edges up_edge [] es s1 = (err, s')" using assms(2) u l by (simp add: upsert_each_def)
  note m = up_edges_ok [OF _ this]
  have "ends_in s' = ends_in s1" using m l by (simp add: ends_in_def fun_eq_iff)
  then show ?thesis using l m by simp
qed

end

section \<open>ApplyEvent\<close>

record origin =
  or_source :: string
  or_scope :: string
  or_seen :: gotime

text \<open>A store and the optional capabilities \<open>ApplyEvent\<close> asks it for, nil when it lacks one.\<close>

record 's capabilities =
  cap_node :: "node \<Rightarrow> 's store_op"
  cap_edge :: "edge \<Rightarrow> 's store_op"
  cap_batch :: "(node list \<Rightarrow> edge list \<Rightarrow> 's store_op) option"
  cap_from :: "(origin \<Rightarrow> node list \<Rightarrow> edge list \<Rightarrow> 's store_op) option"

definition event_ts :: "gotime \<Rightarrow> event \<Rightarrow> int" where
  "event_ts now ev = time_unix (if ev_observed ev = zero_time then now else ev_observed ev)"

definition dropped_ids :: "event \<Rightarrow> string set" where
  "dropped_ids ev = n_id ` set (filter (\<lambda>n. \<not> is_valid_label (n_label n)) (ev_nodes ev))"

definition event_nodes :: "int \<Rightarrow> event \<Rightarrow> node list" where
  "event_nodes ts ev =
     map (\<lambda>n. n\<lparr>n_props := with_last_seen (n_props n) ts\<rparr>)
         (filter (\<lambda>n. is_valid_label (n_label n)) (ev_nodes ev))"

definition event_edges :: "int \<Rightarrow> event \<Rightarrow> edge list" where
  "event_edges ts ev =
     map (\<lambda>e. e\<lparr>e_props := with_last_seen (e_props e) ts\<rparr>)
         (filter (\<lambda>e. is_valid_edge_type (e_type e) \<and> e_from e \<notin> dropped_ids ev \<and> e_to e \<notin> dropped_ids ev)
                 (ev_edges ev))"

definition event_origin :: "gotime \<Rightarrow> event \<Rightarrow> origin" where
  "event_origin now ev =
     (case ev_snapshot ev of
        Some sn \<Rightarrow> if sd_scope sn \<noteq> []
                   then \<lparr>or_source = ev_source ev, or_scope = sd_scope sn,
                         or_seen = (if sd_taken sn \<noteq> zero_time then sd_taken sn else now)\<rparr>
                   else \<lparr>or_source = ev_source ev, or_scope = [], or_seen = now\<rparr>
      | None \<Rightarrow> \<lparr>or_source = ev_source ev, or_scope = [], or_seen = now\<rparr>)"

definition apply_event :: "gotime \<Rightarrow> 's capabilities \<Rightarrow> event \<Rightarrow> 's store_op" where
  "apply_event now st ev s =
     (let ts = event_ts now ev; nodes = event_nodes ts ev; edges = event_edges ts ev
      in case cap_from st of
           Some f \<Rightarrow> f (event_origin now ev) nodes edges s
         | None \<Rightarrow>
             (case cap_batch st of
                Some f \<Rightarrow> f nodes edges s
              | None \<Rightarrow> upsert_each (cap_node st) (cap_edge st) nodes edges s))"

text \<open>Nothing outside the vocabulary reaches a store, and every element carries the stamp.\<close>

lemma event_nodes_valid:
  "n \<in> set (event_nodes ts ev) \<Longrightarrow> is_valid_label (n_label n) \<and> last_seen (n_props n) = Some ts"
  by (auto simp: event_nodes_def)

lemma event_edges_valid:
  "e \<in> set (event_edges ts ev) \<Longrightarrow> is_valid_edge_type (e_type e) \<and> last_seen (e_props e) = Some ts \<and>
     e_from e \<notin> dropped_ids ev \<and> e_to e \<notin> dropped_ids ev"
  by (auto simp: event_edges_def)

section \<open>The write counter\<close>

text \<open>\<open>VersionedStore\<close>: the wrapped store's state and the counter.\<close>

type_synonym 's versioned = "'s \<times> int"

definition landed :: "store_error option \<Rightarrow> bool" where
  "landed err \<longleftrightarrow> (case err of None \<Rightarrow> True | Some (ErrEndpointsMissing _) \<Rightarrow> True | _ \<Rightarrow> False)"

definition count_if :: "bool \<Rightarrow> int \<Rightarrow> int" where
  "count_if b v = (if b then v + 1 else v)"

definition v_upsert_node :: "'s capabilities \<Rightarrow> node \<Rightarrow> 's versioned store_op" where
  "v_upsert_node st n vs =
     (let (err, s') = cap_node st n (fst vs) in (err, (s', count_if (err = None) (snd vs))))"

definition v_upsert_edge :: "'s capabilities \<Rightarrow> edge \<Rightarrow> 's versioned store_op" where
  "v_upsert_edge st e vs =
     (let (err, s') = cap_edge st e (fst vs) in (err, (s', count_if (err = None) (snd vs))))"

definition v_upsert_batch :: "'s capabilities \<Rightarrow> node list \<Rightarrow> edge list \<Rightarrow> 's versioned store_op" where
  "v_upsert_batch st nodes edges vs =
     (case cap_batch st of
        None \<Rightarrow> upsert_each (v_upsert_node st) (v_upsert_edge st) nodes edges vs
      | Some f \<Rightarrow>
          (let (err, s') = f nodes edges (fst vs)
           in (err, (s', count_if (landed err \<and> length nodes + length edges > 0) (snd vs)))))"

definition v_upsert_batch_from :: "'s capabilities \<Rightarrow> origin \<Rightarrow> node list \<Rightarrow> edge list \<Rightarrow> 's versioned store_op" where
  "v_upsert_batch_from st orig nodes edges vs =
     (case cap_from st of
        None \<Rightarrow> v_upsert_batch st nodes edges vs
      | Some f \<Rightarrow>
          (let (err, s') = f orig nodes edges (fst vs)
           in (err, (s', count_if (landed err \<and> length nodes + length edges > 0) (snd vs)))))"

record prune_stats =
  ps_nodes :: nat
  ps_edges :: nat

record sweep_stats =
  ss_nodes :: nat
  ss_edges :: nat
  ss_parked :: nat

definition swept_any :: "sweep_stats \<Rightarrow> bool" where
  "swept_any st \<longleftrightarrow> ss_nodes st + ss_edges st + ss_parked st > 0"

text \<open>A backend without the capability prunes and sweeps nothing.\<close>

definition v_prune ::
  "('s \<Rightarrow> prune_stats \<times> store_error option \<times> 's) option \<Rightarrow> 's versioned \<Rightarrow> prune_stats \<times> store_error option \<times> 's versioned" where
  "v_prune pr vs =
     (case pr of
        None \<Rightarrow> (\<lparr>ps_nodes = 0, ps_edges = 0\<rparr>, None, vs)
      | Some f \<Rightarrow>
          (let (stats, err, s') = f (fst vs)
           in (stats, err, (s', count_if (err = None \<and> ps_nodes stats + ps_edges stats > 0) (snd vs)))))"

definition v_sweep ::
  "('s \<Rightarrow> sweep_stats \<times> store_error option \<times> 's) option \<Rightarrow> 's versioned \<Rightarrow> sweep_stats \<times> store_error option \<times> 's versioned" where
  "v_sweep sw vs =
     (case sw of
        None \<Rightarrow> (\<lparr>ss_nodes = 0, ss_edges = 0, ss_parked = 0\<rparr>, None, vs)
      | Some f \<Rightarrow>
          (let (stats, err, s') = f (fst vs)
           in (stats, err, (s', count_if (err = None \<and> swept_any stats) (snd vs)))))"

end
