(* ===== verification/Attack_Path.thy ===== *)
theory Attack_Path
  imports Graph_Store
begin

text \<open>
  What the analyzer makes of one route, \<open>backend/internal/analyzer/attackpath.go\<close>: the
  provenance of an edge's probability, the adjacency the search runs on, and the scored
  \<open>AttackPath\<close> that \<open>assembleAttackPath\<close> builds. The score counts each shared cause once, at
  its weakest hop; it is proved to lie between the plain product and the weakest hop.
\<close>

section \<open>Steps and paths\<close>

record step =
  st_type :: edge_type
  st_from :: string
  st_to :: string
  st_prob :: real
  st_method :: string
  st_res_conf :: real
  st_basis :: string
  st_conf :: real
  st_evid :: int
  st_cause :: string

definition zero_step :: step where
  "zero_step = \<lparr>st_type = [], st_from = [], st_to = [], st_prob = 0, st_method = [], st_res_conf = 0,
     st_basis = [], st_conf = 0, st_evid = 0, st_cause = []\<rparr>"

record attack_path =
  ap_id :: string
  ap_score :: real
  ap_nodes :: "node list"
  ap_steps :: "step list"
  ap_runtime :: bool
  ap_conf :: real
  ap_conf_label :: string
  ap_upper :: real
  ap_correlated :: bool
  ap_priority :: real
  ap_label :: string
  ap_factors :: "string list"
  ap_reason :: string
  ap_direct :: bool

definition zero_path :: attack_path where
  "zero_path = \<lparr>ap_id = [], ap_score = 0, ap_nodes = [], ap_steps = [], ap_runtime = False, ap_conf = 0,
     ap_conf_label = [], ap_upper = 0, ap_correlated = False, ap_priority = 0, ap_label = [],
     ap_factors = [], ap_reason = [], ap_direct = False\<rparr>"

definition ap_source :: "attack_path \<Rightarrow> node" where
  "ap_source p = hd (ap_nodes p)"

definition ap_target :: "attack_path \<Rightarrow> node" where
  "ap_target p = last (ap_nodes p)"

section \<open>Where a probability comes from\<close>

definition clamp_prob :: "real \<Rightarrow> real" where
  "clamp_prob p = (if p \<le> 0 then 1 / 100 else if p > 1 then 1 else p)"

lemma clamp_prob_range: "0 < clamp_prob p \<and> clamp_prob p \<le> 1"
  by (simp add: clamp_prob_def)

definition basis_confidence :: "string \<Rightarrow> real" where
  "basis_confidence b =
     (if b = ''kev'' then 0.95 else if b = ''runtime'' then 0.9 else if b = ''epss'' then 0.85
      else if b = ''cvss'' then 0.6 else if b = ''severity'' then 0.4
      else if b = ''heuristic'' then 0.35 else 0.3)"

definition evidence_count_of :: "edge \<Rightarrow> int" where
  "evidence_count_of e =
     (case pget (e_props e) prop_evidence_count of
        GInt v \<Rightarrow> if v > 0 then v else 0
      | GInt64 v \<Rightarrow> if v > 0 then v else 0
      | GFloat v \<Rightarrow> if v > 0 then trunc_int v else 0
      | GNumber s \<Rightarrow> (case atoi s of Some n \<Rightarrow> if n > 0 then n else 0 | None \<Rightarrow> 0)
      | _ \<Rightarrow> 0)"

definition weight_basis_of :: "edge \<Rightarrow> node \<Rightarrow> node \<Rightarrow> string \<times> real \<times> int" where
  "weight_basis_of e from to =
     (let n = evidence_count_of e; b = as_string (pget (e_props e) prop_weight_basis);
          by_basis = (\<lambda>b. (b, basis_confidence b, n))
      in if b \<noteq> [] then by_basis b
         else if node_bool from prop_runtime_alert \<or> node_bool to prop_runtime_alert then by_basis ''runtime''
         else if e_type e = edge_affects \<or> e_type e = edge_exploits
           then (if pget (n_props to) prop_cvss \<noteq> GNil \<or> pget (n_props from) prop_cvss \<noteq> GNil
                 then by_basis ''cvss'' else by_basis ''severity'')
         else by_basis ''heuristic'')"

definition weight_cause_of :: "edge \<Rightarrow> node \<Rightarrow> string" where
  "weight_cause_of e to =
     (let c = as_string (pget (e_props e) prop_weight_cause)
      in if c \<noteq> [] then c
         else if e_type e = edge_affects \<and> n_label to = label_cve
           then (let name = to_upper (trim_space (n_name to)) in if name \<noteq> [] then name else n_id to)
         else [])"

definition resolution_of :: "props \<Rightarrow> string \<times> real" where
  "resolution_of ps =
     (as_string (pget ps prop_resolution_method),
      (case pget ps prop_resolution_confidence of
         GFloat v \<Rightarrow> v | GFloat32 v \<Rightarrow> v | GInt v \<Rightarrow> of_int v | GInt64 v \<Rightarrow> of_int v | _ \<Rightarrow> 0))"

section \<open>The adjacency\<close>

record out_edge =
  oe_to :: string
  oe_typ :: edge_type
  oe_weight :: real
  oe_prob :: real
  oe_method :: string
  oe_res_conf :: real
  oe_basis :: string
  oe_conf :: real
  oe_evid :: int
  oe_cause :: string

definition out_edge_of :: "(string, node) gomap \<Rightarrow> edge \<Rightarrow> out_edge" where
  "out_edge_of nodes e =
     (let p = clamp_prob (e_prob e); (meth, conf) = resolution_of (e_props e);
          (basis, bconf, evid) = weight_basis_of e (node_at nodes (e_from e)) (node_at nodes (e_to e))
      in \<lparr>oe_to = e_to e, oe_typ = e_type e, oe_weight = - ln p, oe_prob = p, oe_method = meth,
          oe_res_conf = conf, oe_basis = basis, oe_conf = bconf, oe_evid = evid,
          oe_cause = weight_cause_of e (node_at nodes (e_to e))\<rparr>)"

type_synonym adjacency = "(string, out_edge list) gomap"

definition adj_at :: "adjacency \<Rightarrow> string \<Rightarrow> out_edge list" where
  "adj_at adj v = (case map_of adj v of Some es \<Rightarrow> es | None \<Rightarrow> [])"

definition build_adjacency :: "edge list \<Rightarrow> (string, node) gomap \<Rightarrow> adjacency" where
  "build_adjacency edges nodes =
     fold (\<lambda>e adj. AList.update (e_from e) (adj_at adj (e_from e) @ [out_edge_of nodes e]) adj) edges []"

definition mk_step :: "string \<Rightarrow> out_edge \<Rightarrow> step" where
  "mk_step v e = \<lparr>st_type = oe_typ e, st_from = v, st_to = oe_to e, st_prob = oe_prob e,
     st_method = oe_method e, st_res_conf = oe_res_conf e, st_basis = oe_basis e, st_conf = oe_conf e,
     st_evid = oe_evid e, st_cause = oe_cause e\<rparr>"

lemma out_edge_of_simps [simp]:
  "oe_to (out_edge_of nodes e) = e_to e" "oe_typ (out_edge_of nodes e) = e_type e"
  "oe_prob (out_edge_of nodes e) = clamp_prob (e_prob e)"
  "oe_weight (out_edge_of nodes e) = - ln (clamp_prob (e_prob e))"
  "oe_cause (out_edge_of nodes e) = weight_cause_of e (node_at nodes (e_to e))"
  by (simp_all add: out_edge_of_def Let_def split_beta)

lemma adj_at_build: "adj_at (build_adjacency edges nodes) v = map (out_edge_of nodes) (filter (\<lambda>e. e_from e = v) edges)"
proof -
  have "adj_at (fold (\<lambda>e adj. AList.update (e_from e) (adj_at adj (e_from e) @ [out_edge_of nodes e]) adj) edges a) v =
      adj_at a v @ map (out_edge_of nodes) (filter (\<lambda>e. e_from e = v) edges)" for a
    by (induction edges arbitrary: a) (auto simp: adj_at_def map_of_update)
  then show ?thesis by (simp add: build_adjacency_def adj_at_def)
qed

section \<open>The score of a route\<close>

text \<open>
  The inner loop of \<open>chainProbability\<close> for hop \<open>i\<close>: is it the first hop of its cause, and the
  weakest probability of the cause.
\<close>

fun cause_scan :: "string \<Rightarrow> nat \<Rightarrow> nat \<Rightarrow> real \<Rightarrow> step list \<Rightarrow> real list \<Rightarrow> bool \<times> real" where
  "cause_scan c i j w (s # ss) (x # xs) =
     (if st_cause s \<noteq> c then cause_scan c i (Suc j) w ss xs
      else if j < i then (False, w)
      else cause_scan c i (Suc j) (min w x) ss xs)"
| "cause_scan c i j w _ _ = (True, w)"

definition chain_probability :: "step list \<Rightarrow> real list \<Rightarrow> real" where
  "chain_probability steps p =
     fold (\<lambda>i acc.
        let st = steps ! i
        in if st_cause st = [] then acc * p ! i
           else (let (first, weakest) = cause_scan (st_cause st) i 0 (p ! i) steps p
                 in if first then acc * weakest else acc))
       [0..<length steps] 1"

fun repeats :: "string set \<Rightarrow> string list \<Rightarrow> bool" where
  "repeats seen [] \<longleftrightarrow> False"
| "repeats seen (x # xs) \<longleftrightarrow> (if x = [] then repeats seen xs else if x \<in> seen then True else repeats (insert x seen) xs)"

definition hops_correlated :: "step list \<Rightarrow> bool" where
  "hops_correlated steps \<longleftrightarrow>
     \<not> length steps < 2 \<and> (repeats {} (map st_cause steps) \<or> repeats {} (map st_basis steps))"

definition path_confidence :: "step list \<Rightarrow> real \<times> string" where
  "path_confidence steps =
     (if steps = [] then (0, [])
      else (let c = sum_list (map st_conf steps) / real (length steps)
            in (c, if c \<ge> 0.7 then ''high'' else if c \<ge> 0.45 then ''medium'' else ''low'')))"

section \<open>Path ids\<close>

definition last_index_of :: "(char \<Rightarrow> bool) \<Rightarrow> string \<Rightarrow> nat option" where
  "last_index_of P s = (case filter (\<lambda>i. P (s ! i)) [0..<length s] of [] \<Rightarrow> None | is \<Rightarrow> Some (last is))"

definition stem :: "string \<Rightarrow> string" where
  "stem id0 =
     (let s = (case last_index_of (\<lambda>c. c = CHR '':'') id0 of
                 Some i \<Rightarrow> if i + 1 < length id0 then drop (i + 1) id0 else id0
               | None \<Rightarrow> id0)
      in if length s \<le> 16 then s
         else (let cut = take 16 s
               in case last_index_of (\<lambda>c. c \<in> set ''-._/'') cut of
                    Some i \<Rightarrow> if i \<ge> 6 then take i cut else cut
                  | None \<Rightarrow> cut))"

definition path_key :: "string list \<Rightarrow> string" where
  "path_key sq = str_join sq ''>''"

definition fnv32_step :: "char \<Rightarrow> u32 \<Rightarrow> u32" where
  "fnv32_step c h = (h XOR of_nat (of_char c)) * 16777619"

definition short_hash :: "string \<Rightarrow> string" where
  "short_hash s = hex_word (fold fnv32_step s 2166136261)"

definition path_id :: "string list \<Rightarrow> string" where
  "path_id sq =
     (if sq = [] then ''ap-empty''
      else ''ap-'' @ stem (hd sq) @ ''-'' @ stem (last sq) @ ''-'' @ short_hash (path_key sq))"

section \<open>Assembling a path\<close>

definition assemble :: "node list \<Rightarrow> step list \<Rightarrow> attack_path" where
  "assemble nodes steps =
     (if nodes = [] then zero_path
      else (let probs = map st_prob steps; (conf, lbl) = path_confidence steps
            in zero_path\<lparr>ap_id := path_id (map n_id nodes),
                 ap_score := chain_probability steps probs,
                 ap_nodes := nodes, ap_steps := steps,
                 ap_runtime := (\<exists>n \<in> set nodes. node_bool n prop_runtime_alert),
                 ap_conf := conf, ap_conf_label := lbl,
                 ap_upper := fold (\<lambda>x m. if x < m then x else m) probs 1,
                 ap_correlated := hops_correlated steps\<rparr>))"

definition direct_access_path :: "node \<Rightarrow> attack_path" where
  "direct_access_path jewel =
     (assemble [jewel] [])\<lparr>ap_direct := True, ap_conf := 0.95, ap_conf_label := ''high''\<rparr>"

text \<open>The ids of a snapshot, each at its first listing.\<close>

fun listed_ids :: "string set \<Rightarrow> node list \<Rightarrow> string list" where
  "listed_ids seen [] = []"
| "listed_ids seen (n # ns) =
     (if n_id n \<in> seen then listed_ids seen ns else n_id n # listed_ids (insert (n_id n) seen) ns)"

definition direct_access_paths :: "snapshot \<Rightarrow> attack_path list" where
  "direct_access_paths snap =
     (let index = node_by_id snap
      in map direct_access_path
           (filter (\<lambda>n. is_jewel n \<and> held_by_attacker n) (map (node_at index) (listed_ids {} (sn_nodes snap)))))"

definition step_of_raw :: "edge \<Rightarrow> node \<Rightarrow> node \<Rightarrow> step" where
  "step_of_raw e from to =
     (let (meth, conf) = resolution_of (e_props e); (basis, bconf, evid) = weight_basis_of e from to
      in \<lparr>st_type = e_type e, st_from = e_from e, st_to = e_to e, st_prob = clamp_prob (e_prob e),
          st_method = meth, st_res_conf = conf, st_basis = basis, st_conf = bconf, st_evid = evid,
          st_cause = weight_cause_of e to\<rparr>)"

definition attack_path_from_raw :: "raw_path \<Rightarrow> attack_path option" where
  "attack_path_from_raw rp =
     (let ns = rp_nodes rp; es = rp_edges rp
      in if length ns < 2 \<or> length es \<noteq> length ns - 1 then None
         else Some (assemble ns (map (\<lambda>i. step_of_raw (es ! i) (ns ! i) (ns ! (i + 1))) [0..<length es])))"

definition path_before :: "attack_path \<Rightarrow> attack_path \<Rightarrow> bool" where
  "path_before p q = (if ap_runtime p \<noteq> ap_runtime q then ap_runtime p else ap_score p > ap_score q)"

definition raw_before :: "attack_path \<Rightarrow> attack_path \<Rightarrow> bool" where
  "raw_before p q =
     (if ap_runtime p \<noteq> ap_runtime q then ap_runtime p
      else if ap_score p \<noteq> ap_score q then ap_score p > ap_score q
      else str_less (ap_id p) (ap_id q))"

definition pair_key :: "attack_path \<Rightarrow> string" where
  "pair_key p = n_id (ap_source p) @ CHR 0x00 # n_id (ap_target p)"

definition keep_best :: "attack_path \<Rightarrow> (string, attack_path) gomap \<Rightarrow> (string, attack_path) gomap" where
  "keep_best p best =
     (case map_of best (pair_key p) of
        Some cur \<Rightarrow> if ap_score p > ap_score cur then AList.update (pair_key p) p best else best
      | None \<Rightarrow> AList.update (pair_key p) p best)"

definition rank_raw_paths :: "raw_path list \<Rightarrow> attack_path list \<Rightarrow> attack_path list" where
  "rank_raw_paths raws direct =
     (let best = fold (\<lambda>p. AList.update (pair_key p) p) direct [];
          best = fold keep_best (List.map_filter attack_path_from_raw raws) best
      in sort_by raw_before (map snd best))"

section \<open>What the score means\<close>

text \<open>
  The specification: the product over the hops with no cause, times each cause once, at its
  weakest hop.
\<close>

definition class_of :: "step list \<Rightarrow> nat \<Rightarrow> nat set" where
  "class_of steps i =
     (if st_cause (steps ! i) = [] then {i}
      else {k. k < length steps \<and> st_cause (steps ! k) = st_cause (steps ! i)})"

definition leads :: "step list \<Rightarrow> nat \<Rightarrow> bool" where
  "leads steps i \<longleftrightarrow> i < length steps \<and> (\<forall>k \<in> class_of steps i. i \<le> k)"

lemma cause_scan_first:
  "length ss = length xs \<Longrightarrow>
     fst (cause_scan c i j w ss xs) \<longleftrightarrow> (\<forall>k < length ss. j + k < i \<longrightarrow> st_cause (ss ! k) \<noteq> c)"
proof (induction c i j w ss xs rule: cause_scan.induct)
  case (1 c i j w s ss x xs)
  have shift: "(\<forall>k < length (s # ss). j + k < i \<longrightarrow> st_cause ((s # ss) ! k) \<noteq> c) \<longleftrightarrow>
      (j < i \<longrightarrow> st_cause s \<noteq> c) \<and> (\<forall>k < length ss. Suc j + k < i \<longrightarrow> st_cause (ss ! k) \<noteq> c)"
    by (auto simp: less_Suc_eq_0_disj)
  show ?case
    using 1 unfolding shift by (cases "st_cause s = c"; cases "j < i") auto
qed auto

lemma Collect_less_Suc:
  "{f k | k. k < Suc n \<and> P k} = (if P 0 then {f 0} else {}) \<union> {f (Suc k) | k. k < n \<and> P (Suc k)}"
proof -
  have "k < Suc n \<and> P k \<longleftrightarrow> k = 0 \<and> P 0 \<or> (\<exists>m. k = Suc m \<and> m < n \<and> P (Suc m))" for k
    by (cases k) auto
  then show ?thesis by auto
qed

lemma Min_insert_min: "finite A \<Longrightarrow> Min (insert (min w (x :: real)) A) = Min (insert w (insert x A))"
  by (cases "A = {}") (auto simp: min.assoc)

lemma cause_scan_weakest:
  "length ss = length xs \<Longrightarrow> fst (cause_scan c i j w ss xs) \<Longrightarrow>
     snd (cause_scan c i j w ss xs) = Min (insert w {xs ! k | k. k < length ss \<and> st_cause (ss ! k) = c})"
proof (induction c i j w ss xs rule: cause_scan.induct)
  case (1 c i j w s ss x xs)
  let ?rest = "{xs ! k | k. k < length ss \<and> st_cause (ss ! k) = c}"
  have all: "{(x # xs) ! k | k. k < length (s # ss) \<and> st_cause ((s # ss) ! k) = c} =
      (if st_cause s = c then insert x ?rest else ?rest)"
    using Collect_less_Suc [of "(!) (x # xs)" "length ss" "\<lambda>k. st_cause ((s # ss) ! k) = c"] by simp
  have fin: "finite ?rest" by simp
  show ?case
  proof (cases "st_cause s = c")
    case False
    then show ?thesis unfolding all using 1 by simp
  next
    case True
    then have "\<not> j < i" using "1.prems"(2) by (auto split: if_splits)
    then have "snd (cause_scan c i j w (s # ss) (x # xs)) = Min (insert (min w x) ?rest)"
      using 1 True by simp
    also have "\<dots> = Min (insert w (insert x ?rest))"
      by (rule Min_insert_min [OF fin])
    finally show ?thesis unfolding all using True by simp
  qed
qed auto

lemma class_self: "i < length steps \<Longrightarrow> i \<in> class_of steps i"
  by (simp add: class_of_def)

lemma class_finite [simp]: "finite (class_of steps i)"
  by (simp add: class_of_def)

lemma class_less: "i < length steps \<Longrightarrow> k \<in> class_of steps i \<Longrightarrow> k < length steps"
  by (simp add: class_of_def split: if_splits)

lemma class_same: "k \<in> class_of steps i \<Longrightarrow> class_of steps k = class_of steps i"
  by (auto simp: class_of_def split: if_splits)

lemma chain_probability_eq:
  assumes len: "length p = length steps"
  shows "chain_probability steps p = (\<Prod>i \<in> {i. leads steps i}. Min ((!) p ` class_of steps i))"
proof -
  let ?n = "length steps"
  define f where "f i = (if leads steps i then Min ((!) p ` class_of steps i) else 1)" for i
  let ?step = "\<lambda>i acc. let st = steps ! i in if st_cause st = [] then acc * p ! i
       else (let (first, weakest) = cause_scan (st_cause st) i 0 (p ! i) steps p in if first then acc * weakest else acc)"
  have step: "?step i acc = acc * f i" if i: "i < ?n" for i acc
  proof (cases "st_cause (steps ! i) = []")
    case True
    then have "f i = p ! i" using i by (simp add: f_def leads_def class_of_def)
    then show ?thesis using True by simp
  next
    case False
    let ?c = "st_cause (steps ! i)" and ?scan = "cause_scan (st_cause (steps ! i)) i 0 (p ! i) steps p"
    have cls: "class_of steps i = {k. k < ?n \<and> st_cause (steps ! k) = ?c}"
      using False by (simp add: class_of_def)
    have first: "fst ?scan \<longleftrightarrow> leads steps i"
      using cause_scan_first [of steps p ?c i 0 "p ! i"] len i by (auto simp: leads_def cls not_less)
    have im: "insert (p ! i) {p ! k | k. k < ?n \<and> st_cause (steps ! k) = ?c} = (!) p ` class_of steps i"
      unfolding cls using i by auto
    have "fst ?scan \<Longrightarrow> snd ?scan = Min ((!) p ` class_of steps i)"
      using cause_scan_weakest [of steps p ?c i 0 "p ! i"] len im by simp
    then show ?thesis using False first by (auto simp: f_def split_beta Let_def)
  qed
  have "fold ?step xs acc = acc * prod_list (map f xs)" if "set xs \<subseteq> {..<?n}" for xs acc
    using that by (induction xs arbitrary: acc) (auto simp: step mult.assoc simp del: split_paired_All)
  then have "chain_probability steps p = prod_list (map f [0..<?n])"
    by (simp add: chain_probability_def atLeast0LessThan)
  also have "\<dots> = (\<Prod>i \<in> {..<?n}. f i)"
    by (metis atLeast_upt distinct_upt prod.distinct_set_conv_list)
  also have "\<dots> = (\<Prod>i \<in> {i. leads steps i}. f i)"
    by (rule prod.mono_neutral_right) (auto simp: leads_def f_def)
  also have "\<dots> = (\<Prod>i \<in> {i. leads steps i}. Min ((!) p ` class_of steps i))"
    by (rule prod.cong) (auto simp: f_def)
  finally show ?thesis .
qed

lemma prod_list_nth: "prod_list xs = (\<Prod>i \<in> {..<length xs}. xs ! i)"
proof -
  have "prod_list xs = prod_list (map ((!) xs) [0..<length xs])" by (simp add: map_nth)
  also have "\<dots> = (\<Prod>i \<in> {..<length xs}. xs ! i)"
    by (metis atLeast_upt distinct_upt prod.distinct_set_conv_list)
  finally show ?thesis .
qed

text \<open>The same over the hops themselves: each cause once, at its weakest hop.\<close>

definition cause_score :: "step list \<Rightarrow> real" where
  "cause_score steps = prod_list (map st_prob (filter (\<lambda>s. st_cause s = []) steps)) *
     (\<Prod>c \<in> st_cause ` set steps - {[]}. Min {st_prob s | s. s \<in> set steps \<and> st_cause s = c})"

lemma prod_list_filter: "prod_list (map f (filter P xs)) = (\<Prod>i \<in> {i. i < length xs \<and> P (xs ! i)}. f (xs ! i) :: real)"
proof -
  have "prod_list (map f (filter P xs)) = prod_list (map (\<lambda>x. if P x then f x else 1) xs)" by (induction xs) auto
  also have "\<dots> = (\<Prod>i \<in> {..<length xs}. if P (xs ! i) then f (xs ! i) else 1)" by (simp add: prod_list_nth)
  also have "\<dots> = (\<Prod>i \<in> {i. i < length xs \<and> P (xs ! i)}. f (xs ! i))"
    by (simp add: prod.inter_filter [symmetric] lessThan_def)
  finally show ?thesis .
qed

lemma class_of_cause: "st_cause (steps ! i) \<noteq> [] \<Longrightarrow>
    (!) (map st_prob steps) ` class_of steps i = {st_prob s | s. s \<in> set steps \<and> st_cause s = st_cause (steps ! i)}"
proof -
  assume c: "st_cause (steps ! i) \<noteq> []"
  have "(!) (map st_prob steps) ` class_of steps i = (\<lambda>k. st_prob (steps ! k)) ` class_of steps i"
    by (rule image_cong) (use c in \<open>auto simp: class_of_def\<close>)
  also have "\<dots> = {st_prob s | s. s \<in> set steps \<and> st_cause s = st_cause (steps ! i)}"
    using c unfolding class_of_def by (auto simp: set_conv_nth image_iff)
  finally show ?thesis .
qed

lemma prod_le_member:
  fixes f :: "'a \<Rightarrow> real"
  assumes "finite A" "a \<in> A" "\<And>x. x \<in> A \<Longrightarrow> 0 \<le> f x \<and> f x \<le> 1"
  shows "(\<Prod>x \<in> A. f x) \<le> f a"
proof -
  have "(\<Prod>x \<in> A - {a}. f x) \<le> 1" using assms by (intro prod_le_1) auto
  then have "f a * (\<Prod>x \<in> A - {a}. f x) \<le> f a" using assms by (intro mult_left_le) auto
  then show ?thesis using assms by (simp add: prod.remove)
qed

text \<open>Each class has one leader, its least member.\<close>

lemma leader:
  assumes "i < length steps"
  obtains r where "leads steps r" "r \<in> class_of steps i"
proof -
  let ?r = "Min (class_of steps i)"
  have r: "?r \<in> class_of steps i" using class_self [OF assms] by (intro Min_in) auto
  moreover have "leads steps ?r"
    using class_less [OF assms r] class_same [OF r] by (simp add: leads_def)
  ultimately show ?thesis using that by blast
qed

lemma cause_leader:
  assumes "c \<in> st_cause ` set steps - {[]}"
  shows "\<exists>i. leads steps i \<and> st_cause (steps ! i) = c"
proof -
  obtain k where k: "k < length steps" "st_cause (steps ! k) = c" using assms by (auto simp: in_set_conv_nth)
  obtain r where r: "leads steps r" "r \<in> class_of steps k" by (rule leader [OF k(1)])
  have "st_cause (steps ! r) = c" using r(2) k assms by (simp add: class_of_def)
  then show ?thesis using r(1) by blast
qed

lemma chain_probability_causes: "chain_probability steps (map st_prob steps) = cause_score steps"
proof -
  let ?p = "map st_prob steps" and ?c = "\<lambda>i. st_cause (steps ! i)"
  let ?A = "{i. i < length steps \<and> ?c i = []}" and ?B = "{i. leads steps i \<and> ?c i \<noteq> []}"
  have split: "{i. leads steps i} = ?A \<union> ?B" "?A \<inter> ?B = {}" by (auto simp: leads_def class_of_def)
  have fin: "finite ?A" "finite ?B" by (auto simp: leads_def)
  have "(\<Prod>i \<in> ?A. Min ((!) ?p ` class_of steps i)) = (\<Prod>i \<in> ?A. st_prob (steps ! i))"
    by (rule prod.cong) (auto simp: class_of_def)
  moreover have "(\<Prod>i \<in> ?B. Min ((!) ?p ` class_of steps i)) =
      (\<Prod>c \<in> ?c ` ?B. Min {st_prob s | s. s \<in> set steps \<and> st_cause s = c})"
  proof -
    have "i \<le> k" if "i \<in> ?B" "k \<in> ?B" "?c i = ?c k" for i k
    proof -
      have "k \<in> class_of steps i" using that by (simp add: leads_def class_of_def)
      then show ?thesis using that(1) unfolding leads_def by blast
    qed
    then have "inj_on ?c ?B" by (intro inj_onI le_antisym) simp_all
    then show ?thesis unfolding prod.reindex [OF \<open>inj_on ?c ?B\<close>] o_def
      by (intro prod.cong refl arg_cong [of _ _ Min] class_of_cause) auto
  qed
  moreover have "?c ` ?B = st_cause ` set steps - {[]}"
  proof
    show "?c ` ?B \<subseteq> st_cause ` set steps - {[]}" by (auto simp: leads_def)
    show "st_cause ` set steps - {[]} \<subseteq> ?c ` ?B"
    proof
      fix c
      assume c: "c \<in> st_cause ` set steps - {[]}"
      obtain i where "leads steps i" "?c i = c" using cause_leader [OF c] by blast
      then show "c \<in> ?c ` ?B" using c by (intro image_eqI [of _ _ i]) simp_all
    qed
  qed
  ultimately show ?thesis
    unfolding chain_probability_eq [of ?p steps, simplified] split(1) prod.union_disjoint [OF fin split(2)] cause_score_def prod_list_filter
    by simp
qed

definition leader_of :: "step list \<Rightarrow> nat \<Rightarrow> nat" where
  "leader_of steps i = Min (class_of steps i)"

lemma leader_of_class:
  "i < length steps \<Longrightarrow> leads steps r \<Longrightarrow> leader_of steps i = r \<longleftrightarrow> i \<in> class_of steps r"
proof -
  assume i: "i < length steps" and r: "leads steps r"
  have m: "leader_of steps i \<in> class_of steps i"
    unfolding leader_of_def using class_self [OF i] by (intro Min_in) auto
  show ?thesis
  proof
    assume "leader_of steps i = r"
    then show "i \<in> class_of steps r" using class_same [OF m] class_self [OF i] by simp
  next
    assume "i \<in> class_of steps r"
    then have c: "class_of steps i = class_of steps r" by (rule class_same)
    have "r \<in> class_of steps r" using r by (simp add: leads_def class_self)
    then show "leader_of steps i = r"
      unfolding leader_of_def c using r by (intro Min_eqI) (auto simp: leads_def)
  qed
qed

lemma chain_probability_bounds:
  assumes len: "length p = length steps" and p: "\<And>x. x \<in> set p \<Longrightarrow> 0 \<le> x \<and> x \<le> 1"
  shows "prod_list p \<le> chain_probability steps p"
    and "x \<in> set p \<Longrightarrow> chain_probability steps p \<le> x"
    and "0 \<le> chain_probability steps p \<and> chain_probability steps p \<le> 1"
proof -
  let ?n = "length steps" and ?L = "{i. leads steps i}"
  have fin: "finite ?L" by (rule finite_subset [of _ "{..<?n}"]) (auto simp: leads_def)
  have pi: "i < ?n \<Longrightarrow> 0 \<le> p ! i \<and> p ! i \<le> 1" for i using p len by simp
  have mem: "Min ((!) p ` class_of steps i) \<in> (!) p ` class_of steps i" if "i < ?n" for i
    using class_self [OF that] by (intro Min_in) auto
  have weak: "0 \<le> Min ((!) p ` class_of steps i) \<and> Min ((!) p ` class_of steps i) \<le> 1" if "leads steps i" for i
    using mem [of i] that pi class_less by (fastforce simp: leads_def)
  have "prod_list p = (\<Prod>i \<in> {..<?n}. p ! i)"
    by (simp add: prod_list_nth len)
  also have "\<dots> = (\<Prod>r \<in> ?L. \<Prod>i \<in> {i \<in> {..<?n}. leader_of steps i = r}. p ! i)"
  proof (rule prod.group [symmetric])
    show "leader_of steps ` {..<?n} \<subseteq> ?L"
    proof
      fix r
      assume "r \<in> leader_of steps ` {..<?n}"
      then obtain i where i: "i < ?n" "r = leader_of steps i" by auto
      obtain q where q: "leads steps q" "q \<in> class_of steps i" by (rule leader [OF i(1)])
      have "i \<in> class_of steps q" using class_same [OF q(2)] class_self [OF i(1)] by simp
      then have "leader_of steps i = q" using leader_of_class [OF i(1) q(1)] by simp
      then show "r \<in> ?L" using i(2) q(1) by simp
    qed
  qed (use fin in auto)
  also have "\<dots> \<le> (\<Prod>r \<in> ?L. Min ((!) p ` class_of steps r))"
  proof (rule prod_mono)
    fix r
    assume "r \<in> ?L"
    then have r: "leads steps r" "r < ?n" by (auto simp: leads_def)
    have cls: "{i \<in> {..<?n}. leader_of steps i = r} = class_of steps r"
      using leader_of_class [OF _ r(1)] class_less [OF r(2)] by auto
    obtain k where k: "k \<in> class_of steps r" "Min ((!) p ` class_of steps r) = p ! k" using mem [OF r(2)] by auto
    have "(\<Prod>i \<in> class_of steps r. p ! i) \<le> p ! k"
      by (rule prod_le_member [OF class_finite k(1)]) (use pi class_less [OF r(2)] in blast)
    moreover have "0 \<le> (\<Prod>i \<in> class_of steps r. p ! i)"
      by (rule prod_nonneg) (use pi class_less [OF r(2)] in blast)
    ultimately show "0 \<le> (\<Prod>i \<in> {i \<in> {..<?n}. leader_of steps i = r}. p ! i) \<and>
        (\<Prod>i \<in> {i \<in> {..<?n}. leader_of steps i = r}. p ! i) \<le> Min ((!) p ` class_of steps r)"
      unfolding cls using k(2) by simp
  qed
  finally show "prod_list p \<le> chain_probability steps p" by (simp add: chain_probability_eq [OF len])
  show "0 \<le> chain_probability steps p \<and> chain_probability steps p \<le> 1"
    unfolding chain_probability_eq [OF len] using weak by (auto intro!: prod_nonneg prod_le_1)
  show "chain_probability steps p \<le> x" if x: "x \<in> set p"
  proof -
    obtain i where i: "i < ?n" "x = p ! i" using x len by (auto simp: in_set_conv_nth)
    obtain r where r: "leads steps r" "r \<in> class_of steps i" by (rule leader [OF i(1)])
    have c: "class_of steps r = class_of steps i" by (rule class_same [OF r(2)])
    have "chain_probability steps p \<le> Min ((!) p ` class_of steps r)"
      unfolding chain_probability_eq [OF len] by (rule prod_le_member [OF fin]) (use r weak in auto)
    also have "\<dots> \<le> x" unfolding c i(2) using class_self [OF i(1)] by (intro Min_le) auto
    finally show ?thesis .
  qed
qed

lemma chain_probability_plain:
  assumes "length p = length steps" "\<And>s. s \<in> set steps \<Longrightarrow> st_cause s = []"
  shows "chain_probability steps p = prod_list p"
proof -
  have "class_of steps i = {i}" if "i < length steps" for i using that assms(2) by (simp add: class_of_def)
  then have "{i. leads steps i} = {..<length steps}" "\<And>i. i < length steps \<Longrightarrow> class_of steps i = {i}"
    by (auto simp: leads_def)
  then show ?thesis
    unfolding chain_probability_eq [OF assms(1)] using assms(1)
    by (simp add: prod_list_nth)
qed

lemma upper_fold: "fold (\<lambda>x m. if x < m then x else m) xs (b :: real) = Min (insert b (set xs))"
proof (induction xs arbitrary: b)
  case (Cons x xs)
  have "(if x < b then x else b) = min b x" by (simp add: min_def)
  then show ?case using Cons.IH [of "min b x"] Min_insert_min [of "set xs" b x] by simp
qed simp

lemma assemble_simps:
  assumes "nodes \<noteq> []"
  shows "ap_nodes (assemble nodes steps) = nodes" "ap_steps (assemble nodes steps) = steps"
    "ap_score (assemble nodes steps) = chain_probability steps (map st_prob steps)"
    "ap_upper (assemble nodes steps) = Min (insert 1 (set (map st_prob steps)))"
    "ap_runtime (assemble nodes steps) = (\<exists>n \<in> set nodes. node_bool n prop_runtime_alert)"
    "ap_id (assemble nodes steps) = path_id (map n_id nodes)"
    "ap_correlated (assemble nodes steps) = hops_correlated steps"
    "ap_direct (assemble nodes steps) = False"
  using assms by (simp_all add: assemble_def Let_def split_beta upper_fold zero_path_def)

section \<open>Entry points and crown jewels\<close>

text \<open>A node listed twice is one entry point and one jewel, by its last entry.\<close>

definition snap_seeds :: "snapshot \<Rightarrow> string list" where
  "snap_seeds snap = filter (\<lambda>i. is_seed (node_at (node_by_id snap) i)) (listed_ids {} (sn_nodes snap))"

definition snap_jewels :: "snapshot \<Rightarrow> string list" where
  "snap_jewels snap = filter (\<lambda>i. is_jewel (node_at (node_by_id snap) i)) (listed_ids {} (sn_nodes snap))"

lemma set_listed_ids: "set (listed_ids seen ns) = n_id ` set ns - seen"
  by (induction seen ns rule: listed_ids.induct) auto

lemma distinct_listed_ids: "distinct (listed_ids seen ns)"
  by (induction seen ns rule: listed_ids.induct) (auto simp: set_listed_ids)

lemma node_at_listed: "i \<in> n_id ` set (sn_nodes snap) \<Longrightarrow>
    node_at (node_by_id snap) i \<in> set (sn_nodes snap) \<and> n_id (node_at (node_by_id snap) i) = i"
  using node_by_id_None [of snap i] node_by_id_SomeD [of snap i] by (auto simp: node_at_def split: option.splits)

lemma snap_seeds_iff: "s \<in> set (snap_seeds snap) \<longleftrightarrow>
    s \<in> n_id ` set (sn_nodes snap) \<and> is_seed (node_at (node_by_id snap) s)"
  by (auto simp: snap_seeds_def set_listed_ids)

lemma snap_jewels_iff: "j \<in> set (snap_jewels snap) \<longleftrightarrow>
    j \<in> n_id ` set (sn_nodes snap) \<and> is_jewel (node_at (node_by_id snap) j)"
  by (auto simp: snap_jewels_def set_listed_ids)

lemma snap_seeds_distinct: "distinct (snap_seeds snap)"
  by (simp add: snap_seeds_def distinct_listed_ids)

lemma snap_jewels_distinct: "distinct (snap_jewels snap)"
  by (simp add: snap_jewels_def distinct_listed_ids)

end
