(* ===== verification/Min_Heap.thy ===== *)
theory Min_Heap
  imports PG_Prelude
begin

text \<open>
  The priority queue of the path searches, \<open>minHeap\<close> in
  \<open>backend/internal/analyzer/attackpath.go\<close>: a binary heap kept in a slice, sifting up on
  a push and down on a pop with the strict comparisons of \<open>container/heap\<close>. The contract a
  search needs of it is the locale \<open>min_queue\<close>; \<open>heap_q\<close> interprets it on the slice.
\<close>

section \<open>The contract\<close>

locale min_queue =
  fixes push :: "'a \<Rightarrow> 'q \<Rightarrow> 'q"
    and pop :: "'q \<Rightarrow> 'a \<times> 'q"
    and key :: "'a \<Rightarrow> real"
    and items :: "'q \<Rightarrow> 'a multiset"
    and invar :: "'q \<Rightarrow> bool"
  assumes items_push: "invar q \<Longrightarrow> items (push x q) = add_mset x (items q)"
    and invar_push: "invar q \<Longrightarrow> invar (push x q)"
    and items_pop: "invar q \<Longrightarrow> items q \<noteq> {#} \<Longrightarrow> pop q = (x, q') \<Longrightarrow> items q = add_mset x (items q')"
    and invar_pop: "invar q \<Longrightarrow> items q \<noteq> {#} \<Longrightarrow> pop q = (x, q') \<Longrightarrow> invar q'"
    and pop_least: "invar q \<Longrightarrow> items q \<noteq> {#} \<Longrightarrow> pop q = (x, q') \<Longrightarrow> y \<in># items q \<Longrightarrow> key x \<le> key y"
begin

lemma pop_member: "invar q \<Longrightarrow> items q \<noteq> {#} \<Longrightarrow> pop q = (x, q') \<Longrightarrow> x \<in># items q"
  using items_pop by fastforce

lemma pop_rest: "invar q \<Longrightarrow> items q \<noteq> {#} \<Longrightarrow> pop q = (x, q') \<Longrightarrow> y \<in># items q' \<Longrightarrow> y \<in># items q"
  using items_pop by fastforce

lemma pop_size: "invar q \<Longrightarrow> items q \<noteq> {#} \<Longrightarrow> pop q = (x, q') \<Longrightarrow> size (items q') < size (items q)"
  using items_pop by fastforce

text \<open>Draining a queue returns every item once, in order of its key.\<close>

fun drain :: "nat \<Rightarrow> 'q \<Rightarrow> 'a list" where
  "drain 0 q = []"
| "drain (Suc n) q = (if items q = {#} then [] else (let (x, q') = pop q in x # drain n q'))"

lemma drain_items: "invar q \<Longrightarrow> size (items q) \<le> n \<Longrightarrow> mset (drain n q) = items q"
proof (induction n arbitrary: q)
  case 0
  then show ?case by simp
next
  case (Suc n)
  obtain x q' where p: "pop q = (x, q')" by (cases "pop q")
  show ?case
  proof (cases "items q = {#}")
    case True
    then show ?thesis by simp
  next
    case False
    have "size (items q') \<le> n" using pop_size [OF Suc.prems(1) False p] Suc.prems(2) by simp
    then show ?thesis
      using Suc.IH [OF invar_pop [OF Suc.prems(1) False p]] items_pop [OF Suc.prems(1) False p] p False
      by simp
  qed
qed

lemma drain_sorted: "invar q \<Longrightarrow> size (items q) \<le> n \<Longrightarrow> sorted (map key (drain n q))"
proof (induction n arbitrary: q)
  case 0
  then show ?case by simp
next
  case (Suc n)
  obtain x q' where p: "pop q = (x, q')" by (cases "pop q")
  show ?case
  proof (cases "items q = {#}")
    case True
    then show ?thesis by simp
  next
    case False
    have sz: "size (items q') \<le> n" using pop_size [OF Suc.prems(1) False p] Suc.prems(2) by simp
    have inv: "invar q'" by (rule invar_pop [OF Suc.prems(1) False p])
    have "\<forall>y \<in> set (drain n q'). key x \<le> key y"
      using drain_items [OF inv sz] pop_least [OF Suc.prems(1) False p]
        pop_rest [OF Suc.prems(1) False p] by (metis set_mset_mset)
    then show ?thesis using Suc.IH [OF inv sz] p False by simp
  qed
qed

end

section \<open>The heap\<close>

type_synonym heap_item = "string \<times> real"
type_synonym min_heap = "heap_item list"

abbreviation hkey :: "heap_item list \<Rightarrow> nat \<Rightarrow> real" where
  "hkey a i \<equiv> snd (a ! i)"

definition swap :: "'a list \<Rightarrow> nat \<Rightarrow> nat \<Rightarrow> 'a list" where
  "swap a i j = a[i := a ! j, j := a ! i]"

definition parent :: "nat \<Rightarrow> nat" where
  "parent j = (j - 1) div 2"

function sift_up :: "min_heap \<Rightarrow> nat \<Rightarrow> min_heap" where
  "sift_up a j =
     (let i = parent j
      in if i = j \<or> \<not> (hkey a j < hkey a i) then a else sift_up (swap a i j) i)"
  by pat_completeness auto
termination
  by (relation "measure (\<lambda>(a, j). j)") (auto simp: parent_def)

declare sift_up.simps [simp del]

definition heap_push :: "heap_item \<Rightarrow> min_heap \<Rightarrow> min_heap" where
  "heap_push it h = (let a = h @ [it] in sift_up a (length a - 1))"

definition small_child :: "min_heap \<Rightarrow> nat \<Rightarrow> nat \<Rightarrow> nat" where
  "small_child a n j1 = (let j2 = j1 + 1 in if j2 < n \<and> hkey a j2 < hkey a j1 then j2 else j1)"

function sift_down :: "min_heap \<Rightarrow> nat \<Rightarrow> nat \<Rightarrow> min_heap" where
  "sift_down a n i =
     (let j1 = 2 * i + 1
      in if j1 \<ge> n then a
         else (let j = small_child a n j1
               in if \<not> (hkey a j < hkey a i) then a else sift_down (swap a i j) n j))"
  by pat_completeness auto
termination
  by (relation "measure (\<lambda>(a, n, i). n - i)") (auto simp: small_child_def Let_def split: if_splits)

declare sift_down.simps [simp del]

text \<open>The caller ensures the heap is not empty; \<open>top\<close> is the slot the root was swapped into.\<close>

definition heap_pop :: "min_heap \<Rightarrow> heap_item \<times> min_heap" where
  "heap_pop h =
     (let n = length h - 1; a = sift_down (swap h 0 n) n 0
      in (a ! n, take n a))"

section \<open>Correctness\<close>

definition heap_ok :: "min_heap \<Rightarrow> bool" where
  "heap_ok a \<longleftrightarrow> (\<forall>k < length a. 0 < k \<longrightarrow> hkey a (parent k) \<le> hkey a k)"

lemma parent_less: "0 < k \<Longrightarrow> parent k < k"
  by (auto simp: parent_def)

lemma parent_child: "0 < k \<Longrightarrow> parent k = i \<longleftrightarrow> k = 2 * i + 1 \<or> k = 2 * i + 2"
  by (auto simp: parent_def)

lemma length_swap [simp]: "length (swap a i j) = length a"
  by (simp add: swap_def)

lemma swap_nth:
  "i < length a \<Longrightarrow> j < length a \<Longrightarrow> k < length a \<Longrightarrow>
     swap a i j ! k = (if k = j then a ! i else if k = i then a ! j else a ! k)"
  by (auto simp: swap_def nth_list_update)

lemma mset_swap': "i < length a \<Longrightarrow> j < length a \<Longrightarrow> mset (swap a i j) = mset a"
  unfolding swap_def using mset_swap [of j a i] by (cases "i = j") (auto simp: list_update_swap)

lemma length_sift_up [simp]: "length (sift_up a j) = length a"
  by (induction a j rule: sift_up.induct) (subst sift_up.simps, simp add: Let_def)

lemma mset_sift_up: "j < length a \<Longrightarrow> mset (sift_up a j) = mset a"
proof (induction a j rule: sift_up.induct)
  case (1 a j)
  show ?case
  proof (cases "parent j = j \<or> \<not> (hkey a j < hkey a (parent j))")
    case True
    then show ?thesis by (subst sift_up.simps) (auto simp: Let_def)
  next
    case False
    then have "0 < j" by (cases j) (auto simp: parent_def)
    then have p: "parent j < length a" using parent_less [of j] "1.prems" by simp
    show ?thesis
      using "1.IH" [OF refl False] p mset_swap' [OF p "1.prems"] False
      by (subst sift_up.simps) (simp add: Let_def)
  qed
qed

text \<open>Sifting up restores the order when only the path from \<open>j\<close> to the root may break it.\<close>

lemma sift_up_ok:
  "j < length a \<Longrightarrow>
   (\<And>k. k < length a \<Longrightarrow> 0 < k \<Longrightarrow> k \<noteq> j \<Longrightarrow> hkey a (parent k) \<le> hkey a k) \<Longrightarrow>
   (\<And>k. k < length a \<Longrightarrow> 0 < k \<Longrightarrow> parent k = j \<Longrightarrow> 0 < j \<Longrightarrow> hkey a (parent j) \<le> hkey a k) \<Longrightarrow>
   heap_ok (sift_up a j)"
proof (induction a j rule: sift_up.induct)
  case (1 a j)
  show ?case
  proof (cases "parent j = j \<or> \<not> (hkey a j < hkey a (parent j))")
    case True
    then have "j = 0 \<or> hkey a (parent j) \<le> hkey a j" using parent_less [of j] by auto
    then have "heap_ok a" unfolding heap_ok_def using "1.prems"(2) by (metis neq0_conv)
    then show ?thesis using True by (subst sift_up.simps) (auto simp: Let_def)
  next
    case False
    then have j0: "0 < j" by (cases j) (auto simp: parent_def)
    let ?i = "parent j" and ?b = "swap a (parent j) j"
    have ij: "?i < j" using parent_less [OF j0] .
    have i: "?i < length a" using ij "1.prems"(1) by simp
    have lt: "hkey a j < hkey a ?i" using False by simp
    have b: "k < length a \<Longrightarrow> hkey ?b k = (if k = j then hkey a ?i else if k = ?i then hkey a j else hkey a k)" for k
      using swap_nth [OF i "1.prems"(1)] by simp
    have ord: "hkey ?b (parent k) \<le> hkey ?b k" if k: "k < length ?b" "0 < k" "k \<noteq> ?i" for k
    proof -
      have kl: "k < length a" and pl: "parent k < length a" using k parent_less [of k] by auto
      consider "k = j" | "k \<noteq> j" "parent k = j" | "k \<noteq> j" "parent k = ?i" | "k \<noteq> j" "parent k \<noteq> j" "parent k \<noteq> ?i"
        by blast
      then show ?thesis
      proof cases
        case 1
        then show ?thesis using b [OF kl] b [OF pl] ij lt by simp
      next
        case 2
        then show ?thesis using b [OF kl] b [OF pl] "1.prems"(3) [OF kl k(2)] j0 k(3) by simp
      next
        case 3
        then show ?thesis using b [OF kl] b [OF pl] "1.prems"(2) [OF kl k(2)] lt k(3) ij by simp
      next
        case 4
        then show ?thesis using b [OF kl] b [OF pl] "1.prems"(2) [OF kl k(2)] k(3) by simp
      qed
    qed
    have up: "hkey ?b (parent ?i) \<le> hkey ?b k" if k: "k < length ?b" "0 < k" "parent k = ?i" "0 < ?i" for k
    proof -
      have kl: "k < length a" using k by simp
      have pp: "parent ?i < ?i" using parent_less [OF k(4)] .
      then have pl: "parent ?i < length a" using i by simp
      have step: "hkey a (parent ?i) \<le> hkey a ?i" using "1.prems"(2) [OF i k(4)] ij by simp
      show ?thesis
        using b [OF kl] b [OF pl] step "1.prems"(2) [OF kl k(2)] k(3) pp ij by (cases "k = j") auto
    qed
    have "heap_ok (sift_up ?b ?i)"
      using "1.IH" [OF refl False] i ord up by simp
    then show ?thesis using False by (subst sift_up.simps) (simp add: Let_def)
  qed
qed

lemma heap_push_items: "mset (heap_push it h) = add_mset it (mset h)"
  by (simp add: heap_push_def Let_def mset_sift_up)

lemma heap_push_ok:
  assumes "heap_ok h"
  shows "heap_ok (heap_push it h)"
proof -
  have "hkey (h @ [it]) (parent k) \<le> hkey (h @ [it]) k" if "k < length (h @ [it])" "0 < k" "k \<noteq> length h" for k
    using assms that parent_less [of k] by (simp add: heap_ok_def nth_append)
  moreover have "\<not> (k < length (h @ [it]) \<and> 0 < k \<and> parent k = length h)" for k
    using parent_less [of k] by auto
  ultimately show ?thesis
    unfolding heap_push_def Let_def by (intro sift_up_ok) auto
qed

abbreviation child_of :: "min_heap \<Rightarrow> nat \<Rightarrow> nat \<Rightarrow> nat" where
  "child_of a n i \<equiv> small_child a n (2 * i + 1)"

lemma sift_down_stop:
  "2 * i + 1 \<ge> n \<or> \<not> (hkey a (child_of a n i) < hkey a i) \<Longrightarrow> sift_down a n i = a"
  by (subst sift_down.simps) (auto simp: Let_def)

lemma sift_down_step:
  "2 * i + 1 < n \<Longrightarrow> hkey a (child_of a n i) < hkey a i \<Longrightarrow>
     sift_down a n i = sift_down (swap a i (child_of a n i)) n (child_of a n i)"
  by (subst sift_down.simps) (simp add: Let_def)

lemma child_of_bounds:
  "2 * i + 1 < n \<Longrightarrow> i < child_of a n i \<and> child_of a n i < n \<and> parent (child_of a n i) = i"
  by (auto simp: small_child_def Let_def parent_def)

lemma child_of_least:
  "k < n \<Longrightarrow> 0 < k \<Longrightarrow> parent k = i \<Longrightarrow> 2 * i + 1 < n \<and> hkey a (child_of a n i) \<le> hkey a k"
  using parent_child [of k i] by (auto simp: small_child_def Let_def not_less)

text \<open>Induction over the sift, with the swap's target named.\<close>

lemma sift_down_induct [case_names stop step]:
  assumes stop: "\<And>a n i. 2 * i + 1 \<ge> n \<or> \<not> (hkey a (child_of a n i) < hkey a i) \<Longrightarrow> P a n i"
    and step: "\<And>a n i. 2 * i + 1 < n \<Longrightarrow> hkey a (child_of a n i) < hkey a i \<Longrightarrow>
                 P (swap a i (child_of a n i)) n (child_of a n i) \<Longrightarrow> P a n i"
  shows "P a n i"
proof (induction a n i rule: sift_down.induct)
  case (1 a n i)
  then show ?case
    using stop step by (cases "2 * i + 1 \<ge> n \<or> \<not> (hkey a (child_of a n i) < hkey a i)") auto
qed

lemma length_sift_down [simp]: "length (sift_down a n i) = length a"
  by (induction a n i rule: sift_down_induct) (simp_all add: sift_down_stop sift_down_step)

lemma sift_down_items: "n \<le> length a \<Longrightarrow> i < length a \<Longrightarrow> mset (sift_down a n i) = mset a"
proof (induction a n i rule: sift_down_induct)
  case (stop a n i)
  then show ?case by (simp add: sift_down_stop)
next
  case (step a n i)
  have "child_of a n i < length a" using child_of_bounds [OF step.hyps(1)] step.prems(1) by (meson less_le_trans)
  then show ?case using step by (simp add: sift_down_step mset_swap')
qed

lemma sift_down_frame: "i < n \<Longrightarrow> n \<le> k \<Longrightarrow> sift_down a n i ! k = a ! k"
proof (induction a n i rule: sift_down_induct)
  case (stop a n i)
  then show ?case by (simp add: sift_down_stop)
next
  case (step a n i)
  have c: "child_of a n i < n" using child_of_bounds [OF step.hyps(1)] by blast
  then have "swap a i (child_of a n i) ! k = a ! k" using step.prems by (simp add: swap_def)
  then show ?case using step c by (simp add: sift_down_step)
qed

definition heap_upto :: "min_heap \<Rightarrow> nat \<Rightarrow> bool" where
  "heap_upto a n \<longleftrightarrow> (\<forall>k < n. 0 < k \<longrightarrow> hkey a (parent k) \<le> hkey a k)"

text \<open>Sifting down restores the order when only the edges below \<open>i\<close> may break it.\<close>

lemma sift_down_ok:
  "n \<le> length a \<Longrightarrow>
   (\<And>k. k < n \<Longrightarrow> 0 < k \<Longrightarrow> parent k \<noteq> i \<Longrightarrow> hkey a (parent k) \<le> hkey a k) \<Longrightarrow>
   (\<And>k. k < n \<Longrightarrow> 0 < k \<Longrightarrow> parent k = i \<Longrightarrow> 0 < i \<Longrightarrow> hkey a (parent i) \<le> hkey a k) \<Longrightarrow>
   heap_upto (sift_down a n i) n"
proof (induction a n i rule: sift_down_induct)
  case (stop a n i)
  have "hkey a (parent k) \<le> hkey a k" if k: "k < n" "0 < k" for k
  proof (cases "parent k = i")
    case True
    have c: "2 * i + 1 < n" and least: "hkey a (child_of a n i) \<le> hkey a k"
      using child_of_least [OF k True] by auto
    then show ?thesis using stop.hyps True by auto
  next
    case False
    then show ?thesis using stop.prems(2) [OF k] by simp
  qed
  then show ?case using stop.hyps by (simp add: sift_down_stop heap_upto_def)
next
  case (step a n i)
  define j where "j = child_of a n i"
  let ?b = "swap a i j"
  have ij: "i < j" and j: "j < n" and pj: "parent j = i"
    using child_of_bounds [OF step.hyps(1)] by (auto simp: j_def)
  have jl: "j < length a" and il: "i < length a" and j0: "0 < j" using j ij step.prems(1) by auto
  have lt: "hkey a j < hkey a i" using step.hyps(2) by (simp add: j_def)
  have b: "k < length a \<Longrightarrow> hkey ?b k = (if k = j then hkey a i else if k = i then hkey a j else hkey a k)" for k
    using swap_nth [OF il jl] by simp
  have ord: "hkey ?b (parent k) \<le> hkey ?b k" if k: "k < n" "0 < k" "parent k \<noteq> j" for k
  proof -
    have kl: "k < length a" and pl: "parent k < length a"
      using k parent_less [of k] step.prems(1) by auto
    consider "parent k = i" | "parent k \<noteq> i" "k = i" | "parent k \<noteq> i" "k \<noteq> i" by blast
    then show ?thesis
    proof cases
      case 1
      then have "hkey a j \<le> hkey a k" "k \<noteq> i"
        using child_of_least [OF k(1,2)] parent_less [OF k(2)] by (auto simp: j_def)
      then show ?thesis using 1 b [OF pl] b [OF kl] ij lt by auto
    next
      case 2
      then show ?thesis using b [OF pl] b [OF kl] step.prems(3) [OF j j0 pj] k ij by auto
    next
      case 3
      then show ?thesis using b [OF pl] b [OF kl] step.prems(2) [OF k(1,2)] k(3) pj by auto
    qed
  qed
  have dn: "hkey ?b (parent j) \<le> hkey ?b k" if k: "k < n" "0 < k" "parent k = j" for k
  proof -
    have "k \<noteq> j" "k \<noteq> i" "k < length a" using k parent_less [of k] ij step.prems(1) by auto
    then show ?thesis
      unfolding pj using b [OF il] b [of k] step.prems(2) [OF k(1,2)] k(3) ij by simp
  qed
  have "heap_upto (sift_down ?b n j) n"
    using step.IH step.prems(1) ord dn by (simp add: j_def)
  then show ?case using step.hyps by (simp add: sift_down_step j_def)
qed

lemma heap_root_least: "heap_ok a \<Longrightarrow> k < length a \<Longrightarrow> hkey a 0 \<le> hkey a k"
proof (induction k rule: less_induct)
  case (less k)
  show ?case
  proof (cases "k = 0")
    case True
    then show ?thesis by simp
  next
    case False
    then have "parent k < k" by (simp add: parent_less)
    then show ?thesis
      using less.IH [of "parent k"] less.prems False by (fastforce simp: heap_ok_def)
  qed
qed

lemma heap_pop_split:
  assumes "h \<noteq> []" and "heap_pop h = (x, h')"
  shows "x = h ! 0 \<and> h' @ [x] = sift_down (swap h 0 (length h - 1)) (length h - 1) 0"
proof -
  let ?n = "length h - 1" and ?a = "sift_down (swap h 0 (length h - 1)) (length h - 1) 0"
  have len: "?n < length h" using assms(1) by simp
  have "?a ! ?n = swap h 0 ?n ! ?n"
  proof (cases "?n = 0")
    case True
    then show ?thesis by (subst sift_down.simps) simp
  next
    case False
    then show ?thesis using sift_down_frame [of 0 ?n ?n] by simp
  qed
  also have "\<dots> = h ! 0" using len swap_nth [of 0 h ?n ?n] assms(1) by simp
  finally have x: "x = h ! 0" and h': "h' = take ?n ?a" and t: "?a ! ?n = h ! 0"
    using assms(2) by (auto simp: heap_pop_def Let_def)
  have "take (Suc ?n) ?a = take ?n ?a @ [?a ! ?n]" using len by (intro take_Suc_conv_app_nth) simp
  then show ?thesis using x h' t len by simp
qed

lemma heap_pop_items: "h \<noteq> [] \<Longrightarrow> heap_pop h = (x, h') \<Longrightarrow> mset h = add_mset x (mset h')"
proof -
  assume ne: "h \<noteq> []" and p: "heap_pop h = (x, h')"
  have "mset (sift_down (swap h 0 (length h - 1)) (length h - 1) 0) = mset h"
    using ne by (simp add: sift_down_items mset_swap')
  then have "mset (h' @ [x]) = mset h" using heap_pop_split [OF ne p] by metis
  then show "mset h = add_mset x (mset h')" by simp
qed

lemma heap_pop_ok:
  assumes "heap_ok h" and ne: "h \<noteq> []" and p: "heap_pop h = (x, h')"
  shows "heap_ok h'"
proof -
  let ?n = "length h - 1"
  have n: "?n < length h" using ne by simp
  have sw: "k < ?n \<Longrightarrow> 0 < k \<Longrightarrow> swap h 0 ?n ! k = h ! k" for k
    using swap_nth [of 0 h ?n k] n ne by auto
  have "heap_upto (sift_down (swap h 0 ?n) ?n 0) ?n"
  proof (rule sift_down_ok)
    show "hkey (swap h 0 ?n) (parent k) \<le> hkey (swap h 0 ?n) k"
      if "k < ?n" "0 < k" "parent k \<noteq> 0" for k
      using sw [of k] sw [of "parent k"] that parent_less [of k] assms(1) n by (simp add: heap_ok_def)
  qed auto
  moreover have "sift_down (swap h 0 ?n) ?n 0 = h' @ [x]"
    by (rule conjunct2 [OF heap_pop_split [OF ne p], symmetric])
  moreover have "length h' = ?n"
    using heap_pop_split [OF ne p] by (metis length_append_singleton diff_Suc_1 length_sift_down length_swap)
  ultimately have up: "heap_upto (h' @ [x]) (length h')" by simp
  show ?thesis unfolding heap_ok_def
  proof clarify
    fix k :: nat
    assume k: "k < length h'" "0 < k"
    then have "hkey (h' @ [x]) (parent k) \<le> hkey (h' @ [x]) k" "parent k < length h'"
      using up parent_less [of k] by (auto simp: heap_upto_def)
    then show "hkey h' (parent k) \<le> hkey h' k" using k(1) by (simp add: nth_append)
  qed
qed

interpretation heap_q: min_queue heap_push heap_pop snd mset heap_ok
proof unfold_locales
  show "mset (heap_push x q) = add_mset x (mset q)" for x q by (rule heap_push_items)
  show "heap_ok q \<Longrightarrow> heap_ok (heap_push x q)" for x q by (rule heap_push_ok)
  show "mset q \<noteq> {#} \<Longrightarrow> heap_pop q = (x, q') \<Longrightarrow> mset q = add_mset x (mset q')" for x q q'
    using heap_pop_items by auto
  show "heap_ok q \<Longrightarrow> mset q \<noteq> {#} \<Longrightarrow> heap_pop q = (x, q') \<Longrightarrow> heap_ok q'" for x q q'
    using heap_pop_ok by auto
  show "snd x \<le> snd y"
    if ok: "heap_ok q" and ne: "mset q \<noteq> {#}" and p: "heap_pop q = (x, q')" and y: "y \<in># mset q" for x y q q'
  proof -
    obtain k where "k < length q" "q ! k = y" using y by (metis in_set_conv_nth set_mset_mset)
    then show ?thesis using heap_root_least [OF ok] heap_pop_split [OF _ p] ne by fastforce
  qed
qed

end
