(* ===== verification/Dijkstra.thy ===== *)
theory Dijkstra
  imports Min_Heap "HOL-Library.While_Combinator"
begin

text \<open>
  The shortest-path search the two pathfinders share: the loop of \<open>dijkstra\<close> in
  \<open>backend/internal/analyzer/attackpath.go\<close> and of \<open>wgraph.shortest\<close> in \<open>kshortest.go\<close>,
  which differ only in where the out-edges come from and in what they keep in \<open>prev\<close>. The
  loop is \<open>dj_run\<close>, a \<open>while_option\<close>, so that it ends is a theorem; \<open>sp_graph\<close> is what it
  asks of a graph, and the search is proved inside it: it ends, finds exactly the reachable
  nodes, each at its least cost, and \<open>prev\<close> leads back along a simple walk of that cost.
\<close>

section \<open>The search\<close>

text \<open>
  \<open>dist\<close>, \<open>prev\<close> and the queue - the \<open>scratch\<close> of one run. \<open>'s\<close> is what \<open>prev\<close> keeps.
\<close>

record 's search =
  sr_dist :: "(string, real) gomap"
  sr_prev :: "(string, 's) gomap"
  sr_pq :: min_heap

definition new_search :: "'s search" where
  "new_search = \<lparr>sr_dist = [], sr_prev = [], sr_pq = []\<rparr>"

definition sr_reset :: "'s search \<Rightarrow> 's search" where
  "sr_reset st = st\<lparr>sr_dist := [], sr_prev := [], sr_pq := []\<rparr>"

text \<open>Reading a Go map gives the zero value when the key is missing.\<close>

definition dist_at :: "'s search \<Rightarrow> string \<Rightarrow> real" where
  "dist_at st v = (case map_of (sr_dist st) v of Some d \<Rightarrow> d | None \<Rightarrow> 0)"

definition dj_relax ::
  "('e \<Rightarrow> string) \<Rightarrow> ('e \<Rightarrow> real) \<Rightarrow> (string \<Rightarrow> 'e \<Rightarrow> 's) \<Rightarrow> heap_item \<Rightarrow> 'e \<Rightarrow> 's search \<Rightarrow> 's search" where
  "dj_relax tgt wt mk cur e st =
     (let nd = snd cur + wt e
      in if (case map_of (sr_dist st) (tgt e) of None \<Rightarrow> True | Some old \<Rightarrow> nd < old)
         then st\<lparr>sr_dist := AList.update (tgt e) nd (sr_dist st),
                 sr_prev := AList.update (tgt e) (mk (fst cur) e) (sr_prev st),
                 sr_pq := heap_push (tgt e, nd) (sr_pq st)\<rparr>
         else st)"

definition dj_body ::
  "(string \<Rightarrow> 'e list) \<Rightarrow> ('e \<Rightarrow> string) \<Rightarrow> ('e \<Rightarrow> real) \<Rightarrow> (string \<Rightarrow> 'e \<Rightarrow> 's) \<Rightarrow> 's search \<Rightarrow> 's search" where
  "dj_body nbrs tgt wt mk st =
     (let (cur, pq) = heap_pop (sr_pq st); st = st\<lparr>sr_pq := pq\<rparr>
      in if snd cur > dist_at st (fst cur) then st
         else fold (dj_relax tgt wt mk cur) (nbrs (fst cur)) st)"

definition dj_run ::
  "(string \<Rightarrow> 'e list) \<Rightarrow> ('e \<Rightarrow> string) \<Rightarrow> ('e \<Rightarrow> real) \<Rightarrow> (string \<Rightarrow> 'e \<Rightarrow> 's) \<Rightarrow> 's search \<Rightarrow> 's search option" where
  "dj_run nbrs tgt wt mk = while_option (\<lambda>st. sr_pq st \<noteq> []) (dj_body nbrs tgt wt mk)"

definition dj_init :: "string \<Rightarrow> 's search \<Rightarrow> 's search" where
  "dj_init src sc = (let st = sr_reset sc in
     st\<lparr>sr_dist := AList.update src 0 (sr_dist st), sr_pq := heap_push (src, 0) (sr_pq st)\<rparr>)"

text \<open>
  Following \<open>prev\<close> from a node back to the source, the loop of \<open>reconstruct\<close> and of the end of
  \<open>shortest\<close>. The outer option is whether the loop ends, the inner one the code's \<open>ok\<close>.
\<close>

partial_function (option) trace_back ::
  "('s \<Rightarrow> string) \<Rightarrow> (string \<Rightarrow> 's option) \<Rightarrow> string \<Rightarrow> string \<Rightarrow> 's list \<Rightarrow> 's list option option" where
  "trace_back frm get src v acc =
     (if v = src then Some (Some acc)
      else (case get v of
              None \<Rightarrow> Some None
            | Some st \<Rightarrow> trace_back frm get src (frm st) (st # acc)))"

declare trace_back.simps [code]

section \<open>Walks\<close>

text \<open>A walk is the list of its edges; \<open>prev\<close> entries and nodes are read off it.\<close>

fun walk :: "(string \<Rightarrow> 'e list) \<Rightarrow> ('e \<Rightarrow> string) \<Rightarrow> string \<Rightarrow> 'e list \<Rightarrow> string \<Rightarrow> bool" where
  "walk nbrs tgt u [] v \<longleftrightarrow> u = v"
| "walk nbrs tgt u (e # es) v \<longleftrightarrow> e \<in> set (nbrs u) \<and> walk nbrs tgt (tgt e) es v"

fun walk_steps :: "('e \<Rightarrow> string) \<Rightarrow> (string \<Rightarrow> 'e \<Rightarrow> 's) \<Rightarrow> string \<Rightarrow> 'e list \<Rightarrow> 's list" where
  "walk_steps tgt mk u [] = []"
| "walk_steps tgt mk u (e # es) = mk u e # walk_steps tgt mk (tgt e) es"

definition walk_nodes :: "('e \<Rightarrow> string) \<Rightarrow> string \<Rightarrow> 'e list \<Rightarrow> string list" where
  "walk_nodes tgt u es = u # map tgt es"

lemma walk_append:
  "walk nbrs tgt u (es @ fs) v \<longleftrightarrow> (\<exists>w. walk nbrs tgt u es w \<and> walk nbrs tgt w fs v)"
  by (induction es arbitrary: u) auto

lemma walk_snoc:
  "walk nbrs tgt u (es @ [e]) v \<longleftrightarrow> (\<exists>w. walk nbrs tgt u es w \<and> e \<in> set (nbrs w) \<and> tgt e = v)"
  by (auto simp: walk_append)

lemma walk_end: "walk nbrs tgt u es v \<Longrightarrow> last (walk_nodes tgt u es) = v"
  by (induction es arbitrary: u) (auto simp: walk_nodes_def)

lemma walk_steps_snoc:
  "walk nbrs tgt u es w \<Longrightarrow> walk_steps tgt mk u (es @ [e]) = walk_steps tgt mk u es @ [mk w e]"
  by (induction es arbitrary: u) auto

lemma length_walk_steps [simp]: "length (walk_steps tgt mk u es) = length es"
  by (induction es arbitrary: u) auto

section \<open>The contract of a graph, and the search over it\<close>

locale sp_graph =
  fixes nbrs :: "string \<Rightarrow> 'e list"
    and tgt :: "'e \<Rightarrow> string"
    and wt :: "'e \<Rightarrow> real"
    and mk :: "string \<Rightarrow> 'e \<Rightarrow> 's"
    and frm :: "'s \<Rightarrow> string"
    and verts :: "string set"
    and src :: string
  assumes finite_verts: "finite verts"
    and src_vert: "src \<in> verts"
    and tgt_vert: "e \<in> set (nbrs u) \<Longrightarrow> tgt e \<in> verts"
    and wt_nonneg: "e \<in> set (nbrs u) \<Longrightarrow> 0 \<le> wt e"
    and frm_mk: "frm (mk u e) = u"
begin

abbreviation dst :: "'s search \<Rightarrow> string \<Rightarrow> real option" where
  "dst st \<equiv> map_of (sr_dist st)"

definition came :: "'s search \<Rightarrow> string \<Rightarrow> string set \<Rightarrow> bool" where
  "came st v X \<longleftrightarrow> (\<exists>u e d. map_of (sr_prev st) v = Some (mk u e) \<and> e \<in> set (nbrs u) \<and> tgt e = v \<and>
      u \<in> X \<and> dst st u = Some d \<and> dst st v = Some (d + wt e))"

text \<open>
  \<open>S\<close> lists the settled nodes, the latest first, and \<open>R\<close> the edges relaxed so far.
\<close>

definition inv :: "string list \<Rightarrow> (string \<times> 'e) set \<Rightarrow> 's search \<Rightarrow> bool" where
  "inv S R st \<longleftrightarrow>
     heap_ok (sr_pq st) \<and> dst st src = Some 0 \<and> distinct S \<and> set S \<subseteq> verts \<and>
     (\<forall>v d. dst st v = Some d \<longrightarrow> v \<in> verts \<and> 0 \<le> d \<and> (v \<noteq> src \<longrightarrow> came st v (set S))) \<and>
     (\<forall>(v, d) \<in> set (sr_pq st). \<exists>d'. dst st v = Some d' \<and> d' \<le> d) \<and>
     (\<forall>v d. dst st v = Some d \<longrightarrow> v \<notin> set S \<longrightarrow> (v, d) \<in> set (sr_pq st)) \<and>
     (\<forall>(u, e) \<in> R. u \<in> set S \<and> (\<exists>d d'. dst st u = Some d \<and> dst st (tgt e) = Some d' \<and> d' \<le> d + wt e)) \<and>
     (\<forall>u \<in> set S. \<exists>d. dst st u = Some d \<and> (\<forall>(v, d') \<in> set (sr_pq st). d \<le> d')) \<and>
     (\<forall>xs v ys. S = xs @ v # ys \<longrightarrow> v \<noteq> src \<longrightarrow> came st v (set ys))"

lemma inv_entry: "inv S R st \<Longrightarrow> (v, d) \<in> set (sr_pq st) \<Longrightarrow> \<exists>d'. dst st v = Some d' \<and> d' \<le> d"
  unfolding inv_def by blast

lemma inv_settled: "inv S R st \<Longrightarrow> u \<in> set S \<Longrightarrow> \<exists>d. dst st u = Some d"
  unfolding inv_def by blast

lemma inv_below: "inv S R st \<Longrightarrow> u \<in> set S \<Longrightarrow> dst st u = Some x \<Longrightarrow> (w, y) \<in> set (sr_pq st) \<Longrightarrow> x \<le> y"
  unfolding inv_def by force

lemma inv_relaxed:
  "inv S R st \<Longrightarrow> (u, e) \<in> R \<Longrightarrow> \<exists>d d'. dst st u = Some d \<and> dst st (tgt e) = Some d' \<and> d' \<le> d + wt e"
  unfolding inv_def by blast

lemma inv_chain: "inv S R st \<Longrightarrow> S = xs @ v # ys \<Longrightarrow> v \<noteq> src \<Longrightarrow> came st v (set ys)"
  unfolding inv_def by blast

lemma inv_lo:
  assumes "inv S R st" and "set q \<subseteq> set (sr_pq st)"
  shows "\<forall>w \<in> set S. \<exists>x. dst st w = Some x \<and> (\<forall>(w', x') \<in> set q. x \<le> x')"
proof
  fix w
  assume w: "w \<in> set S"
  then obtain x where x: "dst st w = Some x" using inv_settled [OF assms(1)] by blast
  have "x \<le> y" if "(w', y) \<in> set q" for w' y
    by (rule inv_below [OF assms(1) w x]) (use that assms(2) in blast)
  then show "\<exists>x. dst st w = Some x \<and> (\<forall>(w', x') \<in> set q. x \<le> x')" using x by blast
qed

lemma inv_entries:
  assumes "inv S R st" and "set q \<subseteq> set (sr_pq st)"
  shows "\<forall>(w, x) \<in> set q. \<exists>d'. dst st w = Some d' \<and> d' \<le> x"
  using inv_entry [OF assms(1)] assms(2) by blast

lemma came_frame:
  assumes "came st w X" "w \<noteq> t" "t \<notin> X" "\<And>u. u \<noteq> t \<Longrightarrow> dst st' u = dst st u"
    and "\<And>u. u \<noteq> t \<Longrightarrow> map_of (sr_prev st') u = map_of (sr_prev st) u"
  shows "came st' w X"
proof -
  obtain u e d where e: "map_of (sr_prev st) w = Some (mk u e)" "e \<in> set (nbrs u)" "tgt e = w"
      "u \<in> X" "dst st u = Some d" "dst st w = Some (d + wt e)"
    using assms(1) by (auto simp: came_def)
  then have "u \<noteq> t" using assms(3) by blast
  then show ?thesis unfolding came_def using e assms(2,4,5) by (intro exI [of _ u] exI [of _ e] exI [of _ d]) simp
qed

lemma set_heap_push: "set (heap_push x q) = insert x (set q)"
  by (metis heap_push_items set_mset_add_mset_insert set_mset_mset)

lemma relax_inv:
  assumes I: "inv S R st" and v: "v \<in> set S" "dst st v = Some d" and e: "e \<in> set (nbrs v)"
    and top: "\<forall>u \<in> set S. \<forall>du. dst st u = Some du \<longrightarrow> du \<le> d"
  shows "inv S (insert (v, e) R) (dj_relax tgt wt mk (v, d) e st) \<and>
         (\<forall>u \<in> set S. dst (dj_relax tgt wt mk (v, d) e st) u = dst st u)"
proof (cases "case dst st (tgt e) of None \<Rightarrow> True | Some old \<Rightarrow> d + wt e < old")
  case False
  then obtain old where "dst st (tgt e) = Some old" "old \<le> d + wt e" by (auto split: option.splits)
  moreover have "dj_relax tgt wt mk (v, d) e st = st" using False by (simp add: dj_relax_def)
  ultimately show ?thesis using I v unfolding inv_def by auto
next
  case True
  define t where "t = tgt e"
  define nd where "nd = d + wt e"
  let ?st = "dj_relax tgt wt mk (v, d) e st"
  have st: "?st = st\<lparr>sr_dist := AList.update t nd (sr_dist st), sr_prev := AList.update t (mk v e) (sr_prev st),
      sr_pq := heap_push (t, nd) (sr_pq st)\<rparr>"
    using True by (simp add: dj_relax_def Let_def t_def nd_def)
  have d0: "0 \<le> d" using I v(2) by (auto simp: inv_def)
  have nd: "d \<le> nd" using wt_nonneg [OF e] by (simp add: nd_def)
  have better: "dst st t = Some old \<Longrightarrow> nd < old" for old using True by (simp add: t_def nd_def)
  have tS: "t \<notin> set S"
  proof
    assume t: "t \<in> set S"
    then obtain dt where "dst st t = Some dt" using I by (auto simp: inv_def)
    then show False using better top t nd by fastforce
  qed
  have tsrc: "t \<noteq> src"
  proof
    assume "t = src"
    then have "dst st t = Some 0" using I by (simp add: inv_def)
    then show False using better nd d0 by fastforce
  qed
  have D: "dst ?st u = (if u = t then Some nd else dst st u)" for u
    by (simp add: st map_of_update)
  have P: "map_of (sr_prev ?st) u = (if u = t then Some (mk v e) else map_of (sr_prev st) u)" for u
    by (simp add: st map_of_update)
  have Q: "set (sr_pq ?st) = insert (t, nd) (set (sr_pq st))" by (simp add: st set_heap_push)
  have vt: "v \<noteq> t" using v(1) tS by blast
  have frame: "came st w X \<Longrightarrow> w \<noteq> t \<Longrightarrow> t \<notin> X \<Longrightarrow> came ?st w X" for w X
    by (rule came_frame [where t = t and st = st]) (simp_all add: D P)
  have ct: "came ?st t (set S)" unfolding came_def
    using e v vt by (intro exI [of _ v] exI [of _ e] exI [of _ d]) (simp add: D P t_def nd_def)
  have "heap_ok (sr_pq ?st)" using I by (simp add: st inv_def heap_push_ok)
  moreover have "dst ?st src = Some 0" using I tsrc by (simp add: D inv_def)
  moreover have "distinct S" "set S \<subseteq> verts" using I by (simp_all add: inv_def)
  moreover have "w \<in> verts \<and> 0 \<le> x \<and> (w \<noteq> src \<longrightarrow> came ?st w (set S))" if w: "dst ?st w = Some x" for w x
  proof (cases "w = t")
    case True
    then show ?thesis using w D ct tgt_vert [OF e] nd d0 by (simp add: t_def)
  next
    case False
    then have "dst st w = Some x" using w D by simp
    then show ?thesis using I frame [OF _ False tS] by (simp add: inv_def)
  qed
  moreover have "\<forall>(w, x) \<in> set (sr_pq ?st). \<exists>d'. dst ?st w = Some d' \<and> d' \<le> x"
  proof clarify
    fix w x
    assume wx: "(w, x) \<in> set (sr_pq ?st)"
    show "\<exists>d'. dst ?st w = Some d' \<and> d' \<le> x"
    proof (cases "(w, x) = (t, nd)")
      case True
      then show ?thesis using D by simp
    next
      case False
      then have "(w, x) \<in> set (sr_pq st)" using wx Q by auto
      then obtain d' where "dst st w = Some d'" "d' \<le> x" using I by (fastforce simp: inv_def)
      then show ?thesis using D [of w] better by (cases "w = t") fastforce+
    qed
  qed
  moreover have "(w, x) \<in> set (sr_pq ?st)" if "dst ?st w = Some x" "w \<notin> set S" for w x
    using that I D [of w] Q by (auto simp: inv_def split: if_splits)
  moreover have "\<forall>(u, f) \<in> insert (v, e) R. u \<in> set S \<and>
      (\<exists>x x'. dst ?st u = Some x \<and> dst ?st (tgt f) = Some x' \<and> x' \<le> x + wt f)"
  proof clarify
    fix u f
    assume uf: "(u, f) \<in> insert (v, e) R"
    show "u \<in> set S \<and> (\<exists>x x'. dst ?st u = Some x \<and> dst ?st (tgt f) = Some x' \<and> x' \<le> x + wt f)"
    proof (cases "(u, f) = (v, e)")
      case True
      then show ?thesis using v D vt by (simp add: t_def nd_def)
    next
      case False
      then have "(u, f) \<in> R" using uf by auto
      then obtain x x' where x: "u \<in> set S" "dst st u = Some x" "dst st (tgt f) = Some x'" "x' \<le> x + wt f"
        using I by (fastforce simp: inv_def)
      then have "u \<noteq> t" using tS by blast
      then show ?thesis using x D [of u] D [of "tgt f"] better [of x'] by (cases "tgt f = t") auto
    qed
  qed
  moreover have "\<forall>u \<in> set S. \<exists>x. dst ?st u = Some x \<and> (\<forall>(w, x') \<in> set (sr_pq ?st). x \<le> x')"
  proof
    fix u
    assume u: "u \<in> set S"
    then obtain x where x: "dst st u = Some x" "\<forall>(w, x') \<in> set (sr_pq st). x \<le> x'" using I by (auto simp: inv_def)
    then have "x \<le> nd" using top u nd by fastforce
    moreover have "u \<noteq> t" using u tS by blast
    ultimately show "\<exists>x. dst ?st u = Some x \<and> (\<forall>(w, x') \<in> set (sr_pq ?st). x \<le> x')"
      using x D [of u] Q by auto
  qed
  moreover have "came ?st w (set ys)" if S: "S = xs @ w # ys" and w: "w \<noteq> src" for xs w ys
  proof -
    have "came st w (set ys)" using I S w unfolding inv_def by blast
    moreover have "w \<noteq> t" "t \<notin> set ys" using tS S by auto
    ultimately show ?thesis by (rule frame)
  qed
  ultimately have "inv S (insert (v, e) R) ?st" unfolding inv_def by blast
  moreover have "\<forall>u \<in> set S. dst ?st u = dst st u" using D tS by auto
  ultimately show ?thesis by blast
qed

lemma relax_all_inv:
  "inv S R st \<Longrightarrow> v \<in> set S \<Longrightarrow> dst st v = Some d \<Longrightarrow> set es \<subseteq> set (nbrs v) \<Longrightarrow>
   (\<forall>u \<in> set S. \<forall>du. dst st u = Some du \<longrightarrow> du \<le> d) \<Longrightarrow>
   inv S (R \<union> {v} \<times> set es) (fold (dj_relax tgt wt mk (v, d)) es st)"
proof (induction es arbitrary: R st)
  case Nil
  then show ?case by simp
next
  case (Cons e es)
  let ?st = "dj_relax tgt wt mk (v, d) e st"
  have I: "inv S (insert (v, e) R) ?st" and same: "\<forall>u \<in> set S. dst ?st u = dst st u"
    using relax_inv [OF Cons.prems(1-3) _ Cons.prems(5), of e] Cons.prems(4) by auto
  have "inv S (insert (v, e) R \<union> {v} \<times> set es) (fold (dj_relax tgt wt mk (v, d)) es ?st)"
    using Cons.IH [OF I Cons.prems(2)] same Cons.prems by simp
  moreover have "insert (v, e) R \<union> {v} \<times> set es = R \<union> {v} \<times> set (e # es)" by auto
  ultimately show ?case by simp
qed

definition rel :: "string list \<Rightarrow> (string \<times> 'e) set" where
  "rel S = {(u, e). u \<in> set S \<and> e \<in> set (nbrs u)}"

lemma pop_keep:
  assumes I: "inv S R st" and p: "sr_pq st \<noteq> []" "heap_pop (sr_pq st) = ((v, d), q)"
    and keep: "dst st v = Some d \<Longrightarrow> v \<in> set S"
  shows "inv S R (st\<lparr>sr_pq := q\<rparr>)"
proof -
  have m: "mset (sr_pq st) = add_mset (v, d) (mset q)" by (rule heap_pop_items [OF p])
  then have q: "set (sr_pq st) = insert (v, d) (set q)" by (metis set_mset_add_mset_insert set_mset_mset)
  have h: "heap_ok q" using heap_pop_ok [OF _ p] I by (simp add: inv_def)
  have c: "came (st\<lparr>sr_pq := q\<rparr>) w X = came st w X" for w X by (simp add: came_def)
  have u: "(w, x) \<in> set q" if "dst st w = Some x" "w \<notin> set S" for w x
  proof -
    have "(w, x) \<in> set (sr_pq st)" using I that by (simp add: inv_def)
    moreover have "(w, x) \<noteq> (v, d)" using that keep by auto
    ultimately show ?thesis using q by blast
  qed
  have sub: "set q \<subseteq> set (sr_pq st)" using q by blast
  note pq = inv_entries [OF I sub] and lo = inv_lo [OF I sub]
  show ?thesis using I h u pq lo unfolding inv_def c by simp
qed

lemma settle_inv:
  assumes I: "inv S R st" and p: "sr_pq st \<noteq> []" "heap_pop (sr_pq st) = ((v, d), q)"
    and v: "dst st v = Some d" "v \<notin> set S"
  shows "inv (v # S) R (st\<lparr>sr_pq := q\<rparr>)"
proof -
  have m: "mset (sr_pq st) = add_mset (v, d) (mset q)" by (rule heap_pop_items [OF p])
  then have q: "set (sr_pq st) = insert (v, d) (set q)" by (metis set_mset_add_mset_insert set_mset_mset)
  have h: "heap_ok q" using heap_pop_ok [OF _ p] I by (simp add: inv_def)
  have mono: "came st w (set S) \<Longrightarrow> came (st\<lparr>sr_pq := q\<rparr>) w (set (v # S))" for w by (auto simp: came_def)
  have c: "came (st\<lparr>sr_pq := q\<rparr>) w X = came st w X" for w X by (simp add: came_def)
  have u: "(w, x) \<in> set q" if "dst st w = Some x" "w \<notin> set (v # S)" for w x
    using I that q by (fastforce simp: inv_def)
  have least: "\<forall>(w, x) \<in> set q. d \<le> x"
    using heap_q.pop_least [OF _ _ p(2)] I m by (fastforce simp: inv_def)
  have sub: "set q \<subseteq> set (sr_pq st)" using q by blast
  note pq = inv_entries [OF I sub] and lo = inv_lo [OF I sub]
  have dist: "distinct (v # S)" "set (v # S) \<subseteq> verts" using I v by (auto simp: inv_def)
  have ds: "\<forall>w x. dst st w = Some x \<longrightarrow> w \<in> verts \<and> 0 \<le> x \<and> (w \<noteq> src \<longrightarrow> came (st\<lparr>sr_pq := q\<rparr>) w (set (v # S)))"
    using I mono unfolding inv_def by blast
  have R: "\<forall>(u, e) \<in> R. u \<in> set (v # S) \<and> (\<exists>d d'. dst st u = Some d \<and> dst st (tgt e) = Some d' \<and> d' \<le> d + wt e)"
    using I by (fastforce simp: inv_def)
  have ch: "came (st\<lparr>sr_pq := q\<rparr>) w (set ys)" if S: "v # S = xs @ w # ys" and w: "w \<noteq> src" for xs w ys
  proof (cases xs)
    case Nil
    then have "w = v" "ys = S" using S by simp_all
    moreover have "came st v (set S)" using I v(1) w \<open>w = v\<close> unfolding inv_def by blast
    ultimately show ?thesis using c by simp
  next
    case (Cons x xs')
    then have "S = xs' @ w # ys" using S by simp
    then show ?thesis using inv_chain [OF I _ w] c by simp
  qed
  have "dst st src = Some 0" using I by (simp add: inv_def)
  then show ?thesis
    using h dist ds pq u R lo least ch v(1) unfolding inv_def by simp
qed

lemma body_inv:
  assumes I: "inv S (rel S) st" and ne: "sr_pq st \<noteq> []"
  defines "st' \<equiv> dj_body nbrs tgt wt mk st"
  shows "(inv S (rel S) st' \<and> length (sr_pq st') < length (sr_pq st)) \<or>
         (\<exists>v. v \<in> verts \<and> v \<notin> set S \<and> inv (v # S) (rel (v # S)) st')"
proof -
  obtain v d q where p: "heap_pop (sr_pq st) = ((v, d), q)" by (metis surj_pair)
  have m: "mset (sr_pq st) = add_mset (v, d) (mset q)" by (rule heap_pop_items [OF ne p])
  then have len: "length q < length (sr_pq st)" by (metis lessI size_add_mset size_mset)
  have vq: "(v, d) \<in> set (sr_pq st)" using m by (metis insertI1 set_mset_add_mset_insert set_mset_mset)
  then obtain d' where d': "dst st v = Some d'" "d' \<le> d" using I by (fastforce simp: inv_def)
  have at: "dist_at (st\<lparr>sr_pq := q\<rparr>) v = d'" using d' by (simp add: dist_at_def)
  let ?st = "st\<lparr>sr_pq := q\<rparr>"
  consider "d' < d" | "d' = d" "v \<in> set S" | "d' = d" "v \<notin> set S" using d' by fastforce
  then show ?thesis
  proof cases
    case 1
    then have st': "st' = ?st" using p at by (simp add: st'_def dj_body_def)
    have "inv S (rel S) ?st" by (rule pop_keep [OF I ne p]) (use d' 1 in auto)
    then show ?thesis using st' len by simp
  next
    case 2
    have J: "inv S (rel S) ?st" by (rule pop_keep [OF I ne p]) (use 2 in auto)
    have "dj_relax tgt wt mk (v, d) e ?st = ?st" if "e \<in> set (nbrs v)" for e
    proof -
      have "(v, e) \<in> rel S" using that 2 by (simp add: rel_def)
      then obtain x where "dst ?st (tgt e) = Some x" "x \<le> d + wt e"
        using J d' 2 by (fastforce simp: inv_def)
      then show ?thesis by (simp add: dj_relax_def)
    qed
    then have "fold (dj_relax tgt wt mk (v, d)) es ?st = ?st" if "set es \<subseteq> set (nbrs v)" for es
      using that by (induction es) auto
    then have "st' = ?st" using p at 2 by (simp add: st'_def dj_body_def)
    then show ?thesis using J len by simp
  next
    case 3
    have J: "inv (v # S) (rel S) ?st" by (rule settle_inv [OF I ne p]) (use 3 d' in auto)
    have top: "\<forall>u \<in> set (v # S). \<forall>du. dst ?st u = Some du \<longrightarrow> du \<le> d"
      using inv_below [OF I _ _ vq] d' 3 by auto
    have "inv (v # S) (rel S \<union> {v} \<times> set (nbrs v)) (fold (dj_relax tgt wt mk (v, d)) (nbrs v) ?st)"
      by (rule relax_all_inv [OF J _ _ _ top]) (use 3 d' in auto)
    moreover have "rel S \<union> {v} \<times> set (nbrs v) = rel (v # S)" by (auto simp: rel_def)
    moreover have "st' = fold (dj_relax tgt wt mk (v, d)) (nbrs v) ?st"
      using p at 3 by (simp add: st'_def dj_body_def)
    moreover have "v \<in> verts" using I d' by (simp add: inv_def)
    ultimately show ?thesis using 3 by auto
  qed
qed

lemma run_ends:
  "inv S (rel S) st \<Longrightarrow> \<exists>S' st'. dj_run nbrs tgt wt mk st = Some st' \<and> inv S' (rel S') st' \<and> sr_pq st' = []"
proof (induction "(card (verts - set S), length (sr_pq st))" arbitrary: S st
    rule: wf_induct_rule [OF wf_lex_prod [OF wf_less_than wf_less_than]])
  case (1 S st)
  show ?case
  proof (cases "sr_pq st = []")
    case True
    then have "dj_run nbrs tgt wt mk st = Some st" unfolding dj_run_def by (subst while_option_unfold) simp
    then show ?thesis using 1 True by blast
  next
    case False
    let ?st = "dj_body nbrs tgt wt mk st"
    have run: "dj_run nbrs tgt wt mk st = dj_run nbrs tgt wt mk ?st"
      unfolding dj_run_def by (subst while_option_unfold) (simp add: False)
    from body_inv [OF 1(2) False] show ?thesis
    proof
      assume a: "inv S (rel S) ?st \<and> length (sr_pq ?st) < length (sr_pq st)"
      then show ?thesis using 1(1) [of S ?st] run by auto
    next
      assume "\<exists>v. v \<in> verts \<and> v \<notin> set S \<and> inv (v # S) (rel (v # S)) ?st"
      then obtain v where v: "v \<in> verts" "v \<notin> set S" "inv (v # S) (rel (v # S)) ?st" by blast
      have "card (verts - set (v # S)) < card (verts - set S)"
        using v finite_verts by (intro psubset_card_mono) auto
      then show ?thesis using 1(1) [of "v # S" ?st] v(3) run by auto
    qed
  qed
qed

lemma init_inv: "inv [] (rel []) (dj_init src sc)"
proof -
  have "sr_pq (dj_init src sc) = heap_push (src, 0) []" by (simp add: dj_init_def sr_reset_def Let_def)
  moreover have "heap_ok []" by (simp add: heap_ok_def)
  ultimately have "set (sr_pq (dj_init src sc)) = {(src, 0)}" "heap_ok (sr_pq (dj_init src sc))"
    by (simp_all add: set_heap_push heap_push_ok)
  then show ?thesis using src_vert
    by (auto simp: inv_def rel_def dj_init_def sr_reset_def Let_def split: if_splits)
qed

lemma reached_least:
  assumes I: "inv S (rel S) st" and fin: "sr_pq st = []"
  shows "walk nbrs tgt src es v \<Longrightarrow> \<exists>d. dst st v = Some d \<and> d \<le> sum_list (map wt es)"
proof (induction es arbitrary: v rule: rev_induct)
  case Nil
  have "dst st src = Some 0" using I by (simp add: inv_def)
  then show ?case using Nil by auto
next
  case (snoc e es)
  then obtain w where w: "walk nbrs tgt src es w" "e \<in> set (nbrs w)" "tgt e = v" by (auto simp: walk_snoc)
  then obtain d where d: "dst st w = Some d" "d \<le> sum_list (map wt es)" using snoc.IH by blast
  have "w \<in> set S" using I fin d(1) by (auto simp: inv_def)
  then have "(w, e) \<in> rel S" using w by (simp add: rel_def)
  then obtain d' where "dst st v = Some d'" "d' \<le> d + wt e" using inv_relaxed [OF I] w d by fastforce
  then show ?case using d by auto
qed

lemma settled_trace:
  assumes I: "inv S R st" and get: "\<And>w x. map_of (sr_prev st) w = Some x \<Longrightarrow> get w = Some x"
  shows "S = xs @ v # ys \<Longrightarrow> \<exists>es. walk nbrs tgt src es v \<and> dst st v = Some (sum_list (map wt es)) \<and>
     distinct (walk_nodes tgt src es) \<and> set (walk_nodes tgt src es) \<subseteq> insert src (set (v # ys)) \<and>
     (\<forall>acc. trace_back frm get src v acc = Some (Some (walk_steps tgt mk src es @ acc)))"
proof (induction "length ys" arbitrary: xs v ys rule: less_induct)
  case less
  show ?case
  proof (cases "v = src")
    case True
    have "dst st src = Some 0" using I by (simp add: inv_def)
    then show ?thesis using True by (intro exI [of _ "[]"]) (simp add: walk_nodes_def trace_back.simps)
  next
    case False
    obtain u e d where e: "map_of (sr_prev st) v = Some (mk u e)" "e \<in> set (nbrs u)" "tgt e = v"
        "u \<in> set ys" "dst st u = Some d" "dst st v = Some (d + wt e)"
      using inv_chain [OF I less.prems False] by (auto simp: came_def)
    obtain y1 y2 where ys: "ys = y1 @ u # y2" using e(4) by (meson split_list)
    have S: "S = (xs @ v # y1) @ u # y2" using less.prems ys by simp
    have "length y2 < length ys" using ys by simp
    from less.hyps [OF this S] obtain es where es: "walk nbrs tgt src es u" "dst st u = Some (sum_list (map wt es))"
        "distinct (walk_nodes tgt src es)" "set (walk_nodes tgt src es) \<subseteq> insert src (set (u # y2))"
        "\<forall>acc. trace_back frm get src u acc = Some (Some (walk_steps tgt mk src es @ acc))"
      by blast
    have "distinct S" using I by (simp add: inv_def)
    then have "v \<notin> insert src (set (u # y2))" using less.prems ys False by auto
    moreover have nodes: "walk_nodes tgt src (es @ [e]) = walk_nodes tgt src es @ [v]"
      using e(3) by (simp add: walk_nodes_def)
    ultimately have "distinct (walk_nodes tgt src (es @ [e]))" using es(3,4) by auto
    moreover have "set (walk_nodes tgt src (es @ [e])) \<subseteq> insert src (set (v # ys))"
      using nodes es(4) ys by auto
    moreover have "walk nbrs tgt src (es @ [e]) v" using es(1) e by (auto simp: walk_snoc)
    moreover have "trace_back frm get src v acc = Some (Some (walk_steps tgt mk src (es @ [e]) @ acc))" for acc
      using False get [OF e(1)] es(5) frm_mk walk_steps_snoc [OF es(1), of mk e]
      by (subst trace_back.simps) simp
    ultimately show ?thesis using e es(2) by (intro exI [of _ "es @ [e]"]) auto
  qed
qed

definition found :: "'s search \<Rightarrow> bool" where
  "found st \<longleftrightarrow>
     (\<forall>v es. walk nbrs tgt src es v \<longrightarrow> (\<exists>d. dst st v = Some d \<and> d \<le> sum_list (map wt es))) \<and>
     (\<forall>get. (\<forall>w x. map_of (sr_prev st) w = Some x \<longrightarrow> get w = Some x) \<longrightarrow>
       (\<forall>v d. dst st v = Some d \<longrightarrow>
         (\<exists>es. walk nbrs tgt src es v \<and> d = sum_list (map wt es) \<and> distinct (walk_nodes tgt src es) \<and>
            (\<forall>acc. trace_back frm get src v acc = Some (Some (walk_steps tgt mk src es @ acc))))))"

theorem search_found: "\<exists>st. dj_run nbrs tgt wt mk (dj_init src sc) = Some st \<and> found st"
proof -
  obtain S st where run: "dj_run nbrs tgt wt mk (dj_init src sc) = Some st"
      and I: "inv S (rel S) st" and fin: "sr_pq st = []"
    using run_ends [OF init_inv] by blast
  have tr: "\<exists>es. walk nbrs tgt src es v \<and> d = sum_list (map wt es) \<and> distinct (walk_nodes tgt src es) \<and>
            (\<forall>acc. trace_back frm get src v acc = Some (Some (walk_steps tgt mk src es @ acc)))"
    if get: "\<forall>w x. map_of (sr_prev st) w = Some x \<longrightarrow> get w = Some x" and v: "dst st v = Some d" for get v d
  proof -
    have "v \<in> set S" using I fin v by (auto simp: inv_def)
    then obtain xs ys where "S = xs @ v # ys" by (meson split_list)
    from settled_trace [OF I _ this, of get] show ?thesis using get v by fastforce
  qed
  have "found st" unfolding found_def using reached_least [OF I fin] tr by blast
  then show ?thesis using run by blast
qed

lemma found_least: "found st \<Longrightarrow> walk nbrs tgt src es v \<Longrightarrow> \<exists>d. dst st v = Some d \<and> d \<le> sum_list (map wt es)"
  unfolding found_def by blast

lemma found_trace:
  assumes "found st" "dst st v = Some d" "\<And>w x. map_of (sr_prev st) w = Some x \<Longrightarrow> get w = Some x"
  obtains es where "walk nbrs tgt src es v" "d = sum_list (map wt es)" "distinct (walk_nodes tgt src es)"
    "\<And>acc. trace_back frm get src v acc = Some (Some (walk_steps tgt mk src es @ acc))"
  using assms unfolding found_def by blast

lemma found_reach: "found st \<Longrightarrow> (\<exists>d. dst st v = Some d) \<longleftrightarrow> (\<exists>es. walk nbrs tgt src es v)"
  by (metis found_least found_trace)

end

text \<open>The contents of a recycled scratch do not matter: \<open>reset\<close> runs first.\<close>

lemma dj_init_fresh: "dj_init src sc = dj_init src new_search"
  by (cases sc) (simp add: dj_init_def sr_reset_def new_search_def)

end
