(* ===== verification/Critical_Paths.thy ===== *)
theory Critical_Paths
  imports Attack_Path Dijkstra
begin

text \<open>
  \<open>FindCriticalPaths\<close> of \<open>backend/internal/analyzer/attackpath.go\<close>: one search per entry point,
  spread over a worker pool, one path per reachable pair of entry point and crown jewel,
  ranked. \<open>adj_search\<close> interprets the search's contract on the adjacency, which turns least
  cost into greatest probability; \<open>pool_step\<close> is the worker pool, and any schedule of it is
  proved to produce what the sequential loop does.
\<close>

section \<open>The code\<close>

definition dijkstra :: "string \<Rightarrow> adjacency \<Rightarrow> step search option \<Rightarrow> step search option" where
  "dijkstra src adj sc =
     dj_run (adj_at adj) oe_to oe_weight mk_step
       (dj_init src (case sc of None \<Rightarrow> new_search | Some s \<Rightarrow> s))"

definition prev_at :: "(string, step) gomap \<Rightarrow> string \<Rightarrow> step" where
  "prev_at prev v = (case map_of prev v of Some st \<Rightarrow> st | None \<Rightarrow> zero_step)"

definition reconstruct :: "string \<Rightarrow> string \<Rightarrow> (string, step) gomap \<Rightarrow> (string, node) gomap \<Rightarrow> attack_path option" where
  "reconstruct seed jewel prev nodes =
     (case trace_back st_from (\<lambda>v. Some (prev_at prev v)) seed jewel [] of
        Some (Some steps) \<Rightarrow> Some (assemble (node_at nodes seed # map (\<lambda>st. node_at nodes (st_to st)) steps) steps)
      | _ \<Rightarrow> None)"

definition paths_from_seed ::
  "string \<Rightarrow> string list \<Rightarrow> adjacency \<Rightarrow> (string, node) gomap \<Rightarrow> step search option \<Rightarrow>
     (attack_path list \<times> step search) option" where
  "paths_from_seed seed jewels adj nodes sc =
     (case dijkstra seed adj sc of
        None \<Rightarrow> None
      | Some st \<Rightarrow>
          (case those (map (\<lambda>jewel. reconstruct seed jewel (sr_prev st) nodes)
                 (filter (\<lambda>jewel. seed \<noteq> jewel \<and> map_of (sr_dist st) jewel \<noteq> None) jewels)) of
             None \<Rightarrow> None
           | Some ps \<Rightarrow> Some (ps, st)))"

text \<open>The sequential branch: one scratch handed from seed to seed.\<close>

fun paths_from_seeds ::
  "string list \<Rightarrow> string list \<Rightarrow> adjacency \<Rightarrow> (string, node) gomap \<Rightarrow> step search option \<Rightarrow>
     attack_path list list option" where
  "paths_from_seeds [] jewels adj nodes sc = Some []"
| "paths_from_seeds (s # ss) jewels adj nodes sc =
     (case paths_from_seed s jewels adj nodes sc of
        None \<Rightarrow> None
      | Some (ps, sc') \<Rightarrow> map_option ((#) ps) (paths_from_seeds ss jewels adj nodes (Some sc')))"

definition find_critical_paths :: "snapshot \<Rightarrow> attack_path list option" where
  "find_critical_paths snap =
     (let nodes = node_by_id snap; adj = build_adjacency (sn_edges snap) nodes;
          seeds = snap_seeds snap; jewels = snap_jewels snap; direct = direct_access_paths snap
      in if seeds = [] \<or> jewels = [] then Some direct
         else map_option (\<lambda>per_seed. sort_by path_before (direct @ concat per_seed))
                (paths_from_seeds seeds jewels adj nodes None))"

section \<open>Routes of a snapshot\<close>

fun route :: "edge list \<Rightarrow> string \<Rightarrow> edge list \<Rightarrow> string \<Rightarrow> bool" where
  "route E u [] v \<longleftrightarrow> u = v"
| "route E u (e # es) v \<longleftrightarrow> e \<in> set E \<and> e_from e = u \<and> route E (e_to e) es v"

definition route_prob :: "edge list \<Rightarrow> real" where
  "route_prob es = prod_list (map (\<lambda>e. clamp_prob (e_prob e)) es)"

definition route_nodes :: "string \<Rightarrow> edge list \<Rightarrow> string list" where
  "route_nodes u es = u # map e_to es"

definition edge_step :: "(string, node) gomap \<Rightarrow> edge \<Rightarrow> step" where
  "edge_step nodes e = mk_step (e_from e) (out_edge_of nodes e)"

lemma route_prob_pos: "0 < route_prob es \<and> route_prob es \<le> 1"
  unfolding route_prob_def
proof (induction es)
  case (Cons e es)
  then show ?case using clamp_prob_range [of "e_prob e"] by (auto intro: mult_le_one)
qed simp

lemma route_cost: "sum_list (map (\<lambda>e. oe_weight (out_edge_of nodes e)) es) = - ln (route_prob es)"
proof (induction es)
  case (Cons e es)
  have "0 < clamp_prob (e_prob e)" using clamp_prob_range by blast
  moreover have "0 < prod_list (map (\<lambda>e. clamp_prob (e_prob e)) es)"
    using route_prob_pos [of es] by (simp add: route_prob_def)
  ultimately show ?case using Cons by (simp add: route_prob_def ln_mult)
qed (simp add: route_prob_def)

interpretation adj_search: sp_graph "adj_at (build_adjacency edges nodes)" oe_to oe_weight mk_step st_from
    "insert src (e_to ` set edges)" src
  for edges nodes src
proof unfold_locales
  show "oe_to e \<in> insert src (e_to ` set edges)" if "e \<in> set (adj_at (build_adjacency edges nodes) u)" for e u
    using that by (auto simp: adj_at_build)
  show "0 \<le> oe_weight e" if "e \<in> set (adj_at (build_adjacency edges nodes) u)" for e u
    using that clamp_prob_range by (auto simp: adj_at_build)
qed (auto simp: mk_step_def)

lemma walk_of_route:
  "route edges u es v \<Longrightarrow> walk (adj_at (build_adjacency edges nodes)) oe_to u (map (out_edge_of nodes) es) v"
  by (induction es arbitrary: u) (auto simp: adj_at_build)

lemma route_of_walk:
  "walk (adj_at (build_adjacency edges nodes)) oe_to u ws v \<Longrightarrow>
     \<exists>es. route edges u es v \<and> ws = map (out_edge_of nodes) es \<and>
          walk_steps oe_to mk_step u ws = map (edge_step nodes) es"
proof (induction ws arbitrary: u)
  case Nil
  then show ?case by (intro exI [of _ "[]"]) simp
next
  case (Cons w ws)
  then obtain e where e: "e \<in> set edges" "e_from e = u" "w = out_edge_of nodes e" by (auto simp: adj_at_build)
  moreover obtain es where "route edges (oe_to w) es v" "ws = map (out_edge_of nodes) es"
      "walk_steps oe_to mk_step (oe_to w) ws = map (edge_step nodes) es"
    using Cons.IH [of "oe_to w"] Cons.prems by auto
  ultimately show ?case by (intro exI [of _ "e # es"]) (simp add: edge_step_def)
qed

section \<open>One seed\<close>

definition reachable :: "edge list \<Rightarrow> string \<Rightarrow> string \<Rightarrow> bool" where
  "reachable edges u v \<longleftrightarrow> (\<exists>es. route edges u es v)"

text \<open>A best route: simple, and no route between its ends is more likely.\<close>

definition best_route :: "edge list \<Rightarrow> string \<Rightarrow> edge list \<Rightarrow> string \<Rightarrow> bool" where
  "best_route edges u es v \<longleftrightarrow> route edges u es v \<and> distinct (route_nodes u es) \<and>
     (\<forall>es'. route edges u es' v \<longrightarrow> route_prob es' \<le> route_prob es)"

definition path_of :: "(string, node) gomap \<Rightarrow> string \<Rightarrow> edge list \<Rightarrow> attack_path" where
  "path_of nodes u es = assemble (map (node_at nodes) (route_nodes u es)) (map (edge_step nodes) es)"

lemma dijkstra_fresh: "dijkstra src adj sc = dijkstra src adj None"
  unfolding dijkstra_def by (metis dj_init_fresh)

lemma dijkstra_found:
  "\<exists>st. dijkstra src (build_adjacency edges nodes) sc = Some st \<and> adj_search.found edges nodes src st"
  unfolding dijkstra_def by (rule adj_search.search_found)

lemma found_reachable:
  assumes "adj_search.found edges nodes src st"
  shows "map_of (sr_dist st) v \<noteq> None \<longleftrightarrow> reachable edges src v"
proof
  assume "map_of (sr_dist st) v \<noteq> None"
  then obtain ws where "walk (adj_at (build_adjacency edges nodes)) oe_to src ws v"
    using adj_search.found_reach [OF assms] by blast
  then show "reachable edges src v" using route_of_walk by (fastforce simp: reachable_def)
next
  assume "reachable edges src v"
  then obtain es where "route edges src es v" by (auto simp: reachable_def)
  then show "map_of (sr_dist st) v \<noteq> None"
    using adj_search.found_least [OF assms walk_of_route] by fastforce
qed

lemma reconstruct_best:
  assumes f: "adj_search.found edges nodes src st" and r: "reachable edges src v"
  shows "\<exists>es. best_route edges src es v \<and> reconstruct src v (sr_prev st) nodes = Some (path_of nodes src es)"
proof -
  obtain d where d: "map_of (sr_dist st) v = Some d" using found_reachable [OF f] r by blast
  obtain ws where ws: "walk (adj_at (build_adjacency edges nodes)) oe_to src ws v" "d = sum_list (map oe_weight ws)"
      "distinct (walk_nodes oe_to src ws)"
      "\<And>acc. trace_back st_from (\<lambda>v. Some (prev_at (sr_prev st) v)) src v acc =
          Some (Some (walk_steps oe_to mk_step src ws @ acc))"
    using adj_search.found_trace [OF f d, of "\<lambda>v. Some (prev_at (sr_prev st) v)"] by (auto simp: prev_at_def)
  obtain es where es: "route edges src es v" "ws = map (out_edge_of nodes) es"
      "walk_steps oe_to mk_step src ws = map (edge_step nodes) es"
    using route_of_walk [OF ws(1)] by blast
  have cost: "d = - ln (route_prob es)" using ws(2) es(2) route_cost [of nodes es] by (simp add: comp_def)
  have "route_prob es' \<le> route_prob es" if e': "route edges src es' v" for es'
  proof -
    have "d \<le> - ln (route_prob es')"
      using adj_search.found_least [OF f walk_of_route [OF e']] d route_cost [of nodes es'] by (simp add: comp_def)
    then show ?thesis using cost route_prob_pos by simp
  qed
  moreover have "distinct (route_nodes src es)"
    using ws(3) es(2) by (simp add: walk_nodes_def route_nodes_def comp_def)
  ultimately have "best_route edges src es v" using es(1) by (simp add: best_route_def)
  moreover have "reconstruct src v (sr_prev st) nodes = Some (path_of nodes src es)"
    using ws(4) [of "[]"] es(3)
    by (simp add: reconstruct_def path_of_def route_nodes_def edge_step_def mk_step_def comp_def)
  ultimately show ?thesis by blast
qed

lemma those_map_Some: "(\<And>x. x \<in> set xs \<Longrightarrow> f x = Some (g x)) \<Longrightarrow> those (map f xs) = Some (map g xs)"
  by (induction xs) auto

text \<open>A best route of every pair, chosen as the search chooses it.\<close>

lemma paths_from_seed_best:
  "\<exists>pick. (\<forall>v. reachable edges src v \<longrightarrow> best_route edges src (pick v) v) \<and>
     (\<forall>sc. map_option fst (paths_from_seed src jewels (build_adjacency edges nodes) nodes sc) =
       Some (map (\<lambda>v. path_of nodes src (pick v)) (filter (\<lambda>v. src \<noteq> v \<and> reachable edges src v) jewels)))"
proof -
  obtain st where st: "dijkstra src (build_adjacency edges nodes) None = Some st"
      and f: "adj_search.found edges nodes src st"
    using dijkstra_found by blast
  define pick where "pick v = (SOME es. best_route edges src es v \<and>
      reconstruct src v (sr_prev st) nodes = Some (path_of nodes src es))" for v
  have pick: "best_route edges src (pick v) v \<and> reconstruct src v (sr_prev st) nodes = Some (path_of nodes src (pick v))"
    if "reachable edges src v" for v
    unfolding pick_def by (rule someI_ex [OF reconstruct_best [OF f that]])
  have dist: "(\<lambda>v. src \<noteq> v \<and> map_of (sr_dist st) v \<noteq> None) = (\<lambda>v. src \<noteq> v \<and> reachable edges src v)"
    using found_reachable [OF f] by (simp add: fun_eq_iff)
  have ps: "those (map (\<lambda>jewel. reconstruct src jewel (sr_prev st) nodes)
        (filter (\<lambda>v. src \<noteq> v \<and> reachable edges src v) jewels)) =
      Some (map (\<lambda>v. path_of nodes src (pick v)) (filter (\<lambda>v. src \<noteq> v \<and> reachable edges src v) jewels))"
    by (rule those_map_Some) (use pick in auto)
  have "map_option fst (paths_from_seed src jewels (build_adjacency edges nodes) nodes sc) =
      Some (map (\<lambda>v. path_of nodes src (pick v)) (filter (\<lambda>v. src \<noteq> v \<and> reachable edges src v) jewels))" for sc
    unfolding paths_from_seed_def dijkstra_fresh [of src _ sc] st using ps dist by simp
  then show ?thesis using pick by blast
qed

definition seed_paths :: "snapshot \<Rightarrow> string \<Rightarrow> attack_path list" where
  "seed_paths snap s =
     (case paths_from_seed s (snap_jewels snap) (build_adjacency (sn_edges snap) (node_by_id snap)) (node_by_id snap) None of
        Some (ps, _) \<Rightarrow> ps | None \<Rightarrow> [])"

lemma paths_from_seed_any_scratch:
  "\<exists>sc'. paths_from_seed s (snap_jewels snap) (build_adjacency (sn_edges snap) (node_by_id snap)) (node_by_id snap) sc
     = Some (seed_paths snap s, sc')"
proof -
  let ?run = "paths_from_seed s (snap_jewels snap) (build_adjacency (sn_edges snap) (node_by_id snap)) (node_by_id snap)"
  obtain ps where ps: "\<And>sc. map_option fst (?run sc) = Some ps"
    using paths_from_seed_best [of "sn_edges snap" s "snap_jewels snap" "node_by_id snap"] by blast
  have "seed_paths snap s = ps" using ps [of None] by (auto simp: seed_paths_def split: option.splits)
  then show ?thesis using ps [of sc] by auto
qed

lemma seed_paths_best:
  "\<exists>pick. (\<forall>v. reachable (sn_edges snap) s v \<longrightarrow> best_route (sn_edges snap) s (pick v) v) \<and>
     seed_paths snap s = map (\<lambda>v. path_of (node_by_id snap) s (pick v))
       (filter (\<lambda>v. s \<noteq> v \<and> reachable (sn_edges snap) s v) (snap_jewels snap))"
proof -
  obtain pick where a: "\<forall>v. reachable (sn_edges snap) s v \<longrightarrow> best_route (sn_edges snap) s (pick v) v"
    and b: "\<And>sc. map_option fst (paths_from_seed s (snap_jewels snap)
          (build_adjacency (sn_edges snap) (node_by_id snap)) (node_by_id snap) sc) =
        Some (map (\<lambda>v. path_of (node_by_id snap) s (pick v))
          (filter (\<lambda>v. s \<noteq> v \<and> reachable (sn_edges snap) s v) (snap_jewels snap)))"
    using paths_from_seed_best [of "sn_edges snap" s "snap_jewels snap" "node_by_id snap"] by blast
  have "seed_paths snap s = map (\<lambda>v. path_of (node_by_id snap) s (pick v))
       (filter (\<lambda>v. s \<noteq> v \<and> reachable (sn_edges snap) s v) (snap_jewels snap))"
    using b [of None] by (auto simp: seed_paths_def split: option.splits)
  then show ?thesis using a by blast
qed

lemma paths_from_seeds_eq:
  "paths_from_seeds ss (snap_jewels snap) (build_adjacency (sn_edges snap) (node_by_id snap)) (node_by_id snap) sc =
     Some (map (seed_paths snap) ss)"
proof (induction ss arbitrary: sc)
  case (Cons s ss)
  show ?case using paths_from_seed_any_scratch [of s snap sc] Cons by auto
qed simp

section \<open>The ranked list\<close>

definition direct_ids :: "snapshot \<Rightarrow> string list" where
  "direct_ids snap = filter (\<lambda>j. held_by_attacker (node_at (node_by_id snap) j)) (snap_jewels snap)"

lemma direct_ids_both: "j \<in> set (direct_ids snap) \<Longrightarrow> j \<in> set (snap_seeds snap) \<and> j \<in> set (snap_jewels snap)"
  using held_is_seed by (auto simp: direct_ids_def snap_jewels_iff snap_seeds_iff)

lemma direct_access_paths_eq:
  "direct_access_paths snap = map (\<lambda>j. direct_access_path (node_at (node_by_id snap) j)) (direct_ids snap)"
  by (simp add: direct_access_paths_def Let_def direct_ids_def snap_jewels_def filter_map comp_def conj_commute)

definition all_paths :: "snapshot \<Rightarrow> attack_path list" where
  "all_paths snap = direct_access_paths snap @ concat (map (seed_paths snap) (snap_seeds snap))"

lemma find_critical_paths_eq: "find_critical_paths snap = Some (sort_by path_before (all_paths snap))"
proof (cases "snap_seeds snap = [] \<or> snap_jewels snap = []")
  case True
  have "direct_ids snap = []"
  proof (rule ccontr)
    assume "direct_ids snap \<noteq> []"
    then obtain j where "j \<in> set (direct_ids snap)" by (metis list.set_intros(1) neq_Nil_conv)
    then show False using True direct_ids_both by fastforce
  qed
  then have d: "direct_access_paths snap = []" by (simp add: direct_access_paths_eq)
  have "seed_paths snap s = []" if "snap_jewels snap = []" for s
    using seed_paths_best [of snap s] that by auto
  then have "concat (map (seed_paths snap) (snap_seeds snap)) = []" using True by auto
  then have "all_paths snap = []" using d by (simp only: all_paths_def append_Nil)
  then show ?thesis using True d by (simp add: find_critical_paths_def)
next
  case False
  then show ?thesis by (simp add: find_critical_paths_def Let_def paths_from_seeds_eq all_paths_def)
qed

definition pair_of :: "attack_path \<Rightarrow> string \<times> string" where
  "pair_of p = (n_id (ap_source p), n_id (ap_target p))"

lemma route_last: "route E u es v \<Longrightarrow> last (route_nodes u es) = v"
  by (induction es arbitrary: u) (auto simp: route_nodes_def)

lemma pair_of_path:
  assumes "s \<in> n_id ` set (sn_nodes snap)" "v \<in> n_id ` set (sn_nodes snap)" "route (sn_edges snap) s es v"
  shows "pair_of (path_of (node_by_id snap) s es) = (s, v)"
proof -
  have ne: "route_nodes s es \<noteq> []" "hd (route_nodes s es) = s" by (simp_all add: route_nodes_def)
  then show ?thesis
    using node_at_listed assms route_last [OF assms(3)]
    by (simp add: pair_of_def path_of_def ap_source_def ap_target_def assemble_simps hd_map last_map)
qed

lemma pair_of_direct: "j \<in> n_id ` set (sn_nodes snap) \<Longrightarrow>
    pair_of (direct_access_path (node_at (node_by_id snap) j)) = (j, j)"
  using node_at_listed by (simp add: pair_of_def direct_access_path_def ap_source_def ap_target_def assemble_simps)

lemma path_before_weak: "strict_weak path_before"
proof -
  have eq: "path_before = (\<lambda>p q. ap_runtime p > ap_runtime q \<or> (ap_runtime p = ap_runtime q \<and> ap_score p > ap_score q))"
    by (auto simp: path_before_def fun_eq_iff less_bool_def)
  show ?thesis unfolding eq by (rule strict_weak_lex_desc [OF strict_weak_measure_desc])
qed

lemma seed_path_member:
  assumes "p \<in> set (seed_paths snap s)" "s \<in> set (snap_seeds snap)"
  shows "\<exists>j es. j \<in> set (snap_jewels snap) \<and> s \<noteq> j \<and> best_route (sn_edges snap) s es j \<and>
     p = path_of (node_by_id snap) s es \<and> pair_of p = (s, j)"
proof -
  obtain pick where pick: "\<forall>v. reachable (sn_edges snap) s v \<longrightarrow> best_route (sn_edges snap) s (pick v) v"
    "seed_paths snap s = map (\<lambda>v. path_of (node_by_id snap) s (pick v))
       (filter (\<lambda>v. s \<noteq> v \<and> reachable (sn_edges snap) s v) (snap_jewels snap))"
    using seed_paths_best by blast
  then obtain j where j: "j \<in> set (snap_jewels snap)" "s \<noteq> j" "reachable (sn_edges snap) s j"
      "p = path_of (node_by_id snap) s (pick j)"
    using assms(1) by auto
  then have "best_route (sn_edges snap) s (pick j) j" using pick(1) by blast
  moreover from this have "pair_of p = (s, j)"
    using j pair_of_path assms(2) by (simp add: best_route_def snap_jewels_iff snap_seeds_iff)
  ultimately show ?thesis using j by blast
qed

lemma seed_path_pair:
  "p \<in> set (seed_paths snap s) \<Longrightarrow> s \<in> set (snap_seeds snap) \<Longrightarrow>
     fst (pair_of p) = s \<and> fst (pair_of p) \<noteq> snd (pair_of p)"
  using seed_path_member by force

lemma seed_paths_pairs:
  assumes "s \<in> set (snap_seeds snap)"
  shows "map pair_of (seed_paths snap s) =
     map (Pair s) (filter (\<lambda>v. s \<noteq> v \<and> reachable (sn_edges snap) s v) (snap_jewels snap))"
proof -
  obtain pick where "\<forall>v. reachable (sn_edges snap) s v \<longrightarrow> best_route (sn_edges snap) s (pick v) v"
    "seed_paths snap s = map (\<lambda>v. path_of (node_by_id snap) s (pick v))
       (filter (\<lambda>v. s \<noteq> v \<and> reachable (sn_edges snap) s v) (snap_jewels snap))"
    using seed_paths_best by blast
  then show ?thesis
    using assms pair_of_path by (auto simp: best_route_def snap_jewels_iff snap_seeds_iff)
qed

lemma distinct_pairs:
  "distinct ss \<Longrightarrow> (\<And>s. distinct (L s)) \<Longrightarrow> distinct (concat (map (\<lambda>s. map (Pair s) (L s)) ss))"
  by (induction ss) (auto simp: distinct_map inj_on_def)

lemma pairs_distinct: "distinct (map pair_of (all_paths snap))"
proof -
  let ?L = "\<lambda>s. filter (\<lambda>v. s \<noteq> v \<and> reachable (sn_edges snap) s v) (snap_jewels snap)"
  have d: "map pair_of (direct_access_paths snap) = map (\<lambda>j. (j, j)) (direct_ids snap)"
    using pair_of_direct by (auto simp: direct_access_paths_eq direct_ids_def snap_jewels_iff)
  have eq: "map (map pair_of \<circ> seed_paths snap) (snap_seeds snap) = map (\<lambda>s. map (Pair s) (?L s)) (snap_seeds snap)"
    by (rule map_cong [OF refl]) (simp add: seed_paths_pairs)
  have "map pair_of (concat (map (seed_paths snap) (snap_seeds snap))) =
      concat (map (\<lambda>s. map (Pair s) (?L s)) (snap_seeds snap))"
    by (simp only: map_concat map_map eq)
  moreover have "distinct (concat (map (\<lambda>s. map (Pair s) (?L s)) (snap_seeds snap)))"
    by (rule distinct_pairs) (simp_all add: snap_seeds_distinct snap_jewels_distinct)
  moreover have "distinct (map (\<lambda>j. (j, j)) (direct_ids snap))"
    by (auto simp: distinct_map direct_ids_def snap_jewels_distinct inj_on_def)
  ultimately show ?thesis by (auto simp: all_paths_def d)
qed

lemma filter_by_key:
  "distinct (map f xs) \<Longrightarrow> x \<in> set xs \<Longrightarrow> filter (\<lambda>y. f y = f x) xs = [x]"
proof (induction xs)
  case (Cons y ys)
  show ?case
  proof (cases "y = x")
    case True
    then have "f z \<noteq> f x" if "z \<in> set ys" for z using Cons.prems(1) that by (metis distinct.simps(2) list.simps(9) image_eqI list.set_map)
    then have "filter (\<lambda>z. f z = f x) ys = []" by (simp add: filter_empty_conv)
    then show ?thesis using True by simp
  next
    case False
    then have "f y \<noteq> f x" using Cons.prems by auto
    then show ?thesis using Cons False by simp
  qed
qed simp

lemma ranked_distinct: "distinct (map pair_of (sort_by path_before (all_paths snap)))"
proof -
  have "mset (map pair_of (sort_by path_before (all_paths snap))) = mset (map pair_of (all_paths snap))" by simp
  then show ?thesis using pairs_distinct mset_eq_imp_distinct_iff by blast
qed

section \<open>The worker pool\<close>

text \<open>
  \<open>pool_step\<close>: the main goroutine offers the indices in order, an idle worker takes the next
  one, a busy worker writes its own slot of \<open>perSeed\<close> and keeps its own scratch. The workers
  interleave in any order.
\<close>

record pool =
  pl_next :: nat
  pl_busy :: "nat \<Rightarrow> nat option"
  pl_scratch :: "nat \<Rightarrow> step search option"
  pl_out :: "attack_path list list"

definition pool_init :: "nat \<Rightarrow> (nat \<Rightarrow> step search option) \<Rightarrow> pool" where
  "pool_init n scratch = \<lparr>pl_next = 0, pl_busy = (\<lambda>w. None), pl_scratch = scratch, pl_out = replicate n []\<rparr>"

inductive pool_step :: "snapshot \<Rightarrow> nat \<Rightarrow> pool \<Rightarrow> pool \<Rightarrow> bool" for snap :: snapshot and workers :: nat where
  take: "pl_next p < length (snap_seeds snap) \<Longrightarrow> w < workers \<Longrightarrow> pl_busy p w = None \<Longrightarrow>
    pool_step snap workers p (p\<lparr>pl_next := Suc (pl_next p), pl_busy := (pl_busy p)(w \<mapsto> pl_next p)\<rparr>)"
| finish: "w < workers \<Longrightarrow> pl_busy p w = Some i \<Longrightarrow>
    paths_from_seed (snap_seeds snap ! i) (snap_jewels snap) (build_adjacency (sn_edges snap) (node_by_id snap))
      (node_by_id snap) (pl_scratch p w) = Some (ps, sc) \<Longrightarrow>
    pool_step snap workers p
      (p\<lparr>pl_out := (pl_out p)[i := ps], pl_busy := (pl_busy p)(w := None), pl_scratch := (pl_scratch p)(w \<mapsto> sc)\<rparr>)"

inductive_cases pool_stepE: "pool_step snap workers p q"

lemma pool_step_cases:
  assumes "pool_step snap workers p q"
  obtains (taken) w where "q = p\<lparr>pl_next := Suc (pl_next p), pl_busy := (pl_busy p)(w \<mapsto> pl_next p)\<rparr>"
      "pl_next p < length (snap_seeds snap)" "w < workers" "pl_busy p w = None"
  | (finished) w i sc where
      "q = p\<lparr>pl_out := (pl_out p)[i := seed_paths snap (snap_seeds snap ! i)],
             pl_busy := (pl_busy p)(w := None), pl_scratch := (pl_scratch p)(w \<mapsto> sc)\<rparr>"
      "w < workers" "pl_busy p w = Some i"
  using assms
proof (elim pool_stepE)
  fix w i ps sc
  assume a: "q = p\<lparr>pl_out := (pl_out p)[i := ps], pl_busy := (pl_busy p)(w := None), pl_scratch := (pl_scratch p)(w \<mapsto> sc)\<rparr>"
    "w < workers" "pl_busy p w = Some i"
    "paths_from_seed (snap_seeds snap ! i) (snap_jewels snap) (build_adjacency (sn_edges snap) (node_by_id snap))
      (node_by_id snap) (pl_scratch p w) = Some (ps, sc)"
  then have "ps = seed_paths snap (snap_seeds snap ! i)"
    using paths_from_seed_any_scratch [of "snap_seeds snap ! i" snap "pl_scratch p w"] by auto
  then show thesis using a finished by blast
qed (rule taken)

definition pool_done :: "snapshot \<Rightarrow> nat \<Rightarrow> pool \<Rightarrow> bool" where
  "pool_done snap workers p \<longleftrightarrow> pl_next p = length (snap_seeds snap) \<and> (\<forall>w < workers. pl_busy p w = None)"

definition pool_inv :: "snapshot \<Rightarrow> nat \<Rightarrow> pool \<Rightarrow> bool" where
  "pool_inv snap workers p \<longleftrightarrow>
     pl_next p \<le> length (snap_seeds snap) \<and> length (pl_out p) = length (snap_seeds snap) \<and>
     (\<forall>w i. pl_busy p w = Some i \<longrightarrow> w < workers \<and> i < pl_next p) \<and>
     (\<forall>i < pl_next p. (\<exists>w. pl_busy p w = Some i) \<or> pl_out p ! i = seed_paths snap (snap_seeds snap ! i))"

lemma pool_inv_step:
  assumes I: "pool_inv snap workers p" and st: "pool_step snap workers p q"
  shows "pool_inv snap workers q"
  using st
proof (cases rule: pool_step_cases)
  case (taken w)
  have keep: "\<exists>w'. ((pl_busy p)(w \<mapsto> pl_next p)) w' = Some i" if a: "\<exists>w'. pl_busy p w' = Some i" for i
  proof -
    obtain w' where "pl_busy p w' = Some i" using a by blast
    then show ?thesis using taken(4) by (intro exI [of _ w']) auto
  qed
  have new: "\<exists>w'. ((pl_busy p)(w \<mapsto> pl_next p)) w' = Some (pl_next p)" by (intro exI [of _ w]) simp
  have "(\<exists>w'. ((pl_busy p)(w \<mapsto> pl_next p)) w' = Some i) \<or> pl_out p ! i = seed_paths snap (snap_seeds snap ! i)"
    if i: "i < Suc (pl_next p)" for i
  proof (cases "i = pl_next p")
    case True
    then show ?thesis using new by blast
  next
    case False
    then have "(\<exists>w'. pl_busy p w' = Some i) \<or> pl_out p ! i = seed_paths snap (snap_seeds snap ! i)"
      using i I by (simp add: pool_inv_def)
    then show ?thesis using keep by blast
  qed
  moreover have "w' < workers \<and> i < Suc (pl_next p)" if "((pl_busy p)(w \<mapsto> pl_next p)) w' = Some i" for w' i
    using that I taken(3) by (auto simp: pool_inv_def less_Suc_eq split: if_splits)
  ultimately show ?thesis using I taken(2) unfolding pool_inv_def taken(1) by simp
next
  case (finished w i sc)
  have "(\<exists>w'. ((pl_busy p)(w := None)) w' = Some k) \<or>
      (pl_out p)[i := seed_paths snap (snap_seeds snap ! i)] ! k = seed_paths snap (snap_seeds snap ! k)"
    if k: "k < pl_next p" for k
  proof (cases "k = i")
    case True
    then show ?thesis using I k by (auto simp: pool_inv_def)
  next
    case False
    from I k have "(\<exists>w'. pl_busy p w' = Some k) \<or> pl_out p ! k = seed_paths snap (snap_seeds snap ! k)"
      by (simp add: pool_inv_def)
    then show ?thesis
    proof
      assume "\<exists>w'. pl_busy p w' = Some k"
      then obtain w' where "pl_busy p w' = Some k" by blast
      moreover from this have "w' \<noteq> w" using finished(3) False by auto
      ultimately show ?thesis by (intro disjI1 exI [of _ w']) simp
    qed (use False in simp)
  qed
  then show ?thesis using I unfolding pool_inv_def finished(1) by simp
qed

lemma pool_inv_reach: "(pool_step snap workers)\<^sup>*\<^sup>* p q \<Longrightarrow> pool_inv snap workers p \<Longrightarrow> pool_inv snap workers q"
  by (induction rule: rtranclp_induct) (auto intro: pool_inv_step)

lemma pool_inv_init: "pool_inv snap workers (pool_init (length (snap_seeds snap)) scratch)"
  by (simp add: pool_inv_def pool_init_def)

text \<open>A pool that is not done can step, and each job takes two steps.\<close>

definition pool_left :: "snapshot \<Rightarrow> nat \<Rightarrow> pool \<Rightarrow> nat" where
  "pool_left snap workers p = 2 * (length (snap_seeds snap) - pl_next p) + card {w. w < workers \<and> pl_busy p w \<noteq> None}"

lemma pool_progress:
  assumes I: "pool_inv snap workers p" and w: "0 < workers" and nd: "\<not> pool_done snap workers p"
  shows "\<exists>q. pool_step snap workers p q"
proof (cases "\<exists>w < workers. pl_busy p w \<noteq> None")
  case True
  then obtain w i where "w < workers" "pl_busy p w = Some i" by auto
  then show ?thesis
    using pool_step.finish paths_from_seed_any_scratch [of "snap_seeds snap ! i" snap "pl_scratch p w"] by blast
next
  case False
  then have "pl_next p < length (snap_seeds snap)" using nd I by (auto simp: pool_done_def pool_inv_def)
  then show ?thesis using pool_step.take [of p snap 0 workers] False w by auto
qed

lemma pool_decreases:
  assumes st: "pool_step snap workers p q"
  shows "pool_left snap workers q < pool_left snap workers p"
proof -
  have fin: "finite {w. w < workers \<and> P w}" for P by simp
  from st show ?thesis
  proof (cases rule: pool_step_cases)
    case (taken w)
    have "{v. v < workers \<and> pl_busy q v \<noteq> None} = insert w {v. v < workers \<and> pl_busy p v \<noteq> None}"
      using taken by auto
    then have "card {v. v < workers \<and> pl_busy q v \<noteq> None} \<le> Suc (card {v. v < workers \<and> pl_busy p v \<noteq> None})"
      using fin by (simp add: card_insert_if)
    then show ?thesis using taken(1,2) by (simp add: pool_left_def)
  next
    case (finished w i sc)
    have "{v. v < workers \<and> pl_busy q v \<noteq> None} \<subset> {v. v < workers \<and> pl_busy p v \<noteq> None}"
      using finished by auto
    then have "card {v. v < workers \<and> pl_busy q v \<noteq> None} < card {v. v < workers \<and> pl_busy p v \<noteq> None}"
      using fin by (intro psubset_card_mono) auto
    then show ?thesis using finished(1) by (simp add: pool_left_def)
  qed
qed

lemma pool_out_done:
  assumes I: "pool_inv snap workers p" and d: "pool_done snap workers p"
  shows "pl_out p = map (seed_paths snap) (snap_seeds snap)"
proof -
  have "pl_busy p w \<noteq> Some i" for w i
  proof
    assume b: "pl_busy p w = Some i"
    then have "w < workers" using I unfolding pool_inv_def by blast
    then show False using b d by (simp add: pool_done_def)
  qed
  then show ?thesis using I d by (intro nth_equalityI) (auto simp: pool_inv_def pool_done_def)
qed

section \<open>Properties\<close>

definition demo_snapshot :: snapshot where
  "demo_snapshot =
     \<lparr>sn_nodes = [\<lparr>n_id = ''web'', n_label = label_vm, n_name = ''web'', n_props = [(prop_internet_exposed, GBool True)]\<rparr>,
                  \<lparr>n_id = ''app'', n_label = label_container, n_name = ''app'', n_props = []\<rparr>,
                  \<lparr>n_id = ''db'', n_label = label_database, n_name = ''db'', n_props = [(prop_crown_jewel, GBool True)]\<rparr>],
      sn_edges = [\<lparr>e_type = edge_connects_to, e_from = ''web'', e_to = ''app'', e_prob = 1 / 2, e_props = []\<rparr>,
                  \<lparr>e_type = edge_connects_to, e_from = ''app'', e_to = ''db'', e_prob = 1 / 2, e_props = []\<rparr>]\<rparr>"

lemma demo_facts:
  "snap_seeds demo_snapshot = [''web'']" "snap_jewels demo_snapshot = [''db'']"
  by (simp_all add: demo_snapshot_def snap_seeds_def snap_jewels_def node_by_id_def node_at_def is_seed_def
      internet_exposed_def is_jewel_def node_bool_def pget_def)

lemma demo_route: "reachable (sn_edges demo_snapshot) ''web'' ''db''"
proof -
  have "route (sn_edges demo_snapshot) ''web'' (sn_edges demo_snapshot) ''db''"
    by (simp add: demo_snapshot_def)
  then show ?thesis unfolding reachable_def by blast
qed

text \<open>
  C1. For every entry point \<open>s\<close> and crown jewel \<open>j\<close> it can reach, \<open>FindCriticalPaths\<close> lists exactly
  one path from \<open>s\<close> to \<open>j\<close>. It is a simple route of the snapshot, and no route from \<open>s\<close> to \<open>j\<close>
  has a greater product of hop probabilities.
\<close>

theorem critical_paths_best:
  assumes "s \<in> set (snap_seeds snap)" "j \<in> set (snap_jewels snap)" "s \<noteq> j" "reachable (sn_edges snap) s j"
  shows "\<exists>paths es. find_critical_paths snap = Some paths \<and>
     filter (\<lambda>q. pair_of q = (s, j)) paths = [path_of (node_by_id snap) s es] \<and>
     route (sn_edges snap) s es j \<and> distinct (route_nodes s es) \<and>
     (\<forall>es'. route (sn_edges snap) s es' j \<longrightarrow> route_prob es' \<le> route_prob es)"
proof -
  obtain pick where pick: "\<forall>v. reachable (sn_edges snap) s v \<longrightarrow> best_route (sn_edges snap) s (pick v) v"
    "seed_paths snap s = map (\<lambda>v. path_of (node_by_id snap) s (pick v))
       (filter (\<lambda>v. s \<noteq> v \<and> reachable (sn_edges snap) s v) (snap_jewels snap))"
    using seed_paths_best by blast
  let ?p = "path_of (node_by_id snap) s (pick j)" and ?paths = "sort_by path_before (all_paths snap)"
  have best: "best_route (sn_edges snap) s (pick j) j" using pick(1) assms(4) by blast
  have "?p \<in> set (seed_paths snap s)" using pick(2) assms by auto
  then have "?p \<in> set ?paths" using assms(1) by (auto simp: all_paths_def)
  then have "filter (\<lambda>q. pair_of q = pair_of ?p) ?paths = [?p]" by (rule filter_by_key [OF ranked_distinct])
  moreover have "pair_of ?p = (s, j)"
    using best assms pair_of_path by (simp add: best_route_def snap_seeds_iff snap_jewels_iff)
  ultimately show ?thesis using best find_critical_paths_eq by (auto simp: best_route_def)
qed

theorem critical_paths_best_witness:
  "\<exists>paths es. find_critical_paths demo_snapshot = Some paths \<and>
     filter (\<lambda>q. pair_of q = (''web'', ''db'')) paths = [path_of (node_by_id demo_snapshot) ''web'' es] \<and>
     route (sn_edges demo_snapshot) ''web'' es ''db'' \<and> distinct (route_nodes ''web'' es) \<and>
     (\<forall>es'. route (sn_edges demo_snapshot) ''web'' es' ''db'' \<longrightarrow> route_prob es' \<le> route_prob es)"
  by (rule critical_paths_best) (simp_all add: demo_facts demo_route)

text \<open>
  Nothing else is listed: every path is a crown jewel the attacker already holds, on its own,
  or a simple route of the snapshot, most likely among its pair's, from an entry point to a
  different crown jewel.
\<close>

theorem critical_paths_sound:
  assumes "find_critical_paths snap = Some paths" "p \<in> set paths"
  shows "(\<exists>j \<in> set (snap_jewels snap). held_by_attacker (node_at (node_by_id snap) j) \<and>
            p = direct_access_path (node_at (node_by_id snap) j)) \<or>
         (\<exists>s \<in> set (snap_seeds snap). \<exists>j \<in> set (snap_jewels snap). \<exists>es. s \<noteq> j \<and>
            best_route (sn_edges snap) s es j \<and> p = path_of (node_by_id snap) s es)"
proof -
  have "p \<in> set (all_paths snap)" using assms find_critical_paths_eq [of snap] by auto
  then consider "p \<in> set (direct_access_paths snap)" | s where "s \<in> set (snap_seeds snap)" "p \<in> set (seed_paths snap s)"
    by (auto simp: all_paths_def)
  then show ?thesis
  proof cases
    case 1
    then show ?thesis by (auto simp: direct_access_paths_eq direct_ids_def)
  next
    case 2
    then show ?thesis using seed_path_member by blast
  qed
qed

theorem critical_paths_sound_witness:
  "\<exists>paths. find_critical_paths demo_snapshot = Some paths \<and>
     (\<forall>p \<in> set paths. \<exists>es. best_route (sn_edges demo_snapshot) ''web'' es ''db'')"
proof -
  obtain paths where p: "find_critical_paths demo_snapshot = Some paths" using find_critical_paths_eq by blast
  have "\<exists>es. best_route (sn_edges demo_snapshot) ''web'' es ''db''" if "p \<in> set paths" for p
    using critical_paths_sound [OF p that]
    by (auto simp: demo_facts)
      (simp add: demo_snapshot_def node_by_id_def node_at_def held_by_attacker_def node_bool_def pget_def)
  then show ?thesis using p by blast
qed

lemma listed_path_score:
  assumes "p \<in> set (all_paths snap)"
  shows "ap_score p = cause_score (ap_steps p) \<and> (ap_runtime p \<longleftrightarrow> (\<exists>n \<in> set (ap_nodes p). node_bool n prop_runtime_alert))"
proof -
  have a: "ap_score (assemble ns ss) = cause_score (ap_steps (assemble ns ss)) \<and>
      (ap_runtime (assemble ns ss) \<longleftrightarrow> (\<exists>n \<in> set (ap_nodes (assemble ns ss)). node_bool n prop_runtime_alert))"
    if "ns \<noteq> []" for ns ss
    by (simp add: assemble_simps [OF that] chain_probability_causes)
  consider n where "p = direct_access_path n" | s es where "p = path_of (node_by_id snap) s es"
    using assms seed_path_member by (fastforce simp: all_paths_def direct_access_paths_eq)
  then show ?thesis
  proof cases
    case 1
    then show ?thesis using a [of "[n]" "[]"] by (simp add: direct_access_path_def)
  next
    case 2
    have "route_nodes s es \<noteq> []" by (simp add: route_nodes_def)
    then show ?thesis using a [of "map (node_at (node_by_id snap)) (route_nodes s es)" "map (edge_step (node_by_id snap)) es"]
      by (simp add: 2 path_of_def)
  qed
qed

text \<open>
  C13. \<open>FindCriticalPaths\<close> ranks by what the hops say: in its list a path with a runtime alert
  on one of its nodes stands before every path without, and of two that agree on that the one
  with the higher score stands first; the score of each is the product of its hops'
  probabilities in which hops that share a cause count once, at the weakest.
\<close>

theorem critical_paths_ranked:
  "\<exists>paths. find_critical_paths snap = Some paths \<and>
     (\<forall>i j. i < j \<and> j < length paths \<longrightarrow>
        (ap_runtime (paths ! j) \<longrightarrow> ap_runtime (paths ! i)) \<and>
        (ap_runtime (paths ! i) = ap_runtime (paths ! j) \<longrightarrow> ap_score (paths ! i) \<ge> ap_score (paths ! j))) \<and>
     (\<forall>p \<in> set paths. ap_score p = cause_score (ap_steps p) \<and>
        (ap_runtime p \<longleftrightarrow> (\<exists>n \<in> set (ap_nodes p). node_bool n prop_runtime_alert)))"
proof -
  let ?paths = "sort_by path_before (all_paths snap)"
  have "(ap_runtime (?paths ! j) \<longrightarrow> ap_runtime (?paths ! i)) \<and>
      (ap_runtime (?paths ! i) = ap_runtime (?paths ! j) \<longrightarrow> ap_score (?paths ! i) \<ge> ap_score (?paths ! j))"
    if "i < j" "j < length ?paths" for i j
  proof -
    have "\<not> path_before (?paths ! j) (?paths ! i)"
      using sorted_sort_by [OF path_before_weak] that by (rule sorted_wrt_nth_less)
    then show ?thesis by (cases "ap_runtime (?paths ! i)"; cases "ap_runtime (?paths ! j)") (simp_all add: path_before_def)
  qed
  moreover have "\<forall>p \<in> set ?paths. ap_score p = cause_score (ap_steps p) \<and>
      (ap_runtime p \<longleftrightarrow> (\<exists>n \<in> set (ap_nodes p). node_bool n prop_runtime_alert))"
    using listed_path_score by simp
  ultimately show ?thesis unfolding find_critical_paths_eq by (intro exI [of _ ?paths] conjI allI impI refl) blast+
qed

theorem critical_paths_ranked_witness:
  "\<exists>paths. find_critical_paths demo_snapshot = Some paths \<and> (\<forall>p \<in> set paths. ap_score p = cause_score (ap_steps p))"
  using critical_paths_ranked [of demo_snapshot] by blast

text \<open>
  C14. The worker pool changes nothing: from any scratches, in any interleaving of any number of
  workers, a finished pool has written for each entry point what the sequential loop computes,
  so the ranked list is \<open>FindCriticalPaths\<close>'s; a pool with a worker that is not finished can
  always step, and each step leaves less to do.
\<close>

theorem pool_deterministic:
  assumes "(pool_step snap workers)\<^sup>*\<^sup>* (pool_init (length (snap_seeds snap)) scratch) p"
  shows "(pool_done snap workers p \<longrightarrow>
            Some (sort_by path_before (direct_access_paths snap @ concat (pl_out p))) = find_critical_paths snap) \<and>
         (0 < workers \<longrightarrow> \<not> pool_done snap workers p \<longrightarrow> (\<exists>q. pool_step snap workers p q)) \<and>
         (\<forall>q. pool_step snap workers p q \<longrightarrow> pool_left snap workers q < pool_left snap workers p)"
proof -
  have I: "pool_inv snap workers p" by (rule pool_inv_reach [OF assms pool_inv_init])
  have "pool_done snap workers p \<Longrightarrow> direct_access_paths snap @ concat (pl_out p) = all_paths snap"
    using pool_out_done [OF I] by (simp add: all_paths_def)
  then show ?thesis using pool_progress [OF I] pool_decreases find_critical_paths_eq by auto
qed

theorem pool_deterministic_witness:
  "\<exists>p. pool_step demo_snapshot 2 (pool_init 1 (\<lambda>w. None)) p \<and> \<not> pool_done demo_snapshot 2 p \<and>
     (\<exists>q. pool_step demo_snapshot 2 p q)"
proof -
  let ?start = "pool_init 1 (\<lambda>w. None)"
  let ?p = "?start\<lparr>pl_next := Suc (pl_next ?start), pl_busy := (pl_busy ?start)(0 \<mapsto> pl_next ?start)\<rparr>"
  have st: "pool_step demo_snapshot 2 ?start ?p"
    by (rule pool_step.take) (simp_all add: pool_init_def demo_facts)
  then have r: "(pool_step demo_snapshot 2)\<^sup>*\<^sup>* (pool_init (length (snap_seeds demo_snapshot)) (\<lambda>w. None)) ?p"
    by (simp add: demo_facts)
  have nd: "\<not> pool_done demo_snapshot 2 ?p" by (auto simp: pool_done_def pool_init_def intro!: exI [of _ "0 :: nat"])
  then show ?thesis using pool_deterministic [OF r] st by fastforce
qed

text \<open>
  The score of an assembled path is at least the product of its hop probabilities and at most
  its weakest hop, which is its upper bound; without a shared cause it is the product.
\<close>

theorem assembled_score_bounds:
  assumes "nodes \<noteq> []" "\<forall>s \<in> set steps. 0 < st_prob s \<and> st_prob s \<le> 1"
  shows "prod_list (map st_prob steps) \<le> ap_score (assemble nodes steps) \<and>
     ap_score (assemble nodes steps) \<le> ap_upper (assemble nodes steps) \<and>
     (\<forall>s \<in> set steps. ap_upper (assemble nodes steps) \<le> st_prob s) \<and>
     ((\<forall>s \<in> set steps. st_cause s = []) \<longrightarrow> ap_score (assemble nodes steps) = prod_list (map st_prob steps))"
proof -
  have b: "\<And>x. x \<in> set (map st_prob steps) \<Longrightarrow> 0 \<le> x \<and> x \<le> 1" using assms(2) by fastforce
  note bounds = chain_probability_bounds [of "map st_prob steps" steps, OF _ b]
  have "chain_probability steps (map st_prob steps) \<le> x" if "x \<in> insert 1 (set (map st_prob steps))" for x
    using that bounds by auto
  then have "chain_probability steps (map st_prob steps) \<le> Min (insert 1 (set (map st_prob steps)))"
    by simp
  moreover have "Min (insert 1 (set (map st_prob steps))) \<le> st_prob s" if "s \<in> set steps" for s
    using that by (intro Min_le) auto
  ultimately show ?thesis
    using bounds(1) chain_probability_plain [of "map st_prob steps" steps]
    by (simp add: assemble_simps [OF assms(1)] del: Min_insert)
qed

theorem assembled_score_bounds_witness:
  "ap_score (assemble [zero_node] [zero_step\<lparr>st_prob := 1 / 2\<rparr>, zero_step\<lparr>st_prob := 1 / 4\<rparr>]) = 1 / 8"
  using assembled_score_bounds [of "[zero_node]" "[zero_step\<lparr>st_prob := 1 / 2\<rparr>, zero_step\<lparr>st_prob := 1 / 4\<rparr>]"]
  by (simp add: zero_step_def)

text \<open>
  C15. The search of one entry point always ends, whatever scratch it is handed: a node has a
  distance exactly when the snapshot's edges lead to it, and following \<open>prev\<close> back from it ends
  at the entry point with a best route.
\<close>

theorem dijkstra_correct:
  "\<exists>st. (\<forall>sc. dijkstra src (build_adjacency (sn_edges snap) (node_by_id snap)) sc = Some st) \<and>
     (\<forall>v. map_of (sr_dist st) v \<noteq> None \<longleftrightarrow> reachable (sn_edges snap) src v) \<and>
     (\<forall>v. if reachable (sn_edges snap) src v
          then \<exists>es. best_route (sn_edges snap) src es v \<and>
                    reconstruct src v (sr_prev st) (node_by_id snap) = Some (path_of (node_by_id snap) src es)
          else map_of (sr_dist st) v = None)"
proof -
  obtain st where st: "dijkstra src (build_adjacency (sn_edges snap) (node_by_id snap)) None = Some st"
      and f: "adj_search.found (sn_edges snap) (node_by_id snap) src st"
    using dijkstra_found by blast
  have "\<forall>sc. dijkstra src (build_adjacency (sn_edges snap) (node_by_id snap)) sc = Some st"
    using st dijkstra_fresh by metis
  moreover have "map_of (sr_dist st) v = None" if "\<not> reachable (sn_edges snap) src v" for v
    using found_reachable [OF f, of v] that by blast
  ultimately show ?thesis using found_reachable [OF f] reconstruct_best [OF f] by (intro exI [of _ st]) simp
qed

end
