(* ===== verification/K_Shortest.thy ===== *)
theory K_Shortest
  imports Critical_Paths
begin

text \<open>
  Alternative routes, \<open>backend/internal/analyzer/kshortest.go\<close>: the simple-graph view
  \<open>wgraph\<close>, the search on it with nodes and edges taken out, and Yen's algorithm. An outer
  \<open>None\<close> is a run that does not end or an index out of range; that neither happens is part
  of what is proved. When no node id contains the separator of \<open>pathKey\<close>, \<open>kShortest\<close> returns
  the \<open>k\<close> cheapest simple routes, in order.
\<close>

section \<open>The code\<close>

record wgraph =
  wg_adj :: "(string, (string, out_edge) gomap) gomap"
  wg_nodes :: "(string, node) gomap"

definition wg_out :: "(string, (string, out_edge) gomap) gomap \<Rightarrow> string \<Rightarrow> (string, out_edge) gomap" where
  "wg_out adj u = (case map_of adj u of Some m \<Rightarrow> m | None \<Rightarrow> [])"

definition wg_add :: "(string, node) gomap \<Rightarrow> edge \<Rightarrow>
    (string, (string, out_edge) gomap) gomap \<Rightarrow> (string, (string, out_edge) gomap) gomap" where
  "wg_add nodes e adj =
     (let oe = out_edge_of nodes e; m = wg_out adj (e_from e)
      in case map_of m (e_to e) of
           Some cur \<Rightarrow> if oe_weight oe < oe_weight cur
                       then AList.update (e_from e) (AList.update (e_to e) oe m) adj else adj
         | None \<Rightarrow> AList.update (e_from e) (AList.update (e_to e) oe m) adj)"

definition new_wgraph :: "snapshot \<Rightarrow> wgraph" where
  "new_wgraph snap = (let nodes = node_by_id snap in
     \<lparr>wg_adj = fold (wg_add nodes) (sn_edges snap) [], wg_nodes = nodes\<rparr>)"

definition neighbor_before :: "out_edge \<Rightarrow> out_edge \<Rightarrow> bool" where
  "neighbor_before a b =
     (if oe_weight a \<noteq> oe_weight b then oe_weight a < oe_weight b else str_less (oe_to a) (oe_to b))"

definition neighbors :: "wgraph \<Rightarrow> string \<Rightarrow> out_edge list" where
  "neighbors g u = sort_by neighbor_before (map snd (wg_out (wg_adj g) u))"

text \<open>The out-edges the loop of \<open>shortest\<close> does not skip.\<close>

definition open_edges :: "wgraph \<Rightarrow> string set \<Rightarrow> (string \<times> string) set \<Rightarrow> string \<Rightarrow> out_edge list" where
  "open_edges g removed_nodes removed_edges u =
     filter (\<lambda>e. \<not> (oe_to e \<in> removed_nodes \<or> (u, oe_to e) \<in> removed_edges)) (neighbors g u)"

type_synonym cand_path = "string list \<times> real"

definition shortest ::
  "wgraph \<Rightarrow> string \<Rightarrow> string \<Rightarrow> string set \<Rightarrow> (string \<times> string) set \<Rightarrow> cand_path option option" where
  "shortest g src dst removed_nodes removed_edges =
     (if src \<in> removed_nodes \<or> dst \<in> removed_nodes then Some None
      else (case dj_run (open_edges g removed_nodes removed_edges) oe_to oe_weight (\<lambda>u e. u) (dj_init src new_search) of
              None \<Rightarrow> None
            | Some st \<Rightarrow>
                (case map_of (sr_dist st) dst of
                   None \<Rightarrow> Some None
                 | Some d \<Rightarrow>
                     (case trace_back (\<lambda>p. p) (map_of (sr_prev st)) src dst [dst] of
                        None \<Rightarrow> None
                      | Some None \<Rightarrow> Some None
                      | Some (Some sq) \<Rightarrow> Some (Some (sq, d))))))"

definition equal_prefix :: "string list \<Rightarrow> string list \<Rightarrow> bool" where
  "equal_prefix path pre \<longleftrightarrow> \<not> length path < length pre \<and> (\<forall>i < length pre. path ! i = pre ! i)"

definition contains_path :: "cand_path list \<Rightarrow> cand_path \<Rightarrow> bool" where
  "contains_path ps c \<longleftrightarrow> (\<exists>p \<in> set ps. path_key (fst p) = path_key (fst c))"

definition wg_edge :: "wgraph \<Rightarrow> string \<Rightarrow> string \<Rightarrow> out_edge option" where
  "wg_edge g u v = map_of (wg_out (wg_adj g) u) v"

fun path_cost_go :: "wgraph \<Rightarrow> real \<Rightarrow> string list \<Rightarrow> real option" where
  "path_cost_go g cost (u # v # sq) =
     (case wg_edge g u v of None \<Rightarrow> None | Some e \<Rightarrow> path_cost_go g (cost + oe_weight e) (v # sq))"
| "path_cost_go g cost sq = Some cost"

definition path_cost :: "wgraph \<Rightarrow> string list \<Rightarrow> real option" where
  "path_cost g sq = path_cost_go g 0 sq"

text \<open>The edge out of position \<open>i\<close> of an accepted path; \<open>None\<close> is an index out of range.\<close>

definition edge_at :: "nat \<Rightarrow> string list \<Rightarrow> (string \<times> string) option" where
  "edge_at i p = (if i + 1 < length p then Some (p ! i, p ! (i + 1)) else None)"

definition spur_at :: "wgraph \<Rightarrow> string \<Rightarrow> cand_path list \<Rightarrow> string list \<Rightarrow> nat \<Rightarrow> cand_path list \<Rightarrow> cand_path list option" where
  "spur_at g dst a prev i b =
     (let spur = prev ! i; root = take (i + 1) prev
      in case those (map (edge_at i) (filter (\<lambda>p. length p > i \<and> equal_prefix p root) (map fst a))) of
           None \<Rightarrow> None
         | Some res \<Rightarrow>
             (case shortest g spur dst (set (butlast root)) (set res) of
                None \<Rightarrow> None
              | Some None \<Rightarrow> Some b
              | Some (Some (spur_nodes, _)) \<Rightarrow>
                  (let total = butlast root @ spur_nodes
                   in case path_cost g total of
                        None \<Rightarrow> Some b
                      | Some cost \<Rightarrow>
                          Some (if \<not> contains_path a (total, cost) \<and> \<not> contains_path b (total, cost)
                                then b @ [(total, cost)] else b))))"

fun spurs :: "wgraph \<Rightarrow> string \<Rightarrow> cand_path list \<Rightarrow> string list \<Rightarrow> nat list \<Rightarrow> cand_path list \<Rightarrow> cand_path list option" where
  "spurs g dst a prev [] b = Some b"
| "spurs g dst a prev (i # is) b =
     (case spur_at g dst a prev i b of None \<Rightarrow> None | Some b' \<Rightarrow> spurs g dst a prev is b')"

definition cand_before :: "cand_path \<Rightarrow> cand_path \<Rightarrow> bool" where
  "cand_before p q =
     (if snd p \<noteq> snd q then snd p < snd q else str_less (path_key (fst p)) (path_key (fst q)))"

text \<open>The outer loop runs while \<open>len(a) < k\<close>: the first argument is \<open>k - len(a)\<close>.\<close>

fun yen_loop :: "nat \<Rightarrow> wgraph \<Rightarrow> string \<Rightarrow> cand_path list \<Rightarrow> cand_path list \<Rightarrow> cand_path list option" where
  "yen_loop 0 g dst a b = Some a"
| "yen_loop (Suc n) g dst a b =
     (let prev = fst (last a)
      in case spurs g dst a prev [0..<length prev - 1] b of
           None \<Rightarrow> None
         | Some b' \<Rightarrow>
             (case sort_by cand_before b' of
                [] \<Rightarrow> Some a
              | c # cs \<Rightarrow> yen_loop n g dst (a @ [c]) cs))"

definition k_shortest :: "wgraph \<Rightarrow> string \<Rightarrow> string \<Rightarrow> int \<Rightarrow> cand_path list option" where
  "k_shortest g src dst k0 =
     (let k = (if k0 \<le> 0 then 1 else nat k0)
      in case shortest g src dst {} {} of
           None \<Rightarrow> None
         | Some None \<Rightarrow> Some []
         | Some (Some first) \<Rightarrow> yen_loop (k - 1) g dst [first] [])"

fun seq_steps :: "wgraph \<Rightarrow> string list \<Rightarrow> step list" where
  "seq_steps g (u # v # sq) =
     (case wg_edge g u v of Some e \<Rightarrow> (mk_step u e)\<lparr>st_to := v\<rparr> | None \<Rightarrow> zero_step\<lparr>st_from := u, st_to := v\<rparr>)
       # seq_steps g (v # sq)"
| "seq_steps g sq = []"

definition to_attack_path :: "wgraph \<Rightarrow> string list \<Rightarrow> attack_path" where
  "to_attack_path g sq = assemble (map (node_at (wg_nodes g)) sq) (seq_steps g sq)"

text \<open>The context's cancellation is the first argument.\<close>

definition k_shortest_paths :: "bool \<Rightarrow> snapshot \<Rightarrow> string \<Rightarrow> string \<Rightarrow> int \<Rightarrow> attack_path list option option" where
  "k_shortest_paths cancelled snap src dst k =
     (if cancelled then Some None
      else map_option (\<lambda>cs. Some (map (\<lambda>c. to_attack_path (new_wgraph snap) (fst c)) cs))
             (k_shortest (new_wgraph snap) src dst k))"

fun k_seeds :: "string set \<Rightarrow> node list \<Rightarrow> string list" where
  "k_seeds listed [] = []"
| "k_seeds listed (n # ns) =
     (if n_id n \<notin> listed \<and> is_seed n then n_id n # k_seeds (insert (n_id n) listed) ns
      else k_seeds (insert (n_id n) listed) ns)"

text \<open>The run of each seed may find the context cancelled: one flag per seed.\<close>

fun k_target_loop :: "(string \<times> bool) list \<Rightarrow> snapshot \<Rightarrow> string \<Rightarrow> int \<Rightarrow> attack_path list \<Rightarrow> attack_path list option option" where
  "k_target_loop [] snap dst k acc = Some (Some acc)"
| "k_target_loop ((s, cancelled) # ss) snap dst k acc =
     (if s = dst then k_target_loop ss snap dst k acc
      else (case k_shortest_paths cancelled snap s dst k of
              None \<Rightarrow> None
            | Some None \<Rightarrow> Some None
            | Some (Some found) \<Rightarrow> k_target_loop ss snap dst k (acc @ found)))"

definition k_shortest_to_target ::
  "(string \<Rightarrow> bool) \<Rightarrow> snapshot \<Rightarrow> string \<Rightarrow> string \<Rightarrow> int \<Rightarrow> attack_path list option option" where
  "k_shortest_to_target cancelled snap from dst k =
     (let seeds = (if from \<noteq> [] then [from] else k_seeds {} (sn_nodes snap))
      in case k_target_loop (map (\<lambda>s. (s, cancelled s)) seeds) snap dst k [] of
           Some (Some all) \<Rightarrow>
             (let ranked = sort_by (\<lambda>p q. ap_score p > ap_score q) all
              in Some (Some (if k > 0 \<and> length ranked > nat k then take (nat k) ranked else ranked)))
         | r \<Rightarrow> r)"

record edge_cut =
  ec_from :: string
  ec_to :: string
  ec_type :: edge_type

definition cut_matches :: "edge_cut list \<Rightarrow> edge \<Rightarrow> bool" where
  "cut_matches cuts e \<longleftrightarrow>
     (\<exists>c \<in> set cuts. ec_from c = e_from e \<and> ec_to c = e_to e \<and> (ec_type c = [] \<or> ec_type c = e_type e))"

definition cut_edges :: "snapshot \<Rightarrow> edge_cut list \<Rightarrow> snapshot" where
  "cut_edges snap cuts =
     \<lparr>sn_nodes = sn_nodes snap, sn_edges = filter (\<lambda>e. \<not> cut_matches cuts e) (sn_edges snap)\<rparr>"

section \<open>Routes of the simple graph\<close>

fun seq_ok :: "wgraph \<Rightarrow> string list \<Rightarrow> bool" where
  "seq_ok g (u # v # sq) \<longleftrightarrow> wg_edge g u v \<noteq> None \<and> seq_ok g (v # sq)"
| "seq_ok g sq \<longleftrightarrow> True"

fun seq_cost :: "wgraph \<Rightarrow> string list \<Rightarrow> real" where
  "seq_cost g (u # v # sq) = (case wg_edge g u v of Some e \<Rightarrow> oe_weight e | None \<Rightarrow> 0) + seq_cost g (v # sq)"
| "seq_cost g sq = 0"

text \<open>\<open>simple_routes g s d\<close>: the simple routes from \<open>s\<close> to \<open>d\<close>, as node sequences.\<close>

definition simple_routes :: "wgraph \<Rightarrow> string \<Rightarrow> string \<Rightarrow> string list set" where
  "simple_routes g s d = {sq. sq \<noteq> [] \<and> seq_ok g sq \<and> hd sq = s \<and> last sq = d \<and> distinct sq}"

text \<open>\<open>newWGraph\<close> keeps, for each ordered pair, the most likely of its edges.\<close>

definition wg_cell :: "(string, node) gomap \<Rightarrow> edge list \<Rightarrow> string \<Rightarrow> string \<Rightarrow> out_edge option \<Rightarrow> bool" where
  "wg_cell nodes es u v r \<longleftrightarrow>
     (case r of
        None \<Rightarrow> \<forall>e \<in> set es. \<not> (e_from e = u \<and> e_to e = v)
      | Some oe \<Rightarrow> (\<exists>e \<in> set es. e_from e = u \<and> e_to e = v \<and> oe = out_edge_of nodes e) \<and>
                  (\<forall>e \<in> set es. e_from e = u \<and> e_to e = v \<longrightarrow> oe_weight oe \<le> oe_weight (out_edge_of nodes e)))"

definition wg_holds :: "(string, node) gomap \<Rightarrow> edge list \<Rightarrow> (string, (string, out_edge) gomap) gomap \<Rightarrow> bool" where
  "wg_holds nodes es adj \<longleftrightarrow>
     (\<forall>u. gm_ok (wg_out adj u)) \<and> (\<forall>u v. wg_cell nodes es u v (map_of (wg_out adj u) v))"

lemma wg_cell_NoneD: "wg_cell nodes es u v None \<Longrightarrow> e \<in> set es \<Longrightarrow> \<not> (e_from e = u \<and> e_to e = v)"
  by (auto simp: wg_cell_def)

lemma wg_cell_SomeD: "wg_cell nodes es u v (Some oe) \<Longrightarrow>
    \<exists>e \<in> set es. e_from e = u \<and> e_to e = v \<and> oe = out_edge_of nodes e \<and>
      (\<forall>f \<in> set es. e_from f = u \<and> e_to f = v \<longrightarrow> oe_weight oe \<le> oe_weight (out_edge_of nodes f))"
  by (auto simp: wg_cell_def simp del: out_edge_of_simps)

lemma wg_cell_other: "wg_cell nodes es u v r \<Longrightarrow> \<not> (e_from e = u \<and> e_to e = v) \<Longrightarrow> wg_cell nodes (es @ [e]) u v r"
  by (auto simp: wg_cell_def split: option.splits simp del: out_edge_of_simps)

lemma wg_cell_keep: "wg_cell nodes es u v (Some oe) \<Longrightarrow> oe_weight oe \<le> oe_weight (out_edge_of nodes e) \<Longrightarrow>
    wg_cell nodes (es @ [e]) u v (Some oe)"
  by (auto simp: wg_cell_def simp del: out_edge_of_simps)

lemma wg_cell_take:
  assumes "e_from e = u" "e_to e = v"
    and "\<And>f. f \<in> set es \<Longrightarrow> e_from f = u \<Longrightarrow> e_to f = v \<Longrightarrow> oe_weight (out_edge_of nodes e) \<le> oe_weight (out_edge_of nodes f)"
  shows "wg_cell nodes (es @ [e]) u v (Some (out_edge_of nodes e))"
  using assms by (auto simp: wg_cell_def simp del: out_edge_of_simps)

lemma wg_out_update: "wg_out (AList.update w m adj) u = (if u = w then m else wg_out adj u)"
  by (simp add: wg_out_def map_of_update)

lemma wg_add_lookup:
  "map_of (wg_out (wg_add nodes e adj) u) v =
     (if u = e_from e \<and> v = e_to e
      then (case map_of (wg_out adj u) v of
              Some cur \<Rightarrow> if oe_weight (out_edge_of nodes e) < oe_weight cur then Some (out_edge_of nodes e) else Some cur
            | None \<Rightarrow> Some (out_edge_of nodes e))
      else map_of (wg_out adj u) v)"
  by (auto simp: wg_add_def Let_def wg_out_update map_of_update split: option.splits)

lemma wg_add_ok: "(\<And>u. gm_ok (wg_out adj u)) \<Longrightarrow> gm_ok (wg_out (wg_add nodes e adj) u)"
  by (auto simp: wg_add_def Let_def wg_out_update gm_ok_update split: option.splits)

lemma wg_holds_add: "wg_holds nodes es adj \<Longrightarrow> wg_holds nodes (es @ [e]) (wg_add nodes e adj)"
proof -
  assume h: "wg_holds nodes es adj"
  have "wg_cell nodes (es @ [e]) u v (map_of (wg_out (wg_add nodes e adj) u) v)" for u v
  proof -
    have c: "wg_cell nodes es u v (map_of (wg_out adj u) v)" using h unfolding wg_holds_def by blast
    show ?thesis
    proof (cases "u = e_from e \<and> v = e_to e")
      case False
      then show ?thesis using wg_cell_other [OF c] unfolding wg_add_lookup by auto
    next
      case True
      show ?thesis
      proof (cases "map_of (wg_out adj u) v")
        case None
        then have "wg_cell nodes (es @ [e]) u v (Some (out_edge_of nodes e))"
          using True c wg_cell_NoneD by (intro wg_cell_take) auto
        then show ?thesis using True None by (simp add: wg_add_lookup)
      next
        case (Some cur)
        show ?thesis
        proof (cases "oe_weight (out_edge_of nodes e) < oe_weight cur")
          case better: True
          have "wg_cell nodes (es @ [e]) u v (Some (out_edge_of nodes e))"
            using True c Some better wg_cell_SomeD [of nodes es u v cur] by (intro wg_cell_take) fastforce+
          then show ?thesis using True Some better by (simp add: wg_add_lookup)
        next
          case worse: False
          have "wg_cell nodes (es @ [e]) u v (Some cur)" using c Some worse by (intro wg_cell_keep) auto
          then show ?thesis using True Some worse by (simp add: wg_add_lookup)
        qed
      qed
    qed
  qed
  then show ?thesis using h wg_add_ok unfolding wg_holds_def by blast
qed

lemma wg_holds_new: "wg_holds (node_by_id snap) (sn_edges snap) (wg_adj (new_wgraph snap))"
proof -
  have "wg_holds nodes (ds @ es) (fold (wg_add nodes) es adj)" if "wg_holds nodes ds adj" for nodes ds es adj
    using that
  proof (induction es arbitrary: ds adj)
    case (Cons e es)
    then show ?case using Cons.IH [OF wg_holds_add [OF Cons.prems, of e]] by simp
  qed simp
  note step = this
  have "wg_holds (node_by_id snap) [] []" by (simp add: wg_holds_def wg_out_def wg_cell_def)
  from step [OF this, of "sn_edges snap"] show ?thesis by (simp add: new_wgraph_def Let_def)
qed

lemma wg_edge_cell: "wg_cell (node_by_id snap) (sn_edges snap) u v (wg_edge (new_wgraph snap) u v)"
  using wg_holds_new [of snap] unfolding wg_holds_def wg_edge_def by blast

lemma wg_edge_SomeD:
  assumes "wg_edge (new_wgraph snap) u v = Some oe"
  shows "\<exists>e \<in> set (sn_edges snap). e_from e = u \<and> e_to e = v \<and> oe = out_edge_of (node_by_id snap) e \<and>
     (\<forall>f \<in> set (sn_edges snap). e_from f = u \<and> e_to f = v \<longrightarrow> clamp_prob (e_prob f) \<le> clamp_prob (e_prob e))"
proof -
  have mono: "oe_weight (out_edge_of n e) \<le> oe_weight (out_edge_of n f) \<Longrightarrow> clamp_prob (e_prob f) \<le> clamp_prob (e_prob e)"
    for n e f using clamp_prob_range by simp
  show ?thesis
    using wg_cell_SomeD [of _ _ u v oe] wg_edge_cell [of snap u v] assms mono
    by (metis (no_types, lifting))
qed

lemma wg_edge_to: "wg_edge (new_wgraph snap) u v = Some oe \<Longrightarrow> oe_to oe = v \<and> 0 \<le> oe_weight oe"
  using wg_edge_SomeD [of snap u v oe] clamp_prob_range by auto

lemma wg_edge_None:
  "wg_edge (new_wgraph snap) u v = None \<longleftrightarrow> (\<forall>e \<in> set (sn_edges snap). \<not> (e_from e = u \<and> e_to e = v))"
proof
  assume "wg_edge (new_wgraph snap) u v = None"
  then show "\<forall>e \<in> set (sn_edges snap). \<not> (e_from e = u \<and> e_to e = v)"
    using wg_edge_cell [of snap u v] wg_cell_NoneD by metis
next
  assume "\<forall>e \<in> set (sn_edges snap). \<not> (e_from e = u \<and> e_to e = v)"
  then show "wg_edge (new_wgraph snap) u v = None"
    using wg_edge_SomeD [of snap u v] by (cases "wg_edge (new_wgraph snap) u v") auto
qed

lemma in_neighbors: "e \<in> set (neighbors (new_wgraph snap) u) \<longleftrightarrow> wg_edge (new_wgraph snap) u (oe_to e) = Some e"
proof -
  let ?m = "wg_out (wg_adj (new_wgraph snap)) u"
  have ok: "gm_ok ?m" using wg_holds_new [of snap] by (simp add: wg_holds_def)
  have "e \<in> set (neighbors (new_wgraph snap) u) \<longleftrightarrow> (\<exists>v. (v, e) \<in> set ?m)" by (force simp: neighbors_def)
  also have "\<dots> \<longleftrightarrow> (\<exists>v. wg_edge (new_wgraph snap) u v = Some e)"
    using gm_ok_in_set [OF ok] by (simp add: wg_edge_def)
  also have "\<dots> \<longleftrightarrow> wg_edge (new_wgraph snap) u (oe_to e) = Some e" using wg_edge_to by blast
  finally show ?thesis .
qed

lemma in_open_edges: "e \<in> set (open_edges (new_wgraph snap) rn re u) \<longleftrightarrow>
    wg_edge (new_wgraph snap) u (oe_to e) = Some e \<and> oe_to e \<notin> rn \<and> (u, oe_to e) \<notin> re"
  by (auto simp: open_edges_def in_neighbors)

interpretation wg_search: sp_graph "open_edges (new_wgraph snap) rn re" oe_to oe_weight "\<lambda>u e. u" "\<lambda>s. s"
    "insert src (e_to ` set (sn_edges snap))" src
  for snap rn re src
proof unfold_locales
  show "oe_to e \<in> insert src (e_to ` set (sn_edges snap))" if "e \<in> set (open_edges (new_wgraph snap) rn re u)" for e u
  proof -
    have "wg_edge (new_wgraph snap) u (oe_to e) = Some e" using that by (simp add: in_open_edges)
    then obtain f where "f \<in> set (sn_edges snap)" "e_to f = oe_to e" using wg_edge_SomeD by blast
    then show ?thesis by (metis imageI insertI2)
  qed
  show "0 \<le> oe_weight e" if "e \<in> set (open_edges (new_wgraph snap) rn re u)" for e u
    using that wg_edge_to by (auto simp: in_open_edges)
qed auto

section \<open>The search\<close>

text \<open>A route that avoids the removed nodes after its first, and the removed edges.\<close>

fun seq_open :: "string set \<Rightarrow> (string \<times> string) set \<Rightarrow> string list \<Rightarrow> bool" where
  "seq_open rn re (u # v # sq) \<longleftrightarrow> v \<notin> rn \<and> (u, v) \<notin> re \<and> seq_open rn re (v # sq)"
| "seq_open rn re sq \<longleftrightarrow> True"

lemma walk_seq:
  "walk (open_edges (new_wgraph snap) rn re) oe_to u es v \<Longrightarrow>
     seq_ok (new_wgraph snap) (walk_nodes oe_to u es) \<and> seq_open rn re (walk_nodes oe_to u es) \<and>
     seq_cost (new_wgraph snap) (walk_nodes oe_to u es) = sum_list (map oe_weight es)"
  by (induction es arbitrary: u) (auto simp: walk_nodes_def in_open_edges)

lemma seq_walk:
  "seq_ok (new_wgraph snap) (u # sq) \<Longrightarrow> seq_open rn re (u # sq) \<Longrightarrow>
     \<exists>es. walk (open_edges (new_wgraph snap) rn re) oe_to u es (last (u # sq)) \<and> walk_nodes oe_to u es = u # sq"
proof (induction sq arbitrary: u)
  case Nil
  then show ?case by (intro exI [of _ "[]"]) (simp add: walk_nodes_def)
next
  case (Cons v sq)
  then obtain e where e: "wg_edge (new_wgraph snap) u v = Some e" by auto
  obtain es where es: "walk (open_edges (new_wgraph snap) rn re) oe_to v es (last (v # sq))" "walk_nodes oe_to v es = v # sq"
    using Cons.IH [of v] Cons.prems by auto
  have to: "oe_to e = v" using wg_edge_to [OF e] by simp
  show ?case
    using Cons.prems e es to by (intro exI [of _ "e # es"]) (auto simp: in_open_edges walk_nodes_def)
qed

lemma walk_steps_nodes: "walk_steps oe_to (\<lambda>u e. u) u es @ [v] = walk_nodes oe_to u es"
  if "walk nbrs oe_to u es v" for nbrs u es v
  using that by (induction es arbitrary: u) (auto simp: walk_nodes_def)

lemma shortest_spec:
  assumes "src \<notin> rn" "dst \<notin> rn"
  shows "(shortest (new_wgraph snap) src dst rn re = Some None \<and>
            (\<forall>sq. sq \<in> simple_routes (new_wgraph snap) src dst \<longrightarrow> \<not> seq_open rn re sq)) \<or>
         (\<exists>sq. shortest (new_wgraph snap) src dst rn re = Some (Some (sq, seq_cost (new_wgraph snap) sq)) \<and>
            sq \<in> simple_routes (new_wgraph snap) src dst \<and> seq_open rn re sq \<and>
            (\<forall>sq'. sq' \<in> simple_routes (new_wgraph snap) src dst \<longrightarrow> seq_open rn re sq' \<longrightarrow>
               seq_cost (new_wgraph snap) sq \<le> seq_cost (new_wgraph snap) sq'))"
proof -
  let ?g = "new_wgraph snap"
  let ?nb = "open_edges ?g rn re"
  obtain st where run: "dj_run ?nb oe_to oe_weight (\<lambda>u e. u) (dj_init src new_search) = Some st"
      and f: "wg_search.found snap rn re src st"
    using wg_search.search_found by blast
  have route: "\<exists>d. map_of (sr_dist st) dst = Some d \<and> d \<le> seq_cost ?g sq"
    if r: "sq \<in> simple_routes ?g src dst" "seq_open rn re sq" for sq
  proof -
    have sq: "sq = src # tl sq" using r(1) by (cases sq) (auto simp: simple_routes_def)
    obtain es where "walk ?nb oe_to src es (last (src # tl sq))" "walk_nodes oe_to src es = src # tl sq"
      using seq_walk [of snap src "tl sq" rn re] r sq by (auto simp: simple_routes_def)
    moreover have "last (src # tl sq) = dst" using r(1) sq by (auto simp: simple_routes_def)
    ultimately show ?thesis
      using wg_search.found_least [OF f] walk_seq [of snap rn re src es] sq by fastforce
  qed
  show ?thesis
  proof (cases "map_of (sr_dist st) dst")
    case None
    then have "shortest ?g src dst rn re = Some None" using assms run by (simp add: shortest_def)
    then show ?thesis using route None by fastforce
  next
    case (Some d)
    obtain es where es: "walk ?nb oe_to src es dst" "d = sum_list (map oe_weight es)" "distinct (walk_nodes oe_to src es)"
        "\<And>acc. trace_back (\<lambda>s. s) (map_of (sr_prev st)) src dst acc = Some (Some (walk_steps oe_to (\<lambda>u e. u) src es @ acc))"
      using wg_search.found_trace [OF f Some, of "map_of (sr_prev st)"] by blast
    let ?sq = "walk_nodes oe_to src es"
    have "shortest ?g src dst rn re = Some (Some (?sq, d))"
      using assms run Some es(4) walk_steps_nodes [OF es(1)] by (simp add: shortest_def)
    moreover have "?sq \<in> simple_routes ?g src dst"
      using walk_seq [OF es(1)] walk_end [OF es(1)] es(3) by (simp add: simple_routes_def walk_nodes_def)
    ultimately show ?thesis using walk_seq [OF es(1)] es(2) route Some by fastforce
  qed
qed

section \<open>One spur\<close>

lemma seq_ok_append: "seq_ok g (xs @ v # ys) \<longleftrightarrow> seq_ok g (xs @ [v]) \<and> seq_ok g (v # ys)"
proof (induction xs)
  case (Cons x xs)
  then show ?case by (cases xs) auto
qed simp

lemma seq_cost_append: "seq_cost g (xs @ v # ys) = seq_cost g (xs @ [v]) + seq_cost g (v # ys)"
proof (induction xs)
  case (Cons x xs)
  then show ?case by (cases xs) auto
qed simp

lemma path_cost_eq: "path_cost g sq = (if seq_ok g sq then Some (seq_cost g sq) else None)"
proof -
  have "path_cost_go g c sq = (if seq_ok g sq then Some (c + seq_cost g sq) else None)" for c
    by (induction g c sq rule: path_cost_go.induct) (auto split: option.splits)
  then show ?thesis by (simp add: path_cost_def)
qed

lemma routeD:
  assumes "q \<in> simple_routes g s d"
  shows "q \<noteq> []" "seq_ok g q" "hd q = s" "last q = d" "distinct q" "q ! 0 = s"
  using assms by (auto simp: simple_routes_def hd_conv_nth)

text \<open>A proper prefix of a simple route does not hold its target.\<close>

lemma route_prefix_target: "q \<in> simple_routes g s d \<Longrightarrow> i + 1 < length q \<Longrightarrow> d \<notin> set (take (i + 1) q)"
proof
  assume q: "q \<in> simple_routes g s d" "i + 1 < length q" and d: "d \<in> set (take (i + 1) q)"
  then obtain k where "k < i + 1" "q ! k = d" by (auto simp: in_set_conv_nth)
  moreover have "q ! (length q - 1) = d" using routeD(1,4) [OF q(1)] by (simp add: last_conv_nth)
  ultimately show False using routeD(5) [OF q(1)] q(2) by (auto simp: nth_eq_iff_index_eq)
qed

lemma route_same_root:
  assumes "p \<in> simple_routes g s d" "q \<in> simple_routes g s d" "i + 1 < length p" "take (i + 1) q = take (i + 1) p"
  shows "i + 1 < length q"
proof (rule ccontr)
  assume "\<not> i + 1 < length q"
  then have "take (i + 1) q = q" by simp
  then have "d \<in> set (take (i + 1) p)" using routeD(1,4) [OF assms(2)] assms(4) by (metis last_in_set)
  then show False using route_prefix_target [OF assms(1,3)] by simp
qed

lemma split_at: "i < length q \<Longrightarrow> q = take i q @ q ! i # drop (i + 1) q"
  by (simp add: id_take_nth_drop)

text \<open>The routes that leave the accepted ones right after position \<open>i\<close> of \<open>prev\<close>.\<close>

definition leaving :: "wgraph \<Rightarrow> string \<Rightarrow> string \<Rightarrow> string list set \<Rightarrow> string list \<Rightarrow> nat \<Rightarrow> string list set" where
  "leaving g s d A prev i = {q \<in> simple_routes g s d. take (i + 1) q = take (i + 1) prev \<and>
     (\<forall>p \<in> A. take (i + 2) p \<noteq> take (i + 2) q)}"

definition used_edges :: "string list set \<Rightarrow> string list \<Rightarrow> nat \<Rightarrow> (string \<times> string) set" where
  "used_edges A prev i = {(p ! i, p ! (i + 1)) | p. p \<in> A \<and> take (i + 1) p = take (i + 1) prev}"

lemma take_two: "i + 1 < length p \<Longrightarrow> take (i + 2) p = take (i + 1) p @ [p ! (i + 1)]"
  using take_Suc_conv_app_nth [of "i + 1" p] by simp

lemma take_one: "i < length p \<Longrightarrow> take (i + 1) p = take i p @ [p ! i]"
  using take_Suc_conv_app_nth [of i p] by simp

lemma seq_open_tail: "set sq \<inter> rn = {} \<Longrightarrow> (\<forall>(x, y) \<in> re. x \<notin> set (v # sq)) \<Longrightarrow> seq_open rn re (v # sq)"
  by (induction sq arbitrary: v) auto

lemma seq_open_from:
  assumes "distinct (u # sq)" "set sq \<inter> rn = {}" "\<forall>x \<in> fst ` re. x = u" "sq \<noteq> [] \<Longrightarrow> (u, hd sq) \<notin> re"
  shows "seq_open rn re (u # sq)"
proof (cases sq)
  case (Cons v sq')
  have "seq_open rn re (v # sq')"
    by (rule seq_open_tail) (use assms Cons in force)+
  then show ?thesis using assms Cons by auto
qed simp

lemma seq_open_nodes: "seq_open rn re (u # sq) \<Longrightarrow> set sq \<inter> rn = {}"
  by (induction sq arbitrary: u) auto

text \<open>Cutting a route at \<open>i\<close>, and splicing a route from there.\<close>

lemma leaving_spur:
  assumes A: "A \<subseteq> simple_routes g s d" and prev: "prev \<in> simple_routes g s d" and i: "i + 1 < length prev"
    and q: "q \<in> leaving g s d A prev i"
  shows "drop i q \<in> simple_routes g (prev ! i) d" "seq_open (set (take i prev)) (used_edges A prev i) (drop i q)"
    "seq_cost g q = seq_cost g (take (i + 1) prev) + seq_cost g (drop i q)" "q = take i prev @ drop i q"
proof -
  have r: "q \<in> simple_routes g s d" and root: "take (i + 1) q = take (i + 1) prev"
    and new: "\<forall>p \<in> A. take (i + 2) p \<noteq> take (i + 2) q"
    using q by (auto simp: leaving_def)
  have iq: "i + 1 < length q" by (rule route_same_root [OF prev r i root])
  have tk: "take i q = take i prev" and nth: "q ! i = prev ! i"
    using take_one [of i q] take_one [of i prev] i iq root by auto
  have dr: "drop i q = prev ! i # drop (i + 1) q" using iq nth Cons_nth_drop_Suc [of i q] by simp
  have sq: "q = take i prev @ prev ! i # drop (i + 1) q" using split_at [of i q] iq tk nth by simp
  show "q = take i prev @ drop i q" using sq dr by simp
  have dist: "distinct (take i prev @ prev ! i # drop (i + 1) q)" using routeD(5) [OF r] sq by simp
  have ok: "seq_ok g (take i prev @ [prev ! i])" "seq_ok g (prev ! i # drop (i + 1) q)"
    using routeD(2) [OF r] sq seq_ok_append by metis+
  have "last (prev ! i # drop (i + 1) q) = d" using routeD(4) [OF r] sq by (metis last_appendR list.distinct(1))
  then show "drop i q \<in> simple_routes g (prev ! i) d" using ok dist unfolding dr simple_routes_def by simp
  show "seq_cost g q = seq_cost g (take (i + 1) prev) + seq_cost g (drop i q)"
    unfolding dr using seq_cost_append [of g "take i prev" "prev ! i" "drop (i + 1) q"] sq take_one [of i prev] i by simp
  show "seq_open (set (take i prev)) (used_edges A prev i) (drop i q)" unfolding dr
  proof (rule seq_open_from)
    show "distinct (prev ! i # drop (i + 1) q)" "set (drop (i + 1) q) \<inter> set (take i prev) = {}" using dist by auto
    have pi: "p ! i = prev ! i \<and> i + 1 < length p" if "p \<in> A" "take (i + 1) p = take (i + 1) prev" for p
    proof -
      have "i + 1 < length p" using route_same_root [OF prev _ i that(2)] that(1) A by blast
      then show ?thesis using that(2) take_one [of i p] take_one [of i prev] i by auto
    qed
    then show "\<forall>x \<in> fst ` used_edges A prev i. x = prev ! i" by (auto simp: used_edges_def)
    show "(prev ! i, hd (drop (i + 1) q)) \<notin> used_edges A prev i"
    proof
      assume "(prev ! i, hd (drop (i + 1) q)) \<in> used_edges A prev i"
      then obtain p where p: "p \<in> A" "take (i + 1) p = take (i + 1) prev" "p ! (i + 1) = q ! (i + 1)"
        using iq by (auto simp: used_edges_def hd_drop_conv_nth)
      then have "take (i + 2) p = take (i + 2) q" using take_two [of i p] take_two [OF iq] pi root by simp
      then show False using new p(1) by blast
    qed
  qed
qed

lemma spur_leaving:
  assumes A: "A \<subseteq> simple_routes g s d" and prev: "prev \<in> simple_routes g s d" and i: "i + 1 < length prev"
    and sq: "sq \<in> simple_routes g (prev ! i) d" "seq_open (set (take i prev)) (used_edges A prev i) sq"
  shows "take i prev @ sq \<in> leaving g s d A prev i"
    "seq_cost g (take i prev @ sq) = seq_cost g (take (i + 1) prev) + seq_cost g sq"
proof -
  obtain tl where tl: "sq = prev ! i # tl" using routeD(1,3) [OF sq(1)] by (cases sq) auto
  have len: "length (take i prev) = i" using i by simp
  have pi: "prev ! i \<noteq> d"
    using route_prefix_target [OF prev i] take_one [of i prev] i by auto
  then obtain v rest where vr: "tl = v # rest" using routeD(4) [OF sq(1)] tl by (cases tl) auto
  have "seq_ok g (take i prev @ prev ! i # drop (i + 1) prev)" using routeD(2) [OF prev] split_at [of i prev] i by simp
  then have "seq_ok g (take i prev @ [prev ! i])" using seq_ok_append by blast
  then have ok: "seq_ok g (take i prev @ sq)" using routeD(2) [OF sq(1)] tl seq_ok_append by metis
  have dp: "distinct (take i prev @ [prev ! i])" using routeD(5) [OF prev] take_one [of i prev] i
    by (metis Suc_eq_plus1 add_lessD1 distinct_take)
  have "set tl \<inter> set (take i prev) = {}" using seq_open_nodes sq(2) tl by blast
  then have dist: "distinct (take i prev @ sq)" using dp routeD(5) [OF sq(1)] tl by auto
  have hd: "hd (take i prev @ sq) = s"
    using routeD(3) [OF prev] routeD(6) [OF prev] tl i by (cases i) (auto simp: hd_conv_nth nth_append)
  have r: "take i prev @ sq \<in> simple_routes g s d"
    using ok dist hd routeD(1,4) [OF sq(1)] by (simp add: simple_routes_def)
  have root: "take (i + 1) (take i prev @ sq) = take (i + 1) prev" using len tl take_one [of i prev] i by simp
  have two: "take (i + 2) (take i prev @ sq) = take (i + 1) prev @ [v]"
    using len tl vr take_one [of i prev] i by simp
  have "take (i + 2) p \<noteq> take (i + 2) (take i prev @ sq)" if p: "p \<in> A" for p
  proof
    assume eq: "take (i + 2) p = take (i + 2) (take i prev @ sq)"
    then have "length (take (i + 2) p) = i + 2" using two i by simp
    then have lp: "i + 1 < length p" by simp
    have f: "take (i + 1) p = take (i + 1) prev" "p ! (i + 1) = v" using eq two take_two [OF lp] by auto
    have "p ! i = prev ! i" using f(1) take_one [of i p] take_one [of i prev] i lp by auto
    then have "(prev ! i, v) \<in> used_edges A prev i"
      unfolding used_edges_def using f p by (intro CollectI exI [of _ p]) simp
    then show False using sq(2) tl vr by simp
  qed
  then show "take i prev @ sq \<in> leaving g s d A prev i" using r root by (simp add: leaving_def)
  show "seq_cost g (take i prev @ sq) = seq_cost g (take (i + 1) prev) + seq_cost g sq"
    using seq_cost_append [of g "take i prev" "prev ! i" tl] tl take_one [of i prev] i by simp
qed

lemma equal_prefix_iff: "equal_prefix path pre \<longleftrightarrow> take (length pre) path = pre"
proof
  assume e: "equal_prefix path pre"
  then have "length pre \<le> length path" by (simp add: equal_prefix_def not_less)
  then show "take (length pre) path = pre"
    using e by (intro nth_equalityI) (auto simp: equal_prefix_def)
next
  assume t: "take (length pre) path = pre"
  then have "length pre \<le> length path" by (metis length_take min.cobounded1 min_def)
  moreover have "path ! i = pre ! i" if "i < length pre" for i using t that by (metis nth_take)
  ultimately show "equal_prefix path pre" by (simp add: equal_prefix_def not_less)
qed

lemma spur_edges:
  assumes A: "fst ` set a \<subseteq> simple_routes g s d" and prev: "prev \<in> simple_routes g s d" and i: "i + 1 < length prev"
  shows "\<exists>res. those (map (edge_at i) (filter (\<lambda>p. length p > i \<and> equal_prefix p (take (i + 1) prev)) (map fst a))) = Some res \<and>
     set res = used_edges (fst ` set a) prev i"
proof -
  let ?ps = "filter (\<lambda>p. length p > i \<and> equal_prefix p (take (i + 1) prev)) (map fst a)"
  have len: "length (take (i + 1) prev) = i + 1" using i by simp
  have long: "i + 1 < length p" if "p \<in> fst ` set a" "take (i + 1) p = take (i + 1) prev" for p
    using route_same_root [OF prev _ i that(2)] that(1) A by blast
  have "edge_at i p = Some (p ! i, p ! (i + 1))" if "p \<in> set ?ps" for p
    using that long [of p] len by (simp add: edge_at_def equal_prefix_iff)
  then have "those (map (edge_at i) ?ps) = Some (map (\<lambda>p. (p ! i, p ! (i + 1))) ?ps)" by (rule those_map_Some)
  moreover have "set (map (\<lambda>p. (p ! i, p ! (i + 1))) ?ps) = used_edges (fst ` set a) prev i"
  proof -
    have "set ?ps = {p \<in> fst ` set a. take (i + 1) p = take (i + 1) prev}"
    proof (intro set_eqI iffI)
      fix p
      assume "p \<in> {p \<in> fst ` set a. take (i + 1) p = take (i + 1) prev}"
      then show "p \<in> set ?ps" using long [of p] len by (simp add: equal_prefix_iff)
    qed (use len in \<open>auto simp: equal_prefix_iff\<close>)
    then show ?thesis unfolding used_edges_def by auto
  qed
  ultimately show ?thesis by blast
qed

lemma spur_at_spec:
  assumes A: "fst ` set a \<subseteq> simple_routes (new_wgraph snap) s d" and prev: "prev \<in> simple_routes (new_wgraph snap) s d"
    and i: "i + 1 < length prev"
  shows "(spur_at (new_wgraph snap) d a prev i b = Some b \<and> leaving (new_wgraph snap) s d (fst ` set a) prev i = {}) \<or>
     (\<exists>q \<in> leaving (new_wgraph snap) s d (fst ` set a) prev i.
        (\<forall>p \<in> leaving (new_wgraph snap) s d (fst ` set a) prev i. seq_cost (new_wgraph snap) q \<le> seq_cost (new_wgraph snap) p) \<and>
        spur_at (new_wgraph snap) d a prev i b =
          Some (if \<not> contains_path a (q, seq_cost (new_wgraph snap) q) \<and> \<not> contains_path b (q, seq_cost (new_wgraph snap) q)
                then b @ [(q, seq_cost (new_wgraph snap) q)] else b))"
proof -
  let ?g = "new_wgraph snap" and ?A = "fst ` set a" and ?rn = "set (take i prev)"
  let ?re = "used_edges ?A prev i" and ?L = "leaving (new_wgraph snap) s d (fst ` set a) prev i"
  obtain res where res: "those (map (edge_at i) (filter (\<lambda>p. length p > i \<and> equal_prefix p (take (i + 1) prev)) (map fst a))) = Some res"
      "set res = ?re"
    using spur_edges [OF A prev i] by blast
  have bl: "butlast (take (i + 1) prev) = take i prev" using i by (simp add: butlast_take)
  have "distinct (take i prev @ [prev ! i])" using routeD(5) [OF prev] take_one [of i prev] i
    by (metis Suc_eq_plus1 add_lessD1 distinct_take)
  then have sp: "prev ! i \<notin> ?rn" by simp
  have dt: "d \<notin> ?rn" using route_prefix_target [OF prev i] take_one [of i prev] i by auto
  have unf: "spur_at ?g d a prev i b =
      (case shortest ?g (prev ! i) d ?rn ?re of None \<Rightarrow> None | Some None \<Rightarrow> Some b
       | Some (Some (spur_nodes, _)) \<Rightarrow>
           (let total = take i prev @ spur_nodes
            in case path_cost ?g total of None \<Rightarrow> Some b
               | Some cost \<Rightarrow> Some (if \<not> contains_path a (total, cost) \<and> \<not> contains_path b (total, cost)
                    then b @ [(total, cost)] else b)))"
    unfolding spur_at_def Let_def res(1) bl res(2) by (simp only: option.case res(2))
  from shortest_spec [OF sp dt, of snap ?re] show ?thesis
  proof
    assume none: "shortest ?g (prev ! i) d ?rn ?re = Some None \<and>
        (\<forall>sq. sq \<in> simple_routes ?g (prev ! i) d \<longrightarrow> \<not> seq_open ?rn ?re sq)"
    then have "?L = {}" using leaving_spur(1,2) [OF A prev i] by blast
    then show ?thesis using none unf by simp
  next
    assume "\<exists>sq. shortest ?g (prev ! i) d ?rn ?re = Some (Some (sq, seq_cost ?g sq)) \<and>
        sq \<in> simple_routes ?g (prev ! i) d \<and> seq_open ?rn ?re sq \<and>
        (\<forall>sq'. sq' \<in> simple_routes ?g (prev ! i) d \<longrightarrow> seq_open ?rn ?re sq' \<longrightarrow> seq_cost ?g sq \<le> seq_cost ?g sq')"
    then obtain sq where sq: "shortest ?g (prev ! i) d ?rn ?re = Some (Some (sq, seq_cost ?g sq))"
        "sq \<in> simple_routes ?g (prev ! i) d" "seq_open ?rn ?re sq"
        "\<forall>sq'. sq' \<in> simple_routes ?g (prev ! i) d \<longrightarrow> seq_open ?rn ?re sq' \<longrightarrow> seq_cost ?g sq \<le> seq_cost ?g sq'"
      by blast
    let ?q = "take i prev @ sq"
    note spl = spur_leaving [OF A prev i sq(2,3)]
    have "seq_cost ?g ?q \<le> seq_cost ?g p" if "p \<in> ?L" for p
      using leaving_spur [OF A prev i that] sq(4) spl(2) by simp
    moreover have "seq_ok ?g ?q" using spl(1) routeD(2) by (auto simp: leaving_def)
    ultimately show ?thesis using spl(1) unf sq(1) by (intro disjI2 bexI [OF _ spl(1)]) (simp add: path_cost_eq Let_def)
  qed
qed

section \<open>The loop\<close>

text \<open>Sound candidates: simple routes with their cost, none twice.\<close>

definition cands_ok :: "wgraph \<Rightarrow> string \<Rightarrow> string \<Rightarrow> cand_path list \<Rightarrow> bool" where
  "cands_ok g s d cs \<longleftrightarrow> (\<forall>(q, c) \<in> set cs. q \<in> simple_routes g s d \<and> c = seq_cost g q) \<and> distinct (map fst cs)"

text \<open>
  Position \<open>i\<close> of route \<open>p\<close> is covered when some candidate leaves the accepted routes where \<open>p\<close>
  does and costs no more.
\<close>

definition covered :: "wgraph \<Rightarrow> string list set \<Rightarrow> string list set \<Rightarrow> string list \<Rightarrow> nat \<Rightarrow> bool" where
  "covered g A B p i \<longleftrightarrow> (\<exists>b \<in> B. take (i + 1) b = take (i + 1) p \<and> (\<forall>q \<in> A. take (i + 2) q \<noteq> take (i + 2) b) \<and>
     seq_cost g b \<le> seq_cost g p)"

definition leaves_at :: "string list set \<Rightarrow> string list \<Rightarrow> nat \<Rightarrow> bool" where
  "leaves_at A p i \<longleftrightarrow> i + 1 < length p \<and> (\<exists>q \<in> A. take (i + 1) q = take (i + 1) p) \<and>
     (\<forall>q \<in> A. take (i + 2) q \<noteq> take (i + 2) p)"

lemma contains_path_key: "inj_on path_key R \<Longrightarrow> q \<in> R \<Longrightarrow> fst ` set cs \<subseteq> R \<Longrightarrow>
    contains_path cs (q, c) \<longleftrightarrow> q \<in> fst ` set cs"
  by (auto simp: contains_path_def dest: inj_onD)

lemma contains_path_fst: "q \<in> fst ` set cs \<Longrightarrow> contains_path cs (q, c)"
  by (auto simp: contains_path_def)

lemma covered_mono: "covered g A B p i \<Longrightarrow> B \<subseteq> B' \<Longrightarrow> covered g A B' p i"
  unfolding covered_def by blast

lemma cands_okD: "cands_ok g s d cs \<Longrightarrow> x \<in> set cs \<Longrightarrow> fst x \<in> simple_routes g s d \<and> snd x = seq_cost g (fst x)"
  unfolding cands_ok_def by (cases x) auto

lemma cands_ok_routes: "cands_ok g s d cs \<Longrightarrow> fst ` set cs \<subseteq> simple_routes g s d"
  unfolding cands_ok_def by auto

text \<open>The spurs of one round add sound candidates, and cover every position of \<open>prev\<close>.\<close>

lemma spurs_spec:
  assumes ok: "cands_ok (new_wgraph snap) s d (a @ b)" and prev: "prev \<in> simple_routes (new_wgraph snap) s d"
    and ks: "\<forall>i \<in> set ks. i + 1 < length prev"
  shows "\<exists>b'. spurs (new_wgraph snap) d a prev ks b = Some b' \<and> cands_ok (new_wgraph snap) s d (a @ b') \<and>
     set b \<subseteq> set b' \<and>
     (inj_on path_key (simple_routes (new_wgraph snap) s d) \<longrightarrow>
       (\<forall>i \<in> set ks. \<forall>p \<in> leaving (new_wgraph snap) s d (fst ` set a) prev i.
          covered (new_wgraph snap) (fst ` set a) (fst ` set b') p i))"
  using ok ks
proof (induction ks arbitrary: b)
  case Nil
  then show ?case by simp
next
  case (Cons i ks)
  let ?g = "new_wgraph snap" and ?A = "fst ` set a"
  have A: "?A \<subseteq> simple_routes ?g s d" using cands_ok_routes [OF Cons.prems(1)] by auto
  have B: "fst ` set b \<subseteq> simple_routes ?g s d" using cands_ok_routes [OF Cons.prems(1)] by auto
  have i: "i + 1 < length prev" using Cons.prems(2) by simp
  have "\<exists>b1. spur_at ?g d a prev i b = Some b1 \<and> cands_ok ?g s d (a @ b1) \<and> set b \<subseteq> set b1 \<and>
      (inj_on path_key (simple_routes ?g s d) \<longrightarrow> (\<forall>p \<in> leaving ?g s d ?A prev i. covered ?g ?A (fst ` set b1) p i))"
    using spur_at_spec [OF A prev i, of b]
  proof
    assume "spur_at ?g d a prev i b = Some b \<and> leaving ?g s d ?A prev i = {}"
    then show ?thesis using Cons.prems(1) by simp
  next
    assume "\<exists>q \<in> leaving ?g s d ?A prev i. (\<forall>p \<in> leaving ?g s d ?A prev i. seq_cost ?g q \<le> seq_cost ?g p) \<and>
        spur_at ?g d a prev i b = Some (if \<not> contains_path a (q, seq_cost ?g q) \<and> \<not> contains_path b (q, seq_cost ?g q)
                then b @ [(q, seq_cost ?g q)] else b)"
    then obtain q where q: "q \<in> leaving ?g s d ?A prev i"
        "\<forall>p \<in> leaving ?g s d ?A prev i. seq_cost ?g q \<le> seq_cost ?g p"
        "spur_at ?g d a prev i b = Some (if \<not> contains_path a (q, seq_cost ?g q) \<and> \<not> contains_path b (q, seq_cost ?g q)
                then b @ [(q, seq_cost ?g q)] else b)" by blast
    let ?b1 = "if \<not> contains_path a (q, seq_cost ?g q) \<and> \<not> contains_path b (q, seq_cost ?g q)
                then b @ [(q, seq_cost ?g q)] else b"
    have r: "q \<in> simple_routes ?g s d" and root: "take (i + 1) q = take (i + 1) prev"
      and new: "\<forall>p \<in> ?A. take (i + 2) p \<noteq> take (i + 2) q" using q(1) by (auto simp: leaving_def)
    have "cands_ok ?g s d (a @ ?b1)"
    proof (cases "\<not> contains_path a (q, seq_cost ?g q) \<and> \<not> contains_path b (q, seq_cost ?g q)")
      case True
      then have "q \<notin> fst ` set a" "q \<notin> fst ` set b" using contains_path_fst by blast+
      then show ?thesis using True Cons.prems(1) r by (auto simp: cands_ok_def)
    qed (use Cons.prems(1) in auto)
    moreover have "covered ?g ?A (fst ` set ?b1) p i"
      if inj: "inj_on path_key (simple_routes ?g s d)" and p: "p \<in> leaving ?g s d ?A prev i" for p
    proof -
      have "q \<notin> ?A" using new by blast
      then have "q \<in> fst ` set ?b1"
        using contains_path_key [OF inj r A] contains_path_key [OF inj r B] by auto
      moreover have "take (i + 1) p = take (i + 1) prev" using p by (simp add: leaving_def)
      ultimately show ?thesis unfolding covered_def using root new q(2) p by (intro bexI [of _ q]) auto
    qed
    ultimately show ?thesis using q(3) by auto
  qed
  then obtain b1 where b1: "spur_at ?g d a prev i b = Some b1" "cands_ok ?g s d (a @ b1)" "set b \<subseteq> set b1"
      "inj_on path_key (simple_routes ?g s d) \<longrightarrow> (\<forall>p \<in> leaving ?g s d ?A prev i. covered ?g ?A (fst ` set b1) p i)"
    by blast
  obtain b' where b': "spurs ?g d a prev ks b1 = Some b'" "cands_ok ?g s d (a @ b')" "set b1 \<subseteq> set b'"
      "inj_on path_key (simple_routes ?g s d) \<longrightarrow>
       (\<forall>i \<in> set ks. \<forall>p \<in> leaving ?g s d ?A prev i. covered ?g ?A (fst ` set b') p i)"
    using Cons.IH [OF b1(2)] Cons.prems(2) by auto
  have "fst ` set b1 \<subseteq> fst ` set b'" using b'(3) by auto
  then show ?case using b1 b' covered_mono by (intro exI [of _ b']) auto
qed

lemma leaves_somewhere:
  assumes A: "A \<subseteq> simple_routes g s d" "A \<noteq> {}" and p: "p \<in> simple_routes g s d" "p \<notin> A"
  shows "\<exists>i. leaves_at A p i"
proof -
  let ?L = "{i. i < length p \<and> (\<exists>q \<in> A. take (i + 1) q = take (i + 1) p)}"
  obtain q0 where q0: "q0 \<in> A" using A(2) by blast
  have start: "take (0 + 1) q = [s]" if "q \<in> simple_routes g s d" for q
    using routeD(1,6) [OF that] by (cases q) auto
  have "take (0 + 1) q0 = take (0 + 1) p" using start [OF p(1)] start [of q0] q0 A(1) by (metis subsetD)
  moreover have "0 < length p" using routeD(1) [OF p(1)] by simp
  ultimately have zero: "0 \<in> ?L" using q0 by blast
  have fin: "finite ?L" by simp
  have m: "Max ?L \<in> ?L" by (rule Max_in [OF fin]) (use zero in blast)
  let ?i = "Max ?L"
  obtain q where q: "q \<in> A" "take (?i + 1) q = take (?i + 1) p" using m by blast
  have long: "?i + 1 < length p"
  proof (rule ccontr)
    assume "\<not> ?i + 1 < length p"
    then have tp: "take (?i + 1) q = p" using q(2) by simp
    have rq: "q \<in> simple_routes g s d" using q(1) A(1) by blast
    have dp: "d \<in> set p" using last_in_set [OF routeD(1) [OF p(1)]] routeD(4) [OF p(1)] by simp
    have "\<not> ?i + 1 < length q"
    proof
      assume "?i + 1 < length q"
      from route_prefix_target [OF rq this] show False unfolding tp using dp by contradiction
    qed
    then have "q = p" using tp by simp
    then show False using q(1) p(2) by simp
  qed
  have "take (?i + 2) q' \<noteq> take (?i + 2) p" if q': "q' \<in> A" for q'
  proof
    assume "take (?i + 2) q' = take (?i + 2) p"
    then have "take ((?i + 1) + 1) q' = take ((?i + 1) + 1) p" by simp
    then have "?i + 1 \<in> ?L" using q' long by blast
    then have "?i + 1 \<le> ?i" by (rule Max_ge [OF fin])
    then show False by linarith
  qed
  then show ?thesis unfolding leaves_at_def using q long by blast
qed

lemma leaves_at_leaving:
  "p \<in> simple_routes g s d \<Longrightarrow> leaves_at A p i \<Longrightarrow> take (i + 1) prev = take (i + 1) p \<Longrightarrow> p \<in> leaving g s d A prev i"
  by (auto simp: leaves_at_def leaving_def)

lemma cand_before_weak: "strict_weak cand_before"
proof -
  have eq: "cand_before = (\<lambda>p q. snd p < snd q \<or> (snd p = snd q \<and> str_less (path_key (fst p)) (path_key (fst q))))"
    by (auto simp: cand_before_def fun_eq_iff)
  show ?thesis unfolding eq by (rule strict_weak_lex [OF strict_weak_str])
qed

text \<open>What the loop keeps: everything not accepted costs at least what is, and is covered.\<close>

definition yen_inv :: "wgraph \<Rightarrow> string \<Rightarrow> string \<Rightarrow> cand_path list \<Rightarrow> cand_path list \<Rightarrow> bool" where
  "yen_inv g s d a b \<longleftrightarrow> sorted (map snd a) \<and>
     (\<forall>p \<in> simple_routes g s d. p \<notin> fst ` set a \<longrightarrow> (\<forall>c \<in> set a. snd c \<le> seq_cost g p)) \<and>
     (\<forall>p \<in> simple_routes g s d. \<forall>i. leaves_at (fst ` set a) p i \<longrightarrow> take (i + 1) (fst (last a)) \<noteq> take (i + 1) p \<longrightarrow>
        covered g (fst ` set a) (fst ` set b) p i)"

lemma spurs_cover:
  assumes inv: "yen_inv g s d a b" and sub: "fst ` set b \<subseteq> fst ` set b'"
    and prev: "fst (last a) \<in> simple_routes g s d"
    and new: "\<forall>i \<in> {0..<length (fst (last a)) - 1}. \<forall>p \<in> leaving g s d (fst ` set a) (fst (last a)) i.
        covered g (fst ` set a) (fst ` set b') p i"
    and p: "p \<in> simple_routes g s d" "leaves_at (fst ` set a) p i"
  shows "covered g (fst ` set a) (fst ` set b') p i"
proof (cases "take (i + 1) (fst (last a)) = take (i + 1) p")
  case True
  have "i + 1 < length (fst (last a))"
    using route_same_root [OF p(1) prev _ True] p(2) by (simp add: leaves_at_def)
  then show ?thesis using new leaves_at_leaving [OF p True] by simp
next
  case False
  then show ?thesis using inv p sub covered_mono unfolding yen_inv_def by blast
qed

lemma pick_inv:
  assumes ok: "cands_ok g s d (a @ b)" and ne: "a \<noteq> []" and srt: "sort_by cand_before b = c # cs"
    and inv: "yen_inv g s d a b0"
    and cov: "\<And>p i. p \<in> simple_routes g s d \<Longrightarrow> leaves_at (fst ` set a) p i \<Longrightarrow> covered g (fst ` set a) (fst ` set b) p i"
  shows "yen_inv g s d (a @ [c]) cs"
proof -
  let ?A = "fst ` set a"
  have A: "?A \<subseteq> simple_routes g s d" "?A \<noteq> {}" using cands_ok_routes [OF ok] ne by auto
  have bset: "set b = insert c (set cs)" using srt by (metis list.simps(15) set_sort_by)
  have cok: "fst c \<in> simple_routes g s d" "snd c = seq_cost g (fst c)" "fst c \<notin> ?A"
  proof -
    have "c \<in> set (a @ b)" using bset by simp
    then show "fst c \<in> simple_routes g s d" "snd c = seq_cost g (fst c)" using cands_okD [OF ok] by blast+
    show "fst c \<notin> ?A" using ok bset by (auto simp: cands_ok_def)
  qed
  have costs: "snd x = seq_cost g (fst x)" if "x \<in> set b" for x using ok that by (auto simp: cands_ok_def)
  have "sorted_wrt (\<lambda>x y. \<not> cand_before y x) (c # cs)" using sorted_sort_by [OF cand_before_weak, of b] srt by simp
  then have least: "snd c \<le> snd x" if "x \<in> set b" for x
    using that bset by (auto simp: cand_before_def split: if_splits)
  have low: "seq_cost g (fst c) \<le> seq_cost g p" if p: "p \<in> simple_routes g s d" "p \<notin> ?A" for p
  proof -
    obtain i where "leaves_at ?A p i" using leaves_somewhere [OF A p] by blast
    then have "covered g ?A (fst ` set b) p i" by (rule cov [OF p(1)])
    then obtain x where "x \<in> set b" "seq_cost g (fst x) \<le> seq_cost g p" unfolding covered_def by blast
    then show ?thesis using least costs cok(2) by fastforce
  qed
  have "sorted (map snd (a @ [c]))"
    using inv cok unfolding yen_inv_def by (auto simp: sorted_append)
  moreover have "snd x \<le> seq_cost g p" if "p \<in> simple_routes g s d" "p \<notin> fst ` set (a @ [c])" "x \<in> set (a @ [c])" for p x
    using that inv low cok(2) unfolding yen_inv_def by auto
  moreover have "covered g (fst ` set (a @ [c])) (fst ` set cs) p i"
    if p: "p \<in> simple_routes g s d" "leaves_at (fst ` set (a @ [c])) p i" "take (i + 1) (fst c) \<noteq> take (i + 1) p" for p i
  proof -
    have "leaves_at ?A p i" using p(2,3) by (auto simp: leaves_at_def)
    then have "covered g ?A (fst ` set b) p i" by (rule cov [OF p(1)])
    then obtain x where x: "x \<in> set b" "take (i + 1) (fst x) = take (i + 1) p"
        "\<forall>q \<in> ?A. take (i + 2) q \<noteq> take (i + 2) (fst x)" "seq_cost g (fst x) \<le> seq_cost g p"
      unfolding covered_def by blast
    have "x \<noteq> c" using x(2) p(3) by auto
    then have "x \<in> set cs" using x(1) bset by simp
    moreover have "take (i + 2) (fst c) \<noteq> take (i + 2) (fst x)"
    proof
      assume "take (i + 2) (fst c) = take (i + 2) (fst x)"
      then have "take (i + 1) (take (i + 2) (fst c)) = take (i + 1) (take (i + 2) (fst x))" by simp
      then show False using x(2) p(3) by (simp add: min_def)
    qed
    ultimately show ?thesis unfolding covered_def using x by (intro bexI [of _ "fst x"]) auto
  qed
  ultimately show ?thesis unfolding yen_inv_def by auto
qed

lemma yen_loop_spec:
  "cands_ok (new_wgraph snap) s d (a @ b) \<Longrightarrow> a \<noteq> [] \<Longrightarrow>
   (inj_on path_key (simple_routes (new_wgraph snap) s d) \<Longrightarrow> yen_inv (new_wgraph snap) s d a b) \<Longrightarrow>
   \<exists>ext. yen_loop n (new_wgraph snap) d a b = Some (a @ ext) \<and> cands_ok (new_wgraph snap) s d (a @ ext) \<and> length ext \<le> n \<and>
     (inj_on path_key (simple_routes (new_wgraph snap) s d) \<longrightarrow>
        sorted (map snd (a @ ext)) \<and>
        (\<forall>p \<in> simple_routes (new_wgraph snap) s d. p \<notin> fst ` set (a @ ext) \<longrightarrow>
           length ext = n \<and> (\<forall>c \<in> set (a @ ext). snd c \<le> seq_cost (new_wgraph snap) p)))"
proof (induction n arbitrary: a b)
  case 0
  then show ?case by (intro exI [of _ "[]"]) (auto simp: cands_ok_def yen_inv_def)
next
  case (Suc n)
  let ?g = "new_wgraph snap" and ?prev = "fst (last a)"
  have prev: "?prev \<in> simple_routes ?g s d" using Suc.prems(1,2) cands_ok_routes by fastforce
  have range: "\<forall>i \<in> set [0..<length ?prev - 1]. i + 1 < length ?prev" by auto
  obtain b' where b': "spurs ?g d a ?prev [0..<length ?prev - 1] b = Some b'" "cands_ok ?g s d (a @ b')" "set b \<subseteq> set b'"
      "inj_on path_key (simple_routes ?g s d) \<longrightarrow>
       (\<forall>i \<in> set [0..<length ?prev - 1]. \<forall>p \<in> leaving ?g s d (fst ` set a) ?prev i. covered ?g (fst ` set a) (fst ` set b') p i)"
    using spurs_spec [OF Suc.prems(1) prev range] by blast
  have cov: "covered ?g (fst ` set a) (fst ` set b') p i"
    if "inj_on path_key (simple_routes ?g s d)" "p \<in> simple_routes ?g s d" "leaves_at (fst ` set a) p i" for p i
    by (rule spurs_cover [OF Suc.prems(3) _ prev]) (use that b' in auto)
  show ?case
  proof (cases "sort_by cand_before b'")
    case Nil
    then have "b' = []" by (metis length_0_conv length_sort_by)
    then have "p \<in> fst ` set a" if "inj_on path_key (simple_routes ?g s d)" "p \<in> simple_routes ?g s d" for p
      using leaves_somewhere [OF _ _ that(2), of "fst ` set a"] cov [OF that] cands_ok_routes [OF b'(2)] Suc.prems(2)
      by (auto simp: covered_def)
    moreover have "yen_loop (Suc n) ?g d a b = Some a" using b'(1) Nil by simp
    ultimately show ?thesis using Suc.prems by (intro exI [of _ "[]"]) (auto simp: cands_ok_def yen_inv_def)
  next
    case (Cons c cs)
    have run: "yen_loop (Suc n) ?g d a b = yen_loop n ?g d (a @ [c]) cs" using b'(1) Cons by simp
    have ms: "mset b' = add_mset c (mset cs)" using Cons by (metis mset.simps(2) mset_sort_by)
    then have ms': "mset (a @ b') = mset ((a @ [c]) @ cs)" by simp
    have sets: "set (a @ b') = set ((a @ [c]) @ cs)" by (rule mset_eq_setD [OF ms'])
    have "mset (map fst (a @ b')) = mset (map fst ((a @ [c]) @ cs))" unfolding mset_map by (simp only: ms')
    from mset_eq_imp_distinct_iff [OF this] have "distinct (map fst ((a @ [c]) @ cs))"
      using b'(2) by (simp only: cands_ok_def)
    note sets this
    then have ok: "cands_ok ?g s d ((a @ [c]) @ cs)" using b'(2) unfolding cands_ok_def sets by simp
    have "yen_inv ?g s d (a @ [c]) cs" if "inj_on path_key (simple_routes ?g s d)"
      by (rule pick_inv [OF b'(2) Suc.prems(2) Cons Suc.prems(3) cov]) (use that in auto)
    from Suc.IH [OF ok _ this] obtain ext where
      "yen_loop n ?g d (a @ [c]) cs = Some ((a @ [c]) @ ext)" "cands_ok ?g s d ((a @ [c]) @ ext)" "length ext \<le> n"
      "inj_on path_key (simple_routes ?g s d) \<longrightarrow> sorted (map snd ((a @ [c]) @ ext)) \<and>
        (\<forall>p \<in> simple_routes ?g s d. p \<notin> fst ` set ((a @ [c]) @ ext) \<longrightarrow>
           length ext = n \<and> (\<forall>c \<in> set ((a @ [c]) @ ext). snd c \<le> seq_cost ?g p))"
      by auto
    then show ?thesis using run by (intro exI [of _ "c # ext"]) auto
  qed
qed

lemma route_nodes_in:
  assumes q: "q \<in> simple_routes (new_wgraph snap) s d" and x: "x \<in> set q" and ne: "s \<noteq> d"
  shows "\<exists>e \<in> set (sn_edges snap). x = e_from e \<or> x = e_to e"
proof -
  have pair: "seq_ok (new_wgraph snap) sq \<Longrightarrow> 1 < length sq \<Longrightarrow> y \<in> set sq \<Longrightarrow>
      \<exists>e \<in> set (sn_edges snap). y = e_from e \<or> y = e_to e" for sq y
  proof (induction "new_wgraph snap" sq rule: seq_ok.induct)
    case (1 u v sq)
    then obtain e where e: "e \<in> set (sn_edges snap)" "e_from e = u" "e_to e = v"
      using wg_edge_None [of snap u v] by auto
    show ?case
    proof (cases "y = u \<or> y = v")
      case True
      then show ?thesis using e by auto
    next
      case False
      then have "y \<in> set (v # sq)" "1 < length (v # sq)" using "1.prems" by (auto simp: length_pos_if_in_set)
      then show ?thesis using 1 by auto
    qed
  qed auto
  have "1 < length q"
  proof (rule ccontr)
    assume "\<not> 1 < length q"
    then have "length q = 1" using routeD(1) [OF q] by (cases q) auto
    then have "hd q = last q" by (cases q) auto
    then show False using routeD(3,4) [OF q] ne by simp
  qed
  then show ?thesis using pair routeD(2) [OF q] x by blast
qed

lemma keys_inj:
  assumes "s \<noteq> d" "\<forall>e \<in> set (sn_edges snap). CHR ''>'' \<notin> set (e_from e) \<and> CHR ''>'' \<notin> set (e_to e)"
  shows "inj_on path_key (simple_routes (new_wgraph snap) s d)"
proof (rule inj_onI)
  fix p q
  assume p: "p \<in> simple_routes (new_wgraph snap) s d" and q: "q \<in> simple_routes (new_wgraph snap) s d"
    and eq: "path_key p = path_key q"
  have "CHR ''>'' \<notin> set x" if "x \<in> set r" "r \<in> simple_routes (new_wgraph snap) s d" for x r
    using route_nodes_in [OF that(2,1) assms(1)] assms(2) by blast
  then have "split_on CHR ''>'' (path_key r) = r" if "r \<in> simple_routes (new_wgraph snap) s d" for r
    using that routeD(1) [OF that] unfolding path_key_def by (intro split_on_join) auto
  then show "p = q" using p q eq by metis
qed

lemma k_shortest_result:
  "\<exists>cs. k_shortest (new_wgraph snap) s d k = Some cs \<and> cands_ok (new_wgraph snap) s d cs \<and>
     length cs \<le> nat (max 1 k) \<and>
     (cs = [] \<longleftrightarrow> simple_routes (new_wgraph snap) s d = {}) \<and>
     (cs \<noteq> [] \<longrightarrow> (\<forall>p \<in> simple_routes (new_wgraph snap) s d. snd (hd cs) \<le> seq_cost (new_wgraph snap) p)) \<and>
     (inj_on path_key (simple_routes (new_wgraph snap) s d) \<longrightarrow>
        sorted (map snd cs) \<and>
        (\<forall>p \<in> simple_routes (new_wgraph snap) s d. p \<notin> fst ` set cs \<longrightarrow>
           length cs = nat (max 1 k) \<and> (\<forall>c \<in> set cs. snd c \<le> seq_cost (new_wgraph snap) p)))"
proof -
  let ?g = "new_wgraph snap"
  have open_all: "seq_open {} {} sq" for sq
    by (induction "{} :: string set" "{} :: (string \<times> string) set" sq rule: seq_open.induct) auto
  have one: "nat (max 1 k) - 1 = (if k \<le> 0 then 1 else nat k) - 1" by (auto simp: max_def)
  have "s \<notin> {}" "d \<notin> {}" by simp_all
  from shortest_spec [OF this, of snap "{}"] show ?thesis
  proof (elim disjE)
    assume "shortest ?g s d {} {} = Some None \<and> (\<forall>sq. sq \<in> simple_routes ?g s d \<longrightarrow> \<not> seq_open {} {} sq)"
    then have "k_shortest ?g s d k = Some []" "simple_routes ?g s d = {}" using open_all by (auto simp: k_shortest_def)
    then show ?thesis by (intro exI [of _ "[]"]) (simp add: cands_ok_def)
  next
    assume "\<exists>sq. shortest ?g s d {} {} = Some (Some (sq, seq_cost ?g sq)) \<and> sq \<in> simple_routes ?g s d \<and> seq_open {} {} sq \<and>
        (\<forall>sq'. sq' \<in> simple_routes ?g s d \<longrightarrow> seq_open {} {} sq' \<longrightarrow> seq_cost ?g sq \<le> seq_cost ?g sq')"
    then obtain sq where sq: "shortest ?g s d {} {} = Some (Some (sq, seq_cost ?g sq))" "sq \<in> simple_routes ?g s d"
        "\<forall>sq'. sq' \<in> simple_routes ?g s d \<longrightarrow> seq_cost ?g sq \<le> seq_cost ?g sq'" using open_all by blast
    let ?n = "nat (max 1 k) - 1" and ?first = "(sq, seq_cost ?g sq)"
    have run: "k_shortest ?g s d k = yen_loop ?n ?g d [?first] []" using sq(1) by (simp add: k_shortest_def one Let_def)
    have ok: "cands_ok ?g s d ([?first] @ [])" using sq(2) by (simp add: cands_ok_def)
    have inv: "yen_inv ?g s d [?first] []" using sq(3) by (auto simp: yen_inv_def leaves_at_def)
    obtain ext where ext: "yen_loop ?n ?g d [?first] [] = Some ([?first] @ ext)" "cands_ok ?g s d ([?first] @ ext)" "length ext \<le> ?n"
      "inj_on path_key (simple_routes ?g s d) \<longrightarrow> sorted (map snd ([?first] @ ext)) \<and>
        (\<forall>p \<in> simple_routes ?g s d. p \<notin> fst ` set ([?first] @ ext) \<longrightarrow>
           length ext = ?n \<and> (\<forall>c \<in> set ([?first] @ ext). snd c \<le> seq_cost ?g p))"
      using yen_loop_spec [OF ok _ inv, of ?n] by blast
    have "0 < nat (max 1 k)" by (simp add: max_def)
    then have len: "length ([?first] @ ext) \<le> nat (max 1 k)"
      "length ext = ?n \<Longrightarrow> length ([?first] @ ext) = nat (max 1 k)" using ext(3) by auto
    show ?thesis
    proof (intro exI [of _ "[?first] @ ext"] conjI)
      show "inj_on path_key (simple_routes ?g s d) \<longrightarrow> sorted (map snd ([?first] @ ext)) \<and>
        (\<forall>p \<in> simple_routes ?g s d. p \<notin> fst ` set ([?first] @ ext) \<longrightarrow>
           length ([?first] @ ext) = nat (max 1 k) \<and> (\<forall>c \<in> set ([?first] @ ext). snd c \<le> seq_cost ?g p))"
        using ext(4) len(2) by blast
    qed (use run ext len sq in auto)
  qed
qed

lemma seq_cost_prob: "route (sn_edges snap) s es d \<Longrightarrow> seq_ok (new_wgraph snap) (route_nodes s es) \<and>
    seq_cost (new_wgraph snap) (route_nodes s es) \<le> - ln (route_prob es)"
proof (induction es arbitrary: s)
  case Nil
  then show ?case by (simp add: route_nodes_def route_prob_def)
next
  case (Cons e es)
  then obtain oe where oe: "wg_edge (new_wgraph snap) s (e_to e) = Some oe"
    using wg_edge_None [of snap s "e_to e"] by auto
  obtain f where f: "oe = out_edge_of (node_by_id snap) f" "clamp_prob (e_prob e) \<le> clamp_prob (e_prob f)"
    using wg_edge_SomeD [OF oe] Cons.prems by auto
  have pos: "0 < clamp_prob (e_prob x)" for x using clamp_prob_range by blast
  then have "ln (clamp_prob (e_prob e)) \<le> ln (clamp_prob (e_prob f))" using f(2) ln_le_cancel_iff by blast
  then have "oe_weight oe \<le> - ln (clamp_prob (e_prob e))" using f(1) by simp
  moreover have "ln (route_prob (e # es)) = ln (clamp_prob (e_prob e)) + ln (route_prob es)"
    using pos [of e] route_prob_pos [of es] by (simp add: route_prob_def ln_mult)
  ultimately show ?case using Cons oe by (force simp: route_nodes_def)
qed

section \<open>Properties\<close>

text \<open>
  C2. Yen's algorithm is complete: when no node id holds the separator of \<open>pathKey\<close>, \<open>kShortest\<close>
  returns, cheapest first, simple routes none of which is dearer than a simple route it leaves
  out; it leaves one out only when it returns all the \<open>k\<close> it was asked for.
\<close>

theorem k_shortest_complete:
  assumes "s \<noteq> d" "\<forall>e \<in> set (sn_edges snap). CHR ''>'' \<notin> set (e_from e) \<and> CHR ''>'' \<notin> set (e_to e)"
  shows "\<exists>cs. k_shortest (new_wgraph snap) s d k = Some cs \<and> sorted (map snd cs) \<and> distinct (map fst cs) \<and>
     fst ` set cs \<subseteq> simple_routes (new_wgraph snap) s d \<and>
     (\<forall>p \<in> simple_routes (new_wgraph snap) s d - fst ` set cs.
        length cs = nat (max 1 k) \<and> (\<forall>c \<in> set cs. snd c \<le> seq_cost (new_wgraph snap) p))"
proof -
  obtain cs where "k_shortest (new_wgraph snap) s d k = Some cs" "cands_ok (new_wgraph snap) s d cs"
    "sorted (map snd cs)"
    "\<forall>p \<in> simple_routes (new_wgraph snap) s d. p \<notin> fst ` set cs \<longrightarrow>
        length cs = nat (max 1 k) \<and> (\<forall>c \<in> set cs. snd c \<le> seq_cost (new_wgraph snap) p)"
    using k_shortest_result [of snap s d k] keys_inj [OF assms] by blast
  then show ?thesis using cands_ok_routes by (intro exI [of _ cs]) (auto simp: cands_ok_def)
qed

theorem k_shortest_complete_witness:
  "\<exists>cs. k_shortest (new_wgraph demo_snapshot) ''web'' ''db'' 2 = Some cs \<and> sorted (map snd cs) \<and>
     fst ` set cs \<subseteq> simple_routes (new_wgraph demo_snapshot) ''web'' ''db''"
proof -
  have "\<forall>e \<in> set (sn_edges demo_snapshot). CHR ''>'' \<notin> set (e_from e) \<and> CHR ''>'' \<notin> set (e_to e)"
    by (simp add: demo_snapshot_def)
  from k_shortest_complete [OF _ this, of "''web''" "''db''" 2] show ?thesis by auto
qed

text \<open>
  Whatever the ids, \<open>kShortest\<close> ends without an index out of range and is sound: it returns at
  most \<open>k\<close> simple routes (one when \<open>k\<close> is not positive), no two the same, each with its cost; the
  list is empty exactly when there is no route, and its first route is a cheapest one.
\<close>

theorem k_shortest_sound:
  "\<exists>cs. k_shortest (new_wgraph snap) s d k = Some cs \<and> length cs \<le> nat (max 1 k) \<and> distinct (map fst cs) \<and>
     fst ` set cs \<subseteq> simple_routes (new_wgraph snap) s d \<and> map snd cs = map (seq_cost (new_wgraph snap) \<circ> fst) cs \<and>
     (if cs = [] then simple_routes (new_wgraph snap) s d = {}
      else simple_routes (new_wgraph snap) s d \<subseteq> {p. snd (hd cs) \<le> seq_cost (new_wgraph snap) p})"
proof -
  obtain cs where cs: "k_shortest (new_wgraph snap) s d k = Some cs" "cands_ok (new_wgraph snap) s d cs"
    "length cs \<le> nat (max 1 k)" "cs = [] \<longleftrightarrow> simple_routes (new_wgraph snap) s d = {}"
    "cs \<noteq> [] \<longrightarrow> (\<forall>p \<in> simple_routes (new_wgraph snap) s d. snd (hd cs) \<le> seq_cost (new_wgraph snap) p)"
    using k_shortest_result [of snap s d k] by blast
  have "map snd cs = map (seq_cost (new_wgraph snap) \<circ> fst) cs" using cands_okD [OF cs(2)] by auto
  moreover have "fst ` set cs \<subseteq> simple_routes (new_wgraph snap) s d" by (rule cands_ok_routes [OF cs(2)])
  moreover have "distinct (map fst cs)" using cs(2) by (simp add: cands_ok_def)
  ultimately show ?thesis using cs by (intro exI [of _ cs]) auto
qed

text \<open>
  \<open>KShortestToTarget\<close> and \<open>FindCriticalPaths\<close> start from the same entry points when no id is
  listed twice, whatever the snapshot; with a duplicate they may not, because the first reads
  the node's first listing and the second its last.
\<close>

theorem k_seeds_agree:
  assumes "distinct (map n_id (sn_nodes snap))"
  shows "k_seeds {} (sn_nodes snap) = snap_seeds snap"
proof -
  have same: "node_at (node_by_id snap) (n_id n) = n" if "n \<in> set (sn_nodes snap)" for n
  proof -
    have "node_at (node_by_id snap) (n_id n) \<in> set (sn_nodes snap)" "n_id (node_at (node_by_id snap) (n_id n)) = n_id n"
      using node_at_listed that by blast+
    then show ?thesis using assms that by (metis distinct_map inj_onD)
  qed
  have "set ns \<subseteq> set (sn_nodes snap) \<Longrightarrow> distinct (map n_id ns) \<Longrightarrow> listed \<inter> n_id ` set ns = {} \<Longrightarrow>
      k_seeds listed ns = filter (\<lambda>i. is_seed (node_at (node_by_id snap) i)) (listed_ids listed ns)" for listed ns
  proof (induction listed ns rule: k_seeds.induct)
    case (2 listed n ns)
    then show ?case using same [of n] by auto
  qed simp
  then show ?thesis using assms by (simp add: snap_seeds_def)
qed

theorem k_seeds_agree_witness: "k_seeds {} (sn_nodes demo_snapshot) = [''web'']"
  using k_seeds_agree [of demo_snapshot] demo_facts by (simp add: demo_snapshot_def)

text \<open>A duplicated id on which they differ.\<close>

lemma k_seeds_duplicate:
  "let snap = \<lparr>sn_nodes = [\<lparr>n_id = ''a'', n_label = label_vm, n_name = [], n_props = [(prop_internet_exposed, GBool True)]\<rparr>,
                          \<lparr>n_id = ''a'', n_label = label_vm, n_name = [], n_props = []\<rparr>], sn_edges = []\<rparr>
   in k_seeds {} (sn_nodes snap) = [''a''] \<and> snap_seeds snap = []"
  by (simp add: snap_seeds_def node_by_id_def node_at_def is_seed_def internet_exposed_def node_bool_def pget_def)

end
