(* ===== verification/Monte_Carlo.thy ===== *)
theory Monte_Carlo
  imports Attack_Path "HOL-Library.While_Combinator"
begin

text \<open>
  The risk simulation, \<open>backend/internal/analyzer/montecarlo.go\<close>: the 64-bit draws, the compiled graph, one trial as a depth-first search on
  generation stamps, the point estimate. A trial is proved to compute reachability over the
  edges its draws keep; the draw of an edge depends on the trial and the edge alone, which is
  what makes the runs before and after a cut comparable. The credible band and the attacker
  mixture are in \<open>Risk_Simulation\<close>.
\<close>

section \<open>Draws\<close>

type_synonym u64 = "64 word"

definition fnv64_byte :: "char \<Rightarrow> u64 \<Rightarrow> u64" where
  "fnv64_byte c h = (h XOR of_nat (of_char c)) * 1099511628211"

definition fnv64 :: "string list \<Rightarrow> u64" where
  "fnv64 parts = fold (\<lambda>s h. fold fnv64_byte s h * 1099511628211) parts 14695981039346656037"

definition mix64 :: "u64 \<Rightarrow> u64" where
  "mix64 z0 =
     (let z = (z0 XOR drop_bit 30 z0) * 0xbf58476d1ce4e5b9;
          z = (z XOR drop_bit 27 z) * 0x94d049bb133111eb
      in z XOR drop_bit 31 z)"

definition unit :: "u64 \<Rightarrow> real" where
  "unit x = real (unat (drop_bit 11 x)) / 2 ^ 53"

definition edge_key64 :: "edge \<Rightarrow> u64" where
  "edge_key64 e = mix64 (fnv64 [e_from e, e_to e, e_type e])"

definition cause_key :: "string \<Rightarrow> u64" where
  "cause_key name = mix64 (fnv64 [''cause'', name])"

definition stream_trials :: u64 where "stream_trials = 0"

definition trial_key :: "u64 \<Rightarrow> u64 \<Rightarrow> u64 \<Rightarrow> u64 \<Rightarrow> u64" where
  "trial_key seed stream outer trial =
     (let h = mix64 (seed + (stream + 1) * 0x9e3779b97f4a7c15);
          h = mix64 (h + (outer + 1) * 0xbf58476d1ce4e5b9)
      in mix64 (h + (trial + 1) * 0x94d049bb133111eb))"

section \<open>The compiled graph\<close>

text \<open>Indices are \<open>int32\<close> in the code, which stays far below their bound; here they are naturals.\<close>

record mc_graph =
  mc_nodes :: "(string, node) gomap"
  mc_ids :: "string list"
  mc_index :: "(string, nat) gomap"
  mc_seeds :: "nat list"
  mc_jewels :: "nat list"
  mc_edge_only :: "bool list"
  mc_adj :: "nat list list"
  mc_to :: "nat list"
  mc_key :: "u64 list"
  mc_p :: "real list"
  mc_conf :: "real list"
  mc_basis :: "string list"
  mc_evid :: "int list"

definition mc_intern :: "string \<Rightarrow> mc_graph \<Rightarrow> nat \<times> mc_graph" where
  "mc_intern s g =
     (case map_of (mc_index g) s of
        Some i \<Rightarrow> (i, g)
      | None \<Rightarrow> (let i = length (mc_ids g)
                 in (i, g\<lparr>mc_index := AList.update s i (mc_index g), mc_ids := mc_ids g @ [s],
                         mc_adj := mc_adj g @ [[]]\<rparr>)))"

definition draw_key :: "(string, node) gomap \<Rightarrow> edge \<Rightarrow> u64" where
  "draw_key nodes e =
     (let name = weight_cause_of e (node_at nodes (e_to e))
      in if name \<noteq> [] then cause_key name else edge_key64 e)"

definition mc_add_edge :: "edge \<Rightarrow> mc_graph \<Rightarrow> mc_graph" where
  "mc_add_edge e g0 =
     (let (from, g1) = mc_intern (e_from e) g0; (to, g) = mc_intern (e_to e) g1;
          (basis, conf, evid) = weight_basis_of e (node_at (mc_nodes g) (e_from e)) (node_at (mc_nodes g) (e_to e));
          eid = length (mc_to g)
      in g\<lparr>mc_to := mc_to g @ [to], mc_key := mc_key g @ [draw_key (mc_nodes g) e],
           mc_p := mc_p g @ [clamp_prob (e_prob e)], mc_conf := mc_conf g @ [conf],
           mc_basis := mc_basis g @ [basis], mc_evid := mc_evid g @ [evid],
           mc_adj := (mc_adj g)[from := mc_adj g ! from @ [eid]]\<rparr>)"

definition index_at :: "mc_graph \<Rightarrow> string \<Rightarrow> nat" where
  "index_at g s = (case map_of (mc_index g) s of Some i \<Rightarrow> i | None \<Rightarrow> 0)"

fun mc_mark :: "nat set \<Rightarrow> node list \<Rightarrow> mc_graph \<Rightarrow> mc_graph" where
  "mc_mark counted [] g = g"
| "mc_mark counted (n # ns) g =
     (let i = index_at g (n_id n)
      in if i \<in> counted then mc_mark counted ns g
         else (let v = node_at (mc_nodes g) (n_id n);
                   g = (if is_seed v then g\<lparr>mc_seeds := mc_seeds g @ [i]\<rparr> else g);
                   g = (if is_jewel v
                        then g\<lparr>mc_jewels := mc_jewels g @ [i],
                               mc_edge_only := (mc_edge_only g)[i := is_seed v \<and> \<not> held_by_attacker v]\<rparr>
                        else g)
               in mc_mark (insert i counted) ns g))"

definition mc_empty :: "snapshot \<Rightarrow> mc_graph" where
  "mc_empty snap = \<lparr>mc_nodes = node_by_id snap, mc_ids = [], mc_index = [], mc_seeds = [], mc_jewels = [],
     mc_edge_only = [], mc_adj = [], mc_to = [], mc_key = [], mc_p = [], mc_conf = [], mc_basis = [], mc_evid = []\<rparr>"

definition compile_graph :: "snapshot \<Rightarrow> mc_graph" where
  "compile_graph snap =
     (let g = fold (\<lambda>n g. snd (mc_intern (n_id n) g)) (sn_nodes snap) (mc_empty snap);
          g = fold mc_add_edge (sn_edges snap) g;
          g = g\<lparr>mc_edge_only := replicate (length (mc_ids g)) False\<rparr>
      in mc_mark {} (sn_nodes snap) g)"

section \<open>One trial\<close>

type_synonym u32gen = "32 word"

record trials =
  tr_gen :: u32gen
  tr_visited :: "u32gen list"
  tr_hit :: "u32gen list"

definition new_trials :: "mc_graph \<Rightarrow> trials" where
  "new_trials g = \<lparr>tr_gen = 0, tr_visited = replicate (length (mc_ids g)) 0, tr_hit = replicate (length (mc_ids g)) 0\<rparr>"

text \<open>The draw keeps the edge in this trial.\<close>

definition kept :: "u64 \<Rightarrow> u64 \<Rightarrow> real \<Rightarrow> bool" where
  "kept key k p \<longleftrightarrow> \<not> unit (mix64 (key XOR k)) \<ge> p"

text \<open>Stamps, hits and the stack of the walk; the top of the stack is the head of the list.\<close>

type_synonym walk_state = "u32gen list \<times> u32gen list \<times> nat list"

definition cross :: "mc_graph \<Rightarrow> real list \<Rightarrow> u64 \<Rightarrow> u32gen \<Rightarrow> nat \<Rightarrow> nat \<Rightarrow> walk_state \<Rightarrow> walk_state" where
  "cross g prob key gen cur e = (\<lambda>(vis, hit, stk).
     let to = mc_to g ! e; seen = (vis ! to = gen)
     in if to = cur then (vis, hit, stk)
        else if seen \<and> \<not> (mc_edge_only g ! to \<and> hit ! to \<noteq> gen) then (vis, hit, stk)
        else if \<not> kept key (mc_key g ! e) (prob ! e) then (vis, hit, stk)
        else (let hit = (if mc_edge_only g ! to then hit[to := gen] else hit)
              in if seen then (vis, hit, stk) else (vis[to := gen], hit, to # stk)))"

definition walk_step :: "mc_graph \<Rightarrow> real list \<Rightarrow> u64 \<Rightarrow> u32gen \<Rightarrow> walk_state \<Rightarrow> walk_state" where
  "walk_step g prob key gen = (\<lambda>(vis, hit, stk).
     fold (cross g prob key gen (hd stk)) (mc_adj g ! hd stk) (vis, hit, tl stk))"

definition walk_start :: "mc_graph \<Rightarrow> u32gen \<Rightarrow> u32gen list \<Rightarrow> u32gen list \<Rightarrow> walk_state" where
  "walk_start g gen vis hit =
     fold (\<lambda>s (vis, hit, stk). if vis ! s \<noteq> gen then (vis[s := gen], hit, s # stk) else (vis, hit, stk))
       (mc_seeds g) (vis, hit, [])"

text \<open>The new generation; when the counter wraps, the stamps are cleared first.\<close>

definition next_gen :: "trials \<Rightarrow> trials" where
  "next_gen t =
     (let gen = tr_gen t + 1
      in if gen = 0 then \<lparr>tr_gen = 1, tr_visited = replicate (length (tr_visited t)) 0,
                          tr_hit = replicate (length (tr_hit t)) 0\<rparr>
         else t\<lparr>tr_gen := gen\<rparr>)"

definition run_trial :: "mc_graph \<Rightarrow> u64 \<Rightarrow> real list \<Rightarrow> trials \<Rightarrow> trials option" where
  "run_trial g key prob t0 =
     (let t = next_gen t0; gen = tr_gen t
      in case while_option (\<lambda>(vis, hit, stk). stk \<noteq> []) (walk_step g prob key gen)
                (walk_start g gen (tr_visited t) (tr_hit t)) of
           None \<Rightarrow> None
         | Some (vis, hit, _) \<Rightarrow> Some \<lparr>tr_gen = gen, tr_visited = vis, tr_hit = hit\<rparr>)"

definition reached :: "mc_graph \<Rightarrow> trials \<Rightarrow> nat \<Rightarrow> bool" where
  "reached g t j = (if mc_edge_only g ! j then tr_hit t ! j = tr_gen t else tr_visited t ! j = tr_gen t)"

section \<open>What a trial computes\<close>

text \<open>A graph as \<open>compileGraph\<close> builds it: every index in range.\<close>

definition mc_ok :: "mc_graph \<Rightarrow> bool" where
  "mc_ok g \<longleftrightarrow> length (mc_adj g) = length (mc_ids g) \<and> length (mc_edge_only g) = length (mc_ids g) \<and>
     (\<forall>u < length (mc_ids g). \<forall>e \<in> set (mc_adj g ! u). e < length (mc_to g)) \<and>
     (\<forall>v \<in> set (mc_to g). v < length (mc_ids g)) \<and> (\<forall>s \<in> set (mc_seeds g). s < length (mc_ids g)) \<and>
     (\<forall>j \<in> set (mc_jewels g). j < length (mc_ids g))"

text \<open>An edge the draws of the trial keep, and the nodes such edges lead to from the seeds.\<close>

definition mc_link :: "mc_graph \<Rightarrow> u64 \<Rightarrow> real list \<Rightarrow> nat \<Rightarrow> nat \<Rightarrow> bool" where
  "mc_link g key prob u v \<longleftrightarrow> u < length (mc_ids g) \<and> v \<noteq> u \<and>
     (\<exists>e \<in> set (mc_adj g ! u). mc_to g ! e = v \<and> kept key (mc_key g ! e) (prob ! e))"

definition mc_reach :: "mc_graph \<Rightarrow> u64 \<Rightarrow> real list \<Rightarrow> nat set" where
  "mc_reach g key prob = {v. \<exists>s \<in> set (mc_seeds g). (mc_link g key prob)\<^sup>*\<^sup>* s v}"

definition mc_compromised :: "mc_graph \<Rightarrow> u64 \<Rightarrow> real list \<Rightarrow> nat \<Rightarrow> bool" where
  "mc_compromised g key prob j \<longleftrightarrow>
     (if mc_edge_only g ! j then \<exists>u \<in> mc_reach g key prob. mc_link g key prob u j else j \<in> mc_reach g key prob)"

subsection \<open>The walk\<close>

definition walk_inv :: "mc_graph \<Rightarrow> real list \<Rightarrow> u64 \<Rightarrow> u32gen \<Rightarrow> (nat \<times> nat) set \<Rightarrow> walk_state \<Rightarrow> bool" where
  "walk_inv g prob key gen D = (\<lambda>(vis, hit, stk).
     length vis = length (mc_ids g) \<and> length hit = length (mc_ids g) \<and>
     (\<forall>s \<in> set (mc_seeds g). vis ! s = gen) \<and>
     (\<forall>v < length (mc_ids g). vis ! v = gen \<longrightarrow> v \<in> mc_reach g key prob) \<and>
     (\<forall>v \<in> set stk. v < length (mc_ids g) \<and> vis ! v = gen) \<and>
     (\<forall>v < length (mc_ids g). hit ! v = gen \<longrightarrow>
        mc_edge_only g ! v \<and> (\<exists>u \<in> mc_reach g key prob. mc_link g key prob u v)) \<and>
     (\<forall>(u, e) \<in> D. mc_to g ! e \<noteq> u \<longrightarrow> kept key (mc_key g ! e) (prob ! e) \<longrightarrow>
        vis ! (mc_to g ! e) = gen \<and> (mc_edge_only g ! (mc_to g ! e) \<longrightarrow> hit ! (mc_to g ! e) = gen)))"

definition unseen :: "mc_graph \<Rightarrow> u32gen \<Rightarrow> walk_state \<Rightarrow> nat" where
  "unseen g gen = (\<lambda>(vis, hit, stk). card {v. v < length (mc_ids g) \<and> vis ! v \<noteq> gen} + length stk)"

lemma mc_reach_link: "u \<in> mc_reach g key prob \<Longrightarrow> mc_link g key prob u v \<Longrightarrow> v \<in> mc_reach g key prob"
  unfolding mc_reach_def by (auto intro: rtranclp.rtrancl_into_rtrancl)

lemma cross_inv:
  assumes ok: "mc_ok g" and I: "walk_inv g prob key gen D (vis, hit, stk)"
    and cur: "cur < length (mc_ids g)" "cur \<in> mc_reach g key prob" "e \<in> set (mc_adj g ! cur)"
    and st: "cross g prob key gen cur e (vis, hit, stk) = (vis', hit', stk')"
  shows "walk_inv g prob key gen (insert (cur, e) D) (vis', hit', stk') \<and>
     unseen g gen (vis', hit', stk') = unseen g gen (vis, hit, stk) \<and> set stk \<subseteq> set stk' \<and>
     (\<forall>v < length (mc_ids g). vis' ! v = gen \<longrightarrow> vis ! v = gen \<or> v \<in> set stk')"
proof -
  let ?n = "length (mc_ids g)" and ?to = "mc_to g ! e"
  have e: "e < length (mc_to g)" using ok cur by (auto simp: mc_ok_def)
  then have to: "?to < ?n" using ok by (auto simp: mc_ok_def)
  have len: "length vis = ?n" "length hit = ?n" using I by (auto simp: walk_inv_def)
  consider (skip) "vis' = vis" "hit' = hit" "stk' = stk"
      "?to = cur \<or> \<not> kept key (mc_key g ! e) (prob ! e) \<or> (vis ! ?to = gen \<and> (mc_edge_only g ! ?to \<longrightarrow> hit ! ?to = gen))"
    | (mark) "?to \<noteq> cur" "kept key (mc_key g ! e) (prob ! e)" "mc_edge_only g ! ?to" "vis ! ?to = gen"
      "vis' = vis" "hit' = hit[?to := gen]" "stk' = stk"
    | (push) "?to \<noteq> cur" "kept key (mc_key g ! e) (prob ! e)" "vis ! ?to \<noteq> gen" "vis' = vis[?to := gen]"
      "hit' = (if mc_edge_only g ! ?to then hit[?to := gen] else hit)" "stk' = ?to # stk"
    using st unfolding cross_def Let_def by (auto split: if_splits)
  then show ?thesis
  proof cases
    case skip
    then show ?thesis using I unfolding walk_inv_def by auto
  next
    case mark
    have link: "mc_link g key prob cur ?to" unfolding mc_link_def using cur mark by blast
    have hit: "hit' ! v = (if v = ?to then gen else hit ! v)" if "v < ?n" for v using mark len that by simp
    have "walk_inv g prob key gen (insert (cur, e) D) (vis', hit', stk')"
      using I mark link cur(2) len to unfolding walk_inv_def
      by (auto simp: nth_list_update)
    then show ?thesis using mark by (simp add: unseen_def)
  next
    case push
    have link: "mc_link g key prob cur ?to" unfolding mc_link_def using cur push by blast
    have r: "?to \<in> mc_reach g key prob" using mc_reach_link [OF cur(2) link] .
    have v: "vis' ! v = (if v = ?to then gen else vis ! v)" if "v < ?n" for v using push len that by simp
    have seeds: "s < ?n" if "s \<in> set (mc_seeds g)" for s using ok that by (auto simp: mc_ok_def)
    have "walk_inv g prob key gen (insert (cur, e) D) (vis', hit', stk')"
      using I push link cur(2) len to r seeds unfolding walk_inv_def
      by (auto simp: nth_list_update)
    moreover have "unseen g gen (vis', hit', stk') = unseen g gen (vis, hit, stk)"
    proof -
      have "{v. v < ?n \<and> vis ! v \<noteq> gen} = insert ?to {v. v < ?n \<and> vis' ! v \<noteq> gen}"
        using v push(3) to by auto
      moreover have "?to \<notin> {v. v < ?n \<and> vis' ! v \<noteq> gen}" using v to by simp
      ultimately have "card {v. v < ?n \<and> vis ! v \<noteq> gen} = Suc (card {v. v < ?n \<and> vis' ! v \<noteq> gen})" by simp
      then show ?thesis using push(6) by (simp add: unseen_def)
    qed
    ultimately show ?thesis using push v by auto
  qed
qed

lemma crosses_inv:
  "mc_ok g \<Longrightarrow> cur < length (mc_ids g) \<Longrightarrow> cur \<in> mc_reach g key prob \<Longrightarrow> set es \<subseteq> set (mc_adj g ! cur) \<Longrightarrow>
   walk_inv g prob key gen D (vis, hit, stk) \<Longrightarrow> fold (cross g prob key gen cur) es (vis, hit, stk) = (vis', hit', stk') \<Longrightarrow>
   walk_inv g prob key gen (D \<union> {cur} \<times> set es) (vis', hit', stk') \<and>
     unseen g gen (vis', hit', stk') = unseen g gen (vis, hit, stk) \<and> set stk \<subseteq> set stk' \<and>
     (\<forall>v < length (mc_ids g). vis' ! v = gen \<longrightarrow> vis ! v = gen \<or> v \<in> set stk')"
proof (induction es arbitrary: D vis hit stk)
  case Nil
  then show ?case by simp
next
  case (Cons e es)
  obtain v1 h1 s1 where c: "cross g prob key gen cur e (vis, hit, stk) = (v1, h1, s1)"
    by (cases "cross g prob key gen cur e (vis, hit, stk)")
  note one = cross_inv [OF Cons.prems(1) Cons.prems(5) Cons.prems(2,3) _ c]
  have one': "walk_inv g prob key gen (insert (cur, e) D) (v1, h1, s1)"
    "unseen g gen (v1, h1, s1) = unseen g gen (vis, hit, stk)" "set stk \<subseteq> set s1"
    "\<forall>v < length (mc_ids g). v1 ! v = gen \<longrightarrow> vis ! v = gen \<or> v \<in> set s1"
    using one Cons.prems(4) by auto
  have "fold (cross g prob key gen cur) es (v1, h1, s1) = (vis', hit', stk')" using Cons.prems(6) c by simp
  from Cons.IH [OF Cons.prems(1-3) _ one'(1) this]
  have rest: "walk_inv g prob key gen (insert (cur, e) D \<union> {cur} \<times> set es) (vis', hit', stk')"
    "unseen g gen (vis', hit', stk') = unseen g gen (v1, h1, s1)" "set s1 \<subseteq> set stk'"
    "\<forall>v < length (mc_ids g). vis' ! v = gen \<longrightarrow> v1 ! v = gen \<or> v \<in> set stk'"
    using Cons.prems(4) by auto
  have "insert (cur, e) D \<union> {cur} \<times> set es = D \<union> {cur} \<times> set (e # es)" by auto
  then show ?case using one' rest by auto
qed

text \<open>The edges of every node that has been visited and left.\<close>

definition left_edges :: "mc_graph \<Rightarrow> u32gen \<Rightarrow> walk_state \<Rightarrow> (nat \<times> nat) set" where
  "left_edges g gen = (\<lambda>(vis, hit, stk).
     {(u, e). u < length (mc_ids g) \<and> vis ! u = gen \<and> u \<notin> set stk \<and> e \<in> set (mc_adj g ! u)})"

lemma walk_inv_mono: "walk_inv g prob key gen D st \<Longrightarrow> D' \<subseteq> D \<Longrightarrow> walk_inv g prob key gen D' st"
  unfolding walk_inv_def by fast

lemma walk_step_inv:
  assumes ok: "mc_ok g" and I: "walk_inv g prob key gen (left_edges g gen (vis, hit, stk)) (vis, hit, stk)"
    and ne: "stk \<noteq> []"
  defines "st' \<equiv> walk_step g prob key gen (vis, hit, stk)"
  shows "walk_inv g prob key gen (left_edges g gen st') st' \<and> unseen g gen st' < unseen g gen (vis, hit, stk)"
proof -
  obtain cur rest where stk: "stk = cur # rest" using ne by (cases stk) auto
  obtain vis' hit' stk' where st': "st' = (vis', hit', stk')" by (cases st')
  have cur: "cur < length (mc_ids g)" "vis ! cur = gen" "cur \<in> mc_reach g key prob"
    using I stk by (auto simp: walk_inv_def)
  have I': "walk_inv g prob key gen (left_edges g gen (vis, hit, stk)) (vis, hit, rest)"
    using I stk by (auto simp: walk_inv_def)
  have f: "fold (cross g prob key gen cur) (mc_adj g ! cur) (vis, hit, rest) = (vis', hit', stk')"
    using st' stk by (simp add: st'_def walk_step_def)
  note r = crosses_inv [OF ok cur(1,3) subset_refl I' f]
  have "left_edges g gen st' \<subseteq> left_edges g gen (vis, hit, stk) \<union> {cur} \<times> set (mc_adj g ! cur)"
    using r stk unfolding left_edges_def st' by auto
  then have "walk_inv g prob key gen (left_edges g gen st') st'" using r walk_inv_mono st' by blast
  moreover have "unseen g gen st' < unseen g gen (vis, hit, stk)" using r st' stk by (simp add: unseen_def)
  ultimately show ?thesis by blast
qed

lemma walk_ends:
  assumes ok: "mc_ok g" and I: "walk_inv g prob key gen (left_edges g gen st) st"
  shows "\<exists>vis hit. while_option (\<lambda>(vis, hit, stk). stk \<noteq> []) (walk_step g prob key gen) st = Some (vis, hit, []) \<and>
     walk_inv g prob key gen (left_edges g gen (vis, hit, [])) (vis, hit, [])"
proof -
  let ?P = "\<lambda>st. walk_inv g prob key gen (left_edges g gen st) st" and ?b = "\<lambda>(vis, hit, stk). stk \<noteq> []"
  have step: "?P st' \<and> unseen g gen st' < unseen g gen st" if "?P st" "?b st" "st' = walk_step g prob key gen st" for st st'
    using walk_step_inv [OF ok] that by (cases st) auto
  obtain st' where st': "while_option ?b (walk_step g prob key gen) st = Some st'"
    using measure_while_option_Some [of ?P ?b "walk_step g prob key gen" "unseen g gen" st] step I by blast
  have "?P st'" by (rule while_option_rule [where P = ?P, OF _ st' I]) (use step in blast)
  moreover have "\<not> ?b st'" by (rule while_option_stop [OF st'])
  ultimately show ?thesis using st' by (cases st') auto
qed

lemma walk_final:
  assumes ok: "mc_ok g" and I: "walk_inv g prob key gen (left_edges g gen (vis, hit, [])) (vis, hit, [])"
    and j: "j < length (mc_ids g)"
  shows "vis ! j = gen \<longleftrightarrow> j \<in> mc_reach g key prob"
    and "mc_edge_only g ! j \<Longrightarrow> hit ! j = gen \<longleftrightarrow> (\<exists>u \<in> mc_reach g key prob. mc_link g key prob u j)"
proof -
  have closed: "vis ! v = gen \<and> v < length (mc_ids g) \<and> (mc_edge_only g ! v \<longrightarrow> hit ! v = gen)"
    if a: "vis ! u = gen" "mc_link g key prob u v" for u v
  proof -
    obtain e where e: "e \<in> set (mc_adj g ! u)" "mc_to g ! e = v" "kept key (mc_key g ! e) (prob ! e)"
        "v \<noteq> u" "u < length (mc_ids g)" using a(2) by (auto simp: mc_link_def)
    then have "(u, e) \<in> left_edges g gen (vis, hit, [])" using a(1) by (simp add: left_edges_def)
    then have "vis ! v = gen \<and> (mc_edge_only g ! v \<longrightarrow> hit ! v = gen)" using I e by (fastforce simp: walk_inv_def)
    moreover have "v < length (mc_ids g)" using ok e by (auto simp: mc_ok_def)
    ultimately show ?thesis by blast
  qed
  have seen: "vis ! v = gen \<and> v < length (mc_ids g)" if r: "v \<in> mc_reach g key prob" for v
  proof -
    obtain s where s: "s \<in> set (mc_seeds g)" "(mc_link g key prob)\<^sup>*\<^sup>* s v" using r by (auto simp: mc_reach_def)
    from s(2) show ?thesis
    proof (induction rule: rtranclp_induct)
      case base
      then show ?case using I ok s(1) by (auto simp: walk_inv_def mc_ok_def)
    next
      case (step y z)
      then show ?case using closed by blast
    qed
  qed
  show "vis ! j = gen \<longleftrightarrow> j \<in> mc_reach g key prob" using seen I j by (auto simp: walk_inv_def)
  show "mc_edge_only g ! j \<Longrightarrow> hit ! j = gen \<longleftrightarrow> (\<exists>u \<in> mc_reach g key prob. mc_link g key prob u j)"
  proof
    assume only: "mc_edge_only g ! j" and h: "hit ! j = gen"
    then show "\<exists>u \<in> mc_reach g key prob. mc_link g key prob u j" using I j unfolding walk_inv_def by simp
  next
    assume only: "mc_edge_only g ! j" and "\<exists>u \<in> mc_reach g key prob. mc_link g key prob u j"
    then obtain u where "u \<in> mc_reach g key prob" "mc_link g key prob u j" by blast
    then show "hit ! j = gen" using seen [of u] closed [of u j] only by blast
  qed
qed

subsection \<open>Generations\<close>

text \<open>Between trials no stamp is ahead of the counter, so a fresh generation is on no node.\<close>

definition trials_ok :: "mc_graph \<Rightarrow> trials \<Rightarrow> bool" where
  "trials_ok g t \<longleftrightarrow> length (tr_visited t) = length (mc_ids g) \<and> length (tr_hit t) = length (mc_ids g) \<and>
     (\<forall>x \<in> set (tr_visited t) \<union> set (tr_hit t). x \<le> tr_gen t)"

lemma new_trials_ok: "trials_ok g (new_trials g)"
  by (simp add: trials_ok_def new_trials_def)

lemma next_gen_fresh:
  assumes "trials_ok g t"
  shows "trials_ok g (next_gen t)" "tr_gen (next_gen t) \<notin> set (tr_visited (next_gen t)) \<union> set (tr_hit (next_gen t))"
proof -
  have "x < tr_gen t + 1" if "x \<le> tr_gen t" "tr_gen t + 1 \<noteq> 0" for x
  proof -
    have "unat (1 + tr_gen t) = Suc (unat (tr_gen t))" by (rule unatSuc) (use that(2) in \<open>simp add: add.commute\<close>)
    then show ?thesis using that(1) by (simp add: word_le_nat_alt word_less_nat_alt add.commute)
  qed
  note fresh = this
  have "trials_ok g (next_gen t) \<and> tr_gen (next_gen t) \<notin> set (tr_visited (next_gen t)) \<union> set (tr_hit (next_gen t))"
  proof (cases "tr_gen t + 1 = 0")
    case True
    then show ?thesis using assms by (simp add: trials_ok_def next_gen_def)
  next
    case False
    have "x < tr_gen t + 1" if "x \<in> set (tr_visited t) \<union> set (tr_hit t)" for x
      using assms that fresh [OF _ False] by (simp add: trials_ok_def)
    then show ?thesis using assms False by (fastforce simp: trials_ok_def next_gen_def)
  qed
  then show "trials_ok g (next_gen t)" "tr_gen (next_gen t) \<notin> set (tr_visited (next_gen t)) \<union> set (tr_hit (next_gen t))"
    by blast+
qed

lemma walk_start_inv:
  assumes ok: "mc_ok g" and len: "length vis = length (mc_ids g)" "length hit = length (mc_ids g)"
    and fresh: "gen \<notin> set vis \<union> set hit"
  shows "walk_inv g prob key gen (left_edges g gen (walk_start g gen vis hit)) (walk_start g gen vis hit)"
proof -
  let ?n = "length (mc_ids g)"
  have go: "fst (snd st) = hit \<and> length (fst st) = ?n \<and> (\<forall>s \<in> set ss. fst st ! s = gen) \<and>
      (\<forall>v < ?n. fst st ! v = gen \<longleftrightarrow> v \<in> set (snd (snd st))) \<and> set (snd (snd st)) \<subseteq> set stk0 \<union> set ss \<and>
      (\<forall>v < ?n. vis0 ! v = gen \<longrightarrow> fst st ! v = gen)"
    if "st = fold (\<lambda>s (vis, hit, stk). if vis ! s \<noteq> gen then (vis[s := gen], hit, s # stk) else (vis, hit, stk)) ss (vis0, hit, stk0)"
      "length vis0 = ?n" "\<forall>s \<in> set ss. s < ?n" "\<forall>v < ?n. vis0 ! v = gen \<longleftrightarrow> v \<in> set stk0" for st ss vis0 stk0
    using that
  proof (induction ss arbitrary: vis0 stk0)
    case Nil
    then show ?case by simp
  next
    case (Cons s ss)
    show ?case
    proof (cases "vis0 ! s \<noteq> gen")
      case True
      have a: "st = fold (\<lambda>s (vis, hit, stk). if vis ! s \<noteq> gen then (vis[s := gen], hit, s # stk) else (vis, hit, stk)) ss
          (vis0[s := gen], hit, s # stk0)" using Cons.prems(1) True by simp
      have b: "\<forall>v < ?n. vis0[s := gen] ! v = gen \<longleftrightarrow> v \<in> set (s # stk0)"
        using Cons.prems by (auto simp: nth_list_update)
      have c: "length (vis0[s := gen]) = ?n" "\<forall>s \<in> set ss. s < ?n" "s < ?n" using Cons.prems by auto
      note r = Cons.IH [OF a c(1,2) b]
      have "vis0[s := gen] ! s = gen" using Cons.prems(2) c(3) by simp
      then have "fst st ! s = gen" using r c(3) by blast
      moreover have "vis0 ! v = gen \<longrightarrow> vis0[s := gen] ! v = gen" if "v < ?n" for v
        using that Cons.prems(2) by (cases "v = s") auto
      ultimately show ?thesis using r by auto
    next
      case False
      have a: "st = fold (\<lambda>s (vis, hit, stk). if vis ! s \<noteq> gen then (vis[s := gen], hit, s # stk) else (vis, hit, stk)) ss
          (vis0, hit, stk0)" using Cons.prems(1) False by simp
      have c: "\<forall>s \<in> set ss. s < ?n" "s < ?n" using Cons.prems by auto
      note r = Cons.IH [OF a Cons.prems(2) c(1) Cons.prems(4)]
      have "fst st ! s = gen" using r c(2) False by blast
      then show ?thesis using r by auto
    qed
  qed
  have none: "\<forall>v < ?n. vis ! v = gen \<longleftrightarrow> v \<in> set []" using fresh len by (metis UnI1 empty_iff list.set(1) nth_mem)
  have nohit: "hit ! v \<noteq> gen" if "v < ?n" for v using fresh len that by (metis UnI2 nth_mem)
  have seeds: "\<forall>s \<in> set (mc_seeds g). s < ?n" using ok by (simp add: mc_ok_def)
  obtain v h k where st: "walk_start g gen vis hit = (v, h, k)" by (cases "walk_start g gen vis hit")
  have r: "h = hit" "length v = ?n" "\<forall>s \<in> set (mc_seeds g). v ! s = gen" "\<forall>u < ?n. v ! u = gen \<longleftrightarrow> u \<in> set k"
      "set k \<subseteq> set (mc_seeds g)"
    using go [OF refl len(1) seeds none] st by (simp_all add: walk_start_def)
  have "left_edges g gen (v, h, k) = {}" using r(4) by (auto simp: left_edges_def)
  moreover have "s \<in> mc_reach g key prob" if "s \<in> set (mc_seeds g)" for s using that by (auto simp: mc_reach_def)
  ultimately show ?thesis unfolding st walk_inv_def using r len seeds nohit by auto
qed

definition stamps_le :: "u32gen \<Rightarrow> walk_state \<Rightarrow> bool" where
  "stamps_le gen = (\<lambda>(vis, hit, stk). set vis \<subseteq> {..gen} \<and> set hit \<subseteq> {..gen})"

lemma stamps_cross: "stamps_le gen st \<Longrightarrow> stamps_le gen (cross g prob key gen cur e st)"
  by (cases st) (simp add: stamps_le_def cross_def Let_def set_update_subsetI)

lemma stamps_fold: "stamps_le gen st \<Longrightarrow> (\<And>x st. stamps_le gen st \<Longrightarrow> stamps_le gen (f x st)) \<Longrightarrow> stamps_le gen (fold f xs st)"
  by (induction xs arbitrary: st) simp_all

lemma stamps_step: "stamps_le gen st \<Longrightarrow> stamps_le gen (walk_step g prob key gen st)"
proof (cases st)
  case (fields vis hit stk)
  assume "stamps_le gen st"
  then have "stamps_le gen (vis, hit, tl stk)" using fields by (simp add: stamps_le_def)
  then show ?thesis unfolding fields walk_step_def prod.case by (rule stamps_fold) (rule stamps_cross)
qed

lemma stamps_start: "stamps_le gen (vis, hit, []) \<Longrightarrow> stamps_le gen (walk_start g gen vis hit)"
  unfolding walk_start_def
proof (erule stamps_fold)
  fix s st
  assume "stamps_le gen st"
  then show "stamps_le gen ((\<lambda>(vis, hit, stk). if vis ! s \<noteq> gen then (vis[s := gen], hit, s # stk) else (vis, hit, stk)) st)"
    by (cases st) (simp add: stamps_le_def set_update_subsetI)
qed

theorem run_trial_spec:
  assumes "mc_ok g" "trials_ok g t"
  shows "\<exists>t'. run_trial g key prob t = Some t' \<and> trials_ok g t' \<and>
     (\<forall>j < length (mc_ids g). reached g t' j \<longleftrightarrow> mc_compromised g key prob j)"
proof -
  let ?t = "next_gen t"
  let ?gen = "tr_gen ?t"
  note fresh = next_gen_fresh [OF assms(2)]
  have len: "length (tr_visited ?t) = length (mc_ids g)" "length (tr_hit ?t) = length (mc_ids g)"
    using fresh(1) by (auto simp: trials_ok_def)
  obtain vis hit where w: "while_option (\<lambda>(vis, hit, stk). stk \<noteq> []) (walk_step g prob key ?gen)
        (walk_start g ?gen (tr_visited ?t) (tr_hit ?t)) = Some (vis, hit, [])"
      "walk_inv g prob key ?gen (left_edges g ?gen (vis, hit, [])) (vis, hit, [])"
    using walk_ends [OF assms(1) walk_start_inv [OF assms(1) len fresh(2)]] by blast
  let ?r = "\<lparr>tr_gen = ?gen, tr_visited = vis, tr_hit = hit\<rparr>"
  have run: "run_trial g key prob t = Some ?r" using w(1) by (simp add: run_trial_def Let_def)
  have "reached g ?r j \<longleftrightarrow> mc_compromised g key prob j" if "j < length (mc_ids g)" for j
    using walk_final [OF assms(1) w(2) that] by (simp add: reached_def mc_compromised_def)
  moreover have "trials_ok g ?r"
  proof -
    have "stamps_le ?gen (tr_visited ?t, tr_hit ?t, [])" using fresh(1) by (auto simp: trials_ok_def stamps_le_def)
    then have "stamps_le ?gen (vis, hit, [])"
      using while_option_rule [where P = "stamps_le ?gen", OF _ w(1) stamps_start] stamps_step by blast
    then show ?thesis using w(2) by (auto simp: trials_ok_def stamps_le_def walk_inv_def)
  qed
  ultimately show ?thesis using run by blast
qed

end
