(* ===== verification/Profiles.thy ===== *)
theory Profiles
  imports Attack_Path
begin

text \<open>
  The attacker profiles, \<open>backend/internal/analyzer/profiles.go\<close>: the priors an operator may set, the anchored per-profile
  probabilities of an edge (a safeguarded Newton search), and the mixture over a path. The
  search is proved to stay in its bracket and to bring the profiles back to the edge's own
  probability within its 61 evaluations.
\<close>

section \<open>The profiles\<close>

record profile =
  pf_name :: string
  pf_prior :: real
  pf_skill :: real

definition default_profiles :: "profile list" where
  "default_profiles =
     [\<lparr>pf_name = ''commodity'', pf_prior = 0.5, pf_skill = -1.6\<rparr>,
      \<lparr>pf_name = ''criminal'', pf_prior = 0.35, pf_skill = 0\<rparr>,
      \<lparr>pf_name = ''apt'', pf_prior = 0.15, pf_skill = 1.6\<rparr>]"

text \<open>The overrides of a spec; \<open>parse_float\<close> is \<open>strconv.ParseFloat\<close>, read as a finite number.\<close>

definition prior_overrides :: "(string \<Rightarrow> real option) \<Rightarrow> string \<Rightarrow> (string, real) gomap" where
  "prior_overrides parse_float spec =
     fold (\<lambda>part m.
        case str_cut part '':'' of
          None \<Rightarrow> m
        | Some (k, v) \<Rightarrow>
            (case parse_float (trim_space v) of
               None \<Rightarrow> m
             | Some f \<Rightarrow> if f < 0 then m else AList.update (to_lower (trim_space k)) f m))
       (split_on (CHR '','') spec) []"

definition set_priors :: "(string \<Rightarrow> real option) \<Rightarrow> string \<Rightarrow> profile list" where
  "set_priors parse_float spec0 =
     (let spec = trim_space spec0;
          base = (if spec \<noteq> []
                  then (let ov = prior_overrides parse_float spec
                        in map (\<lambda>c. case map_of ov (pf_name c) of Some v \<Rightarrow> c\<lparr>pf_prior := v\<rparr> | None \<Rightarrow> c) default_profiles)
                  else default_profiles);
          sum = sum_list (map pf_prior base)
      in if sum \<le> 0 then default_profiles
         else map (\<lambda>c. c\<lparr>pf_prior := pf_prior c / sum\<rparr>) base)"

definition skill_sensitivity :: "string \<Rightarrow> real" where
  "skill_sensitivity basis =
     (if basis = ''kev'' then 0.15 else if basis = ''runtime'' then 0.25 else if basis = ''epss'' then 0.45
      else if basis = ''cvss'' then 0.70 else if basis = ''severity'' then 0.90 else 1)"

section \<open>The anchor\<close>

definition prob_clamp :: real where "prob_clamp = 1 / 10 ^ 6"

record anchor =
  an_prior :: "real list"
  an_w :: "real list"
  an_lo :: real
  an_hi :: real

definition new_anchor :: "real \<Rightarrow> profile list \<Rightarrow> anchor" where
  "new_anchor k profs =
     (let total = sum_list (map pf_prior profs);
          ws = map (\<lambda>c. exp (- pf_skill c * k)) profs;
          invs = map (\<lambda>w. 1 / w) ws
      in \<lparr>an_prior = map (\<lambda>c. if total > 0 then pf_prior c / total else 0) profs, an_w = ws,
          an_lo = (case invs of [] \<Rightarrow> 0 | v # vs \<Rightarrow> fold min vs v),
          an_hi = (case invs of [] \<Rightarrow> 0 | v # vs \<Rightarrow> fold max vs v)\<rparr>)"

text \<open>The profiles' probabilities at \<open>x\<close>, their mean's distance from \<open>p\<close>, and its slope.\<close>

definition an_out :: "anchor \<Rightarrow> real \<Rightarrow> real list" where
  "an_out a x = map (\<lambda>w. 1 / (1 + x * w)) (an_w a)"

definition an_f :: "anchor \<Rightarrow> real \<Rightarrow> real \<Rightarrow> real" where
  "an_f a p x = fold (\<lambda>(P, w) f. f + P * (1 / (1 + x * w))) (zip (an_prior a) (an_w a)) (- p)"

definition an_df :: "anchor \<Rightarrow> real \<Rightarrow> real" where
  "an_df a x = fold (\<lambda>(P, w) df. df - P * w * (1 / (1 + x * w)) * (1 / (1 + x * w))) (zip (an_prior a) (an_w a)) 0"

text \<open>The bracket and the point after an evaluation: a Newton step, or the middle when it leaves the bracket.\<close>

definition an_step :: "real \<Rightarrow> real \<Rightarrow> real \<Rightarrow> real \<Rightarrow> real \<Rightarrow> real \<times> real \<times> real" where
  "an_step f df lo0 hi0 x =
     (let lo = (if f > 0 then x else lo0); hi = (if f > 0 then hi0 else x);
          next = x - f / df
      in (lo, hi, if df \<ge> 0 \<or> \<not> (next > lo \<and> next < hi) then (lo + hi) / 2 else next))"

text \<open>The search; \<open>left\<close> is 60 less the code's counter.\<close>

fun an_loop :: "anchor \<Rightarrow> real \<Rightarrow> real \<Rightarrow> nat \<Rightarrow> real \<Rightarrow> real \<Rightarrow> real \<Rightarrow> real list \<times> real" where
  "an_loop a p r left lo hi x =
     (let f = an_f a p x
      in if \<bar>f\<bar> < 1 / 10 ^ 13 \<or> hi - lo \<le> 1 / 10 ^ 15 * hi then (an_out a x, x / r)
         else case left of
           0 \<Rightarrow> (an_out a x, x / r)
         | Suc n \<Rightarrow>
             (let (lo, hi, next) = an_step f (an_df a x) lo hi x
              in if next = x then (an_out a x, x / r) else an_loop a p r n lo hi next))"

declare an_loop.simps [simp del]

definition an_probs :: "anchor \<Rightarrow> real \<Rightarrow> real \<Rightarrow> real list \<times> real" where
  "an_probs a p0 y0 =
     (if an_w a = [] then ([], 1)
      else (let p = min (max p0 prob_clamp) (1 - prob_clamp);
                r = (1 - p) / p; lo = r * an_lo a; hi = r * an_hi a; x = r * y0;
                x = (if \<not> (x > lo \<and> x < hi) then sqrt (lo * hi) else x);
                x = (if hi - lo \<le> 1 / 10 ^ 15 * hi then lo else x)
            in an_loop a p r 60 lo hi x))"

definition profile_probs :: "real \<Rightarrow> string \<Rightarrow> profile list \<Rightarrow> real list" where
  "profile_probs p basis profs = fst (an_probs (new_anchor (skill_sensitivity basis) profs) p 0)"

section \<open>The mixture over a path\<close>

record profile_score =
  ps_profile :: string
  ps_prior :: real
  ps_score :: real

definition attacker_mixture :: "profile list \<Rightarrow> step list \<Rightarrow> real \<times> profile_score list" where
  "attacker_mixture profs steps =
     (let table = map (\<lambda>st. profile_probs (st_prob st) (st_basis st) profs) steps;
          hop = (\<lambda>c. map (\<lambda>probs. probs ! c) table)
      in fold (\<lambda>(c, pr) (mixture, per).
           (let score = chain_probability steps (hop c)
            in (mixture + pf_prior pr * score, per @ [\<lparr>ps_profile = pf_name pr, ps_prior = pf_prior pr, ps_score = score\<rparr>])))
         (zip [0..<length profs] profs) (0, []))"

section \<open>The curve the search walks\<close>

text \<open>One profile's probability, the mean of the profiles and its slope, for weights \<open>P\<close> and odds \<open>w\<close>.\<close>

definition q_at :: "real \<Rightarrow> real \<Rightarrow> real" where
  "q_at x w = 1 / (1 + x * w)"

definition mean_at :: "(real \<times> real) list \<Rightarrow> real \<Rightarrow> real" where
  "mean_at Pw x = (\<Sum>(P, w) \<leftarrow> Pw. P * q_at x w)"

definition slope_at :: "(real \<times> real) list \<Rightarrow> real \<Rightarrow> real" where
  "slope_at Pw x = (\<Sum>(P, w) \<leftarrow> Pw. P * (w * (q_at x w * q_at x w)))"

text \<open>By how much the curve lies above its tangent at \<open>x\<close>.\<close>

definition gap_at :: "(real \<times> real) list \<Rightarrow> real \<Rightarrow> real \<Rightarrow> real" where
  "gap_at Pw x y = (\<Sum>(P, w) \<leftarrow> Pw. P * (((y - x) * (w * q_at x w))\<^sup>2 * q_at y w))"

definition weights_ok :: "(real \<times> real) list \<Rightarrow> bool" where
  "weights_ok Pw \<longleftrightarrow> (\<forall>(P, w) \<in> set Pw. P \<ge> 0 \<and> w > 0) \<and> sum_list (map fst Pw) = 1"

lemma an_f_eq: "an_f a p x = mean_at (zip (an_prior a) (an_w a)) x - p"
proof -
  have "fold (\<lambda>(P, w) f. f + P * (1 / (1 + x * w))) Pw b = b + mean_at Pw x" for Pw b
    by (induction Pw arbitrary: b) (auto simp: mean_at_def q_at_def)
  then show ?thesis by (simp add: an_f_def)
qed

lemma an_df_eq: "an_df a x = - slope_at (zip (an_prior a) (an_w a)) x"
proof -
  have "fold (\<lambda>(P, w) f. f - P * w * (1 / (1 + x * w)) * (1 / (1 + x * w))) Pw b = b - slope_at Pw x" for Pw b
    by (induction Pw arbitrary: b) (auto simp: slope_at_def q_at_def)
  then show ?thesis by (simp add: an_df_def)
qed

lemma weights_okD: "weights_ok Pw \<Longrightarrow> (P, w) \<in> set Pw \<Longrightarrow> P \<ge> 0 \<and> w > 0"
  by (auto simp: weights_ok_def)

lemma q_pos: "x > 0 \<Longrightarrow> w > 0 \<Longrightarrow> q_at x w > 0"
  by (simp add: q_at_def add_pos_pos)

lemma q_le_1: "x > 0 \<Longrightarrow> w > 0 \<Longrightarrow> q_at x w \<le> 1"
  by (simp add: q_at_def add_pos_pos)

lemma q_odds: "x > 0 \<Longrightarrow> w > 0 \<Longrightarrow> x * w * q_at x w = 1 - q_at x w"
proof -
  assume "x > 0" "w > 0"
  then have "1 + x * w \<noteq> 0" by (metis add_pos_pos mult_pos_pos less_irrefl zero_less_one)
  then show ?thesis by (simp add: q_at_def field_simps)
qed

lemma q_diff: "w > 0 \<Longrightarrow> x > 0 \<Longrightarrow> y > 0 \<Longrightarrow> q_at x w - q_at y w = (y - x) * (w * (q_at x w * q_at y w))"
proof -
  assume a: "w > 0" "x > 0" "y > 0"
  have "(y - x) * (w * (q_at x w * q_at y w)) = (y * w * q_at y w) * q_at x w - (x * w * q_at x w) * q_at y w"
    by (simp add: algebra_simps)
  also have "\<dots> = q_at x w - q_at y w" unfolding q_odds [OF a(3,1)] q_odds [OF a(2,1)] by (simp add: algebra_simps)
  finally show ?thesis by simp
qed

lemma q_antimono: "0 < x \<Longrightarrow> x \<le> y \<Longrightarrow> w > 0 \<Longrightarrow> q_at y w \<le> q_at x w"
  unfolding q_at_def by (rule divide_left_mono) (simp_all add: add_pos_pos mult_right_mono)

lemma q_ratio: "0 < x \<Longrightarrow> x \<le> y \<Longrightarrow> w > 0 \<Longrightarrow> q_at x w \<le> (y / x) * q_at y w"
proof -
  assume a: "0 < x" "x \<le> y" "w > 0"
  then have "x * (1 + y * w) \<le> y * (1 + x * w)" by (simp add: algebra_simps)
  moreover have pos: "1 + x * w > 0" "1 + y * w > 0" using a by (simp_all add: add_pos_pos)
  ultimately have "x * (1 + y * w) / (x * (1 + y * w) * (1 + x * w)) \<le> y * (1 + x * w) / (x * (1 + y * w) * (1 + x * w))"
    using a by (intro divide_right_mono) auto
  then show ?thesis using a pos by (simp add: q_at_def)
qed

lemma sum_list_pos:
  assumes "\<And>a. a \<in> set xs \<Longrightarrow> f a \<ge> (0 :: real)" "b \<in> set xs" "f b > 0"
  shows "(\<Sum>a \<leftarrow> xs. f a) > 0"
  using assms
proof (induction xs)
  case Nil
  then show ?case by simp
next
  case (Cons a xs)
  have rest: "(\<Sum>a \<leftarrow> xs. f a) \<ge> 0" by (rule sum_list_nonneg) (use Cons.prems in auto)
  show ?case
  proof (cases "b \<in> set xs")
    case True
    then show ?thesis using Cons by (simp add: add_nonneg_pos)
  next
    case False
    then show ?thesis using Cons.prems rest by (simp add: add_pos_nonneg)
  qed
qed

lemma weights_some_pos:
  assumes ok: "weights_ok Pw"
  shows "\<exists>P w. (P, w) \<in> set Pw \<and> P > 0 \<and> w > 0"
proof (rule ccontr)
  assume none: "\<nexists>P w. (P, w) \<in> set Pw \<and> P > 0 \<and> w > 0"
  have "fst a = 0" if "a \<in> set Pw" for a
    using weights_okD [OF ok, of "fst a" "snd a"] none that by (metis prod.collapse order_le_less)
  then have "sum_list (map fst Pw) = 0" by (induction Pw) auto
  then show False using ok by (simp add: weights_ok_def)
qed

lemma mean_tangent:
  assumes "weights_ok Pw" and xy: "x > 0" "y > 0"
  shows "mean_at Pw y = mean_at Pw x - slope_at Pw x * (y - x) + gap_at Pw x y"
proof -
  have "\<forall>(P, w) \<in> set Pw. w > 0" using assms by (auto simp: weights_ok_def)
  then show ?thesis
  proof (induction Pw)
    case Nil
    then show ?case by (simp add: mean_at_def slope_at_def gap_at_def)
  next
    case (Cons a Pw)
    obtain P w where a: "a = (P, w)" by (cases a)
    have pw: "w > 0" using Cons.prems a by auto
    define qx where "qx = q_at x w"
    define qy where "qy = q_at y w"
    have e1: "qx - qy = (y - x) * (w * (qx * qy))" unfolding qx_def qy_def by (rule q_diff [OF pw xy])
    have "qy - qx + (y - x) * (w * (qx * qx)) = (y - x) * (w * qx) * (qx - qy)"
      using e1 by (simp add: algebra_simps)
    also have "\<dots> = ((y - x) * (w * qx))\<^sup>2 * qy" by (simp only: e1 power2_eq_square ac_simps)
    finally have "qy = qx - w * (qx * qx) * (y - x) + ((y - x) * (w * qx))\<^sup>2 * qy"
      by (simp add: algebra_simps)
    then have "P * qy = P * (qx - w * (qx * qx) * (y - x) + ((y - x) * (w * qx))\<^sup>2 * qy)" by simp
    also have "\<dots> = P * qx - P * (w * (qx * qx)) * (y - x) + P * (((y - x) * (w * qx))\<^sup>2 * qy)"
      by (simp only: distrib_left right_diff_distrib ac_simps)
    finally have one: "P * qy = P * qx - P * (w * (qx * qx)) * (y - x) + P * (((y - x) * (w * qx))\<^sup>2 * qy)" .
    have rest: "mean_at Pw y = mean_at Pw x - slope_at Pw x * (y - x) + gap_at Pw x y" using Cons by simp
    have "mean_at (a # Pw) y = P * qy + mean_at Pw y" "mean_at (a # Pw) x = P * qx + mean_at Pw x"
        "slope_at (a # Pw) x = P * (w * (qx * qx)) + slope_at Pw x"
        "gap_at (a # Pw) x y = P * (((y - x) * (w * qx))\<^sup>2 * qy) + gap_at Pw x y"
      by (simp_all add: mean_at_def slope_at_def gap_at_def a qx_def qy_def)
    then show ?case using one rest by (simp only: distrib_right)
  qed
qed

lemma gap_nonneg: "weights_ok Pw \<Longrightarrow> x > 0 \<Longrightarrow> y > 0 \<Longrightarrow> gap_at Pw x y \<ge> 0"
  unfolding gap_at_def
  by (rule sum_list_nonneg) (auto dest!: weights_okD simp: less_imp_le [OF q_pos])

lemma gap_pos:
  assumes ok: "weights_ok Pw" and xy: "x > 0" "y > 0" "x \<noteq> y"
  shows "gap_at Pw x y > 0"
proof -
  obtain P w where pw: "(P, w) \<in> set Pw" "P > 0" "w > 0" using weights_some_pos [OF ok] by blast
  have "(y - x) * (w * q_at x w) \<noteq> 0" using q_pos [OF xy(1) pw(3)] xy pw by simp
  then have "P * (((y - x) * (w * q_at x w))\<^sup>2 * q_at y w) > 0"
    using q_pos [OF xy(2) pw(3)] pw(2) by simp
  then show ?thesis unfolding gap_at_def
    by (intro sum_list_pos [OF _ pw(1)]) (auto dest!: weights_okD [OF ok] simp: less_imp_le [OF q_pos] xy)
qed

lemma slope_pos:
  assumes ok: "weights_ok Pw" and x: "x > 0"
  shows "slope_at Pw x > 0"
proof -
  obtain P w where pw: "(P, w) \<in> set Pw" "P > 0" "w > 0" using weights_some_pos [OF ok] by blast
  have "P * (w * (q_at x w * q_at x w)) > 0" using q_pos [OF x pw(3)] pw by simp
  then show ?thesis unfolding slope_at_def
    by (intro sum_list_pos [OF _ pw(1)]) (auto dest!: weights_okD [OF ok] simp: less_imp_le [OF q_pos] x)
qed

lemma slope_antimono:
  assumes ok: "weights_ok Pw" and xy: "0 < x" "x \<le> y"
  shows "slope_at Pw y \<le> slope_at Pw x"
  unfolding slope_at_def
proof (rule sum_list_mono, clarify)
  fix P w assume pw: "(P, w) \<in> set Pw"
  note b = weights_okD [OF ok pw]
  have "q_at y w * q_at y w \<le> q_at x w * q_at x w"
    using b q_pos [of y w] q_antimono [OF xy, of w] xy by (intro mult_mono) auto
  then show "P * (w * (q_at y w * q_at y w)) \<le> P * (w * (q_at x w * q_at x w))"
    using b by (simp add: mult_left_mono)
qed

text \<open>Over a bracket the slope varies at most by the square of the bracket's ratio.\<close>

lemma slope_ratio:
  assumes ok: "weights_ok Pw" and xy: "0 < x" "x \<le> y"
  shows "slope_at Pw x \<le> (y / x)\<^sup>2 * slope_at Pw y"
  unfolding slope_at_def sum_list_const_mult [symmetric]
proof (rule sum_list_mono, clarify)
  fix P w assume pw: "(P, w) \<in> set Pw"
  note b = weights_okD [OF ok pw]
  have "q_at x w * q_at x w \<le> ((y / x) * q_at y w) * ((y / x) * q_at y w)"
    using q_ratio [OF xy, of w] q_pos [of x w] b xy by (intro mult_mono) auto
  then have "P * (w * (q_at x w * q_at x w)) \<le> P * (w * (((y / x) * q_at y w) * ((y / x) * q_at y w)))"
    using b by (intro mult_left_mono) auto
  also have "\<dots> = (y / x)\<^sup>2 * (P * (w * (q_at y w * q_at y w)))"
    by (simp only: power2_eq_square ac_simps)
  finally show "P * (w * (q_at x w * q_at x w)) \<le> (y / x)\<^sup>2 * (P * (w * (q_at y w * q_at y w)))" .
qed

lemma weights_sum: "weights_ok Pw \<Longrightarrow> (\<Sum>(P, w) \<leftarrow> Pw. P) = 1"
proof -
  have "(\<Sum>(P, w) \<leftarrow> Pw. P) = sum_list (map fst Pw)" by (induction Pw) auto
  then show "weights_ok Pw \<Longrightarrow> (\<Sum>(P, w) \<leftarrow> Pw. P) = 1" by (simp add: weights_ok_def)
qed

lemma mean_le_1:
  assumes ok: "weights_ok Pw" and x: "x > 0"
  shows "0 \<le> mean_at Pw x \<and> mean_at Pw x \<le> 1"
proof -
  have "mean_at Pw x \<le> (\<Sum>(P, w) \<leftarrow> Pw. P)" unfolding mean_at_def
    by (rule sum_list_mono) (auto dest!: weights_okD [OF ok] simp: mult_left_le q_le_1 x)
  moreover have "mean_at Pw x \<ge> 0" unfolding mean_at_def
    by (rule sum_list_nonneg) (auto dest!: weights_okD [OF ok] simp: less_imp_le [OF q_pos] x)
  ultimately show ?thesis using weights_sum [OF ok] by simp
qed

lemma slope_quarter:
  assumes ok: "weights_ok Pw" and x: "x > 0"
  shows "x * slope_at Pw x \<le> 1 / 4"
proof -
  have "x * slope_at Pw x \<le> (1 / 4) * (\<Sum>(P, w) \<leftarrow> Pw. P)" unfolding slope_at_def sum_list_const_mult [symmetric]
  proof (rule sum_list_mono, clarify)
    fix P w assume pw: "(P, w) \<in> set Pw"
    note b = weights_okD [OF ok pw]
    define q where "q = q_at x w"
    have "x * (w * (q * q)) = (x * w * q) * q" by (simp only: ac_simps)
    also have "\<dots> = (1 - q) * q" using q_odds [of x w] b x by (simp add: q_def)
    also have "\<dots> \<le> 1 / 4"
      using zero_le_power2 [of "q - 1 / 2"] by (simp add: power2_eq_square field_simps)
    finally have "P * (x * (w * (q * q))) \<le> P * (1 / 4)" using b mult_left_mono by blast
    then show "x * (P * (w * (q_at x w * q_at x w))) \<le> (1 / 4) * P" unfolding q_def [symmetric]
      by (simp add: ac_simps)
  qed
  then show ?thesis using weights_sum [OF ok] by simp
qed

lemma mean_antimono:
  assumes ok: "weights_ok Pw" and xy: "0 < x" "x \<le> y"
  shows "mean_at Pw y \<le> mean_at Pw x" "mean_at Pw x - mean_at Pw y \<le> slope_at Pw x * (y - x)"
proof -
  have "mean_at Pw x = mean_at Pw y - slope_at Pw y * (x - y) + gap_at Pw y x"
    by (rule mean_tangent [OF ok]) (use xy in auto)
  moreover have "slope_at Pw y * (x - y) \<le> 0"
    using slope_pos [OF ok, of y] xy by (intro mult_nonneg_nonpos) auto
  ultimately show "mean_at Pw y \<le> mean_at Pw x" using gap_nonneg [OF ok, of y x] xy by simp
  have "mean_at Pw y = mean_at Pw x - slope_at Pw x * (y - x) + gap_at Pw x y"
    by (rule mean_tangent [OF ok]) (use xy in auto)
  then show "mean_at Pw x - mean_at Pw y \<le> slope_at Pw x * (y - x)" using gap_nonneg [OF ok, of x y] xy by simp
qed

section \<open>The search ends at the edge's own probability\<close>

definition an_inv :: "(real \<times> real) list \<Rightarrow> real \<Rightarrow> real \<Rightarrow> real \<Rightarrow> real \<Rightarrow> real \<Rightarrow> real \<Rightarrow> bool" where
  "an_inv Pw p lo0 hi0 lo hi x \<longleftrightarrow>
     0 < lo0 \<and> lo0 \<le> lo \<and> lo \<le> x \<and> x \<le> hi \<and> hi \<le> hi0 \<and> p \<le> mean_at Pw lo \<and> mean_at Pw hi \<le> p"

text \<open>The potential every step halves: left of the root, the residual times the slope; right of it, the width.\<close>

definition an_pot :: "(real \<times> real) list \<Rightarrow> real \<Rightarrow> real \<Rightarrow> real \<Rightarrow> real \<Rightarrow> real" where
  "an_pot Pw p lo0 lo x =
     (if mean_at Pw x \<ge> p then (mean_at Pw x - p) * slope_at Pw x else 2 * (slope_at Pw lo0)\<^sup>2 * (x - lo))"

lemma newton_quarter:
  assumes "0 < f" "0 < g" "0 \<le> f'" "0 \<le> g'" "f' + g' * (f / g) \<le> (f :: real)"
  shows "f' * g' \<le> f * g / 4"
proof -
  define u v where "u = f' / f" and "v = g' / g"
  have eq: "f' = u * f" "g' = v * g" using assms by (simp_all add: u_def v_def)
  have "u * f + v * f \<le> f" using assms eq by simp
  then have "f * (u + v) \<le> f * 1" by (simp add: algebra_simps)
  then have s: "u + v \<le> 1" using assms(1) by simp
  have "u \<ge> 0" "v \<ge> 0" using assms by (simp_all add: u_def v_def)
  then have "(u + v)\<^sup>2 \<le> 1" using s by (simp add: power_le_one)
  moreover have "(u - v)\<^sup>2 \<ge> 0" by simp
  ultimately have "u * v \<le> 1 / 4" by (simp add: power2_eq_square algebra_simps)
  then have "(u * v) * (f * g) \<le> (1 / 4) * (f * g)" using assms by (intro mult_right_mono) auto
  then show ?thesis by (simp add: eq algebra_simps)
qed

lemma step_left:
  assumes ok: "weights_ok Pw" and I: "an_inv Pw p lo0 hi0 lo hi x" and f: "mean_at Pw x > p"
    and st: "an_step (mean_at Pw x - p) (- slope_at Pw x) lo hi x = (lo', hi', nx)"
  shows "an_inv Pw p lo0 hi0 lo' hi' nx \<and> nx \<noteq> x \<and> an_pot Pw p lo0 lo' nx \<le> an_pot Pw p lo0 lo x / 2"
proof -
  let ?g = "slope_at Pw x" and ?n = "x + (mean_at Pw x - p) / slope_at Pw x"
  have x: "0 < x" and b: "0 < lo0" "lo0 \<le> x" "x \<le> hi" "hi \<le> hi0" "mean_at Pw hi \<le> p" using I by (auto simp: an_inv_def)
  have g: "?g > 0" using slope_pos [OF ok x] .
  have n: "?n > x" using f g by simp
  then have npos: "?n > 0" using x by simp
  have "mean_at Pw ?n = mean_at Pw x - ?g * (?n - x) + gap_at Pw x ?n" by (rule mean_tangent [OF ok x npos])
  moreover have "?g * (?n - x) = mean_at Pw x - p" using g by simp
  moreover have "gap_at Pw x ?n > 0" by (rule gap_pos [OF ok x npos]) (use n in linarith)
  ultimately have fn: "mean_at Pw ?n > p" by simp
  have nhi: "?n < hi"
  proof (rule ccontr)
    assume "\<not> ?n < hi"
    then have "mean_at Pw ?n \<le> mean_at Pw hi" using mean_antimono(1) [OF ok, of hi ?n] x b by simp
    then show False using fn b by simp
  qed
  have eq: "lo' = x" "hi' = hi" "nx = ?n" using st f g n nhi by (auto simp: an_step_def Let_def not_le split: if_splits)
  have inv: "an_inv Pw p lo0 hi0 lo' hi' nx" using I f n nhi by (auto simp: an_inv_def eq)
  have "mean_at Pw x = mean_at Pw ?n - slope_at Pw ?n * (x - ?n) + gap_at Pw ?n x" by (rule mean_tangent [OF ok npos x])
  then have "mean_at Pw ?n - p + slope_at Pw ?n * ((mean_at Pw x - p) / ?g) \<le> mean_at Pw x - p"
    using gap_nonneg [OF ok npos x] by (simp add: algebra_simps)
  then have "(mean_at Pw ?n - p) * slope_at Pw ?n \<le> (mean_at Pw x - p) * ?g / 4"
    using f fn g slope_pos [OF ok npos] by (intro newton_quarter) auto
  also have "\<dots> \<le> (mean_at Pw x - p) * ?g / 2" using f g by simp
  finally have "an_pot Pw p lo0 lo' nx \<le> an_pot Pw p lo0 lo x / 2" using fn f by (simp add: an_pot_def eq)
  moreover have "nx \<noteq> x" using n eq by linarith
  ultimately show ?thesis using inv by blast
qed

lemma step_right:
  assumes ok: "weights_ok Pw" and I: "an_inv Pw p lo0 hi0 lo hi x" and f: "mean_at Pw x < p"
    and st: "an_step (mean_at Pw x - p) (- slope_at Pw x) lo hi x = (lo', hi', nx)"
  shows "an_inv Pw p lo0 hi0 lo' hi' nx \<and> nx \<noteq> x \<and> an_pot Pw p lo0 lo' nx \<le> an_pot Pw p lo0 lo x / 2"
proof -
  let ?g = "slope_at Pw x" and ?G = "slope_at Pw lo0"
  have x: "0 < x" and b: "0 < lo0" "lo0 \<le> lo" "lo \<le> x" "x \<le> hi" "hi \<le> hi0" "p \<le> mean_at Pw lo" using I by (auto simp: an_inv_def)
  have lox: "lo < x" using b f by (cases "lo = x") auto
  have g: "?g > 0" "?G > 0" using slope_pos [OF ok] x b by auto
  have eq: "lo' = lo" "hi' = x" "nx = (if lo < x + (mean_at Pw x - p) / ?g \<and> x + (mean_at Pw x - p) / ?g < x
      then x + (mean_at Pw x - p) / ?g else (lo + x) / 2)"
    using st f g by (auto simp: an_step_def Let_def not_le split: if_splits)
  then have nx: "lo < nx" "nx < x" using lox by (auto split: if_splits)
  have inv: "an_inv Pw p lo0 hi0 lo' hi' nx" using I f nx by (auto simp: an_inv_def eq(1,2))
  have near: "(mean_at Pw y - p) * slope_at Pw y \<le> ?G * ?G * (x - lo)"
    if "lo \<le> y" "y \<le> x" "mean_at Pw y \<ge> p" for y
  proof -
    have y: "0 < y" using that b by simp
    have gy: "0 < slope_at Pw y" "slope_at Pw y \<le> ?G" using slope_pos [OF ok y] slope_antimono [OF ok b(1)] b that by auto
    have "mean_at Pw y - p \<le> mean_at Pw y - mean_at Pw x" using f by simp
    also have "\<dots> \<le> slope_at Pw y * (x - y)" by (rule mean_antimono(2) [OF ok y that(2)])
    also have "\<dots> \<le> ?G * (x - lo)" using gy that by (intro mult_mono) auto
    finally have "(mean_at Pw y - p) * slope_at Pw y \<le> (?G * (x - lo)) * ?G"
      using gy that by (intro mult_mono) auto
    then show ?thesis by (simp only: ac_simps)
  qed
  have "an_pot Pw p lo0 lo' nx \<le> ?G * ?G * (x - lo)"
  proof (cases "mean_at Pw nx \<ge> p")
    case True
    then show ?thesis using near [of nx] nx by (simp add: an_pot_def)
  next
    case False
    have "nx = (lo + x) / 2"
    proof (rule ccontr)
      assume "nx \<noteq> (lo + x) / 2"
      then have n: "nx = x + (mean_at Pw x - p) / ?g" using eq by (auto split: if_splits)
      then have "?g * (nx - x) = mean_at Pw x - p" using g by simp
      then have "mean_at Pw nx = p + gap_at Pw x nx" using mean_tangent [OF ok x, of nx] nx b by simp
      then show False using False gap_nonneg [OF ok x, of nx] nx b by simp
    qed
    then have half: "nx - lo = (x - lo) / 2" by (simp add: field_simps)
    have "an_pot Pw p lo0 lo' nx = 2 * ?G\<^sup>2 * ((x - lo) / 2)" using False by (simp only: an_pot_def eq(1) half if_False)
    then show ?thesis by (simp add: power2_eq_square)
  qed
  also have "\<dots> = an_pot Pw p lo0 lo x / 2" using f by (simp add: an_pot_def power2_eq_square)
  finally show ?thesis using inv nx by simp
qed

text \<open>The residual in terms of the potential, and in terms of a closed bracket.\<close>

lemma residual_pot:
  assumes ok: "weights_ok Pw" and I: "an_inv Pw p lo0 hi0 lo hi x"
  shows "\<bar>mean_at Pw x - p\<bar> * slope_at Pw hi0 \<le> an_pot Pw p lo0 lo x"
proof -
  have b: "0 < lo0" "lo0 \<le> lo" "0 < lo" "lo \<le> x" "x \<le> hi0" "p \<le> mean_at Pw lo" "0 < x" "0 < hi0" using I by (auto simp: an_inv_def)
  have g: "0 < slope_at Pw hi0" "slope_at Pw hi0 \<le> slope_at Pw x" "slope_at Pw hi0 \<le> slope_at Pw lo0" "slope_at Pw lo \<le> slope_at Pw lo0"
    using slope_pos [OF ok b(8)] slope_antimono [OF ok] b by auto
  show ?thesis
  proof (cases "mean_at Pw x \<ge> p")
    case True
    then show ?thesis using g by (simp add: an_pot_def mult_left_mono)
  next
    case False
    have "p - mean_at Pw x \<le> mean_at Pw lo - mean_at Pw x" using b by simp
    also have "\<dots> \<le> slope_at Pw lo * (x - lo)" by (rule mean_antimono(2) [OF ok b(3,4)])
    also have "\<dots> \<le> slope_at Pw lo0 * (x - lo)" using g b by (intro mult_right_mono) auto
    finally have "(p - mean_at Pw x) * slope_at Pw hi0 \<le> (slope_at Pw lo0 * (x - lo)) * slope_at Pw lo0"
      using False g b by (intro mult_mono) auto
    moreover have "0 \<le> (slope_at Pw lo0 * (x - lo)) * slope_at Pw lo0" using g b by auto
    ultimately have "(p - mean_at Pw x) * slope_at Pw hi0 \<le> 2 * ((slope_at Pw lo0 * (x - lo)) * slope_at Pw lo0)" by linarith
    then show ?thesis using False by (simp add: an_pot_def power2_eq_square algebra_simps)
  qed
qed

lemma residual_closed:
  assumes ok: "weights_ok Pw" and I: "an_inv Pw p lo0 hi0 lo hi x" and c: "hi - lo \<le> 1 / 10 ^ 15 * hi"
  shows "\<bar>mean_at Pw x - p\<bar> < 1 / 10 ^ 13"
proof -
  have b: "0 < lo" "lo \<le> x" "x \<le> hi" "0 < x" "0 < hi" "p \<le> mean_at Pw lo" "mean_at Pw hi \<le> p" using I by (auto simp: an_inv_def)
  have "mean_at Pw x \<le> mean_at Pw lo" "mean_at Pw hi \<le> mean_at Pw x"
    using mean_antimono(1) [OF ok] b by auto
  then have "\<bar>mean_at Pw x - p\<bar> \<le> mean_at Pw lo - mean_at Pw hi" using b by linarith
  also have "\<dots> \<le> slope_at Pw lo * (hi - lo)" by (rule mean_antimono(2) [OF ok]) (use b in auto)
  also have "\<dots> \<le> slope_at Pw lo * (1 / 10 ^ 15 * (2 * lo))"
  proof (rule mult_left_mono)
    have "hi - lo \<le> 1 / 2 * hi" using c b by (rule_tac order_trans [OF c]) simp
    then have "hi \<le> 2 * lo" by simp
    then show "hi - lo \<le> 1 / 10 ^ 15 * (2 * lo)" using c by simp
  qed (use slope_pos [OF ok b(1)] in simp)
  also have "\<dots> = 2 / 10 ^ 15 * (lo * slope_at Pw lo)" by simp
  also have "\<dots> \<le> 2 / 10 ^ 15 * (1 / 4)" using slope_quarter [OF ok b(1)] by simp
  finally show ?thesis by simp
qed

lemma an_loop_converges:
  assumes ok: "weights_ok (zip (an_prior a) (an_w a))" (is "weights_ok ?Pw")
  shows "an_inv ?Pw p lo0 hi0 lo hi x \<Longrightarrow> an_pot ?Pw p lo0 lo x < 2 ^ left * (slope_at ?Pw hi0 / 10 ^ 13) \<Longrightarrow>
    \<exists>x'. fst (an_loop a p r left lo hi x) = an_out a x' \<and> lo0 \<le> x' \<and> x' \<le> hi0 \<and> \<bar>mean_at ?Pw x' - p\<bar> < 1 / 10 ^ 13"
proof (induction left arbitrary: lo hi x)
  case 0
  have "hi0 > 0" using "0.prems"(1) by (auto simp: an_inv_def)
  then have g: "slope_at ?Pw hi0 > 0" by (rule slope_pos [OF ok])
  have "\<bar>mean_at ?Pw x - p\<bar> * slope_at ?Pw hi0 < (1 / 10 ^ 13) * slope_at ?Pw hi0"
    using residual_pot [OF ok "0.prems"(1)] "0.prems"(2) by simp
  then have "\<bar>mean_at ?Pw x - p\<bar> < 1 / 10 ^ 13" using g by (rule mult_right_less_imp_less [OF _ less_imp_le])
  moreover have "fst (an_loop a p r 0 lo hi x) = an_out a x" by (simp add: an_loop.simps [of a p r 0] Let_def)
  ultimately show ?case using "0.prems"(1) by (auto simp: an_inv_def)
next
  case (Suc n)
  have in0: "lo0 \<le> x" "x \<le> hi0" using Suc.prems(1) by (auto simp: an_inv_def)
  show ?case
  proof (cases "\<bar>an_f a p x\<bar> < 1 / 10 ^ 13 \<or> hi - lo \<le> 1 / 10 ^ 15 * hi")
    case True
    then have "\<bar>mean_at ?Pw x - p\<bar> < 1 / 10 ^ 13" using residual_closed [OF ok Suc.prems(1)] by (auto simp: an_f_eq)
    moreover have "fst (an_loop a p r (Suc n) lo hi x) = an_out a x" using True by (simp add: an_loop.simps [of a p r "Suc n"] Let_def)
    ultimately show ?thesis using in0 by blast
  next
    case False
    obtain lo' hi' nx where st: "an_step (an_f a p x) (an_df a x) lo hi x = (lo', hi', nx)"
      by (cases "an_step (an_f a p x) (an_df a x) lo hi x")
    have ne: "mean_at ?Pw x > p \<or> mean_at ?Pw x < p" using False by (auto simp: an_f_eq)
    have one: "an_inv ?Pw p lo0 hi0 lo' hi' nx \<and> nx \<noteq> x \<and> an_pot ?Pw p lo0 lo' nx \<le> an_pot ?Pw p lo0 lo x / 2"
      using ne step_left [OF ok Suc.prems(1)] step_right [OF ok Suc.prems(1)] st by (auto simp: an_f_eq an_df_eq)
    then have "an_pot ?Pw p lo0 lo' nx < 2 ^ n * (slope_at ?Pw hi0 / 10 ^ 13)" using Suc.prems(2) by simp
    note r = Suc.IH [OF conjunct1 [OF one] this]
    have "an_loop a p r (Suc n) lo hi x = an_loop a p r n lo' hi' nx"
      using False st one by (simp add: an_loop.simps [of a p r "Suc n"] Let_def)
    then show ?thesis using r by simp
  qed
qed

section \<open>The profiles average back to the edge\<close>

lemma fold_min_le: "fold min xs (b :: real) \<le> b \<and> (\<forall>x \<in> set xs. fold min xs b \<le> x) \<and> fold min xs b \<in> insert b (set xs)"
proof (induction xs arbitrary: b)
  case Nil
  then show ?case by simp
next
  case (Cons x xs)
  show ?case using Cons [of "min x b"] by (auto simp: min_def split: if_splits)
qed

lemma fold_max_ge: "fold max xs (b :: real) \<ge> b \<and> (\<forall>x \<in> set xs. fold max xs b \<ge> x) \<and> fold max xs b \<in> insert b (set xs)"
proof (induction xs arbitrary: b)
  case Nil
  then show ?case by simp
next
  case (Cons x xs)
  show ?case using Cons [of "max x b"] by (auto simp: max_def split: if_splits)
qed

text \<open>The profiles a search runs on: some prior is positive, none is negative.\<close>

definition profiles_ok :: "profile list \<Rightarrow> bool" where
  "profiles_ok profs \<longleftrightarrow> (\<forall>c \<in> set profs. pf_prior c \<ge> 0) \<and> sum_list (map pf_prior profs) > 0"

lemma anchor_bracket:
  fixes k :: real
  assumes "profs \<noteq> []"
  defines "a \<equiv> new_anchor k profs"
  shows "\<forall>c \<in> set profs. an_lo a \<le> exp (pf_skill c * k) \<and> exp (pf_skill c * k) \<le> an_hi a"
    "\<exists>c \<in> set profs. an_lo a = exp (pf_skill c * k)" "\<exists>c \<in> set profs. an_hi a = exp (pf_skill c * k)"
proof -
  obtain d ds where ds: "profs = d # ds" using assms(1) by (cases profs) auto
  have inv: "1 / exp (- s) = exp (s :: real)" for s by (simp add: exp_minus field_simps)
  let ?f = "\<lambda>c. exp (pf_skill c * k)"
  have lo: "an_lo a = fold min (map ?f ds) (?f d)" and hi: "an_hi a = fold max (map ?f ds) (?f d)"
    by (simp_all add: a_def new_anchor_def ds inv comp_def Let_def)
  show "\<forall>c \<in> set profs. an_lo a \<le> ?f c \<and> ?f c \<le> an_hi a" unfolding lo hi
    using fold_min_le [where xs = "map ?f ds" and b = "?f d"] fold_max_ge [where xs = "map ?f ds" and b = "?f d"] by (auto simp: ds)
  show "\<exists>c \<in> set profs. an_lo a = ?f c" unfolding lo
    using fold_min_le [where xs = "map ?f ds" and b = "?f d"] by (auto simp: ds)
  show "\<exists>c \<in> set profs. an_hi a = ?f c" unfolding hi
    using fold_max_ge [where xs = "map ?f ds" and b = "?f d"] by (auto simp: ds)
qed

lemma anchor_weights:
  assumes "profiles_ok profs"
  shows "weights_ok (zip (an_prior (new_anchor k profs)) (an_w (new_anchor k profs)))"
proof -
  let ?t = "sum_list (map pf_prior profs)"
  have z: "zip (an_prior (new_anchor k profs)) (an_w (new_anchor k profs)) =
      map (\<lambda>c. (pf_prior c / ?t, exp (- pf_skill c * k))) profs"
    using assms by (simp add: new_anchor_def profiles_ok_def zip_map_map zip_same_conv_map Let_def)
  have "sum_list (map (\<lambda>c. pf_prior c / ?t) profs) = ?t / ?t"
    unfolding divide_inverse by (simp add: sum_list_mult_const)
  then show ?thesis using assms unfolding z by (auto simp: weights_ok_def profiles_ok_def comp_def)
qed

text \<open>At the low end of the bracket every profile is at least \<open>p\<close>, at the high end at most.\<close>

lemma mean_side:
  assumes ok: "weights_ok Pw" and p: "0 < p" "p < 1"
  shows "\<forall>(P, w) \<in> set Pw. x * w \<le> (1 - p) / p \<Longrightarrow> x > 0 \<Longrightarrow> p \<le> mean_at Pw x"
    and "\<forall>(P, w) \<in> set Pw. (1 - p) / p \<le> x * w \<Longrightarrow> x > 0 \<Longrightarrow> mean_at Pw x \<le> p"
proof -
  have s: "(\<Sum>(P, w) \<leftarrow> Pw. P * p) = p"
  proof -
    have "(\<Sum>(P, w) \<leftarrow> Pw. P * p) = (\<Sum>(P, w) \<leftarrow> Pw. P) * p" by (induction Pw) (auto simp: distrib_right)
    then show ?thesis using weights_sum [OF ok] by simp
  qed
  show "p \<le> mean_at Pw x" if a: "\<forall>(P, w) \<in> set Pw. x * w \<le> (1 - p) / p" "x > 0"
  proof -
    have "(\<Sum>(P, w) \<leftarrow> Pw. P * p) \<le> mean_at Pw x" unfolding mean_at_def
    proof (rule sum_list_mono, clarify)
      fix P w assume pw: "(P, w) \<in> set Pw"
      note b = weights_okD [OF ok pw]
      have "x * w \<le> (1 - p) / p" using a pw by auto
      then have "(x * w) * p \<le> 1 - p" using p by (simp add: le_divide_eq)
      then have "p * (1 + x * w) \<le> 1" by (simp add: algebra_simps)
      moreover have "1 + x * w > 0" using a b by (simp add: add_pos_pos)
      ultimately have "p \<le> q_at x w" by (simp add: q_at_def le_divide_eq)
      then show "P * p \<le> P * q_at x w" using b mult_left_mono by blast
    qed
    then show ?thesis using s by simp
  qed
  show "mean_at Pw x \<le> p" if a: "\<forall>(P, w) \<in> set Pw. (1 - p) / p \<le> x * w" "x > 0"
  proof -
    have "mean_at Pw x \<le> (\<Sum>(P, w) \<leftarrow> Pw. P * p)" unfolding mean_at_def
    proof (rule sum_list_mono, clarify)
      fix P w assume pw: "(P, w) \<in> set Pw"
      note b = weights_okD [OF ok pw]
      have "(1 - p) / p \<le> x * w" using a pw by auto
      then have "1 - p \<le> (x * w) * p" using p by (simp add: divide_le_eq)
      then have "1 \<le> p * (1 + x * w)" by (simp add: algebra_simps)
      moreover have "1 + x * w > 0" using a b by (simp add: add_pos_pos)
      ultimately have "q_at x w \<le> p" by (simp add: q_at_def divide_le_eq)
      then show "P * q_at x w \<le> P * p" using b mult_left_mono by blast
    qed
    then show ?thesis using s by simp
  qed
qed

lemma pot_start:
  assumes ok: "weights_ok Pw" and I: "an_inv Pw p lo0 hi0 lo0 hi0 x" and p: "0 \<le> p" and w: "hi0 \<le> 50 * lo0"
  shows "an_pot Pw p lo0 lo0 x < 2 ^ 60 * (slope_at Pw hi0 / 10 ^ 13)"
proof -
  have b: "0 < lo0" "lo0 \<le> x" "x \<le> hi0" "0 < hi0" "0 < x" "lo0 \<le> hi0" using I by (auto simp: an_inv_def)
  let ?G = "slope_at Pw lo0" and ?H = "slope_at Pw hi0"
  have g: "0 < ?G" "0 < ?H" "slope_at Pw x \<le> ?G" "0 < slope_at Pw x"
    using slope_pos [OF ok] slope_antimono [OF ok] b by auto
  have ratio: "hi0 / lo0 \<le> 50" "0 \<le> hi0 / lo0" using w b by (simp_all add: divide_le_eq)
  have "?G \<le> (hi0 / lo0)\<^sup>2 * ?H" by (rule slope_ratio [OF ok b(1,6)])
  also have "\<dots> \<le> 50\<^sup>2 * ?H" using ratio g by (intro mult_right_mono power_mono) auto
  finally have GH: "?G \<le> 2500 * ?H" by simp
  have lip: "lo0 * ?G \<le> 1 / 4" by (rule slope_quarter [OF ok b(1)])
  have "an_pot Pw p lo0 lo0 x \<le> 25 * ?G"
  proof (cases "mean_at Pw x \<ge> p")
    case True
    have "mean_at Pw x - p \<le> 25" using mean_le_1 [OF ok b(5)] p by simp
    then have "(mean_at Pw x - p) * slope_at Pw x \<le> 25 * ?G" using g True by (intro mult_mono) auto
    then show ?thesis using True by (simp add: an_pot_def)
  next
    case False
    have "x - lo0 \<le> 50 * lo0" using b w by linarith
    then have "?G * (x - lo0) \<le> ?G * (50 * lo0)" using g by simp
    also have "\<dots> = 50 * (lo0 * ?G)" by simp
    also have "\<dots> \<le> 25 / 2" using lip by simp
    finally have "(2 * ?G) * (?G * (x - lo0)) \<le> (2 * ?G) * (25 / 2)" using g by (intro mult_left_mono) auto
    then show ?thesis using False by (simp add: an_pot_def power2_eq_square algebra_simps)
  qed
  also have "\<dots> \<le> 62500 * ?H" using GH by simp
  also have "\<dots> < 2 ^ 60 * (?H / 10 ^ 13)" using g by simp
  finally show ?thesis .
qed

lemma profile_probs_spec:
  assumes ok: "profiles_ok profs"
    and spread: "\<And>c d. c \<in> set profs \<Longrightarrow> d \<in> set profs \<Longrightarrow>
      exp (pf_skill c * skill_sensitivity basis) \<le> 50 * exp (pf_skill d * skill_sensitivity basis)"
  shows "\<exists>x > 0. profile_probs p basis profs = map (\<lambda>c. q_at x (exp (- pf_skill c * skill_sensitivity basis))) profs \<and>
    \<bar>mean_at (zip (an_prior (new_anchor (skill_sensitivity basis) profs)) (an_w (new_anchor (skill_sensitivity basis) profs))) x -
      min (max p prob_clamp) (1 - prob_clamp)\<bar> < 1 / 10 ^ 13"
proof -
  let ?k = "skill_sensitivity basis"
  define a where "a = new_anchor ?k profs"
  let ?Pw = "zip (an_prior a) (an_w a)"
  define P where "P = min (max p prob_clamp) (1 - prob_clamp)"
  have P: "0 < P" "P < 1" by (auto simp: P_def prob_clamp_def)
  define r where "r = (1 - P) / P"
  have r: "r > 0" using P by (simp add: r_def)
  have ne: "profs \<noteq> []" using ok by (auto simp: profiles_ok_def)
  have w: "an_w a = map (\<lambda>c. exp (- pf_skill c * ?k)) profs" by (simp add: a_def new_anchor_def Let_def)
  have wok: "weights_ok ?Pw" unfolding a_def by (rule anchor_weights [OF ok])
  note br = anchor_bracket [OF ne, of ?k, folded a_def]
  obtain cl ch where cl: "cl \<in> set profs" "an_lo a = exp (pf_skill cl * ?k)"
      and ch: "ch \<in> set profs" "an_hi a = exp (pf_skill ch * ?k)" using br(2,3) by blast
  have lohi: "0 < an_lo a" "0 < an_hi a" "an_lo a \<le> an_hi a" "an_hi a \<le> 50 * an_lo a"
    using cl ch br(1) spread by auto
  let ?lo = "r * an_lo a" and ?hi = "r * an_hi a"
  have in_w: "w \<in> set (an_w a)" if "(P, w) \<in> set ?Pw" for P w using that by (rule set_zip_rightD)
  have unit: "exp (s * ?k) * exp (- s * ?k) = 1" for s by (simp flip: exp_add)
  have low: "P \<le> mean_at ?Pw ?lo"
  proof (rule mean_side(1) [OF wok P])
    show "\<forall>(P', w) \<in> set ?Pw. ?lo * w \<le> (1 - P) / P"
    proof clarify
      fix P' w assume "(P', w) \<in> set ?Pw"
      then obtain c where c: "c \<in> set profs" "w = exp (- pf_skill c * ?k)" using in_w w by auto
      have "an_lo a * w \<le> exp (pf_skill c * ?k) * w" using br(1) c by (intro mult_right_mono) auto
      then have "an_lo a * w \<le> 1" unfolding c(2) unit .
      then show "?lo * w \<le> (1 - P) / P" unfolding r_def [symmetric] using r by (simp add: mult.assoc mult_left_le)
    qed
  qed (use r lohi in simp)
  have high: "mean_at ?Pw ?hi \<le> P"
  proof (rule mean_side(2) [OF wok P])
    show "\<forall>(P', w) \<in> set ?Pw. (1 - P) / P \<le> ?hi * w"
    proof clarify
      fix P' w assume "(P', w) \<in> set ?Pw"
      then obtain c where c: "c \<in> set profs" "w = exp (- pf_skill c * ?k)" using in_w w by auto
      have "exp (pf_skill c * ?k) * w \<le> an_hi a * w" using br(1) c by (intro mult_right_mono) auto
      then have "1 \<le> an_hi a * w" unfolding c(2) unit .
      then have "r * 1 \<le> r * (an_hi a * w)" using r by (intro mult_left_mono) auto
      then show "(1 - P) / P \<le> ?hi * w" unfolding r_def [symmetric] by (simp add: mult.assoc)
    qed
  qed (use r lohi in simp)
  define x where "x = (if ?hi - ?lo \<le> 1 / 10 ^ 15 * ?hi then ?lo else sqrt (?lo * ?hi))"
  have le: "0 < ?lo" "?lo \<le> ?hi" using r lohi by simp_all
  have "?lo \<le> sqrt (?lo * ?hi)" "sqrt (?lo * ?hi) \<le> ?hi"
  proof -
    have "?lo\<^sup>2 \<le> ?lo * ?hi" "?lo * ?hi \<le> ?hi\<^sup>2"
      unfolding power2_eq_square using mult_left_mono [OF le(2), of ?lo] mult_right_mono [OF le(2), of ?hi] le by linarith+
    then show "?lo \<le> sqrt (?lo * ?hi)" "sqrt (?lo * ?hi) \<le> ?hi"
      using le real_le_rsqrt real_le_lsqrt by (auto intro: real_le_rsqrt real_le_lsqrt)
  qed
  then have I: "an_inv ?Pw P ?lo ?hi ?lo ?hi x" using le low high by (simp add: an_inv_def x_def)
  have "?hi \<le> 50 * ?lo" using mult_left_mono [OF lohi(4), of r] r by simp
  note pot = pot_start [OF wok I less_imp_le [OF P(1)] this]
  obtain x' where x': "fst (an_loop a P r 60 ?lo ?hi x) = an_out a x'" "?lo \<le> x'" "\<bar>mean_at ?Pw x' - P\<bar> < 1 / 10 ^ 13"
    using an_loop_converges [OF wok I pot] by blast
  have "profile_probs p basis profs = an_out a x'"
  proof -
    have nw: "(an_w a = []) = False" using ne w by simp
    have nx: "(r * 0 > ?lo \<and> r * 0 < ?hi) = False" using le by simp
    have "an_probs a p 0 = an_loop a P r 60 ?lo ?hi x"
      unfolding an_probs_def Let_def P_def [symmetric] r_def [symmetric] x_def nw nx by (simp only: if_False if_True not_False_eq_True)
    then show ?thesis using x'(1) by (simp only: profile_probs_def a_def)
  qed
  also have "\<dots> = map (\<lambda>c. q_at x' (exp (- pf_skill c * ?k))) profs" by (simp add: an_out_def w q_at_def)
  finally have "profile_probs p basis profs = map (\<lambda>c. q_at x' (exp (- pf_skill c * ?k))) profs" .
  moreover have "x' > 0" using x'(2) le by linarith
  ultimately show ?thesis using x'(3) unfolding a_def P_def by blast
qed

subsection \<open>The priors an operator sets\<close>

lemma overrides_nonneg: "map_of (prior_overrides parse_float spec) n = Some v \<Longrightarrow> v \<ge> 0"
proof -
  let ?f = "\<lambda>part m. case str_cut part '':'' of
          None \<Rightarrow> m
        | Some (k, v) \<Rightarrow>
            (case parse_float (trim_space v) of
               None \<Rightarrow> m
             | Some f \<Rightarrow> if f < 0 then m else AList.update (to_lower (trim_space k)) f m)"
  have "(\<forall>n v. map_of m n = Some v \<longrightarrow> v \<ge> 0) \<Longrightarrow> map_of (fold ?f parts m) n = Some v \<Longrightarrow> v \<ge> 0" for parts m n v
  proof (induction parts arbitrary: m)
    case Nil
    then show ?case by simp
  next
    case (Cons part parts)
    have "\<forall>n v. map_of (?f part m) n = Some v \<longrightarrow> v \<ge> 0"
      using Cons.prems(1) by (auto simp: map_of_update split: option.splits if_splits)
    then show ?case using Cons by simp
  qed
  then show "map_of (prior_overrides parse_float spec) n = Some v \<Longrightarrow> v \<ge> 0"
    unfolding prior_overrides_def by (metis (no_types, lifting) map_of.simps(1) option.distinct(1))
qed

lemma set_priors_spec:
  fixes parse_float :: "string \<Rightarrow> real option" and spec :: string
  defines "profs \<equiv> set_priors parse_float spec"
  shows "profiles_ok profs" "sum_list (map pf_prior profs) = 1"
    "map pf_name profs = [''commodity'', ''criminal'', ''apt'']" "map pf_skill profs = [-1.6, 0, 1.6]"
proof -
  define ov where "ov = prior_overrides parse_float (trim_space spec)"
  define base where "base = (if trim_space spec \<noteq> [] then map (\<lambda>c. case map_of ov (pf_name c) of Some v \<Rightarrow> c\<lparr>pf_prior := v\<rparr> | None \<Rightarrow> c) default_profiles
      else default_profiles)"
  define s where "s = sum_list (map pf_prior base)"
  have profs: "profs = (if s \<le> 0 then default_profiles else map (\<lambda>c. c\<lparr>pf_prior := pf_prior c / s\<rparr>) base)"
    unfolding profs_def set_priors_def Let_def base_def s_def ov_def by simp
  have nonneg: "\<forall>c \<in> set base. pf_prior c \<ge> 0"
    using overrides_nonneg [of parse_float "trim_space spec"] by (auto simp: base_def ov_def default_profiles_def split: option.splits)
  have names: "map pf_name base = [''commodity'', ''criminal'', ''apt'']" "map pf_skill base = [-1.6, 0, 1.6]"
    by (auto simp: base_def default_profiles_def split: option.splits)
  have "sum_list (map (\<lambda>c. pf_prior c / s) base) = s / s" unfolding s_def divide_inverse by (simp add: sum_list_mult_const)
  then have one: "s > 0 \<Longrightarrow> sum_list (map (\<lambda>c. pf_prior c / s) base) = 1" by simp
  show sum: "sum_list (map pf_prior profs) = 1" using one by (auto simp: profs default_profiles_def comp_def)
  have "\<forall>c \<in> set profs. pf_prior c \<ge> 0" using nonneg by (auto simp: profs default_profiles_def)
  then show "profiles_ok profs" using sum by (simp add: profiles_ok_def)
  show "map pf_name profs = [''commodity'', ''criminal'', ''apt'']" "map pf_skill profs = [-1.6, 0, 1.6]"
    using names by (auto simp: profs default_profiles_def comp_def)
qed

lemma skill_sensitivity_range: "0 < skill_sensitivity b \<and> skill_sensitivity b \<le> 1"
  by (simp add: skill_sensitivity_def)

lemma exp_spread: "exp (3.2 :: real) \<le> 50"
proof -
  have "exp (1 / 5) * (1 - 1 / 5) \<le> exp (1 / 5 :: real) * exp (- (1 / 5))"
    using exp_ge_add_one_self [of "- (1 / 5) :: real"] by (intro mult_left_mono) auto
  then have "exp (1 / 5 :: real) \<le> 5 / 4" by (simp flip: exp_add)
  then have "exp (1 / 5 :: real) ^ 16 \<le> (5 / 4) ^ 16" by (intro power_mono) auto
  moreover have "exp (1 / 5 :: real) ^ 16 = exp 3.2" by (simp flip: exp_of_nat_mult)
  moreover have "(5 / 4 :: real) ^ 16 \<le> 50" by (simp add: power_divide)
  ultimately show ?thesis by linarith
qed

lemma set_priors_anchored:
  "let profs = set_priors parse_float spec; q = profile_probs p basis profs
   in length q = 3 \<and> \<bar>(\<Sum>(c, x) \<leftarrow> zip profs q. pf_prior c * x) - min (max p prob_clamp) (1 - prob_clamp)\<bar> < 1 / 10 ^ 13 \<and>
      0 < q ! 0 \<and> q ! 0 < q ! 1 \<and> q ! 1 < q ! 2 \<and> q ! 2 < 1"
proof -
  define profs where "profs = set_priors parse_float spec"
  define q where "q = profile_probs p basis profs"
  let ?k = "skill_sensitivity basis"
  note sp = set_priors_spec [of parse_float spec, folded profs_def]
  obtain c0 c1 c2 where cs: "profs = [c0, c1, c2]" "pf_skill c0 = -1.6" "pf_skill c1 = 0" "pf_skill c2 = 1.6"
    using sp(4) by (auto simp: map_eq_Cons_conv)
  have k: "0 < ?k" "?k \<le> 1" using skill_sensitivity_range by auto
  have "exp (pf_skill c * ?k) \<le> 50 * exp (pf_skill d * ?k)" if "c \<in> set profs" "d \<in> set profs" for c d
  proof -
    have "pf_skill c - pf_skill d \<le> 3.2" "-3.2 \<le> pf_skill c - pf_skill d" using that cs by auto
    then have "(pf_skill c - pf_skill d) * ?k \<le> 3.2 * 1" using k by (intro mult_mono) auto
    then have "exp ((pf_skill c - pf_skill d) * ?k) \<le> exp 3.2" by simp
    then have "exp ((pf_skill c - pf_skill d) * ?k) \<le> 50" using exp_spread by linarith
    then have "exp ((pf_skill c - pf_skill d) * ?k) * exp (pf_skill d * ?k) \<le> 50 * exp (pf_skill d * ?k)"
      by (intro mult_right_mono) auto
    then show ?thesis by (simp add: algebra_simps flip: exp_add)
  qed
  note s = profile_probs_spec [OF sp(1) this, of p]
  then obtain x where x: "x > 0" "q = map (\<lambda>c. q_at x (exp (- pf_skill c * ?k))) profs"
      "\<bar>mean_at (zip (an_prior (new_anchor ?k profs)) (an_w (new_anchor ?k profs))) x - min (max p prob_clamp) (1 - prob_clamp)\<bar> < 1 / 10 ^ 13"
    unfolding q_def by blast
  have "mean_at (zip (an_prior (new_anchor ?k profs)) (an_w (new_anchor ?k profs))) x = (\<Sum>(c, x) \<leftarrow> zip profs q. pf_prior c * x)"
    using sp(2) by (simp add: x(2) mean_at_def new_anchor_def Let_def cs)
  moreover have "q ! 0 < q ! 1" "q ! 1 < q ! 2"
    unfolding x(2) cs using x(1) k cs by (simp_all add: q_at_def divide_strict_left_mono add_pos_pos)
  moreover have "0 < q ! 0" "q ! 2 < 1" unfolding x(2) cs using x(1) by (simp_all add: q_at_def add_pos_pos)
  moreover have "length q = 3" by (simp add: x(2) cs)
  ultimately show ?thesis using x(3) unfolding Let_def profs_def [symmetric] q_def [symmetric] by simp
qed

text \<open>
  C16. Whatever priors the operator configures, the three profiles' probabilities of an edge
  are anchored: weighted by their priors they average back to the edge's own probability
  (kept off 0 and 1) within \<open>1e-13\<close>, so the search's 61 evaluations always suffice. Each
  is a probability, and a more skilled attacker's is strictly greater.
\<close>

theorem profiles_anchored:
  "let profs = set_priors parse_float spec; q = profile_probs p basis profs
   in length q = 3 \<and> \<bar>(\<Sum>(c, x) \<leftarrow> zip profs q. pf_prior c * x) - min (max p prob_clamp) (1 - prob_clamp)\<bar> < 1 / 10 ^ 13 \<and>
      0 < q ! 0 \<and> q ! 0 < q ! 1 \<and> q ! 1 < q ! 2 \<and> q ! 2 < 1"
  by (rule set_priors_anchored)

end
