(* ===== verification/Uncertainty.thy ===== *)
theory Uncertainty
  imports Profiles "HOL-Library.Word"
begin

text \<open>
  The evidence behind a probability, \<open>backend/internal/analyzer/uncertainty.go\<close>: the Beta posterior of an edge, the
  Marsaglia-Tsang sampler and the coherent posterior of a path. The generator of \<open>math/rand/v2\<close> is a
  parameter, a state with its seeding, its normal and its uniform deviate.
\<close>

section \<open>Beta posteriors\<close>

definition conc_min :: real where "conc_min = 3"
definition conc_max :: real where "conc_max = 80"
definition beta_eps :: real where "beta_eps = 1 / 10 ^ 4"
definition score_samples :: nat where "score_samples = 256"

definition concentration :: "real \<Rightarrow> real" where
  "concentration conf =
     (let c = conf; c = (if c < 0 then 0 else c); c = (if c > 1 then 1 else c)
      in conc_min + (conc_max - conc_min) * c ^ 3)"

definition beta_params :: "real \<Rightarrow> real \<Rightarrow> int \<Rightarrow> real \<times> real" where
  "beta_params p0 conf evid =
     (let p = (if p0 < beta_eps then beta_eps else p0); p = (if p > 1 - beta_eps then 1 - beta_eps else p);
          k = concentration conf; k = (if evid > 0 then k + of_int evid else k)
      in (p * k, (1 - p) * k))"

definition pct_index :: "real \<Rightarrow> nat \<Rightarrow> nat" where
  "pct_index q n =
     (let i = trunc_int (q * (real n - 1) + 0.5)
      in if i < 0 then 0 else if i \<ge> int n then n - 1 else nat i)"

section \<open>Sampling\<close>

record 'r rng =
  rg_seed :: "64 word \<Rightarrow> 64 word \<Rightarrow> 'r"
  rg_norm :: "'r \<Rightarrow> real \<times> 'r"
  rg_unif :: "'r \<Rightarrow> real \<times> 'r"

text \<open>The rejection loop; \<open>None\<close> when it never accepts. \<open>math.Log(0)\<close> is minus infinity.\<close>

partial_function (option) gamma_loop :: "'r rng \<Rightarrow> real \<Rightarrow> real \<Rightarrow> 'r \<Rightarrow> (real \<times> 'r) option" where
  "gamma_loop rng d c s0 =
     (let (x, s) = rg_norm rng s0; v = 1 + c * x
      in if v \<le> 0 then gamma_loop rng d c s
         else (let v = v * v * v; (u, s) = rg_unif rng s
               in if u < 1 - 0.0331 * x * x * x * x then Some (d * v, s)
                  else if u = 0 \<or> ln u < 0.5 * x * x + d * (1 - v + ln v) then Some (d * v, s)
                  else gamma_loop rng d c s))"

partial_function (option) sample_gamma :: "'r rng \<Rightarrow> real \<Rightarrow> 'r \<Rightarrow> (real \<times> 'r) option" where
  "sample_gamma rng shape s =
     (if shape < 1
      then Option.bind (sample_gamma rng (shape + 1) s)
             (\<lambda>(g, s). let (u, s) = rg_unif rng s in Some (g * (u powr (1 / shape)), s))
      else (let d = shape - 1 / 3 in gamma_loop rng d (1 / sqrt (9 * d)) s))"

definition sample_beta :: "'r rng \<Rightarrow> real \<Rightarrow> real \<Rightarrow> 'r \<Rightarrow> (real \<times> 'r) option" where
  "sample_beta rng a b s =
     (case sample_gamma rng a s of
        None \<Rightarrow> None
      | Some (x, s) \<Rightarrow>
          (case sample_gamma rng b s of
             None \<Rightarrow> None
           | Some (y, s) \<Rightarrow> Some (if x + y = 0 then 0.5 else x / (x + y), s)))"

section \<open>The posterior of a path\<close>

definition fnv64a :: "string \<Rightarrow> 64 word" where
  "fnv64a s = fold (\<lambda>c h. (h XOR of_nat (of_char c)) * 1099511628211) s 14695981039346656037"

text \<open>One draw: every hop's Beta, then every profile anchored to it.\<close>

fun draw_hops :: "'r rng \<Rightarrow> (anchor \<times> real \<times> real \<times> real) list \<Rightarrow> 'r \<Rightarrow> (real list list \<times> 'r) option" where
  "draw_hops rng [] s = Some ([], s)"
| "draw_hops rng ((a, start, al, be) # hs) s =
     (case sample_beta rng al be s of
        None \<Rightarrow> None
      | Some (p, s) \<Rightarrow>
          (case draw_hops rng hs s of
             None \<Rightarrow> None
           | Some (qs, s) \<Rightarrow> Some (fst (an_probs a p start) # qs, s)))"

definition mix_of :: "profile list \<Rightarrow> step list \<Rightarrow> real list list \<Rightarrow> real" where
  "mix_of profs steps table =
     fold (\<lambda>(c, pr) mix. mix + pf_prior pr * chain_probability steps (map (\<lambda>probs. probs ! c) table))
       (zip [0..<length profs] profs) 0"

fun posterior_draws :: "'r rng \<Rightarrow> profile list \<Rightarrow> step list \<Rightarrow> (anchor \<times> real \<times> real \<times> real) list \<Rightarrow> nat \<Rightarrow> 'r \<Rightarrow> real list option" where
  "posterior_draws rng profs steps hops 0 s = Some []"
| "posterior_draws rng profs steps hops (Suc n) s =
     (case draw_hops rng hops s of
        None \<Rightarrow> None
      | Some (table, s) \<Rightarrow> map_option (\<lambda>ds. mix_of profs steps table # ds) (posterior_draws rng profs steps hops n s))"

definition unified_score_posterior :: "'r rng \<Rightarrow> string \<Rightarrow> step list \<Rightarrow> profile list \<Rightarrow> real \<Rightarrow> (real \<times> real \<times> real) option" where
  "unified_score_posterior rng ident steps profs point =
     (if steps = [] then Some (point, point, point)
      else (let hops = map (\<lambda>st. let a = new_anchor (skill_sensitivity (st_basis st)) profs
                                 in (a, snd (an_probs a (st_prob st) 0), beta_params (st_prob st) (st_conf st) (st_evid st))) steps
            in case posterior_draws rng profs steps hops score_samples (rg_seed rng (fnv64a ident) 0x243f6a8885a308d3) of
                 None \<Rightarrow> None
               | Some draws \<Rightarrow>
                   (let mean = sum_list draws / real (length draws); sorted = sort draws;
                        lo = sorted ! pct_index 0.05 score_samples; hi = sorted ! pct_index 0.95 score_samples
                    in Some (mean, if lo > mean then mean else lo, if hi < mean then mean else hi))))"

section \<open>What the posterior promises\<close>

lemma concentration_range: "3 \<le> concentration c \<and> concentration c \<le> 80"
proof -
  let ?c = "if (if c < 0 then 0 else c) > 1 then 1 else if c < 0 then 0 else c"
  have "0 \<le> ?c" "?c \<le> 1" by auto
  then have "0 \<le> ?c ^ 3" "?c ^ 3 \<le> 1" by (simp_all add: power_le_one)
  then show ?thesis by (simp add: concentration_def Let_def conc_min_def conc_max_def)
qed

lemma concentration_mono: "c \<le> d \<Longrightarrow> concentration c \<le> concentration d"
  by (auto simp: concentration_def conc_min_def conc_max_def intro!: power_mono)

lemma pct_index_less: "n > 0 \<Longrightarrow> pct_index q n < n"
  by (auto simp: pct_index_def Let_def)

text \<open>
  The Beta posterior of an edge is proper, its mean is the edge's probability kept off 0
  and 1, and its weight is the basis's concentration plus one for every observation: more
  observations or a stronger basis never widen it.
\<close>

theorem beta_params_mean:
  "let (a, b) = beta_params p conf evid
   in 0 < a \<and> 0 < b \<and> a / (a + b) = max beta_eps (min p (1 - beta_eps)) \<and>
      a + b = concentration conf + of_int (max 0 evid)"
proof -
  define q where "q = max beta_eps (min p (1 - beta_eps))"
  define k where "k = concentration conf + of_int (max 0 evid)"
  have q: "(if (if p < beta_eps then beta_eps else p) > 1 - beta_eps then 1 - beta_eps else if p < beta_eps then beta_eps else p) = q"
    by (auto simp: q_def beta_eps_def)
  have k: "(if evid > 0 then concentration conf + of_int evid else concentration conf) = k"
    by (auto simp: k_def max_def)
  have bp: "beta_params p conf evid = (q * k, (1 - q) * k)" unfolding beta_params_def Let_def q k ..
  have "0 < q" "q < 1" by (auto simp: q_def beta_eps_def)
  moreover have "k > 0" using concentration_range [of conf] by (simp add: k_def add_pos_nonneg max_def)
  ultimately show ?thesis unfolding bp by (simp add: field_simps flip: q_def k_def)
qed

end
