(* ===== verification/Risk_Simulation.thy ===== *)
theory Risk_Simulation
  imports Monte_Carlo Uncertainty
begin

text \<open>
  The risk simulation end to end (\<open>compileGraph\<close>, \<open>simulate\<close> of \<open>backend/internal/analyzer/montecarlo.go\<close>): what the compiled graph
  keeps of the snapshot, the trials counted over it, and the estimate they give, stated over
  the snapshot's own ids and edges.
\<close>

section \<open>What compiling keeps\<close>

definition mc_pre :: "mc_graph \<Rightarrow> bool" where
  "mc_pre g \<longleftrightarrow> distinct (mc_ids g) \<and> length (mc_adj g) = length (mc_ids g) \<and>
     (\<forall>s i. map_of (mc_index g) s = Some i \<longleftrightarrow> i < length (mc_ids g) \<and> mc_ids g ! i = s)"

lemma intern_spec:
  assumes pre: "mc_pre g" and st: "mc_intern s g = (i, g')"
  shows "mc_pre g' \<and> i < length (mc_ids g') \<and> mc_ids g' ! i = s \<and>
     (\<exists>ys. mc_ids g' = mc_ids g @ ys \<and> mc_adj g' = mc_adj g @ replicate (length ys) []) \<and>
     mc_nodes g' = mc_nodes g \<and> mc_to g' = mc_to g \<and> mc_key g' = mc_key g \<and> mc_p g' = mc_p g \<and>
     mc_basis g' = mc_basis g \<and> mc_conf g' = mc_conf g \<and> mc_evid g' = mc_evid g \<and> mc_seeds g' = mc_seeds g \<and> mc_jewels g' = mc_jewels g"
proof (cases "map_of (mc_index g) s")
  case None
  then have new: "s \<notin> set (mc_ids g)" using pre by (metis in_set_conv_nth mc_pre_def option.distinct(1))
  have g': "i = length (mc_ids g)" "g' = g\<lparr>mc_index := AList.update s i (mc_index g), mc_ids := mc_ids g @ [s],
                         mc_adj := mc_adj g @ [[]]\<rparr>"
    using st None by (auto simp: mc_intern_def Let_def)
  have "map_of (mc_index g') q = Some k \<longleftrightarrow> k < length (mc_ids g') \<and> mc_ids g' ! k = q" for q k
  proof (cases "q = s")
    case True
    then show ?thesis using g' new by (auto simp: map_of_update nth_append in_set_conv_nth)
  next
    case False
    then show ?thesis using g' pre by (auto simp: map_of_update nth_append mc_pre_def)
  qed
  then have "mc_pre g'" using pre new g' by (simp add: mc_pre_def)
  then show ?thesis using g' by (auto intro: exI [of _ "[s]"])
next
  case (Some k)
  then have "i = k" "g' = g" using st by (auto simp: mc_intern_def)
  then show ?thesis using pre Some by (auto simp: mc_pre_def)
qed

text \<open>The edges compiled so far, against the snapshot's.\<close>

definition edge_basis :: "(string, node) gomap \<Rightarrow> edge \<Rightarrow> string \<times> real \<times> int" where
  "edge_basis nodes e = weight_basis_of e (node_at nodes (e_from e)) (node_at nodes (e_to e))"

definition mc_holds :: "mc_graph \<Rightarrow> edge list \<Rightarrow> bool" where
  "mc_holds g es \<longleftrightarrow> mc_pre g \<and> length (mc_to g) = length es \<and> length (mc_key g) = length es \<and> length (mc_p g) = length es \<and>
     length (mc_basis g) = length es \<and> length (mc_conf g) = length es \<and> length (mc_evid g) = length es \<and>
     (\<forall>k < length es. mc_to g ! k < length (mc_ids g) \<and> mc_ids g ! (mc_to g ! k) = e_to (es ! k) \<and>
        e_from (es ! k) \<in> set (mc_ids g) \<and>
        mc_key g ! k = draw_key (mc_nodes g) (es ! k) \<and> mc_p g ! k = clamp_prob (e_prob (es ! k)) \<and>
        (mc_basis g ! k, mc_conf g ! k, mc_evid g ! k) = edge_basis (mc_nodes g) (es ! k)) \<and>
     (\<forall>u < length (mc_ids g). set (mc_adj g ! u) = {k. k < length es \<and> e_from (es ! k) = mc_ids g ! u})"

lemma mc_holds_intern:
  assumes h: "mc_holds g es" and st: "mc_intern s g = (i, g')"
  shows "mc_holds g' es"
proof -
  have pre: "mc_pre g" using h by (simp add: mc_holds_def)
  note r = intern_spec [OF pre st]
  then obtain ys where ys: "mc_ids g' = mc_ids g @ ys" "mc_adj g' = mc_adj g @ replicate (length ys) []" by blast
  have dist: "distinct (mc_ids g @ ys)" using r ys by (simp add: mc_pre_def)
  have len: "length (mc_adj g) = length (mc_ids g)" using pre by (simp add: mc_pre_def)
  have adj: "set (mc_adj g' ! u) = {k. k < length es \<and> e_from (es ! k) = mc_ids g' ! u}" if u: "u < length (mc_ids g')" for u
  proof (cases "u < length (mc_ids g)")
    case True
    then show ?thesis using h ys len by (simp add: nth_append mc_holds_def)
  next
    case False
    then have "mc_adj g' ! u = []" "mc_ids g' ! u \<in> set ys" using u ys len by (auto simp: nth_append)
    moreover have "e_from (es ! k) \<noteq> mc_ids g' ! u" if "k < length es" for k
      using h that dist calculation(2) by (auto simp: mc_holds_def)
    ultimately show ?thesis by auto
  qed
  have edges: "mc_to g' ! k < length (mc_ids g') \<and> mc_ids g' ! (mc_to g' ! k) = e_to (es ! k) \<and>
        e_from (es ! k) \<in> set (mc_ids g') \<and>
        mc_key g' ! k = draw_key (mc_nodes g') (es ! k) \<and> mc_p g' ! k = clamp_prob (e_prob (es ! k)) \<and>
        (mc_basis g' ! k, mc_conf g' ! k, mc_evid g' ! k) = edge_basis (mc_nodes g') (es ! k)" if "k < length es" for k
    using h r ys that by (auto simp: mc_holds_def nth_append)
  show ?thesis using h r adj edges unfolding mc_holds_def by simp
qed

lemma mc_add_edge_holds:
  assumes h: "mc_holds g es"
  shows "mc_holds (mc_add_edge e g) (es @ [e]) \<and> mc_nodes (mc_add_edge e g) = mc_nodes g \<and>
     mc_seeds (mc_add_edge e g) = mc_seeds g \<and> mc_jewels (mc_add_edge e g) = mc_jewels g \<and>
     set (mc_ids g) \<subseteq> set (mc_ids (mc_add_edge e g))"
proof -
  obtain fr g1 where i1: "mc_intern (e_from e) g = (fr, g1)" by (cases "mc_intern (e_from e) g")
  obtain to g2 where i2: "mc_intern (e_to e) g1 = (to, g2)" by (cases "mc_intern (e_to e) g1")
  have h1: "mc_holds g1 es" by (rule mc_holds_intern [OF h i1])
  have h2: "mc_holds g2 es" by (rule mc_holds_intern [OF h1 i2])
  have pre: "mc_pre g" "mc_pre g1" "mc_pre g2" using h h1 h2 by (simp_all add: mc_holds_def)
  note r1 = intern_spec [OF pre(1) i1] and r2 = intern_spec [OF pre(2) i2]
  obtain ys where ys: "mc_ids g2 = mc_ids g1 @ ys" using r2 by blast
  have fr: "fr < length (mc_ids g2)" "mc_ids g2 ! fr = e_from e" using r1 ys by (auto simp: nth_append)
  have to: "to < length (mc_ids g2)" "mc_ids g2 ! to = e_to e" using r2 by auto
  define g' where "g' = mc_add_edge e g"
  have len: "length (mc_adj g2) = length (mc_ids g2)" "length (mc_to g2) = length es" "length (mc_key g2) = length es"
      "length (mc_p g2) = length es" "distinct (mc_ids g2)" "length (mc_basis g2) = length es" "length (mc_conf g2) = length es"
      "length (mc_evid g2) = length es"
    using h2 pre(3) by (auto simp: mc_holds_def mc_pre_def)
  have f: "mc_ids g' = mc_ids g2" "mc_index g' = mc_index g2" "mc_to g' = mc_to g2 @ [to]" "mc_nodes g' = mc_nodes g2"
      "mc_key g' = mc_key g2 @ [draw_key (mc_nodes g2) e]" "mc_p g' = mc_p g2 @ [clamp_prob (e_prob e)]"
      "mc_adj g' = (mc_adj g2)[fr := mc_adj g2 ! fr @ [length es]]" "mc_seeds g' = mc_seeds g2" "mc_jewels g' = mc_jewels g2"
      "mc_basis g' = mc_basis g2 @ [fst (edge_basis (mc_nodes g2) e)]" "mc_conf g' = mc_conf g2 @ [fst (snd (edge_basis (mc_nodes g2) e))]"
      "mc_evid g' = mc_evid g2 @ [snd (snd (edge_basis (mc_nodes g2) e))]"
    using i1 i2 len(2) by (simp_all add: g'_def mc_add_edge_def edge_basis_def Let_def split_beta)
  have pre': "mc_pre g'" using pre(3) len(1) f by (simp add: mc_pre_def)
  have adj: "set (mc_adj g' ! u) = {k. k < length (es @ [e]) \<and> e_from ((es @ [e]) ! k) = mc_ids g' ! u}"
    if u: "u < length (mc_ids g')" for u
  proof -
    have old: "set (mc_adj g2 ! u) = {k. k < length es \<and> e_from (es ! k) = mc_ids g2 ! u}"
      using h2 u f(1) by (simp add: mc_holds_def)
    have "{k. k < length (es @ [e]) \<and> e_from ((es @ [e]) ! k) = mc_ids g2 ! u} =
        set (mc_adj g2 ! u) \<union> (if u = fr then {length es} else {})"
    proof -
      have same: "e_from e = mc_ids g2 ! u \<longleftrightarrow> u = fr"
        using fr u f(1) nth_eq_iff_index_eq [OF len(5), of fr u] by auto
      have "k < length (es @ [e]) \<and> e_from ((es @ [e]) ! k) = mc_ids g2 ! u \<longleftrightarrow>
          k \<in> set (mc_adj g2 ! u) \<or> (u = fr \<and> k = length es)" for k
        unfolding old using same by (cases "k < length es") (auto simp: nth_append less_Suc_eq)
      then show ?thesis by auto
    qed
    then show ?thesis using f fr u len by (simp add: nth_list_update)
  qed
  have edges: "mc_to g' ! k < length (mc_ids g') \<and> mc_ids g' ! (mc_to g' ! k) = e_to ((es @ [e]) ! k) \<and>
        e_from ((es @ [e]) ! k) \<in> set (mc_ids g') \<and>
        mc_key g' ! k = draw_key (mc_nodes g') ((es @ [e]) ! k) \<and> mc_p g' ! k = clamp_prob (e_prob ((es @ [e]) ! k)) \<and>
        (mc_basis g' ! k, mc_conf g' ! k, mc_evid g' ! k) = edge_basis (mc_nodes g') ((es @ [e]) ! k)"
    if "k < length (es @ [e])" for k
  proof (cases "k < length es")
    case True
    then show ?thesis using h2 f len by (simp add: mc_holds_def nth_append)
  next
    case False
    then have "k = length es" using that by simp
    then show ?thesis using f len fr to by (auto simp: nth_append) (metis nth_mem)
  qed
  have "mc_holds g' (es @ [e])" using pre' f len adj edges unfolding mc_holds_def by simp
  then show ?thesis using f r1 r2 ys by (auto simp: g'_def)
qed

lemma mc_holds_edges: "mc_holds g ds \<Longrightarrow> g' = fold mc_add_edge es g \<Longrightarrow>
    mc_holds g' (ds @ es) \<and> mc_nodes g' = mc_nodes g \<and> mc_seeds g' = mc_seeds g \<and> mc_jewels g' = mc_jewels g \<and>
    set (mc_ids g) \<subseteq> set (mc_ids g')"
proof (induction es arbitrary: ds g)
  case Nil
  then show ?case by simp
next
  case (Cons e es)
  note one = mc_add_edge_holds [OF Cons.prems(1), of e]
  have "g' = fold mc_add_edge es (mc_add_edge e g)" using Cons.prems(2) by simp
  from Cons.IH [OF conjunct1 [OF one] this] show ?case using one by auto
qed

lemma mc_holds_nodes: "mc_holds g [] \<Longrightarrow> g' = fold (\<lambda>n g. snd (mc_intern (n_id n) g)) ns g \<Longrightarrow>
    mc_holds g' [] \<and> mc_nodes g' = mc_nodes g \<and> mc_seeds g' = mc_seeds g \<and> mc_jewels g' = mc_jewels g \<and>
    set (mc_ids g) \<union> n_id ` set ns \<subseteq> set (mc_ids g')"
proof (induction ns arbitrary: g)
  case Nil
  then show ?case by simp
next
  case (Cons n ns)
  obtain i g1 where i: "mc_intern (n_id n) g = (i, g1)" by (cases "mc_intern (n_id n) g")
  have pre: "mc_pre g" using Cons.prems(1) by (simp add: mc_holds_def)
  note r = intern_spec [OF pre i]
  have "g' = fold (\<lambda>n g. snd (mc_intern (n_id n) g)) ns g1" using Cons.prems(2) i by simp
  note rest = Cons.IH [OF mc_holds_intern [OF Cons.prems(1) i] this]
  have "n_id n \<in> set (mc_ids g1)" using r by (metis nth_mem)
  moreover have "set (mc_ids g) \<subseteq> set (mc_ids g1)" using r by auto
  ultimately show ?case using rest r by auto
qed

text \<open>Edge-only jewels, by index.\<close>

definition mark_only :: "mc_graph \<Rightarrow> string list \<Rightarrow> bool list \<Rightarrow> bool list" where
  "mark_only g ks eo = fold (\<lambda>i eo. let v = node_at (mc_nodes g) i in
     if is_jewel v then eo[index_at g i := is_seed v \<and> \<not> held_by_attacker v] else eo) ks eo"

lemma index_at_ids: "mc_pre g \<Longrightarrow> s \<in> set (mc_ids g) \<Longrightarrow>
    index_at g s < length (mc_ids g) \<and> mc_ids g ! index_at g s = s"
proof -
  assume pre: "mc_pre g" and "s \<in> set (mc_ids g)"
  then obtain i where i: "i < length (mc_ids g)" "mc_ids g ! i = s" by (auto simp: in_set_conv_nth)
  then have "map_of (mc_index g) s = Some i" using pre unfolding mc_pre_def by blast
  then show ?thesis using i by (simp add: index_at_def)
qed

lemma index_at_inj: "mc_pre g \<Longrightarrow> inj_on (index_at g) (set (mc_ids g))"
  by (rule inj_onI) (metis index_at_ids)

lemma mark_only_cong: "mc_nodes g2 = mc_nodes g \<Longrightarrow> index_at g2 = index_at g \<Longrightarrow> mark_only g2 = mark_only g"
  by (intro ext) (simp only: mark_only_def)

lemma mark_spec:
  "mc_pre g \<Longrightarrow> S \<union> n_id ` set ns \<subseteq> set (mc_ids g) \<Longrightarrow>
   mc_mark (index_at g ` S) ns g =
     g\<lparr>mc_seeds := mc_seeds g @ map (index_at g) (filter (\<lambda>i. is_seed (node_at (mc_nodes g) i)) (listed_ids S ns)),
       mc_jewels := mc_jewels g @ map (index_at g) (filter (\<lambda>i. is_jewel (node_at (mc_nodes g) i)) (listed_ids S ns)),
       mc_edge_only := mark_only g (listed_ids S ns) (mc_edge_only g)\<rparr>"
proof (induction S ns arbitrary: g rule: listed_ids.induct)
  case (1 seen)
  then show ?case by (simp add: mark_only_def)
next
  case (2 seen n ns)
  have mem: "index_at g (n_id n) \<in> index_at g ` seen \<longleftrightarrow> n_id n \<in> seen"
    using inj_on_image_mem_iff [OF index_at_inj [OF "2.prems"(1)], of "n_id n" seen] "2.prems"(2) by auto
  show ?case
  proof (cases "n_id n \<in> seen")
    case True
    then show ?thesis using "2.IH"(1) [OF True "2.prems"(1)] "2.prems"(2) mem by simp
  next
    case False
    let ?v = "node_at (mc_nodes g) (n_id n)" and ?i = "index_at g (n_id n)"
    define g1 where "g1 = (if is_seed ?v then g\<lparr>mc_seeds := mc_seeds g @ [?i]\<rparr> else g)"
    define g2 where "g2 = (if is_jewel ?v
                        then g1\<lparr>mc_jewels := mc_jewels g1 @ [?i],
                               mc_edge_only := (mc_edge_only g1)[?i := is_seed ?v \<and> \<not> held_by_attacker ?v]\<rparr>
                        else g1)"
    have f: "mc_ids g2 = mc_ids g" "mc_index g2 = mc_index g" "mc_adj g2 = mc_adj g" "mc_nodes g2 = mc_nodes g"
      by (simp_all add: g2_def g1_def)
    then have ix: "index_at g2 = index_at g" by (simp add: index_at_def fun_eq_iff)
    have pre: "mc_pre g2" using "2.prems"(1) f by (simp add: mc_pre_def)
    have "mc_mark (index_at g ` seen) (n # ns) g = mc_mark (index_at g2 ` insert (n_id n) seen) ns g2"
      using mem False by (simp add: Let_def g2_def g1_def ix) (simp add: g2_def g1_def index_at_def cong: if_cong)
    also have "\<dots> = g2\<lparr>mc_seeds := mc_seeds g2 @ map (index_at g2) (filter (\<lambda>i. is_seed (node_at (mc_nodes g2) i)) (listed_ids (insert (n_id n) seen) ns)),
       mc_jewels := mc_jewels g2 @ map (index_at g2) (filter (\<lambda>i. is_jewel (node_at (mc_nodes g2) i)) (listed_ids (insert (n_id n) seen) ns)),
       mc_edge_only := mark_only g2 (listed_ids (insert (n_id n) seen) ns) (mc_edge_only g2)\<rparr>"
      by (rule "2.IH"(2) [OF False pre]) (use "2.prems"(2) f in auto)
    also have "mark_only g2 = mark_only g" by (rule mark_only_cong) (use f ix in simp_all)
    finally show ?thesis using False f ix
      by (simp add: g2_def g1_def mark_only_def Let_def)
  qed
qed

lemma mark_only_length [simp]: "length (mark_only g ks eo) = length eo"
  unfolding mark_only_def by (induction ks arbitrary: eo) (auto simp: Let_def)

lemma mark_only_at:
  assumes pre: "mc_pre g" and j: "j \<in> set (mc_ids g)" "is_jewel (node_at (mc_nodes g) j)"
  shows "set ks \<subseteq> set (mc_ids g) \<Longrightarrow> distinct ks \<Longrightarrow> j \<in> set ks \<Longrightarrow> length eo = length (mc_ids g) \<Longrightarrow>
    mark_only g ks eo ! index_at g j = (is_seed (node_at (mc_nodes g) j) \<and> \<not> held_by_attacker (node_at (mc_nodes g) j))"
proof (induction ks arbitrary: eo rule: rev_induct)
  case Nil
  then show ?case by simp
next
  case (snoc i ks)
  let ?v = "node_at (mc_nodes g) i"
  have snoc': "mark_only g (ks @ [i]) eo = (if is_jewel ?v then (mark_only g ks eo)[index_at g i := is_seed ?v \<and> \<not> held_by_attacker ?v]
      else mark_only g ks eo)"
    by (simp add: mark_only_def Let_def)
  have ix: "index_at g j < length eo" using index_at_ids [OF pre j(1)] snoc.prems(4) by simp
  show ?case
  proof (cases "i = j")
    case True
    then show ?thesis using snoc' j ix by simp
  next
    case False
    then have "index_at g i \<noteq> index_at g j"
      using inj_onD [OF index_at_inj [OF pre], of i j] snoc.prems(1) j(1) by auto
    moreover have "mark_only g ks eo ! index_at g j =
        (is_seed (node_at (mc_nodes g) j) \<and> \<not> held_by_attacker (node_at (mc_nodes g) j))"
      using snoc.IH [of eo] snoc.prems False by auto
    ultimately show ?thesis using snoc' by simp
  qed
qed

lemma compile_graph_spec:
  fixes snap
  defines "g \<equiv> compile_graph snap"
  shows "mc_holds g (sn_edges snap)" "mc_ok g" "mc_nodes g = node_by_id snap" "n_id ` set (sn_nodes snap) \<subseteq> set (mc_ids g)"
    "mc_seeds g = map (index_at g) (snap_seeds snap)" "mc_jewels g = map (index_at g) (snap_jewels snap)"
    "j \<in> set (snap_jewels snap) \<Longrightarrow> mc_edge_only g ! index_at g j =
       (is_seed (node_at (node_by_id snap) j) \<and> \<not> held_by_attacker (node_at (node_by_id snap) j))"
proof -
  define g1 where "g1 = fold (\<lambda>n g. snd (mc_intern (n_id n) g)) (sn_nodes snap) (mc_empty snap)"
  define g2 where "g2 = fold mc_add_edge (sn_edges snap) g1"
  define g3 where "g3 = g2\<lparr>mc_edge_only := replicate (length (mc_ids g2)) False\<rparr>"
  have "mc_holds (mc_empty snap) []" by (simp add: mc_holds_def mc_pre_def mc_empty_def)
  note h1 = mc_holds_nodes [OF this g1_def]
  note h2 = mc_holds_edges [OF conjunct1 [OF h1] g2_def]
  have f: "mc_nodes g2 = node_by_id snap" "mc_seeds g2 = []" "mc_jewels g2 = []" "n_id ` set (sn_nodes snap) \<subseteq> set (mc_ids g2)"
    using h1 h2 by (auto simp: mc_empty_def)
  have h3: "mc_holds g3 (sn_edges snap)" using h2 by (simp add: g3_def mc_holds_def mc_pre_def)
  then have pre: "mc_pre g3" by (simp add: mc_holds_def)
  have ids: "n_id ` set (sn_nodes snap) \<subseteq> set (mc_ids g3)" using f by (simp add: g3_def)
  have g: "g = g3\<lparr>mc_seeds := map (index_at g3) (snap_seeds snap), mc_jewels := map (index_at g3) (snap_jewels snap),
      mc_edge_only := mark_only g3 (listed_ids {} (sn_nodes snap)) (mc_edge_only g3)\<rparr>"
    using mark_spec [OF pre, of "{}" "sn_nodes snap"] ids f
    by (simp add: g_def compile_graph_def Let_def g1_def [symmetric] g2_def [symmetric] g3_def [symmetric]
        snap_seeds_def snap_jewels_def) (simp add: g3_def)
  have ix: "index_at g = index_at g3" by (simp add: g index_at_def fun_eq_iff)
  show holds: "mc_holds g (sn_edges snap)" using h3 by (simp add: g mc_holds_def mc_pre_def)
  show "mc_nodes g = node_by_id snap" using f by (simp add: g g3_def)
  show "n_id ` set (sn_nodes snap) \<subseteq> set (mc_ids g)" using ids by (simp add: g)
  show "mc_seeds g = map (index_at g) (snap_seeds snap)" "mc_jewels g = map (index_at g) (snap_jewels snap)"
    unfolding ix by (simp_all add: g)
  have nodes3: "mc_nodes g3 = node_by_id snap" using f by (simp add: g3_def)
  have listed: "set (listed_ids {} (sn_nodes snap)) \<subseteq> set (mc_ids g3)" using ids by (simp add: set_listed_ids)
  have len3: "length (mc_edge_only g3) = length (mc_ids g3)" by (simp add: g3_def)
  show "mc_edge_only g ! index_at g j = (is_seed (node_at (node_by_id snap) j) \<and> \<not> held_by_attacker (node_at (node_by_id snap) j))"
    if j: "j \<in> set (snap_jewels snap)"
    unfolding ix using mark_only_at [OF pre _ _ listed distinct_listed_ids _ len3, of j] j ids nodes3
    by (simp add: g snap_jewels_iff set_listed_ids subset_iff)
  have in_ids: "i \<in> n_id ` set (sn_nodes snap) \<Longrightarrow> index_at g3 i < length (mc_ids g3)" for i
    using index_at_ids [OF pre] ids by blast
  show "mc_ok g"
    using h3 pre len3 in_ids unfolding mc_ok_def
    by (auto simp: g mc_holds_def mc_pre_def in_set_conv_nth snap_seeds_iff snap_jewels_iff)
      (use snap_seeds_iff snap_jewels_iff in \<open>metis nth_mem\<close>)+
qed

section \<open>The simulation\<close>

definition default_risk_iterations :: nat where "default_risk_iterations = 2000"
definition band_outer :: nat where "band_outer = 64"
definition band_inner :: nat where "band_inner = 400"
definition cancel_check_stride :: nat where "cancel_check_stride = 256"
definition stream_band :: u64 where "stream_band = 1"
definition stream_beta :: u64 where "stream_beta = 2"

record jewel_risk =
  jr_id :: string
  jr_name :: string
  jr_label :: string
  jr_prob :: real
  jr_low :: real
  jr_high :: real

record profile_compromise =
  pc_profile :: string
  pc_prior :: real
  pc_prob :: real

record risk_simulation =
  rs_iterations :: nat
  rs_any :: real
  rs_any_low :: real
  rs_any_high :: real
  rs_sens_low :: real
  rs_sens_high :: real
  rs_expected :: real
  rs_jewels :: "jewel_risk list"
  rs_mixture :: real
  rs_profiles :: "profile_compromise list"

definition zero_sim :: "nat \<Rightarrow> risk_simulation" where
  "zero_sim n = \<lparr>rs_iterations = n, rs_any = 0, rs_any_low = 0, rs_any_high = 0, rs_sens_low = 0, rs_sens_high = 0,
     rs_expected = 0, rs_jewels = [], rs_mixture = 0, rs_profiles = []\<rparr>"

text \<open>
  The error of a run cut short, and where the context is looked at: before a headline trial,
  a posterior sample, a trial of a profile. The context is the set of looks that find it done.
\<close>

datatype sim_error = Cancelled

datatype look = Look_Trial nat | Look_Sample nat | Look_Profile nat nat

type_synonym run_ctx = "look \<Rightarrow> bool"

definition wilson :: "nat \<Rightarrow> nat \<Rightarrow> real \<times> real" where
  "wilson successes n =
     (if n = 0 then (0, 0)
      else (let z = 1959963984540054 / 10 ^ 15; nn = real n; phat = real successes / nn; denom = 1 + z * z / nn;
                center = (phat + z * z / (2 * nn)) / denom;
                margin = z * sqrt (phat * (1 - phat) / nn + z * z / (4 * nn * nn)) / denom;
                low = center - margin; high = center + margin
            in (if low < 0 then 0 else low, if high > 1 then 1 else high)))"

subsection \<open>Counting trials\<close>

type_synonym tally = "nat list \<times> nat \<times> nat"

definition count_jewel :: "mc_graph \<Rightarrow> trials \<Rightarrow> nat \<Rightarrow> nat list \<times> nat \<times> bool \<Rightarrow> nat list \<times> nat \<times> bool" where
  "count_jewel g t j = (\<lambda>(hits, c, any).
     if reached g t j then (hits[j := Suc (hits ! j)], Suc c, True) else (hits, c, any))"

definition count_trial :: "mc_graph \<Rightarrow> trials \<Rightarrow> tally \<Rightarrow> tally" where
  "count_trial g t = (\<lambda>(hits, any_hits, fallen).
     let (hits, c, any) = fold (count_jewel g t) (mc_jewels g) (hits, 0, False)
     in (hits, if any then Suc any_hits else any_hits, fallen + c))"

fun trial_loop :: "run_ctx \<Rightarrow> mc_graph \<Rightarrow> u64 \<Rightarrow> nat list \<Rightarrow> trials \<Rightarrow> tally \<Rightarrow> (sim_error + tally) option" where
  "trial_loop ctx g seed [] t acc = Some (Inr acc)"
| "trial_loop ctx g seed (it # its) t acc =
     (if it mod cancel_check_stride = 0 \<and> ctx (Look_Trial it) then Some (Inl Cancelled)
      else (case run_trial g (trial_key seed stream_trials 0 (of_nat it)) (mc_p g) t of
              None \<Rightarrow> None
            | Some t \<Rightarrow> trial_loop ctx g seed its t (count_trial g t acc)))"

definition any_jewel :: "mc_graph \<Rightarrow> trials \<Rightarrow> bool" where
  "any_jewel g t = list_ex (reached g t) (mc_jewels g)"

text \<open>The trials of the band and of a profile, which count only whether a jewel fell.\<close>

fun any_loop :: "(nat \<Rightarrow> bool) \<Rightarrow> mc_graph \<Rightarrow> (nat \<Rightarrow> u64) \<Rightarrow> real list \<Rightarrow> nat list \<Rightarrow> trials \<Rightarrow> nat \<Rightarrow> (sim_error + nat \<times> trials) option" where
  "any_loop stop g key prob [] t n = Some (Inr (n, t))"
| "any_loop stop g key prob (it # its) t n =
     (if it mod cancel_check_stride = 0 \<and> stop it then Some (Inl Cancelled)
      else (case run_trial g (key it) prob t of
              None \<Rightarrow> None
            | Some t \<Rightarrow> any_loop stop g key prob its t (if any_jewel g t then Suc n else n)))"

subsection \<open>The credible band\<close>

definition band_rate :: "mc_graph \<Rightarrow> u64 \<Rightarrow> real list \<Rightarrow> trials \<Rightarrow> (real \<times> trials) option" where
  "band_rate g seed prob t =
     (case any_loop (\<lambda>_. False) g (\<lambda>it. trial_key seed stream_band 0 (of_nat it)) prob [0..<band_inner] t 0 of
        Some (Inr (n, t)) \<Rightarrow> Some (real n / real band_inner, t)
      | _ \<Rightarrow> None)"

definition sampled_probs :: "'r rng \<Rightarrow> mc_graph \<Rightarrow> u64 \<Rightarrow> real list option" where
  "sampled_probs rng g sample =
     those (map (\<lambda>e. let (a, b) = beta_params (mc_p g ! e) (mc_conf g ! e) (mc_evid g ! e)
                     in map_option fst (sample_beta rng a b (rg_seed rng sample (mc_key g ! e))))
                [0..<length (mc_p g)])"

fun band_loop :: "run_ctx \<Rightarrow> 'r rng \<Rightarrow> mc_graph \<Rightarrow> u64 \<Rightarrow> nat list \<Rightarrow> trials \<Rightarrow> real list \<Rightarrow> (sim_error + real list) option" where
  "band_loop ctx rng g seed [] t rates = Some (Inr rates)"
| "band_loop ctx rng g seed (k # ks) t rates =
     (if ctx (Look_Sample k) then Some (Inl Cancelled)
      else (case sampled_probs rng g (trial_key seed stream_beta (of_nat k) 0) of
              None \<Rightarrow> None
            | Some prob \<Rightarrow>
                (case band_rate g seed prob t of
                   None \<Rightarrow> None
                 | Some (r, t) \<Rightarrow> band_loop ctx rng g seed ks t (rates @ [r]))))"

text \<open>The band laid around the headline.\<close>

definition lay_band :: "real \<Rightarrow> real \<Rightarrow> real list \<Rightarrow> real \<times> real" where
  "lay_band nominal control rates0 =
     (let rates = sort rates0; eps = 1 / 1000;
          lo = nominal + rates ! pct_index 0.05 band_outer - control;
          hi = nominal + rates ! pct_index 0.95 band_outer - control;
          lo = (if lo > nominal - eps then nominal - eps else lo);
          hi = (if hi < nominal + eps then nominal + eps else hi);
          lo = (if lo < 0 then 0 else lo);
          hi = (if hi > 1 then 1 else hi)
      in (lo, hi))"

definition any_compromise_band :: "run_ctx \<Rightarrow> 'r rng \<Rightarrow> mc_graph \<Rightarrow> u64 \<Rightarrow> real \<Rightarrow> (sim_error + real \<times> real) option" where
  "any_compromise_band ctx rng g seed nominal =
     (if mc_seeds g = [] \<or> mc_jewels g = [] then Some (Inr (0, 0))
      else (case band_rate g seed (mc_p g) (new_trials g) of
              None \<Rightarrow> None
            | Some (control, t) \<Rightarrow>
                (case band_loop ctx rng g seed [0..<band_outer] t [] of
                   None \<Rightarrow> None
                 | Some (Inl err) \<Rightarrow> Some (Inl err)
                 | Some (Inr rates) \<Rightarrow> Some (Inr (lay_band nominal control rates)))))"

subsection \<open>The attacker mixture\<close>

definition profile_table :: "mc_graph \<Rightarrow> profile list \<Rightarrow> nat \<Rightarrow> real list" where
  "profile_table g profs c = map (\<lambda>e. profile_probs (mc_p g ! e) (mc_basis g ! e) profs ! c) [0..<length (mc_p g)]"

fun mixture_loop :: "run_ctx \<Rightarrow> mc_graph \<Rightarrow> profile list \<Rightarrow> nat \<Rightarrow> u64 \<Rightarrow> (nat \<times> profile) list \<Rightarrow> trials \<Rightarrow> real \<Rightarrow> profile_compromise list \<Rightarrow>
    (sim_error + real \<times> profile_compromise list) option" where
  "mixture_loop ctx g profs n seed [] t mix out = Some (Inr (mix, out))"
| "mixture_loop ctx g profs n seed ((ci, c) # cs) t mix out =
     (case any_loop (\<lambda>it. ctx (Look_Profile ci it)) g (\<lambda>it. trial_key seed stream_trials 0 (of_nat it))
         (profile_table g profs ci) [0..<n] t 0 of
        None \<Rightarrow> None
      | Some (Inl err) \<Rightarrow> Some (Inl err)
      | Some (Inr (hits, t)) \<Rightarrow>
          (let rc = real hits / real n
           in mixture_loop ctx g profs n seed cs t (mix + pf_prior c * rc)
                (out @ [\<lparr>pc_profile = pf_name c, pc_prior = pf_prior c, pc_prob = rc\<rparr>])))"

definition mixture_compromise :: "run_ctx \<Rightarrow> profile list \<Rightarrow> mc_graph \<Rightarrow> nat \<Rightarrow> u64 \<Rightarrow> (sim_error + real \<times> profile_compromise list) option" where
  "mixture_compromise ctx profs g n seed =
     (if n = 0 \<or> mc_seeds g = [] \<or> mc_jewels g = [] \<or> profs = [] then Some (Inr (0, []))
      else mixture_loop ctx g profs n seed (zip [0..<length profs] profs) (new_trials g) 0 [])"

subsection \<open>The whole run\<close>

definition jewel_before :: "jewel_risk \<Rightarrow> jewel_risk \<Rightarrow> bool" where
  "jewel_before a b \<longleftrightarrow> (if jr_prob a \<noteq> jr_prob b then jr_prob a > jr_prob b else str_less (jr_id a) (jr_id b))"

definition jewel_row :: "mc_graph \<Rightarrow> nat list \<Rightarrow> nat \<Rightarrow> nat \<Rightarrow> jewel_risk" where
  "jewel_row g hits n j =
     (let node = node_at (mc_nodes g) (mc_ids g ! j); (lo, hi) = wilson (hits ! j) n
      in \<lparr>jr_id = mc_ids g ! j, jr_name = n_name node, jr_label = n_label node,
          jr_prob = real (hits ! j) / real n, jr_low = lo, jr_high = hi\<rparr>)"

text \<open>
  \<open>SimulateRiskWith\<close>: the generator and the attacker profiles in force are arguments;
  \<open>iterations\<close> is the caller's count, any sign.
\<close>

definition simulate_risk_with :: "run_ctx \<Rightarrow> 'r rng \<Rightarrow> profile list \<Rightarrow> snapshot \<Rightarrow> int \<Rightarrow> u64 \<Rightarrow> bool \<Rightarrow> (sim_error + risk_simulation) option" where
  "simulate_risk_with ctx rng profs snap iterations seed point_only =
     (let n = (if iterations \<le> 0 then default_risk_iterations else nat iterations); g = compile_graph snap; sim = zero_sim n
      in if mc_seeds g = [] \<or> mc_jewels g = [] then Some (Inr sim)
         else (case trial_loop ctx g seed [0..<n] (new_trials g) (replicate (length (mc_ids g)) 0, 0, 0) of
           None \<Rightarrow> None
         | Some (Inl err) \<Rightarrow> Some (Inl err)
         | Some (Inr (hits, any_hits, fallen)) \<Rightarrow>
             (let sim = sim\<lparr>rs_any := real any_hits / real n, rs_any_low := fst (wilson any_hits n),
                          rs_any_high := snd (wilson any_hits n), rs_expected := real fallen / real n\<rparr>;
                  rows = sort_by jewel_before (map (jewel_row g hits n) (mc_jewels g))
              in if point_only then Some (Inr (sim\<lparr>rs_jewels := rows\<rparr>))
                 else (case any_compromise_band ctx rng g seed (rs_any sim) of
                   None \<Rightarrow> None
                 | Some (Inl err) \<Rightarrow> Some (Inl err)
                 | Some (Inr (lo, hi)) \<Rightarrow>
                     (case mixture_compromise ctx profs g n seed of
                        None \<Rightarrow> None
                      | Some (Inl err) \<Rightarrow> Some (Inl err)
                      | Some (Inr (mix, pcs)) \<Rightarrow>
                          Some (Inr (sim\<lparr>rs_sens_low := lo, rs_sens_high := hi, rs_mixture := mix, rs_profiles := pcs,
                            rs_jewels := rows\<rparr>)))))))"

section \<open>What a trial decides, over the snapshot\<close>

text \<open>
  A trial keeps an edge when its draw falls under its probability; a jewel falls when kept
  edges lead to it from an entry point, one that is itself an entry point not held only by
  an edge.
\<close>

definition sim_link :: "snapshot \<Rightarrow> u64 \<Rightarrow> (edge \<Rightarrow> real) \<Rightarrow> string \<Rightarrow> string \<Rightarrow> bool" where
  "sim_link snap key pr u v \<longleftrightarrow> u \<noteq> v \<and>
     (\<exists>e \<in> set (sn_edges snap). e_from e = u \<and> e_to e = v \<and> kept key (draw_key (node_by_id snap) e) (pr e))"

definition sim_reach :: "snapshot \<Rightarrow> u64 \<Rightarrow> (edge \<Rightarrow> real) \<Rightarrow> string set" where
  "sim_reach snap key pr = {v. \<exists>s \<in> set (snap_seeds snap). (sim_link snap key pr)\<^sup>*\<^sup>* s v}"

definition sim_falls :: "snapshot \<Rightarrow> u64 \<Rightarrow> (edge \<Rightarrow> real) \<Rightarrow> string \<Rightarrow> bool" where
  "sim_falls snap key pr j \<longleftrightarrow>
     (let v = node_at (node_by_id snap) j
      in if is_seed v \<and> \<not> held_by_attacker v then \<exists>u \<in> sim_reach snap key pr. sim_link snap key pr u j
         else j \<in> sim_reach snap key pr)"

lemma bex_nth: "(\<exists>e \<in> set es. P e \<and> Q e \<and> R e) \<longleftrightarrow> (\<exists>k < length es. P (es ! k) \<and> Q (es ! k) \<and> R (es ! k))"
  by (metis in_set_conv_nth)

lemma mc_link_iff:
  fixes snap
  defines "g \<equiv> compile_graph snap"
  assumes uv: "u < length (mc_ids g)" "v < length (mc_ids g)"
  shows "mc_link g key (map pr (sn_edges snap)) u v \<longleftrightarrow> sim_link snap key pr (mc_ids g ! u) (mc_ids g ! v)"
proof -
  note c = compile_graph_spec [where snap = snap, folded g_def]
  have h: "mc_holds g (sn_edges snap)" by (rule c(1))
  have pre: "mc_pre g" using h by (simp add: mc_holds_def)
  then have dist: "distinct (mc_ids g)" by (simp add: mc_pre_def)
  let ?es = "sn_edges snap"
  have adj: "set (mc_adj g ! u) = {k. k < length ?es \<and> e_from (?es ! k) = mc_ids g ! u}" using h uv by (simp add: mc_holds_def)
  have ed: "mc_to g ! k < length (mc_ids g)" "mc_ids g ! (mc_to g ! k) = e_to (?es ! k)" "mc_key g ! k = draw_key (node_by_id snap) (?es ! k)"
    if "k < length ?es" for k using h that c(3) by (simp_all add: mc_holds_def)
  have to: "mc_to g ! k = v \<longleftrightarrow> e_to (?es ! k) = mc_ids g ! v" if "k < length ?es" for k
    using ed [OF that] nth_eq_iff_index_eq [OF dist, of "mc_to g ! k" v] uv by auto
  have ne: "v \<noteq> u \<longleftrightarrow> mc_ids g ! u \<noteq> mc_ids g ! v" using nth_eq_iff_index_eq [OF dist, of u v] uv by auto
  have "mc_link g key (map pr ?es) u v \<longleftrightarrow> v \<noteq> u \<and>
      (\<exists>k < length ?es. e_from (?es ! k) = mc_ids g ! u \<and> e_to (?es ! k) = mc_ids g ! v \<and>
         kept key (draw_key (node_by_id snap) (?es ! k)) (pr (?es ! k)))"
    unfolding mc_link_def adj using uv ed to by auto
  also have "\<dots> \<longleftrightarrow> sim_link snap key pr (mc_ids g ! u) (mc_ids g ! v)"
    unfolding sim_link_def ne bex_nth ..
  finally show ?thesis .
qed

lemma mc_link_range: "mc_ok g \<Longrightarrow> mc_link g key prob u v \<Longrightarrow> u < length (mc_ids g) \<and> v < length (mc_ids g)"
proof -
  assume ok: "mc_ok g" and "mc_link g key prob u v"
  then obtain e where e: "u < length (mc_ids g)" "e \<in> set (mc_adj g ! u)" "mc_to g ! e = v" by (auto simp: mc_link_def)
  then have "e < length (mc_to g)" using ok by (auto simp: mc_ok_def)
  then have "v \<in> set (mc_to g)" using e(3) by auto
  then show ?thesis using ok e(1) by (auto simp: mc_ok_def)
qed

lemma sim_link_ids:
  "sim_link snap key pr x y \<Longrightarrow> x \<in> set (mc_ids (compile_graph snap)) \<and> y \<in> set (mc_ids (compile_graph snap))"
proof -
  assume "sim_link snap key pr x y"
  then obtain k where k: "k < length (sn_edges snap)" "e_from (sn_edges snap ! k) = x" "e_to (sn_edges snap ! k) = y"
    by (auto simp: sim_link_def in_set_conv_nth)
  have h: "mc_holds (compile_graph snap) (sn_edges snap)" by (rule compile_graph_spec)
  have "e_from (sn_edges snap ! k) \<in> set (mc_ids (compile_graph snap))" "e_to (sn_edges snap ! k) \<in> set (mc_ids (compile_graph snap))"
    using h k(1) nth_mem [of "mc_to (compile_graph snap) ! k" "mc_ids (compile_graph snap)"] by (simp_all add: mc_holds_def)
  then show ?thesis using k by simp
qed

lemma mc_reach_iff:
  fixes snap
  defines "g \<equiv> compile_graph snap"
  assumes v: "v < length (mc_ids g)"
  shows "v \<in> mc_reach g key (map pr (sn_edges snap)) \<longleftrightarrow> mc_ids g ! v \<in> sim_reach snap key pr"
proof -
  let ?p = "map pr (sn_edges snap)"
  note c = compile_graph_spec [where snap = snap, folded g_def]
  have pre: "mc_pre g" using c(1) by (simp add: mc_holds_def)
  have seed: "index_at g s < length (mc_ids g) \<and> mc_ids g ! index_at g s = s" if "s \<in> set (snap_seeds snap)" for s
    using index_at_ids [OF pre, of s] c(4) that snap_seeds_iff [of s snap] by auto
  have fwd: "u < length (mc_ids g) \<Longrightarrow> (mc_link g key ?p)\<^sup>*\<^sup>* u w \<Longrightarrow>
      w < length (mc_ids g) \<and> (sim_link snap key pr)\<^sup>*\<^sup>* (mc_ids g ! u) (mc_ids g ! w)" for u w
  proof (rotate_tac 1, induction rule: rtranclp_induct)
    case base
    then show ?case by simp
  next
    case (step y z)
    have r: "y < length (mc_ids g)" "z < length (mc_ids g)" using mc_link_range [OF c(2) step.hyps(2)] by auto
    then have "sim_link snap key pr (mc_ids g ! y) (mc_ids g ! z)"
      using mc_link_iff [of y snap z key pr] step.hyps(2) by (simp add: g_def)
    then show ?case using step.IH step.prems r by (meson rtranclp.rtrancl_into_rtrancl)
  qed
  have bwd: "(sim_link snap key pr)\<^sup>*\<^sup>* x y \<Longrightarrow> x = mc_ids g ! u \<Longrightarrow> u < length (mc_ids g) \<Longrightarrow>
      \<exists>w < length (mc_ids g). y = mc_ids g ! w \<and> (mc_link g key ?p)\<^sup>*\<^sup>* u w" for x y u
  proof (induction rule: rtranclp_induct)
    case base
    then show ?case by blast
  next
    case (step y z)
    obtain w where w: "w < length (mc_ids g)" "y = mc_ids g ! w" "(mc_link g key ?p)\<^sup>*\<^sup>* u w" using step by blast
    obtain w' where w': "w' < length (mc_ids g)" "z = mc_ids g ! w'"
      using sim_link_ids [OF step.hyps(2)] by (auto simp: g_def in_set_conv_nth)
    have "mc_link g key ?p w w'" using mc_link_iff [of w snap w' key pr] step.hyps(2) w w' by (simp add: g_def)
    with w(3) have "(mc_link g key ?p)\<^sup>*\<^sup>* u w'" by (rule rtranclp.rtrancl_into_rtrancl)
    then show ?case using w' by blast
  qed
  have seeds: "set (mc_seeds g) = index_at g ` set (snap_seeds snap)" using c(5) by simp
  show ?thesis
  proof
    assume "v \<in> mc_reach g key ?p"
    then obtain s where s: "s \<in> set (snap_seeds snap)" "(mc_link g key ?p)\<^sup>*\<^sup>* (index_at g s) v"
      unfolding mc_reach_def seeds by auto
    then show "mc_ids g ! v \<in> sim_reach snap key pr" using fwd [of "index_at g s" v] seed [OF s(1)] unfolding sim_reach_def by auto
  next
    assume "mc_ids g ! v \<in> sim_reach snap key pr"
    then obtain s where s: "s \<in> set (snap_seeds snap)" "(sim_link snap key pr)\<^sup>*\<^sup>* s (mc_ids g ! v)" by (auto simp: sim_reach_def)
    then obtain w where w: "w < length (mc_ids g)" "mc_ids g ! v = mc_ids g ! w" "(mc_link g key ?p)\<^sup>*\<^sup>* (index_at g s) w"
      using bwd [of s "mc_ids g ! v" "index_at g s"] seed [OF s(1)] by auto
    have "w = v" using nth_eq_iff_index_eq [of "mc_ids g" w v] pre w v by (auto simp: mc_pre_def)
    then show "v \<in> mc_reach g key ?p" using w s unfolding mc_reach_def seeds by auto
  qed
qed

lemma mc_compromised_iff:
  fixes snap
  defines "g \<equiv> compile_graph snap"
  assumes j: "j \<in> set (snap_jewels snap)"
  shows "index_at g j < length (mc_ids g)" "mc_ids g ! index_at g j = j"
    "mc_compromised g key (map pr (sn_edges snap)) (index_at g j) \<longleftrightarrow> sim_falls snap key pr j"
proof -
  let ?p = "map pr (sn_edges snap)" and ?i = "index_at g j"
  note c = compile_graph_spec [where snap = snap, folded g_def]
  have pre: "mc_pre g" using c(1) by (simp add: mc_holds_def)
  have "j \<in> set (mc_ids g)" using j c(4) snap_jewels_iff [of j snap] by auto
  then show i: "?i < length (mc_ids g)" "mc_ids g ! ?i = j" using index_at_ids [OF pre] by auto
  have "(\<exists>u \<in> mc_reach g key ?p. mc_link g key ?p u ?i) \<longleftrightarrow> (\<exists>x \<in> sim_reach snap key pr. sim_link snap key pr x j)"
  proof
    assume "\<exists>u \<in> mc_reach g key ?p. mc_link g key ?p u ?i"
    then obtain u where u: "u \<in> mc_reach g key ?p" "mc_link g key ?p u ?i" by blast
    have ur: "u < length (mc_ids g)" using mc_link_range [OF c(2) u(2)] by blast
    show "\<exists>x \<in> sim_reach snap key pr. sim_link snap key pr x j"
      using mc_reach_iff [of u snap key pr] mc_link_iff [of u snap ?i key pr] u ur i by (auto simp: g_def)
  next
    assume "\<exists>x \<in> sim_reach snap key pr. sim_link snap key pr x j"
    then obtain x where x: "x \<in> sim_reach snap key pr" "sim_link snap key pr x j" by blast
    then obtain u where u: "u < length (mc_ids g)" "x = mc_ids g ! u"
      using sim_link_ids [OF x(2)] by (auto simp: g_def in_set_conv_nth)
    show "\<exists>u \<in> mc_reach g key ?p. mc_link g key ?p u ?i"
      using mc_reach_iff [of u snap key pr] mc_link_iff [of u snap ?i key pr] u x i by (auto simp: g_def)
  qed
  moreover have "?i \<in> mc_reach g key ?p \<longleftrightarrow> j \<in> sim_reach snap key pr"
    using mc_reach_iff [of ?i snap key pr] i by (simp add: g_def)
  ultimately show "mc_compromised g key ?p ?i \<longleftrightarrow> sim_falls snap key pr j"
    unfolding mc_compromised_def sim_falls_def Let_def using c(7) [OF j] by simp
qed

section \<open>What the loops count\<close>

text \<open>The looks of a loop at its context that find it done.\<close>

definition stopped :: "(nat \<Rightarrow> bool) \<Rightarrow> nat list \<Rightarrow> bool" where
  "stopped stop its \<longleftrightarrow> (\<exists>it \<in> set its. it mod cancel_check_stride = 0 \<and> stop it)"

lemma stopped_Cons: "stopped stop (it # its) \<longleftrightarrow> (it mod cancel_check_stride = 0 \<and> stop it) \<or> stopped stop its"
  unfolding stopped_def by (simp only: list.set bex_simps)

lemma any_loop_spec:
  assumes ok: "mc_ok g"
  shows "trials_ok g t \<Longrightarrow> if stopped stop its then any_loop stop g key prob its t n = Some (Inl Cancelled)
    else \<exists>t'. trials_ok g t' \<and> any_loop stop g key prob its t n =
      Some (Inr (n + length (filter (\<lambda>it. \<exists>j \<in> set (mc_jewels g). mc_compromised g (key it) prob j) its), t'))"
proof (induction its arbitrary: t n)
  case Nil
  then show ?case by (auto simp: stopped_def)
next
  case (Cons it its)
  show ?case
  proof (cases "it mod cancel_check_stride = 0 \<and> stop it")
    case True
    then show ?thesis by (simp add: stopped_def)
  next
    case False
    obtain t' where t': "run_trial g (key it) prob t = Some t'" "trials_ok g t'"
        "\<forall>j < length (mc_ids g). reached g t' j \<longleftrightarrow> mc_compromised g (key it) prob j"
      using run_trial_spec [OF ok Cons.prems] by blast
    have "any_jewel g t' \<longleftrightarrow> (\<exists>j \<in> set (mc_jewels g). mc_compromised g (key it) prob j)"
      using t'(3) ok by (auto simp: any_jewel_def list_ex_iff mc_ok_def)
    moreover have "stopped stop (it # its) = stopped stop its" by (simp only: stopped_Cons False simp_thms)
    moreover have "any_loop stop g key prob (it # its) t n = any_loop stop g key prob its t' (if any_jewel g t' then Suc n else n)"
      unfolding any_loop.simps if_not_P [OF False] t'(1) by simp
    ultimately show ?thesis using Cons.IH [OF t'(2), of "if any_jewel g t' then Suc n else n"] by auto
  qed
qed

lemma count_jewels:
  "distinct js \<Longrightarrow> \<forall>j \<in> set js. j < length hits \<Longrightarrow> fold (count_jewel g t) js (hits, c, any) = (hits', c', any') \<Longrightarrow>
   length hits' = length hits \<and> (\<forall>j. hits' ! j = hits ! j + (if j \<in> set js \<and> reached g t j then 1 else 0)) \<and>
   c' = c + length (filter (reached g t) js) \<and> any' = (any \<or> (\<exists>j \<in> set js. reached g t j))"
proof (induction js arbitrary: hits c any)
  case Nil
  then show ?case by simp
next
  case (Cons j js)
  let ?h = "if reached g t j then hits[j := Suc (hits ! j)] else hits"
  have "fold (count_jewel g t) js (?h, if reached g t j then Suc c else c, any \<or> reached g t j) = (hits', c', any')"
  proof -
    have one: "count_jewel g t j (hits, c, any) = (?h, if reached g t j then Suc c else c, any \<or> reached g t j)"
      by (simp add: count_jewel_def)
    show ?thesis using Cons.prems(3) unfolding fold_simps one .
  qed
  from Cons.IH [OF _ _ this] Cons.prems
  have r: "length hits' = length ?h" "\<forall>i. hits' ! i = ?h ! i + (if i \<in> set js \<and> reached g t i then 1 else 0)"
      "c' = (if reached g t j then Suc c else c) + length (filter (reached g t) js)"
      "any' = ((any \<or> reached g t j) \<or> (\<exists>j \<in> set js. reached g t j))" by auto
  have "?h ! i = hits ! i + (if i = j \<and> reached g t j then 1 else 0)" for i
    using Cons.prems(2) by (auto simp: nth_list_update)
  then show ?case using r Cons.prems(1) by (auto split: if_splits)
qed

lemma trial_loop_spec:
  fixes seed :: u64
  assumes ok: "mc_ok g" and dist: "distinct (mc_jewels g)"
  defines "fell \<equiv> \<lambda>it j. mc_compromised g (trial_key seed stream_trials 0 (of_nat it)) (mc_p g) j"
  shows "trials_ok g t \<Longrightarrow> length hits = length (mc_ids g) \<Longrightarrow>
    if stopped (\<lambda>it. ctx (Look_Trial it)) its then trial_loop ctx g seed its t (hits, a, f) = Some (Inl Cancelled)
    else \<exists>hits'. trial_loop ctx g seed its t (hits, a, f) =
        Some (Inr (hits', a + length (filter (\<lambda>it. \<exists>j \<in> set (mc_jewels g). fell it j) its),
          f + (\<Sum>it \<leftarrow> its. length (filter (fell it) (mc_jewels g))))) \<and>
      (\<forall>j \<in> set (mc_jewels g). hits' ! j = hits ! j + length (filter (\<lambda>it. fell it j) its))"
proof (induction its arbitrary: t hits a f)
  case Nil
  then show ?case by (simp add: stopped_def)
next
  case (Cons it its)
  let ?stop = "\<lambda>it. ctx (Look_Trial it)"
  show ?case
  proof (cases "it mod cancel_check_stride = 0 \<and> ?stop it")
    case True
    then show ?thesis by (simp add: stopped_def)
  next
    case False
    obtain t' where t': "run_trial g (trial_key seed stream_trials 0 (of_nat it)) (mc_p g) t = Some t'" "trials_ok g t'"
        "\<forall>j < length (mc_ids g). reached g t' j \<longleftrightarrow> fell it j"
      using run_trial_spec [OF ok Cons.prems(1)] unfolding fell_def by blast
    have jr: "j < length (mc_ids g)" if "j \<in> set (mc_jewels g)" for j using ok that by (auto simp: mc_ok_def)
    obtain h c any where cj: "fold (count_jewel g t') (mc_jewels g) (hits, 0, False) = (h, c, any)"
      by (cases "fold (count_jewel g t') (mc_jewels g) (hits, 0, False)")
    have r: "length h = length hits" "\<forall>j. h ! j = hits ! j + (if j \<in> set (mc_jewels g) \<and> reached g t' j then 1 else 0)"
        "c = length (filter (reached g t') (mc_jewels g))" "any = (\<exists>j \<in> set (mc_jewels g). reached g t' j)"
      using count_jewels [OF dist _ cj] jr Cons.prems(2) by auto
    have same: "reached g t' j = fell it j" if "j \<in> set (mc_jewels g)" for j using t'(3) jr [OF that] by blast
    have c: "c = length (filter (fell it) (mc_jewels g))" unfolding r(3) using same by (metis (no_types, lifting) filter_cong)
    have any: "any = (\<exists>j \<in> set (mc_jewels g). fell it j)" unfolding r(4) using same by auto
    have ct: "count_trial g t' (hits, a, f) = (h, if any then Suc a else a, f + c)"
      by (simp only: count_trial_def cj prod.case Let_def)
    have step: "trial_loop ctx g seed (it # its) t (hits, a, f) = trial_loop ctx g seed its t' (h, if any then Suc a else a, f + c)"
      by (simp only: trial_loop.simps if_not_P [OF False] t'(1) option.case ct)
    have st: "stopped ?stop (it # its) = stopped ?stop its" by (simp only: stopped_Cons False simp_thms)
    have len: "length h = length (mc_ids g)" using r(1) Cons.prems(2) by simp
    note IH = Cons.IH [OF t'(2) len, of "if any then Suc a else a" "f + c"]
    show ?thesis
    proof (cases "stopped ?stop its")
      case True
      then show ?thesis using IH unfolding st step by simp
    next
      case nostop: False
      obtain hits' where h': "trial_loop ctx g seed its t' (h, if any then Suc a else a, f + c) =
          Some (Inr (hits', (if any then Suc a else a) + length (filter (\<lambda>it. \<exists>j \<in> set (mc_jewels g). fell it j) its),
            (f + c) + (\<Sum>it \<leftarrow> its. length (filter (fell it) (mc_jewels g)))))"
          "\<forall>j \<in> set (mc_jewels g). hits' ! j = h ! j + length (filter (\<lambda>it. fell it j) its)"
        using IH unfolding if_not_P [OF nostop] by blast
      have hit: "hits' ! j = hits ! j + length (filter (\<lambda>it. fell it j) (it # its))" if "j \<in> set (mc_jewels g)" for j
        using h'(2) r(2) same that by simp
      have n: "(if any then Suc a else a) + length (filter (\<lambda>it. \<exists>j \<in> set (mc_jewels g). fell it j) its) =
          a + length (filter (\<lambda>it. \<exists>j \<in> set (mc_jewels g). fell it j) (it # its))" by (simp add: any)
      have m: "(f + c) + (\<Sum>it \<leftarrow> its. length (filter (fell it) (mc_jewels g))) =
          f + (\<Sum>it \<leftarrow> it # its. length (filter (fell it) (mc_jewels g)))" by (simp add: c)
      show ?thesis unfolding st if_not_P [OF nostop] step h'(1) n m using hit by blast
    qed
  qed
qed

section \<open>The point estimate\<close>

text \<open>The specification, over the snapshot: in how many trials each jewel falls, and any of them.\<close>

definition edge_prob :: "edge \<Rightarrow> real" where
  "edge_prob e = clamp_prob (e_prob e)"

definition trial_falls :: "snapshot \<Rightarrow> u64 \<Rightarrow> u64 \<Rightarrow> (edge \<Rightarrow> real) \<Rightarrow> nat \<Rightarrow> string \<Rightarrow> bool" where
  "trial_falls snap seed stream pr it j = sim_falls snap (trial_key seed stream 0 (of_nat it)) pr j"

definition hits_of :: "snapshot \<Rightarrow> u64 \<Rightarrow> u64 \<Rightarrow> (edge \<Rightarrow> real) \<Rightarrow> nat \<Rightarrow> string \<Rightarrow> nat" where
  "hits_of snap seed stream pr n j = card {it. it < n \<and> trial_falls snap seed stream pr it j}"

definition any_hits_of :: "snapshot \<Rightarrow> u64 \<Rightarrow> u64 \<Rightarrow> (edge \<Rightarrow> real) \<Rightarrow> nat \<Rightarrow> nat" where
  "any_hits_of snap seed stream pr n = card {it. it < n \<and> (\<exists>j \<in> set (snap_jewels snap). trial_falls snap seed stream pr it j)}"

definition jewel_estimate :: "snapshot \<Rightarrow> u64 \<Rightarrow> nat \<Rightarrow> string \<Rightarrow> jewel_risk" where
  "jewel_estimate snap seed n j =
     (let node = node_at (node_by_id snap) j; h = hits_of snap seed stream_trials edge_prob n j
      in \<lparr>jr_id = j, jr_name = n_name node, jr_label = n_label node, jr_prob = real h / real n,
          jr_low = fst (wilson h n), jr_high = snd (wilson h n)\<rparr>)"

definition point_estimate :: "snapshot \<Rightarrow> u64 \<Rightarrow> nat \<Rightarrow> risk_simulation" where
  "point_estimate snap seed n =
     (let a = any_hits_of snap seed stream_trials edge_prob n
      in (zero_sim n)\<lparr>rs_any := real a / real n, rs_any_low := fst (wilson a n), rs_any_high := snd (wilson a n),
          rs_expected := real (\<Sum>j \<in> set (snap_jewels snap). hits_of snap seed stream_trials edge_prob n j) / real n,
          rs_jewels := sort_by jewel_before (map (jewel_estimate snap seed n) (snap_jewels snap))\<rparr>)"

text \<open>The headline loop over the compiled graph gives exactly those counts.\<close>

lemma mc_p_eq: "mc_p (compile_graph snap) = map edge_prob (sn_edges snap)"
proof -
  have h: "mc_holds (compile_graph snap) (sn_edges snap)" by (rule compile_graph_spec)
  show ?thesis by (rule nth_equalityI) (use h in \<open>auto simp: mc_holds_def edge_prob_def\<close>)
qed

lemma mc_jewels_eq:
  "mc_jewels (compile_graph snap) = map (index_at (compile_graph snap)) (snap_jewels snap)"
  "mc_seeds (compile_graph snap) = map (index_at (compile_graph snap)) (snap_seeds snap)"
  by (rule compile_graph_spec)+

lemma index_at_jewels_inj: "inj_on (index_at (compile_graph snap)) (set (snap_jewels snap))"
  by (rule inj_onI) (metis mc_compromised_iff(2))

lemma mc_jewels_distinct: "distinct (mc_jewels (compile_graph snap))"
  by (simp add: mc_jewels_eq distinct_map snap_jewels_distinct index_at_jewels_inj)

lemma filter_upt_card: "length (filter P [0..<n]) = card {it. it < n \<and> P it}"
proof -
  have "length (filter P [0..<n]) = card (set (filter P [0..<n]))" by (rule distinct_card [symmetric]) simp
  moreover have "set (filter P [0..<n]) = {it. it < n \<and> P it}" by auto
  ultimately show ?thesis by simp
qed

lemma any_count_eq:
  "length (filter (\<lambda>it. \<exists>j \<in> set (mc_jewels (compile_graph snap)).
      mc_compromised (compile_graph snap) (trial_key seed stream 0 (of_nat it)) (map pr (sn_edges snap)) j) [0..<n]) =
   any_hits_of snap seed stream pr n"
  unfolding filter_upt_card any_hits_of_def mc_jewels_eq trial_falls_def
  by (rule arg_cong [where f = card]) (use mc_compromised_iff(3) in auto)

lemma sum_filter_swap:
  assumes "distinct js"
  shows "(\<Sum>it \<leftarrow> [0..<n]. length (filter (P it) js)) = (\<Sum>j \<in> set js. card {it. it < n \<and> P it j})"
proof -
  have "(\<Sum>it \<leftarrow> [0..<n]. length (filter (P it) js)) = (\<Sum>it < n. \<Sum>j \<in> set js. if P it j then 1 else 0)"
  proof -
    have "length (filter (P it) js) = (\<Sum>j \<in> set js. if P it j then 1 else 0)" for it
    proof -
      have "length (filter (P it) js) = card (set (filter (P it) js))" by (rule distinct_card [symmetric]) (simp add: assms)
      also have "\<dots> = card {j \<in> set js. P it j}" by simp
      also have "\<dots> = (\<Sum>j \<in> set js. if P it j then 1 else 0)" by (simp add: sum.If_cases Int_def)
      finally show ?thesis .
    qed
    then show ?thesis by (simp add: interv_sum_list_conv_sum_set_nat atLeast0LessThan)
  qed
  also have "\<dots> = (\<Sum>j \<in> set js. \<Sum>it < n. if P it j then 1 else 0)" by (rule sum.swap)
  also have "\<dots> = (\<Sum>j \<in> set js. card {it. it < n \<and> P it j})"
    by (rule sum.cong) (simp_all add: sum.If_cases Int_def lessThan_def)
  finally show ?thesis .
qed

lemma headline_loop:
  fixes snap seed
  defines "g \<equiv> compile_graph snap"
  shows "if stopped (\<lambda>it. ctx (Look_Trial it)) [0..<n]
    then trial_loop ctx g seed [0..<n] (new_trials g) (replicate (length (mc_ids g)) 0, 0, 0) = Some (Inl Cancelled)
    else \<exists>hits. trial_loop ctx g seed [0..<n] (new_trials g) (replicate (length (mc_ids g)) 0, 0, 0) =
        Some (Inr (hits, any_hits_of snap seed stream_trials edge_prob n,
          \<Sum>j \<in> set (snap_jewels snap). hits_of snap seed stream_trials edge_prob n j)) \<and>
      (\<forall>j \<in> set (snap_jewels snap). hits ! index_at g j = hits_of snap seed stream_trials edge_prob n j)"
proof -
  let ?fell = "\<lambda>it j. mc_compromised g (trial_key seed stream_trials 0 (of_nat it)) (mc_p g) j"
  have ok: "mc_ok g" unfolding g_def by (rule compile_graph_spec)
  have jw: "set (mc_jewels g) = index_at g ` set (snap_jewels snap)" by (simp add: g_def mc_jewels_eq)
  have fell: "?fell it (index_at g j) \<longleftrightarrow> trial_falls snap seed stream_trials edge_prob it j" if "j \<in> set (snap_jewels snap)" for it j
    using mc_compromised_iff(3) [OF that] by (simp add: g_def mc_p_eq trial_falls_def)
  have len: "length (replicate (length (mc_ids g)) (0::nat)) = length (mc_ids g)" by simp
  note sp = trial_loop_spec [OF ok mc_jewels_distinct [of snap, folded g_def] new_trials_ok len, of ctx "[0..<n]" seed 0 0]
  have tot: "(\<Sum>it \<leftarrow> [0..<n]. length (filter (?fell it) (mc_jewels g))) =
      (\<Sum>j \<in> set (snap_jewels snap). hits_of snap seed stream_trials edge_prob n j)"
  proof -
    have "(\<Sum>it \<leftarrow> [0..<n]. length (filter (?fell it) (mc_jewels g))) =
        (\<Sum>j \<in> index_at g ` set (snap_jewels snap). card {it. it < n \<and> ?fell it j})"
      using sum_filter_swap [OF mc_jewels_distinct [of snap, folded g_def], of ?fell n] jw by simp
    also have "\<dots> = (\<Sum>j \<in> set (snap_jewels snap). card {it. it < n \<and> ?fell it (index_at g j)})"
      by (rule sum.reindex_cong [where l = "index_at g"]) (simp_all add: g_def index_at_jewels_inj)
    also have "\<dots> = (\<Sum>j \<in> set (snap_jewels snap). hits_of snap seed stream_trials edge_prob n j)"
      by (rule sum.cong) (simp_all add: hits_of_def fell)
    finally show ?thesis .
  qed
  have any: "length (filter (\<lambda>it. \<exists>j \<in> set (mc_jewels g). ?fell it j) [0..<n]) = any_hits_of snap seed stream_trials edge_prob n"
    using any_count_eq [of snap seed stream_trials edge_prob n] by (simp add: g_def mc_p_eq)
  have hits: "length (filter (\<lambda>it. ?fell it (index_at g j)) [0..<n]) = hits_of snap seed stream_trials edge_prob n j"
    if "j \<in> set (snap_jewels snap)" for j
    unfolding filter_upt_card hits_of_def using fell [OF that] by simp
  have zero: "replicate (length (mc_ids g)) 0 ! index_at g j = (0::nat)" if "j \<in> set (snap_jewels snap)" for j
    using mc_compromised_iff(1) [OF that] by (simp add: g_def)
  show ?thesis
  proof (cases "stopped (\<lambda>it. ctx (Look_Trial it)) [0..<n]")
    case True
    then show ?thesis using sp by simp
  next
    case False
    then obtain hits' where h: "trial_loop ctx g seed [0..<n] (new_trials g) (replicate (length (mc_ids g)) 0, 0, 0) =
        Some (Inr (hits', any_hits_of snap seed stream_trials edge_prob n,
          \<Sum>j \<in> set (snap_jewels snap). hits_of snap seed stream_trials edge_prob n j))"
        "\<forall>j \<in> set (mc_jewels g). hits' ! j = replicate (length (mc_ids g)) 0 ! j + length (filter (\<lambda>it. ?fell it j) [0..<n])"
      using sp unfolding any tot by auto
    have "hits' ! index_at g j = hits_of snap seed stream_trials edge_prob n j" if "j \<in> set (snap_jewels snap)" for j
      using h(2) jw that zero [OF that] hits [OF that] by auto
    then show ?thesis using h(1) False by auto
  qed
qed

text \<open>The iterations a run makes, given what the caller asked for.\<close>

definition run_length :: "int \<Rightarrow> nat" where
  "run_length iterations = (if iterations \<le> 0 then default_risk_iterations else nat iterations)"

lemma jewel_rows_eq:
  assumes "\<forall>j \<in> set (snap_jewels snap). hits ! index_at (compile_graph snap) j = hits_of snap seed stream_trials edge_prob n j"
  shows "map (jewel_row (compile_graph snap) hits n) (mc_jewels (compile_graph snap)) = map (jewel_estimate snap seed n) (snap_jewels snap)"
proof -
  have "jewel_row (compile_graph snap) hits n (index_at (compile_graph snap) j) = jewel_estimate snap seed n j"
    if "j \<in> set (snap_jewels snap)" for j
    using assms that mc_compromised_iff(2) [OF that] compile_graph_spec(3) [of snap]
    by (simp add: jewel_row_def jewel_estimate_def Let_def split_beta)
  then show ?thesis by (simp add: mc_jewels_eq)
qed

lemma simulate_point_eq:
  "simulate_risk_with ctx rng profs snap iterations seed True =
     (let n = run_length iterations
      in if snap_seeds snap = [] \<or> snap_jewels snap = [] then Some (Inr (zero_sim n))
         else if stopped (\<lambda>it. ctx (Look_Trial it)) [0..<n] then Some (Inl Cancelled)
         else Some (Inr (point_estimate snap seed n)))"
proof (cases "snap_seeds snap = [] \<or> snap_jewels snap = []")
  case True
  then show ?thesis by (simp add: simulate_risk_with_def Let_def run_length_def mc_jewels_eq)
next
  case False
  then have ne: "\<not> (mc_seeds (compile_graph snap) = [] \<or> mc_jewels (compile_graph snap) = [])" by (simp add: mc_jewels_eq)
  let ?n = "run_length iterations"
  note hl = headline_loop [where snap = snap and seed = seed and ctx = ctx and n = ?n]
  show ?thesis
  proof (cases "stopped (\<lambda>it. ctx (Look_Trial it)) [0..<?n]")
    case True
    then show ?thesis using False ne hl by (simp add: simulate_risk_with_def Let_def flip: run_length_def)
  next
    case nostop: False
    then obtain hits where h: "trial_loop ctx (compile_graph snap) seed [0..<?n] (new_trials (compile_graph snap))
          (replicate (length (mc_ids (compile_graph snap))) 0, 0, 0) =
        Some (Inr (hits, any_hits_of snap seed stream_trials edge_prob ?n,
          \<Sum>j \<in> set (snap_jewels snap). hits_of snap seed stream_trials edge_prob ?n j))"
        "\<forall>j \<in> set (snap_jewels snap). hits ! index_at (compile_graph snap) j = hits_of snap seed stream_trials edge_prob ?n j"
      using hl by auto
    show ?thesis using False ne nostop h(1) jewel_rows_eq [OF h(2)]
      by (simp add: simulate_risk_with_def Let_def point_estimate_def flip: run_length_def)
  qed
qed

section \<open>The band and the mixture\<close>

lemma compiled_ok: "mc_ok (compile_graph snap)"
  by (rule compile_graph_spec)

text \<open>A generator whose sampler ends for every proper Beta.\<close>

definition sampler_ends :: "'r rng \<Rightarrow> bool" where
  "sampler_ends rng \<longleftrightarrow> (\<forall>a b s. a > 0 \<longrightarrow> b > 0 \<longrightarrow> sample_beta rng a b s \<noteq> None)"

lemma those_Some: "(\<And>x. x \<in> set xs \<Longrightarrow> x \<noteq> None) \<Longrightarrow> \<exists>ys. those xs = Some ys \<and> length ys = length xs"
proof (induction xs)
  case Nil
  then show ?case by simp
next
  case (Cons x xs)
  then obtain ys where "those xs = Some ys" "length ys = length xs" by auto
  moreover obtain y where "x = Some y" using Cons.prems [of x] by auto
  ultimately show ?case by simp
qed

lemma beta_params_pos: "fst (beta_params p conf n) > 0 \<and> snd (beta_params p conf n) > 0"
proof -
  have k: "concentration conf > 0" using concentration_range [of conf] by simp
  then show ?thesis by (auto simp: beta_params_def Let_def beta_eps_def intro!: mult_pos_pos add_pos_pos)
qed

lemma sampled_probs_Some:
  assumes "sampler_ends rng"
  shows "\<exists>ps. sampled_probs rng g sample = Some ps"
proof -
  let ?f = "\<lambda>e. let (a, b) = beta_params (mc_p g ! e) (mc_conf g ! e) (mc_evid g ! e)
                     in map_option fst (sample_beta rng a b (rg_seed rng sample (mc_key g ! e)))"
  have "?f e \<noteq> None" for e
  proof -
    obtain a b where ab: "beta_params (mc_p g ! e) (mc_conf g ! e) (mc_evid g ! e) = (a, b)"
      by (cases "beta_params (mc_p g ! e) (mc_conf g ! e) (mc_evid g ! e)")
    then have "a > 0" "b > 0" using beta_params_pos [of "mc_p g ! e" "mc_conf g ! e" "mc_evid g ! e"] by simp_all
    then have "sample_beta rng a b (rg_seed rng sample (mc_key g ! e)) \<noteq> None" using assms by (simp add: sampler_ends_def)
    then show ?thesis by (simp add: ab)
  qed
  then have "\<exists>ys. those (map ?f [0..<length (mc_p g)]) = Some ys \<and> length ys = length (map ?f [0..<length (mc_p g)])"
    by (intro those_Some) auto
  then show ?thesis unfolding sampled_probs_def by blast
qed

lemma band_rate_Some:
  assumes "mc_ok g" "trials_ok g t"
  shows "\<exists>r t'. band_rate g seed prob t = Some (r, t') \<and> trials_ok g t'"
proof -
  have "\<not> stopped (\<lambda>_. False) [0..<band_inner]" by (simp add: stopped_def)
  then show ?thesis
    using any_loop_spec [OF assms, of "\<lambda>_. False" "[0..<band_inner]" "\<lambda>it. trial_key seed stream_band 0 (of_nat it)" prob 0]
    by (auto simp: band_rate_def)
qed

lemma band_loop_Some:
  assumes ok: "mc_ok g" and se: "sampler_ends rng" and live: "\<And>k. k \<in> set ks \<Longrightarrow> \<not> ctx (Look_Sample k)"
  shows "trials_ok g t \<Longrightarrow> \<exists>rates'. band_loop ctx rng g seed ks t rates = Some (Inr rates')"
  using live
proof (induction ks arbitrary: t rates)
  case Nil
  then show ?case by simp
next
  case (Cons k ks)
  obtain ps where ps: "sampled_probs rng g (trial_key seed stream_beta (of_nat k) 0) = Some ps" using sampled_probs_Some [OF se] by blast
  obtain r t' where r: "band_rate g seed ps t = Some (r, t')" "trials_ok g t'" using band_rate_Some [OF ok Cons.prems(1)] by blast
  have "\<not> ctx (Look_Sample k)" using Cons.prems(2) by simp
  then show ?case using Cons.IH [OF r(2), of "rates @ [r]"] Cons.prems(2) ps r(1) by simp
qed

text \<open>The band always brackets the headline, inside the unit interval.\<close>

lemma lay_band_brackets:
  assumes "0 \<le> nominal" "nominal \<le> 1"
  shows "0 \<le> fst (lay_band nominal control rates) \<and> fst (lay_band nominal control rates) \<le> nominal \<and>
    nominal \<le> snd (lay_band nominal control rates) \<and> snd (lay_band nominal control rates) \<le> 1"
  using assms by (simp add: lay_band_def Let_def)

lemma any_compromise_band_Some:
  assumes se: "sampler_ends rng" and live: "\<And>k. \<not> ctx (Look_Sample k)" and nom: "0 \<le> nominal" "nominal \<le> 1"
    and ne: "mc_seeds (compile_graph snap) \<noteq> []" "mc_jewels (compile_graph snap) \<noteq> []"
  shows "\<exists>lo hi. any_compromise_band ctx rng (compile_graph snap) seed nominal = Some (Inr (lo, hi)) \<and>
    0 \<le> lo \<and> lo \<le> nominal \<and> nominal \<le> hi \<and> hi \<le> 1"
proof -
  let ?g = "compile_graph snap"
  obtain control t where c: "band_rate ?g seed (mc_p ?g) (new_trials ?g) = Some (control, t)" "trials_ok ?g t"
    using band_rate_Some [OF compiled_ok new_trials_ok] by blast
  obtain rates where "band_loop ctx rng ?g seed [0..<band_outer] t [] = Some (Inr rates)"
    using band_loop_Some [OF compiled_ok se _ c(2), of "[0..<band_outer]" ctx] live by blast
  then show ?thesis using ne c(1) lay_band_brackets [OF nom, of control rates]
    by (cases "lay_band nominal control rates") (simp add: any_compromise_band_def)
qed

text \<open>An edge's probability for a profile, and the rate it gives.\<close>

definition profile_prob :: "snapshot \<Rightarrow> profile list \<Rightarrow> nat \<Rightarrow> edge \<Rightarrow> real" where
  "profile_prob snap profs c e = profile_probs (edge_prob e) (fst (edge_basis (node_by_id snap) e)) profs ! c"

lemma profile_table_eq: "profile_table (compile_graph snap) profs c = map (profile_prob snap profs c) (sn_edges snap)"
proof -
  have h: "mc_holds (compile_graph snap) (sn_edges snap)" "mc_nodes (compile_graph snap) = node_by_id snap"
    by (rule compile_graph_spec)+
  have "mc_basis (compile_graph snap) ! k = fst (edge_basis (node_by_id snap) (sn_edges snap ! k))" if "k < length (sn_edges snap)" for k
    using h that unfolding mc_holds_def by (metis fst_conv)
  then show ?thesis by (intro nth_equalityI) (auto simp: profile_table_def profile_prob_def mc_p_eq)
qed

lemma mixture_loop_spec:
  fixes snap :: snapshot and seed :: u64 and n :: nat and profs :: "profile list"
  defines "g \<equiv> compile_graph snap"
  defines "rate \<equiv> \<lambda>c. real (any_hits_of snap seed stream_trials (profile_prob snap profs c) n) / real n"
  assumes live: "\<And>c it. \<not> ctx (Look_Profile c it)"
  shows "trials_ok g t \<Longrightarrow> mixture_loop ctx g profs n seed cs t mix out =
    Some (Inr (mix + (\<Sum>(c, pr) \<leftarrow> cs. pf_prior pr * rate c),
      out @ map (\<lambda>(c, pr). \<lparr>pc_profile = pf_name pr, pc_prior = pf_prior pr, pc_prob = rate c\<rparr>) cs))"
proof (induction cs arbitrary: t mix out)
  case Nil
  then show ?case by simp
next
  case (Cons a cs)
  obtain ci c where a: "a = (ci, c)" by (cases a)
  let ?stop = "\<lambda>it. ctx (Look_Profile ci it)" and ?key = "\<lambda>it. trial_key seed stream_trials 0 (of_nat it)"
  have "\<not> stopped ?stop [0..<n]" using live by (simp add: stopped_def)
  then obtain t' where t': "trials_ok g t'" "any_loop ?stop g ?key (profile_table g profs ci) [0..<n] t 0 =
      Some (Inr (length (filter (\<lambda>it. \<exists>j \<in> set (mc_jewels g). mc_compromised g (?key it) (profile_table g profs ci) j) [0..<n]), t'))"
    using any_loop_spec [OF compiled_ok Cons.prems [unfolded g_def], of ?stop "[0..<n]" ?key "profile_table g profs ci" 0]
    by (auto simp: g_def)
  have n: "length (filter (\<lambda>it. \<exists>j \<in> set (mc_jewels g). mc_compromised g (?key it) (profile_table g profs ci) j) [0..<n]) =
      any_hits_of snap seed stream_trials (profile_prob snap profs ci) n"
    unfolding g_def profile_table_eq by (rule any_count_eq)
  have "mixture_loop ctx g profs n seed (a # cs) t mix out =
      mixture_loop ctx g profs n seed cs t' (mix + pf_prior c * rate ci)
        (out @ [\<lparr>pc_profile = pf_name c, pc_prior = pf_prior c, pc_prob = rate ci\<rparr>])"
    unfolding a by (simp add: t'(2) n rate_def Let_def)
  then show ?case using Cons.IH [OF t'(1)] by (simp add: a)
qed

text \<open>The full run, when no look finds the context done and the sampler ends.\<close>

definition mixture_of :: "snapshot \<Rightarrow> u64 \<Rightarrow> profile list \<Rightarrow> nat \<Rightarrow> real \<times> profile_compromise list" where
  "mixture_of snap seed profs n =
     (let rate = (\<lambda>c. real (any_hits_of snap seed stream_trials (profile_prob snap profs c) n) / real n)
      in (\<Sum>(c, pr) \<leftarrow> zip [0..<length profs] profs. pf_prior pr * rate c,
          map (\<lambda>(c, pr). \<lparr>pc_profile = pf_name pr, pc_prior = pf_prior pr, pc_prob = rate c\<rparr>) (zip [0..<length profs] profs)))"

lemma run_length_pos [simp]: "run_length k > 0"
  by (simp add: run_length_def default_risk_iterations_def)

lemma any_hits_le: "any_hits_of snap seed stream pr n \<le> n"
proof -
  have "any_hits_of snap seed stream pr n \<le> card {..<n}" unfolding any_hits_of_def by (rule card_mono) auto
  then show ?thesis by simp
qed

lemma mixture_compromise_eq:
  assumes "\<And>c it. \<not> ctx (Look_Profile c it)" "snap_seeds snap \<noteq> []" "snap_jewels snap \<noteq> []" "profs \<noteq> []" "n > 0"
  shows "mixture_compromise ctx profs (compile_graph snap) n seed = Some (Inr (mixture_of snap seed profs n))"
  using assms mixture_loop_spec [where snap = snap and seed = seed and profs = profs and n = n and ctx = ctx, OF assms(1) new_trials_ok]
  by (simp add: mixture_compromise_def mixture_of_def mc_jewels_eq Let_def)

lemma simulate_full_eq:
  fixes iterations :: int
  assumes se: "sampler_ends rng" and live: "\<And>l. \<not> ctx l" and ne: "snap_seeds snap \<noteq> []" "snap_jewels snap \<noteq> []" "profs \<noteq> []"
  defines "n \<equiv> run_length iterations"
  shows "\<exists>lo hi. simulate_risk_with ctx rng profs snap iterations seed False =
      Some (Inr ((point_estimate snap seed n)\<lparr>rs_sens_low := lo, rs_sens_high := hi,
        rs_mixture := fst (mixture_of snap seed profs n), rs_profiles := snd (mixture_of snap seed profs n)\<rparr>)) \<and>
    0 \<le> lo \<and> lo \<le> rs_any (point_estimate snap seed n) \<and> rs_any (point_estimate snap seed n) \<le> hi \<and> hi \<le> 1"
proof -
  let ?g = "compile_graph snap" and ?a = "any_hits_of snap seed stream_trials edge_prob n"
  have nz: "n > 0" by (simp add: n_def)
  have nostop: "\<not> stopped (\<lambda>it. ctx (Look_Trial it)) [0..<n]" using live by (simp add: stopped_def)
  obtain hits where h: "trial_loop ctx ?g seed [0..<n] (new_trials ?g) (replicate (length (mc_ids ?g)) 0, 0, 0) =
      Some (Inr (hits, ?a, \<Sum>j \<in> set (snap_jewels snap). hits_of snap seed stream_trials edge_prob n j))"
      "\<forall>j \<in> set (snap_jewels snap). hits ! index_at ?g j = hits_of snap seed stream_trials edge_prob n j"
    using headline_loop [where snap = snap and seed = seed and ctx = ctx and n = n] nostop by auto
  have any: "rs_any (point_estimate snap seed n) = real ?a / real n" by (simp add: point_estimate_def Let_def)
  have "0 \<le> real ?a / real n" "real ?a / real n \<le> 1" using any_hits_le [of snap seed stream_trials edge_prob n] nz by simp_all
  moreover have gne: "mc_seeds ?g \<noteq> []" "mc_jewels ?g \<noteq> []" using ne by (simp_all add: mc_jewels_eq)
  ultimately obtain lo hi where b: "any_compromise_band ctx rng ?g seed (real ?a / real n) = Some (Inr (lo, hi))"
      "0 \<le> lo" "lo \<le> real ?a / real n" "real ?a / real n \<le> hi" "hi \<le> 1"
    using any_compromise_band_Some [where ctx = ctx, OF se live] by blast
  obtain mix pcs where m: "mixture_of snap seed profs n = (mix, pcs)" by (cases "mixture_of snap seed profs n")
  have mc: "mixture_compromise ctx profs ?g n seed = Some (Inr (mix, pcs))" using mixture_compromise_eq [where ctx = ctx, OF live ne nz] m by simp
  have n: "(if iterations \<le> 0 then default_risk_iterations else nat iterations) = n" by (simp add: n_def run_length_def)
  have "simulate_risk_with ctx rng profs snap iterations seed False =
      Some (Inr ((point_estimate snap seed n)\<lparr>rs_sens_low := lo, rs_sens_high := hi,
        rs_mixture := fst (mixture_of snap seed profs n), rs_profiles := snd (mixture_of snap seed profs n)\<rparr>))"
    unfolding simulate_risk_with_def n Let_def
    using gne h(1) b(1) mc jewel_rows_eq [OF h(2)] m by (simp add: point_estimate_def Let_def zero_sim_def)
  then show ?thesis using b any by auto
qed

section \<open>The headline\<close>

text \<open>
  The point estimate is exact. Without the band, the simulation returns for every
  graph, iteration count and seed: an error when a look finds the context done, the zero
  result without entry points or jewels, and otherwise the counted trials, in each of which
  a jewel falls precisely when edges kept by the draws lead to it from an entry point.
\<close>

theorem simulate_point_exact:
  "simulate_risk_with ctx rng profs snap iterations seed True =
     (let n = run_length iterations
      in if snap_seeds snap = [] \<or> snap_jewels snap = [] then Some (Inr (zero_sim n))
         else if stopped (\<lambda>it. ctx (Look_Trial it)) [0..<n] then Some (Inl Cancelled)
         else Some (Inr (point_estimate snap seed n)))"
  by (rule simulate_point_eq)

end
