(* ===== verification/What_If.thy ===== *)
theory What_If
  imports K_Shortest Risk_Simulation
begin

text \<open>
  Comparing simulations: the what-if of \<open>backend/internal/analyzer/kshortest.go\<close> (\<open>WhatIf\<close>,
  \<open>RiskReduction\<close>, \<open>ExpectedReduction\<close>) and what the shared draws of
  \<open>backend/internal/analyzer/montecarlo.go\<close> promise: a cut never raises the risk, an irrelevant cut
  leaves it alone, a stronger attacker never reaches less, and the order the store lists the
  graph in does not matter.
\<close>

section \<open>The what-if\<close>

record what_if_result =
  wi_removed :: nat
  wi_before :: "attack_path list"
  wi_after :: "attack_path list"
  wi_before_risk :: risk_simulation
  wi_after_risk :: risk_simulation

definition risk_reduction :: "what_if_result \<Rightarrow> real" where
  "risk_reduction r = rs_any (wi_before_risk r) - rs_any (wi_after_risk r)"

definition expected_reduction :: "what_if_result \<Rightarrow> real" where
  "expected_reduction r = rs_expected (wi_before_risk r) - rs_expected (wi_after_risk r)"

definition what_if_from_with :: "run_ctx \<Rightarrow> 'r rng \<Rightarrow> profile list \<Rightarrow> snapshot \<Rightarrow> risk_simulation \<Rightarrow> edge_cut list \<Rightarrow> int \<Rightarrow> u64 \<Rightarrow> bool \<Rightarrow>
    (sim_error + what_if_result) option" where
  "what_if_from_with ctx rng profs snap before cuts iterations seed point_only =
     (let reduced = cut_edges snap cuts
      in case simulate_risk_with ctx rng profs reduced iterations seed point_only of
           None \<Rightarrow> None
         | Some (Inl err) \<Rightarrow> Some (Inl err)
         | Some (Inr risk) \<Rightarrow>
             (case (find_critical_paths snap, find_critical_paths reduced) of
                (Some pb, Some pa) \<Rightarrow>
                  Some (Inr \<lparr>wi_removed = length (sn_edges snap) - length (sn_edges reduced), wi_before = pb, wi_after = pa,
                     wi_before_risk = before, wi_after_risk = risk\<rparr>)
              | _ \<Rightarrow> None))"

definition what_if_from :: "run_ctx \<Rightarrow> 'r rng \<Rightarrow> profile list \<Rightarrow> snapshot \<Rightarrow> risk_simulation \<Rightarrow> edge_cut list \<Rightarrow> int \<Rightarrow> u64 \<Rightarrow>
    (sim_error + what_if_result) option" where
  "what_if_from ctx rng profs snap before cuts iterations seed =
     what_if_from_with ctx rng profs snap before cuts iterations seed False"

text \<open>The two runs look at the context at different times.\<close>

definition what_if :: "run_ctx \<Rightarrow> run_ctx \<Rightarrow> 'r rng \<Rightarrow> profile list \<Rightarrow> snapshot \<Rightarrow> edge_cut list \<Rightarrow> int \<Rightarrow> u64 \<Rightarrow> (sim_error + what_if_result) option" where
  "what_if ctx ctx' rng profs snap cuts iterations seed =
     (case simulate_risk_with ctx rng profs snap iterations seed False of
        None \<Rightarrow> None
      | Some (Inl err) \<Rightarrow> Some (Inl err)
      | Some (Inr before) \<Rightarrow> what_if_from ctx' rng profs snap before cuts iterations seed)"

section \<open>Comparing trials\<close>

text \<open>Two runs over the same nodes: more kept edges never let fewer jewels fall.\<close>

lemma sim_reach_mono:
  assumes "\<And>u v. sim_link a key pr u v \<Longrightarrow> sim_link b key pr' u v" and "set (snap_seeds a) \<subseteq> set (snap_seeds b)"
  shows "sim_reach a key pr \<subseteq> sim_reach b key pr'"
proof
  fix v assume "v \<in> sim_reach a key pr"
  then obtain s where s: "s \<in> set (snap_seeds a)" "(sim_link a key pr)\<^sup>*\<^sup>* s v" by (auto simp: sim_reach_def)
  have "(sim_link b key pr')\<^sup>*\<^sup>* s v" by (rule rtranclp_mono [THEN predicate2D, OF _ s(2)]) (use assms(1) in blast)
  then show "v \<in> sim_reach b key pr'" using s(1) assms(2) by (auto simp: sim_reach_def)
qed

lemma sim_falls_mono:
  assumes "\<And>u v. sim_link a key pr u v \<Longrightarrow> sim_link b key pr' u v" "set (snap_seeds a) \<subseteq> set (snap_seeds b)"
    "node_at (node_by_id a) j = node_at (node_by_id b) j" "sim_falls a key pr j"
  shows "sim_falls b key pr' j"
proof -
  have sub: "sim_reach a key pr \<subseteq> sim_reach b key pr'" by (rule sim_reach_mono [OF assms(1,2)])
  show ?thesis using assms(4) sub assms(1) unfolding sim_falls_def assms(3) Let_def
    by (simp split: if_splits) blast+
qed

lemma hits_of_mono:
  assumes "\<And>it. trial_falls a seed stream pr it j \<Longrightarrow> trial_falls b seed stream pr' it j"
  shows "hits_of a seed stream pr n j \<le> hits_of b seed stream pr' n j"
  unfolding hits_of_def by (rule card_mono) (use assms in auto)

lemma any_hits_mono:
  assumes "\<And>it j. j \<in> set (snap_jewels a) \<Longrightarrow> trial_falls a seed stream pr it j \<Longrightarrow> trial_falls b seed stream pr' it j"
    and "set (snap_jewels a) \<subseteq> set (snap_jewels b)"
  shows "any_hits_of a seed stream pr n \<le> any_hits_of b seed stream pr' n"
  unfolding any_hits_of_def by (rule card_mono) (use assms in auto)

subsection \<open>A cut\<close>

lemma cut_edges_simps [simp]:
  "sn_nodes (cut_edges snap cuts) = sn_nodes snap"
  "sn_edges (cut_edges snap cuts) = filter (\<lambda>e. \<not> cut_matches cuts e) (sn_edges snap)"
  "node_by_id (cut_edges snap cuts) = node_by_id snap"
  "snap_seeds (cut_edges snap cuts) = snap_seeds snap" "snap_jewels (cut_edges snap cuts) = snap_jewels snap"
  by (simp_all add: cut_edges_def node_by_id_def snap_seeds_def snap_jewels_def)

lemma sim_link_cut: "sim_link (cut_edges snap cuts) key pr u v \<Longrightarrow> sim_link snap key pr u v"
  by (auto simp: sim_link_def)

lemma trial_falls_cut: "trial_falls (cut_edges snap cuts) seed stream pr it j \<Longrightarrow> trial_falls snap seed stream pr it j"
  unfolding trial_falls_def by (erule sim_falls_mono [rotated -1]) (simp_all add: sim_link_cut)

text \<open>The edges some route from an entry point to a jewel crosses.\<close>

definition graph_link :: "snapshot \<Rightarrow> string \<Rightarrow> string \<Rightarrow> bool" where
  "graph_link snap u v \<longleftrightarrow> (\<exists>e \<in> set (sn_edges snap). e_from e = u \<and> e_to e = v)"

definition on_route :: "snapshot \<Rightarrow> edge \<Rightarrow> bool" where
  "on_route snap e \<longleftrightarrow> (\<exists>s \<in> set (snap_seeds snap). (graph_link snap)\<^sup>*\<^sup>* s (e_from e)) \<and>
     (\<exists>j \<in> set (snap_jewels snap). (graph_link snap)\<^sup>*\<^sup>* (e_to e) j)"

lemma sim_graph_link: "sim_link snap key pr u v \<Longrightarrow> graph_link snap u v"
  by (auto simp: sim_link_def graph_link_def)

lemma sim_graph_links: "(sim_link snap key pr)\<^sup>*\<^sup>* u v \<Longrightarrow> (graph_link snap)\<^sup>*\<^sup>* u v"
  by (rule rtranclp_mono [THEN predicate2D]) (auto dest: sim_graph_link)

lemma link_survives:
  assumes irr: "\<And>e. e \<in> set (sn_edges snap) \<Longrightarrow> cut_matches cuts e \<Longrightarrow> \<not> on_route snap e"
    and s: "s \<in> set (snap_seeds snap)" "(sim_link snap key pr)\<^sup>*\<^sup>* s u" and l: "sim_link snap key pr u v"
    and j: "j \<in> set (snap_jewels snap)" "(sim_link snap key pr)\<^sup>*\<^sup>* v j"
  shows "sim_link (cut_edges snap cuts) key pr u v"
proof -
  obtain e where e: "u \<noteq> v" "e \<in> set (sn_edges snap)" "e_from e = u" "e_to e = v" "kept key (draw_key (node_by_id snap) e) (pr e)"
    using l by (auto simp: sim_link_def)
  have "on_route snap e" unfolding on_route_def using s j sim_graph_links e by blast
  then have "\<not> cut_matches cuts e" using irr e(2) by blast
  then show ?thesis using e by (auto simp: sim_link_def)
qed

lemma path_survives:
  assumes irr: "\<And>e. e \<in> set (sn_edges snap) \<Longrightarrow> cut_matches cuts e \<Longrightarrow> \<not> on_route snap e"
    and s: "s \<in> set (snap_seeds snap)" and j: "j \<in> set (snap_jewels snap)"
  shows "(sim_link snap key pr)\<^sup>*\<^sup>* s v \<Longrightarrow> (sim_link snap key pr)\<^sup>*\<^sup>* v j \<Longrightarrow> (sim_link (cut_edges snap cuts) key pr)\<^sup>*\<^sup>* s v"
proof (induction rule: rtranclp_induct)
  case base
  then show ?case by simp
next
  case (step y z)
  have "(sim_link snap key pr)\<^sup>*\<^sup>* y j" using step.hyps(2) step.prems by (rule converse_rtranclp_into_rtranclp)
  then have "(sim_link (cut_edges snap cuts) key pr)\<^sup>*\<^sup>* s y" by (rule step.IH)
  moreover have "sim_link (cut_edges snap cuts) key pr y z" by (rule link_survives [OF irr s step.hyps(1,2) j step.prems])
  ultimately show ?case by (rule rtranclp.rtrancl_into_rtrancl)
qed

lemma falls_irrelevant_cut:
  assumes irr: "\<And>e. e \<in> set (sn_edges snap) \<Longrightarrow> cut_matches cuts e \<Longrightarrow> \<not> on_route snap e"
    and j: "j \<in> set (snap_jewels snap)"
  shows "trial_falls (cut_edges snap cuts) seed stream pr it j \<longleftrightarrow> trial_falls snap seed stream pr it j"
proof
  show "trial_falls (cut_edges snap cuts) seed stream pr it j \<Longrightarrow> trial_falls snap seed stream pr it j" by (rule trial_falls_cut)
next
  let ?k = "trial_key seed stream 0 (of_nat it)" and ?c = "cut_edges snap cuts"
  have reach: "v \<in> sim_reach ?c ?k pr" if v: "v \<in> sim_reach snap ?k pr" "(sim_link snap ?k pr)\<^sup>*\<^sup>* v j" for v
  proof -
    obtain s where s: "s \<in> set (snap_seeds snap)" "(sim_link snap ?k pr)\<^sup>*\<^sup>* s v" using v(1) by (auto simp: sim_reach_def)
    then have "(sim_link ?c ?k pr)\<^sup>*\<^sup>* s v" using path_survives [OF irr s(1) j s(2) v(2)] by blast
    then show ?thesis using s(1) by (auto simp: sim_reach_def)
  qed
  assume f: "trial_falls snap seed stream pr it j"
  show "trial_falls ?c seed stream pr it j"
  proof (cases "is_seed (node_at (node_by_id snap) j) \<and> \<not> held_by_attacker (node_at (node_by_id snap) j)")
    case True
    then obtain u where u: "u \<in> sim_reach snap ?k pr" "sim_link snap ?k pr u j"
      using f by (auto simp: trial_falls_def sim_falls_def Let_def)
    then obtain s where s: "s \<in> set (snap_seeds snap)" "(sim_link snap ?k pr)\<^sup>*\<^sup>* s u" by (auto simp: sim_reach_def)
    have "sim_link ?c ?k pr u j" by (rule link_survives [OF irr s u(2) j]) auto
    moreover have "u \<in> sim_reach ?c ?k pr" by (rule reach [OF u(1)]) (use u(2) in auto)
    ultimately show ?thesis using True by (auto simp: trial_falls_def sim_falls_def Let_def)
  next
    case False
    then have "j \<in> sim_reach snap ?k pr" using f by (auto simp: trial_falls_def sim_falls_def Let_def)
    then have "j \<in> sim_reach ?c ?k pr" using reach by blast
    then show ?thesis using False by (auto simp: trial_falls_def sim_falls_def Let_def)
  qed
qed

section \<open>The same graph, listed otherwise\<close>

lemma jewel_before_weak: "strict_weak jewel_before"
proof -
  have eq: "jewel_before = (\<lambda>x y. jr_prob x > jr_prob y \<or> (jr_prob x = jr_prob y \<and> str_less (jr_id x) (jr_id y)))"
    by (auto simp: jewel_before_def fun_eq_iff)
  show ?thesis unfolding eq by (rule strict_weak_lex_desc [OF strict_weak_str])
qed

lemma node_by_id_unique:
  assumes "inj_on n_id (set (sn_nodes a))"
  shows "map_of (node_by_id a) i = Some n \<longleftrightarrow> n \<in> set (sn_nodes a) \<and> n_id n = i"
proof
  assume "map_of (node_by_id a) i = Some n"
  then show "n \<in> set (sn_nodes a) \<and> n_id n = i" by (rule node_by_id_SomeD)
next
  assume n: "n \<in> set (sn_nodes a) \<and> n_id n = i"
  then obtain m where m: "map_of (node_by_id a) i = Some m" using node_by_id_None [of a i] by (cases "map_of (node_by_id a) i") auto
  then have "m = n" using node_by_id_SomeD [OF m] n inj_onD [OF assms] by blast
  then show "map_of (node_by_id a) i = Some n" using m by simp
qed

text \<open>Two listings of one graph.\<close>

definition same_graph :: "snapshot \<Rightarrow> snapshot \<Rightarrow> bool" where
  "same_graph a b \<longleftrightarrow> inj_on n_id (set (sn_nodes a)) \<and> set (sn_nodes a) = set (sn_nodes b) \<and> set (sn_edges a) = set (sn_edges b)"

lemma same_graph_facts:
  assumes "same_graph a b"
  shows "node_at (node_by_id a) i = node_at (node_by_id b) i"
    "set (snap_seeds a) = set (snap_seeds b)" "set (snap_jewels a) = set (snap_jewels b)"
    "draw_key (node_by_id a) e = draw_key (node_by_id b) e"
proof -
  have eq: "map_of (node_by_id a) j = map_of (node_by_id b) j" for j
    using node_by_id_unique [of a j] node_by_id_unique [of b j] assms
    by (cases "map_of (node_by_id a) j"; cases "map_of (node_by_id b) j") (auto simp: same_graph_def)
  then show at: "node_at (node_by_id a) i = node_at (node_by_id b) i" for i by (simp add: node_at_def)
  have ids: "n_id ` set (sn_nodes a) = n_id ` set (sn_nodes b)" using assms by (simp add: same_graph_def)
  show "set (snap_seeds a) = set (snap_seeds b)" "set (snap_jewels a) = set (snap_jewels b)"
    using at ids by (auto simp: set_eq_iff snap_seeds_iff snap_jewels_iff)
  show "draw_key (node_by_id a) e = draw_key (node_by_id b) e" by (simp add: draw_key_def at)
qed

lemma same_graph_falls: "same_graph a b \<Longrightarrow> trial_falls a seed stream pr it j = trial_falls b seed stream pr it j"
proof -
  assume s: "same_graph a b"
  note f = same_graph_facts [OF s]
  have "sim_link a key pr = sim_link b key pr" for key
    using s f(4) by (auto simp: fun_eq_iff sim_link_def same_graph_def)
  then show ?thesis unfolding trial_falls_def sim_falls_def sim_reach_def Let_def by (simp add: f(1,2))
qed

lemma same_graph_estimate:
  assumes s: "same_graph a b"
  shows "point_estimate a seed n = point_estimate b seed n"
proof -
  note f = same_graph_facts [OF s]
  have h: "hits_of a seed st pr n j = hits_of b seed st pr n j" for st pr j unfolding hits_of_def by (simp add: same_graph_falls [OF s])
  have any: "any_hits_of a seed st pr n = any_hits_of b seed st pr n" for st pr
    unfolding any_hits_of_def by (simp add: same_graph_falls [OF s] f(3))
  have row: "jewel_estimate a seed n = jewel_estimate b seed n" by (simp add: fun_eq_iff jewel_estimate_def Let_def h f(1))
  have "mset (snap_jewels a) = mset (snap_jewels b)"
    using f(3) by (metis set_eq_iff_mset_eq_distinct snap_jewels_distinct)
  then have "mset (map (jewel_estimate b seed n) (snap_jewels a)) = mset (map (jewel_estimate b seed n) (snap_jewels b))" by simp
  moreover have "jr_id (jewel_estimate b seed n j) = j" for j by (simp add: jewel_estimate_def Let_def)
  then have "x = y \<or> jewel_before x y \<or> jewel_before y x"
    if "x \<in> set (map (jewel_estimate b seed n) (snap_jewels a))" "y \<in> set (map (jewel_estimate b seed n) (snap_jewels a))" for x y
    using that str_less_total [of "jr_id x" "jr_id y"] unfolding jewel_before_def by auto
  ultimately have "sort_by jewel_before (map (jewel_estimate b seed n) (snap_jewels a)) =
      sort_by jewel_before (map (jewel_estimate b seed n) (snap_jewels b))" by (intro sort_by_unique [OF jewel_before_weak])
  then show ?thesis by (simp add: point_estimate_def Let_def h any row f(3))
qed

text \<open>
  The order a store lists a graph in, and edges it lists twice, change nothing: two
  snapshots with the same nodes (no two with one id) and the same edges give the same point
  simulation, field for field and jewel for jewel, whatever the seed.
\<close>

theorem simulate_order_free:
  assumes "same_graph a b"
  shows "simulate_risk_with ctx rng profs a iterations seed True = simulate_risk_with ctx rng profs b iterations seed True"
proof -
  have "snap_seeds a = [] \<longleftrightarrow> snap_seeds b = []" "snap_jewels a = [] \<longleftrightarrow> snap_jewels b = []"
    using same_graph_facts(2,3) [OF assms] by (metis set_empty)+
  then show ?thesis by (simp add: simulate_point_eq Let_def same_graph_estimate [OF assms])
qed

definition demo_reversed :: snapshot where
  "demo_reversed = \<lparr>sn_nodes = rev (sn_nodes demo_snapshot), sn_edges = rev (sn_edges demo_snapshot)\<rparr>"

section \<open>The full run\<close>

text \<open>A generator that always draws its middle value.\<close>

definition const_rng :: "nat rng" where
  "const_rng = \<lparr>rg_seed = (\<lambda>_ _. 0), rg_norm = (\<lambda>s. (0, s)), rg_unif = (\<lambda>s. (1 / 2, s))\<rparr>"

theorem simulate_order_free_witness:
  "simulate_risk_with (\<lambda>_. False) const_rng default_profiles demo_snapshot 10 7 True =
   simulate_risk_with (\<lambda>_. False) const_rng default_profiles demo_reversed 10 7 True"
proof (rule simulate_order_free)
  show "same_graph demo_snapshot demo_reversed"
    by (simp add: same_graph_def demo_reversed_def demo_snapshot_def inj_on_def) blast
qed

lemma const_sampler_ends: "sampler_ends const_rng"
proof -
  have loop: "gamma_loop const_rng d c s \<noteq> None" for d c s
    by (subst gamma_loop.simps) (simp add: const_rng_def Let_def)
  have big: "sample_gamma const_rng a s \<noteq> None" if "a \<ge> 1" for a s
    using that loop by (subst sample_gamma.simps) (simp add: Let_def)
  have all: "sample_gamma const_rng a s \<noteq> None" if "a > 0" for a s
  proof (cases "a < 1")
    case True
    obtain g s' where "sample_gamma const_rng (a + 1) s = Some (g, s')"
      using big [of "a + 1" s] \<open>a > 0\<close> by (cases "sample_gamma const_rng (a + 1) s") auto
    then show ?thesis using True by (subst sample_gamma.simps) (simp add: split_beta Let_def)
  next
    case False
    then show ?thesis using big by simp
  qed
  have "sample_beta const_rng a b s \<noteq> None" if "a > 0" "b > 0" for a b s
  proof -
    have nn: "sample_gamma const_rng a s \<noteq> None" "\<And>s. sample_gamma const_rng b s \<noteq> None" using all that by blast+
    then obtain x s1 where x: "sample_gamma const_rng a s = Some (x, s1)" by auto
    obtain y s2 where "sample_gamma const_rng b s1 = Some (y, s2)" using nn(2) [of s1] by auto
    then show ?thesis by (simp add: sample_beta_def x)
  qed
  then show ?thesis by (simp add: sampler_ends_def)
qed

text \<open>
  C18. The full simulation returns whenever its sampler ends and no look finds the context
  done. Its point figures are those of the point-only run; its credible band lies in the
  unit interval around the headline; its mixture is the prior-weighted sum of the profiles'
  rates over the headline's own trials.
\<close>

theorem simulate_full_band:
  assumes "sampler_ends rng" "\<And>l. \<not> ctx l" "snap_seeds snap \<noteq> []" "snap_jewels snap \<noteq> []" "profs \<noteq> []"
  shows "\<exists>sim pt. simulate_risk_with ctx rng profs snap iterations seed False = Some (Inr sim) \<and>
    simulate_risk_with ctx rng profs snap iterations seed True = Some (Inr pt) \<and>
    rs_any sim = rs_any pt \<and> rs_expected sim = rs_expected pt \<and> rs_jewels sim = rs_jewels pt \<and>
    0 \<le> rs_sens_low sim \<and> rs_sens_low sim \<le> rs_any sim \<and> rs_any sim \<le> rs_sens_high sim \<and> rs_sens_high sim \<le> 1 \<and>
    (rs_mixture sim, rs_profiles sim) = mixture_of snap seed profs (run_length iterations)"
proof -
  obtain lo hi where f: "simulate_risk_with ctx rng profs snap iterations seed False =
      Some (Inr ((point_estimate snap seed (run_length iterations))\<lparr>rs_sens_low := lo, rs_sens_high := hi,
        rs_mixture := fst (mixture_of snap seed profs (run_length iterations)), rs_profiles := snd (mixture_of snap seed profs (run_length iterations))\<rparr>))"
      "0 \<le> lo" "lo \<le> rs_any (point_estimate snap seed (run_length iterations))"
      "rs_any (point_estimate snap seed (run_length iterations)) \<le> hi" "hi \<le> 1"
    using simulate_full_eq [where ctx = ctx and iterations = iterations and seed = seed, OF assms] by blast
  have "\<not> stopped (\<lambda>it. ctx (Look_Trial it)) [0..<run_length iterations]" using assms(2) by (simp add: stopped_def)
  then have "simulate_risk_with ctx rng profs snap iterations seed True = Some (Inr (point_estimate snap seed (run_length iterations)))"
    using assms(3,4) by (simp add: simulate_point_eq Let_def)
  then show ?thesis using f by simp
qed

theorem simulate_full_band_witness:
  "\<exists>sim pt. simulate_risk_with (\<lambda>_. False) const_rng default_profiles demo_snapshot 10 7 False = Some (Inr sim) \<and>
    simulate_risk_with (\<lambda>_. False) const_rng default_profiles demo_snapshot 10 7 True = Some (Inr pt) \<and>
    rs_any sim = rs_any pt \<and> rs_expected sim = rs_expected pt \<and> rs_jewels sim = rs_jewels pt \<and>
    0 \<le> rs_sens_low sim \<and> rs_sens_low sim \<le> rs_any sim \<and> rs_any sim \<le> rs_sens_high sim \<and> rs_sens_high sim \<le> 1 \<and>
    (rs_mixture sim, rs_profiles sim) = mixture_of demo_snapshot 7 default_profiles (run_length 10)"
  by (rule simulate_full_band) (simp_all add: const_sampler_ends demo_facts default_profiles_def)

section \<open>What a cut achieves\<close>

lemma simulate_fields:
  assumes "simulate_risk_with ctx rng profs snap iterations seed po = Some (Inr sim)"
  defines "pt \<equiv> point_estimate snap seed (run_length iterations)"
  shows "rs_any sim = rs_any pt \<and> rs_expected sim = rs_expected pt"
proof (cases "snap_seeds snap = [] \<or> snap_jewels snap = []")
  case True
  then have sim: "sim = zero_sim (run_length iterations)"
    using assms(1) by (simp add: simulate_risk_with_def Let_def run_length_def mc_jewels_eq)
  have "\<not> trial_falls snap seed st pr it j" if "snap_seeds snap = []" for st pr it j
    using that by (simp add: trial_falls_def sim_falls_def sim_reach_def Let_def)
  then have "any_hits_of snap seed stream_trials edge_prob n = 0 \<and>
      (\<Sum>j \<in> set (snap_jewels snap). hits_of snap seed stream_trials edge_prob n j) = 0" for n
    using True by (auto simp: any_hits_of_def hits_of_def)
  then show ?thesis by (simp add: sim pt_def point_estimate_def Let_def zero_sim_def)
next
  case False
  let ?n = "run_length iterations" and ?g = "compile_graph snap"
  have n: "(if iterations \<le> 0 then default_risk_iterations else nat iterations) = ?n" by (simp add: run_length_def)
  have gne: "\<not> (mc_seeds ?g = [] \<or> mc_jewels ?g = [])" using False by (simp add: mc_jewels_eq)
  note hl = headline_loop [where snap = snap and seed = seed and ctx = ctx and n = ?n]
  have "\<not> stopped (\<lambda>it. ctx (Look_Trial it)) [0..<?n]"
    using assms(1) hl gne unfolding simulate_risk_with_def n Let_def by (auto split: if_splits)
  then obtain hits where h: "trial_loop ctx ?g seed [0..<?n] (new_trials ?g) (replicate (length (mc_ids ?g)) 0, 0, 0) =
      Some (Inr (hits, any_hits_of snap seed stream_trials edge_prob ?n,
        \<Sum>j \<in> set (snap_jewels snap). hits_of snap seed stream_trials edge_prob ?n j))"
    using hl by auto
  show ?thesis using assms(1) gne h unfolding simulate_risk_with_def n Let_def pt_def
    by (auto simp: point_estimate_def Let_def split: if_splits option.splits sum.splits)
qed

lemma cut_estimates:
  fixes snap :: snapshot and cuts :: "edge_cut list"
  defines "red \<equiv> cut_edges snap cuts"
  shows "rs_any (point_estimate red seed n) \<le> rs_any (point_estimate snap seed n)"
    "rs_expected (point_estimate red seed n) \<le> rs_expected (point_estimate snap seed n)"
    "(\<And>e. e \<in> set (sn_edges snap) \<Longrightarrow> cut_matches cuts e \<Longrightarrow> \<not> on_route snap e) \<Longrightarrow>
       rs_any (point_estimate red seed n) = rs_any (point_estimate snap seed n) \<and>
       rs_expected (point_estimate red seed n) = rs_expected (point_estimate snap seed n)"
proof -
  have "any_hits_of red seed stream_trials edge_prob n \<le> any_hits_of snap seed stream_trials edge_prob n"
    by (rule any_hits_mono) (simp_all add: red_def trial_falls_cut)
  then show "rs_any (point_estimate red seed n) \<le> rs_any (point_estimate snap seed n)"
    by (simp add: point_estimate_def Let_def divide_right_mono)
  have "(\<Sum>j \<in> set (snap_jewels red). hits_of red seed stream_trials edge_prob n j) \<le>
      (\<Sum>j \<in> set (snap_jewels snap). hits_of snap seed stream_trials edge_prob n j)"
    unfolding red_def cut_edges_simps by (intro sum_mono hits_of_mono) (rule trial_falls_cut)
  then have "real (\<Sum>j \<in> set (snap_jewels red). hits_of red seed stream_trials edge_prob n j) \<le>
      real (\<Sum>j \<in> set (snap_jewels snap). hits_of snap seed stream_trials edge_prob n j)" by (simp only: of_nat_le_iff)
  then show "rs_expected (point_estimate red seed n) \<le> rs_expected (point_estimate snap seed n)"
    unfolding point_estimate_def Let_def by (simp add: divide_right_mono del: of_nat_sum)
  assume irr: "\<And>e. e \<in> set (sn_edges snap) \<Longrightarrow> cut_matches cuts e \<Longrightarrow> \<not> on_route snap e"
  note fi = falls_irrelevant_cut [OF irr]
  have "any_hits_of red seed stream_trials edge_prob n = any_hits_of snap seed stream_trials edge_prob n"
    unfolding any_hits_of_def red_def cut_edges_simps by (rule arg_cong [where f = card]) (use fi in auto)
  moreover have "hits_of red seed stream_trials edge_prob n j = hits_of snap seed stream_trials edge_prob n j"
    if "j \<in> set (snap_jewels snap)" for j
    unfolding hits_of_def red_def using fi [OF _ _ that] by simp
  ultimately show "rs_any (point_estimate red seed n) = rs_any (point_estimate snap seed n) \<and>
       rs_expected (point_estimate red seed n) = rs_expected (point_estimate snap seed n)"
    by (simp add: point_estimate_def Let_def red_def)
qed

lemma what_if_runs:
  assumes "what_if ctx ctx' rng profs snap cuts iterations seed = Some (Inr r)"
  shows "\<exists>before after. simulate_risk_with ctx rng profs snap iterations seed False = Some (Inr before) \<and>
    simulate_risk_with ctx' rng profs (cut_edges snap cuts) iterations seed False = Some (Inr after) \<and>
    wi_before_risk r = before \<and> wi_after_risk r = after \<and>
    wi_removed r = length (filter (cut_matches cuts) (sn_edges snap)) \<and>
    find_critical_paths snap = Some (wi_before r) \<and> find_critical_paths (cut_edges snap cuts) = Some (wi_after r)"
proof -
  have len: "length (sn_edges snap) - length (filter (\<lambda>e. \<not> cut_matches cuts e) (sn_edges snap)) =
      length (filter (cut_matches cuts) (sn_edges snap))"
    using sum_length_filter_compl [of "cut_matches cuts" "sn_edges snap"] by linarith
  show ?thesis using assms len unfolding what_if_def what_if_from_def what_if_from_with_def Let_def
    by (auto split: option.splits sum.splits)
qed

lemma what_if_Some:
  assumes "sampler_ends rng" "\<And>l. \<not> ctx l" "\<And>l. \<not> ctx' l" "snap_seeds snap \<noteq> []" "snap_jewels snap \<noteq> []" "profs \<noteq> []"
  shows "\<exists>r. what_if ctx ctx' rng profs snap cuts iterations seed = Some (Inr r)"
proof -
  obtain b where b: "simulate_risk_with ctx rng profs snap iterations seed False = Some (Inr b)"
    using simulate_full_eq [where ctx = ctx and iterations = iterations and seed = seed, OF assms(1,2,4,5,6)] by blast
  obtain a where a: "simulate_risk_with ctx' rng profs (cut_edges snap cuts) iterations seed False = Some (Inr a)"
    using simulate_full_eq [where ctx = ctx' and snap = "cut_edges snap cuts" and iterations = iterations and seed = seed, OF assms(1,3)] assms(4-6)
    by auto
  show ?thesis using a b unfolding what_if_def what_if_from_def what_if_from_with_def
    by (simp add: Let_def find_critical_paths_eq)
qed

lemma what_if_measures:
  assumes "what_if ctx ctx' rng profs snap cuts iterations seed = Some (Inr r)"
  shows "risk_reduction r = rs_any (point_estimate snap seed (run_length iterations)) -
      rs_any (point_estimate (cut_edges snap cuts) seed (run_length iterations))"
    "expected_reduction r = rs_expected (point_estimate snap seed (run_length iterations)) -
      rs_expected (point_estimate (cut_edges snap cuts) seed (run_length iterations))"
    "wi_removed r = length (filter (cut_matches cuts) (sn_edges snap))"
proof -
  obtain b a where r: "simulate_risk_with ctx rng profs snap iterations seed False = Some (Inr b)"
      "simulate_risk_with ctx' rng profs (cut_edges snap cuts) iterations seed False = Some (Inr a)"
      "wi_before_risk r = b" "wi_after_risk r = a" "wi_removed r = length (filter (cut_matches cuts) (sn_edges snap))"
    using what_if_runs [OF assms] by blast
  show "risk_reduction r = rs_any (point_estimate snap seed (run_length iterations)) -
      rs_any (point_estimate (cut_edges snap cuts) seed (run_length iterations))"
    "expected_reduction r = rs_expected (point_estimate snap seed (run_length iterations)) -
      rs_expected (point_estimate (cut_edges snap cuts) seed (run_length iterations))"
    using simulate_fields [OF r(1)] simulate_fields [OF r(2)] r(3,4) by (simp_all add: risk_reduction_def expected_reduction_def)
qed (rule what_if_runs [OF assms, THEN exE], blast)

text \<open>
  C11. A what-if compares like with like: whatever edges are cut, whatever the seed and the
  draws, the simulated risk after the cut is never above the risk before it, neither the
  probability that some jewel falls nor the expected number that do; and the edges it
  reports removed are those the cut matches.
\<close>

theorem what_if_never_worse:
  assumes "what_if ctx ctx' rng profs snap cuts iterations seed = Some (Inr r)"
  shows "0 \<le> risk_reduction r \<and> 0 \<le> expected_reduction r \<and>
    wi_removed r = length (filter (cut_matches cuts) (sn_edges snap))"
  using what_if_measures [OF assms] cut_estimates(1,2) [of snap cuts seed "run_length iterations"] by simp

lemma default_profiles_ne: "default_profiles \<noteq> []"
  by (simp add: default_profiles_def)

definition demo_cut :: edge_cut where
  "demo_cut = \<lparr>ec_from = ''app'', ec_to = ''db'', ec_type = []\<rparr>"

theorem what_if_never_worse_witness:
  "\<exists>r. what_if (\<lambda>_. False) (\<lambda>_. False) const_rng default_profiles demo_snapshot [demo_cut] 10 7 = Some (Inr r) \<and>
    0 \<le> risk_reduction r \<and> 0 \<le> expected_reduction r \<and>
    wi_removed r = length (filter (cut_matches [demo_cut]) (sn_edges demo_snapshot))"
proof -
  obtain r where r: "what_if (\<lambda>_. False) (\<lambda>_. False) const_rng default_profiles demo_snapshot [demo_cut] 10 7 = Some (Inr r)"
    using what_if_Some [OF const_sampler_ends _ _ _ _ default_profiles_ne, of "\<lambda>_. False" "\<lambda>_. False" demo_snapshot] demo_facts
    by (metis list.distinct(1))
  then show ?thesis using what_if_never_worse [OF r] by blast
qed

text \<open>
  A cut that removes only edges no route from an entry point to a crown jewel crosses
  reads exactly zero: both measured reductions, for every seed and iteration count.
\<close>

theorem what_if_irrelevant_cut:
  assumes "what_if ctx ctx' rng profs snap cuts iterations seed = Some (Inr r)"
    and "\<And>e. e \<in> set (sn_edges snap) \<Longrightarrow> cut_matches cuts e \<Longrightarrow> \<not> on_route snap e"
  shows "risk_reduction r = 0 \<and> expected_reduction r = 0"
  using what_if_measures [OF assms(1)] cut_estimates(3) [of snap cuts seed "run_length iterations", OF assms(2)] by simp

text \<open>An edge back out of the jewel: no route needs it.\<close>

definition demo_dead_end :: snapshot where
  "demo_dead_end = demo_snapshot\<lparr>sn_edges := sn_edges demo_snapshot @
     [\<lparr>e_type = edge_connects_to, e_from = ''app'', e_to = ''log'', e_prob = 1, e_props = []\<rparr>]\<rparr>"

lemma demo_dead_end_off_route:
  assumes "e \<in> set (sn_edges demo_dead_end)" "cut_matches [\<lparr>ec_from = ''app'', ec_to = ''log'', ec_type = []\<rparr>] e"
  shows "\<not> on_route demo_dead_end e"
proof -
  have to: "e_to e = ''log''" using assms(2) by (simp add: cut_matches_def)
  have jw: "set (snap_jewels demo_dead_end) = {''db''}"
    using demo_facts(2) by (simp add: snap_jewels_def demo_dead_end_def node_by_id_def)
  have "(graph_link demo_dead_end)\<^sup>*\<^sup>* u v \<Longrightarrow> u = ''log'' \<Longrightarrow> v = ''log''" for u v
    by (induction rule: rtranclp_induct) (auto simp: graph_link_def demo_dead_end_def demo_snapshot_def)
  then show ?thesis using to jw by (auto simp: on_route_def)
qed

theorem what_if_irrelevant_cut_witness:
  "\<exists>r. what_if (\<lambda>_. False) (\<lambda>_. False) const_rng default_profiles demo_dead_end [\<lparr>ec_from = ''app'', ec_to = ''log'', ec_type = []\<rparr>] 10 7 = Some (Inr r) \<and>
    risk_reduction r = 0 \<and> expected_reduction r = 0"
proof -
  have "snap_seeds demo_dead_end \<noteq> []" "snap_jewels demo_dead_end \<noteq> []"
    using demo_facts by (simp_all add: snap_seeds_def snap_jewels_def demo_dead_end_def node_by_id_def)
  then obtain r where r: "what_if (\<lambda>_. False) (\<lambda>_. False) const_rng default_profiles demo_dead_end
      [\<lparr>ec_from = ''app'', ec_to = ''log'', ec_type = []\<rparr>] 10 7 = Some (Inr r)"
    using what_if_Some [OF const_sampler_ends _ _ _ _ default_profiles_ne, of "\<lambda>_. False" "\<lambda>_. False" demo_dead_end] 
    by (metis list.distinct(1))
  then show ?thesis using what_if_irrelevant_cut [OF r demo_dead_end_off_route] by blast
qed

section \<open>Stronger attackers\<close>

lemma kept_mono: "p \<le> q \<Longrightarrow> kept key k p \<Longrightarrow> kept key k q"
  by (simp add: kept_def)

lemma falls_stronger:
  assumes "\<And>e. pr e \<le> pr' e" "trial_falls snap seed stream pr it j"
  shows "trial_falls snap seed stream pr' it j"
proof -
  have "sim_link snap key pr u v \<Longrightarrow> sim_link snap key pr' u v" for key u v
    using kept_mono [OF assms(1)] by (auto simp: sim_link_def)
  then show ?thesis using assms(2) sim_falls_mono [of snap _ pr snap pr' j] by (auto simp: trial_falls_def)
qed

text \<open>
  Against the same trials, a stronger attacker never reaches less: with the profiles any
  spec of priors yields, the simulated rates of the three profiles are non-decreasing in
  their skill, each is a rate in the unit interval, and the mixture is their prior-weighted
  sum.
\<close>

theorem mixture_stronger_attacker:
  "let profs = set_priors parse_float spec; (mix, pcs) = mixture_of snap seed profs (run_length iterations)
   in map pc_profile pcs = [''commodity'', ''criminal'', ''apt''] \<and> sorted (map pc_prob pcs) \<and>
      set (map pc_prob pcs) \<subseteq> {0..1} \<and> mix = (\<Sum>pc \<leftarrow> pcs. pc_prior pc * pc_prob pc)"
proof -
  define profs where "profs = set_priors parse_float spec"
  note sp = set_priors_spec [of parse_float spec, folded profs_def]
  obtain c0 c1 c2 where cs: "profs = [c0, c1, c2]" using sp(4) by (auto simp: map_eq_Cons_conv)
  let ?n = "run_length iterations"
  define rate where "rate c = real (any_hits_of snap seed stream_trials (profile_prob snap profs c) ?n) / real ?n" for c
  have mo: "mixture_of snap seed profs ?n = (pf_prior c0 * rate 0 + (pf_prior c1 * rate 1 + pf_prior c2 * rate 2),
      [\<lparr>pc_profile = pf_name c0, pc_prior = pf_prior c0, pc_prob = rate 0\<rparr>,
       \<lparr>pc_profile = pf_name c1, pc_prior = pf_prior c1, pc_prob = rate 1\<rparr>,
       \<lparr>pc_profile = pf_name c2, pc_prior = pf_prior c2, pc_prob = rate 2\<rparr>])"
    by (simp add: mixture_of_def Let_def rate_def cs numeral_2_eq_2)
  have le: "profile_prob snap profs 0 e \<le> profile_prob snap profs 1 e" "profile_prob snap profs 1 e \<le> profile_prob snap profs 2 e" for e
    using set_priors_anchored [of parse_float spec "edge_prob e" "fst (edge_basis (node_by_id snap) e)"]
    by (simp_all add: profile_prob_def profs_def Let_def)
  have mono: "rate c \<le> rate d" if "\<And>e. profile_prob snap profs c e \<le> profile_prob snap profs d e" for c d
  proof -
    have "any_hits_of snap seed stream_trials (profile_prob snap profs c) ?n \<le> any_hits_of snap seed stream_trials (profile_prob snap profs d) ?n"
      by (rule any_hits_mono [OF falls_stronger [OF that] subset_refl])
    then show ?thesis by (simp add: rate_def divide_right_mono)
  qed
  have r: "rate 0 \<le> rate 1" "rate 1 \<le> rate 2" using mono le by blast+
  have u: "0 \<le> rate c \<and> rate c \<le> 1" for c
    using any_hits_le [of snap seed stream_trials "profile_prob snap profs c" ?n] by (simp add: rate_def)
  have names: "pf_name c0 = ''commodity''" "pf_name c1 = ''criminal''" "pf_name c2 = ''apt''" using sp(3) by (simp_all add: cs)
  have "sorted [rate 0, rate 1, rate 2]" using r by simp
  moreover have "set [rate 0, rate 1, rate 2] \<subseteq> {0..1}" using u by simp
  ultimately show ?thesis unfolding Let_def profs_def [symmetric] mo prod.case
    by (simp only: list.map profile_compromise.simps names sum_list.Cons sum_list.Nil add_0_right simp_thms)
qed

end
