(* ===== verification/Memory_Store.thy ===== *)
theory Memory_Store
  imports Graph_Store
begin

text \<open>
  The in-memory backend, \<open>backend/internal/graph/memory/memory.go\<close>: nodes and edges by key, edges parked until their missing
  endpoint arrives with an index from endpoint ids to them, who asserted each element, and
  the sweeps and prunes. It interprets the contract of \<open>Graph_Store\<close>, and its invariants are
  proved over every sequence of operations. The mutex makes each operation one step; a range
  over a map follows the list order of the model.
\<close>

section \<open>The store\<close>

type_synonym origin_key = "string \<times> string"
type_synonym origins = "(origin_key, gotime) gomap"

record parked =
  pk_edge :: edge
  pk_at :: gotime

record mem_store =
  ms_nodes :: "(string, node) gomap"
  ms_edges :: "(edge_key, edge) gomap"
  ms_pending :: "(edge_key, parked) gomap"
  ms_by_id :: "(string, edge_key list) gomap"
  ms_swept :: gotime
  ms_node_org :: "(string, origins) gomap"
  ms_edge_org :: "(edge_key, origins) gomap"
  ms_removals :: int

definition new_mem :: mem_store where
  "new_mem = \<lparr>ms_nodes = [], ms_edges = [], ms_pending = [], ms_by_id = [], ms_swept = zero_time,
     ms_node_org = [], ms_edge_org = [], ms_removals = 0\<rparr>"

definition pending_edge_ttl :: int where
  "pending_edge_ttl = 7 * 24 * 3600 * second_ns"

text \<open>Reading a map of sets by an id it lacks gives the empty set.\<close>

definition waiting_on :: "mem_store \<Rightarrow> string \<Rightarrow> edge_key list" where
  "waiting_on s i = (case map_of (ms_by_id s) i of Some ks \<Rightarrow> ks | None \<Rightarrow> [])"

section \<open>Writing an element\<close>

definition ms_upsert_node :: "node \<Rightarrow> mem_store \<Rightarrow> mem_store" where
  "ms_upsert_node n s =
     (let n = (case map_of (ms_nodes s) (n_id n) of
                 Some ex \<Rightarrow> (let n = n\<lparr>n_props := merge_props (n_props ex) (n_props n)\<rparr>
                             in if n_name n = [] then n\<lparr>n_name := n_name ex\<rparr> else n)
               | None \<Rightarrow> n)
      in s\<lparr>ms_nodes := AList.update (n_id n) n (ms_nodes s)\<rparr>)"

definition ms_put_edge :: "edge \<Rightarrow> mem_store \<Rightarrow> mem_store" where
  "ms_put_edge e s =
     (let k = edge_key e; store = (\<lambda>e. s\<lparr>ms_edges := AList.update k e (ms_edges s)\<rparr>)
      in case map_of (ms_edges s) k of
           Some old \<Rightarrow>
             if \<not> supersedes e old
             then (case last_seen (e_props e) of
                     Some ls \<Rightarrow> store (old\<lparr>e_props := merge_props (e_props old) [(prop_last_seen, GInt64 ls)]\<rparr>)
                   | None \<Rightarrow> s)
             else store e
         | None \<Rightarrow> store e)"

definition ends_known :: "mem_store \<Rightarrow> edge \<Rightarrow> bool" where
  "ends_known s e \<longleftrightarrow> gm_has (ms_nodes s) (e_from e) \<and> gm_has (ms_nodes s) (e_to e)"

definition ms_land :: "edge \<Rightarrow> mem_store \<Rightarrow> bool \<times> mem_store" where
  "ms_land e s = (if \<not> ends_known s e then (False, s) else (True, ms_put_edge e s))"

section \<open>Parking\<close>

definition index_add :: "edge_key \<Rightarrow> string \<Rightarrow> mem_store \<Rightarrow> mem_store" where
  "index_add k i s = s\<lparr>ms_by_id := AList.update i (List.insert k (waiting_on s i)) (ms_by_id s)\<rparr>"

definition ms_park :: "edge \<Rightarrow> gotime \<Rightarrow> mem_store \<Rightarrow> mem_store" where
  "ms_park e t s =
     (let k = edge_key e
      in fold (index_add k) [e_from e, e_to e] (s\<lparr>ms_pending := AList.update k \<lparr>pk_edge = e, pk_at = t\<rparr> (ms_pending s)\<rparr>))"

definition index_del :: "edge_key \<Rightarrow> string \<Rightarrow> mem_store \<Rightarrow> mem_store" where
  "index_del k i s =
     (let ks = removeAll k (waiting_on s i)
      in s\<lparr>ms_by_id := (if ks = [] then AList.delete i (ms_by_id s) else AList.update i ks (ms_by_id s))\<rparr>)"

definition ms_unpark :: "edge_key \<Rightarrow> mem_store \<Rightarrow> mem_store" where
  "ms_unpark k s = fold (index_del k) [ek_from k, ek_to k] (s\<lparr>ms_pending := AList.delete k (ms_pending s)\<rparr>)"

fun take_keys :: "edge_key list \<Rightarrow> mem_store \<Rightarrow> parked list \<times> mem_store" where
  "take_keys [] s = ([], s)"
| "take_keys (k # ks) s =
     (case map_of (ms_pending s) k of
        Some p \<Rightarrow> (let (ps, s') = take_keys ks (ms_unpark k s) in (p # ps, s'))
      | None \<Rightarrow> take_keys ks s)"

fun take_pending :: "node list \<Rightarrow> mem_store \<Rightarrow> parked list \<times> mem_store" where
  "take_pending [] s = ([], s)"
| "take_pending (n # ns) s =
     (let (ps, s') = take_keys (waiting_on s (n_id n)) s; (qs, s'') = take_pending ns s' in (ps @ qs, s''))"

definition drop_expired :: "gotime \<Rightarrow> edge_key \<times> parked \<Rightarrow> mem_store \<Rightarrow> mem_store" where
  "drop_expired now = (\<lambda>(k, p) s.
     if now - pk_at p > pending_edge_ttl
     then (let s = ms_unpark k s in s\<lparr>ms_edge_org := AList.delete k (ms_edge_org s)\<rparr>)
     else s)"

definition sweep_pending :: "gotime \<Rightarrow> mem_store \<Rightarrow> mem_store" where
  "sweep_pending now s =
     (if now - ms_swept s < 60 * second_ns then s
      else fold (drop_expired now) (ms_pending s) (s\<lparr>ms_swept := now\<rparr>))"

section \<open>Batches\<close>

text \<open>\<open>note\<close>: a time is kept only when it is after the one already there, the zero time at first.\<close>

definition note_origin :: "('k, origins) gomap \<Rightarrow> 'k \<Rightarrow> origin \<Rightarrow> ('k, origins) gomap" where
  "note_origin m k orig =
     (let os = (case map_of m k of Some os \<Rightarrow> os | None \<Rightarrow> []); key = (or_source orig, or_scope orig);
          have = (case map_of os key of Some t \<Rightarrow> t | None \<Rightarrow> zero_time)
      in AList.update k (if or_seen orig > have then AList.update key (or_seen orig) os else os) m)"

definition batch_node :: "origin option \<Rightarrow> node \<Rightarrow> mem_store \<Rightarrow> mem_store" where
  "batch_node orig n s =
     (let s = ms_upsert_node n s
      in case orig of Some g \<Rightarrow> s\<lparr>ms_node_org := note_origin (ms_node_org s) (n_id n) g\<rparr> | None \<Rightarrow> s)"

definition retry_parked :: "parked \<Rightarrow> mem_store \<Rightarrow> mem_store" where
  "retry_parked p s = (let (ok, s) = ms_land (pk_edge p) s in if \<not> ok then ms_park (pk_edge p) (pk_at p) s else s)"

definition batch_edge :: "gotime \<Rightarrow> origin option \<Rightarrow> edge \<Rightarrow> mem_store \<Rightarrow> mem_store" where
  "batch_edge now orig e s =
     (let (ok, s) = ms_land e s; s = (if \<not> ok then ms_park e now s else s)
      in case orig of Some g \<Rightarrow> s\<lparr>ms_edge_org := note_origin (ms_edge_org s) (edge_key e) g\<rparr> | None \<Rightarrow> s)"

definition upsert_batch_locked :: "gotime \<Rightarrow> node list \<Rightarrow> edge list \<Rightarrow> origin option \<Rightarrow> mem_store \<Rightarrow> mem_store" where
  "upsert_batch_locked now nodes edges orig s =
     (let s = sweep_pending now s;
          s = fold (batch_node orig) nodes s;
          (ps, s) = take_pending nodes s;
          s = fold retry_parked ps s
      in fold (batch_edge now orig) edges s)"

definition ms_upsert_batch :: "gotime \<Rightarrow> node list \<Rightarrow> edge list \<Rightarrow> mem_store store_op" where
  "ms_upsert_batch now nodes edges s = (None, upsert_batch_locked now nodes edges None s)"

definition ms_upsert_batch_from :: "gotime \<Rightarrow> origin \<Rightarrow> node list \<Rightarrow> edge list \<Rightarrow> mem_store store_op" where
  "ms_upsert_batch_from now orig nodes edges s = (None, upsert_batch_locked now nodes edges (Some orig) s)"

definition ms_node_op :: "node \<Rightarrow> mem_store store_op" where
  "ms_node_op n s = (None, ms_upsert_node n s)"

definition ms_edge_op :: "edge \<Rightarrow> mem_store store_op" where
  "ms_edge_op e s = (if \<not> ends_known s e then (Some (ErrEndpointsMissing [e]), s) else (None, ms_put_edge e s))"

section \<open>Sweeps\<close>

text \<open>What one element's origins become, and whether nothing asserts it any more.\<close>

definition withdraw :: "origin_key \<Rightarrow> gotime \<Rightarrow> origins \<Rightarrow> origins \<times> bool" where
  "withdraw key taken os =
     (case map_of os key of
        Some t \<Rightarrow> if t < taken then (let os' = AList.delete key os in (os', os' = [])) else (os, False)
      | None \<Rightarrow> (os, False))"

definition sweep_edge :: "origin_key \<Rightarrow> gotime \<Rightarrow> edge_key \<times> origins \<Rightarrow> mem_store \<times> sweep_stats \<Rightarrow> mem_store \<times> sweep_stats" where
  "sweep_edge key taken = (\<lambda>(k, os) (s, st).
     let (os', empty) = withdraw key taken os
     in if \<not> empty then (s\<lparr>ms_edge_org := AList.update k os' (ms_edge_org s)\<rparr>, st)
        else (let s = s\<lparr>ms_edge_org := AList.delete k (ms_edge_org s)\<rparr>;
                  (s, st) = (if gm_has (ms_edges s) k
                             then (s\<lparr>ms_edges := AList.delete k (ms_edges s)\<rparr>, st\<lparr>ss_edges := ss_edges st + 1\<rparr>) else (s, st))
              in if gm_has (ms_pending s) k then (ms_unpark k s, st\<lparr>ss_edges := ss_edges st + 1\<rparr>) else (s, st)))"

definition sweep_node :: "origin_key \<Rightarrow> gotime \<Rightarrow> string \<times> origins \<Rightarrow> mem_store \<times> string list \<times> sweep_stats \<Rightarrow> mem_store \<times> string list \<times> sweep_stats" where
  "sweep_node key taken = (\<lambda>(i, os) (s, gone, st).
     let (os', empty) = withdraw key taken os
     in if \<not> empty then (s\<lparr>ms_node_org := AList.update i os' (ms_node_org s)\<rparr>, gone, st)
        else (let s = s\<lparr>ms_node_org := AList.delete i (ms_node_org s)\<rparr>
              in if gm_has (ms_nodes s) i
                 then (s\<lparr>ms_nodes := AList.delete i (ms_nodes s)\<rparr>, i # gone, st\<lparr>ss_nodes := ss_nodes st + 1\<rparr>)
                 else (s, gone, st)))"

definition asserted :: "mem_store \<Rightarrow> edge_key \<Rightarrow> bool" where
  "asserted s k \<longleftrightarrow> (case map_of (ms_edge_org s) k of Some os \<Rightarrow> os \<noteq> [] | None \<Rightarrow> False)"

definition loose_edge :: "string list \<Rightarrow> gotime \<Rightarrow> edge_key \<times> edge \<Rightarrow> mem_store \<times> sweep_stats \<Rightarrow> mem_store \<times> sweep_stats" where
  "loose_edge gone now = (\<lambda>(k, e) (s, st).
     if ek_from k \<notin> set gone \<and> ek_to k \<notin> set gone then (s, st)
     else (let s = s\<lparr>ms_edges := AList.delete k (ms_edges s)\<rparr>
           in if asserted s k then (ms_park e now s, st\<lparr>ss_parked := ss_parked st + 1\<rparr>)
              else (s, st\<lparr>ss_edges := ss_edges st + 1\<rparr>)))"

definition no_sweep :: sweep_stats where
  "no_sweep = \<lparr>ss_nodes = 0, ss_edges = 0, ss_parked = 0\<rparr>"

definition ms_sweep :: "gotime \<Rightarrow> string \<Rightarrow> string \<Rightarrow> gotime \<Rightarrow> mem_store \<Rightarrow> sweep_stats \<times> store_error option \<times> mem_store" where
  "ms_sweep now source scope taken s0 =
     (if scope = [] then (no_sweep, Some ErrEmptyScope, s0)
      else (let key = (source, scope);
                (s, st) = fold (sweep_edge key taken) (ms_edge_org s0) (s0, no_sweep);
                (s, gone, st) = fold (sweep_node key taken) (ms_node_org s) (s, [], st);
                (s, st) = (if gone \<noteq> [] then fold (loose_edge gone now) (ms_edges s) (s, st) else (s, st));
                s = (if swept_any st then s\<lparr>ms_removals := ms_removals s + 1\<rparr> else s)
            in (st, None, s)))"

section \<open>Prunes\<close>

definition stale :: "int \<Rightarrow> props \<Rightarrow> bool" where
  "stale cutoff ps = (case last_seen ps of Some ls \<Rightarrow> ls < cutoff | None \<Rightarrow> False)"

definition prune_origins :: "gotime \<Rightarrow> ('k, origins) gomap \<Rightarrow> ('k, origins) gomap" where
  "prune_origins before m =
     filter (\<lambda>(k, os). os \<noteq> []) (map (\<lambda>(k, os). (k, filter (\<lambda>(g, t). \<not> t < before) os)) m)"

definition prune_node :: "int \<Rightarrow> string \<times> node \<Rightarrow> mem_store \<times> string list \<Rightarrow> mem_store \<times> string list" where
  "prune_node cutoff = (\<lambda>(i, n) (s, removed).
     if stale cutoff (n_props n)
     then (s\<lparr>ms_nodes := AList.delete i (ms_nodes s), ms_node_org := AList.delete i (ms_node_org s)\<rparr>, i # removed)
     else (s, removed))"

definition prune_edge :: "int \<Rightarrow> string list \<Rightarrow> edge_key \<times> edge \<Rightarrow> mem_store \<times> nat \<Rightarrow> mem_store \<times> nat" where
  "prune_edge cutoff removed = (\<lambda>(k, e) (s, cnt).
     if stale cutoff (e_props e) \<or> e_from e \<in> set removed \<or> e_to e \<in> set removed
     then (s\<lparr>ms_edges := AList.delete k (ms_edges s), ms_edge_org := AList.delete k (ms_edge_org s)\<rparr>, cnt + 1)
     else (s, cnt))"

definition ms_prune :: "gotime \<Rightarrow> mem_store \<Rightarrow> prune_stats \<times> store_error option \<times> mem_store" where
  "ms_prune before s0 =
     (let cutoff = time_unix before;
          (s, removed) = fold (prune_node cutoff) (ms_nodes s0) (s0, []);
          (s, cnt) = fold (prune_edge cutoff removed) (ms_edges s) (s, 0);
          s = s\<lparr>ms_node_org := prune_origins before (ms_node_org s), ms_edge_org := prune_origins before (ms_edge_org s)\<rparr>;
          s = (if length removed + cnt > 0 then s\<lparr>ms_removals := ms_removals s + 1\<rparr> else s)
      in (\<lparr>ps_nodes = length removed, ps_edges = cnt\<rparr>, None, s))"

section \<open>Reads\<close>

definition ms_snapshot :: "mem_store \<Rightarrow> snapshot" where
  "ms_snapshot s = \<lparr>sn_nodes = map snd (ms_nodes s), sn_edges = map snd (ms_edges s)\<rparr>"

definition seen_since :: "int \<Rightarrow> props \<Rightarrow> bool" where
  "seen_since since ps = (case last_seen ps of Some ls \<Rightarrow> ls \<ge> since | None \<Rightarrow> False)"

definition ms_snapshot_since :: "int \<Rightarrow> mem_store \<Rightarrow> snapshot" where
  "ms_snapshot_since since s =
     \<lparr>sn_nodes = filter (\<lambda>n. seen_since since (n_props n)) (map snd (ms_nodes s)),
      sn_edges = filter (\<lambda>e. seen_since since (e_props e)) (map snd (ms_edges s))\<rparr>"

definition parked_before :: "parked \<Rightarrow> parked \<Rightarrow> bool" where
  "parked_before p q =
     (if pk_at p \<noteq> pk_at q then pk_at p < pk_at q
      else (let a = pk_edge p; b = pk_edge q; z = [CHR 0x00]
            in str_less (e_from a @ z @ e_to a @ z @ e_type a) (e_from b @ z @ e_to b @ z @ e_type b)))"

definition ms_pending_edges :: "int \<Rightarrow> mem_store \<Rightarrow> edge list \<times> nat" where
  "ms_pending_edges limit s =
     (let all = sort_by parked_before (map snd (ms_pending s));
          all = (if limit \<ge> 0 \<and> int (length all) > limit then take (nat limit) all else all)
      in (map pk_edge all, length (ms_pending s)))"

section \<open>What each step touches\<close>

lemma waiting_on_update: "waiting_on (s\<lparr>ms_by_id := AList.update i ks (ms_by_id s)\<rparr>) j = (if j = i then ks else waiting_on s j)"
  by (simp add: waiting_on_def map_of_update)

lemma waiting_on_delete: "waiting_on (s\<lparr>ms_by_id := AList.delete i (ms_by_id s)\<rparr>) j = (if j = i then [] else waiting_on s j)"
  by (simp add: waiting_on_def map_of_delete)

lemma waiting_on_other [simp]:
  "waiting_on (s\<lparr>ms_nodes := ns\<rparr>) = waiting_on s" "waiting_on (s\<lparr>ms_edges := es\<rparr>) = waiting_on s"
  "waiting_on (s\<lparr>ms_pending := ps\<rparr>) = waiting_on s" "waiting_on (s\<lparr>ms_swept := t\<rparr>) = waiting_on s"
  "waiting_on (s\<lparr>ms_node_org := no\<rparr>) = waiting_on s" "waiting_on (s\<lparr>ms_edge_org := eo\<rparr>) = waiting_on s"
  "waiting_on (s\<lparr>ms_removals := r\<rparr>) = waiting_on s"
  by (simp_all add: waiting_on_def fun_eq_iff)

lemma index_add_fields [simp]:
  "ms_nodes (index_add k i s) = ms_nodes s" "ms_edges (index_add k i s) = ms_edges s" "ms_pending (index_add k i s) = ms_pending s"
  "ms_swept (index_add k i s) = ms_swept s" "ms_node_org (index_add k i s) = ms_node_org s" "ms_edge_org (index_add k i s) = ms_edge_org s"
  "ms_removals (index_add k i s) = ms_removals s"
  "waiting_on (index_add k i s) j = (if j = i then List.insert k (waiting_on s i) else waiting_on s j)"
  unfolding index_add_def by (simp_all add: waiting_on_update)

lemma index_del_fields [simp]:
  "ms_nodes (index_del k i s) = ms_nodes s" "ms_edges (index_del k i s) = ms_edges s" "ms_pending (index_del k i s) = ms_pending s"
  "ms_swept (index_del k i s) = ms_swept s" "ms_node_org (index_del k i s) = ms_node_org s" "ms_edge_org (index_del k i s) = ms_edge_org s"
  "ms_removals (index_del k i s) = ms_removals s"
  "waiting_on (index_del k i s) j = (if j = i then removeAll k (waiting_on s i) else waiting_on s j)"
  unfolding index_del_def Let_def by (simp_all add: waiting_on_update waiting_on_delete split: if_splits)

lemma ms_park_fields [simp]:
  "ms_nodes (ms_park e t s) = ms_nodes s" "ms_edges (ms_park e t s) = ms_edges s"
  "ms_pending (ms_park e t s) = AList.update (edge_key e) \<lparr>pk_edge = e, pk_at = t\<rparr> (ms_pending s)"
  "ms_swept (ms_park e t s) = ms_swept s" "ms_node_org (ms_park e t s) = ms_node_org s" "ms_edge_org (ms_park e t s) = ms_edge_org s"
  "ms_removals (ms_park e t s) = ms_removals s"
  "set (waiting_on (ms_park e t s) j) = (if j = e_from e \<or> j = e_to e then insert (edge_key e) (set (waiting_on s j)) else set (waiting_on s j))"
  unfolding ms_park_def by (auto simp: Let_def)

lemma ms_unpark_fields [simp]:
  "ms_nodes (ms_unpark k s) = ms_nodes s" "ms_edges (ms_unpark k s) = ms_edges s"
  "ms_pending (ms_unpark k s) = AList.delete k (ms_pending s)"
  "ms_swept (ms_unpark k s) = ms_swept s" "ms_node_org (ms_unpark k s) = ms_node_org s" "ms_edge_org (ms_unpark k s) = ms_edge_org s"
  "ms_removals (ms_unpark k s) = ms_removals s"
  "set (waiting_on (ms_unpark k s) j) = (if j = ek_from k \<or> j = ek_to k then set (waiting_on s j) - {k} else set (waiting_on s j))"
  unfolding ms_unpark_def by auto

lemma ms_upsert_node_fields [simp]:
  "ms_edges (ms_upsert_node n s) = ms_edges s" "ms_pending (ms_upsert_node n s) = ms_pending s" "ms_by_id (ms_upsert_node n s) = ms_by_id s"
  "ms_swept (ms_upsert_node n s) = ms_swept s" "ms_node_org (ms_upsert_node n s) = ms_node_org s" "ms_edge_org (ms_upsert_node n s) = ms_edge_org s"
  "ms_removals (ms_upsert_node n s) = ms_removals s" "waiting_on (ms_upsert_node n s) = waiting_on s"
  "ms_nodes (ms_upsert_node n s) = AList.update (n_id n) (merge_node (map_of (ms_nodes s) (n_id n)) n) (ms_nodes s)"
  by (auto simp: ms_upsert_node_def merge_node_def Let_def waiting_on_def fun_eq_iff split: option.splits)

lemma update_same: "map_of m k = Some v \<Longrightarrow> AList.update k v m = m"
  by (induction m) (auto split: if_splits)

lemma ms_put_edge_eq: "ms_put_edge e s = s\<lparr>ms_edges := AList.update (edge_key e) (land_edge (map_of (ms_edges s) (edge_key e)) e) (ms_edges s)\<rparr>"
  by (auto simp: ms_put_edge_def land_edge_def Let_def update_same split: option.splits)

lemma ms_put_edge_fields [simp]:
  "ms_nodes (ms_put_edge e s) = ms_nodes s" "ms_pending (ms_put_edge e s) = ms_pending s" "ms_by_id (ms_put_edge e s) = ms_by_id s"
  "ms_swept (ms_put_edge e s) = ms_swept s" "ms_node_org (ms_put_edge e s) = ms_node_org s" "ms_edge_org (ms_put_edge e s) = ms_edge_org s"
  "ms_removals (ms_put_edge e s) = ms_removals s" "waiting_on (ms_put_edge e s) = waiting_on s"
  "ms_edges (ms_put_edge e s) = AList.update (edge_key e) (land_edge (map_of (ms_edges s) (edge_key e)) e) (ms_edges s)"
  by (simp_all add: ms_put_edge_eq waiting_on_def fun_eq_iff)

lemma merge_node_id [simp]: "n_id (merge_node old n) = n_id n"
  by (simp add: merge_node_def split: option.splits)

lemma land_edge_key: "(\<And>x. old = Some x \<Longrightarrow> edge_key x = edge_key e) \<Longrightarrow> edge_key (land_edge old e) = edge_key e"
proof (cases old)
  case (Some x)
  assume "\<And>x. old = Some x \<Longrightarrow> edge_key x = edge_key e"
  then have "edge_key x = edge_key e" using Some by blast
  then show ?thesis by (simp add: land_edge_def edge_key_def Some split: option.splits)
qed (simp add: land_edge_def)

section \<open>The invariant\<close>

text \<open>
  Maps keyed by what they hold, no edge without both its ends, and an index that lists
  exactly the parked edges under each of their ends.
\<close>

definition ms_shape :: "mem_store \<Rightarrow> bool" where
  "ms_shape s \<longleftrightarrow> gm_ok (ms_nodes s) \<and> gm_ok (ms_edges s) \<and> gm_ok (ms_pending s) \<and> gm_ok (ms_node_org s) \<and> gm_ok (ms_edge_org s) \<and>
     (\<forall>i n. map_of (ms_nodes s) i = Some n \<longrightarrow> n_id n = i) \<and>
     (\<forall>k e. map_of (ms_edges s) k = Some e \<longrightarrow> edge_key e = k) \<and>
     (\<forall>k p. map_of (ms_pending s) k = Some p \<longrightarrow> edge_key (pk_edge p) = k) \<and>
     (\<forall>i k. k \<in> set (waiting_on s i) \<longleftrightarrow> map_of (ms_pending s) k \<noteq> None \<and> (i = ek_from k \<or> i = ek_to k))"

definition no_dangle :: "mem_store \<Rightarrow> bool" where
  "no_dangle s \<longleftrightarrow> (\<forall>k. map_of (ms_edges s) k \<noteq> None \<longrightarrow>
     map_of (ms_nodes s) (ek_from k) \<noteq> None \<and> map_of (ms_nodes s) (ek_to k) \<noteq> None)"

definition ms_ok :: "mem_store \<Rightarrow> bool" where
  "ms_ok s \<longleftrightarrow> ms_shape s \<and> no_dangle s"

lemmas ms_ok_defs = ms_ok_def ms_shape_def no_dangle_def

text \<open>Every parked edge still misses an end.\<close>

definition waits :: "mem_store \<Rightarrow> bool" where
  "waits s \<longleftrightarrow> (\<forall>k. map_of (ms_pending s) k \<noteq> None \<longrightarrow> map_of (ms_nodes s) (ek_from k) = None \<or> map_of (ms_nodes s) (ek_to k) = None)"

lemma ends_known_iff: "ends_known s e \<longleftrightarrow> map_of (ms_nodes s) (e_from e) \<noteq> None \<and> map_of (ms_nodes s) (e_to e) \<noteq> None"
  by (auto simp: ends_known_def gm_has_iff map_of_eq_None_iff)

lemma ms_ok_other:
  "ms_ok s \<Longrightarrow> gm_ok m \<Longrightarrow> ms_ok (s\<lparr>ms_node_org := m\<rparr>)" "ms_ok s \<Longrightarrow> gm_ok m' \<Longrightarrow> ms_ok (s\<lparr>ms_edge_org := m'\<rparr>)"
  "ms_ok s \<Longrightarrow> ms_ok (s\<lparr>ms_removals := r\<rparr>)" "ms_ok s \<Longrightarrow> ms_ok (s\<lparr>ms_swept := t\<rparr>)"
  unfolding ms_ok_defs by simp_all

lemma ms_ok_orgs: "ms_ok s \<Longrightarrow> gm_ok (ms_node_org s) \<and> gm_ok (ms_edge_org s)"
  unfolding ms_ok_defs by simp

lemma new_mem_ok: "ms_ok new_mem \<and> waits new_mem"
  by (simp add: new_mem_def ms_ok_defs waits_def waiting_on_def)

lemma ms_ok_upsert_node: "ms_ok s \<Longrightarrow> ms_ok (ms_upsert_node n s)"
  unfolding ms_ok_defs by (auto simp: map_of_update)

lemma ms_ok_put_edge:
  assumes ok: "ms_ok s" and e: "ends_known s e"
  shows "ms_ok (ms_put_edge e s)"
proof -
  have "edge_key (land_edge (map_of (ms_edges s) (edge_key e)) e) = edge_key e"
    by (rule land_edge_key) (use ok in \<open>auto simp: ms_ok_defs\<close>)
  then show ?thesis using ok e unfolding ms_ok_defs by (auto simp: map_of_update ends_known_iff)
qed

lemma ms_ok_park: "ms_ok s \<Longrightarrow> ms_ok (ms_park e t s)"
  unfolding ms_ok_defs by (auto simp: map_of_update)

lemma ms_ok_unpark: "ms_ok s \<Longrightarrow> ms_ok (ms_unpark k s)"
  unfolding ms_ok_defs by (auto simp: map_of_delete)

lemma ms_ok_land: "ms_ok s \<Longrightarrow> ms_land e s = (b, s') \<Longrightarrow> ms_ok s' \<and> b = ends_known s e"
  by (auto simp: ms_land_def ms_ok_put_edge split: if_splits)

lemma gm_ok_note: "gm_ok m \<Longrightarrow> gm_ok (note_origin m k g)"
  by (simp add: note_origin_def Let_def)

section \<open>The steps of a batch\<close>

lemma take_keys_spec:
  "take_keys ks s = (ps, s') \<Longrightarrow>
     ms_nodes s' = ms_nodes s \<and> ms_edges s' = ms_edges s \<and> ms_swept s' = ms_swept s \<and> ms_node_org s' = ms_node_org s \<and>
     ms_edge_org s' = ms_edge_org s \<and> ms_removals s' = ms_removals s \<and>
     map_of (ms_pending s') = map_of (ms_pending s) |` (- set ks) \<and>
     set ps = {p. \<exists>k \<in> set ks. map_of (ms_pending s) k = Some p} \<and> (ms_ok s \<longrightarrow> ms_ok s')"
proof (induction ks arbitrary: s ps s')
  case Nil
  then show ?case by simp
next
  case (Cons k ks)
  show ?case
  proof (cases "map_of (ms_pending s) k")
    case None
    then have "map_of (ms_pending s) |` (- set (k # ks)) = map_of (ms_pending s) |` (- set ks)"
      by (auto simp: fun_eq_iff restrict_map_def)
    moreover have "take_keys ks s = (ps, s')" using Cons.prems None by simp
    moreover have "{p. \<exists>k' \<in> set (k # ks). map_of (ms_pending s) k' = Some p} = {p. \<exists>k' \<in> set ks. map_of (ms_pending s) k' = Some p}"
      using None by auto
    ultimately show ?thesis using Cons.IH [of s ps s'] by simp
  next
    case (Some p)
    obtain qs s1 where t: "take_keys ks (ms_unpark k s) = (qs, s1)" by (cases "take_keys ks (ms_unpark k s)")
    have r: "ps = p # qs" "s' = s1" using Cons.prems Some t by simp_all
    note IH = Cons.IH [OF t]
    have "map_of (AList.delete k (ms_pending s)) |` (- set ks) = map_of (ms_pending s) |` (- set (k # ks))"
      by (auto simp: fun_eq_iff restrict_map_def map_of_delete)
    moreover have "insert p {p. \<exists>k' \<in> set ks. map_of (AList.delete k (ms_pending s)) k' = Some p} =
        {p. \<exists>k' \<in> set (k # ks). map_of (ms_pending s) k' = Some p}"
      using Some by (auto simp: map_of_delete) (metis option.inject)
    ultimately show ?thesis using IH r ms_ok_unpark [of s k] by simp
  qed
qed

text \<open>The parked edges that name one of these nodes.\<close>

definition named :: "node list \<Rightarrow> edge_key set" where
  "named ns = {k. ek_from k \<in> n_id ` set ns \<or> ek_to k \<in> n_id ` set ns}"

lemma take_pending_spec:
  "ms_ok s \<Longrightarrow> take_pending ns s = (ps, s') \<Longrightarrow>
     ms_nodes s' = ms_nodes s \<and> ms_edges s' = ms_edges s \<and> ms_swept s' = ms_swept s \<and> ms_node_org s' = ms_node_org s \<and>
     ms_edge_org s' = ms_edge_org s \<and> ms_removals s' = ms_removals s \<and>
     map_of (ms_pending s') = map_of (ms_pending s) |` (- named ns) \<and>
     set ps = {p. \<exists>k \<in> named ns. map_of (ms_pending s) k = Some p} \<and> ms_ok s'"
proof (induction ns arbitrary: s ps s')
  case Nil
  then show ?case by (simp add: named_def)
next
  case (Cons n ns)
  obtain qs s1 where t: "take_keys (waiting_on s (n_id n)) s = (qs, s1)" by (cases "take_keys (waiting_on s (n_id n)) s")
  obtain rs s2 where u: "take_pending ns s1 = (rs, s2)" by (cases "take_pending ns s1")
  have r: "ps = qs @ rs" "s' = s2" using Cons.prems(2) t u by simp_all
  note a = take_keys_spec [OF t]
  have ok1: "ms_ok s1" using a Cons.prems(1) by blast
  note b = Cons.IH [OF ok1 u]
  have w: "k \<in> set (waiting_on s (n_id n)) \<longleftrightarrow> map_of (ms_pending s) k \<noteq> None \<and> (n_id n = ek_from k \<or> n_id n = ek_to k)" for k
    using Cons.prems(1) by (simp add: ms_ok_defs)
  have p1: "map_of (ms_pending s1) k = (if n_id n = ek_from k \<or> n_id n = ek_to k then None else map_of (ms_pending s) k)" for k
    using a w [of k] by (auto simp: restrict_map_def)
  have nm: "k \<in> named (n # ns) \<longleftrightarrow> n_id n = ek_from k \<or> n_id n = ek_to k \<or> k \<in> named ns" for k by (auto simp: named_def)
  have "map_of (ms_pending s2) = map_of (ms_pending s) |` (- named (n # ns))"
    using b by (auto simp: fun_eq_iff restrict_map_def p1 nm)
  moreover have "set ps = {p. \<exists>k \<in> named (n # ns). map_of (ms_pending s) k = Some p}"
  proof -
    have "set qs = {p. \<exists>k. (n_id n = ek_from k \<or> n_id n = ek_to k) \<and> map_of (ms_pending s) k = Some p}"
    proof -
      have "set qs = {p. \<exists>k \<in> set (waiting_on s (n_id n)). map_of (ms_pending s) k = Some p}" using a by blast
      also have "\<dots> = {p. \<exists>k. (n_id n = ek_from k \<or> n_id n = ek_to k) \<and> map_of (ms_pending s) k = Some p}"
        unfolding Bex_def w by fastforce
      finally show ?thesis .
    qed
    moreover have "set rs = {p. \<exists>k \<in> named ns. \<not> (n_id n = ek_from k \<or> n_id n = ek_to k) \<and> map_of (ms_pending s) k = Some p}"
      using b by (auto simp: p1 split: if_splits)
    ultimately show ?thesis unfolding r set_append Bex_def nm by blast
  qed
  ultimately show ?case using a b r by simp
qed

text \<open>An edge of a batch, or one taken back: it lands when both its ends are there and parks otherwise.\<close>

definition land_or_park :: "edge \<Rightarrow> gotime \<Rightarrow> mem_store \<Rightarrow> mem_store" where
  "land_or_park e t s = (if ends_known s e then ms_put_edge e s else ms_park e t s)"

lemma retry_parked_eq: "retry_parked p = land_or_park (pk_edge p) (pk_at p)"
  by (auto simp: retry_parked_def land_or_park_def ms_land_def fun_eq_iff)

lemma batch_edge_eq:
  "batch_edge now orig e s = (let s = land_or_park e now s
     in case orig of Some g \<Rightarrow> s\<lparr>ms_edge_org := note_origin (ms_edge_org s) (edge_key e) g\<rparr> | None \<Rightarrow> s)"
  by (auto simp: batch_edge_def land_or_park_def ms_land_def Let_def)

lemma land_or_park_fields [simp]:
  "ms_nodes (land_or_park e t s) = ms_nodes s" "ms_swept (land_or_park e t s) = ms_swept s"
  "ms_node_org (land_or_park e t s) = ms_node_org s" "ms_edge_org (land_or_park e t s) = ms_edge_org s"
  "ms_removals (land_or_park e t s) = ms_removals s"
  by (simp_all add: land_or_park_def)

lemma ends_known_cong: "ms_nodes s = ms_nodes s' \<Longrightarrow> ends_known s e = ends_known s' e"
  by (simp add: ends_known_def)

lemma land_or_park_ok: "ms_ok s \<Longrightarrow> ms_ok (land_or_park e t s)"
  by (simp add: land_or_park_def ms_ok_put_edge ms_ok_park)

lemma land_or_park_dom:
  "dom (map_of (ms_edges (land_or_park e t s))) = dom (map_of (ms_edges s)) \<union> (if ends_known s e then {edge_key e} else {})"
  "dom (map_of (ms_pending (land_or_park e t s))) = dom (map_of (ms_pending s)) \<union> (if ends_known s e then {} else {edge_key e})"
  by (auto simp: land_or_park_def map_of_update)

lemma batch_edge_facts:
  "ms_ok s \<Longrightarrow> ms_ok (batch_edge now orig e s)" "ms_nodes (batch_edge now orig e s) = ms_nodes s"
  "ms_removals (batch_edge now orig e s) = ms_removals s" "ms_swept (batch_edge now orig e s) = ms_swept s"
  "ms_edges (batch_edge now orig e s) = ms_edges (land_or_park e now s)"
  "ms_pending (batch_edge now orig e s) = ms_pending (land_or_park e now s)"
proof -
  show "ms_ok s \<Longrightarrow> ms_ok (batch_edge now orig e s)"
    using land_or_park_ok [of s e now] ms_ok_orgs [of s]
    by (cases orig) (simp_all add: batch_edge_eq Let_def ms_ok_other gm_ok_note)
qed (auto simp: batch_edge_eq Let_def split: option.splits)

lemma batch_node_facts:
  "ms_ok s \<Longrightarrow> ms_ok (batch_node orig n s)"
  "ms_nodes (batch_node orig n s) = AList.update (n_id n) (merge_node (map_of (ms_nodes s) (n_id n)) n) (ms_nodes s)"
  "ms_edges (batch_node orig n s) = ms_edges s" "ms_pending (batch_node orig n s) = ms_pending s"
  "ms_removals (batch_node orig n s) = ms_removals s" "ms_swept (batch_node orig n s) = ms_swept s"
proof -
  show "ms_ok s \<Longrightarrow> ms_ok (batch_node orig n s)"
    using ms_ok_upsert_node [of s n] ms_ok_orgs [of s]
    by (cases orig) (simp_all add: batch_node_def Let_def ms_ok_other gm_ok_note)
qed (auto simp: batch_node_def Let_def split: option.splits)

lemma batch_nodes_spec:
  "ms_ok s \<Longrightarrow> s' = fold (batch_node orig) ns s \<Longrightarrow> ms_ok s' \<and> ms_edges s' = ms_edges s \<and> ms_pending s' = ms_pending s \<and>
     ms_removals s' = ms_removals s \<and> dom (map_of (ms_nodes s')) = dom (map_of (ms_nodes s)) \<union> n_id ` set ns"
proof (induction ns arbitrary: s)
  case Nil
  then show ?case by simp
next
  case (Cons n ns)
  have "s' = fold (batch_node orig) ns (batch_node orig n s)" using Cons.prems(2) by simp
  note IH = Cons.IH [OF batch_node_facts(1) [OF Cons.prems(1)] this]
  have "dom (map_of (ms_nodes (batch_node orig n s))) = insert (n_id n) (dom (map_of (ms_nodes s)))"
    by (simp add: batch_node_facts map_of_update)
  then show ?case using IH by (auto simp: batch_node_facts)
qed

text \<open>A list of landings, as \<open>f\<close> does each.\<close>

lemma landings_spec:
  assumes f: "\<And>x s. ms_ok s \<Longrightarrow> ms_ok (f x s)" "\<And>x s. ms_nodes (f x s) = ms_nodes s" "\<And>x s. ms_removals (f x s) = ms_removals s"
    "\<And>x s. dom (map_of (ms_edges (f x s))) = dom (map_of (ms_edges s)) \<union> (if ends_known s (ed x) then {edge_key (ed x)} else {})"
    "\<And>x s. dom (map_of (ms_pending (f x s))) = dom (map_of (ms_pending s)) \<union> (if ends_known s (ed x) then {} else {edge_key (ed x)})"
  shows "ms_ok s \<Longrightarrow> s' = fold f xs s \<Longrightarrow> ms_ok s' \<and> ms_nodes s' = ms_nodes s \<and> ms_removals s' = ms_removals s \<and>
     dom (map_of (ms_edges s')) = dom (map_of (ms_edges s)) \<union> edge_key ` {e \<in> ed ` set xs. ends_known s e} \<and>
     dom (map_of (ms_pending s')) = dom (map_of (ms_pending s)) \<union> edge_key ` {e \<in> ed ` set xs. \<not> ends_known s e}"
proof (induction xs arbitrary: s)
  case Nil
  then show ?case by simp
next
  case (Cons x xs)
  have "s' = fold f xs (f x s)" using Cons.prems(2) by simp
  note IH = Cons.IH [OF f(1) [OF Cons.prems(1)] this]
  have "ends_known (f x s) = ends_known s" by (simp add: fun_eq_iff ends_known_def f(2))
  then show ?case using IH by (auto simp: f)
qed

lemma retries_spec:
  "ms_ok s \<Longrightarrow> s' = fold retry_parked ps s \<Longrightarrow> ms_ok s' \<and> ms_nodes s' = ms_nodes s \<and> ms_removals s' = ms_removals s \<and>
     dom (map_of (ms_edges s')) = dom (map_of (ms_edges s)) \<union> edge_key ` {e \<in> pk_edge ` set ps. ends_known s e} \<and>
     dom (map_of (ms_pending s')) = dom (map_of (ms_pending s)) \<union> edge_key ` {e \<in> pk_edge ` set ps. \<not> ends_known s e}"
  by (rule landings_spec [where ed = pk_edge]) (simp_all add: retry_parked_eq land_or_park_ok land_or_park_dom)

lemma batch_edges_spec:
  "ms_ok s \<Longrightarrow> s' = fold (batch_edge now orig) es s \<Longrightarrow> ms_ok s' \<and> ms_nodes s' = ms_nodes s \<and> ms_removals s' = ms_removals s \<and>
     dom (map_of (ms_edges s')) = dom (map_of (ms_edges s)) \<union> edge_key ` {e \<in> (\<lambda>e. e) ` set es. ends_known s e} \<and>
     dom (map_of (ms_pending s')) = dom (map_of (ms_pending s)) \<union> edge_key ` {e \<in> (\<lambda>e. e) ` set es. \<not> ends_known s e}"
  by (rule landings_spec [where ed = "\<lambda>e. e"]) (simp_all add: batch_edge_facts land_or_park_dom)

subsection \<open>Dropping what waited too long\<close>

lemma drop_expired_spec:
  "ms_ok s \<Longrightarrow> s' = fold (drop_expired now) kps s \<Longrightarrow>
     ms_ok s' \<and> ms_nodes s' = ms_nodes s \<and> ms_edges s' = ms_edges s \<and> ms_removals s' = ms_removals s \<and> ms_swept s' = ms_swept s \<and>
     map_of (ms_pending s') = map_of (ms_pending s) |` (- fst ` {kp \<in> set kps. now - pk_at (snd kp) > pending_edge_ttl})"
proof (induction kps arbitrary: s)
  case Nil
  then show ?case by simp
next
  case (Cons kp kps)
  obtain k p where kp: "kp = (k, p)" by (cases kp)
  have run: "s' = fold (drop_expired now) kps (drop_expired now kp s)" using Cons.prems(2) by simp
  show ?case
  proof (cases "now - pk_at p > pending_edge_ttl")
    case True
    let ?s = "(ms_unpark k s)\<lparr>ms_edge_org := AList.delete k (ms_edge_org (ms_unpark k s))\<rparr>"
    have d: "drop_expired now kp s = ?s" using True by (simp add: drop_expired_def kp Let_def)
    have "ms_ok ?s" using ms_ok_unpark [OF Cons.prems(1), of k] by (simp add: ms_ok_defs)
    from Cons.IH [OF this] run d
    have IH: "ms_ok s' \<and> ms_nodes s' = ms_nodes s \<and> ms_edges s' = ms_edges s \<and> ms_removals s' = ms_removals s \<and> ms_swept s' = ms_swept s"
        "map_of (ms_pending s') = map_of (AList.delete k (ms_pending s)) |` (- fst ` {kp \<in> set kps. now - pk_at (snd kp) > pending_edge_ttl})"
      by simp_all
    moreover have "{q \<in> set (kp # kps). now - pk_at (snd q) > pending_edge_ttl} =
        insert (k, p) {q \<in> set kps. now - pk_at (snd q) > pending_edge_ttl}" using True by (auto simp: kp)
    then have "map_of (AList.delete k (ms_pending s)) |` (- fst ` {kp \<in> set kps. now - pk_at (snd kp) > pending_edge_ttl}) =
        map_of (ms_pending s) |` (- fst ` {q \<in> set (kp # kps). now - pk_at (snd q) > pending_edge_ttl})"
      by (simp add: fun_eq_iff restrict_map_def map_of_delete)
    ultimately show ?thesis by simp
  next
    case False
    then have "drop_expired now kp s = s" by (simp add: drop_expired_def kp)
    moreover have "{q \<in> set (kp # kps). now - pk_at (snd q) > pending_edge_ttl} = {q \<in> set kps. now - pk_at (snd q) > pending_edge_ttl}"
      using False kp by auto
    ultimately show ?thesis using Cons.IH [OF Cons.prems(1)] run by simp
  qed
qed

text \<open>The parked edges a write at this time still finds.\<close>

definition kept_waiting :: "gotime \<Rightarrow> mem_store \<Rightarrow> edge_key set" where
  "kept_waiting now s = {k. \<exists>p. map_of (ms_pending s) k = Some p \<and>
     (now - ms_swept s \<ge> 60 * second_ns \<longrightarrow> now - pk_at p \<le> pending_edge_ttl)}"

lemma sweep_pending_spec:
  fixes now :: gotime
  assumes ok: "ms_ok s"
  defines "s' \<equiv> sweep_pending now s"
  shows "ms_ok s' \<and> ms_nodes s' = ms_nodes s \<and> ms_edges s' = ms_edges s \<and> ms_removals s' = ms_removals s \<and>
     map_of (ms_pending s') = map_of (ms_pending s) |` kept_waiting now s"
proof (cases "now - ms_swept s < 60 * second_ns")
  case True
  then have "map_of (ms_pending s) |` kept_waiting now s = map_of (ms_pending s)"
    by (auto simp: fun_eq_iff restrict_map_def kept_waiting_def)
  then show ?thesis using True ok by (simp add: s'_def sweep_pending_def)
next
  case False
  have ok': "ms_ok (s\<lparr>ms_swept := now\<rparr>)" using ok by (simp add: ms_ok_defs)
  have pg: "gm_ok (ms_pending s)" using ok by (simp add: ms_ok_defs)
  have "map_of (ms_pending s) |` (- fst ` {kp \<in> set (ms_pending s). now - pk_at (snd kp) > pending_edge_ttl}) =
      map_of (ms_pending s) |` kept_waiting now s"
  proof
    fix k
    have "k \<in> fst ` {kp \<in> set (ms_pending s). now - pk_at (snd kp) > pending_edge_ttl} \<longleftrightarrow>
        (\<exists>p. map_of (ms_pending s) k = Some p \<and> now - pk_at p > pending_edge_ttl)"
      using gm_ok_in_set [OF pg, of k] by force
    then show "(map_of (ms_pending s) |` (- fst ` {kp \<in> set (ms_pending s). now - pk_at (snd kp) > pending_edge_ttl})) k =
        (map_of (ms_pending s) |` kept_waiting now s) k"
      using False by (cases "map_of (ms_pending s) k") (auto simp: restrict_map_def kept_waiting_def)
  qed
  then show ?thesis using drop_expired_spec [OF ok' refl, of now "ms_pending s"] False by (simp add: s'_def sweep_pending_def)
qed

section \<open>What a batch does\<close>

lemma dom_waits: "waits s \<longleftrightarrow> (\<forall>k \<in> dom (map_of (ms_pending s)).
    \<not> (ek_from k \<in> dom (map_of (ms_nodes s)) \<and> ek_to k \<in> dom (map_of (ms_nodes s))))"
  by (auto simp: waits_def dom_def)

definition both_in :: "string set \<Rightarrow> edge_key \<Rightarrow> bool" where
  "both_in ids k \<longleftrightarrow> ek_from k \<in> ids \<and> ek_to k \<in> ids"

lemma ends_known_dom: "ends_known s e \<longleftrightarrow> both_in (dom (map_of (ms_nodes s))) (edge_key e)"
  by (auto simp: ends_known_iff both_in_def)

text \<open>
  After a batch, of the edges parked, still waiting, and the batch's own, those with both
  ends in the graph have landed and the others are parked.
\<close>

lemma batch_spec:
  fixes now :: gotime and nodes :: "node list" and edges :: "edge list" and orig :: "origin option"
  assumes ok: "ms_ok s" and w: "waits s"
  defines "s' \<equiv> upsert_batch_locked now nodes edges orig s"
  defines "ids \<equiv> dom (map_of (ms_nodes s)) \<union> n_id ` set nodes"
    and "offered \<equiv> kept_waiting now s \<union> edge_key ` set edges"
  shows "ms_ok s' \<and> waits s' \<and> ms_removals s' = ms_removals s \<and> dom (map_of (ms_nodes s')) = ids \<and>
     dom (map_of (ms_edges s')) = dom (map_of (ms_edges s)) \<union> {k \<in> offered. both_in ids k} \<and>
     dom (map_of (ms_pending s')) = {k \<in> offered. \<not> both_in ids k}"
proof -
  define s1 where "s1 = sweep_pending now s"
  define s2 where "s2 = fold (batch_node orig) nodes s1"
  obtain ps s3 where t: "take_pending nodes s2 = (ps, s3)" by (cases "take_pending nodes s2")
  define s4 where "s4 = fold retry_parked ps s3"
  have s': "s' = fold (batch_edge now orig) edges s4"
    by (simp add: s'_def upsert_batch_locked_def Let_def s1_def s2_def s4_def t flip: s1_def s2_def)
  note a1 = sweep_pending_spec [OF ok, of now, folded s1_def]
  note a2 = batch_nodes_spec [OF conjunct1 [OF a1] s2_def]
  note a3 = take_pending_spec [OF conjunct1 [OF a2] t]
  have ok3: "ms_ok s3" using a3 by blast
  note a4 = retries_spec [OF ok3 s4_def]
  have ok4: "ms_ok s4" using a4 by blast
  note a5 = batch_edges_spec [OF ok4 s']
  have n3: "dom (map_of (ms_nodes s3)) = ids" and n4: "dom (map_of (ms_nodes s4)) = ids" and n': "dom (map_of (ms_nodes s')) = ids"
    using a1 a2 a3 a4 a5 by (simp_all add: ids_def)
  have kw: "kept_waiting now s \<subseteq> dom (map_of (ms_pending s))" by (auto simp: kept_waiting_def)
  have p2: "map_of (ms_pending s2) = map_of (ms_pending s) |` kept_waiting now s" using a1 a2 by simp
  have d3: "dom (map_of (ms_pending s3)) = kept_waiting now s - named nodes" using a3 p2 kw by auto
  have keys: "edge_key ` pk_edge ` set ps = kept_waiting now s \<inter> named nodes"
  proof -
    have key: "edge_key (pk_edge p) = k" if "map_of (ms_pending s2) k = Some p" for k p
      using a2 that by (auto simp: ms_ok_defs)
    have "set ps = {p. \<exists>k \<in> named nodes. map_of (ms_pending s2) k = Some p}" using a3 by blast
    then have "edge_key ` pk_edge ` set ps = {k \<in> named nodes. map_of (ms_pending s2) k \<noteq> None}"
      using key by (force simp: image_iff)
    then show ?thesis using p2 kw by (auto simp: restrict_map_def split: if_splits)
  qed
  have still: "\<not> both_in ids k" if "k \<in> kept_waiting now s - named nodes" for k
    using that w kw by (auto simp: dom_waits both_in_def ids_def named_def)
  have e3: "ends_known s3 e \<longleftrightarrow> both_in ids (edge_key e)" "ends_known s4 e \<longleftrightarrow> both_in ids (edge_key e)" for e
    by (simp_all add: ends_known_dom n3 n4)
  have img: "edge_key ` {e \<in> A. both_in ids (edge_key e)} = {k \<in> edge_key ` A. both_in ids k}"
      "edge_key ` {e \<in> A. \<not> both_in ids (edge_key e)} = {k \<in> edge_key ` A. \<not> both_in ids k}" for A by auto
  have ed: "dom (map_of (ms_edges s')) = dom (map_of (ms_edges s)) \<union> {k \<in> offered. both_in ids k}"
    using a1 a2 a3 a4 a5 keys still unfolding e3 img offered_def by auto
  have pd: "dom (map_of (ms_pending s')) = {k \<in> offered. \<not> both_in ids k}"
    using a4 a5 d3 keys still unfolding e3 img offered_def by auto
  have "waits s'" unfolding dom_waits pd n' by (auto simp: both_in_def)
  then show ?thesis using a1 a2 a3 a4 a5 n' ed pd by simp
qed

section \<open>What a sweep does\<close>

definition all_withdrawn :: "origin_key \<Rightarrow> gotime \<Rightarrow> origins \<Rightarrow> bool" where
  "all_withdrawn key taken os = snd (withdraw key taken os)"

lemma all_withdrawn_iff:
  "gm_ok os \<Longrightarrow> all_withdrawn key taken os \<longleftrightarrow> (\<exists>t. os = [(key, t)] \<and> t < taken)"
proof
  assume ok: "gm_ok os" and "all_withdrawn key taken os"
  then obtain t where t: "map_of os key = Some t" "t < taken" "AList.delete key os = []"
    by (auto simp: all_withdrawn_def withdraw_def Let_def split: option.splits if_splits)
  have all: "fst kv = key" if "kv \<in> set os" for kv
    using t(3) that by (auto simp: AList.delete_eq filter_empty_conv)
  obtain kv rest where os: "os = kv # rest" using t(1) by (cases os) auto
  have "rest = []" using all ok by (cases rest) (auto simp: os gm_ok_def)
  then have "os = [(key, t)]" using t(1) all [of kv] by (cases kv) (simp add: os)
  then show "\<exists>t. os = [(key, t)] \<and> t < taken" using t(2) by blast
next
  assume "\<exists>t. os = [(key, t)] \<and> t < taken"
  then show "all_withdrawn key taken os" by (auto simp: all_withdrawn_def withdraw_def)
qed

definition dead_keys :: "origin_key \<Rightarrow> gotime \<Rightarrow> ('k \<times> origins) list \<Rightarrow> 'k set" where
  "dead_keys key taken kos = fst ` {ko \<in> set kos. all_withdrawn key taken (snd ko)}"

lemma dead_keys_Cons: "dead_keys key taken (ko # kos) = (if all_withdrawn key taken (snd ko) then {fst ko} else {}) \<union> dead_keys key taken kos"
  by (auto simp: dead_keys_def)

lemma dead_keys_sub: "dead_keys key taken kos \<subseteq> fst ` set kos"
  by (auto simp: dead_keys_def)

text \<open>What is left of an element's origins.\<close>

definition left_org :: "origin_key \<Rightarrow> gotime \<Rightarrow> origins \<Rightarrow> origins option" where
  "left_org key taken os = (if all_withdrawn key taken os then None else Some (fst (withdraw key taken os)))"

lemma ms_shape_unpark: "ms_shape s \<Longrightarrow> ms_shape (ms_unpark k s)"
  unfolding ms_shape_def by (auto simp: map_of_delete)

lemma ms_shape_park: "ms_shape s \<Longrightarrow> ms_shape (ms_park e t s)"
  unfolding ms_shape_def by (auto simp: map_of_update)

lemma ms_shape_other:
  "ms_shape s \<Longrightarrow> gm_ok m \<Longrightarrow> ms_shape (s\<lparr>ms_node_org := m\<rparr>)" "ms_shape s \<Longrightarrow> gm_ok m' \<Longrightarrow> ms_shape (s\<lparr>ms_edge_org := m'\<rparr>)"
  "ms_shape s \<Longrightarrow> ms_shape (s\<lparr>ms_removals := r\<rparr>)"
  "ms_shape s \<Longrightarrow> ms_shape (s\<lparr>ms_edges := AList.delete k (ms_edges s)\<rparr>)" "ms_shape s \<Longrightarrow> ms_shape (s\<lparr>ms_nodes := AList.delete i (ms_nodes s)\<rparr>)"
  unfolding ms_shape_def by (simp_all add: map_of_delete)

lemma ms_shape_orgs: "ms_shape s \<Longrightarrow> gm_ok (ms_node_org s) \<and> gm_ok (ms_edge_org s) \<and> gm_ok (ms_nodes s) \<and> gm_ok (ms_edges s) \<and> gm_ok (ms_pending s)"
  unfolding ms_shape_def by simp

lemma card_insert_dom:
  "k \<notin> G \<Longrightarrow> finite G \<Longrightarrow> card (insert k G \<inter> dom m) = (if m k \<noteq> None then 1 else 0) + card (G \<inter> dom (m(k := None)))"
proof -
  assume k: "k \<notin> G" "finite G"
  have eq: "G \<inter> dom (m(k := None)) = G \<inter> dom m" using k by auto
  show ?thesis
  proof (cases "m k")
    case None
    then have "insert k G \<inter> dom m = G \<inter> dom m" by auto
    then show ?thesis using eq None by simp
  next
    case (Some v)
    then have "insert k G \<inter> dom m = insert k (G \<inter> dom m)" by auto
    then show ?thesis using eq Some k by simp
  qed
qed

lemma finite_dead_keys [simp]: "finite (dead_keys key taken kos)"
  by (simp add: dead_keys_def)

lemma sweep_edge_live:
  "\<not> all_withdrawn key taken os \<Longrightarrow> sweep_edge key taken (k, os) (s, st) =
     (s\<lparr>ms_edge_org := AList.update k (fst (withdraw key taken os)) (ms_edge_org s)\<rparr>, st)"
  by (cases "withdraw key taken os") (simp add: sweep_edge_def all_withdrawn_def)

lemma sweep_edge_dead:
  assumes "all_withdrawn key taken os" and st: "sweep_edge key taken (k, os) (s, st) = (s', st')"
  shows "(ms_shape s \<longrightarrow> ms_shape s') \<and> ms_nodes s' = ms_nodes s \<and> ms_node_org s' = ms_node_org s \<and> ms_removals s' = ms_removals s \<and>
    ms_edge_org s' = AList.delete k (ms_edge_org s) \<and>
    map_of (ms_edges s') = (map_of (ms_edges s))(k := None) \<and> map_of (ms_pending s') = (map_of (ms_pending s))(k := None) \<and>
    ss_nodes st' = ss_nodes st \<and> ss_parked st' = ss_parked st \<and>
    ss_edges st' = ss_edges st + (if map_of (ms_edges s) k \<noteq> None then 1 else 0) + (if map_of (ms_pending s) k \<noteq> None then 1 else 0)"
proof -
  define s1 where "s1 = s\<lparr>ms_edge_org := AList.delete k (ms_edge_org s)\<rparr>"
  define s2 where "s2 = (if gm_has (ms_edges s) k then s1\<lparr>ms_edges := AList.delete k (ms_edges s)\<rparr> else s1)"
  have s': "s' = (if gm_has (ms_pending s) k then ms_unpark k s2 else s2)"
    using assms by (cases "withdraw key taken os")
      (auto simp: sweep_edge_def all_withdrawn_def s1_def s2_def Let_def split: if_splits)
  have has: "gm_has m q \<longleftrightarrow> map_of m q \<noteq> None" for m :: "(edge_key, 'v) gomap" and q by (auto simp: gm_has_iff map_of_eq_None_iff)
  have m2: "ms_edges s1 = ms_edges s" by (simp add: s1_def)
  have "ms_shape s \<Longrightarrow> ms_shape s1" by (simp add: s1_def ms_shape_other ms_shape_orgs)
  then have "ms_shape s \<Longrightarrow> ms_shape s2" using ms_shape_other(4) [of s1 k] by (simp add: s2_def m2)
  then have sh: "ms_shape s \<Longrightarrow> ms_shape s'" by (simp add: s' ms_shape_unpark)
  have "ss_nodes st' = ss_nodes st \<and> ss_parked st' = ss_parked st \<and>
    ss_edges st' = ss_edges st + (if map_of (ms_edges s) k \<noteq> None then 1 else 0) + (if map_of (ms_pending s) k \<noteq> None then 1 else 0)"
    using assms by (cases "withdraw key taken os") (auto simp: sweep_edge_def all_withdrawn_def Let_def has split: if_splits)
  moreover have "map_of (ms_edges s2) = (map_of (ms_edges s))(k := None)"
    by (auto simp: s2_def s1_def map_of_delete has fun_eq_iff)
  ultimately show ?thesis using sh by (auto simp: s' s2_def s1_def map_of_delete has fun_eq_iff)
qed

lemma sweep_edges_spec:
  "distinct (map fst kos) \<Longrightarrow> ms_shape s \<Longrightarrow> fold (sweep_edge key taken) kos (s, st) = (s', st') \<Longrightarrow>
     ms_shape s' \<and> ms_nodes s' = ms_nodes s \<and> ms_node_org s' = ms_node_org s \<and> ms_removals s' = ms_removals s \<and>
     map_of (ms_edges s') = map_of (ms_edges s) |` (- dead_keys key taken kos) \<and>
     map_of (ms_pending s') = map_of (ms_pending s) |` (- dead_keys key taken kos) \<and>
     (\<forall>k. map_of (ms_edge_org s') k = (case map_of kos k of Some os \<Rightarrow> left_org key taken os | None \<Rightarrow> map_of (ms_edge_org s) k)) \<and>
     ss_nodes st' = ss_nodes st \<and> ss_parked st' = ss_parked st \<and>
     ss_edges st' = ss_edges st + card (dead_keys key taken kos \<inter> dom (map_of (ms_edges s))) +
       card (dead_keys key taken kos \<inter> dom (map_of (ms_pending s)))"
proof (induction kos arbitrary: s st)
  case Nil
  then show ?case by (simp add: dead_keys_def)
next
  case (Cons ko kos)
  obtain k os where ko: "ko = (k, os)" by (cases ko)
  obtain s1 st1 where one: "sweep_edge key taken (k, os) (s, st) = (s1, st1)" by (cases "sweep_edge key taken (k, os) (s, st)")
  have rest: "fold (sweep_edge key taken) kos (s1, st1) = (s', st')" using Cons.prems(3) ko one by simp
  have new: "k \<notin> dead_keys key taken kos" "map_of kos k = None" and dist: "distinct (map fst kos)"
    using Cons.prems(1) ko dead_keys_sub [of key taken kos] by (auto simp: map_of_eq_None_iff)
  show ?case
  proof (cases "all_withdrawn key taken os")
    case True
    note d = sweep_edge_dead [OF True one]
    have sh: "ms_shape s1" using d Cons.prems(2) by blast
    note IH = Cons.IH [OF dist sh rest]
    have dk: "dead_keys key taken (ko # kos) = insert k (dead_keys key taken kos)" using True by (simp add: dead_keys_Cons ko)
    have ress: "(m(k := None)) |` (- G) = m |` (- insert k G)" for m :: "edge_key \<Rightarrow> 'v option" and G
      by (auto simp: fun_eq_iff restrict_map_def)
    have org: "map_of (ms_edge_org s') q = (case map_of (ko # kos) q of Some os \<Rightarrow> left_org key taken os | None \<Rightarrow> map_of (ms_edge_org s) q)" for q
      using IH d new True by (auto simp: ko map_of_delete left_org_def split: option.splits)
    have me: "map_of (ms_edges s1) = (map_of (ms_edges s))(k := None)" "map_of (ms_pending s1) = (map_of (ms_pending s))(k := None)"
      using d by simp_all
    have ed: "map_of (ms_edges s') = map_of (ms_edges s) |` (- dead_keys key taken (ko # kos))"
        "map_of (ms_pending s') = map_of (ms_pending s) |` (- dead_keys key taken (ko # kos))"
      unfolding dk ress [symmetric] me [symmetric] using IH by blast+
    note ce = card_insert_dom [OF new(1) finite_dead_keys, of "map_of (ms_edges s)", folded me dk]
    note cp = card_insert_dom [OF new(1) finite_dead_keys, of "map_of (ms_pending s)", folded me dk]
    have "ss_edges st' = ss_edges st + card (dead_keys key taken (ko # kos) \<inter> dom (map_of (ms_edges s))) +
       card (dead_keys key taken (ko # kos) \<inter> dom (map_of (ms_pending s)))"
      unfolding ce cp using IH d by linarith
    then show ?thesis using IH d org ed by simp
  next
    case False
    have s1: "s1 = s\<lparr>ms_edge_org := AList.update k (fst (withdraw key taken os)) (ms_edge_org s)\<rparr>" "st1 = st"
      using sweep_edge_live [OF False, of k s st] one by simp_all
    have sh: "ms_shape s1" using Cons.prems(2) by (simp add: s1 ms_shape_other ms_shape_orgs)
    note IH = Cons.IH [OF dist sh rest]
    have dk: "dead_keys key taken (ko # kos) = dead_keys key taken kos" using False by (simp add: dead_keys_Cons ko)
    have org: "map_of (ms_edge_org s') q = (case map_of (ko # kos) q of Some os \<Rightarrow> left_org key taken os | None \<Rightarrow> map_of (ms_edge_org s) q)" for q
      using IH new False by (auto simp: ko s1 map_of_update left_org_def split: option.splits)
    show ?thesis unfolding dk using IH org by (simp add: s1)
  qed
qed

lemma sweep_node_live:
  "\<not> all_withdrawn key taken os \<Longrightarrow> sweep_node key taken (i, os) (s, gone, st) =
     (s\<lparr>ms_node_org := AList.update i (fst (withdraw key taken os)) (ms_node_org s)\<rparr>, gone, st)"
  by (cases "withdraw key taken os") (simp add: sweep_node_def all_withdrawn_def)

lemma sweep_node_dead:
  assumes "all_withdrawn key taken os" and st: "sweep_node key taken (i, os) (s, gone, st) = (s', gone', st')"
  shows "(ms_shape s \<longrightarrow> ms_shape s') \<and> ms_edges s' = ms_edges s \<and> ms_edge_org s' = ms_edge_org s \<and> ms_pending s' = ms_pending s \<and>
    ms_removals s' = ms_removals s \<and> ms_node_org s' = AList.delete i (ms_node_org s) \<and>
    map_of (ms_nodes s') = (map_of (ms_nodes s))(i := None) \<and>
    set gone' = set gone \<union> ({i} \<inter> dom (map_of (ms_nodes s))) \<and>
    ss_edges st' = ss_edges st \<and> ss_parked st' = ss_parked st \<and>
    ss_nodes st' = ss_nodes st + (if map_of (ms_nodes s) i \<noteq> None then 1 else 0)"
proof -
  have has: "gm_has (ms_nodes s) i \<longleftrightarrow> map_of (ms_nodes s) i \<noteq> None" by (auto simp: gm_has_iff map_of_eq_None_iff)
  define s1 where "s1 = s\<lparr>ms_node_org := AList.delete i (ms_node_org s)\<rparr>"
  have r: "(s', gone', st') = (if gm_has (ms_nodes s) i
      then (s1\<lparr>ms_nodes := AList.delete i (ms_nodes s)\<rparr>, i # gone, st\<lparr>ss_nodes := ss_nodes st + 1\<rparr>) else (s1, gone, st))"
    using assms by (cases "withdraw key taken os") (auto simp: sweep_node_def all_withdrawn_def s1_def)
  have "ms_shape s \<Longrightarrow> ms_shape s1" by (simp add: s1_def ms_shape_other ms_shape_orgs)
  then have "ms_shape s \<Longrightarrow> ms_shape s'" using r ms_shape_other(5) [of s1 i] by (auto simp: s1_def split: if_splits)
  moreover have "map_of (ms_nodes s') = (map_of (ms_nodes s))(i := None)"
    using r by (auto simp: s1_def has map_of_delete fun_eq_iff split: if_splits)
  ultimately show ?thesis using r by (cases "gm_has (ms_nodes s) i") (simp_all add: s1_def has [symmetric], auto simp: has)
qed

lemma sweep_nodes_spec:
  "distinct (map fst kos) \<Longrightarrow> ms_shape s \<Longrightarrow> fold (sweep_node key taken) kos (s, gone, st) = (s', gone', st') \<Longrightarrow>
     ms_shape s' \<and> ms_edges s' = ms_edges s \<and> ms_edge_org s' = ms_edge_org s \<and> ms_pending s' = ms_pending s \<and> ms_removals s' = ms_removals s \<and>
     map_of (ms_nodes s') = map_of (ms_nodes s) |` (- dead_keys key taken kos) \<and>
     (\<forall>i. map_of (ms_node_org s') i = (case map_of kos i of Some os \<Rightarrow> left_org key taken os | None \<Rightarrow> map_of (ms_node_org s) i)) \<and>
     set gone' = set gone \<union> (dead_keys key taken kos \<inter> dom (map_of (ms_nodes s))) \<and>
     ss_edges st' = ss_edges st \<and> ss_parked st' = ss_parked st \<and>
     ss_nodes st' = ss_nodes st + card (dead_keys key taken kos \<inter> dom (map_of (ms_nodes s)))"
proof (induction kos arbitrary: s gone st)
  case Nil
  then show ?case by (simp add: dead_keys_def)
next
  case (Cons ko kos)
  obtain k os where ko: "ko = (k, os)" by (cases ko)
  obtain s1 gone1 st1 where one: "sweep_node key taken (k, os) (s, gone, st) = (s1, gone1, st1)"
    by (cases "sweep_node key taken (k, os) (s, gone, st)")
  have rest: "fold (sweep_node key taken) kos (s1, gone1, st1) = (s', gone', st')" using Cons.prems(3) ko one by simp
  have new: "k \<notin> dead_keys key taken kos" "map_of kos k = None" and dist: "distinct (map fst kos)"
    using Cons.prems(1) ko dead_keys_sub [of key taken kos] by (auto simp: map_of_eq_None_iff)
  show ?case
  proof (cases "all_withdrawn key taken os")
    case True
    note d = sweep_node_dead [OF True one]
    have sh: "ms_shape s1" using d Cons.prems(2) by blast
    note IH = Cons.IH [OF dist sh rest]
    have dk: "dead_keys key taken (ko # kos) = insert k (dead_keys key taken kos)" using True by (simp add: dead_keys_Cons ko)
    have ress: "(m(k := None)) |` (- G) = m |` (- insert k G)" for m :: "string \<Rightarrow> 'v option" and G
      by (auto simp: fun_eq_iff restrict_map_def)
    have org: "map_of (ms_node_org s') q = (case map_of (ko # kos) q of Some os \<Rightarrow> left_org key taken os | None \<Rightarrow> map_of (ms_node_org s) q)" for q
      using IH d new True by (auto simp: ko map_of_delete left_org_def split: option.splits)
    have me: "map_of (ms_nodes s1) = (map_of (ms_nodes s))(k := None)" using d by simp
    have nd: "map_of (ms_nodes s') = map_of (ms_nodes s) |` (- dead_keys key taken (ko # kos))"
      unfolding dk ress [symmetric] me [symmetric] using IH by blast
    note ce = card_insert_dom [OF new(1) finite_dead_keys, of "map_of (ms_nodes s)", folded me dk]
    have cnt: "ss_nodes st' = ss_nodes st + card (dead_keys key taken (ko # kos) \<inter> dom (map_of (ms_nodes s)))"
      unfolding ce using IH d by linarith
    have dm: "dead_keys key taken kos \<inter> dom (map_of (ms_nodes s1)) = dead_keys key taken kos \<inter> dom (map_of (ms_nodes s))"
      using new(1) by (auto simp: me)
    have g1: "set gone1 = set gone \<union> ({k} \<inter> dom (map_of (ms_nodes s)))" using d by blast
    have "set gone' = set gone1 \<union> (dead_keys key taken kos \<inter> dom (map_of (ms_nodes s1)))" using IH by blast
    then have gn: "set gone' = set gone \<union> (dead_keys key taken (ko # kos) \<inter> dom (map_of (ms_nodes s)))"
      unfolding dk dm g1 by blast
    have "ms_shape s' \<and> ms_edges s' = ms_edges s \<and> ms_edge_org s' = ms_edge_org s \<and> ms_pending s' = ms_pending s \<and>
        ms_removals s' = ms_removals s \<and> ss_edges st' = ss_edges st \<and> ss_parked st' = ss_parked st"
    proof -
      have e: "ms_edges s1 = ms_edges s" "ms_edge_org s1 = ms_edge_org s" "ms_pending s1 = ms_pending s" "ms_removals s1 = ms_removals s"
        "ss_edges st1 = ss_edges st" "ss_parked st1 = ss_parked st" using d by blast+
      show ?thesis using IH unfolding e by blast
    qed
    then show ?thesis using org nd cnt gn by blast
  next
    case False
    have s1: "s1 = s\<lparr>ms_node_org := AList.update k (fst (withdraw key taken os)) (ms_node_org s)\<rparr>" "st1 = st" "gone1 = gone"
      using sweep_node_live [OF False, of k s gone st] one by simp_all
    have sh: "ms_shape s1" using Cons.prems(2) by (simp add: s1 ms_shape_other ms_shape_orgs)
    note IH = Cons.IH [OF dist sh rest]
    have dk: "dead_keys key taken (ko # kos) = dead_keys key taken kos" using False by (simp add: dead_keys_Cons ko)
    have org: "map_of (ms_node_org s') q = (case map_of (ko # kos) q of Some os \<Rightarrow> left_org key taken os | None \<Rightarrow> map_of (ms_node_org s) q)" for q
      using IH new False by (auto simp: ko s1 map_of_update left_org_def split: option.splits)
    show ?thesis unfolding dk using IH org by (simp add: s1)
  qed
qed

text \<open>The edges a node that left takes with it.\<close>

definition touching :: "string set \<Rightarrow> edge_key set" where
  "touching ids = {k. ek_from k \<in> ids \<or> ek_to k \<in> ids}"

lemma loose_edges_spec:
  "distinct (map fst kes) \<Longrightarrow> (\<forall>(k, e) \<in> set kes. edge_key e = k) \<Longrightarrow> ms_shape s \<Longrightarrow>
   fold (loose_edge gone now) kes (s, st) = (s', st') \<Longrightarrow>
     ms_shape s' \<and> ms_nodes s' = ms_nodes s \<and> ms_node_org s' = ms_node_org s \<and> ms_edge_org s' = ms_edge_org s \<and> ms_removals s' = ms_removals s \<and>
     map_of (ms_edges s') = map_of (ms_edges s) |` (- (touching (set gone) \<inter> fst ` set kes)) \<and>
     dom (map_of (ms_pending s')) = dom (map_of (ms_pending s)) \<union> {k \<in> touching (set gone) \<inter> fst ` set kes. asserted s k} \<and>
     ss_nodes st' = ss_nodes st \<and>
     ss_parked st' = ss_parked st + card {k \<in> touching (set gone) \<inter> fst ` set kes. asserted s k} \<and>
     ss_edges st' = ss_edges st + card {k \<in> touching (set gone) \<inter> fst ` set kes. \<not> asserted s k}"
proof (induction kes arbitrary: s st)
  case Nil
  then show ?case by simp
next
  case (Cons ke kes)
  obtain k e where ke: "ke = (k, e)" by (cases ke)
  obtain s1 st1 where one: "loose_edge gone now (k, e) (s, st) = (s1, st1)" by (cases "loose_edge gone now (k, e) (s, st)")
  have rest: "fold (loose_edge gone now) kes (s1, st1) = (s', st')" using Cons.prems(4) ke one by simp
  have new: "k \<notin> fst ` set kes" and dist: "distinct (map fst kes)" and keyed: "\<forall>(k, e) \<in> set kes. edge_key e = k" "edge_key e = k"
    using Cons.prems(1,2) ke by auto
  let ?T = "touching (set gone) \<inter> fst ` set kes" and ?T' = "touching (set gone) \<inter> fst ` set (ke # kes)"
  show ?case
  proof (cases "k \<in> touching (set gone)")
    case False
    then have s1: "s1 = s" "st1 = st" using one by (auto simp: loose_edge_def touching_def)
    have "?T' = ?T" using False by (auto simp: ke)
    then show ?thesis using Cons.IH [OF dist keyed(1) Cons.prems(3)] rest s1 by simp
  next
    case True
    have T: "?T' = insert k ?T" "k \<notin> ?T" using True new by (auto simp: ke)
    let ?d = "s\<lparr>ms_edges := AList.delete k (ms_edges s)\<rparr>"
    have c1: "s1 = (if asserted s k then ms_park e now ?d else ?d)"
      "st1 = (if asserted s k then st\<lparr>ss_parked := ss_parked st + 1\<rparr> else st\<lparr>ss_edges := ss_edges st + 1\<rparr>)"
      using True one by (auto simp: loose_edge_def touching_def Let_def asserted_def split: if_splits)
    have shd: "ms_shape ?d" using Cons.prems(3) by (rule ms_shape_other(4))
    then have sh: "ms_shape s1" using ms_shape_park by (simp add: c1)
    have as: "asserted s1 = asserted s" by (auto simp: asserted_def c1 fun_eq_iff)
    note IH = Cons.IH [OF dist keyed(1) sh rest, unfolded as]
    have f: "ms_nodes s1 = ms_nodes s" "ms_node_org s1 = ms_node_org s" "ms_edge_org s1 = ms_edge_org s" "ms_removals s1 = ms_removals s"
      "map_of (ms_edges s1) = map_of (ms_edges s) |` (- {k})"
      "dom (map_of (ms_pending s1)) = dom (map_of (ms_pending s)) \<union> {q \<in> {k}. asserted s q}"
      using keyed(2) by (auto simp: c1 map_of_update map_of_delete fun_eq_iff restrict_map_def)
    have "map_of (ms_edges s') = map_of (ms_edges s) |` (- ?T')"
    proof -
      have "map_of (ms_edges s') = map_of (ms_edges s1) |` (- ?T)" using IH by blast
      then show ?thesis unfolding T f by (auto simp: fun_eq_iff restrict_map_def)
    qed
    moreover have "dom (map_of (ms_pending s')) = dom (map_of (ms_pending s)) \<union> {q \<in> ?T'. asserted s q}"
    proof -
      have "dom (map_of (ms_pending s')) = dom (map_of (ms_pending s1)) \<union> {q \<in> ?T. asserted s q}" using IH by blast
      then show ?thesis unfolding T f by blast
    qed
    moreover have "card {q \<in> ?T'. P q} = (if P k then 1 else 0) + card {q \<in> ?T. P q}" for P
    proof -
      have "{q \<in> ?T'. P q} = (if P k then insert k {q \<in> ?T. P q} else {q \<in> ?T. P q})" unfolding T by auto
      moreover have "card (insert k {q \<in> ?T. P q}) = Suc (card {q \<in> ?T. P q})"
        by (rule card_insert_disjoint) (use new in \<open>auto intro: finite_subset [where B = "fst ` set kes"]\<close>)
      ultimately show ?thesis by (cases "P k") (simp_all only: if_True if_False add_0 plus_1_eq_Suc)
    qed
    ultimately show ?thesis using IH f c1(2) sh by (auto split: if_splits)
  qed
qed

lemma dead_keys_at:
  assumes ok: "gm_ok m" and at: "map_of m k = Some os"
  shows "k \<in> dead_keys key taken m \<longleftrightarrow> all_withdrawn key taken os"
proof
  assume "k \<in> dead_keys key taken m"
  then obtain os' where "(k, os') \<in> set m" "all_withdrawn key taken os'" by (auto simp: dead_keys_def)
  then show "all_withdrawn key taken os" using at by (simp add: gm_ok_in_set [OF ok])
next
  assume "all_withdrawn key taken os"
  then show "k \<in> dead_keys key taken m" using map_of_SomeD [OF at] by (force simp: dead_keys_def)
qed

lemma asserted_after:
  assumes "\<forall>k. map_of (ms_edge_org s') k = (case map_of (ms_edge_org s) k of Some os \<Rightarrow> left_org key taken os | None \<Rightarrow> map_of (ms_edge_org s) k)"
    and "gm_ok (ms_edge_org s)"
  shows "asserted s' k \<longleftrightarrow> asserted s k \<and> k \<notin> dead_keys key taken (ms_edge_org s)"
proof (cases "map_of (ms_edge_org s) k")
  case None
  then have "map_of (ms_edge_org s') k = None" using spec [OF assms(1), of k] by simp
  then show ?thesis using None by (simp add: asserted_def)
next
  case (Some os)
  have "k \<in> dead_keys key taken (ms_edge_org s) \<longleftrightarrow> all_withdrawn key taken os"
    by (rule dead_keys_at [OF assms(2) Some])
  moreover have "all_withdrawn key taken os \<or> (fst (withdraw key taken os) = [] \<longleftrightarrow> os = [])"
    by (auto simp: all_withdrawn_def withdraw_def Let_def split: option.splits)
  moreover have "map_of (ms_edge_org s') k = left_org key taken os" using spec [OF assms(1), of k] Some by simp
  ultimately show ?thesis using Some by (auto simp: asserted_def left_org_def)
qed

text \<open>
  The elements a sweep takes: those a full inventory taken at \<open>taken\<close> stopped asserting and nobody
  else asserts. What is left of the store is the store without them, and without the edges
  of the nodes among them; an edge someone else still asserts is parked.
\<close>

definition swept_nodes :: "origin_key \<Rightarrow> gotime \<Rightarrow> mem_store \<Rightarrow> string set" where
  "swept_nodes key taken s = dead_keys key taken (ms_node_org s) \<inter> dom (map_of (ms_nodes s))"

definition swept_edges :: "origin_key \<Rightarrow> gotime \<Rightarrow> mem_store \<Rightarrow> edge_key set" where
  "swept_edges key taken s = dead_keys key taken (ms_edge_org s)"

definition uprooted :: "origin_key \<Rightarrow> gotime \<Rightarrow> mem_store \<Rightarrow> edge_key set" where
  "uprooted key taken s = touching (swept_nodes key taken s) \<inter> dom (map_of (ms_edges s)) - swept_edges key taken s"

lemma sweep_spec:
  fixes now taken :: gotime
  assumes ok: "ms_ok s" and scope: "scope \<noteq> []"
    and run: "ms_sweep now source scope taken s = (st, err, s')"
  defines "key \<equiv> (source, scope)"
  shows "err = None \<and> ms_ok s' \<and> map_of (ms_nodes s') = map_of (ms_nodes s) |` (- swept_nodes key taken s) \<and>
     map_of (ms_edges s') = map_of (ms_edges s) |` (- swept_edges key taken s - uprooted key taken s) \<and>
     dom (map_of (ms_pending s')) = (dom (map_of (ms_pending s)) - swept_edges key taken s) \<union> {k \<in> uprooted key taken s. asserted s k} \<and>
     ss_nodes st = card (swept_nodes key taken s) \<and>
     ss_edges st = card (swept_edges key taken s \<inter> dom (map_of (ms_edges s))) + card (swept_edges key taken s \<inter> dom (map_of (ms_pending s))) +
        card {k \<in> uprooted key taken s. \<not> asserted s k} \<and>
     ss_parked st = card {k \<in> uprooted key taken s. asserted s k} \<and>
     ms_removals s' = ms_removals s + (if swept_any st then 1 else 0)"
proof -
  have sh: "ms_shape s" using ok by (simp add: ms_ok_def)
  obtain s1 st1 where f1: "fold (sweep_edge key taken) (ms_edge_org s) (s, no_sweep) = (s1, st1)"
    by (cases "fold (sweep_edge key taken) (ms_edge_org s) (s, no_sweep)")
  obtain s2 gone st2 where f2: "fold (sweep_node key taken) (ms_node_org s1) (s1, [], st1) = (s2, gone, st2)"
    by (cases "fold (sweep_node key taken) (ms_node_org s1) (s1, [], st1)")
  obtain s3 st3 where f3: "fold (loose_edge gone now) (ms_edges s2) (s2, st2) = (s3, st3)"
    by (cases "fold (loose_edge gone now) (ms_edges s2) (s2, st2)")
  have f3': "(if gone \<noteq> [] then fold (loose_edge gone now) (ms_edges s2) (s2, st2) else (s2, st2)) = (s3, st3)"
  proof (cases "gone = []")
    case True
    have "fold (loose_edge gone now) kes (s2, st2) = (s2, st2)" for kes
      using True by (induction kes) (auto simp: loose_edge_def)
    then show ?thesis using True f3 by simp
  qed (simp add: f3)
  have r: "err = None" "st = st3" "s' = (if swept_any st3 then s3\<lparr>ms_removals := ms_removals s3 + 1\<rparr> else s3)"
    using run scope f1 f2 f3' by (auto simp: ms_sweep_def key_def [symmetric] Let_def)
  have d1: "distinct (map fst (ms_edge_org s))" "gm_ok (ms_edge_org s)" using sh by (simp_all add: ms_shape_def gm_ok_def)
  note a = sweep_edges_spec [OF d1(1) sh f1]
  have sh1: "ms_shape s1" using a by blast
  then have d2: "distinct (map fst (ms_node_org s1))" by (simp add: ms_shape_def gm_ok_def)
  note b = sweep_nodes_spec [OF d2 sh1 f2]
  have sh2: "ms_shape s2" using b by blast
  then have d3: "distinct (map fst (ms_edges s2))" "\<forall>(k, e) \<in> set (ms_edges s2). edge_key e = k"
    using gm_ok_in_set [of "ms_edges s2"] by (auto simp: ms_shape_def gm_ok_def)
  note c = loose_edges_spec [OF d3 sh2 f3]
  have e1: "ms_node_org s1 = ms_node_org s" "ms_nodes s1 = ms_nodes s" using a by blast+
  have gone: "set gone = swept_nodes key taken s" using b e1 by (simp add: swept_nodes_def)
  have "map_of (ms_nodes s2) = map_of (ms_nodes s) |` (- dead_keys key taken (ms_node_org s))" using b e1 by simp
  then have nodes: "map_of (ms_nodes s2) = map_of (ms_nodes s) |` (- swept_nodes key taken s)"
    by (auto simp: fun_eq_iff restrict_map_def swept_nodes_def dom_def)
  have edges: "map_of (ms_edges s2) = map_of (ms_edges s) |` (- swept_edges key taken s)" using a b by (simp add: swept_edges_def)
  have T: "touching (set gone) \<inter> fst ` set (ms_edges s2) = uprooted key taken s"
    using edges by (auto simp: gone uprooted_def dom_map_of_conv_image_fst [symmetric])
  have as: "asserted s2 k \<longleftrightarrow> asserted s k \<and> k \<notin> swept_edges key taken s" for k
  proof -
    have eo: "ms_edge_org s2 = ms_edge_org s1" using b by blast
    then have "asserted s2 k = asserted s1 k" by (simp add: asserted_def)
    then show ?thesis using a by (simp add: asserted_after [OF _ d1(2)] swept_edges_def)
  qed
  have ups: "{k \<in> uprooted key taken s. asserted s2 k} = {k \<in> uprooted key taken s. asserted s k}"
    "{k \<in> uprooted key taken s. \<not> asserted s2 k} = {k \<in> uprooted key taken s. \<not> asserted s k}"
    by (auto simp: as uprooted_def)
  note c = c [unfolded T ups]
  have fin: "map_of (ms_nodes s3) = map_of (ms_nodes s) |` (- swept_nodes key taken s)"
    "map_of (ms_edges s3) = map_of (ms_edges s) |` (- swept_edges key taken s - uprooted key taken s)"
    using c nodes edges by (auto simp: fun_eq_iff restrict_map_def)
  have pend: "dom (map_of (ms_pending s3)) = (dom (map_of (ms_pending s)) - swept_edges key taken s) \<union> {k \<in> uprooted key taken s. asserted s k}"
  proof -
    have "dom (map_of (ms_pending s2)) = dom (map_of (ms_pending s)) - swept_edges key taken s"
      using a b by (auto simp: swept_edges_def)
    then show ?thesis using c by blast
  qed
  have dang: "no_dangle s3"
    unfolding no_dangle_def fin using ok by (auto simp: ms_ok_defs restrict_map_def uprooted_def touching_def split: if_splits)
  have sh3: "ms_shape s3" using c by blast
  have ok': "ms_ok s3" using dang sh3 by (simp add: ms_ok_def)
  have rem: "ms_removals s3 = ms_removals s" using a b c by (elim conjE) (simp only:)
  have cnt: "ss_nodes st3 = card (swept_nodes key taken s)"
     "ss_edges st3 = card (swept_edges key taken s \<inter> dom (map_of (ms_edges s))) + card (swept_edges key taken s \<inter> dom (map_of (ms_pending s))) +
        card {k \<in> uprooted key taken s. \<not> asserted s k}"
     "ss_parked st3 = card {k \<in> uprooted key taken s. asserted s k}"
    using a b c e1 by (elim conjE, simp only: no_sweep_def sweep_stats.simps swept_nodes_def swept_edges_def add_0)+
  show ?thesis
    using r fin pend ok' rem cnt ms_ok_other(3) [OF ok'] by simp
qed

section \<open>What a prune does\<close>

lemma gm_ok_prune_origins: "gm_ok m \<Longrightarrow> gm_ok (prune_origins before m)"
proof -
  assume "gm_ok m"
  moreover have "map fst (map (\<lambda>(k, os). (k, filter (\<lambda>(g, t). \<not> t < before) os)) m) = map fst m" by (simp add: case_prod_beta comp_def)
  ultimately have "distinct (map fst (map (\<lambda>(k, os). (k, filter (\<lambda>(g, t). \<not> t < before) os)) m))" by (simp only: gm_ok_def)
  then show ?thesis unfolding prune_origins_def gm_ok_def by (rule distinct_map_filter)
qed

text \<open>The elements last seen before the cutoff, and the edges of the nodes among them.\<close>

definition stale_nodes :: "int \<Rightarrow> mem_store \<Rightarrow> string set" where
  "stale_nodes cutoff s = fst ` {(i, n) \<in> set (ms_nodes s). stale cutoff (n_props n)}"

definition stale_edges :: "int \<Rightarrow> mem_store \<Rightarrow> edge_key set" where
  "stale_edges cutoff s = fst ` {(k, e) \<in> set (ms_edges s). stale cutoff (e_props e)} \<union>
     (touching (stale_nodes cutoff s) \<inter> dom (map_of (ms_edges s)))"

lemma prune_nodes_spec:
  "distinct (map fst kns) \<Longrightarrow> ms_shape s \<Longrightarrow> fold (prune_node cutoff) kns (s, removed) = (s', removed') \<Longrightarrow>
     ms_shape s' \<and> ms_edges s' = ms_edges s \<and> ms_edge_org s' = ms_edge_org s \<and> ms_pending s' = ms_pending s \<and> ms_removals s' = ms_removals s \<and>
     map_of (ms_nodes s') = map_of (ms_nodes s) |` (- fst ` {(i, n) \<in> set kns. stale cutoff (n_props n)}) \<and>
     set removed' = set removed \<union> fst ` {(i, n) \<in> set kns. stale cutoff (n_props n)} \<and>
     length removed' = length removed + card (fst ` {(i, n) \<in> set kns. stale cutoff (n_props n)})"
proof (induction kns arbitrary: s removed)
  case Nil
  then show ?case by simp
next
  case (Cons kn kns)
  obtain i n where kn: "kn = (i, n)" by (cases kn)
  have dist: "distinct (map fst kns)" and new: "i \<notin> fst ` set kns" using Cons.prems(1) kn by auto
  let ?R = "fst ` {(i, n) \<in> set kns. stale cutoff (n_props n)}" and ?R' = "fst ` {(i, n) \<in> set (kn # kns). stale cutoff (n_props n)}"
  show ?case
  proof (cases "stale cutoff (n_props n)")
    case False
    then have "?R' = ?R" by (auto simp: kn)
    moreover have "fold (prune_node cutoff) kns (s, removed) = (s', removed')"
      using Cons.prems(3) False by (simp add: kn prune_node_def)
    ultimately show ?thesis using Cons.IH [OF dist Cons.prems(2)] by simp
  next
    case True
    let ?s = "s\<lparr>ms_nodes := AList.delete i (ms_nodes s), ms_node_org := AList.delete i (ms_node_org s)\<rparr>"
    have R: "?R' = insert i ?R" "i \<notin> ?R" using True new by (auto simp: kn image_iff)
    have fin: "finite ?R" by (rule finite_subset [where B = "fst ` set kns"]) auto
    have sh: "ms_shape ?s" using Cons.prems(2) unfolding ms_shape_def by (simp add: map_of_delete)
    have "fold (prune_node cutoff) kns (?s, i # removed) = (s', removed')"
      using Cons.prems(3) True by (simp add: kn prune_node_def)
    note IH = Cons.IH [OF dist sh this]
    have "map_of (ms_nodes s') = map_of (ms_nodes ?s) |` (- ?R)" using IH by blast
    then have "map_of (ms_nodes s') = map_of (ms_nodes s) |` (- ?R')"
      unfolding R by (auto simp: fun_eq_iff restrict_map_def map_of_delete)
    moreover have "set removed' = set removed \<union> ?R'" unfolding R using IH by simp
    moreover have "length removed' = length removed + card ?R'" unfolding R using IH R(2) fin by simp
    ultimately show ?thesis using IH by simp
  qed
qed

definition prune_hit :: "int \<Rightarrow> string list \<Rightarrow> edge \<Rightarrow> bool" where
  "prune_hit cutoff removed e \<longleftrightarrow> stale cutoff (e_props e) \<or> e_from e \<in> set removed \<or> e_to e \<in> set removed"

lemma prune_edges_spec:
  "distinct (map fst kes) \<Longrightarrow> ms_shape s \<Longrightarrow> fold (prune_edge cutoff removed) kes (s, cnt) = (s', cnt') \<Longrightarrow>
     ms_shape s' \<and> ms_nodes s' = ms_nodes s \<and> ms_pending s' = ms_pending s \<and> ms_removals s' = ms_removals s \<and>
     map_of (ms_edges s') = map_of (ms_edges s) |` (- fst ` {(k, e) \<in> set kes. prune_hit cutoff removed e}) \<and>
     cnt' = cnt + card (fst ` {(k, e) \<in> set kes. prune_hit cutoff removed e})"
proof (induction kes arbitrary: s cnt)
  case Nil
  then show ?case by simp
next
  case (Cons ke kes)
  obtain k e where ke: "ke = (k, e)" by (cases ke)
  have dist: "distinct (map fst kes)" and new: "k \<notin> fst ` set kes" using Cons.prems(1) ke by auto
  let ?R = "fst ` {(k, e) \<in> set kes. prune_hit cutoff removed e}" and ?R' = "fst ` {(k, e) \<in> set (ke # kes). prune_hit cutoff removed e}"
  show ?case
  proof (cases "prune_hit cutoff removed e")
    case False
    then have "?R' = ?R" by (auto simp: ke)
    moreover have "fold (prune_edge cutoff removed) kes (s, cnt) = (s', cnt')"
      using Cons.prems(3) False by (simp add: ke prune_edge_def prune_hit_def)
    ultimately show ?thesis using Cons.IH [OF dist Cons.prems(2)] by simp
  next
    case True
    let ?s = "s\<lparr>ms_edges := AList.delete k (ms_edges s), ms_edge_org := AList.delete k (ms_edge_org s)\<rparr>"
    have R: "?R' = insert k ?R" "k \<notin> ?R" using True new by (auto simp: ke image_iff)
    have fin: "finite ?R" by (rule finite_subset [where B = "fst ` set kes"]) auto
    have sh: "ms_shape ?s" using Cons.prems(2) unfolding ms_shape_def by (simp add: map_of_delete)
    have "fold (prune_edge cutoff removed) kes (?s, cnt + 1) = (s', cnt')"
      using Cons.prems(3) True by (simp add: ke prune_edge_def prune_hit_def)
    note IH = Cons.IH [OF dist sh this]
    have "map_of (ms_edges s') = map_of (ms_edges ?s) |` (- ?R)" using IH by blast
    then have "map_of (ms_edges s') = map_of (ms_edges s) |` (- ?R')"
      unfolding R by (auto simp: fun_eq_iff restrict_map_def map_of_delete)
    moreover have "cnt' = cnt + card ?R'" unfolding R using IH R(2) fin by simp
    ultimately show ?thesis using IH by simp
  qed
qed

lemma prune_spec:
  fixes before :: gotime
  assumes ok: "ms_ok s" and run: "ms_prune before s = (st, err, s')"
  defines "cutoff \<equiv> time_unix before"
  shows "err = None \<and> ms_ok s' \<and> map_of (ms_nodes s') = map_of (ms_nodes s) |` (- stale_nodes cutoff s) \<and>
     map_of (ms_edges s') = map_of (ms_edges s) |` (- stale_edges cutoff s) \<and> ms_pending s' = ms_pending s \<and>
     ps_nodes st = card (stale_nodes cutoff s) \<and> ps_edges st = card (stale_edges cutoff s) \<and>
     ms_removals s' = ms_removals s + (if ps_nodes st + ps_edges st > 0 then 1 else 0)"
proof -
  have sh: "ms_shape s" and dang: "no_dangle s" using ok by (simp_all add: ms_ok_def)
  obtain s1 removed where f1: "fold (prune_node cutoff) (ms_nodes s) (s, []) = (s1, removed)"
    by (cases "fold (prune_node cutoff) (ms_nodes s) (s, [])")
  obtain s2 cnt where f2: "fold (prune_edge cutoff removed) (ms_edges s1) (s1, 0) = (s2, cnt)"
    by (cases "fold (prune_edge cutoff removed) (ms_edges s1) (s1, 0)")
  define s3 where "s3 = s2\<lparr>ms_node_org := prune_origins before (ms_node_org s2), ms_edge_org := prune_origins before (ms_edge_org s2)\<rparr>"
  have r: "err = None" "st = \<lparr>ps_nodes = length removed, ps_edges = cnt\<rparr>"
    "s' = (if length removed + cnt > 0 then s3\<lparr>ms_removals := ms_removals s3 + 1\<rparr> else s3)"
    using run f1 f2 by (auto simp: ms_prune_def cutoff_def [symmetric] Let_def s3_def)
  have d1: "distinct (map fst (ms_nodes s))" using sh by (simp add: ms_shape_def gm_ok_def)
  note a = prune_nodes_spec [OF d1 sh f1, folded stale_nodes_def]
  have sh1: "ms_shape s1" using a by blast
  then have d2: "distinct (map fst (ms_edges s1))" by (simp add: ms_shape_def gm_ok_def)
  note b = prune_edges_spec [OF d2 sh1 f2]
  have es: "ms_edges s1 = ms_edges s" using a by blast
  have rem: "set removed = stale_nodes cutoff s" "length removed = card (stale_nodes cutoff s)" using a by simp_all
  have gme: "gm_ok (ms_edges s)" using sh by (simp add: ms_shape_def)
  have keyed: "edge_key e = k" if "(k, e) \<in> set (ms_edges s)" for k e
    using sh that gm_ok_in_set [OF gme] by (auto simp: ms_shape_def)
  have hit: "fst ` {(k, e) \<in> set (ms_edges s1). prune_hit cutoff removed e} = stale_edges cutoff s"
  proof -
    have "prune_hit cutoff removed e \<longleftrightarrow> stale cutoff (e_props e) \<or> k \<in> touching (stale_nodes cutoff s)"
      if "(k, e) \<in> set (ms_edges s)" for k e
      using keyed [OF that] by (auto simp: prune_hit_def rem touching_def)
    then have "fst ` {(k, e) \<in> set (ms_edges s). prune_hit cutoff removed e} =
        fst ` {(k, e) \<in> set (ms_edges s). stale cutoff (e_props e)} \<union> (fst ` set (ms_edges s) \<inter> touching (stale_nodes cutoff s))"
      by (auto simp: image_iff)
    then show ?thesis by (auto simp: es stale_edges_def dom_map_of_conv_image_fst)
  qed
  note b = b [unfolded hit]
  have fields: "ms_nodes s3 = ms_nodes s1" "ms_edges s3 = ms_edges s2" "ms_pending s3 = ms_pending s" "ms_removals s3 = ms_removals s"
    using a b by (auto simp: s3_def)
  have fin: "map_of (ms_nodes s3) = map_of (ms_nodes s) |` (- stale_nodes cutoff s)"
    "map_of (ms_edges s3) = map_of (ms_edges s) |` (- stale_edges cutoff s)"
    using a b by (simp_all add: fields)
  have "ms_shape s2" using b by blast
  then have sh3: "ms_shape s3" using ms_shape_orgs [of s2] by (simp add: s3_def ms_shape_other gm_ok_prune_origins)
  have "no_dangle s3"
    unfolding no_dangle_def fin using dang by (auto simp: no_dangle_def restrict_map_def stale_edges_def touching_def split: if_splits)
  then have ok3: "ms_ok s3" using sh3 by (simp add: ms_ok_def)
  have cnt: "cnt = card (stale_edges cutoff s)" using b by simp
  have m: "ms_nodes s' = ms_nodes s3" "ms_edges s' = ms_edges s3" "ms_pending s' = ms_pending s3" "ms_ok s'"
    "ms_removals s' = ms_removals s3 + (if ps_nodes st + ps_edges st > 0 then 1 else 0)"
    using r ok3 ms_ok_other(3) [OF ok3] by auto
  show ?thesis unfolding m(1-3,5) fin fields(3,4) using m(4) r(1,2) rem(2) cnt by simp
qed

section \<open>The contract, on this backend\<close>

interpretation mem: graph_store ms_node_op ms_edge_op "\<lambda>s. map_of (ms_nodes s)" "\<lambda>s. map_of (ms_edges s)" ms_ok
proof unfold_locales
  fix s :: mem_store and err s' and n :: node
  assume "ms_ok s" "ms_node_op n s = (err, s')"
  then show "err = None \<and> ms_ok s' \<and> map_of (ms_edges s') = map_of (ms_edges s) \<and>
      map_of (ms_nodes s') = (map_of (ms_nodes s))(n_id n \<mapsto> merge_node (map_of (ms_nodes s) (n_id n)) n)"
    by (auto simp: ms_node_op_def ms_ok_upsert_node map_of_update fun_eq_iff)
next
  fix s :: mem_store and err s' and e :: edge
  assume "ms_ok s" "map_of (ms_nodes s) (e_from e) \<noteq> None" "map_of (ms_nodes s) (e_to e) \<noteq> None" "ms_edge_op e s = (err, s')"
  then have "err = None" "s' = ms_put_edge e s" "ends_known s e" "ms_ok s" by (auto simp: ms_edge_op_def ends_known_iff)
  then show "err = None \<and> ms_ok s' \<and> map_of (ms_nodes s') = map_of (ms_nodes s) \<and>
      map_of (ms_edges s') = (map_of (ms_edges s))(edge_key e \<mapsto> land_edge (map_of (ms_edges s) (edge_key e)) e)"
    by (auto simp: ms_ok_put_edge map_of_update fun_eq_iff)
next
  fix s :: mem_store and e :: edge
  assume "map_of (ms_nodes s) (e_from e) = None \<or> map_of (ms_nodes s) (e_to e) = None"
  then show "ms_edge_op e s = (Some (ErrEndpointsMissing [e]), s)" by (auto simp: ms_edge_op_def ends_known_iff)
next
  fix s :: mem_store and k and e :: edge
  assume "ms_ok s" "map_of (ms_edges s) k = Some e"
  then show "map_of (ms_nodes s) (ek_from k) \<noteq> None \<and> map_of (ms_nodes s) (ek_to k) \<noteq> None"
    by (simp add: ms_ok_def no_dangle_def)
qed

section \<open>Every store a sequence of calls reaches\<close>

inductive mem_step :: "mem_store \<Rightarrow> mem_store \<Rightarrow> bool" where
  node_step: "mem_step s (snd (ms_node_op n s))"
| edge_step: "mem_step s (snd (ms_edge_op e s))"
| batch_step: "mem_step s (snd (ms_upsert_batch now ns es s))"
| from_step: "mem_step s (snd (ms_upsert_batch_from now orig ns es s))"
| sweep_step: "mem_step s (snd (snd (ms_sweep now source scope taken s)))"
| prune_step: "mem_step s (snd (snd (ms_prune before s)))"

text \<open>The steps of \<open>ApplyEvent\<close> and the maintenance loops: no element-by-element write.\<close>

inductive event_step :: "mem_store \<Rightarrow> mem_store \<Rightarrow> bool" where
  ev_batch: "event_step s (snd (ms_upsert_batch now ns es s))"
| ev_from: "event_step s (snd (ms_upsert_batch_from now orig ns es s))"
| ev_sweep: "event_step s (snd (snd (ms_sweep now source scope taken s)))"
| ev_prune: "event_step s (snd (snd (ms_prune before s)))"

inductive_cases mem_stepE: "mem_step s s'"
inductive_cases event_stepE: "event_step s s'"

lemma sweep_refused: "ms_sweep now source [] taken s = (no_sweep, Some ErrEmptyScope, s)"
  by (simp add: ms_sweep_def)

lemma upsert_batch_ok: "ms_ok s \<Longrightarrow> ms_ok (upsert_batch_locked now ns es orig s)"
proof -
  assume ok: "ms_ok s"
  obtain ps s3 where t: "take_pending ns (fold (batch_node orig) ns (sweep_pending now s)) = (ps, s3)"
    by (cases "take_pending ns (fold (batch_node orig) ns (sweep_pending now s))")
  have "ms_ok (sweep_pending now s)" using sweep_pending_spec [OF ok] by blast
  then have "ms_ok (fold (batch_node orig) ns (sweep_pending now s))" using batch_nodes_spec by blast
  then have "ms_ok s3" using take_pending_spec [OF _ t] by blast
  then have "ms_ok (fold retry_parked ps s3)" using retries_spec by blast
  then show ?thesis using batch_edges_spec t by (simp add: upsert_batch_locked_def)
qed

lemma mem_step_ok: "mem_step s s' \<Longrightarrow> ms_ok s \<Longrightarrow> ms_ok s'"
proof (induction rule: mem_step.induct)
  case (node_step s n)
  then show ?case by (simp add: ms_node_op_def ms_ok_upsert_node)
next
  case (edge_step s e)
  then show ?case by (simp add: ms_edge_op_def ms_ok_put_edge)
next
  case (batch_step s now ns es)
  then show ?case by (simp add: ms_upsert_batch_def upsert_batch_ok)
next
  case (from_step s now orig ns es)
  then show ?case by (simp add: ms_upsert_batch_from_def upsert_batch_ok)
next
  case (sweep_step s now source scope taken)
  then show ?case
    by (cases "scope = []"; cases "ms_sweep now source scope taken s") (auto simp: sweep_refused dest: sweep_spec)
next
  case (prune_step s before)
  then show ?case by (cases "ms_prune before s") (auto dest: prune_spec)
qed

lemma sweep_waits:
  assumes "ms_ok s" "waits s" "ms_sweep now source scope taken s = (st, err, s')"
  shows "waits s'"
proof (cases "scope = []")
  case False
  note sp = sweep_spec [OF assms(1) False assms(3)]
  have nodes: "map_of (ms_nodes s') = map_of (ms_nodes s) |` (- swept_nodes (source, scope) taken s)"
    and pend: "dom (map_of (ms_pending s')) = (dom (map_of (ms_pending s)) - swept_edges (source, scope) taken s) \<union>
        {k \<in> uprooted (source, scope) taken s. asserted s k}" using sp by blast+
  show ?thesis
    unfolding dom_waits pend nodes using assms(2) by (auto simp: dom_waits uprooted_def touching_def)
qed (use assms in \<open>simp add: sweep_refused\<close>)

lemma prune_waits:
  assumes "ms_ok s" "waits s" "ms_prune before s = (st, err, s')"
  shows "waits s'"
proof -
  note sp = prune_spec [OF assms(1,3)]
  have nodes: "map_of (ms_nodes s') = map_of (ms_nodes s) |` (- stale_nodes (time_unix before) s)" and pend: "ms_pending s' = ms_pending s"
    using sp by blast+
  show ?thesis unfolding dom_waits pend nodes using assms(2) by (auto simp: dom_waits)
qed

lemma event_step_waits: "event_step s s' \<Longrightarrow> ms_ok s \<Longrightarrow> waits s \<Longrightarrow> ms_ok s' \<and> waits s'"
proof (induction rule: event_step.induct)
  case (ev_batch s now ns es)
  then show ?case using batch_spec [of s now ns es None] by (simp add: ms_upsert_batch_def)
next
  case (ev_from s now orig ns es)
  then show ?case using batch_spec [of s now ns es "Some orig"] by (simp add: ms_upsert_batch_from_def)
next
  case (ev_sweep s now source scope taken)
  then show ?case
    using sweep_waits mem_step_ok [OF sweep_step, of s now source scope taken] by (metis prod.collapse)
next
  case (ev_prune s before)
  then show ?case
    using prune_waits mem_step_ok [OF prune_step, of s before] by (metis prod.collapse)
qed

lemma mem_steps_ok: "mem_step\<^sup>*\<^sup>* new_mem s \<Longrightarrow> ms_ok s"
  by (induction rule: rtranclp_induct) (auto simp: new_mem_ok dest: mem_step_ok)

lemma event_steps_waits: "event_step\<^sup>*\<^sup>* new_mem s \<Longrightarrow> ms_ok s \<and> waits s"
  by (induction rule: rtranclp_induct) (auto simp: new_mem_ok dest: event_step_waits)

end
