(* ===== verification/Memory_Laws.thy ===== *)
theory Memory_Laws
  imports Memory_Store
begin

text \<open>
  What the memory backend promises over whole histories: its invariant in every reachable
  store, what of the order of events matters and what does not, what sweeps and prunes remove, and that the
  counters of \<open>VersionedStore\<close> and \<open>RemovalEpoch\<close> move whenever the graph does.
\<close>

section \<open>Batches in any order\<close>

record write_batch =
  wb_now :: gotime
  wb_nodes :: "node list"
  wb_edges :: "edge list"
  wb_from :: "origin option"

definition run_batches :: "write_batch list \<Rightarrow> mem_store \<Rightarrow> mem_store" where
  "run_batches = fold (\<lambda>b. upsert_batch_locked (wb_now b) (wb_nodes b) (wb_edges b) (wb_from b))"

definition batch_ids :: "write_batch list \<Rightarrow> string set" where
  "batch_ids bs = n_id ` \<Union> (set ` wb_nodes ` set bs)"

definition batch_keys :: "write_batch list \<Rightarrow> edge_key set" where
  "batch_keys bs = edge_key ` \<Union> (set ` wb_edges ` set bs)"

text \<open>When the parked edges arrived.\<close>

definition ages :: "mem_store \<Rightarrow> gotime set" where
  "ages s = pk_at ` ran (map_of (ms_pending s))"

lemma ran_update_sub: "ran (map_of (AList.update k v m)) \<subseteq> insert v (ran (map_of m))"
  by (auto simp: ran_def map_of_update split: if_splits)

lemma ages_sub: "ran (map_of (ms_pending s')) \<subseteq> ran (map_of (ms_pending s)) \<Longrightarrow> ages s' \<subseteq> ages s"
  by (auto simp: ages_def)

lemma ages_land_or_park: "ages (land_or_park e t s) \<subseteq> insert t (ages s)"
  using ran_update_sub [of "edge_key e" "\<lparr>pk_edge = e, pk_at = t\<rparr>" "ms_pending s"]
  by (auto simp: land_or_park_def ages_def)

lemma ran_restrict_sub: "ran (m |` A) \<subseteq> ran m"
  by (auto simp: ran_def restrict_map_def split: if_splits)

lemma ages_retries: "ages (fold retry_parked ps s) \<subseteq> ages s \<union> pk_at ` set ps"
proof (induction ps arbitrary: s)
  case (Cons p ps)
  have "ages (retry_parked p s) \<subseteq> insert (pk_at p) (ages s)" unfolding retry_parked_eq by (rule ages_land_or_park)
  then show ?case using Cons.IH [of "retry_parked p s"] by auto
qed simp

lemma ages_batch_edges: "ages (fold (batch_edge now orig) es s) \<subseteq> insert now (ages s)"
proof (induction es arbitrary: s)
  case (Cons e es)
  have "ages (batch_edge now orig e s) = ages (land_or_park e now s)" by (simp add: ages_def batch_edge_facts)
  then have "ages (batch_edge now orig e s) \<subseteq> insert now (ages s)" using ages_land_or_park by simp
  then show ?case using Cons.IH [of "batch_edge now orig e s"] by auto
qed auto

lemma ages_batch:
  fixes now :: gotime
  assumes ok: "ms_ok s"
  shows "ages (upsert_batch_locked now nodes edges orig s) \<subseteq> insert now (ages s)"
proof -
  define s1 where "s1 = sweep_pending now s"
  define s2 where "s2 = fold (batch_node orig) nodes s1"
  obtain ps s3 where t: "take_pending nodes s2 = (ps, s3)" by (cases "take_pending nodes s2")
  note a1 = sweep_pending_spec [OF ok, of now, folded s1_def]
  note a2 = batch_nodes_spec [OF conjunct1 [OF a1] s2_def]
  note a3 = take_pending_spec [OF conjunct1 [OF a2] t]
  have "map_of (ms_pending s1) = map_of (ms_pending s) |` kept_waiting now s" using a1 by blast
  then have g1: "ages s1 \<subseteq> ages s" using ran_restrict_sub by (metis ages_sub)
  have g2: "ages s2 = ages s1" using a2 by (simp add: ages_def)
  have "map_of (ms_pending s3) = map_of (ms_pending s2) |` (- named nodes)" using a3 by blast
  then have g3: "ages s3 \<subseteq> ages s2" using ran_restrict_sub by (metis ages_sub)
  have "set ps = {p. \<exists>k \<in> named nodes. map_of (ms_pending s2) k = Some p}" using a3 by blast
  then have g4: "pk_at ` set ps \<subseteq> ages s2" by (auto simp: ages_def ran_def)
  have "ages s3 \<union> pk_at ` set ps \<subseteq> ages s" using g1 g3 g4 unfolding g2 by (meson Un_least order_trans)
  then have sub: "ages (fold retry_parked ps s3) \<subseteq> ages s" by (rule order_trans [OF ages_retries])
  have "upsert_batch_locked now nodes edges orig s = fold (batch_edge now orig) edges (fold retry_parked ps s3)"
    unfolding upsert_batch_locked_def Let_def s1_def [symmetric] s2_def [symmetric] t by simp
  then show ?thesis using ages_batch_edges [of now orig edges "fold retry_parked ps s3"] sub by (simp only:) blast
qed

lemma kept_all:
  assumes "\<forall>t \<in> ages s. now - t \<le> pending_edge_ttl"
  shows "kept_waiting now s = dom (map_of (ms_pending s))"
proof
  show "kept_waiting now s \<subseteq> dom (map_of (ms_pending s))" by (auto simp: kept_waiting_def)
  show "dom (map_of (ms_pending s)) \<subseteq> kept_waiting now s"
  proof
    fix k
    assume "k \<in> dom (map_of (ms_pending s))"
    then obtain p where p: "map_of (ms_pending s) k = Some p" by blast
    then have "pk_at p \<in> ages s" by (auto simp: ages_def ran_def)
    then show "k \<in> kept_waiting now s" using p assms by (auto simp: kept_waiting_def)
  qed
qed

text \<open>What a store that has heard these nodes and edges holds.\<close>

definition settled :: "string set \<Rightarrow> edge_key set \<Rightarrow> mem_store \<Rightarrow> bool" where
  "settled ids ks s \<longleftrightarrow> dom (map_of (ms_nodes s)) = ids \<and>
     dom (map_of (ms_edges s)) = {k \<in> ks. both_in ids k} \<and> dom (map_of (ms_pending s)) = {k \<in> ks. \<not> both_in ids k}"

lemma run_batches_settled:
  "ms_ok s \<Longrightarrow> waits s \<Longrightarrow> settled ids ks s \<Longrightarrow>
   \<forall>b \<in> set bs. \<forall>t \<in> ages s \<union> wb_now ` set bs. wb_now b - t \<le> pending_edge_ttl \<Longrightarrow>
   settled (ids \<union> batch_ids bs) (ks \<union> batch_keys bs) (run_batches bs s)"
proof (induction bs arbitrary: s ids ks)
  case Nil
  then show ?case by (simp add: run_batches_def batch_ids_def batch_keys_def)
next
  case (Cons b bs)
  let ?s = "upsert_batch_locked (wb_now b) (wb_nodes b) (wb_edges b) (wb_from b) s"
  let ?ids = "ids \<union> n_id ` set (wb_nodes b)" and ?ks = "ks \<union> edge_key ` set (wb_edges b)"
  note sp = batch_spec [OF Cons.prems(1,2), of "wb_now b" "wb_nodes b" "wb_edges b" "wb_from b"]
  have kept: "kept_waiting (wb_now b) s = dom (map_of (ms_pending s))"
    by (rule kept_all) (use Cons.prems(4) in auto)
  have ids: "dom (map_of (ms_nodes s)) = ids" and ed: "dom (map_of (ms_edges s)) = {k \<in> ks. both_in ids k}"
    and pd: "dom (map_of (ms_pending s)) = {k \<in> ks. \<not> both_in ids k}" using Cons.prems(3) by (simp_all add: settled_def)
  have mono: "both_in ids k \<Longrightarrow> both_in ?ids k" for k by (auto simp: both_in_def)
  have st: "settled ?ids ?ks ?s"
  proof -
    have a: "dom (map_of (ms_nodes ?s)) = ?ids" using sp ids by (elim conjE) (simp only:)
    have b: "dom (map_of (ms_edges ?s)) = dom (map_of (ms_edges s)) \<union> {k \<in> dom (map_of (ms_pending s)) \<union> edge_key ` set (wb_edges b). both_in ?ids k}"
      "dom (map_of (ms_pending ?s)) = {k \<in> dom (map_of (ms_pending s)) \<union> edge_key ` set (wb_edges b). \<not> both_in ?ids k}"
      using sp unfolding kept ids by blast+
    show ?thesis unfolding settled_def a b ed pd using mono by blast
  qed
  have old: "ages ?s \<subseteq> insert (wb_now b) (ages s)" using ages_batch [OF Cons.prems(1)] .
  have "settled (?ids \<union> batch_ids bs) (?ks \<union> batch_keys bs) (run_batches bs ?s)"
    by (rule Cons.IH) (use sp st old Cons.prems(4) in auto)
  moreover have "?ids \<union> batch_ids bs = ids \<union> batch_ids (b # bs)" "?ks \<union> batch_keys bs = ks \<union> batch_keys (b # bs)"
    by (auto simp: batch_ids_def batch_keys_def)
  ultimately show ?case by (simp add: run_batches_def)
qed

lemma batches_order_free:
  assumes "\<forall>b \<in> set bs. \<forall>b' \<in> set bs. wb_now b - wb_now b' \<le> pending_edge_ttl"
  shows "settled (batch_ids bs) (batch_keys bs) (run_batches bs new_mem)"
proof -
  have "settled {} {} new_mem" by (simp add: settled_def new_mem_def)
  moreover have "ages new_mem = {}" by (simp add: ages_def new_mem_def)
  ultimately show ?thesis using run_batches_settled [of new_mem "{}" "{}" bs] new_mem_ok assms by auto
qed

section \<open>What each element holds\<close>

text \<open>
  The writes of one node and of one edge, in the order they came. A node ends as the merge of
  its writes. An edge ends as its last write when every write states it or every write infers
  it; a waiting edge always does, since parking replaces what was parked.
\<close>

definition node_writes :: "write_batch list \<Rightarrow> string \<Rightarrow> node list" where
  "node_writes bs i = filter (\<lambda>n. n_id n = i) (concat (map wb_nodes bs))"

definition edge_writes :: "write_batch list \<Rightarrow> edge_key \<Rightarrow> edge list" where
  "edge_writes bs k = filter (\<lambda>e. edge_key e = k) (concat (map wb_edges bs))"

definition merge_all :: "node list \<Rightarrow> node option \<Rightarrow> node option" where
  "merge_all = fold (\<lambda>n old. Some (merge_node old n))"

definition land_all :: "edge list \<Rightarrow> edge option \<Rightarrow> edge option" where
  "land_all = fold (\<lambda>e old. Some (land_edge old e))"

definition latest :: "'a list \<Rightarrow> 'a option \<Rightarrow> 'a option" where
  "latest xs old = (if xs = [] then old else Some (last xs))"

definition one_kind :: "edge list \<Rightarrow> bool" where
  "one_kind es \<longleftrightarrow> (\<forall>e \<in> set es. inferred e) \<or> (\<forall>e \<in> set es. \<not> inferred e)"

definition parked_edge :: "mem_store \<Rightarrow> edge_key \<Rightarrow> edge option" where
  "parked_edge s k = map_option pk_edge (map_of (ms_pending s) k)"

definition told :: "write_batch list \<Rightarrow> mem_store \<Rightarrow> bool" where
  "told bs s \<longleftrightarrow>
     (\<forall>i. map_of (ms_nodes s) i = merge_all (node_writes bs i) None) \<and>
     (\<forall>k. parked_edge s k = (if both_in (batch_ids bs) k then None else latest (edge_writes bs k) None)) \<and>
     (\<forall>k. one_kind (edge_writes bs k) \<longrightarrow>
        map_of (ms_edges s) k = (if both_in (batch_ids bs) k then latest (edge_writes bs k) None else None))"

lemma latest_simps [simp]: "latest [] old = old" "latest (x # xs) old = latest xs (Some x)"
  "latest (xs @ ys) old = latest ys (latest xs old)"
  by (simp_all add: latest_def)

lemma latest_same: "set xs \<subseteq> {x} \<Longrightarrow> latest xs (Some x) = Some x"
  by (cases xs rule: rev_cases) auto

lemma land_all_latest:
  "one_kind es \<Longrightarrow> (\<And>x. old = Some x \<Longrightarrow> one_kind (x # es)) \<Longrightarrow> land_all es old = latest es old"
proof (induction es arbitrary: old)
  case Nil
  then show ?case by (simp add: land_all_def)
next
  case (Cons e es)
  have "land_edge old e = e" using Cons.prems(2) by (auto simp: land_edge_def supersedes_def one_kind_def split: option.split)
  then have "land_all (e # es) old = land_all es (Some e)" by (simp add: land_all_def)
  moreover have "land_all es (Some e) = latest es (Some e)"
    by (rule Cons.IH) (use Cons.prems(1) in \<open>auto simp: one_kind_def\<close>)
  ultimately show ?case by simp
qed

lemma nodes_merged:
  "map_of (ms_nodes (fold (batch_node orig) ns s)) i = merge_all (filter (\<lambda>n. n_id n = i) ns) (map_of (ms_nodes s) i)"
  by (induction ns arbitrary: s) (simp_all add: merge_all_def batch_node_facts map_of_update)

text \<open>A list of landings, as \<open>f\<close> does each: of the edges of one key, each lands on the one before, or is parked over it.\<close>

lemma landings_contents:
  assumes f: "\<And>x s. ms_nodes (f x s) = ms_nodes s" "\<And>x s. ms_edges (f x s) = ms_edges (land_or_park (ed x) (tm x) s)"
    "\<And>x s. ms_pending (f x s) = ms_pending (land_or_park (ed x) (tm x) s)"
  shows "map_of (ms_edges (fold f xs s)) k =
      (if both_in (dom (map_of (ms_nodes s))) k then land_all (filter (\<lambda>e. edge_key e = k) (map ed xs)) (map_of (ms_edges s) k)
       else map_of (ms_edges s) k)"
    and "parked_edge (fold f xs s) k =
      (if both_in (dom (map_of (ms_nodes s))) k then parked_edge s k
       else latest (filter (\<lambda>e. edge_key e = k) (map ed xs)) (parked_edge s k))"
  by (induction xs arbitrary: s)
    (auto simp: land_all_def f parked_edge_def land_or_park_def ends_known_dom map_of_update)

lemma landings_nodes: "(\<And>x s. ms_nodes (f x s) = ms_nodes s) \<Longrightarrow> ms_nodes (fold f xs s) = ms_nodes s"
  by (induction xs arbitrary: s) simp_all

lemma batch_contents:
  fixes now :: gotime and nodes :: "node list" and edges :: "edge list" and orig :: "origin option"
  assumes ok: "ms_ok s" and w: "waits s" and kept: "kept_waiting now s = dom (map_of (ms_pending s))"
  defines "s' \<equiv> upsert_batch_locked now nodes edges orig s"
  defines "ids \<equiv> dom (map_of (ms_nodes s)) \<union> n_id ` set nodes"
  shows "map_of (ms_nodes s') i = merge_all (filter (\<lambda>n. n_id n = i) nodes) (map_of (ms_nodes s) i)"
    and "parked_edge s' k = (if both_in ids k then None else latest (filter (\<lambda>e. edge_key e = k) edges) (parked_edge s k))"
    and "map_of (ms_edges s') k = (if both_in ids k then land_all (filter (\<lambda>e. edge_key e = k) edges)
        (case parked_edge s k of Some e \<Rightarrow> Some e | None \<Rightarrow> map_of (ms_edges s) k) else None)"
proof -
  define s1 where "s1 = sweep_pending now s"
  define s2 where "s2 = fold (batch_node orig) nodes s1"
  obtain ps s3 where t: "take_pending nodes s2 = (ps, s3)" by (cases "take_pending nodes s2")
  define s4 where "s4 = fold retry_parked ps s3"
  have s': "s' = fold (batch_edge now orig) edges s4"
    by (simp add: s'_def upsert_batch_locked_def Let_def s1_def s2_def s4_def t flip: s1_def s2_def)
  note a1 = sweep_pending_spec [OF ok, of now, folded s1_def]
  note a2 = batch_nodes_spec [OF conjunct1 [OF a1] s2_def]
  note a3 = take_pending_spec [OF conjunct1 [OF a2] t]
  note a4 = landings_contents [of retry_parked pk_edge pk_at ps s3 k, folded s4_def]
  note a5 = landings_contents [of "batch_edge now orig" "\<lambda>e. e" "\<lambda>e. now" edges s4 k, folded s']
  let ?F = "filter (\<lambda>e. edge_key e = k) (map pk_edge ps)" and ?es = "filter (\<lambda>e. edge_key e = k) edges"
  have n4: "ms_nodes s4 = ms_nodes s3" and n': "ms_nodes s' = ms_nodes s4"
    unfolding s4_def s' by (simp_all add: landings_nodes retry_parked_eq batch_edge_facts)
  have n3: "ms_nodes s3 = ms_nodes s2" and d: "dom (map_of (ms_nodes s3)) = ids" "dom (map_of (ms_nodes s4)) = ids" "dom (map_of (ms_nodes s')) = ids"
    using a1 a2 a3 n4 n' by (simp_all add: ids_def)
  show "map_of (ms_nodes s') i = merge_all (filter (\<lambda>n. n_id n = i) nodes) (map_of (ms_nodes s) i)"
    using a1 by (simp add: n' n4 n3 s2_def nodes_merged)
  have p2: "map_of (ms_pending s2) = map_of (ms_pending s)" using a1 a2 kept by (simp add: restrict_map_def fun_eq_iff dom_def)
  have p3: "parked_edge s3 k = (if k \<in> named nodes then None else parked_edge s k)"
    using a3 p2 by (simp add: parked_edge_def restrict_map_def)
  have key: "edge_key (pk_edge p) = k'" if "map_of (ms_pending s) k' = Some p" for k' p
    using ok that by (simp add: ms_ok_defs)
  have "set ps = {p. \<exists>k \<in> named nodes. map_of (ms_pending s) k = Some p}" using a3 p2 by simp
  then have F: "set ?F = (if k \<in> named nodes then set_option (parked_edge s k) else {})"
    using key by (auto simp: parked_edge_def image_iff) (metis+)?
  have again: "?F \<noteq> []" "latest ?F None = Some e" "one_kind ?F" if "k \<in> named nodes" "parked_edge s k = Some e" for e
    using that F latest_same [of ?F e] by (cases ?F; auto simp: one_kind_def)+
  have gone: "map_of (ms_edges s) k = None" if "\<not> both_in (dom (map_of (ms_nodes s))) k"
    using ok that by (auto simp: ms_ok_defs both_in_def dom_def)
  have e3: "map_of (ms_edges s3) k = map_of (ms_edges s) k" using a1 a2 a3 by simp
  have step4: "map_of (ms_edges s4) k = (if both_in ids k then land_all ?F (map_of (ms_edges s) k) else map_of (ms_edges s) k)"
    "parked_edge s4 k = (if both_in ids k then parked_edge s3 k else latest ?F (parked_edge s3 k))"
    using a4 d e3 by (simp_all add: retry_parked_eq)
  have step': "map_of (ms_edges s') k = (if both_in ids k then land_all ?es (map_of (ms_edges s4) k) else map_of (ms_edges s4) k)"
    "parked_edge s' k = (if both_in ids k then parked_edge s4 k else latest ?es (parked_edge s4 k))"
    using a5 d by (simp_all add: batch_edge_facts)
  have waits': "both_in ids k \<Longrightarrow> parked_edge s' k = None"
    using batch_spec [OF ok w, of now nodes edges orig] d(3)
    by (auto simp: s'_def [symmetric] parked_edge_def dom_waits both_in_def)
  have old: "\<not> both_in ids k \<Longrightarrow> map_of (ms_edges s) k = None" by (rule gone) (auto simp: ids_def both_in_def)
  have "latest ?F (parked_edge s3 k) = parked_edge s k"
    using F again by (cases "parked_edge s k") (auto simp: p3 split: if_splits)
  then show "parked_edge s' k = (if both_in ids k then None else latest ?es (parked_edge s k))"
    using waits' step' step4 by simp
  have "both_in ids k \<Longrightarrow> parked_edge s k = Some e \<Longrightarrow> k \<in> named nodes \<and> map_of (ms_edges s) k = None" for e
    using w gone by (auto simp: dom_waits parked_edge_def both_in_def ids_def named_def)
  then have "both_in ids k \<Longrightarrow> land_all ?F (map_of (ms_edges s) k) = (case parked_edge s k of Some e \<Rightarrow> Some e | None \<Rightarrow> map_of (ms_edges s) k)"
    using F again land_all_latest [of ?F None] by (cases "parked_edge s k") (auto simp: land_all_def split: if_splits)
  then show "map_of (ms_edges s') k = (if both_in ids k then land_all ?es
        (case parked_edge s k of Some e \<Rightarrow> Some e | None \<Rightarrow> map_of (ms_edges s) k) else None)"
    using step' step4 old by simp
qed

lemma writes_snoc:
  "node_writes (bs @ [b]) i = node_writes bs i @ filter (\<lambda>n. n_id n = i) (wb_nodes b)"
  "edge_writes (bs @ [b]) k = edge_writes bs k @ filter (\<lambda>e. edge_key e = k) (wb_edges b)"
  "batch_ids (bs @ [b]) = batch_ids bs \<union> n_id ` set (wb_nodes b)"
  by (auto simp: node_writes_def edge_writes_def batch_ids_def)

lemma latest_in: "latest xs None = Some x \<Longrightarrow> x \<in> set xs"
  by (auto simp: latest_def split: if_splits)

lemma one_kind_sub: "one_kind xs \<Longrightarrow> set ys \<subseteq> set xs \<Longrightarrow> one_kind ys"
  by (auto simp: one_kind_def)

lemma run_ages: "ms_ok s \<Longrightarrow> waits s \<Longrightarrow> ms_ok (run_batches bs s) \<and> waits (run_batches bs s) \<and>
    ages (run_batches bs s) \<subseteq> ages s \<union> wb_now ` set bs"
proof (induction bs rule: rev_induct)
  case Nil
  then show ?case by (simp add: run_batches_def)
next
  case (snoc b bs)
  then have "ms_ok (run_batches bs s)" "waits (run_batches bs s)" "ages (run_batches bs s) \<subseteq> ages s \<union> wb_now ` set bs" by blast+
  then show ?case
    using batch_spec [of "run_batches bs s" "wb_now b" "wb_nodes b" "wb_edges b" "wb_from b"]
      ages_batch [of "run_batches bs s" "wb_now b" "wb_nodes b" "wb_edges b" "wb_from b"]
    by (auto simp: run_batches_def)
qed

lemma batches_contents:
  "\<forall>b \<in> set bs. \<forall>b' \<in> set bs. wb_now b - wb_now b' \<le> pending_edge_ttl \<Longrightarrow> told bs (run_batches bs new_mem)"
proof (induction bs rule: rev_induct)
  case Nil
  then show ?case by (simp add: run_batches_def told_def new_mem_def node_writes_def edge_writes_def merge_all_def parked_edge_def)
next
  case (snoc b bs)
  let ?s = "run_batches bs new_mem"
  have r: "ms_ok ?s" "waits ?s" "ages ?s \<subseteq> wb_now ` set bs"
    using run_ages [of new_mem bs] new_mem_ok by (auto simp: ages_def new_mem_def)
  have IH: "told bs ?s" by (rule snoc.IH) (use snoc.prems in auto)
  have ids: "dom (map_of (ms_nodes ?s)) = batch_ids bs"
    using batches_order_free [of bs] snoc.prems by (auto simp: settled_def)
  have kept: "kept_waiting (wb_now b) ?s = dom (map_of (ms_pending ?s))"
    by (rule kept_all) (use r(3) snoc.prems in auto)
  note c = batch_contents [OF r(1,2) kept, of "wb_nodes b" "wb_edges b" "wb_from b", unfolded ids, folded writes_snoc(3)]
  have run: "run_batches (bs @ [b]) new_mem = upsert_batch_locked (wb_now b) (wb_nodes b) (wb_edges b) (wb_from b) ?s"
    by (simp add: run_batches_def)
  have mono: "both_in (batch_ids bs) k \<Longrightarrow> both_in (batch_ids (bs @ [b])) k" for k by (auto simp: both_in_def writes_snoc)
  show ?case
    unfolding told_def run
  proof (intro conjI allI impI)
    show "map_of (ms_nodes (upsert_batch_locked (wb_now b) (wb_nodes b) (wb_edges b) (wb_from b) ?s)) i =
        merge_all (node_writes (bs @ [b]) i) None" for i
      using IH by (simp add: c told_def writes_snoc merge_all_def)
    show "parked_edge (upsert_batch_locked (wb_now b) (wb_nodes b) (wb_edges b) (wb_from b) ?s) k =
        (if both_in (batch_ids (bs @ [b])) k then None else latest (edge_writes (bs @ [b]) k) None)" for k
      using IH mono [of k] by (auto simp: c told_def writes_snoc)
    fix k
    assume k: "one_kind (edge_writes (bs @ [b]) k)"
    let ?es = "filter (\<lambda>e. edge_key e = k) (wb_edges b)" and ?W = "edge_writes bs k"
    have "one_kind ?W" "one_kind ?es" and ones: "\<And>x. latest ?W None = Some x \<Longrightarrow> one_kind (x # ?es)"
      using k latest_in [of ?W] by (auto intro: one_kind_sub simp: writes_snoc)
    then have "(case parked_edge ?s k of Some e \<Rightarrow> Some e | None \<Rightarrow> map_of (ms_edges ?s) k) = latest ?W None"
      using IH by (auto simp: told_def split: option.split)
    then show "map_of (ms_edges (upsert_batch_locked (wb_now b) (wb_nodes b) (wb_edges b) (wb_from b) ?s)) k =
        (if both_in (batch_ids (bs @ [b])) k then latest (edge_writes (bs @ [b]) k) None else None)"
      using land_all_latest [OF \<open>one_kind ?es\<close> ones] by (simp add: c writes_snoc)
  qed
qed

text \<open>Writes that agree leave what they say.\<close>

lemma update_fresh: "k \<notin> fst ` set m \<Longrightarrow> AList.update k v m = m @ [(k, v)]"
  by (induction m) auto

lemma overlay_fresh:
  "distinct (map fst a) \<Longrightarrow> fst ` set a \<inter> fst ` set m = {} \<Longrightarrow> fold (\<lambda>(k, v) m. AList.update k v m) a m = m @ a"
proof (induction a arbitrary: m)
  case (Cons kv a)
  obtain k v where kv: "kv = (k, v)" by (cases kv)
  have "AList.update k v m = m @ [(k, v)]" using Cons.prems(2) by (intro update_fresh) (simp add: kv)
  then show ?case using Cons.IH [of "m @ [(k, v)]"] Cons.prems by (auto simp: kv)
qed simp

lemma overlay_same: "\<forall>(k, v) \<in> set b. map_of m k = Some v \<Longrightarrow> fold (\<lambda>(k, v) m. AList.update k v m) b m = m"
  by (induction b) (auto simp: update_same)

lemma merge_node_same: "gm_ok (n_props n) \<Longrightarrow> merge_node (Some n) n = n"
  using overlay_fresh [of "n_props n" "[]"] overlay_same [of "n_props n" "n_props n"]
  by (auto simp: merge_node_def merge_props_def gm_ok_def)

lemma merge_all_same: "set ns = {n} \<Longrightarrow> gm_ok (n_props n) \<Longrightarrow> merge_all ns None = Some n"
proof -
  assume ns: "set ns = {n}" and ok: "gm_ok (n_props n)"
  have "merge_all ms (Some n) = Some n" if "set ms \<subseteq> {n}" for ms
    using that ok by (induction ms) (simp_all add: merge_all_def merge_node_same)
  then show ?thesis using ns by (cases ns) (auto simp: merge_all_def merge_node_def)
qed

lemma told_agreed:
  assumes "told bs s"
  shows "set (node_writes bs i) = {n} \<Longrightarrow> gm_ok (n_props n) \<Longrightarrow> map_of (ms_nodes s) i = Some n"
    and "set (edge_writes bs k) = {e} \<Longrightarrow> map_of (ms_edges s) k = (if both_in (batch_ids bs) k then Some e else None) \<and>
      parked_edge s k = (if both_in (batch_ids bs) k then None else Some e)"
proof -
  show "set (node_writes bs i) = {n} \<Longrightarrow> gm_ok (n_props n) \<Longrightarrow> map_of (ms_nodes s) i = Some n"
    using assms merge_all_same by (simp add: told_def)
  assume e: "set (edge_writes bs k) = {e}"
  then have "latest (edge_writes bs k) None = Some e" "one_kind (edge_writes bs k)"
    using latest_same [of "edge_writes bs k" e] by (cases "edge_writes bs k"; auto simp: one_kind_def)+
  then show "map_of (ms_edges s) k = (if both_in (batch_ids bs) k then Some e else None) \<and>
      parked_edge s k = (if both_in (batch_ids bs) k then None else Some e)"
    using assms by (simp add: told_def)
qed

section \<open>The counters move with the graph\<close>

definition mem_caps :: "gotime \<Rightarrow> mem_store capabilities" where
  "mem_caps now = \<lparr>cap_node = ms_node_op, cap_edge = ms_edge_op, cap_batch = Some (ms_upsert_batch now),
     cap_from = Some (ms_upsert_batch_from now)\<rparr>"

inductive vs_step :: "mem_store versioned \<Rightarrow> mem_store versioned \<Rightarrow> bool" where
  vs_node: "vs_step vs (snd (v_upsert_node (mem_caps now) n vs))"
| vs_edge: "vs_step vs (snd (v_upsert_edge (mem_caps now) e vs))"
| vs_batch: "vs_step vs (snd (v_upsert_batch (mem_caps now) ns es vs))"
| vs_from: "vs_step vs (snd (v_upsert_batch_from (mem_caps now) orig ns es vs))"
| vs_sweep: "vs_step vs (snd (snd (v_sweep (Some (ms_sweep now source scope taken)) vs)))"
| vs_prune: "vs_step vs (snd (snd (v_prune (Some (ms_prune before)) vs)))"

definition graph_of :: "mem_store \<Rightarrow> (string \<Rightarrow> node option) \<times> (edge_key \<Rightarrow> edge option)" where
  "graph_of s = (map_of (ms_nodes s), map_of (ms_edges s))"

definition kept_graph :: "mem_store \<Rightarrow> mem_store \<Rightarrow> bool" where
  "kept_graph s s' \<longleftrightarrow> dom (map_of (ms_nodes s)) \<subseteq> dom (map_of (ms_nodes s')) \<and> dom (map_of (ms_edges s)) \<subseteq> dom (map_of (ms_edges s'))"

lemma finite_sub_dom: "A \<subseteq> dom (map_of m) \<Longrightarrow> finite A"
  by (rule finite_subset [OF _ finite_dom_map_of])

lemma kept_graph_same: "graph_of s' = graph_of s \<Longrightarrow> kept_graph s s'"
  by (simp add: graph_of_def kept_graph_def)

lemma kept_graph_trans: "kept_graph s1 s2 \<Longrightarrow> kept_graph s2 s3 \<Longrightarrow> kept_graph s1 s3"
  unfolding kept_graph_def by (meson order_trans)

lemma restrict_disjoint: "A \<inter> dom m = {} \<Longrightarrow> m |` (- A) = m"
proof (rule ext)
  fix x
  assume "A \<inter> dom m = {}"
  then show "(m |` (- A)) x = m x" by (cases "m x") (auto simp: restrict_map_def dom_def)
qed

lemma empty_batch: "ms_ok s \<Longrightarrow> graph_of (upsert_batch_locked now [] [] orig s) = graph_of s"
  using sweep_pending_spec [of s now] by (simp add: upsert_batch_locked_def graph_of_def)

lemma swept_none:
  assumes ok: "ms_ok s" and run: "ms_sweep now source scope taken s = (st, err, s')" and none: "\<not> swept_any st"
  shows "graph_of s' = graph_of s"
proof (cases "scope = []")
  case True
  then show ?thesis using run by (simp add: sweep_refused)
next
  case False
  let ?key = "(source, scope)"
  note sp = sweep_spec [OF ok False run]
  have fin: "finite (swept_nodes ?key taken s)" "finite (swept_edges ?key taken s)" "finite (uprooted ?key taken s)"
    by (simp_all add: swept_nodes_def swept_edges_def uprooted_def finite_dom_map_of)
  have "card (swept_nodes ?key taken s) = 0" "card (swept_edges ?key taken s \<inter> dom (map_of (ms_edges s))) = 0"
    using sp none by (simp_all add: swept_any_def)
  then have e: "swept_nodes ?key taken s = {}" "swept_edges ?key taken s \<inter> dom (map_of (ms_edges s)) = {}" using fin by simp_all
  then have "uprooted ?key taken s = {}" by (simp add: uprooted_def touching_def)
  moreover have "map_of (ms_nodes s') = map_of (ms_nodes s) |` (- swept_nodes ?key taken s)"
    "map_of (ms_edges s') = map_of (ms_edges s) |` (- swept_edges ?key taken s - uprooted ?key taken s)" using sp by blast+
  ultimately show ?thesis using e restrict_disjoint [of "{}" "map_of (ms_nodes s)"] by (simp add: graph_of_def restrict_disjoint)
qed

lemma pruned_none:
  assumes ok: "ms_ok s" and run: "ms_prune before s = (st, err, s')" and none: "ps_nodes st + ps_edges st = 0"
  shows "graph_of s' = graph_of s"
proof -
  note sp = prune_spec [OF ok run]
  have "finite (stale_edges (time_unix before) s)"
    by (rule finite_sub_dom [where m = "ms_edges s"]) (auto simp: stale_edges_def dom_map_of_conv_image_fst)
  moreover have "finite (stale_nodes (time_unix before) s)"
    by (rule finite_sub_dom [where m = "ms_nodes s"]) (auto simp: stale_nodes_def dom_map_of_conv_image_fst)
  ultimately have "stale_edges (time_unix before) s = {}" "stale_nodes (time_unix before) s = {}"
    using sp none by simp_all
  then show ?thesis using sp by (simp add: graph_of_def restrict_map_def fun_eq_iff)
qed

lemma vs_step_ok: "vs_step vs vs' \<Longrightarrow> mem_step (fst vs) (fst vs')"
proof (induction rule: vs_step.induct)
  case (vs_sweep vs now source scope taken)
  have "fst (snd (snd (v_sweep (Some (ms_sweep now source scope taken)) vs))) = snd (snd (ms_sweep now source scope taken (fst vs)))"
    by (simp add: v_sweep_def split: prod.split)
  then show ?case using sweep_step by metis
next
  case (vs_prune vs before)
  have "fst (snd (snd (v_prune (Some (ms_prune before)) vs))) = snd (snd (ms_prune before (fst vs)))"
    by (simp add: v_prune_def split: prod.split)
  then show ?case using prune_step by metis
next
  case (vs_node vs now n)
  have "fst (snd (v_upsert_node (mem_caps now) n vs)) = snd (ms_node_op n (fst vs))"
    by (simp add: v_upsert_node_def mem_caps_def split: prod.split)
  then show ?case using node_step by metis
next
  case (vs_edge vs now e)
  have "fst (snd (v_upsert_edge (mem_caps now) e vs)) = snd (ms_edge_op e (fst vs))"
    by (simp add: v_upsert_edge_def mem_caps_def split: prod.split)
  then show ?case using edge_step by metis
next
  case (vs_batch vs now ns es)
  have "fst (snd (v_upsert_batch (mem_caps now) ns es vs)) = snd (ms_upsert_batch now ns es (fst vs))"
    by (simp add: v_upsert_batch_def mem_caps_def split: prod.split)
  then show ?case using batch_step by metis
next
  case (vs_from vs now orig ns es)
  have "fst (snd (v_upsert_batch_from (mem_caps now) orig ns es vs)) = snd (ms_upsert_batch_from now orig ns es (fst vs))"
    by (simp add: v_upsert_batch_from_def mem_caps_def split: prod.split)
  then show ?case using from_step by metis
qed

lemma vs_step_counts:
  "vs_step vs vs' \<Longrightarrow> ms_ok (fst vs) \<Longrightarrow> snd vs \<le> snd vs' \<and> (snd vs' = snd vs \<longrightarrow> graph_of (fst vs') = graph_of (fst vs))"
proof (induction rule: vs_step.induct)
  case (vs_node vs now n)
  then show ?case by (simp add: v_upsert_node_def mem_caps_def ms_node_op_def count_if_def)
next
  case (vs_edge vs now e)
  then show ?case by (simp add: v_upsert_edge_def mem_caps_def ms_edge_op_def count_if_def)
next
  case (vs_batch vs now ns es)
  then show ?case
    by (simp add: v_upsert_batch_def mem_caps_def ms_upsert_batch_def count_if_def landed_def empty_batch)
next
  case (vs_from vs now orig ns es)
  then show ?case
    by (simp add: v_upsert_batch_from_def mem_caps_def ms_upsert_batch_from_def count_if_def landed_def empty_batch)
next
  case (vs_sweep vs now source scope taken)
  obtain st err s' where r: "ms_sweep now source scope taken (fst vs) = (st, err, s')" by (cases "ms_sweep now source scope taken (fst vs)")
  then have "err = None \<or> s' = fst vs" using sweep_spec [OF vs_sweep _ r] sweep_refused by (cases "scope = []") auto
  then show ?case using r swept_none [OF vs_sweep r] by (auto simp: v_sweep_def count_if_def)
next
  case (vs_prune vs before)
  obtain st err s' where r: "ms_prune before (fst vs) = (st, err, s')" by (cases "ms_prune before (fst vs)")
  then show ?case using prune_spec [OF vs_prune r] pruned_none [OF vs_prune r] by (auto simp: v_prune_def count_if_def)
qed

lemma vs_steps_count:
  "vs_step\<^sup>*\<^sup>* vs vs' \<Longrightarrow> ms_ok (fst vs) \<Longrightarrow> ms_ok (fst vs') \<and> snd vs \<le> snd vs' \<and> (snd vs' = snd vs \<longrightarrow> graph_of (fst vs') = graph_of (fst vs))"
proof (induction rule: rtranclp_induct)
  case base
  then show ?case by simp
next
  case (step vs1 vs2)
  then show ?case using vs_step_counts [OF step.hyps(2)] mem_step_ok [OF vs_step_ok [OF step.hyps(2)]] by auto
qed

lemma batch_keeps:
  assumes ok: "ms_ok s"
  shows "kept_graph s (upsert_batch_locked now ns es orig s) \<and> ms_removals (upsert_batch_locked now ns es orig s) = ms_removals s"
proof -
  define s1 where "s1 = sweep_pending now s"
  define s2 where "s2 = fold (batch_node orig) ns s1"
  obtain ps s3 where t: "take_pending ns s2 = (ps, s3)" by (cases "take_pending ns s2")
  define s4 where "s4 = fold retry_parked ps s3"
  note a1 = sweep_pending_spec [OF ok, of now, folded s1_def]
  note a2 = batch_nodes_spec [OF conjunct1 [OF a1] s2_def]
  note a3 = take_pending_spec [OF conjunct1 [OF a2] t]
  have ok3: "ms_ok s3" using a3 by blast
  note a4 = retries_spec [OF ok3 s4_def]
  note a5 = batch_edges_spec [OF conjunct1 [OF a4] refl, of now orig es]
  have eq: "upsert_batch_locked now ns es orig s = fold (batch_edge now orig) es s4"
    unfolding upsert_batch_locked_def Let_def s1_def [symmetric] s2_def [symmetric] t by (simp add: s4_def)
  have "dom (map_of (ms_nodes s)) \<subseteq> dom (map_of (ms_nodes s2))" "ms_edges s3 = ms_edges s" "ms_nodes s3 = ms_nodes s2"
    using a1 a2 a3 by auto
  then show ?thesis unfolding eq kept_graph_def using a1 a2 a3 a4 a5 by auto
qed

lemma mem_step_epoch:
  "mem_step s s' \<Longrightarrow> ms_ok s \<Longrightarrow> ms_removals s \<le> ms_removals s' \<and> (ms_removals s' = ms_removals s \<longrightarrow> kept_graph s s')"
proof (induction rule: mem_step.induct)
  case (node_step s n)
  then show ?case by (auto simp: ms_node_op_def kept_graph_def map_of_update)
next
  case (edge_step s e)
  then show ?case by (auto simp: ms_edge_op_def kept_graph_def map_of_update)
next
  case (batch_step s now ns es)
  then show ?case by (simp add: ms_upsert_batch_def batch_keeps)
next
  case (from_step s now orig ns es)
  then show ?case by (simp add: ms_upsert_batch_from_def batch_keeps)
next
  case (sweep_step s now source scope taken)
  obtain st err s' where r: "ms_sweep now source scope taken s = (st, err, s')" by (cases "ms_sweep now source scope taken s")
  have "ms_removals s' = ms_removals s + (if scope \<noteq> [] \<and> swept_any st then 1 else 0)"
    using r sweep_spec [OF sweep_step _ r] by (cases "scope = []") (auto simp: sweep_refused)
  moreover have "\<not> swept_any st" if "scope = []" using r that by (auto simp: sweep_refused no_sweep_def swept_any_def)
  ultimately show ?case using swept_none [OF sweep_step r] by (cases "swept_any st") (auto simp: r kept_graph_same)
next
  case (prune_step s before)
  obtain st err s' where r: "ms_prune before s = (st, err, s')" by (cases "ms_prune before s")
  have "ms_removals s' = ms_removals s + (if ps_nodes st + ps_edges st > 0 then 1 else 0)" using prune_spec [OF prune_step r] by blast
  then show ?case using pruned_none [OF prune_step r] by (cases "ps_nodes st + ps_edges st = 0") (simp_all add: r kept_graph_same)
qed

lemma mem_steps_epoch:
  "mem_step\<^sup>*\<^sup>* s s' \<Longrightarrow> ms_ok s \<Longrightarrow> ms_ok s' \<and> ms_removals s \<le> ms_removals s' \<and> (ms_removals s' = ms_removals s \<longrightarrow> kept_graph s s')"
proof (induction rule: rtranclp_induct)
  case base
  then show ?case by (simp add: kept_graph_def)
next
  case (step s1 s2)
  then show ?case using mem_step_epoch [OF step.hyps(2)] mem_step_ok [OF step.hyps(2)] kept_graph_trans [of s s1 s2] by auto
qed

section \<open>Sweeps, element by element\<close>

text \<open>This source and scope assert the element, last before \<open>taken\<close>, and nobody else does.\<close>

definition asserted_only :: "origin_key \<Rightarrow> gotime \<Rightarrow> ('k, origins) gomap \<Rightarrow> 'k \<Rightarrow> bool" where
  "asserted_only key taken m k \<longleftrightarrow>
     (case map_of m k of Some os \<Rightarrow> dom (map_of os) = {key} \<and> (\<forall>t. map_of os key = Some t \<longrightarrow> t < taken) | None \<Rightarrow> False)"

lemma delete_empty: "AList.delete k os = [] \<longleftrightarrow> dom (map_of os) \<subseteq> {k}"
  by (auto simp: AList.delete_eq filter_empty_conv dom_map_of_conv_image_fst)

lemma all_withdrawn_dom: "all_withdrawn key taken os \<longleftrightarrow> dom (map_of os) = {key} \<and> (\<forall>t. map_of os key = Some t \<longrightarrow> t < taken)"
proof -
  have "all_withdrawn key taken os \<longleftrightarrow> (\<exists>t. map_of os key = Some t \<and> t < taken) \<and> dom (map_of os) \<subseteq> {key}"
    by (auto simp: all_withdrawn_def withdraw_def Let_def delete_empty split: option.splits)
  moreover have "dom (map_of os) \<noteq> {key}" if "map_of os key = None" using that by blast
  ultimately show ?thesis by (cases "map_of os key") auto
qed

lemma dead_keys_iff: "gm_ok m \<Longrightarrow> k \<in> dead_keys key taken m \<longleftrightarrow> asserted_only key taken m k"
proof -
  assume ok: "gm_ok m"
  show ?thesis
  proof (cases "map_of m k")
    case None
    then have "k \<notin> dead_keys key taken m" using dead_keys_sub [of key taken m] by (auto simp: map_of_eq_None_iff)
    then show ?thesis by (simp add: asserted_only_def None)
  next
    case (Some os)
    have "k \<in> dead_keys key taken m \<longleftrightarrow> all_withdrawn key taken os"
      by (rule dead_keys_at [OF ok Some])
    then show ?thesis by (simp add: asserted_only_def Some all_withdrawn_dom)
  qed
qed

lemma sweep_elements:
  fixes now taken :: gotime
  assumes ok: "ms_ok s" and scope: "scope \<noteq> []" and run: "ms_sweep now source scope taken s = (st, err, s')"
  defines "key \<equiv> (source, scope)"
  defines "left \<equiv> \<lambda>i. map_of (ms_nodes s) i \<noteq> None \<and> asserted_only key taken (ms_node_org s) i"
    and "dead \<equiv> asserted_only key taken (ms_edge_org s)"
  shows "err = None \<and> ms_ok s' \<and> map_of (ms_nodes s') = (\<lambda>i. if left i then None else map_of (ms_nodes s) i) \<and>
     map_of (ms_edges s') = (\<lambda>k. if dead k \<or> left (ek_from k) \<or> left (ek_to k) then None else map_of (ms_edges s) k) \<and>
     (\<forall>k. map_of (ms_pending s') k \<noteq> None \<longleftrightarrow> \<not> dead k \<and>
        (map_of (ms_pending s) k \<noteq> None \<or> map_of (ms_edges s) k \<noteq> None \<and> (left (ek_from k) \<or> left (ek_to k)) \<and> asserted s k))"
proof -
  note sp = sweep_spec [OF ok scope run, folded key_def]
  have orgs: "gm_ok (ms_node_org s)" "gm_ok (ms_edge_org s)" using ms_ok_orgs [OF ok] by simp_all
  have l: "i \<in> swept_nodes key taken s \<longleftrightarrow> left i" for i by (auto simp: swept_nodes_def dead_keys_iff [OF orgs(1)] left_def dom_def)
  have d: "k \<in> swept_edges key taken s \<longleftrightarrow> dead k" for k by (simp add: swept_edges_def dead_keys_iff [OF orgs(2)] dead_def)
  have u: "k \<in> uprooted key taken s \<longleftrightarrow> map_of (ms_edges s) k \<noteq> None \<and> (left (ek_from k) \<or> left (ek_to k)) \<and> \<not> dead k" for k
    by (auto simp: uprooted_def touching_def l d dom_def)
  have "map_of (ms_nodes s') = map_of (ms_nodes s) |` (- swept_nodes key taken s)" using sp by blast
  then have n: "map_of (ms_nodes s') = (\<lambda>i. if left i then None else map_of (ms_nodes s) i)" by (simp add: fun_eq_iff restrict_map_def l)
  have e0: "map_of (ms_edges s') = map_of (ms_edges s) |` (- swept_edges key taken s - uprooted key taken s)" using sp by blast
  have e: "map_of (ms_edges s') = (\<lambda>k. if dead k \<or> left (ek_from k) \<or> left (ek_to k) then None else map_of (ms_edges s) k)"
  proof
    fix k
    show "map_of (ms_edges s') k = (if dead k \<or> left (ek_from k) \<or> left (ek_to k) then None else map_of (ms_edges s) k)"
      unfolding e0 restrict_map_def by (cases "map_of (ms_edges s) k") (simp_all add: d u)
  qed
  have "dom (map_of (ms_pending s')) = (dom (map_of (ms_pending s)) - swept_edges key taken s) \<union> {k \<in> uprooted key taken s. asserted s k}"
    using sp by blast
  then have "map_of (ms_pending s') k \<noteq> None \<longleftrightarrow> \<not> dead k \<and> (map_of (ms_pending s) k \<noteq> None \<or>
      map_of (ms_edges s) k \<noteq> None \<and> (left (ek_from k) \<or> left (ek_to k)) \<and> asserted s k)" for k
    using d [of k] u [of k] unfolding dom_def by blast
  then show ?thesis using sp n e by blast
qed

section \<open>The promises\<close>

definition demo_host :: "string \<Rightarrow> node" where
  "demo_host i = \<lparr>n_id = i, n_label = ''Container'', n_name = i, n_props = []\<rparr>"

definition demo_link :: edge where
  "demo_link = \<lparr>e_type = ''CONNECTS_TO'', e_from = ''a'', e_to = ''b'', e_prob = 1, e_props = []\<rparr>"

definition demo_claim :: "gotime \<Rightarrow> origin" where
  "demo_claim t = \<lparr>or_source = ''scan'', or_scope = ''prod'', or_seen = t\<rparr>"

text \<open>C8. Whatever calls the in-memory store receives, in any order and with any arguments, every edge it shows has both
  its ends, elements sit under their own keys, and the index of parked edges lists exactly them.\<close>

theorem memory_invariant: "mem_step\<^sup>*\<^sup>* new_mem s \<Longrightarrow> ms_ok s"
  by (rule mem_steps_ok)

theorem memory_invariant_witness:
  "ms_ok (snd (ms_edge_op demo_link (snd (ms_upsert_batch 5 [demo_host ''a''] [demo_link] new_mem))))"
  by (rule memory_invariant) (meson rtranclp.rtrancl_into_rtrancl rtranclp.rtrancl_refl batch_step edge_step)

text \<open>C17. An edge is parked only while one of its ends is missing: after any history of batches, sweeps and
  prunes no parked edge could have landed.\<close>

theorem parked_only_while_waiting:
  "event_step\<^sup>*\<^sup>* new_mem s \<Longrightarrow> map_of (ms_pending s) k = Some p \<Longrightarrow>
     map_of (ms_nodes s) (ek_from k) = None \<or> map_of (ms_nodes s) (ek_to k) = None"
  using event_steps_waits [of s] by (auto simp: waits_def)

theorem parked_only_while_waiting_witness:
  "map_of (ms_nodes (snd (ms_upsert_batch 5 [demo_host ''a''] [demo_link] new_mem))) ''b'' = None"
proof -
  let ?s = "snd (ms_upsert_batch 5 [demo_host ''a''] [demo_link] new_mem)"
  have run: "event_step\<^sup>*\<^sup>* new_mem ?s" by (meson r_into_rtranclp ev_batch)
  have p: "map_of (ms_pending ?s) (edge_key demo_link) = Some \<lparr>pk_edge = demo_link, pk_at = 5\<rparr>"
    and a: "map_of (ms_nodes ?s) ''a'' \<noteq> None" by code_simp+
  have ends: "ek_from (edge_key demo_link) = ''a''" "ek_to (edge_key demo_link) = ''b''" by (simp_all add: demo_link_def)
  show ?thesis using parked_only_while_waiting [OF run p] a unfolding ends by blast
qed

text \<open>
  C3. Events may arrive in any order. When no parked edge can expire between them, a list of
  batches leaves in an empty store exactly the nodes they name, the edges they name that have
  both ends among those nodes, and the other edges parked, whatever the order. What each element
  holds depends on the order of its own writes alone: a node is the merge of its writes, a
  parked edge its last write, and an edge its last write when its writes are all stated or all
  inferred.
\<close>

theorem events_any_order:
  "\<forall>b \<in> set bs. \<forall>b' \<in> set bs. wb_now b - wb_now b' \<le> pending_edge_ttl \<Longrightarrow>
     settled (batch_ids bs) (batch_keys bs) (run_batches bs new_mem) \<and> told bs (run_batches bs new_mem)"
  by (simp add: batches_order_free batches_contents)

theorem events_any_order_witness:
  "map_of (ms_edges (run_batches [\<lparr>wb_now = 9, wb_nodes = [demo_host ''b''], wb_edges = [demo_link], wb_from = None\<rparr>,
      \<lparr>wb_now = 5, wb_nodes = [demo_host ''a''], wb_edges = [], wb_from = None\<rparr>] new_mem)) (edge_key demo_link) = Some demo_link"
proof -
  let ?bs = "[\<lparr>wb_now = 9, wb_nodes = [demo_host ''b''], wb_edges = [demo_link], wb_from = None\<rparr>,
      \<lparr>wb_now = 5, wb_nodes = [demo_host ''a''], wb_edges = [], wb_from = None\<rparr>]"
  have "edge_writes ?bs (edge_key demo_link) = [demo_link]" "both_in (batch_ids ?bs) (edge_key demo_link)" "one_kind [demo_link]"
    by (simp_all add: edge_writes_def batch_ids_def both_in_def one_kind_def demo_host_def demo_link_def)
  then show ?thesis using events_any_order [of ?bs] by (auto simp: told_def pending_edge_ttl_def second_ns_def)
qed

text \<open>
  A fact and a guess of the same edge are not so: parking asks no \<open>Supersedes\<close>, so a guess that
  arrives before the edge's ends replaces the fact it would only have refreshed after them.
\<close>

definition guessed :: "edge \<Rightarrow> edge" where
  "guessed e = e\<lparr>e_prob := 45/100, e_props := [(prop_resolution_method, GStr ''name'')]\<rparr>"

lemma parked_guess_replaces_fact:
  fixes hosts :: write_batch and fact :: write_batch and guess :: write_batch
  assumes "hosts = \<lparr>wb_now = 5, wb_nodes = [demo_host ''a'', demo_host ''b''], wb_edges = [], wb_from = None\<rparr>"
    and "fact = \<lparr>wb_now = 5, wb_nodes = [], wb_edges = [demo_link], wb_from = None\<rparr>"
    and "guess = \<lparr>wb_now = 5, wb_nodes = [], wb_edges = [guessed demo_link], wb_from = None\<rparr>"
  shows "map_of (ms_edges (run_batches [hosts, fact, guess] new_mem)) (edge_key demo_link) = Some demo_link"
    and "map_of (ms_edges (run_batches [fact, guess, hosts] new_mem)) (edge_key demo_link) = Some (guessed demo_link)"
  unfolding assms by code_simp+

text \<open>C12. A sweep removes exactly the nodes and edges that this source and scope alone still asserted and last before the
  inventory was taken, with the edges of the removed nodes; an edge of those that someone else
  still asserts is parked instead of lost.\<close>

theorem sweep_takes_the_withdrawn:
  assumes "ms_ok s" "scope \<noteq> []" "ms_sweep now source scope taken s = (st, err, s')"
    and "left = (\<lambda>i. map_of (ms_nodes s) i \<noteq> None \<and> asserted_only (source, scope) taken (ms_node_org s) i)"
    and "dead = asserted_only (source, scope) taken (ms_edge_org s)"
  shows "err = None \<and> ms_ok s' \<and> map_of (ms_nodes s') = (\<lambda>i. if left i then None else map_of (ms_nodes s) i) \<and>
     map_of (ms_edges s') = (\<lambda>k. if dead k \<or> left (ek_from k) \<or> left (ek_to k) then None else map_of (ms_edges s) k) \<and>
     (\<forall>k. map_of (ms_pending s') k \<noteq> None \<longleftrightarrow> \<not> dead k \<and>
        (map_of (ms_pending s) k \<noteq> None \<or> map_of (ms_edges s) k \<noteq> None \<and> (left (ek_from k) \<or> left (ek_to k)) \<and> asserted s k))"
  unfolding assms(4,5) by (rule sweep_elements [OF assms(1-3)])

theorem sweep_takes_the_withdrawn_witness:
  "map_of (ms_nodes (snd (snd (ms_sweep 9 ''scan'' ''prod'' 7
      (snd (ms_upsert_batch_from 5 (demo_claim 5) [demo_host ''a''] [] new_mem)))))) ''a'' = None"
proof -
  let ?s = "snd (ms_upsert_batch_from 5 (demo_claim 5) [demo_host ''a''] [] new_mem)"
  obtain st err s' where r: "ms_sweep 9 ''scan'' ''prod'' 7 ?s = (st, err, s')" by (cases "ms_sweep 9 ''scan'' ''prod'' 7 ?s")
  have ok: "ms_ok ?s" by (rule mem_step_ok [OF from_step]) (simp add: new_mem_ok)
  have "asserted_only (''scan'', ''prod'') 7 (ms_node_org ?s) ''a''"
  proof -
    have "map_of (ms_node_org ?s) ''a'' = Some [((''scan'', ''prod''), 5)]" by code_simp
    then show ?thesis by (auto simp: asserted_only_def)
  qed
  moreover have "map_of (ms_nodes ?s) ''a'' \<noteq> None" by code_simp
  ultimately show ?thesis using sweep_takes_the_withdrawn [OF ok _ r refl refl] r by simp
qed

text \<open>A prune removes exactly the elements last seen before the cutoff and the edges of the nodes it removes: what carries
  no stamp stays, and so does every parked edge.\<close>

theorem prune_takes_the_stale:
  assumes "ms_ok s" "ms_prune before s = (st, err, s')"
  shows "err = None \<and> ms_ok s' \<and> map_of (ms_nodes s') = map_of (ms_nodes s) |` (- stale_nodes (time_unix before) s) \<and>
     map_of (ms_edges s') = map_of (ms_edges s) |` (- stale_edges (time_unix before) s) \<and> ms_pending s' = ms_pending s \<and>
     ps_nodes st = card (stale_nodes (time_unix before) s) \<and> ps_edges st = card (stale_edges (time_unix before) s)"
  using prune_spec [OF assms] by blast

theorem prune_takes_the_stale_witness:
  "map_of (ms_nodes (snd (snd (ms_prune 0 (snd (ms_node_op (demo_host ''a'') new_mem)))))) ''a'' = Some (demo_host ''a'')"
proof -
  let ?s = "snd (ms_node_op (demo_host ''a'') new_mem)"
  obtain st err s' where r: "ms_prune 0 ?s = (st, err, s')" by (cases "ms_prune 0 ?s")
  have ok: "ms_ok ?s" by (rule mem_step_ok [OF node_step]) (simp add: new_mem_ok)
  have s: "ms_nodes ?s = [(''a'', demo_host ''a'')]" by code_simp
  have "stale_nodes (time_unix 0) ?s = {}"
    unfolding stale_nodes_def s by (simp add: demo_host_def stale_def last_seen_def pget_def)
  then show ?thesis using prune_takes_the_stale [OF ok r] r s by (simp add: restrict_map_def)
qed

text \<open>A reader that sees the version counter unchanged may keep its snapshot: between two stores of a history with the same
  counter the nodes and edges are the same.\<close>

theorem version_covers_graph:
  "vs_step\<^sup>*\<^sup>* (new_mem, v0) vs \<Longrightarrow> vs_step\<^sup>*\<^sup>* vs vs' \<Longrightarrow> snd vs' = snd vs \<Longrightarrow> graph_of (fst vs') = graph_of (fst vs)"
  using vs_steps_count [of "(new_mem, v0)" vs] vs_steps_count [of vs vs'] new_mem_ok by simp

theorem version_covers_graph_witness:
  "graph_of (fst (snd (v_upsert_edge (mem_caps 3) demo_link (new_mem, 0)))) = graph_of new_mem"
proof -
  let ?vs = "(new_mem, 0 :: int)" and ?vs' = "snd (v_upsert_edge (mem_caps 3) demo_link (new_mem, 0))"
  have "vs_step\<^sup>*\<^sup>* ?vs ?vs'" by (meson r_into_rtranclp vs_edge)
  moreover have "snd ?vs' = 0" by code_simp
  ultimately show ?thesis using version_covers_graph [of 0 ?vs ?vs'] by simp
qed

text \<open>The removal epoch moves whenever anything leaves: between two stores of a history with the same epoch nothing
  that was in the graph is gone, so an incremental reader misses no removal.\<close>

theorem epoch_covers_removals:
  "mem_step\<^sup>*\<^sup>* new_mem s \<Longrightarrow> mem_step\<^sup>*\<^sup>* s s' \<Longrightarrow> ms_removals s \<le> ms_removals s' \<and> (ms_removals s' = ms_removals s \<longrightarrow> kept_graph s s')"
  using mem_steps_epoch [of s s'] mem_steps_ok [of s] by blast

theorem epoch_covers_removals_witness:
  "kept_graph (snd (ms_node_op (demo_host ''a'') new_mem)) (snd (ms_upsert_batch 4 [] [demo_link] (snd (ms_node_op (demo_host ''a'') new_mem))))"
proof -
  let ?s = "snd (ms_node_op (demo_host ''a'') new_mem)"
  let ?s' = "snd (ms_upsert_batch 4 [] [demo_link] ?s)"
  have "mem_step\<^sup>*\<^sup>* new_mem ?s" "mem_step\<^sup>*\<^sup>* ?s ?s'" by (meson r_into_rtranclp node_step, meson r_into_rtranclp batch_step)
  moreover have "ms_removals ?s' = ms_removals ?s" by code_simp
  ultimately show ?thesis using epoch_covers_removals [of ?s ?s'] by blast
qed

text \<open>Writing element by element reports exactly the edges whose ends are missing, lands every other edge and every node,
  and leaves no dangling edge.\<close>

theorem upsert_each_reports:
  assumes "ms_ok s" "upsert_each ms_node_op ms_edge_op ns es s = (err, s')"
  shows "ms_ok s' \<and> err = endpoints_missing (filter (\<lambda>e. \<not> ends_known s' e) es) \<and>
     dom (map_of (ms_nodes s')) = dom (map_of (ms_nodes s)) \<union> n_id ` set ns \<and>
     dom (map_of (ms_edges s')) = dom (map_of (ms_edges s)) \<union> edge_key ` set (filter (ends_known s') es)"
proof -
  have "mem.ends_in s' = ends_known s'" by (simp add: fun_eq_iff mem.ends_in_def ends_known_iff)
  then show ?thesis using mem.upsert_each_ok [OF assms] by simp
qed

theorem upsert_each_reports_witness:
  "fst (upsert_each ms_node_op ms_edge_op [demo_host ''a''] [demo_link] new_mem) = Some (ErrEndpointsMissing [demo_link])"
proof -
  obtain err s' where r: "upsert_each ms_node_op ms_edge_op [demo_host ''a''] [demo_link] new_mem = (err, s')"
    by (cases "upsert_each ms_node_op ms_edge_op [demo_host ''a''] [demo_link] new_mem")
  have ok: "ms_ok new_mem" using new_mem_ok by blast
  have "dom (map_of (ms_nodes s')) = {''a''}" using upsert_each_reports [OF ok r] by (simp add: new_mem_def demo_host_def)
  then have "\<not> ends_known s' demo_link" by (auto simp: ends_known_iff demo_link_def dom_def set_eq_iff)
  then show ?thesis using upsert_each_reports [OF ok r] r by (simp add: endpoints_missing_def)
qed

lemma parked_before_weak: "strict_weak parked_before"
proof -
  let ?key = "\<lambda>p. e_from (pk_edge p) @ [CHR 0x00] @ e_to (pk_edge p) @ [CHR 0x00] @ e_type (pk_edge p)"
  have eq: "parked_before = (\<lambda>p q. pk_at p < pk_at q \<or> (pk_at p = pk_at q \<and> str_less (?key p) (?key q)))"
    by (auto simp: parked_before_def fun_eq_iff Let_def)
  show ?thesis unfolding eq by (rule strict_weak_lex [OF strict_weak_str])
qed

text \<open>The parked edges are listed oldest first, at most \<open>limit\<close> of them unless it is negative, with the
  count of all of them.\<close>

theorem pending_edges_oldest_first:
  "\<exists>ps. mset ps = mset (map snd (ms_pending s)) \<and> sorted (map pk_at ps) \<and>
     ms_pending_edges limit s = (map pk_edge (if limit < 0 then ps else take (nat limit) ps), length (ms_pending s))"
proof (intro exI conjI)
  let ?ps = "sort_by parked_before (map snd (ms_pending s))"
  show "mset ?ps = mset (map snd (ms_pending s))" by simp
  show "ms_pending_edges limit s = (map pk_edge (if limit < 0 then ?ps else take (nat limit) ?ps), length (ms_pending s))"
    by (simp add: ms_pending_edges_def Let_def)
  show "sorted (map pk_at ?ps)"
    unfolding sorted_map
  proof (rule sorted_wrt_mono_rel [OF _ sorted_sort_by [OF parked_before_weak]])
    fix p q
    assume "\<not> parked_before q p"
    then show "pk_at p \<le> pk_at q" by (auto simp: parked_before_def split: if_splits)
  qed
qed

end
