(* ===== verification/Triage.thy ===== *)
theory Triage
  imports Attack_Path
begin

text \<open>
  Triage, \<open>backend/internal/analyzer/priority.go\<close>: the blended priority of a path, the facts that
  make it P1 whatever the blend says, the bands, and how a recorded test result re-bands a
  path. Numbers are reals; \<open>math.Round\<close> and the verb \<open>%.0f\<close> are written out. The Go code
  panics on a path without nodes, which no finder returns.
\<close>

section \<open>Rounding\<close>

text \<open>\<open>math.Round\<close>: half away from zero.\<close>

definition go_round :: "real \<Rightarrow> int" where
  "go_round x = (if x \<ge> 0 then \<lfloor>x + 1 / 2\<rfloor> else \<lceil>x - 1 / 2\<rceil>)"

definition round1 :: "real \<Rightarrow> real" where
  "round1 x = go_round (x * 10) / 10"

text \<open>\<open>%.0f\<close>: half to even.\<close>

definition fmt_f0 :: "real \<Rightarrow> string" where
  "fmt_f0 x =
     (let n = \<lfloor>x\<rfloor>; d = x - real_of_int n
      in int_dec (if d < 1 / 2 then n else if d > 1 / 2 then n + 1 else if even n then n else n + 1))"

section \<open>What a path is worth\<close>

definition prop_string :: "props \<Rightarrow> string \<Rightarrow> string" where
  "prop_string ps k = (case pget ps k of GStr s \<Rightarrow> s | _ \<Rightarrow> [])"

definition has_prefix :: "string \<Rightarrow> string \<Rightarrow> bool" where
  "has_prefix s p \<longleftrightarrow> prefix p s"

definition kev_on_path :: "attack_path \<Rightarrow> bool" where
  "kev_on_path p \<longleftrightarrow> list_ex (\<lambda>n. node_bool n prop_kev) (ap_nodes p)"

definition jewel_weight :: "node \<Rightarrow> real \<times> string" where
  "jewel_weight t =
     (let basis = prop_string (n_props t) prop_crown_jewel_basis; cls = prop_string (n_props t) prop_classification
      in if has_prefix basis ''classified''
         then (if cls \<noteq> [] then (1, ''classified '' @ to_upper cls @ '' target'') else (1, ''classified target''))
         else if basis = ''tagged'' then (7 / 10, ''tagged sensitive asset'')
         else if has_prefix basis ''inferred'' then (4 / 10, ''inferred sensitive asset'')
         else if node_bool t prop_crown_jewel then (6 / 10, ''sensitive asset target'')
         else (0, []))"

definition p1_floor :: real where
  "p1_floor = 70"

definition lift_to_p1 :: "real \<Rightarrow> real" where
  "lift_to_p1 blended = round1 (p1_floor + (100 - p1_floor) * blended / 100)"

definition sink_to_p3 :: "real \<Rightarrow> real" where
  "sink_to_p3 priority = round1 (priority * (399 / 1000))"

definition band_of :: "real \<Rightarrow> string" where
  "band_of priority = (if priority \<ge> p1_floor then ''P1'' else if priority \<ge> 40 then ''P2'' else ''P3'')"

definition p1_fact :: "attack_path \<Rightarrow> string" where
  "p1_fact p =
     (if ap_runtime p then ''a runtime alert fired on this route: it is happening, not predicted''
      else if ap_direct p then ''the asset is open to anyone: there is nothing to exploit''
      else if kev_on_path p \<and> ap_score p \<ge> 1 / 2
      then ''a known-exploited (KEV) weakness sits on a route an attacker is likely to complete''
      else if ap_score p \<ge> 8 / 10 \<and> fst (jewel_weight (ap_target p)) \<ge> 6 / 10 \<and>
              (ap_conf_label p = ''medium'' \<or> ap_conf_label p = ''high'')
      then ''an attacker is likely ('' @ fmt_f0 (ap_score p * 100) @
           ''%) to complete this route, on evidence rather than assumption, into a high-value asset''
      else [])"

section \<open>The blend\<close>

text \<open>The score and the factors, in the order \<open>setPriority\<close> adds them.\<close>

definition blend_parts :: "int \<Rightarrow> attack_path \<Rightarrow> real \<times> string list" where
  "blend_parts blast p =
     (let score = 35 / 100 * ap_score p + 15 / 100 * ap_conf p; factors = [];
          (score, factors) =
            (if ap_runtime p then (score + 22 / 100, factors @ [''runtime-confirmed (active)''])
             else if ap_direct p then (score + 22 / 100, factors @ [''open to anyone (no exploit needed)''])
             else (score, factors));
          (score, factors) = (if kev_on_path p then (score + 10 / 100, factors @ [''KEV on path'']) else (score, factors));
          (jw, lbl) = jewel_weight (ap_target p);
          (score, factors) = (if jw > 0 then (score + 13 / 100 * jw, if lbl \<noteq> [] then factors @ [lbl] else factors)
                              else (score, factors));
          (score, factors) =
            (if blast > 1
             then (score + 5 / 100 * min 1 (real_of_int (blast - 1) / 4), factors @ [''entry shared by '' @ int_dec blast @ '' paths''])
             else (score, factors));
          factors = (if ap_conf_label p = ''high'' then factors @ [''evidence-backed''] else factors)
      in (score, factors))"

definition set_priority :: "int \<Rightarrow> attack_path \<Rightarrow> attack_path" where
  "set_priority blast p =
     (let (score, factors) = blend_parts blast p;
          score = min 1 score;
          prio = go_round (score * 1000) / 10;
          reason = p1_fact p;
          prio = (if reason \<noteq> [] \<or> prio \<ge> p1_floor then lift_to_p1 prio else prio)
      in p\<lparr>ap_priority := prio, ap_factors := factors, ap_reason := reason, ap_label := band_of prio\<rparr>)"

text \<open>The queue order: priority, then score, both descending; ties keep their order.\<close>

definition triage_before :: "attack_path \<Rightarrow> attack_path \<Rightarrow> bool" where
  "triage_before p q = (if ap_priority p \<noteq> ap_priority q then ap_priority p > ap_priority q else ap_score p > ap_score q)"

definition entry_blast :: "attack_path list \<Rightarrow> string \<Rightarrow> int" where
  "entry_blast paths i = int (length (filter (\<lambda>p. n_id (ap_source p) = i) paths))"

definition prioritize :: "attack_path list \<Rightarrow> attack_path list" where
  "prioritize paths =
     sort_by triage_before (map (\<lambda>p. set_priority (entry_blast paths (n_id (ap_source p))) p) paths)"

section \<open>Test results\<close>

record verdict =
  vd_outcome :: string
  vd_source :: string

text \<open>One path against its verdict: the path, and whether the list has to be sorted again.\<close>

definition verdict_step :: "(string \<Rightarrow> verdict option) \<Rightarrow> attack_path \<Rightarrow> attack_path \<times> bool" where
  "verdict_step verdict_of p =
     (case verdict_of (ap_id p) of
        None \<Rightarrow> (p, False)
      | Some v \<Rightarrow>
          (let src = (if vd_source v = [] then ''a test'' else vd_source v);
               rebanded = (\<lambda>p. (p\<lparr>ap_label := band_of (ap_priority p)\<rparr>, True))
           in if vd_outcome v = ''confirmed''
              then (let p = p\<lparr>ap_factors := ap_factors p @ [''confirmed by '' @ src]\<rparr>
                    in rebanded (if ap_priority p < p1_floor
                                 then p\<lparr>ap_priority := lift_to_p1 (ap_priority p),
                                        ap_reason := src @ '' walked this route end to end''\<rparr>
                                 else p))
              else if vd_outcome v = ''refuted''
              then (if ap_runtime p \<or> ap_direct p
                    then (p\<lparr>ap_factors := ap_factors p @ [''evidence conflict: refuted by '' @ src],
                            ap_reason :=
                              (if ap_runtime p
                               then ''the evidence conflicts - a runtime alert fired on this route, but '' @ src @ '' could not walk it''
                               else ''the evidence conflicts - the asset is open to anyone, but '' @ src @ '' could not reach it'')\<rparr>, False)
                    else rebanded (p\<lparr>ap_factors := ap_factors p @ [''refuted by '' @ src],
                                     ap_priority := sink_to_p3 (ap_priority p),
                                     ap_reason := src @ '' could not walk this route''\<rparr>))
              else if vd_outcome v = ''partial''
              then rebanded (p\<lparr>ap_factors := ap_factors p @ [''partly walked by '' @ src]\<rparr>)
              else (p, False)))"

definition apply_verdicts :: "(string \<Rightarrow> verdict option) \<Rightarrow> attack_path list \<Rightarrow> attack_path list" where
  "apply_verdicts verdict_of paths =
     (let out = map (verdict_step verdict_of) paths
      in if list_ex snd out then sort_by triage_before (map fst out) else map fst out)"

section \<open>Rounding stays in range and in order\<close>

lemma go_round_mono: "x \<le> y \<Longrightarrow> go_round x \<le> go_round y"
  unfolding go_round_def by (auto intro: floor_mono ceiling_mono) linarith

lemma go_round_int [simp]: "go_round (of_int n) = n"
  unfolding go_round_def by (simp add: floor_eq_iff ceiling_eq_iff)

lemma round1_mono: "x \<le> y \<Longrightarrow> round1 x \<le> round1 y"
  unfolding round1_def using go_round_mono [of "x * 10" "y * 10"] by simp

lemma round1_tenth: "x * 10 = of_int n \<Longrightarrow> round1 x = x"
  unfolding round1_def by (metis go_round_int nonzero_mult_div_cancel_right zero_neq_numeral)

lemma round1_at: "round1 70 = 70" "round1 100 = 100" "round1 0 = 0"
  using round1_tenth [of 70 700] round1_tenth [of 100 1000] round1_tenth [of 0 0] by simp_all

lemma lift_mono: "x \<le> y \<Longrightarrow> lift_to_p1 x \<le> lift_to_p1 y"
  unfolding lift_to_p1_def p1_floor_def by (rule round1_mono) simp

lemma lift_range: "0 \<le> x \<Longrightarrow> x \<le> 100 \<Longrightarrow> p1_floor \<le> lift_to_p1 x \<and> lift_to_p1 x \<le> 100"
  using lift_mono [of 0 x] lift_mono [of x 100] by (simp add: lift_to_p1_def p1_floor_def round1_at)

lemma sink_mono: "x \<le> y \<Longrightarrow> sink_to_p3 x \<le> sink_to_p3 y"
  unfolding sink_to_p3_def by (rule round1_mono) simp

lemma sink_range: "0 \<le> x \<Longrightarrow> x \<le> 100 \<Longrightarrow> 0 \<le> sink_to_p3 x \<and> sink_to_p3 x < 40"
proof -
  assume x: "0 \<le> x" "x \<le> 100"
  have "round1 (399 / 10) = 399 / 10" using round1_tenth [of "399 / 10" 399] by simp
  then show ?thesis using sink_mono [OF x(1)] sink_mono [OF x(2)] by (simp add: sink_to_p3_def round1_at)
qed

lemma band_iff: "band_of x = ''P1'' \<longleftrightarrow> x \<ge> p1_floor" "band_of x = ''P2'' \<longleftrightarrow> 40 \<le> x \<and> x < p1_floor" "band_of x = ''P3'' \<longleftrightarrow> x < 40"
  by (auto simp: band_of_def p1_floor_def)

lemma triage_before_weak: "strict_weak triage_before"
proof -
  have eq: "triage_before = (\<lambda>p q. ap_priority p > ap_priority q \<or> (ap_priority p = ap_priority q \<and> ap_score p > ap_score q))"
    by (auto simp: triage_before_def fun_eq_iff)
  show ?thesis unfolding eq by (rule strict_weak_lex_desc [OF strict_weak_measure_desc])
qed

section \<open>The blend is a number from 0 to 100\<close>

lemma jewel_weight_range: "0 \<le> fst (jewel_weight t) \<and> fst (jewel_weight t) \<le> 1"
  by (simp add: jewel_weight_def Let_def)

lemma blend_fst:
  "fst (blend_parts b p) = 35 / 100 * ap_score p + 15 / 100 * ap_conf p + (if ap_runtime p \<or> ap_direct p then 22 / 100 else 0) +
     (if kev_on_path p then 10 / 100 else 0) + 13 / 100 * fst (jewel_weight (ap_target p)) +
     (if b > 1 then 5 / 100 * min 1 (real_of_int (b - 1) / 4) else 0)"
  using jewel_weight_range [of "ap_target p"]
  by (cases "jewel_weight (ap_target p)") (auto simp: blend_parts_def Let_def)

lemma blend_nonneg: "0 \<le> ap_score p \<Longrightarrow> 0 \<le> ap_conf p \<Longrightarrow> 0 \<le> fst (blend_parts b p)"
  unfolding blend_fst using jewel_weight_range [of "ap_target p"] by (auto intro!: add_nonneg_nonneg)

definition blended :: "int \<Rightarrow> attack_path \<Rightarrow> real" where
  "blended b p = go_round (min 1 (fst (blend_parts b p)) * 1000) / 10"

lemma blended_range: "0 \<le> ap_score p \<Longrightarrow> 0 \<le> ap_conf p \<Longrightarrow> 0 \<le> blended b p \<and> blended b p \<le> 100"
proof -
  assume "0 \<le> ap_score p" "0 \<le> ap_conf p"
  then have s: "0 \<le> min 1 (fst (blend_parts b p)) * 1000" "min 1 (fst (blend_parts b p)) * 1000 \<le> 1000"
    using blend_nonneg [of p b] by auto
  have "go_round 0 \<le> go_round (min 1 (fst (blend_parts b p)) * 1000)" "go_round (min 1 (fst (blend_parts b p)) * 1000) \<le> go_round 1000"
    using s by (auto intro: go_round_mono)
  moreover have "go_round 0 = 0" "go_round 1000 = 1000" using go_round_int [of 0] go_round_int [of 1000] by simp_all
  ultimately show ?thesis by (simp add: blended_def)
qed

lemma set_priority_fields:
  "ap_priority (set_priority b p) = (if p1_fact p \<noteq> [] \<or> blended b p \<ge> p1_floor then lift_to_p1 (blended b p) else blended b p)"
  "ap_label (set_priority b p) = band_of (ap_priority (set_priority b p))" "ap_reason (set_priority b p) = p1_fact p"
  "ap_id (set_priority b p) = ap_id p" "ap_score (set_priority b p) = ap_score p" "ap_runtime (set_priority b p) = ap_runtime p"
  "ap_direct (set_priority b p) = ap_direct p" "ap_nodes (set_priority b p) = ap_nodes p" "ap_conf (set_priority b p) = ap_conf p"
  by (auto simp: set_priority_def blended_def Let_def split: prod.split)

lemma p1_fact_facts: "ap_runtime p \<or> ap_direct p \<Longrightarrow> p1_fact p \<noteq> []"
  by (auto simp: p1_fact_def)

text \<open>A path as the queue shows it.\<close>

definition banded :: "attack_path \<Rightarrow> bool" where
  "banded p \<longleftrightarrow> 0 \<le> ap_priority p \<and> ap_priority p \<le> 100 \<and> ap_label p = band_of (ap_priority p)"

lemma set_priority_banded:
  assumes "0 \<le> ap_score p" "0 \<le> ap_conf p"
  shows "banded (set_priority b p) \<and> (p1_fact p \<noteq> [] \<longrightarrow> ap_label (set_priority b p) = ''P1'')"
  using blended_range [OF assms, of b] lift_range [of "blended b p"]
  by (auto simp: banded_def set_priority_fields band_iff p1_floor_def)

text \<open>
  C10. The queue \<open>Prioritize\<close> makes lists every path once, ranked by priority and then score; each
  priority is from 0 to 100 and agrees with its band; a path a fact is known of, a live alert or open access among them, is P1 and
  so stands above every path that is not.
\<close>

theorem triage_queue:
  assumes "\<forall>p \<in> set paths. 0 \<le> ap_score p \<and> 0 \<le> ap_conf p"
  shows "mset (map ap_id (prioritize paths)) = mset (map ap_id paths) \<and>
     sorted_wrt (\<lambda>p q. \<not> triage_before q p) (prioritize paths) \<and>
     (\<forall>p \<in> set (prioritize paths). banded p \<and> (ap_runtime p \<or> ap_direct p \<longrightarrow> ap_label p = ''P1'') \<and>
        (ap_reason p \<noteq> [] \<longrightarrow> ap_label p = ''P1'' \<and> (\<forall>q \<in> set (prioritize paths). ap_label q \<noteq> ''P1'' \<longrightarrow> triage_before p q)))"
proof -
  let ?f = "\<lambda>p. set_priority (entry_blast paths (n_id (ap_source p))) p"
  have el: "\<exists>p0 \<in> set paths. p = ?f p0" if "p \<in> set (prioritize paths)" for p using that by (auto simp: prioritize_def)
  have b: "banded p \<and> (ap_reason p \<noteq> [] \<longrightarrow> ap_label p = ''P1'') \<and> (ap_runtime p \<or> ap_direct p \<longrightarrow> ap_label p = ''P1'')"
    if "p \<in> set (prioritize paths)" for p
    using el [OF that] assms set_priority_banded p1_fact_facts by (force simp: set_priority_fields(3,6,7))
  have "triage_before p q" if "p \<in> set (prioritize paths)" "q \<in> set (prioritize paths)" "ap_label p = ''P1''" "ap_label q \<noteq> ''P1''" for p q
  proof -
    have "ap_label p = band_of (ap_priority p)" "ap_label q = band_of (ap_priority q)"
      using b [OF that(1)] b [OF that(2)] by (simp_all add: banded_def)
    then have "ap_priority p \<ge> p1_floor" "\<not> ap_priority q \<ge> p1_floor"
      using that(3,4) by (metis band_iff(1))+
    then show ?thesis by (simp add: triage_before_def)
  qed
  moreover have "mset (map ap_id (prioritize paths)) = mset (map ap_id paths)"
    unfolding mset_map prioritize_def mset_sort_by by (simp add: set_priority_fields image_mset.compositionality comp_def)
  ultimately show ?thesis using b sorted_sort_by [OF triage_before_weak] by (auto simp: prioritize_def)
qed

definition demo_paths :: "attack_path list" where
  "demo_paths =
     [zero_path\<lparr>ap_id := ''a'', ap_nodes := [zero_node], ap_score := 1 / 2\<rparr>,
      zero_path\<lparr>ap_id := ''b'', ap_nodes := [zero_node], ap_score := 1 / 10, ap_runtime := True\<rparr>]"

theorem triage_queue_witness: "''P1'' \<in> ap_label ` set (prioritize demo_paths)"
proof -
  let ?p = "zero_path\<lparr>ap_id := ''b'', ap_nodes := [zero_node], ap_score := 1 / 10, ap_runtime := True\<rparr>"
  let ?q = "set_priority (entry_blast demo_paths (n_id (ap_source ?p))) ?p"
  have "?q \<in> set (prioritize demo_paths)" by (simp add: prioritize_def demo_paths_def)
  moreover have "ap_runtime ?q" by (simp add: set_priority_fields)
  ultimately show ?thesis using triage_queue [of demo_paths] by (force simp: demo_paths_def zero_path_def)
qed

section \<open>What a test result does\<close>

lemma verdict_step_fields:
  "ap_id (fst (verdict_step vo p)) = ap_id p" "ap_score (fst (verdict_step vo p)) = ap_score p"
  "ap_runtime (fst (verdict_step vo p)) = ap_runtime p" "ap_direct (fst (verdict_step vo p)) = ap_direct p"
  "ap_nodes (fst (verdict_step vo p)) = ap_nodes p" "ap_steps (fst (verdict_step vo p)) = ap_steps p"
  "\<not> snd (verdict_step vo p) \<Longrightarrow> ap_priority (fst (verdict_step vo p)) = ap_priority p \<and> ap_label (fst (verdict_step vo p)) = ap_label p"
  by (auto simp: verdict_step_def Let_def split: option.split)

text \<open>The path after its verdict, as the queue shows it.\<close>

definition regraded :: "(string \<Rightarrow> verdict option) \<Rightarrow> attack_path \<Rightarrow> attack_path \<Rightarrow> bool" where
  "regraded vo p p' \<longleftrightarrow> banded p' \<and> ap_id p' = ap_id p \<and> ap_score p' = ap_score p \<and>
     (case vo (ap_id p) of
        None \<Rightarrow> p' = p
      | Some v \<Rightarrow>
          (vd_outcome v = ''confirmed'' \<longrightarrow> ap_label p' = ''P1'') \<and>
          (vd_outcome v = ''refuted'' \<longrightarrow>
             (if ap_runtime p \<or> ap_direct p then ap_priority p' = ap_priority p \<and> ap_label p' = ap_label p else ap_label p' = ''P3'')) \<and>
          (vd_outcome v \<notin> {''confirmed'', ''refuted''} \<longrightarrow> ap_priority p' = ap_priority p))"

lemma verdict_step_regraded:
  assumes b: "banded p"
  shows "regraded vo p (fst (verdict_step vo p))"
proof (cases "vo (ap_id p)")
  case None
  then show ?thesis using b by (simp add: regraded_def verdict_step_def)
next
  case (Some v)
  have r: "0 \<le> ap_priority p" "ap_priority p \<le> 100" "ap_label p = band_of (ap_priority p)" using b by (simp_all add: banded_def)
  note lr = lift_range [OF r(1,2)] and sr = sink_range [OF r(1,2)]
  consider "vd_outcome v = ''confirmed''" | "vd_outcome v = ''refuted''" | "vd_outcome v = ''partial''"
    | "vd_outcome v \<notin> {''confirmed'', ''refuted'', ''partial''}" by blast
  then show ?thesis
  proof cases
    case 1
    then show ?thesis using Some r lr by (auto simp: regraded_def verdict_step_def Let_def banded_def band_iff)
  next
    case 2
    then show ?thesis using Some r sr by (auto simp: regraded_def verdict_step_def Let_def banded_def band_iff)
  qed (use Some r in \<open>auto simp: regraded_def verdict_step_def Let_def banded_def\<close>)
qed

text \<open>
  Recorded test results re-band a queue without losing or reordering anything else: a route a test walked is P1, one it could not walk
  is P3 unless a live alert or open access contradicts the test, in which case its place stands, a path without a
  verdict is untouched, and the list stays ranked.
\<close>

theorem verdicts_regrade:
  assumes "sorted_wrt (\<lambda>p q. \<not> triage_before q p) paths" "\<forall>p \<in> set paths. banded p"
  shows "mset (map ap_id (apply_verdicts vo paths)) = mset (map ap_id paths) \<and>
     sorted_wrt (\<lambda>p q. \<not> triage_before q p) (apply_verdicts vo paths) \<and>
     (\<forall>p \<in> set paths. \<exists>p' \<in> set (apply_verdicts vo paths). regraded vo p p')"
proof -
  let ?f = "\<lambda>p. fst (verdict_step vo p)"
  have all: "set (apply_verdicts vo paths) = ?f ` set paths" "mset (apply_verdicts vo paths) = mset (map ?f paths)"
    by (auto simp: apply_verdicts_def Let_def comp_def)
  have "mset (map ap_id (apply_verdicts vo paths)) = image_mset ap_id (mset (map ?f paths))" unfolding mset_map all(2) ..
  then have ids: "mset (map ap_id (apply_verdicts vo paths)) = mset (map ap_id paths)"
    by (simp add: verdict_step_fields image_mset.compositionality comp_def)
  have "sorted_wrt (\<lambda>p q. \<not> triage_before q p) (apply_verdicts vo paths)"
  proof (cases "list_ex snd (map (verdict_step vo) paths)")
    case True
    then show ?thesis using sorted_sort_by [OF triage_before_weak] by (simp add: apply_verdicts_def)
  next
    case False
    then have same: "ap_priority (?f p) = ap_priority p" if "p \<in> set paths" for p
      using that verdict_step_fields(7) by (auto simp: list_ex_iff)
    have "sorted_wrt (\<lambda>p q. \<not> triage_before (?f q) (?f p)) paths"
      by (rule sorted_wrt_mono_rel [OF _ assms(1)]) (auto simp: triage_before_def same verdict_step_fields)
    then show ?thesis using False by (simp add: apply_verdicts_def sorted_wrt_map comp_def)
  qed
  moreover have "\<forall>p \<in> set paths. \<exists>p' \<in> set (apply_verdicts vo paths). regraded vo p p'"
    using assms(2) verdict_step_regraded by (auto simp: all)
  ultimately show ?thesis using ids by blast
qed

theorem verdicts_regrade_witness:
  "\<exists>p' \<in> set (apply_verdicts (\<lambda>i. Some \<lparr>vd_outcome = ''refuted'', vd_source = []\<rparr>)
      [zero_path\<lparr>ap_priority := 90, ap_label := ''P1''\<rparr>]). ap_label p' = ''P3''"
proof -
  let ?p = "zero_path\<lparr>ap_priority := 90, ap_label := ''P1''\<rparr>" and ?vo = "\<lambda>i. Some \<lparr>vd_outcome = ''refuted'', vd_source = []\<rparr>"
  have "banded ?p" by (simp add: banded_def band_of_def p1_floor_def)
  then obtain p' where "p' \<in> set (apply_verdicts ?vo [?p])" "regraded ?vo ?p p'"
    using verdicts_regrade [of "[?p]" ?vo] by auto
  then show ?thesis by (auto simp: regraded_def zero_path_def)
qed

end
