(* ===== verification/Iam_Policy.thy ===== *)
theory Iam_Policy
  imports Ontology
begin

text \<open>
  AWS identity policies, \<open>backend/internal/ingestion/iam/privesc.go\<close> and the evaluation half of
  \<open>iam.go\<close>: action patterns, the flattened action set of a principal, explicit denies, the
  permissions boundary, and the escalation primitives a set of permissions enables. Policy documents are
  modelled decoded; reading them out of JSON is the standard library's.
\<close>

section \<open>Action patterns\<close>

fun match_loop :: "nat \<Rightarrow> string list \<Rightarrow> string \<Rightarrow> nat \<Rightarrow> bool" where
  "match_loop i [] a pos = True"
| "match_loop i (part # parts) a pos =
     (if part = [] then match_loop (i + 1) parts a pos
      else (case str_index (drop pos a) part of
              None \<Rightarrow> False
            | Some idx \<Rightarrow> if i = 0 \<and> idx \<noteq> 0 then False else match_loop (i + 1) parts a (pos + (idx + length part))))"

definition match_action :: "string \<Rightarrow> string \<Rightarrow> bool" where
  "match_action pat act =
     (let p = to_lower pat; a = to_lower act
      in if p = ''*'' then True
         else if \<not> str_contains p ''*'' then p = a
         else (let parts = split_on (CHR ''*'') p
               in if match_loop 0 parts a 0 then (if last parts \<noteq> [] then suffix (last parts) a else True) else False))"

section \<open>What a principal may do\<close>

record grant =
  gr_pattern :: string
  gr_broad :: bool
  gr_except :: "string list"

datatype action_set = Action_Set (as_grants: "grant list") (as_denies: "string list") (as_cond_denies: "string list")
  (as_boundary: "action_set option") (as_unresolved: bool)

definition no_actions :: action_set where
  "no_actions = Action_Set [] [] [] None False"

definition covers :: "grant \<Rightarrow> string \<Rightarrow> bool" where
  "covers g act \<longleftrightarrow> match_action (gr_pattern g) act \<and> \<not> list_ex (\<lambda>e. match_action e act) (gr_except g)"

fun add_grant :: "grant \<Rightarrow> action_set \<Rightarrow> action_set" where
  "add_grant g (Action_Set gs ds cs b u) = Action_Set (gs @ [g]) ds cs b u"

definition as_add :: "action_set \<Rightarrow> string \<Rightarrow> action_set" where
  "as_add a p = add_grant \<lparr>gr_pattern = p, gr_broad = True, gr_except = []\<rparr> a"

definition as_add_scoped :: "action_set \<Rightarrow> string \<Rightarrow> action_set" where
  "as_add_scoped a p = add_grant \<lparr>gr_pattern = p, gr_broad = False, gr_except = []\<rparr> a"

definition as_add_all_but :: "action_set \<Rightarrow> bool \<Rightarrow> string list \<Rightarrow> action_set" where
  "as_add_all_but a broad except = add_grant \<lparr>gr_pattern = ''*'', gr_broad = broad, gr_except = except\<rparr> a"

fun as_deny :: "action_set \<Rightarrow> string \<Rightarrow> action_set" where
  "as_deny (Action_Set gs ds cs b u) p = Action_Set gs (ds @ [p]) cs b u"

fun as_deny_under :: "action_set \<Rightarrow> string \<Rightarrow> action_set" where
  "as_deny_under (Action_Set gs ds cs b u) p = Action_Set gs ds (cs @ [p]) b u"

fun conditionally_denied :: "action_set \<Rightarrow> string \<Rightarrow> bool" where
  "conditionally_denied (Action_Set gs ds cs b u) act =
     (if list_ex (\<lambda>d. match_action d act) cs then True
      else (case b of None \<Rightarrow> False | Some b' \<Rightarrow> conditionally_denied b' act))"

text \<open>The boundary is stored without a boundary of its own.\<close>

fun capped_by :: "action_set \<Rightarrow> action_set \<Rightarrow> action_set" where
  "capped_by (Action_Set gs ds cs b u) (Action_Set gs' ds' cs' b' u') =
     Action_Set gs ds cs (Some (Action_Set gs' ds' cs' None False)) False"

fun capped_by_unknown :: "action_set \<Rightarrow> action_set" where
  "capped_by_unknown (Action_Set gs ds cs b u) = Action_Set gs ds cs None True"

definition as_denied :: "action_set \<Rightarrow> string \<Rightarrow> bool" where
  "as_denied a act \<longleftrightarrow> list_ex (\<lambda>d. match_action d act) (as_denies a)"

fun allows :: "action_set \<Rightarrow> string \<Rightarrow> bool" where
  "allows (Action_Set gs ds cs b u) act =
     (if as_denied (Action_Set gs ds cs b u) act \<or> \<not> (case b of None \<Rightarrow> True | Some b' \<Rightarrow> allows b' act) then False
      else list_ex (\<lambda>g. covers g act) gs)"

fun broadly_allows :: "action_set \<Rightarrow> string \<Rightarrow> bool" where
  "broadly_allows (Action_Set gs ds cs b u) act =
     (if as_denied (Action_Set gs ds cs b u) act \<or> \<not> (case b of None \<Rightarrow> True | Some b' \<Rightarrow> broadly_allows b' act) then False
      else list_ex (\<lambda>g. gr_broad g \<and> covers g act) gs)"

fun is_admin :: "action_set \<Rightarrow> bool" where
  "is_admin (Action_Set gs ds cs b u) =
     (if as_denied (Action_Set gs ds cs b u) ''*'' then False
      else if (case b of None \<Rightarrow> False | Some b' \<Rightarrow> \<not> is_admin b') then False
      else list_ex (\<lambda>g. gr_pattern g = ''*'' \<and> gr_broad g \<and> gr_except g = []) gs)"

section \<open>Policy documents\<close>

record trust_principal =
  tp_all :: bool
  tp_aws :: "string list"
  tp_service :: "string list"
  tp_federated :: "string list"

record statement =
  sm_effect :: string
  sm_action :: "string list"
  sm_not_action :: "string list"
  sm_resource :: "string list"
  sm_not_resource :: "string list"
  sm_principal :: trust_principal
  sm_condition :: props

type_synonym policy_doc = "statement list"

definition resource_is_broad :: "string list \<Rightarrow> bool" where
  "resource_is_broad rs \<longleftrightarrow> rs = [] \<or> list_ex (\<lambda>r. str_contains r ''*'') rs"

definition add_statement :: "statement \<Rightarrow> action_set \<Rightarrow> action_set" where
  "add_statement st a =
     (let broad = (sm_not_resource st \<noteq> [] \<or> resource_is_broad (sm_resource st))
      in if equal_fold (sm_effect st) ''Allow''
         then (let a = fold (\<lambda>act a. if broad then as_add a act else as_add_scoped a act) (sm_action st) a
               in if sm_not_action st \<noteq> [] then as_add_all_but a broad (sm_not_action st) else a)
         else if equal_fold (sm_effect st) ''Deny''
         then (if \<not> broad \<or> sm_not_resource st \<noteq> [] then a
               else fold (\<lambda>act a. if sm_condition st \<noteq> [] then as_deny_under a act else as_deny a act) (sm_action st) a)
         else a)"

definition allowed_actions :: "policy_doc list \<Rightarrow> action_set" where
  "allowed_actions docs = fold (\<lambda>d a. fold add_statement d a) docs no_actions"

definition cap_by_boundary :: "action_set \<Rightarrow> string option \<Rightarrow> (string, policy_doc) gomap \<Rightarrow> props \<Rightarrow> action_set \<times> props" where
  "cap_by_boundary identity pb managed ps =
     (case pb of
        None \<Rightarrow> (identity, ps)
      | Some arn \<Rightarrow>
          if arn = [] then (identity, ps)
          else (let ps = AList.update ''permissions_boundary'' (GStr arn) ps
                in case map_of managed arn of
                     None \<Rightarrow> (capped_by_unknown identity, AList.update ''permissions_boundary_unresolved'' (GBool True) ps)
                   | Some doc \<Rightarrow> (capped_by identity (allowed_actions [doc]), ps)))"

definition trusts_everyone :: "policy_doc \<Rightarrow> bool \<times> bool" where
  "trusts_everyone doc =
     fold (\<lambda>st (everyone, uncond).
             if equal_fold (sm_effect st) ''Allow'' \<and> tp_all (sm_principal st)
             then (True, if sm_condition st = [] then True else uncond) else (everyone, uncond))
          doc (False, False)"

section \<open>Escalation primitives\<close>

datatype principal_kind = As_User | As_Role

record primitive =
  pr_name :: string
  pr_actions :: "string list"
  pr_user_only :: bool

definition prim :: "string \<Rightarrow> string list \<Rightarrow> primitive" where
  "prim n as = \<lparr>pr_name = n, pr_actions = as, pr_user_only = False\<rparr>"

definition user_prim :: "string \<Rightarrow> string list \<Rightarrow> primitive" where
  "user_prim n as = \<lparr>pr_name = n, pr_actions = as, pr_user_only = True\<rparr>"

definition primitives :: "primitive list" where
  "primitives =
    [prim ''iam:AttachRolePolicy (attach AdministratorAccess to a role)'' [''iam:AttachRolePolicy''],
     user_prim ''iam:AttachUserPolicy (attach AdministratorAccess to self)'' [''iam:AttachUserPolicy''],
     prim ''iam:PutRolePolicy (inline an admin policy on a role)'' [''iam:PutRolePolicy''],
     user_prim ''iam:PutUserPolicy (inline an admin policy on self)'' [''iam:PutUserPolicy''],
     prim ''iam:CreatePolicyVersion (rewrite an attached policy)'' [''iam:CreatePolicyVersion''],
     prim ''iam:SetDefaultPolicyVersion (roll back to a permissive version)'' [''iam:SetDefaultPolicyVersion''],
     prim ''iam:UpdateAssumeRolePolicy (make an admin role assumable)'' [''iam:UpdateAssumeRolePolicy''],
     prim ''iam:CreateAccessKey (mint keys for a privileged user)'' [''iam:CreateAccessKey''],
     prim ''iam:CreateLoginProfile (set a console password on a user)'' [''iam:CreateLoginProfile''],
     prim ''iam:PassRole + lambda:CreateFunction (run code as a passed role)'' [''iam:PassRole'', ''lambda:CreateFunction''],
     prim ''iam:PassRole + ec2:RunInstances (launch an instance with a passed role)'' [''iam:PassRole'', ''ec2:RunInstances''],
     prim ''iam:PassRole + cloudformation:CreateStack'' [''iam:PassRole'', ''cloudformation:CreateStack''],
     prim ''iam:PassRole + glue:CreateDevEndpoint'' [''iam:PassRole'', ''glue:CreateDevEndpoint''],
     prim ''iam:PassRole + sagemaker:CreateNotebookInstance'' [''iam:PassRole'', ''sagemaker:CreateNotebookInstance''],
     prim ''iam:PassRole + datapipeline:CreatePipeline'' [''iam:PassRole'', ''datapipeline:CreatePipeline''],
     prim ''iam:PassRole + codebuild:CreateProject'' [''iam:PassRole'', ''codebuild:CreateProject''],
     user_prim ''iam:AddUserToGroup (add self to a privileged group)'' [''iam:AddUserToGroup''],
     user_prim ''iam:AttachGroupPolicy (attach AdministratorAccess to your group)'' [''iam:AttachGroupPolicy''],
     user_prim ''iam:PutGroupPolicy (inline an admin policy on your group)'' [''iam:PutGroupPolicy''],
     prim ''iam:UpdateLoginProfile (reset a privileged user's console password)'' [''iam:UpdateLoginProfile'']]"

record privesc_match =
  pm_name :: string
  pm_scoped :: bool
  pm_cond :: bool

text \<open>The loop over a primitive's actions: allowed, broad, conditional.\<close>

fun scan_actions :: "action_set \<Rightarrow> string list \<Rightarrow> bool \<Rightarrow> bool \<Rightarrow> bool \<times> bool \<times> bool" where
  "scan_actions a [] broad cond = (True, broad, cond)"
| "scan_actions a (act # acts) broad cond =
     (if \<not> allows a act then (False, broad, cond)
      else scan_actions a acts (if \<not> broadly_allows a act then False else broad) (if conditionally_denied a act then True else cond))"

definition match_primitive :: "action_set \<Rightarrow> principal_kind \<Rightarrow> primitive \<Rightarrow> privesc_match option" where
  "match_primitive a kind p =
     (if pr_user_only p \<and> kind = As_Role then None
      else (let (allowed, broad, cond) = scan_actions a (pr_actions p) True False
            in if allowed then Some \<lparr>pm_name = pr_name p, pm_scoped = \<not> broad, pm_cond = cond\<rparr> else None))"

definition detect_privesc :: "action_set \<Rightarrow> principal_kind \<Rightarrow> privesc_match list" where
  "detect_privesc a kind = List.map_filter (match_primitive a kind) primitives"

text \<open>The table as the red-team oracle sees it.\<close>

definition applies_to :: "primitive \<Rightarrow> string \<Rightarrow> bool" where
  "applies_to p arn \<longleftrightarrow> \<not> pr_user_only p \<or> \<not> str_contains arn '':role/''"

section \<open>The pattern language\<close>

text \<open>The specification: a star matches any run of characters, every other character itself.\<close>

fun glob :: "string \<Rightarrow> string \<Rightarrow> bool" where
  "glob [] s \<longleftrightarrow> s = []"
| "glob (c # p) s \<longleftrightarrow>
     (if c = CHR ''*'' then (\<exists>v. suffix v s \<and> glob p v) else (case s of [] \<Rightarrow> False | d # t \<Rightarrow> c = d \<and> glob p t))"

lemma str_index_first:
  "str_index s w = Some i \<Longrightarrow> i \<le> length s \<and> prefix w (drop i s) \<and> (\<forall>j < i. \<not> prefix w (drop j s))"
  using str_index_SomeD [of s w i] str_index_least [of s w i] by auto

lemma str_index_0: "prefix w s \<Longrightarrow> str_index s w = Some 0"
  by (cases s) auto

lemma str_index_never: "str_index s w = None \<Longrightarrow> \<not> prefix w (drop j s)"
  using str_index_NoneD [of s w j] str_index_0 [of w s] by (cases "w = []"; cases "j \<le> length s") simp_all

text \<open>What the segments after a star must do, and all the segments.\<close>

fun after_star :: "string list \<Rightarrow> string \<Rightarrow> bool" where
  "after_star [] s = True"
| "after_star [w] s = suffix w s"
| "after_star (w # ws) s = (\<exists>i. prefix w (drop i s) \<and> i \<le> length s \<and> after_star ws (drop (i + length w) s))"

definition segments :: "string list \<Rightarrow> string \<Rightarrow> bool" where
  "segments ws s = (case ws of [] \<Rightarrow> False | [w] \<Rightarrow> s = w | w # ws \<Rightarrow> prefix w s \<and> after_star ws (drop (length w) s))"

lemma after_star_mono: "after_star ws v \<Longrightarrow> suffix v s \<Longrightarrow> after_star ws s"
proof (induction ws v rule: after_star.induct)
  case (3 w x ws v)
  then obtain i where i: "prefix w (drop i v)" "i \<le> length v" "after_star (x # ws) (drop (i + length w) v)" by auto
  obtain u where s: "s = u @ v" using 3(3) by (auto simp: suffix_def)
  have "drop (length u + i) s = drop i v" "drop (length u + i + length w) s = drop (i + length w) v" using s by simp_all
  then show ?case using i s by (auto intro!: exI [where x = "length u + i"])
qed (auto intro: suffix_order.trans)

lemma after_star_greedy:
  assumes "ws \<noteq> []"
  shows "after_star (w # ws) s \<longleftrightarrow> (case str_index s w of None \<Rightarrow> False | Some i \<Rightarrow> after_star ws (drop (i + length w) s))"
proof (cases "str_index s w")
  case None
  then show ?thesis using assms str_index_never [OF None] by (cases ws) auto
next
  case (Some i)
  note d = str_index_first [OF Some]
  have "after_star ws (drop (i + length w) s)" if j: "prefix w (drop j s)" "after_star ws (drop (j + length w) s)" for j
  proof -
    have "i \<le> j" using d j(1) by (meson not_le)
    then have "suffix (drop (j + length w) s) (drop (i + length w) s)"
      by (metis drop_drop le_add_diff_inverse2 suffix_drop add.commute add.left_commute)
    then show ?thesis using after_star_mono j(2) by blast
  qed
  then show ?thesis using assms d Some by (cases ws) auto
qed

lemma match_loop_star:
  "ps \<noteq> [] \<Longrightarrow> i > 0 \<Longrightarrow> pos \<le> length a \<Longrightarrow>
     match_loop i ps a pos \<and> (last ps \<noteq> [] \<longrightarrow> suffix (last ps) a) \<longleftrightarrow> after_star ps (drop pos a)"
proof (induction ps arbitrary: i pos)
  case Nil
  then show ?case by simp
next
  case (Cons w ps)
  show ?case
  proof (cases "ps = []")
    case True
    have "suffix w (drop pos a)" if sx: "suffix w a" and ix: "str_index (drop pos a) w = Some k" for k
    proof -
      have "prefix w (drop k (drop pos a))" using str_index_first [OF ix] by blast
      then have le: "length w \<le> length a - pos" using prefix_length_le by fastforce
      obtain u where a: "a = u @ w" using sx by (auto simp: suffix_def)
      have "pos \<le> length u" using le Cons.prems(3) by (simp add: a)
      then show ?thesis by (simp add: a suffix_def)
    qed
    moreover have "suffix w a \<and> str_index (drop pos a) w \<noteq> None" if sx: "suffix w (drop pos a)"
    proof -
      obtain u where u: "drop pos a = u @ w" using sx by (auto simp: suffix_def)
      have "prefix w (drop (length u) (drop pos a))" unfolding u by simp
      then show ?thesis using sx str_index_never suffix_drop suffix_order.trans by blast
    qed
    ultimately show ?thesis using True Cons.prems by (auto split: option.split)
  next
    case False
    show ?thesis
    proof (cases "w = []")
      case True
      have "after_star (w # ps) (drop pos a) = after_star ps (drop pos a)"
        unfolding after_star_greedy [OF False] using True str_index_0 [of "[]" "drop pos a"] by simp
      then show ?thesis using True False Cons.IH [OF False _ Cons.prems(3), of "Suc i"] by simp
    next
      case w: False
      show ?thesis
      proof (cases "str_index (drop pos a) w")
        case None
        then show ?thesis using w after_star_greedy [OF False, of w "drop pos a"] by simp
      next
        case (Some k)
        have "prefix w (drop k (drop pos a))" "k \<le> length (drop pos a)" using str_index_first [OF Some] by blast+
        then have "pos + (k + length w) \<le> length a" using prefix_length_le [of w "drop k (drop pos a)"] Cons.prems(3) by simp
        note IH = Cons.IH [OF False _ this, of "Suc i"]
        have "drop (k + length w) (drop pos a) = drop (pos + (k + length w)) a" by (simp add: ac_simps)
        then show ?thesis using w Some IH False Cons.prems(2) after_star_greedy [OF False, of w "drop pos a"] by simp
      qed
    qed
  qed
qed

lemma glob_star: "glob (CHR ''*'' # p) s \<longleftrightarrow> (\<exists>v. suffix v s \<and> glob p v)"
  by simp

lemma glob_segments: "glob p s \<longleftrightarrow> segments (split_on (CHR ''*'') p) s"
proof (induction p arbitrary: s)
  case Nil
  then show ?case by (simp add: segments_def)
next
  case (Cons c p)
  obtain w ws where sp: "split_on (CHR ''*'') p = w # ws" using split_on_not_Nil by (meson list.exhaust)
  show ?case
  proof (cases "c = CHR ''*''")
    case True
    have "(\<exists>v. suffix v s \<and> segments (w # ws) v) \<longleftrightarrow> after_star (w # ws) s"
    proof (cases ws)
      case Nil
      then show ?thesis by (simp add: segments_def)
    next
      case (Cons x xs)
      have "after_star (w # ws) s \<longleftrightarrow> (\<exists>i. prefix w (drop i s) \<and> i \<le> length s \<and> after_star ws (drop (i + length w) s))"
        using Cons by simp
      also have "\<dots> \<longleftrightarrow> (\<exists>v. suffix v s \<and> prefix w v \<and> after_star ws (drop (length w) v))"
      proof
        assume "\<exists>i. prefix w (drop i s) \<and> i \<le> length s \<and> after_star ws (drop (i + length w) s)"
        then obtain i where "prefix w (drop i s)" "after_star ws (drop (length w) (drop i s))" by (auto simp: ac_simps)
        then show "\<exists>v. suffix v s \<and> prefix w v \<and> after_star ws (drop (length w) v)" using suffix_drop by blast
      next
        assume "\<exists>v. suffix v s \<and> prefix w v \<and> after_star ws (drop (length w) v)"
        then obtain u v where "s = u @ v" "prefix w v" "after_star ws (drop (length w) v)" by (auto simp: suffix_def)
        then show "\<exists>i. prefix w (drop i s) \<and> i \<le> length s \<and> after_star ws (drop (i + length w) s)"
          by (auto intro!: exI [where x = "length u"])
      qed
      finally show ?thesis using Cons by (simp add: segments_def)
    qed
    then show ?thesis using True sp by (simp add: Cons.IH segments_def)
  next
    case False
    have "segments ((c # w) # ws) s \<longleftrightarrow> (case s of [] \<Rightarrow> False | d # t \<Rightarrow> c = d \<and> segments (w # ws) t)"
      by (cases s; cases ws) (auto simp: segments_def)
    then show ?thesis using False sp by (simp add: Cons.IH split: list.split)
  qed
qed

lemma str_contains_char: "str_contains s [c] \<longleftrightarrow> c \<in> set s"
  by (auto simp: str_contains_iff in_set_conv_decomp)

lemma glob_literal: "CHR ''*'' \<notin> set p \<Longrightarrow> glob p s \<longleftrightarrow> p = s"
  unfolding glob_segments by (auto simp: split_on_single segments_def)

lemma split_on_sep: "c \<in> set s \<Longrightarrow> \<exists>w x ws. split_on c s = w # x # ws"
proof (induction s)
  case (Cons d s)
  obtain w ws where sp: "split_on c s = w # ws" using split_on_not_Nil by (meson list.exhaust)
  show ?case
  proof (cases "d = c")
    case False
    then show ?thesis using Cons sp by auto
  qed (use sp in simp)
qed simp

lemma match_action_glob: "match_action pat act \<longleftrightarrow> glob (to_lower pat) (to_lower act)"
proof -
  let ?p = "to_lower pat" and ?a = "to_lower act"
  show ?thesis
  proof (cases "CHR ''*'' \<in> set ?p")
    case False
    have "?p \<noteq> ''*''" using False by (metis list.set_intros(1))
    then have "match_action pat act \<longleftrightarrow> ?p = ?a"
      unfolding match_action_def Let_def using False by (simp only: str_contains_char if_False if_True not_False_eq_True)
    then show ?thesis by (simp only: glob_literal [OF False])
  next
    case True
    obtain w x ws where sp: "split_on (CHR ''*'') ?p = w # x # ws" using split_on_sep [OF True] by blast
    have star: "glob ''*'' ?a" by (auto simp: glob_star)
    have first: "match_loop 0 (w # x # ws) ?a 0 \<longleftrightarrow> prefix w ?a \<and> match_loop 1 (x # ws) ?a (length w)"
    proof (cases "w = []")
      case False
      show ?thesis
      proof (cases "prefix w ?a")
        case True
        then show ?thesis using False str_index_0 [OF True] by simp
      next
        case np: False
        have "str_index ?a w \<noteq> Some 0" using np str_index_first by fastforce
        then have "\<not> match_loop 0 (w # x # ws) ?a 0"
          using False by (cases "str_index ?a w") (simp_all del: match_loop.simps(2) add: match_loop.simps(2) [of 0 w])
        then show ?thesis using np by simp
      qed
    qed simp
    have "prefix w ?a \<Longrightarrow> length w \<le> length ?a" by (rule prefix_length_le)
    then have "match_loop 0 (w # x # ws) ?a 0 \<and> (last (x # ws) \<noteq> [] \<longrightarrow> suffix (last (x # ws)) ?a) \<longleftrightarrow> segments (w # x # ws) ?a"
      unfolding first segments_def list.case using match_loop_star [OF list.distinct(2), of 1 "length w" ?a x ws] zero_less_one by blast
    then have run: "match_loop 0 (w # x # ws) ?a 0 \<and> (last (w # x # ws) \<noteq> [] \<longrightarrow> suffix (last (w # x # ws)) ?a) \<longleftrightarrow> glob ?p ?a"
      unfolding glob_segments sp last_ConsR [OF list.distinct(2), of w x ws] .
    show ?thesis
    proof (cases "?p = ''*''")
      case all: True
      then show ?thesis using star by (simp add: match_action_def)
    next
      case part: False
      have "match_action pat act \<longleftrightarrow> match_loop 0 (w # x # ws) ?a 0 \<and> (last (w # x # ws) \<noteq> [] \<longrightarrow> suffix (last (w # x # ws)) ?a)"
      proof -
        have "match_action pat act \<longleftrightarrow> (if lp then (if ls \<noteq> [] then suffix ls ?a else True) else False)"
          if "lp = match_loop 0 (w # x # ws) ?a 0" "ls = last (w # x # ws)" for lp ls
          unfolding match_action_def Let_def sp that using part True by (simp only: str_contains_char if_False not_True_eq_False)
        then show ?thesis by simp
      qed
      then show ?thesis using run by blast
    qed
  qed
qed

section \<open>What the documents say\<close>

text \<open>
  The specification, over the documents as written: some Allow statement covers the action,
  and no account-wide, unconditional Deny does.
\<close>

definition named_by :: "string list \<Rightarrow> string \<Rightarrow> bool" where
  "named_by pats act \<longleftrightarrow> (\<exists>p \<in> set pats. glob (to_lower p) (to_lower act))"

definition stmt_allows :: "statement \<Rightarrow> string \<Rightarrow> bool" where
  "stmt_allows st act \<longleftrightarrow> equal_fold (sm_effect st) ''Allow'' \<and>
     (named_by (sm_action st) act \<or> sm_not_action st \<noteq> [] \<and> \<not> named_by (sm_not_action st) act)"

definition stmt_denies :: "statement \<Rightarrow> string \<Rightarrow> bool" where
  "stmt_denies st act \<longleftrightarrow> equal_fold (sm_effect st) ''Deny'' \<and> sm_not_resource st = [] \<and>
     resource_is_broad (sm_resource st) \<and> sm_condition st = [] \<and> named_by (sm_action st) act"

definition policy_grants :: "policy_doc list \<Rightarrow> string \<Rightarrow> bool" where
  "policy_grants docs act \<longleftrightarrow> (\<exists>d \<in> set docs. \<exists>st \<in> set d. stmt_allows st act) \<and> \<not> (\<exists>d \<in> set docs. \<exists>st \<in> set d. stmt_denies st act)"

definition grants_of :: "statement \<Rightarrow> grant list" where
  "grants_of st =
     (let broad = (sm_not_resource st \<noteq> [] \<or> resource_is_broad (sm_resource st))
      in if equal_fold (sm_effect st) ''Allow''
         then map (\<lambda>act. \<lparr>gr_pattern = act, gr_broad = broad, gr_except = []\<rparr>) (sm_action st) @
           (if sm_not_action st \<noteq> [] then [\<lparr>gr_pattern = ''*'', gr_broad = broad, gr_except = sm_not_action st\<rparr>] else [])
         else [])"

definition denies_of :: "statement \<Rightarrow> string list" where
  "denies_of st =
     (if equal_fold (sm_effect st) ''Deny'' \<and> sm_not_resource st = [] \<and> resource_is_broad (sm_resource st) \<and> sm_condition st = []
      then sm_action st else [])"

definition cond_denies_of :: "statement \<Rightarrow> string list" where
  "cond_denies_of st =
     (if equal_fold (sm_effect st) ''Deny'' \<and> sm_not_resource st = [] \<and> resource_is_broad (sm_resource st) \<and> sm_condition st \<noteq> []
      then sm_action st else [])"

lemma allow_not_deny: "equal_fold e ''Allow'' \<Longrightarrow> \<not> equal_fold e ''Deny''"
  by (simp add: go_string)

lemma fold_add: "fold (\<lambda>act a. if b then as_add a act else as_add_scoped a act) acts (Action_Set gs ds cs bd u) =
    Action_Set (gs @ map (\<lambda>act. \<lparr>gr_pattern = act, gr_broad = b, gr_except = []\<rparr>) acts) ds cs bd u"
  by (induction acts arbitrary: gs) (auto simp: as_add_def as_add_scoped_def)

lemma fold_deny: "fold (\<lambda>act a. if c then as_deny_under a act else as_deny a act) acts (Action_Set gs ds cs bd u) =
    Action_Set gs (if c then ds else ds @ acts) (if c then cs @ acts else cs) bd u"
  by (induction acts arbitrary: ds cs) auto

lemma add_statement_eq:
  "add_statement st (Action_Set gs ds cs bd u) =
     Action_Set (gs @ grants_of st) (ds @ denies_of st) (cs @ cond_denies_of st) bd u"
proof -
  consider "equal_fold (sm_effect st) ''Allow''" | "\<not> equal_fold (sm_effect st) ''Allow''" "equal_fold (sm_effect st) ''Deny''"
    | "\<not> equal_fold (sm_effect st) ''Allow''" "\<not> equal_fold (sm_effect st) ''Deny''" by blast
  then show ?thesis
  proof cases
    case 1
    note nd = allow_not_deny [OF 1]
    show ?thesis
      unfolding add_statement_def Let_def fold_add
      using 1 nd by (simp add: grants_of_def denies_of_def cond_denies_of_def as_add_all_but_def Let_def)
  next
    case 2
    show ?thesis
      unfolding add_statement_def Let_def fold_deny
      using 2 by (simp add: grants_of_def denies_of_def cond_denies_of_def)
  next
    case 3
    show ?thesis
      unfolding add_statement_def Let_def
      using 3 by (simp add: grants_of_def denies_of_def cond_denies_of_def)
  qed
qed

lemma fold_statements:
  "fold add_statement d (Action_Set gs ds cs bd u) =
     Action_Set (gs @ concat (map grants_of d)) (ds @ concat (map denies_of d)) (cs @ concat (map cond_denies_of d)) bd u"
  by (induction d arbitrary: gs ds cs) (simp_all add: add_statement_eq)

lemma fold_docs:
  "fold (\<lambda>d a. fold add_statement d a) docs (Action_Set gs ds cs bd u) =
     Action_Set (gs @ concat (map grants_of (concat docs))) (ds @ concat (map denies_of (concat docs)))
       (cs @ concat (map cond_denies_of (concat docs))) bd u"
  by (induction docs arbitrary: gs ds cs) (simp_all add: fold_statements)

lemma allowed_actions_eq:
  "allowed_actions docs = Action_Set (concat (map grants_of (concat docs))) (concat (map denies_of (concat docs)))
     (concat (map cond_denies_of (concat docs))) None False"
  by (simp add: allowed_actions_def no_actions_def fold_docs)

lemma match_any: "list_ex (\<lambda>p. match_action p act) ps \<longleftrightarrow> named_by ps act"
  by (auto simp: list_ex_iff named_by_def match_action_glob)

lemma covers_plain: "covers \<lparr>gr_pattern = p, gr_broad = b, gr_except = []\<rparr> act \<longleftrightarrow> match_action p act"
  by (simp add: covers_def)

lemma covers_all_but: "covers \<lparr>gr_pattern = ''*'', gr_broad = b, gr_except = ps\<rparr> act \<longleftrightarrow> \<not> named_by ps act"
proof -
  have "match_action ''*'' act" by (simp add: match_action_def go_string)
  then show ?thesis by (simp add: covers_def match_any)
qed

lemma named_by_match: "named_by ps act \<longleftrightarrow> (\<exists>p \<in> set ps. match_action p act)"
  by (simp add: named_by_def match_action_glob)

lemma covers_of: "(\<exists>g \<in> set (grants_of st). covers g act) \<longleftrightarrow> stmt_allows st act"
proof (cases "equal_fold (sm_effect st) ''Allow''")
  case True
  let ?b = "sm_not_resource st \<noteq> [] \<or> resource_is_broad (sm_resource st)"
  let ?gs = "map (\<lambda>act. \<lparr>gr_pattern = act, gr_broad = ?b, gr_except = []\<rparr>) (sm_action st)"
  let ?g = "\<lparr>gr_pattern = ''*'', gr_broad = ?b, gr_except = sm_not_action st\<rparr>"
  have gs: "set (grants_of st) = set ?gs \<union> (if sm_not_action st \<noteq> [] then {?g} else {})"
    using True by (simp add: grants_of_def Let_def)
  have "(\<exists>g \<in> set ?gs. covers g act) \<longleftrightarrow> named_by (sm_action st) act"
    unfolding named_by_match set_map bex_simps covers_plain ..
  then show ?thesis
    unfolding gs bex_Un stmt_allows_def using True covers_all_but [of ?b "sm_not_action st" act] by auto
qed (simp add: grants_of_def stmt_allows_def)

lemma denied_of: "list_ex (\<lambda>p. match_action p act) (concat (map denies_of sts)) \<longleftrightarrow> (\<exists>st \<in> set sts. stmt_denies st act)"
  by (auto simp: list_ex_iff denies_of_def stmt_denies_def named_by_def match_action_glob split: if_splits)

lemma allows_docs: "allows (allowed_actions docs) act \<longleftrightarrow> policy_grants docs act"
proof -
  have "list_ex (\<lambda>g. covers g act) (concat (map grants_of (concat docs))) \<longleftrightarrow> (\<exists>st \<in> set (concat docs). stmt_allows st act)"
    unfolding covers_of [symmetric] by (auto simp: list_ex_iff)
  then show ?thesis by (auto simp: allowed_actions_eq as_denied_def denied_of policy_grants_def)
qed

text \<open>The document of the boundary that caps a principal, when it has one the input carries.\<close>

definition boundary_doc :: "string option \<Rightarrow> (string, policy_doc) gomap \<Rightarrow> policy_doc option" where
  "boundary_doc pb managed = (case pb of None \<Rightarrow> None | Some arn \<Rightarrow> if arn = [] then None else map_of managed arn)"

definition effective :: "policy_doc list \<Rightarrow> string option \<Rightarrow> (string, policy_doc) gomap \<Rightarrow> action_set" where
  "effective docs pb managed = fst (cap_by_boundary (allowed_actions docs) pb managed [])"

lemma capped_allows:
  "as_boundary a = None \<Longrightarrow> as_boundary b = None \<Longrightarrow> allows (capped_by a b) act \<longleftrightarrow> allows a act \<and> allows b act"
  by (cases a; cases b) (auto simp: as_denied_def)

lemma unknown_allows: "as_boundary a = None \<Longrightarrow> allows (capped_by_unknown a) act \<longleftrightarrow> allows a act"
  by (cases a) (auto simp: as_denied_def)

lemma allowed_no_boundary [simp]: "as_boundary (allowed_actions docs) = None"
  by (simp add: allowed_actions_eq)

lemma effective_allows:
  "allows (effective docs pb managed) act \<longleftrightarrow> policy_grants docs act \<and>
     (case boundary_doc pb managed of None \<Rightarrow> True | Some doc \<Rightarrow> policy_grants [doc] act)"
  by (auto simp: effective_def cap_by_boundary_def boundary_doc_def Let_def allows_docs capped_allows unknown_allows split: option.splits)

lemma broad_allows: "broadly_allows a act \<Longrightarrow> allows a act"
proof (induction a act rule: allows.induct)
  case (1 gs ds cs b u act)
  then show ?case by (auto simp: list_ex_iff split: option.splits if_splits)
qed

text \<open>Denied by the set itself or by its boundary.\<close>

fun ever_denied :: "action_set \<Rightarrow> string \<Rightarrow> bool" where
  "ever_denied (Action_Set gs ds cs b u) act =
     (list_ex (\<lambda>d. match_action d act) ds \<or> (case b of None \<Rightarrow> False | Some b' \<Rightarrow> ever_denied b' act))"

lemma admin_allows: "is_admin a \<Longrightarrow> \<not> ever_denied a act \<Longrightarrow> broadly_allows a act"
proof (induction a act rule: broadly_allows.induct)
  case (1 gs ds cs b u act)
  have star: "match_action ''*'' act" by (simp add: match_action_def go_string)
  obtain g where g: "g \<in> set gs" "gr_pattern g = ''*''" "gr_broad g" "gr_except g = []"
    using 1(2) by (auto simp: list_ex_iff split: if_splits)
  then have "list_ex (\<lambda>g. gr_broad g \<and> covers g act) gs" using star by (auto simp: list_ex_iff covers_def)
  moreover have "case b of None \<Rightarrow> True | Some b' \<Rightarrow> broadly_allows b' act"
    using 1 by (auto split: option.splits if_splits)
  ultimately show ?case using 1(3) by (auto simp: as_denied_def split: option.splits)
qed

text \<open>
  \<open>matchAction\<close> is glob matching: whatever the pattern, the greedy search for its segments accepts exactly the
  actions in which each star stands for some run of characters, letter case aside.
\<close>

theorem match_action_is_glob: "match_action pat act \<longleftrightarrow> glob (to_lower pat) (to_lower act)"
  by (rule match_action_glob)

text \<open>
  C9. A principal's effective permissions are AWS's: an action is allowed exactly when some Allow statement covers it, no
  account-wide unconditional Deny does, and the attached boundary, when its document is known, allows it by the
  same rule. The order of statements and documents plays no part.
\<close>

theorem effective_permissions:
  "allows (fst (cap_by_boundary (allowed_actions docs) pb managed ps)) act \<longleftrightarrow> policy_grants docs act \<and>
     (case boundary_doc pb managed of None \<Rightarrow> True | Some doc \<Rightarrow> policy_grants [doc] act)"
proof -
  have "fst (cap_by_boundary (allowed_actions docs) pb managed ps) = effective docs pb managed"
    by (auto simp: effective_def cap_by_boundary_def Let_def split: option.splits)
  then show ?thesis by (simp add: effective_allows)
qed

end
