(* ===== verification/Iam_Graph.thy ===== *)
theory Iam_Graph
  imports Iam_Policy
begin

text \<open>
  The IAM collector, \<open>backend/internal/ingestion/iam/iam.go\<close> and \<open>federated.go\<close>: how an account's authorization
  details become users, roles, identity providers and the edges between them. The decoded document is the input;
  the clock and the opt-in to seed IAM users are arguments. Go maps are ranged in list order, so the tag that wins
  among keys that differ only in case is the first listed.
\<close>

section \<open>Account ids and crown-jewel tags\<close>

definition account_from_arn :: "string \<Rightarrow> string" where
  "account_from_arn arn =
     (let parts = split_on (CHR '':'') arn
      in if length parts < 6 then []
         else (let acct = parts ! 4 in if acct \<noteq> [] \<and> acct \<noteq> ''aws'' then acct else []))"

type_synonym tags = "(string, string) gomap"

definition jewel_tag_keys :: "string list" where
  "jewel_tag_keys = [''classification'', ''data-classification'', ''data'', ''sensitivity'']"

definition jewel_tag_values :: "string list" where
  "jewel_tag_values = [''pii'', ''sensitive'', ''confidential'', ''restricted'', ''secret'']"

definition tag_get :: "tags \<Rightarrow> string \<Rightarrow> string" where
  "tag_get tags key = (case filter (\<lambda>(k, v). equal_fold k key) tags of [] \<Rightarrow> [] | (k, v) # _ \<Rightarrow> v)"

definition crown_jewel_from_tags :: "tags \<Rightarrow> bool" where
  "crown_jewel_from_tags tags \<longleftrightarrow>
     equal_fold (tag_get tags ''crown-jewel'') ''true'' \<or>
     list_ex (\<lambda>key. let v = to_lower (tag_get tags key) in v \<noteq> [] \<and> list_ex (\<lambda>want. v = want) jewel_tag_values) jewel_tag_keys"

definition mark_crown_jewel_from_tags :: "props \<Rightarrow> tags \<Rightarrow> bool \<times> props" where
  "mark_crown_jewel_from_tags ps tags =
     (if \<not> crown_jewel_from_tags tags then (False, ps)
      else (let ps = AList.update prop_crown_jewel (GBool True) ps
            in (True, if gm_has ps prop_crown_jewel_basis then ps else AList.update prop_crown_jewel_basis (GStr ''tagged'') ps)))"

section \<open>Trust in public identity providers\<close>

record oidc_issuer =
  oi_host :: string
  oi_name :: string
  oi_subject :: string
  oi_pinned :: "string \<Rightarrow> bool"

definition wild :: "char \<Rightarrow> bool" where
  "wild c \<longleftrightarrow> c = CHR ''*'' \<or> c = CHR ''?''"

text \<open>\<open>strings.Trim(p, "*?")\<close> is empty exactly when the pattern holds nothing else.\<close>

definition trim_wild :: "string \<Rightarrow> string" where
  "trim_wild s = rev (dropWhile wild (rev (dropWhile wild s)))"

definition github_subject_pinned :: "string \<Rightarrow> bool" where
  "github_subject_pinned p =
     (if trim_wild p = [] then False
      else (case cut_prefix (to_lower p) ''repo:'' of
              None \<Rightarrow> True
            | Some rest \<Rightarrow>
                (let owner = takeWhile (\<lambda>c. c \<noteq> CHR ''/'' \<and> c \<noteq> CHR '':'') rest
                 in if owner = rest \<or> owner = [] then False else \<not> list_ex wild owner)))"

definition public_issuers :: "oidc_issuer list" where
  "public_issuers =
     [\<lparr>oi_host = ''token.actions.githubusercontent.com'', oi_name = ''GitHub Actions'',
       oi_subject = ''token.actions.githubusercontent.com:sub'', oi_pinned = github_subject_pinned\<rparr>]"

record federated_trust =
  ft_issuer :: oidc_issuer
  ft_subjects :: "string list"
  ft_open :: bool

definition allows_web_identity :: "string list \<Rightarrow> bool" where
  "allows_web_identity acts \<longleftrightarrow> list_ex (\<lambda>a. match_action a ''sts:AssumeRoleWithWebIdentity'') acts"

definition public_issuer :: "string \<Rightarrow> oidc_issuer option" where
  "public_issuer fed =
     (let host = (case str_cut fed '':oidc-provider/'' of Some (_, after) \<Rightarrow> after | None \<Rightarrow> fed)
      in List.find (\<lambda>iss. equal_fold host (oi_host iss)) public_issuers)"

definition trim_suffix :: "string \<Rightarrow> string \<Rightarrow> string" where
  "trim_suffix s suf = (if suffix suf s then take (length s - length suf) s else s)"

definition strings_of :: "gval \<Rightarrow> string list" where
  "strings_of v = (case v of GStr s \<Rightarrow> [s] | GList xs \<Rightarrow> List.map_filter (\<lambda>x. case x of GStr s \<Rightarrow> Some s | _ \<Rightarrow> None) xs | _ \<Rightarrow> [])"

definition restricting_op :: "string \<Rightarrow> bool" where
  "restricting_op op =
     (let bare = (case str_cut op '':'' of Some (_, after) \<Rightarrow> after | None \<Rightarrow> op);
          bare = trim_suffix bare ''IfExists''
      in to_lower bare \<in> set [''stringequals'', ''stringlike'', ''stringequalsignorecase''])"

definition subject_patterns :: "props \<Rightarrow> string \<Rightarrow> string list" where
  "subject_patterns cond key =
     sort_by str_less
       (concat (map (\<lambda>(op, raw).
          if restricting_op op
          then concat (map (\<lambda>(k, v). if equal_fold k key then strings_of v else []) (case raw of GMap b \<Rightarrow> b | _ \<Rightarrow> []))
          else []) cond))"

definition statement_trusts :: "statement \<Rightarrow> federated_trust list" where
  "statement_trusts st =
     (if \<not> equal_fold (sm_effect st) ''Allow'' \<or> \<not> allows_web_identity (sm_action st) then []
      else List.map_filter (\<lambda>fed. map_option (\<lambda>iss.
             (let subjects = subject_patterns (sm_condition st) (oi_subject iss)
              in \<lparr>ft_issuer = iss, ft_subjects = subjects,
                  ft_open = (subjects = [] \<or> list_ex (\<lambda>s. \<not> oi_pinned iss s) subjects)\<rparr>)) (public_issuer fed))
           (tp_federated (sm_principal st)))"

definition federated_trusts :: "policy_doc \<Rightarrow> federated_trust list" where
  "federated_trusts doc = concat (map statement_trusts doc)"

definition federated_node :: "federated_trust \<Rightarrow> node" where
  "federated_node ft =
     (let iss = ft_issuer ft;
          scope = (if ft_open ft then ''*'' else str_join (ft_subjects ft) '','');
          name = (if ft_open ft then oi_name iss @ '' (any repository)''
                  else oi_name iss @ '' ('' @ str_join (ft_subjects ft) '', '' @ '')'');
          ps = [(''idp'', GStr (to_lower (map (\<lambda>c. if c = CHR '' '' then CHR ''-'' else c) (oi_name iss)))),
                (''oidc_issuer'', GStr (oi_host iss))];
          ps = (if ft_subjects ft \<noteq> [] then AList.update ''oidc_subjects'' (GStr (str_join (ft_subjects ft) '','')) ps else ps);
          ps = (if ft_open ft
                then AList.update ''trust_note''
                       (GStr (''the role trusts '' @ oi_name iss @ '' without pinning '' @ oi_subject iss @
                              '' to an owner, so a workflow in any account on the issuer can assume it''))
                       (AList.update prop_internet_exposed (GBool True) ps)
                else ps)
      in \<lparr>n_id = new_id label_idp [''oidc'', oi_host iss, scope], n_label = label_idp, n_name = name, n_props = ps\<rparr>)"

section \<open>The builder\<close>

record iam_builder =
  bd_nodes :: "(string, node) gomap"
  bd_edges :: "edge list"

definition bd_upsert :: "node \<Rightarrow> iam_builder \<Rightarrow> iam_builder" where
  "bd_upsert n b =
     (case map_of (bd_nodes b) (n_id n) of
        Some ex \<Rightarrow>
          (let ex = ex\<lparr>n_props := fold (\<lambda>(k, v) m. AList.update k v m) (n_props n) (n_props ex)\<rparr>;
               ex = (if n_name n \<noteq> [] then ex\<lparr>n_name := n_name n\<rparr> else ex)
           in b\<lparr>bd_nodes := AList.update (n_id n) ex (bd_nodes b)\<rparr>)
      | None \<Rightarrow> b\<lparr>bd_nodes := AList.update (n_id n) n (bd_nodes b)\<rparr>)"

definition bd_stub :: "label \<Rightarrow> string \<Rightarrow> iam_builder \<Rightarrow> string \<times> iam_builder" where
  "bd_stub lbl name b =
     (let i = new_id lbl [name]
      in (i, if gm_has (bd_nodes b) i then b
             else b\<lparr>bd_nodes := AList.update i \<lparr>n_id = i, n_label = lbl, n_name = name, n_props = []\<rparr> (bd_nodes b)\<rparr>))"

definition bd_edge_with :: "edge_type \<Rightarrow> string \<Rightarrow> string \<Rightarrow> real \<Rightarrow> props \<Rightarrow> iam_builder \<Rightarrow> iam_builder" where
  "bd_edge_with t u v p ps b = b\<lparr>bd_edges := bd_edges b @ [\<lparr>e_type = t, e_from = u, e_to = v, e_prob = p, e_props = ps\<rparr>]\<rparr>"

definition bd_edge :: "edge_type \<Rightarrow> string \<Rightarrow> string \<Rightarrow> real \<Rightarrow> iam_builder \<Rightarrow> iam_builder" where
  "bd_edge t u v p b = bd_edge_with t u v p [] b"

definition note_condition :: "props \<Rightarrow> real \<Rightarrow> real \<times> props" where
  "note_condition ps prob =
     (min prob (5 / 10),
      AList.update ''condition_note''
        (GStr (''a Deny on the actions this needs applies only under a condition the policy cannot settle '' @
               ''(MFA, source address, a tag); the escalation holds when that condition is not met, so it is reported unverified''))
        (AList.update ''deny_condition_unevaluated'' (GBool True) ps))"

definition note_boundary :: "props \<Rightarrow> action_set \<Rightarrow> real \<Rightarrow> real \<times> props" where
  "note_boundary ps a prob =
     (if as_unresolved a
      then (min prob (5 / 10),
            AList.update ''boundary_note''
              (GStr (''a permissions boundary is attached but its policy document was not in the input; '' @
                     ''the cap could not be computed, so this escalation is reported unverified''))
              (AList.update ''permissions_boundary_unresolved'' (GBool True) ps))
      else if as_boundary a \<noteq> None
      then (prob, AList.update ''boundary_note''
              (GStr ''a permissions boundary is attached and was intersected; it does not cap the matched primitives'')
              (AList.update ''boundary_evaluated'' (GBool True) ps))
      else (prob, ps))"

definition escalation :: "string \<Rightarrow> action_set \<Rightarrow> string \<Rightarrow> principal_kind \<Rightarrow> iam_builder \<Rightarrow> iam_builder" where
  "escalation pid a admin kind b =
     (if pid = admin then b
      else if is_admin a
      then (let ps = [(''reason'', GStr ''already administrator-equivalent (Allow *:*)'')];
                (prob, ps) = note_boundary ps a (99 / 100);
                (prob, ps) = (if conditionally_denied a ''*'' then note_condition ps prob else (prob, ps))
            in bd_edge_with edge_can_escalate_to pid admin prob ps b)
      else (let matches = detect_privesc a kind
            in if matches = [] then b
               else (let names = map pm_name matches;
                         ps = [(''primitives'', GStr (str_join names ''; '')), (''primitive_count'', GInt (int (length names)))];
                         (prob, ps) =
                           (if list_all pm_scoped matches
                            then (5 / 10, AList.update ''scope_note''
                                    (GStr ''granted only on specific resources; escalation depends on those targets being privileged'')
                                    (AList.update ''resource_scoped'' (GBool True) ps))
                            else (9 / 10, ps));
                         (prob, ps) = note_boundary ps a prob;
                         (prob, ps) = (if list_all pm_cond matches then note_condition ps prob else (prob, ps))
                     in bd_edge_with edge_can_escalate_to pid admin prob ps b)))"

section \<open>Parsing the authorization details\<close>

record user_detail =
  ud_name :: string
  ud_arn :: string
  ud_groups :: "string list"
  ud_attached :: "string list"
  ud_inline :: "policy_doc list"
  ud_boundary :: "string option"

record group_detail =
  gd_name :: string
  gd_attached :: "string list"
  gd_inline :: "policy_doc list"

record role_detail =
  rd_name :: string
  rd_arn :: string
  rd_trust :: policy_doc
  rd_attached :: "string list"
  rd_inline :: "policy_doc list"
  rd_tags :: "(string \<times> string) list"
  rd_boundary :: "string option"

record policy_version =
  pv_document :: policy_doc
  pv_id :: string
  pv_default :: bool

record managed_policy =
  mp_arn :: string
  mp_default :: string
  mp_versions :: "policy_version list"

record auth_details =
  ad_users :: "user_detail list"
  ad_groups :: "group_detail list"
  ad_roles :: "role_detail list"
  ad_policies :: "managed_policy list"

definition default_document :: "managed_policy \<Rightarrow> policy_doc" where
  "default_document p =
     (case List.find (\<lambda>v. pv_default v \<or> pv_id v = mp_default p) (mp_versions p) of
        Some v \<Rightarrow> pv_document v
      | None \<Rightarrow> (case mp_versions p of [] \<Rightarrow> [] | v # _ \<Rightarrow> pv_document v))"

definition managed_docs :: "managed_policy list \<Rightarrow> (string, policy_doc) gomap" where
  "managed_docs ps = fold (\<lambda>p m. AList.update (mp_arn p) (default_document p) m) ps []"

definition attached_docs :: "(string, policy_doc) gomap \<Rightarrow> string list \<Rightarrow> policy_doc list" where
  "attached_docs managed arns = List.map_filter (map_of managed) arns"

definition group_docs :: "(string, policy_doc) gomap \<Rightarrow> group_detail list \<Rightarrow> (string, policy_doc list) gomap" where
  "group_docs managed gs = fold (\<lambda>g m. AList.update (gd_name g) (gd_inline g @ attached_docs managed (gd_attached g)) m) gs []"

text \<open>A principal's identity properties.\<close>

definition principal_props :: "string \<Rightarrow> props" where
  "principal_props arn =
     (let ps = [(prop_arn, GStr arn)]; acct = account_from_arn arn
      in if acct \<noteq> [] then AList.update prop_account (GStr acct) ps else ps)"

definition user_docs :: "(string, policy_doc) gomap \<Rightarrow> (string, policy_doc list) gomap \<Rightarrow> user_detail \<Rightarrow> policy_doc list" where
  "user_docs managed groups u =
     ud_inline u @ attached_docs managed (ud_attached u) @
     concat (map (\<lambda>g. case map_of groups g of Some ds \<Rightarrow> ds | None \<Rightarrow> []) (ud_groups u))"

definition parse_user :: "bool \<Rightarrow> (string, policy_doc) gomap \<Rightarrow> (string, policy_doc list) gomap \<Rightarrow> string \<Rightarrow> user_detail \<Rightarrow>
    iam_builder \<times> (string, string) gomap \<Rightarrow> iam_builder \<times> (string, string) gomap" where
  "parse_user seed managed groups admin u = (\<lambda>(b, ids).
     if ud_name u = [] then (b, ids)
     else (let i = new_id label_user [ud_arn u];
               ids = AList.update (ud_arn u) i ids;
               ps = principal_props (ud_arn u);
               ps = (if seed
                     then AList.update ''seed_basis'' (GStr ''credential-exposed (IAM user; assumes a leaked credential)'')
                            (AList.update prop_credential_exposed (GBool True) ps)
                     else ps);
               (a, ps) = cap_by_boundary (allowed_actions (user_docs managed groups u)) (ud_boundary u) managed ps;
               b = bd_upsert \<lparr>n_id = i, n_label = label_user, n_name = ud_name u, n_props = ps\<rparr> b
           in (escalation i a admin As_User b, ids)))"

definition trust_props :: "policy_doc \<Rightarrow> props \<Rightarrow> props" where
  "trust_props doc ps =
     (let (everyone, uncond) = trusts_everyone doc
      in if everyone
         then (let ps = AList.update ''public_trust'' (GBool True) (AList.update prop_internet_exposed (GBool True) ps)
               in if uncond then AList.update prop_public_access (GBool True) ps else ps)
         else ps)"

definition role_trust :: "string \<Rightarrow> federated_trust \<Rightarrow> iam_builder \<times> props \<Rightarrow> iam_builder \<times> props" where
  "role_trust i ft = (\<lambda>(b, ps).
     let idp = federated_node ft;
         b = bd_edge edge_authenticates (n_id idp) i (9 / 10) (bd_upsert idp b)
     in (b, if ft_open ft then AList.update ''federated_trust_open'' (GBool True) ps else ps))"

definition parse_role :: "(string, policy_doc) gomap \<Rightarrow> string \<Rightarrow> role_detail \<Rightarrow>
    iam_builder \<times> (string, string) gomap \<Rightarrow> iam_builder \<times> (string, string) gomap" where
  "parse_role managed admin r = (\<lambda>(b, ids).
     if rd_name r = [] then (b, ids)
     else (let i = new_id label_iam_role [rd_arn r];
               ids = AList.update (rd_arn r) i ids;
               ps = principal_props (rd_arn r);
               tags = fold (\<lambda>(k, v) m. AList.update k v m) (rd_tags r) [];
               ps = snd (mark_crown_jewel_from_tags ps tags);
               ps = trust_props (rd_trust r) ps;
               (a, ps) = cap_by_boundary (allowed_actions (rd_inline r @ attached_docs managed (rd_attached r))) (rd_boundary r) managed ps;
               (b, ps) = fold (role_trust i) (federated_trusts (rd_trust r)) (b, ps);
               b = bd_upsert \<lparr>n_id = i, n_label = label_iam_role, n_name = rd_name r, n_props = ps\<rparr> b
           in (escalation i a admin As_Role b, ids)))"

definition chain_peer :: "(string, string) gomap \<Rightarrow> string \<Rightarrow> string \<Rightarrow> iam_builder \<Rightarrow> iam_builder" where
  "chain_peer ids rid peer b =
     (case map_of ids peer of Some pid \<Rightarrow> if pid \<noteq> rid then bd_edge edge_assumes pid rid (8 / 10) b else b | None \<Rightarrow> b)"

definition chain_role :: "(string, string) gomap \<Rightarrow> role_detail \<Rightarrow> iam_builder \<Rightarrow> iam_builder" where
  "chain_role ids r b =
     (case map_of ids (rd_arn r) of
        None \<Rightarrow> b
      | Some rid \<Rightarrow>
          fold (\<lambda>st b. if \<not> equal_fold (sm_effect st) ''Allow'' then b else fold (chain_peer ids rid) (tp_aws (sm_principal st)) b)
               (rd_trust r) b)"

definition admin_node :: "string \<Rightarrow> node" where
  "admin_node i = \<lparr>n_id = i, n_label = label_iam_role, n_name = ''account-admin (effective)'',
     n_props = [(prop_crown_jewel, GBool True), (''admin'', GBool True), (''synthetic'', GBool True),
                (''note'', GStr ''full account control - IAM escalation target'')]\<rparr>"

definition iam_parse :: "bool \<Rightarrow> gotime \<Rightarrow> auth_details \<Rightarrow> event" where
  "iam_parse seed now d =
     (let managed = managed_docs (ad_policies d);
          groups = group_docs managed (ad_groups d);
          (admin, b) = bd_stub label_iam_role ''perspectivegraph:account-admin'' \<lparr>bd_nodes = [], bd_edges = []\<rparr>;
          b = bd_upsert (admin_node admin) b;
          (b, ids) = fold (parse_user seed managed groups admin) (ad_users d) (b, []);
          (b, ids) = fold (parse_role managed admin) (ad_roles d) (b, ids);
          b = fold (chain_role ids) (ad_roles d) b
      in \<lparr>ev_source = ''iam'', ev_kind = ''relationship'', ev_observed = now, ev_tenant = [],
          ev_nodes = map snd (bd_nodes b), ev_edges = bd_edges b, ev_snapshot = None\<rparr>)"

section \<open>What the builder keeps\<close>

text \<open>
  Every edge runs between nodes of the event, except those into the role being built, carries a
  probability above zero and at most one, and every label and edge type is in the vocabulary.
\<close>

definition bd_ok :: "string set \<Rightarrow> iam_builder \<Rightarrow> bool" where
  "bd_ok extra b \<longleftrightarrow> gm_ok (bd_nodes b) \<and>
     (\<forall>i n. map_of (bd_nodes b) i = Some n \<longrightarrow> n_id n = i \<and> is_valid_label (n_label n)) \<and>
     (\<forall>e \<in> set (bd_edges b). e_from e \<in> dom (map_of (bd_nodes b)) \<and> e_to e \<in> dom (map_of (bd_nodes b)) \<union> extra \<and>
        is_valid_edge_type (e_type e) \<and> 0 < e_prob e \<and> e_prob e \<le> 1)"

definition bd_ids :: "iam_builder \<Rightarrow> string set" where
  "bd_ids b = dom (map_of (bd_nodes b))"

lemma bd_upsert_ok:
  "bd_ok X b \<Longrightarrow> is_valid_label (n_label n) \<Longrightarrow> bd_ok (X - {n_id n}) (bd_upsert n b) \<and> bd_ids (bd_upsert n b) = insert (n_id n) (bd_ids b)"
proof -
  assume ok: "bd_ok X b" and l: "is_valid_label (n_label n)"
  obtain m where m: "bd_upsert n b = b\<lparr>bd_nodes := AList.update (n_id n) m (bd_nodes b)\<rparr>" "n_id m = n_id n" "is_valid_label (n_label m)"
  proof (cases "map_of (bd_nodes b) (n_id n)")
    case None
    then show ?thesis using that [of n] l by (simp add: bd_upsert_def)
  next
    case (Some ex)
    then have "n_id ex = n_id n" "is_valid_label (n_label ex)" using ok by (auto simp: bd_ok_def)
    then show ?thesis using that Some by (auto simp: bd_upsert_def Let_def)
  qed
  show ?thesis using ok m(2,3) unfolding m(1) bd_ok_def bd_ids_def by (auto simp: map_of_update)
qed

lemma bd_edge_ok:
  "bd_ok X b \<Longrightarrow> u \<in> bd_ids b \<Longrightarrow> v \<in> bd_ids b \<union> X \<Longrightarrow> is_valid_edge_type t \<Longrightarrow> 0 < p \<Longrightarrow> p \<le> 1 \<Longrightarrow>
     bd_ok X (bd_edge_with t u v p ps b) \<and> bd_ids (bd_edge_with t u v p ps b) = bd_ids b"
  unfolding bd_ok_def bd_ids_def bd_edge_with_def by auto

lemma edge_types_valid:
  "is_valid_edge_type edge_can_escalate_to" "is_valid_edge_type edge_authenticates" "is_valid_edge_type edge_assumes"
  "is_valid_label label_user" "is_valid_label label_iam_role" "is_valid_label label_idp"
  by (simp_all add: is_valid_edge_type_def valid_edge_types_def is_valid_label_def valid_labels_def)

text \<open>The edge a principal's escalation adds, when it adds one.\<close>

definition escalation_edge :: "action_set \<Rightarrow> principal_kind \<Rightarrow> (real \<times> props) option" where
  "escalation_edge a kind =
     (if is_admin a
      then (let (prob, ps) = note_boundary [(''reason'', GStr ''already administrator-equivalent (Allow *:*)'')] a (99 / 100)
            in Some (if conditionally_denied a ''*'' then note_condition ps prob else (prob, ps)))
      else (let matches = detect_privesc a kind; names = map pm_name matches;
                ps = [(''primitives'', GStr (str_join names ''; '')), (''primitive_count'', GInt (int (length names)))];
                (prob, ps) =
                  (if list_all pm_scoped matches
                   then (5 / 10, AList.update ''scope_note''
                           (GStr ''granted only on specific resources; escalation depends on those targets being privileged'')
                           (AList.update ''resource_scoped'' (GBool True) ps))
                   else (9 / 10, ps));
                (prob, ps) = note_boundary ps a prob
            in if matches = [] then None
               else Some (if list_all pm_cond matches then note_condition ps prob else (prob, ps))))"

lemma escalation_eq:
  "escalation pid a admin kind b =
     (if pid = admin then b
      else (case escalation_edge a kind of None \<Rightarrow> b | Some (p, ps) \<Rightarrow> bd_edge_with edge_can_escalate_to pid admin p ps b))"
  by (simp add: escalation_def escalation_edge_def Let_def split: prod.split)

lemma note_boundary_fst: "fst (note_boundary ps a p) = (if as_unresolved a then min p (1 / 2) else p)"
  by (simp add: note_boundary_def)

lemma note_condition_fst: "fst (note_condition ps p) = min p (1 / 2)"
  by (simp add: note_condition_def)

lemma escalation_edge_prob:
  assumes "escalation_edge a kind = Some (p, ps)"
  shows "p = (let base = (if is_admin a then 99 / 100 else if list_all pm_scoped (detect_privesc a kind) then 1 / 2 else 9 / 10);
                  base = (if as_unresolved a then min base (1 / 2) else base)
              in if (if is_admin a then conditionally_denied a ''*'' else list_all pm_cond (detect_privesc a kind))
                 then min base (1 / 2) else base)"
proof -
  let ?ps1 = "[(''reason'', GStr ''already administrator-equivalent (Allow *:*)'')]"
  have *: "fst (case x of (prob, ps) \<Rightarrow> if c then note_condition ps prob else (prob, ps)) = (if c then min (fst x) (1 / 2) else fst x)" for x :: "real \<times> props" and c
    by (cases x) (simp add: note_condition_fst)
  show ?thesis
    using assms [symmetric] note_boundary_fst
    by (auto simp: escalation_edge_def Let_def note_condition_fst split: prod.splits if_splits dest!: arg_cong [where f = fst])
qed

section \<open>When an escalation is reported\<close>

lemma scan_actions_eq:
  "scan_actions a acts broad cond =
     (if list_all (allows a) acts
      then (True, broad \<and> list_all (broadly_allows a) acts, cond \<or> list_ex (conditionally_denied a) acts)
      else (False, snd (scan_actions a acts broad cond)))"
  by (induction acts arbitrary: broad cond) (auto split: if_splits)

lemma match_primitive_eq:
  "match_primitive a kind p =
     (if (pr_user_only p \<longrightarrow> kind = As_User) \<and> list_all (allows a) (pr_actions p)
      then Some \<lparr>pm_name = pr_name p, pm_scoped = (\<not> list_all (broadly_allows a) (pr_actions p)),
                 pm_cond = list_ex (conditionally_denied a) (pr_actions p)\<rparr>
      else None)"
proof (cases "list_all (allows a) (pr_actions p)")
  case True
  then have "scan_actions a (pr_actions p) True False =
      (True, list_all (broadly_allows a) (pr_actions p), list_ex (conditionally_denied a) (pr_actions p))"
    by (simp add: scan_actions_eq)
  then show ?thesis using True by (cases kind) (simp_all add: match_primitive_def)
next
  case False
  then have "\<not> fst (scan_actions a (pr_actions p) True False)" by (subst scan_actions_eq) simp
  then show ?thesis using False by (cases "scan_actions a (pr_actions p) True False") (simp add: match_primitive_def)
qed

lemma match_primitive_Some:
  "match_primitive a kind p \<noteq> None \<longleftrightarrow> (pr_user_only p \<longrightarrow> kind = As_User) \<and> list_all (allows a) (pr_actions p)"
  by (simp add: match_primitive_eq)

lemma map_filter_Nil: "List.map_filter f xs = [] \<longleftrightarrow> (\<forall>x \<in> set xs. f x = None)"
  by (induction xs) (auto simp: List.map_filter_simps split: option.splits)

lemma detect_none:
  "detect_privesc a kind = [] \<longleftrightarrow>
     \<not> (\<exists>p \<in> set primitives. (pr_user_only p \<longrightarrow> kind = As_User) \<and> list_all (allows a) (pr_actions p))"
  unfolding detect_privesc_def map_filter_Nil using match_primitive_Some [of a kind] by blast

lemma escalation_edge_None: "escalation_edge a kind = None \<longleftrightarrow> \<not> is_admin a \<and> detect_privesc a kind = []"
  by (simp add: escalation_edge_def Let_def split: prod.split)

text \<open>Administrator over everything, by the documents alone.\<close>

definition admin_by :: "policy_doc list \<Rightarrow> bool" where
  "admin_by docs \<longleftrightarrow>
     (\<exists>d \<in> set docs. \<exists>st \<in> set d. equal_fold (sm_effect st) ''Allow'' \<and> ''*'' \<in> set (sm_action st) \<and>
        (sm_not_resource st \<noteq> [] \<or> resource_is_broad (sm_resource st))) \<and>
     \<not> (\<exists>d \<in> set docs. \<exists>st \<in> set d. stmt_denies st ''*'')"

lemma admin_grant:
  "(\<exists>g \<in> set (grants_of st). gr_pattern g = ''*'' \<and> gr_broad g \<and> gr_except g = []) \<longleftrightarrow>
     equal_fold (sm_effect st) ''Allow'' \<and> ''*'' \<in> set (sm_action st) \<and> (sm_not_resource st \<noteq> [] \<or> resource_is_broad (sm_resource st))"
proof (cases "equal_fold (sm_effect st) ''Allow''")
  case True
  let ?b = "sm_not_resource st \<noteq> [] \<or> resource_is_broad (sm_resource st)"
  let ?gs = "map (\<lambda>act. \<lparr>gr_pattern = act, gr_broad = ?b, gr_except = []\<rparr>) (sm_action st)"
  have gs: "set (grants_of st) = set ?gs \<union>
      (if sm_not_action st \<noteq> [] then {\<lparr>gr_pattern = ''*'', gr_broad = ?b, gr_except = sm_not_action st\<rparr>} else {})"
    using True by (simp add: grants_of_def Let_def)
  have "(\<exists>g \<in> set ?gs. gr_pattern g = ''*'' \<and> gr_broad g \<and> gr_except g = []) \<longleftrightarrow> ''*'' \<in> set (sm_action st) \<and> ?b"
    unfolding set_map bex_simps by auto
  then show ?thesis unfolding gs bex_Un using True by auto
qed (simp add: grants_of_def)

lemma admin_docs: "is_admin (allowed_actions docs) \<longleftrightarrow> admin_by docs"
proof -
  have "list_ex (\<lambda>g. gr_pattern g = ''*'' \<and> gr_broad g \<and> gr_except g = []) (concat (map grants_of (concat docs))) \<longleftrightarrow>
      (\<exists>st \<in> set (concat docs). \<exists>g \<in> set (grants_of st). gr_pattern g = ''*'' \<and> gr_broad g \<and> gr_except g = [])"
    by (auto simp: list_ex_iff)
  then show ?thesis unfolding admin_grant by (auto simp: allowed_actions_eq as_denied_def denied_of admin_by_def)
qed

lemma capped_admin: "as_boundary a = None \<Longrightarrow> as_boundary b = None \<Longrightarrow> is_admin (capped_by a b) \<longleftrightarrow> is_admin a \<and> is_admin b"
  by (cases a; cases b) (auto simp: as_denied_def)

lemma unknown_admin: "as_boundary a = None \<Longrightarrow> is_admin (capped_by_unknown a) \<longleftrightarrow> is_admin a"
  by (cases a) (auto simp: as_denied_def)

lemma effective_admin:
  "is_admin (effective docs pb managed) \<longleftrightarrow> admin_by docs \<and> (case boundary_doc pb managed of None \<Rightarrow> True | Some doc \<Rightarrow> admin_by [doc])"
  by (auto simp: effective_def cap_by_boundary_def boundary_doc_def Let_def admin_docs capped_admin unknown_admin split: option.splits)

text \<open>An action the documents and the boundary both let through.\<close>

definition permitted :: "policy_doc list \<Rightarrow> string option \<Rightarrow> (string, policy_doc) gomap \<Rightarrow> string \<Rightarrow> bool" where
  "permitted docs pb managed act \<longleftrightarrow> policy_grants docs act \<and>
     (case boundary_doc pb managed of None \<Rightarrow> True | Some doc \<Rightarrow> policy_grants [doc] act)"

definition can_escalate :: "policy_doc list \<Rightarrow> string option \<Rightarrow> (string, policy_doc) gomap \<Rightarrow> principal_kind \<Rightarrow> bool" where
  "can_escalate docs pb managed kind \<longleftrightarrow>
     admin_by docs \<and> (case boundary_doc pb managed of None \<Rightarrow> True | Some doc \<Rightarrow> admin_by [doc]) \<or>
     (\<exists>p \<in> set primitives. (pr_user_only p \<longrightarrow> kind = As_User) \<and> list_all (permitted docs pb managed) (pr_actions p))"

lemma escalation_edge_iff:
  "escalation_edge (effective docs pb managed) kind \<noteq> None \<longleftrightarrow> can_escalate docs pb managed kind"
proof -
  have "allows (effective docs pb managed) = permitted docs pb managed" by (simp add: fun_eq_iff effective_allows permitted_def)
  then show ?thesis
    by (simp only: escalation_edge_None detect_none can_escalate_def effective_admin de_Morgan_conj de_Morgan_disj not_not)
qed

text \<open>
  How sure an escalation is: 0.99 for an administrator, 0.9 for a technique, at most 0.5 when every technique that
  matched is held on named resources only, when the boundary could not be read, or when every one may be blocked by a Deny under a condition.
\<close>

theorem escalation_probability:
  assumes "escalation_edge a kind = Some (p, ps)"
  shows "p \<in> {1 / 2, 9 / 10, 99 / 100} \<and> (p = 99 / 100 \<longrightarrow> is_admin a) \<and>
    (as_unresolved a \<or> (\<not> is_admin a \<and> (list_all pm_scoped (detect_privesc a kind) \<or> list_all pm_cond (detect_privesc a kind)))
       \<or> is_admin a \<and> conditionally_denied a ''*'' \<longleftrightarrow> p = 1 / 2)"
  unfolding escalation_edge_prob [OF assms] Let_def by auto

definition demo_policy :: policy_doc where
  "demo_policy = [\<lparr>sm_effect = ''Allow'', sm_action = [''iam:*''], sm_not_action = [], sm_resource = [''*''], sm_not_resource = [],
     sm_principal = \<lparr>tp_all = False, tp_aws = [], tp_service = [], tp_federated = []\<rparr>, sm_condition = []\<rparr>]"

theorem escalation_probability_witness:
  "\<exists>p ps. escalation_edge (effective [demo_policy] None []) As_Role = Some (p, ps) \<and> p \<in> {1 / 2, 9 / 10, 99 / 100}"
proof -
  have "policy_grants [demo_policy] ''iam:AttachRolePolicy''"
    unfolding allows_docs [symmetric] by code_simp
  then have "can_escalate [demo_policy] None [] As_Role"
    by (simp add: can_escalate_def primitives_def prim_def permitted_def boundary_doc_def)
  then obtain p ps where "escalation_edge (effective [demo_policy] None []) As_Role = Some (p, ps)"
    using escalation_edge_iff [of "[demo_policy]" None "[]" As_Role] by auto
  then show ?thesis using escalation_probability by blast
qed

section \<open>The event\<close>

lemma fold_pres: "P s \<Longrightarrow> (\<And>x s. x \<in> set xs \<Longrightarrow> P s \<Longrightarrow> P (f x s)) \<Longrightarrow> P (fold f xs s)"
  by (induction xs arbitrary: s) auto

lemma escalation_ok:
  assumes "bd_ok X b" "pid \<in> bd_ids b" "admin \<in> bd_ids b"
  shows "bd_ok X (escalation pid a admin kind b) \<and> bd_ids (escalation pid a admin kind b) = bd_ids b"
proof (cases "pid = admin \<or> escalation_edge a kind = None")
  case True
  then show ?thesis using assms by (auto simp: escalation_eq)
next
  case False
  then obtain p ps where e: "escalation_edge a kind = Some (p, ps)" by auto
  then have "0 < p \<and> p \<le> 1" unfolding escalation_edge_prob [OF e] Let_def by simp
  then show ?thesis using bd_edge_ok [OF assms(1,2), of admin edge_can_escalate_to p ps] assms(3) e False edge_types_valid
    by (simp add: escalation_eq)
qed

definition parse_ok :: "string \<Rightarrow> iam_builder \<times> (string, string) gomap \<Rightarrow> bool" where
  "parse_ok admin bi \<longleftrightarrow> bd_ok {} (fst bi) \<and> admin \<in> bd_ids (fst bi) \<and> ran (map_of (snd bi)) \<subseteq> bd_ids (fst bi)"

lemma ran_update_ids: "ran (map_of ids) \<subseteq> S \<Longrightarrow> ran (map_of (AList.update k v ids)) \<subseteq> insert v S"
  by (auto simp: ran_def map_of_update split: if_splits)

lemma parse_user_ok:
  assumes "parse_ok admin bi"
  shows "parse_ok admin (parse_user seed managed groups admin u bi)"
proof (cases "ud_name u = []")
  case True
  then show ?thesis using assms by (cases bi) (simp add: parse_user_def)
next
  case False
  obtain b ids where bi: "bi = (b, ids)" by (cases bi)
  let ?i = "new_id label_user [ud_arn u]"
  let ?ps = "if seed
      then AList.update ''seed_basis'' (GStr ''credential-exposed (IAM user; assumes a leaked credential)'')
             (AList.update prop_credential_exposed (GBool True) (principal_props (ud_arn u)))
      else principal_props (ud_arn u)"
  obtain a ps where c: "cap_by_boundary (allowed_actions (user_docs managed groups u)) (ud_boundary u) managed ?ps = (a, ps)" by fastforce
  have r: "parse_user seed managed groups admin u bi =
      (escalation ?i a admin As_User (bd_upsert \<lparr>n_id = ?i, n_label = label_user, n_name = ud_name u, n_props = ps\<rparr> b),
       AList.update (ud_arn u) ?i ids)"
    using False unfolding bi parse_user_def Let_def prod.case c by simp
  let ?b = "bd_upsert \<lparr>n_id = ?i, n_label = label_user, n_name = ud_name u, n_props = ps\<rparr> b"
  have up: "bd_ok {} ?b \<and> bd_ids ?b = insert ?i (bd_ids b)"
    using bd_upsert_ok [of "{}" b "\<lparr>n_id = ?i, n_label = label_user, n_name = ud_name u, n_props = ps\<rparr>"] assms edge_types_valid
    by (simp add: parse_ok_def bi)
  have "bd_ok {} (escalation ?i a admin As_User ?b) \<and> bd_ids (escalation ?i a admin As_User ?b) = bd_ids ?b"
    by (rule escalation_ok) (use up assms in \<open>auto simp: parse_ok_def bi\<close>)
  then show ?thesis using up assms [unfolded parse_ok_def bi] ran_update_ids [of ids "bd_ids b" "ud_arn u" ?i]
    unfolding r parse_ok_def by auto
qed

lemma bd_ok_mono: "bd_ok X b \<Longrightarrow> X \<subseteq> Y \<Longrightarrow> bd_ok Y b"
  unfolding bd_ok_def by blast

lemma role_trust_ok:
  assumes "bd_ok {i} (fst bp)"
  shows "bd_ok {i} (fst (role_trust i ft bp)) \<and> bd_ids (fst bp) \<subseteq> bd_ids (fst (role_trust i ft bp))"
proof -
  obtain b ps where bp: "bp = (b, ps)" by (cases bp)
  let ?n = "federated_node ft"
  have l: "is_valid_label (n_label ?n)" using edge_types_valid by (simp add: federated_node_def Let_def)
  have up: "bd_ok {i} (bd_upsert ?n b)" "bd_ids (bd_upsert ?n b) = insert (n_id ?n) (bd_ids b)"
    using bd_upsert_ok [OF assms l] by (auto simp: bp intro: bd_ok_mono)
  have ed: "fst (role_trust i ft bp) = bd_edge_with edge_authenticates (n_id ?n) i (9 / 10) [] (bd_upsert ?n b)"
    by (simp add: role_trust_def bp Let_def bd_edge_def)
  show ?thesis
    unfolding ed using bd_edge_ok [OF up(1), of "n_id ?n" i edge_authenticates "9 / 10" "[]"] up(2) edge_types_valid by (auto simp: bp)
qed

lemma role_trusts_ok:
  "bd_ok {i} (fst bp) \<Longrightarrow> bd_ok {i} (fst (fold (role_trust i) fts bp)) \<and> bd_ids (fst bp) \<subseteq> bd_ids (fst (fold (role_trust i) fts bp))"
proof (induction fts arbitrary: bp)
  case (Cons ft fts)
  note one = role_trust_ok [OF Cons.prems, of ft]
  then show ?case using Cons.IH [of "role_trust i ft bp"] by auto
qed simp

lemma parse_role_ok:
  assumes "parse_ok admin bi"
  shows "parse_ok admin (parse_role managed admin r bi)"
proof (cases "rd_name r = []")
  case True
  then show ?thesis using assms by (cases bi) (simp add: parse_role_def)
next
  case False
  obtain b ids where bi: "bi = (b, ids)" by (cases bi)
  let ?i = "new_id label_iam_role [rd_arn r]"
  let ?ps = "trust_props (rd_trust r)
      (snd (mark_crown_jewel_from_tags (principal_props (rd_arn r)) (fold (\<lambda>(k, v) m. AList.update k v m) (rd_tags r) [])))"
  obtain a ps where c: "cap_by_boundary (allowed_actions (rd_inline r @ attached_docs managed (rd_attached r))) (rd_boundary r) managed ?ps = (a, ps)"
    by fastforce
  obtain b1 ps1 where t: "fold (role_trust ?i) (federated_trusts (rd_trust r)) (b, ps) = (b1, ps1)" by fastforce
  let ?n = "\<lparr>n_id = ?i, n_label = label_iam_role, n_name = rd_name r, n_props = ps1\<rparr>"
  have r: "parse_role managed admin r bi = (escalation ?i a admin As_Role (bd_upsert ?n b1), AList.update (rd_arn r) ?i ids)"
    using False unfolding bi parse_role_def Let_def prod.case c t by simp
  have ok: "bd_ok {} b" "admin \<in> bd_ids b" "ran (map_of ids) \<subseteq> bd_ids b" using assms by (simp_all add: parse_ok_def bi)
  have t1: "bd_ok {?i} b1" "bd_ids b \<subseteq> bd_ids b1"
    using role_trusts_ok [of ?i "(b, ps)" "federated_trusts (rd_trust r)"] bd_ok_mono [OF ok(1)] t by auto
  have up: "bd_ok {} (bd_upsert ?n b1)" "bd_ids (bd_upsert ?n b1) = insert ?i (bd_ids b1)"
    using bd_upsert_ok [OF t1(1), of ?n] edge_types_valid by simp_all
  have "bd_ok {} (escalation ?i a admin As_Role (bd_upsert ?n b1)) \<and>
      bd_ids (escalation ?i a admin As_Role (bd_upsert ?n b1)) = bd_ids (bd_upsert ?n b1)"
    by (rule escalation_ok) (use up t1 ok in auto)
  then show ?thesis using up t1 ok ran_update_ids [of ids "bd_ids b1" "rd_arn r" ?i] unfolding r parse_ok_def by auto
qed

lemma chain_peer_ok:
  assumes "bd_ok {} b" "bd_ids b = S" "ran (map_of ids) \<subseteq> S" "rid \<in> S"
  shows "bd_ok {} (chain_peer ids rid peer b) \<and> bd_ids (chain_peer ids rid peer b) = S"
proof (cases "map_of ids peer")
  case None
  then show ?thesis using assms by (simp add: chain_peer_def)
next
  case (Some pid)
  then have "pid \<in> S" using assms(3) by (auto simp: ran_def)
  then show ?thesis
    using bd_edge_ok [OF assms(1), of pid rid edge_assumes "8 / 10" "[]"] assms Some edge_types_valid by (simp add: chain_peer_def bd_edge_def)
qed

lemma chain_role_ok:
  assumes "bd_ok {} b" "bd_ids b = S" "ran (map_of ids) \<subseteq> S"
  shows "bd_ok {} (chain_role ids r b) \<and> bd_ids (chain_role ids r b) = S"
proof (cases "map_of ids (rd_arn r)")
  case None
  then show ?thesis using assms by (simp add: chain_role_def)
next
  case (Some rid)
  then have rid: "rid \<in> S" using assms(3) by (auto simp: ran_def)
  have inner: "bd_ok {} (fold (chain_peer ids rid) ps b) \<and> bd_ids (fold (chain_peer ids rid) ps b) = S" if "bd_ok {} b \<and> bd_ids b = S" for ps b
    by (rule fold_pres [where P = "\<lambda>b. bd_ok {} b \<and> bd_ids b = S", OF that]) (use chain_peer_ok assms(3) rid in blast)
  show ?thesis
    unfolding chain_role_def Some option.case
    by (rule fold_pres [where P = "\<lambda>b. bd_ok {} b \<and> bd_ids b = S"]) (use assms inner in auto)
qed

lemma iam_parse_ok:
  "\<exists>b. ev_nodes (iam_parse seed now d) = map snd (bd_nodes b) \<and> ev_edges (iam_parse seed now d) = bd_edges b \<and> bd_ok {} b"
proof -
  let ?managed = "managed_docs (ad_policies d)"
  let ?groups = "group_docs ?managed (ad_groups d)"
  let ?empty = "\<lparr>bd_nodes = [], bd_edges = []\<rparr> :: iam_builder"
  obtain admin b0 where s: "bd_stub label_iam_role ''perspectivegraph:account-admin'' ?empty = (admin, b0)" by fastforce
  have b0: "bd_ok {} b0" "admin \<in> bd_ids b0"
    using s edge_types_valid by (auto simp: bd_stub_def bd_ok_def bd_ids_def gm_has_def gm_ok_def Let_def split: if_splits)
  let ?b1 = "bd_upsert (admin_node admin) b0"
  have b1: "bd_ok {} ?b1 \<and> bd_ids ?b1 = insert admin (bd_ids b0)"
    using bd_upsert_ok [OF b0(1), of "admin_node admin"] edge_types_valid by (simp add: admin_node_def)
  have p1: "parse_ok admin (?b1, [])" using b1 by (simp add: parse_ok_def)
  obtain b2 ids2 where u: "fold (parse_user seed ?managed ?groups admin) (ad_users d) (?b1, []) = (b2, ids2)" by fastforce
  have p2: "parse_ok admin (b2, ids2)"
    unfolding u [symmetric] by (rule fold_pres [where P = "parse_ok admin", OF p1]) (rule parse_user_ok)
  obtain b3 ids3 where r: "fold (parse_role ?managed admin) (ad_roles d) (b2, ids2) = (b3, ids3)" by fastforce
  have p3: "parse_ok admin (b3, ids3)"
    unfolding r [symmetric] by (rule fold_pres [where P = "parse_ok admin", OF p2]) (rule parse_role_ok)
  let ?b4 = "fold (chain_role ids3) (ad_roles d) b3"
  have "bd_ok {} ?b4 \<and> bd_ids ?b4 = bd_ids b3"
    by (rule fold_pres [where P = "\<lambda>b. bd_ok {} b \<and> bd_ids b = bd_ids b3"]) (use p3 chain_role_ok in \<open>auto simp: parse_ok_def\<close>)
  moreover have "ev_nodes (iam_parse seed now d) = map snd (bd_nodes ?b4)" "ev_edges (iam_parse seed now d) = bd_edges ?b4"
    unfolding iam_parse_def Let_def s prod.case u r by simp_all
  ultimately show ?thesis by blast
qed

lemma validate_nodes_ok: "(\<And>n. n \<in> set ns \<Longrightarrow> is_valid_label (n_label n)) \<Longrightarrow> validate_nodes ns = None"
  by (induction ns) auto

lemma validate_edges_ok: "(\<And>e. e \<in> set es \<Longrightarrow> is_valid_edge_type (e_type e)) \<Longrightarrow> validate_edges es = None"
  by (induction es) auto

text \<open>
  C20. Whatever account the collector reads, its event is complete in itself: every edge runs between two of its own nodes with a
  probability above zero and at most one, no two nodes share an id, and the vocabulary accepts all of it.
\<close>

theorem iam_event_closed:
  "let ev = iam_parse seed now d
   in validate_vocabulary ev = None \<and> distinct (map n_id (ev_nodes ev)) \<and>
      e_from ` set (ev_edges ev) \<union> e_to ` set (ev_edges ev) \<subseteq> n_id ` set (ev_nodes ev) \<and> e_prob ` set (ev_edges ev) \<subseteq> {0<..1}"
proof -
  obtain b where b: "ev_nodes (iam_parse seed now d) = map snd (bd_nodes b)" "ev_edges (iam_parse seed now d) = bd_edges b" "bd_ok {} b"
    using iam_parse_ok by blast
  have gm: "gm_ok (bd_nodes b)" using b(3) by (simp add: bd_ok_def)
  have key: "n_id n = i \<and> is_valid_label (n_label n)" if "(i, n) \<in> set (bd_nodes b)" for i n
    using that b(3) gm_ok_in_set [OF gm] by (simp add: bd_ok_def)
  have ids: "map n_id (map snd (bd_nodes b)) = map fst (bd_nodes b)" using key by auto
  then have img: "n_id ` set (ev_nodes (iam_parse seed now d)) = dom (map_of (bd_nodes b))"
    unfolding b dom_map_of_conv_image_fst by (metis image_set)
  have "validate_vocabulary (iam_parse seed now d) = None"
  proof -
    have "validate_nodes (map snd (bd_nodes b)) = None" by (rule validate_nodes_ok) (use key in auto)
    moreover have "validate_edges (bd_edges b) = None" by (rule validate_edges_ok) (use b(3) in \<open>auto simp: bd_ok_def\<close>)
    ultimately show ?thesis by (simp add: validate_vocabulary_def b)
  qed
  moreover have "distinct (map n_id (ev_nodes (iam_parse seed now d)))" using gm unfolding b ids by (simp add: gm_ok_def)
  moreover have "e_from ` set (bd_edges b) \<union> e_to ` set (bd_edges b) \<subseteq> dom (map_of (bd_nodes b)) \<and> e_prob ` set (bd_edges b) \<subseteq> {0<..1}"
    using b(3) by (auto simp: bd_ok_def)
  ultimately show ?thesis unfolding Let_def img b(2) by simp
qed

section \<open>The escalations an event reports\<close>

definition escalations :: "edge list \<Rightarrow> (string \<times> string) list" where
  "escalations es = map (\<lambda>e. (e_from e, e_to e)) (filter (\<lambda>e. e_type e = edge_can_escalate_to) es)"

lemma escalations_append: "escalations (es @ es') = escalations es @ escalations es'"
  by (simp add: escalations_def)

lemma upsert_edges [simp]: "bd_edges (bd_upsert n b) = bd_edges b"
  by (simp add: bd_upsert_def Let_def split: option.split)

lemma bd_edge_escalations:
  "t \<noteq> edge_can_escalate_to \<Longrightarrow> escalations (bd_edges (bd_edge t u v p b)) = escalations (bd_edges b)"
  by (simp add: bd_edge_def bd_edge_with_def escalations_def)

lemma other_edge_types: "edge_authenticates \<noteq> edge_can_escalate_to" "edge_assumes \<noteq> edge_can_escalate_to"
  by simp_all

lemma escalation_pairs:
  "escalations (bd_edges (escalation pid (effective docs pb managed) admin kind b)) =
     escalations (bd_edges b) @ (if pid \<noteq> admin \<and> can_escalate docs pb managed kind then [(pid, admin)] else [])"
  using escalation_edge_iff [of docs pb managed kind]
  by (cases "escalation_edge (effective docs pb managed) kind") (auto simp: escalation_eq bd_edge_with_def escalations_def)

lemma capped_effective: "fst (cap_by_boundary (allowed_actions docs) pb managed ps) = effective docs pb managed"
  by (simp add: effective_def cap_by_boundary_def Let_def split: option.split)

text \<open>Who may escalate, of the users and roles an account lists, and under which id.\<close>

definition user_id :: "user_detail \<Rightarrow> string" where
  "user_id u = new_id label_user [ud_arn u]"

definition role_id :: "role_detail \<Rightarrow> string" where
  "role_id r = new_id label_iam_role [rd_arn r]"

definition account_admin :: string where
  "account_admin = new_id label_iam_role [''perspectivegraph:account-admin'']"

definition user_escalates :: "auth_details \<Rightarrow> user_detail \<Rightarrow> bool" where
  "user_escalates d u \<longleftrightarrow> ud_name u \<noteq> [] \<and> user_id u \<noteq> account_admin \<and>
     (let managed = managed_docs (ad_policies d)
      in can_escalate (user_docs managed (group_docs managed (ad_groups d)) u) (ud_boundary u) managed As_User)"

definition role_escalates :: "auth_details \<Rightarrow> role_detail \<Rightarrow> bool" where
  "role_escalates d r \<longleftrightarrow> rd_name r \<noteq> [] \<and> role_id r \<noteq> account_admin \<and>
     (let managed = managed_docs (ad_policies d)
      in can_escalate (rd_inline r @ attached_docs managed (rd_attached r)) (rd_boundary r) managed As_Role)"

lemma parse_user_escalations:
  assumes "managed = managed_docs (ad_policies d)" "groups = group_docs managed (ad_groups d)"
  shows "escalations (bd_edges (fst (parse_user seed managed groups account_admin u bi))) =
    escalations (bd_edges (fst bi)) @ (if user_escalates d u then [(user_id u, account_admin)] else [])"
proof -
  obtain b ids where bi: "bi = (b, ids)" by (cases bi)
  show ?thesis
    using capped_effective [of "user_docs managed groups u" "ud_boundary u" managed]
    by (auto simp: bi parse_user_def user_escalates_def user_id_def assms Let_def split_beta escalation_pairs)
qed

lemma role_trust_escalations: "escalations (bd_edges (fst (role_trust i ft bp))) = escalations (bd_edges (fst bp))"
  by (cases bp) (simp add: role_trust_def Let_def bd_edge_escalations other_edge_types)

lemma role_trusts_escalations: "escalations (bd_edges (fst (fold (role_trust i) fts bp))) = escalations (bd_edges (fst bp))"
  by (induction fts arbitrary: bp) (simp_all add: role_trust_escalations)

lemma parse_role_escalations:
  assumes "managed = managed_docs (ad_policies d)"
  shows "escalations (bd_edges (fst (parse_role managed account_admin r bi))) =
    escalations (bd_edges (fst bi)) @ (if role_escalates d r then [(role_id r, account_admin)] else [])"
proof -
  obtain b ids where bi: "bi = (b, ids)" by (cases bi)
  show ?thesis
    using capped_effective [of "rd_inline r @ attached_docs managed (rd_attached r)" "rd_boundary r" managed]
      role_trusts_escalations [of "role_id r" "federated_trusts (rd_trust r)"]
    by (auto simp: bi parse_role_def role_escalates_def role_id_def assms Let_def split_beta escalation_pairs)
qed

lemma fold_escalations:
  assumes "\<And>x bi. escalations (bd_edges (fst (f x bi))) = escalations (bd_edges (fst bi)) @ (if P x then [g x] else [])"
  shows "escalations (bd_edges (fst (fold f xs bi))) = escalations (bd_edges (fst bi)) @ map g (filter P xs)"
  by (induction xs arbitrary: bi) (simp_all add: assms)

lemma chain_role_escalations: "escalations (bd_edges (chain_role ids r b)) = escalations (bd_edges b)"
proof -
  have peer: "escalations (bd_edges (chain_peer ids rid p b)) = escalations (bd_edges b)" for rid p b
    by (simp add: chain_peer_def bd_edge_escalations other_edge_types split: option.split)
  have peers: "escalations (bd_edges (fold (chain_peer ids rid) ps b)) = escalations (bd_edges b)" for rid ps b
    by (rule fold_pres [where P = "\<lambda>x. escalations (bd_edges x) = escalations (bd_edges b)"]) (simp_all add: peer)
  show ?thesis
    unfolding chain_role_def
    by (cases "map_of ids (rd_arn r)")
      (auto intro!: fold_pres [where P = "\<lambda>x. escalations (bd_edges x) = escalations (bd_edges b)"] simp: peers)
qed

text \<open>
  C19. The escalations of an account are exactly those its documents permit: the
  \<open>CAN_ESCALATE_TO\<close> edges of the collector's event run to the account's administrator, one from
  each named user and then one from each named role whose documents - inline, attached and, of a
  user, its groups' - make it administrator or let it use every action of some technique open to
  its kind, the boundary included, and from nobody else.
\<close>

theorem escalation_iff_permitted:
  "escalations (ev_edges (iam_parse seed now d)) =
     map (\<lambda>u. (user_id u, account_admin)) (filter (user_escalates d) (ad_users d)) @
     map (\<lambda>r. (role_id r, account_admin)) (filter (role_escalates d) (ad_roles d))"
proof -
  let ?managed = "managed_docs (ad_policies d)"
  let ?groups = "group_docs ?managed (ad_groups d)"
  let ?empty = "\<lparr>bd_nodes = [], bd_edges = []\<rparr> :: iam_builder"
  obtain b0 where s: "bd_stub label_iam_role ''perspectivegraph:account-admin'' ?empty = (account_admin, b0)" "bd_edges b0 = []"
    by (auto simp: bd_stub_def Let_def account_admin_def gm_has_def)
  let ?b1 = "bd_upsert (admin_node account_admin) b0"
  obtain b2 ids2 where u: "fold (parse_user seed ?managed ?groups account_admin) (ad_users d) (?b1, []) = (b2, ids2)" by fastforce
  obtain b3 ids3 where r: "fold (parse_role ?managed account_admin) (ad_roles d) (b2, ids2) = (b3, ids3)" by fastforce
  let ?b4 = "fold (chain_role ids3) (ad_roles d) b3"
  have "escalations (bd_edges b2) = map (\<lambda>u. (user_id u, account_admin)) (filter (user_escalates d) (ad_users d))"
    using fold_escalations [of "parse_user seed ?managed ?groups account_admin" "user_escalates d" "\<lambda>u. (user_id u, account_admin)" "ad_users d" "(?b1, [])",
        OF parse_user_escalations [OF refl refl]] u s(2)
    by (simp add: escalations_def)
  moreover have "escalations (bd_edges b3) = escalations (bd_edges b2) @ map (\<lambda>r. (role_id r, account_admin)) (filter (role_escalates d) (ad_roles d))"
    using fold_escalations [of "parse_role ?managed account_admin" "role_escalates d" "\<lambda>r. (role_id r, account_admin)" "ad_roles d" "(b2, ids2)",
        OF parse_role_escalations [OF refl]] r by simp
  moreover have "escalations (bd_edges ?b4) = escalations (bd_edges b3)"
    by (rule fold_pres [where P = "\<lambda>x. escalations (bd_edges x) = escalations (bd_edges b3)"]) (simp_all add: chain_role_escalations)
  moreover have "ev_edges (iam_parse seed now d) = bd_edges ?b4"
    unfolding iam_parse_def Let_def s(1) prod.case u r by simp
  ultimately show ?thesis by simp
qed

end
