(* ===== verification/Policy_Invariants.thy ===== *)
theory Policy_Invariants
  imports Graph_Store
begin

text \<open>
  \<open>backend/internal/policy\<close>: architectural invariants over a snapshot. An invariant is a
  forbidden node or a forbidden route; the engine reports each match, the route as the
  shortest one a breadth-first search finds. The locale \<open>edge_index\<close> is what the search
  needs of the adjacency map - that it lists exactly the steps of the graph - and holds the
  search's invariant; \<open>via_index\<close> interprets it on the map the code builds.
\<close>

section \<open>Breadth-first search over an indexed graph\<close>

locale edge_index =
  fixes step :: "'a \<Rightarrow> 'a \<Rightarrow> bool" and out :: "'a \<Rightarrow> 'a list"
  assumes out_iff: "v \<in> set (out u) \<longleftrightarrow> step u v"
begin

definition dist :: "'a \<Rightarrow> 'a \<Rightarrow> nat" where
  "dist src v = (LEAST n. (step ^^ n) src v)"

lemma dist_reached: "step\<^sup>*\<^sup>* src v \<Longrightarrow> (step ^^ dist src v) src v"
  unfolding dist_def by (rule LeastI_ex) (simp add: rtranclp_power)

lemma dist_le: "(step ^^ n) src v \<Longrightarrow> dist src v \<le> n"
  unfolding dist_def by (rule Least_le)

lemma dist_src [simp]: "dist src src = 0"
  using dist_le [of 0 src src] by simp

lemma dist_step: "step\<^sup>*\<^sup>* src u \<Longrightarrow> step u v \<Longrightarrow> dist src v \<le> Suc (dist src u)"
  by (rule dist_le) (auto intro: relcomppI dist_reached)

lemma dist_pred:
  assumes "step\<^sup>*\<^sup>* src v" "v \<noteq> src"
  obtains u where "step\<^sup>*\<^sup>* src u" "step u v" "dist src v = Suc (dist src u)"
proof -
  obtain n where n: "dist src v = Suc n"
    using dist_reached [OF assms(1)] assms(2) by (cases "dist src v") auto
  then obtain u where u: "(step ^^ n) src u" "step u v"
    using dist_reached [OF assms(1)] by auto
  then have r: "step\<^sup>*\<^sup>* src u" by (auto simp: rtranclp_power)
  have "dist src u \<le> n" "dist src v \<le> Suc (dist src u)" using u r by (auto intro: dist_le dist_step)
  then show ?thesis using that r u(2) n by auto
qed

definition bfs_inv :: "'a \<Rightarrow> 'a set \<Rightarrow> ('a \<Rightarrow> 'a option) \<Rightarrow> 'a list \<Rightarrow> bool" where
  "bfs_inv src vis prev q \<longleftrightarrow>
     src \<in> vis \<and> (\<forall>v \<in> vis. step\<^sup>*\<^sup>* src v) \<and> set q \<subseteq> vis \<and> distinct q \<and> sorted (map (dist src) q) \<and>
     (\<forall>v \<in> set q. dist src v \<le> Suc (dist src (hd q))) \<and>
     (\<forall>v. step\<^sup>*\<^sup>* src v \<longrightarrow> q \<noteq> [] \<longrightarrow> dist src v \<le> dist src (hd q) \<longrightarrow> v \<in> vis) \<and>
     (\<forall>u \<in> vis - set q. \<forall>v. step u v \<longrightarrow> v \<in> vis) \<and>
     (\<forall>v \<in> vis - {src}. \<exists>u \<in> vis. prev v = Some u \<and> step u v \<and> dist src v = Suc (dist src u))"

lemma bfs_invD:
  assumes "bfs_inv src vis prev q"
  shows "src \<in> vis" and "v \<in> vis \<Longrightarrow> step\<^sup>*\<^sup>* src v" and "set q \<subseteq> vis" and "distinct q"
    and "sorted (map (dist src) q)" and "v \<in> set q \<Longrightarrow> dist src v \<le> Suc (dist src (hd q))"
    and "step\<^sup>*\<^sup>* src v \<Longrightarrow> q \<noteq> [] \<Longrightarrow> dist src v \<le> dist src (hd q) \<Longrightarrow> v \<in> vis"
    and "u \<in> vis \<Longrightarrow> u \<notin> set q \<Longrightarrow> step u v \<Longrightarrow> v \<in> vis"
    and "v \<in> vis \<Longrightarrow> v \<noteq> src \<Longrightarrow> \<exists>u \<in> vis. prev v = Some u \<and> step u v \<and> dist src v = Suc (dist src u)"
  using assms unfolding bfs_inv_def by blast+

lemma bfs_inv_start: "bfs_inv src {src} prev [src]"
  unfolding bfs_inv_def
proof (intro conjI allI impI)
  fix v
  assume v: "step\<^sup>*\<^sup>* src v" "dist src v \<le> dist src (hd [src])"
  have "(step ^^ 0) src v" using v dist_reached [of src v] by simp
  then show "v \<in> {src}" by simp
qed auto

lemma bfs_inv_step:
  assumes i: "bfs_inv src vis prev (cur # q)"
    and ns: "set ns = set (out cur) - vis" "distinct ns"
    and prev': "\<And>v. prev' v = (if v \<in> set ns then Some cur else prev v)"
  shows "bfs_inv src (vis \<union> set (out cur)) prev' (q @ ns)"
proof -
  note I = bfs_invD [OF i]
  have cur: "cur \<in> vis" and qv: "set q \<subseteq> vis" using I(3) by auto
  then have rc: "step\<^sup>*\<^sup>* src cur" using I(2) by blast
  have near: "dist src v \<le> Suc (dist src cur)" if "v \<in> set q" for v using I(6) [of v] that by simp
  have q_ge: "dist src cur \<le> dist src v" if "v \<in> set q" for v using I(5) that by simp
  have below: "v \<in> vis" if "step\<^sup>*\<^sup>* src v" "dist src v \<le> dist src cur" for v using I(7) [of v] that by simp
  have done_at: "w \<in> vis" if "u \<in> vis" "u \<noteq> cur" "u \<notin> set q" "step u w" for u w using I(8) [of u w] that by simp
  have new: "step cur v \<and> v \<notin> vis \<and> step\<^sup>*\<^sup>* src v \<and> dist src v = Suc (dist src cur)" if "v \<in> set ns" for v
  proof -
    have s: "step cur v" "v \<notin> vis" using that ns out_iff by auto
    then have r: "step\<^sup>*\<^sup>* src v" using rc by auto
    have "dist src v \<le> Suc (dist src cur)" using dist_step [OF rc s(1)] .
    moreover have "\<not> dist src v \<le> dist src cur" using below s(2) r by blast
    ultimately show ?thesis using s r by simp
  qed
  have all_vis: "v \<in> vis \<union> set (out cur)" if v: "step\<^sup>*\<^sup>* src v" "q @ ns \<noteq> []" "dist src v \<le> dist src (hd (q @ ns))" for v
  proof (cases "dist src v \<le> dist src cur")
    case True
    then show ?thesis using below v by blast
  next
    case False
    have hd_in: "hd (q @ ns) \<in> set q \<union> set ns" using v(2) hd_in_set by (metis set_append)
    then have hd_d: "dist src (hd (q @ ns)) \<le> Suc (dist src cur)" using near new by fastforce
    then have far: "dist src v = Suc (dist src cur)" and hd_far: "dist src (hd (q @ ns)) = Suc (dist src cur)"
      using False v(3) by auto
    have q_far: "dist src u = Suc (dist src cur)" if "u \<in> set q" for u
    proof -
      have "dist src (hd q) \<le> dist src u" using I(5) that by (cases q) auto
      moreover have "hd (q @ ns) = hd q" using that by (cases q) auto
      ultimately show ?thesis using near [OF that] hd_far by simp
    qed
    have "v \<noteq> src" using far by auto
    then obtain u where u: "step\<^sup>*\<^sup>* src u" "step u v" "dist src v = Suc (dist src u)"
      using dist_pred [OF v(1)] by metis
    then have du: "dist src u = dist src cur" using far by simp
    then have "u \<in> vis" using below u(1) by simp
    moreover have "u \<notin> set q" using q_far du by auto
    ultimately show ?thesis
    proof (cases "u = cur")
      case True
      then show ?thesis using u(2) out_iff by auto
    next
      case False
      then show ?thesis using done_at [OF \<open>u \<in> vis\<close> _ \<open>u \<notin> set q\<close> u(2)] by simp
    qed
  qed
  have srt: "sorted (map (dist src) (q @ ns))"
  proof -
    have "\<forall>x \<in> set ns. dist src x = Suc (dist src cur)" using new by auto
    then have "map (dist src) ns = replicate (length ns) (Suc (dist src cur))"
      by (intro replicate_eqI) auto
    then show ?thesis using I(5) near by (auto simp: sorted_append)
  qed
  have hd_ge: "dist src cur \<le> dist src (hd (q @ ns))" if "q @ ns \<noteq> []"
    using that q_ge new hd_in_set [OF that] by fastforce
  have closed: "w \<in> vis \<union> set (out cur)" if "u \<in> vis \<union> set (out cur) - set (q @ ns)" "step u w" for u w
  proof (cases "u = cur")
    case True
    then show ?thesis using that out_iff by auto
  next
    case False
    then have "u \<in> vis" "u \<notin> set q" using that ns by auto
    then show ?thesis using done_at [OF _ False _ that(2)] by simp
  qed
  have tree: "\<exists>u \<in> vis \<union> set (out cur). prev' v = Some u \<and> step u v \<and> dist src v = Suc (dist src u)"
    if "v \<in> vis \<union> set (out cur) - {src}" for v
  proof (cases "v \<in> set ns")
    case True
    then show ?thesis using prev' new cur by auto
  next
    case False
    then have "v \<in> vis" "v \<noteq> src" using that ns by auto
    then show ?thesis using I(9) [of v] prev' [of v] False by auto
  qed
  show ?thesis
    unfolding bfs_inv_def
  proof (intro conjI)
    show "\<forall>v \<in> vis \<union> set (out cur). step\<^sup>*\<^sup>* src v"
      using I(2) rc out_iff by (auto intro: rtranclp.rtrancl_into_rtrancl)
    show "set (q @ ns) \<subseteq> vis \<union> set (out cur)" using qv ns by auto
    show "distinct (q @ ns)" using I(4) qv ns by auto
    show "\<forall>v \<in> set (q @ ns). dist src v \<le> Suc (dist src (hd (q @ ns)))"
    proof
      fix v
      assume "v \<in> set (q @ ns)"
      moreover from this have "q @ ns \<noteq> []" by auto
      ultimately show "dist src v \<le> Suc (dist src (hd (q @ ns)))"
        using hd_ge near new by (metis Suc_le_mono Un_iff le_trans order_refl set_append)
    qed
    show "\<forall>v. step\<^sup>*\<^sup>* src v \<longrightarrow> q @ ns \<noteq> [] \<longrightarrow> dist src v \<le> dist src (hd (q @ ns)) \<longrightarrow> v \<in> vis \<union> set (out cur)"
      using all_vis by blast
    show "\<forall>u \<in> vis \<union> set (out cur) - set (q @ ns). \<forall>v. step u v \<longrightarrow> v \<in> vis \<union> set (out cur)"
      using closed by blast
    show "\<forall>v \<in> vis \<union> set (out cur) - {src}. \<exists>u \<in> vis \<union> set (out cur).
        prev' v = Some u \<and> step u v \<and> dist src v = Suc (dist src u)"
      using tree by blast
    show "src \<in> vis \<union> set (out cur)" using I(1) by blast
    show "sorted (map (dist src) (q @ ns))" by (rule srt)
  qed
qed

lemma bfs_inv_done: "bfs_inv src vis prev [] \<Longrightarrow> step\<^sup>*\<^sup>* src v \<Longrightarrow> v \<in> vis"
proof -
  assume i: "bfs_inv src vis prev []"
  have "v \<in> vis" if "step\<^sup>*\<^sup>* src v" for v
    using that by (induction rule: rtranclp_induct) (use bfs_invD(1,8) [OF i] in auto)
  then show "step\<^sup>*\<^sup>* src v \<Longrightarrow> v \<in> vis" .
qed

text \<open>When a node is taken off the queue, everything strictly nearer has been taken before.\<close>

lemma bfs_inv_nearer: "bfs_inv src vis prev (cur # q) \<Longrightarrow> step\<^sup>*\<^sup>* src v \<Longrightarrow> dist src v < dist src cur \<Longrightarrow> v \<in> vis - set (cur # q)"
  using bfs_invD(5) [of src vis prev "cur # q"] bfs_invD(7) [of src vis prev "cur # q" v] by fastforce

lemma relpowp_successively:
  "(step ^^ n) u v \<longleftrightarrow> (\<exists>p. p \<noteq> [] \<and> successively step p \<and> hd p = u \<and> last p = v \<and> length p = Suc n)"
proof (induction n arbitrary: v)
  case 0
  show ?case by (auto simp: length_Suc_conv intro: exI [of _ "[u]"])
next
  case (Suc n)
  show ?case
  proof
    assume "(step ^^ Suc n) u v"
    then obtain w where "(step ^^ n) u w" and s: "step w v" by auto
    then obtain p where p: "p \<noteq> []" "successively step p" "hd p = u" "last p = w" "length p = Suc n"
      using Suc.IH by blast
    then show "\<exists>p. p \<noteq> [] \<and> successively step p \<and> hd p = u \<and> last p = v \<and> length p = Suc (Suc n)"
      using s by (intro exI [of _ "p @ [v]"]) (simp add: successively_append_iff)
  next
    assume "\<exists>p. p \<noteq> [] \<and> successively step p \<and> hd p = u \<and> last p = v \<and> length p = Suc (Suc n)"
    then obtain p where p: "successively step p" "hd p = u" "last p = v" "length p = Suc (Suc n)" by blast
    have l: "length (butlast p) = Suc n" using p(4) by simp
    then have ne: "butlast p \<noteq> []" by (metis list.size(3) nat.distinct(1))
    have e: "p = butlast p @ [v]" using p(3,4) by (metis append_butlast_last_id list.size(3) nat.distinct(1))
    then have s: "successively step (butlast p)" "step (last (butlast p)) v"
      using p(1) ne successively_append_iff [of step "butlast p" "[v]"] by auto
    moreover have "hd (butlast p) = u" using e p(2) ne by (metis hd_append2)
    ultimately have "(step ^^ n) u (last (butlast p))" using Suc.IH l ne by blast
    then show "(step ^^ Suc n) u v" using s(2) by auto
  qed
qed

lemma dist_walk: "p \<noteq> [] \<Longrightarrow> successively step p \<Longrightarrow> step\<^sup>*\<^sup>* (hd p) (last p) \<and> Suc (dist (hd p) (last p)) \<le> length p"
proof -
  assume a: "p \<noteq> []" "successively step p"
  then have "(step ^^ (length p - 1)) (hd p) (last p)"
    unfolding relpowp_successively by (intro exI [of _ p]) (cases p, auto)
  then show ?thesis using dist_le a(1) by (auto simp: rtranclp_power neq_Nil_conv)
qed

end

section \<open>Invariants and violations\<close>

record invariant =
  inv_id :: string
  inv_description :: string
  inv_severity :: string
  inv_source :: "(node \<Rightarrow> bool) option"
  inv_target :: "node \<Rightarrow> bool"
  inv_via :: "(edge_type, bool) gomap option"

record violation =
  vio_id :: string
  vio_description :: string
  vio_severity :: string
  vio_nodes :: "node list"

record adj_edge =
  ae_to :: string
  ae_typ :: edge_type

type_synonym policy_adj = "(string, adj_edge list) gomap"

definition policy_adj_at :: "policy_adj \<Rightarrow> string \<Rightarrow> adj_edge list" where
  "policy_adj_at adj u = (case map_of adj u of Some es \<Rightarrow> es | None \<Rightarrow> [])"

definition policy_adjacency :: "edge list \<Rightarrow> policy_adj" where
  "policy_adjacency edges =
     fold (\<lambda>e adj. AList.update (e_from e) (policy_adj_at adj (e_from e) @ [\<lparr>ae_to = e_to e, ae_typ = e_type e\<rparr>]) adj)
       edges []"

text \<open>\<open>inv.Via == nil || inv.Via[typ]\<close>.\<close>

definition via_allows :: "invariant \<Rightarrow> edge_type \<Rightarrow> bool" where
  "via_allows iv t \<longleftrightarrow> (case inv_via iv of None \<Rightarrow> True | Some m \<Rightarrow> map_of m t = Some True)"

section \<open>The search\<close>

text \<open>
  The visited set (a map that only ever holds true) as the list of its keys, the \<open>prev\<close>
  map and the queue.
\<close>

type_synonym bfs_state = "string list \<times> (string, string) gomap \<times> string list"

fun visit_edges :: "invariant \<Rightarrow> string \<Rightarrow> adj_edge list \<Rightarrow> bfs_state \<Rightarrow> bfs_state" where
  "visit_edges iv cur [] st = st"
| "visit_edges iv cur (e # es) (vis, prev, q) =
     (if \<not> via_allows iv (ae_typ e) then visit_edges iv cur es (vis, prev, q)
      else if ae_to e \<in> set vis then visit_edges iv cur es (vis, prev, q)
      else visit_edges iv cur es (ae_to e # vis, AList.update (ae_to e) cur prev, q @ [ae_to e]))"

text \<open>
  \<open>bfs_reconstruct\<close> follows \<open>prev\<close> from the target until it meets the source; a missing entry
  reads as the empty id. On a map that does not lead back it would not end.
\<close>

partial_function (option) walk_back :: "(string, string) gomap \<Rightarrow> string \<Rightarrow> string \<Rightarrow> string list \<Rightarrow> string list option" where
  "walk_back prev src cur rv =
     (if cur = src then Some rv
      else walk_back prev src (case map_of prev cur of Some u \<Rightarrow> u | None \<Rightarrow> []) (rv @ [cur]))"

definition bfs_reconstruct :: "(string, string) gomap \<Rightarrow> string \<Rightarrow> string \<Rightarrow> string list option" where
  "bfs_reconstruct prev src dst = map_option (\<lambda>rv. rev (rv @ [src])) (walk_back prev src dst [])"

lemma visit_edges_eq:
  "visit_edges iv cur es (vis, prev, q) =
     (let ns = fold (\<lambda>e ns. if via_allows iv (ae_typ e) \<and> ae_to e \<notin> set vis \<union> set ns then ns @ [ae_to e] else ns) es []
      in (rev ns @ vis, fold (\<lambda>v m. AList.update v cur m) ns prev, q @ ns))"
proof -
  have gen: "visit_edges iv cur es (rev ns @ vis, fold (\<lambda>v m. AList.update v cur m) ns prev, q @ ns) =
     (let ns' = fold (\<lambda>e ns. if via_allows iv (ae_typ e) \<and> ae_to e \<notin> set vis \<union> set ns then ns @ [ae_to e] else ns) es ns
      in (rev ns' @ vis, fold (\<lambda>v m. AList.update v cur m) ns' prev, q @ ns'))" for ns
  proof (induction es arbitrary: ns)
    case Nil
    then show ?case by simp
  next
    case (Cons e es)
    show ?case using Cons.IH [of ns] Cons.IH [of "ns @ [ae_to e]"] by (simp add: Let_def)
  qed
  from gen [of "[]"] show ?thesis by simp
qed

definition adj_targets :: "policy_adj \<Rightarrow> string set" where
  "adj_targets adj = ae_to ` set (concat (map snd adj))"

lemma finite_adj_targets [simp]: "finite (adj_targets adj)"
  by (simp add: adj_targets_def)

lemma policy_adj_at_targets: "e \<in> set (policy_adj_at adj u) \<Longrightarrow> ae_to e \<in> adj_targets adj"
  unfolding policy_adj_at_def adj_targets_def by (cases "map_of adj u") (auto dest!: map_of_SomeD intro!: imageI bexI)

lemma visit_edges_measure:
  "ae_to ` set es \<subseteq> T \<Longrightarrow> finite T \<Longrightarrow> visit_edges iv cur es (vis, prev, q) = (vis', prev', q') \<Longrightarrow>
     2 * card (T - set vis') + length q' \<le> 2 * card (T - set vis) + length q"
proof (induction es arbitrary: vis prev q)
  case Nil
  then show ?case by simp
next
  case (Cons e es)
  show ?case
  proof (cases "via_allows iv (ae_typ e) \<and> ae_to e \<notin> set vis")
    case True
    have "card (T - set (ae_to e # vis)) < card (T - set vis)"
      using Cons.prems(1,2) True by (intro psubset_card_mono) auto
    moreover have "2 * card (T - set vis') + length q' \<le> 2 * card (T - set (ae_to e # vis)) + length (q @ [ae_to e])"
      using Cons.prems True by (intro Cons.IH) auto
    ultimately show ?thesis by simp
  next
    case False
    then have "visit_edges iv cur es (vis, prev, q) = (vis', prev', q')" using Cons.prems(3) by (auto split: if_splits)
    then show ?thesis using Cons.IH Cons.prems(1,2) by auto
  qed
qed

text \<open>
  The search: no value when \<open>bfs_reconstruct\<close> does not end, \<open>Some None\<close> for \<open>nil\<close>. Each
  round takes one id off the queue and every id enters it once.
\<close>

function bfs_loop :: "invariant \<Rightarrow> (string, node) gomap \<Rightarrow> policy_adj \<Rightarrow> string \<Rightarrow> bfs_state \<Rightarrow> string list option option" where
  "bfs_loop iv index adj src (vis, prev, []) = Some None"
| "bfs_loop iv index adj src (vis, prev, cur # q) =
     (if cur \<noteq> src \<and> (case map_of index cur of Some n \<Rightarrow> inv_target iv n | None \<Rightarrow> False)
      then map_option Some (bfs_reconstruct prev src cur)
      else bfs_loop iv index adj src (visit_edges iv cur (policy_adj_at adj cur) (vis, prev, q)))"
  by pat_completeness auto
termination
proof (relation "measure (\<lambda>(iv, index, adj, src, vis, prev, q). 2 * card (adj_targets adj - set vis) + length q)", goal_cases)
  case (2 iv index adj src vis prev cur q)
  obtain vis' prev' q' where v: "visit_edges iv cur (policy_adj_at adj cur) (vis, prev, q) = (vis', prev', q')"
    by (cases "visit_edges iv cur (policy_adj_at adj cur) (vis, prev, q)")
  have "2 * card (adj_targets adj - set vis') + length q' \<le> 2 * card (adj_targets adj - set vis) + length q"
    by (rule visit_edges_measure [OF _ _ v]) (auto intro: policy_adj_at_targets)
  then show ?case using v by simp
qed simp

definition bfs :: "string \<Rightarrow> invariant \<Rightarrow> (string, node) gomap \<Rightarrow> policy_adj \<Rightarrow> string list option option" where
  "bfs src iv index adj = bfs_loop iv index adj src ([src], [], [src])"

section \<open>The engine\<close>

definition violation_of :: "invariant \<Rightarrow> node list \<Rightarrow> violation" where
  "violation_of iv nodes =
     \<lparr>vio_id = inv_id iv, vio_description = inv_description iv, vio_severity = inv_severity iv, vio_nodes = nodes\<rparr>"

definition eval_node :: "invariant \<Rightarrow> snapshot \<Rightarrow> violation list" where
  "eval_node iv snap = map (\<lambda>n. violation_of iv [n]) (filter (inv_target iv) (sn_nodes snap))"

fun eval_sources :: "invariant \<Rightarrow> (node \<Rightarrow> bool) \<Rightarrow> (string, node) gomap \<Rightarrow> policy_adj \<Rightarrow> node list \<Rightarrow> violation list option" where
  "eval_sources iv is_source index adj [] = Some []"
| "eval_sources iv is_source index adj (src # ns) =
     (if \<not> is_source src then eval_sources iv is_source index adj ns
      else (case bfs (n_id src) iv index adj of
              None \<Rightarrow> None
            | Some None \<Rightarrow> eval_sources iv is_source index adj ns
            | Some (Some p) \<Rightarrow>
                map_option ((#) (violation_of iv (map (node_at index) p)))
                  (eval_sources iv is_source index adj ns)))"

fun eval_invariants :: "invariant list \<Rightarrow> snapshot \<Rightarrow> (string, node) gomap \<Rightarrow> policy_adj \<Rightarrow> violation list option" where
  "eval_invariants [] snap index adj = Some []"
| "eval_invariants (iv # ivs) snap index adj =
     (case (case inv_source iv of
              None \<Rightarrow> Some (eval_node iv snap)
            | Some is_source \<Rightarrow> eval_sources iv is_source index adj (sn_nodes snap)) of
        None \<Rightarrow> None
      | Some vs \<Rightarrow> map_option ((@) vs) (eval_invariants ivs snap index adj))"

definition evaluate :: "invariant list \<Rightarrow> snapshot \<Rightarrow> violation list option" where
  "evaluate ivs snap = eval_invariants ivs snap (node_by_id snap) (policy_adjacency (sn_edges snap))"

section \<open>What the search finds\<close>

text \<open>The steps of the graph an invariant lets a route take, and the routes it forbids.\<close>

definition via_step :: "invariant \<Rightarrow> edge list \<Rightarrow> string \<Rightarrow> string \<Rightarrow> bool" where
  "via_step iv edges u v \<longleftrightarrow> (\<exists>e \<in> set edges. via_allows iv (e_type e) \<and> e_from e = u \<and> e_to e = v)"

definition forbidden_route :: "invariant \<Rightarrow> snapshot \<Rightarrow> string \<Rightarrow> string list \<Rightarrow> bool" where
  "forbidden_route iv snap src p \<longleftrightarrow>
     p \<noteq> [] \<and> hd p = src \<and> successively (via_step iv (sn_edges snap)) p \<and> last p \<noteq> src \<and>
     (\<exists>n. map_of (node_by_id snap) (last p) = Some n \<and> inv_target iv n)"

definition via_out :: "invariant \<Rightarrow> edge list \<Rightarrow> string \<Rightarrow> string list" where
  "via_out iv edges u = map ae_to (filter (\<lambda>e. via_allows iv (ae_typ e)) (policy_adj_at (policy_adjacency edges) u))"

lemma policy_adj_at_update:
  "policy_adj_at (AList.update u es adj) v = (if u = v then es else policy_adj_at adj v)"
  by (simp add: policy_adj_at_def map_of_update)

lemma policy_adj_at_build:
  "policy_adj_at (policy_adjacency edges) u =
     map (\<lambda>e. \<lparr>ae_to = e_to e, ae_typ = e_type e\<rparr>) (filter (\<lambda>e. e_from e = u) edges)"
proof -
  have "policy_adj_at (fold (\<lambda>e adj. AList.update (e_from e) (policy_adj_at adj (e_from e) @ [\<lparr>ae_to = e_to e, ae_typ = e_type e\<rparr>]) adj) edges adj) u =
     policy_adj_at adj u @ map (\<lambda>e. \<lparr>ae_to = e_to e, ae_typ = e_type e\<rparr>) (filter (\<lambda>e. e_from e = u) edges)" for adj
    by (induction edges arbitrary: adj) (auto simp: policy_adj_at_update)
  then show ?thesis by (simp add: policy_adjacency_def policy_adj_at_def)
qed

interpretation via_index: edge_index "via_step iv edges" "via_out iv edges" for iv edges
  by unfold_locales (force simp: via_out_def via_step_def policy_adj_at_build)

lemma set_scan:
  "set (fold (\<lambda>e ns. if via_allows iv (ae_typ e) \<and> ae_to e \<notin> V \<union> set ns then ns @ [ae_to e] else ns) es ns) =
     set ns \<union> (ae_to ` set (filter (\<lambda>e. via_allows iv (ae_typ e)) es) - V)"
  by (induction es arbitrary: ns) auto

lemma distinct_scan:
  "distinct ns \<Longrightarrow>
   distinct (fold (\<lambda>e ns. if via_allows iv (ae_typ e) \<and> ae_to e \<notin> V \<union> set ns then ns @ [ae_to e] else ns) es ns)"
  by (induction es arbitrary: ns) auto

lemma map_of_marks: "map_of (fold (\<lambda>v m. AList.update v cur m) ns prev) v = (if v \<in> set ns then Some cur else map_of prev v)"
  by (induction ns arbitrary: prev) (auto simp: map_of_update)

lemma visit_edges_inv:
  assumes i: "via_index.bfs_inv iv edges src (set vis) (map_of prev) (cur # q)"
    and v: "visit_edges iv cur (policy_adj_at (policy_adjacency edges) cur) (vis, prev, q) = (vis', prev', q')"
  shows "via_index.bfs_inv iv edges src (set vis') (map_of prev') q' \<and>
    set vis' - set q' \<subseteq> insert cur (set vis - set (cur # q))"
proof -
  define ns where "ns = fold (\<lambda>e ns. if via_allows iv (ae_typ e) \<and> ae_to e \<notin> set vis \<union> set ns then ns @ [ae_to e] else ns)
       (policy_adj_at (policy_adjacency edges) cur) []"
  have r: "vis' = rev ns @ vis" "prev' = fold (\<lambda>v m. AList.update v cur m) ns prev" "q' = q @ ns"
    using v by (simp_all add: visit_edges_eq Let_def ns_def)
  have set_ns: "set ns = set (via_out iv edges cur) - set vis"
    unfolding ns_def set_scan via_out_def by auto
  have d: "distinct ns" unfolding ns_def by (rule distinct_scan) simp
  have "set vis' = set vis \<union> set (via_out iv edges cur)" using set_ns r by auto
  then have "via_index.bfs_inv iv edges src (set vis') (map_of prev') q'"
    using via_index.bfs_inv_step [OF i set_ns d, of "map_of prev'"] r by (simp add: map_of_marks)
  then show ?thesis using r by auto
qed

lemma walk_back_ends:
  assumes i: "via_index.bfs_inv iv edges src (set vis) (map_of prev) q" and v: "v \<in> set vis"
  shows "\<exists>p. walk_back prev src v rv = Some (rv @ rev (tl p)) \<and> p \<noteq> [] \<and> hd p = src \<and> last p = v \<and>
     successively (via_step iv edges) p \<and> length p = Suc (via_index.dist iv edges src v)"
  using v
proof (induction "via_index.dist iv edges src v" arbitrary: v rv rule: less_induct)
  case less
  show ?case
  proof (cases "v = src")
    case True
    then show ?thesis by (intro exI [of _ "[src]"]) (simp add: walk_back.simps)
  next
    case False
    obtain u where u: "u \<in> set vis" "map_of prev v = Some u" "via_step iv edges u v"
        "via_index.dist iv edges src v = Suc (via_index.dist iv edges src u)"
      using via_index.bfs_invD(9) [OF i less.prems False] by blast
    obtain p where p: "walk_back prev src u (rv @ [v]) = Some ((rv @ [v]) @ rev (tl p))" "p \<noteq> []" "hd p = src" "last p = u"
        "successively (via_step iv edges) p" "length p = Suc (via_index.dist iv edges src u)"
      using less.hyps [OF _ u(1)] u(4) by fastforce
    have "walk_back prev src v rv = Some (rv @ rev (tl (p @ [v])))"
      using p False u(2) by (subst walk_back.simps) simp
    then show ?thesis using p u(3,4)
      by (intro exI [of _ "p @ [v]"]) (simp add: successively_append_iff)
  qed
qed

lemma bfs_reconstruct_ends:
  assumes "via_index.bfs_inv iv edges src (set vis) (map_of prev) q" "v \<in> set vis"
  shows "\<exists>p. bfs_reconstruct prev src v = Some p \<and> p \<noteq> [] \<and> hd p = src \<and> last p = v \<and>
     successively (via_step iv edges) p \<and> length p = Suc (via_index.dist iv edges src v)"
proof -
  obtain p where p: "walk_back prev src v [] = Some ([] @ rev (tl p))" "p \<noteq> []" "hd p = src" "last p = v"
      "successively (via_step iv edges) p" "length p = Suc (via_index.dist iv edges src v)"
    using walk_back_ends [OF assms] by blast
  then have "bfs_reconstruct prev src v = Some p" by (cases p) (simp_all add: bfs_reconstruct_def)
  then show ?thesis using p by blast
qed

text \<open>The search's result: a shortest forbidden route, and \<open>nil\<close> exactly when there is none.\<close>

definition shortest_or_none :: "invariant \<Rightarrow> snapshot \<Rightarrow> string \<Rightarrow> string list option \<Rightarrow> bool" where
  "shortest_or_none iv snap src r \<longleftrightarrow>
     (case r of
        None \<Rightarrow> (\<forall>p. \<not> forbidden_route iv snap src p)
      | Some p \<Rightarrow> forbidden_route iv snap src p \<and> (\<forall>p'. forbidden_route iv snap src p' \<longrightarrow> length p \<le> length p'))"

lemma bfs_loop_finds:
  assumes "via_index.bfs_inv iv (sn_edges snap) src (set vis) (map_of prev) q"
    and "\<And>u n. u \<in> set vis - set q \<Longrightarrow> u \<noteq> src \<Longrightarrow> map_of (node_by_id snap) u = Some n \<Longrightarrow> \<not> inv_target iv n"
  shows "\<exists>r. bfs_loop iv (node_by_id snap) (policy_adjacency (sn_edges snap)) src (vis, prev, q) = Some r \<and>
     shortest_or_none iv snap src r"
  using assms
proof (induction iv "node_by_id snap" "policy_adjacency (sn_edges snap)" src vis prev q rule: bfs_loop.induct [split_format (complete)])
  case (1 iv src vis prev)
  have "\<not> forbidden_route iv snap src p" for p
  proof
    assume f: "forbidden_route iv snap src p"
    then have "(via_step iv (sn_edges snap))\<^sup>*\<^sup>* src (last p)"
      using via_index.dist_walk [of p] by (auto simp: forbidden_route_def)
    then have "last p \<in> set vis" using via_index.bfs_inv_done [OF 1(1)] by blast
    then show False using 1(2) f by (auto simp: forbidden_route_def)
  qed
  then show ?case by (simp add: shortest_or_none_def)
next
  case (2 iv src vis prev cur q)
  note i = "2.prems"(1)
  show ?case
  proof (cases "cur \<noteq> src \<and> (case map_of (node_by_id snap) cur of Some n \<Rightarrow> inv_target iv n | None \<Rightarrow> False)")
    case True
    have cv: "cur \<in> set vis" using via_index.bfs_invD(3) [OF i] by simp
    obtain p where p: "bfs_reconstruct prev src cur = Some p" "p \<noteq> []" "hd p = src" "last p = cur"
        "successively (via_step iv (sn_edges snap)) p" "length p = Suc (via_index.dist iv (sn_edges snap) src cur)"
      using bfs_reconstruct_ends [OF i cv] by blast
    have "forbidden_route iv snap src p"
      using p True by (auto simp: forbidden_route_def split: option.splits)
    moreover have "length p \<le> length p'" if f: "forbidden_route iv snap src p'" for p'
    proof -
      have w: "(via_step iv (sn_edges snap))\<^sup>*\<^sup>* src (last p')"
          "Suc (via_index.dist iv (sn_edges snap) src (last p')) \<le> length p'"
        using f via_index.dist_walk [of p'] by (auto simp: forbidden_route_def)
      have "\<not> via_index.dist iv (sn_edges snap) src (last p') < via_index.dist iv (sn_edges snap) src cur"
        using via_index.bfs_inv_nearer [OF i w(1)] "2.prems"(2) f by (auto simp: forbidden_route_def)
      then show ?thesis using w(2) p(6) by simp
    qed
    ultimately show ?thesis using True p(1) by (simp add: shortest_or_none_def)
  next
    case False
    obtain vis' prev' q' where v:
      "visit_edges iv cur (policy_adj_at (policy_adjacency (sn_edges snap)) cur) (vis, prev, q) = (vis', prev', q')"
      by (cases "visit_edges iv cur (policy_adj_at (policy_adjacency (sn_edges snap)) cur) (vis, prev, q)")
    note n = visit_edges_inv [OF i v]
    have "\<exists>r. bfs_loop iv (node_by_id snap) (policy_adjacency (sn_edges snap)) src (vis', prev', q') = Some r \<and>
       shortest_or_none iv snap src r"
    proof (rule "2.hyps" [OF False, unfolded v prod.case, rule_format])
      show "via_index.bfs_inv iv (sn_edges snap) src (set vis') (map_of prev') q'" using n by blast
      show "\<not> inv_target iv m" if "u \<in> set vis' - set q'" "u \<noteq> src" "map_of (node_by_id snap) u = Some m" for u m
        using that n False "2.prems"(2) [of u m] by (cases "u = cur") auto
    qed
    then show ?thesis unfolding bfs_loop.simps(2) if_not_P [OF False] v .
  qed
qed

lemma bfs_finds:
  "\<exists>r. bfs src iv (node_by_id snap) (policy_adjacency (sn_edges snap)) = Some r \<and> shortest_or_none iv snap src r"
  unfolding bfs_def by (rule bfs_loop_finds) (auto simp: via_index.bfs_inv_start)

text \<open>
  C21. The breadth-first search behind a path invariant always returns, from any node of any
  snapshot and under any restriction of edge types: \<open>bfs_reconstruct\<close> never runs off the
  \<open>prev\<close> map, the route it returns is a forbidden one and no forbidden route is shorter,
  and it returns \<open>nil\<close> exactly when no route leads from the source to another node that
  matches the target.
\<close>

theorem bfs_shortest:
  "\<exists>r. bfs src iv (node_by_id snap) (policy_adjacency (sn_edges snap)) = Some r \<and> shortest_or_none iv snap src r"
  by (rule bfs_finds)

section \<open>What the engine reports\<close>

definition invariant_broken :: "invariant \<Rightarrow> snapshot \<Rightarrow> bool" where
  "invariant_broken iv snap \<longleftrightarrow>
     (case inv_source iv of
        None \<Rightarrow> (\<exists>n \<in> set (sn_nodes snap). inv_target iv n)
      | Some is_source \<Rightarrow> (\<exists>n \<in> set (sn_nodes snap). is_source n \<and> (\<exists>p. forbidden_route iv snap (n_id n) p)))"

lemma eval_sources_exact:
  "\<exists>vs. eval_sources iv is_source (node_by_id snap) (policy_adjacency (sn_edges snap)) ns = Some vs \<and>
     vio_id ` set vs \<subseteq> {inv_id iv} \<and> (vs = [] \<longleftrightarrow> \<not> (\<exists>n \<in> set ns. is_source n \<and> (\<exists>p. forbidden_route iv snap (n_id n) p)))"
proof (induction ns)
  case Nil
  then show ?case by simp
next
  case (Cons n ns)
  then obtain vs where vs: "eval_sources iv is_source (node_by_id snap) (policy_adjacency (sn_edges snap)) ns = Some vs"
      "vio_id ` set vs \<subseteq> {inv_id iv}" "vs = [] \<longleftrightarrow> \<not> (\<exists>n \<in> set ns. is_source n \<and> (\<exists>p. forbidden_route iv snap (n_id n) p))"
    by blast
  obtain r where r: "bfs (n_id n) iv (node_by_id snap) (policy_adjacency (sn_edges snap)) = Some r"
      "shortest_or_none iv snap (n_id n) r"
    using bfs_finds by blast
  show ?case
  proof (cases r)
    case None
    then show ?thesis using vs r by (auto simp: shortest_or_none_def)
  next
    case (Some p)
    then have "forbidden_route iv snap (n_id n) p" using r(2) by (simp add: shortest_or_none_def)
    then show ?thesis using vs r Some by (auto simp: violation_of_def)
  qed
qed

lemma eval_invariants_exact:
  "\<exists>vs. eval_invariants ivs snap (node_by_id snap) (policy_adjacency (sn_edges snap)) = Some vs \<and>
     vio_id ` set vs = inv_id ` {iv \<in> set ivs. invariant_broken iv snap}"
proof (induction ivs)
  case Nil
  then show ?case by simp
next
  case (Cons iv ivs)
  have "\<exists>ws. (case inv_source iv of None \<Rightarrow> Some (eval_node iv snap)
      | Some is_source \<Rightarrow> eval_sources iv is_source (node_by_id snap) (policy_adjacency (sn_edges snap)) (sn_nodes snap)) = Some ws \<and>
      vio_id ` set ws = (if invariant_broken iv snap then {inv_id iv} else {})"
  proof (cases "inv_source iv")
    case None
    then show ?thesis
      by (auto simp: eval_node_def invariant_broken_def violation_of_def image_iff)
  next
    case (Some is_source)
    then obtain ws where ws: "eval_sources iv is_source (node_by_id snap) (policy_adjacency (sn_edges snap)) (sn_nodes snap) = Some ws"
        "vio_id ` set ws \<subseteq> {inv_id iv}" "ws = [] \<longleftrightarrow> \<not> invariant_broken iv snap"
      using eval_sources_exact [of iv is_source snap "sn_nodes snap"] by (auto simp: invariant_broken_def)
    then have "vio_id ` set ws = (if invariant_broken iv snap then {inv_id iv} else {})" by (cases ws) auto
    then show ?thesis using ws Some by simp
  qed
  then obtain ws where ws: "(case inv_source iv of None \<Rightarrow> Some (eval_node iv snap)
      | Some is_source \<Rightarrow> eval_sources iv is_source (node_by_id snap) (policy_adjacency (sn_edges snap)) (sn_nodes snap)) = Some ws"
      "vio_id ` set ws = (if invariant_broken iv snap then {inv_id iv} else {})" by blast
  obtain vs where vs: "eval_invariants ivs snap (node_by_id snap) (policy_adjacency (sn_edges snap)) = Some vs"
      "vio_id ` set vs = inv_id ` {iv \<in> set ivs. invariant_broken iv snap}" using Cons.IH by blast
  have "vio_id ` set (ws @ vs) = inv_id ` {i \<in> set (iv # ivs). invariant_broken i snap}"
    using ws(2) vs(2) by (auto simp: image_Un split: if_splits)
  then show ?case using ws(1) vs(1) by simp
qed

lemma evaluate_exact:
  "\<exists>vs. evaluate ivs snap = Some vs \<and> vio_id ` set vs = inv_id ` {iv \<in> set ivs. invariant_broken iv snap}"
  unfolding evaluate_def by (rule eval_invariants_exact)

lemma evaluate_silent: "evaluate ivs snap = Some [] \<longleftrightarrow> (\<forall>iv \<in> set ivs. \<not> invariant_broken iv snap)"
proof -
  obtain vs where vs: "evaluate ivs snap = Some vs" and r: "vio_id ` set vs = inv_id ` {iv \<in> set ivs. invariant_broken iv snap}"
    using evaluate_exact by blast
  have "vio_id ` set vs = {} \<longleftrightarrow> (\<forall>iv \<in> set ivs. \<not> invariant_broken iv snap)" unfolding r by blast
  then have "vs = [] \<longleftrightarrow> (\<forall>iv \<in> set ivs. \<not> invariant_broken iv snap)" by simp
  then show ?thesis unfolding vs by simp
qed

section \<open>The invariants it ships with\<close>

abbreviation prop_signed :: string where "prop_signed \<equiv> ''signed''"

definition builtins :: "invariant list" where
  "builtins =
     [\<lparr>inv_id = ''no-internet-to-sensitive-asset'',
       inv_description = ''No internet-exposed asset may have a path to a sensitive asset.'',
       inv_severity = ''CRITICAL'', inv_source = Some internet_exposed, inv_target = is_jewel, inv_via = None\<rparr>,
      \<lparr>inv_id = ''no-internet-to-secret'',
       inv_description = ''No internet-exposed asset may reach an exposed secret.'',
       inv_severity = ''HIGH'', inv_source = Some internet_exposed,
       inv_target = (\<lambda>n. n_label n = ''Secret''), inv_via = None\<rparr>,
      \<lparr>inv_id = ''no-internet-to-unsigned-image'',
       inv_description = ''No internet-exposed asset may reach an unsigned image - an unsigned build is a tampering vector into a reachable workload.'',
       inv_severity = ''HIGH'', inv_source = Some internet_exposed,
       inv_target = (\<lambda>n. n_label n = label_image \<and> as_bool (pget (n_props n) prop_signed) = Some False), inv_via = None\<rparr>,
      \<lparr>inv_id = ''no-public-data-store'',
       inv_description = ''Object storage and managed databases must not be internet-exposed.'',
       inv_severity = ''HIGH'', inv_source = None,
       inv_target = (\<lambda>n. (n_label n = label_bucket \<or> n_label n = label_database) \<and> internet_exposed n), inv_via = None\<rparr>,
      \<lparr>inv_id = ''no-internet-exposed-sensitive-asset'',
       inv_description = ''A sensitive asset must not itself be reachable from the internet.'',
       inv_severity = ''CRITICAL'', inv_source = None,
       inv_target = (\<lambda>n. internet_exposed n \<and> is_jewel n), inv_via = None\<rparr>]"

text \<open>The edges of a snapshot as a relation between ids, of any type.\<close>

definition linked :: "snapshot \<Rightarrow> string \<Rightarrow> string \<Rightarrow> bool" where
  "linked snap u v \<longleftrightarrow> (\<exists>e \<in> set (sn_edges snap). e_from e = u \<and> e_to e = v)"

lemma via_step_any: "inv_via iv = None \<Longrightarrow> via_step iv (sn_edges snap) = linked snap"
  by (auto simp: via_step_def linked_def via_allows_def fun_eq_iff)

lemma forbidden_iff_linked:
  assumes "inv_via iv = None"
  shows "(\<exists>p. forbidden_route iv snap src p) \<longleftrightarrow>
    (\<exists>v n. v \<noteq> src \<and> (linked snap)\<^sup>*\<^sup>* src v \<and> map_of (node_by_id snap) v = Some n \<and> inv_target iv n)"
proof
  assume "\<exists>p. forbidden_route iv snap src p"
  then obtain p where "forbidden_route iv snap src p" by blast
  then show "\<exists>v n. v \<noteq> src \<and> (linked snap)\<^sup>*\<^sup>* src v \<and> map_of (node_by_id snap) v = Some n \<and> inv_target iv n"
    using via_index.dist_walk [of p iv "sn_edges snap"] via_step_any [OF assms] by (auto simp: forbidden_route_def)
next
  assume "\<exists>v n. v \<noteq> src \<and> (linked snap)\<^sup>*\<^sup>* src v \<and> map_of (node_by_id snap) v = Some n \<and> inv_target iv n"
  then obtain v n where v: "v \<noteq> src" "(linked snap)\<^sup>*\<^sup>* src v" "map_of (node_by_id snap) v = Some n" "inv_target iv n"
    by blast
  then obtain k where "(via_step iv (sn_edges snap) ^^ k) src v" using via_step_any [OF assms] by (auto simp: rtranclp_power)
  then obtain p where "p \<noteq> []" "successively (via_step iv (sn_edges snap)) p" "hd p = src" "last p = v"
    unfolding via_index.relpowp_successively by blast
  then show "\<exists>p. forbidden_route iv snap src p" using v by (auto simp: forbidden_route_def)
qed

lemma gate_silent:
  assumes d: "distinct (map n_id (sn_nodes snap))" and n: "n \<in> set (sn_nodes snap)" "internet_exposed n"
    and m: "m \<in> set (sn_nodes snap)" "(linked snap)\<^sup>*\<^sup>* (n_id n) (n_id m)" and e: "evaluate builtins snap = Some []"
  shows "\<not> is_jewel m \<and> (n_id m \<noteq> n_id n \<longrightarrow> n_label m \<noteq> ''Secret'')"
proof -
  have mi: "map_of (node_by_id snap) (n_id m) = Some m"
  proof -
    obtain x where x: "map_of (node_by_id snap) (n_id m) = Some x"
      using node_by_id_None [of snap "n_id m"] m(1) by (cases "map_of (node_by_id snap) (n_id m)") auto
    then have "x = m" using node_by_id_SomeD [OF x] d m(1) by (auto simp: distinct_map inj_on_def)
    then show ?thesis using x by simp
  qed
  have b: "\<not> invariant_broken iv snap" if "iv \<in> set builtins" for iv using e that by (simp add: evaluate_silent)
  show ?thesis
  proof (cases "n_id m = n_id n")
    case True
    then have "m = n" using d n(1) m(1) by (auto simp: distinct_map inj_on_def)
    then show ?thesis using b [of "builtins ! 4"] n by (auto simp: builtins_def invariant_broken_def)
  next
    case False
    have "\<not> inv_target iv m" if "iv \<in> set builtins" "inv_source iv = Some internet_exposed" "inv_via iv = None" for iv
      using b [OF that(1)] forbidden_iff_linked [OF that(3)] that(2) n m(2) mi False by (auto simp: invariant_broken_def)
    from this [of "builtins ! 0"] this [of "builtins ! 1"] show ?thesis by (simp add: builtins_def)
  qed
qed

text \<open>
  C22. A snapshot the shipped invariants pass is clean: with one node per id, no node that is
  exposed to the internet leads along edges of any type, in any number of steps, none
  included, to a crown jewel, nor in one or more steps to another node that is a secret.
  The path invariant alone would miss the jewel that is itself exposed.
\<close>

theorem policy_gate:
  assumes "distinct (map n_id (sn_nodes snap))"
    and "n \<in> set (sn_nodes snap)" "internet_exposed n" "m \<in> set (sn_nodes snap)"
    and "(linked snap)\<^sup>*\<^sup>* (n_id n) (n_id m)"
    and "evaluate builtins snap = Some []"
  shows "\<not> is_jewel m \<and> (n_id m \<noteq> n_id n \<longrightarrow> n_label m \<noteq> ''Secret'')"
  by (rule gate_silent [OF assms(1-5) assms(6)])

definition gate_web :: node where
  "gate_web = \<lparr>n_id = ''web'', n_label = label_vm, n_name = ''web'', n_props = [(prop_internet_exposed, GBool True)]\<rparr>"

definition gate_app :: node where
  "gate_app = \<lparr>n_id = ''app'', n_label = label_container, n_name = ''app'', n_props = []\<rparr>"

definition gate_snap :: snapshot where
  "gate_snap = \<lparr>sn_nodes = [gate_web, gate_app],
     sn_edges = [\<lparr>e_type = edge_connects_to, e_from = ''web'', e_to = ''app'', e_prob = 1, e_props = []\<rparr>]\<rparr>"

lemma policy_gate_witness:
  "\<not> is_jewel gate_app \<and> n_label gate_app \<noteq> ''Secret''"
proof -
  have "linked gate_snap (n_id gate_web) (n_id gate_app)"
    by (simp add: linked_def gate_snap_def gate_web_def gate_app_def)
  then have r: "(linked gate_snap)\<^sup>*\<^sup>* (n_id gate_web) (n_id gate_app)" by blast
  have e: "evaluate builtins gate_snap = Some []" by code_simp
  have ids: "distinct (map n_id (sn_nodes gate_snap))" "gate_web \<in> set (sn_nodes gate_snap)"
      "internet_exposed gate_web" "gate_app \<in> set (sn_nodes gate_snap)" "n_id gate_app \<noteq> n_id gate_web"
    by code_simp+
  show ?thesis using policy_gate [OF ids(1-4) r e] ids(5) by blast
qed

end
