(* ===== verification/Analyzer_Pass.thy ===== *)
theory Analyzer_Pass
  imports Memory_Laws Critical_Paths Triage Risk_Simulation Policy_Invariants
begin

text \<open>
  The analyzer's pass over one tenant, \<open>backend/internal/analyzer/service.go\<close>: the throttled
  prune, the skip of unchanged graphs, the snapshot kept resident and patched by deltas, the
  paths, risk and violations it caches, and what it tells the history, the observer, the
  notifier and the sink. The store is a record of its capabilities; the locale \<open>delta_store\<close>
  states what a resident snapshot needs of them, and the memory store interprets it.

  The clock is read where the code reads it: at the prune, at the start of the snapshot and
  when the pass is recorded, three arguments. A call into history, notifier, observer or sink
  is an effect in the result, in the order of the code; metrics and logs are left out.
\<close>

section \<open>The store as the analyzer sees it\<close>

text \<open>
  A read that fails is \<open>None\<close>. \<open>be_since\<close>, \<open>be_epoch\<close>, \<open>be_prune\<close> and \<open>be_paths\<close> are
  \<open>None\<close> for a store without the capability; the prune is \<open>VersionedStore\<close>'s.
\<close>

record 's backend =
  be_snapshot :: "'s \<Rightarrow> snapshot option"
  be_since :: "(int \<Rightarrow> 's \<Rightarrow> snapshot option) option"
  be_epoch :: "('s \<Rightarrow> int option) option"
  be_prune :: "(gotime \<Rightarrow> 's \<Rightarrow> prune_stats \<times> store_error option \<times> 's) option"
  be_version :: "'s \<Rightarrow> int"
  be_paths :: "(nat \<Rightarrow> 's \<Rightarrow> raw_path list option) option"

record tenant_state =
  ts_latest :: "attack_path list"
  ts_risk :: risk_simulation
  ts_violations :: "violation list"
  ts_last_version :: int
  ts_skips :: nat
  ts_analyzed_at :: gotime
  ts_passes :: nat
  ts_has_run :: bool
  ts_last_prune :: gotime
  ts_last_pruned_at :: gotime
  ts_pruned_nodes :: nat
  ts_pruned_edges :: nat
  ts_cache_nodes :: "(string, node) gomap"
  ts_cache_edges :: "(edge_key, edge) gomap"
  ts_cache_valid :: bool
  ts_watermark :: int
  ts_since_full :: nat
  ts_epoch :: int

definition new_tenant_state :: tenant_state where
  "new_tenant_state =
     \<lparr>ts_latest = [], ts_risk = zero_sim 0, ts_violations = [], ts_last_version = 0, ts_skips = 0,
      ts_analyzed_at = zero_time, ts_passes = 0, ts_has_run = False, ts_last_prune = zero_time,
      ts_last_pruned_at = zero_time, ts_pruned_nodes = 0, ts_pruned_edges = 0, ts_cache_nodes = [],
      ts_cache_edges = [], ts_cache_valid = False, ts_watermark = 0, ts_since_full = 0, ts_epoch = 0\<rparr>"

section \<open>Configuration\<close>

record service =
  sv_interval :: int
  sv_max_hops :: nat
  sv_db_paths :: bool
  sv_incremental :: bool
  sv_ttl :: int
  sv_prune_every :: int
  sv_policy :: "invariant list option"
  sv_has_history :: bool
  sv_has_observer :: bool
  sv_has_sink :: bool

definition default_max_hops :: nat where "default_max_hops = 12"
definition force_rescan_every :: nat where "force_rescan_every = 10"
definition full_snapshot_every :: nat where "full_snapshot_every = 20"

definition new_service :: "int \<Rightarrow> bool \<Rightarrow> service" where
  "new_service interval has_sink =
     \<lparr>sv_interval = (if interval \<le> 0 then 30 * second_ns else interval), sv_max_hops = default_max_hops,
      sv_db_paths = False, sv_incremental = False, sv_ttl = 0, sv_prune_every = 0, sv_policy = None,
      sv_has_history = False, sv_has_observer = False, sv_has_sink = has_sink\<rparr>"

definition with_max_hops :: "int \<Rightarrow> service \<Rightarrow> service" where
  "with_max_hops h sv = (if h > 0 then sv\<lparr>sv_max_hops := nat h\<rparr> else sv)"

definition with_ttl :: "int \<Rightarrow> service \<Rightarrow> service" where
  "with_ttl d sv =
     (if d \<le> 0 then sv\<lparr>sv_ttl := 0\<rparr>
      else (let sv = sv\<lparr>sv_ttl := d\<rparr>; every = d div 6;
                every = (if every < sv_interval sv then sv_interval sv else every);
                every = (if every > 3600 * second_ns then 3600 * second_ns else every)
            in sv\<lparr>sv_prune_every := every\<rparr>))"

section \<open>The resident snapshot\<close>

definition cache_patch_nodes :: "node list \<Rightarrow> (string, node) gomap \<Rightarrow> (string, node) gomap" where
  "cache_patch_nodes ns m = fold (\<lambda>n m. AList.update (n_id n) n m) ns m"

definition cache_patch_edges :: "edge list \<Rightarrow> (edge_key, edge) gomap \<Rightarrow> (edge_key, edge) gomap" where
  "cache_patch_edges es m = fold (\<lambda>e m. AList.update (edge_key e) e m) es m"

definition materialize_snapshot :: "tenant_state \<Rightarrow> snapshot" where
  "materialize_snapshot st = \<lparr>sn_nodes = map snd (ts_cache_nodes st), sn_edges = map snd (ts_cache_edges st)\<rparr>"

text \<open>
  The full read: an error leaves the state as it was. The cache is kept only in
  incremental mode; the epoch is remembered when it was read.
\<close>

definition full_read :: "service \<Rightarrow> 's backend \<Rightarrow> int \<Rightarrow> int option \<Rightarrow> 's \<Rightarrow> tenant_state \<Rightarrow> snapshot option \<times> tenant_state" where
  "full_read sv be watermark epoch s st =
     (case be_snapshot be s of
        None \<Rightarrow> (None, st)
      | Some snap \<Rightarrow>
          (Some snap,
           if sv_incremental sv
           then (let st = st\<lparr>ts_cache_nodes := cache_patch_nodes (sn_nodes snap) [],
                             ts_cache_edges := cache_patch_edges (sn_edges snap) [],
                             ts_cache_valid := True, ts_watermark := watermark, ts_since_full := 0\<rparr>
                 in case epoch of Some e \<Rightarrow> st\<lparr>ts_epoch := e\<rparr> | None \<Rightarrow> st)
           else st))"

definition acquire_snapshot ::
  "service \<Rightarrow> 's backend \<Rightarrow> gotime \<Rightarrow> bool \<Rightarrow> 's \<Rightarrow> tenant_state \<Rightarrow> snapshot option \<times> tenant_state" where
  "acquire_snapshot sv be start pruned s st =
     (let watermark = time_unix start;
          full = (\<not> sv_incremental sv \<or> be_since be = None \<or> \<not> ts_cache_valid st \<or> pruned \<or>
                  ts_since_full st \<ge> full_snapshot_every);
          (full, epoch) =
            (if sv_incremental sv
             then (case be_epoch be of
                     None \<Rightarrow> (full, None)
                   | Some f \<Rightarrow>
                       (case f s of
                          None \<Rightarrow> (True, None)
                        | Some e \<Rightarrow> (full \<or> e \<noteq> ts_epoch st, Some e)))
             else (full, None))
      in if full then full_read sv be watermark epoch s st
         else (case be_since be of
                 None \<Rightarrow> full_read sv be watermark epoch s st
               | Some f \<Rightarrow>
                   (case f (ts_watermark st) s of
                      None \<Rightarrow> full_read sv be watermark epoch s st
                    | Some d \<Rightarrow>
                        (let st = st\<lparr>ts_cache_nodes := cache_patch_nodes (sn_nodes d) (ts_cache_nodes st),
                                     ts_cache_edges := cache_patch_edges (sn_edges d) (ts_cache_edges st),
                                     ts_watermark := watermark, ts_since_full := ts_since_full st + 1\<rparr>
                         in (Some (materialize_snapshot st), st)))))"

section \<open>Pruning\<close>

definition maybe_prune ::
  "service \<Rightarrow> 's backend \<Rightarrow> bool \<Rightarrow> gotime \<Rightarrow> 's \<Rightarrow> tenant_state \<Rightarrow> nat \<times> 's \<times> tenant_state" where
  "maybe_prune sv be is_leader now s st =
     (if sv_ttl sv \<le> 0 \<or> \<not> is_leader then (0, s, st)
      else if ts_last_prune st \<noteq> zero_time \<and> now - ts_last_prune st < sv_prune_every sv then (0, s, st)
      else (let st = st\<lparr>ts_last_prune := now\<rparr>
            in case be_prune be of
                 None \<Rightarrow> (0, s, st)
               | Some f \<Rightarrow>
                   (case f (now - sv_ttl sv) s of
                      (stats, Some err, s') \<Rightarrow> (0, s', st)
                    | (stats, None, s') \<Rightarrow>
                        (let removed = ps_nodes stats + ps_edges stats
                         in (removed, s',
                             if removed > 0
                             then st\<lparr>ts_pruned_nodes := ts_pruned_nodes st + ps_nodes stats,
                                     ts_pruned_edges := ts_pruned_edges st + ps_edges stats,
                                     ts_last_pruned_at := now\<rparr>
                             else st)))))"

section \<open>Drift\<close>

record path_summary =
  pm_id :: string
  pm_route :: string
  pm_score :: real
  pm_runtime :: bool
  pm_kev :: bool

record drift_event =
  dr_tenant :: string
  dr_appeared :: "path_summary list"
  dr_resolved :: "path_summary list"

text \<open>The separator is a space, U+2192 in UTF-8, a space.\<close>

definition route_of :: "attack_path \<Rightarrow> string" where
  "route_of p = str_join (map n_name (ap_nodes p)) ([CHR 0x20, CHR 0xE2, CHR 0x86, CHR 0x92, CHR 0x20])"

definition summary_of :: "attack_path \<Rightarrow> path_summary" where
  "summary_of p =
     \<lparr>pm_id = ap_id p, pm_route = route_of p, pm_score = ap_score p, pm_runtime = ap_runtime p,
      pm_kev = (\<exists>n \<in> set (ap_nodes p). n_label n = label_cve \<and> node_bool n prop_kev)\<rparr>"

definition diff_paths :: "string \<Rightarrow> attack_path list \<Rightarrow> attack_path list \<Rightarrow> drift_event" where
  "diff_paths tenant prev cur =
     (let prev_ids = map ap_id prev; cur_ids = map ap_id cur
      in \<lparr>dr_tenant = tenant,
          dr_appeared = map summary_of (filter (\<lambda>p. ap_id p \<notin> set prev_ids) cur),
          dr_resolved = map summary_of (filter (\<lambda>p. ap_id p \<notin> set cur_ids) prev)\<rparr>)"

definition drift_empty :: "drift_event \<Rightarrow> bool" where
  "drift_empty d \<longleftrightarrow> dr_appeared d = [] \<and> dr_resolved d = []"

section \<open>The pass\<close>

text \<open>The database finder's error, a timeout included, falls back to the snapshot.\<close>

definition critical_paths_via :: "'s backend \<Rightarrow> 's \<Rightarrow> snapshot \<Rightarrow> nat \<Rightarrow> bool \<Rightarrow> attack_path list option" where
  "critical_paths_via be s snap max_hops use_db =
     (case (if use_db then be_paths be else None) of
        Some f \<Rightarrow>
          (case f max_hops s of
             Some raws \<Rightarrow> Some (rank_raw_paths raws (direct_access_paths snap))
           | None \<Rightarrow> find_critical_paths snap)
      | None \<Rightarrow> find_critical_paths snap)"

datatype effect =
  Eff_Calibration string real real nat
| Eff_Trend string nat real
| Eff_History string "(string \<times> string \<times> real) list" real
| Eff_Observe string snapshot "attack_path list"
| Eff_Notify drift_event
| Eff_Sink string "attack_path list"

definition risk_seed :: u64 where "risk_seed = 1"

definition sample_calibration :: "service \<Rightarrow> (string \<Rightarrow> real \<times> real \<times> nat) option \<Rightarrow> string \<Rightarrow> effect list" where
  "sample_calibration sv calibrator tenant =
     (case calibrator of
        Some f \<Rightarrow>
          if sv_has_history sv
          then (let (b, e, n) = f tenant in if n > 0 then [Eff_Calibration tenant b e n] else [])
          else []
      | None \<Rightarrow> [])"

definition pass_effects ::
  "service \<Rightarrow> bool \<Rightarrow> string \<Rightarrow> tenant_state \<Rightarrow> snapshot \<Rightarrow> attack_path list \<Rightarrow> risk_simulation \<Rightarrow> effect list" where
  "pass_effects sv is_leader tenant st snap paths risk =
     (if sv_has_history sv
      then [Eff_History tenant (map (\<lambda>p. (ap_id p, route_of p, ap_score p)) paths) (rs_any risk * 100)] else []) @
     (if sv_has_observer sv then [Eff_Observe tenant snap paths] else []) @
     (let drift = diff_paths tenant (ts_latest st) paths
      in if ts_has_run st \<and> is_leader \<and> \<not> drift_empty drift then [Eff_Notify drift] else []) @
     (if is_leader \<and> sv_has_sink sv then [Eff_Sink tenant paths] else [])"

text \<open>
  The times, the leadership answer of each of the two questions, the context the simulation
  runs under, and the sampler and profiles it draws from.
\<close>

record 'r tick =
  tk_prune :: gotime
  tk_start :: gotime
  tk_record :: gotime
  tk_leader_prune :: bool
  tk_leader_act :: bool
  tk_ctx :: run_ctx
  tk_rng :: "'r rng"
  tk_profiles :: "profile list"

definition compute_pass ::
  "service \<Rightarrow> 's backend \<Rightarrow> 'r tick \<Rightarrow> string \<Rightarrow> bool \<Rightarrow> 's \<Rightarrow> tenant_state \<Rightarrow> (effect list \<times> tenant_state) option" where
  "compute_pass sv be tk tenant pruned s st =
     (case acquire_snapshot sv be (tk_start tk) pruned s st of
        (None, st) \<Rightarrow> Some ([], st)
      | (Some snap, st) \<Rightarrow>
          (case critical_paths_via be s snap (sv_max_hops sv) (sv_db_paths sv) of
             None \<Rightarrow> None
           | Some found \<Rightarrow>
               (let paths = prioritize found
                in case (case sv_policy sv of None \<Rightarrow> Some [] | Some ivs \<Rightarrow> evaluate ivs snap) of
                     None \<Rightarrow> None
                   | Some violations \<Rightarrow>
                       (case simulate_risk_with (tk_ctx tk) (tk_rng tk) (tk_profiles tk) snap
                               (int default_risk_iterations) risk_seed False of
                          None \<Rightarrow> None
                        | Some (Inl err) \<Rightarrow> Some ([], st)
                        | Some (Inr risk) \<Rightarrow>
                            Some (pass_effects sv (tk_leader_act tk) tenant st snap paths risk,
                                  st\<lparr>ts_latest := paths, ts_risk := risk, ts_violations := violations,
                                     ts_analyzed_at := tk_record tk, ts_passes := ts_passes st + 1,
                                     ts_has_run := True\<rparr>)))))"

definition run_tenant ::
  "service \<Rightarrow> 's backend \<Rightarrow> (string \<Rightarrow> real \<times> real \<times> nat) option \<Rightarrow> 'r tick \<Rightarrow> string \<Rightarrow> 's \<Rightarrow> tenant_state \<Rightarrow>
     (effect list \<times> 's \<times> tenant_state) option" where
  "run_tenant sv be calibrator tk tenant s st =
     (let (pruned, s, st) = maybe_prune sv be (tk_leader_prune tk) (tk_prune tk) s st;
          cal = sample_calibration sv calibrator tenant;
          cur = be_version be s
      in if ts_has_run st \<and> cur = ts_last_version st \<and> ts_skips st < force_rescan_every \<and> pruned = 0
         then Some (cal @ (if sv_has_history sv
                           then [Eff_Trend tenant (length (ts_latest st)) (rs_any (ts_risk st) * 100)] else []),
                    s, st\<lparr>ts_skips := ts_skips st + 1\<rparr>)
         else map_option (\<lambda>(effs, st'). (cal @ effs, s, st'))
                (compute_pass sv be tk tenant (pruned > 0) s (st\<lparr>ts_last_version := cur, ts_skips := 0\<rparr>)))"

end
