(* ===== verification/Analyzer_Laws.thy ===== *)
theory Analyzer_Laws
  imports Analyzer_Pass
begin

text \<open>
  What the analyzer's cache is worth: a pass that reads in full publishes the analysis of the
  graph of the store, and one that patches the resident snapshot by a delta that of a graph
  which differs from it at most in the elements written, since the last full read, under a
  stamp older than the watermark then in force; a skipped pass leaves an analysis of the graph
  as it still is. Then where such a late write comes from: a parked edge lands with the stamp of
  the day it was parked. And a pass that failed is remembered as done.
\<close>

section \<open>The graph a snapshot lists\<close>

type_synonym graph = "(string \<Rightarrow> node option) \<times> (edge_key \<Rightarrow> edge option)"

definition snap_graph :: "snapshot \<Rightarrow> graph" where
  "snap_graph sn = (map_of (cache_patch_nodes (sn_nodes sn) []), map_of (cache_patch_edges (sn_edges sn) []))"

definition seen_part :: "int \<Rightarrow> graph \<Rightarrow> graph" where
  "seen_part w g =
     (\<lambda>i. case fst g i of Some n \<Rightarrow> if seen_since w (n_props n) then Some n else None | None \<Rightarrow> None,
      \<lambda>k. case snd g k of Some e \<Rightarrow> if seen_since w (e_props e) then Some e else None | None \<Rightarrow> None)"

text \<open>A map whose entries sit under their own keys lists itself.\<close>

definition keyed :: "('v \<Rightarrow> 'k) \<Rightarrow> ('k, 'v) gomap \<Rightarrow> bool" where
  "keyed key m \<longleftrightarrow> gm_ok m \<and> (\<forall>(k, v) \<in> set m. key v = k)"

lemma map_of_patch:
  "map_of (fold (\<lambda>v m. AList.update (key v) v m) vs m) =
     map_of m ++ map_of (fold (\<lambda>v m. AList.update (key v) v m) vs [])"
proof (induction vs arbitrary: m)
  case Nil
  then show ?case by simp
next
  case (Cons v vs)
  show ?case
    using Cons [of "AList.update (key v) v m"] Cons [of "[(key v, v)]"]
    by (simp add: map_of_update fun_eq_iff map_add_def split: option.splits)
qed

lemma keyed_patch: "keyed key m \<Longrightarrow> keyed key (fold (\<lambda>v m. AList.update (key v) v m) vs m)"
proof (induction vs arbitrary: m)
  case (Cons v vs)
  have "keyed key (AList.update (key v) v m)"
    using Cons.prems by (auto simp: keyed_def gm_ok_in_set map_of_update split: if_splits dest!: map_of_SomeD)
  then show ?case using Cons.IH by simp
qed simp

lemmas keyed_fresh = keyed_patch [of _ "[]", unfolded keyed_def [of _ "[]"], simplified]

lemma keyed_lists: "keyed key m \<Longrightarrow> map_of (fold (\<lambda>v m. AList.update (key v) v m) (map snd m) []) = map_of m"
proof (induction m rule: rev_induct)
  case Nil
  then show ?case by simp
next
  case (snoc kv m)
  obtain k v where kv: "kv = (k, v)" by (cases kv)
  have m: "keyed key m" "key v = k" "k \<notin> fst ` set m" using snoc.prems kv by (auto simp: keyed_def gm_ok_def)
  then have "map_of m k = None" by (simp add: map_of_eq_None_iff)
  then show ?case using snoc.IH [OF m(1)] m(2) kv
    by (auto simp: map_of_update fun_eq_iff map_add_def split: option.splits)
qed

lemma keyed_filter: "keyed key m \<Longrightarrow> keyed key (filter P m)"
  by (auto simp: keyed_def)

lemma keyed_filter_lists:
  assumes "keyed key m"
  shows "map_of (fold (\<lambda>v m. AList.update (key v) v m) (filter P (map snd m)) []) k =
     (case map_of m k of Some v \<Rightarrow> if P v then Some v else None | None \<Rightarrow> None)"
proof -
  have "filter P (map snd m) = map snd (filter (\<lambda>kv. P (snd kv)) m)" by (simp add: filter_map o_def)
  then show ?thesis
    using keyed_lists [OF keyed_filter [OF assms]] assms
    by (simp add: map_of_filter_ok keyed_def split: option.split)
qed

section \<open>What a resident snapshot needs of the store\<close>

text \<open>
  The last graph read and what has changed since: as the delta can see it, or late. The late
  elements are ids of nodes and keys of edges.
\<close>

type_synonym late = "string set \<times> edge_key set"

definition stamped_changes :: "int \<Rightarrow> late \<Rightarrow> graph \<Rightarrow> graph \<Rightarrow> bool" where
  "stamped_changes w late g g' \<longleftrightarrow>
     (\<forall>i n. fst g' i = Some n \<longrightarrow> fst g i = Some n \<or> seen_since w (n_props n) \<or> i \<in> fst late) \<and>
     (\<forall>k e. snd g' k = Some e \<longrightarrow> snd g k = Some e \<or> seen_since w (e_props e) \<or> k \<in> snd late)"

text \<open>What a write changes under a stamp older than the watermark.\<close>

definition late_writes :: "int \<Rightarrow> graph \<Rightarrow> graph \<Rightarrow> late" where
  "late_writes w g g' =
     ({i. \<exists>n. fst g' i = Some n \<and> fst g i \<noteq> Some n \<and> \<not> seen_since w (n_props n)},
      {k. \<exists>e. snd g' k = Some e \<and> snd g k \<noteq> Some e \<and> \<not> seen_since w (e_props e)})"

definition late_join :: "late \<Rightarrow> late \<Rightarrow> late" where
  "late_join l l' = (fst l \<union> fst l', snd l \<union> snd l')"

definition agree_but :: "late \<Rightarrow> graph \<Rightarrow> graph \<Rightarrow> bool" where
  "agree_but late g g' \<longleftrightarrow> (\<forall>i. i \<notin> fst late \<longrightarrow> fst g i = fst g' i) \<and> (\<forall>k. k \<notin> snd late \<longrightarrow> snd g k = snd g' k)"

lemma agree_but_none: "agree_but ({}, {}) g g' \<longleftrightarrow> g = g'"
  by (auto simp: agree_but_def prod_eq_iff)

lemma late_writes_stamped: "stamped_changes w (late_writes w g g') g g'"
  by (auto simp: stamped_changes_def late_writes_def)

definition kept_keys :: "graph \<Rightarrow> graph \<Rightarrow> bool" where
  "kept_keys g g' \<longleftrightarrow> dom (fst g) \<subseteq> dom (fst g') \<and> dom (snd g) \<subseteq> dom (snd g')"

definition cache_graph :: "tenant_state \<Rightarrow> graph" where
  "cache_graph st = (map_of (ts_cache_nodes st), map_of (ts_cache_edges st))"

definition cache_ok :: "late \<Rightarrow> tenant_state \<Rightarrow> int \<Rightarrow> graph \<Rightarrow> bool" where
  "cache_ok late st epoch g \<longleftrightarrow> keyed n_id (ts_cache_nodes st) \<and> keyed edge_key (ts_cache_edges st) \<and>
     (ts_cache_valid st \<longrightarrow> ts_epoch st \<le> epoch \<and>
        (epoch = ts_epoch st \<longrightarrow> kept_keys (cache_graph st) g \<and> stamped_changes (ts_watermark st) late (cache_graph st) g))"

text \<open>The cache is used in incremental mode only, and for a bounded number of deltas.\<close>

definition cache_mode :: "service \<Rightarrow> tenant_state \<Rightarrow> bool" where
  "cache_mode sv st \<longleftrightarrow> (ts_cache_valid st \<longrightarrow> sv_incremental sv) \<and> (\<not> ts_cache_valid st \<longrightarrow> ts_since_full st = 0) \<and>
     ts_since_full st \<le> full_snapshot_every"

text \<open>What stays late after a read: nothing when it was a full one.\<close>

definition late_after :: "tenant_state \<Rightarrow> late \<Rightarrow> late" where
  "late_after st late = (if ts_since_full st = 0 then ({}, {}) else late)"

lemma graph_refl [simp]: "kept_keys g g" "stamped_changes w late g g"
  by (simp_all add: kept_keys_def stamped_changes_def)

locale delta_store =
  fixes step :: "'s \<Rightarrow> 's \<Rightarrow> bool"
    and ok :: "'s \<Rightarrow> bool"
    and graph :: "'s \<Rightarrow> graph"
    and be :: "'s backend"
    and epoch :: "'s \<Rightarrow> int"
  assumes step_ok: "ok s \<Longrightarrow> step s s' \<Longrightarrow> ok s'"
    and full_lists: "ok s \<Longrightarrow> \<exists>sn. be_snapshot be s = Some sn \<and> snap_graph sn = graph s"
    and since_lists: "ok s \<Longrightarrow> \<exists>f sn. be_since be = Some f \<and> f w s = Some sn \<and> snap_graph sn = seen_part w (graph s)"
    and epoch_known: "be_epoch be = Some (\<lambda>s. Some (epoch s))"
    and epoch_keeps: "ok s \<Longrightarrow> step s s' \<Longrightarrow> epoch s \<le> epoch s' \<and> (epoch s' = epoch s \<longrightarrow> kept_keys (graph s) (graph s'))"
begin

lemma steps_ok: "step\<^sup>*\<^sup>* s s' \<Longrightarrow> ok s \<Longrightarrow> ok s'"
  by (induction rule: rtranclp_induct) (auto intro: step_ok)

lemma cache_write:
  assumes "ok s" "step s s'" "cache_ok late st (epoch s) (graph s)" "stamped_changes (ts_watermark st) late' (graph s) (graph s')"
  shows "cache_ok (late_join late late') st (epoch s') (graph s')"
  unfolding cache_ok_def
proof (intro conjI impI)
  show "keyed n_id (ts_cache_nodes st)" "keyed edge_key (ts_cache_edges st)" using assms(3) by (simp_all add: cache_ok_def)
  assume v: "ts_cache_valid st"
  then have c: "ts_epoch st \<le> epoch s" using assms(3) by (simp add: cache_ok_def)
  then show "ts_epoch st \<le> epoch s'" using epoch_keeps [OF assms(1,2)] by simp
  assume e: "epoch s' = ts_epoch st"
  then have "epoch s = ts_epoch st" and k: "kept_keys (graph s) (graph s')" using c epoch_keeps [OF assms(1,2)] by auto
  then have old: "kept_keys (cache_graph st) (graph s)" "stamped_changes (ts_watermark st) late (cache_graph st) (graph s)"
    using assms(3) v by (auto simp: cache_ok_def)
  show "kept_keys (cache_graph st) (graph s')" using old(1) k unfolding kept_keys_def by blast
  show "stamped_changes (ts_watermark st) (late_join late late') (cache_graph st) (graph s')"
    using old(2) assms(4) unfolding stamped_changes_def late_join_def fst_conv snd_conv Un_iff by metis
qed

lemma full_read_ok:
  assumes "ok s" "cache_mode sv st" "cache_ok late st (epoch s) (graph s)"
    and "full_read sv be w (if sv_incremental sv then Some (epoch s) else None) s st = (r, st')"
  shows "\<exists>sn. r = Some sn \<and> snap_graph sn = graph s \<and> ts_since_full st' = 0 \<and> cache_ok ({}, {}) st' (epoch s) (graph s) \<and> cache_mode sv st'"
proof -
  obtain sn where sn: "be_snapshot be s = Some sn" "snap_graph sn = graph s" using full_lists [OF assms(1)] by blast
  have k: "keyed n_id (cache_patch_nodes ns [])" "keyed edge_key (cache_patch_edges es [])" for ns es
    by (simp_all add: cache_patch_nodes_def cache_patch_edges_def keyed_fresh)
  have g: "(map_of (cache_patch_nodes (sn_nodes sn) []), map_of (cache_patch_edges (sn_edges sn) [])) = graph s"
    using sn(2) by (simp add: snap_graph_def)
  show ?thesis
  proof (cases "sv_incremental sv")
    case True
    then have "r = Some sn" "st' = st\<lparr>ts_cache_nodes := cache_patch_nodes (sn_nodes sn) [],
        ts_cache_edges := cache_patch_edges (sn_edges sn) [], ts_cache_valid := True, ts_watermark := w,
        ts_since_full := 0, ts_epoch := epoch s\<rparr>"
      using assms(4) sn(1) by (auto simp: full_read_def)
    then show ?thesis using True sn(2) k by (simp add: cache_ok_def cache_graph_def cache_mode_def g)
  next
    case False
    then have "r = Some sn" "st' = st" using assms(4) sn(1) by (auto simp: full_read_def)
    then show ?thesis using False assms(2,3) sn(2) by (simp add: cache_ok_def cache_mode_def)
  qed
qed

lemma patched_graph:
  assumes "kept_keys c g" "stamped_changes w late c g" "snap_graph d = seen_part w g"
  shows "agree_but late (fst c ++ fst (snap_graph d), snd c ++ snd (snap_graph d)) g \<and>
    kept_keys (fst c ++ fst (snap_graph d), snd c ++ snd (snap_graph d)) g"
proof -
  have "(fst c ++ fst (seen_part w g)) i = fst g i" if "i \<notin> fst late" for i
    using assms(1,2) that unfolding kept_keys_def stamped_changes_def seen_part_def
    by (cases "fst g i") (auto simp: map_add_def dom_def)
  moreover have "(snd c ++ snd (seen_part w g)) k = snd g k" if "k \<notin> snd late" for k
    using assms(1,2) that unfolding kept_keys_def stamped_changes_def seen_part_def
    by (cases "snd g k") (auto simp: map_add_def dom_def)
  moreover have "dom (fst (seen_part w g)) \<subseteq> dom (fst g)" "dom (snd (seen_part w g)) \<subseteq> dom (snd g)"
    by (auto simp: seen_part_def split: option.splits if_splits)
  ultimately show ?thesis using assms(1) unfolding assms(3) by (auto simp: agree_but_def kept_keys_def)
qed

lemma acquire_ok:
  assumes ok: "ok s" and m: "cache_mode sv st" and c: "cache_ok late st (epoch s) (graph s)"
    and run: "acquire_snapshot sv be start pruned s st = (r, st')"
  shows "\<exists>sn. r = Some sn \<and> agree_but (late_after st' late) (snap_graph sn) (graph s) \<and>
    cache_ok (late_after st' late) st' (epoch s) (graph s) \<and> cache_mode sv st'"
proof (cases "sv_incremental sv \<and> ts_cache_valid st \<and> \<not> pruned \<and> ts_since_full st < full_snapshot_every \<and> epoch s = ts_epoch st")
  case False
  then have "full_read sv be (time_unix start) (if sv_incremental sv then Some (epoch s) else None) s st = (r, st')"
    using run epoch_known since_lists [OF ok] by (auto simp: acquire_snapshot_def Let_def split: if_splits)
  from full_read_ok [OF ok m c this] show ?thesis by (auto simp: late_after_def agree_but_none)
next
  case True
  obtain f d where d: "be_since be = Some f" "f (ts_watermark st) s = Some d" "snap_graph d = seen_part (ts_watermark st) (graph s)"
    using since_lists [OF ok] by blast
  define st2 where "st2 = st\<lparr>ts_cache_nodes := cache_patch_nodes (sn_nodes d) (ts_cache_nodes st),
      ts_cache_edges := cache_patch_edges (sn_edges d) (ts_cache_edges st), ts_watermark := time_unix start,
      ts_since_full := ts_since_full st + 1\<rparr>"
  have r: "r = Some (materialize_snapshot st2)" "st' = st2"
    using run True epoch_known d by (auto simp: acquire_snapshot_def st2_def Let_def)
  have k: "keyed n_id (ts_cache_nodes st2)" "keyed edge_key (ts_cache_edges st2)"
    using c by (auto simp: st2_def cache_ok_def cache_patch_nodes_def cache_patch_edges_def keyed_patch)
  have "kept_keys (cache_graph st) (graph s)" "stamped_changes (ts_watermark st) late (cache_graph st) (graph s)"
    using c True by (auto simp: cache_ok_def)
  from patched_graph [OF this d(3)] have g: "agree_but late (cache_graph st2) (graph s)" "kept_keys (cache_graph st2) (graph s)"
    by (simp_all add: cache_graph_def st2_def snap_graph_def cache_patch_nodes_def cache_patch_edges_def map_of_patch [symmetric])
  have "snap_graph (materialize_snapshot st2) = cache_graph st2"
    using keyed_lists [OF k(1)] keyed_lists [OF k(2)]
    by (simp add: snap_graph_def materialize_snapshot_def cache_graph_def cache_patch_nodes_def cache_patch_edges_def)
  moreover have "stamped_changes (ts_watermark st2) late (cache_graph st2) (graph s)"
    using g(1) unfolding stamped_changes_def agree_but_def by metis
  then have "cache_ok late st2 (epoch s) (graph s)"
    unfolding cache_ok_def using k True c g(2) by (simp add: st2_def cache_graph_def)
  moreover have "late_after st2 late = late" "cache_mode sv st2" using True by (simp_all add: late_after_def cache_mode_def st2_def)
  ultimately show ?thesis using r g(1) by simp
qed

end

section \<open>The memory store behind its write counter\<close>

definition mem_backend :: "mem_store versioned backend" where
  "mem_backend =
     \<lparr>be_snapshot = (\<lambda>vs. Some (ms_snapshot (fst vs))),
      be_since = Some (\<lambda>w vs. Some (ms_snapshot_since w (fst vs))),
      be_epoch = Some (\<lambda>vs. Some (ms_removals (fst vs))),
      be_prune = Some (\<lambda>before. v_prune (Some (ms_prune before))),
      be_version = snd,
      be_paths = None\<rparr>"

lemma ms_ok_keyed: "ms_ok s \<Longrightarrow> keyed n_id (ms_nodes s) \<and> keyed edge_key (ms_edges s)"
  by (auto simp: ms_ok_defs keyed_def gm_ok_in_set)

lemma mem_snapshot_graph: "ms_ok s \<Longrightarrow> snap_graph (ms_snapshot s) = graph_of s"
  using ms_ok_keyed [of s] by (simp add: snap_graph_def graph_of_def ms_snapshot_def cache_patch_nodes_def cache_patch_edges_def keyed_lists)

lemma mem_since_graph: "ms_ok s \<Longrightarrow> snap_graph (ms_snapshot_since w s) = seen_part w (graph_of s)"
  using ms_ok_keyed [of s]
  by (simp add: snap_graph_def graph_of_def ms_snapshot_since_def seen_part_def cache_patch_nodes_def cache_patch_edges_def
      keyed_filter_lists fun_eq_iff)

interpretation mem_delta: delta_store vs_step "\<lambda>vs. ms_ok (fst vs)" "\<lambda>vs. graph_of (fst vs)" mem_backend "\<lambda>vs. ms_removals (fst vs)"
proof unfold_locales
  show "ms_ok (fst vs')" if "ms_ok (fst vs)" "vs_step vs vs'" for vs vs'
    using mem_step_ok [OF vs_step_ok [OF that(2)] that(1)] .
  show "ms_removals (fst vs) \<le> ms_removals (fst vs') \<and>
      (ms_removals (fst vs') = ms_removals (fst vs) \<longrightarrow> kept_keys (graph_of (fst vs)) (graph_of (fst vs')))"
    if "ms_ok (fst vs)" "vs_step vs vs'" for vs vs'
    using mem_step_epoch [OF vs_step_ok [OF that(2)] that(1)] by (simp add: kept_graph_def kept_keys_def graph_of_def)
qed (simp_all add: mem_backend_def mem_snapshot_graph mem_since_graph)

section \<open>A tenant's history\<close>

text \<open>
  What happens to one tenant: any write through the versioned store and any tick of the
  analyzer. Beside them a history keeps what was written late since the last full read.
\<close>

type_synonym tenant_history = "(mem_store versioned \<times> tenant_state) \<times> late"

inductive tenant_step ::
  "service \<Rightarrow> (string \<Rightarrow> real \<times> real \<times> nat) option \<Rightarrow> string \<Rightarrow> 'r tick set \<Rightarrow> tenant_history \<Rightarrow> tenant_history \<Rightarrow> bool"
  for sv cal tenant ticks where
  tenant_write: "vs_step vs vs' \<Longrightarrow>
     tenant_step sv cal tenant ticks ((vs, st), late)
       ((vs', st), late_join late (late_writes (ts_watermark st) (graph_of (fst vs)) (graph_of (fst vs'))))"
| tenant_tick: "tk \<in> ticks \<Longrightarrow> run_tenant sv mem_backend cal tk tenant vs st = Some (effs, vs', st') \<Longrightarrow>
     tenant_step sv cal tenant ticks ((vs, st), late) ((vs', st'), if ts_skips st' = 0 then late_after st' late else late)"

inductive_cases tenant_stepE: "tenant_step sv cal tenant ticks x y"

text \<open>The store and the cache agree wherever the next delta cannot make up for it, late writes apart.\<close>

definition tenant_ok :: "service \<Rightarrow> tenant_history \<Rightarrow> bool" where
  "tenant_ok sv = (\<lambda>((vs, st), late). ms_ok (fst vs) \<and> cache_mode sv st \<and> cache_ok late st (ms_removals (fst vs)) (graph_of (fst vs)))"

lemma stamped_removal: "fst g' \<subseteq>\<^sub>m fst g \<Longrightarrow> snd g' \<subseteq>\<^sub>m snd g \<Longrightarrow> stamped_changes w ({}, {}) g g'"
  unfolding stamped_changes_def map_le_def by (metis domI)

lemma late_join_none [simp]: "late_join late ({}, {}) = late"
  by (simp add: late_join_def)

definition cache_same :: "tenant_state \<Rightarrow> tenant_state \<Rightarrow> bool" where
  "cache_same st st' \<longleftrightarrow> ts_cache_nodes st' = ts_cache_nodes st \<and> ts_cache_edges st' = ts_cache_edges st \<and>
     ts_cache_valid st' = ts_cache_valid st \<and> ts_watermark st' = ts_watermark st \<and> ts_epoch st' = ts_epoch st \<and>
     ts_since_full st' = ts_since_full st"

lemma cache_same_ok:
  "cache_same st st' \<Longrightarrow> cache_ok late st' ep g = cache_ok late st ep g \<and> cache_mode sv st' = cache_mode sv st \<and> late_after st' = late_after st"
  by (simp add: cache_same_def cache_ok_def cache_mode_def late_after_def cache_graph_def fun_eq_iff)

lemma maybe_prune_step:
  assumes m: "ms_ok (fst vs)" and run: "maybe_prune sv mem_backend ldr now vs st = (k, vs', st')"
  shows "(vs' = vs \<or> vs_step vs vs' \<and> fst (graph_of (fst vs')) \<subseteq>\<^sub>m fst (graph_of (fst vs)) \<and>
       snd (graph_of (fst vs')) \<subseteq>\<^sub>m snd (graph_of (fst vs))) \<and>
     (k = 0 \<longrightarrow> graph_of (fst vs') = graph_of (fst vs)) \<and> cache_same st st' \<and>
     ts_latest st' = ts_latest st \<and> ts_has_run st' = ts_has_run st \<and> ts_skips st' = ts_skips st \<and>
     ts_last_version st' = ts_last_version st \<and> ts_passes st' = ts_passes st"
proof -
  obtain stats err s' where r: "ms_prune (now - sv_ttl sv) (fst vs) = (stats, err, s')"
    by (cases "ms_prune (now - sv_ttl sv) (fst vs)")
  note p = prune_spec [OF m r]
  define vs2 where "vs2 = snd (snd (v_prune (Some (ms_prune (now - sv_ttl sv))) vs))"
  have v: "v_prune (Some (ms_prune (now - sv_ttl sv))) vs = (stats, None, vs2)" "fst vs2 = s'"
    using r p by (simp_all add: v_prune_def vs2_def)
  have cc: "cache_same st st" "cache_same st (st\<lparr>ts_last_prune := x\<rparr>)"
      "cache_same st (st\<lparr>ts_last_prune := x, ts_pruned_nodes := a, ts_pruned_edges := b, ts_last_pruned_at := c\<rparr>)" for x a b c
    by (simp_all add: cache_same_def)
  show ?thesis
  proof (cases "sv_ttl sv \<le> 0 \<or> \<not> ldr \<or> ts_last_prune st \<noteq> zero_time \<and> now - ts_last_prune st < sv_prune_every sv")
    case True
    then have "vs' = vs" "st' = st" "k = 0" using run by (auto simp: maybe_prune_def split: if_splits)
    then show ?thesis using cc(1) by simp
  next
    case False
    then have k: "k = ps_nodes stats + ps_edges stats" and vs': "vs' = vs2"
      and st': "cache_same st st'" "ts_latest st' = ts_latest st" "ts_has_run st' = ts_has_run st"
         "ts_skips st' = ts_skips st" "ts_last_version st' = ts_last_version st" "ts_passes st' = ts_passes st"
      using run v cc by (auto simp: maybe_prune_def mem_backend_def Let_def split: if_splits)
    have "vs_step vs vs'" unfolding vs' vs2_def by (rule vs_step.vs_prune)
    moreover have "fst (graph_of (fst vs')) \<subseteq>\<^sub>m fst (graph_of (fst vs))" "snd (graph_of (fst vs')) \<subseteq>\<^sub>m snd (graph_of (fst vs))"
      unfolding vs' v(2) using p by (auto simp: graph_of_def map_le_def)
    moreover have "k = 0 \<longrightarrow> graph_of (fst vs') = graph_of (fst vs)"
      using pruned_none [OF m r] k vs' v(2) by simp
    ultimately show ?thesis using st' by blast
  qed
qed

lemma maybe_prune_ok:
  assumes ok: "tenant_ok sv ((vs, st), late)" and run: "maybe_prune sv mem_backend ldr now vs st = (k, vs', st')"
  shows "tenant_ok sv ((vs', st'), late)"
proof -
  have m: "ms_ok (fst vs)" "cache_mode sv st" and c: "cache_ok late st (ms_removals (fst vs)) (graph_of (fst vs))"
    using ok by (simp_all add: tenant_ok_def)
  note p = maybe_prune_step [OF m(1) run]
  then have same: "cache_same st st'" by blast
  show ?thesis
  proof (cases "vs' = vs")
    case True
    then show ?thesis using m c cache_same_ok [OF same] by (simp add: tenant_ok_def)
  next
    case False
    then have s: "vs_step vs vs'" and "stamped_changes (ts_watermark st) ({}, {}) (graph_of (fst vs)) (graph_of (fst vs'))"
      using p stamped_removal by blast+
    then have "cache_ok late st (ms_removals (fst vs')) (graph_of (fst vs'))" using mem_delta.cache_write [OF m(1) s c] by fastforce
    then show ?thesis using m(2) mem_delta.step_ok [OF m(1) s] cache_same_ok [OF same] by (simp add: tenant_ok_def)
  qed
qed

text \<open>What a computed pass has published: the analysis of a snapshot.\<close>

definition analysis_of :: "service \<Rightarrow> 'r tick \<Rightarrow> snapshot \<Rightarrow> tenant_state \<Rightarrow> bool" where
  "analysis_of sv tk snap st \<longleftrightarrow>
     (\<exists>found. find_critical_paths snap = Some found \<and> ts_latest st = prioritize found) \<and>
     (case sv_policy sv of None \<Rightarrow> ts_violations st = [] | Some ivs \<Rightarrow> evaluate ivs snap = Some (ts_violations st)) \<and>
     simulate_risk_with (tk_ctx tk) (tk_rng tk) (tk_profiles tk) snap (int default_risk_iterations) risk_seed False =
       Some (Inr (ts_risk st))"

lemma mem_paths_via: "critical_paths_via mem_backend s snap h db = find_critical_paths snap"
  by (simp add: critical_paths_via_def mem_backend_def)

lemma evaluate_returns: "\<exists>vs. (case p of None \<Rightarrow> Some [] | Some ivs \<Rightarrow> evaluate ivs snap) = Some vs"
proof (cases p)
  case (Some ivs)
  then show ?thesis using evaluate_exact [of ivs snap] by auto
qed simp

lemma compute_pass_ok:
  assumes ok: "tenant_ok sv ((vs, st), late)" and run: "compute_pass sv mem_backend tk tenant pruned vs st = Some (effs, st')"
  shows "tenant_ok sv ((vs, st'), late_after st' late) \<and>
     (ts_passes st' = ts_passes st \<and> effs = [] \<and> ts_latest st' = ts_latest st \<or>
      ts_passes st' = Suc (ts_passes st) \<and>
        (\<exists>snap. agree_but (late_after st' late) (snap_graph snap) (graph_of (fst vs)) \<and> analysis_of sv tk snap st')) \<and>
     ts_last_version st' = ts_last_version st \<and> ts_skips st' = ts_skips st"
proof -
  obtain r st1 where a: "acquire_snapshot sv mem_backend (tk_start tk) pruned vs st = (r, st1)"
    by (cases "acquire_snapshot sv mem_backend (tk_start tk) pruned vs st")
  have m: "ms_ok (fst vs)" "cache_mode sv st" and c0: "cache_ok late st (ms_removals (fst vs)) (graph_of (fst vs))"
    using ok by (simp_all add: tenant_ok_def)
  obtain snap where snap: "r = Some snap" "agree_but (late_after st1 late) (snap_graph snap) (graph_of (fst vs))"
    and c: "cache_ok (late_after st1 late) st1 (ms_removals (fst vs)) (graph_of (fst vs))" "cache_mode sv st1"
    using mem_delta.acquire_ok [OF m(1,2) c0 a] by blast
  have f: "ts_passes st1 = ts_passes st" "ts_latest st1 = ts_latest st" "ts_last_version st1 = ts_last_version st" "ts_skips st1 = ts_skips st"
    using a by (auto simp: acquire_snapshot_def full_read_def Let_def split: if_splits option.splits)
  obtain found where found: "find_critical_paths snap = Some found" using find_critical_paths_eq by blast
  obtain viol where viol: "(case sv_policy sv of None \<Rightarrow> Some [] | Some ivs \<Rightarrow> evaluate ivs snap) = Some viol"
    using evaluate_returns by blast
  note run' = run [unfolded compute_pass_def a snap(1) prod.case option.case mem_paths_via found Let_def viol]
  obtain out where out: "simulate_risk_with (tk_ctx tk) (tk_rng tk) (tk_profiles tk) snap (int default_risk_iterations) risk_seed False = Some out"
    using run' by (auto split: option.splits)
  show ?thesis
  proof (cases out)
    case (Inl err)
    then have "st' = st1" "effs = []" using run' out by simp_all
    then show ?thesis using f c m by (simp add: tenant_ok_def)
  next
    case (Inr risk)
    then have st': "st' = st1\<lparr>ts_latest := prioritize found, ts_risk := risk, ts_violations := viol,
        ts_analyzed_at := tk_record tk, ts_passes := ts_passes st1 + 1, ts_has_run := True\<rparr>"
      using run' out by simp
    have "analysis_of sv tk snap st'"
      using found viol out Inr by (simp add: analysis_of_def st' split: option.splits)
    moreover have "cache_same st1 st'" unfolding st' by (simp add: cache_same_def)
    ultimately show ?thesis using f c m snap(2) cache_same_ok [of st1 st'] unfolding tenant_ok_def by (auto simp: st')
  qed
qed

lemma run_tenant_ok:
  assumes ok: "tenant_ok sv ((vs, st), late)" and run: "run_tenant sv mem_backend cal tk tenant vs st = Some (effs, vs', st')"
  shows "tenant_ok sv ((vs', st'), if ts_skips st' = 0 then late_after st' late else late) \<and> vs_step\<^sup>*\<^sup>* vs vs' \<and>
     ts_last_version st' = snd vs' \<and>
     (ts_skips st' = 0 \<and> (ts_passes st' = Suc (ts_passes st) \<longrightarrow>
          (\<exists>snap. agree_but (late_after st' late) (snap_graph snap) (graph_of (fst vs')) \<and> analysis_of sv tk snap st')) \<or>
      ts_skips st' = Suc (ts_skips st) \<and> ts_skips st < force_rescan_every \<and> ts_has_run st \<and> snd vs' = ts_last_version st \<and>
        ts_passes st' = ts_passes st \<and> ts_latest st' = ts_latest st \<and> graph_of (fst vs') = graph_of (fst vs))"
proof -
  obtain k vs1 st1 where p: "maybe_prune sv mem_backend (tk_leader_prune tk) (tk_prune tk) vs st = (k, vs1, st1)"
    by (cases "maybe_prune sv mem_backend (tk_leader_prune tk) (tk_prune tk) vs st")
  have "ms_ok (fst vs)" using ok by (simp add: tenant_ok_def)
  note q = maybe_prune_step [OF this p] and tok = maybe_prune_ok [OF ok p]
  have m: "tenant_ok sv ((vs1, st1), late) \<and> (k = 0 \<longrightarrow> graph_of (fst vs1) = graph_of (fst vs)) \<and> vs_step\<^sup>*\<^sup>* vs vs1 \<and>
     ts_latest st1 = ts_latest st \<and> ts_has_run st1 = ts_has_run st \<and> ts_skips st1 = ts_skips st \<and>
     ts_last_version st1 = ts_last_version st \<and> ts_passes st1 = ts_passes st"
    using q tok by auto
  have ver: "be_version mem_backend vs1 = snd vs1" by (simp add: mem_backend_def)
  have co: "cache_same st1 (st1\<lparr>ts_last_version := a, ts_skips := b\<rparr>)" "cache_same st1 (st1\<lparr>ts_skips := b\<rparr>)" for a b
    by (simp_all add: cache_same_def)
  note run' = run [unfolded run_tenant_def p prod.case Let_def ver]
  show ?thesis
  proof (cases "ts_has_run st1 \<and> snd vs1 = ts_last_version st1 \<and> ts_skips st1 < force_rescan_every \<and> k = 0")
    case True
    then have "vs' = vs1" "st' = st1\<lparr>ts_skips := ts_skips st1 + 1\<rparr>" using run' by simp_all
    moreover have "tenant_ok sv ((vs1, st1\<lparr>ts_skips := ts_skips st1 + 1\<rparr>), late)"
      using m cache_same_ok [OF co(2)] by (simp add: tenant_ok_def)
    ultimately show ?thesis using True m by auto
  next
    case False
    then obtain e where c: "compute_pass sv mem_backend tk tenant (k > 0) vs1 (st1\<lparr>ts_last_version := snd vs1, ts_skips := 0\<rparr>) = Some (e, st')"
      and vs': "vs' = vs1"
      using run' by (auto simp del: not_gr_zero)
    have "tenant_ok sv ((vs1, st1\<lparr>ts_last_version := snd vs1, ts_skips := 0\<rparr>), late)"
      using m cache_same_ok [OF co(1)] by (simp add: tenant_ok_def)
    from compute_pass_ok [OF this c] show ?thesis using m vs' by auto
  qed
qed

lemma tenant_steps_ok: "(tenant_step sv cal tenant ticks)\<^sup>*\<^sup>* x y \<Longrightarrow> tenant_ok sv x \<Longrightarrow> tenant_ok sv y"
proof (induction rule: rtranclp_induct)
  case (step y z)
  have "tenant_ok sv z" if "tenant_step sv cal tenant ticks y z" "tenant_ok sv y"
    using that
  proof (cases rule: tenant_step.cases)
    case (tenant_write vs vs' st late)
    then show ?thesis
      using that(2) mem_delta.cache_write [OF _ _ _ late_writes_stamped, of vs vs' late st] mem_delta.step_ok [of vs vs']
      by (simp add: tenant_ok_def)
  next
    case (tenant_tick tk vs st effs vs' st' late)
    then show ?thesis using run_tenant_ok [of sv vs st late] that(2) by blast
  qed
  then show ?case using step by blast
qed simp

lemma tenant_start_ok: "tenant_ok sv (((new_mem, v), new_tenant_state), ({}, {}))"
  using new_mem_ok by (simp add: tenant_ok_def cache_ok_def cache_mode_def new_tenant_state_def keyed_def)

text \<open>
  C5. What a computed pass publishes: after any history of writes and ticks, the paths,
  violations and risk it caches are those of one snapshot. When the pass read in full - always
  without the resident snapshot, and with it at least after every twenty deltas - that snapshot
  lists exactly the nodes and edges of the store. When it patched the resident snapshot, it lists
  them except at most those nodes and edges that a write since the last full read changed under
  a stamp older than the watermark in force when it was made.
\<close>

theorem published_is_current:
  assumes "(tenant_step sv cal tenant ticks)\<^sup>*\<^sup>* (((new_mem, v), new_tenant_state), ({}, {})) ((vs, st), late)"
    and "run_tenant sv mem_backend cal tk tenant vs st = Some (effs, vs', st')"
    and "ts_passes st' = Suc (ts_passes st)"
  shows "\<exists>snap. analysis_of sv tk snap st' \<and>
    (if \<not> sv_incremental sv \<or> ts_since_full st' = 0 then snap_graph snap = graph_of (fst vs')
     else agree_but late (snap_graph snap) (graph_of (fst vs'))) \<and> ts_since_full st' \<le> full_snapshot_every"
proof -
  note r = run_tenant_ok [OF tenant_steps_ok [OF assms(1) tenant_start_ok] assms(2)]
  then have m: "cache_mode sv st'" by (simp add: tenant_ok_def)
  then have "\<not> sv_incremental sv \<Longrightarrow> ts_since_full st' = 0" by (auto simp: cache_mode_def)
  moreover have "ts_since_full st' \<le> full_snapshot_every" using m by (simp add: cache_mode_def)
  moreover obtain snap where "agree_but (late_after st' late) (snap_graph snap) (graph_of (fst vs'))" "analysis_of sv tk snap st'"
    using r assms(3) by auto
  ultimately show ?thesis by (intro exI [of _ snap]) (auto simp: late_after_def agree_but_none split: if_splits)
qed

lemma compute_pass_skips: "compute_pass sv be tk tenant pruned s st = Some (effs, st') \<Longrightarrow> ts_skips st' = ts_skips st"
  by (auto simp: compute_pass_def acquire_snapshot_def full_read_def Let_def split: option.splits sum.splits if_splits prod.splits)

lemma skip_branch:
  assumes "ms_ok (fst vs)" "run_tenant sv mem_backend cal tk tenant vs st = Some (effs, vs', st')" "ts_skips st' = Suc (ts_skips st)"
  shows "vs_step\<^sup>*\<^sup>* vs vs' \<and> snd vs' = ts_last_version st \<and> ts_latest st' = ts_latest st \<and> ts_skips st < force_rescan_every \<and>
    ts_has_run st"
proof -
  obtain k vs1 st1 where p: "maybe_prune sv mem_backend (tk_leader_prune tk) (tk_prune tk) vs st = (k, vs1, st1)"
    by (cases "maybe_prune sv mem_backend (tk_leader_prune tk) (tk_prune tk) vs st")
  note m = maybe_prune_step [OF assms(1) p]
  have ver: "be_version mem_backend vs1 = snd vs1" by (simp add: mem_backend_def)
  note run' = assms(2) [unfolded run_tenant_def p prod.case Let_def ver]
  show ?thesis
  proof (cases "ts_has_run st1 \<and> snd vs1 = ts_last_version st1 \<and> ts_skips st1 < force_rescan_every \<and> k = 0")
    case True
    then have "vs' = vs1" "st' = st1\<lparr>ts_skips := ts_skips st1 + 1\<rparr>" using run' by simp_all
    then show ?thesis using True m by auto
  next
    case False
    then obtain e where "compute_pass sv mem_backend tk tenant (k > 0) vs1 (st1\<lparr>ts_last_version := snd vs1, ts_skips := 0\<rparr>) = Some (e, st')"
      using run' by (auto simp del: not_gr_zero)
    then show ?thesis using compute_pass_skips assms(3) by fastforce
  qed
qed

text \<open>
  A pass that is skipped would have read the same graph: whatever was written since the
  version the last pass recorded, a tick that skips finds exactly the nodes and edges of that
  version, leaves the published paths alone, and is one of at most ten in a row.
\<close>

theorem skipped_pass_current:
  assumes "vs_step\<^sup>*\<^sup>* (new_mem, v) vs0" "vs_step\<^sup>*\<^sup>* vs0 vs" "ts_last_version st = snd vs0"
    and "run_tenant sv mem_backend cal tk tenant vs st = Some (effs, vs', st')"
    and "ts_skips st' = Suc (ts_skips st)"
  shows "graph_of (fst vs') = graph_of (fst vs0) \<and> ts_latest st' = ts_latest st \<and> ts_skips st < force_rescan_every"
proof -
  have ok: "ms_ok (fst vs0)" "ms_ok (fst vs)"
    using vs_steps_count [OF assms(1)] vs_steps_count [OF assms(2)] new_mem_ok by auto
  note s = skip_branch [OF ok(2) assms(4,5)]
  then have "vs_step\<^sup>*\<^sup>* vs0 vs'" using assms(2) by (blast intro: rtranclp_trans)
  then show ?thesis using vs_steps_count [of vs0 vs'] ok(1) s assms(3) by auto
qed

section \<open>Where the cache is wrong\<close>

definition at_second :: "int \<Rightarrow> gotime" where
  "at_second n = (n + unix_epoch) * second_ns"

definition seen_host :: "string \<Rightarrow> gotime \<Rightarrow> event" where
  "seen_host i t = \<lparr>ev_source = ''scan'', ev_kind = ''asset'', ev_observed = t, ev_tenant = [], ev_nodes = [demo_host i],
     ev_edges = (if i = ''a'' then [demo_link] else []), ev_snapshot = None\<rparr>"

definition apply_at :: "gotime \<Rightarrow> event \<Rightarrow> mem_store versioned \<Rightarrow> mem_store versioned" where
  "apply_at now ev vs = snd (v_upsert_batch_from (mem_caps now) (event_origin now ev)
     (event_nodes (event_ts now ev) ev) (event_edges (event_ts now ev) ev) vs)"

definition incremental_service :: service where
  "incremental_service = (new_service 0 False)\<lparr>sv_incremental := True\<rparr>"

text \<open>
  An edge that waited for its far end lands with the stamp of the event that brought it. The
  node that lets it land is stamped after the last read, the edge before it: the store's own
  snapshot has the edge, and the delta, whose watermark was captured "so that no write can
  slip through the gap", does not. The next full read is up to twenty passes away.
\<close>

theorem parked_edge_missed:
  "let vs1 = apply_at (at_second 100) (seen_host ''a'' (at_second 100)) (new_mem, 0);
       (r1, st1) = acquire_snapshot incremental_service mem_backend (at_second 200) False vs1 new_tenant_state;
       vs2 = apply_at (at_second 300) (seen_host ''b'' (at_second 300)) vs1;
       (r2, st2) = acquire_snapshot incremental_service mem_backend (at_second 400) False vs2 st1
   in r1 = Some (ms_snapshot (fst vs1)) \<and>
      map_of (ms_edges (fst vs2)) (edge_key demo_link) \<noteq> None \<and>
      map_option sn_edges r2 = Some [] \<and> ms_removals (fst vs2) = ms_removals (fst vs1)"
  by code_simp

text \<open>
  The version is recorded before the snapshot is read. When the read fails the pass ends, and
  the next tick, at the same version, takes the graph for analysed and skips.
\<close>

theorem failed_pass_skipped:
  assumes "ts_has_run st" "be_snapshot be s = None" "\<not> sv_incremental sv" "sv_ttl sv \<le> 0"
    and "be_version be s \<noteq> ts_last_version st"
  shows "\<exists>e1 st1 e2 st2. run_tenant sv be cal tk tenant s st = Some (e1, s, st1) \<and> ts_passes st1 = ts_passes st \<and>
     ts_last_version st1 = be_version be s \<and>
     run_tenant sv be cal tk2 tenant s st1 = Some (e2, s, st2) \<and> ts_skips st2 = 1 \<and> ts_latest st2 = ts_latest st"
  using assms
  by (auto simp: run_tenant_def maybe_prune_def compute_pass_def acquire_snapshot_def full_read_def Let_def force_rescan_every_def)

section \<open>Two passes and a skip\<close>

definition demo_tick :: "int \<Rightarrow> unit tick" where
  "demo_tick n = \<lparr>tk_prune = at_second n, tk_start = at_second n, tk_record = at_second n, tk_leader_prune = True,
     tk_leader_act = True, tk_ctx = (\<lambda>_. False), tk_rng = \<lparr>rg_seed = (\<lambda>_ _. ()), rg_norm = (\<lambda>s. (0, s)), rg_unif = (\<lambda>s. (0, s))\<rparr>,
     tk_profiles = []\<rparr>"

text \<open>A pass over a graph with no entry point and no exposed jewel.\<close>

definition quiet_snapshot :: "snapshot \<Rightarrow> bool" where
  "quiet_snapshot snap \<longleftrightarrow> snap_seeds snap = [] \<and> direct_access_paths snap = [] \<and> mc_seeds (compile_graph snap) = []"

definition quiet_pass :: "int \<Rightarrow> mem_store versioned \<Rightarrow> tenant_state \<Rightarrow> snapshot option \<times> tenant_state" where
  "quiet_pass n vs st =
     (let (r, st1) = acquire_snapshot incremental_service mem_backend (at_second n) False vs (st\<lparr>ts_last_version := snd vs, ts_skips := 0\<rparr>)
      in (r, st1\<lparr>ts_latest := [], ts_risk := zero_sim default_risk_iterations, ts_violations := [], ts_analyzed_at := at_second n,
           ts_passes := ts_passes st1 + 1, ts_has_run := True\<rparr>))"

lemma quiet_sim:
  "quiet_snapshot snap \<Longrightarrow>
     simulate_risk_with ctx rng profs snap (int default_risk_iterations) sd False = Some (Inr (zero_sim default_risk_iterations))"
  by (simp add: simulate_risk_with_def quiet_snapshot_def Let_def default_risk_iterations_def)

lemma quiet_runs:
  assumes "quiet_pass n vs st = (Some snap, st')" "quiet_snapshot snap" "\<not> ts_has_run st \<or> snd vs \<noteq> ts_last_version st"
  shows "\<exists>effs. run_tenant incremental_service mem_backend None (demo_tick n) ''t'' vs st = Some (effs, vs, st')"
proof -
  obtain st1 where a: "acquire_snapshot incremental_service mem_backend (at_second n) False vs (st\<lparr>ts_last_version := snd vs, ts_skips := 0\<rparr>) = (Some snap, st1)"
    and st': "st' = st1\<lparr>ts_latest := [], ts_risk := zero_sim default_risk_iterations, ts_violations := [], ts_analyzed_at := at_second n,
           ts_passes := ts_passes st1 + 1, ts_has_run := True\<rparr>"
    using assms(1) by (auto simp: quiet_pass_def split: prod.splits)
  have found: "find_critical_paths snap = Some []"
    using assms(2) by (simp add: find_critical_paths_def quiet_snapshot_def)
  have "run_tenant incremental_service mem_backend None (demo_tick n) ''t'' vs st =
      map_option (\<lambda>(effs, st'). ([] @ effs, vs, st')) (compute_pass incremental_service mem_backend (demo_tick n) ''t'' False vs (st\<lparr>ts_last_version := snd vs, ts_skips := 0\<rparr>))"
    using assms(3) by (auto simp: run_tenant_def maybe_prune_def sample_calibration_def mem_backend_def incremental_service_def new_service_def)
  moreover have "tk_start (demo_tick n) = at_second n" "tk_record (demo_tick n) = at_second n" "sv_policy incremental_service = None"
    by (simp_all add: demo_tick_def incremental_service_def new_service_def)
  ultimately show ?thesis
    using a found st' by (simp add: compute_pass_def mem_paths_via prioritize_def quiet_sim [OF assms(2)])
qed

definition demo_vs :: "mem_store versioned" where
  "demo_vs = apply_at (at_second 100) (seen_host ''b'' (at_second 100)) (new_mem, 0)"

definition demo_first :: tenant_state where
  "demo_first = snd (quiet_pass 50 (new_mem, 0) new_tenant_state)"

definition demo_second :: tenant_state where
  "demo_second = snd (quiet_pass 150 demo_vs demo_first)"

lemma demo_counts:
  "ts_passes demo_second = Suc (ts_passes demo_first)" "ts_watermark demo_first = 50" "ts_last_version demo_second = snd demo_vs"
  "ts_last_version demo_first \<noteq> snd demo_vs" "ts_has_run demo_second" "ts_skips demo_second = 0"
  by code_simp+

lemma demo_quiet:
  "case fst (quiet_pass 50 (new_mem, 0) new_tenant_state) of Some snap \<Rightarrow> quiet_snapshot snap | None \<Rightarrow> False"
  "case fst (quiet_pass 150 demo_vs demo_first) of Some snap \<Rightarrow> quiet_snapshot snap | None \<Rightarrow> False"
  by code_simp+

lemma demo_run1: "\<exists>effs. run_tenant incremental_service mem_backend None (demo_tick 50) ''t'' (new_mem, 0) new_tenant_state = Some (effs, (new_mem, 0), demo_first)"
proof -
  obtain snap where "fst (quiet_pass 50 (new_mem, 0) new_tenant_state) = Some snap" "quiet_snapshot snap"
    using demo_quiet(1) by (auto split: option.splits)
  then show ?thesis
    by (intro quiet_runs [of _ _ _ snap]) (simp_all add: demo_first_def prod_eq_iff new_tenant_state_def)
qed

lemma demo_run2: "\<exists>effs. run_tenant incremental_service mem_backend None (demo_tick 150) ''t'' demo_vs demo_first = Some (effs, demo_vs, demo_second)"
proof -
  obtain snap where "fst (quiet_pass 150 demo_vs demo_first) = Some snap" "quiet_snapshot snap"
    using demo_quiet(2) by (auto split: option.splits)
  then show ?thesis
    using demo_counts(4) by (intro quiet_runs [of _ _ _ snap]) (simp_all add: demo_second_def prod_eq_iff)
qed

lemma demo_skip: "run_tenant incremental_service mem_backend None (demo_tick 180) ''t'' demo_vs demo_second =
    Some ([], demo_vs, demo_second\<lparr>ts_skips := 1\<rparr>)"
  using demo_counts(3,5,6)
  by (simp add: run_tenant_def maybe_prune_def sample_calibration_def mem_backend_def incremental_service_def new_service_def force_rescan_every_def)

lemma demo_write: "vs_step (new_mem, 0) demo_vs"
  unfolding demo_vs_def apply_at_def by (rule vs_step.vs_from)

lemma published_is_current_witness:
  "\<exists>snap. snap_graph snap = graph_of (fst demo_vs) \<and> analysis_of incremental_service (demo_tick 150) snap demo_second"
proof -
  let ?step = "tenant_step incremental_service None ''t'' (range demo_tick)"
  obtain e1 where r1: "run_tenant incremental_service mem_backend None (demo_tick 50) ''t'' (new_mem, 0) new_tenant_state =
      Some (e1, (new_mem, 0), demo_first)"
    using demo_run1 by blast
  obtain e2 where r2: "run_tenant incremental_service mem_backend None (demo_tick 150) ''t'' demo_vs demo_first =
      Some (e2, demo_vs, demo_second)"
    using demo_run2 by blast
  have g: "ms_edges (fst demo_vs) = []"
      "list_all (\<lambda>(i, n). seen_since 50 (n_props n)) (ms_nodes (fst demo_vs))" by code_simp+
  have none: "late_writes (ts_watermark demo_first) (graph_of (fst (new_mem, 0 :: int))) (graph_of (fst demo_vs)) = ({}, {})"
    unfolding late_writes_def demo_counts(2) using g
    by (auto simp: graph_of_def list_all_iff dest!: map_of_SomeD)
  have "ts_since_full demo_first = 0" "ts_skips demo_first = 0" by code_simp+
  then have "?step (((new_mem, 0), new_tenant_state), ({}, {})) (((new_mem, 0), demo_first), ({}, {}))"
    using tenant_tick [OF _ r1, of "range demo_tick" "({}, {})"] by (simp add: late_after_def)
  moreover have "?step (((new_mem, 0), demo_first), ({}, {})) ((demo_vs, demo_first), ({}, {}))"
    using tenant_write [OF demo_write, of incremental_service None "''t''" "range demo_tick" demo_first "({}, {})"] none by simp
  ultimately have "?step\<^sup>*\<^sup>* (((new_mem, 0), new_tenant_state), ({}, {})) ((demo_vs, demo_first), ({}, {}))"
    by (meson converse_rtranclp_into_rtranclp rtranclp.rtrancl_refl)
  from published_is_current [OF this r2 demo_counts(1)] show ?thesis by (auto simp: agree_but_none split: if_splits)
qed

lemma skipped_pass_current_witness:
  "ts_latest (demo_second\<lparr>ts_skips := 1\<rparr>) = ts_latest demo_second \<and> ts_skips demo_second < force_rescan_every"
proof -
  have "vs_step\<^sup>*\<^sup>* (new_mem, 0) demo_vs" using demo_write by blast
  moreover have "ts_skips (demo_second\<lparr>ts_skips := 1\<rparr>) = Suc (ts_skips demo_second)" by (simp add: demo_counts(6))
  ultimately show ?thesis
    using skipped_pass_current [OF _ rtranclp.rtrancl_refl demo_counts(3) demo_skip] by blast
qed

end
