(* ===== verification/Verdicts.thy ===== *)
theory Verdicts
  imports PG_Prelude
begin

text \<open>
  The verdict store, \<open>backend/internal/validation/validation.go\<close>: what testers reported
  about a path, a target or a hop, per tenant, with the rules of which verdict replaces
  which, and the precision and recall computed from them. \<open>Verdict_Log\<close> puts it on disk.
\<close>

section \<open>Records\<close>

type_synonym outcome = string
type_synonym scope = string

abbreviation confirmed :: outcome where "confirmed \<equiv> ''confirmed''"
abbreviation refuted :: outcome where "refuted \<equiv> ''refuted''"
abbreviation partial_outcome :: outcome where "partial_outcome \<equiv> ''partial''"
abbreviation missed :: outcome where "missed \<equiv> ''missed''"
abbreviation scope_path :: scope where "scope_path \<equiv> ''path''"
abbreviation scope_target :: scope where "scope_target \<equiv> ''target''"
abbreviation scope_edge :: scope where "scope_edge \<equiv> ''edge''"

definition valid_outcome :: "outcome \<Rightarrow> bool" where
  "valid_outcome v \<longleftrightarrow> v \<in> {confirmed, refuted, partial_outcome, missed}"

definition valid_verdict_scope :: "scope \<Rightarrow> bool" where
  "valid_verdict_scope sc \<longleftrightarrow> sc = [] \<or> sc \<in> {scope_path, scope_target, scope_edge}"

definition scope_or_default :: "scope \<Rightarrow> scope" where
  "scope_or_default sc = (if sc = [] then scope_path else sc)"

record verdict_record =
  vr_id :: string
  vr_path :: string
  vr_tenant :: string
  vr_outcome :: outcome
  vr_source :: string
  vr_evidence :: string
  vr_route :: string
  vr_tested :: gotime
  vr_score :: real
  vr_scope :: scope
  vr_compromise :: real
  vr_hops :: int
  vr_correlated :: bool
  vr_basis :: string
  vr_detected :: "bool option"
  vr_priority :: "real option"

datatype verdict_error =
  ErrInvalidOutcome outcome
| ErrInvalidScope scope
| ErrMissingSource
| ErrMissingPathID
| ErrNotFound
| ErrWrite string

definition verdict_tenant_key :: "string \<Rightarrow> string" where
  "verdict_tenant_key t = (if t = [] then ''default'' else t)"

text \<open>The checks the two backends make, in their order.\<close>

definition check_record :: "verdict_record \<Rightarrow> verdict_error option" where
  "check_record r =
     (if \<not> valid_outcome (vr_outcome r) then Some (ErrInvalidOutcome (vr_outcome r))
      else if \<not> valid_verdict_scope (vr_scope r) then Some (ErrInvalidScope (vr_scope r))
      else if vr_source r = [] then Some ErrMissingSource
      else if vr_outcome r \<noteq> missed \<and> vr_path r = [] \<and> scope_or_default (vr_scope r) \<noteq> scope_edge
        then Some ErrMissingPathID
      else None)"

definition stamp_record :: "gotime \<Rightarrow> verdict_record \<Rightarrow> verdict_record" where
  "stamp_record now r =
     r\<lparr>vr_tenant := verdict_tenant_key (vr_tenant r),
       vr_tested := (if vr_tested r = zero_time then now else vr_tested r)\<rparr>"

text \<open>\<open>normalize\<close>, which the Postgres backend goes through: a caller's id is kept.\<close>

definition normalize_verdict :: "gotime \<Rightarrow> string \<Rightarrow> verdict_record \<Rightarrow> verdict_error + verdict_record" where
  "normalize_verdict now new_id r =
     (case check_record r of
        Some err \<Rightarrow> Inl err
      | None \<Rightarrow> (let r = stamp_record now r in Inr (if vr_id r = [] then r\<lparr>vr_id := new_id\<rparr> else r)))"

text \<open>What \<open>Put\<close> of the file store makes of the record before it is applied: always a fresh id.\<close>

definition file_normalize :: "gotime \<Rightarrow> string \<Rightarrow> verdict_record \<Rightarrow> verdict_error + verdict_record" where
  "file_normalize now new_id r =
     (case check_record r of Some err \<Rightarrow> Inl err | None \<Rightarrow> Inr ((stamp_record now r)\<lparr>vr_id := new_id\<rparr>))"

section \<open>Memory\<close>

type_synonym verdicts = "(string, verdict_record list) gomap"

definition verdicts_of :: "verdicts \<Rightarrow> string \<Rightarrow> verdict_record list" where
  "verdicts_of m t = (case map_of m t of Some rs \<Rightarrow> rs | None \<Rightarrow> [])"

text \<open>Verdicts that accumulate, and what a new one replaces otherwise.\<close>

definition accumulates :: "verdict_record \<Rightarrow> bool" where
  "accumulates r \<longleftrightarrow> vr_outcome r = missed \<or> scope_or_default (vr_scope r) = scope_edge"

definition stays_beside :: "verdict_record \<Rightarrow> verdict_record \<Rightarrow> bool" where
  "stays_beside r x \<longleftrightarrow> vr_outcome x = missed \<or> vr_path x \<noteq> vr_path r \<or>
     scope_or_default (vr_scope x) \<noteq> scope_or_default (vr_scope r)"

definition apply_put :: "verdict_record \<Rightarrow> verdicts \<Rightarrow> verdicts" where
  "apply_put r m =
     (let rs = verdicts_of m (vr_tenant r); rs = (if accumulates r then rs else filter (stays_beside r) rs)
      in AList.update (vr_tenant r) (rs @ [r]) m)"

definition apply_delete :: "string \<Rightarrow> string \<Rightarrow> verdicts \<Rightarrow> bool \<times> verdicts" where
  "apply_delete tenant i m =
     (let rs = verdicts_of m tenant
      in (\<exists>x \<in> set rs. vr_id x = i, AList.update tenant (filter (\<lambda>x. vr_id x \<noteq> i) rs) m))"

definition verdict_get :: "string \<Rightarrow> string \<Rightarrow> verdicts \<Rightarrow> verdict_record option" where
  "verdict_get tenant path m =
     (if path = [] then None
      else find (\<lambda>r. vr_outcome r \<noteq> missed \<and> vr_path r = path) (verdicts_of m (verdict_tenant_key tenant)))"

definition verdict_before :: "verdict_record \<Rightarrow> verdict_record \<Rightarrow> bool" where
  "verdict_before x y =
     (if vr_tested x \<noteq> vr_tested y then vr_tested x > vr_tested y else str_less (vr_id x) (vr_id y))"

definition verdict_list :: "string \<Rightarrow> verdicts \<Rightarrow> verdict_record list" where
  "verdict_list tenant m = sort_by verdict_before (verdicts_of m (verdict_tenant_key tenant))"

section \<open>Precision and recall\<close>

record metrics =
  mt_confirmed :: nat
  mt_refuted :: nat
  mt_partial :: nat
  mt_missed :: nat
  mt_tested :: nat
  mt_precision :: real
  mt_recall :: real
  mt_has_data :: bool

definition count_outcome :: "outcome \<Rightarrow> verdict_record list \<Rightarrow> nat" where
  "count_outcome v rs = length (filter (\<lambda>r. vr_outcome r = v) rs)"

definition metrics_of :: "verdict_record list \<Rightarrow> metrics" where
  "metrics_of rs =
     (let c = count_outcome confirmed rs; f = count_outcome refuted rs; p = count_outcome partial_outcome rs;
          m = count_outcome missed rs
      in \<lparr>mt_confirmed = c, mt_refuted = f, mt_partial = p, mt_missed = m, mt_tested = c + f + p,
          mt_precision = (if c + f > 0 then real c / real (c + f) else 0),
          mt_recall = (if c + m > 0 then real c / real (c + m) else 0),
          mt_has_data = (c + f > 0 \<or> c + m > 0)\<rparr>)"

definition verdict_metrics :: "string \<Rightarrow> verdicts \<Rightarrow> metrics" where
  "verdict_metrics tenant m = metrics_of (verdict_list tenant m)"

section \<open>Two stores with the same evidence\<close>

text \<open>
  The same records per tenant, in whatever order: what compaction keeps. Lists, counts and
  metrics read nothing else.
\<close>

definition same_verdicts :: "verdicts \<Rightarrow> verdicts \<Rightarrow> bool" where
  "same_verdicts m m' \<longleftrightarrow> (\<forall>t. mset (verdicts_of m t) = mset (verdicts_of m' t))"

lemma same_refl [simp]: "same_verdicts m m"
  by (simp add: same_verdicts_def)

lemma same_sym: "same_verdicts m m' \<Longrightarrow> same_verdicts m' m"
  by (simp add: same_verdicts_def)

lemma same_trans: "same_verdicts m1 m2 \<Longrightarrow> same_verdicts m2 m3 \<Longrightarrow> same_verdicts m1 m3"
  by (simp add: same_verdicts_def)

lemma verdicts_of_update: "verdicts_of (AList.update t rs m) u = (if u = t then rs else verdicts_of m u)"
  by (simp add: verdicts_of_def map_of_update)

lemma verdicts_of_put:
  "verdicts_of (apply_put r m) t =
     (if t = vr_tenant r
      then (if accumulates r then verdicts_of m t else filter (stays_beside r) (verdicts_of m t)) @ [r]
      else verdicts_of m t)"
  by (simp add: apply_put_def verdicts_of_update Let_def)

lemma verdicts_of_delete:
  "verdicts_of (snd (apply_delete tenant i m)) t =
     (if t = tenant then filter (\<lambda>x. vr_id x \<noteq> i) (verdicts_of m t) else verdicts_of m t)"
  by (simp add: apply_delete_def verdicts_of_update Let_def)

lemma same_put: "same_verdicts m m' \<Longrightarrow> same_verdicts (apply_put r m) (apply_put r m')"
  by (simp add: same_verdicts_def verdicts_of_put)

lemma same_delete: "same_verdicts m m' \<Longrightarrow> same_verdicts (snd (apply_delete t i m)) (snd (apply_delete t i m'))"
  by (simp add: same_verdicts_def verdicts_of_delete)

lemma same_found: "same_verdicts m m' \<Longrightarrow> fst (apply_delete t i m) = fst (apply_delete t i m')"
  unfolding same_verdicts_def apply_delete_def by (simp add: Let_def) (metis set_mset_mset)

lemma verdict_before_weak: "strict_weak verdict_before"
proof -
  have eq: "verdict_before = (\<lambda>x y. vr_tested x > vr_tested y \<or> (vr_tested x = vr_tested y \<and> str_less (vr_id x) (vr_id y)))"
    by (auto simp: verdict_before_def fun_eq_iff)
  show ?thesis unfolding eq by (rule strict_weak_lex_desc [OF strict_weak_str])
qed

lemma same_metrics: "same_verdicts m m' \<Longrightarrow> verdict_metrics t m = verdict_metrics t m'"
proof -
  assume a: "same_verdicts m m'"
  have "count_outcome v rs = size (filter_mset (\<lambda>r. vr_outcome r = v) (mset rs))" for v rs
    by (simp add: count_outcome_def flip: mset_filter)
  then show ?thesis using a by (simp add: verdict_metrics_def metrics_of_def verdict_list_def same_verdicts_def Let_def)
qed

text \<open>Ids tell records of a tenant apart; then the listing forgets the order too.\<close>

lemma same_list:
  assumes "same_verdicts m m'" "distinct (map vr_id (verdicts_of m (verdict_tenant_key t)))"
  shows "verdict_list t m = verdict_list t m'"
  unfolding verdict_list_def
proof (rule sort_by_unique [OF verdict_before_weak])
  show "mset (verdicts_of m (verdict_tenant_key t)) = mset (verdicts_of m' (verdict_tenant_key t))"
    using assms(1) by (simp add: same_verdicts_def)
  show "x = y \<or> verdict_before x y \<or> verdict_before y x"
    if "x \<in> set (verdicts_of m (verdict_tenant_key t))" "y \<in> set (verdicts_of m (verdict_tenant_key t))" for x y
    using that assms(2) str_less_total [of "vr_id x" "vr_id y"] unfolding verdict_before_def distinct_map inj_on_def by auto
qed

section \<open>What a well-kept store holds\<close>

text \<open>
  Each record under its own tenant, and at most one that replaces per path and scope.
\<close>

definition verdicts_ok :: "verdicts \<Rightarrow> bool" where
  "verdicts_ok m \<longleftrightarrow> gm_ok m \<and>
     (\<forall>t. (\<forall>r \<in> set (verdicts_of m t). vr_tenant r = t) \<and>
        sorted_wrt (\<lambda>x y. (accumulates x \<or> accumulates y \<or> stays_beside x y)) (verdicts_of m t))"

lemma stays_beside_sym: "\<not> accumulates x \<Longrightarrow> \<not> accumulates y \<Longrightarrow> stays_beside x y \<longleftrightarrow> stays_beside y x"
  by (auto simp: stays_beside_def accumulates_def)

lemma verdicts_ok_put:
  assumes ok: "verdicts_ok m"
  shows "verdicts_ok (apply_put r m)"
proof -
  let ?P = "\<lambda>x y. accumulates x \<or> accumulates y \<or> stays_beside x y"
  have s: "sorted_wrt ?P (verdicts_of m t)" and o: "\<forall>x \<in> set (verdicts_of m t). vr_tenant x = t" for t
    using ok by (simp_all add: verdicts_ok_def)
  have key: "?P x r" if "accumulates r \<or> stays_beside r x" for x using that stays_beside_sym by blast
  have put: "sorted_wrt ?P (xs @ [r])" if "sorted_wrt ?P xs" "\<And>x. x \<in> set xs \<Longrightarrow> ?P x r" for xs
    using that by (simp add: sorted_wrt_append)
  have "sorted_wrt ?P (verdicts_of (apply_put r m) t)" for t
  proof (cases "t = vr_tenant r")
    case True
    have "sorted_wrt ?P ((if accumulates r then verdicts_of m t else filter (stays_beside r) (verdicts_of m t)) @ [r])"
      by (rule put) (use s [of t] key in \<open>simp_all add: sorted_wrt_filter split: if_splits\<close>)
    then show ?thesis unfolding verdicts_of_put if_P [OF True] .
  next
    case False
    then show ?thesis using s [of t] by (simp add: verdicts_of_put)
  qed
  moreover have "\<forall>x \<in> set (verdicts_of (apply_put r m) t). vr_tenant x = t" for t
  proof
    fix x
    assume "x \<in> set (verdicts_of (apply_put r m) t)"
    then have "x = r \<and> t = vr_tenant r \<or> x \<in> set (verdicts_of m t)" by (auto simp: verdicts_of_put split: if_splits)
    then show "vr_tenant x = t" using o by blast
  qed
  moreover have "gm_ok (apply_put r m)" using ok by (simp add: verdicts_ok_def apply_put_def Let_def)
  ultimately show ?thesis unfolding verdicts_ok_def by blast
qed

lemma verdicts_ok_delete:
  assumes "verdicts_ok m"
  shows "verdicts_ok (snd (apply_delete t i m))"
proof -
  have "gm_ok (snd (apply_delete t i m))" using assms by (simp add: verdicts_ok_def apply_delete_def Let_def)
  then show ?thesis using assms unfolding verdicts_ok_def verdicts_of_delete by (simp add: sorted_wrt_filter)
qed

end
