(* ===== verification/Verdict_Log.thy ===== *)
theory Verdict_Log
  imports Verdicts
begin

text \<open>
  The verdict store on disk, \<open>backend/internal/validation/log.go\<close>: an append-only log of
  sealed events, replayed through the mutators a live call takes, and rewritten in three
  phases that hold the lock only at both ends. The critical sections of \<open>Put\<close> and \<open>Delete\<close>
  and the two locked phases of \<open>compact\<close> are one step each, and any interleaving of them is
  a history. Sealing, JSON and base64 are the two parameters \<open>enc\<close> and \<open>dec\<close>; the file is
  its bytes.
\<close>

section \<open>Events and the file\<close>

datatype log_event =
  Ev_Put verdict_record
| Ev_Del string string

definition log_magic :: string where
  "log_magic = ''#perspectivegraph-validation-log v2''"

abbreviation newline :: char where "newline \<equiv> CHR 0x0A"

definition apply_event_locked :: "log_event \<Rightarrow> verdicts \<Rightarrow> verdicts" where
  "apply_event_locked ev m =
     (case ev of Ev_Put r \<Rightarrow> apply_put r m | Ev_Del t i \<Rightarrow> snd (apply_delete t i m))"

definition event_line :: "(log_event \<Rightarrow> string) \<Rightarrow> log_event \<Rightarrow> string" where
  "event_line enc ev = enc ev @ [newline]"

definition log_file :: "(log_event \<Rightarrow> string) \<Rightarrow> log_event list \<Rightarrow> string" where
  "log_file enc evs = log_magic @ [newline] @ concat (map (event_line enc) evs)"

definition compact_threshold :: "nat \<Rightarrow> nat" where
  "compact_threshold live = 2 * live + 64"

record log_store =
  ls_persistent :: bool
  ls_mem :: verdicts
  ls_disk :: "string option"
  ls_events :: nat
  ls_legacy :: bool
  ls_dirty :: bool
  ls_compacting :: bool
  ls_pending :: "log_event list"
  ls_snap :: "verdict_record list"

definition live_count :: "verdicts \<Rightarrow> nat" where
  "live_count m = sum_list (map (\<lambda>(t, rs). length rs) m)"

text \<open>How an append ends: on disk, at the open, or after some of its bytes.\<close>

datatype io = Io_Ok | Io_Open_Fails | Io_Stops nat

definition append_lines :: "io \<Rightarrow> string \<Rightarrow> string option \<Rightarrow> bool \<times> string option" where
  "append_lines io data disk =
     (let old = (case disk of Some b \<Rightarrow> b | None \<Rightarrow> [])
      in if data = [] then (True, disk)
         else (case io of
                 Io_Ok \<Rightarrow> (True, Some (old @ data))
               | Io_Open_Fails \<Rightarrow> (False, disk)
               | Io_Stops k \<Rightarrow> (False, Some (old @ take k data))))"

section \<open>The critical section of a write\<close>

text \<open>Whether a rewrite is due, whether the append failed, and the store.\<close>

definition note_event :: "(log_event \<Rightarrow> string) \<Rightarrow> io \<Rightarrow> log_event \<Rightarrow> log_store \<Rightarrow> bool \<times> bool \<times> log_store" where
  "note_event enc io ev s =
     (if \<not> ls_persistent s then (False, False, s)
      else if ls_dirty s \<or> ls_legacy s \<or> ls_events s = 0 then (True, False, s)
      else (case append_lines io (event_line enc ev) (ls_disk s) of
              (False, disk) \<Rightarrow> (True, True, s\<lparr>ls_disk := disk, ls_dirty := True\<rparr>)
            | (True, disk) \<Rightarrow>
                (let s = s\<lparr>ls_disk := disk, ls_events := ls_events s + 1\<rparr>;
                     s = (if ls_compacting s then s\<lparr>ls_pending := ls_pending s @ [ev]\<rparr> else s)
                 in (ls_events s > compact_threshold (live_count (ls_mem s)), False, s))))"

definition put_section :: "(log_event \<Rightarrow> string) \<Rightarrow> io \<Rightarrow> verdict_record \<Rightarrow> log_store \<Rightarrow> bool \<times> bool \<times> log_store" where
  "put_section enc io r s = note_event enc io (Ev_Put r) (s\<lparr>ls_mem := apply_put r (ls_mem s)\<rparr>)"

text \<open>Nothing is noted when there is nothing to delete; the empty list is stored all the same.\<close>

definition delete_section ::
  "(log_event \<Rightarrow> string) \<Rightarrow> io \<Rightarrow> string \<Rightarrow> string \<Rightarrow> log_store \<Rightarrow> (bool \<times> bool) option \<times> log_store" where
  "delete_section enc io tenant i s =
     (let (found, m) = apply_delete tenant i (ls_mem s); s = s\<lparr>ls_mem := m\<rparr>
      in if \<not> found then (None, s)
         else (let (rewrite, err, s) = note_event enc io (Ev_Del tenant i) s in (Some (rewrite, err), s)))"

section \<open>Compaction\<close>

definition record_before :: "verdict_record \<Rightarrow> verdict_record \<Rightarrow> bool" where
  "record_before x y =
     (if vr_tenant x \<noteq> vr_tenant y then str_less (vr_tenant x) (vr_tenant y) else str_less (vr_id x) (vr_id y))"

text \<open>Phase 1, \<open>None\<close> when a rewrite is already running; the sort belongs to phase 2.\<close>

definition compact_begin :: "log_store \<Rightarrow> log_store option" where
  "compact_begin s =
     (if \<not> ls_persistent s \<or> ls_compacting s then None
      else Some (s\<lparr>ls_compacting := True, ls_pending := [],
                   ls_snap := sort_by record_before (concat (map snd (ls_mem s)))\<rparr>))"

text \<open>
  Phases 2 and 3: a failure before the rename leaves the log alone, one after it leaves the
  new file under the old bookkeeping.
\<close>

datatype swap = Swap_Ok | Swap_Fails | Swap_Unsynced

definition compact_end :: "(log_event \<Rightarrow> string) \<Rightarrow> swap \<Rightarrow> log_store \<Rightarrow> bool \<times> log_store" where
  "compact_end enc fate s =
     (let file = log_file enc (map Ev_Put (ls_snap s) @ ls_pending s);
          n = length (ls_snap s) + length (ls_pending s);
          s0 = s\<lparr>ls_compacting := False, ls_pending := []\<rparr>
      in case fate of
           Swap_Fails \<Rightarrow> (False, s0)
         | Swap_Unsynced \<Rightarrow> (False, s0\<lparr>ls_disk := Some file\<rparr>)
         | Swap_Ok \<Rightarrow> (True, s0\<lparr>ls_disk := Some file, ls_events := n, ls_legacy := False, ls_dirty := False\<rparr>))"

text \<open>A whole compaction, when nobody comes in between.\<close>

definition compact :: "(log_event \<Rightarrow> string) \<Rightarrow> swap \<Rightarrow> log_store \<Rightarrow> bool \<times> log_store" where
  "compact enc fate s = (case compact_begin s of None \<Rightarrow> (True, s) | Some s \<Rightarrow> compact_end enc fate s)"

definition verdict_put ::
  "(log_event \<Rightarrow> string) \<Rightarrow> io \<Rightarrow> swap \<Rightarrow> gotime \<Rightarrow> string \<Rightarrow> verdict_record \<Rightarrow> log_store \<Rightarrow>
     (verdict_error + verdict_record) \<times> log_store" where
  "verdict_put enc io fate now new_id r s =
     (case file_normalize now new_id r of
        Inl err \<Rightarrow> (Inl err, s)
      | Inr r \<Rightarrow>
          (let (rewrite, err, s) = put_section enc io r s
           in if err \<and> \<not> rewrite then (Inl (ErrWrite ''append''), s)
              else if rewrite
              then (let (ok, s) = compact enc fate s in (if ok then Inr r else Inl (ErrWrite ''compact''), s))
              else (Inr r, s)))"

definition verdict_delete ::
  "(log_event \<Rightarrow> string) \<Rightarrow> io \<Rightarrow> swap \<Rightarrow> string \<Rightarrow> string \<Rightarrow> log_store \<Rightarrow> verdict_error option \<times> log_store" where
  "verdict_delete enc io fate tenant i s =
     (case delete_section enc io (verdict_tenant_key tenant) i s of
        (None, s) \<Rightarrow> (Some ErrNotFound, s)
      | (Some (rewrite, err), s) \<Rightarrow>
          if err \<and> \<not> rewrite then (Some (ErrWrite ''append''), s)
          else if rewrite
          then (let (ok, s) = compact enc fate s in (if ok then None else Some (ErrWrite ''compact''), s))
          else (None, s))"

section \<open>Loading\<close>

datatype load_error = Bad_Line nat | Bad_File

text \<open>
  The line that fails to decode is forgiven when nothing but blanks follows it.
\<close>

fun replay_lines :: "(string \<Rightarrow> log_event option) \<Rightarrow> nat \<Rightarrow> string list \<Rightarrow> verdicts \<Rightarrow> nat \<Rightarrow> load_error + verdicts \<times> nat" where
  "replay_lines dec i [] m n = Inr (m, n)"
| "replay_lines dec i (l # ls) m n =
     (let l = trim_space l
      in if l = [] then replay_lines dec (i + 1) ls m n
         else (case dec l of
                 None \<Rightarrow> if \<forall>x \<in> set ls. trim_space x = [] then Inr (m, n) else Inl (Bad_Line (i + 1))
               | Some ev \<Rightarrow> replay_lines dec (i + 1) ls (apply_event_locked ev m) (n + 1)))"

definition replay_log :: "(string \<Rightarrow> log_event option) \<Rightarrow> string \<Rightarrow> load_error + verdicts \<times> nat" where
  "replay_log dec b =
     (let ls = split_on newline b; ls = (if trim_space (hd ls) = log_magic then tl ls else ls)
      in replay_lines dec 0 ls [] 0)"

definition fresh_log :: "bool \<Rightarrow> string option \<Rightarrow> log_store" where
  "fresh_log persistent disk =
     \<lparr>ls_persistent = persistent, ls_mem = [], ls_disk = disk, ls_events = 0, ls_legacy = False, ls_dirty = False,
      ls_compacting = False, ls_pending = [], ls_snap = []\<rparr>"

definition add_loaded :: "verdict_record \<Rightarrow> verdicts \<Rightarrow> verdicts" where
  "add_loaded r m = AList.update (vr_tenant r) (verdicts_of m (vr_tenant r) @ [r]) m"

text \<open>\<open>dec1\<close> opens and parses the first format, one sealed document.\<close>

definition load_log ::
  "(string \<Rightarrow> log_event option) \<Rightarrow> (string \<Rightarrow> verdict_record list option) \<Rightarrow> string option \<Rightarrow> load_error + log_store" where
  "load_log dec dec1 disk =
     (let s = fresh_log True disk
      in case disk of
           None \<Rightarrow> Inr s
         | Some b \<Rightarrow>
             if b = [] then Inr s
             else if prefix log_magic b
             then (case replay_log dec b of
                     Inl err \<Rightarrow> Inl err
                   | Inr (m, n) \<Rightarrow> Inr (s\<lparr>ls_mem := m, ls_events := n\<rparr>))
             else (case dec1 b of
                     None \<Rightarrow> Inl Bad_File
                   | Some rs \<Rightarrow> Inr (s\<lparr>ls_mem := fold add_loaded rs [], ls_legacy := True\<rparr>)))"

end
