(* ===== verification/Verdict_Laws.thy ===== *)
theory Verdict_Laws
  imports Verdict_Log
begin

text \<open>
  What the log promises: in every history of writes, failed appends, failed and successful
  rewrites and restarts, in which no write that needs a rewrite arrived while one was running
  and no restart read a torn tail, a clean log replays to the records in memory. And where the
  promise fails: the write that arrives during a rewrite it needs itself, and the append after
  a torn tail.
\<close>

section \<open>Reading back what was written\<close>

text \<open>What sealing, JSON and base64 do to the events of \<open>E\<close>: lines without a blank, read back.\<close>

definition codec_ok :: "(log_event \<Rightarrow> string) \<Rightarrow> (string \<Rightarrow> log_event option) \<Rightarrow> log_event set \<Rightarrow> bool" where
  "codec_ok enc dec E \<longleftrightarrow>
     (\<forall>ev \<in> E. dec (enc ev) = Some ev \<and> enc ev \<noteq> [] \<and> (\<forall>c \<in> set (enc ev). \<not> is_space c))"

lemma no_blanks_trim: "\<forall>c \<in> set l. \<not> is_space c \<Longrightarrow> trim_space l = l"
proof -
  have d: "dropWhile is_space l = l" if "\<forall>c \<in> set l. \<not> is_space c" for l
    using that by (cases l) auto
  show "\<forall>c \<in> set l. \<not> is_space c \<Longrightarrow> trim_space l = l" using d [of l] d [of "rev l"] by (simp add: trim_space_def)
qed

lemma newline_space: "is_space newline"
  by (simp add: is_space_def)

lemma trim_Nil [simp]: "trim_space [] = []"
  by (simp add: trim_space_def)

lemma codec_lines:
  assumes "codec_ok enc dec E" "ev \<in> E"
  shows "trim_space (enc ev) = enc ev" "enc ev \<noteq> []" "dec (enc ev) = Some ev" "newline \<notin> set (enc ev)"
  using assms no_blanks_trim newline_space by (auto simp: codec_ok_def)

lemma split_lines:
  assumes "codec_ok enc dec E" "set evs \<subseteq> E"
  shows "split_on newline (concat (map (event_line enc) evs) @ t) = map enc evs @ split_on newline t"
  using assms(2)
proof (induction evs)
  case (Cons ev evs)
  have "split_on newline (enc ev @ newline # (concat (map (event_line enc) evs) @ t)) =
      enc ev # split_on newline (concat (map (event_line enc) evs) @ t)"
    using codec_lines(4) [OF assms(1)] Cons.prems by (intro split_on_append) auto
  moreover have "concat (map (event_line enc) (ev # evs)) @ t = enc ev @ newline # (concat (map (event_line enc) evs) @ t)"
    by (simp add: event_line_def)
  ultimately show ?case using Cons by simp
qed simp

lemma magic_line: "newline \<notin> set log_magic" "trim_space log_magic = log_magic" "log_magic \<noteq> []"
  by code_simp+

lemma split_file:
  assumes "codec_ok enc dec E" "set evs \<subseteq> E"
  shows "split_on newline (log_file enc evs @ t) = log_magic # map enc evs @ split_on newline t"
  using split_lines [OF assms, of t] split_on_append [OF magic_line(1)] by (simp add: log_file_def)

lemma replay_good:
  assumes "codec_ok enc dec E" "set evs \<subseteq> E"
  shows "replay_lines dec i (map enc evs @ ls) m n =
    replay_lines dec (i + length evs) ls (fold apply_event_locked evs m) (n + length evs)"
  using assms(2)
proof (induction evs arbitrary: i m n)
  case (Cons ev evs)
  then show ?case using codec_lines [OF assms(1), of ev] by simp
qed simp

text \<open>A file of whole lines, and one whose last line was cut short.\<close>

lemma replay_whole:
  assumes "codec_ok enc dec E" "set evs \<subseteq> E"
  shows "replay_log dec (log_file enc evs) = Inr (fold apply_event_locked evs [], length evs)"
  using split_file [OF assms, of "[]"] replay_good [OF assms, of 0 "[[]]" "[]" 0] magic_line
  by (simp add: replay_log_def)

lemma replay_torn:
  assumes "codec_ok enc dec E" "set evs \<subseteq> E" "newline \<notin> set frag" "dec (trim_space frag) = None"
  shows "replay_log dec (log_file enc evs @ frag) = Inr (fold apply_event_locked evs [], length evs)"
  using split_file [OF assms(1,2), of frag] replay_good [OF assms(1,2), of 0 "[frag]" "[]" 0] magic_line
    split_on_single [OF assms(3)] assms(4)
  by (simp add: replay_log_def Let_def)

lemma load_file: "load_log dec dec1 (Some (log_file enc evs @ t)) =
   (case replay_log dec (log_file enc evs @ t) of Inl err \<Rightarrow> Inl err
    | Inr (m, n) \<Rightarrow> Inr ((fresh_log True (Some (log_file enc evs @ t)))\<lparr>ls_mem := m, ls_events := n\<rparr>))"
proof -
  have "prefix log_magic (log_file enc evs @ t)" "log_file enc evs @ t \<noteq> []" using magic_line(3) by (simp_all add: log_file_def)
  then show ?thesis unfolding load_log_def Let_def option.case by (simp only: if_False if_True simp_thms)
qed

section \<open>A rewritten log replays to the records it lists\<close>

definition beside :: "verdict_record \<Rightarrow> verdict_record \<Rightarrow> bool" where
  "beside x y \<longleftrightarrow> vr_tenant x = vr_tenant y \<longrightarrow> accumulates x \<or> accumulates y \<or> stays_beside x y"

lemma beside_sym: "beside x y \<Longrightarrow> beside y x"
  using stays_beside_sym [of x y] by (auto simp: beside_def)

lemma sorted_wrt_perm:
  assumes "\<And>x y. P x y \<Longrightarrow> P y x" "mset xs = mset ys" "sorted_wrt P xs"
  shows "sorted_wrt P ys"
  using assms(2,3)
proof (induction ys arbitrary: xs)
  case (Cons y ys)
  then obtain us vs where xs: "xs = us @ y # vs"
    by (metis list.set_intros(1) set_mset_mset split_list)
  then have "mset (us @ vs) = mset ys" "sorted_wrt P (us @ vs)" "\<forall>x \<in> set (us @ vs). P y x"
    using Cons.prems assms(1) by (auto simp: sorted_wrt_append)
  moreover from this(1) have "set ys = set (us @ vs)" by (metis set_mset_mset)
  ultimately show ?case using Cons.IH [of "us @ vs"] by simp
qed simp

lemma replay_records:
  "sorted_wrt beside rs \<Longrightarrow> verdicts_of (fold apply_event_locked (map Ev_Put rs) []) t = filter (\<lambda>r. vr_tenant r = t) rs"
proof (induction rs rule: rev_induct)
  case Nil
  then show ?case by (simp add: verdicts_of_def)
next
  case (snoc r rs)
  have "filter (stays_beside r) (filter (\<lambda>x. vr_tenant x = vr_tenant r) rs) = filter (\<lambda>x. vr_tenant x = vr_tenant r) rs" if "\<not> accumulates r"
    unfolding filter_id_conv filter_filter
    using snoc.prems that stays_beside_sym
    by (intro filter_cong [OF refl]) (auto simp: sorted_wrt_append beside_def stays_beside_def accumulates_def)
  then show ?case using snoc by (auto simp: apply_event_locked_def verdicts_of_put sorted_wrt_append)
qed

lemma verdicts_of_not_key: "t \<notin> fst ` set m \<Longrightarrow> verdicts_of m t = []"
  using map_of_eq_None_iff [of m t] by (simp add: verdicts_of_def)

lemma live_records:
  assumes "gm_ok m" "\<And>t. \<forall>r \<in> set (verdicts_of m t). vr_tenant r = t"
  shows "filter (\<lambda>r. vr_tenant r = t) (concat (map snd m)) = verdicts_of m t"
  using assms
proof (induction m)
  case Nil
  then show ?case by (simp add: verdicts_of_def)
next
  case (Cons kv m)
  obtain k rs where kv: "kv = (k, rs)" by (cases kv)
  have k: "k \<notin> fst ` set m" "gm_ok m" using Cons.prems(1) kv by (auto simp: gm_ok_def)
  have v: "verdicts_of (kv # m) u = (if u = k then rs else verdicts_of m u)" for u by (simp add: verdicts_of_def kv)
  have "\<forall>r \<in> set (verdicts_of m u). vr_tenant r = u" for u
    using Cons.prems(2) [of u] v [of u] verdicts_of_not_key [OF k(1)] by (cases "u = k") auto
  then have "filter (\<lambda>r. vr_tenant r = t) (concat (map snd m)) = verdicts_of m t" using Cons.IH k(2) by blast
  moreover have "filter (\<lambda>r. vr_tenant r = t) rs = (if t = k then rs else [])"
    using Cons.prems(2) [of k] v [of k] by (auto simp: filter_empty_conv filter_id_conv)
  ultimately show ?case using v [of t] verdicts_of_not_key [OF k(1)] kv by simp
qed

lemma live_beside:
  assumes "verdicts_ok m"
  shows "sorted_wrt beside (concat (map snd m))"
proof -
  have gm: "gm_ok m" and own: "\<And>t. \<forall>r \<in> set (verdicts_of m t). vr_tenant r = t"
    and srt: "\<And>t. sorted_wrt (\<lambda>x y. accumulates x \<or> accumulates y \<or> stays_beside x y) (verdicts_of m t)"
    using assms by (simp_all add: verdicts_ok_def)
  have "sorted_wrt beside rs" if "\<And>t. sorted_wrt (\<lambda>x y. accumulates x \<or> accumulates y \<or> stays_beside x y) (filter (\<lambda>r. vr_tenant r = t) rs)" for rs
    using that
  proof (induction rs)
    case (Cons r rs)
    have "sorted_wrt (\<lambda>x y. accumulates x \<or> accumulates y \<or> stays_beside x y) (filter (\<lambda>r. vr_tenant r = t) rs)" for t
      using Cons.prems [of t] by (auto split: if_splits)
    moreover have "\<forall>x \<in> set rs. beside r x" using Cons.prems [of "vr_tenant r"] by (auto simp: beside_def)
    ultimately show ?case using Cons.IH by simp
  qed simp
  then show ?thesis using live_records [OF gm own] srt by simp
qed

lemma rewritten_same:
  assumes "verdicts_ok m"
  shows "same_verdicts (fold apply_event_locked (map Ev_Put (sort_by record_before (concat (map snd m)))) []) m"
proof -
  let ?rs = "sort_by record_before (concat (map snd m))"
  have "sorted_wrt beside ?rs"
    by (rule sorted_wrt_perm [OF beside_sym _ live_beside [OF assms]]) simp_all
  from replay_records [OF this] have "mset (verdicts_of (fold apply_event_locked (map Ev_Put ?rs) []) t) =
      filter_mset (\<lambda>r. vr_tenant r = t) (mset (concat (map snd m)))" for t by simp
  moreover have "filter_mset (\<lambda>r. vr_tenant r = t) (mset (concat (map snd m))) = mset (verdicts_of m t)" for t
    using live_records [of m t] assms by (metis mset_filter verdicts_ok_def)
  ultimately show ?thesis by (simp add: same_verdicts_def)
qed

section \<open>Histories\<close>

text \<open>The log can be extended: nothing on disk is owed a rewrite.\<close>

definition clean :: "log_store \<Rightarrow> bool" where
  "clean s \<longleftrightarrow> \<not> ls_dirty s \<and> \<not> ls_legacy s \<and> ls_events s \<noteq> 0"

text \<open>
  The steps, in any interleaving: writes and deletions whatever the append does, the two locked
  phases of a rewrite, and restarts from whatever the file holds. Beside the store a history
  keeps the events it was asked to note, whether the file ends in a torn line, and whether one
  of the two things has happened that the log does not survive: a write that owed a rewrite
  while one was running, and a restart from a torn file.
\<close>

type_synonym log_history = "log_store \<times> log_event set \<times> bool \<times> bool"

definition tears :: "io \<Rightarrow> log_store \<Rightarrow> bool" where
  "tears io s \<longleftrightarrow> clean s \<and> (\<exists>k. io = Io_Stops k)"

definition owes_twice :: "io \<Rightarrow> log_store \<Rightarrow> bool" where
  "owes_twice io s \<longleftrightarrow> ls_compacting s \<and> \<not> (clean s \<and> io = Io_Ok)"

inductive log_step ::
  "(log_event \<Rightarrow> string) \<Rightarrow> (string \<Rightarrow> log_event option) \<Rightarrow> (string \<Rightarrow> verdict_record list option) \<Rightarrow> log_history \<Rightarrow> log_history \<Rightarrow> bool"
  for enc dec dec1 where
  log_put: "put_section enc io r s = (rewrite, err, s') \<Longrightarrow>
     log_step enc dec dec1 (s, asked, torn, lost) (s', insert (Ev_Put r) asked, torn \<or> tears io s, lost \<or> owes_twice io s)"
| log_delete: "delete_section enc io t i s = (Some out, s') \<Longrightarrow>
     log_step enc dec dec1 (s, asked, torn, lost) (s', insert (Ev_Del t i) asked, torn \<or> tears io s, lost \<or> owes_twice io s)"
| log_delete_none: "delete_section enc io t i s = (None, s') \<Longrightarrow> log_step enc dec dec1 (s, asked, torn, lost) (s', asked, torn, lost)"
| log_begin: "compact_begin s = Some s' \<Longrightarrow> log_step enc dec dec1 (s, asked, torn, lost) (s', asked, torn, lost)"
| log_end: "ls_compacting s \<Longrightarrow> compact_end enc fate s = (ok, s') \<Longrightarrow>
     log_step enc dec dec1 (s, asked, torn, lost) (s', asked, torn \<and> fate = Swap_Fails, lost)"
| log_restart: "load_log dec dec1 (ls_disk s) = Inr s' \<Longrightarrow> log_step enc dec dec1 (s, asked, torn, lost) (s', asked, torn, lost \<or> torn)"

inductive_cases log_stepE: "log_step enc dec dec1 (s, asked, torn, lost) h"

definition recorded :: "log_event set \<Rightarrow> verdicts \<Rightarrow> bool" where
  "recorded E m \<longleftrightarrow> (\<forall>t. \<forall>r \<in> set (verdicts_of m t). Ev_Put r \<in> E)"

definition log_inv :: "(log_event \<Rightarrow> string) \<Rightarrow> log_event set \<Rightarrow> bool \<Rightarrow> log_store \<Rightarrow> bool" where
  "log_inv enc E torn s \<longleftrightarrow> ls_persistent s \<and> verdicts_ok (ls_mem s) \<and>
     recorded E (ls_mem s) \<and>
     (\<not> torn \<longrightarrow> ls_disk s = None \<or> (\<exists>evs. ls_disk s = Some (log_file enc evs) \<and> set evs \<subseteq> E)) \<and>
     (clean s \<longrightarrow> \<not> torn \<and> (\<exists>evs. ls_disk s = Some (log_file enc evs) \<and> set evs \<subseteq> E \<and>
        same_verdicts (fold apply_event_locked evs []) (ls_mem s))) \<and>
     (ls_compacting s \<longrightarrow> set (map Ev_Put (ls_snap s) @ ls_pending s) \<subseteq> E \<and>
        same_verdicts (fold apply_event_locked (map Ev_Put (ls_snap s) @ ls_pending s) []) (ls_mem s))"

lemma log_inv_mono: "log_inv enc E torn s \<Longrightarrow> E \<subseteq> E' \<Longrightarrow> log_inv enc E' torn s"
  unfolding log_inv_def recorded_def by (meson order_trans subsetD)

lemma same_event: "same_verdicts m m' \<Longrightarrow> same_verdicts (apply_event_locked ev m) (apply_event_locked ev m')"
  by (cases ev) (simp_all add: apply_event_locked_def same_put same_delete)

lemma verdicts_ok_event: "verdicts_ok m \<Longrightarrow> verdicts_ok (apply_event_locked ev m)"
  by (cases ev) (simp_all add: apply_event_locked_def verdicts_ok_put verdicts_ok_delete)

lemma verdicts_ok_events: "verdicts_ok m \<Longrightarrow> verdicts_ok (fold apply_event_locked evs m)"
  by (induction evs arbitrary: m) (simp_all add: verdicts_ok_event)

lemma verdicts_ok_Nil [simp]: "verdicts_ok []"
  by (simp add: verdicts_ok_def verdicts_of_def)

lemma records_from: "recorded E m \<Longrightarrow> ev \<in> E \<Longrightarrow> recorded E (apply_event_locked ev m)"
  by (cases ev) (auto simp: recorded_def apply_event_locked_def verdicts_of_put verdicts_of_delete split: if_splits)

lemma records_from_all: "recorded E m \<Longrightarrow> set evs \<subseteq> E \<Longrightarrow> recorded E (fold apply_event_locked evs m)"
  by (induction evs arbitrary: m) (simp_all add: records_from)

lemma log_file_snoc: "log_file enc (evs @ [ev]) = log_file enc evs @ event_line enc ev"
  by (simp add: log_file_def)

text \<open>One write, whatever the append does; \<open>m\<close> is memory before it.\<close>

lemma note_inv:
  assumes i: "log_inv enc E torn s" and ev: "ev \<in> E" and q: "\<not> owes_twice io s"
    and run: "note_event enc io ev (s\<lparr>ls_mem := apply_event_locked ev (ls_mem s)\<rparr>) = (rewrite, err, s')"
  shows "log_inv enc E (torn \<or> tears io s) s'"
proof -
  define m' where "m' = apply_event_locked ev (ls_mem s)"
  have base: "ls_persistent s" "verdicts_ok m'" "recorded E m'"
    using i ev by (simp_all add: log_inv_def m'_def records_from verdicts_ok_event)
  show ?thesis
  proof (cases "clean s")
    case False
    then have "\<not> ls_compacting s" and s': "s' = s\<lparr>ls_mem := m'\<rparr>"
      using q run base(1) by (auto simp: note_event_def clean_def owes_twice_def m'_def)
    moreover from this(2) False have "\<not> clean s'" by (simp add: clean_def)
    ultimately show ?thesis using base i False by (simp add: log_inv_def tears_def)
  next
    case True
    obtain evs where evs: "ls_disk s = Some (log_file enc evs)" "set evs \<subseteq> E" "\<not> torn"
        "same_verdicts (fold apply_event_locked evs []) (ls_mem s)"
      using i True by (auto simp: log_inv_def)
    show ?thesis
    proof (cases "io = Io_Ok")
      case False
      then have c: "\<not> ls_compacting s" using q by (simp add: owes_twice_def)
      have "ls_mem s' = m' \<and> ls_dirty s' \<and> ls_persistent s' \<and> ls_compacting s' = ls_compacting s \<and>
          (io = Io_Open_Fails \<longrightarrow> ls_disk s' = ls_disk s)"
        using run True base(1) False
        by (cases io) (auto simp: note_event_def clean_def m'_def append_lines_def event_line_def)
      moreover have "tears io s \<longleftrightarrow> io \<noteq> Io_Open_Fails" using True False by (cases io) (simp_all add: tears_def)
      ultimately show ?thesis using base c evs(1,2) by (auto simp: log_inv_def clean_def)
    next
      case ok: True
      have s': "s' = s\<lparr>ls_mem := m', ls_disk := Some (log_file enc (evs @ [ev])), ls_events := ls_events s + 1,
          ls_pending := (if ls_compacting s then ls_pending s @ [ev] else ls_pending s)\<rparr>"
        using run True base(1) evs(1) ok
        by (auto simp: note_event_def clean_def m'_def append_lines_def event_line_def log_file_snoc Let_def split: if_splits)
      have f: "ls_persistent s'" "ls_mem s' = m'" "ls_disk s' = Some (log_file enc (evs @ [ev]))"
          "ls_compacting s' = ls_compacting s" "ls_snap s' = ls_snap s"
          "ls_pending s' = (if ls_compacting s then ls_pending s @ [ev] else ls_pending s)"
        using base(1) by (simp_all add: s')
      have "same_verdicts (fold apply_event_locked (evs @ [ev]) []) m'"
        using same_event [OF evs(4), of ev] by (simp add: m'_def)
      then have "\<exists>evs. ls_disk s' = Some (log_file enc evs) \<and> set evs \<subseteq> E \<and>
          same_verdicts (fold apply_event_locked evs []) (ls_mem s')"
        using f(2,3) evs(2) ev by (intro exI [of _ "evs @ [ev]"]) simp
      moreover have "set (map Ev_Put (ls_snap s') @ ls_pending s') \<subseteq> E \<and>
          same_verdicts (fold apply_event_locked (map Ev_Put (ls_snap s') @ ls_pending s') []) (ls_mem s')" if "ls_compacting s'"
        using same_event [of "fold apply_event_locked (map Ev_Put (ls_snap s) @ ls_pending s) []" "ls_mem s" ev] i that ev
        by (simp add: log_inv_def m'_def f)
      moreover have "\<not> (torn \<or> tears io s)" using evs(3) ok by (simp add: tears_def)
      ultimately show ?thesis using base(2,3) f(1,2) unfolding log_inv_def by (simp only: simp_thms) blast
    qed
  qed
qed

lemma put_inv:
  assumes "log_inv enc E torn s" "Ev_Put r \<in> E" "\<not> owes_twice io s" "put_section enc io r s = (rewrite, err, s')"
  shows "log_inv enc E (torn \<or> tears io s) s'"
  using note_inv [OF assms(1-3), of rewrite err s'] assms(4) by (simp add: put_section_def apply_event_locked_def)

lemma delete_inv:
  assumes i: "log_inv enc E torn s" and ev: "Ev_Del t k \<in> E" and q: "\<not> owes_twice io s"
    and run: "delete_section enc io t k s = (Some out, s')"
  shows "log_inv enc E (torn \<or> tears io s) s'"
proof -
  obtain rewrite err s2 where n: "note_event enc io (Ev_Del t k) (s\<lparr>ls_mem := apply_event_locked (Ev_Del t k) (ls_mem s)\<rparr>) = (rewrite, err, s2)"
    by (cases "note_event enc io (Ev_Del t k) (s\<lparr>ls_mem := apply_event_locked (Ev_Del t k) (ls_mem s)\<rparr>)")
  then have "s' = s2" using run by (simp add: delete_section_def apply_event_locked_def Let_def split: prod.splits if_splits)
  then show ?thesis using note_inv [OF i ev q n] by simp
qed

lemma delete_none_inv:
  assumes i: "log_inv enc E torn s" and run: "delete_section enc io t k s = (None, s')"
  shows "log_inv enc E torn s'"
proof -
  let ?m = "snd (apply_delete t k (ls_mem s))"
  have f: "\<not> fst (apply_delete t k (ls_mem s))" and s': "s' = s\<lparr>ls_mem := ?m\<rparr>"
    using run by (auto simp: delete_section_def Let_def split: prod.splits if_splits)
  have "verdicts_of ?m u = verdicts_of (ls_mem s) u" for u
    using f by (simp add: verdicts_of_delete filter_id_conv) (auto simp: apply_delete_def Let_def)
  then have v: "verdicts_of ?m = verdicts_of (ls_mem s)" by (rule ext)
  have "verdicts_ok ?m" using i by (simp add: log_inv_def verdicts_ok_delete)
  moreover have "recorded E ?m" "same_verdicts x ?m = same_verdicts x (ls_mem s)" for x
    using i by (simp_all add: log_inv_def recorded_def same_verdicts_def v)
  ultimately show ?thesis using i unfolding s' log_inv_def clean_def by simp
qed

lemma begin_inv:
  assumes i: "log_inv enc E torn s" and run: "compact_begin s = Some s'"
  shows "log_inv enc E torn s'"
proof -
  let ?rs = "sort_by record_before (concat (map snd (ls_mem s)))"
  have s': "s' = s\<lparr>ls_compacting := True, ls_pending := [], ls_snap := ?rs\<rparr>" using run by (auto simp: compact_begin_def split: if_splits)
  have ok: "verdicts_ok (ls_mem s)" using i by (simp add: log_inv_def)
  have "r \<in> set (verdicts_of (ls_mem s) (vr_tenant r))" if "r \<in> set (concat (map snd (ls_mem s)))" for r
  proof -
    have gm: "gm_ok (ls_mem s)" and own: "\<And>t. \<forall>r \<in> set (verdicts_of (ls_mem s) t). vr_tenant r = t"
      using ok unfolding verdicts_ok_def by blast+
    have "r \<in> set (filter (\<lambda>x. vr_tenant x = vr_tenant r) (concat (map snd (ls_mem s))))" using that by simp
    then show ?thesis unfolding live_records [OF gm own] .
  qed
  then have "Ev_Put ` set ?rs \<subseteq> E" using i unfolding log_inv_def recorded_def set_sort_by by blast
  then show ?thesis using i rewritten_same [OF ok] unfolding s' log_inv_def clean_def by simp
qed

lemma end_inv:
  assumes i: "log_inv enc E torn s" and c: "ls_compacting s" and run: "compact_end enc fate s = (ok, s')"
  shows "log_inv enc E (torn \<and> fate = Swap_Fails) s'"
proof -
  let ?evs = "map Ev_Put (ls_snap s) @ ls_pending s"
  have e: "set ?evs \<subseteq> E \<and> same_verdicts (fold apply_event_locked ?evs []) (ls_mem s)" using i c by (simp add: log_inv_def)
  define b where "b = log_file enc ?evs"
  have base: "ls_persistent s" "verdicts_ok (ls_mem s)" "recorded E (ls_mem s)" using i by (simp_all add: log_inv_def)
  have whole: "\<exists>evs. b = log_file enc evs \<and> set evs \<subseteq> E \<and> same_verdicts (fold apply_event_locked evs []) (ls_mem s)"
    using e by (intro exI [of _ ?evs]) (simp add: b_def)
  then have weak: "\<exists>evs. b = log_file enc evs \<and> set evs \<subseteq> E" by blast
  show ?thesis
  proof (cases "fate = Swap_Fails")
    case True
    then have "s' = s\<lparr>ls_compacting := False, ls_pending := []\<rparr>" using run by (simp add: compact_end_def Let_def)
    then show ?thesis using i True by (simp add: log_inv_def clean_def)
  next
    case False
    then have "ls_disk s' = Some b" "ls_mem s' = ls_mem s" "ls_persistent s' = ls_persistent s" "\<not> ls_compacting s'"
      using run by (cases fate; auto simp: compact_end_def Let_def b_def)+
    then show ?thesis using base whole weak False by (simp add: log_inv_def)
  qed
qed

lemma restart_loads:
  assumes codec: "codec_ok enc dec E" and i: "log_inv enc E torn s" and whole: "\<not> torn"
  shows "\<exists>s'. load_log dec dec1 (ls_disk s) = Inr s' \<and> log_inv enc E False s' \<and> (clean s \<longrightarrow> same_verdicts (ls_mem s') (ls_mem s))"
proof (cases "ls_disk s")
  case None
  then have "\<not> clean s" using i by (auto simp: log_inv_def)
  moreover have "\<not> clean (fresh_log True None)" by (simp add: clean_def fresh_log_def)
  moreover have "log_inv enc E False (fresh_log True None)"
    by (simp add: log_inv_def fresh_log_def clean_def recorded_def verdicts_of_def)
  ultimately show ?thesis by (simp add: None load_log_def)
next
  case (Some b)
  obtain evs where evs: "ls_disk s = Some (log_file enc evs @ [])" "set evs \<subseteq> E"
      "clean s \<longrightarrow> same_verdicts (fold apply_event_locked evs []) (ls_mem s)"
    using i whole Some unfolding log_inv_def by (cases "clean s") auto
  have "replay_log dec (log_file enc evs @ []) = Inr (fold apply_event_locked evs [], length evs)"
    using replay_whole [OF codec evs(2)] by simp
  then have load: "load_log dec dec1 (ls_disk s) = Inr ((fresh_log True (ls_disk s))\<lparr>ls_mem := fold apply_event_locked evs [], ls_events := length evs\<rparr>)"
    unfolding evs(1) load_file by simp
  have r: "recorded E (fold apply_event_locked evs [])"
    by (rule records_from_all [OF _ evs(2)]) (simp add: recorded_def verdicts_of_def)
  have "\<exists>evs'. ls_disk s = Some (log_file enc evs') \<and> set evs' \<subseteq> E \<and>
      same_verdicts (fold apply_event_locked evs' []) (fold apply_event_locked evs [])"
    using evs(1,2) by (intro exI [of _ evs]) (simp add: same_verdicts_def)
  then show ?thesis
    using r evs verdicts_ok_events [OF verdicts_ok_Nil, of evs] unfolding load by (auto simp: log_inv_def fresh_log_def)
qed

lemma log_step_inv:
  assumes "log_step enc dec dec1 h h'" "h = (s, asked, torn, lost)" "h' = (s', asked', torn', lost')"
    and "\<not> lost'" "codec_ok enc dec asked'" "log_inv enc asked torn s"
  shows "log_inv enc asked' torn' s' \<and> \<not> lost \<and> asked \<subseteq> asked'"
  using assms(1)
proof (cases rule: log_step.cases)
  case (log_put io r s0 rewrite err s1 asked0 torn0 lost0)
  then show ?thesis
    using assms(2-4) put_inv [OF log_inv_mono [OF assms(6) subset_insertI] insertI1, of io r rewrite err s'] by auto
next
  case (log_delete io t i s0 out s1 asked0 torn0 lost0)
  then show ?thesis
    using assms(2-4) delete_inv [OF log_inv_mono [OF assms(6) subset_insertI] insertI1, of io t i out s'] by auto
next
  case (log_delete_none io t i s0 s1 asked0 torn0 lost0)
  then show ?thesis using assms(2-4) delete_none_inv [OF assms(6)] by auto
next
  case (log_begin s0 s1 asked0 torn0 lost0)
  then show ?thesis using assms(2-4) begin_inv [OF assms(6)] by auto
next
  case (log_end s0 fate ok s1 asked0 torn0 lost0)
  then show ?thesis using assms(2-4) end_inv [OF assms(6)] by auto
next
  case (log_restart s0 s1 asked0 torn0 lost0)
  then show ?thesis using assms(2-5) restart_loads [OF _ assms(6), of dec dec1] by auto
qed

lemma log_steps_inv:
  "(log_step enc dec dec1)\<^sup>*\<^sup>* (fresh_log True None, {}, False, False) (s, asked, torn, lost) \<Longrightarrow>
     \<not> lost \<Longrightarrow> codec_ok enc dec asked \<Longrightarrow> log_inv enc asked torn s"
proof (induction "(s, asked, torn, lost)" arbitrary: s asked torn lost rule: rtranclp_induct)
  case base
  then show ?case by (simp add: log_inv_def fresh_log_def clean_def recorded_def verdicts_of_def)
next
  case (step h)
  obtain s0 asked0 torn0 lost0 where h: "h = (s0, asked0, torn0, lost0)" by (cases h)
  have up: "asked0 \<subseteq> asked" "\<not> lost0" using step(2,4) unfolding h by (cases rule: log_step.cases; auto)+
  then have "codec_ok enc dec asked0" using step(5) by (auto simp: codec_ok_def)
  then have "log_inv enc asked0 torn0 s0" using step(3) h up(2) by blast
  then show ?case using log_step_inv [OF step(2) h refl step(4,5)] by blast
qed

text \<open>
  C23. What the log replays to is what the store holds: after any history of puts, deletions,
  failed and torn appends, rewrites that run while writes go on, that fail, or whose directory
  is not synced, and restarts - as long as no write that owed a rewrite came while one was
  running, and no restart read a torn file - a store whose file is whole loads from it, and one
  that owes its log no rewrite loads with the same verdicts for every tenant, so with the same
  metrics.
\<close>

theorem log_replays_memory:
  assumes "(log_step enc dec dec1)\<^sup>*\<^sup>* (fresh_log True None, {}, False, False) (s, asked, torn, False)" "codec_ok enc dec asked"
    and "clean s \<or> \<not> torn"
  shows "\<exists>s'. load_log dec dec1 (ls_disk s) = Inr s' \<and>
    (clean s \<longrightarrow> same_verdicts (ls_mem s') (ls_mem s) \<and> (\<forall>t. verdict_metrics t (ls_mem s') = verdict_metrics t (ls_mem s)))"
proof -
  have i: "log_inv enc asked torn s" by (rule log_steps_inv [OF assms(1) _ assms(2)]) simp
  then have "\<not> torn" using assms(3) by (auto simp: log_inv_def)
  then show ?thesis using restart_loads [OF assms(2) i, of dec1] same_metrics by blast
qed

definition demo_verdict :: "string \<Rightarrow> string \<Rightarrow> verdict_record" where
  "demo_verdict i sc = \<lparr>vr_id = i, vr_path = ''ap-1'', vr_tenant = ''t'', vr_outcome = confirmed, vr_source = ''bas'', vr_evidence = [],
     vr_route = [], vr_tested = 5, vr_score = 1 / 2, vr_scope = sc, vr_compromise = 0, vr_hops = 2, vr_correlated = False,
     vr_basis = [], vr_detected = None, vr_priority = None\<rparr>"

text \<open>A codec for the two events of the examples.\<close>

definition demo_first_put :: log_event where
  "demo_first_put = Ev_Put (demo_verdict ''b'' scope_path)"

definition demo_second_put :: log_event where
  "demo_second_put = Ev_Put (demo_verdict ''a'' scope_target)"

definition demo_enc :: "log_event \<Rightarrow> string" where
  "demo_enc ev = (if ev = demo_first_put then ''AA'' else ''BB'')"

definition demo_dec :: "string \<Rightarrow> log_event option" where
  "demo_dec l = (if l = ''AA'' then Some demo_first_put else if l = ''BB'' then Some demo_second_put else None)"

lemma demo_codec: "codec_ok demo_enc demo_dec {demo_first_put, demo_second_put}"
  by (auto simp: codec_ok_def demo_enc_def demo_dec_def is_space_def demo_first_put_def demo_second_put_def demo_verdict_def)

definition demo_log :: log_store where
  "demo_log =
     (let s = snd (snd (put_section demo_enc Io_Ok (demo_verdict ''b'' scope_path) (fresh_log True None)));
          s = the (compact_begin s); s = snd (compact_end demo_enc Swap_Ok s)
      in snd (snd (put_section demo_enc Io_Ok (demo_verdict ''a'' scope_target) s)))"

lemma demo_log_steps: "(log_step demo_enc demo_dec (\<lambda>_. None))\<^sup>*\<^sup>* (fresh_log True None, {}, False, False)
   (demo_log, {demo_first_put, demo_second_put}, False, False)"
proof -
  let ?step = "log_step demo_enc demo_dec (\<lambda>_. None)"
  define s1 where "s1 = snd (snd (put_section demo_enc Io_Ok (demo_verdict ''b'' scope_path) (fresh_log True None)))"
  define s2 where "s2 = the (compact_begin s1)"
  define s3 where "s3 = snd (compact_end demo_enc Swap_Ok s2)"
  have s1': "s1 = (fresh_log True None)\<lparr>ls_mem := apply_put (demo_verdict ''b'' scope_path) []\<rparr>"
    by (simp add: s1_def put_section_def note_event_def fresh_log_def)
  have b: "compact_begin s1 = Some s2" by (simp add: s2_def compact_begin_def s1' fresh_log_def)
  then have c: "ls_compacting s2" by (auto simp: compact_begin_def split: if_splits)
  have n: "\<not> ls_compacting (fresh_log True None)" "\<not> ls_compacting s3"
    by (simp_all add: fresh_log_def s3_def compact_end_def Let_def)
  have "?step (fresh_log True None, {}, False, False) (s1, {demo_first_put}, False, False)"
    using log_put [of demo_enc Io_Ok "demo_verdict ''b'' scope_path" "fresh_log True None" _ _ s1 demo_dec "\<lambda>_. None" "{}" False False] n(1)
    by (simp add: s1_def demo_first_put_def prod_eq_iff tears_def owes_twice_def)
  moreover have "?step (s1, {demo_first_put}, False, False) (s2, {demo_first_put}, False, False)" by (rule log_begin [OF b])
  moreover have "?step (s2, {demo_first_put}, False, False) (s3, {demo_first_put}, False, False)"
    using log_end [OF c, of demo_enc Swap_Ok _ s3 demo_dec "\<lambda>_. None" "{demo_first_put}" False False] by (simp add: s3_def prod_eq_iff)
  moreover have "?step (s3, {demo_first_put}, False, False) (demo_log, {demo_first_put, demo_second_put}, False, False)"
    using log_put [of demo_enc Io_Ok "demo_verdict ''a'' scope_target" s3 _ _ demo_log demo_dec "\<lambda>_. None" "{demo_first_put}" False False] n(2)
    by (simp add: demo_log_def s1_def s2_def s3_def demo_second_put_def prod_eq_iff Let_def tears_def owes_twice_def insert_commute)
  ultimately show ?thesis by (meson converse_rtranclp_into_rtranclp rtranclp.rtrancl_refl)
qed

lemma log_replays_memory_witness:
  "\<exists>s'. load_log demo_dec (\<lambda>_. None) (ls_disk demo_log) = Inr s' \<and> length (verdicts_of (ls_mem s') ''t'') = 2"
proof -
  have c: "clean demo_log" by code_simp
  obtain s' where "load_log demo_dec (\<lambda>_. None) (ls_disk demo_log) = Inr s'" "same_verdicts (ls_mem s') (ls_mem demo_log)"
    using log_replays_memory [OF demo_log_steps demo_codec] c by blast
  moreover have "length (verdicts_of (ls_mem demo_log) ''t'') = 2" by code_simp
  ultimately show ?thesis unfolding same_verdicts_def by (metis size_mset)
qed

section \<open>Where a verdict is lost\<close>

text \<open>
  A write to a log that owes a rewrite leaves its event to that rewrite. When one is already
  running, on a copy taken before the event, \<open>compact\<close> returns at once and the caller is told
  the verdict is recorded: the file that replaces the log does not hold it, and the store
  takes itself for clean.
\<close>

theorem write_lost_to_running_rewrite:
  "let r1 = demo_verdict ''b'' scope_path; r2 = demo_verdict ''a'' scope_target;
       (w1, e1, s1) = put_section demo_enc Io_Ok r1 (fresh_log True None);
       s2 = the (compact_begin s1);
       (w2, e2, s3) = put_section demo_enc Io_Ok r2 s2;
       (ok2, s4) = compact demo_enc Swap_Ok s3;
       (ok1, s5) = compact_end demo_enc Swap_Ok s4
   in w1 \<and> w2 \<and> ok2 \<and> ok1 \<and> clean s5 \<and> length (verdicts_of (ls_mem s5) ''t'') = 2 \<and>
      ls_disk s5 = Some (log_file demo_enc [demo_first_put])"
  by code_simp

text \<open>
  A load forgives the fragment a crash left at the end of the log and leaves it there, so
  the next append, acknowledged, lands on the same line: the line decodes to nothing and the
  verdict is gone at the next load, or the file no longer loads once another line follows.
\<close>

theorem append_after_torn_tail:
  assumes "codec_ok enc dec E" "set evs \<subseteq> E" "evs \<noteq> []" "Ev_Put r \<in> E"
    and "newline \<notin> set frag" "dec (trim_space frag) = None" "dec (trim_space (frag @ enc (Ev_Put r))) = None"
    and "trim_space (frag @ enc (Ev_Put r)) \<noteq> []" "length evs < 64"
  shows "\<exists>s s'. load_log dec dec1 (Some (log_file enc evs @ frag)) = Inr s \<and> clean s \<and>
     put_section enc Io_Ok r s = (False, False, s') \<and>
     load_log dec dec1 (ls_disk s') = Inr (s'\<lparr>ls_mem := ls_mem s, ls_events := ls_events s\<rparr>)"
proof -
  let ?m = "fold apply_event_locked evs []"
  let ?s = "(fresh_log True (Some (log_file enc evs @ frag)))\<lparr>ls_mem := ?m, ls_events := length evs\<rparr>"
  let ?file = "log_file enc evs @ frag @ event_line enc (Ev_Put r)"
  have s: "load_log dec dec1 (Some (log_file enc evs @ frag)) = Inr ?s"
    using replay_torn [OF assms(1,2,5,6)] by (simp add: load_file)
  have sp: "split_on newline ?file = log_magic # map enc evs @ [frag @ enc (Ev_Put r), []]"
    using split_file [OF assms(1,2), of "frag @ event_line enc (Ev_Put r)"] split_on_append [of newline "frag @ enc (Ev_Put r)" "[]"]
      codec_lines(4) [OF assms(1,4)] assms(5) by (simp add: event_line_def)
  have "replay_log dec ?file = Inr (?m, length evs)"
    using replay_good [OF assms(1,2), of 0 "[frag @ enc (Ev_Put r), []]" "[]" 0] magic_line assms(7,8)
    by (simp add: replay_log_def sp Let_def)
  moreover define s' where "s' = ?s\<lparr>ls_mem := apply_put r ?m, ls_disk := Some ?file, ls_events := length evs + 1\<rparr>"
  moreover have "put_section enc Io_Ok r ?s = (False, False, s')"
    using assms(3,9) by (simp add: put_section_def note_event_def append_lines_def fresh_log_def event_line_def s'_def compact_threshold_def)
  moreover have "clean ?s" using assms(3) by (simp add: clean_def fresh_log_def)
  moreover have "log_file enc evs @ (frag @ event_line enc (Ev_Put r)) = ?file" by simp
  ultimately have "load_log dec dec1 (ls_disk s') = Inr (s'\<lparr>ls_mem := ls_mem ?s, ls_events := ls_events ?s\<rparr>)"
    using load_file [of dec dec1 enc evs "frag @ event_line enc (Ev_Put r)"] by (simp add: fresh_log_def)
  then show ?thesis using s \<open>clean ?s\<close> \<open>put_section enc Io_Ok r ?s = (False, False, s')\<close> by blast
qed

text \<open>
  A path may carry a verdict of its own and one of its target. \<open>Get\<close> returns the one written
  first; a rewritten log lists them by id, and after a restart \<open>Get\<close> returns the other.
\<close>

theorem get_changes_over_restart:
  "let m = apply_put (demo_verdict ''a'' scope_target) (apply_put (demo_verdict ''b'' scope_path) []);
       rs = sort_by record_before (concat (map snd m));
       m' = fold apply_event_locked (map Ev_Put rs) []
   in map_option vr_id (verdict_get ''t'' ''ap-1'' m) = Some ''b'' \<and>
      map_option vr_id (verdict_get ''t'' ''ap-1'' m') = Some ''a''"
  by code_simp

end
