(* ===== verification/Suppressions.thy ===== *)
theory Suppressions
  imports PG_Prelude
begin

text \<open>
  The suppression board, \<open>backend/internal/suppress/suppress.go\<close>: who took which path off the
  board, why, and until when, per tenant, written to a file as a whole after every change.
  Sealing and JSON are the parameters \<open>enc\<close> and \<open>dec\<close>, the write to disk one that may fail.
\<close>

section \<open>Records\<close>

definition valid_reasons :: "string list" where
  "valid_reasons = [''accept-risk'', ''false-positive'', ''mitigating-control'', ''duplicate'']"

definition valid_reason :: "string \<Rightarrow> bool" where
  "valid_reason r \<longleftrightarrow> r \<in> set valid_reasons"

record suppression =
  sp_path :: string
  sp_tenant :: string
  sp_reason :: string
  sp_owner :: string
  sp_note :: string
  sp_created :: gotime
  sp_expires :: "gotime option"

datatype suppress_error =
  Err_Missing_Path | Err_Missing_Owner | Err_Invalid_Reason string | Err_Not_Configured | Err_Persist

definition suppress_tenant_key :: "string \<Rightarrow> string" where
  "suppress_tenant_key t = (if t = [] then ''default'' else t)"

definition sp_active :: "suppression \<Rightarrow> gotime \<Rightarrow> bool" where
  "sp_active r t \<longleftrightarrow> (case sp_expires r of None \<Rightarrow> True | Some e \<Rightarrow> e > t)"

definition sp_expired :: "suppression \<Rightarrow> gotime \<Rightarrow> bool" where
  "sp_expired r t \<longleftrightarrow> \<not> sp_active r t"

text \<open>A time is the same instant in any zone, so \<open>UTC\<close> leaves it alone here.\<close>

definition normalize_suppression :: "gotime \<Rightarrow> suppression \<Rightarrow> suppress_error + suppression" where
  "normalize_suppression now r =
     (if sp_path r = [] then Inl Err_Missing_Path
      else if sp_owner r = [] then Inl Err_Missing_Owner
      else if \<not> valid_reason (sp_reason r) then Inl (Err_Invalid_Reason (sp_reason r))
      else Inr (r\<lparr>sp_tenant := suppress_tenant_key (sp_tenant r),
                   sp_created := (if sp_created r = zero_time then now else sp_created r)\<rparr>))"

section \<open>The store\<close>

type_synonym board = "(string, (string, suppression) gomap) gomap"

record 'f sup_store =
  su_file :: bool
  su_by :: board
  su_disk :: "'f option"

definition board_of :: "board \<Rightarrow> string \<Rightarrow> (string, suppression) gomap" where
  "board_of b t = (case map_of b t of Some m \<Rightarrow> m | None \<Rightarrow> [])"

definition board_put :: "suppression \<Rightarrow> board \<Rightarrow> board" where
  "board_put r b = AList.update (sp_tenant r) (AList.update (sp_path r) r (board_of b (sp_tenant r))) b"

definition sup_before :: "suppression \<Rightarrow> suppression \<Rightarrow> bool" where
  "sup_before x y =
     (if sp_tenant x \<noteq> sp_tenant y then str_less (sp_tenant x) (sp_tenant y) else str_less (sp_path x) (sp_path y))"

definition board_records :: "board \<Rightarrow> suppression list" where
  "board_records b = sort_by sup_before (concat (map (\<lambda>(t, m). map snd m) b))"

text \<open>\<open>enc\<close> fails when marshalling or sealing does; \<open>written\<close> says whether the atomic write succeeds.\<close>

definition sup_persist :: "(suppression list \<Rightarrow> 'f option) \<Rightarrow> bool \<Rightarrow> 'f sup_store \<Rightarrow> suppress_error option \<times> 'f sup_store" where
  "sup_persist enc written s =
     (if \<not> su_file s then (None, s)
      else (case enc (board_records (su_by s)) of
              None \<Rightarrow> (Some Err_Persist, s)
            | Some f \<Rightarrow> if written then (None, s\<lparr>su_disk := Some f\<rparr>) else (Some Err_Persist, s)))"

definition sup_put ::
  "(suppression list \<Rightarrow> 'f option) \<Rightarrow> bool \<Rightarrow> gotime \<Rightarrow> suppression \<Rightarrow> 'f sup_store \<Rightarrow>
     (suppress_error + suppression) \<times> 'f sup_store" where
  "sup_put enc written now r s =
     (case normalize_suppression now r of
        Inl err \<Rightarrow> (Inl err, s)
      | Inr r \<Rightarrow>
          (let s = s\<lparr>su_by := board_put r (su_by s)\<rparr>
           in case sup_persist enc written s of
                (Some err, s) \<Rightarrow> (Inl err, s)
              | (None, s) \<Rightarrow> (Inr r, s)))"

definition sup_delete ::
  "(suppression list \<Rightarrow> 'f option) \<Rightarrow> bool \<Rightarrow> string \<Rightarrow> string \<Rightarrow> 'f sup_store \<Rightarrow> suppress_error option \<times> 'f sup_store" where
  "sup_delete enc written tenant path s =
     (let t = suppress_tenant_key tenant;
          b = (case map_of (su_by s) t of
                 Some m \<Rightarrow> AList.update t (AList.delete path m) (su_by s)
               | None \<Rightarrow> su_by s)
      in sup_persist enc written (s\<lparr>su_by := b\<rparr>))"

definition sup_get :: "gotime \<Rightarrow> string \<Rightarrow> string \<Rightarrow> 'f sup_store \<Rightarrow> suppression option" where
  "sup_get now tenant path s =
     (case map_of (board_of (su_by s) (suppress_tenant_key tenant)) path of
        Some r \<Rightarrow> if sp_expired r now then None else Some r
      | None \<Rightarrow> None)"

definition newer_first :: "suppression \<Rightarrow> suppression \<Rightarrow> bool" where
  "newer_first x y =
     (if sp_created x \<noteq> sp_created y then sp_created x > sp_created y else str_less (sp_path x) (sp_path y))"

definition sup_list :: "string \<Rightarrow> 'f sup_store \<Rightarrow> suppression list" where
  "sup_list tenant s = sort_by newer_first (map snd (board_of (su_by s) (suppress_tenant_key tenant)))"

definition active_set :: "gotime \<Rightarrow> string \<Rightarrow> 'f sup_store \<Rightarrow> (string, suppression) gomap" where
  "active_set now tenant s = filter (\<lambda>(p, r). sp_active r now) (board_of (su_by s) (suppress_tenant_key tenant))"

section \<open>Loading\<close>

definition sup_load :: "('f \<Rightarrow> suppression list option) \<Rightarrow> 'f sup_store \<Rightarrow> suppress_error option \<times> 'f sup_store" where
  "sup_load dec s =
     (case su_disk s of
        None \<Rightarrow> (None, s)
      | Some f \<Rightarrow>
          (case dec f of
             None \<Rightarrow> (Some Err_Persist, s)
           | Some rs \<Rightarrow> (None, s\<lparr>su_by := fold board_put rs (su_by s)\<rparr>)))"

definition sup_open :: "('f \<Rightarrow> suppression list option) \<Rightarrow> bool \<Rightarrow> 'f option \<Rightarrow> suppress_error + 'f sup_store" where
  "sup_open dec file disk =
     (let s = \<lparr>su_file = file, su_by = [], su_disk = disk\<rparr>
      in if \<not> file then Inr s
         else (case sup_load dec s of (Some err, s) \<Rightarrow> Inl err | (None, s) \<Rightarrow> Inr s))"

section \<open>A board in order\<close>

definition row_ok :: "string \<Rightarrow> (string, suppression) gomap \<Rightarrow> bool" where
  "row_ok t m \<longleftrightarrow> gm_ok m \<and> (\<forall>p r. map_of m p = Some r \<longrightarrow> sp_tenant r = t \<and> sp_path r = p)"

definition board_ok :: "board \<Rightarrow> bool" where
  "board_ok b \<longleftrightarrow> gm_ok b \<and> (\<forall>t. row_ok t (board_of b t))"

lemma board_of_update: "board_of (AList.update t m b) u = (if u = t then m else board_of b u)"
  by (simp add: board_of_def map_of_update)

lemma board_okD:
  assumes "board_ok b"
  shows "gm_ok (board_of b t)" and "map_of (board_of b t) p = Some r \<Longrightarrow> sp_tenant r = t \<and> sp_path r = p"
  using assms unfolding board_ok_def row_ok_def by blast+

lemma board_ok_Nil [simp]: "board_ok []"
  by (simp add: board_ok_def board_of_def row_ok_def)

lemma board_ok_row: "board_ok b \<Longrightarrow> row_ok t m \<Longrightarrow> board_ok (AList.update t m b)"
  by (simp add: board_ok_def board_of_update)

lemma row_ok_update: "row_ok (sp_tenant r) m \<Longrightarrow> row_ok (sp_tenant r) (AList.update (sp_path r) r m)"
  unfolding row_ok_def by (auto simp: map_of_update split: if_splits)

lemma row_ok_delete: "row_ok t m \<Longrightarrow> row_ok t (AList.delete p m)"
  unfolding row_ok_def by (auto simp: map_of_delete split: if_splits)

lemma board_ok_put: "board_ok b \<Longrightarrow> board_ok (board_put r b)"
  unfolding board_put_def by (rule board_ok_row, assumption, rule row_ok_update) (simp add: board_ok_def)

lemma board_ok_puts: "board_ok b \<Longrightarrow> board_ok (fold board_put rs b)"
  by (induction rs arbitrary: b) (simp_all add: board_ok_put)

lemma board_ok_delete: "board_ok b \<Longrightarrow> map_of b t = Some m \<Longrightarrow> board_ok (AList.update t (AList.delete p m) b)"
  by (rule board_ok_row, assumption, rule row_ok_delete) (metis board_ok_def board_of_def option.case(2))

lemma map_of_board_put:
  "map_of (board_of (board_put r b) t) p = (if t = sp_tenant r \<and> p = sp_path r then Some r else map_of (board_of b t) p)"
  by (auto simp: board_put_def board_of_update map_of_update)

lemma map_of_board_puts:
  "map_of (board_of (fold board_put rs b) t) p =
     (if \<exists>r \<in> set rs. sp_tenant r = t \<and> sp_path r = p
      then Some (last (filter (\<lambda>r. sp_tenant r = t \<and> sp_path r = p) rs)) else map_of (board_of b t) p)"
  by (induction rs arbitrary: b) (auto simp: map_of_board_put filter_empty_conv)

lemma set_board_records: "board_ok b \<Longrightarrow> r \<in> set (board_records b) \<longleftrightarrow> map_of (board_of b (sp_tenant r)) (sp_path r) = Some r"
proof -
  assume ok: "board_ok b"
  have "r \<in> set (board_records b) \<longleftrightarrow> (\<exists>t m p. (t, m) \<in> set b \<and> (p, r) \<in> set m)"
    by (force simp: board_records_def)
  also have "\<dots> \<longleftrightarrow> (\<exists>t p. map_of (board_of b t) p = Some r)"
  proof
    assume "\<exists>t m p. (t, m) \<in> set b \<and> (p, r) \<in> set m"
    then obtain t m p where e: "(t, m) \<in> set b" "(p, r) \<in> set m" by blast
    then have m: "board_of b t = m" using ok by (auto simp: board_ok_def board_of_def gm_ok_in_set)
    then have "map_of (board_of b t) p = Some r" using e(2) board_okD(1) [OF ok, of t] by (simp add: gm_ok_in_set)
    then show "\<exists>t p. map_of (board_of b t) p = Some r" by blast
  next
    assume "\<exists>t p. map_of (board_of b t) p = Some r"
    then obtain t p where e: "map_of (board_of b t) p = Some r" by blast
    then obtain m where m: "map_of b t = Some m" "map_of m p = Some r" by (auto simp: board_of_def split: option.splits)
    then show "\<exists>t m p. (t, m) \<in> set b \<and> (p, r) \<in> set m" by (blast dest: map_of_SomeD)
  qed
  also have "\<dots> \<longleftrightarrow> map_of (board_of b (sp_tenant r)) (sp_path r) = Some r" using board_okD(2) [OF ok] by blast
  finally show ?thesis .
qed

text \<open>Loading what was saved gives every tenant its board back.\<close>

lemma load_saved:
  assumes ok: "board_ok b"
  shows "map_of (board_of (fold board_put (board_records b) []) t) p = map_of (board_of b t) p"
proof (cases "map_of (board_of b t) p")
  case None
  then have "\<not> (\<exists>r \<in> set (board_records b). sp_tenant r = t \<and> sp_path r = p)" using set_board_records [OF ok] by auto
  then have "map_of (board_of (fold board_put (board_records b) []) t) p = map_of (board_of [] t) p"
    unfolding map_of_board_puts by (rule if_not_P)
  then show ?thesis using None by (simp add: board_of_def)
next
  case (Some r)
  then have r: "sp_tenant r = t" "sp_path r = p" using board_okD(2) [OF ok] by auto
  then have "r \<in> set (board_records b)" using set_board_records [OF ok] Some by simp
  have only: "x = r" if "x \<in> set (board_records b)" "sp_tenant x = t" "sp_path x = p" for x
    using set_board_records [OF ok, of x] that Some by simp
  let ?F = "filter (\<lambda>r. sp_tenant r = t \<and> sp_path r = p) (board_records b)"
  have "r \<in> set ?F" using r \<open>r \<in> set (board_records b)\<close> by simp
  then have "last ?F \<in> set ?F" by (intro last_in_set) (metis empty_iff list.set(1))
  then have "last ?F = r" using only by simp
  moreover have "map_of (board_of (fold board_put (board_records b) []) t) p = Some (last ?F)"
    unfolding map_of_board_puts by (rule if_P) (use r \<open>r \<in> set (board_records b)\<close> in blast)
  ultimately show ?thesis using Some by simp
qed

lemma newer_first_weak: "strict_weak newer_first"
proof -
  have eq: "newer_first = (\<lambda>x y. sp_created x > sp_created y \<or> (sp_created x = sp_created y \<and> str_less (sp_path x) (sp_path y)))"
    by (auto simp: newer_first_def fun_eq_iff)
  show ?thesis unfolding eq by (rule strict_weak_lex_desc [OF strict_weak_str])
qed

lemma mset_values: "gm_ok m \<Longrightarrow> gm_ok m' \<Longrightarrow> map_of m = map_of m' \<Longrightarrow> mset (map snd m) = mset (map snd m')"
proof -
  assume a: "gm_ok m" "gm_ok m'" "map_of m = map_of m'"
  have "set m = set m'" using a by (auto simp: gm_ok_in_set)
  moreover have "distinct m" "distinct m'" using a by (auto simp: gm_ok_def distinct_map)
  ultimately have "mset m = mset m'" by (metis mset_set_set)
  then show ?thesis by simp
qed

lemma same_board_list:
  assumes ok: "board_ok (su_by s)" "board_ok (su_by s')"
    and eq: "\<And>t. map_of (board_of (su_by s') t) = map_of (board_of (su_by s) t)"
  shows "sup_list t s' = sup_list t s"
  unfolding sup_list_def
proof (rule sort_by_unique [OF newer_first_weak])
  let ?t = "suppress_tenant_key t"
  show "mset (map snd (board_of (su_by s') ?t)) = mset (map snd (board_of (su_by s) ?t))"
    using mset_values [OF board_okD(1) [OF ok(2)] board_okD(1) [OF ok(1)] eq] .
  show "x = y \<or> newer_first x y \<or> newer_first y x"
    if "x \<in> set (map snd (board_of (su_by s') ?t))" "y \<in> set (map snd (board_of (su_by s') ?t))" for x y
  proof -
    obtain p q where "map_of (board_of (su_by s') ?t) p = Some x" "map_of (board_of (su_by s') ?t) q = Some y"
      using \<open>x \<in> _\<close> \<open>y \<in> _\<close> board_okD(1) [OF ok(2)] by (auto simp: gm_ok_in_set)
    then have "sp_path x = p" "sp_path y = q" and "p = q \<longrightarrow> x = y" using board_okD(2) [OF ok(2)] by auto
    then show ?thesis using str_less_total [of "sp_path x" "sp_path y"] by (auto simp: newer_first_def)
  qed
qed

section \<open>Histories\<close>

inductive sup_step :: "(suppression list \<Rightarrow> 'f option) \<Rightarrow> ('f \<Rightarrow> suppression list option) \<Rightarrow> 'f sup_store \<Rightarrow> 'f sup_store \<Rightarrow> bool"
  for enc dec where
  sup_put_step: "sup_put enc written now r s = (out, s') \<Longrightarrow> sup_step enc dec s s'"
| sup_delete_step: "sup_delete enc written t p s = (out, s') \<Longrightarrow> sup_step enc dec s s'"
| sup_restart: "sup_open dec (su_file s) (su_disk s) = Inr s' \<Longrightarrow> sup_step enc dec s s'"

inductive_cases sup_stepE: "sup_step enc dec s s'"

lemma sup_persist_by [simp]: "su_by (snd (sup_persist enc written s)) = su_by s"
  by (simp add: sup_persist_def split: option.split)

lemma sup_put_by:
  "sup_put enc written now r s = (out, s') \<Longrightarrow> su_by s' = su_by s \<or> (\<exists>r'. su_by s' = board_put r' (su_by s))"
proof -
  assume run: "sup_put enc written now r s = (out, s')"
  show ?thesis
  proof (cases "normalize_suppression now r")
    case (Inl e)
    then show ?thesis using run by (simp add: sup_put_def)
  next
    case (Inr r')
    obtain e s2 where p: "sup_persist enc written (s\<lparr>su_by := board_put r' (su_by s)\<rparr>) = (e, s2)" by (meson prod.exhaust)
    have "su_by s2 = board_put r' (su_by s)"
      using sup_persist_by [of enc written "s\<lparr>su_by := board_put r' (su_by s)\<rparr>"] p by simp
    moreover have "s' = s2" using run p Inr by (simp add: sup_put_def split: option.splits)
    ultimately show ?thesis by blast
  qed
qed

lemma sup_delete_by: "sup_delete enc written t p s = (out, s') \<Longrightarrow> board_ok (su_by s) \<Longrightarrow> board_ok (su_by s')"
proof -
  assume run: "sup_delete enc written t p s = (out, s')" and ok: "board_ok (su_by s)"
  let ?b = "case map_of (su_by s) (suppress_tenant_key t) of
      Some m \<Rightarrow> AList.update (suppress_tenant_key t) (AList.delete p m) (su_by s) | None \<Rightarrow> su_by s"
  have "sup_persist enc written (s\<lparr>su_by := ?b\<rparr>) = (out, s')" using run by (simp add: sup_delete_def Let_def)
  then have "su_by s' = ?b" using sup_persist_by [of enc written "s\<lparr>su_by := ?b\<rparr>"] by simp
  then show ?thesis using ok board_ok_delete by (auto split: option.split)
qed

lemma sup_open_ok: "sup_open dec file disk = Inr s \<Longrightarrow> board_ok (su_by s)"
  by (auto simp: sup_open_def sup_load_def Let_def board_ok_puts split: if_splits option.splits prod.splits)

lemma sup_step_ok: "sup_step enc dec s s' \<Longrightarrow> board_ok (su_by s) \<Longrightarrow> board_ok (su_by s')"
  by (erule sup_stepE) (use sup_put_by sup_delete_by sup_open_ok board_ok_put in metis)+

lemma sup_steps_ok: "(sup_step enc dec)\<^sup>*\<^sup>* s s' \<Longrightarrow> board_ok (su_by s) \<Longrightarrow> board_ok (su_by s')"
  by (induction rule: rtranclp_induct) (blast intro: sup_step_ok)+

definition new_board :: "'f sup_store" where
  "new_board = \<lparr>su_file = True, su_by = [], su_disk = None\<rparr>"

text \<open>What was saved, read back: the same answers to \<open>Get\<close>, \<open>List\<close> and \<open>ActiveSet\<close>.\<close>

definition same_answers :: "'f sup_store \<Rightarrow> 'f sup_store \<Rightarrow> bool" where
  "same_answers s s' \<longleftrightarrow> (\<forall>t. sup_list t s = sup_list t s') \<and> (\<forall>now t p. sup_get now t p s = sup_get now t p s') \<and>
     (\<forall>now t. map_of (active_set now t s) = map_of (active_set now t s'))"

lemma reopen_same:
  fixes s s2 :: "'f sup_store"
  assumes ok: "board_ok (su_by s)" "board_ok (su_by s2)"
    and eq: "\<And>t p. map_of (board_of (su_by s2) t) p = map_of (board_of (su_by s) t) p"
  shows "same_answers s2 s"
  unfolding same_answers_def
proof (intro conjI allI)
  have m: "map_of (board_of (su_by s2) t) = map_of (board_of (su_by s) t)" for t using eq by (rule ext)
  show "sup_list t s2 = sup_list t s" for t by (rule same_board_list [OF ok m])
  show "sup_get now t p s2 = sup_get now t p s" for now t p by (simp add: sup_get_def m)
  show "map_of (active_set now t s2) = map_of (active_set now t s)" for now t
    using board_okD(1) [OF ok(1)] board_okD(1) [OF ok(2)] by (simp add: fun_eq_iff active_set_def map_of_filter_ok m)
qed

lemma saved_restarts:
  assumes codec: "dec f = Some (board_records (su_by s))" and ok: "board_ok (su_by s)"
  shows "\<exists>s2. sup_open dec True (Some f) = Inr s2 \<and> same_answers s2 s"
proof -
  let ?s2 = "\<lparr>su_file = True, su_by = fold board_put (board_records (su_by s)) [], su_disk = Some f\<rparr>"
  have "sup_open dec True (Some f) = Inr ?s2" by (simp add: sup_open_def sup_load_def codec)
  moreover have "same_answers ?s2 s"
    by (rule reopen_same [OF ok]) (simp_all add: board_ok_puts load_saved [OF ok])
  ultimately show ?thesis by blast
qed

text \<open>
  C24. A board survives its process: after any history of puts, deletes, writes that failed
  and restarts, when the last put is acknowledged the file it leaves opens to a store with
  the same answers for every tenant - every record listed, in the same order, the same
  suppressions in force at any instant.
\<close>

theorem suppressions_survive:
  assumes "(sup_step enc dec)\<^sup>*\<^sup>* new_board s" "su_file s"
    and "\<forall>rs f. enc rs = Some f \<longrightarrow> dec f = Some rs"
    and "sup_put enc written now r s = (Inr r', s')"
  shows "\<exists>f s2. su_disk s' = Some f \<and> sup_open dec True (su_disk s') = Inr s2 \<and> same_answers s2 s' \<and>
    map_of (board_of (su_by s') (sp_tenant r')) (sp_path r') = Some r'"
proof -
  have "board_ok (su_by s)" by (rule sup_steps_ok [OF assms(1)]) (simp add: new_board_def)
  then have ok: "board_ok (su_by s')" using sup_put_by [OF assms(4)] board_ok_put by auto
  have n: "normalize_suppression now r = Inr r'"
    and p: "sup_persist enc written (s\<lparr>su_by := board_put r' (su_by s)\<rparr>) = (None, s')"
    using assms(4) by (auto simp: sup_put_def Let_def split: sum.splits prod.splits option.splits)
  then obtain f where f: "enc (board_records (board_put r' (su_by s))) = Some f" "s' = s\<lparr>su_by := board_put r' (su_by s), su_disk := Some f\<rparr>"
    using assms(2) by (auto simp: sup_persist_def split: option.splits if_splits)
  then have "dec f = Some (board_records (su_by s'))" using assms(3) by simp
  then have "\<exists>s2. sup_open dec True (Some f) = Inr s2 \<and> same_answers s2 s'"
    by (rule saved_restarts [where dec = dec and f = f and s = s']) (rule ok)
  then show ?thesis using f(2) by (simp add: map_of_board_put)
qed

definition demo_suppression :: suppression where
  "demo_suppression = \<lparr>sp_path = ''ap-1'', sp_tenant = [], sp_reason = ''accept-risk'', sp_owner = ''ana'', sp_note = [],
     sp_created = 0, sp_expires = Some 100\<rparr>"

lemma suppressions_survive_witness:
  "\<exists>s2. sup_open Some True (su_disk (snd (sup_put Some True 7 demo_suppression new_board))) = Inr s2 \<and>
     sup_get 50 [] ''ap-1'' s2 \<noteq> None \<and> sup_get 100 [] ''ap-1'' s2 = None"
proof -
  let ?p = "sup_put Some True 7 demo_suppression new_board"
  obtain out s' where r: "?p = (out, s')" by (cases ?p)
  have "\<exists>r'. fst ?p = Inr r'" by (simp add: sup_put_def normalize_suppression_def demo_suppression_def valid_reason_def valid_reasons_def
      sup_persist_def new_board_def)
  then obtain r' where "out = Inr r'" using r by auto
  then have r: "?p = (Inr r', s')" using r by simp
  have g: "sup_get 50 [] ''ap-1'' s' \<noteq> None" "sup_get 100 [] ''ap-1'' s' = None"
    using r by (auto simp: sup_put_def normalize_suppression_def demo_suppression_def valid_reason_def valid_reasons_def
      sup_persist_def new_board_def sup_get_def board_put_def board_of_def suppress_tenant_key_def sp_expired_def sp_active_def)
  obtain s2 where "sup_open Some True (su_disk s') = Inr s2" "same_answers s2 s'"
    using suppressions_survive [of Some Some new_board, OF _ _ _ r] by (auto simp: new_board_def)
  then show ?thesis using g r by (simp add: same_answers_def)
qed

end
