(* ===== verification/Scrub.thy ===== *)
theory Scrub
  imports PG_Prelude
begin

text \<open>
  The redaction of secrets at ingest, \<open>backend/internal/scrub/scrub.go\<close>: its seven patterns,
  the part of Go's \<open>regexp\<close> they use (leftmost, the earlier alternative and the longer run
  first), and \<open>ReplaceAllString\<close>. Texts are ASCII, where a character is a byte.
\<close>

section \<open>Patterns\<close>

text \<open>
  A literal, a literal under \<open>(?i)\<close>, a greedy run of a class, the word boundary, sequence
  and alternative.
\<close>

datatype rx =
  Word string
| Fold_Word string
| Run "char \<Rightarrow> bool" nat "nat option"
| Boundary
| Both rx rx
| Either rx rx

definition code_of :: "char \<Rightarrow> nat" where
  "code_of c = of_char c"

definition is_upper :: "char \<Rightarrow> bool" where
  "is_upper c \<longleftrightarrow> 65 \<le> code_of c \<and> code_of c \<le> 90"

definition is_digit :: "char \<Rightarrow> bool" where
  "is_digit c \<longleftrightarrow> 48 \<le> code_of c \<and> code_of c \<le> 57"

definition is_alnum :: "char \<Rightarrow> bool" where
  "is_alnum c \<longleftrightarrow> is_upper c \<or> is_digit c \<or> (97 \<le> code_of c \<and> code_of c \<le> 122)"

definition is_word :: "char \<Rightarrow> bool" where
  "is_word c \<longleftrightarrow> is_alnum c \<or> c = CHR ''_''"

definition rx_space :: "char \<Rightarrow> bool" where
  "rx_space c \<longleftrightarrow> code_of c \<in> {9, 10, 12, 13, 32}"

definition word_at :: "char option \<Rightarrow> bool" where
  "word_at p = (case p of Some c \<Rightarrow> is_word c | None \<Rightarrow> False)"

definition first_char :: "string \<Rightarrow> char option" where
  "first_char s = (case s of [] \<Rightarrow> None | c # _ \<Rightarrow> Some c)"

text \<open>The character before what is left after \<open>n\<close> more characters of \<open>s\<close>.\<close>

definition prev_after :: "nat \<Rightarrow> char option \<Rightarrow> string \<Rightarrow> char option" where
  "prev_after n p s = (if n = 0 \<or> s = [] then p else Some (last (take n s)))"

fun fold_prefix :: "string \<Rightarrow> string \<Rightarrow> bool" where
  "fold_prefix [] s = True"
| "fold_prefix (c # w) [] = False"
| "fold_prefix (c # w) (d # s) = (if lower_char d = c then fold_prefix w s else False)"

text \<open>The lengths a pattern matches at the head of a text, the preferred one first.\<close>

fun rx_ends :: "rx \<Rightarrow> char option \<Rightarrow> string \<Rightarrow> nat list" where
  "rx_ends (Word w) p s = (if prefix w s then [length w] else [])"
| "rx_ends (Fold_Word w) p s = (if fold_prefix w s then [length w] else [])"
| "rx_ends (Run cls lo hi) p s =
     (let n = length (takeWhile cls s); n = (case hi of Some h \<Rightarrow> min h n | None \<Rightarrow> n)
      in rev [lo ..< Suc n])"
| "rx_ends Boundary p s = (if word_at p \<noteq> word_at (first_char s) then [0] else [])"
| "rx_ends (Both a b) p s =
     concat (map (\<lambda>n. map (\<lambda>m. n + m) (rx_ends b (prev_after n p s) (drop n s))) (rx_ends a p s))"
| "rx_ends (Either a b) p s = rx_ends a p s @ rx_ends b p s"

text \<open>
  A pattern keeps the text of its first part (\<open>$1$2\<close>, empty for most) and masks the second.
\<close>

record secret_pattern =
  pt_kind :: string
  pt_keep :: rx
  pt_mask :: rx
  pt_marker :: string

definition marker :: "string \<Rightarrow> string" where
  "marker kind = ''***redacted:'' @ kind @ ''***''"

definition rx_first :: "secret_pattern \<Rightarrow> char option \<Rightarrow> string \<Rightarrow> (nat \<times> nat) option" where
  "rx_first pt p s =
     (case concat (map (\<lambda>k. map (\<lambda>m. (k, m)) (rx_ends (pt_mask pt) (prev_after k p s) (drop k s))) (rx_ends (pt_keep pt) p s)) of
        [] \<Rightarrow> None
      | km # _ \<Rightarrow> Some km)"

fun rx_seq :: "rx list \<Rightarrow> rx" where
  "rx_seq [] = Word []"
| "rx_seq [r] = r"
| "rx_seq (r # rs) = Both r (rx_seq rs)"

definition masked :: "string \<Rightarrow> rx list \<Rightarrow> secret_pattern" where
  "masked kind rs = \<lparr>pt_kind = kind, pt_keep = Word [], pt_mask = rx_seq rs, pt_marker = marker kind\<rparr>"

definition is_b64 :: "char \<Rightarrow> bool" where
  "is_b64 c \<longleftrightarrow> is_alnum c \<or> c = CHR ''_'' \<or> c = CHR ''-''"

definition secret_patterns :: "secret_pattern list" where
  "secret_patterns =
     [masked ''aws-access-key''
        [Boundary, Word ''A'', Run (\<lambda>c. c = CHR ''S'' \<or> c = CHR ''K'') 1 (Some 1), Word ''IA'',
         Run (\<lambda>c. is_digit c \<or> is_upper c) 16 (Some 16), Boundary],
      masked ''github-token''
        [Boundary, Word ''gh'', Run (\<lambda>c. c \<in> set ''posru'') 1 (Some 1), Word ''_'', Run is_alnum 36 None, Boundary],
      masked ''slack-token''
        [Boundary, Word ''xox'', Run (\<lambda>c. c \<in> set ''baprs'') 1 (Some 1), Word ''-'',
         Run (\<lambda>c. is_alnum c \<or> c = CHR ''-'') 10 None, Boundary],
      masked ''google-api-key'' [Boundary, Word ''AIza'', Run is_b64 35 (Some 35)],
      masked ''jwt''
        [Boundary, Word ''eyJ'', Run is_b64 8 None, Word ''.eyJ'', Run is_b64 8 None, Word ''.'', Run is_b64 8 None, Boundary],
      masked ''private-key''
        [Word ''-----BEGIN '', Run (\<lambda>c. is_upper c \<or> c = CHR '' '') 0 None, Word ''PRIVATE KEY-----''],
      \<lparr>pt_kind = ''secret-assignment'',
       pt_keep = Both
         (Either (Fold_Word ''password'') (Either (Fold_Word ''passwd'') (Either (Fold_Word ''secret'')
            (Either (rx_seq [Fold_Word ''api'', Run (\<lambda>c. c = CHR ''_'' \<or> c = CHR ''-'') 0 (Some 1), Fold_Word ''key''])
              (Either (rx_seq [Fold_Word ''access'', Run (\<lambda>c. c = CHR ''_'' \<or> c = CHR ''-'') 0 (Some 1), Fold_Word ''key''])
                (Fold_Word ''token''))))))
         (rx_seq [Run rx_space 0 None, Run (\<lambda>c. c = CHR '':'' \<or> c = CHR ''='') 1 (Some 1), Run rx_space 0 None,
                  Run (\<lambda>c. code_of c = 34) 0 (Some 1)]),
       pt_mask = Run (\<lambda>c. \<not> rx_space c \<and> code_of c \<noteq> 34 \<and> code_of c \<noteq> 39 \<and> code_of c \<noteq> 44) 8 None,
       pt_marker = marker ''secret''\<rparr>]"

section \<open>Redaction\<close>

text \<open>\<open>ReplaceAllString\<close>: left to right, no overlap, the boundaries read from the text as it was.\<close>

function rx_replace :: "secret_pattern \<Rightarrow> char option \<Rightarrow> string \<Rightarrow> bool \<times> string" where
  "rx_replace pt p [] = (False, [])"
| "rx_replace pt p (c # s) =
     (case rx_first pt p (c # s) of
        Some (k, m) \<Rightarrow>
          if 0 < k + m
          then (let (_, t) = rx_replace pt (prev_after (k + m) p (c # s)) (drop (k + m) (c # s))
                in (True, take k (c # s) @ pt_marker pt @ t))
          else (let (hit, t) = rx_replace pt (Some c) s in (hit, c # t))
      | None \<Rightarrow> (let (hit, t) = rx_replace pt (Some c) s in (hit, c # t)))"
  by pat_completeness auto
termination
  by (relation "measure (\<lambda>(pt, p, s). length s)") (auto simp: less_Suc_eq_le)

text \<open>One pattern after the other, each on what the earlier ones left.\<close>

fun redact_with :: "secret_pattern list \<Rightarrow> string \<Rightarrow> string list \<Rightarrow> string \<times> string list" where
  "redact_with [] s kinds = (s, kinds)"
| "redact_with (pt # pts) s kinds =
     (case rx_replace pt None s of
        (False, _) \<Rightarrow> redact_with pts s kinds
      | (True, t) \<Rightarrow> redact_with pts t (if pt_kind pt \<in> set kinds then kinds else kinds @ [pt_kind pt]))"

definition redact :: "string \<Rightarrow> string \<times> string list \<times> bool" where
  "redact s =
     (let (t, kinds) = redact_with secret_patterns s []
      in if kinds = [] then (s, [], False) else (t, sort_by str_less kinds, True))"

section \<open>What it leaves\<close>

lemma rx_replace_none: "fst (rx_replace pt p s) = False \<Longrightarrow> snd (rx_replace pt p s) = s"
proof (induction pt p s rule: rx_replace.induct)
  case (2 pt p c s)
  then show ?case by (auto simp: Let_def split: option.splits prod.splits if_splits)
qed simp

lemma redact_with_kinds: "redact_with pts s kinds = (t, kinds') \<Longrightarrow> set kinds \<subseteq> set kinds' \<and> (kinds' = [] \<longrightarrow> t = s)"
proof (induction pts arbitrary: s kinds)
  case (Cons pt pts)
  obtain hit u where r: "rx_replace pt None s = (hit, u)" by (cases "rx_replace pt None s")
  show ?case
  proof (cases hit)
    case True
    then have "redact_with pts u (if pt_kind pt \<in> set kinds then kinds else kinds @ [pt_kind pt]) = (t, kinds')"
      using Cons.prems r by simp
    from Cons.IH [OF this] show ?thesis by (auto split: if_splits)
  next
    case False
    then have "redact_with pts s kinds = (t, kinds')" using Cons.prems r by simp
    then show ?thesis by (rule Cons.IH)
  qed
qed simp

text \<open>A text in which nothing is found is handed back as it is.\<close>

lemma redact_not_found: "redact s = (t, kinds, False) \<Longrightarrow> t = s \<and> kinds = []"
  by (auto simp: redact_def split: prod.splits if_splits)

text \<open>
  One pass is not enough: a pattern without a closing boundary leaves its neighbour behind a
  marker, where the boundary the neighbour lacked appears. The text that comes out still holds
  an AWS access key id, which a second redaction would find.
\<close>

definition joined_keys :: string where
  "joined_keys = ''AIza'' @ replicate 35 (CHR ''x'') @ ''AKIA0123456789ABCDEF''"

definition once_redacted :: string where
  "once_redacted = ''***redacted:google-api-key***AKIA0123456789ABCDEF''"

lemma patterns_listed:
  "secret_patterns = map (\<lambda>i. secret_patterns ! i) [0, 1, 2, 3, 4, 5, 6]"
  by (simp add: secret_patterns_def)

lemma joined_before: "i \<in> {0, 1, 2} \<Longrightarrow> fst (rx_replace (secret_patterns ! i) None joined_keys) = False"
  by (elim insertE emptyE) (hypsubst, code_simp)+

lemma joined_google: "rx_replace (secret_patterns ! 3) None joined_keys = (True, once_redacted)"
  by code_simp

lemma joined_after: "i \<in> {4, 5} \<Longrightarrow> fst (rx_replace (secret_patterns ! i) None once_redacted) = False"
  by (elim insertE emptyE) (hypsubst, code_simp)+

lemma joined_last: "fst (rx_replace (secret_patterns ! 6) None once_redacted) = False"
  by code_simp

lemma redact_with_skip: "fst (rx_replace pt None s) = False \<Longrightarrow> redact_with (pt # pts) s kinds = redact_with pts s kinds"
  by (cases "rx_replace pt None s") simp

lemma redact_with_hit:
  "rx_replace pt None s = (True, t) \<Longrightarrow>
     redact_with (pt # pts) s kinds = redact_with pts t (if pt_kind pt \<in> set kinds then kinds else kinds @ [pt_kind pt])"
  by simp

lemma redact_leaves_neighbour:
  "redact joined_keys = (once_redacted, [''google-api-key''], True)"
  "fst (rx_replace (secret_patterns ! 0) None once_redacted)"
proof -
  have kind: "pt_kind (secret_patterns ! 3) = ''google-api-key''" by (simp add: secret_patterns_def masked_def)
  have "redact_with secret_patterns joined_keys [] = (once_redacted, [''google-api-key''])"
    by (subst patterns_listed)
      (simp add: redact_with_skip joined_before redact_with_hit [OF joined_google] joined_after joined_last kind
         del: redact_with.simps(2))
  then show "redact joined_keys = (once_redacted, [''google-api-key''], True)" by (simp add: redact_def)
  show "fst (rx_replace (secret_patterns ! 0) None once_redacted)" by code_simp
qed

end
