(* ===== verification/Tenants.thy ===== *)
theory Tenants
  imports Memory_Laws
begin

text \<open>
  One graph per tenant, \<open>backend/internal/graph/manager.go\<close>: how a tenant id is normalised,
  and the manager that owns a \<open>VersionedStore\<close> per tenant and creates it on first use. The
  factory is the parameter \<open>factory\<close>; a returned store is named by its tenant, which is how the
  manager's map shares it with whoever asked.
\<close>

section \<open>Tenant ids\<close>

abbreviation default_tenant :: string where "default_tenant \<equiv> ''default''"

text \<open>
  \<open>NormalizeTenant\<close> over UTF-8: a rune outside \<open>[a-z0-9_]\<close> gives one underscore, whatever the
  bytes it takes, and so does each byte that starts no rune.
\<close>

definition tenant_plain :: "char \<Rightarrow> bool" where
  "tenant_plain c \<longleftrightarrow> (let n = of_char c :: nat in (97 \<le> n \<and> n \<le> 122) \<or> (48 \<le> n \<and> n \<le> 57)) \<or> c = CHR ''_''"

definition continuation_byte :: "char \<Rightarrow> bool" where
  "continuation_byte c \<longleftrightarrow> (let n = of_char c :: nat in 0x80 \<le> n \<and> n < 0xC0)"

definition rune_rest :: "char \<Rightarrow> string \<Rightarrow> nat" where
  "rune_rest c s =
     (let n = of_char c :: nat;
          k = (if n < 0xC2 then 0 else if n < 0xE0 then 1 else if n < 0xF0 then 2 else if n < 0xF5 then 3 else 0)
      in if length s \<ge> k \<and> list_all continuation_byte (take k s) then k else 0)"

fun tenant_runes :: "string \<Rightarrow> string" where
  "tenant_runes [] = []"
| "tenant_runes (c # s) =
     (if tenant_plain c then c # tenant_runes s else CHR ''_'' # tenant_runes (drop (rune_rest c s) s))"

definition normalize_tenant :: "string \<Rightarrow> string" where
  "normalize_tenant t = (let t = to_lower (trim_space t) in if t = [] then default_tenant else tenant_runes t)"

lemma plain_facts: "tenant_plain c \<Longrightarrow> lower_char c = c \<and> \<not> is_space c"
  by (auto simp: tenant_plain_def lower_char_def is_space_def Let_def)

lemma runes_plain: "\<forall>c \<in> set s. tenant_plain c \<Longrightarrow> tenant_runes s = s"
  by (induction s) auto

lemma runes_are_plain: "c \<in> set (tenant_runes s) \<Longrightarrow> tenant_plain c"
  by (induction s rule: tenant_runes.induct) (auto simp: tenant_plain_def split: if_splits)

lemma dropWhile_none: "\<forall>c \<in> set s. \<not> P c \<Longrightarrow> dropWhile P s = s"
  by (cases s) auto

lemma normalize_plain: "\<forall>c \<in> set s. tenant_plain c \<Longrightarrow> s \<noteq> [] \<Longrightarrow> normalize_tenant s = s"
proof -
  assume p: "\<forall>c \<in> set s. tenant_plain c" and ne: "s \<noteq> []"
  have "trim_space s = s" using p plain_facts by (simp add: trim_space_def dropWhile_none)
  moreover have "to_lower s = s" using p plain_facts by (simp add: to_lower_def map_idI)
  ultimately show ?thesis using p ne by (simp add: normalize_tenant_def runes_plain)
qed

lemma normalize_is_plain: "c \<in> set (normalize_tenant t) \<Longrightarrow> tenant_plain c"
  using runes_are_plain by (auto simp: normalize_tenant_def Let_def tenant_plain_def split: if_splits)

lemma normalize_not_empty: "normalize_tenant t \<noteq> []"
  by (cases "to_lower (trim_space t)") (auto simp: normalize_tenant_def)

lemma normalize_idem: "normalize_tenant (normalize_tenant t) = normalize_tenant t"
  using normalize_plain normalize_is_plain normalize_not_empty by blast

section \<open>The manager\<close>

type_synonym 's stores = "(string, 's versioned) gomap"

text \<open>\<open>For\<close>: the tenant whose store is returned, or the factory's error.\<close>

definition manager_for :: "(string \<Rightarrow> store_error + 's) \<Rightarrow> string \<Rightarrow> 's stores \<Rightarrow> (store_error + string) \<times> 's stores" where
  "manager_for factory tenant m =
     (let t = normalize_tenant tenant
      in if gm_has m t then (Inr t, m)
         else (case factory t of
                 Inl err \<Rightarrow> (Inl err, m)
               | Inr s \<Rightarrow> (Inr t, AList.update t (s, 0) m)))"

definition manager_lookup :: "string \<Rightarrow> 's stores \<Rightarrow> 's versioned option" where
  "manager_lookup tenant m = map_of m (normalize_tenant tenant)"

definition manager_tenants :: "'s stores \<Rightarrow> string list" where
  "manager_tenants m = sort_by str_less (map fst m)"

definition new_manager :: "(string \<Rightarrow> store_error + 's) \<Rightarrow> store_error + 's stores" where
  "new_manager factory =
     (case manager_for factory default_tenant [] of (Inl err, _) \<Rightarrow> Inl err | (Inr _, m) \<Rightarrow> Inr m)"

text \<open>An operation on the store of a tenant, made if need be.\<close>

definition on_tenant ::
  "(string \<Rightarrow> store_error + 's) \<Rightarrow> string \<Rightarrow> 's versioned store_op \<Rightarrow> 's stores \<Rightarrow> store_error option \<times> 's stores" where
  "on_tenant factory tenant f m =
     (case manager_for factory tenant m of
        (Inl err, m) \<Rightarrow> (Some err, m)
      | (Inr t, m) \<Rightarrow>
          (case map_of m t of
             None \<Rightarrow> (None, m)
           | Some vs \<Rightarrow> (let (err, vs') = f vs in (err, AList.update t vs' m))))"

section \<open>What one tenant sees\<close>

text \<open>The store a tenant would get: the one it has, else the one the factory would make.\<close>

definition tenant_store :: "(string \<Rightarrow> store_error + 's) \<Rightarrow> string \<Rightarrow> 's stores \<Rightarrow> 's versioned option" where
  "tenant_store factory t m =
     (case map_of m t of
        Some vs \<Rightarrow> Some vs
      | None \<Rightarrow> (case factory t of Inl _ \<Rightarrow> None | Inr s \<Rightarrow> Some (s, 0)))"

lemma on_tenant_own:
  "tenant_store factory (normalize_tenant tenant) m = Some vs \<Longrightarrow>
     tenant_store factory (normalize_tenant tenant) (snd (on_tenant factory tenant f m)) = Some (snd (f vs)) \<and>
     fst (on_tenant factory tenant f m) = fst (f vs)"
  by (auto simp: tenant_store_def on_tenant_def manager_for_def Let_def gm_has_def map_of_update
      split: option.splits sum.splits prod.splits)

lemma on_tenant_other:
  "t \<noteq> normalize_tenant tenant \<Longrightarrow> map_of (snd (on_tenant factory tenant f m)) t = map_of m t"
  by (auto simp: on_tenant_def manager_for_def Let_def map_of_update split: option.splits sum.splits prod.splits)

lemma on_tenant_other_store:
  "t \<noteq> normalize_tenant tenant \<Longrightarrow> tenant_store factory t (snd (on_tenant factory tenant f m)) = tenant_store factory t m"
  by (simp add: tenant_store_def on_tenant_other)

lemma on_tenant_keys:
  "tenant_store factory (normalize_tenant tenant) m \<noteq> None \<Longrightarrow>
     set (map fst (snd (on_tenant factory tenant f m))) = insert (normalize_tenant tenant) (set (map fst m))"
  by (auto simp: tenant_store_def on_tenant_def manager_for_def Let_def gm_has_def map_of_update dom_update
      split: option.splits sum.splits prod.splits dest: map_of_SomeD simp flip: dom_map_of_conv_image_fst)

lemma gm_ok_on_tenant: "gm_ok m \<Longrightarrow> gm_ok (snd (on_tenant factory tenant f m))"
  by (auto simp: on_tenant_def manager_for_def Let_def split: option.splits sum.splits prod.splits)

text \<open>A list of operations, each for a tenant id: what the store of \<open>t\<close> goes through.\<close>

definition run_tenants :: "(string \<Rightarrow> store_error + 's) \<Rightarrow> (string \<times> 's versioned store_op) list \<Rightarrow> 's stores \<Rightarrow> 's stores" where
  "run_tenants factory = fold (\<lambda>(tenant, f) m. snd (on_tenant factory tenant f m))"

lemma run_tenants_isolated:
  "tenant_store factory t m = Some vs \<Longrightarrow>
     tenant_store factory t (run_tenants factory ops m) =
       Some (fold (\<lambda>(tenant, f) vs. snd (f vs)) (filter (\<lambda>(tenant, f). normalize_tenant tenant = t) ops) vs)"
proof (induction ops arbitrary: m vs)
  case Nil
  then show ?case by (simp add: run_tenants_def)
next
  case (Cons op ops)
  obtain tenant f where op: "op = (tenant, f)" by (cases op)
  show ?case
  proof (cases "normalize_tenant tenant = t")
    case True
    then have "tenant_store factory t (snd (on_tenant factory tenant f m)) = Some (snd (f vs))"
      using on_tenant_own Cons.prems by fastforce
    from Cons.IH [OF this] show ?thesis using op True by (simp add: run_tenants_def)
  next
    case False
    then have "tenant_store factory t (snd (on_tenant factory tenant f m)) = Some vs"
      using on_tenant_other_store Cons.prems by metis
    from Cons.IH [OF this] show ?thesis using op False by (simp add: run_tenants_def)
  qed
qed

text \<open>
  Ids that differ only in what normalisation replaces share a graph: \<open>a-b\<close> and \<open>a_b\<close> are one
  tenant.
\<close>

lemma tenants_collide: "normalize_tenant ''acme-eu'' = normalize_tenant ''ACME_EU'' \<and> ''acme-eu'' \<noteq> ''ACME_EU''"
  by code_simp

end
