(* ===== verification/Normalizer.thy ===== *)
theory Normalizer
  imports Scrub Tenants
begin

text \<open>
  The bus handler, \<open>backend/internal/normalization/resolver.go\<close> and \<open>sweep.go\<close>: image
  identities made canonical, the edges and crown jewels no tool reports inferred, exploit
  intelligence written over guesses (\<open>internal/threatintel\<close>), secrets redacted, and the event
  applied to its tenant's graph. Intelligence is the parameter \<open>scores\<close>, and the full-text
  index, which the graph never reads, is left out.
\<close>

section \<open>Image references\<close>

definition image_scope_prefix :: string where
  "image_scope_prefix = ''image:''"

definition registry_host :: "string \<Rightarrow> bool" where
  "registry_host h \<longleftrightarrow> str_contains h ''.'' \<or> str_contains h '':'' \<or> h = ''localhost''"

definition strip_registry :: "string \<Rightarrow> string" where
  "strip_registry ref =
     (case str_cut ref ''/'' of Some (h, rest) \<Rightarrow> if registry_host h then rest else ref | None \<Rightarrow> ref)"

definition strip_library :: "string \<Rightarrow> string" where
  "strip_library ref =
     (case cut_prefix ref ''library/'' of
        Some rest \<Rightarrow> if \<not> str_contains rest ''/'' then rest else ref
      | None \<Rightarrow> ref)"

definition normalize_image_ref :: "string \<Rightarrow> string" where
  "normalize_image_ref ref = strip_library (strip_registry (trim_space ref))"

definition image_scope :: "string \<Rightarrow> string" where
  "image_scope ref = image_scope_prefix @ normalize_image_ref ref"

definition canonical_scope :: "string \<Rightarrow> string" where
  "canonical_scope sc = (case cut_prefix sc image_scope_prefix of Some ref \<Rightarrow> image_scope ref | None \<Rightarrow> sc)"

definition image_match :: "string \<Rightarrow> string \<times> string \<times> real" where
  "image_match ref =
     (let key = normalize_image_ref ref
      in if str_contains ref ''@sha256:'' \<or> str_contains ref ''@sha512:'' then (key, ''digest'', 1)
         else if str_contains key '':'' then (key, ''tag'', 85/100)
         else (key, ''name'', 6/10))"

section \<open>Canonical ids\<close>

definition canon_id :: "node \<Rightarrow> string" where
  "canon_id n = (if n_label n = label_image then new_id label_image [normalize_image_ref (n_name n)] else n_id n)"

definition id_changes :: "node list \<Rightarrow> (string, string) gomap" where
  "id_changes ns = fold (\<lambda>n m. if canon_id n \<noteq> n_id n then AList.update (n_id n) (canon_id n) m else m) ns []"

definition id_changed :: "(string, string) gomap \<Rightarrow> string \<Rightarrow> string" where
  "id_changed m i = (case map_of m i of Some c \<Rightarrow> c | None \<Rightarrow> i)"

definition canonicalize :: "event \<Rightarrow> event" where
  "canonicalize ev =
     (let ev = (case ev_snapshot ev of
                  Some sn \<Rightarrow> ev\<lparr>ev_snapshot := Some (sn\<lparr>sd_scope := canonical_scope (sd_scope sn)\<rparr>)\<rparr>
                | None \<Rightarrow> ev);
          rw = id_changes (ev_nodes ev)
      in ev\<lparr>ev_nodes := map (\<lambda>n. n\<lparr>n_id := canon_id n\<rparr>) (ev_nodes ev),
            ev_edges := map (\<lambda>e. e\<lparr>e_from := id_changed rw (e_from e), e_to := id_changed rw (e_to e)\<rparr>) (ev_edges ev)\<rparr>)"

section \<open>The image a workload runs\<close>

definition has_node :: "node list \<Rightarrow> string \<Rightarrow> bool" where
  "has_node ns i \<longleftrightarrow> (\<exists>n \<in> set ns. n_id n = i)"

definition has_edge :: "edge list \<Rightarrow> edge_type \<Rightarrow> string \<Rightarrow> string \<Rightarrow> bool" where
  "has_edge es t src dst \<longleftrightarrow> (\<exists>e \<in> set es. e_type e = t \<and> e_from e = src \<and> e_to e = dst)"

definition runs_images :: "node \<Rightarrow> bool" where
  "runs_images n \<longleftrightarrow> n_label n = label_container \<or> n_label n = label_vm"

definition image_stub :: "string \<Rightarrow> node" where
  "image_stub ref =
     (let (key, method, conf) = image_match ref
      in \<lparr>n_id = new_id label_image [key], n_label = label_image, n_name = key,
          n_props = [(prop_resolution_method, GStr method), (prop_resolution_confidence, GFloat conf),
                     (''resolution_alias'', GStr ref)]\<rparr>)"

definition hosts_edge :: "node \<Rightarrow> string \<Rightarrow> edge" where
  "hosts_edge n ref =
     (let (key, method, conf) = image_match ref
      in \<lparr>e_type = edge_hosts, e_from = n_id n, e_to = new_id label_image [key], e_prob = 6/10 + 35/100 * conf,
          e_props = [(prop_resolution_method, GStr method), (prop_resolution_confidence, GFloat conf)]\<rparr>)"

definition infer_host :: "node \<Rightarrow> event \<Rightarrow> event" where
  "infer_host n ev =
     (let ref = as_string (pget (n_props n) prop_image_ref)
      in if \<not> runs_images n \<or> ref = [] then ev
         else (let s = image_stub ref; e = hosts_edge n ref;
                   ev = (if \<not> has_node (ev_nodes ev) (n_id s) then ev\<lparr>ev_nodes := ev_nodes ev @ [s]\<rparr> else ev)
               in if \<not> has_edge (ev_edges ev) edge_hosts (n_id n) (n_id s) then ev\<lparr>ev_edges := ev_edges ev @ [e]\<rparr> else ev))"

text \<open>The range runs over the nodes as they were when it began.\<close>

definition infer_image_hosts :: "event \<Rightarrow> event" where
  "infer_image_hosts ev = fold infer_host (ev_nodes ev) ev"

section \<open>Crown jewels\<close>

definition sensitive_classifications :: "string list" where
  "sensitive_classifications =
     [''pii'', ''phi'', ''pci'', ''financial'', ''cardholder'', ''secret'', ''credential'', ''sensitive'',
      ''confidential'', ''restricted'']"

definition crown_jewel_signals :: "string list" where
  "crown_jewel_signals =
     [''pii'', ''customer'', ''secret'', ''credential'', ''ssn'', ''payment'', ''financial'', ''patient'',
      ''billing'', ''sensitive'', ''cardholder'', ''private-key'']"

definition classify_jewel :: "node \<Rightarrow> node" where
  "classify_jewel n =
     (let cls = to_lower (trim_space (as_string (pget (n_props n) prop_classification)))
      in if cls = [] \<or> cls \<notin> set sensitive_classifications \<or> gm_has (n_props n) prop_crown_jewel then n
         else (let ps = AList.update prop_crown_jewel (GBool True) (n_props n)
               in n\<lparr>n_props := (if gm_has ps prop_crown_jewel_basis then ps
                               else AList.update prop_crown_jewel_basis (GStr (''classified:'' @ cls)) ps)\<rparr>))"

definition infer_jewel :: "node \<Rightarrow> node" where
  "infer_jewel n =
     (if (n_label n \<noteq> label_database \<and> n_label n \<noteq> label_bucket) \<or> gm_has (n_props n) prop_crown_jewel then n
      else (let hay = to_lower (n_name n @ '' '' @ n_id n)
            in case find (str_contains hay) crown_jewel_signals of
                 None \<Rightarrow> n
               | Some sig \<Rightarrow> n\<lparr>n_props := AList.update prop_crown_jewel_basis (GStr (''inferred:'' @ sig))
                                (AList.update prop_crown_jewel (GBool True) (n_props n))\<rparr>))"

definition classify_crown_jewels :: "event \<Rightarrow> event" where
  "classify_crown_jewels ev = ev\<lparr>ev_nodes := map classify_jewel (ev_nodes ev)\<rparr>"

definition infer_crown_jewels :: "event \<Rightarrow> event" where
  "infer_crown_jewels ev = ev\<lparr>ev_nodes := map infer_jewel (ev_nodes ev)\<rparr>"

section \<open>Exploit intelligence\<close>

record intel =
  in_epss :: real
  in_percentile :: real
  in_kev :: bool

text \<open>The exponent is 1 until \<open>SetTraversalGamma\<close> is called, and whenever it is given none.\<close>

definition set_traversal_gamma :: "real \<Rightarrow> real" where
  "set_traversal_gamma g = (if g \<le> 0 then 1 else g)"

definition traversal_from_epss :: "real \<Rightarrow> real \<Rightarrow> real" where
  "traversal_from_epss g epss =
     (if g = 1 then epss else (let p = epss powr g in if p < 0 then 0 else if p > 1 then 1 else p))"

definition edge_probability :: "real \<Rightarrow> intel \<Rightarrow> real \<Rightarrow> real" where
  "edge_probability g i fallback =
     (if in_kev i then (if in_epss i > 95/100 then in_epss i else 95/100)
      else if in_epss i > 0 then traversal_from_epss g (in_epss i)
      else fallback)"

definition intel_basis :: "intel \<Rightarrow> string" where
  "intel_basis i = (if in_kev i then ''kev'' else if in_epss i > 0 then ''epss'' else [])"

text \<open>A normalizer's settings; \<open>nz_scores\<close> is absent when the source is disabled.\<close>

record normalizer =
  nz_scores :: "(string list \<Rightarrow> (string, intel) gomap) option"
  nz_gamma :: real
  nz_scrub :: bool

definition cve_names :: "event \<Rightarrow> string list" where
  "cve_names ev = map n_name (filter (\<lambda>n. n_label n = label_cve \<and> n_name n \<noteq> []) (ev_nodes ev))"

definition intel_of :: "(string, intel) gomap \<Rightarrow> node \<Rightarrow> intel option" where
  "intel_of scores n = (if n_label n = label_cve then map_of scores (n_name n) else None)"

definition enrich_node :: "(string, intel) gomap \<Rightarrow> node \<Rightarrow> node" where
  "enrich_node scores n =
     (case intel_of scores n of
        None \<Rightarrow> n
      | Some i \<Rightarrow> n\<lparr>n_props := AList.update ''epss_percentile'' (GFloat (in_percentile i))
                    (AList.update ''epss'' (GFloat (in_epss i)) (AList.update prop_kev (GBool (in_kev i)) (n_props n)))\<rparr>)"

definition intel_by_id :: "(string, intel) gomap \<Rightarrow> node list \<Rightarrow> (string, intel) gomap" where
  "intel_by_id scores ns =
     fold (\<lambda>n m. case intel_of scores n of None \<Rightarrow> m | Some i \<Rightarrow> AList.update (n_id n) i m) ns []"

definition enrich_edge :: "real \<Rightarrow> (string, intel) gomap \<Rightarrow> edge \<Rightarrow> edge" where
  "enrich_edge g by_id e =
     (case map_of by_id (e_to e) of
        None \<Rightarrow> e
      | Some i \<Rightarrow>
          if e_type e \<noteq> edge_affects then e
          else (let e = e\<lparr>e_prob := edge_probability g i (e_prob e)\<rparr>
                in if intel_basis i = [] then e
                   else e\<lparr>e_props := AList.update prop_weight_basis (GStr (intel_basis i)) (e_props e)\<rparr>))"

definition enrich_threat_intel :: "normalizer \<Rightarrow> event \<Rightarrow> event" where
  "enrich_threat_intel nz ev =
     (case nz_scores nz of
        None \<Rightarrow> ev
      | Some f \<Rightarrow>
          if cve_names ev = [] then ev
          else (let scores = f (cve_names ev)
                in if scores = [] then ev
                   else ev\<lparr>ev_nodes := map (enrich_node scores) (ev_nodes ev),
                           ev_edges := map (enrich_edge (nz_gamma nz) (intel_by_id scores (ev_nodes ev))) (ev_edges ev)\<rparr>))"

section \<open>Secrets\<close>

definition scrub_value :: "gval \<Rightarrow> gval \<times> bool" where
  "scrub_value v =
     (case v of
        GStr s \<Rightarrow> (let (red, _, found) = redact s in if found then (GStr red, True) else (v, False))
      | _ \<Rightarrow> (v, False))"

definition scrub_props :: "props \<Rightarrow> bool \<times> props" where
  "scrub_props ps =
     (\<exists>(k, v) \<in> set ps. snd (scrub_value v), map (\<lambda>(k, v). (k, fst (scrub_value v))) ps)"

definition scrub_node :: "node \<Rightarrow> node" where
  "scrub_node n =
     (let (hit, ps) = scrub_props (n_props n)
      in n\<lparr>n_props := (if hit then AList.update ''secrets_scrubbed'' (GBool True) ps else ps)\<rparr>)"

definition scrub_sensitive :: "event \<Rightarrow> event" where
  "scrub_sensitive ev =
     ev\<lparr>ev_nodes := map scrub_node (ev_nodes ev),
        ev_edges := map (\<lambda>e. e\<lparr>e_props := snd (scrub_props (e_props e))\<rparr>) (ev_edges ev)\<rparr>"

section \<open>The handler\<close>

definition prepare_event :: "normalizer \<Rightarrow> event \<Rightarrow> event" where
  "prepare_event nz ev =
     (let ev = (if ev_snapshot ev \<noteq> None \<and> complete_snapshot ev = None then ev\<lparr>ev_snapshot := None\<rparr> else ev);
          ev = canonicalize ev;
          ev = infer_image_hosts ev;
          ev = classify_crown_jewels ev;
          ev = infer_crown_jewels ev;
          ev = enrich_threat_intel nz ev
      in if nz_scrub nz then scrub_sensitive ev else ev)"

definition versioned_caps :: "'s capabilities \<Rightarrow> 's versioned capabilities" where
  "versioned_caps st =
     \<lparr>cap_node = v_upsert_node st, cap_edge = v_upsert_edge st,
      cap_batch = Some (v_upsert_batch st), cap_from = Some (v_upsert_batch_from st)\<rparr>"

definition handle ::
  "(string \<Rightarrow> store_error + 's) \<Rightarrow> (gotime \<Rightarrow> 's capabilities) \<Rightarrow> normalizer \<Rightarrow> gotime \<Rightarrow> event \<Rightarrow> 's stores \<Rightarrow>
     store_error option \<times> 's stores" where
  "handle factory st nz now ev m =
     (let ev = prepare_event nz ev
      in on_tenant factory (normalize_tenant (ev_tenant ev)) (apply_event now (versioned_caps (st now)) ev) m)"

text \<open>\<open>Sweep\<close>, the omissions of a complete snapshot.\<close>

definition normalizer_sweep ::
  "(string \<Rightarrow> store_error + 's) \<Rightarrow>
     (string \<Rightarrow> string \<Rightarrow> gotime \<Rightarrow> 's \<Rightarrow> sweep_stats \<times> store_error option \<times> 's) option \<Rightarrow>
     string \<Rightarrow> string \<Rightarrow> string \<Rightarrow> gotime \<Rightarrow> 's stores \<Rightarrow> store_error option \<times> 's stores" where
  "normalizer_sweep factory sw tenant source sc taken m =
     on_tenant factory tenant
       (\<lambda>vs. let (_, err, vs') = v_sweep (map_option (\<lambda>f. f source (canonical_scope sc) taken) sw) vs in (err, vs')) m"

end

