(* ===== verification/Normalizer_Laws.thy ===== *)
theory Normalizer_Laws
  imports Normalizer
begin

text \<open>
  What the normalizer promises: no delivery touches another tenant's graph, which elements
  a graph ends with does not depend on the order or the number of deliveries, nor does what an
  element holds that every delivery writes alike, an image found
  under one spelling and run under another is one node, and every inferred crown jewel says
  why.
\<close>

section \<open>What preparation keeps\<close>

text \<open>The ids, labels and edge keys of an event: all that decides which elements land.\<close>

definition shape :: "event \<Rightarrow> (string \<times> label) list \<times> edge_key list" where
  "shape ev = (map (\<lambda>n. (n_id n, n_label n)) (ev_nodes ev), map edge_key (ev_edges ev))"

lemma shape_mapped:
  assumes "\<And>n. n_id (f n) = n_id n \<and> n_label (f n) = n_label n" "\<And>e. edge_key (g e) = edge_key e"
  shows "shape (ev\<lparr>ev_nodes := map f (ev_nodes ev), ev_edges := map g (ev_edges ev)\<rparr>) = shape ev"
  using assms by (simp add: shape_def)

lemma shape_mapped_nodes:
  assumes "\<And>n. n_id (f n) = n_id n \<and> n_label (f n) = n_label n"
  shows "shape (ev\<lparr>ev_nodes := map f (ev_nodes ev)\<rparr>) = shape ev"
  using assms by (simp add: shape_def)

lemma classify_jewel_shape: "n_id (classify_jewel n) = n_id n \<and> n_label (classify_jewel n) = n_label n"
  by (simp add: classify_jewel_def Let_def)

lemma infer_jewel_shape: "n_id (infer_jewel n) = n_id n \<and> n_label (infer_jewel n) = n_label n"
  by (simp add: infer_jewel_def Let_def split: option.split)

lemma enrich_node_shape: "n_id (enrich_node sc n) = n_id n \<and> n_label (enrich_node sc n) = n_label n"
  by (simp add: enrich_node_def split: option.split)

lemma enrich_edge_key: "edge_key (enrich_edge g m e) = edge_key e"
  by (simp add: enrich_edge_def edge_key_def Let_def split: option.split)

lemma scrub_node_shape: "n_id (scrub_node n) = n_id n \<and> n_label (scrub_node n) = n_label n"
  by (simp add: scrub_node_def split: prod.split)

lemma enrich_shape: "shape (enrich_threat_intel nz ev) = shape ev"
  by (simp add: enrich_threat_intel_def Let_def shape_mapped enrich_node_shape enrich_edge_key split: option.split)

lemma scrub_shape: "shape (scrub_sensitive ev) = shape ev"
  unfolding scrub_sensitive_def by (rule shape_mapped) (simp_all add: scrub_node_shape edge_key_def)

lemma canonicalize_snapshot: "shape (canonicalize (ev\<lparr>ev_snapshot := sn\<rparr>)) = shape (canonicalize ev)"
  by (simp add: canonicalize_def shape_def Let_def split: option.split)

lemma infer_host_cong:
  "shape ev = shape ev' \<Longrightarrow> shape (infer_host n ev) = shape (infer_host n ev')"
proof -
  assume a: "shape ev = shape ev'"
  have n: "map (\<lambda>n. (n_id n, n_label n)) (ev_nodes ev) = map (\<lambda>n. (n_id n, n_label n)) (ev_nodes ev')"
    and k: "map edge_key (ev_edges ev) = map edge_key (ev_edges ev')" using a by (simp_all add: shape_def)
  have "n_id ` set ns = fst ` set (map (\<lambda>n. (n_id n, n_label n)) ns)" for ns by (simp add: image_image)
  then have "n_id ` set (ev_nodes ev) = n_id ` set (ev_nodes ev')" using n by metis
  then have hn: "has_node (ev_nodes ev) i \<longleftrightarrow> has_node (ev_nodes ev') i" for i
    unfolding has_node_def by (metis image_iff)
  have "has_edge es t u v \<longleftrightarrow> Edge_Key t u v \<in> set (map edge_key es)" for es t u v
    by (auto simp: has_edge_def edge_key_def)
  then have he: "has_edge (ev_edges ev) t u v \<longleftrightarrow> has_edge (ev_edges ev') t u v" for t u v using k by metis
  let ?ref = "as_string (pget (n_props n) prop_image_ref)"
  show ?thesis
  proof (cases "\<not> runs_images n \<or> ?ref = []")
    case True
    then show ?thesis using a by (simp add: infer_host_def)
  next
    case False
    define s e where "s = image_stub ?ref" and "e = hosts_edge n ?ref"
    have step: "infer_host n x =
        (let x = (if \<not> has_node (ev_nodes x) (n_id s) then x\<lparr>ev_nodes := ev_nodes x @ [s]\<rparr> else x)
         in if \<not> has_edge (ev_edges x) edge_hosts (n_id n) (n_id s) then x\<lparr>ev_edges := ev_edges x @ [e]\<rparr> else x)" for x
      using False by (simp add: infer_host_def s_def e_def Let_def)
    have add: "shape (x\<lparr>ev_nodes := ev_nodes x @ [s]\<rparr>) = (fst (shape x) @ [(n_id s, n_label s)], snd (shape x))"
      "shape (x\<lparr>ev_edges := ev_edges x @ [e]\<rparr>) = (fst (shape x), snd (shape x) @ [edge_key e])"
      "shape (x\<lparr>ev_nodes := ev_nodes x @ [s], ev_edges := ev_edges x @ [e]\<rparr>) =
         (fst (shape x) @ [(n_id s, n_label s)], snd (shape x) @ [edge_key e])" for x
      by (simp_all add: shape_def)
    show ?thesis
      by (cases "has_node (ev_nodes ev') (n_id s)"; cases "has_edge (ev_edges ev') edge_hosts (n_id n) (n_id s)")
        (simp_all add: step hn he add a)
  qed
qed

lemma infer_hosts_shape: "shape ev = shape ev' \<Longrightarrow> shape (fold infer_host ns ev) = shape (fold infer_host ns ev')"
proof (induction ns arbitrary: ev ev')
  case (Cons n ns)
  show ?case using Cons.IH [OF infer_host_cong [OF Cons.prems]] by simp
qed simp

lemma prepare_shape: "shape (prepare_event nz ev) = shape (infer_image_hosts (canonicalize ev))"
proof -
  define ev1 where "ev1 = (if ev_snapshot ev \<noteq> None \<and> complete_snapshot ev = None then ev\<lparr>ev_snapshot := None\<rparr> else ev)"
  have n: "ev_nodes (canonicalize ev1) = ev_nodes (canonicalize ev)"
    and s: "shape (canonicalize ev1) = shape (canonicalize ev)"
    by (simp_all add: ev1_def canonicalize_snapshot) (simp add: canonicalize_def Let_def split: option.split)
  have "shape (prepare_event nz ev) = shape (infer_image_hosts (canonicalize ev1))"
    unfolding prepare_event_def Let_def ev1_def [symmetric]
    by (simp add: scrub_shape enrich_shape infer_crown_jewels_def classify_crown_jewels_def
        shape_mapped_nodes infer_jewel_shape classify_jewel_shape)
  also have "\<dots> = shape (infer_image_hosts (canonicalize ev))"
    unfolding infer_image_hosts_def n by (rule infer_hosts_shape [OF s])
  finally show ?thesis .
qed

lemma prepare_tenant: "ev_tenant (prepare_event nz ev) = ev_tenant ev"
proof -
  have h: "ev_tenant (fold infer_host ns x) = ev_tenant x" for ns x
    by (induction ns arbitrary: x) (simp_all add: infer_host_def Let_def)
  show ?thesis
    by (simp add: prepare_event_def Let_def scrub_sensitive_def enrich_threat_intel_def infer_crown_jewels_def
        classify_crown_jewels_def infer_image_hosts_def h canonicalize_def split: option.split)
qed

section \<open>The elements of an event\<close>

definition shape_ids :: "(string \<times> label) list \<times> edge_key list \<Rightarrow> string set" where
  "shape_ids sh = fst ` {x \<in> set (fst sh). is_valid_label (snd x)}"

definition shape_keys :: "(string \<times> label) list \<times> edge_key list \<Rightarrow> edge_key set" where
  "shape_keys sh = {k \<in> set (snd sh). is_valid_edge_type (ek_type k) \<and>
     (\<forall>x \<in> set (fst sh). \<not> is_valid_label (snd x) \<longrightarrow> fst x \<noteq> ek_from k \<and> fst x \<noteq> ek_to k)}"

lemma event_nodes_ids: "n_id ` set (event_nodes ts ev) = shape_ids (shape ev)"
proof -
  have "{x \<in> f ` S. P x} = f ` {n \<in> S. P (f n)}" for f :: "node \<Rightarrow> string \<times> label" and S P by blast
  then show ?thesis by (simp add: event_nodes_def shape_ids_def shape_def image_image)
qed

lemma event_edges_keys: "edge_key ` set (event_edges ts ev) = shape_keys (shape ev)"
proof -
  have k: "edge_key (e\<lparr>e_props := ps\<rparr>) = edge_key e" for e ps by (simp add: edge_key_def)
  have "edge_key ` set (event_edges ts ev) =
      edge_key ` {e \<in> set (ev_edges ev). is_valid_edge_type (e_type e) \<and> e_from e \<notin> dropped_ids ev \<and> e_to e \<notin> dropped_ids ev}"
    by (auto simp: event_edges_def image_image k)
  also have "\<dots> = shape_keys (shape ev)"
  proof -
    have d: "i \<in> dropped_ids ev \<longleftrightarrow> (\<exists>n \<in> set (ev_nodes ev). \<not> is_valid_label (n_label n) \<and> n_id n = i)" for i
      by (auto simp: dropped_ids_def)
    have c: "{x \<in> edge_key ` S. P x} = edge_key ` {e \<in> S. P (edge_key e)}" for S P by blast
    have "(is_valid_edge_type (e_type e) \<and> e_from e \<notin> dropped_ids ev \<and> e_to e \<notin> dropped_ids ev) \<longleftrightarrow>
        is_valid_edge_type (ek_type (edge_key e)) \<and>
        (\<forall>x \<in> set (fst (shape ev)). \<not> is_valid_label (snd x) \<longrightarrow> fst x \<noteq> ek_from (edge_key e) \<and> fst x \<noteq> ek_to (edge_key e))" for e
      by (auto simp: d shape_def)
    then show ?thesis unfolding shape_keys_def by (simp add: c) (simp add: shape_def c)
  qed
  finally show ?thesis .
qed

text \<open>What the event contributes, after the inferences that decide it.\<close>

definition elements_of :: "event \<Rightarrow> string set \<times> edge_key set" where
  "elements_of ev = (let sh = shape (infer_image_hosts (canonicalize ev)) in (shape_ids sh, shape_keys sh))"

section \<open>Messages\<close>

datatype message =
  Deliver normalizer gotime event
| Retract gotime string string string gotime

fun process ::
  "(string \<Rightarrow> store_error + 's) \<Rightarrow> (gotime \<Rightarrow> 's capabilities) \<Rightarrow>
     (gotime \<Rightarrow> (string \<Rightarrow> string \<Rightarrow> gotime \<Rightarrow> 's \<Rightarrow> sweep_stats \<times> store_error option \<times> 's) option) \<Rightarrow>
     message \<Rightarrow> 's stores \<Rightarrow> 's stores" where
  "process factory st sw (Deliver nz now ev) m = snd (handle factory st nz now ev m)"
| "process factory st sw (Retract now tenant source sc taken) m =
     snd (normalizer_sweep factory (sw now) tenant source sc taken m)"

text \<open>The tenant a message is for, and what it does to a store.\<close>

fun message_tenant :: "message \<Rightarrow> string" where
  "message_tenant (Deliver nz now ev) = normalize_tenant (ev_tenant ev)"
| "message_tenant (Retract now tenant source sc taken) = normalize_tenant tenant"

fun message_effect ::
  "(gotime \<Rightarrow> 's capabilities) \<Rightarrow>
     (gotime \<Rightarrow> (string \<Rightarrow> string \<Rightarrow> gotime \<Rightarrow> 's \<Rightarrow> sweep_stats \<times> store_error option \<times> 's) option) \<Rightarrow>
     message \<Rightarrow> 's versioned \<Rightarrow> 's versioned" where
  "message_effect st sw (Deliver nz now ev) vs = snd (apply_event now (versioned_caps (st now)) (prepare_event nz ev) vs)"
| "message_effect st sw (Retract now tenant source sc taken) vs =
     snd (snd (v_sweep (map_option (\<lambda>f. f source (canonical_scope sc) taken) (sw now)) vs))"

lemma process_effect:
  "process factory st sw msg m = snd (on_tenant factory (message_tenant msg) (\<lambda>vs. (None, message_effect st sw msg vs)) m)"
proof -
  have snd_op: "snd (on_tenant factory t f m) = snd (on_tenant factory t' (\<lambda>vs. (None, snd (f vs))) m)"
    if "normalize_tenant t = normalize_tenant t'" for t t' and f :: "'a versioned store_op"
    using that by (simp add: on_tenant_def manager_for_def Let_def split: option.split sum.split prod.split)
  show ?thesis
  proof (cases msg)
    case (Deliver nz now ev)
    then show ?thesis
      using snd_op [of "normalize_tenant (ev_tenant ev)" "normalize_tenant (ev_tenant ev)"]
      by (simp add: handle_def Let_def prepare_tenant)
  next
    case (Retract now tenant source sc taken)
    then show ?thesis
      using snd_op [of tenant "normalize_tenant tenant"]
      by (simp add: normalizer_sweep_def Let_def normalize_idem case_prod_beta)
  qed
qed

lemma message_tenant_normal: "normalize_tenant (message_tenant msg) = message_tenant msg"
  by (cases msg) (simp_all add: normalize_idem)

lemma tenant_store_missing:
  "tenant_store factory t m = None \<Longrightarrow> tenant_store factory t (snd (on_tenant factory tenant f m)) = None"
proof (cases "t = normalize_tenant tenant")
  case True
  assume "tenant_store factory t m = None"
  then show ?thesis using True
    by (auto simp: tenant_store_def on_tenant_def manager_for_def Let_def gm_has_def split: option.splits sum.splits)
next
  case False
  assume "tenant_store factory t m = None"
  then show ?thesis by (simp add: on_tenant_other_store [OF False])
qed

lemma processed_store:
  "tenant_store factory t (fold (process factory st sw) msgs m) =
     map_option (fold (message_effect st sw) (filter (\<lambda>msg. message_tenant msg = t) msgs)) (tenant_store factory t m)"
proof (induction msgs arbitrary: m)
  case Nil
  then show ?case by (simp add: option.map_id0 [unfolded id_def] id_def option.map_ident)
next
  case (Cons msg msgs)
  let ?m = "process factory st sw msg m"
  have "tenant_store factory t ?m =
      map_option (if message_tenant msg = t then message_effect st sw msg else (\<lambda>vs. vs)) (tenant_store factory t m)"
  proof (cases "tenant_store factory t m")
    case None
    then show ?thesis by (simp add: process_effect tenant_store_missing)
  next
    case (Some vs)
    then show ?thesis
      using on_tenant_own [of factory "message_tenant msg" m vs] on_tenant_other_store [of t "message_tenant msg" factory]
      by (auto simp: process_effect message_tenant_normal)
  qed
  then show ?case using Cons.IH [of ?m] by (simp add: option.map_comp o_def)
qed

section \<open>Deliveries to the in-memory graphs\<close>

definition mem_factory :: "string \<Rightarrow> store_error + mem_store" where
  "mem_factory t = Inr new_mem"

definition mem_sweeper ::
  "gotime \<Rightarrow> (string \<Rightarrow> string \<Rightarrow> gotime \<Rightarrow> mem_store \<Rightarrow> sweep_stats \<times> store_error option \<times> mem_store) option" where
  "mem_sweeper now = Some (ms_sweep now)"

record delivery =
  dv_by :: normalizer
  dv_at :: gotime
  dv_event :: event

definition deliver :: "delivery \<Rightarrow> message" where
  "deliver d = Deliver (dv_by d) (dv_at d) (dv_event d)"

definition deliver_all :: "delivery list \<Rightarrow> mem_store stores \<Rightarrow> mem_store stores" where
  "deliver_all ds = fold (process mem_factory mem_caps mem_sweeper) (map deliver ds)"

definition delivered :: "delivery \<Rightarrow> write_batch" where
  "delivered d =
     (let ev = prepare_event (dv_by d) (dv_event d); ts = event_ts (dv_at d) ev
      in \<lparr>wb_now = dv_at d, wb_nodes = event_nodes ts ev, wb_edges = event_edges ts ev, wb_from = Some (event_origin (dv_at d) ev)\<rparr>)"

text \<open>The node ids, edge keys and parked keys of a tenant's graph.\<close>

definition graph_elements :: "string \<Rightarrow> mem_store stores \<Rightarrow> string set \<times> edge_key set \<times> edge_key set" where
  "graph_elements t m =
     (case map_of m t of
        None \<Rightarrow> ({}, {}, {})
      | Some (s, _) \<Rightarrow> (dom (map_of (ms_nodes s)), dom (map_of (ms_edges s)), dom (map_of (ms_pending s))))"

definition graph_of :: "string \<Rightarrow> mem_store stores \<Rightarrow> mem_store" where
  "graph_of t m = (case map_of m t of None \<Rightarrow> new_mem | Some (s, _) \<Rightarrow> s)"

lemma graph_of_store: "tenant_store mem_factory t m = Some vs \<Longrightarrow> graph_of t m = fst vs"
  by (auto simp: graph_of_def tenant_store_def mem_factory_def split: option.splits)

lemma elements_of_store:
  "tenant_store mem_factory t m = Some (s, v) \<Longrightarrow>
     graph_elements t m = (dom (map_of (ms_nodes s)), dom (map_of (ms_edges s)), dom (map_of (ms_pending s)))"
  by (auto simp: graph_elements_def tenant_store_def mem_factory_def new_mem_def split: option.splits)

lemma deliver_batch:
  "fst (message_effect mem_caps mem_sweeper (deliver d) vs) =
     upsert_batch_locked (wb_now (delivered d)) (wb_nodes (delivered d)) (wb_edges (delivered d)) (wb_from (delivered d)) (fst vs)"
  by (simp add: deliver_def delivered_def apply_event_def versioned_caps_def v_upsert_batch_from_def mem_caps_def
      ms_upsert_batch_from_def Let_def)

lemma deliveries_batches:
  "fst (fold (message_effect mem_caps mem_sweeper) (map deliver ds) vs) = run_batches (map delivered ds) (fst vs)"
  unfolding run_batches_def by (induction ds arbitrary: vs) (simp_all add: deliver_batch)

definition of_tenant :: "string \<Rightarrow> delivery list \<Rightarrow> delivery list" where
  "of_tenant t ds = filter (\<lambda>d. normalize_tenant (ev_tenant (dv_event d)) = t) ds"

lemma delivered_elements:
  "(n_id ` set (wb_nodes (delivered d)), edge_key ` set (wb_edges (delivered d))) = elements_of (dv_event d)"
  by (simp add: delivered_def Let_def event_nodes_ids event_edges_keys elements_of_def prepare_shape)

lemma delivered_sets:
  "batch_ids (map delivered ds) = \<Union> ((\<lambda>d. fst (elements_of (dv_event d))) ` set ds)"
  "batch_keys (map delivered ds) = \<Union> ((\<lambda>d. snd (elements_of (dv_event d))) ` set ds)"
proof -
  have i: "n_id ` set (wb_nodes (delivered d)) = fst (elements_of (dv_event d))"
    and k: "edge_key ` set (wb_edges (delivered d)) = snd (elements_of (dv_event d))" for d
    by (simp_all flip: delivered_elements)
  show "batch_ids (map delivered ds) = \<Union> ((\<lambda>d. fst (elements_of (dv_event d))) ` set ds)"
    by (simp add: batch_ids_def image_UN i)
  show "batch_keys (map delivered ds) = \<Union> ((\<lambda>d. snd (elements_of (dv_event d))) ` set ds)"
    by (simp add: batch_keys_def image_UN k)
qed

text \<open>The graph of a tenant after deliveries close enough in time for nothing parked to expire.\<close>

definition in_time :: "delivery list \<Rightarrow> bool" where
  "in_time ds \<longleftrightarrow> (\<forall>d \<in> set ds. \<forall>d' \<in> set ds. dv_at d - dv_at d' \<le> pending_edge_ttl)"

lemma delivered_settled:
  assumes "in_time ds"
  shows "\<exists>s. tenant_store mem_factory t (deliver_all ds []) = Some s \<and>
     settled (batch_ids (map delivered (of_tenant t ds))) (batch_keys (map delivered (of_tenant t ds))) (fst s) \<and>
     told (map delivered (of_tenant t ds)) (fst s)"
proof -
  have close: "\<forall>b \<in> set (map delivered (of_tenant t ds)). \<forall>b' \<in> set (map delivered (of_tenant t ds)). wb_now b - wb_now b' \<le> pending_edge_ttl"
    using assms by (auto simp: in_time_def of_tenant_def delivered_def Let_def)
  have own: "filter (\<lambda>msg. message_tenant msg = t) (map deliver ds) = map deliver (of_tenant t ds)"
    by (simp add: of_tenant_def filter_map o_def deliver_def)
  have "tenant_store mem_factory t [] = Some (new_mem, 0)" by (simp add: tenant_store_def mem_factory_def)
  then have "tenant_store mem_factory t (deliver_all ds []) =
      Some (fold (message_effect mem_caps mem_sweeper) (map deliver (of_tenant t ds)) (new_mem, 0))"
    unfolding deliver_all_def processed_store own by simp
  moreover have "settled (batch_ids (map delivered (of_tenant t ds))) (batch_keys (map delivered (of_tenant t ds)))
      (run_batches (map delivered (of_tenant t ds)) new_mem)"
    by (rule batches_order_free [OF close])
  moreover note batches_contents [OF close]
  ultimately show ?thesis using deliveries_batches by simp
qed

lemma delivered_graph:
  assumes "in_time ds"
  shows "graph_elements t (deliver_all ds []) =
     (let ids = \<Union> ((\<lambda>d. fst (elements_of (dv_event d))) ` set (of_tenant t ds));
          ks = \<Union> ((\<lambda>d. snd (elements_of (dv_event d))) ` set (of_tenant t ds))
      in (ids, {k \<in> ks. both_in ids k}, {k \<in> ks. \<not> both_in ids k}))"
proof -
  obtain s where "tenant_store mem_factory t (deliver_all ds []) = Some s"
    and "settled (batch_ids (map delivered (of_tenant t ds))) (batch_keys (map delivered (of_tenant t ds))) (fst s)"
    using delivered_settled [OF assms] by blast
  then show ?thesis using elements_of_store [of t "deliver_all ds []" "fst s" "snd s"]
    by (simp add: settled_def delivered_sets Let_def)
qed

text \<open>What the deliveries to a tenant write for a node and for an edge.\<close>

definition said_nodes :: "string \<Rightarrow> delivery list \<Rightarrow> string \<Rightarrow> node set" where
  "said_nodes t ds i = {n. n_id n = i \<and> (\<exists>d \<in> set (of_tenant t ds). n \<in> set (wb_nodes (delivered d)))}"

definition said_edges :: "string \<Rightarrow> delivery list \<Rightarrow> edge_key \<Rightarrow> edge set" where
  "said_edges t ds k = {e. edge_key e = k \<and> (\<exists>d \<in> set (of_tenant t ds). e \<in> set (wb_edges (delivered d)))}"

lemma said_writes:
  "said_nodes t ds i = set (node_writes (map delivered (of_tenant t ds)) i)"
  "said_edges t ds k = set (edge_writes (map delivered (of_tenant t ds)) k)"
  by (auto simp: said_nodes_def said_edges_def node_writes_def edge_writes_def)

lemma delivered_props_ok: "n \<in> set (wb_nodes (delivered d)) \<Longrightarrow> gm_ok (n_props n)"
  by (auto simp: delivered_def Let_def event_nodes_def with_last_seen_def gm_ok_overlay)

lemma delivered_contents:
  fixes t :: string
  assumes "in_time ds"
  defines "g \<equiv> graph_of t (deliver_all ds [])"
  shows "said_nodes t ds i = {n} \<Longrightarrow> map_of (ms_nodes g) i = Some n"
    and "said_edges t ds k = {e} \<Longrightarrow>
      map_of (ms_edges g) k = (if both_in (fst (graph_elements t (deliver_all ds []))) k then Some e else None) \<and>
      parked_edge g k = (if both_in (fst (graph_elements t (deliver_all ds []))) k then None else Some e)"
proof -
  obtain s where s: "tenant_store mem_factory t (deliver_all ds []) = Some s"
    and b: "dom (map_of (ms_nodes (fst s))) = batch_ids (map delivered (of_tenant t ds))"
    and c: "told (map delivered (of_tenant t ds)) (fst s)"
    using delivered_settled [OF assms(1), of t] by (auto simp: settled_def)
  have g: "g = fst s" using graph_of_store [OF s] by (simp add: g_def)
  have ids: "fst (graph_elements t (deliver_all ds [])) = batch_ids (map delivered (of_tenant t ds))"
    using elements_of_store [of t _ "fst s" "snd s"] s b by simp
  show "said_nodes t ds i = {n} \<Longrightarrow> map_of (ms_nodes g) i = Some n"
  proof -
    assume n: "said_nodes t ds i = {n}"
    then have "gm_ok (n_props n)" using delivered_props_ok by (auto simp: said_nodes_def)
    then show ?thesis using told_agreed(1) [OF c, of i n] n by (simp add: g said_writes)
  qed
  show "said_edges t ds k = {e} \<Longrightarrow>
      map_of (ms_edges g) k = (if both_in (fst (graph_elements t (deliver_all ds []))) k then Some e else None) \<and>
      parked_edge g k = (if both_in (fst (graph_elements t (deliver_all ds []))) k then None else Some e)"
    using told_agreed(2) [OF c, of k e] by (simp add: g ids said_writes)
qed

text \<open>One normalizer writes an event that carries its time the same way at every delivery.\<close>

lemma prepare_observed: "ev_observed (prepare_event nz ev) = ev_observed ev"
proof -
  have h: "ev_observed (fold infer_host ns x) = ev_observed x" for ns x
    by (induction ns arbitrary: x) (simp_all add: infer_host_def Let_def)
  show ?thesis
    by (simp add: prepare_event_def Let_def scrub_sensitive_def enrich_threat_intel_def infer_crown_jewels_def
        classify_crown_jewels_def infer_image_hosts_def h canonicalize_def split: option.split)
qed

definition one_writer :: "delivery list \<Rightarrow> bool" where
  "one_writer ds \<longleftrightarrow> (\<forall>d \<in> set ds. ev_observed (dv_event d) \<noteq> zero_time \<and> (\<forall>d' \<in> set ds. dv_by d = dv_by d'))"

lemma delivered_same:
  "dv_by d = dv_by d' \<Longrightarrow> dv_event d = dv_event d' \<Longrightarrow> ev_observed (dv_event d) \<noteq> zero_time \<Longrightarrow>
     wb_nodes (delivered d) = wb_nodes (delivered d') \<and> wb_edges (delivered d) = wb_edges (delivered d')"
  by (simp add: delivered_def Let_def event_ts_def prepare_observed)

lemma said_same:
  assumes "one_writer (ds @ ds')" "dv_event ` set ds = dv_event ` set ds'"
  shows "said_nodes t ds = said_nodes t ds'" "said_edges t ds = said_edges t ds'"
proof -
  have d: "\<exists>d' \<in> set (of_tenant t ys). wb_nodes (delivered d) = wb_nodes (delivered d') \<and> wb_edges (delivered d) = wb_edges (delivered d')"
    if "d \<in> set (of_tenant t xs)" "dv_event ` set xs = dv_event ` set ys" "one_writer (xs @ ys)" for d xs ys
  proof -
    have "dv_event d \<in> dv_event ` set ys" using that(1,2) by (auto simp: of_tenant_def)
    then obtain d' where d': "d' \<in> set ys" "dv_event d' = dv_event d" by auto
    then have "wb_nodes (delivered d) = wb_nodes (delivered d') \<and> wb_edges (delivered d) = wb_edges (delivered d')"
      using that(1,3) by (intro delivered_same) (auto simp: of_tenant_def one_writer_def)
    then show ?thesis using d' that(1) by (auto simp: of_tenant_def)
  qed
  have w': "one_writer (ds' @ ds)" using assms(1) by (auto simp: one_writer_def)
  have "said_nodes t ds i = said_nodes t ds' i" for i
    using d [OF _ assms(2,1)] d [OF _ assms(2) [symmetric] w'] by (fastforce simp: said_nodes_def)
  then show "said_nodes t ds = said_nodes t ds'" by blast
  have "said_edges t ds k = said_edges t ds' k" for k
    using d [OF _ assms(2,1)] d [OF _ assms(2) [symmetric] w'] by (fastforce simp: said_edges_def)
  then show "said_edges t ds = said_edges t ds'" by blast
qed

lemma same_elements:
  assumes "in_time ds" "in_time ds'" "dv_event ` set ds = dv_event ` set ds'"
  shows "graph_elements t (deliver_all ds []) = graph_elements t (deliver_all ds' [])"
proof -
  have "dv_event ` set (of_tenant t xs) = {ev \<in> dv_event ` set xs. normalize_tenant (ev_tenant ev) = t}" for xs
    by (auto simp: of_tenant_def)
  then have e: "dv_event ` set (of_tenant t ds) = dv_event ` set (of_tenant t ds')" using assms(3) by simp
  have u: "\<Union> ((\<lambda>d. fst (elements_of (dv_event d))) ` S) = \<Union> (fst ` elements_of ` dv_event ` S)"
    "\<Union> ((\<lambda>d. snd (elements_of (dv_event d))) ` S) = \<Union> (snd ` elements_of ` dv_event ` S)" for S :: "delivery set"
    by (simp_all only: image_image)
  show ?thesis unfolding delivered_graph [OF assms(1)] delivered_graph [OF assms(2)] u e ..
qed

text \<open>Runs that write the same elements, each in one way, leave the same graph.\<close>

definition one_account :: "string \<Rightarrow> delivery list \<Rightarrow> bool" where
  "one_account t ds \<longleftrightarrow> (\<forall>i. \<forall>n \<in> said_nodes t ds i. said_nodes t ds i = {n}) \<and> (\<forall>k. \<forall>e \<in> said_edges t ds k. said_edges t ds k = {e})"

lemma same_said_same_graph:
  assumes "in_time ds" "in_time ds'" "one_account t ds"
    and said: "said_nodes t ds = said_nodes t ds'" "said_edges t ds = said_edges t ds'"
    and g: "g = graph_of t (deliver_all ds [])" "g' = graph_of t (deliver_all ds' [])"
  shows "map_of (ms_nodes g) = map_of (ms_nodes g') \<and> map_of (ms_edges g) = map_of (ms_edges g') \<and> parked_edge g = parked_edge g'"
proof -
  let ?bs = "map delivered (of_tenant t ds)" and ?bs' = "map delivered (of_tenant t ds')"
  have c: "told ?bs g" "told ?bs' g'"
    using delivered_settled [OF assms(1), of t] delivered_settled [OF assms(2), of t] graph_of_store g by fastforce+
  have "batch_ids (map delivered (of_tenant t xs)) = {i. said_nodes t xs i \<noteq> {}}" for xs
    by (auto simp: batch_ids_def said_nodes_def)
  then have ids: "batch_ids ?bs' = batch_ids ?bs" using said by simp
  have "map_of (ms_nodes g) i = map_of (ms_nodes g') i" for i
  proof (cases "said_nodes t ds i = {}")
    case True
    then have "said_nodes t ds' i = {}" using said(1) by simp
    then have "node_writes ?bs i = []" "node_writes ?bs' i = []" using True by (simp_all add: said_writes)
    then show ?thesis using c by (simp add: told_def)
  next
    case False
    then obtain n where "said_nodes t ds i = {n}" "said_nodes t ds' i = {n}" using assms(3) said(1) by (fastforce simp: one_account_def)
    then show ?thesis using delivered_contents(1) assms(1,2) g by simp
  qed
  moreover have "map_of (ms_edges g) k = map_of (ms_edges g') k \<and> parked_edge g k = parked_edge g' k" for k
  proof (cases "said_edges t ds k = {}")
    case True
    then have "said_edges t ds' k = {}" using said(2) by simp
    then have "edge_writes ?bs k = []" "edge_writes ?bs' k = []" using True by (simp_all add: said_writes)
    then show ?thesis using c by (simp add: told_def one_kind_def)
  next
    case False
    then obtain e where "said_edges t ds k = {e}" "said_edges t ds' k = {e}" using assms(3) said(2) by (fastforce simp: one_account_def)
    then show ?thesis using told_agreed(2) [OF c(1), of k e] told_agreed(2) [OF c(2), of k e] by (simp add: said_writes ids)
  qed
  ultimately show ?thesis by blast
qed

section \<open>The image a workload runs\<close>

lemma fold_infer_mono:
  "set (fst (shape ev)) \<subseteq> set (fst (shape (fold infer_host ns ev))) \<and>
   set (snd (shape ev)) \<subseteq> set (snd (shape (fold infer_host ns ev)))"
proof (induction ns arbitrary: ev)
  case (Cons n ns)
  have "set (fst (shape ev)) \<subseteq> set (fst (shape (infer_host n ev))) \<and> set (snd (shape ev)) \<subseteq> set (snd (shape (infer_host n ev)))"
    by (auto simp: infer_host_def Let_def shape_def)
  then show ?case using Cons.IH [of "infer_host n ev"] by auto
qed simp

definition image_node_id :: "string \<Rightarrow> string" where
  "image_node_id ref = new_id label_image [normalize_image_ref ref]"

lemma image_stub_id: "n_id (image_stub ref) = image_node_id ref" "n_label (image_stub ref) = label_image"
  by (simp_all add: image_stub_def image_match_def image_node_id_def Let_def)

lemma hosts_edge_key: "edge_key (hosts_edge n ref) = Edge_Key edge_hosts (n_id n) (image_node_id ref)"
  by (simp add: hosts_edge_def image_match_def image_node_id_def edge_key_def Let_def)

lemma infer_host_edge:
  assumes "runs_images n" "as_string (pget (n_props n) prop_image_ref) = ref" "ref \<noteq> []"
  shows "Edge_Key edge_hosts (n_id n) (image_node_id ref) \<in> set (snd (shape (infer_host n ev)))"
proof -
  define ev1 where "ev1 = (if \<not> has_node (ev_nodes ev) (n_id (image_stub ref)) then ev\<lparr>ev_nodes := ev_nodes ev @ [image_stub ref]\<rparr> else ev)"
  have step: "infer_host n ev = (if \<not> has_edge (ev_edges ev1) edge_hosts (n_id n) (image_node_id ref)
      then ev1\<lparr>ev_edges := ev_edges ev1 @ [hosts_edge n ref]\<rparr> else ev1)"
    using assms by (simp add: infer_host_def Let_def ev1_def image_stub_id)
  show ?thesis
  proof (cases "has_edge (ev_edges ev1) edge_hosts (n_id n) (image_node_id ref)")
    case True
    then obtain e where "e \<in> set (ev_edges ev1)" "edge_key e = Edge_Key edge_hosts (n_id n) (image_node_id ref)"
      by (auto simp: has_edge_def edge_key_def)
    then have "Edge_Key edge_hosts (n_id n) (image_node_id ref) \<in> edge_key ` set (ev_edges ev1)" by (metis imageI)
    then show ?thesis unfolding step using True by (simp add: shape_def)
  next
    case False
    then show ?thesis unfolding step by (simp add: shape_def hosts_edge_key)
  qed
qed

lemma inferred_edge:
  assumes "n \<in> set (ev_nodes ev)" "runs_images n" "as_string (pget (n_props n) prop_image_ref) = ref" "ref \<noteq> []"
  shows "Edge_Key edge_hosts (n_id n) (image_node_id ref) \<in> set (snd (shape (infer_image_hosts ev)))"
proof -
  have "Edge_Key edge_hosts (n_id n) (image_node_id ref) \<in> set (snd (shape (fold infer_host ns x)))" if "n \<in> set ns" for ns x
    using that
  proof (induction ns arbitrary: x)
    case (Cons m ns)
    then show ?case
      using infer_host_edge [OF assms(2-4), of x] fold_infer_mono [of "infer_host m x" ns] by auto
  qed simp
  then show ?thesis using assms(1) by (simp add: infer_image_hosts_def)
qed

text \<open>Preparing an event adds no label the vocabulary lacks.\<close>

definition all_valid :: "(string \<times> label) list \<times> edge_key list \<Rightarrow> bool" where
  "all_valid sh \<longleftrightarrow> (\<forall>x \<in> set (fst sh). is_valid_label (snd x)) \<and> (\<forall>k \<in> set (snd sh). is_valid_edge_type (ek_type k))"

lemma image_labels [simp]: "is_valid_label ''Image''" "is_valid_edge_type ''HOSTS''"
  by (simp_all add: is_valid_label_def valid_labels_def is_valid_edge_type_def valid_edge_types_def)

lemma infer_host_valid: "all_valid (shape ev) \<Longrightarrow> all_valid (shape (infer_host n ev))"
  by (auto simp: infer_host_def Let_def all_valid_def shape_def image_stub_id)
    (auto simp: hosts_edge_def Let_def image_match_def)

lemma fold_infer_valid: "all_valid (shape ev) \<Longrightarrow> all_valid (shape (fold infer_host ns ev))"
  by (induction ns arbitrary: ev) (auto simp: infer_host_valid)

lemma canonical_valid: "all_valid (shape ev) \<Longrightarrow> all_valid (shape (canonicalize ev))"
  by (auto simp: canonicalize_def all_valid_def shape_def Let_def split: option.split)

lemma vocabulary_valid: "validate_vocabulary ev = None \<Longrightarrow> all_valid (shape ev)"
proof -
  have n: "validate_nodes ns = None \<Longrightarrow> \<forall>m \<in> set ns. is_valid_label (n_label m)" for ns
    by (induction ns) (auto split: if_splits)
  have k: "validate_edges es = None \<Longrightarrow> \<forall>e \<in> set es. is_valid_edge_type (e_type e)" for es
    by (induction es) (auto split: if_splits)
  show "validate_vocabulary ev = None \<Longrightarrow> all_valid (shape ev)"
    using n [of "ev_nodes ev"] k [of "ev_edges ev"] by (auto simp: validate_vocabulary_def all_valid_def shape_def split: option.splits)
qed

lemma prepared_valid: "validate_vocabulary ev = None \<Longrightarrow> all_valid (shape (infer_image_hosts (canonicalize ev)))"
  unfolding infer_image_hosts_def by (intro fold_infer_valid canonical_valid vocabulary_valid)

lemma valid_elements:
  "all_valid sh \<Longrightarrow> shape_ids sh = fst ` set (fst sh) \<and> shape_keys sh = set (snd sh)"
  by (auto simp: all_valid_def shape_ids_def shape_keys_def)

text \<open>An image keeps the id its name gives it, a workload its own.\<close>

lemma canonical_node:
  "n \<in> set (ev_nodes ev) \<Longrightarrow> n\<lparr>n_id := canon_id n\<rparr> \<in> set (ev_nodes (canonicalize ev))"
  by (simp add: canonicalize_def Let_def split: option.split)

lemma image_element:
  assumes "validate_vocabulary ev = None" "im \<in> set (ev_nodes ev)" "n_label im = label_image"
  shows "image_node_id (n_name im) \<in> fst (elements_of ev)"
proof -
  have "(image_node_id (n_name im), label_image) \<in> set (fst (shape (canonicalize ev)))"
    using canonical_node [OF assms(2)] assms(3) by (force simp: shape_def canon_id_def image_node_id_def)
  then have "(image_node_id (n_name im), label_image) \<in> set (fst (shape (infer_image_hosts (canonicalize ev))))"
    using fold_infer_mono [of "canonicalize ev"] unfolding infer_image_hosts_def by blast
  then show ?thesis
    using valid_elements [OF prepared_valid [OF assms(1)]] by (force simp: elements_of_def Let_def)
qed

lemma workload_edge:
  assumes "validate_vocabulary ev = None" "n \<in> set (ev_nodes ev)" "runs_images n"
    and ref: "as_string (pget (n_props n) prop_image_ref) = ref" "ref \<noteq> []"
  shows "Edge_Key edge_hosts (n_id n) (image_node_id ref) \<in> snd (elements_of ev) \<and> n_id n \<in> fst (elements_of ev)"
proof -
  let ?n = "n\<lparr>n_id := canon_id n\<rparr>" and ?sh = "shape (infer_image_hosts (canonicalize ev))"
  have id: "canon_id n = n_id n" using assms(3) by (auto simp: canon_id_def runs_images_def)
  note m = canonical_node [OF assms(2)]
  have "Edge_Key edge_hosts (n_id ?n) (image_node_id ref) \<in> set (snd ?sh)"
    by (rule inferred_edge [OF m]) (use assms in \<open>simp_all add: runs_images_def\<close>)
  moreover have "(n_id n, n_label n) \<in> set (fst (shape (canonicalize ev)))" using m by (force simp: shape_def id)
  then have "(n_id n, n_label n) \<in> set (fst ?sh)"
    using fold_infer_mono [of "canonicalize ev"] unfolding infer_image_hosts_def by blast
  ultimately show ?thesis
    using valid_elements [OF prepared_valid [OF assms(1)]] by (force simp: elements_of_def Let_def id)
qed

section \<open>The properties\<close>

text \<open>
  C26. Tenants are isolated: whatever messages the bus delivers, in whatever order, the store
  a tenant ends with is the one that went through the messages whose tenant normalises to it,
  and no others. This holds of any store factory and any backend.
\<close>

theorem tenants_isolated:
  "tenant_store factory t (fold (process factory st sw) msgs m) =
     map_option (fold (message_effect st sw) (filter (\<lambda>msg. message_tenant msg = t) msgs)) (tenant_store factory t m)"
  by (rule processed_store)

text \<open>
  C25. The graph converges: two runs that deliver the same events, in any order, any number of
  times each, with every delivery of a run within the waiting time of a parked edge of every
  other, and with whatever intelligence and scrubbing was configured, leave every tenant with the
  same node ids, the same edge keys and the same keys waiting. A node, an edge or a waiting edge
  that every delivery of both runs writes alike ends as it was written in both; one that they
  write differently ends as its own writes order it, and is not claimed. One normalizer delivering
  events that carry their time writes the same elements in both runs.
\<close>

theorem pipeline_converges:
  assumes "in_time ds" "in_time ds'" "dv_event ` set ds = dv_event ` set ds'"
    and "m = deliver_all ds []" "m' = deliver_all ds' []"
  shows "graph_elements t m = graph_elements t m' \<and>
    (\<forall>i n. said_nodes t ds i = {n} \<and> said_nodes t ds' i = {n} \<longrightarrow>
      map_of (ms_nodes (graph_of t m)) i = Some n \<and> map_of (ms_nodes (graph_of t m')) i = Some n) \<and>
    (\<forall>k e. said_edges t ds k = {e} \<and> said_edges t ds' k = {e} \<longrightarrow>
      map_of (ms_edges (graph_of t m)) k = map_of (ms_edges (graph_of t m')) k \<and>
      parked_edge (graph_of t m) k = parked_edge (graph_of t m') k \<and>
      (map_of (ms_edges (graph_of t m)) k = Some e \<or> parked_edge (graph_of t m) k = Some e)) \<and>
    (one_writer (ds @ ds') \<longrightarrow> said_nodes t ds = said_nodes t ds' \<and> said_edges t ds = said_edges t ds')"
proof (intro conjI allI impI)
  show g: "graph_elements t m = graph_elements t m'" unfolding assms(4,5) by (rule same_elements [OF assms(1-3)])
  fix i n k e
  assume "said_edges t ds k = {e} \<and> said_edges t ds' k = {e}"
  then show "map_of (ms_edges (graph_of t m)) k = map_of (ms_edges (graph_of t m')) k"
    and "parked_edge (graph_of t m) k = parked_edge (graph_of t m') k"
    and "map_of (ms_edges (graph_of t m)) k = Some e \<or> parked_edge (graph_of t m) k = Some e"
    using delivered_contents(2) [OF assms(1), of t k e] delivered_contents(2) [OF assms(2), of t k e] g
    by (simp_all add: assms(4,5))
qed (use delivered_contents(1) said_same assms in simp_all)

definition quiet_normalizer :: normalizer where
  "quiet_normalizer = \<lparr>nz_scores = None, nz_gamma = 1, nz_scrub = False\<rparr>"

definition host_seen :: event where
  "host_seen = \<lparr>ev_source = ''scan'', ev_kind = ''asset'', ev_observed = 5, ev_tenant = ''Acme'', ev_nodes = [demo_host ''a''],
     ev_edges = [demo_link], ev_snapshot = None\<rparr>"

definition delivery_at :: "gotime \<Rightarrow> event \<Rightarrow> delivery" where
  "delivery_at now ev = \<lparr>dv_by = quiet_normalizer, dv_at = now, dv_event = ev\<rparr>"

lemma pipeline_converges_witness:
  "let m = deliver_all [delivery_at 5 host_seen, delivery_at 90 (host_seen\<lparr>ev_nodes := [demo_host ''b'']\<rparr>)] [];
       m' = deliver_all [delivery_at 7 (host_seen\<lparr>ev_nodes := [demo_host ''b'']\<rparr>), delivery_at 8 host_seen, delivery_at 11 host_seen] []
   in graph_elements ''acme'' m = graph_elements ''acme'' m' \<and>
     map_of (ms_edges (graph_of ''acme'' m)) (edge_key demo_link) = map_of (ms_edges (graph_of ''acme'' m')) (edge_key demo_link)"
proof -
  let ?ev = "host_seen\<lparr>ev_nodes := [demo_host ''b'']\<rparr>"
  let ?ds = "[delivery_at 5 host_seen, delivery_at 90 ?ev]" and ?ds' = "[delivery_at 7 ?ev, delivery_at 8 host_seen, delivery_at 11 host_seen]"
  have w: "wb_edges (delivered (delivery_at t host_seen)) = [demo_link\<lparr>e_props := [(prop_last_seen, GInt64 (time_unix 5))]\<rparr>]"
    "wb_edges (delivered (delivery_at t ?ev)) = [demo_link\<lparr>e_props := [(prop_last_seen, GInt64 (time_unix 5))]\<rparr>]" for t
    by code_simp+
  have n: "normalize_tenant (ev_tenant (dv_event (delivery_at t host_seen))) = ''acme''"
    "normalize_tenant (ev_tenant (dv_event (delivery_at t ?ev))) = ''acme''" for t by code_simp+
  have said: "said_edges ''acme'' ?ds (edge_key demo_link) = {demo_link\<lparr>e_props := [(prop_last_seen, GInt64 (time_unix 5))]\<rparr>}"
    "said_edges ''acme'' ?ds' (edge_key demo_link) = {demo_link\<lparr>e_props := [(prop_last_seen, GInt64 (time_unix 5))]\<rparr>}"
    by (auto simp: said_edges_def of_tenant_def w n edge_key_def)
  show ?thesis
    unfolding Let_def
    using pipeline_converges [of ?ds ?ds', OF _ _ _ refl refl, of "''acme''"] said
    by (auto simp: in_time_def delivery_at_def pending_edge_ttl_def second_ns_def)
qed

text \<open>
  An image is one node however it is spelled: when a scanner reports an image under one
  reference and a workload runs it under another that differs in the registry or in the
  implicit \<open>library/\<close>, the graph has the workload's edge to the scanner's node once both
  events are in, whichever came first.
\<close>

theorem image_join:
  assumes "in_time ds" "{d1, d2} \<subseteq> set ds"
    and "normalize_tenant (ev_tenant (dv_event d1)) = t" "normalize_tenant (ev_tenant (dv_event d2)) = t"
    and "validate_vocabulary (dv_event d1) = None" "validate_vocabulary (dv_event d2) = None"
    and "im \<in> set (ev_nodes (dv_event d1))" "n_label im = label_image"
    and "w \<in> set (ev_nodes (dv_event d2))" "runs_images w"
    and "as_string (pget (n_props w) prop_image_ref) = ref" "ref \<noteq> []"
    and "normalize_image_ref (n_name im) = normalize_image_ref ref"
  shows "(let (ids, keys, waiting) = graph_elements t (deliver_all ds [])
     in image_node_id (n_name im) \<in> ids \<and> Edge_Key edge_hosts (n_id w) (image_node_id (n_name im)) \<in> keys)"
proof -
  have d: "d1 \<in> set (of_tenant t ds)" "d2 \<in> set (of_tenant t ds)" using assms(2-4) by (auto simp: of_tenant_def)
  have i: "image_node_id (n_name im) \<in> fst (elements_of (dv_event d1))" by (rule image_element [OF assms(5,7,8)])
  have k: "Edge_Key edge_hosts (n_id w) (image_node_id (n_name im)) \<in> snd (elements_of (dv_event d2))"
    and w: "n_id w \<in> fst (elements_of (dv_event d2))"
    using workload_edge [OF assms(6,9,10,11,12)] assms(13) by (simp_all add: image_node_id_def)
  show ?thesis unfolding delivered_graph [OF assms(1)] Let_def prod.case using d i k w by (auto simp: both_in_def)
qed

text \<open>A registry in front of a reference does not change the image, nor does Docker Hub's \<open>library/\<close>.\<close>

lemma str_index_slash: "CHR ''/'' \<notin> set h \<Longrightarrow> str_index (h @ CHR ''/'' # r) ''/'' = Some (length h)"
  by (induction h) auto

lemma registry_dropped:
  assumes "registry_host h" "CHR ''/'' \<notin> set h" "trim_space (h @ ''/'' @ r) = h @ ''/'' @ r"
  shows "normalize_image_ref (h @ ''/'' @ r) = strip_library r"
  using assms by (simp add: normalize_image_ref_def strip_registry_def str_cut_def str_index_slash)

definition scanned_image :: event where
  "scanned_image = \<lparr>ev_source = ''trivy'', ev_kind = ''asset'', ev_observed = 5, ev_tenant = [],
     ev_nodes = [\<lparr>n_id = ''i'', n_label = ''Image'', n_name = ''docker.io/library/nginx:1.25'', n_props = []\<rparr>], ev_edges = [],
     ev_snapshot = None\<rparr>"

definition running_image :: event where
  "running_image = \<lparr>ev_source = ''k8s'', ev_kind = ''asset'', ev_observed = 6, ev_tenant = ''default'',
     ev_nodes = [\<lparr>n_id = ''c'', n_label = ''Container'', n_name = ''web'', n_props = [(''image_ref'', GStr ''nginx:1.25'')]\<rparr>],
     ev_edges = [], ev_snapshot = None\<rparr>"

lemma image_join_witness:
  "(let (ids, keys, waiting) = graph_elements ''default'' (deliver_all [delivery_at 9 running_image, delivery_at 5 scanned_image] [])
    in Edge_Key edge_hosts ''c'' (image_node_id ''docker.io/library/nginx:1.25'') \<in> keys)"
proof -
  let ?im = "\<lparr>n_id = ''i'', n_label = ''Image'', n_name = ''docker.io/library/nginx:1.25'', n_props = []\<rparr>"
  let ?w = "\<lparr>n_id = ''c'', n_label = ''Container'', n_name = ''web'', n_props = [(''image_ref'', GStr ''nginx:1.25'')]\<rparr>"
  have t: "normalize_tenant (ev_tenant scanned_image) = ''default''" "normalize_tenant (ev_tenant running_image) = ''default''"
    and v: "validate_vocabulary scanned_image = None" "validate_vocabulary running_image = None"
    and r: "normalize_image_ref ''docker.io/library/nginx:1.25'' = normalize_image_ref ''nginx:1.25''"
    by code_simp+
  show ?thesis
    using image_join [of "[delivery_at 9 running_image, delivery_at 5 scanned_image]" "delivery_at 5 scanned_image"
        "delivery_at 9 running_image" "''default''" ?im ?w "''nginx:1.25''"] t v r
    by (simp add: in_time_def delivery_at_def pending_edge_ttl_def second_ns_def scanned_image_def running_image_def runs_images_def
        pget_def Let_def split: prod.splits)
qed

section \<open>Crown jewels\<close>

lemma has_update [simp]: "gm_has (AList.update k v m) k' \<longleftrightarrow> k' = k \<or> gm_has m k'"
  by (simp add: gm_has_def map_of_update)

text \<open>
  Every crown jewel has an owner or a reason: a node its owner marked, either way, is left as
  it is, and one marked here carries a basis, for a sensitive classification or for the name
  of a data store.
\<close>

lemma jewel_explained:
  fixes n0 :: node
  defines "n \<equiv> infer_jewel (classify_jewel n0)"
  shows "gm_has (n_props n0) prop_crown_jewel \<Longrightarrow> n = n0"
    and "\<not> gm_has (n_props n0) prop_crown_jewel \<Longrightarrow> is_jewel n \<Longrightarrow> gm_has (n_props n) prop_crown_jewel_basis \<and>
        (to_lower (trim_space (as_string (pget (n_props n0) prop_classification))) \<in> set sensitive_classifications \<or>
         n_label n0 \<in> {label_database, label_bucket} \<and>
         (\<exists>sig \<in> set crown_jewel_signals. str_contains (to_lower (n_name n0 @ '' '' @ n_id n0)) sig))"
proof -
  show "gm_has (n_props n0) prop_crown_jewel \<Longrightarrow> n = n0"
    by (simp add: n_def classify_jewel_def infer_jewel_def Let_def)
  assume un: "\<not> gm_has (n_props n0) prop_crown_jewel" and j: "is_jewel n"
  have none: "\<not> is_jewel n0" using un by (auto simp: is_jewel_def node_bool_def gm_has_def pget_def)
  let ?cls = "to_lower (trim_space (as_string (pget (n_props n0) prop_classification)))"
  show "gm_has (n_props n) prop_crown_jewel_basis \<and>
        (?cls \<in> set sensitive_classifications \<or> n_label n0 \<in> {label_database, label_bucket} \<and>
         (\<exists>sig \<in> set crown_jewel_signals. str_contains (to_lower (n_name n0 @ '' '' @ n_id n0)) sig))"
  proof (cases "?cls = [] \<or> ?cls \<notin> set sensitive_classifications")
    case True
    then have "?cls = [] \<or> ?cls \<notin> set sensitive_classifications \<or> gm_has (n_props n0) prop_crown_jewel" by blast
    then have c: "classify_jewel n0 = n0" unfolding classify_jewel_def Let_def by (rule if_P)
    show ?thesis
    proof (cases "find (str_contains (to_lower (n_name n0 @ '' '' @ n_id n0))) crown_jewel_signals")
      case None
      then show ?thesis using j none by (simp add: n_def c infer_jewel_def Let_def split: if_splits)
    next
      case (Some sig)
      then have "sig \<in> set crown_jewel_signals" "str_contains (to_lower (n_name n0 @ '' '' @ n_id n0)) sig"
        by (auto simp: find_Some_iff)
      then show ?thesis using j none Some un by (auto simp: n_def c infer_jewel_def Let_def split: if_splits)
    qed
  next
    case False
    then show ?thesis using un by (simp add: n_def classify_jewel_def infer_jewel_def Let_def)
  qed
qed

end
