(* ===== verification/Sha256.thy ===== *)
theory Sha256
  imports Ontology
begin

text \<open>
  SHA-256 and HMAC over bytes, which Go's \<open>crypto\<close> packages provide to the access control:
  token hashes, fingerprints and request signatures. Padding and word assembly are those of
  SHA-1 in \<open>Ontology\<close>.
\<close>

text \<open>The round constants, in decimal.\<close>

definition sha256_k :: "u32 list" where
  "sha256_k =
     [1116352408, 1899447441, 3049323471, 3921009573, 961987163, 1508970993, 2453635748, 2870763221,
      3624381080, 310598401, 607225278, 1426881987, 1925078388, 2162078206, 2614888103, 3248222580,
      3835390401, 4022224774, 264347078, 604807628, 770255983, 1249150122, 1555081692, 1996064986,
      2554220882, 2821834349, 2952996808, 3210313671, 3336571891, 3584528711, 113926993, 338241895,
      666307205, 773529912, 1294757372, 1396182291, 1695183700, 1986661051, 2177026350, 2456956037,
      2730485921, 2820302411, 3259730800, 3345764771, 3516065817, 3600352804, 4094571909, 275423344,
      430227734, 506948616, 659060556, 883997877, 958139571, 1322822218, 1537002063, 1747873779,
      1955562222, 2024104815, 2227730452, 2361852424, 2428436474, 2756734187, 3204031479, 3329325298]"

definition small_sigma0 :: "u32 \<Rightarrow> u32" where
  "small_sigma0 w = word_rotr 7 w XOR word_rotr 18 w XOR drop_bit 3 w"

definition small_sigma1 :: "u32 \<Rightarrow> u32" where
  "small_sigma1 w = word_rotr 17 w XOR word_rotr 19 w XOR drop_bit 10 w"

fun sha256_schedule :: "nat \<Rightarrow> u32 list \<Rightarrow> u32 list" where
  "sha256_schedule 0 rw = rev rw"
| "sha256_schedule (Suc k) rw =
     sha256_schedule k ((small_sigma1 (rw ! 1) + rw ! 6 + small_sigma0 (rw ! 14) + rw ! 15) # rw)"

type_synonym sha256_state = "u32 \<times> u32 \<times> u32 \<times> u32 \<times> u32 \<times> u32 \<times> u32 \<times> u32"

fun sha256_rounds :: "(u32 \<times> u32) list \<Rightarrow> sha256_state \<Rightarrow> sha256_state" where
  "sha256_rounds [] st = st"
| "sha256_rounds ((k, w) # kws) (a, b, c, d, e, f, g, h) =
     (let t1 = h + (word_rotr 6 e XOR word_rotr 11 e XOR word_rotr 25 e) + ((e AND f) XOR (NOT e AND g)) + k + w;
          t2 = (word_rotr 2 a XOR word_rotr 13 a XOR word_rotr 22 a) + ((a AND b) XOR (a AND c) XOR (b AND c))
      in sha256_rounds kws (t1 + t2, a, b, c, d + t1, e, f, g))"

definition sha256_block :: "sha256_state \<Rightarrow> u32 list \<Rightarrow> sha256_state" where
  "sha256_block st ws =
     (let (a, b, c, d, e, f, g, h) = sha256_rounds (zip sha256_k (sha256_schedule 48 (rev ws))) st;
          (a0, b0, c0, d0, e0, f0, g0, h0) = st
      in (a0 + a, b0 + b, c0 + c, d0 + d, e0 + e, f0 + f, g0 + g, h0 + h))"

function sha256_blocks :: "sha256_state \<Rightarrow> u32 list \<Rightarrow> sha256_state" where
  "sha256_blocks st ws = (if ws = [] then st else sha256_blocks (sha256_block st (take 16 ws)) (drop 16 ws))"
  by pat_completeness auto
termination
  by (relation "measure (\<lambda>(st, ws). length ws)") auto

declare sha256_blocks.simps [simp del]

definition word_bytes :: "u32 \<Rightarrow> string" where
  "word_bytes w = map (\<lambda>i. char_of (unat (drop_bit (8 * (3 - i)) w AND 0xFF))) [0..<4]"

definition sha256 :: "string \<Rightarrow> string" where
  "sha256 s =
     (let (a, b, c, d, e, f, g, h) = sha256_blocks
            (0x6a09e667, 0xbb67ae85, 0x3c6ef372, 0xa54ff53a, 0x510e527f, 0x9b05688c, 0x1f83d9ab, 0x5be0cd19)
            (be_words (sha1_pad (map (\<lambda>ch. of_nat (of_char ch)) s)))
      in concat (map word_bytes [a, b, c, d, e, f, g, h]))"

definition hex_byte :: "char \<Rightarrow> string" where
  "hex_byte c = (let n = of_char c :: nat in [hex_digit (n div 16), hex_digit (n mod 16)])"

definition hex_encode :: "string \<Rightarrow> string" where
  "hex_encode s = concat (map hex_byte s)"

definition hex_value :: "char \<Rightarrow> nat option" where
  "hex_value c =
     (let n = of_char c :: nat
      in if 48 \<le> n \<and> n \<le> 57 then Some (n - 48)
         else if 97 \<le> n \<and> n \<le> 102 then Some (n - 87)
         else if 65 \<le> n \<and> n \<le> 70 then Some (n - 55) else None)"

fun hex_decode :: "string \<Rightarrow> string option" where
  "hex_decode [] = Some []"
| "hex_decode [c] = None"
| "hex_decode (c # d # s) =
     (case (hex_value c, hex_value d, hex_decode s) of
        (Some h, Some l, Some t) \<Rightarrow> Some (char_of (16 * h + l) # t)
      | _ \<Rightarrow> None)"

definition sha256_hex :: "string \<Rightarrow> string" where
  "sha256_hex s = hex_encode (sha256 s)"

definition xor_pad :: "nat \<Rightarrow> string \<Rightarrow> string" where
  "xor_pad p key = map (\<lambda>c. char_of (of_char c XOR p)) (key @ replicate (64 - length key) (char_of (0 :: nat)))"

definition hmac_sha256 :: "string \<Rightarrow> string \<Rightarrow> string" where
  "hmac_sha256 key msg =
     (let k = (if length key > 64 then sha256 key else key)
      in sha256 (xor_pad 0x5C k @ sha256 (xor_pad 0x36 k @ msg)))"

lemma hex_value_digit: "n < 16 \<Longrightarrow> hex_value (hex_digit n) = Some n"
  by (cases "n < 10") (simp_all add: hex_value_def hex_digit_def Let_def)

lemma hex_decode_encode: "hex_decode (hex_encode s) = Some s"
proof (induction s)
  case (Cons c s)
  have "of_char c div 16 < (16 :: nat)" by (simp add: less_mult_imp_div_less)
  then show ?case using Cons by (simp add: hex_encode_def hex_byte_def Let_def hex_value_digit)
qed (simp add: hex_encode_def)

lemma hex_encode_inj: "hex_encode s = hex_encode t \<Longrightarrow> s = t"
  using hex_decode_encode by (metis option.inject)

section \<open>Lengths and digits\<close>

lemma length_word_bytes [simp]: "length (word_bytes w) = 4"
  by (simp add: word_bytes_def)

lemma length_sha256: "length (sha256 s) = 32"
  by (simp add: sha256_def Let_def split: prod.split)

lemma length_hex_encode: "length (hex_encode s) = 2 * length s"
  by (induction s) (simp_all add: hex_encode_def hex_byte_def Let_def)

lemma length_sha256_hex: "length (sha256_hex s) = 64"
  by (simp add: sha256_hex_def length_hex_encode length_sha256)

definition hex_char :: "char \<Rightarrow> bool" where
  "hex_char c \<longleftrightarrow> c \<in> set ''0123456789abcdef''"

lemma hex_digit_chars: "list_all (\<lambda>n. hex_char (hex_digit n)) [0..<16]"
  by code_simp

lemma hex_digit_char: "n < 16 \<Longrightarrow> hex_char (hex_digit n)"
  using hex_digit_chars by (simp add: list_all_iff)

lemma hex_encode_chars: "c \<in> set (hex_encode s) \<Longrightarrow> hex_char c"
proof -
  have "hex_char d" if "d \<in> set (hex_byte x)" for d x
  proof -
    have "of_char x < (256 :: nat)" by simp
    then have "(of_char x :: nat) div 16 < 16" by linarith
    then show ?thesis using that hex_digit_char by (auto simp: hex_byte_def Let_def)
  qed
  then show "c \<in> set (hex_encode s) \<Longrightarrow> hex_char c" by (auto simp: hex_encode_def)
qed

end
