(* ===== verification/Secwatch.thy ===== *)
theory Secwatch
  imports PG_Prelude
begin

text \<open>
  The sliding-window detector of \<open>backend/internal/secwatch/secwatch.go\<close>, behind the
  brute-force lockout and the bulk-export alert: weighted events per key, one alert when a
  window fills, silence and lockout for a cooldown, and a bound on the keys tracked. The
  mutex makes each call one step; the clock and what the durable store says are arguments.
\<close>

section \<open>The watcher\<close>

record watcher =
  wa_threshold :: int
  wa_window :: int
  wa_cooldown :: int
  wa_events :: "(string, (gotime \<times> int) list) gomap"
  wa_alerts :: "(string, gotime) gomap"
  wa_max :: nat
  wa_swept :: gotime

definition default_max_keys :: nat where
  "default_max_keys = 50000"

definition new_watcher :: "int \<Rightarrow> int \<Rightarrow> int \<Rightarrow> gotime \<Rightarrow> watcher" where
  "new_watcher threshold window cooldown now =
     \<lparr>wa_threshold = threshold, wa_window = window, wa_cooldown = cooldown, wa_events = [], wa_alerts = [],
      wa_max = default_max_keys, wa_swept = now\<rparr>"

definition with_max_keys :: "int \<Rightarrow> watcher \<Rightarrow> watcher" where
  "with_max_keys n w = (if n > 0 then w\<lparr>wa_max := nat n\<rparr> else w)"

definition tracked_keys :: "watcher \<Rightarrow> nat" where
  "tracked_keys w = length (wa_events w)"

definition watcher_enabled :: "watcher \<Rightarrow> bool" where
  "watcher_enabled w \<longleftrightarrow> wa_threshold w > 0"

definition events_at :: "watcher \<Rightarrow> string \<Rightarrow> (gotime \<times> int) list" where
  "events_at w k = (case map_of (wa_events w) k of Some evs \<Rightarrow> evs | None \<Rightarrow> [])"

definition live_events :: "int \<Rightarrow> gotime \<Rightarrow> (gotime \<times> int) list \<Rightarrow> (gotime \<times> int) list" where
  "live_events window now = filter (\<lambda>(a, n). a > now - window)"

definition watcher_sweep :: "gotime \<Rightarrow> watcher \<Rightarrow> watcher" where
  "watcher_sweep now w =
     w\<lparr>wa_events := filter (\<lambda>(k, evs). live_events (wa_window w) now evs \<noteq> []) (wa_events w),
       wa_alerts := filter (\<lambda>(k, t). \<not> now - t \<ge> wa_cooldown w) (wa_alerts w),
       wa_swept := now\<rparr>"

text \<open>The least recently active keys go, with their alerts.\<close>

definition last_active :: "(gotime \<times> int) list \<Rightarrow> gotime" where
  "last_active evs = (if evs = [] then zero_time else fst (last evs))"

definition evict_oldest :: "nat \<Rightarrow> watcher \<Rightarrow> watcher" where
  "evict_oldest target w =
     (let all = sort_by (\<lambda>x y. snd x < snd y) (map (\<lambda>(k, evs). (k, last_active evs)) (wa_events w));
          gone = map fst (take (length all - target) all)
      in w\<lparr>wa_events := filter (\<lambda>(k, evs). k \<notin> set gone) (wa_events w),
           wa_alerts := filter (\<lambda>(k, t). k \<notin> set gone) (wa_alerts w)\<rparr>)"

definition bound_keys :: "gotime \<Rightarrow> watcher \<Rightarrow> watcher" where
  "bound_keys now w =
     (let w = (if now - wa_swept w \<ge> wa_window w then watcher_sweep now w else w)
      in if tracked_keys w > wa_max w
         then (let w = watcher_sweep now w
               in if tracked_keys w > wa_max w then evict_oldest (wa_max w * 3 div 4) w else w)
         else w)"

definition weight_of :: "(gotime \<times> int) list \<Rightarrow> int" where
  "weight_of evs = sum_list (map snd evs)"

text \<open>\<open>Observe\<close>: the alert raised, if any - its key, its count and the end of the lockout.\<close>

definition observe :: "gotime \<Rightarrow> string \<Rightarrow> int \<Rightarrow> watcher \<Rightarrow> (string \<times> int \<times> gotime) option \<times> watcher" where
  "observe now key n w =
     (if \<not> watcher_enabled w then (None, w)
      else (let n = (if n \<le> 0 then 1 else n);
                kept = live_events (wa_window w) now (events_at w key) @ [(now, n)];
                w = bound_keys now (w\<lparr>wa_events := AList.update key kept (wa_events w)\<rparr>);
                recent = (case map_of (wa_alerts w) key of Some t \<Rightarrow> now - t < wa_cooldown w | None \<Rightarrow> False)
            in if weight_of kept < wa_threshold w \<or> recent then (None, w)
               else (Some (key, weight_of kept, now + wa_cooldown w), w\<lparr>wa_alerts := AList.update key now (wa_alerts w)\<rparr>)))"

text \<open>\<open>Tripped\<close>, with the durable store's answer when there is one.\<close>

definition alerted :: "gotime \<Rightarrow> string \<Rightarrow> watcher \<Rightarrow> bool" where
  "alerted now key w \<longleftrightarrow> (case map_of (wa_alerts w) key of Some t \<Rightarrow> now - t < wa_cooldown w | None \<Rightarrow> False)"

definition tripped :: "(string \<Rightarrow> bool) option \<Rightarrow> gotime \<Rightarrow> string \<Rightarrow> watcher \<Rightarrow> bool" where
  "tripped durable now key w \<longleftrightarrow>
     watcher_enabled w \<and> (alerted now key w \<or> (case durable of Some locked \<Rightarrow> locked key | None \<Rightarrow> False))"

section \<open>One key by itself\<close>

text \<open>What the detector promises a key: the automaton that sees that key's events only.\<close>

type_synonym key_state = "(gotime \<times> int) list \<times> gotime option"

definition key_alerted :: "int \<Rightarrow> gotime \<Rightarrow> key_state \<Rightarrow> bool" where
  "key_alerted cooldown now ks \<longleftrightarrow> (case snd ks of Some t \<Rightarrow> now - t < cooldown | None \<Rightarrow> False)"

definition key_observe :: "int \<Rightarrow> int \<Rightarrow> int \<Rightarrow> gotime \<times> int \<Rightarrow> key_state \<Rightarrow> key_state" where
  "key_observe threshold window cooldown = (\<lambda>(now, n) ks.
     let kept = live_events window now (fst ks) @ [(now, if n \<le> 0 then 1 else n)]
     in (kept, if weight_of kept < threshold \<or> key_alerted cooldown now ks then snd ks else Some now))"

text \<open>The watcher agrees with a key's automaton from an instant on, up to what has expired.\<close>

definition agrees :: "watcher \<Rightarrow> gotime \<Rightarrow> string \<Rightarrow> key_state \<Rightarrow> bool" where
  "agrees w now k ks \<longleftrightarrow> live_events (wa_window w) now (events_at w k) = live_events (wa_window w) now (fst ks) \<and>
     (\<forall>t. now - t < wa_cooldown w \<longrightarrow> map_of (wa_alerts w) k = Some t \<longleftrightarrow> snd ks = Some t)"

lemma live_live: "now \<le> now' \<Longrightarrow> live_events window now' (live_events window now evs) = live_events window now' evs"
  unfolding live_events_def filter_filter by (rule filter_cong) auto

lemma agrees_later:
  assumes "agrees w now k ks" "now \<le> now'"
  shows "agrees w now' k ks"
  unfolding agrees_def
proof (intro conjI allI impI)
  show "live_events (wa_window w) now' (events_at w k) = live_events (wa_window w) now' (fst ks)"
    using assms unfolding agrees_def by (metis live_live)
  show "map_of (wa_alerts w) k = Some t \<longleftrightarrow> snd ks = Some t" if "now' - t < wa_cooldown w" for t
    using assms that unfolding agrees_def by auto
qed

lemma agrees_alerted: "agrees w now k ks \<Longrightarrow> alerted now k w \<longleftrightarrow> key_alerted (wa_cooldown w) now ks"
  unfolding agrees_def alerted_def key_alerted_def by (auto split: option.splits)

definition watcher_ok :: "watcher \<Rightarrow> bool" where
  "watcher_ok w \<longleftrightarrow> gm_ok (wa_events w) \<and> gm_ok (wa_alerts w)"

lemma sweep_fields [simp]:
  "wa_window (watcher_sweep now w) = wa_window w" "wa_cooldown (watcher_sweep now w) = wa_cooldown w"
  "wa_threshold (watcher_sweep now w) = wa_threshold w" "wa_max (watcher_sweep now w) = wa_max w"
  by (simp_all add: watcher_sweep_def)

lemma sweep_ok: "watcher_ok w \<Longrightarrow> watcher_ok (watcher_sweep now w)"
  by (simp add: watcher_ok_def watcher_sweep_def)

lemma agrees_sweep:
  assumes "watcher_ok w"
  shows "agrees (watcher_sweep now w) now k ks \<longleftrightarrow> agrees w now k ks"
proof -
  have e: "live_events (wa_window w) now (events_at (watcher_sweep now w) k) = live_events (wa_window w) now (events_at w k)"
    using assms by (auto simp: watcher_ok_def events_at_def watcher_sweep_def map_of_filter_ok live_events_def split: option.splits)
  have a: "now - t < wa_cooldown w \<Longrightarrow> map_of (wa_alerts (watcher_sweep now w)) k = Some t \<longleftrightarrow> map_of (wa_alerts w) k = Some t" for t
    using assms by (auto simp: watcher_ok_def watcher_sweep_def map_of_filter_ok split: option.splits)
  show ?thesis unfolding agrees_def using e a by simp
qed

end
