(* ===== verification/Auth.thy ===== *)
theory Auth
  imports Sha256 Secwatch
begin

text \<open>
  The two front doors, \<open>backend/internal/auth\<close>: roles and principals, static tokens, OIDC
  claims, anonymous reading, the role gate with its lockout (\<open>auth.go\<close>, \<open>jwt.go\<close>), and the
  signed ingest webhook with its replay window (\<open>hmac.go\<close>). Verifying a JWT - the JWKS and the
  \<open>golang-jwt\<close> package - is the parameter \<open>verify\<close>, which gives a token's claims; the caller's
  address is an argument, as the resolver is of the code.
\<close>

section \<open>Roles\<close>

datatype role = Role_None | Role_Viewer | Role_Operator | Role_Admin

instantiation role :: linorder
begin

definition role_rank :: "role \<Rightarrow> nat" where
  "role_rank r = (case r of Role_None \<Rightarrow> 0 | Role_Viewer \<Rightarrow> 1 | Role_Operator \<Rightarrow> 2 | Role_Admin \<Rightarrow> 3)"

definition less_eq_role :: "role \<Rightarrow> role \<Rightarrow> bool" where
  "r \<le> s \<longleftrightarrow> role_rank r \<le> role_rank s"

definition less_role :: "role \<Rightarrow> role \<Rightarrow> bool" where
  "r < s \<longleftrightarrow> role_rank r < role_rank s"

instance
  by standard (auto simp: less_eq_role_def less_role_def role_rank_def split: role.splits)

end

definition role_string :: "role \<Rightarrow> string" where
  "role_string r =
     (case r of Role_Viewer \<Rightarrow> ''viewer'' | Role_Operator \<Rightarrow> ''operator'' | Role_Admin \<Rightarrow> ''admin'' | Role_None \<Rightarrow> ''none'')"

definition parse_role :: "string \<Rightarrow> role option" where
  "parse_role s =
     (let s = to_lower (trim_space s)
      in if s = ''viewer'' then Some Role_Viewer
         else if s = ''operator'' then Some Role_Operator
         else if s = ''admin'' then Some Role_Admin
         else None)"

datatype group_error = Not_Group_Role string | Unknown_Role string string

fun parse_groups :: "string list \<Rightarrow> (string, role) gomap \<Rightarrow> group_error list \<Rightarrow> (string, role) gomap \<times> group_error list" where
  "parse_groups [] out errs = (out, errs)"
| "parse_groups (entry # rest) out errs =
     (let entry = trim_space entry
      in if entry = [] then parse_groups rest out errs
         else (let (g, r, ok) = (case str_cut entry ''='' of Some (g, r) \<Rightarrow> (g, r, True) | None \<Rightarrow> (entry, [], False));
                   g = trim_space g; r = trim_space r
               in if \<not> ok \<or> g = [] \<or> r = [] then parse_groups rest out (errs @ [Not_Group_Role entry])
                  else (case parse_role r of
                          None \<Rightarrow> parse_groups rest out (errs @ [Unknown_Role entry r])
                        | Some role \<Rightarrow> parse_groups rest (AList.update g role out) errs)))"

definition parse_group_roles :: "string \<Rightarrow> (string, role) gomap \<times> group_error list" where
  "parse_group_roles spec = parse_groups (split_on (CHR '','') spec) [] []"

record principal =
  pr_subject :: string
  pr_role :: role
  pr_tenant :: string
  pr_apps :: "string list"

abbreviation anonymous_subject :: string where "anonymous_subject \<equiv> ''anonymous''"
abbreviation auth_default_tenant :: string where "auth_default_tenant \<equiv> ''default''"

section \<open>Requests\<close>

record request =
  rq_method :: string
  rq_path :: string
  rq_query :: "(string, string list) gomap"
  rq_authorization :: string
  rq_body :: string
  rq_tenant :: string
  rq_sig_v1 :: string
  rq_sig_v2 :: string
  rq_timestamp :: string

definition bearer :: "request \<Rightarrow> string" where
  "bearer rq = (case cut_prefix (rq_authorization rq) ''Bearer '' of Some v \<Rightarrow> trim_space v | None \<Rightarrow> [])"

section \<open>Static tokens\<close>

record token_entry =
  te_hashed :: bool
  te_value :: string
  te_principal :: principal
  te_expiry :: gotime

text \<open>\<open>time.Parse("2006-01-02")\<close>: four, two and two digits, a day the month has.\<close>

definition leap_year :: "int \<Rightarrow> bool" where
  "leap_year y \<longleftrightarrow> y mod 4 = 0 \<and> (y mod 100 \<noteq> 0 \<or> y mod 400 = 0)"

definition month_days :: "int \<Rightarrow> nat \<Rightarrow> int" where
  "month_days y m = (if m = 2 \<and> leap_year y then 29 else [31, 28, 31, 30, 31, 30, 31, 31, 30, 31, 30, 31] ! (m - 1))"

definition day_number :: "int \<Rightarrow> nat \<Rightarrow> int \<Rightarrow> int" where
  "day_number y m d =
     365 * (y - 1) + (y - 1) div 4 - (y - 1) div 100 + (y - 1) div 400 + sum_list (map (month_days y) [1..<m]) + d - 1"

definition parse_date :: "string \<Rightarrow> gotime option" where
  "parse_date s =
     (if length s \<noteq> 10 \<or> s ! 4 \<noteq> CHR ''-'' \<or> s ! 7 \<noteq> CHR ''-'' then None
      else (case (digits_val 0 (take 4 s), digits_val 0 (take 2 (drop 5 s)), digits_val 0 (drop 8 s)) of
              (Some y, Some m, Some d) \<Rightarrow>
                if 1 \<le> m \<and> m \<le> 12 \<and> 1 \<le> d \<and> d \<le> month_days y (nat m)
                then Some (day_number y (nat m) d * 24 * 3600 * second_ns) else None
            | _ \<Rightarrow> None))"

definition fingerprint :: "string \<Rightarrow> string" where
  "fingerprint s = take 8 (sha256_hex s)"

text \<open>One entry of the specification; \<open>None\<close> is an entry that is skipped, with a warning or not.\<close>

definition token_of :: "string \<Rightarrow> token_entry option" where
  "token_of entry =
     (let entry = trim_space entry; parts = split_on (CHR '':'') entry; arg = (\<lambda>i. if length parts > i then parts ! i else [])
      in if entry = [] \<or> length parts < 2 \<or> hd parts = [] then None
         else (case parse_role (parts ! 1) of
                 None \<Rightarrow> None
               | Some role \<Rightarrow>
                   (let tenant = (if arg 2 \<noteq> [] then arg 2 else auth_default_tenant);
                        expiry = (if arg 3 \<noteq> [] then map_option (\<lambda>d. d + 24 * 3600 * second_ns) (parse_date (arg 3)) else Some zero_time);
                        apps = filter (\<lambda>a. a \<noteq> []) (map trim_space (split_on (CHR ''|'') (arg 4)));
                        (hashed, val) = (case cut_prefix (hd parts) ''sha256$'' of
                            Some h \<Rightarrow> (True, to_lower (trim_space h)) | None \<Rightarrow> (False, hd parts))
                    in case expiry of
                         None \<Rightarrow> None
                       | Some x \<Rightarrow> Some \<lparr>te_hashed = hashed, te_value = val,
                           te_principal = \<lparr>pr_subject = ''token:'' @ fingerprint val, pr_role = role, pr_tenant = tenant, pr_apps = apps\<rparr>,
                           te_expiry = x\<rparr>)))"

definition new_token_store :: "string \<Rightarrow> token_entry list" where
  "new_token_store spec = List.map_filter token_of (split_on (CHR '','') spec)"

definition token_matches :: "gotime \<Rightarrow> string \<Rightarrow> token_entry \<Rightarrow> bool" where
  "token_matches now provided e \<longleftrightarrow>
     (if te_hashed e then sha256_hex provided else provided) = te_value e \<and> (te_expiry e = zero_time \<or> now < te_expiry e)"

text \<open>Every entry is compared; the last that matches is the answer.\<close>

definition token_authenticate :: "gotime \<Rightarrow> token_entry list \<Rightarrow> request \<Rightarrow> principal option" where
  "token_authenticate now es rq =
     (let provided = bearer rq
      in if provided = [] then None
         else fold (\<lambda>e found. if token_matches now provided e then Some (te_principal e) else found) es None)"

section \<open>OIDC\<close>

record jwt_config =
  jc_url :: string
  jc_role_claim :: string
  jc_tenant_claim :: string
  jc_apps_claim :: string
  jc_groups_claim :: string
  jc_group_roles :: "(string, role) gomap"
  jc_default_role :: role
  jc_require_tenant :: bool

definition new_jwt :: "jwt_config \<Rightarrow> jwt_config" where
  "new_jwt c =
     c\<lparr>jc_role_claim := (if jc_role_claim c = [] then ''role'' else jc_role_claim c),
       jc_tenant_claim := (if jc_tenant_claim c = [] then ''tenant'' else jc_tenant_claim c),
       jc_apps_claim := (if jc_apps_claim c = [] then ''apps'' else jc_apps_claim c),
       jc_groups_claim := (if jc_groups_claim c = [] then ''groups'' else jc_groups_claim c)\<rparr>"

fun fields_by :: "(char \<Rightarrow> bool) \<Rightarrow> string \<Rightarrow> string \<Rightarrow> string list" where
  "fields_by sep acc [] = (if acc = [] then [] else [acc])"
| "fields_by sep acc (c # s) =
     (if sep c then (if acc = [] then [] else [acc]) @ fields_by sep [] s else fields_by sep (acc @ [c]) s)"

definition parse_apps_claim :: "gval \<Rightarrow> string list" where
  "parse_apps_claim v =
     (case v of
        GList vs \<Rightarrow> filter (\<lambda>s. s \<noteq> []) (map as_string vs)
      | GStr s \<Rightarrow> fields_by (\<lambda>c. c = CHR '','' \<or> c = CHR '' '' \<or> c = CHR ''|'') [] s
      | _ \<Rightarrow> [])"

definition higher :: "role \<Rightarrow> role option \<Rightarrow> role" where
  "higher r found = (case found of Some r' \<Rightarrow> if r' > r then r' else r | None \<Rightarrow> r)"

definition role_from :: "jwt_config \<Rightarrow> props \<Rightarrow> role" where
  "role_from c claims =
     (let role = (case pget claims (jc_role_claim c) of GStr v \<Rightarrow> higher (jc_default_role c) (parse_role v) | _ \<Rightarrow> jc_default_role c)
      in if jc_group_roles c = [] then role
         else fold (\<lambda>g r. higher r (map_of (jc_group_roles c) g)) (parse_apps_claim (pget claims (jc_groups_claim c))) role)"

definition jwt_authenticate :: "(string \<Rightarrow> props option) \<Rightarrow> jwt_config \<Rightarrow> request \<Rightarrow> principal option" where
  "jwt_authenticate verify c rq =
     (let raw = bearer rq
      in if raw = [] \<or> length (split_on (CHR ''.'') raw) \<noteq> 3 then None
         else (case verify raw of
                 None \<Rightarrow> None
               | Some claims \<Rightarrow>
                   (let role = role_from c claims; t = as_string (pget claims (jc_tenant_claim c));
                        sub = as_string (pget claims ''sub'')
                    in if t = [] \<and> jc_require_tenant c then None
                       else Some \<lparr>pr_subject = ''jwt:'' @ (if sub = [] then ''jwt'' else sub), pr_role = role,
                              pr_tenant = (if t = [] then auth_default_tenant else t),
                              pr_apps = parse_apps_claim (pget claims (jc_apps_claim c))\<rparr>)))"

section \<open>Anonymous reading, and the chain\<close>

definition new_anonymous :: "role \<Rightarrow> role option" where
  "new_anonymous r = (if r > Role_Viewer then None else Some r)"

definition anonymous_authenticate :: "role \<Rightarrow> request \<Rightarrow> principal option" where
  "anonymous_authenticate r rq =
     (if \<not> r \<ge> Role_Viewer \<or> bearer rq \<noteq> [] then None
      else Some \<lparr>pr_subject = anonymous_subject, pr_role = r, pr_tenant = auth_default_tenant, pr_apps = []\<rparr>)"

datatype authenticator =
  Tokens "token_entry list"
| Jwt jwt_config
| Anonymous role

definition auth_enabled :: "authenticator \<Rightarrow> bool" where
  "auth_enabled a = (case a of Tokens es \<Rightarrow> es \<noteq> [] | Jwt c \<Rightarrow> jc_url c \<noteq> [] | Anonymous r \<Rightarrow> r \<ge> Role_Viewer)"

definition auth_one :: "(string \<Rightarrow> props option) \<Rightarrow> gotime \<Rightarrow> authenticator \<Rightarrow> request \<Rightarrow> principal option" where
  "auth_one verify now a rq =
     (case a of
        Tokens es \<Rightarrow> token_authenticate now es rq
      | Jwt c \<Rightarrow> jwt_authenticate verify c rq
      | Anonymous r \<Rightarrow> anonymous_authenticate r rq)"

fun auth_chain :: "(string \<Rightarrow> props option) \<Rightarrow> gotime \<Rightarrow> authenticator list \<Rightarrow> request \<Rightarrow> principal option" where
  "auth_chain verify now [] rq = None"
| "auth_chain verify now (a # as) rq =
     (if \<not> auth_enabled a then auth_chain verify now as rq
      else (case auth_one verify now a rq of Some p \<Rightarrow> Some p | None \<Rightarrow> auth_chain verify now as rq))"

definition chain_enabled :: "authenticator list \<Rightarrow> bool" where
  "chain_enabled as \<longleftrightarrow> list_ex auth_enabled as"

section \<open>The role gate\<close>

text \<open>What the audit is told, what the caller gets, and the guard afterwards.\<close>

datatype gate_outcome = Passed "principal option" | Locked_Out | Unauthorized

record gate_note =
  gn_action :: string
  gn_subject :: string
  gn_role :: string
  gn_tenant :: string

definition require_role ::
  "(request \<Rightarrow> principal option) \<Rightarrow> role \<Rightarrow> (string \<Rightarrow> bool) option \<Rightarrow> gotime \<Rightarrow> string \<Rightarrow> request \<Rightarrow> watcher \<Rightarrow>
     gate_outcome \<times> gate_note list \<times> watcher" where
  "require_role authn least durable now ip rq guard =
     (if rq_method rq = ''OPTIONS'' then (Passed None, [], guard)
      else if tripped durable now ip guard
      then (Locked_Out, [\<lparr>gn_action = ''auth.locked'', gn_subject = ''unknown'', gn_role = [], gn_tenant = []\<rparr>], guard)
      else (let denied = [\<lparr>gn_action = ''auth.deny'', gn_subject = ''unknown'', gn_role = [], gn_tenant = []\<rparr>]
            in case authn rq of
                 None \<Rightarrow> (Unauthorized, denied, if bearer rq \<noteq> [] then snd (observe now ip 1 guard) else guard)
               | Some p \<Rightarrow>
                   if pr_role p < least then (Unauthorized, denied, guard)
                   else (Passed (Some p),
                         [\<lparr>gn_action = ''api'', gn_subject = pr_subject p, gn_role = role_string (pr_role p), gn_tenant = pr_tenant p\<rparr>],
                         guard)))"

section \<open>The signed webhook\<close>

definition unreserved :: "char \<Rightarrow> bool" where
  "unreserved c \<longleftrightarrow> (let n = of_char c :: nat
     in (97 \<le> n \<and> n \<le> 122) \<or> (65 \<le> n \<and> n \<le> 90) \<or> (48 \<le> n \<and> n \<le> 57)) \<or> c \<in> set ''-_.~''"

definition query_escape :: "string \<Rightarrow> string" where
  "query_escape s =
     concat (map (\<lambda>c. if unreserved c then [c] else if c = CHR '' '' then ''+'' else ''%'' @ to_upper (hex_byte c)) s)"

definition canonical_query :: "(string, string list) gomap \<Rightarrow> string" where
  "canonical_query q =
     str_join (concat (map (\<lambda>k. map (\<lambda>v. query_escape k @ ''='' @ query_escape v)
                                   (sort_by str_less (case map_of q k of Some vs \<Rightarrow> vs | None \<Rightarrow> [])))
                          (sort_by str_less (map fst q)))) ''&''"

definition sign_v2 :: "string \<Rightarrow> int \<Rightarrow> string \<Rightarrow> string \<Rightarrow> (string, string list) gomap \<Rightarrow> string \<Rightarrow> string" where
  "sign_v2 secret ts method path q body =
     (let nl = [CHR 0x0A]
      in ''v2='' @ hex_encode (hmac_sha256 secret
           (''v2'' @ nl @ int_dec ts @ nl @ to_upper method @ nl @ path @ nl @ canonical_query q @ nl @ sha256_hex body)))"

definition sign_v1 :: "string \<Rightarrow> string \<Rightarrow> string" where
  "sign_v1 secret body = ''sha256='' @ hex_encode (hmac_sha256 secret body)"

definition verify_v1 :: "string \<Rightarrow> string \<Rightarrow> string \<Rightarrow> bool" where
  "verify_v1 secret header body \<longleftrightarrow>
     (case cut_prefix header ''sha256='' of
        None \<Rightarrow> False
      | Some want \<Rightarrow> (case hex_decode want of None \<Rightarrow> False | Some sig \<Rightarrow> sig = hmac_sha256 secret body))"

definition signature_window :: int where
  "signature_window = 5 * 60 * second_ns"

record replay_state =
  rs_seen :: "(string, gotime) gomap"
  rs_swept :: gotime

definition new_replay :: replay_state where
  "new_replay = \<lparr>rs_seen = [], rs_swept = zero_time\<rparr>"

definition unix_time :: "int \<Rightarrow> gotime" where
  "unix_time ts = (ts + unix_epoch) * second_ns"

datatype refusal = Missing_Timestamp | Stale_Timestamp | Bad_Signature | Replayed

definition verify_v2 :: "gotime \<Rightarrow> string \<Rightarrow> request \<Rightarrow> replay_state \<Rightarrow> refusal option \<times> replay_state" where
  "verify_v2 now secret rq st =
     (case atoi (rq_timestamp rq) of
        None \<Rightarrow> (Some Missing_Timestamp, st)
      | Some ts \<Rightarrow>
          (let d = now - unix_time ts
           in if d > signature_window \<or> d < - signature_window then (Some Stale_Timestamp, st)
              else if rq_sig_v2 rq \<noteq> sign_v2 secret ts (rq_method rq) (rq_path rq) (rq_query rq) (rq_body rq)
              then (Some Bad_Signature, st)
              else (let st = (if now - rs_swept st > 60 * second_ns
                              then \<lparr>rs_seen = filter (\<lambda>(k, x). \<not> now > x) (rs_seen st), rs_swept = now\<rparr> else st)
                    in if gm_has (rs_seen st) (rq_sig_v2 rq) then (Some Replayed, st)
                       else (None, st\<lparr>rs_seen := AList.update (rq_sig_v2 rq) (unix_time ts + signature_window) (rs_seen st)\<rparr>))))"

datatype ingest_outcome =
  Accepted principal
| Unknown_Tenant
| Too_Large
| Refused_V2 refusal
| V1_Refused
| Bad_V1

record hmac_verifier =
  hv_secrets :: "(string, string) gomap"
  hv_max_body :: nat
  hv_accept_v1 :: bool

definition hmac_require :: "gotime \<Rightarrow> hmac_verifier \<Rightarrow> request \<Rightarrow> replay_state \<Rightarrow> ingest_outcome \<times> replay_state" where
  "hmac_require now h rq st =
     (let tenant = (if rq_tenant rq = [] then auth_default_tenant else rq_tenant rq);
          accepted = Accepted \<lparr>pr_subject = ''hmac'', pr_role = Role_None, pr_tenant = tenant, pr_apps = []\<rparr>
      in case map_of (hv_secrets h) tenant of
           None \<Rightarrow> (Unknown_Tenant, st)
         | Some secret \<Rightarrow>
             if length (rq_body rq) > hv_max_body h then (Too_Large, st)
             else if rq_sig_v2 rq \<noteq> []
             then (case verify_v2 now secret rq st of
                     (Some why, st) \<Rightarrow> (Refused_V2 why, st)
                   | (None, st) \<Rightarrow> (accepted, st))
             else if \<not> hv_accept_v1 h then (V1_Refused, st)
             else if \<not> verify_v1 secret (rq_sig_v1 rq) (rq_body rq) then (Bad_V1, st)
             else (accepted, st))"

end
