(* ===== verification/Secwatch_Laws.thy ===== *)
theory Secwatch_Laws
  imports Secwatch
begin

text \<open>
  The lockout is a matter between a key and its own failures: while the keys tracked stay
  within the bound, whatever other keys do, a key is locked exactly as an automaton that
  sees only its own events says, and that automaton locks when a window fills and at no
  other time. Past the bound it is not: the last theorem.
\<close>

section \<open>A history against a key's automaton\<close>

definition run_obs :: "(gotime \<times> string \<times> int) list \<Rightarrow> watcher \<Rightarrow> watcher" where
  "run_obs = fold (\<lambda>(a, k, n) w. snd (observe a k n w))"

definition own_obs :: "string \<Rightarrow> (gotime \<times> string \<times> int) list \<Rightarrow> (gotime \<times> int) list" where
  "own_obs k obs = map (\<lambda>(a, _, n). (a, n)) (filter (\<lambda>(a, k', n). k' = k) obs)"

definition tracks :: "string set \<Rightarrow> watcher \<Rightarrow> bool" where
  "tracks K w \<longleftrightarrow> watcher_ok w \<and> watcher_enabled w \<and> set (gm_keys (wa_events w)) \<subseteq> K \<and> finite K \<and> card K \<le> wa_max w"

lemma tracks_bound: "tracks K w \<Longrightarrow> tracked_keys w \<le> wa_max w"
proof -
  assume a: "tracks K w"
  then have "distinct (gm_keys (wa_events w))" by (simp add: tracks_def watcher_ok_def gm_ok_def)
  then have "length (gm_keys (wa_events w)) = card (set (gm_keys (wa_events w)))" by (rule distinct_card [symmetric])
  also have "\<dots> \<le> card K" using a by (intro card_mono) (auto simp: tracks_def)
  finally show ?thesis using a by (simp add: tracks_def tracked_keys_def)
qed

lemma tracks_sweep: "tracks K w \<Longrightarrow> tracks K (watcher_sweep now w)"
proof -
  assume a: "tracks K w"
  have "set (gm_keys (wa_events (watcher_sweep now w))) \<subseteq> set (gm_keys (wa_events w))" by (auto simp: watcher_sweep_def)
  then show ?thesis using a sweep_ok [of w now] by (auto simp: tracks_def watcher_enabled_def)
qed

lemma bound_keys_eq: "tracks K w \<Longrightarrow> bound_keys now w = (if now - wa_swept w \<ge> wa_window w then watcher_sweep now w else w)"
  using tracks_bound [of K w] tracks_bound [OF tracks_sweep, of K w now] by (simp add: bound_keys_def Let_def)

definition same_settings :: "watcher \<Rightarrow> watcher \<Rightarrow> bool" where
  "same_settings w w' \<longleftrightarrow> wa_threshold w = wa_threshold w' \<and> wa_window w = wa_window w' \<and> wa_cooldown w = wa_cooldown w'"

lemma bound_keys_tracks:
  assumes "tracks K w"
  shows "tracks K (bound_keys now w) \<and> same_settings (bound_keys now w) w \<and> agrees (bound_keys now w) now k ks = agrees w now k ks"
  using assms tracks_sweep [OF assms] agrees_sweep [of w now k ks]
  unfolding bound_keys_eq [OF assms] by (auto simp: tracks_def same_settings_def)

definition noted :: "gotime \<Rightarrow> string \<Rightarrow> int \<Rightarrow> watcher \<Rightarrow> watcher" where
  "noted now key n w =
     w\<lparr>wa_events := AList.update key (live_events (wa_window w) now (events_at w key) @ [(now, if n \<le> 0 then 1 else n)]) (wa_events w)\<rparr>"

lemma noted_tracks: "tracks K w \<Longrightarrow> key \<in> K \<Longrightarrow> tracks K (noted now key n w) \<and> same_settings (noted now key n w) w"
  by (auto simp: tracks_def noted_def watcher_ok_def watcher_enabled_def same_settings_def gm_ok_update dom_update)

lemma events_at_noted:
  "events_at (noted now key n w) k =
     (if k = key then live_events (wa_window w) now (events_at w key) @ [(now, if n \<le> 0 then 1 else n)] else events_at w k)"
  by (simp add: events_at_def noted_def map_of_update)

lemma observe_noted:
  "watcher_enabled w \<Longrightarrow> snd (observe now key n w) =
     (let kept = live_events (wa_window w) now (events_at w key) @ [(now, if n \<le> 0 then 1 else n)]; w' = bound_keys now (noted now key n w)
      in if weight_of kept < wa_threshold w' \<or> alerted now key w' then w' else w'\<lparr>wa_alerts := AList.update key now (wa_alerts w')\<rparr>)"
  by (simp add: observe_def Let_def noted_def alerted_def)

lemma observe_agrees:
  assumes tr: "tracks K w" and key: "key \<in> K" and ag: "agrees w now k ks"
  shows "let w' = snd (observe now key n w) in tracks K w' \<and> same_settings w' w \<and>
    agrees w' now k (if key = k then key_observe (wa_threshold w) (wa_window w) (wa_cooldown w) (now, n) ks else ks)"
proof -
  define ev where "ev = (now, if n \<le> 0 then 1 else n)"
  define kept where "kept = live_events (wa_window w) now (events_at w key) @ [ev]"
  define w1 where "w1 = bound_keys now (noted now key n w)"
  note n = noted_tracks [OF tr key, of now n]
  note b = bound_keys_tracks [OF conjunct1 [OF n], of now]
  have t1: "tracks K w1" and s1: "same_settings w1 w" using b n by (auto simp: w1_def same_settings_def)
  have en: "watcher_enabled w" using tr by (simp add: tracks_def)
  define w2 where "w2 = (if weight_of kept < wa_threshold w1 \<or> alerted now key w1 then w1
      else w1\<lparr>wa_alerts := AList.update key now (wa_alerts w1)\<rparr>)"
  have obs: "snd (observe now key n w) = w2"
    using observe_noted [OF en, of now key n] by (simp add: w1_def w2_def kept_def ev_def Let_def)
  have t2: "tracks K w2" and s2: "same_settings w2 w"
    using t1 s1 by (auto simp: w2_def tracks_def watcher_ok_def watcher_enabled_def same_settings_def)
  have alerts: "wa_alerts (noted now i n w) = wa_alerts w" for i by (simp add: noted_def)
  have settings: "wa_window (noted now i n w) = wa_window w" "wa_cooldown (noted now i n w) = wa_cooldown w" for i
    by (simp_all add: noted_def)
  show ?thesis
  proof (cases "key = k")
    case False
    have "agrees (noted now key n w) now k ks" using ag False by (simp add: agrees_def events_at_noted alerts settings)
    then have "agrees w1 now k ks" using b by (simp add: w1_def)
    then have "agrees w2 now k ks" using False by (auto simp: w2_def agrees_def map_of_update events_at_def)
    then show ?thesis using t2 s2 False by (simp add: obs)
  next
    case True
    have kept: "kept = live_events (wa_window w) now (fst ks) @ [ev]" using ag True by (simp add: kept_def agrees_def)
    have "agrees (noted now key n w) now k (kept, snd ks)"
      using ag True by (simp add: agrees_def events_at_noted alerts settings kept_def ev_def)
    then have a1: "agrees w1 now k (kept, snd ks)" using b by (simp add: w1_def)
    have al: "alerted now key w1 \<longleftrightarrow> key_alerted (wa_cooldown w) now ks"
    proof -
      have "wa_cooldown w1 = wa_cooldown w" using s1 by (simp add: same_settings_def)
      then show ?thesis using agrees_alerted [OF a1] True by (simp add: key_alerted_def)
    qed
    have ko: "key_observe (wa_threshold w) (wa_window w) (wa_cooldown w) (now, n) ks =
        (kept, if weight_of kept < wa_threshold w \<or> key_alerted (wa_cooldown w) now ks then snd ks else Some now)"
      by (simp add: key_observe_def kept ev_def)
    have "wa_threshold w1 = wa_threshold w" using s1 by (simp add: same_settings_def)
    then have "agrees w2 now k (key_observe (wa_threshold w) (wa_window w) (wa_cooldown w) (now, n) ks)"
      using a1 True by (auto simp: w2_def ko al [unfolded True] agrees_def map_of_update events_at_def)
    then show ?thesis using t2 s2 by (simp add: obs True [symmetric])
  qed
qed

lemma run_obs_agrees:
  assumes "tracks K w" "agrees w t0 k ks" "sorted (t0 # map fst obs)" "fst ` snd ` set obs \<subseteq> K"
  shows "tracks K (run_obs obs w) \<and> same_settings (run_obs obs w) w \<and>
    agrees (run_obs obs w) (last (t0 # map fst obs)) k (fold (key_observe (wa_threshold w) (wa_window w) (wa_cooldown w)) (own_obs k obs) ks)"
  using assms
proof (induction obs arbitrary: w t0 ks)
  case Nil
  then show ?case by (simp add: run_obs_def own_obs_def same_settings_def)
next
  case (Cons ob obs)
  obtain a key n where ob: "ob = (a, key, n)" by (cases ob)
  let ?w = "snd (observe a key n w)"
  let ?ks = "if key = k then key_observe (wa_threshold w) (wa_window w) (wa_cooldown w) (a, n) ks else ks"
  have "agrees w a k ks" using agrees_later [OF Cons.prems(2)] Cons.prems(3) ob by simp
  moreover have "key \<in> K" using Cons.prems(4) ob by auto
  ultimately have "tracks K ?w \<and> same_settings ?w w \<and> agrees ?w a k ?ks"
    using observe_agrees [OF Cons.prems(1)] by (simp add: Let_def)
  moreover have "sorted (a # map fst obs)" "fst ` snd ` set obs \<subseteq> K" using Cons.prems(3,4) ob by auto
  ultimately have "tracks K (run_obs obs ?w) \<and> same_settings (run_obs obs ?w) ?w \<and>
      agrees (run_obs obs ?w) (last (a # map fst obs)) k (fold (key_observe (wa_threshold w) (wa_window w) (wa_cooldown w)) (own_obs k obs) ?ks)"
    using Cons.IH [of ?w a ?ks] by (simp add: same_settings_def)
  then show ?case using \<open>tracks K ?w \<and> same_settings ?w w \<and> agrees ?w a k ?ks\<close> ob
    by (auto simp: run_obs_def own_obs_def same_settings_def)
qed

section \<open>When a key's automaton locks\<close>

definition counted :: "(gotime \<times> int) list \<Rightarrow> (gotime \<times> int) list" where
  "counted = map (\<lambda>(a, n). (a, if n \<le> 0 then 1 else n))"

text \<open>The weight of the window that ends with the last of some observations.\<close>

definition window_weight :: "int \<Rightarrow> (gotime \<times> int) list \<Rightarrow> gotime \<times> int \<Rightarrow> int" where
  "window_weight window earlier ob =
     weight_of (live_events window (fst ob) (counted earlier)) + weight_of (counted [ob])"

lemma key_run_events:
  "sorted (map fst xs @ [now]) \<Longrightarrow>
     live_events window now (fst (fold (key_observe threshold window cooldown) xs ([], None))) = live_events window now (counted xs)"
proof (induction xs arbitrary: now rule: rev_induct)
  case Nil
  then show ?case by (simp add: counted_def)
next
  case (snoc ob xs)
  obtain a n where ob: "ob = (a, n)" by (cases ob)
  have le: "a \<le> now" and so: "sorted (map fst xs @ [a])" using snoc.prems ob by (auto simp: sorted_append)
  let ?ks = "fold (key_observe threshold window cooldown) xs ([], None)"
  have "live_events window now (fst (key_observe threshold window cooldown (a, n) ?ks)) =
      live_events window now (live_events window a (fst ?ks)) @ live_events window now [(a, if n \<le> 0 then 1 else n)]"
    by (simp add: key_observe_def Let_def live_events_def)
  also have "\<dots> = live_events window now (counted xs) @ live_events window now [(a, if n \<le> 0 then 1 else n)]"
    using snoc.IH [OF so] le live_live by metis
  finally show ?case by (simp add: ob counted_def live_events_def)
qed

lemma key_run_snoc:
  assumes "sorted (map fst (xs @ [(a, n)]))"
  shows "snd (fold (key_observe threshold window cooldown) (xs @ [(a, n)]) ([], None)) =
    (if window_weight window xs (a, n) < threshold \<or> key_alerted cooldown a (fold (key_observe threshold window cooldown) xs ([], None))
     then snd (fold (key_observe threshold window cooldown) xs ([], None)) else Some a)"
proof -
  have "live_events window a (fst (fold (key_observe threshold window cooldown) xs ([], None))) = live_events window a (counted xs)"
    by (rule key_run_events) (use assms in simp)
  then show ?thesis by (simp add: key_observe_def Let_def window_weight_def weight_of_def counted_def)
qed

text \<open>
  The instants at which some observations fill a window, and those of them that start a lockout:
  the first, and each that is no longer within the cooldown of the one before.
\<close>

definition crossings :: "int \<Rightarrow> int \<Rightarrow> (gotime \<times> int) list \<Rightarrow> gotime list" where
  "crossings threshold window obs =
     map (\<lambda>i. fst (obs ! i)) (filter (\<lambda>i. threshold \<le> window_weight window (take i obs) (obs ! i)) [0..<length obs])"

function lockout_starts :: "int \<Rightarrow> gotime list \<Rightarrow> gotime list" where
  "lockout_starts cooldown [] = []"
| "lockout_starts cooldown (t # ts) = t # lockout_starts cooldown (dropWhile (\<lambda>u. u - t < cooldown) ts)"
  by pat_completeness auto
termination
  by (relation "measure (\<lambda>(cooldown, ts). length ts)") (simp_all add: length_dropWhile_le le_imp_less_Suc)

lemma crossings_snoc:
  "crossings threshold window (xs @ [ob]) =
     crossings threshold window xs @ (if threshold \<le> window_weight window xs ob then [fst ob] else [])"
proof -
  have "map (\<lambda>i. fst ((xs @ [ob]) ! i)) (filter (\<lambda>i. threshold \<le> window_weight window (take i (xs @ [ob])) ((xs @ [ob]) ! i)) [0..<length xs]) =
      crossings threshold window xs"
    unfolding crossings_def by (rule map_cong [OF filter_cong]) (auto simp: nth_append)
  then show ?thesis by (simp add: crossings_def)
qed

lemma lockout_starts_snoc:
  "lockout_starts cooldown (ts @ [a]) = lockout_starts cooldown ts @
     (if ts \<noteq> [] \<and> a - last (lockout_starts cooldown ts) < cooldown then [] else [a])"
proof (induction cooldown ts rule: lockout_starts.induct)
  case (2 cooldown t ts)
  show ?case
  proof (cases "\<forall>u \<in> set ts. u - t < cooldown")
    case True
    then have d: "dropWhile (\<lambda>u. u - t < cooldown) ts = []" by (simp add: dropWhile_eq_Nil_conv)
    show ?thesis using True by (simp add: dropWhile_append d)
  next
    case False
    then have "dropWhile (\<lambda>u. u - t < cooldown) ts \<noteq> []" by (simp add: dropWhile_eq_Nil_conv)
    moreover from this have "lockout_starts cooldown (dropWhile (\<lambda>u. u - t < cooldown) ts) \<noteq> []"
      by (cases "dropWhile (\<lambda>u. u - t < cooldown) ts") simp_all
    ultimately show ?thesis using 2 False by (auto simp: dropWhile_append)
  qed
qed simp

lemma lockout_starts_Nil: "lockout_starts cooldown ts = [] \<longleftrightarrow> ts = []"
  by (cases ts) simp_all

lemma key_run_starts:
  "sorted (map fst xs) \<Longrightarrow> snd (fold (key_observe threshold window cooldown) xs ([], None)) =
     (let starts = lockout_starts cooldown (crossings threshold window xs) in if starts = [] then None else Some (last starts))"
proof (induction xs rule: rev_induct)
  case Nil
  then show ?case by (simp add: crossings_def)
next
  case (snoc ob xs)
  obtain a n where ob: "ob = (a, n)" by (cases ob)
  have "sorted (map fst xs)" using snoc.prems by (simp add: sorted_append)
  then show ?case
    using snoc key_run_snoc [of xs a n threshold window cooldown] ob
    by (auto simp: Let_def crossings_snoc lockout_starts_snoc lockout_starts_Nil key_alerted_def)
qed

lemma lockout_starts_spaced:
  "sorted ts \<Longrightarrow> sorted (lockout_starts cooldown ts) \<and> set (lockout_starts cooldown ts) \<subseteq> set ts"
proof (induction cooldown ts rule: lockout_starts.induct)
  case (2 cooldown t ts)
  let ?us = "dropWhile (\<lambda>u. u - t < cooldown) ts"
  have "sorted ?us" "set ?us \<subseteq> set ts" using 2(2) by (auto simp: sorted_dropWhile dest: set_dropWhileD)
  then show ?case using 2 by auto
qed simp

lemma crossings_sorted: "sorted (map fst xs) \<Longrightarrow> sorted (crossings threshold window xs) \<and> set (crossings threshold window xs) \<subseteq> fst ` set xs"
proof (induction xs rule: rev_induct)
  case Nil
  then show ?case by (simp add: crossings_def)
next
  case (snoc ob xs)
  then show ?case by (auto simp: crossings_snoc sorted_append)
qed

lemma key_alerted_starts:
  assumes "sorted (map fst xs)"
  shows "key_alerted cooldown now (fold (key_observe threshold window cooldown) xs ([], None)) \<longleftrightarrow>
    (\<exists>t \<in> set (lockout_starts cooldown (crossings threshold window xs)). now - t < cooldown)"
proof -
  let ?starts = "lockout_starts cooldown (crossings threshold window xs)"
  have so: "sorted ?starts" using lockout_starts_spaced crossings_sorted [OF assms] by blast
  have le: "t \<le> last ?starts" if "t \<in> set ?starts" for t
    using that so sorted_append [of "butlast ?starts" "[last ?starts]"] append_butlast_last_id [of ?starts]
      in_set_butlastD set_append [of "butlast ?starts" "[last ?starts]"] by fastforce
  show ?thesis
  proof (cases "?starts = []")
    case False
    then have "last ?starts \<in> set ?starts" by simp
    then show ?thesis using False le unfolding key_alerted_def key_run_starts [OF assms] Let_def by force
  qed (simp add: key_alerted_def key_run_starts [OF assms])
qed

section \<open>The lockout\<close>

lemma new_watcher_tracks:
  "threshold > 0 \<Longrightarrow> finite K \<Longrightarrow> card K \<le> default_max_keys \<Longrightarrow> tracks K (new_watcher threshold window cooldown t0)"
  by (simp add: tracks_def new_watcher_def watcher_ok_def watcher_enabled_def)

lemma own_obs_sorted: "sorted (map fst obs) \<Longrightarrow> sorted (map fst (own_obs k obs))"
proof (induction obs)
  case (Cons ob obs)
  have "fst ` set (own_obs k obs) \<subseteq> fst ` set obs" by (force simp: own_obs_def)
  then show ?case using Cons by (auto simp: own_obs_def split: prod.splits)
qed (simp add: own_obs_def)

lemma lockout_agrees:
  assumes "threshold > 0" "sorted (t0 # map fst obs @ [now])" "card (fst ` snd ` set obs) \<le> default_max_keys"
  shows "tripped durable now k (run_obs obs (new_watcher threshold window cooldown t0)) \<longleftrightarrow>
    key_alerted cooldown now (fold (key_observe threshold window cooldown) (own_obs k obs) ([], None)) \<or>
    (\<exists>locked. durable = Some locked \<and> locked k)"
proof -
  let ?w = "new_watcher threshold window cooldown t0" and ?K = "fst ` snd ` set obs"
  let ?ks = "fold (key_observe threshold window cooldown) (own_obs k obs) ([], None)"
  have s: "wa_threshold ?w = threshold" "wa_window ?w = window" "wa_cooldown ?w = cooldown" by (simp_all add: new_watcher_def)
  have a0: "agrees ?w t0 k ([], None)" by (simp add: agrees_def new_watcher_def events_at_def)
  have so: "sorted (t0 # map fst obs)" using assms(2) by (simp add: sorted_append)
  have "tracks ?K (run_obs obs ?w) \<and> same_settings (run_obs obs ?w) ?w \<and> agrees (run_obs obs ?w) (last (t0 # map fst obs)) k ?ks"
    using run_obs_agrees [OF new_watcher_tracks [OF assms(1) _ assms(3)] a0 so] by (simp add: s)
  moreover have "last (t0 # map fst obs) \<le> now"
    using assms(2) last_in_set [of "t0 # map fst obs"] by (auto simp: sorted_append split: if_splits)
  ultimately have "agrees (run_obs obs ?w) now k ?ks" by (blast intro: agrees_later)
  moreover have "watcher_enabled (run_obs obs ?w)" "wa_cooldown (run_obs obs ?w) = cooldown"
    using \<open>tracks ?K (run_obs obs ?w) \<and> _\<close> by (simp_all add: tracks_def same_settings_def s)
  ultimately show ?thesis using agrees_alerted [of "run_obs obs ?w" now k ?ks] by (auto simp: tripped_def split: option.splits)
qed

text \<open>
  C7. A lockout is earned by its own key: over any history of observations in time order, with
  no more keys than the bound, a key is locked exactly when within the last cooldown one of the
  lockouts its own observations start began, whatever was observed of the others, or the
  durable store says so. A lockout starts when the key's observations fill a window and none is
  on; what crosses the threshold during a lockout does not prolong it.
\<close>

theorem lockout_exact:
  assumes "threshold > 0" "sorted (t0 # map fst obs @ [now])" "card (fst ` snd ` set obs) \<le> default_max_keys"
  shows "tripped durable now k (run_obs obs (new_watcher threshold window cooldown t0)) \<longleftrightarrow>
    (\<exists>t \<in> set (lockout_starts cooldown (crossings threshold window (own_obs k obs))). now - t < cooldown) \<or>
    (\<exists>locked. durable = Some locked \<and> locked k)"
proof -
  have so: "sorted (map fst (own_obs k obs))" by (rule own_obs_sorted) (use assms(2) in \<open>simp add: sorted_append\<close>)
  show ?thesis
    using lockout_agrees [OF assms(1-3), of durable k window cooldown] key_alerted_starts [OF so] by simp
qed

lemma lockout_exact_witness:
  "tripped None 9 ''1.2.3.4'' (run_obs [(1, ''1.2.3.4'', 1), (5, ''9.9.9.9'', 1), (9, ''1.2.3.4'', 1)] (new_watcher 2 60 100 0)) \<and>
   tripped None 108 ''1.2.3.4'' (run_obs [(1, ''1.2.3.4'', 1), (5, ''9.9.9.9'', 1), (9, ''1.2.3.4'', 1)] (new_watcher 2 60 100 0)) \<and>
   \<not> tripped None 109 ''1.2.3.4'' (run_obs [(1, ''1.2.3.4'', 1), (5, ''9.9.9.9'', 1), (9, ''1.2.3.4'', 1)] (new_watcher 2 60 100 0)) \<and>
   \<not> tripped None 9 ''9.9.9.9'' (run_obs [(1, ''1.2.3.4'', 1), (5, ''9.9.9.9'', 1), (9, ''1.2.3.4'', 1)] (new_watcher 2 60 100 0))"
proof -
  let ?obs = "[(1, ''1.2.3.4'', 1), (5, ''9.9.9.9'', 1), (9, ''1.2.3.4'', 1)] :: (gotime \<times> string \<times> int) list"
  have c: "crossings 2 60 (own_obs ''1.2.3.4'' ?obs) = [9]" "crossings 2 60 (own_obs ''9.9.9.9'' ?obs) = []" by code_simp+
  have "card (fst ` snd ` set ?obs) \<le> default_max_keys" by (simp add: default_max_keys_def card_insert_if)
  note l = lockout_exact [of 2 0 ?obs, OF _ _ this, of _ None _ 60 100]
  show ?thesis using l [of _ "''1.2.3.4''"] l [of 9 "''9.9.9.9''"] by (simp add: c)
qed

text \<open>
  Past the bound the promise breaks: a locked key is never observed, so it is the least
  recently active, and enough fresh keys evict it with its lockout. Here the bound is two.
\<close>

definition small_watcher :: watcher where
  "small_watcher = \<lparr>wa_threshold = 1, wa_window = 60, wa_cooldown = 1000, wa_events = [], wa_alerts = [], wa_max = 2, wa_swept = 0\<rparr>"

lemma flood_unlocks:
  "small_watcher = with_max_keys 2 (new_watcher 1 60 1000 0)"
  "let w1 = snd (observe 5 ''attacker'' 1 small_watcher);
       w2 = snd (observe 7 ''b'' 1 (snd (observe 6 ''a'' 1 w1)))
   in tripped None 5 ''attacker'' w1 \<and> \<not> tripped None 7 ''attacker'' w2"
proof -
  show "small_watcher = with_max_keys 2 (new_watcher 1 60 1000 0)" by (simp add: small_watcher_def with_max_keys_def new_watcher_def)
  show "let w1 = snd (observe 5 ''attacker'' 1 small_watcher);
       w2 = snd (observe 7 ''b'' 1 (snd (observe 6 ''a'' 1 w1)))
   in tripped None 5 ''attacker'' w1 \<and> \<not> tripped None 7 ''attacker'' w2" by code_simp
qed

end
