(* ===== verification/Access_Laws.thy ===== *)
theory Access_Laws
  imports Auth Secwatch_Laws
begin

text \<open>
  What the front doors promise: nothing beyond reading without a live credential, no lockout
  for what others did, and no second use of a version 2 signature on an ingest request.
\<close>

section \<open>Where a principal comes from\<close>

fun_cases auth_chainE: "auth_chain verify now as rq = Some p"

lemma chain_source:
  "auth_chain verify now as rq = Some p \<Longrightarrow> \<exists>a \<in> set as. auth_enabled a \<and> auth_one verify now a rq = Some p"
  by (induction as) (auto split: if_splits option.splits)

lemma token_source:
  "token_authenticate now es rq = Some p \<Longrightarrow> bearer rq \<noteq> [] \<and> (\<exists>e \<in> set es. token_matches now (bearer rq) e \<and> te_principal e = p)"
proof -
  assume a: "token_authenticate now es rq = Some p"
  have "fold (\<lambda>e found. if token_matches now b e then Some (te_principal e) else found) es x = Some p \<Longrightarrow>
      x = Some p \<or> (\<exists>e \<in> set es. token_matches now b e \<and> te_principal e = p)" for b x
    by (induction es arbitrary: x) (auto split: if_splits)
  from this [of "bearer rq" None] show ?thesis using a by (auto simp: token_authenticate_def Let_def split: if_splits)
qed

lemma jwt_source:
  "jwt_authenticate verify c rq = Some p \<Longrightarrow>
     bearer rq \<noteq> [] \<and> (\<exists>claims. verify (bearer rq) = Some claims \<and> pr_role p = role_from c claims)"
  by (auto simp: jwt_authenticate_def Let_def split: if_splits option.splits)

lemma anonymous_source:
  "anonymous_authenticate r rq = Some p \<Longrightarrow> bearer rq = [] \<and> pr_role p = r \<and> pr_subject p = anonymous_subject"
  by (auto simp: anonymous_authenticate_def split: if_splits)

lemma gate_passed:
  "fst (require_role authn least durable now ip rq guard) = Passed (Some p) \<Longrightarrow> authn rq = Some p \<and> least \<le> pr_role p \<and> \<not> tripped durable now ip guard"
  by (auto simp: require_role_def Let_def split: if_splits option.splits)

text \<open>The role of a token is the highest any of its claims grants.\<close>

lemma higher_max: "higher r found = (case found of Some r' \<Rightarrow> max r r' | None \<Rightarrow> r)"
  by (auto simp: higher_def max_def split: option.split)

definition granted :: "jwt_config \<Rightarrow> props \<Rightarrow> role set" where
  "granted c claims =
     {r. \<exists>v. pget claims (jc_role_claim c) = GStr v \<and> parse_role v = Some r} \<union>
     {r. \<exists>g \<in> set (parse_apps_claim (pget claims (jc_groups_claim c))). map_of (jc_group_roles c) g = Some r}"

lemma fold_higher:
  "(\<forall>x \<in> set gs. \<forall>r. m x = Some r \<longrightarrow> r \<le> fold (\<lambda>g r. higher r (m g)) gs r0) \<and> r0 \<le> fold (\<lambda>g r. higher r (m g)) gs r0 \<and>
     (fold (\<lambda>g r. higher r (m g)) gs r0 = r0 \<or> (\<exists>g \<in> set gs. m g = Some (fold (\<lambda>g r. higher r (m g)) gs r0)))"
proof (induction gs arbitrary: r0)
  case (Cons g gs)
  have h: "r0 \<le> higher r0 (m g)" "\<And>r. m g = Some r \<Longrightarrow> r \<le> higher r0 (m g)" "higher r0 (m g) = r0 \<or> m g = Some (higher r0 (m g))"
    by (auto simp: higher_max max_def split: option.split)
  show ?case using Cons.IH [of "higher r0 (m g)"] h by (auto intro: order_trans)
qed simp

lemma role_from_highest:
  "(\<forall>r \<in> granted c claims. r \<le> role_from c claims) \<and> jc_default_role c \<le> role_from c claims \<and>
     (role_from c claims = jc_default_role c \<or> role_from c claims \<in> granted c claims)"
proof -
  let ?claim = "pget claims (jc_role_claim c)"
  define r0 where "r0 = (case ?claim of GStr v \<Rightarrow> higher (jc_default_role c) (parse_role v) | _ \<Rightarrow> jc_default_role c)"
  have r0: "jc_default_role c \<le> r0" "\<And>v r. ?claim = GStr v \<Longrightarrow> parse_role v = Some r \<Longrightarrow> r \<le> r0"
    "r0 = jc_default_role c \<or> (\<exists>v. ?claim = GStr v \<and> parse_role v = Some r0)"
    by (auto simp: r0_def higher_max max_def split: gval.split option.split)
  define gs where "gs = parse_apps_claim (pget claims (jc_groups_claim c))"
  have rf: "role_from c claims = (if jc_group_roles c = [] then r0 else fold (\<lambda>g r. higher r (map_of (jc_group_roles c) g)) gs r0)"
    by (simp add: role_from_def Let_def r0_def gs_def)
  show ?thesis
  proof (cases "jc_group_roles c = []")
    case True
    then show ?thesis using r0 by (auto simp: rf granted_def)
  next
    case False
    then have rf: "role_from c claims = fold (\<lambda>g r. higher r (map_of (jc_group_roles c) g)) gs r0" using rf by simp
    note f = fold_higher [of gs "map_of (jc_group_roles c)" r0, folded rf]
    show ?thesis
    proof (intro conjI ballI)
      show "jc_default_role c \<le> role_from c claims" using f r0(1) by (blast intro: order_trans)
      show "r \<le> role_from c claims" if "r \<in> granted c claims" for r
        using that f r0(2) unfolding granted_def gs_def by (blast intro: order_trans)
      show "role_from c claims = jc_default_role c \<or> role_from c claims \<in> granted c claims"
        using f r0(3) unfolding granted_def gs_def by auto
    qed
  qed
qed

section \<open>The gate over a history of requests\<close>

definition gate_run ::
  "(request \<Rightarrow> principal option) \<Rightarrow> role \<Rightarrow> (gotime \<times> string \<times> request) list \<Rightarrow> watcher \<Rightarrow> watcher" where
  "gate_run authn least = fold (\<lambda>(now, ip, rq) guard. snd (snd (require_role authn least None now ip rq guard)))"

text \<open>A rejected credential: one presented, and refused.\<close>

definition rejected :: "(request \<Rightarrow> principal option) \<Rightarrow> request \<Rightarrow> bool" where
  "rejected authn rq \<longleftrightarrow> rq_method rq \<noteq> ''OPTIONS'' \<and> bearer rq \<noteq> [] \<and> authn rq = None"

lemma gate_guard:
  "snd (snd (require_role authn least durable now ip rq guard)) =
     (if rejected authn rq \<and> \<not> tripped durable now ip guard then snd (observe now ip 1 guard) else guard)"
  by (auto simp: require_role_def rejected_def Let_def split: option.split)

text \<open>The guard sees a sublist of the requests, the rejected ones that found it open.\<close>

lemma gate_run_obs:
  "\<exists>kept. gate_run authn least rs guard = run_obs (map (\<lambda>(now, ip, rq). (now, ip, 1)) kept) guard \<and> subseq kept rs \<and>
     (\<forall>(now, ip, rq) \<in> set kept. rejected authn rq)"
proof (induction rs arbitrary: guard)
  case Nil
  then show ?case by (intro exI [of _ "[]"]) (simp add: gate_run_def run_obs_def)
next
  case (Cons r rs)
  obtain now ip rq where r: "r = (now, ip, rq)" by (cases r) auto
  let ?g = "snd (snd (require_role authn least None now ip rq guard))"
  obtain kept where k: "gate_run authn least rs ?g = run_obs (map (\<lambda>(now, ip, rq). (now, ip, 1)) kept) ?g" "subseq kept rs"
    "\<forall>(now, ip, rq) \<in> set kept. rejected authn rq" using Cons.IH by blast
  have run: "gate_run authn least (r # rs) guard = gate_run authn least rs ?g" by (simp add: gate_run_def r)
  show ?case
  proof (cases "rejected authn rq \<and> \<not> tripped None now ip guard")
    case True
    then have "?g = snd (observe now ip 1 guard)" by (simp add: gate_guard)
    then have "gate_run authn least (r # rs) guard = run_obs (map (\<lambda>(now, ip, rq). (now, ip, 1)) (r # kept)) guard"
      unfolding run k(1) by (simp add: run_obs_def r)
    then show ?thesis using k(2,3) True r by (intro exI [of _ "r # kept"]) auto
  next
    case False
    then have "?g = guard" by (auto simp: gate_guard)
    then show ?thesis using k run by (intro exI [of _ kept]) auto
  qed
qed

lemma sorted_subseq: "subseq xs ys \<Longrightarrow> sorted (map f ys) \<Longrightarrow> sorted (map f xs)"
proof -
  assume "subseq xs ys" "sorted (map f ys)"
  then obtain N where "xs = nths ys N" "sorted (map f ys)" using subseq_conv_nths [of xs ys] by blast
  then show ?thesis using sorted_nths [of "map f ys" N] by (simp add: nths_map)
qed

lemma subseq_sub: "subseq xs ys \<Longrightarrow> set xs \<subseteq> set ys"
  using subseq_conv_nths [of xs ys] set_nths_subset by fast

text \<open>
  C28. Only a rejected credential counts towards a lockout, and only one of the same address:
  an address none of whose requests presented a credential that was refused is not locked
  out, whatever all the others sent.
\<close>

theorem lockout_only_for_own_failures:
  assumes "threshold > 0" "sorted (t0 # map fst rs @ [now])" "card (fst ` snd ` set rs) \<le> default_max_keys"
    and "\<forall>(a, ip', rq') \<in> set rs. ip' = ip \<longrightarrow> \<not> rejected authn rq'"
  shows "fst (require_role authn least None now ip rq (gate_run authn least rs (new_watcher threshold window cooldown t0))) \<noteq> Locked_Out"
proof -
  obtain kept where k: "gate_run authn least rs (new_watcher threshold window cooldown t0) =
      run_obs (map (\<lambda>(now, ip, rq). (now, ip, 1)) kept) (new_watcher threshold window cooldown t0)"
    "subseq kept rs" "\<forall>(now, ip, rq) \<in> set kept. rejected authn rq" using gate_run_obs by blast
  let ?obs = "map (\<lambda>(now, ip, rq). (now, ip, 1 :: int)) kept"
  have sub: "set kept \<subseteq> set rs" by (rule subseq_sub [OF k(2)])
  have obs: "map fst ?obs = map fst kept" "fst ` snd ` set ?obs = fst ` snd ` set kept" by (auto simp: image_image split_def)
  have "sorted (t0 # map fst ?obs @ [now])"
  proof -
    have "sorted (map fst kept)" by (rule sorted_subseq [OF k(2)]) (use assms(2) in \<open>simp add: sorted_append\<close>)
    then show ?thesis using assms(2) sub unfolding obs by (auto simp: sorted_append)
  qed
  moreover have "card (fst ` snd ` set ?obs) \<le> default_max_keys"
  proof -
    have "card (fst ` snd ` set kept) \<le> card (fst ` snd ` set rs)" by (rule card_mono) (simp, intro image_mono sub)
    then show ?thesis using assms(3) unfolding obs by linarith
  qed
  ultimately have "tripped None now ip (run_obs ?obs (new_watcher threshold window cooldown t0)) \<longleftrightarrow>
      key_alerted cooldown now (fold (key_observe threshold window cooldown) (own_obs ip ?obs) ([], None))"
    using lockout_agrees [OF assms(1), of t0 ?obs now None] by simp
  moreover have "ip' \<noteq> ip" if "(a, ip', rq') \<in> set kept" for a ip' rq' using that k(3) assms(4) sub by blast
  then have "own_obs ip ?obs = []" by (auto simp: own_obs_def filter_empty_conv)
  ultimately have "\<not> tripped None now ip (gate_run authn least rs (new_watcher threshold window cooldown t0))"
    by (simp add: k(1) key_alerted_def)
  then show ?thesis by (auto simp: require_role_def Let_def split: option.split)
qed

definition no_request :: request where
  "no_request = \<lparr>rq_method = ''POST'', rq_path = ''/graphql'', rq_query = [], rq_authorization = [], rq_body = [], rq_tenant = [],
     rq_sig_v1 = [], rq_sig_v2 = [], rq_timestamp = []\<rparr>"

definition bad_login :: request where
  "bad_login = no_request\<lparr>rq_authorization := ''Bearer guess''\<rparr>"

lemma lockout_only_for_own_failures_witness:
  "fst (require_role (\<lambda>rq. None) Role_Viewer None 9 ''1.1.1.1'' bad_login
     (gate_run (\<lambda>rq. None) Role_Viewer [(1, ''6.6.6.6'', bad_login), (2, ''1.1.1.1'', no_request), (3, ''6.6.6.6'', bad_login)]
       (new_watcher 2 60 100 0))) \<noteq> Locked_Out"
  by (rule lockout_only_for_own_failures)
    (simp_all add: default_max_keys_def card_insert_if rejected_def bearer_def no_request_def cut_prefix_def)

section \<open>What a role above reading needs\<close>

text \<open>
  C27. Nothing beyond reading without a credential: when the gate lets a request in with a role
  above viewer, the request carried a bearer credential that is either a configured token in
  its validity, whose role it is, or a verified JWT, and then the role is the highest its
  claims and groups grant. Anonymous access, however configured, gives no more than viewer,
  and never to a request that presented a credential.
\<close>

theorem credential_behind_role:
  assumes "fst (require_role (auth_chain verify now as) least durable t ip rq guard) = Passed (Some p)"
    and "\<forall>r. Anonymous r \<in> set as \<longrightarrow> new_anonymous r = Some r"
  shows "least \<le> pr_role p \<and> \<not> tripped durable t ip guard \<and>
    (bearer rq = [] \<longrightarrow> pr_role p = Role_Viewer \<and> pr_subject p = anonymous_subject) \<and>
    (bearer rq \<noteq> [] \<longrightarrow>
      (\<exists>es e. Tokens es \<in> set as \<and> e \<in> set es \<and> token_matches now (bearer rq) e \<and> te_principal e = p) \<or>
      (\<exists>c claims. Jwt c \<in> set as \<and> verify (bearer rq) = Some claims \<and>
         (pr_role p = jc_default_role c \<or> pr_role p \<in> granted c claims)))"
proof -
  have p: "auth_chain verify now as rq = Some p" and g: "least \<le> pr_role p" "\<not> tripped durable t ip guard"
    using gate_passed [OF assms(1)] by blast+
  obtain a where a: "a \<in> set as" "auth_enabled a" "auth_one verify now a rq = Some p" using chain_source [OF p] by blast
  show ?thesis
  proof (cases a)
    case (Tokens es)
    then show ?thesis using a g token_source [of now es rq p] by (auto simp: auth_one_def)
  next
    case (Jwt c)
    then obtain claims where "bearer rq \<noteq> []" "verify (bearer rq) = Some claims" "pr_role p = role_from c claims"
      using a jwt_source [of verify c rq p] by (auto simp: auth_one_def)
    then show ?thesis using a g Jwt role_from_highest [of c claims] by metis
  next
    case (Anonymous r)
    then have s: "bearer rq = [] \<and> pr_role p = r \<and> pr_subject p = anonymous_subject"
      using a(3) anonymous_source by (simp add: auth_one_def)
    have "new_anonymous r = Some r" using assms(2) a(1) Anonymous by blast
    then have "r \<le> Role_Viewer" by (simp add: new_anonymous_def not_less split: if_splits)
    moreover have "r \<ge> Role_Viewer" using a(2) Anonymous by (simp add: auth_enabled_def)
    ultimately show ?thesis using s g by simp
  qed
qed

definition admin_entry :: token_entry where
  "admin_entry = \<lparr>te_hashed = False, te_value = ''tok'',
     te_principal = \<lparr>pr_subject = ''token:x'', pr_role = Role_Admin, pr_tenant = ''default'', pr_apps = []\<rparr>, te_expiry = 0\<rparr>"

definition token_request :: request where
  "token_request = no_request\<lparr>rq_authorization := ''Bearer tok''\<rparr>"

lemma token_request_facts: "bearer token_request = ''tok''" "rq_method token_request = ''POST''"
  by code_simp+

lemma credential_behind_role_witness:
  "\<exists>p. fst (require_role (auth_chain (\<lambda>raw. None) 5 [Tokens [admin_entry], Anonymous Role_Viewer]) Role_Operator None 5 ''::1''
        token_request (new_watcher 0 0 0 0)) = Passed (Some p) \<and> pr_role p = Role_Admin \<and> Role_Operator \<le> pr_role p"
proof -
  let ?as = "[Tokens [admin_entry], Anonymous Role_Viewer]"
  have "auth_chain (\<lambda>raw. None) 5 ?as token_request = Some (te_principal admin_entry)"
    by (simp add: auth_enabled_def auth_one_def token_authenticate_def token_matches_def token_request_facts Let_def admin_entry_def zero_time_def)
  moreover have "\<not> pr_role (te_principal admin_entry) < Role_Operator" by (simp add: admin_entry_def less_role_def role_rank_def)
  ultimately have passed: "fst (require_role (auth_chain (\<lambda>raw. None) 5 ?as) Role_Operator None 5 ''::1'' token_request (new_watcher 0 0 0 0)) =
      Passed (Some (te_principal admin_entry))"
    by (simp add: require_role_def token_request_facts tripped_def watcher_enabled_def new_watcher_def)
  have "\<forall>r. Anonymous r \<in> set ?as \<longrightarrow> new_anonymous r = Some r" by (simp add: new_anonymous_def)
  from credential_behind_role [OF passed this] show ?thesis using passed by (auto simp: admin_entry_def)
qed

section \<open>Replays\<close>

definition ingest_run :: "(gotime \<times> hmac_verifier \<times> request) list \<Rightarrow> replay_state \<Rightarrow> replay_state" where
  "ingest_run = fold (\<lambda>(now, h, rq) st. snd (hmac_require now h rq st))"

text \<open>A signature stays remembered until its timestamp is out of the window.\<close>

definition remembered :: "string \<Rightarrow> int \<Rightarrow> gotime \<Rightarrow> replay_state \<Rightarrow> bool" where
  "remembered sig ts now st \<longleftrightarrow> gm_ok (rs_seen st) \<and>
     (now > unix_time ts + signature_window \<or> map_of (rs_seen st) sig = Some (unix_time ts + signature_window))"

lemma verify_v2_ok: "gm_ok (rs_seen st) \<Longrightarrow> gm_ok (rs_seen (snd (verify_v2 now secret rq st)))"
  by (auto simp: verify_v2_def Let_def split: option.split)

lemma verify_v2_remembers:
  assumes "remembered sig ts now st"
  shows "remembered sig ts now (snd (verify_v2 now' secret rq st)) \<or> now < now'"
    and "now \<le> now' \<Longrightarrow> remembered sig ts now' (snd (verify_v2 now' secret rq st))"
proof -
  have ok: "gm_ok (rs_seen st)" using assms by (simp add: remembered_def)
  show b: "remembered sig ts now' (snd (verify_v2 now' secret rq st))" if "now \<le> now'"
  proof (cases "now' > unix_time ts + signature_window")
    case True
    then show ?thesis using verify_v2_ok [OF ok] by (simp add: remembered_def)
  next
    case False
    then have m: "map_of (rs_seen st) sig = Some (unix_time ts + signature_window)" using assms that by (auto simp: remembered_def)
    then show ?thesis using False ok verify_v2_ok [OF ok, of now' secret rq]
      by (auto simp: remembered_def verify_v2_def Let_def map_of_filter_ok map_of_update gm_has_def split: option.split)
  qed
  show "remembered sig ts now (snd (verify_v2 now' secret rq st)) \<or> now < now'"
  proof (cases "now < now'")
    case False
    show ?thesis
    proof (cases "now > unix_time ts + signature_window")
      case True
      then show ?thesis using verify_v2_ok [OF ok] by (simp add: remembered_def)
    next
      case above: False
      then have m: "map_of (rs_seen st) sig = Some (unix_time ts + signature_window)" using assms by (auto simp: remembered_def)
      then show ?thesis using above False ok verify_v2_ok [OF ok, of now' secret rq]
        by (auto simp: remembered_def verify_v2_def Let_def map_of_filter_ok map_of_update gm_has_def split: option.split)
    qed
  qed simp
qed

lemma require_state: "snd (hmac_require now h rq st) = st \<or> (\<exists>secret. snd (hmac_require now h rq st) = snd (verify_v2 now secret rq st))"
proof (cases "map_of (hv_secrets h) (if rq_tenant rq = [] then auth_default_tenant else rq_tenant rq)")
  case None
  then show ?thesis by (simp add: hmac_require_def Let_def)
next
  case (Some secret)
  obtain why st' where v: "verify_v2 now secret rq st = (why, st')" by (cases "verify_v2 now secret rq st")
  have "snd (hmac_require now h rq st) \<in> {st, st'}"
    using Some v by (cases why) (simp_all add: hmac_require_def Let_def)
  then show ?thesis using v by (metis insertE singletonD snd_conv)
qed

text \<open>The secret a request's signature is checked against.\<close>

definition signing_secret :: "hmac_verifier \<Rightarrow> request \<Rightarrow> string option" where
  "signing_secret h rq = map_of (hv_secrets h) (if rq_tenant rq = [] then auth_default_tenant else rq_tenant rq)"

lemma require_v2:
  assumes "hmac_require now h rq st = (Accepted p, st')" "rq_sig_v2 rq \<noteq> []"
  shows "\<exists>secret. signing_secret h rq = Some secret \<and> verify_v2 now secret rq st = (None, st')"
proof (cases "signing_secret h rq")
  case None
  then show ?thesis using assms by (simp add: hmac_require_def signing_secret_def Let_def)
next
  case (Some secret)
  obtain why st2 where v: "verify_v2 now secret rq st = (why, st2)" by (cases "verify_v2 now secret rq st")
  show ?thesis using assms Some v
    by (cases why; cases "length (rq_body rq) > hv_max_body h") (auto simp: hmac_require_def signing_secret_def Let_def)
qed

lemma require_ok: "gm_ok (rs_seen st) \<Longrightarrow> gm_ok (rs_seen (snd (hmac_require now h rq st)))"
  using require_state [of now h rq st] verify_v2_ok by metis

lemma run_ok: "gm_ok (rs_seen st) \<Longrightarrow> gm_ok (rs_seen (ingest_run rs st))"
  unfolding ingest_run_def by (induction rs arbitrary: st) (auto simp: require_ok)

lemma remembered_later: "remembered sig ts now st \<Longrightarrow> now \<le> now' \<Longrightarrow> remembered sig ts now' st"
  by (auto simp: remembered_def)

lemma run_remembers:
  "remembered sig ts now st \<Longrightarrow> sorted (now # map fst rs @ [now']) \<Longrightarrow> remembered sig ts now' (ingest_run rs st)"
proof (induction rs arbitrary: st now)
  case Nil
  then show ?case using remembered_later by (simp add: ingest_run_def)
next
  case (Cons r rs)
  obtain a h rq where r: "r = (a, h, rq)" by (cases r) auto
  have le: "now \<le> a" using Cons.prems(2) r by simp
  have "remembered sig ts a (snd (hmac_require a h rq st))"
    using require_state [of a h rq st] verify_v2_remembers(2) [OF Cons.prems(1) le] remembered_later [OF Cons.prems(1) le] by metis
  moreover have "sorted (a # map fst rs @ [now'])" using Cons.prems(2) r by simp
  ultimately show ?case using Cons.IH r by (simp add: ingest_run_def)
qed

lemma accepted_remembered:
  assumes "hmac_require now h rq st = (Accepted p, st')" "rq_sig_v2 rq \<noteq> []" "gm_ok (rs_seen st)"
  shows "\<exists>ts. atoi (rq_timestamp rq) = Some ts \<and> remembered (rq_sig_v2 rq) ts now st'"
proof -
  obtain secret where v: "verify_v2 now secret rq st = (None, st')" using require_v2 [OF assms(1,2)] by blast
  have "gm_ok (rs_seen st')" using verify_v2_ok [OF assms(3), of now secret rq] v by simp
  then show ?thesis using v by (auto simp: verify_v2_def Let_def remembered_def map_of_update split: option.splits if_splits)
qed

lemma remembered_refused:
  assumes "remembered (rq_sig_v2 rq) ts now st" "atoi (rq_timestamp rq) = Some ts" "rq_sig_v2 rq \<noteq> []"
  shows "fst (hmac_require now h rq st) \<noteq> Accepted p"
proof -
  have ok: "gm_ok (rs_seen st)" using assms(1) by (simp add: remembered_def)
  have "fst (verify_v2 now secret rq st) \<noteq> None" for secret
    using assms ok by (auto simp: verify_v2_def Let_def remembered_def gm_has_def map_of_filter_ok split: if_splits)
  then show ?thesis using require_v2 [of now h rq st p] assms(3) by (metis fst_conv prod.exhaust_sel)
qed

text \<open>What a version 2 signature covers; a collision is two texts, each with its secret.\<close>

definition signed_text :: "int \<Rightarrow> request \<Rightarrow> string" where
  "signed_text ts rq =
     ''v2'' @ [CHR 0x0A] @ int_dec ts @ [CHR 0x0A] @ to_upper (rq_method rq) @ [CHR 0x0A] @ rq_path rq @ [CHR 0x0A] @
     canonical_query (rq_query rq) @ [CHR 0x0A] @ sha256_hex (rq_body rq)"

definition hmac_collides :: "string \<times> string \<Rightarrow> string \<times> string \<Rightarrow> bool" where
  "hmac_collides m m' \<longleftrightarrow> snd m \<noteq> snd m' \<and> hmac_sha256 (fst m) (snd m) = hmac_sha256 (fst m') (snd m')"

lemma signed_texts_differ:
  assumes "ts \<noteq> ts'"
  shows "signed_text ts rq \<noteq> signed_text ts' rq'"
proof
  assume eq: "signed_text ts rq = signed_text ts' rq'"
  have nl: "CHR 0x0A \<notin> set (int_dec n)" for n :: int
    using nat_dec_digits [of "CHR 0x0A"] no_digits(6) by (auto simp: int_dec_def)
  have "takeWhile (\<lambda>c. c \<noteq> CHR 0x0A) (int_dec n @ CHR 0x0A # r) = int_dec n" for n r
    by (subst takeWhile_append2) (use nl in auto)
  then have "takeWhile (\<lambda>c. c \<noteq> CHR 0x0A) (drop 3 (signed_text n q)) = int_dec n" for n q
    by (simp add: signed_text_def numeral_3_eq_3)
  then have "int_dec ts = int_dec ts'" using eq by metis
  then show False using assms int_dec_inj by blast
qed

lemma remembered_collides:
  assumes "hmac_require now h rq st0 = (Accepted p, st1)" "gm_ok (rs_seen st0)" "rq_sig_v2 rq \<noteq> []"
    and "\<And>ts. remembered (rq_sig_v2 rq) ts now st1 \<Longrightarrow> remembered (rq_sig_v2 rq) ts now' st2"
    and "rq_sig_v2 rq' = rq_sig_v2 rq" "fst (hmac_require now' h' rq' st2) = Accepted p'"
  shows "\<exists>ts ts'. atoi (rq_timestamp rq) = Some ts \<and> atoi (rq_timestamp rq') = Some ts' \<and> ts \<noteq> ts' \<and>
    hmac_collides (the (signing_secret h rq), signed_text ts rq) (the (signing_secret h' rq'), signed_text ts' rq')"
proof -
  obtain ts where ts: "atoi (rq_timestamp rq) = Some ts" "remembered (rq_sig_v2 rq) ts now st1"
    using accepted_remembered [OF assms(1,3,2)] by blast
  obtain st3 where r': "hmac_require now' h' rq' st2 = (Accepted p', st3)" using assms(6) by (metis prod.collapse)
  have ne: "rq_sig_v2 rq' \<noteq> []" using assms(3,5) by simp
  obtain s s' where sec: "signing_secret h rq = Some s" "signing_secret h' rq' = Some s'"
      and v: "verify_v2 now s rq st0 = (None, st1)" "verify_v2 now' s' rq' st2 = (None, st3)"
    using require_v2 [OF assms(1,3)] require_v2 [OF r' ne] by blast
  obtain ts' where ts': "atoi (rq_timestamp rq') = Some ts'" using v(2) by (auto simp: verify_v2_def split: option.splits)
  have "ts \<noteq> ts'"
    using remembered_refused [of rq' ts now' st2 h' p'] assms(4) [OF ts(2)] assms(5,6) ts' ne by auto
  have sig: "rq_sig_v2 rq = ''v2='' @ hex_encode (hmac_sha256 s (signed_text ts rq))"
    "rq_sig_v2 rq' = ''v2='' @ hex_encode (hmac_sha256 s' (signed_text ts' rq'))"
    using v ts(1) ts' by (auto simp: verify_v2_def sign_v2_def signed_text_def Let_def split: if_splits)
  then have "hmac_sha256 s (signed_text ts rq) = hmac_sha256 s' (signed_text ts' rq')"
    using assms(5) hex_encode_inj by simp
  then show ?thesis using \<open>ts \<noteq> ts'\<close> ts(1) ts' signed_texts_differ by (simp add: hmac_collides_def sec)
qed

text \<open>
  C29. A version 2 signature works once: after a request signed with one is accepted, that process
  accepts no request with the same signature again - whatever its tenant, path, query, body or
  timestamp, whatever is received in between, as long as its clock does not run backwards -
  unless it carries another timestamp and the two texts, under their tenants' secrets, are an
  HMAC-SHA-256 collision. A version 1 signature is not covered: it can be replayed.
\<close>

theorem replay_refused:
  assumes "hmac_require now h rq (ingest_run before new_replay) = (Accepted p, st)" "rq_sig_v2 rq \<noteq> []"
    and "sorted (now # map fst between @ [now'])"
    and "rq_sig_v2 rq' = rq_sig_v2 rq" "fst (hmac_require now' h' rq' (ingest_run between st)) = Accepted p'"
  shows "\<exists>ts ts'. atoi (rq_timestamp rq) = Some ts \<and> atoi (rq_timestamp rq') = Some ts' \<and> ts \<noteq> ts' \<and>
    hmac_collides (the (signing_secret h rq), signed_text ts rq) (the (signing_secret h' rq'), signed_text ts' rq')"
proof (rule remembered_collides [OF assms(1) _ assms(2) _ assms(4,5)])
  show "gm_ok (rs_seen (ingest_run before new_replay))" by (rule run_ok) (simp add: new_replay_def)
qed (rule run_remembers [OF _ assms(3)])

definition signed_request :: request where
  "signed_request = no_request\<lparr>rq_timestamp := ''100'', rq_sig_v2 := sign_v2 ''key'' 100 ''POST'' ''/graphql'' [] []\<rparr>"

definition one_tenant :: hmac_verifier where
  "one_tenant = \<lparr>hv_secrets = [(''default'', ''key'')], hv_max_body = 10, hv_accept_v1 = False\<rparr>"

lemma replay_refused_witness:
  "fst (hmac_require (unix_time 150) one_tenant signed_request
     (snd (hmac_require (unix_time 120) one_tenant signed_request new_replay))) \<noteq>
   Accepted \<lparr>pr_subject = ''hmac'', pr_role = Role_None, pr_tenant = ''default'', pr_apps = []\<rparr>"
proof -
  let ?st = "snd (hmac_require (unix_time 120) one_tenant signed_request new_replay)"
  have f: "rq_timestamp signed_request = ''100''" "rq_sig_v2 signed_request = sign_v2 ''key'' 100 ''POST'' ''/graphql'' [] []"
    "rq_method signed_request = ''POST''" "rq_path signed_request = ''/graphql''" "rq_query signed_request = []" "rq_body signed_request = []"
    "rq_tenant signed_request = []"
    by (simp_all add: signed_request_def no_request_def)
  have ts: "atoi ''100'' = Some 100" by code_simp
  have ne: "sign_v2 ''key'' 100 ''POST'' ''/graphql'' [] [] \<noteq> []" by (simp add: sign_v2_def Let_def)
  have "hmac_require (unix_time 120) one_tenant signed_request (ingest_run [] new_replay) =
      (Accepted \<lparr>pr_subject = ''hmac'', pr_role = Role_None, pr_tenant = ''default'', pr_apps = []\<rparr>, ?st)"
    by (simp add: hmac_require_def ingest_run_def verify_v2_def f ts ne one_tenant_def Let_def unix_time_def second_ns_def signature_window_def
        new_replay_def gm_has_def unix_epoch_def zero_time_def)
  note refused = replay_refused [OF this, of "[]" "unix_time 150" signed_request one_tenant]
  show ?thesis
  proof
    assume "fst (hmac_require (unix_time 150) one_tenant signed_request ?st) =
      Accepted \<lparr>pr_subject = ''hmac'', pr_role = Role_None, pr_tenant = ''default'', pr_apps = []\<rparr>"
    then have again: "fst (hmac_require (unix_time 150) one_tenant signed_request (ingest_run [] ?st)) =
      Accepted \<lparr>pr_subject = ''hmac'', pr_role = Role_None, pr_tenant = ''default'', pr_apps = []\<rparr>" by (simp add: ingest_run_def)
    have "sorted (unix_time 120 # map fst ([] :: (gotime \<times> hmac_verifier \<times> request) list) @ [unix_time 150])"
      by (simp add: unix_time_def second_ns_def)
    with refused again ne show False by (auto simp: f(1,2) ts)
  qed
qed

end
