(* ===== verification/History.thy ===== *)
theory History
  imports PG_Prelude Complex_Main
begin

text \<open>
  The temporal store, \<open>backend/internal/history/history.go\<close>: the lifecycle of every attack path
  a tenant has had - opened, seen, resolved, reopened - and the downsampled posture and
  calibration series. The mutex makes each call one step and the clock is an argument;
  sealing and JSON are the parameters \<open>enc\<close> and \<open>dec\<close>.
\<close>

section \<open>The store\<close>

definition default_sample_every :: int where
  "default_sample_every = 60 * second_ns"

definition default_max_points :: nat where
  "default_max_points = 2000"

record observation =
  ob_id :: string
  ob_route :: string
  ob_score :: real

record path_record =
  hr_id :: string
  hr_tenant :: string
  hr_route :: string
  hr_score :: real
  hr_first :: gotime
  hr_last :: gotime
  hr_open :: bool
  hr_resolved :: "gotime option"
  hr_reopens :: int

record posture_point =
  pp_at :: gotime
  pp_paths :: nat
  pp_risk :: real

record calibration_sample =
  cs_at :: gotime
  cs_brier :: real
  cs_ece :: real
  cs_samples :: int

record tenant_history =
  th_paths :: "(string, path_record) gomap"
  th_posture :: "posture_point list"
  th_calibration :: "calibration_sample list"

record 'f history =
  hs_file :: bool
  hs_tenants :: "(string, tenant_history) gomap"
  hs_every :: int
  hs_max :: nat
  hs_disk :: "'f option"

definition history_tenant_key :: "string \<Rightarrow> string" where
  "history_tenant_key t = (if t = [] then ''default'' else t)"

definition no_history :: tenant_history where
  "no_history = \<lparr>th_paths = [], th_posture = [], th_calibration = []\<rparr>"

definition tenant_of :: "string \<Rightarrow> 'f history \<Rightarrow> tenant_history" where
  "tenant_of t s = (case map_of (hs_tenants s) (history_tenant_key t) of Some th \<Rightarrow> th | None \<Rightarrow> no_history)"

definition set_tenant :: "string \<Rightarrow> tenant_history \<Rightarrow> 'f history \<Rightarrow> 'f history" where
  "set_tenant t th s = s\<lparr>hs_tenants := AList.update (history_tenant_key t) th (hs_tenants s)\<rparr>"

section \<open>Persistence\<close>

record history_file =
  hf_paths :: "path_record list"
  hf_posture :: "(string \<times> posture_point) list"
  hf_calibration :: "(string \<times> calibration_sample) list"

definition tenant_then :: "(('a::linorder)) \<Rightarrow> 'a \<Rightarrow> string \<Rightarrow> string \<Rightarrow> bool" where
  "tenant_then a b t u = (if t \<noteq> u then str_less t u else a < b)"

definition history_file_of :: "(string, tenant_history) gomap \<Rightarrow> history_file" where
  "history_file_of m =
     \<lparr>hf_paths = sort_by (\<lambda>x y. if hr_tenant x \<noteq> hr_tenant y then str_less (hr_tenant x) (hr_tenant y) else str_less (hr_id x) (hr_id y))
        (concat (map (\<lambda>(t, th). map snd (th_paths th)) m)),
      hf_posture = sort_by (\<lambda>x y. tenant_then (pp_at (snd x)) (pp_at (snd y)) (fst x) (fst y))
        (concat (map (\<lambda>(t, th). map (\<lambda>p. (t, p)) (th_posture th)) m)),
      hf_calibration = sort_by (\<lambda>x y. tenant_then (cs_at (snd x)) (cs_at (snd y)) (fst x) (fst y))
        (concat (map (\<lambda>(t, th). map (\<lambda>p. (t, p)) (th_calibration th)) m))\<rparr>"

definition history_persist :: "(history_file \<Rightarrow> 'f option) \<Rightarrow> bool \<Rightarrow> 'f history \<Rightarrow> 'f history" where
  "history_persist enc written s =
     (if \<not> hs_file s then s
      else (case enc (history_file_of (hs_tenants s)) of
              None \<Rightarrow> s
            | Some f \<Rightarrow> if written then s\<lparr>hs_disk := Some f\<rparr> else s))"

definition load_path :: "path_record \<Rightarrow> 'f history \<Rightarrow> 'f history" where
  "load_path r s =
     (let th = tenant_of (hr_tenant r) s in set_tenant (hr_tenant r) (th\<lparr>th_paths := AList.update (hr_id r) r (th_paths th)\<rparr>) s)"

definition load_posture :: "string \<times> posture_point \<Rightarrow> 'f history \<Rightarrow> 'f history" where
  "load_posture = (\<lambda>(t, p) s. let th = tenant_of t s in set_tenant t (th\<lparr>th_posture := th_posture th @ [p]\<rparr>) s)"

definition load_calibration :: "string \<times> calibration_sample \<Rightarrow> 'f history \<Rightarrow> 'f history" where
  "load_calibration = (\<lambda>(t, p) s. let th = tenant_of t s in set_tenant t (th\<lparr>th_calibration := th_calibration th @ [p]\<rparr>) s)"

definition new_history :: "('f \<Rightarrow> history_file option) \<Rightarrow> bool \<Rightarrow> 'f option \<Rightarrow> 'f history option" where
  "new_history dec file disk =
     (let s = \<lparr>hs_file = file, hs_tenants = [], hs_every = default_sample_every, hs_max = default_max_points, hs_disk = disk\<rparr>
      in case (if file then disk else None) of
           None \<Rightarrow> Some s
         | Some b \<Rightarrow> map_option (\<lambda>f. fold load_calibration (hf_calibration f) (fold load_posture (hf_posture f) (fold load_path (hf_paths f) s)))
                        (dec b))"

section \<open>Recording\<close>

text \<open>Coalesced to one point per window, which stays anchored at its first; capped.\<close>

definition append_posture :: "int \<Rightarrow> nat \<Rightarrow> posture_point \<Rightarrow> posture_point list \<Rightarrow> bool \<times> posture_point list" where
  "append_posture every cap pt pts =
     (if pts \<noteq> [] \<and> pp_at pt - pp_at (last pts) < every
      then (False, butlast pts @ [(last pts)\<lparr>pp_paths := pp_paths pt, pp_risk := pp_risk pt\<rparr>])
      else (let pts = pts @ [pt] in (True, drop (length pts - cap) pts)))"

definition append_calibration :: "int \<Rightarrow> nat \<Rightarrow> calibration_sample \<Rightarrow> calibration_sample list \<Rightarrow> bool \<times> calibration_sample list" where
  "append_calibration every cap pt pts =
     (if pts \<noteq> [] \<and> cs_at pt - cs_at (last pts) < every
      then (False, butlast pts @ [(last pts)\<lparr>cs_brier := cs_brier pt, cs_ece := cs_ece pt, cs_samples := cs_samples pt\<rparr>])
      else (let pts = pts @ [pt] in (True, drop (length pts - cap) pts)))"

definition see_path :: "gotime \<Rightarrow> string \<Rightarrow> observation \<Rightarrow> (string, path_record) gomap \<Rightarrow> (string, path_record) gomap" where
  "see_path now tenant ob m =
     (case map_of m (ob_id ob) of
        None \<Rightarrow> AList.update (ob_id ob)
          \<lparr>hr_id = ob_id ob, hr_tenant = tenant, hr_route = ob_route ob, hr_score = ob_score ob, hr_first = now, hr_last = now,
           hr_open = True, hr_resolved = None, hr_reopens = 0\<rparr> m
      | Some r \<Rightarrow>
          if \<not> hr_open r
          then AList.update (ob_id ob)
            (r\<lparr>hr_open := True, hr_resolved := None, hr_first := now, hr_last := now, hr_route := ob_route ob,
               hr_score := ob_score ob, hr_reopens := hr_reopens r + 1\<rparr>) m
          else AList.update (ob_id ob) (r\<lparr>hr_last := now, hr_route := ob_route ob, hr_score := ob_score ob\<rparr>) m)"

definition resolve_path :: "gotime \<Rightarrow> string set \<Rightarrow> string \<Rightarrow> path_record \<Rightarrow> path_record" where
  "resolve_path now seen i r = (if hr_open r \<and> i \<notin> seen then r\<lparr>hr_open := False, hr_resolved := Some now\<rparr> else r)"

definition observe_pass ::
  "(history_file \<Rightarrow> 'f option) \<Rightarrow> bool \<Rightarrow> gotime \<Rightarrow> string \<Rightarrow> observation list \<Rightarrow> real \<Rightarrow> 'f history \<Rightarrow> 'f history" where
  "observe_pass enc written now tenant obs risk s =
     (let th = tenant_of tenant s;
          m = fold (see_path now tenant) obs (th_paths th);
          m = map (\<lambda>(i, r). (i, resolve_path now (ob_id ` set obs) i r)) m;
          pts = snd (append_posture (hs_every s) (hs_max s) \<lparr>pp_at = now, pp_paths = length obs, pp_risk = risk\<rparr> (th_posture th))
      in history_persist enc written (set_tenant tenant (th\<lparr>th_paths := m, th_posture := pts\<rparr>) s))"

definition sample_trend ::
  "(history_file \<Rightarrow> 'f option) \<Rightarrow> bool \<Rightarrow> gotime \<Rightarrow> string \<Rightarrow> nat \<Rightarrow> real \<Rightarrow> 'f history \<Rightarrow> 'f history" where
  "sample_trend enc written now tenant paths risk s =
     (let th = tenant_of tenant s;
          (appended, pts) = append_posture (hs_every s) (hs_max s) \<lparr>pp_at = now, pp_paths = paths, pp_risk = risk\<rparr> (th_posture th);
          s = set_tenant tenant (th\<lparr>th_posture := pts\<rparr>) s
      in if appended then history_persist enc written s else s)"

definition sample_calibration_trend ::
  "(history_file \<Rightarrow> 'f option) \<Rightarrow> bool \<Rightarrow> gotime \<Rightarrow> string \<Rightarrow> real \<Rightarrow> real \<Rightarrow> int \<Rightarrow> 'f history \<Rightarrow> 'f history" where
  "sample_calibration_trend enc written now tenant brier ece samples s =
     (let th = tenant_of tenant s;
          (appended, pts) = append_calibration (hs_every s) (hs_max s)
             \<lparr>cs_at = now, cs_brier = brier, cs_ece = ece, cs_samples = samples\<rparr> (th_calibration th);
          s = set_tenant tenant (th\<lparr>th_calibration := pts\<rparr>) s
      in if appended then history_persist enc written s else s)"

section \<open>Reading\<close>

definition history_get :: "string \<Rightarrow> string \<Rightarrow> 'f history \<Rightarrow> path_record option" where
  "history_get tenant i s = map_of (th_paths (tenant_of tenant s)) i"

definition newest :: "int \<Rightarrow> 'a list \<Rightarrow> 'a list" where
  "newest limit pts = (if limit > 0 \<and> limit < int (length pts) then drop (length pts - nat limit) pts else pts)"

definition trend :: "string \<Rightarrow> int \<Rightarrow> 'f history \<Rightarrow> posture_point list" where
  "trend tenant limit s = newest limit (th_posture (tenant_of tenant s))"

definition calibration_trend :: "string \<Rightarrow> int \<Rightarrow> 'f history \<Rightarrow> calibration_sample list" where
  "calibration_trend tenant limit s = newest limit (th_calibration (tenant_of tenant s))"

record stats =
  st_open :: nat
  st_resolved :: nat
  st_mttr :: real
  st_mttr_count :: nat
  st_oldest :: "gotime option"

definition sorted_paths :: "(string, path_record) gomap \<Rightarrow> path_record list" where
  "sorted_paths m = map snd (sort_by (\<lambda>x y. str_less (fst x) (fst y)) m)"

definition older :: "gotime option \<Rightarrow> gotime \<Rightarrow> gotime option" where
  "older oldest t = (case oldest of None \<Rightarrow> Some t | Some u \<Rightarrow> if t < u then Some t else Some u)"

definition seconds_of :: "int \<Rightarrow> real" where
  "seconds_of d = real_of_int d / real_of_int second_ns"

definition history_stats :: "string \<Rightarrow> 'f history \<Rightarrow> stats" where
  "history_stats tenant s =
     (let rs = sorted_paths (th_paths (tenant_of tenant s));
          opened = filter hr_open rs;
          resolved = List.map_filter (\<lambda>r. map_option (\<lambda>t. seconds_of (t - hr_first r)) (hr_resolved r)) (filter (\<lambda>r. \<not> hr_open r) rs)
      in \<lparr>st_open = length opened, st_resolved = length resolved,
          st_mttr = (if resolved = [] then 0 else sum_list resolved / real (length resolved)),
          st_mttr_count = length resolved,
          st_oldest = fold (\<lambda>r o'. older o' (hr_first r)) opened None\<rparr>)"

end
