(* ===== verification/History_Laws.thy ===== *)
theory History_Laws
  imports History
begin

text \<open>
  The history is what the passes say: a path's record is a function of the passes of its
  tenant - when it was there and when it was not - and of nothing else the store was told,
  and the trends are spaced and capped.
\<close>

section \<open>Operations\<close>

datatype history_op =
  Pass bool gotime string "observation list" real
| Trend_Point bool gotime string nat real
| Calibration_Point bool gotime string real real int

fun history_step :: "(history_file \<Rightarrow> 'f option) \<Rightarrow> history_op \<Rightarrow> 'f history \<Rightarrow> 'f history" where
  "history_step enc (Pass written now tenant obs risk) s = observe_pass enc written now tenant obs risk s"
| "history_step enc (Trend_Point written now tenant n risk) s = sample_trend enc written now tenant n risk s"
| "history_step enc (Calibration_Point written now tenant b e n) s = sample_calibration_trend enc written now tenant b e n s"

lemma persist_fields [simp]:
  "hs_tenants (history_persist enc written s) = hs_tenants s" "hs_every (history_persist enc written s) = hs_every s"
  "hs_max (history_persist enc written s) = hs_max s"
  by (simp_all add: history_persist_def split: option.split)

lemma tenant_of_persist [simp]: "tenant_of t (history_persist enc written s) = tenant_of t s"
  by (simp add: tenant_of_def)

lemma tenant_of_set: "tenant_of t (set_tenant u th s) = (if history_tenant_key t = history_tenant_key u then th else tenant_of t s)"
  by (simp add: tenant_of_def set_tenant_def map_of_update)

text \<open>The passes of a tenant: when, and which paths were open.\<close>

type_synonym pass = "gotime \<times> string set"

fun pass_of :: "string \<Rightarrow> history_op \<Rightarrow> pass list" where
  "pass_of t (Pass written now tenant obs risk) =
     (if history_tenant_key tenant = history_tenant_key t then [(now, ob_id ` set obs)] else [])"
| "pass_of t _ = []"

definition passes :: "string \<Rightarrow> history_op list \<Rightarrow> pass list" where
  "passes t ops = concat (map (pass_of t) ops)"

section \<open>One path through the passes\<close>

text \<open>First and last seen, open, resolved at, reopens.\<close>

type_synonym life = "gotime \<times> gotime \<times> bool \<times> gotime option \<times> int"

definition life :: "path_record \<Rightarrow> life" where
  "life r = (hr_first r, hr_last r, hr_open r, hr_resolved r, hr_reopens r)"

definition life_step :: "gotime \<Rightarrow> bool \<Rightarrow> life option \<Rightarrow> life option" where
  "life_step now seen l =
     (case l of
        None \<Rightarrow> if seen then Some (now, now, True, None, 0) else None
      | Some (f, l, op, rv, n) \<Rightarrow>
          if seen then (if op then Some (f, now, True, rv, n) else Some (now, now, True, None, n + 1))
          else (if op then Some (f, l, False, Some now, n) else Some (f, l, op, rv, n)))"

lemma see_path_life:
  "map_option life (map_of (see_path now tenant ob m) i) =
     (if i = ob_id ob then life_step now True (map_option life (map_of m i)) else map_option life (map_of m i))"
  by (simp add: see_path_def map_of_update life_def life_step_def split: option.split)

lemma life_step_again: "life_step now True (life_step now True l) = life_step now True l"
  by (simp add: life_step_def split: option.split)

lemma see_paths_life:
  "map_option life (map_of (fold (see_path now tenant) obs m) i) =
     (if i \<in> ob_id ` set obs then life_step now True (map_option life (map_of m i)) else map_option life (map_of m i))"
proof (induction obs arbitrary: m)
  case (Cons ob obs)
  show ?case unfolding fold_simps o_apply Cons.IH see_path_life by (auto simp: life_step_again)
qed simp

lemma life_step_seen: "i \<in> S \<Longrightarrow> map_option life (map_option (resolve_path now S i) x) = map_option life x"
  by (cases x) (simp_all add: resolve_path_def)

lemma life_step_gone:
  "i \<notin> S \<Longrightarrow> map_option life (map_option (resolve_path now S i) x) = life_step now False (map_option life x)"
  by (cases x) (simp_all add: resolve_path_def life_def life_step_def)

lemma observe_life:
  "map_option life (history_get t i (observe_pass enc written now tenant obs risk s)) =
     (if history_tenant_key t = history_tenant_key tenant then life_step now (i \<in> ob_id ` set obs) (map_option life (history_get t i s))
      else map_option life (history_get t i s))"
proof (cases "history_tenant_key t = history_tenant_key tenant")
  case True
  then have "tenant_of t s = tenant_of tenant s" by (simp add: tenant_of_def)
  then show ?thesis using True
    by (cases "i \<in> ob_id ` set obs")
      (simp_all add: history_get_def observe_pass_def Let_def tenant_of_set map_of_map_snd life_step_seen life_step_gone see_paths_life)
next
  case False
  then show ?thesis by (simp add: history_get_def observe_pass_def Let_def tenant_of_set)
qed

lemma sample_paths:
  "th_paths (tenant_of t (sample_trend enc written now tenant n risk s)) = th_paths (tenant_of t s)"
  "th_paths (tenant_of t (sample_calibration_trend enc written now tenant b e k s)) = th_paths (tenant_of t s)"
proof -
  have key: "history_tenant_key t = history_tenant_key tenant \<Longrightarrow> tenant_of t s = tenant_of tenant s" by (simp add: tenant_of_def)
  show "th_paths (tenant_of t (sample_trend enc written now tenant n risk s)) = th_paths (tenant_of t s)"
    using key by (simp add: sample_trend_def Let_def tenant_of_set split: prod.split)
  show "th_paths (tenant_of t (sample_calibration_trend enc written now tenant b e k s)) = th_paths (tenant_of t s)"
    using key by (simp add: sample_calibration_trend_def Let_def tenant_of_set split: prod.split)
qed

lemma sample_get:
  "history_get t i (sample_trend enc written now tenant n risk s) = history_get t i s"
  "history_get t i (sample_calibration_trend enc written now tenant b e k s) = history_get t i s"
  by (simp_all add: history_get_def sample_paths)

definition life_run :: "string \<Rightarrow> pass list \<Rightarrow> life option \<Rightarrow> life option" where
  "life_run i = fold (\<lambda>(now, S). life_step now (i \<in> S))"

lemma history_life:
  "map_option life (history_get t i (fold (history_step enc) ops s)) = life_run i (passes t ops) (map_option life (history_get t i s))"
proof (induction ops arbitrary: s)
  case Nil
  then show ?case by (simp add: passes_def life_run_def)
next
  case (Cons op ops)
  have "map_option life (history_get t i (history_step enc op s)) = life_run i (pass_of t op) (map_option life (history_get t i s))"
    by (cases op) (auto simp: observe_life life_run_def sample_get)
  then show ?case using Cons.IH [of "history_step enc op s"] by (simp add: passes_def life_run_def)
qed

section \<open>What the passes tell\<close>

text \<open>
  Read newest first: how many times the path opened - was there, and not in the pass before -
  and, of the last stretch it was there, the ends.
\<close>

fun openings :: "string \<Rightarrow> pass list \<Rightarrow> int" where
  "openings i [] = 0"
| "openings i (p # ps) = (if i \<in> snd p \<and> (ps = [] \<or> i \<notin> snd (hd ps)) then 1 else 0) + openings i ps"

definition told :: "string \<Rightarrow> pass list \<Rightarrow> life option" where
  "told i ps =
     (let back = rev ps; gone = takeWhile (\<lambda>p. i \<notin> snd p) back; there = dropWhile (\<lambda>p. i \<notin> snd p) back;
          stretch = takeWhile (\<lambda>p. i \<in> snd p) there
      in if there = [] then None
         else Some (fst (last stretch), fst (hd there), gone = [], if gone = [] then None else Some (fst (last gone)), openings i back - 1))"

lemma openings_none: "\<forall>p \<in> set ps. i \<notin> snd p \<Longrightarrow> openings i ps = 0"
  by (induction ps) auto

lemma told_snoc: "told i (ps @ [(now, S)]) = life_step now (i \<in> S) (told i ps)"
proof -
  define rp where "rp = rev ps"
  define gone where "gone = takeWhile (\<lambda>p. i \<notin> snd p) rp"
  define there where "there = dropWhile (\<lambda>p. i \<notin> snd p) rp"
  define stretch where "stretch = takeWhile (\<lambda>p. i \<in> snd p) there"
  have told: "told i ps = (if there = [] then None
      else Some (fst (last stretch), fst (hd there), gone = [], if gone = [] then None else Some (fst (last gone)), openings i rp - 1))"
    by (simp add: told_def Let_def rp_def gone_def there_def stretch_def)
  show ?thesis
  proof (cases "i \<in> S")
    case False
    have "there = [] \<longleftrightarrow> (\<forall>p \<in> set rp. i \<notin> snd p)" by (simp add: there_def)
    then show ?thesis using False unfolding told
      by (auto simp: told_def Let_def life_step_def simp flip: rp_def gone_def there_def stretch_def)
  next
    case True
    have new: "told i (ps @ [(now, S)]) =
        Some (fst (last ((now, S) # takeWhile (\<lambda>p. i \<in> snd p) rp)), now, True, None, openings i ((now, S) # rp) - 1)"
      using True by (simp add: told_def Let_def flip: rp_def)
    show ?thesis
    proof (cases "rp = [] \<or> i \<notin> snd (hd rp)")
      case opened: True
      then have tw: "takeWhile (\<lambda>p. i \<in> snd p) rp = []" by (cases rp) auto
      show ?thesis
      proof (cases "there = []")
        case True
        then have "openings i rp = 0" by (intro openings_none) (auto simp: there_def)
        then show ?thesis using \<open>i \<in> S\<close> opened True unfolding new told by (simp add: tw life_step_def)
      next
        case False
        then have "gone \<noteq> []" using opened by (cases rp) (auto simp: gone_def there_def)
        then show ?thesis using \<open>i \<in> S\<close> opened False unfolding new told by (simp add: tw life_step_def)
      qed
    next
      case False
      then have f: "gone = []" "there = rp" "rp \<noteq> []" "stretch = takeWhile (\<lambda>p. i \<in> snd p) rp" "stretch \<noteq> []"
        by (cases rp; auto simp: gone_def there_def stretch_def)+
      then show ?thesis using True False unfolding new told by (simp add: life_step_def)
    qed
  qed
qed

lemma life_run_told: "life_run i ps None = told i ps"
proof (induction ps rule: rev_induct)
  case Nil
  then show ?case by (simp add: life_run_def told_def)
next
  case (snoc p ps)
  obtain now S where "p = (now, S)" by (cases p)
  then show ?case using snoc told_snoc [of i ps now S] by (simp add: life_run_def)
qed

text \<open>
  C30. A path's record is what its tenant's passes say, whatever else the store was told and
  whether or not a write to disk failed: it exists once a pass had the path; it is open when
  the last one had it; it was first seen at the start of the last stretch of passes that had
  it and last seen at the end; resolved at the pass that first missed it; and reopened as
  often as it had come back.
\<close>

theorem lifecycle_told_by_passes:
  "map_option life (history_get tenant i (fold (history_step enc) ops
      \<lparr>hs_file = file, hs_tenants = [], hs_every = every, hs_max = cap, hs_disk = disk\<rparr>)) = told i (passes tenant ops)"
proof -
  have "history_get tenant i \<lparr>hs_file = file, hs_tenants = [], hs_every = every, hs_max = cap, hs_disk = disk\<rparr> = None"
    by (simp add: history_get_def tenant_of_def no_history_def)
  then show ?thesis unfolding history_life life_run_told [symmetric] by simp
qed

section \<open>The trend\<close>

text \<open>Points stay at least a window apart and within the cap, and the newest carries the latest values.\<close>

definition spaced :: "int \<Rightarrow> posture_point list \<Rightarrow> bool" where
  "spaced every = successively (\<lambda>p q. pp_at q - pp_at p \<ge> every)"

lemma successively_drop: "successively P xs \<Longrightarrow> successively P (drop n xs)"
proof (induction n arbitrary: xs)
  case (Suc n)
  then show ?case by (cases xs) (auto simp: successively_Cons)
qed simp

lemma append_posture_ok:
  fixes pt :: posture_point
  assumes "spaced every pts" "length pts \<le> cap" "0 < cap"
  defines "pts' \<equiv> snd (append_posture every cap pt pts)"
  shows "spaced every pts' \<and> length pts' \<le> cap \<and> pts' \<noteq> [] \<and> pp_paths (last pts') = pp_paths pt \<and> pp_risk (last pts') = pp_risk pt"
proof (cases "pts \<noteq> [] \<and> pp_at pt - pp_at (last pts) < every")
  case True
  define p where "p = (last pts)\<lparr>pp_paths := pp_paths pt, pp_risk := pp_risk pt\<rparr>"
  have pts': "pts' = butlast pts @ [p]" using True by (simp add: pts'_def append_posture_def p_def)
  have "spaced every (butlast pts @ [last pts])" using assms(1) True by simp
  then have "spaced every (butlast pts @ [p])" by (auto simp: spaced_def successively_append_iff p_def)
  then show ?thesis using assms(2) True unfolding pts' by (simp add: p_def)
next
  case False
  have "pts' = snd (True, drop (length (pts @ [pt]) - cap) (pts @ [pt]))"
    unfolding pts'_def append_posture_def Let_def by (subst if_not_P [OF False]) (rule refl)
  then have pts': "pts' = drop (length pts + 1 - cap) (pts @ [pt])" by simp
  have "spaced every (pts @ [pt])" using assms(1) False by (auto simp: spaced_def successively_append_iff)
  then have "spaced every pts'" unfolding pts' spaced_def by (rule successively_drop)
  moreover have "last pts' = pt" using assms(3) unfolding pts' by (subst last_drop) auto
  ultimately show ?thesis using assms(2,3) by (auto simp: pts')
qed

text \<open>
  The time to remediate is averaged over the paths that are resolved now. A path that comes
  back takes its earlier resolution with it: one occurrence was resolved, and none counts.
\<close>

lemma reopen_drops_resolution:
  "(let see = \<lparr>ob_id = ''ap-1'', ob_route = [], ob_score = 1\<rparr>; enc = (\<lambda>f. None :: unit option);
        s = fold (history_step enc) [Pass True 0 [] [see] 0, Pass True 100 [] [] 0, Pass True 200 [] [see] 0]
              \<lparr>hs_file = False, hs_tenants = [], hs_every = 60, hs_max = 9, hs_disk = None\<rparr>
    in st_resolved (history_stats [] s) = 0 \<and> map_option hr_reopens (history_get [] ''ap-1'' s) = Some 1)"
  by code_simp

end
