(* ===== verification/Audit_Log.thy ===== *)
theory Audit_Log
  imports Sha256
begin

text \<open>
  The tamper-evident audit log, \<open>backend/internal/audit/audit.go\<close>: records chained by SHA-256
  over their JSON text, appended one per line, resumed from the last line and verified from
  the first. Go's JSON encoding is written out; decoding it, and the sealing of a line with
  its base64, are the parameters \<open>parse\<close>, \<open>seal\<close> and \<open>unseal\<close>. Times and floats are rendered by
  the parameters \<open>ft\<close> and \<open>ff\<close>.
\<close>

section \<open>Records and their JSON\<close>

record audit_record =
  au_seq :: int
  au_time :: gotime
  au_action :: string
  au_subject :: string
  au_role :: string
  au_tenant :: string
  au_fields :: props
  au_prev :: string
  au_hash :: string

text \<open>The bytes of the UTF-8 rune a string starts with, none when they are not valid.\<close>

definition byte_in :: "nat \<Rightarrow> nat \<Rightarrow> string \<Rightarrow> nat \<Rightarrow> bool" where
  "byte_in lo hi s i \<longleftrightarrow> i < length s \<and> lo \<le> of_char (s ! i) \<and> of_char (s ! i) \<le> hi"

definition rune_len :: "string \<Rightarrow> nat" where
  "rune_len s =
     (if byte_in 0 0x7F s 0 then 1
      else if byte_in 0xC2 0xDF s 0 \<and> byte_in 0x80 0xBF s 1 then 2
      else if (byte_in 0xE0 0xE0 s 0 \<and> byte_in 0xA0 0xBF s 1 \<or> byte_in 0xE1 0xEC s 0 \<and> byte_in 0x80 0xBF s 1 \<or>
               byte_in 0xED 0xED s 0 \<and> byte_in 0x80 0x9F s 1 \<or> byte_in 0xEE 0xEF s 0 \<and> byte_in 0x80 0xBF s 1) \<and>
              byte_in 0x80 0xBF s 2 then 3
      else if (byte_in 0xF0 0xF0 s 0 \<and> byte_in 0x90 0xBF s 1 \<or> byte_in 0xF1 0xF3 s 0 \<and> byte_in 0x80 0xBF s 1 \<or>
               byte_in 0xF4 0xF4 s 0 \<and> byte_in 0x80 0x8F s 1) \<and>
              byte_in 0x80 0xBF s 2 \<and> byte_in 0x80 0xBF s 3 then 4
      else 0)"

definition u_escape :: "nat \<Rightarrow> string" where
  "u_escape n = [CHR 0x5C, CHR ''u''] @ map (\<lambda>i. hex_digit (n div 16 ^ (3 - i) mod 16)) [0..<4]"

definition json_ascii :: "char \<Rightarrow> string" where
  "json_ascii c =
     (let n = of_char c :: nat; esc = (\<lambda>d. [CHR 0x5C, d])
      in if c = CHR 0x22 \<or> c = CHR 0x5C then esc c
         else if n = 8 then esc (CHR ''b'') else if n = 12 then esc (CHR ''f'') else if n = 10 then esc (CHR ''n'')
         else if n = 13 then esc (CHR ''r'') else if n = 9 then esc (CHR ''t'')
         else if n < 32 \<or> c \<in> set ''<>&'' then u_escape n
         else [c])"

text \<open>An invalid byte is written as the escape of U+FFFD; U+FFFD itself as its three bytes.\<close>

function json_chars :: "string \<Rightarrow> string" where
  "json_chars [] = []"
| "json_chars (c # s) =
     (let k = rune_len (c # s)
      in if k = 0 then u_escape 0xFFFD @ json_chars s
         else if k = 1 then json_ascii c @ json_chars s
         else if c = CHR 0xE2 \<and> take 1 s = [CHR 0x80] \<and> (take 1 (drop 1 s) = [CHR 0xA8] \<or> take 1 (drop 1 s) = [CHR 0xA9])
         then u_escape (if take 1 (drop 1 s) = [CHR 0xA8] then 0x2028 else 0x2029) @ json_chars (drop 2 s)
         else c # take (k - 1) s @ json_chars (drop (k - 1) s))"
  by pat_completeness auto
termination
  by (relation "measure length") auto

definition json_string :: "string \<Rightarrow> string" where
  "json_string s = [CHR 0x22] @ json_chars s @ [CHR 0x22]"

definition json_pair :: "string \<times> string \<Rightarrow> string" where
  "json_pair = (\<lambda>(k, v). json_string k @ '':'' @ v)"

definition json_object :: "(string \<times> string) list \<Rightarrow> string" where
  "json_object kvs = ''{'' @ str_join (map json_pair kvs) '','' @ ''}''"

text \<open>A map is written in the order of its keys.\<close>

fun json_value :: "(real \<Rightarrow> string) \<Rightarrow> gval \<Rightarrow> string" where
  "json_value ff GNil = ''null''"
| "json_value ff (GBool b) = (if b then ''true'' else ''false'')"
| "json_value ff (GInt n) = int_dec n"
| "json_value ff (GInt64 n) = int_dec n"
| "json_value ff (GFloat x) = ff x"
| "json_value ff (GFloat32 x) = ff x"
| "json_value ff (GNumber s) = s"
| "json_value ff (GStr s) = json_string s"
| "json_value ff (GList vs) = ''['' @ str_join (map (json_value ff) vs) '','' @ '']''"
| "json_value ff (GMap kvs) = json_object (sort_by (\<lambda>x y. str_less (fst x) (fst y)) (map (\<lambda>(k, v). (k, json_value ff v)) kvs))"

text \<open>The fields of a record in the order of the struct; those tagged \<open>omitempty\<close> only when set.\<close>

definition front_fields :: "(gotime \<Rightarrow> string) \<Rightarrow> (real \<Rightarrow> string) \<Rightarrow> audit_record \<Rightarrow> (string \<times> string) list" where
  "front_fields ft ff r =
     [(''seq'', int_dec (au_seq r)), (''time'', json_string (ft (au_time r))), (''action'', json_string (au_action r)),
      (''subject'', json_string (au_subject r))] @
     (if au_role r = [] then [] else [(''role'', json_string (au_role r))]) @
     (if au_tenant r = [] then [] else [(''tenant'', json_string (au_tenant r))]) @
     (if au_fields r = [] then [] else [(''fields'', json_value ff (GMap (au_fields r)))])"

definition marshal :: "(gotime \<Rightarrow> string) \<Rightarrow> (real \<Rightarrow> string) \<Rightarrow> audit_record \<Rightarrow> string" where
  "marshal ft ff r =
     json_object (front_fields ft ff r @ [(''prev_hash'', json_string (au_prev r)), (''hash'', json_string (au_hash r))])"

section \<open>What can be stored\<close>

definition strip_nul :: "string \<Rightarrow> string" where
  "strip_nul s = filter (\<lambda>c. c \<noteq> CHR 0x00) s"

fun storable :: "gval \<Rightarrow> gval" where
  "storable (GStr s) = GStr (strip_nul s)"
| "storable (GMap kvs) = GMap (fold (\<lambda>(k, v) m. AList.update (strip_nul k) v m) (map (\<lambda>(k, v). (k, storable v)) kvs) [])"
| "storable (GList vs) = GList (map storable vs)"
| "storable v = v"

definition storable_fields :: "props \<Rightarrow> props" where
  "storable_fields ps = (if ps = [] then ps else (case storable (GMap ps) of GMap kvs \<Rightarrow> kvs | _ \<Rightarrow> []))"

definition with_request_id :: "string \<Rightarrow> props \<Rightarrow> props" where
  "with_request_id i ps = (if i = [] then ps else AList.update ''request_id'' (GStr i) ps)"

section \<open>The chain\<close>

text \<open>What is hashed: the text of the record without its hash.\<close>

definition chained_text :: "(gotime \<Rightarrow> string) \<Rightarrow> (real \<Rightarrow> string) \<Rightarrow> audit_record \<Rightarrow> string" where
  "chained_text ft ff r = marshal ft ff (r\<lparr>au_hash := []\<rparr>)"

definition hash_record :: "(gotime \<Rightarrow> string) \<Rightarrow> (real \<Rightarrow> string) \<Rightarrow> audit_record \<Rightarrow> string" where
  "hash_record ft ff r = sha256_hex (chained_text ft ff r)"

abbreviation audit_newline :: char where "audit_newline \<equiv> CHR 0x0A"

record sealer =
  se_enabled :: bool
  se_seal :: "string \<Rightarrow> string option"
  se_open :: "string \<Rightarrow> string option"

definition encode_line :: "sealer \<Rightarrow> string \<Rightarrow> string option" where
  "encode_line se line = (if \<not> se_enabled se then Some line else se_seal se line)"

definition decode_line :: "sealer \<Rightarrow> string \<Rightarrow> string option" where
  "decode_line se line = (if line \<noteq> [] \<and> hd line = CHR ''{'' then Some line else se_open se line)"

text \<open>
  The open log: the file, and \<open>bufio.Writer\<close>'s error, which sticks once a write failed.
\<close>

record audit_log =
  al_file :: string
  al_broken :: bool
  al_seq :: int
  al_prev :: string

text \<open>How a write ends: all of it, or some first bytes and an error.\<close>

datatype audit_io = Audit_Written | Audit_Torn nat

definition next_record :: "gotime \<Rightarrow> string \<Rightarrow> string \<Rightarrow> string \<Rightarrow> string \<Rightarrow> props \<Rightarrow> audit_log \<Rightarrow> audit_record" where
  "next_record now action subject role tenant flds l =
     \<lparr>au_seq = al_seq l + 1, au_time = now, au_action = action, au_subject = strip_nul subject, au_role = role,
      au_tenant = strip_nul tenant, au_fields = storable_fields flds, au_prev = al_prev l, au_hash = []\<rparr>"

definition audit_record_op ::
  "(gotime \<Rightarrow> string) \<Rightarrow> (real \<Rightarrow> string) \<Rightarrow> sealer \<Rightarrow> audit_io \<Rightarrow> gotime \<Rightarrow> string \<Rightarrow> string \<Rightarrow> string \<Rightarrow> string \<Rightarrow> string \<Rightarrow> props \<Rightarrow>
     audit_log \<Rightarrow> audit_log" where
  "audit_record_op ft ff se io now reqid action subject role tenant flds l =
     (let rec = next_record now action subject role tenant (with_request_id reqid flds) l;
          rec = rec\<lparr>au_hash := hash_record ft ff rec\<rparr>
      in case encode_line se (marshal ft ff rec) of
           None \<Rightarrow> l
         | Some out \<Rightarrow>
             if al_broken l then l
             else (case io of
                     Audit_Torn k \<Rightarrow> l\<lparr>al_file := al_file l @ take k (out @ [audit_newline]), al_broken := True\<rparr>
                   | Audit_Written \<Rightarrow>
                       l\<lparr>al_file := al_file l @ out @ [audit_newline], al_seq := au_seq rec, al_prev := au_hash rec\<rparr>))"

section \<open>Reading it back\<close>

text \<open>\<open>bufio.ScanLines\<close>, which drops a carriage return before the newline; empty lines are skipped.\<close>

definition drop_cr :: "string \<Rightarrow> string" where
  "drop_cr s = (if s \<noteq> [] \<and> last s = CHR 0x0D then butlast s else s)"

definition audit_lines :: "string \<Rightarrow> string list" where
  "audit_lines b = filter (\<lambda>s. s \<noteq> []) (map drop_cr (split_on audit_newline b))"

datatype audit_error = Undecodable | Broken_Link | Seq_Jumped int | Hash_Mismatch

fun audit_tail :: "(string \<Rightarrow> audit_record option) \<Rightarrow> sealer \<Rightarrow> string list \<Rightarrow> int \<times> string \<Rightarrow> (audit_error + int \<times> string)" where
  "audit_tail parse se [] seen = Inr seen"
| "audit_tail parse se (line # ls) seen =
     (case decode_line se line of
        None \<Rightarrow> Inl Undecodable
      | Some dec \<Rightarrow>
          (case parse dec of
             None \<Rightarrow> Inl Undecodable
           | Some r \<Rightarrow> audit_tail parse se ls (au_seq r, au_hash r)))"

definition audit_open :: "(string \<Rightarrow> audit_record option) \<Rightarrow> sealer \<Rightarrow> string \<Rightarrow> audit_error + audit_log" where
  "audit_open parse se b =
     (case audit_tail parse se (audit_lines b) (0, []) of
        Inl err \<Rightarrow> Inl err
      | Inr (seq, prev) \<Rightarrow> Inr \<lparr>al_file = b, al_broken = False, al_seq = seq, al_prev = prev\<rparr>)"

text \<open>\<open>Verify\<close>: the records that check, and the first error.\<close>

fun verify_lines ::
  "(gotime \<Rightarrow> string) \<Rightarrow> (real \<Rightarrow> string) \<Rightarrow> (string \<Rightarrow> audit_record option) \<Rightarrow> sealer \<Rightarrow> string list \<Rightarrow> int \<Rightarrow> string \<Rightarrow> nat \<Rightarrow>
     nat \<times> audit_error option" where
  "verify_lines ft ff parse se [] seq prev n = (n, None)"
| "verify_lines ft ff parse se (line # ls) seq prev n =
     (case decode_line se line of
        None \<Rightarrow> (n, Some Undecodable)
      | Some dec \<Rightarrow>
          (case parse dec of
             None \<Rightarrow> (n, Some Undecodable)
           | Some r \<Rightarrow>
               if au_prev r \<noteq> prev then (n, Some Broken_Link)
               else if au_seq r \<noteq> seq + 1 then (n, Some (Seq_Jumped (au_seq r)))
               else if hash_record ft ff r \<noteq> au_hash r then (n, Some Hash_Mismatch)
               else verify_lines ft ff parse se ls (au_seq r) (au_hash r) (n + 1)))"

definition audit_verify ::
  "(gotime \<Rightarrow> string) \<Rightarrow> (real \<Rightarrow> string) \<Rightarrow> (string \<Rightarrow> audit_record option) \<Rightarrow> sealer \<Rightarrow> string \<Rightarrow> nat \<times> audit_error option" where
  "audit_verify ft ff parse se b = verify_lines ft ff parse se (audit_lines b) 0 [] 0"

end
