(* ===== verification/Audit_Laws.thy ===== *)
theory Audit_Laws
  imports Audit_Log
begin

text \<open>
  What the audit log promises: what it writes verifies, across restarts, when no write tore and every
  record is one the JSON encoding gives back; two logs that verify
  and end in the same hash hold the same records, up to a collision of SHA-256 between texts
  of the two; and where the promise fails - a byte that is not UTF-8, a torn line.
\<close>

section \<open>Texts and hashes\<close>

lemma quote_not_hex: "\<not> hex_char (CHR 0x22)"
  by code_simp

lemma hex_plain_chars: "list_all (\<lambda>c. of_char c \<le> (0x7F :: nat) \<and> json_ascii c = [c]) ''0123456789abcdef''"
  by code_simp

lemma hex_plain: "hex_char c \<Longrightarrow> of_char c \<le> (0x7F :: nat) \<and> json_ascii c = [c]"
  using hex_plain_chars by (simp only: list_all_iff hex_char_def)

lemma json_hex: "\<forall>c \<in> set s. hex_char c \<Longrightarrow> json_chars s = s"
proof (induction s)
  case (Cons c s)
  have "hex_char c" using Cons.prems by simp
  then have "rune_len (c # s) = 1 \<and> json_ascii c = [c]" using hex_plain by (simp add: rune_len_def byte_in_def)
  then show ?case using Cons by (simp add: Let_def)
qed simp

text \<open>A hash field, and the link to the record before: empty, or sixty-four hexadecimal digits.\<close>

definition link_form :: "string \<Rightarrow> bool" where
  "link_form p \<longleftrightarrow> p = [] \<or> (length p = 64 \<and> (\<forall>c \<in> set p. hex_char c))"

lemma link_last: "link_form p \<Longrightarrow> p \<noteq> [] \<Longrightarrow> last p \<noteq> CHR 0x22"
  using quote_not_hex last_in_set [of p] unfolding link_form_def by metis

lemma hash_link: "link_form (hash_record ft ff r)"
  using hex_encode_chars by (simp add: link_form_def hash_record_def sha256_hex_def [symmetric] length_sha256_hex)
    (simp add: sha256_hex_def)

lemma hash_not_empty: "hash_record ft ff r \<noteq> []"
  using length_sha256_hex [of "chained_text ft ff r"] by (auto simp: hash_record_def)

definition text_front :: "(gotime \<Rightarrow> string) \<Rightarrow> (real \<Rightarrow> string) \<Rightarrow> audit_record \<Rightarrow> string" where
  "text_front ft ff r = ''{'' @ concat (map (\<lambda>kv. json_pair kv @ '','') (front_fields ft ff r))"

lemma join_pairs: "str_join (map f xs @ [a, b]) sep = concat (map (\<lambda>x. f x @ sep) xs) @ a @ sep @ b"
proof (induction xs)
  case (Cons x xs)
  have "str_join (f x # map f xs @ [a, b]) sep = f x @ sep @ str_join (map f xs @ [a, b]) sep"
    by (cases "map f xs @ [a, b]") auto
  then show ?case using Cons by simp
qed simp

lemma chained_text_split:
  "link_form (au_prev r) \<Longrightarrow> chained_text ft ff r =
     text_front ft ff r @ json_string ''prev_hash'' @ '':'' @ [CHR 0x22] @ au_prev r @ [CHR 0x22] @ '','' @ json_pair (''hash'', json_string []) @ ''}''"
proof -
  assume "link_form (au_prev r)"
  then have p: "json_chars (au_prev r) = au_prev r" using json_hex by (auto simp: link_form_def)
  have f: "front_fields ft ff (r\<lparr>au_hash := []\<rparr>) = front_fields ft ff r" by (simp add: front_fields_def)
  have "chained_text ft ff r = ''{'' @ str_join (map json_pair (front_fields ft ff r) @
      [json_pair (''prev_hash'', json_string (au_prev r)), json_pair (''hash'', json_string [])]) '','' @ ''}''"
    by (simp add: chained_text_def marshal_def json_object_def f)
  also have "\<dots> = text_front ft ff r @ json_pair (''prev_hash'', json_string (au_prev r)) @ '','' @ json_pair (''hash'', json_string []) @ ''}''"
    unfolding join_pairs by (simp add: text_front_def)
  also have "json_pair (''prev_hash'', json_string (au_prev r)) = json_string ''prev_hash'' @ '':'' @ [CHR 0x22] @ au_prev r @ [CHR 0x22]"
    by (simp add: json_pair_def json_string_def [of "au_prev r"] p)
  finally show ?thesis by (simp only: append_assoc)
qed

text \<open>The text determines the link.\<close>

lemma text_link:
  assumes "link_form (au_prev r)" "link_form (au_prev r')" "chained_text ft ff r = chained_text ft ff r'"
  shows "au_prev r = au_prev r'"
proof -
  define A where "A x = text_front ft ff x @ json_string ''prev_hash'' @ '':'' @ [CHR 0x22]" for x
  define Q where "Q = [CHR 0x22] @ '','' @ json_pair (''hash'', json_string []) @ ''}''"
  have t: "chained_text ft ff x = (A x @ au_prev x) @ Q" if "link_form (au_prev x)" for x
    unfolding chained_text_split [OF that] A_def Q_def append_assoc ..
  have "(A r @ au_prev r) @ Q = (A r' @ au_prev r') @ Q" using assms(3) unfolding t [OF assms(1)] t [OF assms(2)] .
  then have e: "A r @ au_prev r = A r' @ au_prev r'" by (rule append_same_eq [THEN iffD1])
  have q: "last (A x) = CHR 0x22" "A x \<noteq> []" for x by (simp_all add: A_def)
  consider "au_prev r = []" "au_prev r' = []" | "au_prev r = []" "au_prev r' \<noteq> []" | "au_prev r \<noteq> []" "au_prev r' = []"
    | "au_prev r \<noteq> []" "au_prev r' \<noteq> []" by blast
  then show ?thesis
  proof cases
    case 2
    then have "last (au_prev r') = CHR 0x22" using arg_cong [OF e, of last] q by simp
    then show ?thesis using 2 link_last [OF assms(2)] by simp
  next
    case 3
    then have "last (au_prev r) = CHR 0x22" using arg_cong [OF e, of last] q by simp
    then show ?thesis using 3 link_last [OF assms(1)] by simp
  next
    case 4
    then have "length (au_prev r) = length (au_prev r')" using assms(1,2) unfolding link_form_def by metis
    then show ?thesis using e append_eq_append_conv [of "au_prev r" "au_prev r'" "A r" "A r'"] by simp
  qed simp
qed

section \<open>Chains\<close>

fun chained :: "(gotime \<Rightarrow> string) \<Rightarrow> (real \<Rightarrow> string) \<Rightarrow> int \<Rightarrow> string \<Rightarrow> audit_record list \<Rightarrow> bool" where
  "chained ft ff seq prev [] = True"
| "chained ft ff seq prev (r # rs) \<longleftrightarrow>
     au_prev r = prev \<and> au_seq r = seq + 1 \<and> hash_record ft ff r = au_hash r \<and> chained ft ff (au_seq r) (au_hash r) rs"

definition chain_end :: "audit_record list \<Rightarrow> int \<times> string" where
  "chain_end rs = (if rs = [] then (0, []) else (au_seq (last rs), au_hash (last rs)))"

lemma chained_snoc:
  "chained ft ff seq prev (rs @ [r]) \<longleftrightarrow> chained ft ff seq prev rs \<and> hash_record ft ff r = au_hash r \<and>
     (au_seq r, au_prev r) = (if rs = [] then (seq + 1, prev) else (au_seq (last rs) + 1, au_hash (last rs)))"
  by (induction rs arbitrary: seq prev) auto

lemma chain_start: "chained ft ff 0 [] (rs @ [r]) \<Longrightarrow> au_seq r = fst (chain_end rs) + 1 \<and> au_prev r = snd (chain_end rs)"
  by (auto simp: chained_snoc chain_end_def split: if_splits)

lemma chain_end_form:
  "chained ft ff 0 [] rs \<Longrightarrow> fst (chain_end rs) = int (length rs) \<and> link_form (snd (chain_end rs)) \<and> (snd (chain_end rs) = [] \<longleftrightarrow> rs = [])"
proof (induction rs rule: rev_induct)
  case Nil
  then show ?case by (simp add: chain_end_def link_form_def)
next
  case (snoc r rs)
  have h: "hash_record ft ff r = au_hash r" "chained ft ff 0 [] rs" using snoc.prems by (simp_all add: chained_snoc)
  then show ?case using snoc.IH chain_start [OF snoc.prems] hash_link [of ft ff r] hash_not_empty [of ft ff r]
    by (simp add: chain_end_def)
qed

text \<open>The records of a file, as they are read back.\<close>

definition read_records :: "(string \<Rightarrow> audit_record option) \<Rightarrow> sealer \<Rightarrow> string \<Rightarrow> audit_record list" where
  "read_records parse se b = List.map_filter (\<lambda>line. Option.bind (decode_line se line) parse) (audit_lines b)"

lemma verify_chained:
  "verify_lines ft ff parse se ls seq prev n = (m, None) \<Longrightarrow>
     chained ft ff seq prev (List.map_filter (\<lambda>line. Option.bind (decode_line se line) parse) ls) \<and>
     m = n + length (List.map_filter (\<lambda>line. Option.bind (decode_line se line) parse) ls)"
proof (induction ls arbitrary: seq prev n)
  case (Cons line ls)
  obtain dec r where d: "decode_line se line = Some dec" "parse dec = Some r" "au_prev r = prev" "au_seq r = seq + 1"
    "hash_record ft ff r = au_hash r" "verify_lines ft ff parse se ls (au_seq r) (au_hash r) (n + 1) = (m, None)"
    using Cons.prems by (simp split: option.splits if_splits)
  then show ?case using Cons.IH [OF d(6)] by (simp add: map_filter_simps)
qed (simp add: map_filter_simps)

lemma verified_chain: "audit_verify ft ff parse se b = (n, None) \<Longrightarrow> chained ft ff 0 [] (read_records parse se b) \<and> n = length (read_records parse se b)"
  using verify_chained [of ft ff parse se "audit_lines b" 0 "[]" 0 n] by (simp add: audit_verify_def read_records_def)

text \<open>Two chains with the same end hold the same texts, from the last record back.\<close>

lemma same_end_same_texts:
  "chained ft ff 0 [] rs \<Longrightarrow> chained ft ff 0 [] rs' \<Longrightarrow> snd (chain_end rs) = snd (chain_end rs') \<Longrightarrow>
   \<forall>x \<in> set rs. \<forall>y \<in> set rs'. hash_record ft ff x = hash_record ft ff y \<longrightarrow> chained_text ft ff x = chained_text ft ff y \<Longrightarrow>
   map (chained_text ft ff) rs = map (chained_text ft ff) rs'"
proof (induction rs arbitrary: rs' rule: rev_induct)
  case Nil
  then show ?case using chain_end_form [of ft ff rs'] by (simp add: chain_end_def)
next
  case (snoc r rs)
  have "rs' \<noteq> []" using snoc.prems(1-3) chain_end_form [of ft ff "rs @ [r]"] chain_end_form [of ft ff rs'] by auto
  then obtain qs q where rs': "rs' = qs @ [q]" by (metis rev_exhaust)
  have h: "hash_record ft ff r = hash_record ft ff q"
    using snoc.prems(1-3) unfolding rs' by (simp add: chained_snoc chain_end_def)
  then have t: "chained_text ft ff r = chained_text ft ff q" using snoc.prems(4) rs' by simp
  have c: "chained ft ff 0 [] rs" "chained ft ff 0 [] qs" using snoc.prems(1,2) rs' by (simp_all add: chained_snoc)
  have p: "au_prev r = snd (chain_end rs)" "au_prev q = snd (chain_end qs)"
    using chain_start snoc.prems(1,2) rs' by blast+
  have "au_prev r = au_prev q" by (rule text_link [OF _ _ t]) (use p chain_end_form c in auto)
  then have "map (chained_text ft ff) rs = map (chained_text ft ff) qs" using snoc.IH [OF c] snoc.prems(4) p rs' by simp
  then show ?case using t rs' by simp
qed

text \<open>
  C31. The log is tamper-evident: two files that verify and end in the same hash hold the same
  records - as many, in the same order, each with the text that was hashed - unless two
  different texts of theirs share a SHA-256 digest. So whoever kept the last hash notices
  every change to what came before it.
\<close>

theorem audit_tamper_evident:
  assumes "audit_verify ft ff parse se b = (n, None)" "audit_verify ft ff parse' se' b' = (m, None)"
    and "snd (chain_end (read_records parse se b)) = snd (chain_end (read_records parse' se' b'))"
    and "\<forall>x \<in> set (read_records parse se b). \<forall>y \<in> set (read_records parse' se' b').
      hash_record ft ff x = hash_record ft ff y \<longrightarrow> chained_text ft ff x = chained_text ft ff y"
  shows "n = m \<and> map (chained_text ft ff) (read_records parse se b) = map (chained_text ft ff) (read_records parse' se' b')"
proof -
  note v = verified_chain [OF assms(1)] verified_chain [OF assms(2)]
  then have "map (chained_text ft ff) (read_records parse se b) = map (chained_text ft ff) (read_records parse' se' b')"
    using same_end_same_texts assms(3,4) by blast
  then show ?thesis using v by (metis length_map)
qed

section \<open>What it writes verifies\<close>

text \<open>
  What the log relies on for the records of \<open>E\<close>: sealing opens, a line is a line, and decoding
  the JSON of a record gives one with the same chain fields and the same text.
\<close>

definition audit_codec :: "(gotime \<Rightarrow> string) \<Rightarrow> (real \<Rightarrow> string) \<Rightarrow> (string \<Rightarrow> audit_record option) \<Rightarrow> sealer \<Rightarrow> audit_record set \<Rightarrow> bool" where
  "audit_codec ft ff parse se E \<longleftrightarrow> (\<forall>r \<in> E. \<exists>out r'. encode_line se (marshal ft ff r) = Some out \<and> out \<noteq> [] \<and>
     audit_newline \<notin> set out \<and> last out \<noteq> CHR 0x0D \<and> decode_line se out = Some (marshal ft ff r) \<and>
     parse (marshal ft ff r) = Some r' \<and> au_seq r' = au_seq r \<and> au_prev r' = au_prev r \<and> au_hash r' = au_hash r \<and>
     chained_text ft ff r' = chained_text ft ff r)"

definition written_record :: "(gotime \<Rightarrow> string) \<Rightarrow> (real \<Rightarrow> string) \<Rightarrow> gotime \<Rightarrow> string \<Rightarrow> string \<Rightarrow> string \<Rightarrow> string \<Rightarrow> string \<Rightarrow> props \<Rightarrow> audit_log \<Rightarrow> audit_record" where
  "written_record ft ff now reqid action subject role tenant flds l =
     (let rec = next_record now action subject role tenant (with_request_id reqid flds) l in rec\<lparr>au_hash := hash_record ft ff rec\<rparr>)"

text \<open>
  The history of a log: any record asked of it, its write whole or torn, and any restart that
  opens. Beside the log it keeps the records that were written whole, and whether a write tore.
\<close>

type_synonym audit_history = "audit_log \<times> audit_record list \<times> bool"

inductive audit_step ::
  "(gotime \<Rightarrow> string) \<Rightarrow> (real \<Rightarrow> string) \<Rightarrow> (string \<Rightarrow> audit_record option) \<Rightarrow> sealer \<Rightarrow> audit_history \<Rightarrow> audit_history \<Rightarrow> bool"
  for ft ff parse se where
  step_record: "rec = written_record ft ff now reqid action subject role tenant flds l \<Longrightarrow>
     stored = (if encode_line se (marshal ft ff rec) \<noteq> None \<and> \<not> al_broken l \<and> io = Audit_Written then [rec] else []) \<Longrightarrow>
     audit_step ft ff parse se (l, rs, torn)
       (audit_record_op ft ff se io now reqid action subject role tenant flds l, rs @ stored, torn \<or> io \<noteq> Audit_Written)"
| step_reopen: "audit_open parse se (al_file l) = Inr l' \<Longrightarrow> audit_step ft ff parse se (l, rs, torn) (l', rs, torn)"

inductive_cases audit_stepE: "audit_step ft ff parse se (l, rs, torn) h"

definition audit_file :: "(gotime \<Rightarrow> string) \<Rightarrow> (real \<Rightarrow> string) \<Rightarrow> sealer \<Rightarrow> audit_record list \<Rightarrow> string" where
  "audit_file ft ff se rs = concat (map (\<lambda>r. the (encode_line se (marshal ft ff r)) @ [audit_newline]) rs)"

text \<open>What a log holds while no write has torn and the records written are read back as they were.\<close>

definition audit_inv :: "(gotime \<Rightarrow> string) \<Rightarrow> (real \<Rightarrow> string) \<Rightarrow> (string \<Rightarrow> audit_record option) \<Rightarrow> sealer \<Rightarrow> audit_history \<Rightarrow> bool" where
  "audit_inv ft ff parse se = (\<lambda>(l, rs, torn). \<not> torn \<longrightarrow> audit_codec ft ff parse se (set rs) \<longrightarrow>
     chained ft ff 0 [] rs \<and> chain_end rs = (al_seq l, al_prev l) \<and> \<not> al_broken l \<and> al_file l = audit_file ft ff se rs)"

lemma audit_lines_file:
  assumes "audit_codec ft ff parse se E" "set rs \<subseteq> E"
  shows "audit_lines (audit_file ft ff se rs) = map (\<lambda>r. the (encode_line se (marshal ft ff r))) rs"
  using assms(2)
proof (induction rs)
  case Nil
  then show ?case by (simp add: audit_lines_def audit_file_def drop_cr_def)
next
  case (Cons r rs)
  obtain out where out: "encode_line se (marshal ft ff r) = Some out" "out \<noteq> []" "audit_newline \<notin> set out" "last out \<noteq> CHR 0x0D"
    using assms(1) Cons.prems unfolding audit_codec_def by (metis insert_subset list.set(2))
  have "audit_file ft ff se (r # rs) = out @ audit_newline # audit_file ft ff se rs" by (simp add: audit_file_def out(1))
  then have "audit_lines (audit_file ft ff se (r # rs)) = out # audit_lines (audit_file ft ff se rs)"
    using out by (simp add: audit_lines_def split_on_append drop_cr_def)
  then show ?case using Cons out(1) by simp
qed

lemma verify_written:
  assumes "audit_codec ft ff parse se E"
  shows "set rs \<subseteq> E \<Longrightarrow> chained ft ff seq prev rs \<Longrightarrow>
    verify_lines ft ff parse se (map (\<lambda>r. the (encode_line se (marshal ft ff r))) rs) seq prev n = (n + length rs, None)"
proof (induction rs arbitrary: seq prev n)
  case (Cons r rs)
  obtain out r' where o: "encode_line se (marshal ft ff r) = Some out" "decode_line se out = Some (marshal ft ff r)"
    "parse (marshal ft ff r) = Some r'" "au_seq r' = au_seq r" "au_prev r' = au_prev r" "au_hash r' = au_hash r"
    "chained_text ft ff r' = chained_text ft ff r"
    using assms Cons.prems(1) unfolding audit_codec_def by (metis insert_subset list.set(2))
  have "hash_record ft ff r' = hash_record ft ff r" using o(7) by (simp add: hash_record_def)
  moreover have "verify_lines ft ff parse se (map (\<lambda>r. the (encode_line se (marshal ft ff r))) rs) (au_seq r) (au_hash r) (n + 1) = (n + 1 + length rs, None)"
    using Cons.prems by (intro Cons.IH) auto
  ultimately show ?case using Cons.prems(2) o by simp
qed simp

lemma tail_written:
  assumes "audit_codec ft ff parse se E"
  shows "set rs \<subseteq> E \<Longrightarrow> audit_tail parse se (map (\<lambda>r. the (encode_line se (marshal ft ff r))) rs) seen =
    Inr (if rs = [] then seen else (au_seq (last rs), au_hash (last rs)))"
proof (induction rs arbitrary: seen)
  case (Cons r rs)
  obtain out r' where o: "encode_line se (marshal ft ff r) = Some out" "decode_line se out = Some (marshal ft ff r)"
    "parse (marshal ft ff r) = Some r'" "au_seq r' = au_seq r" "au_hash r' = au_hash r"
    using assms Cons.prems(1) unfolding audit_codec_def by (metis insert_subset list.set(2))
  then show ?case using Cons by simp
qed simp

lemma read_written:
  assumes "audit_codec ft ff parse se E"
  shows "set rs \<subseteq> E \<Longrightarrow> map (chained_text ft ff)
      (List.map_filter (\<lambda>line. Option.bind (decode_line se line) parse) (map (\<lambda>r. the (encode_line se (marshal ft ff r))) rs)) =
    map (chained_text ft ff) rs"
proof (induction rs)
  case Nil
  then show ?case by (simp add: map_filter_simps)
next
  case (Cons r rs)
  obtain out r' where "encode_line se (marshal ft ff r) = Some out" "decode_line se out = Some (marshal ft ff r)"
    "parse (marshal ft ff r) = Some r'" "chained_text ft ff r' = chained_text ft ff r"
    using assms Cons.prems(1) unfolding audit_codec_def by (metis insert_subset list.set(2))
  then show ?case using Cons by (simp add: map_filter_simps)
qed

lemma open_written:
  assumes "audit_codec ft ff parse se E" "set rs \<subseteq> E"
  shows "audit_open parse se (audit_file ft ff se rs) =
    Inr \<lparr>al_file = audit_file ft ff se rs, al_broken = False, al_seq = fst (chain_end rs), al_prev = snd (chain_end rs)\<rparr>"
  using tail_written [OF assms, of "(0, [])"] by (simp add: audit_open_def audit_lines_file [OF assms] chain_end_def)

lemma written_chains:
  "au_seq (written_record ft ff now reqid action subject role tenant flds l) = al_seq l + 1 \<and>
   au_prev (written_record ft ff now reqid action subject role tenant flds l) = al_prev l \<and>
   hash_record ft ff (written_record ft ff now reqid action subject role tenant flds l) =
     au_hash (written_record ft ff now reqid action subject role tenant flds l)"
  by (simp add: written_record_def next_record_def Let_def hash_record_def chained_text_def)

lemma record_cases:
  assumes "rec = written_record ft ff now reqid action subject role tenant flds l"
  shows "audit_record_op ft ff se io now reqid action subject role tenant flds l =
    (case encode_line se (marshal ft ff rec) of
       None \<Rightarrow> l
     | Some out \<Rightarrow>
         if al_broken l then l
         else (case io of
                 Audit_Torn k \<Rightarrow> l\<lparr>al_file := al_file l @ take k (out @ [audit_newline]), al_broken := True\<rparr>
               | Audit_Written \<Rightarrow> l\<lparr>al_file := al_file l @ out @ [audit_newline], al_seq := au_seq rec, al_prev := au_hash rec\<rparr>))"
  unfolding assms written_record_def audit_record_op_def Let_def by (rule refl)

lemma audit_file_snoc:
  "encode_line se (marshal ft ff r) = Some out \<Longrightarrow> audit_file ft ff se (rs @ [r]) = audit_file ft ff se rs @ out @ [audit_newline]"
  by (simp add: audit_file_def)

lemma codec_subset: "audit_codec ft ff parse se E \<Longrightarrow> F \<subseteq> E \<Longrightarrow> audit_codec ft ff parse se F"
  unfolding audit_codec_def by blast

lemma audit_inv_step:
  assumes inv: "audit_inv ft ff parse se h" and step: "audit_step ft ff parse se h h'"
  shows "audit_inv ft ff parse se h'"
  using step
proof (cases rule: audit_step.cases)
  case (step_record rec now reqid action subject role tenant flds l stored io rs torn)
  have rec: "au_seq rec = al_seq l + 1" "au_prev rec = al_prev l" "hash_record ft ff rec = au_hash rec"
    using written_chains unfolding step_record(3) by blast+
  show ?thesis
  proof (cases "encode_line se (marshal ft ff rec)")
    case None
    then show ?thesis using inv by (auto simp: step_record(1,2,4) record_cases [OF step_record(3)] audit_inv_def)
  next
    case (Some out)
    have "chained ft ff 0 [] (rs @ [rec])" if "chained ft ff 0 [] rs" "chain_end rs = (al_seq l, al_prev l)"
      using that rec by (auto simp: chained_snoc chain_end_def split: if_splits)
    then show ?thesis
      using inv Some codec_subset [of ft ff parse se "set (rs @ stored)" "set rs"]
      by (auto simp: step_record(1,2,4) record_cases [OF step_record(3)] audit_inv_def audit_file_snoc [OF Some] chain_end_def
          split: audit_io.splits)
  qed
next
  case (step_reopen l l' rs torn)
  then show ?thesis
    using inv open_written [of ft ff parse se "set rs" rs] by (auto simp: audit_inv_def)
qed

definition empty_audit_log :: audit_log where
  "empty_audit_log = \<lparr>al_file = [], al_broken = False, al_seq = 0, al_prev = []\<rparr>"

lemma audit_inv_history:
  "(audit_step ft ff parse se)\<^sup>*\<^sup>* (empty_audit_log, [], False) h \<Longrightarrow> audit_inv ft ff parse se h"
proof (induction rule: rtranclp_induct)
  case base
  show ?case unfolding audit_inv_def by (simp add: empty_audit_log_def chain_end_def audit_file_def)
qed (blast intro: audit_inv_step)

text \<open>
  C6. The round trip of the log: after any history of records and restarts in which no write has
  torn and every record written is one the JSON encoding gives back - its text valid UTF-8, its
  numbers within a float - the file verifies from the first line - every record written, and no
  error - and opening it gives back the very log, so a restart carries the chain on; what is
  read are the records written, in their order.
\<close>

theorem audit_verifies:
  assumes "(audit_step ft ff parse se)\<^sup>*\<^sup>* (empty_audit_log, [], False) (l, rs, False)" "audit_codec ft ff parse se (set rs)"
  shows "audit_verify ft ff parse se (al_file l) = (length rs, None) \<and> audit_open parse se (al_file l) = Inr l \<and>
    map (chained_text ft ff) (read_records parse se (al_file l)) = map (chained_text ft ff) rs"
proof -
  have rs: "chained ft ff 0 [] rs" "chain_end rs = (al_seq l, al_prev l)" "\<not> al_broken l" "al_file l = audit_file ft ff se rs"
    using audit_inv_history [OF assms(1)] assms(2) unfolding audit_inv_def by auto
  have "audit_verify ft ff parse se (al_file l) = (length rs, None)"
    using verify_written [OF assms(2) subset_refl rs(1), of 0] by (simp add: audit_verify_def rs(4) audit_lines_file [OF assms(2) subset_refl])
  moreover have "map (chained_text ft ff) (read_records parse se (al_file l)) = map (chained_text ft ff) rs"
    using read_written [OF assms(2) subset_refl] by (simp add: rs(4) read_records_def audit_lines_file [OF assms(2) subset_refl])
  ultimately show ?thesis using open_written [OF assms(2) subset_refl] rs(2,3,4) by simp
qed

text \<open>A log of one record, its line sealed as hexadecimal digits, and a restart.\<close>

definition sample_ft :: "gotime \<Rightarrow> string" where "sample_ft t = ''1970-01-01T00:00:00Z''"
definition sample_ff :: "real \<Rightarrow> string" where "sample_ff x = ''0''"

definition sample_record :: audit_record where
  "sample_record = written_record sample_ft sample_ff 0 [] ''view.graph'' ''token:abc'' ''admin'' ''acme'' [] empty_audit_log"

definition sample_text :: string where
  "sample_text = marshal sample_ft sample_ff sample_record"

text \<open>Sealing is modelled by hexadecimal digits after a tag that names the key.\<close>

definition sample_sealer :: "string \<Rightarrow> sealer" where
  "sample_sealer tag = \<lparr>se_enabled = True, se_seal = (\<lambda>s. Some (tag @ hex_encode s)),
     se_open = (\<lambda>s. if s = tag @ hex_encode sample_text then Some sample_text else None)\<rparr>"

definition sample_parse :: "string \<Rightarrow> audit_record option" where
  "sample_parse s = (if s = sample_text then Some sample_record else None)"

definition sample_file :: "string \<Rightarrow> string" where
  "sample_file tag = tag @ hex_encode sample_text @ [audit_newline]"

definition sample_log :: "string \<Rightarrow> audit_log" where
  "sample_log tag = \<lparr>al_file = sample_file tag, al_broken = False, al_seq = 1, al_prev = au_hash sample_record\<rparr>"

definition plain_tag :: "string \<Rightarrow> bool" where
  "plain_tag tag \<longleftrightarrow> list_all (\<lambda>c. c \<noteq> CHR 0x0A \<and> c \<noteq> CHR ''{'') tag"

lemma marshal_not_empty: "marshal ft ff r \<noteq> []"
  by (simp add: marshal_def json_object_def)

lemma sample_text_not_empty: "sample_text \<noteq> []"
  by (simp add: sample_text_def marshal_not_empty)

lemma hex_encode_nonempty: "s \<noteq> [] \<Longrightarrow> hex_encode s \<noteq> []"
  using length_hex_encode [of s] by auto

lemma hex_no_line_end: "\<not> hex_char (CHR 0x0A)" "\<not> hex_char (CHR 0x0D)" "\<not> hex_char (CHR ''{'')"
  by code_simp+

lemma hex_line:
  assumes "s \<noteq> []" "plain_tag tag"
  shows "CHR 0x0A \<notin> set (tag @ hex_encode s)" "last (tag @ hex_encode s) \<noteq> CHR 0x0D" "hd (tag @ hex_encode s) \<noteq> CHR ''{''"
proof -
  have h: "c \<in> set (tag @ hex_encode s) \<Longrightarrow> c \<noteq> CHR 0x0A \<and> c \<noteq> CHR ''{''" for c
    using assms(2) hex_encode_chars [of c s] hex_no_line_end unfolding plain_tag_def list_all_iff by auto
  then show "CHR 0x0A \<notin> set (tag @ hex_encode s)" "hd (tag @ hex_encode s) \<noteq> CHR ''{''"
    using hd_in_set [of "tag @ hex_encode s"] hex_encode_nonempty [OF assms(1)] by blast+
  show "last (tag @ hex_encode s) \<noteq> CHR 0x0D"
    using hex_encode_chars [OF last_in_set [OF hex_encode_nonempty [OF assms(1)]]] hex_no_line_end(2) hex_encode_nonempty [OF assms(1)]
    by (metis last_appendR)
qed

lemma sample_line: "encode_line (sample_sealer tag) sample_text = Some (tag @ hex_encode sample_text)"
  by (simp add: encode_line_def sample_sealer_def)

lemma sample_unsealed: "plain_tag tag \<Longrightarrow> decode_line (sample_sealer tag) (tag @ hex_encode sample_text) = Some sample_text"
  using hex_line(3) [OF sample_text_not_empty] by (simp add: decode_line_def sample_sealer_def)

lemma sample_codec: "plain_tag tag \<Longrightarrow> audit_codec sample_ft sample_ff sample_parse (sample_sealer tag) {sample_record}"
  using hex_line [OF sample_text_not_empty, of tag] hex_encode_nonempty [OF sample_text_not_empty]
  by (simp add: audit_codec_def sample_text_def [symmetric] sample_line sample_unsealed sample_parse_def del: last_append)

lemmas sample_chains = written_chains [of sample_ft sample_ff 0 "[]" "''view.graph''" "''token:abc''" "''admin''" "''acme''" "[]" empty_audit_log,
  folded sample_record_def]

lemma sample_step: "audit_step sample_ft sample_ff sample_parse (sample_sealer tag) (empty_audit_log, [], False) (sample_log tag, [sample_record], False)"
proof -
  have "sample_log tag = audit_record_op sample_ft sample_ff (sample_sealer tag) Audit_Written 0 [] ''view.graph'' ''token:abc'' ''admin'' ''acme'' [] empty_audit_log"
    unfolding record_cases [OF sample_record_def] sample_line [of tag, unfolded sample_text_def]
    using sample_chains by (simp add: sample_log_def sample_file_def empty_audit_log_def sample_text_def sample_line)
  moreover have "audit_step sample_ft sample_ff sample_parse (sample_sealer tag) (empty_audit_log, [], False)
      (audit_record_op sample_ft sample_ff (sample_sealer tag) Audit_Written 0 [] ''view.graph'' ''token:abc'' ''admin'' ''acme'' [] empty_audit_log,
       [] @ (if encode_line (sample_sealer tag) (marshal sample_ft sample_ff sample_record) \<noteq> None \<and> \<not> al_broken empty_audit_log \<and>
         Audit_Written = Audit_Written then [sample_record] else []), False \<or> Audit_Written \<noteq> Audit_Written)"
    by (rule step_record [OF sample_record_def refl])
  ultimately show ?thesis
    using sample_line [of tag] by (simp add: sample_text_def empty_audit_log_def)
qed

theorem audit_verifies_witness:
  "audit_verify sample_ft sample_ff sample_parse (sample_sealer ''v1:'') (sample_file ''v1:'') = (1, None) \<and>
   audit_open sample_parse (sample_sealer ''v1:'') (sample_file ''v1:'') = Inr (sample_log ''v1:'')"
proof -
  have tag: "plain_tag ''v1:''" by code_simp
  have "audit_codec sample_ft sample_ff sample_parse (sample_sealer ''v1:'') (set [sample_record])" using sample_codec [OF tag] by simp
  then show ?thesis using audit_verifies [OF r_into_rtranclp [of "audit_step _ _ _ _", OF sample_step]] by (simp add: sample_log_def)
qed

lemma sample_lines: "plain_tag tag \<Longrightarrow> audit_lines (sample_file tag) = [tag @ hex_encode sample_text]"
  using audit_lines_file [OF sample_codec, of tag "[sample_record]"]
  by (simp add: audit_file_def sample_text_def [symmetric] sample_line sample_file_def)

lemma sample_verifies:
  "plain_tag tag \<Longrightarrow> audit_verify sample_ft sample_ff sample_parse (sample_sealer tag) (sample_file tag) = (1, None)"
  using sample_chains
  by (simp add: audit_verify_def sample_lines sample_unsealed sample_parse_def) (simp add: empty_audit_log_def)

lemma sample_read: "plain_tag tag \<Longrightarrow> read_records sample_parse (sample_sealer tag) (sample_file tag) = [sample_record]"
  by (simp add: read_records_def sample_lines sample_unsealed sample_parse_def map_filter_simps)

text \<open>The same record in two files sealed under different keys: both verify and end in one hash.\<close>

theorem audit_tamper_evident_witness:
  "sample_file ''v1:'' \<noteq> sample_file ''v2:'' \<and>
   map (chained_text sample_ft sample_ff) (read_records sample_parse (sample_sealer ''v1:'') (sample_file ''v1:'')) =
   map (chained_text sample_ft sample_ff) (read_records sample_parse (sample_sealer ''v2:'') (sample_file ''v2:''))"
proof -
  have tag: "plain_tag ''v1:''" "plain_tag ''v2:''" by code_simp+
  have "sample_file ''v1:'' \<noteq> sample_file ''v2:''" by (simp add: sample_file_def)
  then show ?thesis
    using audit_tamper_evident [OF sample_verifies [OF tag(1)] sample_verifies [OF tag(2)]]
    unfolding sample_read [OF tag(1)] sample_read [OF tag(2)] by simp
qed

section \<open>Where the promise ends\<close>

text \<open>A line a crash left torn stops the log from opening again.\<close>

lemma tail_append: "audit_tail parse se (xs @ ys) seen = (case audit_tail parse se xs seen of Inl err \<Rightarrow> Inl err | Inr seen' \<Rightarrow> audit_tail parse se ys seen')"
  by (induction xs arbitrary: seen) (auto split: option.splits)

lemma torn_line_refused:
  assumes "audit_codec ft ff parse se E" "set rs \<subseteq> E" "audit_lines torn = [t]" "Option.bind (decode_line se t) parse = None"
    and "audit_lines (audit_file ft ff se rs @ torn) = audit_lines (audit_file ft ff se rs) @ audit_lines torn"
  shows "audit_open parse se (audit_file ft ff se rs @ torn) = Inl Undecodable"
  using assms(3,4) tail_written [OF assms(1,2), of "(0, [])"]
  by (auto simp: audit_open_def assms(5) audit_lines_file [OF assms(1,2)] tail_append split: option.splits)

text \<open>
  A byte that is not UTF-8 is written as the escape of U+FFFD and read back as its three
  bytes, whose text is another: the record does not verify, unless the digests collide.
\<close>

definition denied_request :: "string \<Rightarrow> audit_record" where
  "denied_request p = \<lparr>au_seq = 1, au_time = 0, au_action = ''auth.deny'', au_subject = ''anonymous'', au_role = [], au_tenant = [],
     au_fields = [(''path'', GStr p)], au_prev = [], au_hash = []\<rparr>"

lemma invalid_byte_fails_verify:
  assumes "w = (denied_request [CHR 0xFF])\<lparr>au_hash := hash_record ft ff (denied_request [CHR 0xFF])\<rparr>"
    and "w' = w\<lparr>au_fields := [(''path'', GStr [CHR 0xEF, CHR 0xBF, CHR 0xBD])]\<rparr>" "parse (marshal ft ff w) = Some w'"
    and "audit_lines b = [out]" "decode_line se out = Some (marshal ft ff w)"
    and "hash_record ft ff (denied_request [CHR 0xEF, CHR 0xBF, CHR 0xBD]) \<noteq> hash_record ft ff (denied_request [CHR 0xFF])"
  shows "audit_verify ft ff parse se b = (0, Some Hash_Mismatch)"
proof -
  have h: "hash_record ft ff w' = hash_record ft ff (denied_request [CHR 0xEF, CHR 0xBF, CHR 0xBD])"
    unfolding hash_record_def chained_text_def assms(1,2) denied_request_def by simp
  have p: "au_prev w' = []" "au_seq w' = 1" "au_hash w' = hash_record ft ff (denied_request [CHR 0xFF])"
    unfolding assms(1,2) denied_request_def by simp_all
  have "hash_record ft ff w' \<noteq> au_hash w'" unfolding h p using assms(6) .
  then show ?thesis unfolding audit_verify_def assms(4) verify_lines.simps assms(5) option.case assms(3)
    by (simp only: p if_False if_True not_True_eq_False add_0 simp_thms)
qed

lemma json_invalid: "json_chars [CHR 0xFF] = u_escape 0xFFFD"
  by (simp add: rune_len_def byte_in_def Let_def)

lemma json_replacement: "json_chars [CHR 0xEF, CHR 0xBF, CHR 0xBD] = [CHR 0xEF, CHR 0xBF, CHR 0xBD]"
  by (simp add: rune_len_def byte_in_def Let_def)

lemma invalid_byte_text_differs:
  "length (json_value ff (GMap (au_fields (denied_request [CHR 0xFF])))) \<noteq>
   length (json_value ff (GMap (au_fields (denied_request [CHR 0xEF, CHR 0xBF, CHR 0xBD]))))"
proof -
  have "length (u_escape 0xFFFD) = 6" by (simp add: u_escape_def)
  then show ?thesis
    by (simp add: denied_request_def json_object_def json_pair_def json_string_def json_invalid json_replacement del: json_chars.simps)
qed

end
