(* ===== verification/Cloudnet.thy ===== *)
theory Cloudnet
  imports Port_Sets Iam_Graph
begin

text \<open>
  Cloud network reachability, \<open>backend/internal/ingestion/cloudnet/cloudnet.go\<close>: what the internet
  reaches of every instance, service and load balancer - security groups, addresses, routes and
  network ACLs, port by port and per address family - and who reaches whom inside. The decoded
  bundle is the input and the clock an argument. \<open>sort.Slice\<close> is modelled by the stable sort.
\<close>

section \<open>Helpers of the package \<open>ingestion\<close>\<close>

definition region_from_arn :: "string \<Rightarrow> string" where
  "region_from_arn arn =
     (let parts = split_on (CHR '':'') arn
      in if length parts < 6 \<or> parts ! 0 \<noteq> ''arn'' then [] else parts ! 3)"

definition regional_id :: "label \<Rightarrow> string \<Rightarrow> string \<Rightarrow> string \<Rightarrow> string" where
  "regional_id lbl account region name =
     (if region = [] then scoped_id lbl account [name] else scoped_id lbl account [''region='' @ region, name])"

definition load_balancer_id :: "string \<Rightarrow> string \<Rightarrow> string \<Rightarrow> string" where
  "load_balancer_id account arn name =
     (let account = (if account = [] then account_from_arn arn else account)
      in regional_id label_lb account (region_from_arn arn) name)"

fun name_after :: "string list \<Rightarrow> string \<Rightarrow> string" where
  "name_after [] arn = []"
| "name_after (kind # kinds) arn =
     (case str_cut arn kind of
        None \<Rightarrow> name_after kinds arn
      | Some (_, rest) \<Rightarrow> (let parts = split_on (CHR ''/'') rest in if length parts \<ge> 3 then parts ! 1 else parts ! 0))"

definition load_balancer_name_from_arn :: "string \<Rightarrow> string" where
  "load_balancer_name_from_arn arn = name_after ['':loadbalancer/'', '':listener/''] arn"

definition imds_assume_prob :: "string \<Rightarrow> real" where
  "imds_assume_prob tokens = (if equal_fold tokens ''required'' then 6 / 10 else 9 / 10)"

text \<open>What follows the last slash.\<close>

definition base_name :: "string \<Rightarrow> string" where
  "base_name s = last (split_on (CHR ''/'') s)"

fun first_nonempty :: "string list \<Rightarrow> string" where
  "first_nonempty [] = []"
| "first_nonempty (v # vs) = (if v \<noteq> [] then v else first_nonempty vs)"

section \<open>The bundle\<close>

record ip_permission =
  ipp_protocol :: string
  ipp_from :: "int option"
  ipp_to :: "int option"
  ipp_ranges :: "string list"
  ipp_ranges6 :: "string list"
  ipp_pairs :: "string list"

record sec_group =
  sg_id :: string
  sg_perms :: "ip_permission list"

record net_interface =
  ni_public :: "string option"
  ni_addrs6 :: "string list"

record ec2_instance =
  in_id :: string
  in_subnet :: string
  in_groups :: "string list"
  in_tags :: "(string \<times> string) list"
  in_profile :: "string option"
  in_private :: string
  in_public :: string
  in_addr6 :: string
  in_interfaces :: "net_interface list"
  in_tokens :: "string option"

record vpc_peering =
  vp_requester :: string
  vp_accepter :: string

record subnet =
  sn_id :: string
  sn_route_table :: string
  sn_acl :: string

record route_entry =
  ro_dest :: string
  ro_dest6 :: string
  ro_gateway :: string
  ro_nat :: string
  ro_transit :: string
  ro_peering :: string
  ro_egress_only :: string

record route_table =
  rt_id :: string
  rt_routes :: "route_entry list"

record acl_entry =
  nae_number :: int
  nae_egress :: bool
  nae_cidr :: string
  nae_cidr6 :: string
  nae_action :: string
  nae_protocol :: string
  nae_range :: "(int option \<times> int option) option"

record network_acl =
  na_id :: string
  na_entries :: "acl_entry list"

record ecs_service =
  es_arn :: string
  es_name :: string
  es_cluster :: string
  es_role :: string
  es_assign_public :: string
  es_groups :: "string list"
  es_subnets :: "string list"
  es_target_groups :: "string list"

record lb_target =
  lt_id :: string
  lt_port :: "int option"

record target_group =
  tg_arn :: string
  tg_type :: string
  tg_protocol :: string
  tg_port :: "int option"
  tg_targets :: "lb_target list"

record load_balancer =
  lb_arn :: string
  lb_name :: string
  lb_type :: string
  lb_scheme :: string
  lb_ip_type :: string
  lb_groups :: "string list"
  lb_subnets :: "string list"
  lb_listeners :: "(string \<times> int option) list"
  lb_target_groups :: "target_group list"

record instance_profile =
  ip_arn :: string
  ip_roles :: "(string \<times> string) list"

record cn_bundle =
  cb_groups :: "sec_group list"
  cb_instances :: "ec2_instance list"
  cb_peerings :: "vpc_peering list"
  cb_subnets :: "subnet list"
  cb_route_tables :: "route_table list"
  cb_acls :: "network_acl list"
  cb_services :: "ecs_service list"
  cb_balancers :: "load_balancer list"
  cb_profiles :: "instance_profile list"

section \<open>Security groups\<close>

record family_ports =
  fp_v4 :: port_set
  fp_v6 :: port_set

definition no_ports :: family_ports where
  "no_ports = \<lparr>fp_v4 = [], fp_v6 = []\<rparr>"

definition fp_at :: "(string, family_ports) gomap \<Rightarrow> string \<Rightarrow> family_ports" where
  "fp_at m g = (case map_of m g of Some fp \<Rightarrow> fp | None \<Rightarrow> no_ports)"

definition fp_union :: "family_ports \<Rightarrow> family_ports \<Rightarrow> family_ports" where
  "fp_union x y = \<lparr>fp_v4 = ps_union (fp_v4 x) (fp_v4 y), fp_v6 = ps_union (fp_v6 x) (fp_v6 y)\<rparr>"

definition any_v4 :: string where "any_v4 = ''0.0.0.0/0''"
definition any_v6 :: string where "any_v6 = ''::/0''"

definition open_range :: "port_set \<Rightarrow> string \<Rightarrow> family_ports \<Rightarrow> family_ports" where
  "open_range ports cidr fp =
     (if cidr = any_v4 then fp\<lparr>fp_v4 := ps_union (fp_v4 fp) ports\<rparr>
      else if cidr = any_v6 then fp\<lparr>fp_v6 := ps_union (fp_v6 fp) ports\<rparr>
      else fp)"

definition open_range6 :: "port_set \<Rightarrow> string \<Rightarrow> family_ports \<Rightarrow> family_ports" where
  "open_range6 ports cidr fp = (if cidr = any_v6 then fp\<lparr>fp_v6 := ps_union (fp_v6 fp) ports\<rparr> else fp)"

definition perm_ports :: "ip_permission \<Rightarrow> port_set" where
  "perm_ports pm = rule_ports (ipp_protocol pm) (ipp_from pm) (ipp_to pm)"

type_synonym sg_peers = "(string, (string, port_set) gomap) gomap"

definition ports_at :: "('k, port_set) gomap \<Rightarrow> 'k \<Rightarrow> port_set" where
  "ports_at m k = (case map_of m k of Some ps \<Rightarrow> ps | None \<Rightarrow> [])"

definition peers_at :: "sg_peers \<Rightarrow> string \<Rightarrow> (string, port_set) gomap" where
  "peers_at m g = (case map_of m g of Some srcs \<Rightarrow> srcs | None \<Rightarrow> [])"

definition add_pair :: "string \<Rightarrow> port_set \<Rightarrow> string \<Rightarrow> sg_peers \<Rightarrow> sg_peers" where
  "add_pair gid ports src m =
     (if src = [] then m
      else (let srcs = peers_at m gid
            in AList.update gid (AList.update src (ps_union (ports_at srcs src) ports) srcs) m))"

definition group_perm ::
  "string \<Rightarrow> ip_permission \<Rightarrow> (string, family_ports) gomap \<times> sg_peers \<Rightarrow> (string, family_ports) gomap \<times> sg_peers" where
  "group_perm gid pm = (\<lambda>(inet, peers).
     (let ports = perm_ports pm;
          opened = fold (open_range6 ports) (ipp_ranges6 pm) (fold (open_range ports) (ipp_ranges pm) (fp_at inet gid))
      in (AList.update gid opened inet, fold (add_pair gid ports) (ipp_pairs pm) peers)))"

definition group_rules :: "sec_group list \<Rightarrow> (string, family_ports) gomap \<times> sg_peers" where
  "group_rules sgs = fold (\<lambda>sg st. fold (group_perm (sg_id sg)) (sg_perms sg) st) sgs ([], [])"

section \<open>The network layer\<close>

record family_flags =
  ff_v4 :: bool
  ff_v6 :: bool

record family_rules =
  fr_v4 :: "firewall_rule list"
  fr_v6 :: "firewall_rule list"

record net_layer =
  nl_subnet_rt :: "(string, string) gomap"
  nl_subnet_acl :: "(string, string) gomap"
  nl_rt_igw :: "(string, family_flags) gomap"
  nl_rt_egress :: "(string, string) gomap"
  nl_acls :: "(string, family_rules) gomap"

record addresses =
  ad_known :: bool
  ad_v4 :: bool
  ad_v6 :: bool

definition subnet_rts :: "subnet list \<Rightarrow> (string, string) gomap" where
  "subnet_rts sns = fold (\<lambda>s m. if sn_route_table s \<noteq> [] then AList.update (sn_id s) (sn_route_table s) m else m) sns []"

definition subnet_acls :: "subnet list \<Rightarrow> (string, string) gomap" where
  "subnet_acls sns = fold (\<lambda>s m. if sn_acl s \<noteq> [] then AList.update (sn_id s) (sn_acl s) m else m) sns []"

definition flags_at :: "(string, family_flags) gomap \<Rightarrow> string \<Rightarrow> family_flags" where
  "flags_at m rt = (case map_of m rt of Some f \<Rightarrow> f | None \<Rightarrow> \<lparr>ff_v4 = False, ff_v6 = False\<rparr>)"

definition default_v4 :: "route_entry \<Rightarrow> bool" where
  "default_v4 r \<longleftrightarrow> ro_dest r = any_v4"

definition default_v6 :: "route_entry \<Rightarrow> bool" where
  "default_v6 r \<longleftrightarrow> ro_dest6 r = any_v6 \<or> ro_dest r = any_v6"

definition to_igw :: "route_entry \<Rightarrow> bool" where
  "to_igw r \<longleftrightarrow> prefix ''igw-'' (ro_gateway r)"

definition classify_route ::
  "string \<Rightarrow> route_entry \<Rightarrow> (string, family_flags) gomap \<times> (string, string) gomap \<Rightarrow> (string, family_flags) gomap \<times> (string, string) gomap" where
  "classify_route rt r = (\<lambda>(igw, egress).
     (if \<not> default_v4 r \<and> \<not> default_v6 r then (igw, egress)
      else if to_igw r
      then (let f = flags_at igw rt
            in (AList.update rt \<lparr>ff_v4 = (ff_v4 f \<or> default_v4 r), ff_v6 = (ff_v6 f \<or> default_v6 r)\<rparr> igw, egress))
      else if ro_nat r \<noteq> [] then (igw, AList.update rt ''a NAT gateway'' egress)
      else if ro_transit r \<noteq> [] then (igw, AList.update rt ''a transit gateway'' egress)
      else if ro_peering r \<noteq> [] then (igw, AList.update rt ''a VPC peering connection'' egress)
      else if ro_egress_only r \<noteq> [] \<or> prefix ''eigw-'' (ro_gateway r) then (igw, AList.update rt ''an egress-only internet gateway'' egress)
      else (igw, egress)))"

definition route_classes :: "route_table list \<Rightarrow> (string, family_flags) gomap \<times> (string, string) gomap" where
  "route_classes rts = fold (\<lambda>rt st. fold (classify_route (rt_id rt)) (rt_routes rt) st) rts ([], [])"

definition entry_rule :: "acl_entry \<Rightarrow> firewall_rule" where
  "entry_rule e =
     (let (f, t) = (case nae_range e of Some r \<Rightarrow> r | None \<Rightarrow> (None, None))
      in \<lparr>fr_ports = rule_ports (nae_protocol e) f t, fr_allow = equal_fold (nae_action e) ''allow''\<rparr>)"

definition add_entry :: "acl_entry \<Rightarrow> family_rules \<Rightarrow> family_rules" where
  "add_entry e fr =
     (if nae_egress e then fr
      else (let fr = (if nae_cidr e = any_v4 then fr\<lparr>fr_v4 := fr_v4 fr @ [entry_rule e]\<rparr> else fr)
            in if nae_cidr6 e = any_v6 \<or> nae_cidr e = any_v6 then fr\<lparr>fr_v6 := fr_v6 fr @ [entry_rule e]\<rparr> else fr))"

definition acl_rules :: "acl_entry list \<Rightarrow> family_rules" where
  "acl_rules es = fold add_entry (sort_by (\<lambda>x y. nae_number x < nae_number y) es) \<lparr>fr_v4 = [], fr_v6 = []\<rparr>"

definition acl_map :: "network_acl list \<Rightarrow> (string, family_rules) gomap" where
  "acl_map acls = fold (\<lambda>n m. AList.update (na_id n) (acl_rules (na_entries n)) m) acls []"

definition net_of :: "cn_bundle \<Rightarrow> net_layer" where
  "net_of b =
     (let (igw, egress) = route_classes (cb_route_tables b)
      in \<lparr>nl_subnet_rt = subnet_rts (cb_subnets b), nl_subnet_acl = subnet_acls (cb_subnets b), nl_rt_igw = igw,
          nl_rt_egress = egress, nl_acls = acl_map (cb_acls b)\<rparr>)"

section \<open>What the internet reaches\<close>

record net_family =
  nf_name :: string
  nf_offered :: port_set
  nf_address :: bool
  nf_igw :: "family_flags \<Rightarrow> bool"
  nf_rules :: "family_rules \<Rightarrow> firewall_rule list"

definition families :: "family_ports \<Rightarrow> addresses \<Rightarrow> net_family list" where
  "families fp addr =
     [\<lparr>nf_name = ''IPv4'', nf_offered = fp_v4 fp, nf_address = ad_v4 addr, nf_igw = ff_v4, nf_rules = fr_v4\<rparr>,
      \<lparr>nf_name = ''IPv6'', nf_offered = fp_v6 fp, nf_address = ad_v6 addr, nf_igw = ff_v6, nf_rules = fr_v6\<rparr>]"

definition string_at :: "(string, string) gomap \<Rightarrow> string \<Rightarrow> string" where
  "string_at m k = (case map_of m k of Some s \<Rightarrow> s | None \<Rightarrow> [])"

definition no_route :: "net_family \<Rightarrow> string \<Rightarrow> net_layer \<Rightarrow> bool" where
  "no_route f sn net \<longleftrightarrow>
     (case map_of (nl_subnet_rt net) sn of
        Some rt \<Rightarrow> sn \<noteq> [] \<and> \<not> nf_igw f (flags_at (nl_rt_igw net) rt)
      | None \<Rightarrow> False)"

definition private_note :: "string \<Rightarrow> net_layer \<Rightarrow> string" where
  "private_note sn net =
     (let via = string_at (nl_rt_egress net) (string_at (nl_subnet_rt net) sn)
      in if via \<noteq> [] then ''SG-open but in a private subnet (egress via '' @ via @ '', not an internet gateway)''
         else ''SG-open but in a private subnet (no internet-gateway route)'')"

definition through_acl :: "net_family \<Rightarrow> string \<Rightarrow> net_layer \<Rightarrow> port_set \<times> string list" where
  "through_acl f sn net =
     (let acl = string_at (nl_subnet_acl net) sn
      in if sn \<noteq> [] \<and> acl \<noteq> []
         then (case map_of (nl_acls net) acl of
                 None \<Rightarrow> (nf_offered f, [])
               | Some rules \<Rightarrow>
                   (let allowed = first_match (nf_offered f) (nf_rules f rules);
                        blocked = ps_minus (nf_offered f) allowed
                    in (allowed,
                        if ps_empty blocked then []
                        else if ps_empty allowed then [''SG-open and routed, but the network ACL denies internet ingress'']
                        else [''the network ACL blocks '' @ ps_string blocked @ '' of what the security groups open''])))
         else (nf_offered f, []))"

definition family_exposure :: "string \<Rightarrow> addresses \<Rightarrow> net_layer \<Rightarrow> net_family \<Rightarrow> port_set \<times> string list \<Rightarrow> port_set \<times> string list" where
  "family_exposure sn addr net f = (\<lambda>(exposed, notes).
     (if ps_empty (nf_offered f) then (exposed, notes)
      else if ad_known addr \<and> \<not> nf_address f
      then (exposed, notes @ [''SG-open on '' @ nf_name f @ '' but the instance has no public '' @ nf_name f @ '' address''])
      else if no_route f sn net then (exposed, notes @ [private_note sn net])
      else (let (allowed, ns) = through_acl f sn net in (ps_union exposed allowed, notes @ ns))))"

definition internet_exposure :: "family_ports \<Rightarrow> string \<Rightarrow> addresses \<Rightarrow> net_layer \<Rightarrow> port_set \<times> string" where
  "internet_exposure fp sn addr net =
     (let (exposed, notes) = fold (family_exposure sn addr net) (families fp addr) ([], []);
          notes = (if \<not> ps_empty exposed \<and> \<not> ps_transport exposed
                   then notes @ [''only '' @ ps_string exposed @ '' reaches it from the internet, which offers no service to attack'']
                   else notes)
      in (exposed, str_join notes ''; ''))"

text \<open>The same through each of several subnets; the notes as a set, sorted.\<close>

definition subnets_exposure :: "family_ports \<Rightarrow> string list \<Rightarrow> addresses \<Rightarrow> net_layer \<Rightarrow> port_set \<times> string list" where
  "subnets_exposure fp sns addr net =
     fold (\<lambda>sn (exposed, notes).
        (let (e, note) = internet_exposure fp sn addr net
         in (ps_union exposed e, if note \<noteq> [] then List.insert note notes else notes)))
       (if sns = [] then [[]] else sns) ([], [])"

definition listener_ports :: "string \<Rightarrow> int option \<Rightarrow> port_set" where
  "listener_ports protocol port =
     (let p = to_upper protocol
      in if list_ex (\<lambda>q. p = q) [''HTTP'', ''HTTPS'', ''TCP'', ''TLS''] then rule_ports proto_tcp port port
         else if p = ''UDP'' then rule_ports proto_udp port port
         else if p = ''TCP_UDP'' then ps_union (rule_ports proto_tcp port port) (rule_ports proto_udp port port)
         else [])"

definition target_ports :: "string \<Rightarrow> int option \<Rightarrow> int option \<Rightarrow> port_set" where
  "target_ports protocol group_port target_port =
     (let port = (case target_port of Some p \<Rightarrow> Some p | None \<Rightarrow> group_port)
      in case port of None \<Rightarrow> [] | Some _ \<Rightarrow> listener_ports protocol port)"

definition lb_exposure ::
  "load_balancer \<Rightarrow> string list \<Rightarrow> port_set \<Rightarrow> (string, family_ports) gomap \<Rightarrow> net_layer \<Rightarrow> port_set \<times> string" where
  "lb_exposure lb sns listened inet net =
     (if \<not> equal_fold (lb_scheme lb) ''internet-facing''
      then ([], ''internal load balancer: reachable only from inside the network'')
      else if equal_fold (lb_type lb) ''gateway''
      then ([], ''gateway load balancer: it forwards traffic to appliances and serves none'')
      else if ps_empty listened then ([], ''internet-facing, but no listener serves a port'')
      else (let ip = to_lower (lb_ip_type lb);
                addr = \<lparr>ad_known = True, ad_v4 = (ip \<noteq> ''dualstack-without-public-ipv4''), ad_v6 = prefix ''dualstack'' ip\<rparr>;
                opened = \<lparr>fp_v4 = listened, fp_v6 = (if ad_v6 addr then listened else [])\<rparr>;
                admitted = fold (\<lambda>sg fp. fp_union fp (fp_at inet sg)) (lb_groups lb) no_ports;
                opened' = (if lb_groups lb = [] then opened
                           else \<lparr>fp_v4 = ps_intersect (fp_v4 opened) (fp_v4 admitted), fp_v6 = ps_intersect (fp_v6 opened) (fp_v6 admitted)\<rparr>)
            in if lb_groups lb \<noteq> [] \<and> ps_empty (fp_v4 opened') \<and> ps_empty (fp_v6 opened')
               then ([], ''internet-facing, but its security groups admit none of what its listeners serve ('' @ ps_string listened @ '')'')
               else (let (exposed, notes) = subnets_exposure opened' sns addr net
                     in (exposed, str_join (sort_by str_less notes) ''; ''))))"

section \<open>The builder\<close>

record cn_builder =
  cn_nodes :: "(string, node) gomap"
  cn_edges :: "edge list"

definition cn_upsert :: "node \<Rightarrow> cn_builder \<Rightarrow> cn_builder" where
  "cn_upsert n b =
     (case map_of (cn_nodes b) (n_id n) of
        Some ex \<Rightarrow>
          (let ex = ex\<lparr>n_props := fold (\<lambda>(k, v) m. AList.update k v m) (n_props n) (n_props ex)\<rparr>;
               ex = (if n_name n \<noteq> [] then ex\<lparr>n_name := n_name n\<rparr> else ex)
           in b\<lparr>cn_nodes := AList.update (n_id n) ex (cn_nodes b)\<rparr>)
      | None \<Rightarrow> b\<lparr>cn_nodes := AList.update (n_id n) n (cn_nodes b)\<rparr>)"

definition cn_stub :: "string \<Rightarrow> label \<Rightarrow> string \<Rightarrow> cn_builder \<Rightarrow> string \<times> cn_builder" where
  "cn_stub account lbl name b =
     (let i = scoped_id lbl account [name]
      in (i, if gm_has (cn_nodes b) i then b
             else b\<lparr>cn_nodes := AList.update i
               \<lparr>n_id = i, n_label = lbl, n_name = name, n_props = (if account \<noteq> [] then [(prop_account, GStr account)] else [])\<rparr> (cn_nodes b)\<rparr>))"

definition cn_edge_with :: "edge_type \<Rightarrow> string \<Rightarrow> string \<Rightarrow> real \<Rightarrow> props \<Rightarrow> cn_builder \<Rightarrow> cn_builder" where
  "cn_edge_with t u v p ps b = b\<lparr>cn_edges := cn_edges b @ [\<lparr>e_type = t, e_from = u, e_to = v, e_prob = p, e_props = ps\<rparr>]\<rparr>"

definition cn_edge :: "edge_type \<Rightarrow> string \<Rightarrow> string \<Rightarrow> real \<Rightarrow> cn_builder \<Rightarrow> cn_builder" where
  "cn_edge t u v p b = cn_edge_with t u v p [] b"

section \<open>Parsing the bundle\<close>

text \<open>The verdict is written either way, and so are the ports.\<close>

definition exposure_props :: "port_set \<Rightarrow> props \<Rightarrow> props" where
  "exposure_props exposed ps =
     (let ps = AList.update prop_network_exposed (GBool (ps_transport exposed)) ps;
          ps = AList.update ''exposed_management_ports'' (GStr []) (AList.update ''exposed_ports'' (GStr []) ps)
      in if ps_transport exposed
         then AList.update ''exposed_management_ports'' (GStr (ps_string (ps_management exposed)))
                (AList.update ''exposed_ports'' (GStr (ps_string exposed)) (AList.update prop_internet_exposed (GBool True) ps))
         else ps)"

definition note_props :: "string \<Rightarrow> props \<Rightarrow> props" where
  "note_props note ps = (if note \<noteq> [] then AList.update ''net_reachability'' (GStr note) ps else ps)"

definition profile_roles :: "instance_profile list \<Rightarrow> (string, string \<times> string) gomap" where
  "profile_roles pfs =
     fold (\<lambda>p m. case ip_roles p of
                   [] \<Rightarrow> m
                 | (arn, name) # _ \<Rightarrow> if ip_arn p = [] \<or> arn = [] then m else AList.update (ip_arn p) (arn, name) m) pfs []"

definition list_at :: "('k, 'a list) gomap \<Rightarrow> 'k \<Rightarrow> 'a list" where
  "list_at m k = (case map_of m k of Some xs \<Rightarrow> xs | None \<Rightarrow> [])"

definition push_at :: "'k \<Rightarrow> 'a \<Rightarrow> ('k, 'a list) gomap \<Rightarrow> ('k, 'a list) gomap" where
  "push_at k x m = AList.update k (list_at m k @ [x]) m"

text \<open>What the loops over instances and services carry.\<close>

record cn_state =
  cs_builder :: cn_builder
  cs_members :: "(string, string list) gomap"
  cs_vm_by_ip :: "(string, string) gomap"
  cs_services :: "(string, string list) gomap"

definition add_interface :: "net_interface \<Rightarrow> addresses \<Rightarrow> addresses" where
  "add_interface ni a =
     a\<lparr>ad_v4 := (ad_v4 a \<or> (case ni_public ni of Some ip \<Rightarrow> ip \<noteq> [] | None \<Rightarrow> False)), ad_v6 := (ad_v6 a \<or> ni_addrs6 ni \<noteq> [])\<rparr>"

definition instance_addresses :: "ec2_instance \<Rightarrow> addresses" where
  "instance_addresses inst =
     fold add_interface
       (in_interfaces inst) \<lparr>ad_known = (in_private inst \<noteq> []), ad_v4 = (in_public inst \<noteq> []), ad_v6 = (in_addr6 inst \<noteq> [])\<rparr>"

definition groups_open :: "(string, family_ports) gomap \<Rightarrow> string list \<Rightarrow> family_ports" where
  "groups_open inet sgs = fold (\<lambda>sg fp. fp_union fp (fp_at inet sg)) sgs no_ports"

definition vm_id :: "string \<Rightarrow> ec2_instance \<Rightarrow> string" where
  "vm_id account inst = scoped_id label_vm account [in_id inst]"

definition instance_node :: "string \<Rightarrow> (string, family_ports) gomap \<Rightarrow> net_layer \<Rightarrow> ec2_instance \<Rightarrow> node" where
  "instance_node account inet net inst =
     (let ps = (if account \<noteq> [] then [(prop_account, GStr account)] else []);
          tags = fold (\<lambda>(k, v) m. AList.update k v m) (in_tags inst) [];
          (exposed, note) = internet_exposure (groups_open inet (in_groups inst)) (in_subnet inst) (instance_addresses inst) net;
          ps = note_props note (exposure_props exposed ps);
          (_, ps) = mark_crown_jewel_from_tags ps tags;
          name = string_at tags ''Name''
      in \<lparr>n_id = vm_id account inst, n_label = label_vm, n_name = (if name = [] then in_id inst else name), n_props = ps\<rparr>)"

definition assume_role :: "string \<Rightarrow> string \<Rightarrow> string \<Rightarrow> real \<Rightarrow> cn_builder \<Rightarrow> cn_builder" where
  "assume_role u arn name p b =
     (let rid = new_id label_iam_role [arn]
      in cn_edge edge_assumes u rid p (cn_upsert \<lparr>n_id = rid, n_label = label_iam_role, n_name = name, n_props = []\<rparr> b))"

definition parse_instance ::
  "string \<Rightarrow> (string, family_ports) gomap \<Rightarrow> net_layer \<Rightarrow> (string, string \<times> string) gomap \<Rightarrow> ec2_instance \<Rightarrow> cn_state \<Rightarrow> cn_state" where
  "parse_instance account inet net profiles inst s =
     (if in_id inst = [] then s
      else (let i = vm_id account inst;
                s = (if in_private inst \<noteq> [] then s\<lparr>cs_vm_by_ip := AList.update (in_private inst) i (cs_vm_by_ip s)\<rparr> else s);
                s = s\<lparr>cs_members := fold (\<lambda>sg m. push_at sg i m) (in_groups inst) (cs_members s)\<rparr>;
                b = cn_upsert (instance_node account inet net inst) (cs_builder s);
                b = (case in_profile inst of
                       None \<Rightarrow> b
                     | Some arn \<Rightarrow>
                         (case map_of profiles arn of
                            None \<Rightarrow> b
                          | Some (role_arn, name) \<Rightarrow>
                              assume_role i role_arn name
                                (imds_assume_prob (case in_tokens inst of Some t \<Rightarrow> t | None \<Rightarrow> [])) b))
            in s\<lparr>cs_builder := b\<rparr>))"

definition ecs_task_role_prob :: real where "ecs_task_role_prob = 9 / 10"
definition lb_routes_prob :: real where "lb_routes_prob = 9 / 10"

definition service_id :: "ecs_service \<Rightarrow> string" where
  "service_id svc = new_id label_container [es_arn svc]"

definition service_node :: "(string, family_ports) gomap \<Rightarrow> net_layer \<Rightarrow> ecs_service \<Rightarrow> node" where
  "service_node inet net svc =
     (let ps = [(prop_arn, GStr (es_arn svc)), (''ecs_cluster'', GStr (base_name (es_cluster svc)))];
          acct = account_from_arn (es_arn svc);
          ps = (if acct \<noteq> [] then AList.update prop_account (GStr acct) ps else ps);
          addr = \<lparr>ad_known = True, ad_v4 = equal_fold (es_assign_public svc) ''ENABLED'', ad_v6 = False\<rparr>;
          (exposed, notes) = subnets_exposure (groups_open inet (es_groups svc)) (es_subnets svc) addr net;
          ps = note_props (str_join (sort_by str_less notes) ''; '') (exposure_props exposed ps)
      in \<lparr>n_id = service_id svc, n_label = label_container, n_name = first_nonempty [es_name svc, base_name (es_arn svc)], n_props = ps\<rparr>)"

definition parse_service :: "(string, family_ports) gomap \<Rightarrow> net_layer \<Rightarrow> ecs_service \<Rightarrow> cn_state \<Rightarrow> cn_state" where
  "parse_service inet net svc s =
     (if es_arn svc = [] then s
      else (let i = service_id svc;
                s = s\<lparr>cs_services := fold (\<lambda>tg m. push_at tg i m) (es_target_groups svc) (cs_services s),
                      cs_members := fold (\<lambda>sg m. push_at sg i m) (es_groups svc) (cs_members s)\<rparr>;
                b = cn_upsert (service_node inet net svc) (cs_builder s);
                b = (if es_role svc \<noteq> [] then assume_role i (es_role svc) (base_name (es_role svc)) ecs_task_role_prob b else b)
            in s\<lparr>cs_builder := b\<rparr>))"

definition lb_index :: "string \<Rightarrow> load_balancer list \<Rightarrow> (string, string) gomap" where
  "lb_index account lbs =
     fold (\<lambda>lb m. if lb_arn lb \<noteq> [] then AList.update (lb_arn lb) (load_balancer_id account (lb_arn lb) (lb_name lb)) m else m) lbs []"

definition unqualified_function_arn :: "string \<Rightarrow> string" where
  "unqualified_function_arn arn =
     (let parts = split_on (CHR '':'') arn in if length parts > 7 then str_join (take 7 parts) '':'' else arn)"

text \<open>Where a load balancer routes, in the order the targets are first met, with the ports of each.\<close>

type_synonym routed = "(string, port_set) gomap"

definition add_route :: "string \<Rightarrow> string \<Rightarrow> port_set \<Rightarrow> routed \<Rightarrow> routed" where
  "add_route self to ports m =
     (if to = [] \<or> to = self then m else AList.update to (ps_union (ports_at m to) ports) m)"

definition alb_target :: "string \<Rightarrow> (string, string) gomap \<Rightarrow> string \<Rightarrow> string" where
  "alb_target account by_arn arn =
     (let to = string_at by_arn arn
      in if to = [] then load_balancer_id account arn (load_balancer_name_from_arn arn) else to)"

definition group_routes :: "string \<Rightarrow> cn_state \<Rightarrow> (string, string) gomap \<Rightarrow> string \<Rightarrow> target_group \<Rightarrow> routed \<Rightarrow> routed" where
  "group_routes account s by_arn self tg m =
     (let typ = to_lower (tg_type tg)
      in if typ = ''instance''
         then fold (\<lambda>t. add_route self (scoped_id label_vm account [lt_id t]) (target_ports (tg_protocol tg) (tg_port tg) (lt_port t))) (tg_targets tg) m
         else if typ = ''ip''
         then fold (\<lambda>t. add_route self (string_at (cs_vm_by_ip s) (lt_id t)) (target_ports (tg_protocol tg) (tg_port tg) (lt_port t))) (tg_targets tg)
                (fold (\<lambda>svc. add_route self svc (target_ports (tg_protocol tg) (tg_port tg) None)) (list_at (cs_services s) (tg_arn tg)) m)
         else if typ = ''lambda''
         then fold (\<lambda>t. add_route self (new_id label_function [unqualified_function_arn (lt_id t)]) []) (tg_targets tg) m
         else if typ = ''alb''
         then fold (\<lambda>t. add_route self (alb_target account by_arn (lt_id t)) (target_ports (tg_protocol tg) (tg_port tg) (lt_port t))) (tg_targets tg) m
         else m)"

definition balancer_name :: "load_balancer \<Rightarrow> string" where
  "balancer_name lb = first_nonempty [lb_name lb, load_balancer_name_from_arn (lb_arn lb)]"

definition balancer_id :: "string \<Rightarrow> load_balancer \<Rightarrow> string" where
  "balancer_id account lb = load_balancer_id account (lb_arn lb) (balancer_name lb)"

definition listened_ports :: "load_balancer \<Rightarrow> port_set" where
  "listened_ports lb = fold (\<lambda>(protocol, port) ps. ps_union ps (listener_ports protocol port)) (lb_listeners lb) []"

definition balancer_node :: "string \<Rightarrow> (string, family_ports) gomap \<Rightarrow> net_layer \<Rightarrow> load_balancer \<Rightarrow> node" where
  "balancer_node account inet net lb =
     (let ps = [(''scheme'', GStr (to_lower (lb_scheme lb)))];
          ps = (if lb_type lb \<noteq> [] then AList.update ''lb_type'' (GStr (to_lower (lb_type lb))) ps else ps);
          ps = (if lb_arn lb \<noteq> [] then AList.update prop_arn (GStr (lb_arn lb)) ps else ps);
          acct = first_nonempty [account, account_from_arn (lb_arn lb)];
          ps = (if acct \<noteq> [] then AList.update prop_account (GStr acct) ps else ps);
          region = region_from_arn (lb_arn lb);
          ps = (if region \<noteq> [] then AList.update ''region'' (GStr region) ps else ps);
          (exposed, note) = lb_exposure lb (lb_subnets lb) (listened_ports lb) inet net
      in \<lparr>n_id = balancer_id account lb, n_label = label_lb, n_name = balancer_name lb,
          n_props = note_props note (exposure_props exposed ps)\<rparr>)"

definition route_edge :: "string \<Rightarrow> string \<times> port_set \<Rightarrow> cn_builder \<Rightarrow> cn_builder" where
  "route_edge self = (\<lambda>(to, ports).
     cn_edge_with edge_routes_to self to lb_routes_prob (if ps_empty ports then [] else [(''ports'', GStr (ps_string ports))]))"

definition parse_balancer ::
  "string \<Rightarrow> (string, family_ports) gomap \<Rightarrow> net_layer \<Rightarrow> (string, string) gomap \<Rightarrow> cn_state \<Rightarrow> load_balancer \<Rightarrow> cn_builder \<Rightarrow> cn_builder" where
  "parse_balancer account inet net by_arn s lb b =
     (if balancer_name lb = [] then b
      else (let self = balancer_id account lb;
                routes = fold (group_routes account s by_arn self) (lb_target_groups lb) []
            in fold (route_edge self) routes (cn_upsert (balancer_node account inet net lb) b)))"

text \<open>One edge per pair of members that some group rule lets through, with the ports of all of them.\<close>

type_synonym lateral = "(string \<times> string, port_set) gomap"

definition add_lateral :: "port_set \<Rightarrow> string \<Rightarrow> string \<Rightarrow> lateral \<Rightarrow> lateral" where
  "add_lateral ports u v m = (if u \<noteq> v then AList.update (u, v) (ps_union (ports_at m (u, v)) ports) m else m)"

definition source_lateral :: "(string, string list) gomap \<Rightarrow> string list \<Rightarrow> string \<times> port_set \<Rightarrow> lateral \<Rightarrow> lateral" where
  "source_lateral members targets = (\<lambda>(src, ports). fold (\<lambda>u. fold (add_lateral ports u) targets) (list_at members src))"

definition target_lateral :: "(string, string list) gomap \<Rightarrow> string \<times> (string, port_set) gomap \<Rightarrow> lateral \<Rightarrow> lateral" where
  "target_lateral members = (\<lambda>(target, sources). fold (source_lateral members (list_at members target)) sources)"

definition lateral_of :: "sg_peers \<Rightarrow> (string, string list) gomap \<Rightarrow> lateral" where
  "lateral_of peers members = fold (target_lateral members) peers []"

definition lateral_edge :: "(string \<times> string) \<times> port_set \<Rightarrow> cn_builder \<Rightarrow> cn_builder" where
  "lateral_edge = (\<lambda>((u, v), ports) b.
     (if ps_transport ports then cn_edge_with edge_connects_to u v (8 / 10) [(''ports'', GStr (ps_string ports))] b else b))"

definition peering_edge :: "string \<Rightarrow> vpc_peering \<Rightarrow> cn_builder \<Rightarrow> cn_builder" where
  "peering_edge account p b =
     (if vp_requester p = [] \<or> vp_accepter p = [] then b
      else (let (a, b) = cn_stub account label_vpc (vp_requester p) b;
                (z, b) = cn_stub account label_vpc (vp_accepter p) b
            in cn_edge edge_connects_to a z (7 / 10) b))"

definition cn_start :: cn_state where
  "cn_start = \<lparr>cs_builder = \<lparr>cn_nodes = [], cn_edges = []\<rparr>, cs_members = [], cs_vm_by_ip = [], cs_services = []\<rparr>"

definition cn_workloads :: "string \<Rightarrow> cn_bundle \<Rightarrow> cn_state" where
  "cn_workloads account b =
     (let inet = fst (group_rules (cb_groups b)); net = net_of b
      in fold (parse_service inet net) (cb_services b)
           (fold (parse_instance account inet net (profile_roles (cb_profiles b))) (cb_instances b) cn_start))"

definition cn_balanced :: "string \<Rightarrow> cn_bundle \<Rightarrow> cn_builder" where
  "cn_balanced account b =
     (let s = cn_workloads account b
      in fold (parse_balancer account (fst (group_rules (cb_groups b))) (net_of b) (lb_index account (cb_balancers b)) s)
           (cb_balancers b) (cs_builder s))"

definition cn_lateral :: "string \<Rightarrow> cn_bundle \<Rightarrow> cn_builder" where
  "cn_lateral account b =
     fold lateral_edge
       (sort_by (\<lambda>x y. str_less (fst (fst x) @ snd (fst x)) (fst (fst y) @ snd (fst y)))
         (lateral_of (snd (group_rules (cb_groups b))) (cs_members (cn_workloads account b))))
       (cn_balanced account b)"

definition cn_parse :: "string \<Rightarrow> gotime \<Rightarrow> cn_bundle \<Rightarrow> event" where
  "cn_parse account now b =
     (let g = fold (peering_edge account) (cb_peerings b) (cn_lateral account b)
      in \<lparr>ev_source = ''cloudnet'', ev_kind = ''relationship'', ev_observed = now, ev_tenant = [],
          ev_nodes = map snd (cn_nodes g), ev_edges = cn_edges g, ev_snapshot = None\<rparr>)"

end
