(* ===== verification/Cloudnet_Laws.thy ===== *)
theory Cloudnet_Laws
  imports Cloudnet
begin

text \<open>
  What the network feed says is what the network does: an instance is exposed on exactly the
  ports a group opens to the internet, on a family it has an address for, through a route to an
  internet gateway and past the first matching entry of its network ACL; and one member of a
  group is drawn to another on exactly the ports the group rules admit.
\<close>

section \<open>Security groups, by port\<close>

text \<open>Both families at once: the flag says IPv6.\<close>

definition fp_of :: "bool \<Rightarrow> family_ports \<Rightarrow> port_set" where
  "fp_of v6 fp = (if v6 then fp_v6 fp else fp_v4 fp)"

definition fp_ok :: "family_ports \<Rightarrow> bool" where
  "fp_ok fp \<longleftrightarrow> ports_ok (fp_v4 fp) \<and> ports_ok (fp_v6 fp)"

definition perm_open :: "bool \<Rightarrow> ip_permission \<Rightarrow> bool" where
  "perm_open v6 pm \<longleftrightarrow> (if v6 then any_v6 \<in> set (ipp_ranges pm) \<union> set (ipp_ranges6 pm) else any_v4 \<in> set (ipp_ranges pm))"

definition group_opens :: "sec_group list \<Rightarrow> bool \<Rightarrow> string \<Rightarrow> string \<Rightarrow> int \<Rightarrow> bool" where
  "group_opens sgs v6 g p n \<longleftrightarrow>
     (\<exists>sg \<in> set sgs. sg_id sg = g \<and> (\<exists>pm \<in> set (sg_perms sg). perm_open v6 pm \<and> port_in (perm_ports pm) p n))"

lemma fp_okD: "fp_ok fp \<Longrightarrow> ports_ok (fp_of v6 fp)"
  by (simp add: fp_ok_def fp_of_def)

lemma fp_ok_none [simp]: "fp_ok no_ports"
  by (simp add: fp_ok_def no_ports_def)

lemma port_in_empty [simp]: "\<not> port_in [] p n"
  by (simp add: port_in_def)

lemma fp_of_none [simp]: "fp_of v6 no_ports = []"
  by (simp add: fp_of_def no_ports_def)

lemma perm_ports_ok [simp]: "ports_ok (perm_ports pm)"
  by (simp add: perm_ports_def ports_ok_rule)

lemma v4_not_v6 [simp]: "any_v4 \<noteq> any_v6" "any_v6 \<noteq> any_v4"
  by (simp_all add: any_v4_def any_v6_def)

lemma open_range_in:
  "fp_ok fp \<Longrightarrow> ports_ok ports \<Longrightarrow> fp_ok (open_range ports c fp) \<and>
     (port_in (fp_of v6 (open_range ports c fp)) p n \<longleftrightarrow>
        port_in (fp_of v6 fp) p n \<or> (port_in ports p n \<and> c = (if v6 then any_v6 else any_v4)))"
  by (auto simp: open_range_def fp_ok_def fp_of_def port_algebra ports_ok_intros)

lemma open_range6_in:
  "fp_ok fp \<Longrightarrow> ports_ok ports \<Longrightarrow> fp_ok (open_range6 ports c fp) \<and>
     (port_in (fp_of v6 (open_range6 ports c fp)) p n \<longleftrightarrow>
        port_in (fp_of v6 fp) p n \<or> (port_in ports p n \<and> v6 \<and> c = any_v6))"
  by (auto simp: open_range6_def fp_ok_def fp_of_def port_algebra ports_ok_intros)

lemma open_ranges_in:
  "ports_ok ports \<Longrightarrow> fp_ok fp \<Longrightarrow> fp_ok (fold (open_range ports) cs fp) \<and>
     (port_in (fp_of v6 (fold (open_range ports) cs fp)) p n \<longleftrightarrow>
        port_in (fp_of v6 fp) p n \<or> (port_in ports p n \<and> (if v6 then any_v6 else any_v4) \<in> set cs))"
  by (induction cs arbitrary: fp) (auto simp: open_range_in)

lemma open_ranges6_in:
  "ports_ok ports \<Longrightarrow> fp_ok fp \<Longrightarrow> fp_ok (fold (open_range6 ports) cs fp) \<and>
     (port_in (fp_of v6 (fold (open_range6 ports) cs fp)) p n \<longleftrightarrow>
        port_in (fp_of v6 fp) p n \<or> (port_in ports p n \<and> v6 \<and> any_v6 \<in> set cs))"
  by (induction cs arbitrary: fp) (auto simp: open_range6_in)

definition inet_ok :: "(string, family_ports) gomap \<Rightarrow> bool" where
  "inet_ok inet \<longleftrightarrow> (\<forall>g. fp_ok (fp_at inet g))"

lemma fp_at_update [simp]: "fp_at (AList.update g fp m) g' = (if g' = g then fp else fp_at m g')"
  by (simp add: fp_at_def map_of_update)

lemma group_perm_open:
  "inet_ok (fst st) \<Longrightarrow> inet_ok (fst (group_perm gid pm st)) \<and>
     (port_in (fp_of v6 (fp_at (fst (group_perm gid pm st)) g)) p n \<longleftrightarrow>
        port_in (fp_of v6 (fp_at (fst st) g)) p n \<or> (g = gid \<and> perm_open v6 pm \<and> port_in (perm_ports pm) p n))"
  by (cases st) (auto simp: group_perm_def Let_def inet_ok_def open_ranges_in open_ranges6_in perm_open_def)

lemma group_perms_open:
  "inet_ok (fst st) \<Longrightarrow> inet_ok (fst (fold (group_perm gid) pms st)) \<and>
     (port_in (fp_of v6 (fp_at (fst (fold (group_perm gid) pms st)) g)) p n \<longleftrightarrow>
        port_in (fp_of v6 (fp_at (fst st) g)) p n \<or> (g = gid \<and> (\<exists>pm \<in> set pms. perm_open v6 pm \<and> port_in (perm_ports pm) p n)))"
  by (induction pms arbitrary: st) (auto simp: group_perm_open)

lemma group_rules_fold:
  "inet_ok (fst st) \<Longrightarrow> inet_ok (fst (fold (\<lambda>sg. fold (group_perm (sg_id sg)) (sg_perms sg)) sgs st)) \<and>
     (port_in (fp_of v6 (fp_at (fst (fold (\<lambda>sg. fold (group_perm (sg_id sg)) (sg_perms sg)) sgs st)) g)) p n \<longleftrightarrow>
        port_in (fp_of v6 (fp_at (fst st) g)) p n \<or> group_opens sgs v6 g p n)"
  by (induction sgs arbitrary: st) (auto simp: group_perms_open group_opens_def)

lemma fp_at_Nil [simp]: "fp_at [] g = no_ports"
  by (simp add: fp_at_def)

lemma group_rules_open:
  "inet_ok (fst (group_rules sgs)) \<and>
   (port_in (fp_of v6 (fp_at (fst (group_rules sgs)) g)) p n \<longleftrightarrow> group_opens sgs v6 g p n)"
  using group_rules_fold [of "([], [])" sgs v6 g p n] by (simp add: group_rules_def inet_ok_def)

lemma groups_open_fold:
  "inet_ok inet \<Longrightarrow> fp_ok fp \<Longrightarrow> fp_ok (fold (\<lambda>sg fp. fp_union fp (fp_at inet sg)) gs fp) \<and>
     (port_in (fp_of v6 (fold (\<lambda>sg fp. fp_union fp (fp_at inet sg)) gs fp)) p n \<longleftrightarrow>
        port_in (fp_of v6 fp) p n \<or> (\<exists>g \<in> set gs. port_in (fp_of v6 (fp_at inet g)) p n))"
proof (induction gs arbitrary: fp)
  case (Cons g gs)
  have "fp_ok (fp_at inet g)" using Cons.prems(1) by (simp add: inet_ok_def)
  then have "fp_ok (fp_union fp (fp_at inet g)) \<and>
      (port_in (fp_of v6 (fp_union fp (fp_at inet g))) p n \<longleftrightarrow> port_in (fp_of v6 fp) p n \<or> port_in (fp_of v6 (fp_at inet g)) p n)"
    using Cons.prems(2) by (simp add: fp_union_def fp_ok_def fp_of_def port_algebra ports_ok_intros)
  then show ?case using Cons.IH [of "fp_union fp (fp_at inet g)"] Cons.prems(1) by auto
qed simp

lemma groups_open_in:
  "inet_ok inet \<Longrightarrow> fp_ok (groups_open inet gs) \<and>
     (port_in (fp_of v6 (groups_open inet gs)) p n \<longleftrightarrow> (\<exists>g \<in> set gs. port_in (fp_of v6 (fp_at inet g)) p n))"
  using groups_open_fold [of inet no_ports gs v6 p n] by (simp add: groups_open_def)

section \<open>The network layer, by port\<close>

text \<open>The entries of an ACL that decide for traffic from the internet, in rule order.\<close>

definition internet_entry :: "bool \<Rightarrow> acl_entry \<Rightarrow> bool" where
  "internet_entry v6 e \<longleftrightarrow> \<not> nae_egress e \<and> (if v6 then nae_cidr6 e = any_v6 \<or> nae_cidr e = any_v6 else nae_cidr e = any_v4)"

definition fr_of :: "bool \<Rightarrow> family_rules \<Rightarrow> firewall_rule list" where
  "fr_of v6 fr = (if v6 then fr_v6 fr else fr_v4 fr)"

definition by_number :: "acl_entry list \<Rightarrow> acl_entry list" where
  "by_number es = sort_by (\<lambda>x y. nae_number x < nae_number y) es"

lemma add_entries: "fr_of v6 (fold add_entry es fr) = fr_of v6 fr @ map entry_rule (filter (internet_entry v6) es)"
  by (induction es arbitrary: fr) (auto simp: add_entry_def internet_entry_def fr_of_def Let_def)

lemma acl_rules_eq: "fr_of v6 (acl_rules es) = map entry_rule (filter (internet_entry v6) (by_number es))"
  by (simp add: acl_rules_def add_entries by_number_def) (simp add: fr_of_def)

definition entries_of :: "network_acl list \<Rightarrow> string \<Rightarrow> acl_entry list option" where
  "entries_of acls i = map_option na_entries (find (\<lambda>na. na_id na = i) (rev acls))"

lemma find_append: "find P (xs @ ys) = (case find P xs of None \<Rightarrow> find P ys | Some x \<Rightarrow> Some x)"
  by (induction xs) auto

lemma acl_map_of: "map_of (acl_map acls) i = map_option acl_rules (entries_of acls i)"
proof (induction acls rule: rev_induct)
  case (snoc na acls)
  then show ?case by (auto simp: acl_map_def entries_of_def map_of_update)
qed (simp add: acl_map_def entries_of_def)

definition acl_passes :: "cn_bundle \<Rightarrow> bool \<Rightarrow> string \<Rightarrow> string \<Rightarrow> int \<Rightarrow> bool" where
  "acl_passes b v6 sn p n \<longleftrightarrow>
     sn = [] \<or> (case entries_of (cb_acls b) (string_at (subnet_acls (cb_subnets b)) sn) of
       None \<Rightarrow> True
     | Some es \<Rightarrow> string_at (subnet_acls (cb_subnets b)) sn = [] \<or>
         first_match_allows (map entry_rule (filter (internet_entry v6) (by_number es))) p n)"

definition igw_route :: "bool \<Rightarrow> route_entry \<Rightarrow> bool" where
  "igw_route v6 r \<longleftrightarrow> to_igw r \<and> (if v6 then default_v6 r else default_v4 r)"

definition ff_of :: "bool \<Rightarrow> family_flags \<Rightarrow> bool" where
  "ff_of v6 f \<longleftrightarrow> (if v6 then ff_v6 f else ff_v4 f)"

lemma flags_at_update [simp]: "flags_at (AList.update g f m) g' = (if g' = g then f else flags_at m g')"
  by (simp add: flags_at_def map_of_update)

lemma classify_igw:
  "ff_of v6 (flags_at (fst (classify_route rt r st)) t) \<longleftrightarrow> ff_of v6 (flags_at (fst st) t) \<or> (t = rt \<and> igw_route v6 r)"
  by (cases st) (auto simp: classify_route_def igw_route_def ff_of_def Let_def)

lemma classify_igws:
  "ff_of v6 (flags_at (fst (fold (classify_route rt) rs st)) t) \<longleftrightarrow>
     ff_of v6 (flags_at (fst st) t) \<or> (t = rt \<and> (\<exists>r \<in> set rs. igw_route v6 r))"
  by (induction rs arbitrary: st) (auto simp: classify_igw)

lemma route_classes_igw:
  "ff_of v6 (flags_at (fst (route_classes rts)) t) \<longleftrightarrow> (\<exists>rt \<in> set rts. rt_id rt = t \<and> (\<exists>r \<in> set (rt_routes rt). igw_route v6 r))"
proof -
  have "ff_of v6 (flags_at (fst (fold (\<lambda>rt. fold (classify_route (rt_id rt)) (rt_routes rt)) rts st)) t) \<longleftrightarrow>
      ff_of v6 (flags_at (fst st) t) \<or> (\<exists>rt \<in> set rts. rt_id rt = t \<and> (\<exists>r \<in> set (rt_routes rt). igw_route v6 r))" for st
    by (induction rts arbitrary: st) (auto simp: classify_igws)
  from this [of "([], [])"] show ?thesis by (simp add: route_classes_def flags_at_def ff_of_def)
qed

text \<open>A subnet that names no route table is taken to be routed.\<close>

definition routed :: "cn_bundle \<Rightarrow> bool \<Rightarrow> string \<Rightarrow> bool" where
  "routed b v6 sn \<longleftrightarrow>
     sn = [] \<or> (case map_of (subnet_rts (cb_subnets b)) sn of
       None \<Rightarrow> True
     | Some t \<Rightarrow> \<exists>rt \<in> set (cb_route_tables b). rt_id rt = t \<and> (\<exists>r \<in> set (rt_routes rt). igw_route v6 r))"

definition family :: "bool \<Rightarrow> family_ports \<Rightarrow> addresses \<Rightarrow> net_family" where
  "family v6 fp addr =
     \<lparr>nf_name = (if v6 then ''IPv6'' else ''IPv4''), nf_offered = fp_of v6 fp, nf_address = (if v6 then ad_v6 addr else ad_v4 addr),
      nf_igw = ff_of v6, nf_rules = fr_of v6\<rparr>"

lemma families_eq: "families fp addr = [family False fp addr, family True fp addr]"
  by (simp add: families_def family_def fp_of_def ff_of_def [abs_def] fr_of_def [abs_def])

lemma no_route_iff: "no_route (family v6 fp addr) sn (net_of b) \<longleftrightarrow> \<not> routed b v6 sn"
  by (auto simp: no_route_def routed_def family_def net_of_def route_classes_igw [symmetric] split: option.split prod.split)

lemma through_acl_in:
  assumes "ports_ok (fp_of v6 fp)"
  shows "ports_ok (fst (through_acl (family v6 fp addr) sn (net_of b)))"
    and "port_in (fst (through_acl (family v6 fp addr) sn (net_of b))) p n \<longleftrightarrow> port_in (fp_of v6 fp) p n \<and> acl_passes b v6 sn p n"
proof -
  have net: "nl_subnet_acl (net_of b) = subnet_acls (cb_subnets b)" "nl_acls (net_of b) = acl_map (cb_acls b)"
    by (simp_all add: net_of_def split: prod.split)
  show "ports_ok (fst (through_acl (family v6 fp addr) sn (net_of b)))"
    using assms by (cases v6) (auto simp: through_acl_def family_def Let_def ports_ok_first_match split: option.split)
  show "port_in (fst (through_acl (family v6 fp addr) sn (net_of b))) p n \<longleftrightarrow> port_in (fp_of v6 fp) p n \<and> acl_passes b v6 sn p n"
    using assms by (auto simp: through_acl_def acl_passes_def family_def Let_def net acl_map_of port_in_first_match acl_rules_eq split: option.split)
qed

text \<open>What one family adds.\<close>

definition family_reaches :: "cn_bundle \<Rightarrow> family_ports \<Rightarrow> string \<Rightarrow> addresses \<Rightarrow> bool \<Rightarrow> string \<Rightarrow> int \<Rightarrow> bool" where
  "family_reaches b fp sn addr v6 p n \<longleftrightarrow>
     port_in (fp_of v6 fp) p n \<and> (ad_known addr \<longrightarrow> (if v6 then ad_v6 addr else ad_v4 addr)) \<and> routed b v6 sn \<and> acl_passes b v6 sn p n"

lemma family_exposure_in:
  assumes "ports_ok (fp_of v6 fp)" "ports_ok (fst st)"
  shows "ports_ok (fst (family_exposure sn addr (net_of b) (family v6 fp addr) st)) \<and>
    (port_in (fst (family_exposure sn addr (net_of b) (family v6 fp addr) st)) p n \<longleftrightarrow>
       port_in (fst st) p n \<or> family_reaches b fp sn addr v6 p n)"
proof -
  obtain exposed ns where st: "st = (exposed, ns)" by (cases st)
  have fam: "nf_offered (family v6 fp addr) = fp_of v6 fp" "nf_address (family v6 fp addr) = (if v6 then ad_v6 addr else ad_v4 addr)"
    by (simp_all add: family_def)
  note acl = through_acl_in [OF assms(1), of addr sn b]
  consider "ps_empty (fp_of v6 fp)"
    | "\<not> ps_empty (fp_of v6 fp)" "ad_known addr \<and> \<not> (if v6 then ad_v6 addr else ad_v4 addr)"
    | "\<not> ps_empty (fp_of v6 fp)" "\<not> (ad_known addr \<and> \<not> (if v6 then ad_v6 addr else ad_v4 addr))" "\<not> routed b v6 sn"
    | "\<not> ps_empty (fp_of v6 fp)" "\<not> (ad_known addr \<and> \<not> (if v6 then ad_v6 addr else ad_v4 addr))" "routed b v6 sn" by blast
  then show ?thesis
  proof cases
    case 1
    then show ?thesis using assms ps_empty_iff [OF assms(1)] by (simp add: family_exposure_def st fam family_reaches_def)
  next
    case 2
    then show ?thesis using assms by (simp add: family_exposure_def st fam family_reaches_def)
  next
    case 3
    then show ?thesis using assms by (simp add: family_exposure_def st fam family_reaches_def no_route_iff)
  next
    case 4
    then show ?thesis using assms acl
      by (simp add: family_exposure_def st fam family_reaches_def no_route_iff case_prod_beta port_algebra ports_ok_intros del: if_split)
  qed
qed

lemma internet_exposure_in:
  assumes "fp_ok fp"
  shows "ports_ok (fst (internet_exposure fp sn addr (net_of b)))"
    and "port_in (fst (internet_exposure fp sn addr (net_of b))) p n \<longleftrightarrow> (\<exists>v6. family_reaches b fp sn addr v6 p n)"
proof -
  let ?s1 = "family_exposure sn addr (net_of b) (family False fp addr) ([], [])"
  have s1: "ports_ok (fst ?s1) \<and> (port_in (fst ?s1) q m \<longleftrightarrow> family_reaches b fp sn addr False q m)" for q m
    using family_exposure_in [OF fp_okD [OF assms, of False], of "([], [])" sn addr b q m] by simp
  have e: "fst (internet_exposure fp sn addr (net_of b)) = fst (family_exposure sn addr (net_of b) (family True fp addr) ?s1)"
    by (simp add: internet_exposure_def families_eq Let_def case_prod_beta)
  show "ports_ok (fst (internet_exposure fp sn addr (net_of b)))"
    "port_in (fst (internet_exposure fp sn addr (net_of b))) p n \<longleftrightarrow> (\<exists>v6. family_reaches b fp sn addr v6 p n)"
    using family_exposure_in [OF fp_okD [OF assms, of True], of ?s1 sn addr b p n] s1 unfolding e by (auto simp: ex_bool_eq)
qed

section \<open>Instances in the event\<close>

definition has_address :: "bool \<Rightarrow> ec2_instance \<Rightarrow> bool" where
  "has_address v6 inst \<longleftrightarrow>
     (if v6 then in_addr6 inst \<noteq> [] \<or> (\<exists>ni \<in> set (in_interfaces inst). ni_addrs6 ni \<noteq> [])
      else in_public inst \<noteq> [] \<or> (\<exists>ni \<in> set (in_interfaces inst). \<exists>ip. ni_public ni = Some ip \<and> ip \<noteq> []))"

text \<open>The port a request from the internet to the instance passes everything on.\<close>

definition internet_reaches :: "cn_bundle \<Rightarrow> ec2_instance \<Rightarrow> string \<Rightarrow> int \<Rightarrow> bool" where
  "internet_reaches b inst p n \<longleftrightarrow>
     (\<exists>v6. (\<exists>g \<in> set (in_groups inst). group_opens (cb_groups b) v6 g p n) \<and>
        (in_private inst \<noteq> [] \<longrightarrow> has_address v6 inst) \<and> routed b v6 (in_subnet inst) \<and> acl_passes b v6 (in_subnet inst) p n)"

lemma instance_addresses_eq:
  "ad_known (instance_addresses inst) = (in_private inst \<noteq> [])"
  "(if v6 then ad_v6 (instance_addresses inst) else ad_v4 (instance_addresses inst)) = has_address v6 inst"
proof -
  have f: "ad_known (fold add_interface nis a) = ad_known a \<and>
      ad_v4 (fold add_interface nis a) = (ad_v4 a \<or> (\<exists>ni \<in> set nis. \<exists>ip. ni_public ni = Some ip \<and> ip \<noteq> [])) \<and>
      ad_v6 (fold add_interface nis a) = (ad_v6 a \<or> (\<exists>ni \<in> set nis. ni_addrs6 ni \<noteq> []))" for nis a
    by (induction nis arbitrary: a) (auto simp: add_interface_def split: option.splits)
  show "ad_known (instance_addresses inst) = (in_private inst \<noteq> [])"
    "(if v6 then ad_v6 (instance_addresses inst) else ad_v4 (instance_addresses inst)) = has_address v6 inst"
    unfolding instance_addresses_def by (simp_all add: f has_address_def)
qed

definition instance_ports :: "cn_bundle \<Rightarrow> ec2_instance \<Rightarrow> port_set" where
  "instance_ports b inst =
     fst (internet_exposure (groups_open (fst (group_rules (cb_groups b))) (in_groups inst)) (in_subnet inst)
       (instance_addresses inst) (net_of b))"

lemma instance_ports_in:
  "ports_ok (instance_ports b inst) \<and> (port_in (instance_ports b inst) p n \<longleftrightarrow> internet_reaches b inst p n)"
proof -
  let ?inet = "fst (group_rules (cb_groups b))"
  have inet: "inet_ok ?inet" using group_rules_open by blast
  have g: "fp_ok (groups_open ?inet (in_groups inst))"
    "port_in (fp_of v6 (groups_open ?inet (in_groups inst))) p n \<longleftrightarrow> (\<exists>g \<in> set (in_groups inst). group_opens (cb_groups b) v6 g p n)" for v6
    using groups_open_in [OF inet, of "in_groups inst" v6 p n] group_rules_open by blast+
  show ?thesis using internet_exposure_in [OF g(1), of "in_subnet inst" "instance_addresses inst" b] g(2)
    by (simp add: instance_ports_def family_reaches_def instance_addresses_eq internet_reaches_def)
qed

text \<open>What a node says of its exposure.\<close>

definition says :: "port_set \<Rightarrow> node \<Rightarrow> bool" where
  "says ps nd \<longleftrightarrow>
     pget (n_props nd) prop_network_exposed = GBool (ps_transport ps) \<and>
     pget (n_props nd) ''exposed_ports'' = GStr (if ps_transport ps then ps_string ps else []) \<and>
     pget (n_props nd) ''exposed_management_ports'' = GStr (if ps_transport ps then ps_string (ps_management ps) else [])"

lemma exposure_keys:
  "k \<in> {prop_network_exposed, ''exposed_ports'', ''exposed_management_ports''} \<Longrightarrow>
     pget (note_props note ps) k = pget ps k \<and> pget (snd (mark_crown_jewel_from_tags ps tags)) k = pget ps k"
  by (auto simp: note_props_def mark_crown_jewel_from_tags_def prop_update Let_def)

lemma exposure_says:
  "pget (exposure_props exposed ps) prop_network_exposed = GBool (ps_transport exposed) \<and>
   pget (exposure_props exposed ps) ''exposed_ports'' = GStr (if ps_transport exposed then ps_string exposed else []) \<and>
   pget (exposure_props exposed ps) ''exposed_management_ports'' = GStr (if ps_transport exposed then ps_string (ps_management exposed) else [])"
  by (simp add: exposure_props_def prop_update Let_def)

lemma instance_node_says:
  "says (instance_ports b inst) (instance_node account (fst (group_rules (cb_groups b))) (net_of b) inst)"
  using exposure_keys exposure_says
  by (simp add: says_def instance_node_def instance_ports_def case_prod_beta Let_def)

lemma says_congruent:
  "(\<And>k. k \<in> {prop_network_exposed, ''exposed_ports'', ''exposed_management_ports''} \<Longrightarrow> pget (n_props nd') k = pget (n_props nd) k) \<Longrightarrow>
     says ps nd' = says ps nd"
  by (simp add: says_def)

lemma fold_update_other: "k \<notin> set (gm_keys qs) \<Longrightarrow> pget (fold (\<lambda>(k, v) m. AList.update k v m) qs ps) k = pget ps k"
  by (induction qs arbitrary: ps) (auto simp: prop_update)

lemma fold_update_same:
  "gm_ok qs \<Longrightarrow> pget qs k \<noteq> GNil \<Longrightarrow> pget (fold (\<lambda>(k, v) m. AList.update k v m) qs ps) k = pget qs k"
proof (induction qs arbitrary: ps)
  case (Cons kv qs)
  obtain k' v' where kv: "kv = (k', v')" by (cases kv)
  have ok: "k' \<notin> set (gm_keys qs)" "gm_ok qs" using Cons.prems(1) kv by (simp_all add: gm_ok_def)
  show ?case
  proof (cases "k' = k")
    case True
    then show ?thesis using ok(1) kv by (simp add: fold_update_other prop_update prop_Cons)
  next
    case False
    then show ?thesis using Cons.IH [OF ok(2)] Cons.prems(2) kv by (simp add: prop_Cons)
  qed
qed simp

text \<open>A node a builder holds with what is said of it.\<close>

definition held :: "string \<Rightarrow> port_set \<Rightarrow> cn_builder \<Rightarrow> bool" where
  "held i ps b \<longleftrightarrow> (\<exists>nd. map_of (cn_nodes b) i = Some nd \<and> n_id nd = i \<and> says ps nd)"

definition ids_ok :: "cn_builder \<Rightarrow> bool" where
  "ids_ok b \<longleftrightarrow> (\<forall>i nd. map_of (cn_nodes b) i = Some nd \<longrightarrow> n_id nd = i)"

lemma upsert_ids: "ids_ok b \<Longrightarrow> ids_ok (cn_upsert nd b)"
  by (auto simp: ids_ok_def cn_upsert_def Let_def map_of_update split: option.splits if_splits)

lemma upsert_says:
  assumes "ids_ok b" "says ps nd" "gm_ok (n_props nd)"
  shows "held (n_id nd) ps (cn_upsert nd b)"
proof (cases "map_of (cn_nodes b) (n_id nd)")
  case None
  then show ?thesis using assms by (simp add: held_def cn_upsert_def map_of_update)
next
  case (Some ex)
  have "pget (fold (\<lambda>(k, v) m. AList.update k v m) (n_props nd) (n_props ex)) k = pget (n_props nd) k"
    if "k \<in> {prop_network_exposed, ''exposed_ports'', ''exposed_management_ports''}" for k
    by (rule fold_update_same [OF assms(3)]) (use assms(2) that in \<open>auto simp: says_def\<close>)
  then have "says ps (ex\<lparr>n_props := fold (\<lambda>(k, v) m. AList.update k v m) (n_props nd) (n_props ex)\<rparr>)"
    using assms(2) by (simp add: says_def)
  then show ?thesis using assms(1) Some
    by (auto simp: held_def ids_ok_def cn_upsert_def map_of_update Let_def says_def)
qed

lemma upsert_other: "held i ps b \<Longrightarrow> n_id nd \<noteq> i \<Longrightarrow> held i ps (cn_upsert nd b)"
  by (auto simp: held_def cn_upsert_def map_of_update Let_def split: option.split)

lemma edge_holds: "held i ps (cn_edge_with t u v q es b) \<longleftrightarrow> held i ps b" "ids_ok (cn_edge_with t u v q es b) \<longleftrightarrow> ids_ok b"
  "held i ps (cn_edge t u v q b) \<longleftrightarrow> held i ps b" "ids_ok (cn_edge t u v q b) \<longleftrightarrow> ids_ok b"
  by (simp_all add: held_def ids_ok_def cn_edge_def cn_edge_with_def)

text \<open>An id starts with its label, so ids of different labels differ.\<close>

definition id_label :: "string \<Rightarrow> string" where
  "id_label i = takeWhile (\<lambda>c. c \<noteq> CHR '':'') i"

lemma id_label_new: "CHR '':'' \<notin> set lbl \<Longrightarrow> id_label (new_id lbl ks) = lbl"
  by (auto simp: id_label_def new_id_def takeWhile_append2 intro: takeWhile_append2 [where xs = lbl, THEN trans])

lemma id_labels:
  "id_label (new_id label_iam_role ks) = label_iam_role" "id_label (new_id label_container ks) = label_container"
  "id_label (scoped_id label_vm account ks) = label_vm" "id_label (scoped_id label_lb account ks) = label_lb"
  "id_label (scoped_id label_vpc account ks) = label_vpc"
  by (simp_all add: id_label_new scoped_id_def)

lemma exposure_props_ok: "gm_ok ps \<Longrightarrow> gm_ok (exposure_props exposed ps)"
  by (simp add: exposure_props_def Let_def)

lemma note_props_ok: "gm_ok ps \<Longrightarrow> gm_ok (note_props note ps)"
  by (simp add: note_props_def)

lemma mark_props_ok: "gm_ok ps \<Longrightarrow> gm_ok (snd (mark_crown_jewel_from_tags ps tags))"
  by (simp add: mark_crown_jewel_from_tags_def Let_def)

lemma account_props_ok: "gm_ok (if account \<noteq> [] then [(prop_account, GStr account)] else [])"
  by (simp add: gm_ok_def)

lemma instance_props_ok: "gm_ok (n_props (instance_node account inet net inst))"
  unfolding instance_node_def Let_def case_prod_beta node.simps
  by (intro mark_props_ok note_props_ok exposure_props_ok account_props_ok)

lemma assume_role_holds:
  "held i ps b \<Longrightarrow> id_label i \<noteq> label_iam_role \<Longrightarrow> held i ps (assume_role u arn name q b)"
  "ids_ok b \<Longrightarrow> ids_ok (assume_role u arn name q b)"
  by (auto simp: assume_role_def Let_def edge_holds upsert_ids id_labels intro!: upsert_other)

lemma parse_instance_builder:
  "cs_builder (parse_instance account inet net profiles inst s) =
     (if in_id inst = [] then cs_builder s
      else (let i = vm_id account inst; b = cn_upsert (instance_node account inet net inst) (cs_builder s)
            in case in_profile inst of
                 None \<Rightarrow> b
               | Some arn \<Rightarrow>
                   (case map_of profiles arn of
                      None \<Rightarrow> b
                    | Some (role_arn, name) \<Rightarrow>
                        assume_role i role_arn name (imds_assume_prob (case in_tokens inst of Some t \<Rightarrow> t | None \<Rightarrow> [])) b)))"
  by (simp add: parse_instance_def Let_def split: option.split prod.split)

lemma instance_node_id [simp]: "n_id (instance_node account inet net inst) = vm_id account inst"
  by (simp add: instance_node_def case_prod_beta Let_def)

lemma vm_label: "id_label (vm_id account inst) = label_vm"
  by (simp add: vm_id_def id_labels)

lemma parse_instance_ids: "ids_ok (cs_builder s) \<Longrightarrow> ids_ok (cs_builder (parse_instance account inet net profiles inst s))"
  by (auto simp: parse_instance_builder Let_def upsert_ids assume_role_holds split: option.split)

lemma parse_instance_keeps:
  "held i ps (cs_builder s) \<Longrightarrow> id_label i = label_vm \<Longrightarrow> (in_id inst \<noteq> [] \<Longrightarrow> vm_id account inst \<noteq> i) \<Longrightarrow>
     held i ps (cs_builder (parse_instance account inet net profiles inst s))"
  by (auto simp: parse_instance_builder Let_def intro!: assume_role_holds(1) upsert_other split: option.split)

lemma parse_instance_sets:
  assumes "ids_ok (cs_builder s)" "in_id inst \<noteq> []"
  shows "held (vm_id account inst) (instance_ports b inst)
    (cs_builder (parse_instance account (fst (group_rules (cb_groups b))) (net_of b) profiles inst s))"
proof -
  have "held (vm_id account inst) (instance_ports b inst)
      (cn_upsert (instance_node account (fst (group_rules (cb_groups b))) (net_of b) inst) (cs_builder s))"
    using upsert_says [OF assms(1) instance_node_says instance_props_ok] by simp
  then show ?thesis using assms(2)
    by (auto simp: parse_instance_builder Let_def vm_label intro!: assume_role_holds(1) split: option.split)
qed

lemma parse_service_keeps:
  "held i ps (cs_builder s) \<Longrightarrow> id_label i = label_vm \<Longrightarrow> held i ps (cs_builder (parse_service inet net svc s))"
  by (auto simp: parse_service_def service_node_def service_id_def case_prod_beta Let_def id_labels intro!: assume_role_holds(1) upsert_other)

lemma parse_instances_keep:
  "held i ps (cs_builder s) \<Longrightarrow> id_label i = label_vm \<Longrightarrow> \<forall>j \<in> set insts. in_id j \<noteq> [] \<longrightarrow> vm_id account j \<noteq> i \<Longrightarrow>
     held i ps (cs_builder (fold (parse_instance account inet net profiles) insts s))"
  by (induction insts arbitrary: s) (auto intro!: parse_instance_keeps)

lemma parse_instances_ids:
  "ids_ok (cs_builder s) \<Longrightarrow> ids_ok (cs_builder (fold (parse_instance account inet net profiles) insts s))"
  by (induction insts arbitrary: s) (auto intro!: parse_instance_ids)

lemma parse_services_keep:
  "held i ps (cs_builder s) \<Longrightarrow> id_label i = label_vm \<Longrightarrow> held i ps (cs_builder (fold (parse_service inet net) svcs s))"
  by (induction svcs arbitrary: s) (auto intro!: parse_service_keeps)

lemma route_edges_hold: "held i ps (fold (route_edge self) routes b) \<longleftrightarrow> held i ps b"
proof (induction routes arbitrary: b)
  case (Cons r routes)
  have "held i ps (route_edge self r b) \<longleftrightarrow> held i ps b" unfolding route_edge_def case_prod_beta by (rule edge_holds)
  then show ?case using Cons.IH by simp
qed simp

lemma balancer_label: "id_label (balancer_id account lb) = label_lb"
  by (simp add: balancer_id_def load_balancer_id_def regional_id_def id_labels Let_def)

lemma parse_balancer_keeps:
  "held i ps b \<Longrightarrow> id_label i = label_vm \<Longrightarrow> held i ps (parse_balancer account inet net by_arn s lb b)"
proof -
  assume h: "held i ps b" "id_label i = label_vm"
  have n: "n_id (balancer_node account inet net lb) = balancer_id account lb"
    by (simp add: balancer_node_def case_prod_beta Let_def)
  have "balancer_id account lb \<noteq> i" using balancer_label [of account lb] h(2) by auto
  then show "held i ps (parse_balancer account inet net by_arn s lb b)"
    using h(1) by (simp add: parse_balancer_def Let_def route_edges_hold upsert_other n)
qed

lemma parse_balancers_keep:
  "held i ps b \<Longrightarrow> id_label i = label_vm \<Longrightarrow> held i ps (fold (parse_balancer account inet net by_arn s) lbs b)"
  by (induction lbs arbitrary: b) (auto intro!: parse_balancer_keeps)

lemma lateral_edges_keep: "held i ps (fold lateral_edge ls b) \<longleftrightarrow> held i ps b"
proof (induction ls arbitrary: b)
  case (Cons l ls)
  have "held i ps (lateral_edge l b) \<longleftrightarrow> held i ps b" unfolding lateral_edge_def case_prod_beta by (simp only: edge_holds if_cancel simp_thms split: if_split)
  then show ?case using Cons.IH by simp
qed simp

lemma stub_keeps: "held i ps b \<Longrightarrow> id_label i = label_vm \<Longrightarrow> held i ps (snd (cn_stub account label_vpc name b))"
  by (auto simp: cn_stub_def Let_def held_def map_of_update id_labels)

lemma peerings_keep: "held i ps b \<Longrightarrow> id_label i = label_vm \<Longrightarrow> held i ps (fold (peering_edge account) prs b)"
proof (induction prs arbitrary: b)
  case (Cons p prs)
  have "held i ps (peering_edge account p b)"
    using Cons.prems stub_keeps by (simp add: peering_edge_def case_prod_beta edge_holds)
  then show ?case using Cons.IH Cons.prems(2) by simp
qed simp

text \<open>
  C4. The exposure of an instance is what the network does. In the event of any bundle, the
  node of an instance (the last described under its id) says it is exposed exactly when some
  TCP or UDP port passes everything on the way in: a group of it opens the port to the whole
  internet on an address family, it has an address of that family (unless the bundle carries
  no addressing), its subnet routes that family to an internet gateway, and the first entry of
  the network ACL on the port allows it. The ports it lists are those ports and no other.
\<close>

theorem exposure_exact:
  assumes "cb_instances b = earlier @ inst # later" "in_id inst \<noteq> []"
    and "\<forall>j \<in> set later. in_id j \<noteq> [] \<longrightarrow> vm_id account j \<noteq> vm_id account inst"
  shows "\<exists>nd \<in> set (ev_nodes (cn_parse account now b)). n_id nd = vm_id account inst \<and>
    (\<exists>ps. says ps nd \<and> ports_ok ps \<and> (\<forall>p n. port_in ps p n \<longleftrightarrow> internet_reaches b inst p n)) \<and>
    (internet_exposed nd \<longleftrightarrow> (\<exists>n. internet_reaches b inst proto_tcp n \<or> internet_reaches b inst proto_udp n))"
proof -
  let ?i = "vm_id account inst" and ?ps = "instance_ports b inst"
  let ?p = "parse_instance account (fst (group_rules (cb_groups b))) (net_of b) (profile_roles (cb_profiles b))"
  have "ids_ok (cs_builder cn_start)" by (simp add: cn_start_def ids_ok_def)
  then have "held ?i ?ps (cs_builder (?p inst (fold ?p earlier cn_start)))"
    by (intro parse_instance_sets assms(2) parse_instances_ids)
  then have "held ?i ?ps (cs_builder (fold ?p (cb_instances b) cn_start))"
    using parse_instances_keep [OF _ vm_label assms(3)] by (simp add: assms(1))
  then have "held ?i ?ps (cs_builder (cn_workloads account b))"
    by (simp add: cn_workloads_def Let_def parse_services_keep vm_label)
  then have "held ?i ?ps (fold (peering_edge account) (cb_peerings b) (cn_lateral account b))"
    by (simp add: cn_lateral_def cn_balanced_def Let_def lateral_edges_keep peerings_keep parse_balancers_keep vm_label)
  then obtain nd where nd: "map_of (cn_nodes (fold (peering_edge account) (cb_peerings b) (cn_lateral account b))) ?i = Some nd"
    "n_id nd = ?i" "says ?ps nd" unfolding held_def by blast
  have "nd \<in> set (ev_nodes (cn_parse account now b))" using map_of_SomeD [OF nd(1)] by (force simp: cn_parse_def Let_def)
  moreover have "internet_exposed nd \<longleftrightarrow> ps_transport ?ps" using nd(3) by (simp add: internet_exposed_def says_def)
  ultimately show ?thesis using nd(2,3) instance_ports_in ps_transport_iff [of ?ps] by metis
qed

text \<open>
  A bundle of one group open on 22 and 443, behind a network ACL that lets only 443 through.
\<close>

definition demo_instance :: ec2_instance where
  "demo_instance = \<lparr>in_id = ''i-1'', in_subnet = ''subnet-a'', in_groups = [''sg-1''], in_tags = [], in_profile = None, in_private = ''10.0.0.4'',
     in_public = ''203.0.113.9'', in_addr6 = [], in_interfaces = [], in_tokens = None\<rparr>"

definition demo_bundle :: cn_bundle where
  "demo_bundle =
     \<lparr>cb_groups = [\<lparr>sg_id = ''sg-1'', sg_perms =
        [\<lparr>ipp_protocol = ''tcp'', ipp_from = Some 22, ipp_to = Some 22, ipp_ranges = [any_v4], ipp_ranges6 = [], ipp_pairs = []\<rparr>,
         \<lparr>ipp_protocol = ''tcp'', ipp_from = Some 443, ipp_to = Some 443, ipp_ranges = [any_v4], ipp_ranges6 = [], ipp_pairs = []\<rparr>]\<rparr>],
      cb_instances = [demo_instance], cb_peerings = [],
      cb_subnets = [\<lparr>sn_id = ''subnet-a'', sn_route_table = ''rtb-1'', sn_acl = ''acl-1''\<rparr>],
      cb_route_tables = [\<lparr>rt_id = ''rtb-1'', rt_routes =
        [\<lparr>ro_dest = any_v4, ro_dest6 = [], ro_gateway = ''igw-1'', ro_nat = [], ro_transit = [], ro_peering = [], ro_egress_only = []\<rparr>]\<rparr>],
      cb_acls = [\<lparr>na_id = ''acl-1'', na_entries =
        [\<lparr>nae_number = 200, nae_egress = False, nae_cidr = any_v4, nae_cidr6 = [], nae_action = ''deny'', nae_protocol = ''-1'', nae_range = None\<rparr>,
         \<lparr>nae_number = 100, nae_egress = False, nae_cidr = any_v4, nae_cidr6 = [], nae_action = ''allow'', nae_protocol = ''6'',
          nae_range = Some (Some 443, Some 443)\<rparr>]\<rparr>],
      cb_services = [], cb_balancers = [], cb_profiles = []\<rparr>"

lemma demo_routed: "routed demo_bundle False ''subnet-a''"
  by (simp add: routed_def demo_bundle_def subnet_rts_def igw_route_def to_igw_def default_v4_def)

lemma demo_rules:
  "acl_passes demo_bundle False ''subnet-a'' p n \<longleftrightarrow>
     (if port_in (rule_ports ''6'' (Some 443) (Some 443)) p n then equal_fold ''allow'' ''allow''
      else port_in (rule_ports ''-1'' None None) p n \<and> equal_fold ''deny'' ''allow'')"
  by (simp add: acl_passes_def demo_bundle_def subnet_acls_def string_at_def entries_of_def by_number_def internet_entry_def entry_rule_def)

lemma demo_443: "internet_reaches demo_bundle demo_instance proto_tcp 443"
proof -
  have "port_in (rule_ports ''tcp'' (Some 443) (Some 443)) proto_tcp 443" "port_in (rule_ports ''6'' (Some 443) (Some 443)) proto_tcp 443"
    by code_simp+
  then have "acl_passes demo_bundle False ''subnet-a'' proto_tcp 443"
    and "\<exists>g \<in> set (in_groups demo_instance). group_opens (cb_groups demo_bundle) False g proto_tcp 443"
    by (simp_all add: demo_rules equal_fold_def)
      (simp_all add: demo_instance_def demo_bundle_def group_opens_def perm_open_def perm_ports_def)
  then show ?thesis unfolding internet_reaches_def
    by (intro exI [of _ False]) (simp add: demo_routed demo_instance_def has_address_def)
qed

theorem exposure_exact_witness:
  "\<exists>nd \<in> set (ev_nodes (cn_parse [] 0 demo_bundle)). n_id nd = vm_id [] demo_instance \<and> internet_exposed nd"
proof -
  have "cb_instances demo_bundle = [] @ demo_instance # []" "in_id demo_instance \<noteq> []"
    by (simp_all add: demo_bundle_def demo_instance_def)
  then show ?thesis using exposure_exact [of demo_bundle "[]" demo_instance "[]" "[]" 0] demo_443 by auto
qed

section \<open>Lateral reachability\<close>

text \<open>Some rule of group \<open>t\<close> admits the port from group \<open>s\<close>.\<close>

definition group_admits :: "sec_group list \<Rightarrow> string \<Rightarrow> string \<Rightarrow> string \<Rightarrow> int \<Rightarrow> bool" where
  "group_admits sgs t s p n \<longleftrightarrow> s \<noteq> [] \<and>
     (\<exists>sg \<in> set sgs. sg_id sg = t \<and> (\<exists>pm \<in> set (sg_perms sg). s \<in> set (ipp_pairs pm) \<and> port_in (perm_ports pm) p n))"

definition peers_ok :: "sg_peers \<Rightarrow> bool" where
  "peers_ok m \<longleftrightarrow> gm_ok m \<and> (\<forall>(t, srcs) \<in> set m. gm_ok srcs \<and> (\<forall>(s, ps) \<in> set srcs. ports_ok ps))"

definition ports_from :: "sg_peers \<Rightarrow> string \<Rightarrow> string \<Rightarrow> port_set" where
  "ports_from m t s = ports_at (peers_at m t) s"

lemma peers_at_ok:
  assumes "peers_ok m"
  shows "gm_ok (peers_at m t) \<and> (\<forall>(s, ps) \<in> set (peers_at m t). ports_ok ps)"
proof (cases "map_of m t")
  case (Some srcs)
  then have "(t, srcs) \<in> set m" by (rule map_of_SomeD)
  then show ?thesis using assms Some by (auto simp: peers_ok_def peers_at_def)
qed (simp add: peers_at_def)

lemma peers_okD:
  assumes "peers_ok m"
  shows "gm_ok (peers_at m t)" and "ports_ok (ports_from m t s)"
  using peers_at_ok [OF assms, of t] by (auto simp: ports_from_def ports_at_def split: option.split dest!: map_of_SomeD)

lemma update_set: "x \<in> set (AList.update k v m) \<Longrightarrow> x = (k, v) \<or> x \<in> set m"
  by (induction m) (auto split: if_splits)

lemma peers_at_update [simp]: "peers_at (AList.update t srcs m) t' = (if t' = t then srcs else peers_at m t')"
  by (simp add: peers_at_def map_of_update)

lemma ports_at_update [simp]: "ports_at (AList.update k ps m) k' = (if k' = k then ps else ports_at m k')"
  by (simp add: ports_at_def map_of_update)

lemma add_pair_in:
  assumes m: "peers_ok m" and ps: "ports_ok ports"
  shows "peers_ok (add_pair gid ports src m) \<and>
    (port_in (ports_from (add_pair gid ports src m) t s) p n \<longleftrightarrow>
       port_in (ports_from m t s) p n \<or> (src \<noteq> [] \<and> t = gid \<and> s = src \<and> port_in ports p n))"
proof (cases "src = []")
  case False
  let ?srcs = "AList.update src (ps_union (ports_at (peers_at m gid) src) ports) (peers_at m gid)"
  have new: "ports_ok (ps_union (ports_at (peers_at m gid) src) ports)"
    using peers_okD(2) [OF m, of gid src] ps by (simp add: ports_from_def ports_ok_union)
  have srcs: "\<forall>(s, q) \<in> set (peers_at m gid). ports_ok q" using peers_at_ok [OF m] by blast
  then have "gm_ok ?srcs \<and> (\<forall>(s, q) \<in> set ?srcs. ports_ok q)"
    using peers_okD(1) [OF m, of gid] new by (auto dest!: update_set)
  then have "peers_ok (AList.update gid ?srcs m)"
    using m by (auto simp: peers_ok_def dest!: update_set)
  then show ?thesis using False peers_okD(2) [OF m, of gid src] ps
    by (auto simp: add_pair_def Let_def ports_from_def port_algebra)
qed (simp add: add_pair_def m)

lemma add_pairs_in:
  "peers_ok m \<Longrightarrow> ports_ok ports \<Longrightarrow> peers_ok (fold (add_pair gid ports) srcs m) \<and>
     (port_in (ports_from (fold (add_pair gid ports) srcs m) t s) p n \<longleftrightarrow>
        port_in (ports_from m t s) p n \<or> (s \<noteq> [] \<and> t = gid \<and> s \<in> set srcs \<and> port_in ports p n))"
  by (induction srcs arbitrary: m) (auto simp: add_pair_in)

lemma group_perm_peers: "snd (group_perm gid pm st) = fold (add_pair gid (perm_ports pm)) (ipp_pairs pm) (snd st)"
  by (cases st) (simp add: group_perm_def Let_def)

lemma group_perms_admit:
  "peers_ok (snd st) \<Longrightarrow> peers_ok (snd (fold (group_perm gid) pms st)) \<and>
     (port_in (ports_from (snd (fold (group_perm gid) pms st)) t s) p n \<longleftrightarrow>
        port_in (ports_from (snd st) t s) p n \<or>
        (s \<noteq> [] \<and> t = gid \<and> (\<exists>pm \<in> set pms. s \<in> set (ipp_pairs pm) \<and> port_in (perm_ports pm) p n)))"
  by (induction pms arbitrary: st) (auto simp: group_perm_peers add_pairs_in)

lemma group_rules_admit:
  "peers_ok (snd (group_rules sgs)) \<and> (port_in (ports_from (snd (group_rules sgs)) t s) p n \<longleftrightarrow> group_admits sgs t s p n)"
proof -
  have "peers_ok (snd st) \<Longrightarrow> peers_ok (snd (fold (\<lambda>sg. fold (group_perm (sg_id sg)) (sg_perms sg)) sgs st)) \<and>
     (port_in (ports_from (snd (fold (\<lambda>sg. fold (group_perm (sg_id sg)) (sg_perms sg)) sgs st)) t s) p n \<longleftrightarrow>
        port_in (ports_from (snd st) t s) p n \<or> group_admits sgs t s p n)" for st
    by (induction sgs arbitrary: st) (auto simp: group_perms_admit group_admits_def)
  from this [of "([], [])"] show ?thesis
    by (simp add: group_rules_def peers_ok_def ports_from_def ports_at_def peers_at_def)
qed

text \<open>Ranging over the maps of the code.\<close>

definition lateral_ok :: "lateral \<Rightarrow> bool" where
  "lateral_ok m \<longleftrightarrow> gm_ok m \<and> (\<forall>k. ports_ok (ports_at m k))"

lemma add_lateral_in:
  "lateral_ok m \<Longrightarrow> ports_ok ports \<Longrightarrow> lateral_ok (add_lateral ports u v m) \<and>
     (port_in (ports_at (add_lateral ports u v m) k) p n \<longleftrightarrow>
        port_in (ports_at m k) p n \<or> (u \<noteq> v \<and> k = (u, v) \<and> port_in ports p n))"
  by (auto simp: add_lateral_def lateral_ok_def port_algebra ports_ok_intros)

lemma add_laterals_in:
  "lateral_ok m \<Longrightarrow> ports_ok ports \<Longrightarrow> lateral_ok (fold (add_lateral ports u) vs m) \<and>
     (port_in (ports_at (fold (add_lateral ports u) vs m) k) p n \<longleftrightarrow>
        port_in (ports_at m k) p n \<or> (\<exists>v \<in> set vs. u \<noteq> v \<and> k = (u, v) \<and> port_in ports p n))"
  by (induction vs arbitrary: m) (auto simp: add_lateral_in)

lemma add_pairs_lateral:
  "lateral_ok m \<Longrightarrow> ports_ok ports \<Longrightarrow> lateral_ok (fold (\<lambda>u. fold (add_lateral ports u) vs) us m) \<and>
     (port_in (ports_at (fold (\<lambda>u. fold (add_lateral ports u) vs) us m) k) p n \<longleftrightarrow>
        port_in (ports_at m k) p n \<or> (\<exists>u \<in> set us. \<exists>v \<in> set vs. u \<noteq> v \<and> k = (u, v) \<and> port_in ports p n))"
  by (induction us arbitrary: m) (auto simp: add_laterals_in)

definition from_source :: "(string, string list) gomap \<Rightarrow> (string, port_set) gomap \<Rightarrow> string \<Rightarrow> string \<Rightarrow> int \<Rightarrow> bool" where
  "from_source mem srcs u p n \<longleftrightarrow> (\<exists>(s, ps) \<in> set srcs. u \<in> set (list_at mem s) \<and> port_in ps p n)"

lemma from_source_simps [simp]:
  "\<not> from_source mem [] u p n"
  "from_source mem ((s, ps) # srcs) u p n \<longleftrightarrow> (u \<in> set (list_at mem s) \<and> port_in ps p n) \<or> from_source mem srcs u p n"
  by (simp_all add: from_source_def)

lemma sources_lateral:
  "lateral_ok m \<Longrightarrow> \<forall>(s, ps) \<in> set srcs. ports_ok ps \<Longrightarrow>
     lateral_ok (fold (source_lateral mem vs) srcs m) \<and>
     (port_in (ports_at (fold (source_lateral mem vs) srcs m) (u, v)) p n \<longleftrightarrow>
        port_in (ports_at m (u, v)) p n \<or>
        (u \<noteq> v \<and> v \<in> set vs \<and> from_source mem srcs u p n))"
proof (induction srcs arbitrary: m)
  case (Cons sp srcs)
  obtain s ps where sp: "sp = (s, ps)" by (cases sp)
  have "ports_ok ps" using Cons.prems(2) sp by simp
  note a = add_pairs_lateral [OF Cons.prems(1) this, of vs "list_at mem s"]
  have "lateral_ok (source_lateral mem vs sp m) \<and> (port_in (ports_at (source_lateral mem vs sp m) (u, v)) p n \<longleftrightarrow>
      port_in (ports_at m (u, v)) p n \<or> (u \<noteq> v \<and> v \<in> set vs \<and> u \<in> set (list_at mem s) \<and> port_in ps p n))"
    using a by (auto simp: source_lateral_def sp)
  then show ?case using Cons.IH [of "source_lateral mem vs sp m"] Cons.prems(2) sp by auto
qed simp

lemma targets_lateral:
  "lateral_ok m \<Longrightarrow> \<forall>(t, srcs) \<in> set peers. \<forall>(s, ps) \<in> set srcs. ports_ok ps \<Longrightarrow>
     lateral_ok (fold (target_lateral mem) peers m) \<and>
     (port_in (ports_at (fold (target_lateral mem) peers m) (u, v)) p n \<longleftrightarrow>
        port_in (ports_at m (u, v)) p n \<or>
        (u \<noteq> v \<and> (\<exists>(t, srcs) \<in> set peers. v \<in> set (list_at mem t) \<and> from_source mem srcs u p n)))"
proof (induction peers arbitrary: m)
  case (Cons ts peers)
  obtain t srcs where ts: "ts = (t, srcs)" by (cases ts)
  have "\<forall>(s, ps) \<in> set srcs. ports_ok ps" using Cons.prems(2) ts by simp
  note a = sources_lateral [OF Cons.prems(1) this, of mem "list_at mem t" u v p n]
  have "lateral_ok (target_lateral mem ts m) \<and> (port_in (ports_at (target_lateral mem ts m) (u, v)) p n \<longleftrightarrow>
      port_in (ports_at m (u, v)) p n \<or>
      (u \<noteq> v \<and> v \<in> set (list_at mem t) \<and> from_source mem srcs u p n))"
    using a by (simp add: target_lateral_def ts)
  moreover have "\<forall>(t, srcs) \<in> set peers. \<forall>(s, ps) \<in> set srcs. ports_ok ps" using Cons.prems(2) by simp
  ultimately show ?case using Cons.IH [of "target_lateral mem ts m"] ts by auto
qed simp

lemma ports_from_iff:
  assumes "peers_ok peers"
  shows "port_in (ports_from peers t s) p n \<longleftrightarrow> (\<exists>srcs ps. (t, srcs) \<in> set peers \<and> (s, ps) \<in> set srcs \<and> port_in ps p n)"
proof -
  have t: "(t, srcs) \<in> set peers \<longleftrightarrow> map_of peers t = Some srcs" for srcs
    using assms by (auto simp: peers_ok_def gm_ok_in_set)
  have s: "(s, ps) \<in> set srcs \<longleftrightarrow> map_of srcs s = Some ps" if "map_of peers t = Some srcs" for srcs ps
    using peers_okD(1) [OF assms, of t] that by (simp add: peers_at_def gm_ok_in_set)
  show ?thesis unfolding ports_from_def ports_at_def peers_at_def using s by (auto simp: t split: option.split)
qed

lemma lateral_of_in:
  assumes "peers_ok peers"
  shows "lateral_ok (lateral_of peers mem) \<and>
    (port_in (ports_at (lateral_of peers mem) (u, v)) p n \<longleftrightarrow>
       u \<noteq> v \<and> (\<exists>t s. u \<in> set (list_at mem s) \<and> v \<in> set (list_at mem t) \<and> port_in (ports_from peers t s) p n))"
proof -
  have ok: "\<forall>(t, srcs) \<in> set peers. \<forall>(s, ps) \<in> set srcs. ports_ok ps" using assms unfolding peers_ok_def by blast
  have e: "lateral_ok ([] :: lateral)" by (simp add: lateral_ok_def ports_at_def)
  have n: "\<not> port_in (ports_at ([] :: lateral) (u, v)) p n" by (simp add: ports_at_def)
  have "(\<exists>(t, srcs) \<in> set peers. v \<in> set (list_at mem t) \<and> from_source mem srcs u p n) \<longleftrightarrow>
      (\<exists>t s. u \<in> set (list_at mem s) \<and> v \<in> set (list_at mem t) \<and> port_in (ports_from peers t s) p n)"
    unfolding from_source_def ports_from_iff [OF assms] Bex_def split_paired_Ex case_prod_conv by blast
  then show ?thesis unfolding lateral_of_def using targets_lateral [OF e ok, of mem u v p n] n by satx
qed

text \<open>Who is in a group.\<close>

definition in_group :: "string \<Rightarrow> cn_bundle \<Rightarrow> string \<Rightarrow> string \<Rightarrow> bool" where
  "in_group account b g u \<longleftrightarrow>
     (\<exists>inst \<in> set (cb_instances b). in_id inst \<noteq> [] \<and> g \<in> set (in_groups inst) \<and> u = vm_id account inst) \<or>
     (\<exists>svc \<in> set (cb_services b). es_arn svc \<noteq> [] \<and> g \<in> set (es_groups svc) \<and> u = service_id svc)"

lemma push_in: "u \<in> set (list_at (push_at k x m) k') \<longleftrightarrow> u \<in> set (list_at m k') \<or> (k' = k \<and> u = x)"
  by (cases "k' = k") (simp_all add: push_at_def list_at_def map_of_update disj_commute)

lemma pushes_in: "u \<in> set (list_at (fold (\<lambda>k. push_at k x) ks m) k') \<longleftrightarrow> u \<in> set (list_at m k') \<or> (k' \<in> set ks \<and> u = x)"
  by (induction ks arbitrary: m) (auto simp: push_in)

lemma instance_members:
  "cs_members (parse_instance account inet net profiles inst s) =
     (if in_id inst = [] then cs_members s else fold (\<lambda>sg. push_at sg (vm_id account inst)) (in_groups inst) (cs_members s))"
  by (simp add: parse_instance_def Let_def split: option.split prod.split)

lemma service_members:
  "cs_members (parse_service inet net svc s) =
     (if es_arn svc = [] then cs_members s else fold (\<lambda>sg. push_at sg (service_id svc)) (es_groups svc) (cs_members s))"
  by (simp add: parse_service_def Let_def)

lemma instances_members:
  "u \<in> set (list_at (cs_members (fold (parse_instance account inet net profiles) insts s)) g) \<longleftrightarrow>
     u \<in> set (list_at (cs_members s) g) \<or> (\<exists>inst \<in> set insts. in_id inst \<noteq> [] \<and> g \<in> set (in_groups inst) \<and> u = vm_id account inst)"
  by (induction insts arbitrary: s) (auto simp: instance_members pushes_in)

lemma services_members:
  "u \<in> set (list_at (cs_members (fold (parse_service inet net) svcs s)) g) \<longleftrightarrow>
     u \<in> set (list_at (cs_members s) g) \<or> (\<exists>svc \<in> set svcs. es_arn svc \<noteq> [] \<and> g \<in> set (es_groups svc) \<and> u = service_id svc)"
  by (induction svcs arbitrary: s) (auto simp: service_members pushes_in)

lemma workload_members: "u \<in> set (list_at (cs_members (cn_workloads account b)) g) \<longleftrightarrow> in_group account b g u"
  by (simp add: cn_workloads_def Let_def services_members instances_members in_group_def cn_start_def list_at_def [of "[]"])

section \<open>The edges of the event\<close>

definition lateral_only :: "string \<Rightarrow> string \<Rightarrow> edge list \<Rightarrow> edge list" where
  "lateral_only u v es = filter (\<lambda>e. e_type e = edge_connects_to \<and> e_prob e = 8 / 10 \<and> e_from e = u \<and> e_to e = v) es"

definition not_lateral :: "cn_builder \<Rightarrow> bool" where
  "not_lateral b \<longleftrightarrow> (\<forall>e \<in> set (cn_edges b). e_type e \<noteq> edge_connects_to)"

lemma not_lateral_steps:
  "not_lateral (cn_upsert nd b) = not_lateral b"
  "t \<noteq> edge_connects_to \<Longrightarrow> not_lateral (cn_edge_with t u v q es b) = not_lateral b"
  by (auto simp: not_lateral_def cn_upsert_def cn_edge_with_def Let_def split: option.split)

lemma not_lateral_role: "not_lateral (assume_role u arn name q b) = not_lateral b"
  by (simp add: assume_role_def Let_def cn_edge_def not_lateral_steps)

lemma not_lateral_instances:
  "not_lateral (cs_builder s) \<Longrightarrow> not_lateral (cs_builder (fold (parse_instance account inet net profiles) insts s))"
proof (induction insts arbitrary: s)
  case (Cons inst insts)
  have "not_lateral (cs_builder (parse_instance account inet net profiles inst s))"
    using Cons.prems by (simp add: parse_instance_builder Let_def not_lateral_role not_lateral_steps split: option.split prod.split)
  then show ?case using Cons.IH by simp
qed simp

lemma not_lateral_services:
  "not_lateral (cs_builder s) \<Longrightarrow> not_lateral (cs_builder (fold (parse_service inet net) svcs s))"
proof (induction svcs arbitrary: s)
  case (Cons svc svcs)
  have "not_lateral (cs_builder (parse_service inet net svc s))"
    using Cons.prems by (simp add: parse_service_def Let_def not_lateral_role not_lateral_steps)
  then show ?case using Cons.IH by simp
qed simp

lemma not_lateral_routes: "not_lateral b \<Longrightarrow> not_lateral (fold (route_edge self) routes b)"
proof (induction routes arbitrary: b)
  case (Cons r routes)
  have "not_lateral (route_edge self r b)" using Cons.prems by (cases r) (simp add: route_edge_def not_lateral_steps)
  then show ?case using Cons.IH by simp
qed simp

lemma not_lateral_balancers:
  "not_lateral b \<Longrightarrow> not_lateral (fold (parse_balancer account inet net by_arn s) lbs b)"
proof (induction lbs arbitrary: b)
  case (Cons lb lbs)
  have "not_lateral (parse_balancer account inet net by_arn s lb b)"
    using Cons.prems by (simp add: parse_balancer_def Let_def not_lateral_routes not_lateral_steps)
  then show ?case using Cons.IH by simp
qed simp

lemma not_lateral_balanced: "not_lateral (cn_balanced account b)"
proof -
  have "not_lateral (cs_builder cn_start)" by (simp add: not_lateral_def cn_start_def)
  then show ?thesis
    by (simp add: cn_balanced_def cn_workloads_def Let_def not_lateral_balancers not_lateral_services not_lateral_instances)
qed

text \<open>The edge a pair of members gets.\<close>

definition pair_edge :: "(string \<times> string) \<times> port_set \<Rightarrow> edge" where
  "pair_edge = (\<lambda>((u, v), ports).
     \<lparr>e_type = edge_connects_to, e_from = u, e_to = v, e_prob = 8 / 10, e_props = [(''ports'', GStr (ps_string ports))]\<rparr>)"

lemma lateral_edges: "cn_edges (fold lateral_edge ls b) = cn_edges b @ map pair_edge (filter (\<lambda>(k, ports). ps_transport ports) ls)"
  by (induction ls arbitrary: b) (auto simp: lateral_edge_def pair_edge_def cn_edge_with_def)

lemma peering_lateral: "lateral_only u v (cn_edges (peering_edge account p b)) = lateral_only u v (cn_edges b)"
proof -
  have "cn_edges (snd (cn_stub account lbl name b)) = cn_edges b" for lbl name b by (simp add: cn_stub_def Let_def)
  then show ?thesis by (simp add: peering_edge_def case_prod_beta lateral_only_def cn_edge_def cn_edge_with_def)
qed

lemma peerings_lateral: "lateral_only u v (cn_edges (fold (peering_edge account) prs b)) = lateral_only u v (cn_edges b)"
  by (induction prs arbitrary: b) (simp_all add: peering_lateral)

lemma filter_unique_key:
  "gm_ok m \<Longrightarrow> filter (\<lambda>x. fst x = k) m = (case map_of m k of Some y \<Rightarrow> [(k, y)] | None \<Rightarrow> [])"
proof (induction m)
  case (Cons x m)
  obtain a y where x: "x = (a, y)" by (cases x)
  have a: "a \<notin> set (gm_keys m)" "gm_ok m" using Cons.prems x by (simp_all add: gm_ok_def)
  then have "filter (\<lambda>x. fst x = a) m = []" by (force simp: filter_empty_conv)
  then show ?case using Cons.IH a x by auto
qed simp

text \<open>
  C32. Lateral reachability is what the group rules say. Between two workloads the event has at
  most one discovered edge, and has it exactly when they differ and rules of groups the second
  is in admit some TCP or UDP port from groups the first is in; the ports the edge carries are
  those of all such rules, and ICMP alone draws nothing.
\<close>

theorem lateral_exact:
  "\<exists>ps. ports_ok ps \<and>
     (\<forall>p n. port_in ps p n \<longleftrightarrow>
        u \<noteq> v \<and> (\<exists>t s. in_group account b s u \<and> in_group account b t v \<and> group_admits (cb_groups b) t s p n)) \<and>
     lateral_only u v (ev_edges (cn_parse account now b)) = (if ps_transport ps then [pair_edge ((u, v), ps)] else [])"
proof -
  let ?peers = "snd (group_rules (cb_groups b))" and ?mem = "cs_members (cn_workloads account b)"
  define m where "m = lateral_of ?peers ?mem"
  define ls where "ls = sort_by (\<lambda>x y. str_less (fst (fst x) @ snd (fst x)) (fst (fst y) @ snd (fst y))) m"
  have m: "lateral_ok m" "port_in (ports_at m (u, v)) p n \<longleftrightarrow>
      u \<noteq> v \<and> (\<exists>t s. in_group account b s u \<and> in_group account b t v \<and> group_admits (cb_groups b) t s p n)" for p n
    using lateral_of_in [of ?peers ?mem u v] group_rules_admit unfolding m_def workload_members by blast+
  have "mset ls = mset m" by (simp add: ls_def)
  then have ls: "gm_ok ls" "set ls = set m" using m(1) unfolding lateral_ok_def gm_ok_def
    by (metis mset_eq_imp_distinct_iff mset_map, metis set_mset_mset)
  then have of_ls: "map_of ls = map_of m" using m(1) unfolding lateral_ok_def by (metis (no_types, lifting) ext gm_ok_in_set not_Some_eq)
  have "cn_edges (cn_lateral account b) =
      cn_edges (cn_balanced account b) @ map pair_edge (filter (\<lambda>(k, ports). ps_transport ports) ls)"
    unfolding cn_lateral_def lateral_edges ls_def m_def ..
  moreover have "lateral_only u v (cn_edges (cn_balanced account b)) = []"
    using not_lateral_balanced [of account b] by (simp add: not_lateral_def lateral_only_def filter_empty_conv)
  ultimately have "lateral_only u v (ev_edges (cn_parse account now b)) =
      lateral_only u v (map pair_edge (filter (\<lambda>(k, ports). ps_transport ports) ls))"
    by (simp add: cn_parse_def Let_def peerings_lateral) (simp add: lateral_only_def)
  also have "\<dots> = map pair_edge (filter (\<lambda>(k, ports). ps_transport ports) (filter (\<lambda>x. fst x = (u, v)) ls))"
    by (induction ls) (auto simp: lateral_only_def pair_edge_def)
  also have "\<dots> = (if ps_transport (ports_at m (u, v)) then [pair_edge ((u, v), ports_at m (u, v))] else [])"
    unfolding filter_unique_key [OF ls(1)] of_ls by (simp add: ports_at_def ps_transport_def ranges_of_def split: option.split)
  finally show ?thesis using m unfolding lateral_ok_def by (intro exI [of _ "ports_at m (u, v)"]) blast
qed

text \<open>
  A load balancer the feed names only by its ARN is keyed one way as a target and another as a
  node, so the route into it has no end.
\<close>

lemma nameless_balancer_keyed_twice:
  assumes "lb_name lb = []" "lb_arn lb \<noteq> []" "cb_balancers b = [lb]"
  shows "alb_target account (lb_index account (cb_balancers b)) (lb_arn lb) = load_balancer_id account (lb_arn lb) []"
    and "balancer_id account lb = load_balancer_id account (lb_arn lb) (load_balancer_name_from_arn (lb_arn lb))"
proof -
  have "load_balancer_id account (lb_arn lb) [] \<noteq> []"
    by (simp add: load_balancer_id_def regional_id_def scoped_id_def new_id_def Let_def)
  then show "alb_target account (lb_index account (cb_balancers b)) (lb_arn lb) = load_balancer_id account (lb_arn lb) []"
    using assms by (simp add: alb_target_def lb_index_def string_at_def Let_def)
  show "balancer_id account lb = load_balancer_id account (lb_arn lb) (load_balancer_name_from_arn (lb_arn lb))"
    using assms by (simp add: balancer_id_def balancer_name_def)
qed

end
