(* ===== verification/Broker.thy ===== *)
theory Broker
  imports Ontology Sha256
begin

text \<open>
  The event bus, \<open>backend/internal/broker/batch.go\<close>, \<open>snapshot.go\<close> and the decisions of
  \<open>nats.go\<close>: how an event too large for a message is split, how an ingest is tracked as a batch
  in a bucket every replica shares, and when a complete snapshot's omissions are swept. JSON
  encoding is the parameter \<open>codec\<close>; the bucket is a map that only these operations write; whether a call to it
  succeeds is an argument.
\<close>

section \<open>Splitting an event\<close>

datatype split_error = Marshal_Failed | Too_Large

text \<open>The greedy cut: a new chunk starts when the next element would not fit and the chunk is not empty.\<close>

fun cut_chunks :: "('a \<Rightarrow> int) \<Rightarrow> int \<Rightarrow> 'a list \<Rightarrow> int \<Rightarrow> 'a list \<Rightarrow> 'a list list" where
  "cut_chunks w budget cur sz [] = (if cur \<noteq> [] then [cur] else [])"
| "cut_chunks w budget cur sz (x # xs) =
     (if sz + w x + 1 > budget \<and> cur \<noteq> [] then cur # cut_chunks w budget [x] (w x + 1) xs
      else cut_chunks w budget (cur @ [x]) (sz + w x + 1) xs)"

lemma cut_concat: "concat (cut_chunks w budget cur sz xs) = cur @ xs"
  by (induction w budget cur sz xs rule: cut_chunks.induct) auto

lemma cut_length: "c \<in> set (cut_chunks w budget cur sz xs) \<Longrightarrow> length c \<le> length cur + length xs"
  by (induction w budget cur sz xs rule: cut_chunks.induct) (auto split: if_splits)

lemma cut_nonempty: "c \<in> set (cut_chunks w budget cur sz xs) \<Longrightarrow> c \<noteq> []"
  by (induction w budget cur sz xs rule: cut_chunks.induct) (auto split: if_splits)

text \<open>Run over a list, appending the results, until the first error.\<close>

fun seq_all :: "('a \<Rightarrow> 'e + 'b list) \<Rightarrow> 'a list \<Rightarrow> 'e + 'b list" where
  "seq_all f [] = Inr []"
| "seq_all f (x # xs) =
     (case f x of
        Inl err \<Rightarrow> Inl err
      | Inr ys \<Rightarrow> (case seq_all f xs of Inl err \<Rightarrow> Inl err | Inr zs \<Rightarrow> Inr (ys @ zs)))"

lemma seq_all_cong [fundef_cong]:
  "xs = ys \<Longrightarrow> (\<And>x. x \<in> set ys \<Longrightarrow> f x = g x) \<Longrightarrow> seq_all f xs = seq_all g ys"
  by (induction ys arbitrary: xs) (auto split: sum.split)

record codec =
  cd_event :: "event \<Rightarrow> string option"
  cd_node :: "node \<Rightarrow> string option"
  cd_edge :: "edge \<Rightarrow> string option"

definition size_of :: "string option \<Rightarrow> int" where
  "size_of b = (case b of Some s \<Rightarrow> int (length s) | None \<Rightarrow> 0)"

definition only_nodes :: "event \<Rightarrow> node list \<Rightarrow> event" where
  "only_nodes ev ns = ev\<lparr>ev_nodes := ns, ev_edges := []\<rparr>"

definition only_edges :: "event \<Rightarrow> edge list \<Rightarrow> event" where
  "only_edges ev es = ev\<lparr>ev_nodes := [], ev_edges := es\<rparr>"

lemma only_sizes [simp]:
  "length (ev_nodes (only_nodes ev ns)) = length ns" "length (ev_edges (only_nodes ev ns)) = 0"
  "length (ev_nodes (only_edges ev es)) = 0" "length (ev_edges (only_edges ev es)) = length es"
  by (simp_all add: only_nodes_def only_edges_def)

text \<open>
  \<open>splitEvent\<close>. A chunk is given as the event whose encoding is the body. The estimate by
  element sizes may undershoot; a chunk that does not fit is halved and each half split again.
\<close>

function (sequential)
  split_event :: "codec \<Rightarrow> int \<Rightarrow> event \<Rightarrow> split_error + event list" and
  emit_nodes :: "codec \<Rightarrow> int \<Rightarrow> event \<Rightarrow> node list \<Rightarrow> split_error + event list" and
  emit_edges :: "codec \<Rightarrow> int \<Rightarrow> event \<Rightarrow> edge list \<Rightarrow> split_error + event list"
where
  "split_event cd limit ev =
     (case cd_event cd ev of
        None \<Rightarrow> Inl Marshal_Failed
      | Some whole \<Rightarrow>
          if int (length whole) \<le> limit then Inr [ev]
          else (let budget = limit - size_of (cd_event cd (ev\<lparr>ev_nodes := [], ev_edges := []\<rparr>))
                in case seq_all (\<lambda>ns. if length ns \<le> length (ev_nodes ev) then emit_nodes cd limit ev ns else Inr [])
                          (cut_chunks (\<lambda>n. size_of (cd_node cd n)) budget [] 0 (ev_nodes ev)) of
                     Inl err \<Rightarrow> Inl err
                   | Inr xs \<Rightarrow>
                       (case seq_all (\<lambda>es. if length es \<le> length (ev_edges ev) then emit_edges cd limit ev es else Inr [])
                               (cut_chunks (\<lambda>e. size_of (cd_edge cd e)) budget [] 0 (ev_edges ev)) of
                          Inl err \<Rightarrow> Inl err
                        | Inr ys \<Rightarrow> Inr (xs @ ys))))"
| "emit_nodes cd limit ev ns =
     (case cd_event cd (only_nodes ev ns) of
        None \<Rightarrow> Inl Marshal_Failed
      | Some body \<Rightarrow>
          if int (length body) \<le> limit then Inr [only_nodes ev ns]
          else if length ns \<le> 1 then Inl Too_Large
          else (case split_event cd limit (only_nodes ev (take (length ns div 2) ns)) of
                  Inl err \<Rightarrow> Inl err
                | Inr xs \<Rightarrow>
                    (case split_event cd limit (only_nodes ev (drop (length ns div 2) ns)) of
                       Inl err \<Rightarrow> Inl err
                     | Inr ys \<Rightarrow> Inr (xs @ ys))))"
| "emit_edges cd limit ev es =
     (case cd_event cd (only_edges ev es) of
        None \<Rightarrow> Inl Marshal_Failed
      | Some body \<Rightarrow>
          if int (length body) \<le> limit then Inr [only_edges ev es]
          else if length es \<le> 1 then Inl Too_Large
          else (case split_event cd limit (only_edges ev (take (length es div 2) es)) of
                  Inl err \<Rightarrow> Inl err
                | Inr xs \<Rightarrow>
                    (case split_event cd limit (only_edges ev (drop (length es div 2) es)) of
                       Inl err \<Rightarrow> Inl err
                     | Inr ys \<Rightarrow> Inr (xs @ ys))))"
  by pat_completeness auto
termination
  by (relation "measure (\<lambda>x. case x of
        Inl (cd, limit, ev) \<Rightarrow> 2 * (length (ev_nodes ev) + length (ev_edges ev)) + 1
      | Inr (Inl (cd, limit, ev, ns)) \<Rightarrow> 2 * length ns
      | Inr (Inr (cd, limit, ev, es)) \<Rightarrow> 2 * length es)") (auto, presburger+)

declare split_event.simps [simp del] emit_nodes.simps [simp del] emit_edges.simps [simp del]

text \<open>The guard that the recursion is over a part is always met.\<close>

lemma seq_all_guard:
  "seq_all (\<lambda>x. if length x \<le> length xs then f x else Inr []) (cut_chunks w budget [] 0 xs) = seq_all f (cut_chunks w budget [] 0 xs)"
  using cut_length [of _ w budget "[]" 0 xs] by (intro seq_all_cong) auto

lemma split_event_eq:
  "split_event cd limit ev =
     (case cd_event cd ev of
        None \<Rightarrow> Inl Marshal_Failed
      | Some whole \<Rightarrow>
          if int (length whole) \<le> limit then Inr [ev]
          else (let budget = limit - size_of (cd_event cd (ev\<lparr>ev_nodes := [], ev_edges := []\<rparr>))
                in case seq_all (emit_nodes cd limit ev) (cut_chunks (\<lambda>n. size_of (cd_node cd n)) budget [] 0 (ev_nodes ev)) of
                     Inl err \<Rightarrow> Inl err
                   | Inr xs \<Rightarrow>
                       (case seq_all (emit_edges cd limit ev) (cut_chunks (\<lambda>e. size_of (cd_edge cd e)) budget [] 0 (ev_edges ev)) of
                          Inl err \<Rightarrow> Inl err
                        | Inr ys \<Rightarrow> Inr (xs @ ys))))"
  unfolding split_event.simps [of cd limit ev] seq_all_guard ..

section \<open>The bucket\<close>

text \<open>A value of the bucket: a text, or the JSON of a snapshot record.\<close>

record snapshot_record =
  sr_tenant :: string
  sr_source :: string
  sr_scope :: string
  sr_taken :: gotime

datatype kv_value = KV_Text string | KV_Snapshot snapshot_record

type_synonym bucket = "(string, kv_value \<times> gotime) gomap"

text \<open>\<open>ListKeysFiltered(p + ".*")\<close>: the star stands for one token.\<close>

definition under :: "string \<Rightarrow> string \<Rightarrow> bool" where
  "under p key \<longleftrightarrow> (case cut_prefix key (p @ ''.'') of Some rest \<Rightarrow> rest \<noteq> [] \<and> CHR ''.'' \<notin> set rest | None \<Rightarrow> False)"

definition keys_under :: "string \<Rightarrow> bucket \<Rightarrow> string list" where
  "keys_under p kv = filter (under p) (gm_keys kv)"

definition kv_put :: "bool \<Rightarrow> gotime \<Rightarrow> string \<Rightarrow> kv_value \<Rightarrow> bucket \<Rightarrow> bucket" where
  "kv_put ok now key v kv = (if ok then AList.update key (v, now) kv else kv)"

definition batch_id_ok :: "string \<Rightarrow> bool" where
  "batch_id_ok i \<longleftrightarrow> length i = 32 \<and> list_all (\<lambda>c. list_ex (\<lambda>d. c = d) ''0123456789abcdef'') i"

definition total_key :: "string \<Rightarrow> string" where "total_key i = i @ ''.total''"
definition applied_key :: "string \<Rightarrow> string \<Rightarrow> string" where "applied_key i seq = i @ ''.'' @ seq"
definition swept_key :: "string \<Rightarrow> string" where "swept_key i = ''swept.'' @ i"

definition snapshot_key :: "string \<Rightarrow> event \<Rightarrow> snapshot_decl \<Rightarrow> string" where
  "snapshot_key i ev sn =
     ''snap.'' @ i @ ''.'' @ hex_encode (take 8 (sha256 (ev_tenant ev @ [CHR 0x00] @ ev_source ev @ [CHR 0x00] @ sd_scope sn)))"

section \<open>Publishing\<close>

record message =
  m_subject :: string
  m_event :: event
  m_batch :: string
  m_seq :: string
  m_total :: string
  m_snapshot :: bool

text \<open>For an ASCII source; the code writes one dash for a character of several bytes.\<close>

definition sanitize_token :: "string \<Rightarrow> string" where
  "sanitize_token s =
     (let s = trim_space s
      in if s = [] then ''unknown''
         else map (\<lambda>c. let n = of_char c :: nat
                       in if 97 \<le> n \<and> n \<le> 122 \<or> 65 \<le> n \<and> n \<le> 90 \<or> 48 \<le> n \<and> n \<le> 57 \<or> c = CHR ''-'' \<or> c = CHR ''_'' then c else CHR ''-'') s)"

definition trim_suffix :: "string \<Rightarrow> string \<Rightarrow> string" where
  "trim_suffix s x = (if suffix x s then take (length s - length x) s else s)"

definition normalize_subject :: "string \<Rightarrow> string \<times> string" where
  "normalize_subject configured =
     (let base = trim_suffix (trim_suffix (trim_suffix (trim_space configured) ''.>'') ''.*'') ''.'';
          base = (if base = [] then ''perspective.events'' else base)
      in (base @ ''.>'', base))"

definition subject_for :: "string \<Rightarrow> string \<Rightarrow> string" where
  "subject_for base source = base @ ''.'' @ sanitize_token source"

text \<open>The chunks of all events, each with the subject of its event.\<close>

definition batch_bodies :: "codec \<Rightarrow> int \<Rightarrow> string \<Rightarrow> event list \<Rightarrow> split_error + (string \<times> event) list" where
  "batch_bodies cd limit base evs =
     seq_all (\<lambda>ev. case split_event cd limit ev of
                     Inl err \<Rightarrow> Inl err
                   | Inr cs \<Rightarrow> Inr (map (\<lambda>c. (subject_for base (ev_source ev), c)) cs)) evs"

datatype publish_error = Split_Failed split_error | Random_Failed | Publish_Failed

text \<open>
  \<open>PublishBatch\<close>. The bucket may be missing; \<open>rand\<close> is the hexadecimal of sixteen random bytes;
  \<open>accept i\<close> tells whether the bus takes the \<open>i\<close>-th message. The outcome, the bucket, and the
  messages on the bus.
\<close>

definition header_of :: "string \<Rightarrow> nat \<Rightarrow> bool \<Rightarrow> nat \<Rightarrow> string \<times> event \<Rightarrow> message" where
  "header_of i msgs snap k = (\<lambda>(subject, ev).
     (if i \<noteq> []
      then \<lparr>m_subject = subject, m_event = ev, m_batch = i, m_seq = int_dec (int k), m_total = int_dec (int msgs), m_snapshot = snap\<rparr>
      else \<lparr>m_subject = subject, m_event = ev, m_batch = [], m_seq = [], m_total = [], m_snapshot = False\<rparr>))"

definition batch_messages :: "string \<Rightarrow> bool \<Rightarrow> (string \<times> event) list \<Rightarrow> message list" where
  "batch_messages i snap bodies = map (\<lambda>k. header_of i (length bodies) snap k (bodies ! k)) [0..<length bodies]"

definition publish_batch ::
  "codec \<Rightarrow> int \<Rightarrow> string \<Rightarrow> bucket option \<Rightarrow> string option \<Rightarrow> bool \<Rightarrow> (message \<Rightarrow> bool) \<Rightarrow> gotime \<Rightarrow> event list \<Rightarrow>
     (publish_error + string \<times> nat) \<times> bucket option \<times> message list" where
  "publish_batch cd limit base kv rand put_ok accept now evs =
     (case batch_bodies cd limit base evs of
        Inl err \<Rightarrow> (Inl (Split_Failed err), kv, [])
      | Inr bodies \<Rightarrow>
          if bodies = [] then (Inr ([], 0), kv, [])
          else (let tracked =
                  (case kv of
                     None \<Rightarrow> Inr ([], None)
                   | Some m \<Rightarrow>
                       (case rand of
                          None \<Rightarrow> Inl Random_Failed
                        | Some candidate \<Rightarrow>
                            Inr (if put_ok then candidate else [],
                                 Some (kv_put put_ok now (total_key candidate)
                                   (KV_Text (int_dec (int (length bodies)) @ ''|'' @ ev_tenant (hd evs))) m))))
                in case tracked of
                     Inl err \<Rightarrow> (Inl err, kv, [])
                   | Inr (i, kv) \<Rightarrow>
                       (let ms = batch_messages i (list_ex (\<lambda>ev. ev_snapshot ev \<noteq> None) evs) bodies;
                            sent = takeWhile accept ms
                        in if length sent < length ms then (Inl Publish_Failed, kv, sent)
                           else (Inr (i, length bodies), kv, ms))))"

section \<open>Applied messages\<close>

definition mark_applied :: "bool \<Rightarrow> gotime \<Rightarrow> message \<Rightarrow> bucket \<Rightarrow> bucket" where
  "mark_applied ok now m kv =
     (if \<not> batch_id_ok (m_batch m) then kv
      else if atoi (m_seq m) = None then kv
      else kv_put ok now (applied_key (m_batch m) (m_seq m)) (KV_Text []) kv)"

record batch_status =
  bs_tenant :: string
  bs_messages :: int
  bs_applied :: nat
  bs_applied_at :: gotime

definition bs_complete :: "batch_status \<Rightarrow> bool" where
  "bs_complete st \<longleftrightarrow> bs_messages st > 0 \<and> int (bs_applied st) \<ge> bs_messages st"

definition is_total :: "string \<Rightarrow> bool" where
  "is_total key \<longleftrightarrow> suffix ''.total'' key"

definition applied_keys :: "string \<Rightarrow> bucket \<Rightarrow> string list" where
  "applied_keys i kv = filter (\<lambda>key. \<not> is_total key) (keys_under i kv)"

definition total_of :: "string \<Rightarrow> string \<times> string" where
  "total_of txt = (case str_cut txt ''|'' of Some (n, tenant) \<Rightarrow> (n, tenant) | None \<Rightarrow> (txt, []))"

definition text_of :: "kv_value \<Rightarrow> string" where
  "text_of v = (case v of KV_Text s \<Rightarrow> s | KV_Snapshot _ \<Rightarrow> [])"

definition zero_status :: batch_status where
  "zero_status = \<lparr>bs_tenant = [], bs_messages = 0, bs_applied = 0, bs_applied_at = zero_time\<rparr>"

text \<open>\<open>BatchStatus\<close>, when every read of the bucket succeeds.\<close>

definition batch_status_of :: "bucket \<Rightarrow> string \<Rightarrow> batch_status" where
  "batch_status_of kv i =
     (if \<not> batch_id_ok i then zero_status
      else (case map_of kv (total_key i) of
              None \<Rightarrow> zero_status
            | Some (v, _) \<Rightarrow>
                (let (n, tenant) = total_of (text_of v);
                     ks = applied_keys i kv;
                     st = \<lparr>bs_tenant = tenant, bs_messages = (case atoi n of Some k \<Rightarrow> k | None \<Rightarrow> 0), bs_applied = length ks, bs_applied_at = zero_time\<rparr>;
                     newest_at = fold (\<lambda>key acc. case map_of kv key of Some (_, t) \<Rightarrow> max t acc | None \<Rightarrow> acc) ks zero_time
                 in if bs_complete st then st\<lparr>bs_applied_at := newest_at\<rparr> else st)))"

definition batch_complete :: "bucket \<Rightarrow> string \<Rightarrow> bool" where
  "batch_complete kv i =
     (case map_of kv (total_key i) of
        None \<Rightarrow> False
      | Some (v, _) \<Rightarrow>
          (case atoi (fst (total_of (text_of v))) of
             None \<Rightarrow> False
           | Some want \<Rightarrow> want > 0 \<and> int (length (applied_keys i kv)) \<ge> want))"

section \<open>Snapshots\<close>

definition record_snapshot :: "bool \<Rightarrow> gotime \<Rightarrow> message \<Rightarrow> bucket \<Rightarrow> bucket" where
  "record_snapshot ok now m kv =
     (case complete_snapshot (m_event m) of
        None \<Rightarrow> kv
      | Some sn \<Rightarrow>
          if \<not> batch_id_ok (m_batch m) then kv
          else kv_put ok now (snapshot_key (m_batch m) (m_event m) sn)
                 (KV_Snapshot \<lparr>sr_tenant = ev_tenant (m_event m), sr_source = ev_source (m_event m), sr_scope = sd_scope sn, sr_taken = sd_taken sn\<rparr>) kv)"

text \<open>\<open>maybeSweep\<close> in its two accesses that decide: the check, then the key only one replica creates.\<close>

definition sweep_due :: "message \<Rightarrow> bucket \<Rightarrow> bool" where
  "sweep_due m kv \<longleftrightarrow> m_snapshot m \<and> batch_id_ok (m_batch m) \<and> batch_complete kv (m_batch m)"

definition claim_sweep :: "gotime \<Rightarrow> string \<Rightarrow> bucket \<Rightarrow> bucket option" where
  "claim_sweep now i kv = (if gm_has kv (swept_key i) then None else Some (AList.update (swept_key i) (KV_Text ''1'', now) kv))"

definition sweeps_of :: "string \<Rightarrow> bucket \<Rightarrow> snapshot_record list" where
  "sweeps_of i kv =
     List.map_filter (\<lambda>key. case map_of kv key of
        Some (KV_Snapshot r, _) \<Rightarrow> if sr_scope r = [] then None else Some r
      | _ \<Rightarrow> None) (keys_under (''snap.'' @ i) kv)"

section \<open>Deliveries\<close>

definition max_deliver :: int where "max_deliver = 8"

definition redelivery_backoff :: "int list" where
  "redelivery_backoff = [second_ns, 5 * second_ns, 15 * second_ns, 30 * second_ns, 60 * second_ns]"

definition backoff_for :: "int \<Rightarrow> int" where
  "backoff_for attempt =
     (let i = attempt - 1;
          i = (if i < 0 then 0 else i);
          i = (if i \<ge> int (length redelivery_backoff) then int (length redelivery_backoff) - 1 else i)
      in redelivery_backoff ! nat i)"

definition retry_or_dead_letter :: "int \<Rightarrow> int \<times> bool" where
  "retry_or_dead_letter attempt = (if attempt \<ge> max_deliver then (0, True) else (backoff_for attempt, False))"

datatype disposition = Acked | Retried int | Dead_Lettered

definition dispose :: "bool \<Rightarrow> bool \<Rightarrow> int \<Rightarrow> disposition" where
  "dispose decoded handled attempt =
     (if \<not> decoded then Dead_Lettered
      else if handled then Acked
      else (case retry_or_dead_letter attempt of (delay, give_up) \<Rightarrow> if give_up then Dead_Lettered else Retried delay))"

end
