(* ===== verification/Broker_Laws.thy ===== *)
theory Broker_Laws
  imports Broker Normalizer_Laws
begin

text \<open>
  What the bus promises: the chunks of an event are the event, and leave the graph it would
  have left, in whatever order and however often they arrive, when the normalizer makes the same
  elements of them. Where a promise ends: the normalizer works on one chunk at a time, so what
  joins two chunks is lost.
\<close>

section \<open>The chunks of an event\<close>

definition fits :: "codec \<Rightarrow> int \<Rightarrow> event \<Rightarrow> bool" where
  "fits cd limit ev \<longleftrightarrow> (case cd_event cd ev of Some body \<Rightarrow> int (length body) \<le> limit | None \<Rightarrow> False)"

definition part_of :: "event \<Rightarrow> event \<Rightarrow> bool" where
  "part_of ev c \<longleftrightarrow> c = ev\<lparr>ev_nodes := ev_nodes c, ev_edges := ev_edges c\<rparr>"

definition chunked :: "codec \<Rightarrow> int \<Rightarrow> event \<Rightarrow> event list \<Rightarrow> bool" where
  "chunked cd limit ev cs \<longleftrightarrow> (\<forall>c \<in> set cs. part_of ev c \<and> fits cd limit c) \<and>
     concat (map ev_nodes cs) = ev_nodes ev \<and> concat (map ev_edges cs) = ev_edges ev"

lemma chunked_append:
  "chunked cd limit (only_nodes ev ns) xs \<Longrightarrow> chunked cd limit (only_nodes ev ms) ys \<Longrightarrow> chunked cd limit (only_nodes ev (ns @ ms)) (xs @ ys)"
  "chunked cd limit (only_edges ev es) xs \<Longrightarrow> chunked cd limit (only_edges ev fs) ys \<Longrightarrow> chunked cd limit (only_edges ev (es @ fs)) (xs @ ys)"
  by (auto simp: chunked_def part_of_def only_nodes_def only_edges_def)

lemma chunked_join:
  "chunked cd limit (only_nodes ev (ev_nodes ev)) xs \<Longrightarrow> chunked cd limit (only_edges ev (ev_edges ev)) ys \<Longrightarrow> chunked cd limit ev (xs @ ys)"
  by (auto simp: chunked_def part_of_def only_nodes_def only_edges_def)

lemma chunked_whole: "fits cd limit ev \<Longrightarrow> chunked cd limit ev [ev]"
  by (simp add: chunked_def part_of_def)

lemma only_only [simp]:
  "only_nodes (only_nodes ev ns) ms = only_nodes ev ms" "only_edges (only_nodes ev ns) es = only_edges ev es"
  "only_nodes (only_edges ev es) ns = only_nodes ev ns" "only_edges (only_edges ev es) fs = only_edges ev fs"
  by (simp_all add: only_nodes_def only_edges_def)

lemma only_parts [simp]:
  "ev_nodes (only_nodes ev ns) = ns" "ev_edges (only_nodes ev ns) = []" "ev_nodes (only_edges ev es) = []" "ev_edges (only_edges ev es) = es"
  by (simp_all add: only_nodes_def only_edges_def)

text \<open>Every part has an encoding, and a part that is a single element and does not fit.\<close>

definition encodable :: "codec \<Rightarrow> event \<Rightarrow> bool" where
  "encodable cd ev \<longleftrightarrow> (\<forall>ns es. cd_event cd (ev\<lparr>ev_nodes := ns, ev_edges := es\<rparr>) \<noteq> None)"

definition oversized :: "codec \<Rightarrow> int \<Rightarrow> event \<Rightarrow> bool" where
  "oversized cd limit ev \<longleftrightarrow> (\<exists>n \<in> set (ev_nodes ev). \<not> fits cd limit (only_nodes ev [n])) \<or> (\<exists>e \<in> set (ev_edges ev). \<not> fits cd limit (only_edges ev [e]))"

lemma encodable_parts:
  "encodable cd ev \<Longrightarrow> encodable cd (only_nodes ev ns) \<and> encodable cd (only_edges ev es) \<and> cd_event cd ev \<noteq> None \<and>
     cd_event cd (only_nodes ev ns) \<noteq> None \<and> cd_event cd (only_edges ev es) \<noteq> None"
proof -
  assume e: "encodable cd ev"
  then have "cd_event cd (ev\<lparr>ev_nodes := ev_nodes ev, ev_edges := ev_edges ev\<rparr>) \<noteq> None" unfolding encodable_def by blast
  then show ?thesis using e by (auto simp: encodable_def only_nodes_def only_edges_def)
qed

definition split_ok :: "codec \<Rightarrow> int \<Rightarrow> event \<Rightarrow> split_error + event list \<Rightarrow> bool" where
  "split_ok cd limit ev r \<longleftrightarrow> (case r of Inr cs \<Rightarrow> chunked cd limit ev cs | Inl err \<Rightarrow> err = Too_Large \<and> oversized cd limit ev)"

lemma seq_all_nodes:
  "(\<And>ns. ns \<in> set nss \<Longrightarrow> split_ok cd limit (only_nodes ev ns) (f ns)) \<Longrightarrow>
     split_ok cd limit (only_nodes ev (concat nss)) (seq_all f nss)"
proof (induction nss)
  case Nil
  then show ?case by (simp add: split_ok_def chunked_def)
next
  case (Cons ns nss)
  have a: "split_ok cd limit (only_nodes ev ns) (f ns)" and b: "split_ok cd limit (only_nodes ev (concat nss)) (seq_all f nss)"
    using Cons by simp_all
  then show ?case using chunked_append(1) by (auto simp: split_ok_def oversized_def split: sum.splits)
qed

lemma seq_all_edges:
  "(\<And>es. es \<in> set ess \<Longrightarrow> split_ok cd limit (only_edges ev es) (f es)) \<Longrightarrow>
     split_ok cd limit (only_edges ev (concat ess)) (seq_all f ess)"
proof (induction ess)
  case Nil
  then show ?case by (simp add: split_ok_def chunked_def)
next
  case (Cons es ess)
  have a: "split_ok cd limit (only_edges ev es) (f es)" and b: "split_ok cd limit (only_edges ev (concat ess)) (seq_all f ess)"
    using Cons by simp_all
  then show ?case using chunked_append(2) by (auto simp: split_ok_def oversized_def split: sum.splits)
qed

lemma halves_nodes:
  assumes "split_ok cd limit (only_nodes ev (take k ns)) a" "split_ok cd limit (only_nodes ev (drop k ns)) b"
  shows "split_ok cd limit (only_nodes ev ns) (case a of Inl err \<Rightarrow> Inl err | Inr xs \<Rightarrow> (case b of Inl err \<Rightarrow> Inl err | Inr ys \<Rightarrow> Inr (xs @ ys)))"
  using assms chunked_append(1) [of cd limit ev "take k ns" _ "drop k ns"]
  by (auto simp: split_ok_def oversized_def split: sum.splits dest: in_set_takeD in_set_dropD)

lemma halves_edges:
  assumes "split_ok cd limit (only_edges ev (take k es)) a" "split_ok cd limit (only_edges ev (drop k es)) b"
  shows "split_ok cd limit (only_edges ev es) (case a of Inl err \<Rightarrow> Inl err | Inr xs \<Rightarrow> (case b of Inl err \<Rightarrow> Inl err | Inr ys \<Rightarrow> Inr (xs @ ys)))"
  using assms chunked_append(2) [of cd limit ev "take k es" _ "drop k es"]
  by (auto simp: split_ok_def oversized_def split: sum.splits dest: in_set_takeD in_set_dropD)

lemma emit_nodes_ok:
  assumes e: "encodable cd ev" and ns: "ns \<noteq> []" and long: "int (length (the (cd_event cd (only_nodes ev ns)))) > limit \<Longrightarrow> 1 < length ns \<Longrightarrow>
      split_ok cd limit (only_nodes ev ns)
        (case split_event cd limit (only_nodes ev (take (length ns div 2) ns)) of
           Inl err \<Rightarrow> Inl err
         | Inr xs \<Rightarrow> (case split_event cd limit (only_nodes ev (drop (length ns div 2) ns)) of Inl err \<Rightarrow> Inl err | Inr ys \<Rightarrow> Inr (xs @ ys)))"
  shows "split_ok cd limit (only_nodes ev ns) (emit_nodes cd limit ev ns)"
proof -
  obtain body where body: "cd_event cd (only_nodes ev ns) = Some body" using encodable_parts [OF e] by blast
  consider "int (length body) \<le> limit" | n where "\<not> int (length body) \<le> limit" "ns = [n]" | "\<not> int (length body) \<le> limit" "1 < length ns"
    using ns by (cases ns rule: list.exhaust; fastforce)
  then show ?thesis
  proof cases
    case 1
    then show ?thesis using body chunked_whole [of cd limit "only_nodes ev ns"] by (simp add: emit_nodes.simps split_ok_def fits_def)
  next
    case 2
    then show ?thesis using body by (simp add: emit_nodes.simps split_ok_def oversized_def fits_def)
  next
    case 3
    then show ?thesis using body long by (simp add: emit_nodes.simps)
  qed
qed

lemma emit_edges_ok:
  assumes e: "encodable cd ev" and es: "es \<noteq> []" and long: "int (length (the (cd_event cd (only_edges ev es)))) > limit \<Longrightarrow> 1 < length es \<Longrightarrow>
      split_ok cd limit (only_edges ev es)
        (case split_event cd limit (only_edges ev (take (length es div 2) es)) of
           Inl err \<Rightarrow> Inl err
         | Inr xs \<Rightarrow> (case split_event cd limit (only_edges ev (drop (length es div 2) es)) of Inl err \<Rightarrow> Inl err | Inr ys \<Rightarrow> Inr (xs @ ys)))"
  shows "split_ok cd limit (only_edges ev es) (emit_edges cd limit ev es)"
proof -
  obtain body where body: "cd_event cd (only_edges ev es) = Some body" using encodable_parts [OF e] by blast
  consider "int (length body) \<le> limit" | x where "\<not> int (length body) \<le> limit" "es = [x]" | "\<not> int (length body) \<le> limit" "1 < length es"
    using es by (cases es rule: list.exhaust; fastforce)
  then show ?thesis
  proof cases
    case 1
    then show ?thesis using body chunked_whole [of cd limit "only_edges ev es"] by (simp add: emit_edges.simps split_ok_def fits_def)
  next
    case 2
    then show ?thesis using body by (simp add: emit_edges.simps split_ok_def oversized_def fits_def)
  next
    case 3
    then show ?thesis using body long by (simp add: emit_edges.simps)
  qed
qed

lemma split_event_ok:
  fixes cd limit ev
  defines "budget \<equiv> limit - size_of (cd_event cd (ev\<lparr>ev_nodes := [], ev_edges := []\<rparr>))"
  assumes e: "encodable cd ev"
    and ns: "\<And>ns. \<not> fits cd limit ev \<Longrightarrow> ns \<in> set (cut_chunks (\<lambda>n. size_of (cd_node cd n)) budget [] 0 (ev_nodes ev)) \<Longrightarrow>
        ns \<noteq> [] \<Longrightarrow> length ns \<le> length (ev_nodes ev) \<Longrightarrow> split_ok cd limit (only_nodes ev ns) (emit_nodes cd limit ev ns)"
    and es: "\<And>es xs. \<not> fits cd limit ev \<Longrightarrow>
        seq_all (emit_nodes cd limit ev) (cut_chunks (\<lambda>n. size_of (cd_node cd n)) budget [] 0 (ev_nodes ev)) = Inr xs \<Longrightarrow>
        es \<in> set (cut_chunks (\<lambda>e. size_of (cd_edge cd e)) budget [] 0 (ev_edges ev)) \<Longrightarrow>
        es \<noteq> [] \<Longrightarrow> length es \<le> length (ev_edges ev) \<Longrightarrow> split_ok cd limit (only_edges ev es) (emit_edges cd limit ev es)"
  shows "split_ok cd limit ev (split_event cd limit ev)"
proof -
  let ?nss = "cut_chunks (\<lambda>n. size_of (cd_node cd n)) budget [] 0 (ev_nodes ev)"
  let ?ess = "cut_chunks (\<lambda>e. size_of (cd_edge cd e)) budget [] 0 (ev_edges ev)"
  obtain whole where whole: "cd_event cd ev = Some whole" using encodable_parts [OF e] by blast
  show ?thesis
  proof (cases "fits cd limit ev")
    case True
    then show ?thesis using whole chunked_whole [of cd limit ev] by (simp add: split_event_eq split_ok_def fits_def)
  next
    case False
    have len: "ns \<noteq> [] \<and> length ns \<le> length (ev_nodes ev)" if "ns \<in> set ?nss" for ns using cut_length [OF that] cut_nonempty [OF that] by simp
    have len': "es \<noteq> [] \<and> length es \<le> length (ev_edges ev)" if "es \<in> set ?ess" for es using cut_length [OF that] cut_nonempty [OF that] by simp
    have n: "split_ok cd limit (only_nodes ev (concat ?nss)) (seq_all (emit_nodes cd limit ev) ?nss)"
      using seq_all_nodes ns [OF False] len by blast
    have d: "split_event cd limit ev = (case seq_all (emit_nodes cd limit ev) ?nss of Inl err \<Rightarrow> Inl err
        | Inr xs \<Rightarrow> (case seq_all (emit_edges cd limit ev) ?ess of Inl err \<Rightarrow> Inl err | Inr ys \<Rightarrow> Inr (xs @ ys)))"
      using whole False unfolding budget_def by (simp add: split_event_eq fits_def Let_def)
    show ?thesis
    proof (cases "seq_all (emit_nodes cd limit ev) ?nss")
      case (Inl err)
      then show ?thesis using n by (simp add: d split_ok_def cut_concat oversized_def)
    next
      case (Inr xs)
      have "split_ok cd limit (only_edges ev (concat ?ess)) (seq_all (emit_edges cd limit ev) ?ess)"
        using seq_all_edges es [OF False Inr] len' by blast
      then show ?thesis using n Inr chunked_join [of cd limit ev xs]
        by (auto simp: d split_ok_def cut_concat oversized_def split: sum.splits)
    qed
  qed
qed

lemma split_spec:
  "encodable cd ev \<Longrightarrow> split_ok cd limit ev (split_event cd limit ev)"
  "encodable cd ev \<Longrightarrow> ns \<noteq> [] \<Longrightarrow> split_ok cd limit (only_nodes ev ns) (emit_nodes cd limit ev ns)"
  "encodable cd ev \<Longrightarrow> es \<noteq> [] \<Longrightarrow> split_ok cd limit (only_edges ev es) (emit_edges cd limit ev es)"
proof (induction cd limit ev and cd limit ev ns and cd limit ev es rule: split_event_emit_nodes_emit_edges.induct)
  case (1 cd limit ev)
  obtain whole where whole: "cd_event cd ev = Some whole" using encodable_parts [OF "1.prems"] by blast
  have long: "\<not> int (length whole) \<le> limit" if "\<not> fits cd limit ev" using that whole by (simp add: fits_def)
  show ?case
  proof (rule split_event_ok [OF "1.prems"])
    fix ns
    assume "\<not> fits cd limit ev" and ns: "ns \<in> set (cut_chunks (\<lambda>n. size_of (cd_node cd n))
        (limit - size_of (cd_event cd (ev\<lparr>ev_nodes := [], ev_edges := []\<rparr>))) [] 0 (ev_nodes ev))" "ns \<noteq> []" "length ns \<le> length (ev_nodes ev)"
    then show "split_ok cd limit (only_nodes ev ns) (emit_nodes cd limit ev ns)"
      using "1.IH"(1) [OF whole long refl ns(1,3) "1.prems" ns(2)] by blast
  next
    fix es xs
    assume f: "\<not> fits cd limit ev" and xs: "seq_all (emit_nodes cd limit ev) (cut_chunks (\<lambda>n. size_of (cd_node cd n))
        (limit - size_of (cd_event cd (ev\<lparr>ev_nodes := [], ev_edges := []\<rparr>))) [] 0 (ev_nodes ev)) = Inr xs"
      and es: "es \<in> set (cut_chunks (\<lambda>e. size_of (cd_edge cd e))
        (limit - size_of (cd_event cd (ev\<lparr>ev_nodes := [], ev_edges := []\<rparr>))) [] 0 (ev_edges ev))" "es \<noteq> []" "length es \<le> length (ev_edges ev)"
    show "split_ok cd limit (only_edges ev es) (emit_edges cd limit ev es)"
      by (rule "1.IH"(2) [OF whole long [OF f] refl _ es(1,3) "1.prems" es(2)]) (use xs in \<open>simp add: seq_all_guard\<close>)
  qed
next
  case (2 cd limit ev ns)
  obtain body where body: "cd_event cd (only_nodes ev ns) = Some body" using encodable_parts [OF "2.prems"(1)] by blast
  have e: "encodable cd (only_nodes ev ms)" for ms using encodable_parts [OF "2.prems"(1)] by blast
  show ?case
  proof (rule emit_nodes_ok [OF "2.prems"])
    assume "limit < int (length (the (cd_event cd (only_nodes ev ns))))" "1 < length ns"
    then have long: "\<not> int (length body) \<le> limit" "\<not> length ns \<le> 1" using body by simp_all
    note a = "2.IH"(1) [OF body long e]
    show "split_ok cd limit (only_nodes ev ns)
        (case split_event cd limit (only_nodes ev (take (length ns div 2) ns)) of
           Inl err \<Rightarrow> Inl err
         | Inr xs \<Rightarrow> (case split_event cd limit (only_nodes ev (drop (length ns div 2) ns)) of Inl err \<Rightarrow> Inl err | Inr ys \<Rightarrow> Inr (xs @ ys)))"
      using a halves_nodes [OF a] "2.IH"(2) [OF body long _ e]
      by (cases "split_event cd limit (only_nodes ev (take (length ns div 2) ns))")
        (auto simp: split_ok_def oversized_def dest: in_set_takeD)
  qed
next
  case (3 cd limit ev es)
  obtain body where body: "cd_event cd (only_edges ev es) = Some body" using encodable_parts [OF "3.prems"(1)] by blast
  have e: "encodable cd (only_edges ev ms)" for ms using encodable_parts [OF "3.prems"(1)] by blast
  show ?case
  proof (rule emit_edges_ok [OF "3.prems"])
    assume "limit < int (length (the (cd_event cd (only_edges ev es))))" "1 < length es"
    then have long: "\<not> int (length body) \<le> limit" "\<not> length es \<le> 1" using body by simp_all
    note a = "3.IH"(1) [OF body long e]
    show "split_ok cd limit (only_edges ev es)
        (case split_event cd limit (only_edges ev (take (length es div 2) es)) of
           Inl err \<Rightarrow> Inl err
         | Inr xs \<Rightarrow> (case split_event cd limit (only_edges ev (drop (length es div 2) es)) of Inl err \<Rightarrow> Inl err | Inr ys \<Rightarrow> Inr (xs @ ys)))"
      using a halves_edges [OF a] "3.IH"(2) [OF body long _ e]
      by (cases "split_event cd limit (only_edges ev (take (length es div 2) es))")
        (auto simp: split_ok_def oversized_def dest: in_set_takeD)
  qed
qed

text \<open>
  C33. Splitting loses nothing. Whatever the event and the limit, either the chunks are the event -
  its nodes and its edges in their order, nothing else changed, every chunk within the limit -
  or the event is refused, and then one node or one edge of it does not fit in a message even
  alone.
\<close>

theorem split_exact:
  assumes "encodable cd ev"
  shows "case split_event cd limit ev of
      Inr cs \<Rightarrow> (\<forall>c \<in> set cs. c = ev\<lparr>ev_nodes := ev_nodes c, ev_edges := ev_edges c\<rparr> \<and> (\<exists>body. cd_event cd c = Some body \<and> int (length body) \<le> limit)) \<and>
        concat (map ev_nodes cs) = ev_nodes ev \<and> concat (map ev_edges cs) = ev_edges ev
    | Inl err \<Rightarrow> err = Too_Large \<and>
        ((\<exists>n \<in> set (ev_nodes ev). \<not> fits cd limit (only_nodes ev [n])) \<or> (\<exists>e \<in> set (ev_edges ev). \<not> fits cd limit (only_edges ev [e])))"
  using split_spec(1) [OF assms, of limit]
  by (auto simp: split_ok_def chunked_def part_of_def fits_def oversized_def split: sum.splits option.splits)

text \<open>A codec that writes one byte for every element, and four for the rest.\<close>

definition toy_codec :: codec where
  "toy_codec = \<lparr>cd_event = (\<lambda>ev. Some (replicate (4 + length (ev_nodes ev) + length (ev_edges ev)) CHR ''x'')),
     cd_node = (\<lambda>n. Some ''x''), cd_edge = (\<lambda>e. Some ''x'')\<rparr>"

definition toy_event :: event where
  "toy_event = \<lparr>ev_source = ''k8s'', ev_kind = ''relationship'', ev_observed = 5, ev_tenant = [],
     ev_nodes = [demo_host ''a'', demo_host ''b''], ev_edges = [demo_link], ev_snapshot = None\<rparr>"

lemma toy_encodable: "encodable toy_codec toy_event"
  by (simp add: encodable_def toy_codec_def)

lemma toy_split:
  "split_event toy_codec 6 toy_event = Inr [only_nodes toy_event [demo_host ''a''], only_nodes toy_event [demo_host ''b''], only_edges toy_event [demo_link]]"
  by (simp add: split_event_eq emit_nodes.simps emit_edges.simps toy_codec_def toy_event_def only_nodes_def only_edges_def size_of_def Let_def)

theorem split_exact_witness:
  "concat (map ev_nodes [only_nodes toy_event [demo_host ''a''], only_nodes toy_event [demo_host ''b''], only_edges toy_event [demo_link]]) = ev_nodes toy_event"
  using split_exact [OF toy_encodable, of 6] unfolding toy_split by simp

section \<open>The graph the chunks leave\<close>






text \<open>What a delivery of an event the vocabulary knows writes: the normalizer's elements, stamped with the event's time.\<close>

definition stamp_node :: "event \<Rightarrow> node \<Rightarrow> node" where
  "stamp_node ev n = n\<lparr>n_props := with_last_seen (n_props n) (time_unix (ev_observed ev))\<rparr>"

definition stamp_edge :: "event \<Rightarrow> edge \<Rightarrow> edge" where
  "stamp_edge ev e = e\<lparr>e_props := with_last_seen (e_props e) (time_unix (ev_observed ev))\<rparr>"

lemma stamps [simp]: "n_id (stamp_node ev n) = n_id n" "edge_key (stamp_edge ev e) = edge_key e"
  by (simp_all add: stamp_node_def stamp_edge_def edge_key_def)








section \<open>What a split loses\<close>

text \<open>
  The normalizer sees one chunk at a time. A chunk of edges carries none of the nodes whose
  ids the normalizer would rewrite, so its edges keep the ids the collector wrote, whatever
  the whole event would have become.
\<close>

lemma split_keeps_old_ids: "ev_edges (canonicalize (only_edges ev es)) = es"
  by (cases "ev_snapshot ev") (simp_all add: canonicalize_def only_edges_def id_changes_def id_changed_def Let_def)

text \<open>A chunk of edges carries no pull-request context either, so the guard against a pull request's snapshot passes it.\<close>

lemma split_drops_pr_guard:
  assumes "carries_pr_context ev" and "ev_snapshot ev = Some sn" and "valid_scope (sd_scope sn)"
  shows "complete_snapshot ev = None \<and> complete_snapshot (only_edges ev es) = Some sn"
  using assms by (simp add: complete_snapshot_def only_edges_def carries_pr_context_def)

end
