(* ===== verification/Broker_Sweep.thy ===== *)
theory Broker_Sweep
  imports Broker
begin

text \<open>
  When a complete snapshot's omissions are swept: replicas of \<open>broker.go\<close>'s consumer interleave
  their accesses to the shared bucket, and nothing is swept for a batch before every message
  of it has been handled.
\<close>

section \<open>Numbers in headers\<close>

lemma atoi_int_dec: "int n < 2 ^ 63 \<Longrightarrow> atoi (int_dec (int n)) = Some (int n)"
proof -
  assume small: "int n < 2 ^ 63"
  obtain c cs where c: "nat_dec n = c # cs" using nat_dec_nonempty by (cases "nat_dec n") auto
  then have "c \<noteq> CHR ''-''" "c \<noteq> CHR ''+''" using nat_dec_digits [of c n] no_digits by auto
  then show ?thesis using small nat_dec_val [of n] c by (simp add: atoi_def int_dec_def int64_ok_def)
qed

lemma total_text: "total_of (int_dec (int n) @ ''|'' @ tenant) = (int_dec (int n), tenant)"
proof -
  have bar: "CHR ''|'' \<notin> set (nat_dec n)" using nat_dec_digits no_digits by blast
  have "CHR ''|'' \<notin> set xs \<Longrightarrow> str_index (xs @ ''|'' @ ys) ''|'' = Some (length xs)" for xs ys
    by (induction xs) auto
  from this [OF bar] show ?thesis by (simp add: total_of_def str_cut_def int_dec_def)
qed

section \<open>Sweeping a batch\<close>

text \<open>What a replica does after the handler took a message, and may be interrupted in.\<close>

datatype phase = Recording | Marking | Checking | Claiming | Sweeping

record bus =
  bu_kv :: bucket
  bu_tasks :: "(phase \<times> nat) list"
  bu_handled :: "nat set"
  bu_swept :: "snapshot_record list"

text \<open>
  Replicas handle the messages of the batch \<open>i\<close>, in any order, any number of times, and their
  accesses to the bucket interleave; a replica may die; entries expire; other batches write
  their own keys.
\<close>

inductive bus_step :: "message list \<Rightarrow> string \<Rightarrow> bus \<Rightarrow> bus \<Rightarrow> bool" for ms i where
  bus_deliver: "k < length ms \<Longrightarrow> bus_step ms i s (s\<lparr>bu_handled := insert k (bu_handled s), bu_tasks := (Recording, k) # bu_tasks s\<rparr>)"
| bus_noting: "bu_tasks s = xs @ (Recording, k) # ys \<Longrightarrow>
    bus_step ms i s (s\<lparr>bu_kv := record_snapshot ok now (ms ! k) (bu_kv s), bu_tasks := xs @ (Marking, k) # ys\<rparr>)"
| bus_marking: "bu_tasks s = xs @ (Marking, k) # ys \<Longrightarrow>
    bus_step ms i s (s\<lparr>bu_kv := mark_applied ok now (ms ! k) (bu_kv s), bu_tasks := xs @ (Checking, k) # ys\<rparr>)"
| bus_checking: "bu_tasks s = xs @ (Checking, k) # ys \<Longrightarrow> sweep_due (ms ! k) (bu_kv s) \<Longrightarrow>
    bus_step ms i s (s\<lparr>bu_tasks := xs @ (Claiming, k) # ys\<rparr>)"
| bus_claiming: "bu_tasks s = xs @ (Claiming, k) # ys \<Longrightarrow> claim_sweep now i (bu_kv s) = Some kv' \<Longrightarrow>
    bus_step ms i s (s\<lparr>bu_kv := kv', bu_tasks := xs @ (Sweeping, k) # ys\<rparr>)"
| bus_sweeping: "bu_tasks s = xs @ (Sweeping, k) # ys \<Longrightarrow>
    bus_step ms i s (s\<lparr>bu_swept := bu_swept s @ sweeps_of i (bu_kv s), bu_tasks := xs @ ys\<rparr>)"
| bus_stopping: "bu_tasks s = xs @ t # ys \<Longrightarrow> bus_step ms i s (s\<lparr>bu_tasks := xs @ ys\<rparr>)"
| bus_expiring: "bus_step ms i s (s\<lparr>bu_kv := AList.delete key (bu_kv s)\<rparr>)"
| bus_other_batch: "\<not> under i key \<Longrightarrow> \<not> under (''snap.'' @ i) key \<Longrightarrow> key \<noteq> swept_key i \<Longrightarrow>
    bus_step ms i s (s\<lparr>bu_kv := AList.update key v (bu_kv s)\<rparr>)"

inductive_cases bus_stepE: "bus_step ms i s s'"

definition snapshot_of :: "event \<Rightarrow> snapshot_record \<Rightarrow> bool" where
  "snapshot_of ev r \<longleftrightarrow> (\<exists>sn. complete_snapshot ev = Some sn \<and>
     r = \<lparr>sr_tenant = ev_tenant ev, sr_source = ev_source ev, sr_scope = sd_scope sn, sr_taken = sd_taken sn\<rparr>)"

definition bucket_ok :: "message list \<Rightarrow> string \<Rightarrow> nat set \<Rightarrow> bucket \<Rightarrow> bool" where
  "bucket_ok ms i handled kv \<longleftrightarrow> gm_ok kv \<and>
     (\<forall>v t. map_of kv (total_key i) = Some (v, t) \<longrightarrow> atoi (fst (total_of (text_of v))) = Some (int (length ms))) \<and>
     (\<forall>key e. map_of kv key = Some e \<longrightarrow> under i key \<longrightarrow> is_total key \<or> (\<exists>k \<in> handled. key = applied_key i (int_dec (int k)))) \<and>
     (\<forall>key r t. under (''snap.'' @ i) key \<longrightarrow> map_of kv key = Some (KV_Snapshot r, t) \<longrightarrow> (\<exists>k \<in> handled. snapshot_of (m_event (ms ! k)) r))"

definition bus_ok :: "message list \<Rightarrow> string \<Rightarrow> bus \<Rightarrow> bool" where
  "bus_ok ms i s \<longleftrightarrow> bucket_ok ms i (bu_handled s) (bu_kv s) \<and> bu_handled s \<subseteq> {..<length ms} \<and>
     (\<forall>t \<in> set (bu_tasks s). snd t \<in> bu_handled s \<and> (fst t \<in> {Claiming, Sweeping} \<longrightarrow> bu_handled s = {..<length ms})) \<and>
     (\<forall>r \<in> set (bu_swept s). bu_handled s = {..<length ms} \<and> (\<exists>k < length ms. snapshot_of (m_event (ms ! k)) r))"

text \<open>A complete bucket means every message was handled.\<close>

lemma complete_all_handled:
  assumes ok: "bucket_ok ms i handled kv" and sub: "handled \<subseteq> {..<length ms}" and c: "batch_complete kv i"
  shows "handled = {..<length ms}"
proof -
  obtain v t where v: "map_of kv (total_key i) = Some (v, t)" using c by (auto simp: batch_complete_def split: option.splits)
  have n: "int (length (applied_keys i kv)) \<ge> int (length ms)"
    using c ok v unfolding batch_complete_def bucket_ok_def by (auto split: option.splits)
  have "distinct (applied_keys i kv)" using ok by (simp add: bucket_ok_def gm_ok_def applied_keys_def keys_under_def)
  moreover have "set (applied_keys i kv) \<subseteq> (\<lambda>k. applied_key i (int_dec (int k))) ` handled"
  proof
    fix key
    assume key: "key \<in> set (applied_keys i kv)"
    then obtain e where "map_of kv key = Some e"
      by (cases "map_of kv key") (auto simp: applied_keys_def keys_under_def map_of_eq_None_iff)
    moreover have "under i key" "\<not> is_total key" using key by (auto simp: applied_keys_def keys_under_def)
    ultimately show "key \<in> (\<lambda>k. applied_key i (int_dec (int k))) ` handled"
      using ok unfolding bucket_ok_def by blast
  qed
  moreover have fin: "finite handled" using sub by (rule finite_subset) simp
  ultimately have "length (applied_keys i kv) \<le> card handled"
    by (metis card_mono card_image_le distinct_card finite_imageI le_trans)
  then show ?thesis using n sub by (metis card_lessThan card_subset_eq card_mono finite_lessThan le_antisym le_trans of_nat_le_iff)
qed

section \<open>The keys of a batch\<close>

lemma under_iff: "under p key \<longleftrightarrow> (\<exists>rest. key = p @ CHR ''.'' # rest \<and> rest \<noteq> [] \<and> CHR ''.'' \<notin> set rest)"
  by (auto simp: under_def cut_prefix_def prefix_def split: if_splits)

lemma id_first: "batch_id_ok i \<Longrightarrow> \<exists>c cs. i = c # cs \<and> c \<noteq> CHR ''s''"
  by (cases i) (auto simp: batch_id_ok_def)

lemma under_one: "batch_id_ok i \<Longrightarrow> under i key \<Longrightarrow> \<not> under (''snap.'' @ i) key \<and> key \<noteq> swept_key i"
  using id_first [of i] by (auto simp: under_iff swept_key_def)

lemma total_under: "under i (total_key i)"
  by (auto simp: under_iff total_key_def)

lemma applied_under: "under i (applied_key i (int_dec (int k)))"
  using nat_dec_nonempty nat_dec_digits [of "CHR ''.''" k] no_digits by (auto simp: under_iff applied_key_def int_dec_def)

lemma applied_not_total: "applied_key i (int_dec (int k)) \<noteq> total_key i"
  using nat_dec_digits [of "CHR ''l''" k] no_digits by (auto simp: applied_key_def total_key_def int_dec_def)

lemma snapshot_key_under: "batch_id_ok i \<Longrightarrow> \<not> under i (snapshot_key i ev sn) \<and> snapshot_key i ev sn \<noteq> swept_key i"
  using id_first [of i] by (auto simp: under_iff snapshot_key_def swept_key_def)

lemma swept_not_under: "batch_id_ok i \<Longrightarrow> \<not> under i (swept_key i) \<and> \<not> under (''snap.'' @ i) (swept_key i)"
  using id_first [of i] by (auto simp: under_iff swept_key_def)

section \<open>What holds throughout\<close>

lemma bucket_ok_more: "bucket_ok ms i h kv \<Longrightarrow> h \<subseteq> h' \<Longrightarrow> bucket_ok ms i h' kv"
  unfolding bucket_ok_def by (meson subsetD)

lemma bucket_ok_delete: "bucket_ok ms i h kv \<Longrightarrow> bucket_ok ms i h (AList.delete key kv)"
  unfolding bucket_ok_def by (auto simp: delete_conv' split: if_splits)

lemma bucket_ok_put:
  assumes "bucket_ok ms i h kv"
    and "under i key \<Longrightarrow> key \<noteq> total_key i \<and> (\<exists>k \<in> h. key = applied_key i (int_dec (int k)))"
    and "under (''snap.'' @ i) key \<Longrightarrow> (\<forall>r. v = KV_Snapshot r \<longrightarrow> (\<exists>k \<in> h. snapshot_of (m_event (ms ! k)) r))"
  shows "bucket_ok ms i h (AList.update key (v, now) kv)"
  using assms total_under [of i] unfolding bucket_ok_def by (auto simp: update_conv' split: if_splits)

lemma batch_message:
  "k < length (batch_messages i snap bodies) \<Longrightarrow> i \<noteq> [] \<Longrightarrow>
     m_batch (batch_messages i snap bodies ! k) = i \<and> m_seq (batch_messages i snap bodies ! k) = int_dec (int k)"
  by (auto simp: batch_messages_def header_of_def split: prod.split)

text \<open>The messages a batch is made of.\<close>

definition batch_of :: "string \<Rightarrow> message list \<Rightarrow> bool" where
  "batch_of i ms \<longleftrightarrow> batch_id_ok i \<and> (\<forall>k < length ms. m_batch (ms ! k) = i \<and> m_seq (ms ! k) = int_dec (int k))"

lemma noted_ok:
  assumes b: "batch_of i ms" and k: "k \<in> h" "k < length ms" and ok: "bucket_ok ms i h kv"
  shows "bucket_ok ms i h (record_snapshot wrote now (ms ! k) kv)"
proof (cases "complete_snapshot (m_event (ms ! k))")
  case None
  then show ?thesis using ok by (simp add: record_snapshot_def)
next
  case (Some sn)
  let ?r = "\<lparr>sr_tenant = ev_tenant (m_event (ms ! k)), sr_source = ev_source (m_event (ms ! k)), sr_scope = sd_scope sn, sr_taken = sd_taken sn\<rparr>"
  have i: "batch_id_ok i" "m_batch (ms ! k) = i" using b k by (auto simp: batch_of_def)
  have "snapshot_of (m_event (ms ! k)) ?r" using Some by (simp add: snapshot_of_def)
  then have "bucket_ok ms i h (AList.update (snapshot_key i (m_event (ms ! k)) sn) (KV_Snapshot ?r, now) kv)"
    using snapshot_key_under [OF i(1)] k by (intro bucket_ok_put [OF ok]) auto
  then show ?thesis using ok Some i by (simp add: record_snapshot_def kv_put_def)
qed

lemma marked_ok:
  assumes b: "batch_of i ms" and k: "k \<in> h" "k < length ms" and ok: "bucket_ok ms i h kv"
  shows "bucket_ok ms i h (mark_applied wrote now (ms ! k) kv)"
proof -
  have i: "batch_id_ok i" "m_batch (ms ! k) = i" "m_seq (ms ! k) = int_dec (int k)" using b k by (auto simp: batch_of_def)
  have "bucket_ok ms i h (AList.update (applied_key i (int_dec (int k))) (KV_Text [], now) kv)"
    using k applied_not_total by (intro bucket_ok_put [OF ok]) blast+
  then show ?thesis using ok i by (simp add: mark_applied_def kv_put_def)
qed

lemma claimed_ok:
  "batch_id_ok i \<Longrightarrow> bucket_ok ms i h kv \<Longrightarrow> claim_sweep now i kv = Some kv' \<Longrightarrow> bucket_ok ms i h kv'"
  using swept_not_under [of i] by (auto simp: claim_sweep_def intro: bucket_ok_put split: if_splits)

lemma swept_declared:
  assumes ok: "bucket_ok ms i h kv" and r: "r \<in> set (sweeps_of i kv)"
  shows "\<exists>k \<in> h. snapshot_of (m_event (ms ! k)) r"
proof -
  from r obtain key where key: "under (''snap.'' @ i) key"
    and v: "(case map_of kv key of Some (KV_Snapshot r, _) \<Rightarrow> if sr_scope r = [] then None else Some r | _ \<Rightarrow> None) = Some r"
    by (auto simp: sweeps_of_def keys_under_def List.map_filter_def)
  from v obtain t where "map_of kv key = Some (KV_Snapshot r, t)"
    by (auto split: option.splits kv_value.splits if_splits)
  then show ?thesis using ok key unfolding bucket_ok_def by blast
qed

text \<open>One step.\<close>

lemma bus_step_ok:
  assumes step: "bus_step ms i s s'" and b: "batch_of i ms" and ok: "bus_ok ms i s"
  shows "bus_ok ms i s'"
  using step
proof cases
  case (bus_deliver k)
  have "bucket_ok ms i (insert k (bu_handled s)) (bu_kv s)"
    using ok bucket_ok_more [OF _ subset_insertI] by (simp add: bus_ok_def)
  moreover have "bu_handled s = {..<length ms} \<Longrightarrow> insert k (bu_handled s) = {..<length ms}" using bus_deliver by auto
  ultimately show ?thesis using ok bus_deliver unfolding bus_ok_def by simp
next
  case (bus_noting xs k ys ok' now)
  have "k \<in> bu_handled s" "k < length ms" using ok bus_noting unfolding bus_ok_def by auto
  then show ?thesis using ok bus_noting noted_ok [OF b] unfolding bus_ok_def by auto
next
  case (bus_marking xs k ys ok' now)
  have "k \<in> bu_handled s" "k < length ms" using ok bus_marking unfolding bus_ok_def by auto
  then show ?thesis using ok bus_marking marked_ok [OF b] unfolding bus_ok_def by auto
next
  case (bus_checking xs k ys)
  have "m_batch (ms ! k) = i" using ok b bus_checking unfolding bus_ok_def batch_of_def by auto
  then have "bu_handled s = {..<length ms}"
    using ok bus_checking complete_all_handled unfolding bus_ok_def sweep_due_def by blast
  then show ?thesis using ok bus_checking unfolding bus_ok_def by auto
next
  case (bus_claiming xs k ys now kv')
  have "batch_id_ok i" "bucket_ok ms i (bu_handled s) (bu_kv s)" using ok b by (simp_all add: bus_ok_def batch_of_def)
  then have "bucket_ok ms i (bu_handled s) kv'" using bus_claiming claimed_ok by blast
  then show ?thesis using ok bus_claiming unfolding bus_ok_def by auto
next
  case (bus_sweeping xs k ys)
  have all: "bu_handled s = {..<length ms}" using ok bus_sweeping unfolding bus_ok_def by auto
  have b: "bucket_ok ms i (bu_handled s) (bu_kv s)" using ok by (simp add: bus_ok_def)
  have "\<forall>r \<in> set (sweeps_of i (bu_kv s)). \<exists>k < length ms. snapshot_of (m_event (ms ! k)) r"
  proof
    fix r
    assume "r \<in> set (sweeps_of i (bu_kv s))"
    from swept_declared [OF b this] show "\<exists>k < length ms. snapshot_of (m_event (ms ! k)) r" unfolding all by auto
  qed
  then show ?thesis using ok bus_sweeping all unfolding bus_ok_def by auto
next
  case (bus_stopping xs t ys)
  then show ?thesis using ok unfolding bus_ok_def by auto
next
  case (bus_expiring key)
  then show ?thesis using ok bucket_ok_delete unfolding bus_ok_def by auto
next
  case (bus_other_batch key v)
  have "bucket_ok ms i (bu_handled s) (AList.update key v (bu_kv s))"
    using ok bus_other_batch bucket_ok_put [of ms i "bu_handled s" "bu_kv s" key "fst v" "snd v"] unfolding bus_ok_def by auto
  then show ?thesis using ok bus_other_batch unfolding bus_ok_def by auto
qed

lemma bus_steps_ok: "(bus_step ms i)\<^sup>*\<^sup>* s s' \<Longrightarrow> batch_of i ms \<Longrightarrow> bus_ok ms i s \<Longrightarrow> bus_ok ms i s'"
  by (induction rule: rtranclp_induct) (auto intro: bus_step_ok)

text \<open>The bucket the publisher leaves.\<close>

definition untouched :: "string \<Rightarrow> bucket \<Rightarrow> bool" where
  "untouched i kv \<longleftrightarrow> gm_ok kv \<and> list_all (\<lambda>key. \<not> under i key \<and> \<not> under (''snap.'' @ i) key) (gm_keys kv)"

lemma published_start:
  assumes fresh: "untouched i kv" and i: "batch_id_ok i" and n: "int n < 2 ^ 63"
    and pub: "publish_batch cd limit base (Some kv) (Some i) True accept now evs = (Inr (i, n), Some kv', ms)"
  shows "batch_of i ms \<and> bus_ok ms i \<lparr>bu_kv = kv', bu_tasks = [], bu_handled = {}, bu_swept = []\<rparr>"
proof -
  have ne: "i \<noteq> []" using i by (auto simp: batch_id_ok_def)
  obtain bodies where b: "batch_bodies cd limit base evs = Inr bodies"
    using pub by (cases "batch_bodies cd limit base evs") (auto simp: publish_batch_def)
  let ?ms = "batch_messages i (list_ex (\<lambda>ev. ev_snapshot ev \<noteq> None) evs) bodies"
  let ?text = "int_dec (int (length bodies)) @ ''|'' @ ev_tenant (hd evs)"
  have "bodies \<noteq> []" using pub b ne by (auto simp: publish_batch_def)
  then have ms: "ms = ?ms" "n = length bodies" and kv': "kv' = AList.update (total_key i) (KV_Text ?text, now) kv"
    using pub b by (auto simp: publish_batch_def Let_def kv_put_def split: if_splits)
  have len: "length ms = n" using ms by (simp add: batch_messages_def)
  have none: "\<And>key. under i key \<or> under (''snap.'' @ i) key \<Longrightarrow> map_of kv key = None"
    using fresh by (auto simp: untouched_def list_all_iff map_of_eq_None_iff)
  have "total_key i \<noteq> key \<or> \<not> under (''snap.'' @ i) key" for key using under_one [OF i total_under] by blast
  moreover have "atoi (fst (total_of ?text)) = Some (int n)" using atoi_int_dec [OF n] ms total_text by simp
  moreover have "is_total (total_key i)" unfolding is_total_def total_key_def by (auto simp: suffix_def)
  moreover have "gm_ok kv'" using fresh kv' by (simp add: untouched_def)
  ultimately have "bucket_ok ms i {} kv'"
    using none len unfolding bucket_ok_def kv' by (auto simp: update_conv' text_of_def split: if_splits)
  moreover have "batch_of i ms" using i ne ms batch_message unfolding batch_of_def by blast
  ultimately show ?thesis by (simp add: bus_ok_def)
qed

text \<open>
  C35. Once a batch is published, whatever replicas do with its messages - handle them in any
  order and more than once, fail to record a snapshot or an applied mark, die between two
  accesses, while entries expire and other batches come and go - nothing is swept before every
  message of the batch has been handled, and only what one of them declared a complete
  snapshot of.
\<close>

theorem sweep_after_all_applied:
  assumes "untouched i kv" and "batch_id_ok i" and "int n < 2 ^ 63"
    and "publish_batch cd limit base (Some kv) (Some i) True accept now evs = (Inr (i, n), Some kv', ms)"
    and "(bus_step ms i)\<^sup>*\<^sup>* \<lparr>bu_kv = kv', bu_tasks = [], bu_handled = {}, bu_swept = []\<rparr> s"
    and "r \<in> set (bu_swept s)"
  shows "bu_handled s = {..<length ms} \<and> (\<exists>k < length ms. snapshot_of (m_event (ms ! k)) r)"
  using bus_steps_ok [OF assms(5)] published_start [OF assms(1-4)] assms(6) unfolding bus_ok_def by blast

text \<open>One message that is a whole inventory, handled and swept by one replica.\<close>

definition lone_event :: event where
  "lone_event = \<lparr>ev_source = ''aws'', ev_kind = ''inventory'', ev_observed = 5, ev_tenant = [], ev_nodes = [], ev_edges = [],
     ev_snapshot = Some \<lparr>sd_scope = ''acct'', sd_taken = 4\<rparr>\<rparr>"

definition lone_id :: string where "lone_id = replicate 32 CHR ''a''"

definition lone_record :: snapshot_record where
  "lone_record = \<lparr>sr_tenant = [], sr_source = ''aws'', sr_scope = ''acct'', sr_taken = 4\<rparr>"

definition lone_message :: message where
  "lone_message = \<lparr>m_subject = ''p.aws'', m_event = lone_event, m_batch = lone_id, m_seq = ''0'', m_total = ''1'', m_snapshot = True\<rparr>"

definition lone_codec :: codec where
  "lone_codec = \<lparr>cd_event = (\<lambda>_. Some ''x''), cd_node = (\<lambda>_. Some ''x''), cd_edge = (\<lambda>_. Some ''x'')\<rparr>"

definition lone_bucket :: bucket where
  "lone_bucket = [(total_key lone_id, (KV_Text ''1|'', 6))]"

lemma lone_id_ok: "batch_id_ok lone_id"
  by code_simp

lemma int_dec_small [simp]: "int_dec 0 = ''0''" "int_dec 1 = ''1''"
  by code_simp+

lemma lone_published:
  "publish_batch lone_codec 10 ''p'' (Some []) (Some lone_id) True (\<lambda>_. True) 6 [lone_event] = (Inr (lone_id, 1), Some lone_bucket, [lone_message])"
proof -
  have "subject_for ''p'' ''aws'' = ''p.aws''" "lone_id \<noteq> []" by code_simp+
  then show ?thesis
    by (simp add: publish_batch_def batch_bodies_def split_event_eq lone_codec_def batch_messages_def header_of_def Let_def
        kv_put_def lone_bucket_def lone_message_def) (simp add: lone_event_def)
qed

lemma lone_snapshot: "complete_snapshot lone_event = Some \<lparr>sd_scope = ''acct'', sd_taken = 4\<rparr>"
  by code_simp

lemma snapshot_key_listed: "under (''snap.'' @ i) (snapshot_key i ev sn)"
proof -
  let ?h = "hex_encode (take 8 (sha256 (ev_tenant ev @ [CHR 0x00] @ ev_source ev @ [CHR 0x00] @ sd_scope sn)))"
  have "length ?h = 16" by (simp add: length_hex_encode length_sha256)
  then have "?h \<noteq> []" by auto
  moreover have "\<not> hex_char (CHR ''.'')" by code_simp
  then have "CHR ''.'' \<notin> set ?h" using hex_encode_chars by blast
  ultimately show ?thesis by (simp add: under_iff snapshot_key_def)
qed

lemma lone_swept:
  "\<exists>s. (bus_step [lone_message] lone_id)\<^sup>*\<^sup>* \<lparr>bu_kv = lone_bucket, bu_tasks = [], bu_handled = {}, bu_swept = []\<rparr> s \<and> lone_record \<in> set (bu_swept s)"
proof -
  let ?R = "(bus_step [lone_message] lone_id)\<^sup>*\<^sup>*"
  let ?K = "snapshot_key lone_id lone_event \<lparr>sd_scope = ''acct'', sd_taken = 4\<rparr>"
  let ?A = "applied_key lone_id ''0''"
  let ?s = "\<lambda>kv p. \<lparr>bu_kv = kv, bu_tasks = [(p, 0)], bu_handled = {0}, bu_swept = []\<rparr>"
  let ?k1 = "lone_bucket @ [(?K, (KV_Snapshot lone_record, 7))]"
  let ?k2 = "?k1 @ [(?A, (KV_Text [], 8))]"
  let ?k3 = "?k2 @ [(swept_key lone_id, (KV_Text ''1'', 9))]"
  have K: "\<not> under lone_id ?K" "?K \<noteq> swept_key lone_id" "under (''snap.'' @ lone_id) ?K"
    using snapshot_key_under [OF lone_id_ok] snapshot_key_listed by blast+
  have keys: "under lone_id ?A" "under lone_id (total_key lone_id)" "?A \<noteq> total_key lone_id"
    "\<not> under (''snap.'' @ lone_id) (total_key lone_id)" "\<not> under (''snap.'' @ lone_id) ?A" "\<not> under lone_id (swept_key lone_id)"
    "?A \<noteq> swept_key lone_id" "total_key lone_id \<noteq> swept_key lone_id" "\<not> under (''snap.'' @ lone_id) (swept_key lone_id)"
    "\<not> is_total ?A" "is_total (total_key lone_id)" "atoi ''1'' = Some 1" "atoi ''0'' = Some 0" "total_of ''1|'' = (''1'', [])"
    by code_simp+
  have ne: "?K \<noteq> ?A" "?K \<noteq> total_key lone_id" using K(1) keys(1,2) by auto
  have k1: "record_snapshot True 7 lone_message lone_bucket = ?k1"
    using K ne by (simp add: record_snapshot_def lone_message_def lone_snapshot lone_id_ok kv_put_def lone_bucket_def lone_record_def)
      (simp add: lone_event_def)
  have k2: "mark_applied True 8 lone_message ?k1 = ?k2"
    using ne keys by (simp add: mark_applied_def lone_message_def lone_id_ok kv_put_def lone_bucket_def)
  have due: "sweep_due lone_message ?k2"
    using K ne keys by (simp add: sweep_due_def lone_message_def lone_id_ok batch_complete_def lone_bucket_def text_of_def applied_keys_def keys_under_def)
  have k3: "claim_sweep 9 lone_id ?k2 = Some ?k3"
    using K ne keys by (simp add: claim_sweep_def gm_has_def lone_bucket_def)
  have "bus_step [lone_message] lone_id \<lparr>bu_kv = lone_bucket, bu_tasks = [], bu_handled = {}, bu_swept = []\<rparr> (?s lone_bucket Recording)"
    using bus_deliver [of 0 "[lone_message]" lone_id "\<lparr>bu_kv = lone_bucket, bu_tasks = [], bu_handled = {}, bu_swept = []\<rparr>"] by simp
  moreover have "bus_step [lone_message] lone_id (?s lone_bucket Recording) (?s ?k1 Marking)"
    using bus_noting [of "?s lone_bucket Recording" "[]" 0 "[]" "[lone_message]" lone_id True 7] k1 by simp
  moreover have "bus_step [lone_message] lone_id (?s ?k1 Marking) (?s ?k2 Checking)"
    using bus_marking [of "?s ?k1 Marking" "[]" 0 "[]" "[lone_message]" lone_id True 8] k2 by simp
  moreover have "bus_step [lone_message] lone_id (?s ?k2 Checking) (?s ?k2 Claiming)"
    using bus_checking [of "?s ?k2 Checking" "[]" 0 "[]" "[lone_message]" lone_id] due by simp
  moreover have "bus_step [lone_message] lone_id (?s ?k2 Claiming) (?s ?k3 Sweeping)"
    using bus_claiming [of "?s ?k2 Claiming" "[]" 0 "[]" 9 lone_id ?k3 "[lone_message]"] k3 by simp
  moreover have "bus_step [lone_message] lone_id (?s ?k3 Sweeping)
      \<lparr>bu_kv = ?k3, bu_tasks = [], bu_handled = {0}, bu_swept = sweeps_of lone_id ?k3\<rparr>"
    using bus_sweeping [of "?s ?k3 Sweeping" "[]" 0 "[]" "[lone_message]" lone_id] by simp
  ultimately have run: "?R \<lparr>bu_kv = lone_bucket, bu_tasks = [], bu_handled = {}, bu_swept = []\<rparr>
      \<lparr>bu_kv = ?k3, bu_tasks = [], bu_handled = {0}, bu_swept = sweeps_of lone_id ?k3\<rparr>"
    by (meson converse_rtranclp_into_rtranclp r_into_rtranclp)
  have "lone_record \<in> set (sweeps_of lone_id ?k3)"
    using K ne keys by (simp add: sweeps_of_def keys_under_def lone_bucket_def List.map_filter_def) (simp add: lone_record_def)
  then show ?thesis using run by fastforce
qed

theorem sweep_after_all_applied_witness:
  "\<exists>s :: bus. lone_record \<in> set (bu_swept s) \<and> bu_handled s = {..<length [lone_message]}"
proof -
  obtain s where s: "(bus_step [lone_message] lone_id)\<^sup>*\<^sup>* \<lparr>bu_kv = lone_bucket, bu_tasks = [], bu_handled = {}, bu_swept = []\<rparr> s"
    "lone_record \<in> set (bu_swept s)" using lone_swept by blast
  have "untouched lone_id []" by (simp add: untouched_def)
  moreover have "int 1 < 2 ^ 63" by simp
  ultimately have "bu_handled s = {..<length [lone_message]}" using sweep_after_all_applied [OF _ lone_id_ok _ lone_published s] by simp
  with s(2) show ?thesis by blast
qed

end
