(* ===== verification/Calibration.thy ===== *)
theory Calibration
  imports Verdicts Complex_Main
begin

text \<open>
  Calibration, \<open>backend/internal/validation/calibration.go\<close>, \<open>diagnostics.go\<close> and
  \<open>discrimination.go\<close>: how well the scores the engine predicted match what testers found,
  how a monotone rescaling or one per evidence basis would do, whether the scores rank, and
  the one recommendation made of it all. The shuffle of \<open>math/rand\<close> behind the folds is the
  parameter \<open>shuffle\<close>; the recommendation is a value, its wording left out.
\<close>

section \<open>Samples\<close>

record cal_sample =
  cs_p :: real
  cs_y :: real
  cs_correlated :: bool
  cs_hops :: int
  cs_basis :: string

definition observed_outcome :: "outcome \<Rightarrow> real option" where
  "observed_outcome v =
     (if v = confirmed then Some 1 else if v = refuted then Some 0 else if v = partial_outcome then Some (1 / 2) else None)"

definition clamp_top :: "real \<Rightarrow> real" where
  "clamp_top p = (if p > 1 then 1 else p)"

definition clamp_to :: "real \<Rightarrow> real \<Rightarrow> real \<Rightarrow> real" where
  "clamp_to v lo hi = (if v < lo then lo else if v > hi then hi else v)"

section \<open>Whether a score ranks\<close>

record rank_pair =
  rp_score :: real
  rp_y :: real

text \<open>
  The sum of the mid-ranks of the positives, over pairs sorted by score: a run of equal
  scores from the \<open>i\<close>-th on shares its average rank.
\<close>

function mid_ranks :: "nat \<Rightarrow> rank_pair list \<Rightarrow> real" where
  "mid_ranks i [] = 0"
| "mid_ranks i (x # xs) =
     (let tied = x # takeWhile (\<lambda>q. rp_score q = rp_score x) xs;
          j = i + length tied - 1;
          mid = real (i + j + 2) / 2
      in (\<Sum>q\<leftarrow>tied. if rp_y q = 1 then mid else 0) + mid_ranks (j + 1) (dropWhile (\<lambda>q. rp_score q = rp_score x) xs))"
  by pat_completeness auto
termination by (relation "measure (length \<circ> snd)") (auto simp: le_imp_less_Suc length_dropWhile_le)

declare mid_ranks.simps(2) [simp del]

definition score_before :: "rank_pair \<Rightarrow> rank_pair \<Rightarrow> bool" where
  "score_before a b \<longleftrightarrow> rp_score a < rp_score b"

text \<open>\<open>aucMidRank\<close>: the AUC, the statistic behind it, and the class counts. Scores are finite here.\<close>

definition auc_mid_rank :: "rank_pair list \<Rightarrow> real \<times> real \<times> nat \<times> nat" where
  "auc_mid_rank pairs =
     (let pos = length (filter (\<lambda>q. rp_y q = 1) pairs);
          neg = length (filter (\<lambda>q. rp_y q = 0) pairs)
      in if pos = 0 \<or> neg = 0 then (0, 0, pos, neg)
         else (let xs = sort_by score_before (filter (\<lambda>q. rp_y q = 1 \<or> rp_y q = 0) pairs);
                   u = mid_ranks 0 xs - real pos * real (pos + 1) / 2
               in (u / (real pos * real neg), u, pos, neg)))"

definition hanley_mcneil_se :: "real \<Rightarrow> nat \<Rightarrow> nat \<Rightarrow> real" where
  "hanley_mcneil_se a pos neg =
     (let q1 = a / (2 - a);
          q2 = 2 * a * a / (1 + a);
          v = (a * (1 - a) + (real pos - 1) * (q1 - a * a) + (real neg - 1) * (q2 - a * a)) / (real pos * real neg);
          v = (if v < 0 then 0 else v)
      in sqrt v)"

record discrimination =
  di_positives :: nat
  di_negatives :: nat
  di_auc :: real
  di_low :: real
  di_high :: real
  di_verdict :: string
  di_has_data :: bool

definition min_discrimination_per_class :: nat where "min_discrimination_per_class = 10"

definition no_discrimination :: discrimination where
  "no_discrimination = \<lparr>di_positives = 0, di_negatives = 0, di_auc = 0, di_low = 0, di_high = 0,
     di_verdict = ''insufficient-data'', di_has_data = False\<rparr>"

definition discrimination_of :: "rank_pair list \<Rightarrow> discrimination" where
  "discrimination_of pairs =
     (let (auc, u, pos, neg) = auc_mid_rank pairs;
          d = no_discrimination\<lparr>di_positives := pos, di_negatives := neg\<rparr>
      in if pos = 0 \<or> neg = 0 then d
         else (let shrunk = (u + 1 / 2) / (real pos * real neg + 1);
                   se = hanley_mcneil_se shrunk pos neg;
                   d = d\<lparr>di_has_data := True, di_auc := auc,
                         di_low := clamp_to (auc - 196 / 100 * se) 0 1, di_high := clamp_to (auc + 196 / 100 * se) 0 1\<rparr>
               in if pos < min_discrimination_per_class \<or> neg < min_discrimination_per_class then d
                  else if di_low d > 1 / 2 then d\<lparr>di_verdict := ''discriminates''\<rparr>
                  else if di_high d < 1 / 2 then d\<lparr>di_verdict := ''inverted''\<rparr>
                  else d\<lparr>di_verdict := ''indistinguishable-from-chance''\<rparr>))"

definition score_discrimination :: "cal_sample list \<Rightarrow> discrimination" where
  "score_discrimination ss = discrimination_of (map (\<lambda>s. \<lparr>rp_score = cs_p s, rp_y = cs_y s\<rparr>) ss)"

section \<open>Scoring rules\<close>

definition reliability_bins :: nat where "reliability_bins = 5"
definition min_calibration_samples :: nat where "min_calibration_samples = 8"
definition calibration_gap_tolerance :: real where "calibration_gap_tolerance = 1 / 10"

definition cross_entropy :: "real \<Rightarrow> real \<Rightarrow> real" where
  "cross_entropy p y = (let p = clamp_to p (1 / 10 ^ 6) (1 - 1 / 10 ^ 6) in - (y * ln p + (1 - y) * ln (1 - p)))"

definition bin_of :: "real \<Rightarrow> nat" where
  "bin_of p =
     (let x = p * real reliability_bins;
          b = (if x \<ge> 0 then \<lfloor>x\<rfloor> else \<lceil>x\<rceil>);
          b = (if b \<ge> int reliability_bins then int reliability_bins - 1 else b);
          b = (if b < 0 then 0 else b)
      in nat b)"

record reliability_bin =
  rb_low :: real
  rb_high :: real
  rb_count :: nat
  rb_predicted :: real
  rb_observed :: real

definition empty_bins :: "reliability_bin list" where
  "empty_bins =
     (let w = 1 / real reliability_bins
      in map (\<lambda>i. \<lparr>rb_low = real i * w, rb_high = real (i + 1) * w, rb_count = 0, rb_predicted = 0, rb_observed = 0\<rparr>)
           [0..<reliability_bins])"

definition in_bin :: "nat \<Rightarrow> cal_sample list \<Rightarrow> cal_sample list" where
  "in_bin i ss = filter (\<lambda>s. bin_of (cs_p s) = i) ss"

definition sum_p :: "cal_sample list \<Rightarrow> real" where "sum_p ss = (\<Sum>s\<leftarrow>ss. cs_p s)"
definition sum_y :: "cal_sample list \<Rightarrow> real" where "sum_y ss = (\<Sum>s\<leftarrow>ss. cs_y s)"

definition reliability_diagram :: "cal_sample list \<Rightarrow> reliability_bin list" where
  "reliability_diagram ss =
     map (\<lambda>(i, b). let k = length (in_bin i ss)
                    in if k = 0 then b
                       else b\<lparr>rb_count := k, rb_predicted := sum_p (in_bin i ss) / real k, rb_observed := sum_y (in_bin i ss) / real k\<rparr>)
       (zip [0..<reliability_bins] empty_bins)"

record core_stats =
  co_n :: nat
  co_brier :: real
  co_log_loss :: real
  co_predicted :: real
  co_observed :: real
  co_ece :: real
  co_verdict :: string

definition verdict_for :: "nat \<Rightarrow> real \<Rightarrow> real \<Rightarrow> string" where
  "verdict_for n gap ece =
     (if n < min_calibration_samples then ''insufficient-data''
      else if gap > calibration_gap_tolerance then ''overconfident''
      else if gap < - calibration_gap_tolerance then ''underconfident''
      else if ece > calibration_gap_tolerance then ''calibrated-on-average''
      else ''well-calibrated'')"

definition bin_error :: "cal_sample list \<Rightarrow> nat \<Rightarrow> real" where
  "bin_error ss i =
     (let xs = in_bin i ss; bc = real (length xs)
      in if xs = [] then 0 else (bc / real (length ss)) * \<bar>sum_p xs / bc - sum_y xs / bc\<bar>)"

definition calibration_stats :: "cal_sample list \<Rightarrow> core_stats" where
  "calibration_stats ss =
     (let n = length ss; nn = real n
      in if n = 0 then \<lparr>co_n = 0, co_brier = 0, co_log_loss = 0, co_predicted = 0, co_observed = 0, co_ece = 0, co_verdict = ''insufficient-data''\<rparr>
         else (let mp = sum_p ss / nn; ob = sum_y ss / nn; ece = (\<Sum>i\<leftarrow>[0..<reliability_bins]. bin_error ss i)
               in \<lparr>co_n = n, co_brier = (\<Sum>s\<leftarrow>ss. (cs_p s - cs_y s) * (cs_p s - cs_y s)) / nn,
                   co_log_loss = (\<Sum>s\<leftarrow>ss. cross_entropy (cs_p s) (cs_y s)) / nn,
                   co_predicted = mp, co_observed = ob, co_ece = ece, co_verdict = verdict_for n (mp - ob) ece\<rparr>))"

section \<open>A monotone rescaling\<close>

text \<open>A block of pooled samples; \<open>fitIsotonic\<close> keeps them on a stack, newest first.\<close>

record pool =
  po_y :: real
  po_p :: real
  po_max :: real
  po_cnt :: nat

definition po_mean :: "pool \<Rightarrow> real" where
  "po_mean b = po_y b / real (po_cnt b)"

definition po_join :: "pool \<Rightarrow> pool \<Rightarrow> pool" where
  "po_join a c = \<lparr>po_y = po_y a + po_y c, po_p = po_p a + po_p c, po_max = po_max c, po_cnt = po_cnt a + po_cnt c\<rparr>"

fun pool_push :: "pool \<Rightarrow> pool list \<Rightarrow> pool list" where
  "pool_push c [] = [c]"
| "pool_push c (a # bl) = (if po_mean a \<le> po_mean c then c # a # bl else pool_push (po_join a c) bl)"

definition pool_one :: "cal_sample \<Rightarrow> pool" where
  "pool_one s = \<lparr>po_y = cs_y s, po_p = cs_p s, po_max = cs_p s, po_cnt = 1\<rparr>"

definition sample_before :: "cal_sample \<Rightarrow> cal_sample \<Rightarrow> bool" where
  "sample_before a b \<longleftrightarrow> cs_p a < cs_p b"

definition fit_pools :: "cal_sample list \<Rightarrow> pool list" where
  "fit_pools ss = rev (fold (\<lambda>s bl. pool_push (pool_one s) bl) (sort_by sample_before ss) [])"

record iso_block =
  ib_max :: real
  ib_fitted :: real

record cal_point =
  cp_score :: real
  cp_calibrated :: real

definition fit_isotonic :: "cal_sample list \<Rightarrow> iso_block list \<times> cal_point list" where
  "fit_isotonic ss =
     (map (\<lambda>b. \<lparr>ib_max = po_max b, ib_fitted = po_mean b\<rparr>) (fit_pools ss),
      map (\<lambda>b. \<lparr>cp_score = po_p b / real (po_cnt b), cp_calibrated = po_mean b\<rparr>) (fit_pools ss))"

definition predict_isotonic :: "iso_block list \<Rightarrow> real \<Rightarrow> real" where
  "predict_isotonic bl p =
     (case find (\<lambda>b. p \<le> ib_max b) bl of
        Some b \<Rightarrow> ib_fitted b
      | None \<Rightarrow> (if bl \<noteq> [] then ib_fitted (last bl) else p))"

text \<open>The folds: the \<open>k\<close>-th index of the shuffle is in fold \<open>k mod folds\<close>.\<close>

definition cv_min_samples :: nat where "cv_min_samples = 20"
definition cv_folds :: nat where "cv_folds = 5"

definition fold_of :: "(nat \<Rightarrow> nat list) \<Rightarrow> nat \<Rightarrow> nat \<Rightarrow> nat \<Rightarrow> nat" where
  "fold_of shuffle n k i = length (takeWhile (\<lambda>j. j \<noteq> i) (shuffle n)) mod k"

definition held_out :: "(nat \<Rightarrow> nat list) \<Rightarrow> nat \<Rightarrow> cal_sample list \<Rightarrow> nat \<Rightarrow> cal_sample list \<times> cal_sample list" where
  "held_out shuffle k ss f =
     (map (\<lambda>i. ss ! i) (filter (\<lambda>i. fold_of shuffle (length ss) k i \<noteq> f) [0..<length ss]),
      map (\<lambda>i. ss ! i) (filter (\<lambda>i. fold_of shuffle (length ss) k i = f) [0..<length ss]))"

definition sq_error :: "real \<Rightarrow> cal_sample \<Rightarrow> real" where
  "sq_error pred s = (pred - cs_y s) * (pred - cs_y s)"

definition isotonic_brier_cv :: "(nat \<Rightarrow> nat list) \<Rightarrow> cal_sample list \<Rightarrow> nat \<Rightarrow> real" where
  "isotonic_brier_cv shuffle ss k =
     (let errs = concat (map (\<lambda>f. let (train, test) = held_out shuffle k ss f; bl = fst (fit_isotonic train)
                                   in map (\<lambda>s. sq_error (predict_isotonic bl (cs_p s)) s) test) [0..<k])
      in if errs = [] then 0 else sum_list errs / real (length errs))"

definition recalibrate :: "(nat \<Rightarrow> nat list) \<Rightarrow> cal_sample list \<Rightarrow> real \<times> cal_point list" where
  "recalibrate shuffle ss =
     (let n = length ss; pts = snd (fit_isotonic ss)
      in if n = 0 then (0, [])
         else if n \<ge> cv_min_samples then (isotonic_brier_cv shuffle ss cv_folds, pts)
         else (isotonic_brier_cv shuffle ss n, pts))"

section \<open>Segments\<close>

record segment =
  sg_name :: string
  sg_samples :: nat
  sg_brier :: real
  sg_ece :: real
  sg_predicted :: real
  sg_observed :: real
  sg_verdict :: string

definition segment_of :: "string \<Rightarrow> cal_sample list \<Rightarrow> segment" where
  "segment_of name ss =
     (let c = calibration_stats ss
      in \<lparr>sg_name = name, sg_samples = co_n c, sg_brier = co_brier c, sg_ece = co_ece c, sg_predicted = co_predicted c,
          sg_observed = co_observed c, sg_verdict = co_verdict c\<rparr>)"

definition long_path_hops :: int where "long_path_hops = 5"

definition calibration_segments :: "cal_sample list \<Rightarrow> segment list" where
  "calibration_segments ss =
     List.map_filter (\<lambda>(name, test). let sub = filter test ss in if sub = [] then None else Some (segment_of name sub))
       [(''correlated-hops'', cs_correlated),
        (''independent-hops'', \<lambda>s. \<not> cs_correlated s),
        (''long-path'', \<lambda>s. cs_hops s \<ge> long_path_hops),
        (''short-path'', \<lambda>s. cs_hops s > 0 \<and> cs_hops s < long_path_hops)]"

definition basis_or_unknown :: "string \<Rightarrow> string" where
  "basis_or_unknown b = (if b = [] then ''unknown'' else b)"

text \<open>The bases present, in the order of \<open>sort.Strings\<close>.\<close>

definition bases_of :: "cal_sample list \<Rightarrow> string list" where
  "bases_of ss = sort_by str_less (remdups (map (\<lambda>s. basis_or_unknown (cs_basis s)) ss))"

definition of_basis :: "string \<Rightarrow> cal_sample list \<Rightarrow> cal_sample list" where
  "of_basis k ss = filter (\<lambda>s. basis_or_unknown (cs_basis s) = k) ss"

definition basis_segments :: "cal_sample list \<Rightarrow> segment list" where
  "basis_segments ss = map (\<lambda>k. segment_of (''basis:'' @ k) (of_basis k ss)) (bases_of ss)"

section \<open>A rescaling per evidence basis\<close>

definition logit_p :: "real \<Rightarrow> real" where
  "logit_p p = (let p = clamp_to p (1 / 10 ^ 6) (1 - 1 / 10 ^ 6) in ln (p / (1 - p)))"

definition sigmoid_p :: "real \<Rightarrow> real" where
  "sigmoid_p x = 1 / (1 + exp (- x))"

text \<open>One Newton step: the new coefficients, and whether the search stops with them.\<close>

definition platt_step :: "cal_sample list \<Rightarrow> real \<Rightarrow> real \<times> real \<Rightarrow> bool \<times> real \<times> real" where
  "platt_step ss lam = (\<lambda>(a, b).
     let z = (\<lambda>s. logit_p (cs_p s));
         mu = (\<lambda>s. sigmoid_p (a + b * z s));
         w = (\<lambda>s. if mu s * (1 - mu s) < 1 / 10 ^ 9 then 1 / 10 ^ 9 else mu s * (1 - mu s));
         g0 = (\<Sum>s\<leftarrow>ss. mu s - cs_y s) + 2 * lam * a;
         g1 = (\<Sum>s\<leftarrow>ss. (mu s - cs_y s) * z s) + 2 * lam * (b - 1);
         h00 = (\<Sum>s\<leftarrow>ss. w s) + 2 * lam;
         h01 = (\<Sum>s\<leftarrow>ss. w s * z s);
         h11 = (\<Sum>s\<leftarrow>ss. w s * z s * z s) + 2 * lam;
         det = h00 * h11 - h01 * h01
     in if \<bar>det\<bar> < 1 / 10 ^ 12 then (True, a, b)
        else (let da = (h11 * g0 - h01 * g1) / det; db = (h00 * g1 - h01 * g0) / det
              in (\<bar>da\<bar> + \<bar>db\<bar> < 1 / 10 ^ 9, a - da, b - db)))"

primrec platt_loop :: "nat \<Rightarrow> cal_sample list \<Rightarrow> real \<Rightarrow> real \<times> real \<Rightarrow> real \<times> real" where
  "platt_loop 0 ss lam ab = ab"
| "platt_loop (Suc n) ss lam ab = (let (stop, ab) = platt_step ss lam ab in if stop then ab else platt_loop n ss lam ab)"

definition platt_fit :: "cal_sample list \<Rightarrow> real \<Rightarrow> real \<times> real" where
  "platt_fit ss lam = platt_loop 50 ss lam (0, 1)"

definition basis_shrinkage :: real where "basis_shrinkage = 2"

definition basis_fits :: "cal_sample list \<Rightarrow> (string, real \<times> real) gomap" where
  "basis_fits ss = map (\<lambda>k. (k, platt_fit (of_basis k ss) basis_shrinkage)) (bases_of ss)"

record basis_recalibration =
  br_basis :: string
  br_samples :: nat
  br_intercept :: real
  br_slope :: real

definition basis_predict :: "(string, real \<times> real) gomap \<Rightarrow> cal_sample \<Rightarrow> real" where
  "basis_predict fits s =
     (case map_of fits (basis_or_unknown (cs_basis s)) of
        Some (a, b) \<Rightarrow> sigmoid_p (a + b * logit_p (cs_p s))
      | None \<Rightarrow> cs_p s)"

definition platt_by_basis_brier_cv :: "(nat \<Rightarrow> nat list) \<Rightarrow> cal_sample list \<Rightarrow> nat \<Rightarrow> real" where
  "platt_by_basis_brier_cv shuffle ss k =
     (let errs = concat (map (\<lambda>f. let (train, test) = held_out shuffle k ss f; fits = basis_fits train
                                   in map (\<lambda>s. sq_error (basis_predict fits s) s) test) [0..<k])
      in if errs = [] then 0 else sum_list errs / real (length errs))"

definition recalibrate_by_basis :: "(nat \<Rightarrow> nat list) \<Rightarrow> cal_sample list \<Rightarrow> real \<times> basis_recalibration list" where
  "recalibrate_by_basis shuffle ss =
     (let n = length ss; fits = basis_fits ss;
          per = map (\<lambda>(k, a, b). \<lparr>br_basis = k, br_samples = length (of_basis k ss), br_intercept = a, br_slope = b\<rparr>) fits
      in if n = 0 then (0, [])
         else if n \<ge> cv_min_samples then (platt_by_basis_brier_cv shuffle ss cv_folds, per)
         else ((\<Sum>s\<leftarrow>ss. sq_error (basis_predict fits s) s) / real n, per))"

section \<open>Detection\<close>

record detection_stats =
  ds_tested :: nat
  ds_detected :: nat
  ds_rate :: real
  ds_high_tested :: nat
  ds_high_rate :: real
  ds_has_data :: bool

definition high_score_threshold :: real where "high_score_threshold = 6 / 10"

definition detection_stats_of :: "verdict_record list \<Rightarrow> detection_stats option" where
  "detection_stats_of rs =
     (let tested = filter (\<lambda>r. vr_outcome r = confirmed \<and> vr_detected r \<noteq> None) rs;
          caught = filter (\<lambda>r. vr_detected r = Some True) tested;
          high = filter (\<lambda>r. vr_score r \<ge> high_score_threshold) tested;
          high_caught = filter (\<lambda>r. vr_detected r = Some True) high
      in if tested = [] then None
         else Some \<lparr>ds_tested = length tested, ds_detected = length caught,
                    ds_rate = real (length caught) / real (length tested), ds_high_tested = length high,
                    ds_high_rate = (if high \<noteq> [] then real (length high_caught) / real (length high) else 0), ds_has_data = True\<rparr>)"

section \<open>The report of a track\<close>

datatype diagnosis =
  No_Diagnosis
| Detection_Axis
| Per_Basis
| Inverted_Order
| Order_Chance
| Low_Resolution_Ordered
| Low_Resolution_Ungraded
| Structural_Correlated
| Structural_Long
| Calibrated
| Recalibrate_Sound
| Recalibrate_Ungraded

record calibration =
  ca_samples :: nat
  ca_brier :: real
  ca_log_loss :: real
  ca_ece :: real
  ca_predicted :: real
  ca_observed :: real
  ca_bins :: "reliability_bin list"
  ca_scale :: real
  ca_brier_recal :: real
  ca_map :: "cal_point list"
  ca_segments :: "segment list"
  ca_basis_segments :: "segment list"
  ca_brier_basis :: real
  ca_by_basis :: "basis_recalibration list"
  ca_detection :: "detection_stats option"
  ca_diagnosis :: diagnosis
  ca_persistent :: bool
  ca_discrimination :: discrimination
  ca_verdict :: string
  ca_has_data :: bool

definition low_resolution_skill :: real where "low_resolution_skill = 1 / 10"
definition detection_concern :: real where "detection_concern = 4 / 10"
definition basis_improvement_threshold :: real where "basis_improvement_threshold = 2 / 100"

definition resolution_skill :: "calibration \<Rightarrow> real" where
  "resolution_skill cal =
     (let u = ca_observed cal * (1 - ca_observed cal);
          tot = sum_list (map rb_count (ca_bins cal))
      in if u < 2 / 100 then 1
         else if tot = 0 then 1
         else (\<Sum>b\<leftarrow>ca_bins cal. if rb_count b = 0 then 0
                 else (real (rb_count b) / real tot) * ((rb_observed b - ca_observed cal) * (rb_observed b - ca_observed cal))) / u)"

definition segment_by_name :: "segment list \<Rightarrow> string \<Rightarrow> segment option" where
  "segment_by_name sgs name = find (\<lambda>g. sg_name g = name) sgs"

definition segment_off :: "calibration \<Rightarrow> string \<Rightarrow> string \<Rightarrow> bool" where
  "segment_off cal seg_name ref_name =
     (case segment_by_name (ca_segments cal) seg_name of
        None \<Rightarrow> False
      | Some seg \<Rightarrow>
          \<not> (sg_samples seg < min_calibration_samples \<or> sg_verdict seg = ''well-calibrated'' \<or> sg_verdict seg = ''insufficient-data'') \<and>
          (let ref = (case segment_by_name (ca_segments cal) ref_name of
                        Some r \<Rightarrow> if sg_samples r \<ge> min_calibration_samples then \<bar>sg_predicted r - sg_observed r\<bar>
                                  else \<bar>ca_predicted cal - ca_observed cal\<bar>
                      | None \<Rightarrow> \<bar>ca_predicted cal - ca_observed cal\<bar>)
           in \<bar>sg_predicted seg - sg_observed seg\<bar> > ref + calibration_gap_tolerance))"

definition structural_segment :: "calibration \<Rightarrow> diagnosis option" where
  "structural_segment cal =
     (if segment_off cal ''correlated-hops'' ''independent-hops'' then Some Structural_Correlated
      else if segment_off cal ''long-path'' ''short-path'' then Some Structural_Long
      else None)"

definition diagnose :: "calibration \<Rightarrow> diagnosis" where
  "diagnose cal =
     (if (case ca_detection cal of Some d \<Rightarrow> ds_high_tested d \<ge> min_calibration_samples \<and> ds_high_rate d \<ge> detection_concern | None \<Rightarrow> False)
      then Detection_Axis
      else if length (ca_by_basis cal) \<ge> 2 \<and> ca_brier_basis cal > 0 \<and> ca_brier_recal cal - ca_brier_basis cal > basis_improvement_threshold
      then Per_Basis
      else if di_verdict (ca_discrimination cal) = ''inverted'' then Inverted_Order
      else if di_verdict (ca_discrimination cal) = ''indistinguishable-from-chance'' then Order_Chance
      else (let ordered = (di_verdict (ca_discrimination cal) = ''discriminates'')
            in if resolution_skill cal < low_resolution_skill
               then (if ordered then Low_Resolution_Ordered else Low_Resolution_Ungraded)
               else (case structural_segment cal of
                       Some d \<Rightarrow> d
                     | None \<Rightarrow> if ca_verdict cal = ''well-calibrated'' then Calibrated
                               else if ordered then Recalibrate_Sound
                               else Recalibrate_Ungraded)))"

definition blank_calibration :: calibration where
  "blank_calibration = \<lparr>ca_samples = 0, ca_brier = 0, ca_log_loss = 0, ca_ece = 0, ca_predicted = 0, ca_observed = 0,
     ca_bins = empty_bins, ca_scale = 0, ca_brier_recal = 0, ca_map = [], ca_segments = [], ca_basis_segments = [],
     ca_brier_basis = 0, ca_by_basis = [], ca_detection = None, ca_diagnosis = No_Diagnosis, ca_persistent = False,
     ca_discrimination = no_discrimination, ca_verdict = ''insufficient-data'', ca_has_data = False\<rparr>"

definition compute_calibration :: "(nat \<Rightarrow> nat list) \<Rightarrow> cal_sample list \<Rightarrow> detection_stats option \<Rightarrow> bool \<Rightarrow> calibration" where
  "compute_calibration shuffle ss det persistent =
     (let cal = blank_calibration\<lparr>ca_persistent := persistent, ca_detection := det, ca_discrimination := score_discrimination ss\<rparr>;
          n = length ss; core = calibration_stats ss
      in if n = 0 then cal
         else (let cal = cal\<lparr>ca_samples := co_n core, ca_has_data := True, ca_brier := co_brier core, ca_log_loss := co_log_loss core,
                             ca_predicted := co_predicted core, ca_observed := co_observed core, ca_ece := co_ece core,
                             ca_verdict := co_verdict core, ca_bins := reliability_diagram ss\<rparr>
               in if n < min_calibration_samples then cal\<lparr>ca_verdict := ''insufficient-data''\<rparr>
                  else (let cal = (if ca_predicted cal > 0
                                   then cal\<lparr>ca_scale := clamp_to (ca_observed cal / ca_predicted cal) (1 / 10) 10\<rparr> else cal);
                            (brier, pts) = recalibrate shuffle ss;
                            (brier_b, per) = recalibrate_by_basis shuffle ss;
                            cal = cal\<lparr>ca_brier_recal := brier, ca_map := pts, ca_segments := calibration_segments ss,
                                      ca_basis_segments := basis_segments ss, ca_brier_basis := brier_b, ca_by_basis := per\<rparr>
                        in cal\<lparr>ca_diagnosis := diagnose cal\<rparr>)))"

section \<open>The report of a tenant\<close>

record cal_report =
  rp_path :: calibration
  rp_target :: "calibration option"
  rp_edge :: "calibration option"
  rp_priority :: "discrimination option"

definition sample_of :: "real \<Rightarrow> real \<Rightarrow> verdict_record \<Rightarrow> cal_sample" where
  "sample_of p y r = \<lparr>cs_p = clamp_top p, cs_y = y, cs_correlated = vr_correlated r, cs_hops = vr_hops r, cs_basis = vr_basis r\<rparr>"

definition path_sample :: "verdict_record \<Rightarrow> cal_sample option" where
  "path_sample r =
     (case observed_outcome (vr_outcome r) of
        None \<Rightarrow> None
      | Some y \<Rightarrow> if scope_or_default (vr_scope r) \<notin> {scope_target, scope_edge} \<and> vr_score r > 0
                  then Some (sample_of (vr_score r) y r) else None)"

definition target_sample :: "verdict_record \<Rightarrow> cal_sample option" where
  "target_sample r =
     (case observed_outcome (vr_outcome r) of
        None \<Rightarrow> None
      | Some y \<Rightarrow> if scope_or_default (vr_scope r) = scope_target \<and> vr_compromise r > 0
                  then Some (sample_of (vr_compromise r) y r) else None)"

definition edge_sample :: "verdict_record \<Rightarrow> cal_sample option" where
  "edge_sample r =
     (case observed_outcome (vr_outcome r) of
        None \<Rightarrow> None
      | Some y \<Rightarrow> if scope_or_default (vr_scope r) = scope_edge \<and> vr_score r > 0
                  then Some \<lparr>cs_p = clamp_top (vr_score r), cs_y = y, cs_correlated = False, cs_hops = 0, cs_basis = vr_basis r\<rparr> else None)"

definition priority_pair :: "verdict_record \<Rightarrow> rank_pair option" where
  "priority_pair r =
     (case (observed_outcome (vr_outcome r), vr_priority r) of
        (Some y, Some pr) \<Rightarrow> if scope_or_default (vr_scope r) = scope_path then Some \<lparr>rp_score = pr, rp_y = y\<rparr> else None
      | _ \<Rightarrow> None)"

definition withhold_scale :: "calibration \<Rightarrow> calibration" where
  "withhold_scale cal = cal\<lparr>ca_scale := 0, ca_map := [], ca_brier_recal := 0, ca_by_basis := [], ca_brier_basis := 0, ca_diagnosis := No_Diagnosis\<rparr>"

definition calibration_of :: "(nat \<Rightarrow> nat list) \<Rightarrow> verdict_record list \<Rightarrow> bool \<Rightarrow> cal_report" where
  "calibration_of shuffle rs persistent =
     (let det = detection_stats_of rs;
          ps = List.map_filter path_sample rs; ts = List.map_filter target_sample rs; es = List.map_filter edge_sample rs;
          pairs = List.map_filter priority_pair rs
      in \<lparr>rp_path = compute_calibration shuffle ps det persistent,
          rp_target = (if ts \<noteq> [] then Some (compute_calibration shuffle ts det persistent) else None),
          rp_edge = (if es \<noteq> [] then Some (withhold_scale (compute_calibration shuffle es None persistent)) else None),
          rp_priority = (if pairs \<noteq> [] then Some (discrimination_of pairs) else None)\<rparr>)"

text \<open>\<open>Store.Calibration\<close>: over the tenant's verdicts in the store's order.\<close>

definition store_calibration :: "(nat \<Rightarrow> nat list) \<Rightarrow> bool \<Rightarrow> string \<Rightarrow> verdicts \<Rightarrow> cal_report" where
  "store_calibration shuffle persistent tenant m = calibration_of shuffle (verdict_list tenant m) persistent"

end
