(* ===== verification/Calibration_Laws.thy ===== *)
theory Calibration_Laws
  imports Calibration
begin

text \<open>
  What the calibration report means: its AUC is the share of pairs of a confirmed and a
  refuted verdict that the score orders rightly; its isotonic map is the best monotone
  rescaling of the scores there is, when no two scores are equal - and not otherwise.
\<close>

section \<open>Pairs won\<close>

definition wins :: "rank_pair \<Rightarrow> rank_pair \<Rightarrow> real" where
  "wins p q = (if rp_score p > rp_score q then 1 else if rp_score p = rp_score q then 1 / 2 else 0)"

definition pairs_won :: "rank_pair list \<Rightarrow> rank_pair list \<Rightarrow> real" where
  "pairs_won ps qs = (\<Sum>p\<leftarrow>ps. \<Sum>q\<leftarrow>qs. wins p q)"

abbreviation positives :: "rank_pair list \<Rightarrow> rank_pair list" where
  "positives xs \<equiv> filter (\<lambda>q. rp_y q = 1) xs"

abbreviation negatives :: "rank_pair list \<Rightarrow> rank_pair list" where
  "negatives xs \<equiv> filter (\<lambda>q. rp_y q = 0) xs"

lemma wins_swap: "wins p q + wins q p = 1"
  by (simp add: wins_def)

lemma pairs_won_cons: "pairs_won (p # ps) qs = (\<Sum>q\<leftarrow>qs. wins p q) + pairs_won ps qs"
  by (simp add: pairs_won_def)

lemma pairs_won_right: "pairs_won ps (q # qs) = (\<Sum>p\<leftarrow>ps. wins p q) + pairs_won ps qs"
  by (simp add: pairs_won_def sum_list_addf)

lemma pairs_won_self: "pairs_won ps ps = real (length ps) * real (length ps) / 2"
proof (induction ps)
  case (Cons p ps)
  have "(\<Sum>q\<leftarrow>ps. wins p q) + (\<Sum>q\<leftarrow>ps. wins q p) = (\<Sum>q\<leftarrow>ps. 1 :: real)"
    by (simp add: wins_swap flip: sum_list_addf)
  also have "\<dots> = real (length ps)" by (simp add: sum_list_triv)
  finally have "(\<Sum>q\<leftarrow>ps. wins p q) + (\<Sum>q\<leftarrow>ps. wins q p) = real (length ps)" .
  moreover have "wins p p = 1 / 2" by (simp add: wins_def)
  ultimately show ?case using Cons by (simp add: pairs_won_cons pairs_won_right algebra_simps add_divide_distrib)
qed (simp add: pairs_won_def)

lemma pairs_won_perm: "mset ps = mset ps' \<Longrightarrow> mset qs = mset qs' \<Longrightarrow> pairs_won ps qs = pairs_won ps' qs'"
proof -
  assume a: "mset ps = mset ps'" "mset qs = mset qs'"
  have "(\<Sum>q\<leftarrow>qs. wins p q) = (\<Sum>q\<leftarrow>qs'. wins p q)" for p
    using a(2) by (metis mset_map sum_mset_sum_list)
  then show ?thesis using a(1) unfolding pairs_won_def by (simp only:) (metis (no_types) mset_map sum_mset_sum_list)
qed

section \<open>Mid-ranks\<close>

abbreviation by_score :: "rank_pair list \<Rightarrow> bool" where
  "by_score \<equiv> sorted_wrt (\<lambda>a b. \<not> score_before b a)"

lemma sum_const: "(\<And>x. x \<in> set xs \<Longrightarrow> f x = c) \<Longrightarrow> (\<Sum>x\<leftarrow>xs. f x) = real (length xs) * c"
  by (induction xs) (auto simp: algebra_simps)

lemma filter_sum: "(\<Sum>x\<leftarrow>xs. if P x then f x else (0 :: real)) = (\<Sum>x\<leftarrow>filter P xs. f x)"
  by (induction xs) auto

lemma mid_ranks_sum:
  "by_score xs \<Longrightarrow> mid_ranks i xs = (\<Sum>p\<leftarrow>positives xs. real i + 1 / 2 + (\<Sum>q\<leftarrow>xs. wins p q))"
proof (induction i xs rule: mid_ranks.induct)
  case (2 i x xs)
  define g where "g = x # takeWhile (\<lambda>q. rp_score q = rp_score x) xs"
  define r where "r = dropWhile (\<lambda>q. rp_score q = rp_score x) xs"
  have split: "x # xs = g @ r" by (simp add: g_def r_def)
  have same: "\<forall>q \<in> set g. rp_score q = rp_score x" by (auto simp: g_def dest: set_takeWhileD)
  have ge: "\<forall>q \<in> set xs. rp_score x \<le> rp_score q" using "2.prems" by (auto simp: score_before_def)
  have sr: "by_score r" using "2.prems" unfolding r_def by (simp add: sorted_wrt_dropWhile)
  have above: "rp_score x < rp_score q" if "q \<in> set r" for q
  proof (cases r)
    case (Cons y ys)
    have "rp_score y \<noteq> rp_score x" using hd_dropWhile [of "\<lambda>q. rp_score q = rp_score x" xs] Cons unfolding r_def by auto
    moreover have "y \<in> set xs" using Cons set_dropWhileD unfolding r_def by (metis list.set_intros(1))
    ultimately have "rp_score x < rp_score y" using ge by force
    moreover have "rp_score y \<le> rp_score q" using sr Cons that by (auto simp: score_before_def)
    ultimately show ?thesis by linarith
  qed (use that in simp)
  have "g \<noteq> []" by (simp add: g_def)
  then have n: "length g \<ge> 1" by (cases g) auto
  have "mid_ranks i (x # xs) = (\<Sum>q\<leftarrow>g. if rp_y q = 1 then real (i + (i + length g - 1) + 2) / 2 else 0) + mid_ranks (i + length g) r"
  proof -
    have "i + length g - 1 + 1 = i + length g" using n by simp
    then show ?thesis unfolding mid_ranks.simps(2) Let_def g_def [symmetric] r_def [symmetric] by (simp only:)
  qed
  also have "(\<Sum>q\<leftarrow>g. if rp_y q = 1 then real (i + (i + length g - 1) + 2) / 2 else 0)
      = (\<Sum>p\<leftarrow>positives g. real i + 1 / 2 + (\<Sum>q\<leftarrow>g @ r. wins p q))"
  proof -
    have "real (i + (i + length g - 1) + 2) / 2 = real i + 1 / 2 + (\<Sum>q\<leftarrow>g @ r. wins p q)" if "p \<in> set g" for p
    proof -
      have "(\<Sum>q\<leftarrow>g. wins p q) = real (length g) * (1 / 2)" using same that by (intro sum_const) (simp add: wins_def)
      moreover have "(\<Sum>q\<leftarrow>r. wins p q) = real (length r) * 0" using above same that by (intro sum_const) (force simp: wins_def)
      ultimately show ?thesis using n by (simp add: of_nat_diff field_simps)
    qed
    then show ?thesis unfolding filter_sum by (intro arg_cong [where f = sum_list] map_cong) auto
  qed
  also have "mid_ranks (i + length g) r = (\<Sum>p\<leftarrow>positives r. real (i + length g) + 1 / 2 + (\<Sum>q\<leftarrow>r. wins p q))"
  proof -
    have "i + length (x # takeWhile (\<lambda>q. rp_score q = rp_score x) xs) - 1 + 1 = i + length g" using n by (simp add: g_def)
    then show ?thesis using "2.IH" [OF refl refl refl] sr by (simp add: r_def g_def)
  qed
  also have "\<dots> = (\<Sum>p\<leftarrow>positives r. real i + 1 / 2 + (\<Sum>q\<leftarrow>g @ r. wins p q))"
  proof -
    have "(\<Sum>q\<leftarrow>g. wins p q) = real (length g) * 1" if "p \<in> set r" for p
      using above same that by (intro sum_const) (force simp: wins_def)
    then show ?thesis by (intro arg_cong [where f = sum_list] map_cong) auto
  qed
  finally show ?case unfolding split by simp
qed simp

lemma score_before_weak: "strict_weak score_before"
  unfolding strict_weak_def score_before_def by auto

text \<open>
  C36. The AUC the report publishes is the probability that a randomly chosen confirmed verdict
  outscores a randomly chosen refuted one, ties counted half, whatever the order of the
  verdicts; there is one exactly when both kinds are present.
\<close>

theorem auc_is_pairs_won:
  "let d = discrimination_of xs; ps = positives xs; ns = negatives xs
   in (di_has_data d \<longleftrightarrow> ps \<noteq> [] \<and> ns \<noteq> []) \<and> di_positives d = length ps \<and> di_negatives d = length ns \<and>
      di_auc d = (if di_has_data d then pairs_won ps ns / (real (length ps) * real (length ns)) else 0)"
proof (cases "positives xs = [] \<or> negatives xs = []")
  case True
  then show ?thesis by (auto simp: discrimination_of_def auc_mid_rank_def no_discrimination_def Let_def)
next
  case False
  define ss where "ss = sort_by score_before (filter (\<lambda>q. rp_y q = 1 \<or> rp_y q = 0) xs)"
  have kept: "mset (filter P ss) = mset (filter P xs)" if "\<And>q. P q \<Longrightarrow> rp_y q = 1 \<or> rp_y q = 0" for P
  proof -
    have "mset (filter P ss) = filter_mset P (mset (filter (\<lambda>q. rp_y q = 1 \<or> rp_y q = 0) xs))" by (simp only: ss_def mset_filter mset_sort_by)
    also have "\<dots> = mset (filter P (filter (\<lambda>q. rp_y q = 1 \<or> rp_y q = 0) xs))" by (simp only: mset_filter)
    also have "filter P (filter (\<lambda>q. rp_y q = 1 \<or> rp_y q = 0) xs) = filter P xs" using that by (auto intro: filter_cong)
    finally show ?thesis .
  qed
  have pos: "mset (positives ss) = mset (positives xs)" and neg: "mset (negatives ss) = mset (negatives xs)"
    by (rule kept, simp)+
  have "filter (\<lambda>q. rp_y q \<noteq> 1) ss = negatives ss"
    by (rule filter_cong) (auto simp: ss_def)
  then have "pairs_won (positives ss) ss = pairs_won (positives ss) (positives ss @ negatives ss)"
    using multiset_partition [of "mset ss" "\<lambda>q. rp_y q = 1"] by (intro pairs_won_perm) (simp_all flip: mset_filter)
  also have "\<dots> = pairs_won (positives ss) (positives ss) + pairs_won (positives ss) (negatives ss)"
    by (simp add: pairs_won_def sum_list_addf)
  finally have "pairs_won (positives ss) ss = real (length (positives ss)) * real (length (positives ss)) / 2 + pairs_won (positives ss) (negatives ss)"
    by (simp add: pairs_won_self)
  moreover have "mid_ranks 0 ss = real (length (positives ss)) * (1 / 2) + pairs_won (positives ss) ss"
    using mid_ranks_sum [of ss 0] sorted_sort_by [OF score_before_weak] unfolding ss_def
    by (simp add: pairs_won_def sum_list_addf sum_list_triv)
  moreover have "length (positives ss) = length (positives xs)" using pos by (metis size_mset)
  moreover have "pairs_won (positives ss) (negatives ss) = pairs_won (positives xs) (negatives xs)" using pos neg by (rule pairs_won_perm)
  ultimately have "mid_ranks 0 ss - real (length (positives xs)) * real (length (positives xs) + 1) / 2 = pairs_won (positives xs) (negatives xs)"
    by (simp add: field_simps)
  then show ?thesis using False
    by (simp add: discrimination_of_def auc_mid_rank_def ss_def Let_def)
qed

section \<open>Pooling adjacent violators\<close>

definition mean_y :: "cal_sample list \<Rightarrow> real" where
  "mean_y ss = sum_y ss / real (length ss)"

text \<open>No head of the part averages less than the whole.\<close>

definition front_heavy :: "cal_sample list \<Rightarrow> bool" where
  "front_heavy ss \<longleftrightarrow> (\<forall>k \<le> length ss. real k * mean_y ss \<le> sum_y (take k ss))"

lemma sum_y_append [simp]: "sum_y (xs @ ys) = sum_y xs + sum_y ys"
  by (simp add: sum_y_def)

lemma sum_y_mean: "ss \<noteq> [] \<Longrightarrow> sum_y ss = real (length ss) * mean_y ss"
  by (simp add: mean_y_def)

lemma front_heavy_join:
  assumes a: "front_heavy xs" "xs \<noteq> []" and c: "front_heavy ys" "ys \<noteq> []" and gt: "mean_y xs > mean_y ys"
  shows "front_heavy (xs @ ys)"
proof -
  define m where "m = mean_y (xs @ ys)"
  have tot: "real (length xs + length ys) * m = real (length xs) * mean_y xs + real (length ys) * mean_y ys"
    using sum_y_mean [of "xs @ ys"] sum_y_mean [of xs] sum_y_mean [of ys] a c by (simp add: m_def)
  have lens: "real (length xs) > 0" "real (length ys) > 0" using a c by auto
  have le: "m \<le> mean_y xs"
  proof (rule ccontr)
    assume "\<not> m \<le> mean_y xs"
    then have "real (length xs) * m > real (length xs) * mean_y xs" "real (length ys) * m > real (length ys) * mean_y ys"
      using lens gt by (auto intro!: mult_strict_left_mono)
    then show False using tot by (simp add: distrib_right)
  qed
  have ge: "mean_y ys \<le> m"
  proof (rule ccontr)
    assume "\<not> mean_y ys \<le> m"
    then have "real (length xs) * m < real (length xs) * mean_y xs" "real (length ys) * m < real (length ys) * mean_y ys"
      using lens gt by (auto intro!: mult_strict_left_mono)
    then show False using tot by (simp add: distrib_right)
  qed
  have "real k * m \<le> sum_y (take k (xs @ ys))" if k: "k \<le> length (xs @ ys)" for k
  proof (cases "k \<le> length xs")
    case True
    have "real k * m \<le> real k * mean_y xs" using le by (simp add: mult_left_mono)
    also have "\<dots> \<le> sum_y (take k xs)" using a True by (simp add: front_heavy_def)
    finally show ?thesis using True by simp
  next
    case False
    define j where "j = k - length xs"
    have j: "j \<le> length ys" "k = length xs + j" using False k by (auto simp: j_def)
    have "real j * mean_y ys \<le> sum_y (take j ys)" using c j by (simp add: front_heavy_def)
    moreover have "real k * m = real (length xs) * mean_y xs + real (length ys) * mean_y ys - (real (length ys) - real j) * m"
      using tot j by (simp add: algebra_simps)
    moreover have "(real (length ys) - real j) * mean_y ys \<le> (real (length ys) - real j) * m" using ge j by (intro mult_left_mono) auto
    ultimately show ?thesis using sum_y_mean [of xs] a j by (simp add: algebra_simps)
  qed
  then show ?thesis by (simp add: front_heavy_def m_def)
qed

text \<open>The stack of pools and the parts of the samples they stand for, both newest first.\<close>

definition pool_of :: "pool \<Rightarrow> cal_sample list \<Rightarrow> bool" where
  "pool_of b ss \<longleftrightarrow> ss \<noteq> [] \<and> po_y b = sum_y ss \<and> po_cnt b = length ss \<and> po_max b = cs_p (last ss) \<and> front_heavy ss"

lemma pool_mean: "pool_of b ss \<Longrightarrow> po_mean b = mean_y ss"
  by (simp add: pool_of_def po_mean_def mean_y_def)

definition stack_of :: "pool list \<Rightarrow> cal_sample list list \<Rightarrow> bool" where
  "stack_of bl parts \<longleftrightarrow> list_all2 pool_of bl parts \<and> sorted_wrt (\<lambda>b a. po_mean a \<le> po_mean b) bl"

lemma pool_join: "pool_of a xs \<Longrightarrow> pool_of c ys \<Longrightarrow> po_mean a > po_mean c \<Longrightarrow> pool_of (po_join a c) (xs @ ys)"
  using front_heavy_join [of xs ys] by (simp add: pool_mean) (simp add: pool_of_def po_join_def)

lemma pool_push_ok:
  "stack_of bl parts \<Longrightarrow> pool_of c part \<Longrightarrow>
     \<exists>parts'. stack_of (pool_push c bl) parts' \<and> concat (rev parts') = concat (rev parts) @ part"
proof (induction bl arbitrary: c part parts)
  case Nil
  then show ?case by (intro exI [of _ "[part]"]) (simp add: stack_of_def)
next
  case (Cons a bl)
  then obtain pa ps where parts: "parts = pa # ps" and pa: "pool_of a pa" and st: "stack_of bl ps" "\<forall>b \<in> set bl. po_mean b \<le> po_mean a"
    by (auto simp: stack_of_def list_all2_Cons1)
  show ?case
  proof (cases "po_mean a \<le> po_mean c")
    case True
    then show ?thesis using Cons.prems parts st by (intro exI [of _ "part # parts"]) (force simp: stack_of_def)
  next
    case False
    then have "pool_of (po_join a c) (pa @ part)" using pool_join [OF pa Cons.prems(2)] by simp
    from Cons.IH [OF st(1) this] show ?thesis using False parts by simp
  qed
qed

lemma pool_one_ok: "pool_of (pool_one s) [s]"
proof -
  have "real k * mean_y [s] \<le> sum_y (take k [s])" if "k \<le> length [s]" for k
    using that by (cases k) (simp_all add: mean_y_def sum_y_def)
  then have "front_heavy [s]" by (simp add: front_heavy_def)
  then show ?thesis by (simp add: pool_of_def pool_one_def sum_y_def)
qed

lemma pools_fold:
  "stack_of bl parts \<Longrightarrow> \<exists>parts'. stack_of (fold (\<lambda>s bl. pool_push (pool_one s) bl) ss bl) parts' \<and> concat (rev parts') = concat (rev parts) @ ss"
proof (induction ss arbitrary: bl parts)
  case (Cons s ss)
  obtain ps where "stack_of (pool_push (pool_one s) bl) ps" "concat (rev ps) = concat (rev parts) @ [s]"
    using pool_push_ok [OF Cons.prems pool_one_ok] by blast
  then show ?case using Cons.IH by fastforce
qed auto

lemma fit_pools_parts:
  "\<exists>parts. list_all2 pool_of (fit_pools ss) parts \<and> sorted_wrt (\<lambda>a b. po_mean a \<le> po_mean b) (fit_pools ss) \<and>
     concat parts = sort_by sample_before ss"
proof -
  have "stack_of [] []" by (simp add: stack_of_def)
  from pools_fold [OF this, of "sort_by sample_before ss"] obtain ps where
    ps: "stack_of (fold (\<lambda>s bl. pool_push (pool_one s) bl) (sort_by sample_before ss) []) ps" "concat (rev ps) = sort_by sample_before ss" by auto
  then show ?thesis unfolding fit_pools_def stack_of_def
    by (intro exI [of _ "rev ps"]) (simp add: sorted_wrt_rev)
qed

section \<open>No monotone rescaling does better\<close>

text \<open>Summation by parts: what is heavy in front weighs least against what grows.\<close>

lemma abel_le:
  fixes ds gs :: "real list"
  assumes "length ds = length gs" "ds \<noteq> []" "sorted gs" "\<forall>k \<le> length ds. c + sum_list (take k ds) \<ge> 0"
  shows "(\<Sum>(d, g)\<leftarrow>zip ds gs. d * g) \<le> (c + sum_list ds) * last gs - c * hd gs"
  using assms
proof (induction ds gs arbitrary: c rule: list_induct2')
  case (4 d ds g gs)
  show ?case
  proof (cases ds)
    case Nil
    then show ?thesis using 4 by (simp add: algebra_simps)
  next
    case (Cons d' ds')
    then obtain g' gs' where gs: "gs = g' # gs'" using 4 by (cases gs) auto
    have pre: "\<forall>k \<le> length ds. (c + d) + sum_list (take k ds) \<ge> 0"
    proof (intro allI impI)
      fix k
      assume "k \<le> length ds"
      then show "(c + d) + sum_list (take k ds) \<ge> 0" using 4(5) [rule_format, of "Suc k"] by simp
    qed
    have "(\<Sum>(d, g)\<leftarrow>zip ds gs. d * g) \<le> ((c + d) + sum_list ds) * last gs - (c + d) * hd gs"
      using 4 pre Cons by (intro "4.IH") auto
    moreover have "(c + d) * g \<le> (c + d) * g'" using pre [rule_format, of 0] 4(4) gs by (intro mult_left_mono) auto
    ultimately show ?thesis using gs by (simp add: algebra_simps)
  qed
qed auto

lemma sum_sq_shift:
  fixes m :: real
  assumes "length ys = length gs"
  shows "(\<Sum>(y, g)\<leftarrow>zip ys gs. (g - y) * (g - y)) - (\<Sum>y\<leftarrow>ys. (m - y) * (m - y)) =
    (\<Sum>g\<leftarrow>gs. (g - m) * (g - m)) - 2 * (\<Sum>(d, g)\<leftarrow>zip (map (\<lambda>y. y - m) ys) gs. d * g) + 2 * m * (\<Sum>y\<leftarrow>ys. y - m)"
  using assms by (induction ys gs rule: list_induct2) (simp_all add: algebra_simps)

lemma part_best:
  assumes fh: "front_heavy ss" and ne: "ss \<noteq> []" and h: "sorted (map h ss)"
  shows "(\<Sum>s\<leftarrow>ss. sq_error (mean_y ss) s) \<le> (\<Sum>s\<leftarrow>ss. sq_error (h s) s)"
proof -
  define ys where "ys = map cs_y ss"
  define gs where "gs = map h ss"
  define m where "m = mean_y ss"
  have len: "length ys = length gs" by (simp add: ys_def gs_def)
  have pre: "sum_list (take k (map (\<lambda>y. y - m) ys)) = sum_y (take k ss) - real k * m" if "k \<le> length ss" for k
  proof -
    have "take k (map (\<lambda>y. y - m) ys) = map (\<lambda>s. cs_y s - m) (take k ss)" by (simp add: ys_def take_map)
    also have "sum_list \<dots> = sum_y (take k ss) - real (length (take k ss)) * m"
      unfolding sum_y_def by (simp only: sum_list_subtractf sum_list_triv)
    finally show ?thesis using that by (simp add: min_def)
  qed
  have zero: "(\<Sum>y\<leftarrow>ys. y - m) = 0"
    using pre [of "length ss"] sum_y_mean [OF ne] by (simp add: ys_def m_def)
  have "(\<Sum>(d, g)\<leftarrow>zip (map (\<lambda>y. y - m) ys) gs. d * g) \<le> (0 + sum_list (map (\<lambda>y. y - m) ys)) * last gs - 0 * hd gs"
  proof (rule abel_le)
    show "\<forall>k \<le> length (map (\<lambda>y. y - m) ys). 0 + sum_list (take k (map (\<lambda>y. y - m) ys)) \<ge> 0"
      using pre fh by (simp add: front_heavy_def m_def ys_def)
  qed (use len ne h in \<open>simp_all add: ys_def gs_def\<close>)
  then have "(\<Sum>(d, g)\<leftarrow>zip (map (\<lambda>y. y - m) ys) gs. d * g) \<le> 0" using zero by simp
  moreover have "0 \<le> (\<Sum>g\<leftarrow>gs. (g - m) * (g - m))" by (rule sum_list_nonneg) auto
  ultimately have "(\<Sum>y\<leftarrow>ys. (m - y) * (m - y)) \<le> (\<Sum>(y, g)\<leftarrow>zip ys gs. (g - y) * (g - y))"
    using sum_sq_shift [OF len, of m] zero by simp
  moreover have "(\<Sum>y\<leftarrow>ys. (m - y) * (m - y)) = (\<Sum>s\<leftarrow>ss. sq_error (mean_y ss) s)"
    by (simp add: ys_def m_def sq_error_def comp_def)
  moreover have "(\<Sum>(y, g)\<leftarrow>zip ys gs. (g - y) * (g - y)) = (\<Sum>s\<leftarrow>ss. sq_error (h s) s)"
    unfolding ys_def gs_def by (induction ss) (simp_all add: sq_error_def)
  ultimately show ?thesis by simp
qed

section \<open>The map that is published\<close>

abbreviation blocks_of :: "pool list \<Rightarrow> iso_block list" where
  "blocks_of bl \<equiv> map (\<lambda>b. \<lparr>ib_max = po_max b, ib_fitted = po_mean b\<rparr>) bl"

lemma predict_one [simp]: "predict_isotonic [b] p = ib_fitted b"
  by (simp add: predict_isotonic_def)

lemma predict_cons: "bl \<noteq> [] \<Longrightarrow> predict_isotonic (b # bl) p = (if p \<le> ib_max b then ib_fitted b else predict_isotonic bl p)"
  by (auto simp: predict_isotonic_def split: option.split)

lemma predict_above: "bl \<noteq> [] \<Longrightarrow> (\<And>b. b \<in> set bl \<Longrightarrow> x \<le> ib_fitted b) \<Longrightarrow> x \<le> predict_isotonic bl p"
proof (induction bl)
  case (Cons b bl)
  then show ?case by (cases "bl = []") (auto simp: predict_cons)
qed simp

lemma predict_mono: "sorted (map ib_fitted bl) \<Longrightarrow> mono (predict_isotonic bl)"
proof (induction bl)
  case Nil
  then show ?case by (simp add: predict_isotonic_def mono_def)
next
  case (Cons b bl)
  show ?case
  proof (cases "bl = []")
    case False
    have "ib_fitted b \<le> predict_isotonic bl q" for q using Cons.prems False by (intro predict_above) auto
    then show ?thesis using Cons False by (auto simp: predict_cons mono_def)
  qed (simp add: mono_def)
qed

lemma predict_part:
  assumes "list_all2 pool_of (pre @ b # post) (ps @ part # qs)" "length pre = length ps"
    and "sorted_wrt (\<lambda>x y. cs_p x < cs_p y) (concat (ps @ part # qs))" and "s \<in> set part"
  shows "predict_isotonic (blocks_of (pre @ b # post)) (cs_p s) = mean_y part"
  using assms
proof (induction pre ps rule: list_induct2')
  case 1
  then have b: "pool_of b part" by simp
  have "part \<noteq> []" using 1 by auto
  have "cs_p s \<le> po_max b"
  proof (cases "s = last part")
    case False
    then have "s \<in> set (butlast part)" using 1 by (metis append_butlast_last_id insert_iff \<open>part \<noteq> []\<close> list.set(2) rotate1.simps(2) set_rotate1)
    moreover have "part = butlast part @ [last part]" using \<open>part \<noteq> []\<close> by simp
    ultimately have "cs_p s < cs_p (last part)" using 1(3) by (metis (no_types, lifting) append_Nil concat.simps(2) list.set_intros(1) sorted_wrt_append)
    then show ?thesis using b by (simp add: pool_of_def)
  qed (use b in \<open>simp add: pool_of_def\<close>)
  then show ?case using pool_mean [OF b] by (cases "post = []") (simp_all add: predict_cons)
next
  case (4 a pre p ps)
  have a: "pool_of a p" "p \<noteq> []" using 4 by (auto simp: pool_of_def)
  have "cs_p (last p) < cs_p s" using 4(4,5) a last_in_set [of p] by (auto simp: sorted_wrt_append)
  then have "\<not> cs_p s \<le> po_max a" using a by (simp add: pool_of_def)
  moreover have "predict_isotonic (blocks_of (pre @ b # post)) (cs_p s) = mean_y part"
    using 4 by (intro "4.IH") (auto simp: sorted_wrt_append)
  ultimately show ?case by (simp add: predict_cons)
qed auto

text \<open>
  C37. The recalibration map is nondecreasing, and among all nondecreasing rescalings of the
  scores none has a smaller squared error on the verdicts it was fitted to, as long as no two
  of their scores are equal.
\<close>

theorem isotonic_is_best:
  assumes dist: "distinct (map cs_p ss)" and h: "mono h"
  shows "mono (predict_isotonic (fst (fit_isotonic ss))) \<and>
    (\<Sum>s\<leftarrow>ss. sq_error (predict_isotonic (fst (fit_isotonic ss)) (cs_p s)) s) \<le> (\<Sum>s\<leftarrow>ss. sq_error (h (cs_p s)) s)"
proof -
  let ?bl = "fit_pools ss"
  let ?ss = "sort_by sample_before ss"
  let ?f = "predict_isotonic (blocks_of ?bl)"
  obtain parts where lp: "list_all2 pool_of ?bl parts" and up: "sorted_wrt (\<lambda>a b. po_mean a \<le> po_mean b) ?bl" and ps: "concat parts = ?ss"
    using fit_pools_parts by blast
  have "mono ?f" by (rule predict_mono) (use up in \<open>simp add: comp_def sorted_wrt_map\<close>)
  have "strict_weak sample_before" unfolding strict_weak_def sample_before_def by auto
  then have "sorted_wrt (\<lambda>a b. \<not> sample_before b a) ?ss" by (rule sorted_sort_by)
  moreover have "distinct (map cs_p ?ss)" using dist by (metis mset_eq_imp_distinct_iff mset_map mset_sort_by)
  ultimately have asc: "sorted_wrt (\<lambda>x y. cs_p x < cs_p y) ?ss"
  proof -
    assume up: "sorted_wrt (\<lambda>a b. \<not> sample_before b a) ?ss" and d: "distinct (map cs_p ?ss)"
    have "cs_p (?ss ! i) < cs_p (?ss ! j)" if "i < j" "j < length ?ss" for i j
    proof -
      have "\<not> cs_p (?ss ! j) < cs_p (?ss ! i)" using up that unfolding sorted_wrt_iff_nth_less sample_before_def by blast
      moreover have "map cs_p ?ss ! i \<noteq> map cs_p ?ss ! j" using d that nth_eq_iff_index_eq [of "map cs_p ?ss" i j] by auto
      ultimately show ?thesis using that by simp
    qed
    then show ?thesis unfolding sorted_wrt_iff_nth_less by blast
  qed
  have part: "(\<Sum>s\<leftarrow>part. sq_error (?f (cs_p s)) s) \<le> (\<Sum>s\<leftarrow>part. sq_error (h (cs_p s)) s)" if mem: "part \<in> set parts" for part
  proof -
    obtain ps0 qs where split: "parts = ps0 @ part # qs" using mem by (meson split_list)
    obtain pre b post where bl: "?bl = pre @ b # post" "length pre = length ps0" "pool_of b part"
      using lp unfolding split by (auto simp: list_all2_append2 list_all2_Cons2 dest: list_all2_lengthD)
    have sp: "sorted_wrt (\<lambda>x y. cs_p x < cs_p y) (concat (ps0 @ part # qs))" using asc unfolding ps [symmetric] split .
    have "(\<Sum>s\<leftarrow>part. sq_error (?f (cs_p s)) s) = (\<Sum>s\<leftarrow>part. sq_error (mean_y part) s)"
      using predict_part [OF _ bl(2) sp] lp unfolding bl(1) split by (intro arg_cong [where f = sum_list] map_cong) auto
    also have "\<dots> \<le> (\<Sum>s\<leftarrow>part. sq_error (h (cs_p s)) s)"
    proof (rule part_best)
      have "sorted_wrt (\<lambda>x y. cs_p x < cs_p y) part" using sp by (simp add: sorted_wrt_append)
      then show "sorted (map (\<lambda>s. h (cs_p s)) part)"
        unfolding sorted_map by (rule sorted_wrt_mono_rel [rotated]) (use h in \<open>auto simp: mono_def\<close>)
    qed (use bl in \<open>simp_all add: pool_of_def\<close>)
    finally show ?thesis .
  qed
  have "(\<Sum>s\<leftarrow>concat parts. sq_error (?f (cs_p s)) s) \<le> (\<Sum>s\<leftarrow>concat parts. sq_error (h (cs_p s)) s)"
    using part by (induction parts) (simp_all add: add_mono)
  moreover have "(\<Sum>s\<leftarrow>?ss. g s) = (\<Sum>s\<leftarrow>ss. g s)" for g :: "cal_sample \<Rightarrow> real"
    by (metis mset_map mset_sort_by sum_mset_sum_list)
  ultimately show ?thesis using \<open>mono ?f\<close> unfolding ps by (simp add: fit_isotonic_def)
qed

definition two_verdicts :: "real \<Rightarrow> real \<Rightarrow> cal_sample list" where
  "two_verdicts p q = [\<lparr>cs_p = p, cs_y = 1, cs_correlated = False, cs_hops = 0, cs_basis = []\<rparr>,
     \<lparr>cs_p = q, cs_y = 0, cs_correlated = False, cs_hops = 0, cs_basis = []\<rparr>]"

lemma isotonic_is_best_witness:
  "(\<Sum>s\<leftarrow>two_verdicts (1 / 4) (3 / 4). sq_error (predict_isotonic (fst (fit_isotonic (two_verdicts (1 / 4) (3 / 4)))) (cs_p s)) s) \<le> 1 / 2"
proof -
  have "distinct (map cs_p (two_verdicts (1 / 4) (3 / 4)))" by (simp add: two_verdicts_def)
  moreover have "mono (\<lambda>_ :: real. 1 / 2 :: real)" by (simp add: mono_def)
  ultimately show ?thesis using isotonic_is_best [of "two_verdicts (1 / 4) (3 / 4)" "\<lambda>_. 1 / 2"]
    by (simp add: two_verdicts_def sq_error_def)
qed

text \<open>
  With equal scores the pools may part them, and the map, which answers a score with the first
  pool that reaches it, answers both with one: a refuted and a confirmed verdict of one score
  are both predicted as refuted, where a constant would do better.
\<close>

lemma tied_scores_mispredicted:
  "let ss = rev (two_verdicts (1 / 2) (1 / 2)); f = predict_isotonic (fst (fit_isotonic ss))
   in (\<Sum>s\<leftarrow>ss. sq_error (f (cs_p s)) s) = 1 \<and> (\<Sum>s\<leftarrow>ss. sq_error (1 / 2) s) = 1 / 2"
  by (simp add: two_verdicts_def fit_isotonic_def fit_pools_def pool_one_def po_mean_def sample_before_def predict_isotonic_def sq_error_def)

section \<open>Bounds\<close>

lemma bin_of_less: "bin_of p < reliability_bins"
  unfolding bin_of_def reliability_bins_def by (simp add: Let_def nat_less_iff)

lemma sum_bins:
  fixes f :: "cal_sample \<Rightarrow> real"
  shows "(\<Sum>i\<leftarrow>[0..<reliability_bins]. \<Sum>s\<leftarrow>in_bin i ss. f s) = (\<Sum>s\<leftarrow>ss. f s)"
proof (induction ss)
  case (Cons s ss)
  have "(\<Sum>i\<leftarrow>[0..<reliability_bins]. if bin_of (cs_p s) = i then f s else 0) = f s"
    using bin_of_less [of "cs_p s"] by (simp add: sum_list_distinct_conv_sum_set sum.delta)
  moreover have "(\<Sum>u\<leftarrow>in_bin i (s # ss). f u) = (if bin_of (cs_p s) = i then f s else 0) + (\<Sum>u\<leftarrow>in_bin i ss. f u)" for i
    by (simp add: in_bin_def)
  ultimately show ?case using Cons by (simp add: sum_list_addf)
qed (simp add: in_bin_def sum_list_triv)

lemma bin_error_eq: "ss \<noteq> [] \<Longrightarrow> bin_error ss i = \<bar>(\<Sum>s\<leftarrow>in_bin i ss. cs_p s - cs_y s)\<bar> / real (length ss)"
proof (cases "in_bin i ss = []")
  case False
  assume "ss \<noteq> []"
  let ?k = "real (length (in_bin i ss))"
  have "sum_p (in_bin i ss) / ?k - sum_y (in_bin i ss) / ?k = (\<Sum>s\<leftarrow>in_bin i ss. cs_p s - cs_y s) / ?k"
    by (simp add: sum_p_def sum_y_def sum_list_subtractf diff_divide_distrib)
  then show ?thesis using False by (simp add: bin_error_def Let_def abs_divide)
qed (simp add: bin_error_def)

lemma abs_sum_list_le: "\<bar>\<Sum>x\<leftarrow>xs. f x\<bar> \<le> (\<Sum>x\<leftarrow>xs. \<bar>f x :: real\<bar>)"
  by (induction xs) auto

lemma sum_list_le_length: "(\<And>x. x \<in> set xs \<Longrightarrow> f x \<le> (1 :: real)) \<Longrightarrow> (\<Sum>x\<leftarrow>xs. f x) \<le> real (length xs)"
  by (induction xs) (auto simp: add_mono)

text \<open>
  The bins cannot hide the gap of the means, and none of the errors leaves the unit interval.
\<close>

lemma calibration_bounds:
  assumes ne: "ss \<noteq> []" and r: "\<forall>s \<in> set ss. 0 \<le> cs_p s \<and> cs_p s \<le> 1 \<and> 0 \<le> cs_y s \<and> cs_y s \<le> 1"
  shows "let c = calibration_stats ss
    in \<bar>co_predicted c - co_observed c\<bar> \<le> co_ece c \<and> co_ece c \<le> 1 \<and> 0 \<le> co_brier c \<and> co_brier c \<le> 1"
proof -
  let ?n = "real (length ss)"
  let ?d = "\<lambda>s. cs_p s - cs_y s"
  have n: "?n > 0" using ne by simp
  have d: "\<bar>?d s\<bar> \<le> 1" if "s \<in> set ss" for s using r that by (auto simp: abs_le_iff)
  have ece: "(\<Sum>i\<leftarrow>[0..<reliability_bins]. bin_error ss i) = (\<Sum>i\<leftarrow>[0..<reliability_bins]. \<bar>\<Sum>s\<leftarrow>in_bin i ss. ?d s\<bar>) / ?n"
    unfolding bin_error_eq [OF ne] by (simp add: divide_inverse sum_list_mult_const)
  have "\<bar>sum_p ss / ?n - sum_y ss / ?n\<bar> = \<bar>\<Sum>s\<leftarrow>ss. ?d s\<bar> / ?n"
    by (simp add: sum_p_def sum_y_def sum_list_subtractf abs_divide flip: diff_divide_distrib)
  also have "\<dots> = \<bar>\<Sum>i\<leftarrow>[0..<reliability_bins]. \<Sum>s\<leftarrow>in_bin i ss. ?d s\<bar> / ?n" by (simp only: sum_bins)
  also have "\<dots> \<le> (\<Sum>i\<leftarrow>[0..<reliability_bins]. \<bar>\<Sum>s\<leftarrow>in_bin i ss. ?d s\<bar>) / ?n"
    using n by (intro divide_right_mono abs_sum_list_le) auto
  finally have low: "\<bar>sum_p ss / ?n - sum_y ss / ?n\<bar> \<le> (\<Sum>i\<leftarrow>[0..<reliability_bins]. bin_error ss i)" unfolding ece .
  have "(\<Sum>i\<leftarrow>[0..<reliability_bins]. \<bar>\<Sum>s\<leftarrow>in_bin i ss. ?d s\<bar>) \<le> (\<Sum>i\<leftarrow>[0..<reliability_bins]. \<Sum>s\<leftarrow>in_bin i ss. \<bar>?d s\<bar>)"
    by (rule sum_list_mono) (rule abs_sum_list_le)
  also have "\<dots> = (\<Sum>s\<leftarrow>ss. \<bar>?d s\<bar>)" by (rule sum_bins)
  also have "\<dots> \<le> ?n" using d by (intro sum_list_le_length)
  finally have "(\<Sum>i\<leftarrow>[0..<reliability_bins]. bin_error ss i) \<le> 1" unfolding ece using n by simp
  moreover have "0 \<le> (\<Sum>s\<leftarrow>ss. ?d s * ?d s)" by (rule sum_list_nonneg) auto
  moreover have "(\<Sum>s\<leftarrow>ss. ?d s * ?d s) \<le> ?n"
  proof (rule sum_list_le_length)
    fix s
    assume "s \<in> set ss"
    then have "\<bar>?d s\<bar> * \<bar>?d s\<bar> \<le> 1" using d [of s] by (intro mult_le_one) auto
    then show "?d s * ?d s \<le> 1" by (simp add: abs_mult_self_eq)
  qed
  ultimately show ?thesis using low ne n by (simp add: calibration_stats_def Let_def)
qed

text \<open>The report is a function of the evidence, however the store came to hold it.\<close>

lemma same_calibration:
  assumes "same_verdicts m m'" and "distinct (map vr_id (verdicts_of m (verdict_tenant_key t)))"
  shows "store_calibration shuffle pers t m = store_calibration shuffle pers t m'"
  unfolding store_calibration_def same_list [OF assms] ..

end
