(* ===== verification/Kev_Holdout.thy ===== *)
theory Kev_Holdout
  imports Normalizer Verdicts
begin

text \<open>
  Forecasts sealed before their outcome, \<open>backend/internal/kevholdout/kevholdout.go\<close>, over the
  live intelligence of \<open>backend/internal/threatintel/threatintel.go\<close>: what the engine predicted
  of a CVE that is not known to be exploited is kept for a window, then filed as a verdict.
  What a feed answers is an argument, absent when the fetch fails; so is whether the sink
  takes a verdict, the wording of its evidence, and what the file holds.
\<close>

section \<open>The live source\<close>

record live_source =
  lv_ttl :: int
  lv_kev :: "string list"
  lv_kev_at :: gotime
  lv_epss :: "(string, intel) gomap"
  lv_epss_at :: "(string, gotime) gomap"

definition new_live :: live_source where
  "new_live = \<lparr>lv_ttl = 6 * 3600 * second_ns, lv_kev = [], lv_kev_at = zero_time, lv_epss = [], lv_epss_at = []\<rparr>"

definition ensure_kev :: "gotime \<Rightarrow> string list option \<Rightarrow> live_source \<Rightarrow> live_source" where
  "ensure_kev now answer l =
     (if lv_kev l \<noteq> [] \<and> now - lv_kev_at l < lv_ttl l then l
      else (case answer of None \<Rightarrow> l | Some cves \<Rightarrow> l\<lparr>lv_kev := remdups cves, lv_kev_at := now\<rparr>))"

definition epss_batch_size :: nat where "epss_batch_size = 100"

function chunks :: "'a list \<Rightarrow> nat \<Rightarrow> 'a list list" where
  "chunks s n = (if s = [] \<or> n = 0 then [] else take n s # chunks (drop n s) n)"
  by pat_completeness auto
termination by (relation "measure (length \<circ> fst)") auto

declare chunks.simps [simp del]

definition epss_needed :: "gotime \<Rightarrow> string list \<Rightarrow> live_source \<Rightarrow> string list" where
  "epss_needed now cves l =
     filter (\<lambda>c. case map_of (lv_epss_at l) c of None \<Rightarrow> True | Some t \<Rightarrow> now - t \<ge> lv_ttl l) cves"

text \<open>\<open>ensureEPSS\<close>: a CVE is marked as asked for even when the answer lacks it or fails.\<close>

definition ensure_epss :: "gotime \<Rightarrow> (string list \<Rightarrow> (string, intel) gomap option) \<Rightarrow> string list \<Rightarrow> live_source \<Rightarrow> live_source" where
  "ensure_epss now answer cves l =
     (let need = epss_needed now cves l;
          got = concat (rev (List.map_filter answer (chunks need epss_batch_size)))
      in fold (\<lambda>c l. (case map_of got c of None \<Rightarrow> l | Some v \<Rightarrow> l\<lparr>lv_epss := AList.update c v (lv_epss l)\<rparr>)
                      \<lparr>lv_epss_at := AList.update c now (lv_epss_at l)\<rparr>) need l)"

definition live_intel :: "live_source \<Rightarrow> string \<Rightarrow> intel" where
  "live_intel l c =
     (case map_of (lv_epss l) c of
        Some e \<Rightarrow> \<lparr>in_epss = in_epss e, in_percentile = in_percentile e, in_kev = c \<in> set (lv_kev l)\<rparr>
      | None \<Rightarrow> \<lparr>in_epss = 0, in_percentile = 0, in_kev = c \<in> set (lv_kev l)\<rparr>)"

definition live_scores ::
  "gotime \<Rightarrow> string list option \<Rightarrow> (string list \<Rightarrow> (string, intel) gomap option) \<Rightarrow> string list \<Rightarrow> live_source \<Rightarrow> (string, intel) gomap \<times> live_source" where
  "live_scores now kev epss cves l =
     (if cves = [] then ([], l)
      else (let l = ensure_epss now epss cves (ensure_kev now kev l)
            in (fold (\<lambda>c m. let i = live_intel l c in if in_kev i \<or> in_epss i > 0 then AList.update c i m else m) cves [], l)))"

section \<open>The store of forecasts\<close>

record forecast =
  fc_cve :: string
  fc_predicted :: real
  fc_epss :: real
  fc_basis :: string
  fc_sealed :: gotime
  fc_tenant :: string

definition forecast_due :: "gotime \<Rightarrow> int \<Rightarrow> forecast \<Rightarrow> bool" where
  "forecast_due now window f \<longleftrightarrow> \<not> now < fc_sealed f + window"

definition forecast_key :: "string \<Rightarrow> string \<Rightarrow> string" where
  "forecast_key tenant cve = tenant @ [CHR 0x00] @ cve"

type_synonym holdout = "(string, forecast) gomap"

definition holdout_open :: "forecast list \<Rightarrow> holdout" where
  "holdout_open rows = fold (\<lambda>f m. AList.update (forecast_key (fc_tenant f) (fc_cve f)) f m) rows []"

definition holdout_pending :: "holdout \<Rightarrow> forecast list" where
  "holdout_pending m = sort_by (\<lambda>a b. fc_sealed a < fc_sealed b) (map snd m)"

definition holdout_seal :: "forecast \<Rightarrow> holdout \<Rightarrow> bool \<times> holdout" where
  "holdout_seal f m =
     (let k = forecast_key (fc_tenant f) (fc_cve f) in if gm_has m k then (False, m) else (True, AList.update k f m))"

definition holdout_drop :: "string \<Rightarrow> string \<Rightarrow> holdout \<Rightarrow> holdout" where
  "holdout_drop tenant cve m = AList.delete (forecast_key tenant cve) m"

text \<open>The rows \<open>flush\<close> writes.\<close>

definition holdout_rows :: "holdout \<Rightarrow> forecast list" where
  "holdout_rows m = sort_by (\<lambda>a b. str_less (fc_cve a) (fc_cve b)) (map snd m)"

section \<open>A pass\<close>

record run_result =
  rr_sealed :: nat
  rr_graded :: nat
  rr_exploited :: nat

definition dedupe :: "string list \<Rightarrow> string list" where
  "dedupe xs = rev (remdups (rev (filter (\<lambda>v. v \<noteq> []) xs)))"

text \<open>What a pass is given: the clock, the tenant and its CVEs, the intelligence and the sink.\<close>

record holdout_pass =
  hp_now :: gotime
  hp_tenant :: string
  hp_cves :: "string list"
  hp_scores :: "string list \<Rightarrow> (string, intel) gomap"
  hp_takes :: "string \<Rightarrow> bool"

definition default_window :: int where "default_window = 30 * 24 * 3600 * second_ns"

definition window_or_default :: "int \<Rightarrow> int" where
  "window_or_default w = (if w \<le> 0 then default_window else w)"

definition forecasts_due :: "int \<Rightarrow> holdout_pass \<Rightarrow> holdout \<Rightarrow> forecast list" where
  "forecasts_due window pa m = filter (\<lambda>f. fc_tenant f = hp_tenant pa \<and> forecast_due (hp_now pa) window f) (holdout_pending m)"

definition kev_now :: "(string, intel) gomap \<Rightarrow> string \<Rightarrow> bool" where
  "kev_now scores c = (case map_of scores c of Some i \<Rightarrow> in_kev i | None \<Rightarrow> False)"

definition holdout_verdict :: "(forecast \<Rightarrow> bool \<Rightarrow> string) \<Rightarrow> holdout_pass \<Rightarrow> (string, intel) gomap \<Rightarrow> forecast \<Rightarrow> verdict_record" where
  "holdout_verdict wording pa scores f =
     \<lparr>vr_id = [], vr_path = [], vr_tenant = hp_tenant pa, vr_outcome = (if kev_now scores (fc_cve f) then confirmed else refuted),
      vr_source = ''kev-holdout'', vr_evidence = wording f (kev_now scores (fc_cve f)), vr_route = fc_cve f, vr_tested = hp_now pa,
      vr_score = fc_predicted f, vr_scope = scope_edge, vr_compromise = 0, vr_hops = 0, vr_correlated = False,
      vr_basis = fc_basis f, vr_detected = None, vr_priority = None\<rparr>"

definition grade_one ::
  "(forecast \<Rightarrow> bool \<Rightarrow> string) \<Rightarrow> holdout_pass \<Rightarrow> (string, intel) gomap \<Rightarrow> forecast \<Rightarrow>
     run_result \<times> verdict_record list \<times> holdout \<Rightarrow> run_result \<times> verdict_record list \<times> holdout" where
  "grade_one wording pa scores f = (\<lambda>(res, filed, m).
     (let res = (if kev_now scores (fc_cve f) then res\<lparr>rr_exploited := rr_exploited res + 1\<rparr> else res)
      in if hp_takes pa (fc_cve f)
         then (res\<lparr>rr_graded := rr_graded res + 1\<rparr>, filed @ [holdout_verdict wording pa scores f], holdout_drop (hp_tenant pa) (fc_cve f) m)
         else (res, filed, m)))"

definition seal_one :: "real \<Rightarrow> holdout_pass \<Rightarrow> (string, intel) gomap \<Rightarrow> string \<Rightarrow> run_result \<times> holdout \<Rightarrow> run_result \<times> holdout" where
  "seal_one g pa scores c = (\<lambda>(res, m).
     (case map_of scores c of
        None \<Rightarrow> (res, m)
      | Some i \<Rightarrow>
          if in_kev i then (res, m)
          else if in_epss i \<le> 0 then (res, m)
          else (let (ok, m) = holdout_seal \<lparr>fc_cve = c, fc_predicted = edge_probability g i 0, fc_epss = in_epss i,
                                  fc_basis = intel_basis i, fc_sealed = hp_now pa, fc_tenant = hp_tenant pa\<rparr> m
                in (if ok then res\<lparr>rr_sealed := rr_sealed res + 1\<rparr> else res, m))))"

definition holdout_run ::
  "(forecast \<Rightarrow> bool \<Rightarrow> string) \<Rightarrow> real \<Rightarrow> int \<Rightarrow> holdout_pass \<Rightarrow> holdout \<Rightarrow> run_result \<times> verdict_record list \<times> holdout" where
  "holdout_run wording g window pa m =
     (let zero = \<lparr>rr_sealed = 0, rr_graded = 0, rr_exploited = 0\<rparr>
      in if hp_cves pa = [] then (zero, [], m)
         else (let due = forecasts_due window pa m;
                   scores = hp_scores pa (dedupe (hp_cves pa @ map fc_cve due));
                   (res, filed, m) = fold (grade_one wording pa scores) due (zero, [], m);
                   (res, m) = fold (seal_one g pa scores) (hp_cves pa) (res, m)
               in (res, filed, m)))"

end
