(* ===== verification/Holdout_Laws.thy ===== *)
theory Holdout_Laws
  imports Kev_Holdout
begin

text \<open>
  What makes a graded forecast a forecast: it was sealed at least a window before, by a pass
  that did not find the vulnerability among those exploited, with the engine's probability of
  that day, and the windows of one vulnerability do not overlap. And where it is not: a feed
  that never answered counts as one that says no.
\<close>

section \<open>Passes\<close>

text \<open>A pass with the scores it looked up, and what it filed.\<close>

fun holdout_after :: "(forecast \<Rightarrow> bool \<Rightarrow> string) \<Rightarrow> real \<Rightarrow> int \<Rightarrow> holdout_pass list \<Rightarrow> holdout \<Rightarrow> holdout" where
  "holdout_after wording g w [] m = m"
| "holdout_after wording g w (pa # ps) m = holdout_after wording g w ps (snd (snd (holdout_run wording g w pa m)))"

lemma holdout_after_snoc:
  "holdout_after wording g w (ps @ [pa]) m = snd (snd (holdout_run wording g w pa (holdout_after wording g w ps m)))"
  by (induction ps arbitrary: m) auto

definition filed_by :: "(forecast \<Rightarrow> bool \<Rightarrow> string) \<Rightarrow> real \<Rightarrow> int \<Rightarrow> holdout_pass list \<Rightarrow> nat \<Rightarrow> verdict_record list" where
  "filed_by wording g w ps k = fst (snd (holdout_run wording g w (ps ! k) (holdout_after wording g w (take k ps) [])))"

definition pass_scores :: "(forecast \<Rightarrow> bool \<Rightarrow> string) \<Rightarrow> real \<Rightarrow> int \<Rightarrow> holdout_pass list \<Rightarrow> nat \<Rightarrow> (string, intel) gomap" where
  "pass_scores wording g w ps k =
     hp_scores (ps ! k) (dedupe (hp_cves (ps ! k) @ map fc_cve (forecasts_due w (ps ! k) (holdout_after wording g w (take k ps) []))))"

text \<open>The pass \<open>j\<close> sealed a forecast of this vulnerability, on evidence and before the outcome.\<close>

definition sealed_by :: "(forecast \<Rightarrow> bool \<Rightarrow> string) \<Rightarrow> real \<Rightarrow> int \<Rightarrow> holdout_pass list \<Rightarrow> nat \<Rightarrow> forecast \<Rightarrow> bool" where
  "sealed_by wording g w ps j f \<longleftrightarrow>
     hp_tenant (ps ! j) = fc_tenant f \<and> fc_cve f \<in> set (hp_cves (ps ! j)) \<and> fc_sealed f = hp_now (ps ! j) \<and>
     (\<exists>i. map_of (pass_scores wording g w ps j) (fc_cve f) = Some i \<and> \<not> in_kev i \<and> in_epss i > 0 \<and>
          fc_predicted f = edge_probability g i 0 \<and> fc_epss f = in_epss i \<and> fc_basis f = ''epss'')"

definition files_on :: "string \<Rightarrow> string \<Rightarrow> verdict_record list \<Rightarrow> bool" where
  "files_on tenant cve rs \<longleftrightarrow> (\<exists>r \<in> set rs. vr_tenant r = tenant \<and> vr_route r = cve)"

text \<open>An open forecast: sealed by an earlier pass, and its vulnerability not graded since.\<close>

definition open_since :: "(forecast \<Rightarrow> bool \<Rightarrow> string) \<Rightarrow> real \<Rightarrow> int \<Rightarrow> holdout_pass list \<Rightarrow> nat \<Rightarrow> forecast \<Rightarrow> bool" where
  "open_since wording g w ps n f \<longleftrightarrow>
     (\<exists>j < n. sealed_by wording g w ps j f \<and>
        (\<forall>l. j < l \<longrightarrow> l < n \<longrightarrow> \<not> files_on (fc_tenant f) (fc_cve f) (filed_by wording g w ps l)))"

definition forecasts_ok :: "(forecast \<Rightarrow> bool) \<Rightarrow> holdout \<Rightarrow> bool" where
  "forecasts_ok P m \<longleftrightarrow> gm_ok m \<and> (\<forall>(k, f) \<in> set m. k = forecast_key (fc_tenant f) (fc_cve f) \<and> P f)"

lemma forecasts_ok_mono: "forecasts_ok P m \<Longrightarrow> (\<And>f. P f \<Longrightarrow> Q f) \<Longrightarrow> forecasts_ok Q m"
  unfolding forecasts_ok_def by blast

section \<open>Grading\<close>

lemma set_update_cases: "x \<in> set (AList.update k v m) \<Longrightarrow> x = (k, v) \<or> x \<in> set m"
  by (induction m) (auto split: if_splits)

lemma delete_filter: "AList.delete k m = filter (\<lambda>x. fst x \<noteq> k) m"
  by (auto simp: AList.delete_eq intro: filter_cong)

text \<open>
  What a pass files are the forecasts due that the sink took; those stay open whose key is
  none of theirs.
\<close>

abbreviation taken_keys :: "holdout_pass \<Rightarrow> forecast list \<Rightarrow> string set" where
  "taken_keys pa due \<equiv> {k. \<exists>f \<in> set due. hp_takes pa (fc_cve f) \<and> k = forecast_key (hp_tenant pa) (fc_cve f)}"

lemma grading:
  "fold (grade_one wording pa scores) due (res, filed, m) = (res', filed', m') \<Longrightarrow>
     filed' = filed @ map (holdout_verdict wording pa scores) (filter (\<lambda>f. hp_takes pa (fc_cve f)) due) \<and>
     m' = filter (\<lambda>x. fst x \<notin> taken_keys pa due) m"
proof (induction due arbitrary: res filed m)
  case (Cons f due)
  obtain r1 f1 m1 where one: "grade_one wording pa scores f (res, filed, m) = (r1, f1, m1)" by (metis prod_cases3)
  then have "fold (grade_one wording pa scores) due (r1, f1, m1) = (res', filed', m')" using Cons.prems by simp
  note ih = Cons.IH [OF this]
  show ?case
  proof (cases "hp_takes pa (fc_cve f)")
    case True
    then have "f1 = filed @ [holdout_verdict wording pa scores f]" "m1 = filter (\<lambda>x. fst x \<noteq> forecast_key (hp_tenant pa) (fc_cve f)) m"
      using one by (simp_all add: grade_one_def holdout_drop_def delete_filter Let_def)
    moreover have "filter (\<lambda>x. fst x \<notin> taken_keys pa due) (filter (\<lambda>x. fst x \<noteq> forecast_key (hp_tenant pa) (fc_cve f)) m) =
        filter (\<lambda>x. fst x \<notin> taken_keys pa (f # due)) m"
      unfolding filter_filter by (rule filter_cong) (use True in auto)
    ultimately show ?thesis using ih True by simp
  next
    case False
    then have "f1 = filed" "m1 = m" using one by (simp_all add: grade_one_def Let_def)
    moreover have "taken_keys pa (f # due) = taken_keys pa due" using False by auto
    ultimately show ?thesis using ih False by simp
  qed
qed auto

lemma grade_filter:
  "m' = filter (\<lambda>x. fst x \<notin> K) m \<Longrightarrow> forecasts_ok P m \<Longrightarrow> forecasts_ok (\<lambda>f. P f \<and> forecast_key (fc_tenant f) (fc_cve f) \<notin> K) m'"
  unfolding forecasts_ok_def by (auto simp: gm_ok_def distinct_map_filter)

section \<open>Sealing\<close>

lemma sealing:
  assumes "fold (seal_one g pa scores) cs (res, m) = (res', m')" and "forecasts_ok P m" and "set cs \<subseteq> set (hp_cves pa)"
    and "\<And>f i. map_of scores (fc_cve f) = Some i \<Longrightarrow> \<not> in_kev i \<Longrightarrow> in_epss i > 0 \<Longrightarrow> fc_cve f \<in> set (hp_cves pa) \<Longrightarrow>
           f = \<lparr>fc_cve = fc_cve f, fc_predicted = edge_probability g i 0, fc_epss = in_epss i, fc_basis = ''epss'',
                fc_sealed = hp_now pa, fc_tenant = hp_tenant pa\<rparr> \<Longrightarrow> P f"
  shows "forecasts_ok P m'"
  using assms(1-3)
proof (induction cs arbitrary: res m)
  case (Cons c cs)
  obtain r1 m1 where one: "seal_one g pa scores c (res, m) = (r1, m1)" by (metis surj_pair)
  have "forecasts_ok P m1"
  proof (cases "m1 = m")
    case False
    then obtain i where i: "map_of scores c = Some i" "\<not> in_kev i" "in_epss i > 0"
      using one by (auto simp: seal_one_def split: option.splits if_splits)
    let ?f = "\<lparr>fc_cve = c, fc_predicted = edge_probability g i 0, fc_epss = in_epss i, fc_basis = ''epss'', fc_sealed = hp_now pa, fc_tenant = hp_tenant pa\<rparr>"
    have b: "intel_basis i = ''epss''" using i by (simp add: intel_basis_def)
    have m1: "m1 = AList.update (forecast_key (hp_tenant pa) c) ?f m"
      using one i b False by (auto simp: seal_one_def holdout_seal_def Let_def split: if_splits)
    have "P ?f" using assms(4) [of ?f i] i Cons.prems(3) by simp
    then show ?thesis using Cons.prems(2) unfolding m1 forecasts_ok_def by (auto dest!: set_update_cases)
  qed (use Cons.prems in simp)
  then show ?case using Cons.IH [of r1 m1] Cons.prems one by simp
qed simp

section \<open>The invariant\<close>

lemma due_open: "forecasts_ok P m \<Longrightarrow> f \<in> set (forecasts_due w pa m) \<Longrightarrow>
   P f \<and> fc_tenant f = hp_tenant pa \<and> fc_sealed f + w \<le> hp_now pa"
  by (auto simp: forecasts_due_def holdout_pending_def forecasts_ok_def forecast_due_def)

lemma take_nth_snoc: "n < length ps \<Longrightarrow> take (Suc n) ps = take n ps @ [ps ! n]"
  by (rule take_Suc_conv_app_nth)

lemma forecasts_invariant:
  "n \<le> length ps \<Longrightarrow> forecasts_ok (open_since wording g w ps n) (holdout_after wording g w (take n ps) [])"
proof (induction n)
  case 0
  then show ?case by (simp add: forecasts_ok_def)
next
  case (Suc n)
  define pa where "pa = ps ! n"
  define m where "m = holdout_after wording g w (take n ps) []"
  define due where "due = forecasts_due w pa m"
  define scores where "scores = hp_scores pa (dedupe (hp_cves pa @ map fc_cve due))"
  have ok: "forecasts_ok (open_since wording g w ps n) m" using Suc by (simp add: m_def)
  have after: "holdout_after wording g w (take (Suc n) ps) [] = snd (snd (holdout_run wording g w pa m))"
    using Suc.prems by (simp add: take_nth_snoc holdout_after_snoc pa_def m_def)
  have keep: "open_since wording g w ps (Suc n) f"
    if "open_since wording g w ps n f" "\<not> files_on (fc_tenant f) (fc_cve f) (filed_by wording g w ps n)" for f
    using that unfolding open_since_def by (metis less_SucE less_SucI)
  show ?case
  proof (cases "hp_cves pa = []")
    case True
    then have "filed_by wording g w ps n = []" by (simp add: filed_by_def holdout_run_def pa_def)
    then have "\<And>f. open_since wording g w ps n f \<Longrightarrow> open_since wording g w ps (Suc n) f" using keep by (simp add: files_on_def)
    then show ?thesis using ok True forecasts_ok_mono unfolding after by (auto simp: holdout_run_def)
  next
    case False
    obtain r1 filed m1 where gr: "fold (grade_one wording pa scores) due (\<lparr>rr_sealed = 0, rr_graded = 0, rr_exploited = 0\<rparr>, [], m) = (r1, filed, m1)"
      by (metis prod_cases3)
    obtain r2 m2 where se: "fold (seal_one g pa scores) (hp_cves pa) (r1, m1) = (r2, m2)" by (metis surj_pair)
    have run: "holdout_run wording g w pa m = (r2, filed, m2)"
      using False gr se by (simp add: holdout_run_def Let_def due_def scores_def)
    have byn: "filed_by wording g w ps n = filed" using run by (simp add: filed_by_def pa_def m_def)
    have sc: "pass_scores wording g w ps n = scores" by (simp add: pass_scores_def scores_def due_def pa_def m_def)
    let ?K = "taken_keys pa due"
    note graded = grading [OF gr]
    have "forecasts_ok (\<lambda>f. open_since wording g w ps n f \<and> forecast_key (fc_tenant f) (fc_cve f) \<notin> ?K) m1"
      using grade_filter [OF _ ok, of m1 ?K] graded by simp
    moreover have "open_since wording g w ps (Suc n) f"
      if "open_since wording g w ps n f \<and> forecast_key (fc_tenant f) (fc_cve f) \<notin> ?K" for f
    proof (rule keep)
      show "\<not> files_on (fc_tenant f) (fc_cve f) (filed_by wording g w ps n)"
      proof
        assume "files_on (fc_tenant f) (fc_cve f) (filed_by wording g w ps n)"
        then obtain h where h: "h \<in> set due" "hp_takes pa (fc_cve h)" "fc_tenant f = hp_tenant pa" "fc_cve h = fc_cve f"
          using graded unfolding byn files_on_def by (auto simp: holdout_verdict_def)
        then have "forecast_key (fc_tenant f) (fc_cve f) \<in> ?K"
          unfolding mem_Collect_eq by (intro bexI [of _ h]) simp_all
        then show False using that by blast
      qed
    qed (use that in simp)
    ultimately have base: "forecasts_ok (open_since wording g w ps (Suc n)) m1" by (rule forecasts_ok_mono)
    have "forecasts_ok (open_since wording g w ps (Suc n)) m2"
    proof (rule sealing [OF se base subset_refl])
      fix f i
      assume f: "map_of scores (fc_cve f) = Some i" "\<not> in_kev i" "in_epss i > 0" "fc_cve f \<in> set (hp_cves pa)"
        "f = \<lparr>fc_cve = fc_cve f, fc_predicted = edge_probability g i 0, fc_epss = in_epss i, fc_basis = ''epss'', fc_sealed = hp_now pa, fc_tenant = hp_tenant pa\<rparr>"
      have s: "fc_sealed f = hp_now pa" "fc_tenant f = hp_tenant pa" "fc_predicted f = edge_probability g i 0" "fc_epss f = in_epss i" "fc_basis f = ''epss''"
        by (subst f(5), simp)+
      have "sealed_by wording g w ps n f" unfolding sealed_by_def sc pa_def [symmetric] using f(1-4) s by simp
      then show "open_since wording g w ps (Suc n) f" unfolding open_since_def by (intro exI [of _ n]) auto
    qed
    then show ?thesis unfolding after run by simp
  qed
qed

lemma forecast_filed:
  assumes "k < length ps" and "r \<in> set (filed_by wording g w ps k)"
  shows "\<exists>j < k. \<exists>f. sealed_by wording g w ps j f \<and> fc_cve f = vr_route r \<and> fc_tenant f = vr_tenant r \<and>
      vr_score r = fc_predicted f \<and> vr_basis r = ''epss'' \<and> hp_now (ps ! j) + w \<le> hp_now (ps ! k) \<and>
      vr_outcome r = (if kev_now (pass_scores wording g w ps k) (vr_route r) then confirmed else refuted) \<and>
      (\<forall>l. j < l \<longrightarrow> l < k \<longrightarrow> \<not> files_on (vr_tenant r) (vr_route r) (filed_by wording g w ps l))"
proof -
  define m where "m = holdout_after wording g w (take k ps) []"
  define pa where "pa = ps ! k"
  define due where "due = forecasts_due w pa m"
  have sc: "pass_scores wording g w ps k = hp_scores pa (dedupe (hp_cves pa @ map fc_cve due))"
    by (simp add: pass_scores_def due_def pa_def m_def)
  have ok: "forecasts_ok (open_since wording g w ps k) m" using forecasts_invariant [of k ps] assms(1) by (simp add: m_def)
  have ne: "hp_cves pa \<noteq> []" using assms(2) by (auto simp: filed_by_def holdout_run_def pa_def)
  obtain r1 filed m1 where gr: "fold (grade_one wording pa (pass_scores wording g w ps k)) due (\<lparr>rr_sealed = 0, rr_graded = 0, rr_exploited = 0\<rparr>, [], m) = (r1, filed, m1)"
    by (metis prod_cases3)
  have "filed_by wording g w ps k = filed"
    using ne gr by (auto simp: filed_by_def holdout_run_def Let_def sc due_def pa_def m_def split: prod.split)
  then obtain f where f: "f \<in> set due" "r = holdout_verdict wording pa (pass_scores wording g w ps k) f"
    using grading [OF gr] assms(2) by auto
  have d: "open_since wording g w ps k f" "fc_tenant f = hp_tenant pa" "fc_sealed f + w \<le> hp_now pa"
    using due_open [OF ok] f(1) unfolding due_def by auto
  from d(1) obtain j where j: "j < k" "sealed_by wording g w ps j f"
    "\<forall>l. j < l \<longrightarrow> l < k \<longrightarrow> \<not> files_on (fc_tenant f) (fc_cve f) (filed_by wording g w ps l)" unfolding open_since_def by blast
  have "fc_sealed f = hp_now (ps ! j)" "fc_basis f = ''epss''" using j(2) by (auto simp: sealed_by_def)
  moreover have "vr_route r = fc_cve f" "vr_tenant r = fc_tenant f" "vr_score r = fc_predicted f" "vr_basis r = fc_basis f"
    "vr_outcome r = (if kev_now (pass_scores wording g w ps k) (fc_cve f) then confirmed else refuted)"
    using f(2) d(2) by (simp_all add: holdout_verdict_def)
  ultimately show ?thesis using j d(3) unfolding pa_def by (intro exI [of _ j] conjI exI [of _ f]) simp_all
qed

text \<open>
  C38. A forecast the holdout files was sealed by an earlier pass of the same tenant, at least a
  window before, with the probability the engine gave that day to a vulnerability with
  evidence and not yet among the exploited; it is filed as confirmed exactly when the grading
  pass finds it among them; and no other forecast of the vulnerability was filed in between.
\<close>

theorem forecast_before_outcome:
  assumes "k < length ps" and "r \<in> set (filed_by wording g w ps k)"
  shows "\<exists>j < k. \<exists>f. sealed_by wording g w ps j f \<and> fc_cve f = vr_route r \<and> fc_tenant f = vr_tenant r \<and>
      vr_score r = fc_predicted f \<and> vr_basis r = ''epss'' \<and> hp_now (ps ! j) + w \<le> hp_now (ps ! k) \<and>
      vr_outcome r = (if kev_now (pass_scores wording g w ps k) (vr_route r) then confirmed else refuted) \<and>
      (\<forall>l. j < l \<longrightarrow> l < k \<longrightarrow> \<not> files_on (vr_tenant r) (vr_route r) (filed_by wording g w ps l))"
  using assms by (rule forecast_filed)

section \<open>Examples\<close>

definition day_ns :: int where "day_ns = 24 * 3600 * second_ns"

definition holdout_look :: "gotime \<Rightarrow> string list \<Rightarrow> (string, intel) gomap \<Rightarrow> holdout_pass" where
  "holdout_look now cves scores =
     \<lparr>hp_now = now, hp_tenant = ''acme'', hp_cves = cves, hp_scores = (\<lambda>_. scores), hp_takes = (\<lambda>_. True)\<rparr>"

definition likely :: intel where "likely = \<lparr>in_epss = 1 / 2, in_percentile = 9 / 10, in_kev = False\<rparr>"

definition two_looks :: "holdout_pass list" where
  "two_looks = [holdout_look 0 [''CVE-1''] [(''CVE-1'', likely)], holdout_look (31 * day_ns) [''CVE-1''] [(''CVE-1'', likely\<lparr>in_kev := True\<rparr>)]]"

lemma two_looks_filed:
  "filed_by (\<lambda>_ _. []) 1 default_window two_looks 1 =
     [holdout_verdict (\<lambda>_ _. []) (two_looks ! 1) [(''CVE-1'', likely\<lparr>in_kev := True\<rparr>)]
        \<lparr>fc_cve = ''CVE-1'', fc_predicted = edge_probability 1 likely 0, fc_epss = 1 / 2, fc_basis = ''epss'', fc_sealed = 0, fc_tenant = ''acme''\<rparr>]"
  by (simp add: filed_by_def two_looks_def holdout_look_def holdout_run_def Let_def forecasts_due_def holdout_pending_def
      seal_one_def holdout_seal_def likely_def intel_basis_def gm_has_def grade_one_def forecast_due_def default_window_def
      day_ns_def second_ns_def)

theorem forecast_before_outcome_witness:
  "hp_now (two_looks ! 0) + default_window \<le> hp_now (two_looks ! 1) \<and>
   (\<exists>f. sealed_by (\<lambda>_ _. []) 1 default_window two_looks 0 f \<and> fc_cve f = ''CVE-1'')"
proof -
  have "1 < length two_looks" by (simp add: two_looks_def)
  moreover have "holdout_verdict (\<lambda>_ _. []) (two_looks ! 1) [(''CVE-1'', likely\<lparr>in_kev := True\<rparr>)]
      \<lparr>fc_cve = ''CVE-1'', fc_predicted = edge_probability 1 likely 0, fc_epss = 1 / 2, fc_basis = ''epss'', fc_sealed = 0, fc_tenant = ''acme''\<rparr>
    \<in> set (filed_by (\<lambda>_ _. []) 1 default_window two_looks 1)" unfolding two_looks_filed by simp
  ultimately show ?thesis using forecast_before_outcome [of 1 two_looks] by (fastforce simp: holdout_verdict_def)
qed

section \<open>A feed that never answered\<close>

text \<open>
  When the feed of exploited vulnerabilities has not been read since the start, the live
  source knows of none, and says so: a forecast that comes due is filed as refuted, and
  dropped, whatever became of the vulnerability.
\<close>

lemma outage_says_no: "in_kev (live_intel (ensure_epss now epss cves (ensure_kev now None new_live)) c) = False"
proof -
  have fold: "lv_kev (fold (\<lambda>c l. (case map_of got c of None \<Rightarrow> l | Some v \<Rightarrow> l\<lparr>lv_epss := AList.update c v (lv_epss l)\<rparr>)
                      \<lparr>lv_epss_at := AList.update c now (lv_epss_at l)\<rparr>) need l) = lv_kev l" for got need l
    by (induction need arbitrary: l) (auto split: option.split)
  show ?thesis unfolding ensure_epss_def live_intel_def Let_def
    by (simp add: fold ensure_kev_def new_live_def split: option.split)
qed

lemma outage_scores: "\<not> kev_now (fst (live_scores now None epss cves new_live)) c"
proof -
  let ?l = "ensure_epss now epss cves (ensure_kev now None new_live)"
  let ?put = "\<lambda>c m. let i = live_intel ?l c in if in_kev i \<or> in_epss i > 0 then AList.update c i m else m"
  have put: "\<not> kev_now m d \<Longrightarrow> \<not> kev_now (?put c m) d" for c m d
    using outage_says_no [of now epss cves c] by (simp add: kev_now_def map_of_update Let_def)
  have "\<not> kev_now m d \<Longrightarrow> \<not> kev_now (fold ?put cs m) d" for cs m d
  proof (induction cs arbitrary: m)
    case (Cons c cs)
    show ?case unfolding fold_Cons comp_apply by (rule Cons.IH, rule put, rule Cons.prems)
  qed simp
  from this [of "[]" c cves] show ?thesis unfolding live_scores_def Let_def [of ?l] by (simp add: kev_now_def)
qed

lemma outage_refutes:
  assumes "k < length ps" and "\<And>cves. hp_scores (ps ! k) cves = fst (live_scores (hp_now (ps ! k)) None epss cves new_live)"
  shows "\<forall>r \<in> set (filed_by wording g w ps k). vr_outcome r = refuted"
proof
  fix r
  assume "r \<in> set (filed_by wording g w ps k)"
  from forecast_filed [OF assms(1) this]
  show "vr_outcome r = refuted" using outage_scores assms(2) by (auto simp: pass_scores_def)
qed

text \<open>A forecast the sink refuses counts among the exploited, and not among the graded it is said to be one of.\<close>

lemma exploited_not_graded:
  "let pa = (holdout_look (31 * day_ns) [''CVE-1''] [(''CVE-1'', likely\<lparr>in_kev := True\<rparr>)])\<lparr>hp_takes := (\<lambda>_. False)\<rparr>;
       res = fst (holdout_run (\<lambda>_ _. []) 1 default_window pa (holdout_after (\<lambda>_ _. []) 1 default_window (take 1 two_looks) []))
   in rr_graded res = 0 \<and> rr_exploited res = 1"
  by (simp add: two_looks_def holdout_look_def holdout_run_def Let_def forecasts_due_def holdout_pending_def
      seal_one_def holdout_seal_def likely_def intel_basis_def gm_has_def grade_one_def forecast_due_def default_window_def
      day_ns_def second_ns_def kev_now_def)

end
