(* ===== verification/Client_Ip.thy ===== *)
theory Client_Ip
  imports Sha256
begin

text \<open>
  Which address a per-address control keys on, \<open>backend/internal/clientip/clientip.go\<close>, with
  the parsing, matching and printing of addresses by \<open>net/netip\<close> and \<open>net\<close> it rests on: an
  address is its bytes, and an IPv6 address its zone.
\<close>

section \<open>Addresses\<close>

datatype net_addr = V4 "int list" | V6 "int list" string

text \<open>Four decimal fields without leading zeros.\<close>

definition parse_octet :: "string \<Rightarrow> int option" where
  "parse_octet f =
     (case digits_val 0 f of
        Some v \<Rightarrow> if f \<noteq> [] \<and> v \<le> 255 \<and> (length f = 1 \<or> hd f \<noteq> CHR ''0'') then Some v else None
      | None \<Rightarrow> None)"

definition parse_v4 :: "string \<Rightarrow> int list option" where
  "parse_v4 s =
     (let fs = map parse_octet (split_on (CHR ''.'') s)
      in if length fs = 4 \<and> list_all (\<lambda>f. f \<noteq> None) fs then Some (map the fs) else None)"

definition is_hex :: "char \<Rightarrow> bool" where
  "is_hex c \<longleftrightarrow> hex_value c \<noteq> None"

definition hex_num :: "string \<Rightarrow> int" where
  "hex_num s = fold (\<lambda>c n. 16 * n + int (the (hex_value c))) s 0"

text \<open>
  The groups of an IPv6 address: the bytes read, where the ellipsis was, and what is left.
\<close>

function v6_groups :: "int list \<Rightarrow> nat option \<Rightarrow> string \<Rightarrow> (int list \<times> nat option \<times> string) option" where
  "v6_groups bs ell s =
     (if length bs \<ge> 16 then Some (bs, ell, s)
      else (let h = takeWhile is_hex s; rest = dropWhile is_hex s; v = hex_num h; bs' = bs @ [v div 256, v mod 256]
            in if h = [] \<or> length h > 4 then None
               else (case rest of
                       [] \<Rightarrow> Some (bs', ell, [])
                     | c # t \<Rightarrow>
                         if c = CHR ''.'' then
                           (if ell = None \<and> length bs \<noteq> 12 then None
                            else if length bs + 4 > 16 then None
                            else map_option (\<lambda>b. (bs @ b, ell, [])) (parse_v4 s))
                         else if c \<noteq> CHR '':'' then None
                         else (case t of
                                 [] \<Rightarrow> None
                               | d # u \<Rightarrow>
                                   if d \<noteq> CHR '':'' then v6_groups bs' ell t
                                   else if ell \<noteq> None then None
                                   else if u = [] then Some (bs', Some (length bs'), [])
                                   else v6_groups bs' (Some (length bs')) u))))"
  by pat_completeness auto
termination
proof (relation "measure (\<lambda>(bs, ell, s). length s)", goal_cases)
  case (2 bs ell s h rest v bs' c t d u)
  then show ?case using length_dropWhile_le [of is_hex s] by (cases "dropWhile is_hex s") simp_all
next
  case (3 bs ell s h rest v bs' c t d u)
  then show ?case using length_dropWhile_le [of is_hex s] by (cases "dropWhile is_hex s") simp_all
qed simp

declare v6_groups.simps [simp del]

definition parse_v6 :: "string \<Rightarrow> net_addr option" where
  "parse_v6 s0 =
     (let (s, zone, bad) = (case str_cut s0 ''%'' of Some (s, z) \<Rightarrow> (s, z, z = []) | None \<Rightarrow> (s0, [], False));
          lead = prefix ''::'' s; body = (if lead then drop 2 s else s)
      in if bad then None
         else if lead \<and> body = [] then Some (V6 (replicate 16 0) zone)
         else (case v6_groups [] (if lead then Some 0 else None) body of
                 None \<Rightarrow> None
               | Some (bs, ell, rest) \<Rightarrow>
                   if rest \<noteq> [] then None
                   else (case ell of
                           None \<Rightarrow> if length bs < 16 then None else Some (V6 bs zone)
                         | Some k \<Rightarrow> if length bs < 16 then Some (V6 (take k bs @ replicate (16 - length bs) 0 @ drop k bs) zone)
                                     else None)))"

text \<open>\<open>netip.ParseAddr\<close>: the first of the separators tells the family.\<close>

definition parse_addr :: "string \<Rightarrow> net_addr option" where
  "parse_addr s =
     (case find (\<lambda>c. c = CHR ''.'' \<or> c = CHR '':'' \<or> c = CHR ''%'') s of
        None \<Rightarrow> None
      | Some c \<Rightarrow> if c = CHR ''.'' then map_option V4 (parse_v4 s)
                  else if c = CHR '':'' then parse_v6 s else None)"

definition mapped_v4 :: "int list \<Rightarrow> bool" where
  "mapped_v4 bs \<longleftrightarrow> take 12 bs = replicate 10 0 @ [255, 255]"

definition unmap :: "net_addr \<Rightarrow> net_addr" where
  "unmap a = (case a of V6 bs z \<Rightarrow> if mapped_v4 bs then V4 (drop 12 bs) else a | V4 _ \<Rightarrow> a)"

definition dotted :: "int list \<Rightarrow> string" where
  "dotted bs = str_join (map int_dec bs) ''.''"

function to_hex :: "int \<Rightarrow> string" where
  "to_hex n = (if n < 16 then [hex_digit (nat n)] else to_hex (n div 16) @ [hex_digit (nat (n mod 16))])"
  by pat_completeness auto
termination by (relation "measure nat") auto

declare to_hex.simps [simp del]

definition v6_words :: "int list \<Rightarrow> int list" where
  "v6_words bs = map (\<lambda>i. 256 * (bs ! (2 * i)) + bs ! (2 * i + 1)) [0..<8]"

text \<open>The first longest run of at least two zero groups.\<close>

definition zero_run :: "int list \<Rightarrow> nat \<times> nat" where
  "zero_run ws =
     fold (\<lambda>i (s, e). let l = length (takeWhile (\<lambda>w. w = 0) (drop i ws)) in if l \<ge> 2 \<and> l > e - s then (i, i + l) else (s, e))
       [0..<8] (255, 255)"

definition v6_text :: "int list \<Rightarrow> string" where
  "v6_text bs =
     (let ws = v6_words bs; (s, e) = zero_run ws
      in if s = 255 then str_join (map to_hex ws) '':''
         else str_join (map to_hex (take s ws)) '':'' @ ''::'' @ str_join (map to_hex (drop e ws)) '':'')"

definition addr_text :: "net_addr \<Rightarrow> string" where
  "addr_text a =
     (case a of
        V4 bs \<Rightarrow> dotted bs
      | V6 bs z \<Rightarrow> (if mapped_v4 bs then ''::ffff:'' @ dotted (drop 12 bs) else v6_text bs) @ (if z \<noteq> [] then ''%'' @ z else []))"

section \<open>Prefixes\<close>

record net_prefix =
  px_addr :: net_addr
  px_bits :: nat

definition bytes_num :: "int list \<Rightarrow> int" where
  "bytes_num bs = fold (\<lambda>b n. 256 * n + b) bs 0"

definition prefix_contains :: "net_prefix \<Rightarrow> net_addr \<Rightarrow> bool" where
  "prefix_contains p a =
     (case (px_addr p, a) of
        (V4 bs, V4 cs) \<Rightarrow> bytes_num bs div 2 ^ (32 - px_bits p) = bytes_num cs div 2 ^ (32 - px_bits p)
      | (V6 bs _, V6 cs z) \<Rightarrow> z = [] \<and> bytes_num bs div 2 ^ (128 - px_bits p) = bytes_num cs div 2 ^ (128 - px_bits p)
      | _ \<Rightarrow> False)"

definition addr_bits :: "net_addr \<Rightarrow> nat" where
  "addr_bits a = (case a of V4 _ \<Rightarrow> 32 | V6 _ _ \<Rightarrow> 128)"

definition str_cut_last :: "char \<Rightarrow> string \<Rightarrow> (string \<times> string) option" where
  "str_cut_last c s =
     (if c \<in> set s
      then Some (rev (tl (dropWhile (\<lambda>d. d \<noteq> c) (rev s))), rev (takeWhile (\<lambda>d. d \<noteq> c) (rev s))) else None)"

text \<open>\<open>netip.ParsePrefix\<close>: no zone, and no sign or leading zero before the length.\<close>

definition parse_prefix :: "string \<Rightarrow> net_prefix option" where
  "parse_prefix s =
     (case str_cut_last (CHR ''/'') s of
        None \<Rightarrow> None
      | Some (ip, bits) \<Rightarrow>
          (case parse_addr ip of
             None \<Rightarrow> None
           | Some a \<Rightarrow>
               if (case a of V6 _ z \<Rightarrow> z \<noteq> [] | V4 _ \<Rightarrow> False) then None
               else if length bits > 1 \<and> \<not> (49 \<le> (of_char (hd bits) :: nat) \<and> (of_char (hd bits) :: nat) \<le> 57) then None
               else (case atoi bits of
                       None \<Rightarrow> None
                     | Some n \<Rightarrow> if n < 0 \<or> n > int (addr_bits a) then None else Some \<lparr>px_addr = a, px_bits = nat n\<rparr>)))"

definition without_zone :: "net_addr \<Rightarrow> net_addr" where
  "without_zone a = (case a of V6 bs _ \<Rightarrow> V6 bs [] | V4 _ \<Rightarrow> a)"

section \<open>The resolver\<close>

type_synonym resolver = "net_prefix list"

text \<open>\<open>New\<close>: the trusted ranges, or the entry that is neither a range nor an address.\<close>

fun new_resolver :: "string list \<Rightarrow> string + resolver" where
  "new_resolver [] = Inr []"
| "new_resolver (raw # cidrs) =
     (let s = trim_space raw
      in if s = [] then new_resolver cidrs
         else (case parse_prefix s of
                 Some p \<Rightarrow> map_sum id (\<lambda>r. p # r) (new_resolver cidrs)
               | None \<Rightarrow>
                   (case parse_addr s of
                      None \<Rightarrow> Inl s
                    | Some a \<Rightarrow> map_sum id (\<lambda>r. \<lparr>px_addr = without_zone a, px_bits = addr_bits a\<rparr> # r) (new_resolver cidrs))))"

definition trusts_any :: "resolver option \<Rightarrow> bool" where
  "trusts_any r = (case r of Some ps \<Rightarrow> ps \<noteq> [] | None \<Rightarrow> False)"

definition is_trusted :: "resolver \<Rightarrow> net_addr \<Rightarrow> bool" where
  "is_trusted r a \<longleftrightarrow> list_ex (\<lambda>p. prefix_contains p (unmap a)) r"

text \<open>\<open>net.SplitHostPort\<close>, its host: brackets surround one that contains colons.\<close>

definition split_host :: "string \<Rightarrow> string option" where
  "split_host s =
     (case str_cut_last (CHR '':'') s of
        None \<Rightarrow> None
      | Some (pre, port) \<Rightarrow>
          if prefix ''['' s
          then (case str_index s '']'' of
                  None \<Rightarrow> None
                | Some k \<Rightarrow> if k + 1 = length pre
                            then (if CHR ''['' \<in> set (drop 1 s) \<or> CHR '']'' \<in> set (drop (k + 1) s) then None else Some (take (k - 1) (drop 1 s)))
                            else None)
          else if CHR '':'' \<in> set pre \<or> CHR ''['' \<in> set s \<or> CHR '']'' \<in> set s then None else Some pre)"

definition peer_host :: "string \<Rightarrow> string" where
  "peer_host remote = (case split_host remote of Some h \<Rightarrow> h | None \<Rightarrow> remote)"

text \<open>The hops from the right, until one that is not trusted.\<close>

fun walk_hops :: "resolver \<Rightarrow> string \<Rightarrow> string list \<Rightarrow> string" where
  "walk_hops r peer [] = peer"
| "walk_hops r peer (h # hs) =
     (case parse_addr (trim_space h) of
        None \<Rightarrow> peer
      | Some a \<Rightarrow> if is_trusted r a then walk_hops r peer hs else addr_text a)"

text \<open>\<open>Of\<close>: the request is its peer and the values of its forwarding header, of which \<open>Get\<close> reads the first.\<close>

definition client_of :: "resolver option \<Rightarrow> string \<Rightarrow> string list \<Rightarrow> string" where
  "client_of r remote forwarded =
     (let peer = peer_host remote
      in case r of
           None \<Rightarrow> peer
         | Some ps \<Rightarrow>
             if ps = [] then peer
             else if (case parse_addr peer of None \<Rightarrow> True | Some a \<Rightarrow> \<not> is_trusted ps a) then peer
             else (case forwarded of
                     [] \<Rightarrow> peer
                   | hops # _ \<Rightarrow> if hops = [] then peer else walk_hops ps peer (rev (split_on (CHR '','') hops))))"

section \<open>What a client can say\<close>

lemma split_on_ne: "split_on c s \<noteq> []"
  by (cases s) (auto split: list.split)

lemma split_on_cat: "split_on c (xs @ c # ys) = split_on c xs @ split_on c ys"
proof (induction xs)
  case (Cons x xs)
  then show ?case using split_on_ne [of c xs] by (cases "split_on c xs") auto
qed simp

text \<open>A hop, or a peer, that is a trusted address.\<close>

definition trusted_host :: "resolver \<Rightarrow> string \<Rightarrow> bool" where
  "trusted_host r h \<longleftrightarrow> (case parse_addr h of None \<Rightarrow> False | Some a \<Rightarrow> is_trusted r a)"

lemma walk_trusted: "list_all (\<lambda>h. trusted_host r (trim_space h)) hs \<Longrightarrow> walk_hops r peer (hs @ ms) = walk_hops r peer ms"
  by (induction hs) (auto simp: trusted_host_def split: option.splits)

lemma str_join_Cons: "hs \<noteq> [] \<Longrightarrow> str_join (h # hs) sep = h @ sep @ str_join hs sep"
  by (cases hs) simp_all

lemma split_on_forged:
  assumes "hs \<noteq> []" "\<forall>h \<in> set hs. c \<notin> set h"
  shows "\<exists>pre. split_on c (str_join (forged @ hs) [c]) = pre @ hs"
proof (induction forged)
  case (Cons f forged)
  then obtain pre where "split_on c (str_join (forged @ hs) [c]) = pre @ hs" by blast
  then have "split_on c (str_join ((f # forged) @ hs) [c]) = (split_on c f @ pre) @ hs"
    using assms(1) by (simp add: str_join_Cons split_on_cat)
  then show ?case by blast
qed (use split_on_join [OF assms(1), of c] assms(2) in auto)

lemma trusted_not_empty: "trusted_host r h \<Longrightarrow> r \<noteq> []"
  by (auto simp: trusted_host_def is_trusted_def split: option.splits)

lemma empty_hop: "parse_addr [] = None"
  by (simp add: parse_addr_def)

lemma client_by_proxy:
  assumes "trusted_host r (peer_host remote)" "hops = str_join (forged @ h # proxies) '','' "
    and "\<forall>x \<in> set (h # proxies). CHR '','' \<notin> set x" "\<forall>x \<in> set proxies. trusted_host r (trim_space x)"
    and "\<not> trusted_host r (trim_space h)"
  shows "client_of (Some r) remote (hops # others) =
    (case parse_addr (trim_space h) of None \<Rightarrow> peer_host remote | Some a \<Rightarrow> addr_text a)"
proof -
  obtain pre where pre: "split_on (CHR '','') hops = pre @ h # proxies"
    using split_on_forged [of "h # proxies" "CHR '',''" forged] assms(2,3) by auto
  have "list_all (\<lambda>x. trusted_host r (trim_space x)) (rev proxies)" using assms(4) by (simp add: list_all_iff)
  then have "walk_hops r (peer_host remote) (rev (split_on (CHR '','') hops)) = walk_hops r (peer_host remote) (h # rev pre)"
    unfolding pre using walk_trusted [of r "rev proxies" "peer_host remote" "h # rev pre"] by simp
  also have "\<dots> = (case parse_addr (trim_space h) of None \<Rightarrow> peer_host remote | Some a \<Rightarrow> addr_text a)"
    using assms(5) by (auto simp: trusted_host_def split: option.splits)
  finally have walk: "walk_hops r (peer_host remote) (rev (split_on (CHR '','') hops)) = \<dots>" .
  have "hops = [] \<Longrightarrow> h = []" using pre by (cases pre) auto
  then have "hops = [] \<Longrightarrow> parse_addr (trim_space h) = None" by (simp add: trim_space_def empty_hop)
  then show ?thesis using walk assms(1) trusted_not_empty [OF assms(1)]
    by (auto simp: client_of_def trusted_host_def Let_def split: option.splits)
qed

text \<open>
  C39. Who a client is: connecting directly it is its peer, whatever forwarding headers it sends;
  behind a trusted proxy it is the rightmost hop of the first forwarding header that is not a
  trusted proxy - the peer when that hop is no address - whatever stands to the left of it and
  whatever further headers follow.
\<close>

theorem client_unforgeable:
  "(\<not> trusted_host r (peer_host remote) \<longrightarrow> client_of (Some r) remote headers = peer_host remote) \<and>
   (\<forall>forged h proxies others. trusted_host r (peer_host remote) \<longrightarrow> (\<forall>x \<in> set (h # proxies). CHR '','' \<notin> set x) \<longrightarrow>
      (\<forall>x \<in> set proxies. trusted_host r (trim_space x)) \<longrightarrow> \<not> trusted_host r (trim_space h) \<longrightarrow>
      client_of (Some r) remote (str_join (forged @ h # proxies) '','' # others) =
        (case parse_addr (trim_space h) of None \<Rightarrow> peer_host remote | Some a \<Rightarrow> addr_text a))"
  using client_by_proxy [OF _ refl, of r remote] by (auto simp: client_of_def trusted_host_def Let_def split: option.splits)

definition demo_resolver :: resolver where
  "demo_resolver = [\<lparr>px_addr = V4 [10, 0, 0, 0], px_bits = 8\<rparr>]"

lemma demo_resolver_new: "new_resolver ['' 10.0.0.0/8 '', ''''] = Inr demo_resolver"
  by code_simp

theorem client_unforgeable_witness:
  "client_of (Some demo_resolver) ''203.0.113.9:443'' [''6.6.6.6''] = ''203.0.113.9'' \<and>
   client_of (Some demo_resolver) ''10.0.0.1:443'' [''6.6.6.6,203.0.113.9, 10.0.0.2''] = ''203.0.113.9''"
proof -
  have p: "\<not> trusted_host demo_resolver (peer_host ''203.0.113.9:443'')" "trusted_host demo_resolver (peer_host ''10.0.0.1:443'')"
    "trusted_host demo_resolver (trim_space '' 10.0.0.2'')" "\<not> trusted_host demo_resolver (trim_space ''203.0.113.9'')"
    "peer_host ''203.0.113.9:443'' = ''203.0.113.9''"
    "map_option addr_text (parse_addr (trim_space ''203.0.113.9'')) = Some ''203.0.113.9''" by code_simp+
  have j: "str_join ([''6.6.6.6''] @ ''203.0.113.9'' # ['' 10.0.0.2'']) '','' = ''6.6.6.6,203.0.113.9, 10.0.0.2''" by simp
  note c = client_unforgeable [of demo_resolver]
  have "client_of (Some demo_resolver) ''203.0.113.9:443'' [''6.6.6.6''] = ''203.0.113.9''"
    using c [of "''203.0.113.9:443''" "[''6.6.6.6'']"] p(1,5) by simp
  moreover obtain x where "parse_addr (trim_space ''203.0.113.9'') = Some x" "addr_text x = ''203.0.113.9''" using p(6) by auto
  moreover have "\<forall>x \<in> set [''203.0.113.9'', '' 10.0.0.2'']. CHR '','' \<notin> set x" "\<forall>x \<in> set ['' 10.0.0.2'']. trusted_host demo_resolver (trim_space x)"
    using p(3) by simp_all
  then have "client_of (Some demo_resolver) ''10.0.0.1:443'' [''6.6.6.6,203.0.113.9, 10.0.0.2''] =
      (case parse_addr (trim_space ''203.0.113.9'') of None \<Rightarrow> peer_host ''10.0.0.1:443'' | Some a \<Rightarrow> addr_text a)"
    unfolding j [symmetric] using c p(2,4) by blast
  ultimately show ?thesis by simp
qed

text \<open>
  A proxy that adds a header of its own instead of appending to the one it received leaves the
  client's first, and that is the one that is read: the client names its address.
\<close>

lemma first_header_read: "client_of r remote (h # hs) = client_of r remote [h]"
  by (simp add: client_of_def Let_def split: option.split)

lemma separate_header_forged: "client_of (Some demo_resolver) ''10.0.0.1:443'' [''6.6.6.6'', ''203.0.113.9''] = ''6.6.6.6''"
  by code_simp

text \<open>Addresses of either family read back from their text.\<close>

lemma addr_examples:
  "map_option addr_text (parse_addr ''2001:DB8::0:1'') = Some ''2001:db8::1''"
  "map_option addr_text (parse_addr ''::ffff:10.1.2.3'') = Some ''::ffff:10.1.2.3''"
  "map_option addr_text (parse_addr ''fe80::1%eth0'') = Some ''fe80::1%eth0''"
  "parse_addr ''1.2.3'' = None" "parse_addr ''1.2.3.04'' = None" "parse_addr ''1:2:3:4:5:6:7::8'' = None"
  by code_simp+

end
