(* ===== verification/Rate_Limit.thy ===== *)
theory Rate_Limit
  imports Client_Ip
begin

text \<open>
  The per-address rate limiter, \<open>backend/internal/ratelimit/ratelimit.go\<close>: a bounded table of
  token buckets with one bucket shared by those it has no room for. The bucket is
  \<open>golang.org/x/time/rate\<close>: \<open>fresh\<close> makes one, \<open>take_token\<close> asks it at a time.
\<close>

section \<open>The limiter\<close>

record 'l rate_limiter =
  rl_rate :: real
  rl_burst :: int
  rl_ttl :: int
  rl_max :: int
  rl_overflow :: 'l
  rl_clients :: "(string, 'l \<times> gotime) gomap"
  rl_gc :: gotime

definition default_max_clients :: int where "default_max_clients = 100000"

definition new_rate_limiter :: "(real \<Rightarrow> int \<Rightarrow> 'l) \<Rightarrow> gotime \<Rightarrow> real \<Rightarrow> int \<Rightarrow> 'l rate_limiter" where
  "new_rate_limiter fresh now rps burst =
     (let burst = (if burst < 1 then 1 else burst)
      in \<lparr>rl_rate = rps, rl_burst = burst, rl_ttl = 10 * 60 * second_ns, rl_max = default_max_clients,
          rl_overflow = fresh rps burst, rl_clients = [], rl_gc = now\<rparr>)"

definition with_max_clients :: "int \<Rightarrow> 'l rate_limiter \<Rightarrow> 'l rate_limiter" where
  "with_max_clients n l = (if n > 0 then l\<lparr>rl_max := n\<rparr> else l)"

definition tracked_clients :: "'l rate_limiter option \<Rightarrow> nat" where
  "tracked_clients l = (case l of None \<Rightarrow> 0 | Some l \<Rightarrow> length (rl_clients l))"

definition rate_enabled :: "'l rate_limiter option \<Rightarrow> bool" where
  "rate_enabled l = (case l of None \<Rightarrow> False | Some l \<Rightarrow> rl_rate l > 0)"

definition rate_swept :: "gotime \<Rightarrow> 'l rate_limiter \<Rightarrow> 'l rate_limiter" where
  "rate_swept now l =
     (if now - rl_gc l > rl_ttl l \<or> int (length (rl_clients l)) > rl_max l
      then l\<lparr>rl_clients := filter (\<lambda>(k, b, seen). \<not> now - seen > rl_ttl l) (rl_clients l), rl_gc := now\<rparr> else l)"

definition rate_allow ::
  "(real \<Rightarrow> int \<Rightarrow> 'l) \<Rightarrow> (gotime \<Rightarrow> 'l \<Rightarrow> bool \<times> 'l) \<Rightarrow> gotime \<Rightarrow> string \<Rightarrow> 'l rate_limiter \<Rightarrow> bool \<times> 'l rate_limiter" where
  "rate_allow fresh take_token now ip l0 =
     (let l = rate_swept now l0
      in if \<not> gm_has (rl_clients l) ip \<and> int (length (rl_clients l)) \<ge> rl_max l
         then (let (ok, b) = take_token now (rl_overflow l) in (ok, l\<lparr>rl_overflow := b\<rparr>))
         else (let b = (case map_of (rl_clients l) ip of Some (b, _) \<Rightarrow> b | None \<Rightarrow> fresh (rl_rate l) (rl_burst l));
                   (ok, b) = take_token now b
               in (ok, l\<lparr>rl_clients := AList.update ip (b, now) (rl_clients l)\<rparr>)))"

text \<open>\<open>Middleware\<close>: whether the request is served; the limiter keys on what the resolver says.\<close>

definition rate_admits ::
  "(real \<Rightarrow> int \<Rightarrow> 'l) \<Rightarrow> (gotime \<Rightarrow> 'l \<Rightarrow> bool \<times> 'l) \<Rightarrow> resolver option \<Rightarrow> gotime \<Rightarrow> string \<Rightarrow> string list \<Rightarrow>
     'l rate_limiter \<Rightarrow> bool \<times> 'l rate_limiter" where
  "rate_admits fresh take_token r now remote forwarded l =
     (if \<not> rate_enabled (Some l) then (True, l) else rate_allow fresh take_token now (client_of r remote forwarded) l)"

section \<open>Runs\<close>

fun rate_run ::
  "(real \<Rightarrow> int \<Rightarrow> 'l) \<Rightarrow> (gotime \<Rightarrow> 'l \<Rightarrow> bool \<times> 'l) \<Rightarrow> (gotime \<times> string) list \<Rightarrow> 'l rate_limiter \<Rightarrow> bool list \<times> 'l rate_limiter" where
  "rate_run fresh take_token [] l = ([], l)"
| "rate_run fresh take_token ((now, ip) # rs) l =
     (let (ok, l) = rate_allow fresh take_token now ip l; (oks, l) = rate_run fresh take_token rs l in (ok # oks, l))"

definition rate_ok :: "'l rate_limiter \<Rightarrow> bool" where
  "rate_ok l \<longleftrightarrow> gm_ok (rl_clients l) \<and> int (length (rl_clients l)) \<le> rl_max l \<and> rl_max l > 0"

lemma new_rate_ok: "rate_ok (with_max_clients n (new_rate_limiter fresh now rps burst))"
  by (simp add: rate_ok_def with_max_clients_def new_rate_limiter_def default_max_clients_def Let_def)

lemma rate_swept_ok: "rate_ok l \<Longrightarrow> rate_ok (rate_swept now l)"
  by (auto simp: rate_ok_def rate_swept_def intro: order_trans [OF of_nat_mono [OF length_filter_le]])

lemma rate_swept_same [simp]: "rl_max (rate_swept now l) = rl_max l" "rl_ttl (rate_swept now l) = rl_ttl l"
  "rl_rate (rate_swept now l) = rl_rate l" "rl_burst (rate_swept now l) = rl_burst l"
  by (simp_all add: rate_swept_def)

lemma length_alist_update: "length (AList.update k v m) = (if gm_has m k then length m else Suc (length m))"
  by (induction m) (auto simp: gm_has_def)

lemma rate_allow_ok: "rate_ok l \<Longrightarrow> rate_ok (snd (rate_allow fresh take_token now ip l)) \<and> rl_ttl (snd (rate_allow fresh take_token now ip l)) = rl_ttl l"
proof -
  assume ok: "rate_ok l"
  let ?l = "rate_swept now l"
  have s: "rate_ok ?l" using ok by (rule rate_swept_ok)
  then show ?thesis by (auto simp: rate_allow_def rate_ok_def length_alist_update Let_def split: prod.split)
qed

lemma rate_run_ok: "rate_ok l \<Longrightarrow> rate_ok (snd (rate_run fresh take_token rs l))"
proof (induction rs arbitrary: l)
  case (Cons r rs)
  obtain now ip where r: "r = (now, ip)" by force
  then show ?case using Cons.IH [of "snd (rate_allow fresh take_token now ip l)"] rate_allow_ok [OF Cons.prems, of fresh take_token now ip]
    by (simp add: Let_def case_prod_beta)
qed simp

section \<open>A client's own bucket\<close>

fun bucket_run :: "(gotime \<Rightarrow> 'l \<Rightarrow> bool \<times> 'l) \<Rightarrow> 'l \<Rightarrow> gotime list \<Rightarrow> bool list" where
  "bucket_run take_token b [] = []"
| "bucket_run take_token b (t # ts) = (let (ok, b) = take_token t b in ok # bucket_run take_token b ts)"

text \<open>No request comes more than \<open>ttl\<close> after the last of \<open>ip\<close>.\<close>

fun stays_active :: "int \<Rightarrow> string \<Rightarrow> gotime \<Rightarrow> (gotime \<times> string) list \<Rightarrow> bool" where
  "stays_active ttl ip seen [] = True"
| "stays_active ttl ip seen ((t, i) # rs) \<longleftrightarrow> t - seen \<le> ttl \<and> stays_active ttl ip (if i = ip then t else seen) rs"

definition answers_to :: "string \<Rightarrow> (gotime \<times> string) list \<Rightarrow> bool list \<Rightarrow> bool list" where
  "answers_to ip rs oks = map snd (filter (\<lambda>((t, i), ok). i = ip) (zip rs oks))"

definition times_of :: "string \<Rightarrow> (gotime \<times> string) list \<Rightarrow> gotime list" where
  "times_of ip rs = map fst (filter (\<lambda>(t, i). i = ip) rs)"

lemma swept_keeps: "gm_ok (rl_clients l) \<Longrightarrow> map_of (rl_clients l) ip = Some (b, seen) \<Longrightarrow> now - seen \<le> rl_ttl l \<Longrightarrow>
   map_of (rl_clients (rate_swept now l)) ip = Some (b, seen)"
  by (auto simp: rate_swept_def gm_ok_def intro!: map_of_is_SomeI distinct_map_filter dest: map_of_SomeD)

lemma allow_own:
  assumes "rate_ok l" "map_of (rl_clients l) ip = Some (b, seen)" "now - seen \<le> rl_ttl l"
  shows "fst (rate_allow fresh take_token now ip l) = fst (take_token now b) \<and>
    map_of (rl_clients (snd (rate_allow fresh take_token now ip l))) ip = Some (snd (take_token now b), now)"
  using swept_keeps [OF _ assms(2,3)] assms(1)
  by (auto simp: rate_allow_def rate_ok_def gm_has_def map_of_update Let_def split: prod.split)

lemma allow_other:
  assumes "rate_ok l" "map_of (rl_clients l) ip = Some (b, seen)" "now - seen \<le> rl_ttl l" "i \<noteq> ip"
  shows "map_of (rl_clients (snd (rate_allow fresh take_token now i l))) ip = Some (b, seen)"
  using swept_keeps [OF _ assms(2,3)] assms(1,4)
  by (auto simp: rate_allow_def rate_ok_def map_of_update Let_def split: prod.split)

lemma own_bucket_run:
  "rate_ok l \<Longrightarrow> map_of (rl_clients l) ip = Some (b, seen) \<Longrightarrow> stays_active (rl_ttl l) ip seen rs \<Longrightarrow>
     answers_to ip rs (fst (rate_run fresh take_token rs l)) = bucket_run take_token b (times_of ip rs)"
proof (induction rs arbitrary: l b seen)
  case Nil
  then show ?case by (simp add: answers_to_def times_of_def)
next
  case (Cons r rs)
  obtain t i where r: "r = (t, i)" by force
  let ?a = "rate_allow fresh take_token t i l"
  have le: "t - seen \<le> rl_ttl l" using Cons.prems(3) r by simp
  have ok: "rate_ok (snd ?a)" "rl_ttl (snd ?a) = rl_ttl l" using rate_allow_ok [OF Cons.prems(1)] by blast+
  have unf: "fst (rate_run fresh take_token (r # rs) l) = fst ?a # fst (rate_run fresh take_token rs (snd ?a))"
    by (simp add: r Let_def case_prod_beta)
  show ?case
  proof (cases "i = ip")
    case True
    note own = allow_own [OF Cons.prems(1,2) le, of fresh take_token, folded True]
    have "answers_to ip rs (fst (rate_run fresh take_token rs (snd ?a))) = bucket_run take_token (snd (take_token t b)) (times_of ip rs)"
      using Cons.IH [OF ok(1), of "snd (take_token t b)" t] own Cons.prems(3) ok(2) r True by simp
    then show ?thesis unfolding unf using own r True by (simp add: answers_to_def times_of_def case_prod_beta Let_def)
  next
    case False
    have "answers_to ip rs (fst (rate_run fresh take_token rs (snd ?a))) = bucket_run take_token b (times_of ip rs)"
      using Cons.IH [OF ok(1) allow_other [OF Cons.prems(1,2) le False]] Cons.prems(3) ok(2) r False by simp
    then show ?thesis unfolding unf using r False by (simp add: answers_to_def times_of_def)
  qed
qed

text \<open>
  C40. The table of clients never exceeds its bound, whoever asks; and a client in it is answered
  by its own bucket alone, as long as it is not idle past the limit: what the others do neither
  spends its tokens nor gives it any.
\<close>

theorem rate_limit_own_bucket:
  assumes "map_of (rl_clients l) ip = Some (b, seen)" and "stays_active (rl_ttl l) ip seen rs"
    and "l = snd (rate_run fresh take_token rs0 (with_max_clients n (new_rate_limiter fresh now rps burst)))"
  shows "int (length (rl_clients (snd (rate_run fresh take_token rs l)))) \<le> rl_max l \<and>
    answers_to ip rs (fst (rate_run fresh take_token rs l)) = bucket_run take_token b (times_of ip rs)"
proof -
  have ok: "rate_ok l" unfolding assms(3) by (rule rate_run_ok [OF new_rate_ok])
  have "rl_max (snd (rate_allow fresh take_token t i k)) = rl_max k" for t i k
    by (simp add: rate_allow_def Let_def split: prod.split)
  then have "rl_max (snd (rate_run fresh take_token rs k)) = rl_max k" for k
    by (induction rs arbitrary: k) (auto simp: Let_def case_prod_beta)
  then show ?thesis using rate_run_ok [OF ok, of fresh take_token rs] own_bucket_run [OF ok assms(1,2)] by (simp add: rate_ok_def)
qed

text \<open>A bucket that holds a count and never refills.\<close>

definition count_fresh :: "real \<Rightarrow> int \<Rightarrow> int" where "count_fresh rps burst = burst"

definition count_take :: "gotime \<Rightarrow> int \<Rightarrow> bool \<times> int" where
  "count_take t b = (if b > 0 then (True, b - 1) else (False, b))"

theorem rate_limit_own_bucket_witness:
  "answers_to ''a'' [(2, ''b''), (3, ''a''), (4, ''b''), (5, ''a'')]
     (fst (rate_run count_fresh count_take [(2, ''b''), (3, ''a''), (4, ''b''), (5, ''a'')]
        (snd (rate_run count_fresh count_take [(1, ''a'')] (with_max_clients 1 (new_rate_limiter count_fresh 0 1 2)))))) = [True, False]"
proof -
  let ?l = "snd (rate_run count_fresh count_take [(1, ''a'')] (with_max_clients 1 (new_rate_limiter count_fresh 0 1 2)))"
  have l: "?l = \<lparr>rl_rate = 1, rl_burst = 2, rl_ttl = 10 * 60 * second_ns, rl_max = 1, rl_overflow = 2, rl_clients = [(''a'', 1, 1)], rl_gc = 0\<rparr>"
    by (simp add: new_rate_limiter_def with_max_clients_def rate_allow_def rate_swept_def count_fresh_def count_take_def gm_has_def second_ns_def Let_def)
  have "map_of (rl_clients ?l) ''a'' = Some (1, 1)" "stays_active (rl_ttl ?l) ''a'' 1 [(2, ''b''), (3, ''a''), (4, ''b''), (5, ''a'')]"
    unfolding l by (simp_all add: second_ns_def)
  from rate_limit_own_bucket [OF this refl] show ?thesis by (simp add: times_of_def count_take_def Let_def)
qed

section \<open>The sweep that never runs\<close>

text \<open>
  The sweep is to run as well when the table outgrows its bound, and the bound is never
  outgrown: a full table of clients long gone is kept, and a new client shares the overflow
  bucket, until the periodic sweep.
\<close>

lemma size_never_sweeps: "rate_ok l \<Longrightarrow> \<not> now - rl_gc l > rl_ttl l \<Longrightarrow> rate_swept now l = l"
  by (simp add: rate_swept_def rate_ok_def)

lemma stale_table_kept:
  assumes "rate_ok l" "int (length (rl_clients l)) = rl_max l" "\<not> now - rl_gc l > rl_ttl l" "\<not> gm_has (rl_clients l) ip"
  shows "fst (rate_allow fresh take_token now ip l) = fst (take_token now (rl_overflow l)) \<and>
    rl_clients (snd (rate_allow fresh take_token now ip l)) = rl_clients l"
  using assms size_never_sweeps [OF assms(1,3)] by (simp add: rate_allow_def Let_def split: prod.split)

end
