(* ===== verification/Spec2Isabelle.thy ===== *)
theory Spec2Isabelle
  imports Port_Sets Critical_Paths What_If Memory_Laws Triage Iam_Graph
    Analyzer_Laws Verdict_Laws Suppressions
    Normalizer_Laws Access_Laws History_Laws Audit_Laws Cloudnet_Laws
    Broker_Laws Broker_Sweep Calibration_Laws Holdout_Laws
    Rate_Limit
begin

text \<open>
  PerspectiveGraph: a verification library.

  PerspectiveGraph (\<open>src/backend\<close>) turns the reports of security tools into one graph of
  assets and searches it for the routes an attacker would take. Collectors read a tool's
  output into events of nodes and edges; the bus carries the events, split to the size of a
  message; the normalizer makes identities agree and applies each event to its tenant's
  store; the analyzer reads the store on a tick, finds and ranks the attack paths, simulates
  the risk, checks the architectural invariants and publishes; people answer back with
  verdicts and suppressions, through doors that authenticate, lock out, redact and audit.

  \<^bold>\<open>Theories and the code they model\<close> (paths under \<open>src/backend\<close>)

  \<^item> Shared ground. \<open>PG_Prelude\<close>: Go strings, maps, times and dynamic values, with the lemma
    collections \<open>go_map\<close> and \<open>go_string\<close>. \<open>Ontology\<close>: \<open>pkg/ontology\<close>, with SHA-1 for node ids.
    \<open>Sha256\<close>: SHA-256 and HMAC, of Go's \<open>crypto\<close>.
  \<^item> Collecting. \<open>Port_Sets\<close>: \<open>internal/ingestion/ports.go\<close>. \<open>Iam_Policy\<close>, \<open>Iam_Graph\<close>:
    \<open>internal/ingestion/iam\<close>, \<open>arn.go\<close>, \<open>severity.go\<close>. \<open>Cloudnet\<close>, \<open>Cloudnet_Laws\<close>:
    \<open>internal/ingestion/cloudnet\<close>, \<open>loadbalancer.go\<close>, \<open>imds.go\<close>.
  \<^item> Carrying. \<open>Broker\<close>, \<open>Broker_Laws\<close>, \<open>Broker_Sweep\<close>: \<open>internal/broker\<close>. \<open>Scrub\<close>:
    \<open>internal/scrub\<close>. \<open>Normalizer\<close>, \<open>Normalizer_Laws\<close>: \<open>internal/normalization\<close> and the writing
    half of \<open>internal/threatintel\<close>. \<open>Tenants\<close>: \<open>internal/graph/manager.go\<close>.
  \<^item> Storing. \<open>Graph_Store\<close>: \<open>internal/graph/store.go\<close>, its contract the locale \<open>graph_store\<close>.
    \<open>Memory_Store\<close>, \<open>Memory_Laws\<close>: \<open>internal/graph/memory\<close>.
  \<^item> Analysing (\<open>internal/analyzer\<close>). \<open>Min_Heap\<close>, \<open>Dijkstra\<close>, \<open>Attack_Path\<close>, \<open>Critical_Paths\<close>:
    \<open>attackpath.go\<close>. \<open>K_Shortest\<close>, \<open>What_If\<close>: \<open>kshortest.go\<close>. \<open>Monte_Carlo\<close>, \<open>Risk_Simulation\<close>:
    \<open>montecarlo.go\<close>. \<open>Profiles\<close>: \<open>profiles.go\<close>. \<open>Uncertainty\<close>: \<open>uncertainty.go\<close>. \<open>Triage\<close>:
    \<open>priority.go\<close>. \<open>Policy_Invariants\<close>: \<open>internal/policy\<close>. \<open>Analyzer_Pass\<close>, \<open>Analyzer_Laws\<close>:
    \<open>service.go\<close> and the drift of \<open>internal/notify\<close>.
  \<^item> Remembering. \<open>History\<close>, \<open>History_Laws\<close>: \<open>internal/history\<close>. \<open>Verdicts\<close>, \<open>Verdict_Log\<close>,
    \<open>Verdict_Laws\<close>: \<open>internal/validation\<close>; \<open>Calibration\<close>, \<open>Calibration_Laws\<close>: its
    \<open>calibration.go\<close>, \<open>diagnostics.go\<close> and \<open>discrimination.go\<close>. \<open>Kev_Holdout\<close>, \<open>Holdout_Laws\<close>:
    \<open>internal/kevholdout\<close> and the live source of \<open>internal/threatintel\<close>. \<open>Suppressions\<close>: \<open>internal/suppress\<close>. \<open>Audit_Log\<close>,
    \<open>Audit_Laws\<close>: \<open>internal/audit\<close>.
  \<^item> Guarding. \<open>Secwatch\<close>, \<open>Secwatch_Laws\<close>: \<open>internal/secwatch\<close>. \<open>Auth\<close>, \<open>Access_Laws\<close>:
    \<open>internal/auth\<close>. \<open>Client_Ip\<close>: \<open>internal/clientip\<close>, with the addresses of \<open>net/netip\<close>.
    \<open>Rate_Limit\<close>: \<open>internal/ratelimit\<close>.

  \<^bold>\<open>How the code is read\<close>

  \<^item> A struct is a record whose fields carry a two-letter prefix, an enumeration or a tagged
    union a datatype, a method a function that takes the receiver's state and returns it.
    A mutex makes each critical section one step; where sections interleave - the worker pool,
    the rewriting verdict log, the replicas on the bus - there is a step relation, and the
    theorem is about every run of it.
  \<^item> \<open>float64\<close> is \<open>real\<close>; integers are \<open>int\<close> or \<open>nat\<close> except where their width matters, and then
    words (the draws of the simulation, the hashes). \<open>time.Time\<close> is \<open>int\<close>, nanoseconds from
    Go's zero time, and the clock is an argument.
  \<^item> A Go string is its list of bytes. Case folding and white space follow package \<open>strings\<close> on
    ASCII. A Go map is an association list with distinct keys; a range follows the list, and
    what is proved of a range is stated so that the order does not matter or says that it does.
  \<^item> An error is a value: a datatype of the package's errors on the left of a sum, or an
    option. An outer \<open>None\<close> is a loop that does not end; that this never happens is proved
    where the code promises an answer. \<open>sort.Slice\<close> is the stable sort.
  \<^item> What is not under \<open>src\<close> is a parameter: the sealing of a file and JSON (\<open>enc\<close>, \<open>dec\<close>, \<open>parse\<close>,
    the record \<open>codec\<close>), random generators, JWT verification, threat feeds, the success of a
    write to a disk or a bucket. What is assumed of one is named in the theorem - that a
    decoder inverts its encoder on the values written - and each has a witness.

  \<^bold>\<open>What the groups of lemmas show\<close>

  \<^item> Search: one best route per pair (\<open>critical_paths_best\<close>), independent of the schedule of the
    workers and ranked by runtime alerts and scores (\<open>critical_paths_ranked\<close>), and all simple routes in order from Yen's algorithm (\<open>k_shortest_complete\<close>). The
    locale \<open>sp_graph\<close> holds Dijkstra's proof, \<open>min_queue\<close> the queue's contract; both are
    interpreted on the code's slice heap and adjacency.
  \<^item> Store: the locale \<open>graph_store\<close> is the contract, interpreted by the memory backend; its
    invariant over every history; which elements a graph has does not depend on the order of
    events, what one holds only on the order of its own writes; a sweep takes what was
    withdrawn and no more; counters move when the graph does.
  \<^item> Simulation: a trial is reachability over drawn edges; cuts never raise a risk; bands and
    anchors stay within bounds.
  \<^item> Analyzer pass: what it publishes is the analysis of the store's graph after a full read, and
    between full reads of that graph but for late writes (\<open>published_is_current\<close>).
  \<^item> Collectors: port sets against the ports they contain; permission evaluation and the
    escalation edges of a whole account against the documents; exposure and lateral movement against the network's configuration.
  \<^item> Bus: the chunks of an event are the event, and leave its graph where the normalizer makes
    the same of them; nothing is swept before a whole batch is handled; deliveries may repeat and
    reorder.
  \<^item> Memory of people's decisions: what was acknowledged is on disk and reads back - the verdict
    log as long as no write that owes a rewrite meets a running one and no restart reads a torn
    file, the audit chain as long as no write tears and JSON gives its records back; two audit
    files of one end hash are one file up to a collision.
  \<^item> Evidence: the published AUC is the share of pairs the score orders rightly, the isotonic map
    the best monotone rescaling, and a graded forecast was sealed a window before its outcome.
  \<^item> Doors: privilege needs a live credential, a lockout is exactly what one's own failures start,
    a version 2 signature works once, tenants do not touch each other, a client is known by its
    peer or by the hop its trusted proxies saw, and has a rate limit of its own.

  \<^bold>\<open>Bounds and fuel\<close>

  Loops recurse on lists or measures. Dijkstra and the trials are \<open>while_option\<close>, proved to stop;
  the anchor search has Go's own bound of 61 evaluations. Yen's loop is bounded by \<open>k\<close>, the
  breadth-first search by the nodes not yet visited. No theorem holds only up to a fuel.

  \<^bold>\<open>Where promises end\<close>

  Some lemmas exhibit what the code does against its own comments: a delta read that misses a
  parked edge (\<open>parked_edge_missed\<close>), a guess that replaces a fact parked before it
  (\<open>parked_guess_replaces_fact\<close>), a failed pass taken for done (\<open>failed_pass_skipped\<close>), a
  verdict lost to a running rewrite or behind a torn tail, a resolution forgotten on reopening,
  a lockout evicted by a flood (\<open>flood_unlocks\<close>), an address named
  by the client behind a proxy that adds a header of its own (\<open>separate_header_forged\<close>), a
  forecast refuted by a feed that never answered (\<open>outage_refutes\<close>), equal scores mapped to one
  outcome (\<open>tied_scores_mispredicted\<close>), a record the audit log writes and then refuses
  (\<open>invalid_byte_fails_verify\<close>, \<open>torn_line_refused\<close>), a balancer keyed two ways, and what a
  split event loses in the normalizer.

  \<^bold>\<open>Not modelled\<close>

  Reading tools' JSON into structs; collectors other than those above; the Apache AGE and
  Postgres backends, whose behaviour is SQL's; the GraphQL and HTTP servers, the command line,
  configuration; the connectors to cloud APIs, NATS, chat and ticket systems; the language
  model and MCP front ends; metrics, tracing and log lines. \<open>PROJECT.json\<close> lists each.
\<close>

end
